(* ===== verification/NV_Prelude.thy ===== *)
theory NV_Prelude
  imports Complex_Main "HOL-Library.Word"
begin

text \<open>
  Shared vocabulary of the development: the widths of the C integer types the sources use,
  the list operations that stand for the kernel's intrusive lists (unlinking the node at a
  position, searching a list front to back), and the interface \<open>sized_cache\<close> of the two
  DRAM caches of the computational storage device (\<^verbatim>\<open>core/csd_edge_buffer.c\<close> and
  \<^verbatim>\<open>core/csd_vertex_buffer.c\<close>): a list of units, a byte counter and a capacity.
\<close>

named_theorems cache_defs \<open>definitions of the cache operations\<close>
named_theorems task_queue_defs \<open>definitions of the task queue operations\<close>

section \<open>Machine integers\<close>

type_synonym u8 = "8 word"
type_synonym u16 = "16 word"
type_synonym u32 = "32 word"
type_synonym u64 = "64 word"

text \<open>
  \<^verbatim>\<open>x / PAGE_SIZE\<close> for a \<^verbatim>\<open>long long\<close> \<open>x\<close>: \<^verbatim>\<open>PAGE_SIZE\<close> is an \<^verbatim>\<open>unsigned long\<close>, so the usual
  arithmetic conversions take \<open>x\<close> modulo \<open>2 ^ 64\<close> before the division.
\<close>

definition div_page :: "int \<Rightarrow> int" where
  "div_page x = (x mod 2 ^ 64) div 4096"

lemma div_page_nonneg: "0 \<le> x \<Longrightarrow> x < 2 ^ 64 \<Longrightarrow> div_page x = x div 4096"
  by (simp add: div_page_def)

lemma div_page_ge_0 [simp]: "0 \<le> div_page x"
  by (simp add: div_page_def pos_imp_zdiv_nonneg_iff)

lemma div_page_mono: "0 \<le> x \<Longrightarrow> x \<le> y \<Longrightarrow> y < 2 ^ 64 \<Longrightarrow> div_page x \<le> div_page y"
  by (simp add: div_page_nonneg zdiv_mono1)

section \<open>Intrusive lists\<close>

text \<open>\<^verbatim>\<open>list_del\<close> of the node at position \<open>i\<close>.\<close>

definition remove_nth :: "nat \<Rightarrow> 'a list \<Rightarrow> 'a list" where
  "remove_nth i xs = take i xs @ drop (Suc i) xs"

text \<open>\<^verbatim>\<open>list_for_each_entry\<close> with a \<^verbatim>\<open>break\<close> or \<^verbatim>\<open>return\<close> at the first node that satisfies the test.\<close>

fun find_idx :: "('a \<Rightarrow> bool) \<Rightarrow> 'a list \<Rightarrow> nat option" where
  "find_idx P [] = None"
| "find_idx P (x # xs) = (if P x then Some 0 else map_option Suc (find_idx P xs))"

lemma length_remove_nth [simp]: "i < length xs \<Longrightarrow> length (remove_nth i xs) = length xs - 1"
  by (simp add: remove_nth_def)

lemma set_remove_nth_subset: "set (remove_nth i xs) \<subseteq> set xs"
  by (auto simp: remove_nth_def dest: in_set_takeD in_set_dropD)

lemma remove_nth_0 [simp]: "remove_nth 0 (x # xs) = xs"
  by (simp add: remove_nth_def)

lemma remove_nth_Suc [simp]: "remove_nth (Suc i) (x # xs) = x # remove_nth i xs"
  by (simp add: remove_nth_def)

lemma map_remove_nth: "map f (remove_nth i xs) = remove_nth i (map f xs)"
  by (simp add: remove_nth_def take_map drop_map)

lemma sum_list_remove_nth:
  "i < length xs \<Longrightarrow> sum_list (remove_nth i xs) = sum_list xs - (xs ! i :: int)"
proof (induction xs arbitrary: i)
  case Nil
  then show ?case by simp
next
  case (Cons x xs)
  then show ?case by (cases i) auto
qed

lemma distinct_remove_nth: "distinct xs \<Longrightarrow> distinct (remove_nth i xs)"
  by (auto simp: remove_nth_def set_take_disj_set_drop_if_distinct)

lemma set_remove_nth_distinct:
  "distinct xs \<Longrightarrow> i < length xs \<Longrightarrow> set (remove_nth i xs) = set xs - {xs ! i}"
proof (induction xs arbitrary: i)
  case Nil
  then show ?case by simp
next
  case (Cons x xs)
  then show ?case by (cases i) auto
qed

lemma sum_list_update_int:
  "i < length xs \<Longrightarrow> sum_list (xs[i := v]) = sum_list xs - xs ! i + (v :: int)"
proof (induction xs arbitrary: i)
  case Nil
  then show ?case by simp
next
  case (Cons x xs)
  then show ?case by (cases i) auto
qed

lemma find_idx_None [simp]: "find_idx P xs = None \<longleftrightarrow> (\<forall>x \<in> set xs. \<not> P x)"
  by (induction xs) auto

lemma find_idx_SomeD:
  "find_idx P xs = Some i \<Longrightarrow> i < length xs \<and> P (xs ! i) \<and> (\<forall>j < i. \<not> P (xs ! j))"
proof (induction xs arbitrary: i)
  case Nil
  then show ?case by simp
next
  case (Cons x xs)
  then show ?case
    by (cases i) (auto split: if_splits simp: nth_Cons')
qed

lemma find_idx_find:
  "find P xs = map_option (\<lambda>i. xs ! i) (find_idx P xs)"
  by (induction xs) (auto simp: option.map_comp o_def intro: option.map_cong)

lemma find_append: "find P (xs @ ys) = (case find P xs of None \<Rightarrow> find P ys | Some x \<Rightarrow> Some x)"
  by (induction xs) auto

lemma find_SomeD: "find P xs = Some x \<Longrightarrow> x \<in> set xs \<and> P x"
  by (auto simp: find_Some_iff)

section \<open>The interface of the device's DRAM caches\<close>

text \<open>
  Both caches keep a list of units, a running byte count and a capacity. The contract:
  the byte count is the sum of the units' sizes, no unit has a negative size, no two units
  have the same key, and the count does not exceed the capacity.
\<close>

definition cache_wf :: "('u \<Rightarrow> int) \<Rightarrow> ('u \<Rightarrow> 'k) \<Rightarrow> 'u list \<Rightarrow> int \<Rightarrow> bool" where
  "cache_wf bytes key us sz \<longleftrightarrow>
     sz = sum_list (map bytes us) \<and> (\<forall>u \<in> set us. 0 \<le> bytes u) \<and> distinct (map key us)"

definition cache_lookup :: "('u \<Rightarrow> int) \<Rightarrow> ('u \<Rightarrow> 'k) \<Rightarrow> 'u list \<Rightarrow> 'k \<Rightarrow> int" where
  "cache_lookup bytes key us k = (case find (\<lambda>u. key u = k) us of None \<Rightarrow> -1 | Some u \<Rightarrow> bytes u)"

text \<open>
  \<open>unlink i\<close> is the sequence \<^verbatim>\<open>buf->size -= unit->size; list_del(&unit->list)\<close> on the unit at
  position \<open>i\<close>, \<open>link u\<close> is \<^verbatim>\<open>buf->size += unit->size; list_add_tail(&unit->list, &buf->head)\<close>.
\<close>

locale sized_cache =
  fixes units :: "'b \<Rightarrow> 'u list"
    and used :: "'b \<Rightarrow> int"
    and cap :: "'b \<Rightarrow> int"
    and bytes :: "'u \<Rightarrow> int"
    and key :: "'u \<Rightarrow> 'k"
    and unlink :: "nat \<Rightarrow> 'b \<Rightarrow> 'b"
    and link :: "'u \<Rightarrow> 'b \<Rightarrow> 'b"
  assumes units_unlink: "units (unlink i b) = remove_nth i (units b)"
    and used_unlink: "used (unlink i b) = used b - bytes (units b ! i)"
    and cap_unlink: "cap (unlink i b) = cap b"
    and units_link: "units (link u b) = units b @ [u]"
    and used_link: "used (link u b) = used b + bytes u"
    and cap_link: "cap (link u b) = cap b"
begin

lemmas cache_laws = units_unlink used_unlink cap_unlink units_link used_link cap_link

definition wf :: "'b \<Rightarrow> bool" where
  "wf b \<longleftrightarrow> cache_wf bytes key (units b) (used b)"

definition lookup :: "'b \<Rightarrow> 'k \<Rightarrow> int" where
  "lookup b k = cache_lookup bytes key (units b) k"

lemma wf_unlink: "wf b \<Longrightarrow> i < length (units b) \<Longrightarrow> wf (unlink i b)"
  using set_remove_nth_subset [of i "units b"]
  by (auto simp: wf_def cache_wf_def cache_laws map_remove_nth sum_list_remove_nth
      distinct_remove_nth)

lemma wf_link:
  "wf b \<Longrightarrow> 0 \<le> bytes u \<Longrightarrow> key u \<notin> key ` set (units b) \<Longrightarrow> wf (link u b)"
  by (auto simp: wf_def cache_wf_def cache_laws)

lemma used_nonneg: "wf b \<Longrightarrow> 0 \<le> used b"
  by (auto simp: wf_def cache_wf_def intro!: sum_list_nonneg)

lemma used_empty: "wf b \<Longrightarrow> units b = [] \<Longrightarrow> used b = 0"
  by (simp add: wf_def cache_wf_def)

lemma unlink_used_le: "wf b \<Longrightarrow> i < length (units b) \<Longrightarrow> used (unlink i b) \<le> used b"
  by (simp add: wf_def cache_wf_def cache_laws)

lemma lookup_none_iff: "wf b \<Longrightarrow> lookup b k = -1 \<longleftrightarrow> k \<notin> key ` set (units b)"
  by (force simp: lookup_def cache_lookup_def wf_def cache_wf_def find_None_iff
      split: option.splits dest: find_SomeD)

lemma lookup_ge: "wf b \<Longrightarrow> -1 \<le> lookup b k"
  by (force simp: lookup_def cache_lookup_def wf_def cache_wf_def
      split: option.splits dest: find_SomeD)

lemma lookup_link_same:
  assumes "key u = k" and "k \<notin> key ` set (units b)"
  shows "lookup (link u b) k = bytes u"
proof -
  have "find (\<lambda>v. key v = k) (units b) = None"
    using assms(2) by (auto simp: find_None_iff)
  then show ?thesis
    using assms(1) by (simp add: lookup_def cache_lookup_def cache_laws find_append)
qed

lemma lookup_link_other: "key u \<noteq> k \<Longrightarrow> lookup (link u b) k = lookup b k"
  by (auto simp: lookup_def cache_lookup_def cache_laws find_append split: option.splits)

lemma keys_unlink:
  "wf b \<Longrightarrow> i < length (units b) \<Longrightarrow>
   key ` set (units (unlink i b)) = key ` set (units b) - {key (units b ! i)}"
  using set_remove_nth_distinct [of "map key (units b)" i]
  by (simp add: cache_laws wf_def cache_wf_def map_remove_nth flip: set_map)

end

end
