(* ===== verification/Channel_Model.thy ===== *)
theory Channel_Model
  imports NV_Prelude
begin

text \<open>
  The bandwidth model of a flash channel or of the PCIe link (\<^verbatim>\<open>channel_model.c\<close>): a ring of time
  slots of four microseconds, each with the credits that are left in it. A request takes credits
  from the slot of its start time on, and the slots it has to go beyond its share are its delay.
  Sizes, credits and times are natural numbers; conversions to 32 bits and the 8-bit width of a
  credit are written out, times are 64-bit nanosecond counters that do not reach their limit. The
  wall clock reading is an argument. \<open>None\<close> stands for \<^verbatim>\<open>BUG()\<close> or a loop that does not end.
\<close>

section \<open>Data and operations\<close>

definition NR_CREDIT_ENTRIES :: nat where "NR_CREDIT_ENTRIES = 1024 * 96"
definition UNIT_TIME_INTERVAL :: nat where "UNIT_TIME_INTERVAL = 4000"
definition UNIT_XFER_SIZE :: nat where "UNIT_XFER_SIZE = 128"
definition UNIT_XFER_CREDITS :: nat where "UNIT_XFER_CREDITS = 1"

record channel_model =
  cm_cur_time :: nat
  cm_head :: nat
  cm_valid_len :: nat
  cm_max_credits :: nat
  cm_command_credits :: nat
  cm_xfer_lat :: nat
  cm_avail_credits :: "nat \<Rightarrow> nat"

definition BANDWIDTH_TO_TX_TIME :: "nat \<Rightarrow> nat" where
  "BANDWIDTH_TO_TX_TIME mb_s = UNIT_XFER_SIZE * 1000000000 div (mb_s * 2 ^ 20)"

definition BANDWIDTH_TO_MAX_CREDITS :: "nat \<Rightarrow> nat" where
  "BANDWIDTH_TO_MAX_CREDITS mb_s =
     mb_s * 2 ^ 20 * UNIT_TIME_INTERVAL div 1000000000 div UNIT_XFER_SIZE * UNIT_XFER_CREDITS"

text \<open>\<^verbatim>\<open>MEMSET(&avail[start], value, len)\<close> with \<^verbatim>\<open>uint8_t\<close> credits.\<close>

definition credit_set :: "nat \<Rightarrow> nat \<Rightarrow> nat \<Rightarrow> (nat \<Rightarrow> nat) \<Rightarrow> nat \<Rightarrow> nat" where
  "credit_set start val len a = (\<lambda>i. if start \<le> i \<and> i < start + len then val mod 2 ^ 8 else a i)"

definition chmodel_init :: "nat \<Rightarrow> channel_model" where
  "chmodel_init bandwidth =
     (let mc = BANDWIDTH_TO_MAX_CREDITS bandwidth mod 2 ^ 32 in
      \<lparr>cm_cur_time = 0, cm_head = 0, cm_valid_len = 0, cm_max_credits = mc, cm_command_credits = 0,
       cm_xfer_lat = BANDWIDTH_TO_TX_TIME bandwidth mod 2 ^ 32,
       cm_avail_credits = credit_set 0 mc NR_CREDIT_ENTRIES (\<lambda>_. 0)\<rparr>)"

text \<open>Moving the head of the ring to the current time; passed slots get their credits back.\<close>

definition chmodel_advance :: "nat \<Rightarrow> channel_model \<Rightarrow> channel_model" where
  "chmodel_advance cur_time ch =
     (let offs = nat ((int (cur_time div UNIT_TIME_INTERVAL) -
                       int (cm_cur_time ch div UNIT_TIME_INTERVAL)) mod 2 ^ 32);
          offs = (if offs < cm_valid_len ch then offs else cm_valid_len ch);
          h = cm_head ch;
          a = cm_avail_credits ch;
          a = (if h + offs \<ge> NR_CREDIT_ENTRIES
               then credit_set 0 (cm_max_credits ch) (offs - (NR_CREDIT_ENTRIES - h))
                      (credit_set h (cm_max_credits ch) (NR_CREDIT_ENTRIES - h) a)
               else credit_set h (cm_max_credits ch) offs a)
      in ch\<lparr>cm_avail_credits := a, cm_head := (h + offs) mod NR_CREDIT_ENTRIES,
            cm_cur_time := cur_time, cm_valid_len := cm_valid_len ch - offs\<rparr>)"

text \<open>The \<^verbatim>\<open>while (1)\<close> loop: position, credits still needed, delay and the slots.\<close>

partial_function (option) credit_loop ::
  "nat \<Rightarrow> nat \<Rightarrow> nat \<Rightarrow> nat \<Rightarrow> (nat \<Rightarrow> nat) \<Rightarrow> (nat \<times> nat \<times> nat \<times> (nat \<Rightarrow> nat)) option" where
  "credit_loop h pos remaining delay a =
     (let consumed = (if remaining \<le> a pos then remaining else a pos);
          a = a(pos := a pos - consumed);
          remaining = remaining - consumed in
      if remaining \<noteq> 0 then
        (let next_pos = (pos + 1) mod NR_CREDIT_ENTRIES in
         if next_pos \<noteq> h then credit_loop h next_pos remaining (delay + 1) a
         else Some (pos, remaining, delay, a))
      else Some (pos, remaining, delay, a))"

definition chmodel_request :: "nat \<Rightarrow> nat \<Rightarrow> nat \<Rightarrow> channel_model \<Rightarrow> (nat \<times> channel_model) option" where
  "chmodel_request cur_time request_time len ch =
     (let units_to_xfer = ((len + UNIT_XFER_SIZE - 1) div UNIT_XFER_SIZE) mod 2 ^ 32;
          ch = chmodel_advance cur_time ch in
      if cm_valid_len ch > NR_CREDIT_ENTRIES then None
      else if request_time < cur_time then Some (request_time, ch)
      else
        let request_time_offs = (request_time div UNIT_TIME_INTERVAL -
                                 cur_time div UNIT_TIME_INTERVAL) mod 2 ^ 32 in
        if request_time_offs \<ge> NR_CREDIT_ENTRIES then Some (request_time, ch)
        else
          let pos = (cm_head ch + request_time_offs) mod NR_CREDIT_ENTRIES;
              remaining = (units_to_xfer * UNIT_XFER_CREDITS + cm_command_credits ch) mod 2 ^ 32;
              default_delay = remaining div cm_max_credits ch in
          case credit_loop (cm_head ch) pos remaining 0 (cm_avail_credits ch) of
            None \<Rightarrow> None
          | Some (pos, _, delay, a) \<Rightarrow>
              let valid_length = (if pos \<ge> cm_head ch then pos - cm_head ch + 1
                                  else NR_CREDIT_ENTRIES - (cm_head ch - pos - 1));
                  delay = (if delay > default_delay then delay - default_delay else 0);
                  total_latency = (cm_xfer_lat ch * units_to_xfer) mod 2 ^ 32 +
                                  delay * UNIT_TIME_INTERVAL
              in Some (request_time + total_latency,
                       ch\<lparr>cm_avail_credits := a,
                          cm_valid_len := (if valid_length > cm_valid_len ch then valid_length
                                           else cm_valid_len ch)\<rparr>))"

section \<open>The ring\<close>

text \<open>The slot at offset \<open>o\<close> from the head.\<close>

definition slot :: "nat \<Rightarrow> nat \<Rightarrow> nat" where
  "slot h d = (h + d) mod NR_CREDIT_ENTRIES"

lemma NR_pos: "0 < NR_CREDIT_ENTRIES"
  by (simp add: NR_CREDIT_ENTRIES_def)

lemma slot_less [simp]: "slot h d < NR_CREDIT_ENTRIES"
  by (simp add: slot_def NR_pos)

lemma slot_eq: "h < NR_CREDIT_ENTRIES \<Longrightarrow> d < NR_CREDIT_ENTRIES \<Longrightarrow>
  slot h d = (if h + d < NR_CREDIT_ENTRIES then h + d else h + d - NR_CREDIT_ENTRIES)"
  unfolding slot_def by (simp add: mod_if)

lemma slot_inj:
  "h < NR_CREDIT_ENTRIES \<Longrightarrow> d < NR_CREDIT_ENTRIES \<Longrightarrow> e < NR_CREDIT_ENTRIES \<Longrightarrow>
   slot h d = slot h e \<longleftrightarrow> d = e"
  by (auto simp: slot_eq split: if_splits)

lemma slot_surj:
  assumes "h < NR_CREDIT_ENTRIES" and "i < NR_CREDIT_ENTRIES"
  obtains d where "d < NR_CREDIT_ENTRIES" and "i = slot h d"
proof (cases "h \<le> i")
  case True
  then show ?thesis using assms by (intro that [of "i - h"]) (auto simp: slot_eq)
next
  case False
  then show ?thesis
    using assms by (intro that [of "i + NR_CREDIT_ENTRIES - h"]) (auto simp: slot_eq)
qed

text \<open>
  The invariant: indices inside the ring, no slot with more than the credits of an interval, and
  slots beyond the valid window untouched.
\<close>

definition ch_inv :: "channel_model \<Rightarrow> bool" where
  "ch_inv ch \<longleftrightarrow> cm_head ch < NR_CREDIT_ENTRIES \<and> cm_valid_len ch \<le> NR_CREDIT_ENTRIES \<and>
     0 < cm_max_credits ch \<and> cm_max_credits ch < 2 ^ 8 \<and>
     (\<forall>i < NR_CREDIT_ENTRIES. cm_avail_credits ch i \<le> cm_max_credits ch) \<and>
     (\<forall>d < NR_CREDIT_ENTRIES. cm_valid_len ch \<le> d \<longrightarrow>
        cm_avail_credits ch (slot (cm_head ch) d) = cm_max_credits ch)"

lemma chmodel_init_inv:
  assumes "0 < BANDWIDTH_TO_MAX_CREDITS bw" and "BANDWIDTH_TO_MAX_CREDITS bw < 2 ^ 8"
  shows "ch_inv (chmodel_init bw)"
  using assms by (simp add: ch_inv_def chmodel_init_def Let_def credit_set_def NR_pos)

text \<open>The slots after the head moved by \<open>offs\<close>: those passed over are full again, the rest keeps.\<close>

lemma advance_slots:
  fixes ch defines "n \<equiv> NR_CREDIT_ENTRIES"
  assumes inv: "ch_inv ch" and offs: "offs \<le> cm_valid_len ch"
    and a: "a = (if cm_head ch + offs \<ge> n
               then credit_set 0 (cm_max_credits ch) (offs - (n - cm_head ch))
                      (credit_set (cm_head ch) (cm_max_credits ch) (n - cm_head ch) (cm_avail_credits ch))
               else credit_set (cm_head ch) (cm_max_credits ch) offs (cm_avail_credits ch))"
    and d: "d < n"
  shows "a (slot (cm_head ch) d) =
    (if d < offs then cm_max_credits ch else cm_avail_credits ch (slot (cm_head ch) d))"
proof -
  have h: "cm_head ch < n" "offs \<le> n" "cm_max_credits ch mod 2 ^ 8 = cm_max_credits ch"
    using inv offs by (auto simp: ch_inv_def n_def)
  have s: "slot (cm_head ch) d = (if cm_head ch + d < n then cm_head ch + d else cm_head ch + d - n)"
    using slot_eq h(1) d by (simp add: n_def)
  show ?thesis
    unfolding s a credit_set_def h(3) using h(1,2) d by auto
qed

lemma chmodel_advance_inv:
  assumes inv: "ch_inv ch"
  shows "ch_inv (chmodel_advance t ch)"
    and "cm_max_credits (chmodel_advance t ch) = cm_max_credits ch"
    and "cm_xfer_lat (chmodel_advance t ch) = cm_xfer_lat ch"
    and "cm_command_credits (chmodel_advance t ch) = cm_command_credits ch"
proof -
  let ?n = NR_CREDIT_ENTRIES and ?h = "cm_head ch" and ?m = "cm_max_credits ch"
  define x where "x = nat ((int (t div UNIT_TIME_INTERVAL) -
      int (cm_cur_time ch div UNIT_TIME_INTERVAL)) mod 2 ^ 32)"
  define k where "k = (if x < cm_valid_len ch then x else cm_valid_len ch)"
  define a where "a = (if ?h + k \<ge> ?n
      then credit_set 0 ?m (k - (?n - ?h)) (credit_set ?h ?m (?n - ?h) (cm_avail_credits ch))
      else credit_set ?h ?m k (cm_avail_credits ch))"
  have eq: "chmodel_advance t ch = ch\<lparr>cm_avail_credits := a, cm_head := slot ?h k, cm_cur_time := t,
      cm_valid_len := cm_valid_len ch - k\<rparr>"
    by (simp add: chmodel_advance_def Let_def a_def slot_def k_def x_def)
  then show "cm_max_credits (chmodel_advance t ch) = ?m"
    "cm_xfer_lat (chmodel_advance t ch) = cm_xfer_lat ch"
    "cm_command_credits (chmodel_advance t ch) = cm_command_credits ch" by simp_all
  have k: "k \<le> cm_valid_len ch" by (simp add: k_def)
  have h: "?h < ?n" "cm_valid_len ch \<le> ?n" "0 < ?m" "?m < 2 ^ 8"
    "\<And>i. i < ?n \<Longrightarrow> cm_avail_credits ch i \<le> ?m"
    "\<And>d. d < ?n \<Longrightarrow> cm_valid_len ch \<le> d \<Longrightarrow> cm_avail_credits ch (slot ?h d) = ?m"
    using inv by (auto simp: ch_inv_def)
  have as: "a (slot ?h d) = (if d < k then ?m else cm_avail_credits ch (slot ?h d))" if "d < ?n" for d
    using advance_slots [OF inv k a_def that] .
  have le: "a i \<le> ?m" if i: "i < ?n" for i
  proof -
    obtain d where "d < ?n" "i = slot ?h d" using slot_surj [OF h(1) i] by blast
    then show ?thesis using as [of d] h(5) [of i] i by simp
  qed
  have sh: "slot (slot ?h k) d = slot ?h (k + d)" for d by (simp add: slot_def mod_add_left_eq add.assoc)
  have beyond: "a (slot (slot ?h k) d) = ?m" if d: "d < ?n" "cm_valid_len ch - k \<le> d" for d
  proof (cases "k + d < ?n")
    case True
    then show ?thesis using as [OF True] h(6) [OF True] d k by (auto simp: sh)
  next
    case False
    then have "?h + (k + d) = ?h + (k + d - ?n) + ?n" by simp
    then have "slot ?h (k + d) = slot ?h (k + d - ?n)" unfolding slot_def by (simp only: mod_add_self2)
    moreover have "k + d - ?n < k" "k + d - ?n < ?n" using d k h(2) False by auto
    ultimately show ?thesis using as [of "k + d - ?n"] by (simp add: sh)
  qed
  show "ch_inv (chmodel_advance t ch)"
    using h le beyond by (auto simp: eq ch_inv_def)
qed

text \<open>
  The loop, from offset \<open>d\<close>: it stops at an offset \<open>e\<close> with everything taken or at the end of the
  ring; it empties the slots before \<open>e\<close>, takes nothing behind it, and the delay counts the slots.
\<close>

lemma credit_loop_spec:
  assumes "h < NR_CREDIT_ENTRIES" and "d < NR_CREDIT_ENTRIES"
  shows "\<exists>e r' a'. credit_loop h (slot h d) r delay a = Some (slot h e, r', delay + (e - d), a') \<and>
    d \<le> e \<and> e < NR_CREDIT_ENTRIES \<and> (r' = 0 \<or> e = NR_CREDIT_ENTRIES - 1) \<and>
    (\<forall>i. a' i \<le> a i) \<and> (\<forall>i. i \<notin> slot h ` {d..e} \<longrightarrow> a' i = a i) \<and>
    (\<forall>j. d \<le> j \<and> j < e \<longrightarrow> a' (slot h j) = 0) \<and>
    (\<Sum>j = d..e. a (slot h j)) + r' = (\<Sum>j = d..e. a' (slot h j)) + r"
  using assms(2)
proof (induction "NR_CREDIT_ENTRIES - d" arbitrary: d r delay a rule: less_induct)
  case less
  let ?n = NR_CREDIT_ENTRIES
  let ?c = "if r \<le> a (slot h d) then r else a (slot h d)"
  let ?a = "a(slot h d := a (slot h d) - ?c)" and ?r = "r - ?c"
  show ?case
  proof (cases "?r = 0 \<or> d + 1 = ?n")
    case True
    have "(slot h d + 1) mod ?n = h" if "d + 1 = ?n"
    proof -
      have "(slot h d + 1) mod ?n = (h + (d + 1)) mod ?n" by (simp add: slot_def mod_Suc_eq)
      also have "\<dots> = h" unfolding that using assms(1) by simp
      finally show ?thesis .
    qed
    then have "credit_loop h (slot h d) r delay a = Some (slot h d, ?r, delay + (d - d), ?a)"
      using True by (subst credit_loop.simps) (auto simp: Let_def)
    moreover have "?c \<le> a (slot h d)" "?c \<le> r" by auto
    ultimately show ?thesis
      using True less.prems by (intro exI [of _ d] exI [of _ ?r] exI [of _ ?a]) auto
  next
    case False
    then have d1: "d + 1 < ?n" using less.prems by simp
    have nx: "(slot h d + 1) mod ?n = slot h (d + 1)" by (simp add: slot_def mod_Suc_eq)
    have "slot h (d + 1) \<noteq> h"
      using slot_inj [OF assms(1) d1, of 0] assms(1) NR_pos by (simp add: slot_def)
    then have step: "credit_loop h (slot h d) r delay a = credit_loop h (slot h (d + 1)) ?r (delay + 1) ?a"
      using False nx by (subst credit_loop.simps) (simp add: Let_def)
    have c: "?c = a (slot h d)" using False by auto
    have "?n - (d + 1) < ?n - d" using less.prems by simp
    from less.hyps [OF this d1, of ?r "delay + 1" ?a]
    obtain e r' a' where e: "credit_loop h (slot h (d + 1)) ?r (delay + 1) ?a =
        Some (slot h e, r', delay + 1 + (e - (d + 1)), a')"
      "d + 1 \<le> e" "e < ?n" "r' = 0 \<or> e = ?n - 1" "\<forall>i. a' i \<le> ?a i"
      "\<forall>i. i \<notin> slot h ` {d + 1..e} \<longrightarrow> a' i = ?a i"
      "\<forall>j. d + 1 \<le> j \<and> j < e \<longrightarrow> a' (slot h j) = 0"
      "(\<Sum>j = d + 1..e. ?a (slot h j)) + r' = (\<Sum>j = d + 1..e. a' (slot h j)) + ?r" by blast
    have ne: "slot h j \<noteq> slot h d" if "j \<in> {d + 1..e}" for j
      using that slot_inj [OF assms(1), of j d] e(3) less.prems by simp
    then have "slot h d \<notin> slot h ` {d + 1..e}" by (metis imageE)
    then have a'd: "a' (slot h d) = 0" using e(6) c by simp
    have "(\<Sum>j = d + 1..e. ?a (slot h j)) = (\<Sum>j = d + 1..e. a (slot h j))"
      using ne by (intro sum.cong) auto
    then have sum: "(\<Sum>j = d..e. a (slot h j)) + r' = (\<Sum>j = d..e. a' (slot h j)) + r"
    proof -
      have sp: "(\<Sum>j = d..e. f j) = f d + (\<Sum>j = d + 1..e. f j)" for f :: "nat \<Rightarrow> nat"
        using e(2) by (simp add: sum.atLeast_Suc_atMost)
      have "a (slot h d) \<le> r" using False by (simp split: if_splits)
      moreover have "(\<Sum>j = d + 1..e. a (slot h j)) + r' =
          (\<Sum>j = d + 1..e. a' (slot h j)) + (r - a (slot h d))"
        using e(8) \<open>(\<Sum>j = d + 1..e. ?a (slot h j)) = _\<close> unfolding c by simp
      ultimately show ?thesis
        using sp [of "\<lambda>j. a (slot h j)"] sp [of "\<lambda>j. a' (slot h j)"] a'd by linarith
    qed
    have img: "slot h ` {d..e} = insert (slot h d) (slot h ` {d + 1..e})"
      using e(2) by (simp add: atLeastAtMost_insertL [symmetric])
    have le: "a' i \<le> a i" for i using e(5) [rule_format, of i] by (auto split: if_splits)
    have out: "a' i = a i" if "i \<notin> slot h ` {d..e}" for i
      using that e(6) [rule_format, of i] by (simp add: img)
    have zero: "a' (slot h j) = 0" if "d \<le> j \<and> j < e" for j
      using that e(7) [rule_format, of j] a'd by (cases "j = d") simp_all
    have "credit_loop h (slot h d) r delay a = Some (slot h e, r', delay + (e - d), a')"
      using step e(1,2) by simp
    with e(2,3,4) le out zero sum show ?thesis
      by (intro exI [of _ e] exI [of _ r'] exI [of _ a'] conjI) (blast | simp)+
  qed
qed

lemma chmodel_request_ok:
  assumes inv: "ch_inv ch"
  shows "\<exists>t ch'. chmodel_request now req len ch = Some (t, ch') \<and> ch_inv ch' \<and> req \<le> t \<and>
    (now \<le> req \<longrightarrow> req div UNIT_TIME_INTERVAL - now div UNIT_TIME_INTERVAL < NR_CREDIT_ENTRIES \<longrightarrow>
     cm_command_credits ch = 0 \<longrightarrow>
     (let need = ((len + UNIT_XFER_SIZE - 1) div UNIT_XFER_SIZE) mod 2 ^ 32;
          ch1 = chmodel_advance now ch in
      req + (cm_xfer_lat ch * need) mod 2 ^ 32 \<le> t \<and>
      (\<exists>left \<le> need. (\<Sum>i < NR_CREDIT_ENTRIES. cm_avail_credits ch1 i) + left =
          (\<Sum>i < NR_CREDIT_ENTRIES. cm_avail_credits ch' i) + need)))"
proof -
  let ?n = NR_CREDIT_ENTRIES
  define need where "need = ((len + UNIT_XFER_SIZE - 1) div UNIT_XFER_SIZE) mod 2 ^ 32"
  define ch1 where "ch1 = chmodel_advance now ch"
  define d where "d = (req div UNIT_TIME_INTERVAL - now div UNIT_TIME_INTERVAL) mod 2 ^ 32"
  define r where "r = (need * UNIT_XFER_CREDITS + cm_command_credits ch1) mod 2 ^ 32"
  have inv1: "ch_inv ch1" and sel: "cm_xfer_lat ch1 = cm_xfer_lat ch" "cm_command_credits ch1 = cm_command_credits ch"
    using chmodel_advance_inv [OF inv] by (simp_all add: ch1_def)
  note eq = chmodel_request_def [of now req len ch, unfolded Let_def, folded need_def ch1_def,
      folded d_def r_def slot_def]
  have h: "cm_head ch1 < ?n" "\<not> cm_valid_len ch1 > ?n" using inv1 by (auto simp: ch_inv_def)
  have noop: "\<exists>t ch'. chmodel_request now req len ch = Some (t, ch') \<and> ch_inv ch' \<and> req \<le> t"
    if "req < now \<or> d \<ge> ?n"
    unfolding eq using that h inv1 by auto
  show ?thesis
  proof (cases "req < now \<or> d \<ge> ?n")
    case True
    have "\<not> (now \<le> req \<and> req div UNIT_TIME_INTERVAL - now div UNIT_TIME_INTERVAL < ?n)"
      using True by (auto simp: d_def NR_CREDIT_ENTRIES_def)
    then show ?thesis using noop [OF True] by blast
  next
    case False
    then have d: "d < ?n" by simp
    from credit_loop_spec [OF h(1) d, of r 0 "cm_avail_credits ch1"]
    obtain e r' a' where l: "credit_loop (cm_head ch1) (slot (cm_head ch1) d) r 0 (cm_avail_credits ch1) =
        Some (slot (cm_head ch1) e, r', e - d, a')"
      "d \<le> e" "e < ?n" "\<forall>i. a' i \<le> cm_avail_credits ch1 i"
      "\<forall>i. i \<notin> slot (cm_head ch1) ` {d..e} \<longrightarrow> a' i = cm_avail_credits ch1 i"
      "(\<Sum>j = d..e. cm_avail_credits ch1 (slot (cm_head ch1) j)) + r' =
       (\<Sum>j = d..e. a' (slot (cm_head ch1) j)) + r" by auto
    have vl: "(if slot (cm_head ch1) e \<ge> cm_head ch1 then slot (cm_head ch1) e - cm_head ch1 + 1
        else ?n - (cm_head ch1 - slot (cm_head ch1) e - 1)) = e + 1"
      using slot_eq [OF h(1) l(3)] h(1) l(3) by auto
    define ch' where "ch' = ch1\<lparr>cm_avail_credits := a', cm_valid_len := max (e + 1) (cm_valid_len ch1)\<rparr>"
    define t where "t = req + ((cm_xfer_lat ch1 * need) mod 2 ^ 32 +
        (if e - d > r div cm_max_credits ch1 then e - d - r div cm_max_credits ch1 else 0) * UNIT_TIME_INTERVAL)"
    have res: "chmodel_request now req len ch = Some (t, ch')"
      unfolding eq l(1) using False h(2) vl by (simp add: t_def ch'_def max_def)
    have "a' i \<le> cm_max_credits ch1" if "i < ?n" for i
      using that l(4) inv1 order_trans by (fastforce simp: ch_inv_def)
    moreover have "a' (slot (cm_head ch1) j) = cm_max_credits ch1"
      if "j < ?n" "e < j" "cm_valid_len ch1 \<le> j" for j
    proof -
      have "slot (cm_head ch1) j \<noteq> slot (cm_head ch1) x" if "x \<in> {d..e}" for x
        using that slot_inj [OF h(1) \<open>j < ?n\<close>, of x] \<open>e < j\<close> l(3) by simp
      then have "slot (cm_head ch1) j \<notin> slot (cm_head ch1) ` {d..e}" by blast
      then show ?thesis using l(5) inv1 that by (auto simp: ch_inv_def)
    qed
    ultimately have "ch_inv ch'" using inv1 l(3) by (auto simp: ch'_def ch_inv_def)
    moreover have "req \<le> t" "req + (cm_xfer_lat ch * need) mod 2 ^ 32 \<le> t"
      using sel by (simp_all add: t_def)
    moreover have "r' \<le> need \<and> (\<Sum>i < ?n. cm_avail_credits ch1 i) + r' =
        (\<Sum>i < ?n. cm_avail_credits ch' i) + need" if "cm_command_credits ch = 0"
    proof -
      have r: "r = need" using that sel by (simp add: r_def need_def UNIT_XFER_CREDITS_def)
      let ?S = "slot (cm_head ch1) ` {d..e}"
      have inj: "inj_on (slot (cm_head ch1)) {d..e}"
        using slot_inj [OF h(1)] l(3) by (auto intro!: inj_onI)
      have S: "?S \<subseteq> {..<?n}" by auto
      have split: "(\<Sum>i < ?n. f i) = (\<Sum>j = d..e. f (slot (cm_head ch1) j)) + (\<Sum>i \<in> {..<?n} - ?S. f i)"
        for f :: "nat \<Rightarrow> nat"
        using sum.subset_diff [OF S, of f] sum.reindex [OF inj, of f] by simp
      have "(\<Sum>i \<in> {..<?n} - ?S. a' i) = (\<Sum>i \<in> {..<?n} - ?S. cm_avail_credits ch1 i)"
        using l(5) by (intro sum.cong) auto
      moreover have "(\<Sum>j = d..e. a' (slot (cm_head ch1) j)) \<le>
          (\<Sum>j = d..e. cm_avail_credits ch1 (slot (cm_head ch1) j))"
        using l(4) by (intro sum_mono) auto
      ultimately show ?thesis
        using l(6) split [of a'] split [of "cm_avail_credits ch1"] r by (simp add: ch'_def)
    qed
    ultimately show ?thesis
      unfolding Let_def need_def [symmetric] ch1_def [symmetric] using res
      by (intro exI [of _ t] exI [of _ ch']) auto
  qed
qed

lemma chmodel_request_returns:
  assumes "ch_inv ch"
  shows "\<exists>t ch'. chmodel_request now req len ch = Some (t, ch') \<and> ch_inv ch' \<and> req \<le> t"
  using chmodel_request_ok [OF assms] by blast

section \<open>Properties\<close>

text \<open>
  C38: the bandwidth model. On a ring that satisfies the invariant a request returns (neither the
  assertion on the window nor the loop can get stuck), keeps the invariant, and never finishes before
  its start; no slot gives out more than the credits of one interval, and unless the request lies
  beyond the ring the credits taken from the slots, together with those that did not fit, are the
  credits it needs.
\<close>
theorem chmodel_request_spec:
  assumes inv: "ch_inv ch"
  shows "\<exists>t ch'. chmodel_request now req len ch = Some (t, ch') \<and> ch_inv ch' \<and> req \<le> t \<and>
    (now \<le> req \<longrightarrow> req div UNIT_TIME_INTERVAL - now div UNIT_TIME_INTERVAL < NR_CREDIT_ENTRIES \<longrightarrow>
     cm_command_credits ch = 0 \<longrightarrow>
     (let need = ((len + UNIT_XFER_SIZE - 1) div UNIT_XFER_SIZE) mod 2 ^ 32;
          ch1 = chmodel_advance now ch in
      req + (cm_xfer_lat ch * need) mod 2 ^ 32 \<le> t \<and>
      (\<exists>left \<le> need. (\<Sum>i < NR_CREDIT_ENTRIES. cm_avail_credits ch1 i) + left =
          (\<Sum>i < NR_CREDIT_ENTRIES. cm_avail_credits ch' i) + need)))"
  using inv by (rule chmodel_request_ok)

text \<open>An idle link of one megabyte per slot unit: one kilobyte takes eight credits.\<close>

theorem chmodel_request_spec_witness:
  "\<exists>t ch'. chmodel_request 0 0 1024 (chmodel_init 800) = Some (t, ch') \<and> ch_inv ch' \<and> 0 \<le> t"
proof -
  have "ch_inv (chmodel_init 800)"
    by (rule chmodel_init_inv)
      (simp_all add: BANDWIDTH_TO_MAX_CREDITS_def UNIT_TIME_INTERVAL_def UNIT_XFER_SIZE_def UNIT_XFER_CREDITS_def)
  from chmodel_request_spec [OF this, of 0 0 1024] show ?thesis by auto
qed

end
