(* ===== verification/Nvme_Types.thy ===== *)
theory Nvme_Types
  imports NV_Prelude
begin

text \<open>
  The NVMe data the device and its host exchange (\<^verbatim>\<open>nvme.h\<close>, \<^verbatim>\<open>nvmev.h\<close>): submission and
  completion queue entries, the queues' bookkeeping, and the write buffer of \<^verbatim>\<open>ssd.c\<close>. A command is
  its sixty-four bytes seen as \<^verbatim>\<open>struct nvme_common_command\<close>; the fields of the other members of the
  union are functions of the same double words. Queue memory is a function of the entry number.
\<close>

unbundle bit_operations_syntax

section \<open>Commands and completions\<close>

record nvme_command =
  c_opcode :: u8
  c_flags :: u8
  c_command_id :: u16
  c_nsid :: u32
  c_cdw2 :: u32
  c_cdw3 :: u32
  c_metadata :: u64
  c_prp1 :: u64
  c_prp2 :: u64
  c_cdw10 :: u32
  c_cdw11 :: u32
  c_cdw12 :: u32
  c_cdw13 :: u32
  c_cdw14 :: u32
  c_cdw15 :: u32

text \<open>The view \<^verbatim>\<open>struct nvme_rw_command\<close>.\<close>

definition rw_slba :: "nvme_command \<Rightarrow> u64" where
  "rw_slba c = push_bit 32 (ucast (c_cdw11 c)) OR ucast (c_cdw10 c)"

definition rw_length :: "nvme_command \<Rightarrow> u16" where
  "rw_length c = ucast (c_cdw12 c)"

definition rw_control :: "nvme_command \<Rightarrow> u16" where
  "rw_control c = ucast (drop_bit 16 (c_cdw12 c))"

definition nvme_cmd_flush :: u8 where "nvme_cmd_flush = 0x00"
definition nvme_cmd_write :: u8 where "nvme_cmd_write = 0x01"
definition nvme_cmd_read :: u8 where "nvme_cmd_read = 0x02"
definition nvme_cmd_zone_append :: u8 where "nvme_cmd_zone_append = 0x7d"

record nvme_completion =
  e_result0 :: u32
  e_result1 :: u32
  e_sq_head :: u16
  e_sq_id :: u16
  e_command_id :: u16
  e_status :: u16

section \<open>Queues\<close>

record nvmev_sq_stat =
  nr_dispatched :: u32
  nr_dispatch :: u32
  nr_in_flight :: u32
  max_nr_in_flight :: u32
  total_io :: u64

record nvmev_submission_queue =
  sq_qid :: int
  sq_cqid :: int
  sq_priority :: int
  sq_phys_contig :: bool
  sq_queue_size :: int
  sq_stat :: nvmev_sq_stat
  sq_mem :: "int \<Rightarrow> nvme_command"

record nvmev_completion_queue =
  cq_qid :: int
  cq_irq_vector :: int
  cq_irq_enabled :: bool
  cq_interrupt_ready :: bool
  cq_phys_contig :: bool
  cq_queue_size :: int
  cq_phase :: int
  cq_head :: int
  cq_tail :: int
  cq_mem :: "int \<Rightarrow> nvme_completion"

section \<open>The write buffer\<close>

record buffer =
  b_size :: u64
  b_remaining :: u64

definition buffer_init :: "u64 \<Rightarrow> buffer" where
  "buffer_init sz = \<lparr>b_size = sz, b_remaining = sz\<rparr>"

text \<open>\<^verbatim>\<open>NVMEV_ASSERT\<close> is \<^verbatim>\<open>BUG_ON\<close>: \<open>None\<close>. The result is a \<^verbatim>\<open>uint32_t\<close>.\<close>

definition buffer_allocate :: "buffer \<Rightarrow> u64 \<Rightarrow> (u32 \<times> buffer) option" where
  "buffer_allocate buf sz =
     (if \<not> sz \<le> b_size buf then None
      else
        let sz = (if b_remaining buf < sz then 0 else sz) in
        Some (ucast sz, buf\<lparr>b_remaining := b_remaining buf - sz\<rparr>))"

definition buffer_release :: "buffer \<Rightarrow> u64 \<Rightarrow> buffer" where
  "buffer_release buf sz = buf\<lparr>b_remaining := b_remaining buf + sz\<rparr>"

definition buffer_refill :: "buffer \<Rightarrow> buffer" where
  "buffer_refill buf = buf\<lparr>b_remaining := b_size buf\<rparr>"

text \<open>
  \<open>buffer_holds buf out\<close>: \<open>out\<close> bytes of the buffer are handed out and the rest is available.
\<close>

definition buffer_holds :: "buffer \<Rightarrow> nat \<Rightarrow> bool" where
  "buffer_holds buf out \<longleftrightarrow> unat (b_remaining buf) + out = unat (b_size buf)"

lemma buffer_init_holds: "buffer_holds (buffer_init sz) 0"
  by (simp add: buffer_holds_def buffer_init_def)

lemma buffer_release_holds:
  assumes "buffer_holds buf out" and "unat sz \<le> out"
  shows "buffer_holds (buffer_release buf sz) (out - unat sz)"
proof -
  have "unat (b_remaining buf + sz) = unat (b_remaining buf) + unat sz"
    using assms unsigned_less [of "b_size buf", where ?'a = nat]
    by (intro unat_add_lem [THEN iffD1]) (simp add: buffer_holds_def)
  then show ?thesis using assms by (simp add: buffer_holds_def buffer_release_def)
qed

lemma buffer_allocate_holds:
  assumes "buffer_holds buf out" and "sz \<le> b_size buf"
  shows "\<exists>got buf'. buffer_allocate buf sz = Some (got, buf') \<and>
    (if sz \<le> b_remaining buf then got = ucast sz \<and> buffer_holds buf' (out + unat sz)
     else got = 0 \<and> buf' = buf)"
proof (cases "sz \<le> b_remaining buf")
  case True
  then have "unat (b_remaining buf - sz) = unat (b_remaining buf) - unat sz"
    by (rule unat_sub)
  moreover have "unat sz \<le> unat (b_remaining buf)" using True by (simp add: word_le_nat_alt)
  ultimately show ?thesis
    using True assms by (auto simp: buffer_allocate_def buffer_holds_def Let_def not_less)
next
  case False
  then show ?thesis using assms by (auto simp: buffer_allocate_def Let_def not_le)
qed

section \<open>Completion rings\<close>

lemma mod_wrap:
  fixes x d :: int
  assumes "0 \<le> x" and "x < 2 * d"
  shows "x mod d = (if x < d then x else x - d)"
proof (cases "x < d")
  case False
  have "x mod d = (x - d) mod d" by simp
  also have "\<dots> = x - d" using False assms by (intro mod_pos_pos_trivial) auto
  finally show ?thesis using False by simp
qed (use assms in simp)

text \<open>
  The interface of a completion ring: posting writes the entry at the head, advances the head, and
  flips the phase when the head wraps. The I/O completion queues and the admin completion queue
  provide it.
\<close>

locale phase_ring =
  fixes hd_of :: "'r \<Rightarrow> int"
    and phase_of :: "'r \<Rightarrow> int"
    and depth_of :: "'r \<Rightarrow> int"
    and slots_of :: "'r \<Rightarrow> int \<Rightarrow> 'e"
    and post :: "'e \<Rightarrow> 'r \<Rightarrow> 'r"
  assumes head_post: "hd_of (post e r) = (if hd_of r + 1 = depth_of r then 0 else hd_of r + 1)"
    and phase_post: "phase_of (post e r) =
      (if hd_of r + 1 = depth_of r then (if phase_of r = 0 then 1 else 0) else phase_of r)"
    and depth_post: "depth_of (post e r) = depth_of r"
    and slots_post: "slots_of (post e r) = (slots_of r)(hd_of r := e)"
begin

definition ring_ok :: "'r \<Rightarrow> bool" where
  "ring_ok r \<longleftrightarrow> 0 \<le> hd_of r \<and> hd_of r < depth_of r \<and> phase_of r \<in> {0, 1}"

text \<open>Posting a sequence of entries, each built from the ring it is posted to.\<close>

fun post_all :: "('r \<Rightarrow> 'e) list \<Rightarrow> 'r \<Rightarrow> 'r" where
  "post_all [] r = r"
| "post_all (f # fs) r = post_all fs (post (f r) r)"

lemma ring_ok_post: "ring_ok r \<Longrightarrow> ring_ok (post e r)"
  by (auto simp: ring_ok_def head_post phase_post depth_post)

lemma post_all_snoc: "post_all (fs @ [f]) r = post (f (post_all fs r)) (post_all fs r)"
  by (induction fs arbitrary: r) auto

lemma ring_ok_post_all: "ring_ok r \<Longrightarrow> ring_ok (post_all fs r)"
  by (induction fs arbitrary: r) (auto simp: ring_ok_post)

lemma depth_post_all: "depth_of (post_all fs r) = depth_of r"
  by (induction fs arbitrary: r) (auto simp: depth_post)

lemma head_post_all:
  "ring_ok r \<Longrightarrow> hd_of (post_all fs r) = (hd_of r + int (length fs)) mod depth_of r"
proof (induction fs rule: rev_induct)
  case Nil
  then show ?case by (simp add: ring_ok_def)
next
  case (snoc f fs)
  have ok: "0 \<le> hd_of (post_all fs r)" "hd_of (post_all fs r) < depth_of r"
    using ring_ok_post_all [OF snoc.prems, of fs] by (auto simp: ring_ok_def depth_post_all)
  have "(hd_of r + (int (length fs) + 1)) mod depth_of r = (hd_of (post_all fs r) + 1) mod depth_of r"
    using snoc by (simp add: mod_add_left_eq add.assoc flip: add.assoc)
  then show ?case using ok by (auto simp: post_all_snoc head_post depth_post_all add.commute)
qed

lemma phase_post_all:
  assumes "ring_ok r" and "int (length fs) \<le> depth_of r"
  shows "phase_of (post_all fs r) =
    (if hd_of r + int (length fs) < depth_of r then phase_of r else 1 - phase_of r)"
  using assms(2)
proof (induction fs rule: rev_induct)
  case Nil
  then show ?case using assms(1) by (simp add: ring_ok_def)
next
  case (snoc f fs)
  have h: "hd_of (post_all fs r) = (if hd_of r + int (length fs) < depth_of r
      then hd_of r + int (length fs) else hd_of r + int (length fs) - depth_of r)"
    using head_post_all [OF assms(1), of fs] assms(1) snoc.prems
    by (simp add: ring_ok_def mod_wrap)
  show ?case
    using snoc h assms(1) by (auto simp: post_all_snoc phase_post depth_post_all ring_ok_def split: if_splits)
qed

lemma slots_post_all_other:
  assumes "ring_ok r" and "\<And>j. j < length fs \<Longrightarrow> k \<noteq> (hd_of r + int j) mod depth_of r"
  shows "slots_of (post_all fs r) k = slots_of r k"
  using assms(2)
proof (induction fs rule: rev_induct)
  case Nil
  then show ?case by simp
next
  case (snoc f fs)
  have "slots_of (post_all fs r) k = slots_of r k"
    using snoc.prems by (intro snoc.IH) (simp add: less_Suc_eq)
  moreover have "k \<noteq> hd_of (post_all fs r)"
    using head_post_all [OF assms(1)] snoc.prems [of "length fs"] by simp
  ultimately show ?case by (simp add: post_all_snoc slots_post)
qed

lemma ring_slots_inj:
  fixes h d :: int
  assumes "(h + int i) mod d = (h + int j) mod d" and "i < j" and "int j < d + int i"
  shows False
proof -
  have "d dvd (h + int j) - (h + int i)" using assms(1) mod_eq_dvd_iff [of "h + int j" d "h + int i"] by simp
  then have "d dvd int j - int i" by (simp add: algebra_simps)
  moreover have "0 < int j - int i" "int j - int i < d" using assms(2,3) by auto
  ultimately show False by (auto dest: zdvd_imp_le)
qed

text \<open>Up to a full lap, no entry overwrites another one.\<close>

lemma slots_post_all:
  assumes "ring_ok r" and "int (length fs) \<le> depth_of r" and "j < length fs"
  shows "slots_of (post_all fs r) ((hd_of r + int j) mod depth_of r) = (fs ! j) (post_all (take j fs) r)"
  using assms(2,3)
proof (induction fs rule: rev_induct)
  case Nil
  then show ?case by simp
next
  case (snoc f fs)
  show ?case
  proof (cases "j = length fs")
    case True
    then show ?thesis using head_post_all [OF assms(1), of fs]
      by (simp add: post_all_snoc slots_post)
  next
    case False
    then have j: "j < length fs" using snoc.prems by simp
    have "hd_of (post_all fs r) \<noteq> (hd_of r + int j) mod depth_of r"
      using head_post_all [OF assms(1), of fs] ring_slots_inj [of "hd_of r" j "depth_of r" "length fs"] j
        snoc.prems by auto
    with j snoc show ?thesis by (simp add: post_all_snoc slots_post nth_append)
  qed
qed

end

end
