(* ===== verification/SSD_Model.thy ===== *)
theory SSD_Model
  imports Channel_Model Nvme_Types "HOL-Library.Monad_Syntax"
begin

text \<open>
  The flash model (\<^verbatim>\<open>ssd.c\<close>, \<^verbatim>\<open>ssd.h\<close>, \<^verbatim>\<open>ssd_config.h\<close>): geometry and latency parameters
  derived from a build configuration, the state of blocks, dies and channels, and the timing of flash
  operations. The configuration macros are a record with one instance per supported model. A
  physical page address keeps its bit fields as numbers. Clock readings are a stream in the state:
  every call that reads a clock takes the next element. \<open>None\<close> stands for \<^verbatim>\<open>BUG()\<close>, for a loop that
  does not end and for the use of a variable that was never set.
\<close>

section \<open>Parameters\<close>

definition DIV_ROUND_UP :: "nat \<Rightarrow> nat \<Rightarrow> nat" where
  "DIV_ROUND_UP n d = (n + d - 1) div d"

lemma DIV_ROUND_UP_mult: "0 < d \<Longrightarrow> n \<le> DIV_ROUND_UP n d * d"
proof -
  assume "0 < d"
  have "(n + d - 1) mod d < d" using \<open>0 < d\<close> by simp
  moreover have "(n + d - 1) div d * d + (n + d - 1) mod d = n + d - 1" by simp
  ultimately show ?thesis unfolding DIV_ROUND_UP_def by linarith
qed

record ssd_config =
  LBA_SIZE :: nat
  NAND_CHANNELS :: nat
  PLNS_PER_LUN :: nat
  LUNS_PER_NAND_CH :: nat
  CELL_MODE :: nat
  BLKS_PER_PLN :: nat
  BLK_SIZE :: nat
  ONESHOT_PAGE_SIZE :: nat
  FLASH_PAGE_SIZE :: nat
  WRITE_UNIT_SIZE :: nat
  NAND_4KB_READ_LATENCY :: "nat list"
  NAND_READ_LATENCY :: "nat list"
  NAND_PROG_LATENCY :: nat
  NAND_ERASE_LATENCY :: nat
  MAX_CH_XFER_SIZE :: nat
  FW_4KB_READ_LATENCY :: nat
  FW_READ_LATENCY :: nat
  FW_CH_XFER_LATENCY :: nat
  FW_WBUF_LATENCY0 :: nat
  FW_WBUF_LATENCY1 :: nat
  NAND_CHANNEL_BANDWIDTH :: nat
  PCIE_BANDWIDTH :: nat
  GLOBAL_WB_SIZE :: nat
  WRITE_EARLY_COMPLETION :: bool

definition SAMSUNG_970PRO :: ssd_config where
  "SAMSUNG_970PRO = \<lparr>LBA_SIZE = 512, NAND_CHANNELS = 8, PLNS_PER_LUN = 1, LUNS_PER_NAND_CH = 2,
     CELL_MODE = 2, BLKS_PER_PLN = 8192, BLK_SIZE = 0, ONESHOT_PAGE_SIZE = 32 * 1024,
     FLASH_PAGE_SIZE = 32 * 1024, WRITE_UNIT_SIZE = 512,
     NAND_4KB_READ_LATENCY = [35760 - 6000, 35760 + 6000, 0],
     NAND_READ_LATENCY = [36013 - 6000, 36013 + 6000, 0],
     NAND_PROG_LATENCY = 185000, NAND_ERASE_LATENCY = 0, MAX_CH_XFER_SIZE = 16 * 1024,
     FW_4KB_READ_LATENCY = 21500, FW_READ_LATENCY = 30490, FW_CH_XFER_LATENCY = 0,
     FW_WBUF_LATENCY0 = 4000, FW_WBUF_LATENCY1 = 460, NAND_CHANNEL_BANDWIDTH = 800,
     PCIE_BANDWIDTH = 3360, GLOBAL_WB_SIZE = 8 * 2 * (32 * 1024) * 2, WRITE_EARLY_COMPLETION = True\<rparr>"

definition ZNS_PROTOTYPE :: ssd_config where
  "ZNS_PROTOTYPE = \<lparr>LBA_SIZE = 512, NAND_CHANNELS = 8, PLNS_PER_LUN = 1, LUNS_PER_NAND_CH = 16,
     CELL_MODE = 3, BLKS_PER_PLN = 0, BLK_SIZE = 32 * 1024 * 1024 div 1,
     ONESHOT_PAGE_SIZE = 64 * 1024 * 2, FLASH_PAGE_SIZE = 64 * 1024, WRITE_UNIT_SIZE = 64 * 1024 * 2,
     NAND_4KB_READ_LATENCY = [25485, 25485, 25485], NAND_READ_LATENCY = [40950, 40950, 40950],
     NAND_PROG_LATENCY = 1913640, NAND_ERASE_LATENCY = 0, MAX_CH_XFER_SIZE = 64 * 1024,
     FW_4KB_READ_LATENCY = 37540 - 7390 + 2000, FW_READ_LATENCY = 37540 - 7390 + 2000,
     FW_CH_XFER_LATENCY = 413, FW_WBUF_LATENCY0 = 0, FW_WBUF_LATENCY1 = 0,
     NAND_CHANNEL_BANDWIDTH = 800, PCIE_BANDWIDTH = 3200,
     GLOBAL_WB_SIZE = 8 * 16 * (64 * 1024 * 2) * 2, WRITE_EARLY_COMPLETION = False\<rparr>"

definition WD_ZN540 :: ssd_config where
  "WD_ZN540 = \<lparr>LBA_SIZE = 512, NAND_CHANNELS = 8, PLNS_PER_LUN = 1, LUNS_PER_NAND_CH = 4,
     CELL_MODE = 3, BLKS_PER_PLN = 0, BLK_SIZE = 2 * 1024 * 1024 * 1024 div (8 * 4),
     ONESHOT_PAGE_SIZE = 32 * 1024 * 3, FLASH_PAGE_SIZE = 32 * 1024, WRITE_UNIT_SIZE = 512,
     NAND_4KB_READ_LATENCY = [50000, 50000, 50000], NAND_READ_LATENCY = [58000, 58000, 58000],
     NAND_PROG_LATENCY = 561000, NAND_ERASE_LATENCY = 0, MAX_CH_XFER_SIZE = 32 * 1024,
     FW_4KB_READ_LATENCY = 20000, FW_READ_LATENCY = 13000, FW_CH_XFER_LATENCY = 0,
     FW_WBUF_LATENCY0 = 5600, FW_WBUF_LATENCY1 = 600, NAND_CHANNEL_BANDWIDTH = 450,
     PCIE_BANDWIDTH = 3050, GLOBAL_WB_SIZE = 0, WRITE_EARLY_COMPLETION = True\<rparr>"

record ssdparams =
  secsz :: nat
  secs_per_pg :: nat
  pgsz :: nat
  pgs_per_flashpg :: nat
  flashpgs_per_blk :: nat
  pgs_per_oneshotpg :: nat
  oneshotpgs_per_blk :: nat
  pgs_per_blk :: nat
  blks_per_pl :: nat
  pls_per_lun :: nat
  luns_per_ch :: nat
  nchs :: nat
  cell_mode :: nat
  write_unit_size :: nat
  write_early_completion :: bool
  pg_4kb_rd_lat :: "nat list"
  pg_rd_lat :: "nat list"
  pg_wr_lat :: nat
  blk_er_lat :: nat
  max_ch_xfer_size :: nat
  fw_4kb_rd_lat :: nat
  fw_rd_lat :: nat
  fw_wbuf_lat0 :: nat
  fw_wbuf_lat1 :: nat
  fw_ch_xfer_lat :: nat
  ch_bandwidth :: nat
  pcie_bandwidth :: nat
  secs_per_blk :: nat
  secs_per_pl :: nat
  secs_per_lun :: nat
  secs_per_ch :: nat
  tt_secs :: nat
  pgs_per_pl :: nat
  pgs_per_lun :: nat
  pgs_per_ch :: nat
  tt_pgs :: nat
  blks_per_lun :: nat
  blks_per_ch :: nat
  tt_blks :: nat
  secs_per_line :: nat
  pgs_per_line :: nat
  blks_per_line :: nat
  tt_lines :: nat
  pls_per_ch :: nat
  tt_pls :: nat
  tt_luns :: nat
  write_buffer_size :: nat

definition ssd_init_params :: "ssd_config \<Rightarrow> nat \<Rightarrow> nat \<Rightarrow> ssdparams option" where
  "ssd_init_params C capacity nparts =
     (let secsz' = LBA_SIZE C;
          secs_per_pg' = 4096 div LBA_SIZE C;
          pgsz' = secsz' * secs_per_pg' in
      if NAND_CHANNELS C mod nparts \<noteq> 0 then None
      else
        let nchs' = NAND_CHANNELS C div nparts;
            pls' = PLNS_PER_LUN C;
            luns' = LUNS_PER_NAND_CH C;
            capacity = capacity div nparts in
        if \<not> (BLKS_PER_PLN C > 0) \<and> \<not> (BLK_SIZE C > 0) then None
        else
          let blks' = (if BLKS_PER_PLN C > 0 then BLKS_PER_PLN C
                       else DIV_ROUND_UP capacity (BLK_SIZE C * pls' * luns' * nchs'));
              blk_size = (if BLKS_PER_PLN C > 0
                          then DIV_ROUND_UP capacity (blks' * pls' * luns' * nchs')
                          else BLK_SIZE C) in
          if \<not> (ONESHOT_PAGE_SIZE C mod pgsz' = 0 \<and> FLASH_PAGE_SIZE C mod pgsz' = 0) then None
          else if ONESHOT_PAGE_SIZE C mod FLASH_PAGE_SIZE C \<noteq> 0 then None
          else
            let ppo = ONESHOT_PAGE_SIZE C div pgsz';
                opb = DIV_ROUND_UP blk_size (ONESHOT_PAGE_SIZE C);
                ppb = ppo * opb;
                spb = secs_per_pg' * ppb;
                spl = spb * blks';
                splun = spl * pls';
                spch = splun * luns';
                ppl = ppb * blks';
                pplun = ppl * pls';
                ppch = pplun * luns';
                bplun = blks' * pls';
                bpch = bplun * luns';
                plch = pls' * luns';
                ttl = luns' * nchs' in
            Some \<lparr>secsz = secsz', secs_per_pg = secs_per_pg', pgsz = pgsz',
                  pgs_per_flashpg = FLASH_PAGE_SIZE C div pgsz',
                  flashpgs_per_blk = (ONESHOT_PAGE_SIZE C div FLASH_PAGE_SIZE C) * opb,
                  pgs_per_oneshotpg = ppo, oneshotpgs_per_blk = opb, pgs_per_blk = ppb,
                  blks_per_pl = blks', pls_per_lun = pls', luns_per_ch = luns', nchs = nchs',
                  cell_mode = CELL_MODE C, write_unit_size = WRITE_UNIT_SIZE C,
                  write_early_completion = WRITE_EARLY_COMPLETION C,
                  pg_4kb_rd_lat = NAND_4KB_READ_LATENCY C, pg_rd_lat = NAND_READ_LATENCY C,
                  pg_wr_lat = NAND_PROG_LATENCY C, blk_er_lat = NAND_ERASE_LATENCY C,
                  max_ch_xfer_size = MAX_CH_XFER_SIZE C,
                  fw_4kb_rd_lat = FW_4KB_READ_LATENCY C, fw_rd_lat = FW_READ_LATENCY C,
                  fw_wbuf_lat0 = FW_WBUF_LATENCY0 C, fw_wbuf_lat1 = FW_WBUF_LATENCY1 C,
                  fw_ch_xfer_lat = FW_CH_XFER_LATENCY C,
                  ch_bandwidth = NAND_CHANNEL_BANDWIDTH C, pcie_bandwidth = PCIE_BANDWIDTH C,
                  secs_per_blk = spb, secs_per_pl = spl, secs_per_lun = splun, secs_per_ch = spch,
                  tt_secs = spch * nchs', pgs_per_pl = ppl, pgs_per_lun = pplun, pgs_per_ch = ppch,
                  tt_pgs = ppch * nchs', blks_per_lun = bplun, blks_per_ch = bpch,
                  tt_blks = bpch * nchs', secs_per_line = ttl * ppb * secs_per_pg',
                  pgs_per_line = ttl * ppb, blks_per_line = ttl, tt_lines = bplun,
                  pls_per_ch = plch, tt_pls = plch * nchs', tt_luns = ttl,
                  write_buffer_size = GLOBAL_WB_SIZE C\<rparr>)"

section \<open>Flash state\<close>

record ppa =
  p_pg :: nat
  p_blk :: nat
  p_pl :: nat
  p_lun :: nat
  p_ch :: nat
  p_rsv :: nat

definition UNMAPPED_PPA :: ppa where
  "UNMAPPED_PPA = \<lparr>p_pg = 2 ^ 16 - 1, p_blk = 2 ^ 16 - 1, p_pl = 2 ^ 8 - 1, p_lun = 2 ^ 8 - 1,
     p_ch = 2 ^ 8 - 1, p_rsv = 2 ^ 8 - 1\<rparr>"

datatype pg_status = PG_FREE | PG_INVALID | PG_VALID

record nand_block =
  nb_pg :: "nat \<Rightarrow> pg_status"
  nb_npgs :: nat
  nb_ipc :: int
  nb_vpc :: int
  nb_erase_cnt :: nat
  nb_wp :: nat

record ssd =
  sp :: ssdparams
  s_blk :: "nat \<Rightarrow> nat \<Rightarrow> nat \<Rightarrow> nat \<Rightarrow> nand_block"
  s_lun_avail :: "nat \<Rightarrow> nat \<Rightarrow> nat"
  s_ch :: "nat \<Rightarrow> channel_model"
  s_pcie :: channel_model
  s_wbuf :: buffer
  s_clk :: "nat \<Rightarrow> nat"
  s_tick :: nat

definition ssd_init_nand_blk :: "ssdparams \<Rightarrow> nand_block" where
  "ssd_init_nand_blk spp = \<lparr>nb_pg = (\<lambda>_. PG_FREE), nb_npgs = pgs_per_blk spp, nb_ipc = 0, nb_vpc = 0,
     nb_erase_cnt = 0, nb_wp = 0\<rparr>"

definition ssd_init_ch :: "ssdparams \<Rightarrow> channel_model" where
  "ssd_init_ch spp =
     (let m = chmodel_init (ch_bandwidth spp)
      in m\<lparr>cm_xfer_lat := (cm_xfer_lat m + fw_ch_xfer_lat spp * UNIT_XFER_SIZE div 4096) mod 2 ^ 32\<rparr>)"

definition ssd_init_pcie :: "ssdparams \<Rightarrow> channel_model" where
  "ssd_init_pcie spp = chmodel_init (pcie_bandwidth spp)"

definition ssd_init :: "ssdparams \<Rightarrow> (nat \<Rightarrow> nat) \<Rightarrow> ssd" where
  "ssd_init spp clk =
     \<lparr>sp = spp, s_blk = (\<lambda>_ _ _ _. ssd_init_nand_blk spp), s_lun_avail = (\<lambda>_ _. 0),
      s_ch = (\<lambda>_. ssd_init_ch spp), s_pcie = ssd_init_pcie spp,
      s_wbuf = buffer_init (of_nat (write_buffer_size spp)), s_clk = clk, s_tick = 0\<rparr>"

definition get_blk :: "ssd \<Rightarrow> ppa \<Rightarrow> nand_block" where
  "get_blk ssd ppa = s_blk ssd (p_ch ppa) (p_lun ppa) (p_pl ppa) (p_blk ppa)"

definition get_pg :: "ssd \<Rightarrow> ppa \<Rightarrow> pg_status" where
  "get_pg ssd ppa = nb_pg (get_blk ssd ppa) (p_pg ppa)"

definition get_cell :: "ssd \<Rightarrow> ppa \<Rightarrow> nat" where
  "get_cell ssd ppa = (p_pg ppa div pgs_per_flashpg (sp ssd)) mod cell_mode (sp ssd)"

definition set_blk :: "ppa \<Rightarrow> nand_block \<Rightarrow> ssd \<Rightarrow> ssd" where
  "set_blk ppa b ssd = ssd\<lparr>s_blk := (s_blk ssd)(p_ch ppa := (s_blk ssd (p_ch ppa))(p_lun ppa :=
     (s_blk ssd (p_ch ppa) (p_lun ppa))(p_pl ppa := (s_blk ssd (p_ch ppa) (p_lun ppa) (p_pl ppa))
       (p_blk ppa := b))))\<rparr>"

section \<open>Timing\<close>

text \<open>\<^verbatim>\<open>cpu_clock()\<close>: the next clock reading.\<close>

definition read_clock :: "ssd \<Rightarrow> nat \<times> ssd" where
  "read_clock ssd = (s_clk ssd (s_tick ssd), ssd\<lparr>s_tick := Suc (s_tick ssd)\<rparr>)"

definition ssd_advance_pcie :: "nat \<Rightarrow> nat \<Rightarrow> ssd \<Rightarrow> (nat \<times> ssd) option" where
  "ssd_advance_pcie request_time len ssd =
     (let (now, ssd) = read_clock ssd in
      do {
        (t, m) \<leftarrow> chmodel_request now request_time len (s_pcie ssd);
        Some (t, ssd\<lparr>s_pcie := m\<rparr>)
      })"

definition channel_request :: "nat \<Rightarrow> nat \<Rightarrow> nat \<Rightarrow> ssd \<Rightarrow> (nat \<times> ssd) option" where
  "channel_request ch request_time len ssd =
     (let (now, ssd) = read_clock ssd in
      do {
        (t, m) \<leftarrow> chmodel_request now request_time len (s_ch ssd ch);
        Some (t, ssd\<lparr>s_ch := (s_ch ssd)(ch := m)\<rparr>)
      })"

definition ssd_advance_write_buffer :: "nat \<Rightarrow> nat \<Rightarrow> ssd \<Rightarrow> (nat \<times> ssd) option" where
  "ssd_advance_write_buffer request_time len ssd =
     (let t = request_time + fw_wbuf_lat0 (sp ssd) + fw_wbuf_lat1 (sp ssd) * DIV_ROUND_UP len 4096
      in ssd_advance_pcie t len ssd)"

text \<open>
  Every \<^verbatim>\<open>nand_cmd\<close> of the sources is built with one of the four commands, so the \<^verbatim>\<open>default\<close> branch of
  \<^verbatim>\<open>ssd_advance_nand\<close> (an error message and 0) is not reached and has no constructor.
\<close>

datatype nand_op = NAND_READ | NAND_WRITE | NAND_ERASE | NAND_NOP

record nand_cmd =
  nc_cmd :: nand_op
  nc_xfer_size :: nat
  nc_stime :: nat
  nc_interleave_pci_dma :: bool
  nc_ppa :: ppa

text \<open>
  The transfer loop of a flash read: \<open>chnl\<close> is \<^verbatim>\<open>chnl_stime\<close>; the result is the last \<^verbatim>\<open>chnl_etime\<close> and
  \<^verbatim>\<open>completed_time\<close>, \<open>None\<close> before the first round.
\<close>

partial_function (option) read_xfer_loop ::
  "nat \<Rightarrow> bool \<Rightarrow> nat \<Rightarrow> nat \<Rightarrow> (nat \<times> nat) option \<Rightarrow> ssd \<Rightarrow> ((nat \<times> nat) option \<times> ssd) option" where
  "read_xfer_loop ch il remaining chnl res ssd =
     (if remaining = 0 then Some (res, ssd)
      else
        let xfer_size = min remaining (max_ch_xfer_size (sp ssd)) in
        do {
          (etime, ssd) \<leftarrow> channel_request ch chnl xfer_size ssd;
          (completed, ssd) \<leftarrow> (if il then ssd_advance_pcie etime xfer_size ssd else Some (etime, ssd));
          read_xfer_loop ch il (remaining - xfer_size) etime (Some (etime, completed)) ssd
        })"

definition set_lun_avail :: "ppa \<Rightarrow> nat \<Rightarrow> ssd \<Rightarrow> ssd" where
  "set_lun_avail ppa t ssd =
     ssd\<lparr>s_lun_avail := (s_lun_avail ssd)(p_ch ppa := (s_lun_avail ssd (p_ch ppa))(p_lun ppa := t))\<rparr>"

definition ssd_advance_nand :: "nand_cmd \<Rightarrow> ssd \<Rightarrow> (nat \<times> ssd) option" where
  "ssd_advance_nand ncmd ssd =
     (let (cmd_stime, ssd) = (if nc_stime ncmd = 0 then read_clock ssd else (nc_stime ncmd, ssd));
          ppa = nc_ppa ncmd in
      if ppa = UNMAPPED_PPA then Some (cmd_stime, ssd)
      else
        let avail = s_lun_avail ssd (p_ch ppa) (p_lun ppa);
            cell = get_cell ssd ppa in
        case nc_cmd ncmd of
          NAND_READ \<Rightarrow>
            let nand_stime = max avail cmd_stime;
                nand_etime = nand_stime + (if nc_xfer_size ncmd = 4096
                  then pg_4kb_rd_lat (sp ssd) ! cell else pg_rd_lat (sp ssd) ! cell) in
            do {
              (res, ssd) \<leftarrow> read_xfer_loop (p_ch ppa) (nc_interleave_pci_dma ncmd)
                               (nc_xfer_size ncmd) nand_etime None ssd;
              (etime, completed) \<leftarrow> res;
              Some (completed, set_lun_avail ppa etime ssd)
            }
        | NAND_WRITE \<Rightarrow>
            do {
              (etime, ssd) \<leftarrow> channel_request (p_ch ppa) (max avail cmd_stime) (nc_xfer_size ncmd) ssd;
              let nand_etime = etime + pg_wr_lat (sp ssd);
              Some (nand_etime, set_lun_avail ppa nand_etime ssd)
            }
        | NAND_ERASE \<Rightarrow>
            (let nand_etime = max avail cmd_stime + blk_er_lat (sp ssd)
             in Some (nand_etime, set_lun_avail ppa nand_etime ssd))
        | NAND_NOP \<Rightarrow>
            (let nand_stime = max avail cmd_stime
             in Some (nand_stime, set_lun_avail ppa nand_stime ssd)))"

definition ssd_next_idle_time :: "ssd \<Rightarrow> nat \<times> ssd" where
  "ssd_next_idle_time ssd =
     (let (now, ssd') = read_clock ssd in
      (fold (\<lambda>i. fold (\<lambda>j t. max t (s_lun_avail ssd i j)) [0..<luns_per_ch (sp ssd)])
         [0..<nchs (sp ssd)] now, ssd'))"

section \<open>Invariant\<close>

text \<open>All bandwidth models are in order, reads move at least a byte per round.\<close>

definition ssd_inv :: "ssd \<Rightarrow> bool" where
  "ssd_inv ssd \<longleftrightarrow> (\<forall>c. ch_inv (s_ch ssd c)) \<and> ch_inv (s_pcie ssd) \<and> 0 < max_ch_xfer_size (sp ssd)"

text \<open>What the timing calls leave alone.\<close>

definition same_flash :: "ssd \<Rightarrow> ssd \<Rightarrow> bool" where
  "same_flash ssd ssd' \<longleftrightarrow> sp ssd' = sp ssd \<and> s_blk ssd' = s_blk ssd \<and> s_wbuf ssd' = s_wbuf ssd \<and>
     s_clk ssd' = s_clk ssd"

lemma same_flash_refl [simp]: "same_flash ssd ssd"
  by (simp add: same_flash_def)

lemma same_flash_trans: "same_flash a b \<Longrightarrow> same_flash b c \<Longrightarrow> same_flash a c"
  by (simp add: same_flash_def)

lemma channel_request_ok:
  assumes "ssd_inv ssd"
  shows "\<exists>t ssd'. channel_request c req len ssd = Some (t, ssd') \<and> req \<le> t \<and> ssd_inv ssd' \<and>
    same_flash ssd ssd' \<and> s_lun_avail ssd' = s_lun_avail ssd"
proof -
  from assms have "ch_inv (s_ch ssd c)" by (simp add: ssd_inv_def)
  from chmodel_request_returns [OF this, of "s_clk ssd (s_tick ssd)" req len] obtain t m where
    "chmodel_request (s_clk ssd (s_tick ssd)) req len (s_ch ssd c) = Some (t, m)" "ch_inv m" "req \<le> t"
    by blast
  then show ?thesis
    using assms by (auto simp: channel_request_def read_clock_def ssd_inv_def same_flash_def)
qed

lemma ssd_advance_pcie_ok:
  assumes "ssd_inv ssd"
  shows "\<exists>t ssd'. ssd_advance_pcie req len ssd = Some (t, ssd') \<and> req \<le> t \<and> ssd_inv ssd' \<and>
    same_flash ssd ssd' \<and> s_lun_avail ssd' = s_lun_avail ssd"
proof -
  from assms have "ch_inv (s_pcie ssd)" by (simp add: ssd_inv_def)
  from chmodel_request_returns [OF this, of "s_clk ssd (s_tick ssd)" req len] obtain t m where
    "chmodel_request (s_clk ssd (s_tick ssd)) req len (s_pcie ssd) = Some (t, m)" "ch_inv m" "req \<le> t"
    by blast
  then show ?thesis
    using assms by (auto simp: ssd_advance_pcie_def read_clock_def ssd_inv_def same_flash_def)
qed

lemma ssd_advance_write_buffer_ok:
  assumes "ssd_inv ssd"
  shows "\<exists>t ssd'. ssd_advance_write_buffer req len ssd = Some (t, ssd') \<and> req \<le> t \<and> ssd_inv ssd' \<and>
    same_flash ssd ssd' \<and> s_lun_avail ssd' = s_lun_avail ssd"
  using ssd_advance_pcie_ok [OF assms, of "req + fw_wbuf_lat0 (sp ssd) +
      fw_wbuf_lat1 (sp ssd) * DIV_ROUND_UP len 4096" len]
  by (fastforce simp: ssd_advance_write_buffer_def)

lemma read_xfer_loop_ok:
  assumes "ssd_inv ssd"
  shows "\<exists>res' ssd'. read_xfer_loop ch il n t res ssd = Some (res', ssd') \<and> ssd_inv ssd' \<and>
    same_flash ssd ssd' \<and> s_lun_avail ssd' = s_lun_avail ssd \<and>
    (if n = 0 then res' = res else \<exists>e c. res' = Some (e, c) \<and> t \<le> e \<and> e \<le> c)"
  using assms
proof (induction n arbitrary: t res ssd rule: less_induct)
  case (less n)
  show ?case
  proof (cases "n = 0")
    case True
    then show ?thesis using less.prems by (subst read_xfer_loop.simps) simp
  next
    case False
    let ?x = "min n (max_ch_xfer_size (sp ssd))"
    have x: "n - ?x < n" using False less.prems by (simp add: ssd_inv_def)
    obtain e ssd1 where e: "channel_request ch t ?x ssd = Some (e, ssd1)" "t \<le> e" "ssd_inv ssd1"
      "same_flash ssd ssd1" "s_lun_avail ssd1 = s_lun_avail ssd"
      using channel_request_ok [OF less.prems] by blast
    obtain c ssd2 where c: "(if il then ssd_advance_pcie e ?x ssd1 else Some (e, ssd1)) = Some (c, ssd2)"
      "e \<le> c" "ssd_inv ssd2" "same_flash ssd1 ssd2" "s_lun_avail ssd2 = s_lun_avail ssd1"
      using ssd_advance_pcie_ok [OF e(3), of e ?x] e(3) by (cases il) auto
    have step: "read_xfer_loop ch il n t res ssd =
        read_xfer_loop ch il (n - ?x) e (Some (e, c)) ssd2"
      using False e(1) c(1) by (subst read_xfer_loop.simps) (simp add: Let_def)
    from less.IH [OF x c(3), of e "Some (e, c)"] obtain res' ssd' where
      r: "read_xfer_loop ch il (n - ?x) e (Some (e, c)) ssd2 = Some (res', ssd')" "ssd_inv ssd'"
      "same_flash ssd2 ssd'" "s_lun_avail ssd' = s_lun_avail ssd2"
      "if n - ?x = 0 then res' = Some (e, c) else \<exists>e' c'. res' = Some (e', c') \<and> e \<le> e' \<and> e' \<le> c'"
      by blast
    have "same_flash ssd ssd'" using e(4) c(4) r(3) by (blast intro: same_flash_trans)
    moreover have "\<exists>e' c'. res' = Some (e', c') \<and> t \<le> e' \<and> e' \<le> c'"
      using r(5) e(2) c(2) by (cases "n - ?x = 0") auto
    ultimately show ?thesis using step r(1,2,4) e(5) c(5) False by simp
  qed
qed

lemma ssd_advance_nand_ok:
  assumes inv: "ssd_inv ssd" and p: "nc_ppa ncmd \<noteq> UNMAPPED_PPA"
    and rd: "nc_cmd ncmd = NAND_READ \<longrightarrow> 0 < nc_xfer_size ncmd"
  shows "\<exists>t a ssd'. ssd_advance_nand ncmd ssd = Some (t, ssd') \<and> ssd_inv ssd' \<and> same_flash ssd ssd' \<and>
    nc_stime ncmd \<le> t \<and> nc_stime ncmd \<le> a \<and> s_lun_avail ssd (p_ch (nc_ppa ncmd)) (p_lun (nc_ppa ncmd)) \<le> a \<and> a \<le> t \<and>
    s_lun_avail ssd' = (s_lun_avail ssd)(p_ch (nc_ppa ncmd) :=
      (s_lun_avail ssd (p_ch (nc_ppa ncmd)))(p_lun (nc_ppa ncmd) := a))"
proof -
  let ?p = "nc_ppa ncmd"
  obtain s ssd0 where s: "(if nc_stime ncmd = 0 then read_clock ssd else (nc_stime ncmd, ssd)) = (s, ssd0)"
    by (cases "if nc_stime ncmd = 0 then read_clock ssd else (nc_stime ncmd, ssd)") auto
  then have s0: "nc_stime ncmd \<le> s" "ssd_inv ssd0" "same_flash ssd ssd0" "s_lun_avail ssd0 = s_lun_avail ssd"
    using inv by (auto simp: read_clock_def ssd_inv_def same_flash_def split: if_splits)
  let ?m = "max (s_lun_avail ssd (p_ch ?p) (p_lun ?p)) s"
  have fin: ?thesis if "ssd_advance_nand ncmd ssd = Some (t, set_lun_avail ?p a ssd1)" "ssd_inv ssd1"
    "same_flash ssd0 ssd1" "s_lun_avail ssd1 = s_lun_avail ssd0" "?m \<le> a" "a \<le> t" for t a ssd1
  proof -
    have "same_flash ssd (set_lun_avail ?p a ssd1)" "ssd_inv (set_lun_avail ?p a ssd1)"
      using that(2,3) s0(3) by (auto simp: same_flash_def set_lun_avail_def ssd_inv_def)
    then show ?thesis
      using that s0 by (intro exI [of _ t] exI [of _ a] exI [of _ "set_lun_avail ?p a ssd1"])
        (simp add: set_lun_avail_def)
  qed
  note eq = ssd_advance_nand_def Let_def s prod.case p
  show ?thesis
  proof (cases "nc_cmd ncmd")
    case NAND_READ
    obtain etime res ssd1 where r: "read_xfer_loop (p_ch ?p) (nc_interleave_pci_dma ncmd) (nc_xfer_size ncmd)
        (?m + (if nc_xfer_size ncmd = 4096 then pg_4kb_rd_lat (sp ssd0) ! get_cell ssd0 ?p
               else pg_rd_lat (sp ssd0) ! get_cell ssd0 ?p)) None ssd0 = Some (Some (etime, res), ssd1)"
      "ssd_inv ssd1" "same_flash ssd0 ssd1" "s_lun_avail ssd1 = s_lun_avail ssd0" "?m \<le> etime" "etime \<le> res"
      using read_xfer_loop_ok [OF s0(2)] rd NAND_READ add_leD1
      by (metis (no_types, lifting) neq0_conv nat_less_le)
    then show ?thesis using NAND_READ s0(4) by (intro fin [of res etime ssd1]) (simp_all add: eq)
  next
    case NAND_WRITE
    obtain e ssd1 where r: "channel_request (p_ch ?p) ?m (nc_xfer_size ncmd) ssd0 = Some (e, ssd1)"
      "?m \<le> e" "ssd_inv ssd1" "same_flash ssd0 ssd1" "s_lun_avail ssd1 = s_lun_avail ssd0"
      using channel_request_ok [OF s0(2)] by blast
    then show ?thesis
      using NAND_WRITE s0(4)
      by (intro fin [of "e + pg_wr_lat (sp ssd1)" "e + pg_wr_lat (sp ssd1)" ssd1]) (simp_all add: eq)
  next
    case NAND_ERASE
    then show ?thesis
      using s0 by (intro fin [of "?m + blk_er_lat (sp ssd0)" "?m + blk_er_lat (sp ssd0)" ssd0]) (simp_all add: eq)
  next
    case NAND_NOP
    then show ?thesis using s0 by (intro fin [of ?m ?m ssd0]) (simp_all add: eq)
  qed
qed

text \<open>A command of channel \<open>ch\<close> leaves the other channels alone.\<close>

definition same_chs :: "nat \<Rightarrow> ssd \<Rightarrow> ssd \<Rightarrow> bool" where
  "same_chs ch ssd ssd' \<longleftrightarrow> (\<forall>c. c \<noteq> ch \<longrightarrow> s_ch ssd' c = s_ch ssd c)"

lemma same_chs_refl [simp]: "same_chs ch ssd ssd"
  by (simp add: same_chs_def)

lemma same_chs_trans: "same_chs ch a b \<Longrightarrow> same_chs ch b c \<Longrightarrow> same_chs ch a c"
  by (simp add: same_chs_def)

lemma same_chs_requests:
  "channel_request ch r len ssd = Some (t, ssd') \<Longrightarrow> same_chs ch ssd ssd'"
  "ssd_advance_pcie r len ssd = Some (t, ssd') \<Longrightarrow> same_chs ch ssd ssd'"
  by (auto simp: channel_request_def ssd_advance_pcie_def read_clock_def bind_eq_Some_conv same_chs_def)

lemma same_chs_read_xfer:
  assumes "read_xfer_loop ch il n t res ssd = Some (res', ssd')"
  shows "same_chs ch ssd ssd'"
proof -
  have "same_chs ch ssd (snd (res', ssd'))"
    using assms
  proof (rule read_xfer_loop.raw_induct [where P = "\<lambda>ch il n t res ssd p. same_chs ch ssd (snd p)", rotated], goal_cases)
    case (1 loop ch il n t res ssd p)
    show ?case
    proof (cases "n = 0")
      case True
      then show ?thesis using 1(2) by auto
    next
      case False
      let ?x = "min n (max_ch_xfer_size (sp ssd))"
      obtain e s1 c s2 where r: "channel_request ch t ?x ssd = Some (e, s1)"
        "(if il then ssd_advance_pcie e ?x s1 else Some (e, s1)) = Some (c, s2)"
        "loop ch il (n - ?x) e (Some (e, c)) s2 = Some p"
        using 1(2) False by (auto simp: Let_def bind_eq_Some_conv)
      have "same_chs ch s1 s2" using r(2) same_chs_requests(2) by (auto split: if_splits)
      then show ?thesis using same_chs_requests(1) [OF r(1)] 1(1) [OF r(3)] same_chs_trans by blast
    qed
  qed
  then show ?thesis by simp
qed

lemma same_chs_nand:
  assumes "ssd_advance_nand ncmd ssd = Some (t, ssd')"
  shows "same_chs (p_ch (nc_ppa ncmd)) ssd ssd'"
proof -
  obtain s ssd0 where s: "(if nc_stime ncmd = 0 then read_clock ssd else (nc_stime ncmd, ssd)) = (s, ssd0)"
    by (cases "if nc_stime ncmd = 0 then read_clock ssd else (nc_stime ncmd, ssd)") auto
  have 0: "s_ch ssd0 = s_ch ssd" using s by (auto simp: read_clock_def split: if_splits)
  have "same_chs (p_ch (nc_ppa ncmd)) ssd0 ssd'"
    using assms unfolding ssd_advance_nand_def Let_def s prod.case
    by (auto simp: same_chs_def set_lun_avail_def bind_eq_Some_conv split: if_splits nand_op.splits
        dest!: same_chs_read_xfer same_chs_requests(1))
  with 0 show ?thesis by (simp add: same_chs_def)
qed

lemma ssd_init_inv:
  assumes "0 < max_ch_xfer_size spp"
    and "0 < BANDWIDTH_TO_MAX_CREDITS (ch_bandwidth spp)" "BANDWIDTH_TO_MAX_CREDITS (ch_bandwidth spp) < 2 ^ 8"
    and "0 < BANDWIDTH_TO_MAX_CREDITS (pcie_bandwidth spp)" "BANDWIDTH_TO_MAX_CREDITS (pcie_bandwidth spp) < 2 ^ 8"
  shows "ssd_inv (ssd_init spp clk)"
proof -
  have "ch_inv (ssd_init_ch spp)"
    using chmodel_init_inv [OF assms(2,3)] by (simp add: ssd_init_ch_def Let_def ch_inv_def)
  then show ?thesis
    using assms(1) chmodel_init_inv [OF assms(4,5)]
    by (simp add: ssd_inv_def ssd_init_def ssd_init_pcie_def)
qed

section \<open>Properties\<close>

text \<open>
  C39: timing of a flash command. A read, write, erase or no-operation on a mapped page (a read of at least
  one byte) returns, does not finish before it starts, occupies exactly the die it addresses, from no earlier
  than the die was free until no later than the command's completion; so commands on one die never overlap.
  It changes neither the flash contents, nor the write buffer, nor the parameters, nor the clock; only the
  PCIe model and the model of the die's channel may advance.
\<close>
theorem ssd_advance_nand_timing:
  assumes "ssd_inv ssd" and "nc_ppa ncmd \<noteq> UNMAPPED_PPA"
    and "nc_cmd ncmd = NAND_READ \<longrightarrow> 0 < nc_xfer_size ncmd"
  shows "\<exists>t a ssd'. ssd_advance_nand ncmd ssd = Some (t, ssd') \<and> ssd_inv ssd' \<and> s_blk ssd' = s_blk ssd \<and>
    nc_stime ncmd \<le> a \<and> a \<le> t \<and>
    s_lun_avail ssd (p_ch (nc_ppa ncmd)) (p_lun (nc_ppa ncmd)) \<le> a \<and>
    s_lun_avail ssd' (p_ch (nc_ppa ncmd)) (p_lun (nc_ppa ncmd)) = a \<and>
    (\<forall>c l. (c, l) \<noteq> (p_ch (nc_ppa ncmd), p_lun (nc_ppa ncmd)) \<longrightarrow> s_lun_avail ssd' c l = s_lun_avail ssd c l) \<and>
    s_wbuf ssd' = s_wbuf ssd \<and> sp ssd' = sp ssd \<and> s_clk ssd' = s_clk ssd \<and>
    (\<forall>c. c \<noteq> p_ch (nc_ppa ncmd) \<longrightarrow> s_ch ssd' c = s_ch ssd c)"
proof -
  obtain t a ssd' where r: "ssd_advance_nand ncmd ssd = Some (t, ssd')" "ssd_inv ssd'" "same_flash ssd ssd'" "nc_stime ncmd \<le> a"
    "s_lun_avail ssd (p_ch (nc_ppa ncmd)) (p_lun (nc_ppa ncmd)) \<le> a" "a \<le> t"
    "s_lun_avail ssd' = (s_lun_avail ssd)(p_ch (nc_ppa ncmd) := (s_lun_avail ssd (p_ch (nc_ppa ncmd)))(p_lun (nc_ppa ncmd) := a))"
    using ssd_advance_nand_ok [OF assms] by blast
  show ?thesis
    using r same_chs_nand [OF r(1)] by (intro exI [of _ t] exI [of _ a] exI [of _ ssd']) (auto simp: same_flash_def same_chs_def)
qed

text \<open>
  The geometry computed from a configuration holds the capacity: the pages of all dies of a
  partition cover its share of the capacity, and the page, block and line counts are consistent.
\<close>
theorem ssd_init_params_cover:
  assumes "ssd_init_params C capacity nparts = Some spp"
    and "0 < LBA_SIZE C" "LBA_SIZE C dvd 4096" "0 < nparts" "0 < NAND_CHANNELS C" "0 < PLNS_PER_LUN C"
    "0 < LUNS_PER_NAND_CH C" "0 < ONESHOT_PAGE_SIZE C"
  shows "capacity div nparts \<le> tt_pgs spp * pgsz spp \<and> pgsz spp = 4096 \<and>
    tt_pgs spp = tt_blks spp * pgs_per_blk spp \<and> tt_secs spp = tt_pgs spp * secs_per_pg spp \<and>
    tt_blks spp = tt_lines spp * blks_per_line spp \<and> tt_pgs spp = tt_lines spp * pgs_per_line spp"
proof -
  let ?n = "NAND_CHANNELS C div nparts" and ?cap = "capacity div nparts"
  let ?u = "PLNS_PER_LUN C * LUNS_PER_NAND_CH C * ?n"
  have "nparts dvd NAND_CHANNELS C" using assms(1)
    by (auto simp: ssd_init_params_def Let_def dvd_eq_mod_eq_0 split: if_splits)
  then have n: "0 < ?n" using assms(4,5) by (simp add: dvd_imp_le div_greater_zero_iff)
  have pg: "LBA_SIZE C * (4096 div LBA_SIZE C) = 4096" using assms(3) by simp
  have p: "ONESHOT_PAGE_SIZE C mod 4096 = 0"
    using assms(1) pg by (auto simp: ssd_init_params_def Let_def split: if_splits)
  obtain blks bs where b: "blks_per_pl spp = blks" "?cap \<le> bs * (blks * ?u)"
      "pgs_per_blk spp = ONESHOT_PAGE_SIZE C div 4096 * DIV_ROUND_UP bs (ONESHOT_PAGE_SIZE C)"
      "tt_pgs spp = pgs_per_blk spp * blks * PLNS_PER_LUN C * LUNS_PER_NAND_CH C * ?n" "pgsz spp = 4096"
  proof (cases "BLKS_PER_PLN C > 0")
    case True
    let ?bs = "DIV_ROUND_UP ?cap (BLKS_PER_PLN C * PLNS_PER_LUN C * LUNS_PER_NAND_CH C * ?n)"
    have "0 < BLKS_PER_PLN C * PLNS_PER_LUN C * LUNS_PER_NAND_CH C * ?n" using True assms n by simp
    from DIV_ROUND_UP_mult [OF this, of ?cap] have "?cap \<le> ?bs * (BLKS_PER_PLN C * ?u)"
      by (simp add: mult.assoc)
    then show ?thesis
      using that [of "BLKS_PER_PLN C" ?bs] True assms(1) pg
      by (auto simp: ssd_init_params_def Let_def split: if_splits)
  next
    case False
    let ?bl = "DIV_ROUND_UP ?cap (BLK_SIZE C * PLNS_PER_LUN C * LUNS_PER_NAND_CH C * ?n)"
    have "0 < BLK_SIZE C"
      using False assms(1) by (auto simp: ssd_init_params_def Let_def split: if_splits)
    then have "0 < BLK_SIZE C * PLNS_PER_LUN C * LUNS_PER_NAND_CH C * ?n" using assms n by simp
    from DIV_ROUND_UP_mult [OF this, of ?cap] have "?cap \<le> BLK_SIZE C * (?bl * ?u)"
      by (simp add: ac_simps)
    then show ?thesis
      using that [of ?bl "BLK_SIZE C"] False assms(1) pg
      by (auto simp: ssd_init_params_def Let_def split: if_splits)
  qed
  have "bs \<le> DIV_ROUND_UP bs (ONESHOT_PAGE_SIZE C) * ONESHOT_PAGE_SIZE C"
    using DIV_ROUND_UP_mult [OF assms(8)] .
  also have "\<dots> = pgs_per_blk spp * 4096"
  proof -
    have "ONESHOT_PAGE_SIZE C = 4096 * (ONESHOT_PAGE_SIZE C div 4096)" using p by auto
    then show ?thesis using b(3) by (simp add: ac_simps)
  qed
  finally have "?cap \<le> pgs_per_blk spp * 4096 * (blks * ?u)"
    using b(2) by (meson le_trans mult_le_mono1)
  moreover have "pgs_per_blk spp * 4096 * (blks * ?u) = tt_pgs spp * pgsz spp"
    using b(4,5) by (simp add: ac_simps)
  ultimately have "?cap \<le> tt_pgs spp * pgsz spp" by simp
  moreover have "tt_pgs spp = tt_blks spp * pgs_per_blk spp \<and> tt_secs spp = tt_pgs spp * secs_per_pg spp \<and>
    tt_blks spp = tt_lines spp * blks_per_line spp \<and> tt_pgs spp = tt_lines spp * pgs_per_line spp"
    using assms(1) by (auto simp: ssd_init_params_def Let_def split: if_splits)
  ultimately show ?thesis using b(5) by blast
qed

section \<open>Concrete runs\<close>

text \<open>The geometry of the first model for a gibibyte in four partitions.\<close>

definition demo_spp :: ssdparams where
  "demo_spp = the (ssd_init_params SAMSUNG_970PRO (2 ^ 30) 4)"

lemma demo_spp_Some: "ssd_init_params SAMSUNG_970PRO (2 ^ 30) 4 = Some demo_spp"
  by (simp add: demo_spp_def ssd_init_params_def Let_def SAMSUNG_970PRO_def)

theorem ssd_init_params_cover_witness:
  "2 ^ 30 div 4 \<le> tt_pgs demo_spp * pgsz demo_spp \<and> tt_pgs demo_spp = tt_lines demo_spp * pgs_per_line demo_spp"
proof -
  have "0 < LBA_SIZE SAMSUNG_970PRO" "LBA_SIZE SAMSUNG_970PRO dvd 4096" "0 < (4 :: nat)"
    "0 < NAND_CHANNELS SAMSUNG_970PRO" "0 < PLNS_PER_LUN SAMSUNG_970PRO"
    "0 < LUNS_PER_NAND_CH SAMSUNG_970PRO" "0 < ONESHOT_PAGE_SIZE SAMSUNG_970PRO"
    by (simp_all add: SAMSUNG_970PRO_def)
  from ssd_init_params_cover [OF demo_spp_Some this] show ?thesis by blast
qed

lemma demo_ssd_inv: "ssd_inv (ssd_init demo_spp clk)"
  by (rule ssd_init_inv)
    (simp_all add: demo_spp_def ssd_init_params_def Let_def SAMSUNG_970PRO_def BANDWIDTH_TO_MAX_CREDITS_def
      UNIT_TIME_INTERVAL_def UNIT_XFER_SIZE_def UNIT_XFER_CREDITS_def)

theorem ssd_advance_nand_timing_witness:
  "\<exists>t ssd'. ssd_advance_nand \<lparr>nc_cmd = NAND_READ, nc_xfer_size = 4096, nc_stime = 5,
       nc_interleave_pci_dma = False,
       nc_ppa = \<lparr>p_pg = 0, p_blk = 0, p_pl = 0, p_lun = 1, p_ch = 1, p_rsv = 0\<rparr>\<rparr> (ssd_init demo_spp (\<lambda>_. 3)) =
     Some (t, ssd') \<and> 5 \<le> t"
  using ssd_advance_nand_timing [OF demo_ssd_inv, of "\<lparr>nc_cmd = NAND_READ, nc_xfer_size = 4096, nc_stime = 5,
       nc_interleave_pci_dma = False,
       nc_ppa = \<lparr>p_pg = 0, p_blk = 0, p_pl = 0, p_lun = 1, p_ch = 1, p_rsv = 0\<rparr>\<rparr>" "\<lambda>_. 3"]
  by (force simp: UNMAPPED_PPA_def)

end
