(* ===== verification/ZNS_FTL.thy ===== *)
theory ZNS_FTL
  imports SSD_Model
begin

text \<open>
  The zoned namespace (\<^verbatim>\<open>zns_ftl.c\<close>, \<^verbatim>\<open>zns_ftl.h\<close>, \<^verbatim>\<open>zns_mgmt_send.c\<close>, \<^verbatim>\<open>zns_mgmt_recv.c\<close>,
  \<^verbatim>\<open>zns_read_write.c\<close>): the zone state machine with its active, open and random-write-area
  resources, sequential writes and appends, writes through the random write area, reads, zone
  management and the zone report. Logical block addresses, sizes and counters are natural numbers;
  32-bit conversions and wrap-around are written out. The storage is a function from byte offsets.
  Internal operations handed to \<^verbatim>\<open>schedule_internal_operation\<close> are appended to a log. \<open>None\<close> stands
  for \<^verbatim>\<open>BUG()\<close>, a loop that does not end, or an access beyond the zone table.
\<close>

section \<open>Data\<close>

datatype zone_state =
    ZONE_STATE_EMPTY
  | ZONE_STATE_OPENED_IMPL
  | ZONE_STATE_OPENED_EXPL
  | ZONE_STATE_CLOSED
  | ZONE_STATE_READ_ONLY
  | ZONE_STATE_FULL
  | ZONE_STATE_OFFLINE

datatype zone_resource_type = ACTIVE_ZONE | OPEN_ZONE | ZRWA_ZONE

record zone_descriptor =
  zd_type :: nat
  zd_state :: zone_state
  zd_zrwav :: bool
  zd_capacity :: nat
  zd_zslba :: nat
  zd_wp :: nat

record znsparams =
  nr_zones :: nat
  nr_active_zones :: nat
  nr_open_zones :: nat
  dies_per_zone :: nat
  zone_size :: nat
  zone_wb_size :: nat
  nr_zrwa_zones :: nat
  zrwafg_size :: nat
  zrwa_size :: nat
  zrwa_buffer_size :: nat
  lbas_per_zrwafg :: nat
  lbas_per_zrwa :: nat

record zone_resource_info =
  acquired_cnt :: nat
  total_cnt :: nat

datatype zbuf = Global_wb | Zone_wb nat | Zrwa_wb nat

record sched_op =
  so_sqid :: nat
  so_target :: nat
  so_buf :: zbuf
  so_release :: nat

record zns_ftl =
  z_ssd :: ssd
  zp :: znsparams
  res_infos :: "zone_resource_type \<Rightarrow> zone_resource_info"
  zone_descs :: "nat \<Rightarrow> zone_descriptor"
  zone_write_buffer :: "nat \<Rightarrow> buffer"
  zrwa_buffer :: "nat \<Rightarrow> buffer"
  storage :: "nat \<Rightarrow> u8"
  z_sched :: "sched_op list"

definition NVME_SC_SUCCESS :: u32 where "NVME_SC_SUCCESS = 0"
definition NVME_SC_INVALID_FIELD :: u32 where "NVME_SC_INVALID_FIELD = 2"
definition NVME_SC_ZNS_INVALID_ZONE_OPERATION :: u32 where "NVME_SC_ZNS_INVALID_ZONE_OPERATION = 0x1B6"
definition NVME_SC_ZNS_ZRWA_RSRC_UNAVAIL :: u32 where "NVME_SC_ZNS_ZRWA_RSRC_UNAVAIL = 0x1B7"
definition NVME_SC_ZNS_ERR_BOUNDARY :: u32 where "NVME_SC_ZNS_ERR_BOUNDARY = 0x1B8"
definition NVME_SC_ZNS_ERR_FULL :: u32 where "NVME_SC_ZNS_ERR_FULL = 0x1B9"
definition NVME_SC_ZNS_ERR_READ_ONLY :: u32 where "NVME_SC_ZNS_ERR_READ_ONLY = 0x1BA"
definition NVME_SC_ZNS_ERR_OFFLINE :: u32 where "NVME_SC_ZNS_ERR_OFFLINE = 0x1BB"
definition NVME_SC_ZNS_INVALID_WRITE :: u32 where "NVME_SC_ZNS_INVALID_WRITE = 0x1BC"
definition NVME_SC_ZNS_NO_ACTIVE_ZONE :: u32 where "NVME_SC_ZNS_NO_ACTIVE_ZONE = 0x1BD"
definition NVME_SC_ZNS_NO_OPEN_ZONE :: u32 where "NVME_SC_ZNS_NO_OPEN_ZONE = 0x1BE"
definition NVME_SC_ZNS_INVALID_TRANSITION :: u32 where "NVME_SC_ZNS_INVALID_TRANSITION = 0x1BF"

lemmas zns_status_defs = NVME_SC_SUCCESS_def NVME_SC_INVALID_FIELD_def
  NVME_SC_ZNS_INVALID_ZONE_OPERATION_def NVME_SC_ZNS_ZRWA_RSRC_UNAVAIL_def NVME_SC_ZNS_ERR_BOUNDARY_def
  NVME_SC_ZNS_ERR_FULL_def NVME_SC_ZNS_ERR_READ_ONLY_def NVME_SC_ZNS_ERR_OFFLINE_def
  NVME_SC_ZNS_INVALID_WRITE_def NVME_SC_ZNS_NO_ACTIVE_ZONE_def NVME_SC_ZNS_NO_OPEN_ZONE_def
  NVME_SC_ZNS_INVALID_TRANSITION_def

section \<open>Resources and addresses\<close>

definition is_zone_resource_avail :: "zns_ftl \<Rightarrow> zone_resource_type \<Rightarrow> bool" where
  "is_zone_resource_avail ftl ty \<longleftrightarrow> acquired_cnt (res_infos ftl ty) < total_cnt (res_infos ftl ty)"

definition is_zone_resource_full :: "zns_ftl \<Rightarrow> zone_resource_type \<Rightarrow> bool" where
  "is_zone_resource_full ftl ty \<longleftrightarrow> acquired_cnt (res_infos ftl ty) = total_cnt (res_infos ftl ty)"

definition set_acquired :: "zone_resource_type \<Rightarrow> nat \<Rightarrow> zns_ftl \<Rightarrow> zns_ftl" where
  "set_acquired ty n ftl =
     ftl\<lparr>res_infos := (res_infos ftl)(ty := (res_infos ftl ty)\<lparr>acquired_cnt := n mod 2 ^ 32\<rparr>)\<rparr>"

definition acquire_zone_resource :: "zone_resource_type \<Rightarrow> zns_ftl \<Rightarrow> bool \<times> zns_ftl" where
  "acquire_zone_resource ty ftl =
     (if is_zone_resource_avail ftl ty
      then (True, set_acquired ty (acquired_cnt (res_infos ftl ty) + 1) ftl) else (False, ftl))"

text \<open>\<^verbatim>\<open>ASSERT\<close> is empty, so releasing an unused resource wraps around.\<close>

definition release_zone_resource :: "zone_resource_type \<Rightarrow> zns_ftl \<Rightarrow> zns_ftl" where
  "release_zone_resource ty ftl = set_acquired ty (acquired_cnt (res_infos ftl ty) + 2 ^ 32 - 1) ftl"

definition upd_zone :: "nat \<Rightarrow> (zone_descriptor \<Rightarrow> zone_descriptor) \<Rightarrow> zns_ftl \<Rightarrow> zns_ftl" where
  "upd_zone zid f ftl = ftl\<lparr>zone_descs := (zone_descs ftl)(zid := f (zone_descs ftl zid))\<rparr>"

definition change_zone_state :: "nat \<Rightarrow> zone_state \<Rightarrow> zns_ftl \<Rightarrow> zns_ftl" where
  "change_zone_state zid st = upd_zone zid (\<lambda>d. d\<lparr>zd_state := st\<rparr>)"

definition lpn_to_zone :: "zns_ftl \<Rightarrow> nat \<Rightarrow> nat" where
  "lpn_to_zone ftl lpn = (lpn div (zone_size (zp ftl) div pgsz (sp (z_ssd ftl)))) mod 2 ^ 32"

definition zone_to_slpn :: "zns_ftl \<Rightarrow> nat \<Rightarrow> nat" where
  "zone_to_slpn ftl zid = (zid * (zone_size (zp ftl) div pgsz (sp (z_ssd ftl)))) mod 2 ^ 32"

definition lba_to_zone :: "zns_ftl \<Rightarrow> nat \<Rightarrow> nat" where
  "lba_to_zone ftl lba = (lba div (zone_size (zp ftl) div secsz (sp (z_ssd ftl)))) mod 2 ^ 32"

text \<open>The product is computed in 32 bits.\<close>

definition zone_to_slba :: "zns_ftl \<Rightarrow> nat \<Rightarrow> nat" where
  "zone_to_slba ftl zid = (zid * (zone_size (zp ftl) div secsz (sp (z_ssd ftl)))) mod 2 ^ 32"

text \<open>\<^verbatim>\<open>x - 1\<close> on \<^verbatim>\<open>uint64_t\<close>.\<close>

definition dec64 :: "nat \<Rightarrow> nat" where
  "dec64 x = (x + 2 ^ 64 - 1) mod 2 ^ 64"

definition zone_to_elba :: "zns_ftl \<Rightarrow> nat \<Rightarrow> nat" where
  "zone_to_elba ftl zid = dec64 (zone_to_slba ftl ((zid + 1) mod 2 ^ 32))"

definition zone_to_elpn :: "zns_ftl \<Rightarrow> nat \<Rightarrow> nat" where
  "zone_to_elpn ftl zid = zone_to_elba ftl zid div secs_per_pg (sp (z_ssd ftl))"

definition die_to_channel :: "zns_ftl \<Rightarrow> nat \<Rightarrow> nat" where
  "die_to_channel ftl die = die mod nchs (sp (z_ssd ftl))"

definition die_to_lun :: "zns_ftl \<Rightarrow> nat \<Rightarrow> nat" where
  "die_to_lun ftl die = die div nchs (sp (z_ssd ftl))"

definition lba_to_lpn :: "zns_ftl \<Rightarrow> nat \<Rightarrow> nat" where
  "lba_to_lpn ftl lba = lba div secs_per_pg (sp (z_ssd ftl))"

section \<open>Initialisation\<close>

record zns_config =
  ZONE_SIZE :: nat
  DIES_PER_ZONE :: nat
  ZONE_WB_SIZE :: nat
  MAX_ZRWA_ZONES :: nat
  ZRWAFG_SIZE :: nat
  ZRWA_SIZE :: nat
  ZRWA_BUFFER_SIZE :: nat

definition zns_init_params :: "zns_config \<Rightarrow> ssdparams \<Rightarrow> nat \<Rightarrow> znsparams option" where
  "zns_init_params C spp capacity =
     (let zs = ZONE_SIZE C mod 2 ^ 32 in
      if capacity mod zs \<noteq> 0 \<or> zs mod pgsz spp \<noteq> 0 then None
      else Some \<lparr>nr_zones = capacity div ZONE_SIZE C mod 2 ^ 32,
                 nr_active_zones = capacity div ZONE_SIZE C mod 2 ^ 32,
                 nr_open_zones = capacity div ZONE_SIZE C mod 2 ^ 32,
                 dies_per_zone = DIES_PER_ZONE C, zone_size = zs, zone_wb_size = ZONE_WB_SIZE C,
                 nr_zrwa_zones = MAX_ZRWA_ZONES C, zrwafg_size = ZRWAFG_SIZE C,
                 zrwa_size = ZRWA_SIZE C, zrwa_buffer_size = ZRWA_BUFFER_SIZE C,
                 lbas_per_zrwafg = ZRWAFG_SIZE C div secsz spp,
                 lbas_per_zrwa = ZRWA_SIZE C div secsz spp\<rparr>)"

text \<open>\<^verbatim>\<open>__init_descriptor\<close>: \<^verbatim>\<open>BYTE_TO_LBA\<close> shifts by nine; \<^verbatim>\<open>zslba\<close> grows zone by zone.\<close>

definition init_descriptor :: "znsparams \<Rightarrow> nat \<Rightarrow> zone_descriptor" where
  "init_descriptor zpp i =
     \<lparr>zd_type = 2, zd_state = ZONE_STATE_EMPTY, zd_zrwav = False,
      zd_capacity = zone_size zpp div 2 ^ 9, zd_zslba = i * (zone_size zpp div 2 ^ 9),
      zd_wp = i * (zone_size zpp div 2 ^ 9)\<rparr>"

definition init_resource :: "znsparams \<Rightarrow> zone_resource_type \<Rightarrow> zone_resource_info" where
  "init_resource zpp ty = \<lparr>acquired_cnt = 0, total_cnt = nr_zones zpp\<rparr>"

definition zns_init_ftl :: "znsparams \<Rightarrow> ssd \<Rightarrow> (nat \<Rightarrow> u8) \<Rightarrow> zns_ftl" where
  "zns_init_ftl zpp ssd mem =
     \<lparr>z_ssd = ssd, zp = zpp, res_infos = init_resource zpp, zone_descs = init_descriptor zpp,
      zone_write_buffer = (\<lambda>_. buffer_init (of_nat (zone_wb_size zpp))),
      zrwa_buffer = (\<lambda>_. buffer_init (of_nat (zrwa_buffer_size zpp))),
      storage = mem, z_sched = []\<rparr>"

section \<open>Zone management\<close>

definition zmgmt_send_close_zone :: "nat \<Rightarrow> zns_ftl \<Rightarrow> u32 \<times> zns_ftl" where
  "zmgmt_send_close_zone zid ftl =
     (case zd_state (zone_descs ftl zid) of
        ZONE_STATE_OPENED_IMPL \<Rightarrow>
          (NVME_SC_SUCCESS, release_zone_resource OPEN_ZONE (change_zone_state zid ZONE_STATE_CLOSED ftl))
      | ZONE_STATE_OPENED_EXPL \<Rightarrow>
          (NVME_SC_SUCCESS, release_zone_resource OPEN_ZONE (change_zone_state zid ZONE_STATE_CLOSED ftl))
      | ZONE_STATE_CLOSED \<Rightarrow> (NVME_SC_SUCCESS, ftl)
      | _ \<Rightarrow> (NVME_SC_ZNS_INVALID_TRANSITION, ftl))"

text \<open>The part finish and reset share: the label \<^verbatim>\<open>case ZONE_STATE_CLOSED\<close> with its fall-through.\<close>

definition release_active :: "nat \<Rightarrow> zns_ftl \<Rightarrow> zns_ftl" where
  "release_active zid ftl =
     (let is_zrwa_zone = zd_zrwav (zone_descs ftl zid);
          ftl = (if zd_state (zone_descs ftl zid) \<in> {ZONE_STATE_OPENED_IMPL, ZONE_STATE_OPENED_EXPL}
                 then release_zone_resource OPEN_ZONE ftl else ftl);
          ftl = release_zone_resource ACTIVE_ZONE ftl
      in if is_zrwa_zone then release_zone_resource ZRWA_ZONE ftl else ftl)"

definition zmgmt_send_finish_zone :: "nat \<Rightarrow> zns_ftl \<Rightarrow> u32 \<times> zns_ftl" where
  "zmgmt_send_finish_zone zid ftl =
     (let cur_state = zd_state (zone_descs ftl zid) in
      if cur_state \<in> {ZONE_STATE_OPENED_IMPL, ZONE_STATE_OPENED_EXPL, ZONE_STATE_CLOSED}
      then (NVME_SC_SUCCESS, change_zone_state zid ZONE_STATE_FULL (release_active zid ftl))
      else if cur_state = ZONE_STATE_EMPTY
      then (NVME_SC_SUCCESS, change_zone_state zid ZONE_STATE_FULL ftl)
      else if cur_state = ZONE_STATE_FULL then (NVME_SC_SUCCESS, ftl)
      else (NVME_SC_ZNS_INVALID_TRANSITION, ftl))"

definition zmgmt_send_open_zone :: "nat \<Rightarrow> bool \<Rightarrow> zns_ftl \<Rightarrow> u32 \<times> zns_ftl" where
  "zmgmt_send_open_zone zid zrwa ftl =
     (let open_closed = (\<lambda>ftl. case acquire_zone_resource OPEN_ZONE ftl of
              (False, ftl) \<Rightarrow> (NVME_SC_ZNS_NO_OPEN_ZONE, ftl)
            | (True, ftl) \<Rightarrow> (NVME_SC_SUCCESS, change_zone_state zid ZONE_STATE_OPENED_EXPL ftl)) in
      case zd_state (zone_descs ftl zid) of
        ZONE_STATE_EMPTY \<Rightarrow>
          if is_zone_resource_full ftl ACTIVE_ZONE then (NVME_SC_ZNS_NO_ACTIVE_ZONE, ftl)
          else if is_zone_resource_full ftl OPEN_ZONE then (NVME_SC_ZNS_NO_OPEN_ZONE, ftl)
          else if zrwa \<and> is_zone_resource_full ftl ZRWA_ZONE then (NVME_SC_ZNS_ZRWA_RSRC_UNAVAIL, ftl)
          else
            (let ftl = (if zrwa then upd_zone zid (\<lambda>d. d\<lparr>zd_zrwav := True\<rparr>)
                                       (snd (acquire_zone_resource ZRWA_ZONE ftl)) else ftl);
                 ftl = snd (acquire_zone_resource ACTIVE_ZONE ftl)
             in open_closed ftl)
      | ZONE_STATE_CLOSED \<Rightarrow> open_closed ftl
      | ZONE_STATE_OPENED_IMPL \<Rightarrow> (NVME_SC_SUCCESS, change_zone_state zid ZONE_STATE_OPENED_EXPL ftl)
      | ZONE_STATE_OPENED_EXPL \<Rightarrow> (NVME_SC_SUCCESS, ftl)
      | _ \<Rightarrow> (NVME_SC_ZNS_INVALID_TRANSITION, ftl))"

definition reset_zone :: "nat \<Rightarrow> zns_ftl \<Rightarrow> zns_ftl" where
  "reset_zone zid ftl =
     (let zs = zone_size (zp ftl);
          ftl = ftl\<lparr>storage := (\<lambda>a. if zid * zs \<le> a \<and> a < zid * zs + zs then 0 else storage ftl a)\<rparr>;
          ftl = upd_zone zid (\<lambda>d. d\<lparr>zd_wp := zd_zslba d, zd_zrwav := False\<rparr>) ftl
      in if zrwa_buffer_size (zp ftl) \<noteq> 0
         then ftl\<lparr>zrwa_buffer := (zrwa_buffer ftl)(zid := buffer_refill (zrwa_buffer ftl zid))\<rparr>
         else ftl)"

definition zmgmt_send_reset_zone :: "nat \<Rightarrow> zns_ftl \<Rightarrow> u32 \<times> zns_ftl" where
  "zmgmt_send_reset_zone zid ftl =
     (let cur_state = zd_state (zone_descs ftl zid) in
      if cur_state \<in> {ZONE_STATE_OPENED_IMPL, ZONE_STATE_OPENED_EXPL, ZONE_STATE_CLOSED}
      then (NVME_SC_SUCCESS, reset_zone zid (change_zone_state zid ZONE_STATE_EMPTY (release_active zid ftl)))
      else if cur_state \<in> {ZONE_STATE_FULL, ZONE_STATE_EMPTY}
      then (NVME_SC_SUCCESS, reset_zone zid (change_zone_state zid ZONE_STATE_EMPTY ftl))
      else (NVME_SC_ZNS_INVALID_TRANSITION, ftl))"

definition zmgmt_send_offline_zone :: "nat \<Rightarrow> zns_ftl \<Rightarrow> u32 \<times> zns_ftl" where
  "zmgmt_send_offline_zone zid ftl =
     (case zd_state (zone_descs ftl zid) of
        ZONE_STATE_READ_ONLY \<Rightarrow> (NVME_SC_SUCCESS, change_zone_state zid ZONE_STATE_OFFLINE ftl)
      | ZONE_STATE_OFFLINE \<Rightarrow> (NVME_SC_SUCCESS, ftl)
      | _ \<Rightarrow> (NVME_SC_ZNS_INVALID_TRANSITION, ftl))"

text \<open>The remainder by \<^verbatim>\<open>lbas_per_zrwafg\<close> traps when that is zero (\<open>None\<close>).\<close>

definition zmgmt_send_flush_explicit_zrwa :: "nat \<Rightarrow> zns_ftl \<Rightarrow> (u32 \<times> zns_ftl) option" where
  "zmgmt_send_flush_explicit_zrwa slba ftl =
     (let zid = lba_to_zone ftl slba;
          d = zone_descs ftl zid;
          wp = zd_wp d;
          zrwa_end = min (dec64 (wp + lbas_per_zrwa (zp ftl))) (dec64 (zone_to_slba ftl zid + zd_capacity d)) in
      if \<not> zd_zrwav d then Some (NVME_SC_ZNS_INVALID_ZONE_OPERATION, ftl)
      else if \<not> (slba \<ge> wp \<and> slba \<le> zrwa_end) then Some (NVME_SC_ZNS_INVALID_ZONE_OPERATION, ftl)
      else if lbas_per_zrwafg (zp ftl) = 0 then None
      else if (slba - wp + 1) mod lbas_per_zrwafg (zp ftl) \<noteq> 0 then Some (NVME_SC_INVALID_FIELD, ftl)
      else if zd_state d \<in> {ZONE_STATE_OPENED_EXPL, ZONE_STATE_OPENED_IMPL, ZONE_STATE_CLOSED}
      then
        (let ftl = upd_zone zid (\<lambda>d. d\<lparr>zd_wp := slba + 1\<rparr>) ftl in
         if slba + 1 = zone_to_slba ftl zid + zd_capacity d then
           (let ftl = (if zd_state d \<noteq> ZONE_STATE_CLOSED then release_zone_resource OPEN_ZONE ftl else ftl);
                ftl = release_zone_resource ACTIVE_ZONE ftl;
                ftl = release_zone_resource ZRWA_ZONE ftl
            in Some (NVME_SC_SUCCESS, change_zone_state zid ZONE_STATE_FULL ftl))
         else Some (NVME_SC_SUCCESS, ftl))
      else Some (NVME_SC_ZNS_INVALID_ZONE_OPERATION, ftl))"

text \<open>
  \<^verbatim>\<open>__zmgmt_send\<close>: an unknown action leaves \<^verbatim>\<open>status\<close> unset (\<open>None\<close> in the first component).
\<close>

definition zmgmt_send1 :: "nat \<Rightarrow> nat \<Rightarrow> bool \<Rightarrow> zns_ftl \<Rightarrow> (u32 option \<times> zns_ftl) option" where
  "zmgmt_send1 slba action option ftl =
     (let zid = lba_to_zone ftl slba in
      if action = 0x1 then Some (map_prod Some id (zmgmt_send_close_zone zid ftl))
      else if action = 0x2 then Some (map_prod Some id (zmgmt_send_finish_zone zid ftl))
      else if action = 0x3 then Some (map_prod Some id (zmgmt_send_open_zone zid option ftl))
      else if action = 0x4 then Some (map_prod Some id (zmgmt_send_reset_zone zid ftl))
      else if action = 0x5 then Some (map_prod Some id (zmgmt_send_offline_zone zid ftl))
      else if action = 0x11 then map_option (map_prod Some id) (zmgmt_send_flush_explicit_zrwa slba ftl)
      else Some (None, ftl))"

text \<open>The loop over all zones.\<close>

fun zmgmt_send_all :: "nat \<Rightarrow> bool \<Rightarrow> nat list \<Rightarrow> zns_ftl \<Rightarrow> zns_ftl option" where
  "zmgmt_send_all action option [] ftl = Some ftl"
| "zmgmt_send_all action option (zid # zids) ftl =
     do {
       (_, ftl) \<leftarrow> zmgmt_send1 (zone_to_slba ftl zid) action option ftl;
       zmgmt_send_all action option zids ftl
     }"

text \<open>The views \<^verbatim>\<open>struct nvme_zone_mgmt_send\<close> and \<^verbatim>\<open>struct nvme_zone_mgmt_recv\<close>.\<close>

definition zsa :: "nvme_command \<Rightarrow> nat" where
  "zsa c = unat (take_bit 8 (c_cdw13 c))"

definition select_all :: "nvme_command \<Rightarrow> bool" where
  "select_all c = bit (c_cdw13 c) 8"

definition zsaso :: "nvme_command \<Rightarrow> bool" where
  "zsaso c = bit (c_cdw13 c) 9"

record zns_result =
  zr_status :: "u32 option"
  zr_nsecs_target :: nat

definition zns_zmgmt_send :: "nvme_command \<Rightarrow> nat \<Rightarrow> zns_ftl \<Rightarrow> (zns_result \<times> zns_ftl) option" where
  "zns_zmgmt_send cmd nsecs_start ftl =
     (if select_all cmd then
        do {
          ftl \<leftarrow> zmgmt_send_all (zsa cmd) (zsaso cmd) [0..<nr_zones (zp ftl)] ftl;
          Some (\<lparr>zr_status = Some NVME_SC_SUCCESS, zr_nsecs_target = nsecs_start\<rparr>, ftl)
        }
      else if nr_zones (zp ftl) \<le> lba_to_zone ftl (unat (rw_slba cmd)) then None
      else
        do {
          (st, ftl) \<leftarrow> zmgmt_send1 (unat (rw_slba cmd)) (zsa cmd) (zsaso cmd) ftl;
          Some (\<lparr>zr_status = st, zr_nsecs_target = nsecs_start\<rparr>, ftl)
        })"

section \<open>Zone report\<close>

definition zra :: "nvme_command \<Rightarrow> nat" where
  "zra c = unat (take_bit 8 (c_cdw13 c))"

definition zra_specific_field :: "nvme_command \<Rightarrow> nat" where
  "zra_specific_field c = unat (take_bit 8 (drop_bit 8 (c_cdw13 c)))"

definition zra_specific_features :: "nvme_command \<Rightarrow> bool" where
  "zra_specific_features c = bit (c_cdw13 c) 16"

text \<open>\<^verbatim>\<open>(cmd->nr_dw + 1) * sizeof(uint32_t)\<close>: the sum is 32 bits wide.\<close>

definition recv_bytes :: "nvme_command \<Rightarrow> nat" where
  "recv_bytes c = unat (c_cdw12 c + 1) * 4"

text \<open>\<^verbatim>\<open>sizeof(struct zone_descriptor)\<close> is 64; the count is a \<^verbatim>\<open>uint64_t\<close>.\<close>

definition fill_zone_report :: "nvme_command \<Rightarrow> zns_ftl \<Rightarrow> zone_descriptor list" where
  "fill_zone_report cmd ftl =
     (let start_zid = lba_to_zone ftl (unat (rw_slba cmd));
          n = (if \<not> zra_specific_features cmd then nr_zones (zp ftl) - start_zid
               else dec64 (recv_bytes cmd div 64));
          n = (if n > nr_zones (zp ftl) - start_zid then nr_zones (zp ftl) - start_zid else n)
      in map (\<lambda>i. zone_descs ftl (start_zid + i)) [0..<n])"

definition check_zmgmt_rcv_option_supported :: "nvme_command \<Rightarrow> zns_ftl \<Rightarrow> bool" where
  "check_zmgmt_rcv_option_supported cmd ftl =
     (if lba_to_zone ftl (unat (rw_slba cmd)) \<ge> nr_zones (zp ftl) then False
      else if zra cmd \<noteq> 0 then False
      else if zra_specific_field cmd \<noteq> 0 then False
      else True)"

text \<open>The report itself is the second component; its transfer to the host's pages is left out.\<close>

definition zns_zmgmt_recv ::
  "nvme_command \<Rightarrow> nat \<Rightarrow> zns_ftl \<Rightarrow> zns_result \<times> zone_descriptor list option" where
  "zns_zmgmt_recv cmd nsecs_start ftl =
     (if check_zmgmt_rcv_option_supported cmd ftl
      then (\<lparr>zr_status = Some NVME_SC_SUCCESS, zr_nsecs_target = nsecs_start\<rparr>,
            Some (fill_zone_report cmd ftl))
      else (\<lparr>zr_status = Some NVME_SC_INVALID_FIELD, zr_nsecs_target = nsecs_start\<rparr>, None))"

section \<open>Reads and writes\<close>

definition nr_lbas_from_rw_cmd :: "nvme_command \<Rightarrow> nat" where
  "nr_lbas_from_rw_cmd cmd = unat (rw_length cmd) + 1"

definition check_boundary_error :: "zns_ftl \<Rightarrow> nat \<Rightarrow> nat \<Rightarrow> bool" where
  "check_boundary_error ftl slba nr_lba \<longleftrightarrow> lba_to_zone ftl slba = lba_to_zone ftl (slba + nr_lba - 1)"

definition increase_write_ptr :: "nat \<Rightarrow> nat \<Rightarrow> zns_ftl \<Rightarrow> zns_ftl" where
  "increase_write_ptr zid nr_lba ftl =
     (let cur = zd_wp (zone_descs ftl zid) + nr_lba;
          ftl = upd_zone zid (\<lambda>d. d\<lparr>zd_wp := cur\<rparr>) ftl in
      if cur = zone_to_slba ftl zid + zd_capacity (zone_descs ftl zid)
      then change_zone_state zid ZONE_STATE_FULL
             (release_zone_resource ACTIVE_ZONE (release_zone_resource OPEN_ZONE ftl))
      else ftl)"

definition zns_lpn_to_ppa :: "zns_ftl \<Rightarrow> nat \<Rightarrow> ppa" where
  "zns_lpn_to_ppa ftl lpn =
     (let spp = sp (z_ssd ftl);
          zone = lpn_to_zone ftl lpn;
          off = lpn - zone_to_slpn ftl zone;
          sdie = (zone * dies_per_zone (zp ftl)) mod tt_luns spp;
          die = sdie + (off div pgs_per_oneshotpg spp) mod dies_per_zone (zp ftl)
      in \<lparr>p_pg = (off mod pgs_per_oneshotpg spp) mod 2 ^ 16, p_blk = 0, p_pl = 0,
          p_lun = die_to_lun ftl die mod 2 ^ 8, p_ch = die_to_channel ftl die mod 2 ^ 8, p_rsv = 0\<rparr>)"

definition get_buf :: "zbuf \<Rightarrow> zns_ftl \<Rightarrow> buffer" where
  "get_buf b ftl = (case b of Global_wb \<Rightarrow> s_wbuf (z_ssd ftl) | Zone_wb z \<Rightarrow> zone_write_buffer ftl z
     | Zrwa_wb z \<Rightarrow> zrwa_buffer ftl z)"

definition set_buf :: "zbuf \<Rightarrow> buffer \<Rightarrow> zns_ftl \<Rightarrow> zns_ftl" where
  "set_buf b v ftl = (case b of
       Global_wb \<Rightarrow> ftl\<lparr>z_ssd := (z_ssd ftl)\<lparr>s_wbuf := v\<rparr>\<rparr>
     | Zone_wb z \<Rightarrow> ftl\<lparr>zone_write_buffer := (zone_write_buffer ftl)(z := v)\<rparr>
     | Zrwa_wb z \<Rightarrow> ftl\<lparr>zrwa_buffer := (zrwa_buffer ftl)(z := v)\<rparr>)"

definition zns_buffer_allocate :: "zbuf \<Rightarrow> nat \<Rightarrow> zns_ftl \<Rightarrow> (nat \<times> zns_ftl) option" where
  "zns_buffer_allocate b n ftl =
     do {
       (got, v) \<leftarrow> buffer_allocate (get_buf b ftl) (of_nat n);
       Some (unat got, set_buf b v ftl)
     }"

definition on_ssd :: "(ssd \<Rightarrow> (nat \<times> ssd) option) \<Rightarrow> zns_ftl \<Rightarrow> (nat \<times> zns_ftl) option" where
  "on_ssd f ftl = do { (t, ssd) \<leftarrow> f (z_ssd ftl); Some (t, ftl\<lparr>z_ssd := ssd\<rparr>) }"

text \<open>The loop of \<^verbatim>\<open>__zns_write\<close> over the pages, one flash page at a time.\<close>

partial_function (option) zns_write_loop ::
  "nat \<Rightarrow> zbuf \<Rightarrow> nat \<Rightarrow> nat \<Rightarrow> nat \<Rightarrow> nat \<Rightarrow> nat \<Rightarrow> zns_ftl \<Rightarrow> (nat \<times> zns_ftl) option" where
  "zns_write_loop sqid wb xfer_completed zone_elpn elpn lpn latest ftl =
     (if \<not> lpn \<le> elpn then Some (latest, ftl)
      else
        let spp = sp (z_ssd ftl);
            ppo = pgs_per_oneshotpg spp;
            ppa = zns_lpn_to_ppa ftl lpn;
            pg_off = p_pg ppa mod ppo;
            pgs = min (elpn - lpn + 1) (ppo - pg_off) in
        if pg_off + pgs = ppo \<or> lpn + pgs - 1 = zone_elpn then
          do {
            (completed, ftl) \<leftarrow> on_ssd (ssd_advance_nand \<lparr>nc_cmd = NAND_WRITE, nc_xfer_size = ppo * pgsz spp,
                nc_stime = xfer_completed, nc_interleave_pci_dma = False, nc_ppa = ppa\<rparr>) ftl;
            let unaligned = zone_size (zp ftl) mod (ppo * pgsz spp);
            let bufs = (if lpn + pgs - 1 = zone_elpn \<and> unaligned > 0 then unaligned else ppo * pgsz spp);
            zns_write_loop sqid wb xfer_completed zone_elpn elpn (lpn + pgs) (max completed latest)
              (ftl\<lparr>z_sched := z_sched ftl @
                 [\<lparr>so_sqid = sqid, so_target = completed, so_buf = wb, so_release = bufs\<rparr>]\<rparr>)
          }
        else zns_write_loop sqid wb xfer_completed zone_elpn elpn (lpn + pgs) latest ftl)"

record zns_request =
  q_cmd :: nvme_command
  q_sqid :: nat
  q_nsecs_start :: nat

record zns_io_result =
  o_ok :: bool
  o_status :: u32
  o_nsecs_target :: nat
  o_slba :: nat

text \<open>The label \<^verbatim>\<open>out:\<close>; \<^verbatim>\<open>NVME_RW_FUA\<close> is bit 14 of the control word.\<close>

definition write_out :: "zns_ftl \<Rightarrow> nvme_command \<Rightarrow> u32 \<Rightarrow> nat \<Rightarrow> nat \<Rightarrow> nat \<Rightarrow> zns_io_result" where
  "write_out ftl cmd st slba latest xfer_completed =
     \<lparr>o_ok = True, o_status = st,
      o_nsecs_target = (if bit (rw_control cmd) 14 \<or> \<not> write_early_completion (sp (z_ssd ftl))
                        then latest else xfer_completed), o_slba = slba\<rparr>"

text \<open>The \<^verbatim>\<open>switch\<close> of \<^verbatim>\<open>__zns_write\<close>: \<open>Inl\<close> a status to leave with, \<open>Inr\<close> to go on.\<close>

definition write_open :: "nat \<Rightarrow> nat \<Rightarrow> zns_ftl \<Rightarrow> u32 \<times> zns_ftl + zns_ftl" where
  "write_open zid slba ftl =
     (let open_closed = (\<lambda>ftl. case acquire_zone_resource OPEN_ZONE ftl of
              (False, ftl) \<Rightarrow> Inl (NVME_SC_ZNS_NO_OPEN_ZONE, ftl)
            | (True, ftl) \<Rightarrow> Inr (change_zone_state zid ZONE_STATE_OPENED_IMPL ftl)) in
      case zd_state (zone_descs ftl zid) of
        ZONE_STATE_EMPTY \<Rightarrow>
          if slba \<noteq> zd_zslba (zone_descs ftl zid) then Inl (NVME_SC_ZNS_INVALID_WRITE, ftl)
          else if is_zone_resource_full ftl ACTIVE_ZONE then Inl (NVME_SC_ZNS_NO_ACTIVE_ZONE, ftl)
          else if is_zone_resource_full ftl OPEN_ZONE then Inl (NVME_SC_ZNS_NO_OPEN_ZONE, ftl)
          else open_closed (snd (acquire_zone_resource ACTIVE_ZONE ftl))
      | ZONE_STATE_CLOSED \<Rightarrow> open_closed ftl
      | ZONE_STATE_OPENED_IMPL \<Rightarrow> Inr ftl
      | ZONE_STATE_OPENED_EXPL \<Rightarrow> Inr ftl
      | ZONE_STATE_FULL \<Rightarrow> Inl (NVME_SC_ZNS_ERR_FULL, ftl)
      | ZONE_STATE_READ_ONLY \<Rightarrow> Inl (NVME_SC_ZNS_ERR_READ_ONLY, ftl)
      | ZONE_STATE_OFFLINE \<Rightarrow> Inl (NVME_SC_ZNS_ERR_OFFLINE, ftl))"

definition zns_write_seq :: "zns_request \<Rightarrow> zns_ftl \<Rightarrow> (zns_io_result \<times> zns_ftl) option" where
  "zns_write_seq req ftl =
     (let cmd = q_cmd req;
          nr_lba = nr_lbas_from_rw_cmd cmd;
          zid = lba_to_zone ftl (unat (rw_slba cmd));
          slba = (if c_opcode cmd = nvme_cmd_zone_append then zd_wp (zone_descs ftl zid)
                  else unat (rw_slba cmd));
          start = q_nsecs_start req;
          wb = (if zone_wb_size (zp ftl) \<noteq> 0 then Zone_wb zid else Global_wb);
          bytes = nr_lba * 2 ^ 9 in
      do {
        (got, ftl) \<leftarrow> zns_buffer_allocate wb bytes ftl;
        if got < bytes
        then Some (\<lparr>o_ok = False, o_status = 0, o_nsecs_target = 0, o_slba = slba\<rparr>, ftl)
        else if bytes mod write_unit_size (sp (z_ssd ftl)) \<noteq> 0
        then Some (write_out ftl cmd NVME_SC_ZNS_INVALID_WRITE slba start start, ftl)
        else if \<not> check_boundary_error ftl slba nr_lba
        then Some (write_out ftl cmd NVME_SC_ZNS_ERR_BOUNDARY slba start start, ftl)
        else if slba \<noteq> zd_wp (zone_descs ftl zid)
        then Some (write_out ftl cmd NVME_SC_ZNS_INVALID_WRITE slba start start, ftl)
        else
          case write_open zid slba ftl of
            Inl (st, ftl) \<Rightarrow> Some (write_out ftl cmd st slba start start, ftl)
          | Inr ftl \<Rightarrow>
              let ftl = increase_write_ptr zid nr_lba ftl in
              do {
                (xfer_completed, ftl) \<leftarrow> on_ssd (ssd_advance_write_buffer start bytes) ftl;
                (latest, ftl) \<leftarrow> zns_write_loop (q_sqid req) wb xfer_completed (zone_to_elpn ftl zid)
                    (lba_to_lpn ftl (slba + nr_lba - 1)) (lba_to_lpn ftl slba) xfer_completed ftl;
                Some (write_out ftl cmd NVME_SC_SUCCESS slba latest xfer_completed, ftl)
              }
      })"

text \<open>The loop of \<^verbatim>\<open>__zns_write_zrwa\<close> over the pages to flush.\<close>

partial_function (option) zrwa_flush_loop ::
  "nat \<Rightarrow> nat \<Rightarrow> nat \<Rightarrow> nat \<Rightarrow> nat \<Rightarrow> nat \<Rightarrow> zns_ftl \<Rightarrow> (nat \<times> zns_ftl) option" where
  "zrwa_flush_loop sqid zid xfer_completed remaining lpn latest ftl =
     (if remaining = 0 then Some (latest, ftl)
      else
        let spp = sp (z_ssd ftl);
            ppo = pgs_per_oneshotpg spp;
            ppa = zns_lpn_to_ppa ftl lpn;
            pg_off = p_pg ppa mod ppo;
            pgs = min remaining (ppo - pg_off) in
        if pg_off + pgs = ppo then
          do {
            (completed, ftl) \<leftarrow> on_ssd (ssd_advance_nand \<lparr>nc_cmd = NAND_WRITE, nc_xfer_size = ppo * pgsz spp,
                nc_stime = xfer_completed, nc_interleave_pci_dma = False, nc_ppa = ppa\<rparr>) ftl;
            zrwa_flush_loop sqid zid xfer_completed (remaining - pgs) (lpn + pgs) (max completed latest)
              (ftl\<lparr>z_sched := z_sched ftl @
                 [\<lparr>so_sqid = sqid, so_target = completed, so_buf = Zrwa_wb zid, so_release = ppo * pgsz spp\<rparr>]\<rparr>)
          }
        else zrwa_flush_loop sqid zid xfer_completed (remaining - pgs) (lpn + pgs) latest ftl)"

text \<open>The \<^verbatim>\<open>switch\<close> of \<^verbatim>\<open>__zns_write_zrwa\<close>; \<open>None\<close> is \<^verbatim>\<open>NVMEV_ASSERT(0)\<close> or the one in \<^verbatim>\<open>buffer_allocate\<close>.\<close>

definition zrwa_open :: "nat \<Rightarrow> zns_ftl \<Rightarrow> (u32 \<times> zns_ftl + zns_ftl) option" where
  "zrwa_open zid ftl =
     (let open_closed =
            (case acquire_zone_resource OPEN_ZONE ftl of
               (False, ftl) \<Rightarrow> Some (Inl (NVME_SC_ZNS_NO_OPEN_ZONE, ftl))
             | (True, ftl) \<Rightarrow>
                 do {
                   (got, ftl) \<leftarrow> zns_buffer_allocate (Zrwa_wb zid) (zrwa_size (zp ftl)) ftl;
                   if got = 0 then None
                   else Some (Inr (change_zone_state zid ZONE_STATE_OPENED_IMPL ftl))
                 }) in
      case zd_state (zone_descs ftl zid) of
        ZONE_STATE_CLOSED \<Rightarrow> open_closed
      | ZONE_STATE_EMPTY \<Rightarrow> open_closed
      | ZONE_STATE_OPENED_IMPL \<Rightarrow> Some (Inr ftl)
      | ZONE_STATE_OPENED_EXPL \<Rightarrow> Some (Inr ftl)
      | ZONE_STATE_FULL \<Rightarrow> Some (Inl (NVME_SC_ZNS_ERR_FULL, ftl))
      | ZONE_STATE_READ_ONLY \<Rightarrow> Some (Inl (NVME_SC_ZNS_ERR_READ_ONLY, ftl))
      | ZONE_STATE_OFFLINE \<Rightarrow> Some (Inl (NVME_SC_ZNS_ERR_OFFLINE, ftl)))"

definition zns_write_zrwa :: "zns_request \<Rightarrow> zns_ftl \<Rightarrow> (zns_io_result \<times> zns_ftl) option" where
  "zns_write_zrwa req ftl =
     (let cmd = q_cmd req;
          slba = unat (rw_slba cmd);
          nr_lba = nr_lbas_from_rw_cmd cmd;
          elba = slba + nr_lba - 1;
          zid = lba_to_zone ftl slba;
          prev_wp = zd_wp (zone_descs ftl zid);
          lpz = lbas_per_zrwa (zp ftl);
          fg = lbas_per_zrwafg (zp ftl);
          impl_start = prev_wp + lpz;
          impl_end = dec64 (prev_wp + 2 * lpz);
          start = q_nsecs_start req;
          bytes = nr_lba * 2 ^ 9 in
      if bytes mod write_unit_size (sp (z_ssd ftl)) \<noteq> 0
      then Some (write_out ftl cmd NVME_SC_ZNS_INVALID_WRITE slba start start, ftl)
      else if \<not> check_boundary_error ftl slba nr_lba
      then Some (write_out ftl cmd NVME_SC_ZNS_ERR_BOUNDARY slba start start, ftl)
      else if slba < prev_wp \<or> elba > impl_end
      then Some (write_out ftl cmd NVME_SC_ZNS_INVALID_WRITE slba start start, ftl)
      else
        do {
          sw \<leftarrow> zrwa_open zid ftl;
          case sw of
            Inl (st, ftl) \<Rightarrow> Some (write_out ftl cmd st slba start start, ftl)
          | Inr ftl \<Rightarrow>
              if elba \<ge> impl_start \<and> fg = 0 then None
              else
                let flush = (if elba \<ge> impl_start then DIV_ROUND_UP (elba - impl_start + 1) fg * fg
                             else if elba = zone_to_elba ftl zid then elba - prev_wp + 1 else 0) in
                do {
                  (ok, ftl) \<leftarrow>
                    (if flush > 0 then
                       do {
                         (got, ftl) \<leftarrow> zns_buffer_allocate (Zrwa_wb zid) (flush * 2 ^ 9) ftl;
                         Some (if got = 0 then (False, ftl) else (True, increase_write_ptr zid flush ftl))
                       }
                     else Some (True, ftl));
                  if \<not> ok then Some (\<lparr>o_ok = False, o_status = 0, o_nsecs_target = 0, o_slba = slba\<rparr>, ftl)
                  else do {
                    (xfer_completed, ftl) \<leftarrow> on_ssd (ssd_advance_write_buffer start bytes) ftl;
                    (latest, ftl) \<leftarrow> zrwa_flush_loop (q_sqid req) zid xfer_completed
                        (flush div secs_per_pg (sp (z_ssd ftl))) (lba_to_lpn ftl prev_wp) xfer_completed ftl;
                    Some (write_out ftl cmd NVME_SC_SUCCESS slba latest xfer_completed, ftl)
                  }
                }
        })"

definition zns_write :: "zns_request \<Rightarrow> zns_ftl \<Rightarrow> (zns_io_result \<times> zns_ftl) option" where
  "zns_write req ftl =
     (let zid = lpn_to_zone ftl (lba_to_lpn ftl (unat (rw_slba (q_cmd req)))) in
      if nr_zones (zp ftl) \<le> zid then None
      else if \<not> zd_zrwav (zone_descs ftl zid) then zns_write_seq req ftl else zns_write_zrwa req ftl)"

partial_function (option) zns_read_loop ::
  "nat \<Rightarrow> nat \<Rightarrow> nat \<Rightarrow> nat \<Rightarrow> zns_ftl \<Rightarrow> (nat \<times> zns_ftl) option" where
  "zns_read_loop stime elpn lpn latest ftl =
     (if \<not> lpn \<le> elpn then Some (latest, ftl)
      else
        let spp = sp (z_ssd ftl);
            ppa = zns_lpn_to_ppa ftl lpn;
            pg_off = p_pg ppa mod pgs_per_flashpg spp;
            pgs = min (elpn - lpn + 1) (pgs_per_flashpg spp - pg_off) in
        do {
          (completed, ftl) \<leftarrow> on_ssd (ssd_advance_nand \<lparr>nc_cmd = NAND_READ, nc_xfer_size = pgs * pgsz spp,
              nc_stime = stime, nc_interleave_pci_dma = False, nc_ppa = ppa\<rparr>) ftl;
          zns_read_loop stime elpn (lpn + pgs) (if completed > latest then completed else latest) ftl
        })"

definition zns_read :: "zns_request \<Rightarrow> zns_ftl \<Rightarrow> (zns_io_result \<times> zns_ftl) option" where
  "zns_read req ftl =
     (let cmd = q_cmd req;
          spp = sp (z_ssd ftl);
          slba = unat (rw_slba cmd);
          nr_lba = nr_lbas_from_rw_cmd cmd;
          slpn = lba_to_lpn ftl slba;
          elpn = lba_to_lpn ftl (slba + nr_lba - 1);
          zid = lpn_to_zone ftl slpn in
      if nr_zones (zp ftl) \<le> zid then None
      else
        let status = (if zd_state (zone_descs ftl zid) = ZONE_STATE_OFFLINE then NVME_SC_ZNS_ERR_OFFLINE
                      else if \<not> check_boundary_error ftl slba nr_lba then NVME_SC_ZNS_ERR_BOUNDARY
                      else NVME_SC_SUCCESS);
            stime = q_nsecs_start req + (if nr_lba * 2 ^ 9 \<le> 4096 then fw_4kb_rd_lat spp else fw_rd_lat spp) in
        do {
          (latest, ftl) \<leftarrow> zns_read_loop stime elpn slpn stime ftl;
          (completed, ftl) \<leftarrow> on_ssd (ssd_advance_pcie latest (nr_lba * secsz spp)) ftl;
          Some (\<lparr>o_ok = True, o_status = status,
                 o_nsecs_target = (if completed > latest then completed else latest), o_slba = slba\<rparr>, ftl)
        })"

text \<open>\<^verbatim>\<open>zns_flush\<close> reads the clock and waits for every die; there is one partition.\<close>

definition zns_flush :: "zns_ftl \<Rightarrow> zns_result \<times> zns_ftl" where
  "zns_flush ftl =
     (let (start, ssd) = read_clock (z_ssd ftl);
          (idle, ssd) = ssd_next_idle_time ssd
      in (\<lparr>zr_status = Some NVME_SC_SUCCESS, zr_nsecs_target = max start idle\<rparr>, ftl\<lparr>z_ssd := ssd\<rparr>))"

section \<open>Dispatch\<close>

definition nvme_cmd_zone_mgmt_send :: u8 where "nvme_cmd_zone_mgmt_send = 0x79"
definition nvme_cmd_zone_mgmt_recv :: u8 where "nvme_cmd_zone_mgmt_recv = 0x7a"

text \<open>\<^verbatim>\<open>ret\<close> comes in with the success status and the start time; an unknown command leaves it so.\<close>

record zns_outcome =
  oc_ok :: bool
  oc_result :: zns_result

definition io_outcome :: "zns_io_result \<Rightarrow> zns_outcome" where
  "io_outcome r = \<lparr>oc_ok = o_ok r, oc_result = \<lparr>zr_status = Some (o_status r), zr_nsecs_target = o_nsecs_target r\<rparr>\<rparr>"

definition zns_proc_nvme_io_cmd :: "zns_request \<Rightarrow> zns_ftl \<Rightarrow> (zns_outcome \<times> zns_ftl) option" where
  "zns_proc_nvme_io_cmd req ftl =
     (let op = c_opcode (q_cmd req) in
      if op = nvme_cmd_write \<or> op = nvme_cmd_zone_append then
        do { (r, ftl) \<leftarrow> zns_write req ftl; Some (io_outcome r, ftl) }
      else if op = nvme_cmd_read then
        do { (r, ftl) \<leftarrow> zns_read req ftl; Some (io_outcome r, ftl) }
      else if op = nvme_cmd_flush then
        (let (r, ftl) = zns_flush ftl in Some (\<lparr>oc_ok = True, oc_result = r\<rparr>, ftl))
      else if op = nvme_cmd_zone_mgmt_send then
        do { (r, ftl) \<leftarrow> zns_zmgmt_send (q_cmd req) (q_nsecs_start req) ftl;
             Some (\<lparr>oc_ok = True, oc_result = r\<rparr>, ftl) }
      else if op = nvme_cmd_zone_mgmt_recv then
        (let (r, _) = zns_zmgmt_recv (q_cmd req) (q_nsecs_start req) ftl
         in Some (\<lparr>oc_ok = True, oc_result = r\<rparr>, ftl))
      else Some (\<lparr>oc_ok = True, oc_result = \<lparr>zr_status = Some NVME_SC_SUCCESS,
                   zr_nsecs_target = q_nsecs_start req\<rparr>\<rparr>, ftl))"

end
