(* ===== verification/ZNS_Zones.thy ===== *)
theory ZNS_Zones
  imports ZNS_FTL
begin

text \<open>
  Zones and their resources: the invariant that ties the active, open and random-write-area counters
  to the zone states and the write pointers to their zones, and its preservation by zone
  management and by writes.
\<close>

section \<open>The zone invariant\<close>

definition is_open :: "zone_descriptor \<Rightarrow> bool" where
  "is_open d \<longleftrightarrow> zd_state d \<in> {ZONE_STATE_OPENED_IMPL, ZONE_STATE_OPENED_EXPL}"

definition is_active :: "zone_descriptor \<Rightarrow> bool" where
  "is_active d \<longleftrightarrow> is_open d \<or> zd_state d = ZONE_STATE_CLOSED"

text \<open>The zones a resource of each type belongs to.\<close>

definition holds_res :: "zone_resource_type \<Rightarrow> zone_descriptor \<Rightarrow> bool" where
  "holds_res ty d = (case ty of OPEN_ZONE \<Rightarrow> is_open d | ACTIVE_ZONE \<Rightarrow> is_active d
     | ZRWA_ZONE \<Rightarrow> is_active d \<and> zd_zrwav d)"

definition res_count :: "zone_resource_type \<Rightarrow> zns_ftl \<Rightarrow> nat" where
  "res_count ty ftl = card {z. z < nr_zones (zp ftl) \<and> holds_res ty (zone_descs ftl z)}"

text \<open>A zone by itself: the write pointer stays inside it, and an empty zone starts at its beginning.\<close>

definition zone_ok :: "zns_ftl \<Rightarrow> nat \<Rightarrow> zone_descriptor \<Rightarrow> bool" where
  "zone_ok ftl z d \<longleftrightarrow> zd_zslba d = zone_to_slba ftl z \<and> 0 < zd_capacity d \<and>
     zd_capacity d = zone_size (zp ftl) div secsz (sp (z_ssd ftl)) \<and>
     zd_zslba d \<le> zd_wp d \<and> zd_wp d \<le> zd_zslba d + zd_capacity d \<and>
     (zd_state d = ZONE_STATE_EMPTY \<longrightarrow> zd_wp d = zd_zslba d \<and> \<not> zd_zrwav d) \<and>
     (is_active d \<longrightarrow> zd_wp d < zd_zslba d + zd_capacity d)"

definition zns_inv :: "zns_ftl \<Rightarrow> bool" where
  "zns_inv ftl \<longleftrightarrow> nr_zones (zp ftl) < 2 ^ 32 \<and>
     nr_zones (zp ftl) * (zone_size (zp ftl) div secsz (sp (z_ssd ftl))) < 2 ^ 32 \<and>
     (\<forall>z < nr_zones (zp ftl). zone_ok ftl z (zone_descs ftl z)) \<and>
     (\<forall>ty. acquired_cnt (res_infos ftl ty) = res_count ty ftl \<and> total_cnt (res_infos ftl ty) = nr_zones (zp ftl))"

section \<open>Steps on one zone\<close>

lemma card_fun_upd:
  fixes z :: nat
  assumes "z < n"
  shows "card {y. y < n \<and> P ((f(z := d')) y)} + of_bool (P (f z)) = card {y. y < n \<and> P (f y)} + of_bool (P d')"
proof -
  let ?R = "{y. y < n \<and> y \<noteq> z \<and> P (f y)}"
  have fin: "finite ?R" by simp
  have "{y. y < n \<and> P ((f(z := d')) y)} = (if P d' then insert z ?R else ?R)"
    "{y. y < n \<and> P (f y)} = (if P (f z) then insert z ?R else ?R)"
    using assms by auto
  then show ?thesis using fin by simp
qed

text \<open>
  \<open>zone_step z d' ftl ftl'\<close>: the operation replaces the descriptor of zone \<open>z\<close> by \<open>d'\<close> and moves the
  counters by what the old and the new descriptor hold.
\<close>

definition zone_step :: "nat \<Rightarrow> zone_descriptor \<Rightarrow> zns_ftl \<Rightarrow> zns_ftl \<Rightarrow> bool" where
  "zone_step z d' ftl ftl' \<longleftrightarrow>
     zp ftl' = zp ftl \<and> sp (z_ssd ftl') = sp (z_ssd ftl) \<and> zone_descs ftl' = (zone_descs ftl)(z := d') \<and>
     (\<forall>ty. total_cnt (res_infos ftl' ty) = total_cnt (res_infos ftl ty) \<and>
        acquired_cnt (res_infos ftl' ty) + of_bool (holds_res ty (zone_descs ftl z)) =
          acquired_cnt (res_infos ftl ty) + of_bool (holds_res ty d'))"

lemma zone_ok_cong: "zp ftl' = zp ftl \<Longrightarrow> sp (z_ssd ftl') = sp (z_ssd ftl) \<Longrightarrow> zone_ok ftl' = zone_ok ftl"
  by (intro ext) (simp add: zone_ok_def zone_to_slba_def)

lemma zns_inv_step:
  assumes inv: "zns_inv ftl" and z: "z < nr_zones (zp ftl)" and st: "zone_step z d' ftl ftl'"
    and ok: "zone_ok ftl z d'"
  shows "zns_inv ftl'"
proof -
  have eq: "zp ftl' = zp ftl" "sp (z_ssd ftl') = sp (z_ssd ftl)" "zone_descs ftl' = (zone_descs ftl)(z := d')"
    using st by (simp_all add: zone_step_def)
  have "acquired_cnt (res_infos ftl' ty) = res_count ty ftl'" for ty
  proof -
    have "acquired_cnt (res_infos ftl' ty) + of_bool (holds_res ty (zone_descs ftl z)) =
        res_count ty ftl + of_bool (holds_res ty d')"
      using st inv by (simp add: zone_step_def zns_inv_def)
    moreover have "res_count ty ftl' + of_bool (holds_res ty (zone_descs ftl z)) =
        res_count ty ftl + of_bool (holds_res ty d')"
      unfolding res_count_def eq by (rule card_fun_upd [OF z])
    ultimately show ?thesis by linarith
  qed
  then show ?thesis
    using inv ok st eq zone_ok_cong [OF eq(1,2)] by (simp add: zns_inv_def zone_step_def)
qed

lemma zone_step_refl: "zone_step z (zone_descs ftl z) ftl ftl"
  by (simp add: zone_step_def)

lemma res_count_pos:
  assumes inv: "zns_inv ftl" and "z < nr_zones (zp ftl)" and "holds_res ty (zone_descs ftl z)"
  shows "0 < acquired_cnt (res_infos ftl ty)"
proof -
  have "z \<in> {z. z < nr_zones (zp ftl) \<and> holds_res ty (zone_descs ftl z)}" using assms by simp
  then have "0 < res_count ty ftl" unfolding res_count_def by (subst card_gt_0_iff) auto
  then show ?thesis using inv by (simp add: zns_inv_def)
qed

lemma res_count_less:
  assumes inv: "zns_inv ftl" and z: "z < nr_zones (zp ftl)" and n: "\<not> holds_res ty (zone_descs ftl z)"
  shows "acquired_cnt (res_infos ftl ty) < total_cnt (res_infos ftl ty)"
proof -
  have "{z. z < nr_zones (zp ftl) \<and> holds_res ty (zone_descs ftl z)} \<subset> {..<nr_zones (zp ftl)}"
    using z n by auto
  from psubset_card_mono [OF _ this] have "res_count ty ftl < nr_zones (zp ftl)"
    by (simp add: res_count_def)
  then show ?thesis using inv by (simp add: zns_inv_def)
qed

lemma acquired_bound: "zns_inv ftl \<Longrightarrow> acquired_cnt (res_infos ftl ty) < 2 ^ 32"
proof -
  assume inv: "zns_inv ftl"
  have "{z. z < nr_zones (zp ftl) \<and> holds_res ty (zone_descs ftl z)} \<subseteq> {..<nr_zones (zp ftl)}" by auto
  from card_mono [OF _ this] have "res_count ty ftl \<le> nr_zones (zp ftl)" by (simp add: res_count_def)
  then show ?thesis using inv by (simp add: zns_inv_def)
qed

text \<open>Counters after a release or an acquisition.\<close>

lemma mod_dec: "0 < a \<Longrightarrow> a < 2 ^ 32 \<Longrightarrow> (a + 2 ^ 32 - 1) mod 2 ^ 32 = a - (1 :: nat)"
proof -
  assume "0 < a" "a < 2 ^ 32"
  then have "a + 2 ^ 32 - 1 = (a - 1) + 2 ^ 32" by simp
  also have "\<dots> mod 2 ^ 32 = (a - 1) mod 2 ^ 32" by (rule mod_add_self2)
  also have "\<dots> = a - 1" using \<open>a < 2 ^ 32\<close> by simp
  finally show ?thesis .
qed

lemma release_cnt:
  "0 < acquired_cnt (res_infos ftl ty) \<Longrightarrow> acquired_cnt (res_infos ftl ty) < 2 ^ 32 \<Longrightarrow>
   acquired_cnt (res_infos (release_zone_resource ty ftl) ty') =
     acquired_cnt (res_infos ftl ty') - of_bool (ty' = ty)"
  using mod_dec [of "acquired_cnt (res_infos ftl ty)"]
  by (simp add: release_zone_resource_def set_acquired_def)

lemma acquire_cnt:
  "acquired_cnt (res_infos ftl ty) < total_cnt (res_infos ftl ty) \<Longrightarrow> total_cnt (res_infos ftl ty) < 2 ^ 32 \<Longrightarrow>
   fst (acquire_zone_resource ty ftl) \<and>
   acquired_cnt (res_infos (snd (acquire_zone_resource ty ftl)) ty') =
     acquired_cnt (res_infos ftl ty') + of_bool (ty' = ty)"
  by (simp add: acquire_zone_resource_def set_acquired_def is_zone_resource_avail_def)

lemma zns_frame [simp]:
  "zp (set_acquired ty n ftl) = zp ftl" "z_ssd (set_acquired ty n ftl) = z_ssd ftl"
  "zone_descs (set_acquired ty n ftl) = zone_descs ftl"
  "total_cnt (res_infos (set_acquired ty n ftl) ty') = total_cnt (res_infos ftl ty')"
  "zp (release_zone_resource ty ftl) = zp ftl" "z_ssd (release_zone_resource ty ftl) = z_ssd ftl"
  "zone_descs (release_zone_resource ty ftl) = zone_descs ftl"
  "total_cnt (res_infos (release_zone_resource ty ftl) ty') = total_cnt (res_infos ftl ty')"
  "zp (snd (acquire_zone_resource ty ftl)) = zp ftl" "z_ssd (snd (acquire_zone_resource ty ftl)) = z_ssd ftl"
  "zone_descs (snd (acquire_zone_resource ty ftl)) = zone_descs ftl"
  "total_cnt (res_infos (snd (acquire_zone_resource ty ftl)) ty') = total_cnt (res_infos ftl ty')"
  "zp (upd_zone z f ftl) = zp ftl" "z_ssd (upd_zone z f ftl) = z_ssd ftl"
  "res_infos (upd_zone z f ftl) = res_infos ftl"
  "zone_descs (upd_zone z f ftl) = (zone_descs ftl)(z := f (zone_descs ftl z))"
  "zp (change_zone_state z st ftl) = zp ftl" "z_ssd (change_zone_state z st ftl) = z_ssd ftl"
  "res_infos (change_zone_state z st ftl) = res_infos ftl"
  "zone_descs (change_zone_state z st ftl) = (zone_descs ftl)(z := (zone_descs ftl z)\<lparr>zd_state := st\<rparr>)"
  by (simp_all add: set_acquired_def release_zone_resource_def acquire_zone_resource_def upd_zone_def
      change_zone_state_def)

lemma acquire_full: "acquired_cnt (res_infos ftl ty) \<le> total_cnt (res_infos ftl ty) \<Longrightarrow>
  fst (acquire_zone_resource ty ftl) \<longleftrightarrow> \<not> is_zone_resource_full ftl ty"
  by (auto simp: acquire_zone_resource_def is_zone_resource_avail_def is_zone_resource_full_def)

lemma acquire_False: "\<not> fst (acquire_zone_resource ty ftl) \<Longrightarrow> snd (acquire_zone_resource ty ftl) = ftl"
  by (simp add: acquire_zone_resource_def split: if_splits)

lemmas holds_defs = holds_res_def is_open_def is_active_def

lemma release_if_cnt:
  assumes "b \<longrightarrow> 0 < acquired_cnt (res_infos ftl ty)" and "acquired_cnt (res_infos ftl ty) < 2 ^ 32"
  shows "acquired_cnt (res_infos (if b then release_zone_resource ty ftl else ftl) ty') + of_bool (b \<and> ty' = ty) =
    acquired_cnt (res_infos ftl ty')"
  using assms release_cnt [of ftl ty ty'] by (cases b) auto

lemma release_active_frame [simp]:
  "zp (release_active z ftl) = zp ftl" "z_ssd (release_active z ftl) = z_ssd ftl"
  "zone_descs (release_active z ftl) = zone_descs ftl"
  "total_cnt (res_infos (release_active z ftl) ty) = total_cnt (res_infos ftl ty)"
  by (simp_all add: release_active_def Let_def)

lemma release_active_cnt:
  assumes inv: "zns_inv ftl" and z: "z < nr_zones (zp ftl)" and act: "is_active (zone_descs ftl z)"
  shows "acquired_cnt (res_infos (release_active z ftl) ty) +
      of_bool (holds_res ty (zone_descs ftl z)) = acquired_cnt (res_infos ftl ty)"
proof -
  let ?d = "zone_descs ftl z"
  define f1 where "f1 = (if is_open ?d then release_zone_resource OPEN_ZONE ftl else ftl)"
  define f2 where "f2 = (if True then release_zone_resource ACTIVE_ZONE f1 else f1)"
  define f3 where "f3 = (if zd_zrwav ?d then release_zone_resource ZRWA_ZONE f2 else f2)"
  have r: "release_active z ftl = f3"
    by (simp add: release_active_def Let_def f1_def f2_def f3_def is_open_def)
  have pos: "holds_res ty ?d \<Longrightarrow> 0 < acquired_cnt (res_infos ftl ty)" for ty
    using res_count_pos [OF inv z] .
  have b: "acquired_cnt (res_infos ftl ty) < 2 ^ 32" for ty using acquired_bound [OF inv] .
  have 1: "acquired_cnt (res_infos f1 ty') + of_bool (is_open ?d \<and> ty' = OPEN_ZONE) =
      acquired_cnt (res_infos ftl ty')" for ty'
    unfolding f1_def using pos [of OPEN_ZONE] b by (intro release_if_cnt) (auto simp: holds_res_def)
  have 2: "acquired_cnt (res_infos f2 ty') + of_bool (True \<and> ty' = ACTIVE_ZONE) =
      acquired_cnt (res_infos f1 ty')" for ty'
    unfolding f2_def using pos [of ACTIVE_ZONE] b [of ACTIVE_ZONE] 1 [of ACTIVE_ZONE] act
    by (intro release_if_cnt) (auto simp: holds_res_def)
  have 3: "acquired_cnt (res_infos f3 ty') + of_bool (zd_zrwav ?d \<and> ty' = ZRWA_ZONE) =
      acquired_cnt (res_infos f2 ty')" for ty'
    unfolding f3_def using pos [of ZRWA_ZONE] b [of ZRWA_ZONE] 1 [of ZRWA_ZONE] 2 [of ZRWA_ZONE] act
    by (intro release_if_cnt) (auto simp: holds_res_def)
  show ?thesis
    using 1 [of ty] 2 [of ty] 3 [of ty] act unfolding r by (cases ty) (simp_all add: holds_res_def)
qed

section \<open>Zone management keeps the invariant\<close>

lemma zns_invD:
  assumes "zns_inv ftl" and "z < nr_zones (zp ftl)"
  shows "zone_ok ftl z (zone_descs ftl z)" and "total_cnt (res_infos ftl ty) < 2 ^ 32"
    and "acquired_cnt (res_infos ftl ty) \<le> total_cnt (res_infos ftl ty)"
proof -
  have "{z. z < nr_zones (zp ftl) \<and> holds_res ty (zone_descs ftl z)} \<subseteq> {..<nr_zones (zp ftl)}" by auto
  from card_mono [OF _ this] show "acquired_cnt (res_infos ftl ty) \<le> total_cnt (res_infos ftl ty)"
    using assms(1) by (simp add: zns_inv_def res_count_def)
qed (use assms in \<open>simp_all add: zns_inv_def\<close>)

lemma zone_to_slba_eq:
  assumes "zns_inv ftl" and "z < nr_zones (zp ftl)"
  shows "zone_to_slba ftl z = z * (zone_size (zp ftl) div secsz (sp (z_ssd ftl)))"
    and "zone_to_slba ftl z + zd_capacity (zone_descs ftl z) < 2 ^ 32"
    and "lba_to_zone ftl (zone_to_slba ftl z) = z"
proof -
  let ?l = "zone_size (zp ftl) div secsz (sp (z_ssd ftl))"
  have l: "zd_capacity (zone_descs ftl z) = ?l" "0 < ?l"
    using zns_invD(1) [OF assms] by (auto simp: zone_ok_def)
  have "(z + 1) * ?l \<le> nr_zones (zp ftl) * ?l" using assms(2) by (intro mult_le_mono1) simp
  moreover have "nr_zones (zp ftl) * ?l < 2 ^ 32" "nr_zones (zp ftl) < 2 ^ 32"
    using assms(1) by (auto simp: zns_inv_def)
  ultimately have b: "z * ?l + ?l < 2 ^ 32" by simp
  then show e: "zone_to_slba ftl z = z * ?l" by (simp add: zone_to_slba_def)
  show "zone_to_slba ftl z + zd_capacity (zone_descs ftl z) < 2 ^ 32" using b l by (simp add: e)
  show "lba_to_zone ftl (zone_to_slba ftl z) = z"
    using l assms(2) \<open>nr_zones (zp ftl) < 2 ^ 32\<close> unfolding e by (simp add: lba_to_zone_def)
qed

lemma close_zone_inv:
  assumes inv: "zns_inv ftl" and z: "z < nr_zones (zp ftl)"
  shows "zns_inv (snd (zmgmt_send_close_zone z ftl))"
proof (cases "is_open (zone_descs ftl z)")
  case True
  let ?d = "zone_descs ftl z"
  let ?ftl = "release_zone_resource OPEN_ZONE (change_zone_state z ZONE_STATE_CLOSED ftl)"
  have eq: "snd (zmgmt_send_close_zone z ftl) = ?ftl"
    using True by (auto simp: zmgmt_send_close_zone_def is_open_def)
  have "0 < acquired_cnt (res_infos ftl OPEN_ZONE)" "acquired_cnt (res_infos ftl OPEN_ZONE) < 2 ^ 32"
    using res_count_pos [OF inv z, of OPEN_ZONE] acquired_bound [OF inv] True by (simp_all add: holds_res_def)
  then have "zone_step z (?d\<lparr>zd_state := ZONE_STATE_CLOSED\<rparr>) ftl ?ftl"
    using True release_cnt [of "change_zone_state z ZONE_STATE_CLOSED ftl" OPEN_ZONE]
    by (auto simp: zone_step_def holds_defs split: zone_resource_type.split)
  moreover have "zone_ok ftl z (?d\<lparr>zd_state := ZONE_STATE_CLOSED\<rparr>)"
    using zns_invD(1) [OF inv z] True by (auto simp: zone_ok_def is_active_def is_open_def)
  ultimately show ?thesis unfolding eq by (intro zns_inv_step [OF inv z])
next
  case False
  then have "snd (zmgmt_send_close_zone z ftl) = ftl"
    by (auto simp: zmgmt_send_close_zone_def is_open_def split: zone_state.split)
  then show ?thesis using inv by simp
qed

lemma release_active_step:
  assumes inv: "zns_inv ftl" and z: "z < nr_zones (zp ftl)" and act: "is_active (zone_descs ftl z)"
    and d: "\<not> is_active d'" and f: "zp ftl' = zp ftl" "sp (z_ssd ftl') = sp (z_ssd ftl)"
    "res_infos ftl' = res_infos (release_active z ftl)" "zone_descs ftl' = (zone_descs ftl)(z := d')"
  shows "zone_step z d' ftl ftl'"
proof -
  have "\<not> holds_res ty d'" for ty using d by (auto simp: holds_defs split: zone_resource_type.split)
  then show ?thesis using release_active_cnt [OF inv z act] f by (simp add: zone_step_def)
qed

lemma inactive_step:
  assumes "\<not> is_active (zone_descs ftl z)" and "\<not> is_active d'"
    and "zp ftl' = zp ftl" "sp (z_ssd ftl') = sp (z_ssd ftl)"
    "res_infos ftl' = res_infos ftl" "zone_descs ftl' = (zone_descs ftl)(z := d')"
  shows "zone_step z d' ftl ftl'"
proof -
  have "\<not> holds_res ty d'" "\<not> holds_res ty (zone_descs ftl z)" for ty
    using assms(1,2) by (auto simp: holds_defs split: zone_resource_type.split)
  then show ?thesis using assms by (simp add: zone_step_def)
qed

lemma finish_zone_inv:
  assumes inv: "zns_inv ftl" and z: "z < nr_zones (zp ftl)"
  shows "zns_inv (snd (zmgmt_send_finish_zone z ftl))"
proof -
  let ?d = "zone_descs ftl z" and ?d' = "(zone_descs ftl z)\<lparr>zd_state := ZONE_STATE_FULL\<rparr>"
  have ok: "zone_ok ftl z ?d'"
    using zns_invD(1) [OF inv z] by (auto simp: zone_ok_def is_active_def is_open_def)
  have na: "\<not> is_active ?d'" by (simp add: is_active_def is_open_def)
  consider "is_active ?d" | "zd_state ?d = ZONE_STATE_EMPTY" | "snd (zmgmt_send_finish_zone z ftl) = ftl"
    by (cases "zd_state ?d") (auto simp: is_active_def is_open_def zmgmt_send_finish_zone_def Let_def)
  then show ?thesis
  proof cases
    case 1
    then have "snd (zmgmt_send_finish_zone z ftl) = change_zone_state z ZONE_STATE_FULL (release_active z ftl)"
      by (auto simp: is_active_def is_open_def zmgmt_send_finish_zone_def Let_def)
    then show ?thesis using release_active_step [OF inv z 1 na] by (intro zns_inv_step [OF inv z _ ok]) simp
  next
    case 2
    then have "snd (zmgmt_send_finish_zone z ftl) = change_zone_state z ZONE_STATE_FULL ftl"
      by (auto simp: zmgmt_send_finish_zone_def Let_def)
    then show ?thesis
      using inactive_step [OF _ na, of ftl z] 2
      by (intro zns_inv_step [OF inv z _ ok]) (simp add: is_active_def is_open_def)
  next
    case 3
    then show ?thesis using inv by simp
  qed
qed

lemma reset_zone_frame [simp]:
  "zp (reset_zone z ftl) = zp ftl" "sp (z_ssd (reset_zone z ftl)) = sp (z_ssd ftl)"
  "res_infos (reset_zone z ftl) = res_infos ftl"
  "zone_descs (reset_zone z ftl) = (zone_descs ftl)(z := (zone_descs ftl z)\<lparr>zd_wp := zd_zslba (zone_descs ftl z),
     zd_zrwav := False\<rparr>)"
  by (simp_all add: reset_zone_def Let_def upd_zone_def)

lemma reset_zone_inv:
  assumes inv: "zns_inv ftl" and z: "z < nr_zones (zp ftl)"
  shows "zns_inv (snd (zmgmt_send_reset_zone z ftl))"
proof -
  let ?d = "zone_descs ftl z"
  let ?d' = "?d\<lparr>zd_state := ZONE_STATE_EMPTY, zd_wp := zd_zslba ?d, zd_zrwav := False\<rparr>"
  have ok: "zone_ok ftl z ?d'"
    using zns_invD(1) [OF inv z] by (auto simp: zone_ok_def is_active_def is_open_def)
  have na: "\<not> is_active ?d'" by (simp add: is_active_def is_open_def)
  consider "is_active ?d" | "zd_state ?d \<in> {ZONE_STATE_EMPTY, ZONE_STATE_FULL}"
    | "snd (zmgmt_send_reset_zone z ftl) = ftl"
    by (cases "zd_state ?d") (auto simp: is_active_def is_open_def zmgmt_send_reset_zone_def Let_def)
  then show ?thesis
  proof cases
    case 1
    then have "snd (zmgmt_send_reset_zone z ftl) =
        reset_zone z (change_zone_state z ZONE_STATE_EMPTY (release_active z ftl))"
      by (auto simp: is_active_def is_open_def zmgmt_send_reset_zone_def Let_def)
    then show ?thesis using release_active_step [OF inv z 1 na] by (intro zns_inv_step [OF inv z _ ok]) simp
  next
    case 2
    then have "snd (zmgmt_send_reset_zone z ftl) = reset_zone z (change_zone_state z ZONE_STATE_EMPTY ftl)"
      by (auto simp: zmgmt_send_reset_zone_def Let_def)
    moreover have "\<not> is_active ?d" using 2 by (auto simp: is_active_def is_open_def)
    ultimately show ?thesis
      using inactive_step [OF _ na, of ftl z] by (intro zns_inv_step [OF inv z _ ok]) simp
  next
    case 3
    then show ?thesis using inv by simp
  qed
qed

lemma offline_zone_inv:
  assumes inv: "zns_inv ftl" and z: "z < nr_zones (zp ftl)"
  shows "zns_inv (snd (zmgmt_send_offline_zone z ftl))"
proof (cases "zd_state (zone_descs ftl z) = ZONE_STATE_READ_ONLY")
  case True
  let ?d' = "(zone_descs ftl z)\<lparr>zd_state := ZONE_STATE_OFFLINE\<rparr>"
  have eq: "snd (zmgmt_send_offline_zone z ftl) = change_zone_state z ZONE_STATE_OFFLINE ftl"
    using True by (simp add: zmgmt_send_offline_zone_def)
  have "zone_ok ftl z ?d'"
    using zns_invD(1) [OF inv z] by (auto simp: zone_ok_def is_active_def is_open_def)
  moreover have "zone_step z ?d' ftl (change_zone_state z ZONE_STATE_OFFLINE ftl)"
    using True by (intro inactive_step) (simp_all add: is_active_def is_open_def)
  ultimately show ?thesis unfolding eq by (intro zns_inv_step [OF inv z])
next
  case False
  then have "snd (zmgmt_send_offline_zone z ftl) = ftl"
    by (auto simp: zmgmt_send_offline_zone_def split: zone_state.split)
  then show ?thesis using inv by simp
qed

lemma not_full:
  assumes "zns_inv ftl" and "z < nr_zones (zp ftl)" and "\<not> holds_res ty (zone_descs ftl z)"
  shows "\<not> is_zone_resource_full ftl ty"
  using res_count_less [OF assms] by (simp add: is_zone_resource_full_def)

text \<open>Opening: every zone can hold every resource, so a zone that lacks one always obtains it.\<close>

definition opened :: "zone_resource_type \<Rightarrow> zns_ftl \<Rightarrow> zns_ftl" where
  "opened ty ftl = snd (acquire_zone_resource ty ftl)"

lemma opened_cnt:
  assumes "acquired_cnt (res_infos ftl ty) < total_cnt (res_infos ftl ty)"
    and "total_cnt (res_infos ftl ty) < 2 ^ 32"
  shows "acquire_zone_resource ty ftl = (True, opened ty ftl)"
    and "acquired_cnt (res_infos (opened ty ftl) ty') = acquired_cnt (res_infos ftl ty') + of_bool (ty' = ty)"
  using acquire_cnt [OF assms] by (simp_all add: opened_def prod_eq_iff)

lemma opened_frame [simp]:
  "zp (opened ty ftl) = zp ftl" "z_ssd (opened ty ftl) = z_ssd ftl" "zone_descs (opened ty ftl) = zone_descs ftl"
  "total_cnt (res_infos (opened ty ftl) ty') = total_cnt (res_infos ftl ty')"
  by (simp_all add: opened_def)

text \<open>Opening a zone for the first time, explicitly or by a write.\<close>

definition first_open :: "nat \<Rightarrow> bool \<Rightarrow> zone_state \<Rightarrow> zns_ftl \<Rightarrow> zns_ftl" where
  "first_open z zrwa st ftl =
     (let ftl = (if zrwa then upd_zone z (\<lambda>d. d\<lparr>zd_zrwav := True\<rparr>) (opened ZRWA_ZONE ftl) else ftl)
      in change_zone_state z st (opened OPEN_ZONE (opened ACTIVE_ZONE ftl)))"

lemma first_open_step:
  assumes inv: "zns_inv ftl" and z: "z < nr_zones (zp ftl)" and e: "zd_state (zone_descs ftl z) = ZONE_STATE_EMPTY"
    and st: "st \<in> {ZONE_STATE_OPENED_IMPL, ZONE_STATE_OPENED_EXPL}"
  shows "zone_step z ((zone_descs ftl z)\<lparr>zd_zrwav := zrwa, zd_state := st\<rparr>) ftl (first_open z zrwa st ftl)"
proof -
  let ?d = "zone_descs ftl z"
  have nh: "\<not> holds_res ty ?d" for ty using e by (cases ty) (simp_all add: holds_defs)
  have lt: "acquired_cnt (res_infos ftl ty) < total_cnt (res_infos ftl ty)" "total_cnt (res_infos ftl ty) < 2 ^ 32" for ty
    using res_count_less [OF inv z nh] zns_invD(2) [OF inv z] .
  have nz: "\<not> zd_zrwav ?d" using zns_invD(1) [OF inv z] e by (simp add: zone_ok_def)
  define f1 where "f1 = (if zrwa then upd_zone z (\<lambda>d. d\<lparr>zd_zrwav := True\<rparr>) (opened ZRWA_ZONE ftl) else ftl)"
  have c1: "acquired_cnt (res_infos f1 ty) = acquired_cnt (res_infos ftl ty) + of_bool (zrwa \<and> ty = ZRWA_ZONE)" for ty
    using opened_cnt(2) [OF lt] by (simp add: f1_def)
  have t1: "total_cnt (res_infos f1 ty) = total_cnt (res_infos ftl ty)" "zp f1 = zp ftl" "z_ssd f1 = z_ssd ftl" for ty
    by (simp_all add: f1_def)
  have d1: "zone_descs f1 = (zone_descs ftl)(z := ?d\<lparr>zd_zrwav := zrwa\<rparr>)"
    using nz by (cases zrwa) (auto simp: f1_def)
  have c2: "acquired_cnt (res_infos (opened ACTIVE_ZONE f1) ty) = acquired_cnt (res_infos f1 ty) + of_bool (ty = ACTIVE_ZONE)" for ty
    using lt [of ACTIVE_ZONE] c1 [of ACTIVE_ZONE] by (intro opened_cnt(2)) (simp_all add: t1)
  have c3: "acquired_cnt (res_infos (opened OPEN_ZONE (opened ACTIVE_ZONE f1)) ty) =
      acquired_cnt (res_infos (opened ACTIVE_ZONE f1) ty) + of_bool (ty = OPEN_ZONE)" for ty
    using lt [of OPEN_ZONE] c1 [of OPEN_ZONE] c2 [of OPEN_ZONE] by (intro opened_cnt(2)) (simp_all add: t1)
  have fo: "first_open z zrwa st ftl = change_zone_state z st (opened OPEN_ZONE (opened ACTIVE_ZONE f1))"
    by (simp add: first_open_def f1_def Let_def)
  have "acquired_cnt (res_infos (first_open z zrwa st ftl) ty) =
      acquired_cnt (res_infos ftl ty) + of_bool (holds_res ty (?d\<lparr>zd_zrwav := zrwa, zd_state := st\<rparr>))" for ty
    using st by (cases ty) (auto simp: fo c3 c2 c1 holds_defs)
  then show ?thesis using nh by (simp add: zone_step_def fo t1 d1)
qed

lemma reopen_step:
  assumes inv: "zns_inv ftl" and z: "z < nr_zones (zp ftl)" and e: "zd_state (zone_descs ftl z) = ZONE_STATE_CLOSED"
    and st: "st \<in> {ZONE_STATE_OPENED_IMPL, ZONE_STATE_OPENED_EXPL}"
  shows "zone_step z ((zone_descs ftl z)\<lparr>zd_state := st\<rparr>) ftl (change_zone_state z st (opened OPEN_ZONE ftl))"
    and "acquire_zone_resource OPEN_ZONE ftl = (True, opened OPEN_ZONE ftl)"
proof -
  have lt: "acquired_cnt (res_infos ftl OPEN_ZONE) < total_cnt (res_infos ftl OPEN_ZONE)" "total_cnt (res_infos ftl OPEN_ZONE) < 2 ^ 32"
    using res_count_less [OF inv z, of OPEN_ZONE] zns_invD(2) [OF inv z] e by (simp_all add: holds_defs)
  show "acquire_zone_resource OPEN_ZONE ftl = (True, opened OPEN_ZONE ftl)" by (rule opened_cnt(1) [OF lt])
  show "zone_step z ((zone_descs ftl z)\<lparr>zd_state := st\<rparr>) ftl (change_zone_state z st (opened OPEN_ZONE ftl))"
    using opened_cnt(2) [OF lt] e st by (auto simp: zone_step_def holds_defs split: zone_resource_type.split)
qed

lemma zone_ok_open:
  assumes "zone_ok ftl z d" and "zd_state d = ZONE_STATE_EMPTY \<or> is_active d"
    and "st \<in> {ZONE_STATE_OPENED_IMPL, ZONE_STATE_OPENED_EXPL}"
  shows "zone_ok ftl z (d\<lparr>zd_state := st\<rparr>)" "zone_ok ftl z (d\<lparr>zd_zrwav := b, zd_state := st\<rparr>)"
  using assms by (auto simp: zone_ok_def is_active_def is_open_def)

text \<open>What opening a zone amounts to in a state that satisfies the invariant.\<close>

lemma open_zone_eq:
  assumes inv: "zns_inv ftl" and z: "z < nr_zones (zp ftl)"
  shows "zmgmt_send_open_zone z zrwa ftl =
    (case zd_state (zone_descs ftl z) of
       ZONE_STATE_EMPTY \<Rightarrow> (NVME_SC_SUCCESS, first_open z zrwa ZONE_STATE_OPENED_EXPL ftl)
     | ZONE_STATE_CLOSED \<Rightarrow> (NVME_SC_SUCCESS, change_zone_state z ZONE_STATE_OPENED_EXPL (opened OPEN_ZONE ftl))
     | ZONE_STATE_OPENED_IMPL \<Rightarrow> (NVME_SC_SUCCESS, change_zone_state z ZONE_STATE_OPENED_EXPL ftl)
     | ZONE_STATE_OPENED_EXPL \<Rightarrow> (NVME_SC_SUCCESS, ftl)
     | _ \<Rightarrow> (NVME_SC_ZNS_INVALID_TRANSITION, ftl))"
proof (cases "zd_state (zone_descs ftl z) = ZONE_STATE_EMPTY")
  case True
  have nh: "\<not> holds_res ty (zone_descs ftl z)" for ty using True by (cases ty) (simp_all add: holds_defs)
  let ?f = "if zrwa then upd_zone z (\<lambda>d. d\<lparr>zd_zrwav := True\<rparr>) (opened ZRWA_ZONE ftl) else ftl"
  have lt: "acquired_cnt (res_infos ftl ty) < total_cnt (res_infos ftl ty)" "total_cnt (res_infos ftl ty) < 2 ^ 32" for ty
    using res_count_less [OF inv z nh] zns_invD(2) [OF inv z] .
  have a: "acquired_cnt (res_infos ?f ty) = acquired_cnt (res_infos ftl ty)"
    "total_cnt (res_infos ?f ty) = total_cnt (res_infos ftl ty)" if "ty \<noteq> ZRWA_ZONE" for ty
    using opened_cnt(2) [OF lt] that by simp_all
  have b: "acquired_cnt (res_infos (opened ACTIVE_ZONE ?f) OPEN_ZONE) = acquired_cnt (res_infos ftl OPEN_ZONE)"
    using opened_cnt(2) [of ?f ACTIVE_ZONE OPEN_ZONE] lt a by simp
  have "acquire_zone_resource OPEN_ZONE (opened ACTIVE_ZONE ?f) = (True, opened OPEN_ZONE (opened ACTIVE_ZONE ?f))"
    using lt [of OPEN_ZONE] b a(2) [of OPEN_ZONE] by (intro opened_cnt(1)) simp_all
  then show ?thesis
    using True not_full [OF inv z nh]
    by (cases zrwa) (simp_all add: zmgmt_send_open_zone_def first_open_def Let_def opened_def [symmetric])
next
  case False
  then show ?thesis
    using reopen_step(2) [OF inv z, of ZONE_STATE_OPENED_EXPL]
    by (simp add: zmgmt_send_open_zone_def split: zone_state.split)
qed

lemma open_zone_inv:
  assumes inv: "zns_inv ftl" and z: "z < nr_zones (zp ftl)"
  shows "zns_inv (snd (zmgmt_send_open_zone z zrwa ftl))"
proof -
  let ?d = "zone_descs ftl z"
  note ok = zone_ok_open [OF zns_invD(1) [OF inv z], of ZONE_STATE_OPENED_EXPL, simplified]
  have impl: "zone_step z (?d\<lparr>zd_state := ZONE_STATE_OPENED_EXPL\<rparr>) ftl (change_zone_state z ZONE_STATE_OPENED_EXPL ftl)"
    if "zd_state ?d = ZONE_STATE_OPENED_IMPL"
    using that by (auto simp: zone_step_def holds_defs split: zone_resource_type.split)
  show ?thesis
    using inv first_open_step [OF inv z, of ZONE_STATE_OPENED_EXPL zrwa]
      reopen_step(1) [OF inv z, of ZONE_STATE_OPENED_EXPL] impl ok
    by (cases "zd_state ?d") (auto simp: open_zone_eq [OF inv z] is_active_def is_open_def
        intro: zns_inv_step [OF inv z])
qed

lemma dec64_pos: "0 < x \<Longrightarrow> x < 2 ^ 64 \<Longrightarrow> dec64 x = x - 1"
proof -
  assume "0 < x" "x < 2 ^ 64"
  then have "x + 2 ^ 64 - 1 = (x - 1) + 2 ^ 64" by simp
  then have "dec64 x = (x - 1) mod 2 ^ 64" by (simp only: dec64_def mod_add_self2)
  then show ?thesis using \<open>x < 2 ^ 64\<close> by simp
qed

text \<open>The release at the end of an explicit flush is the one finish and reset perform.\<close>

lemma flush_release:
  assumes "zd_zrwav (zone_descs ftl z)" and "is_active (zone_descs ftl z)"
  shows "res_infos (release_zone_resource ZRWA_ZONE (release_zone_resource ACTIVE_ZONE
      (if zd_state (zone_descs ftl z) \<noteq> ZONE_STATE_CLOSED
       then release_zone_resource OPEN_ZONE (upd_zone z f ftl) else upd_zone z f ftl))) =
    res_infos (release_active z ftl)"
  using assms by (auto simp: release_active_def Let_def is_active_def is_open_def release_zone_resource_def
      set_acquired_def)

lemma flush_explicit_inv:
  assumes inv: "zns_inv ftl" and z: "lba_to_zone ftl slba < nr_zones (zp ftl)"
    and r: "zmgmt_send_flush_explicit_zrwa slba ftl = Some (st, ftl')"
  shows "zns_inv ftl'"
proof (cases "ftl' = ftl")
  case False
  let ?z = "lba_to_zone ftl slba"
  let ?d = "zone_descs ftl ?z"
  let ?zend = "zone_to_slba ftl ?z + zd_capacity ?d"
  define f where "f = upd_zone ?z (\<lambda>d. d\<lparr>zd_wp := slba + 1\<rparr>) ftl"
  define g where "g = change_zone_state ?z ZONE_STATE_FULL (release_zone_resource ZRWA_ZONE
      (release_zone_resource ACTIVE_ZONE (if zd_state ?d \<noteq> ZONE_STATE_CLOSED
         then release_zone_resource OPEN_ZONE f else f)))"
  have ok: "zone_ok ftl ?z ?d" using zns_invD(1) [OF inv z] .
  have "zd_zrwav ?d" and act: "is_active ?d" and le: "zd_wp ?d \<le> slba" "slba \<le> dec64 ?zend"
    and "ftl' = (if slba + 1 = ?zend then g else f)"
    using r False
    by (auto simp: zmgmt_send_flush_explicit_zrwa_def Let_def is_active_def is_open_def f_def g_def
        zone_to_slba_def split: if_splits)
  note zr = this(1) and ftl' = this(5)
  have "0 < ?zend" "?zend < 2 ^ 64" using zone_to_slba_eq(2) [OF inv z] ok by (auto simp: zone_ok_def)
  then have e: "slba < ?zend" using le(2) dec64_pos by fastforce
  show ?thesis
  proof (cases "slba + 1 = ?zend")
    case True
    let ?d' = "?d\<lparr>zd_wp := slba + 1, zd_state := ZONE_STATE_FULL\<rparr>"
    have "res_infos g = res_infos (release_active ?z ftl)"
      unfolding g_def zns_frame f_def by (rule flush_release [OF zr act])
    then have "zone_step ?z ?d' ftl g"
      by (intro release_active_step [OF inv z act]) (auto simp: is_active_def is_open_def g_def f_def)
    moreover have "zone_ok ftl ?z ?d'" using ok True le by (auto simp: zone_ok_def is_active_def is_open_def)
    ultimately show ?thesis using True ftl' by (auto intro: zns_inv_step [OF inv z])
  next
    case c: False
    have "zone_step ?z (?d\<lparr>zd_wp := slba + 1\<rparr>) ftl f"
      by (auto simp: zone_step_def f_def holds_defs split: zone_resource_type.split)
    moreover have "zone_ok ftl ?z (?d\<lparr>zd_wp := slba + 1\<rparr>)"
      using ok c e le act by (auto simp: zone_ok_def is_active_def is_open_def)
    ultimately show ?thesis using c ftl' by (auto intro: zns_inv_step [OF inv z])
  qed
qed (use inv in simp)

text \<open>
  When the explicit flush does not divide by zero: flush groups are configured, or, as in the shipped
  configurations, neither flush groups nor a random write area are, and zone 0 is not one that was opened with
  a random write area and has nothing written (its window then wraps around to the whole zone).
\<close>

definition flush_safe :: "zns_ftl \<Rightarrow> bool" where
  "flush_safe ftl \<longleftrightarrow> 0 < lbas_per_zrwafg (zp ftl) \<or>
     lbas_per_zrwa (zp ftl) = 0 \<and> (zd_zrwav (zone_descs ftl 0) \<longrightarrow> 0 < zd_wp (zone_descs ftl 0))"

lemma flush_explicit_returns:
  assumes inv: "zns_inv ftl" and z: "lba_to_zone ftl slba < nr_zones (zp ftl)" and safe: "flush_safe ftl"
  shows "\<exists>st ftl'. zmgmt_send_flush_explicit_zrwa slba ftl = Some (st, ftl') \<and> zp ftl' = zp ftl \<and>
    z_ssd ftl' = z_ssd ftl \<and> flush_safe ftl'"
proof (cases "0 < lbas_per_zrwafg (zp ftl)")
  case True
  then show ?thesis by (simp add: zmgmt_send_flush_explicit_zrwa_def flush_safe_def Let_def)
next
  case False
  let ?z = "lba_to_zone ftl slba"
  let ?d = "zone_descs ftl ?z"
  have ok: "zone_ok ftl ?z ?d" using zns_invD(1) [OF inv z] .
  have a: "lbas_per_zrwa (zp ftl) = 0" "zd_zrwav (zone_descs ftl 0) \<longrightarrow> 0 < zd_wp (zone_descs ftl 0)"
    using safe False by (auto simp: flush_safe_def)
  have "0 < zd_wp ?d \<and> zd_wp ?d < 2 ^ 64" if v: "zd_zrwav ?d"
  proof -
    have "0 < zd_wp ?d"
    proof (cases "?z = 0")
      case True
      then show ?thesis using a(2) v by simp
    next
      case nz: False
      then have "0 < zone_to_slba ftl ?z" using zone_to_slba_eq(1) [OF inv z] ok by (simp add: zone_ok_def)
      then show ?thesis using ok by (simp add: zone_ok_def)
    qed
    moreover have "zd_wp ?d < 2 ^ 32" using ok zone_to_slba_eq(2) [OF inv z] by (simp add: zone_ok_def)
    ultimately show ?thesis by simp
  qed
  then have "zmgmt_send_flush_explicit_zrwa slba ftl = Some (NVME_SC_ZNS_INVALID_ZONE_OPERATION, ftl)"
    using dec64_pos [of "zd_wp ?d"] a(1) by (auto simp: zmgmt_send_flush_explicit_zrwa_def Let_def)
  then show ?thesis using safe by simp
qed

text \<open>With no flush groups configured, opening zone 0 with a random write area and flushing it divides by zero.\<close>

lemma flush_divides_by_zero:
  assumes "zns_inv ftl" and "0 < nr_zones (zp ftl)" and "lbas_per_zrwafg (zp ftl) = 0" and "lbas_per_zrwa (zp ftl) = 0"
    and "zd_zrwav (zone_descs ftl 0)" and "zd_wp (zone_descs ftl 0) = 0"
  shows "zmgmt_send_flush_explicit_zrwa 0 ftl = None"
  using assms by (simp add: zmgmt_send_flush_explicit_zrwa_def lba_to_zone_def dec64_def)

lemma mgmt_frame [simp]:
  "zp (snd (zmgmt_send_close_zone z ftl)) = zp ftl" "zp (snd (zmgmt_send_finish_zone z ftl)) = zp ftl"
  "zp (snd (zmgmt_send_reset_zone z ftl)) = zp ftl" "zp (snd (zmgmt_send_offline_zone z ftl)) = zp ftl"
  by (simp_all add: zmgmt_send_close_zone_def zmgmt_send_finish_zone_def zmgmt_send_reset_zone_def
      zmgmt_send_offline_zone_def Let_def split: zone_state.split)

lemma open_frame [simp]: "zp (snd (zmgmt_send_open_zone z b ftl)) = zp ftl"
  by (simp add: zmgmt_send_open_zone_def Let_def acquire_zone_resource_def split: zone_state.split)

lemma mgmt_ssd [simp]:
  "z_ssd (snd (zmgmt_send_close_zone z ftl)) = z_ssd ftl" "z_ssd (snd (zmgmt_send_finish_zone z ftl)) = z_ssd ftl"
  "z_ssd (snd (zmgmt_send_reset_zone z ftl)) = z_ssd ftl" "z_ssd (snd (zmgmt_send_offline_zone z ftl)) = z_ssd ftl"
  "z_ssd (snd (zmgmt_send_open_zone z b ftl)) = z_ssd ftl"
  by (simp_all add: zmgmt_send_close_zone_def zmgmt_send_finish_zone_def zmgmt_send_reset_zone_def
      zmgmt_send_offline_zone_def zmgmt_send_open_zone_def acquire_zone_resource_def reset_zone_def Let_def
      split: zone_state.split)

lemma zmgmt_send1_inv:
  assumes inv: "zns_inv ftl" and z: "lba_to_zone ftl slba < nr_zones (zp ftl)"
    and fg: "action = 0x11 \<longrightarrow> flush_safe ftl"
  shows "\<exists>st ftl'. zmgmt_send1 slba action opt ftl = Some (st, ftl') \<and> zns_inv ftl' \<and> zp ftl' = zp ftl \<and>
    z_ssd ftl' = z_ssd ftl \<and> (action = 0x11 \<longrightarrow> flush_safe ftl')"
proof (cases "action = 0x11")
  case True
  then obtain st ftl' where f: "zmgmt_send_flush_explicit_zrwa slba ftl = Some (st, ftl')" "zp ftl' = zp ftl" "z_ssd ftl' = z_ssd ftl"
    "flush_safe ftl'" using flush_explicit_returns [OF inv z] fg by blast
  moreover from flush_explicit_inv [OF inv z f(1)] have "zns_inv ftl'" .
  ultimately show ?thesis using True by (simp add: zmgmt_send1_def)
next
  case False
  then show ?thesis
    using close_zone_inv [OF inv z] finish_zone_inv [OF inv z] open_zone_inv [OF inv z, of opt]
      reset_zone_inv [OF inv z] offline_zone_inv [OF inv z] inv
    by (simp add: zmgmt_send1_def Let_def map_prod_def case_prod_beta)
qed

lemma zmgmt_send_all_inv:
  assumes "zns_inv ftl" and "action = 0x11 \<longrightarrow> flush_safe ftl" and "\<forall>z \<in> set zs. z < nr_zones (zp ftl)"
  shows "\<exists>ftl'. zmgmt_send_all action opt zs ftl = Some ftl' \<and> zns_inv ftl' \<and> zp ftl' = zp ftl \<and>
    z_ssd ftl' = z_ssd ftl"
  using assms
proof (induction zs arbitrary: ftl)
  case (Cons z zs)
  from Cons.prems(3) have z: "z < nr_zones (zp ftl)" by simp
  have "lba_to_zone ftl (zone_to_slba ftl z) < nr_zones (zp ftl)"
    using zone_to_slba_eq(3) [OF Cons.prems(1) z] z by simp
  from zmgmt_send1_inv [OF Cons.prems(1) this Cons.prems(2), of opt] obtain st f where
    f: "zmgmt_send1 (zone_to_slba ftl z) action opt ftl = Some (st, f)" "zns_inv f" "zp f = zp ftl"
      "z_ssd f = z_ssd ftl" "action = 0x11 \<longrightarrow> flush_safe f" by blast
  from Cons.IH [OF f(2,5)] f Cons.prems show ?case by simp
qed simp

section \<open>Initial state\<close>

lemma zns_init_inv:
  assumes "secsz (sp ssd) = 512" and "0 < zone_size zpp div 512"
    and "nr_zones zpp * (zone_size zpp div 512) < 2 ^ 32"
  shows "zns_inv (zns_init_ftl zpp ssd mem)"
proof -
  let ?f = "zns_init_ftl zpp ssd mem" and ?l = "zone_size zpp div 512"
  have n: "nr_zones zpp \<le> nr_zones zpp * ?l" using assms(2) by simp
  have f: "zp ?f = zpp" "z_ssd ?f = ssd" "zone_descs ?f = init_descriptor zpp" "res_infos ?f = init_resource zpp"
    by (simp_all add: zns_init_ftl_def)
  have "zone_ok ?f z (init_descriptor zpp z)" if "z < nr_zones zpp" for z
  proof -
    have "z * ?l < 2 ^ 32" using that assms(3) mult_le_mono1 [of z "nr_zones zpp" ?l] by linarith
    then show ?thesis
      using assms(1,2) by (simp add: zone_ok_def f init_descriptor_def zone_to_slba_def is_active_def is_open_def)
  qed
  moreover have "{z. z < nr_zones zpp \<and> holds_res ty (init_descriptor zpp z)} = {}" for ty
    by (cases ty) (auto simp: holds_defs init_descriptor_def)
  ultimately show ?thesis
    using assms le_less_trans [OF n assms(3)] by (simp add: zns_inv_def res_count_def f init_resource_def)
qed

text \<open>A namespace of four 256-block zones on the flash of \<open>demo_spp\<close>, without random write areas as shipped.\<close>

definition demo_zp :: znsparams where
  "demo_zp = \<lparr>nr_zones = 4, nr_active_zones = 4, nr_open_zones = 4, dies_per_zone = 1, zone_size = 131072,
     zone_wb_size = 262144, nr_zrwa_zones = 0, zrwafg_size = 0, zrwa_size = 0, zrwa_buffer_size = 0,
     lbas_per_zrwafg = 0, lbas_per_zrwa = 0\<rparr>"

definition demo_ftl :: zns_ftl where
  "demo_ftl = zns_init_ftl demo_zp (ssd_init demo_spp (\<lambda>_. 0)) (\<lambda>_. 7)"

lemma demo_ftl_inv: "zns_inv demo_ftl"
  unfolding demo_ftl_def
  by (rule zns_init_inv)
    (simp_all add: ssd_init_def demo_spp_def demo_zp_def ssd_init_params_def Let_def SAMSUNG_970PRO_def)

section \<open>Properties of zone management\<close>

text \<open>The transitions of the zone state machine that a management action may take.\<close>

fun zone_next :: "nat \<Rightarrow> zone_state \<Rightarrow> zone_state option" where
  "zone_next action st =
     (if action = 1 then
        (if st \<in> {ZONE_STATE_OPENED_IMPL, ZONE_STATE_OPENED_EXPL, ZONE_STATE_CLOSED}
         then Some ZONE_STATE_CLOSED else None)
      else if st = ZONE_STATE_READ_ONLY then (if action = 5 then Some ZONE_STATE_OFFLINE else None)
      else if st = ZONE_STATE_OFFLINE then (if action = 5 then Some ZONE_STATE_OFFLINE else None)
      else if action = 2 then Some ZONE_STATE_FULL
      else if action = 3 then (if st = ZONE_STATE_FULL then None else Some ZONE_STATE_OPENED_EXPL)
      else if action = 4 then Some ZONE_STATE_EMPTY
      else None)"

definition only_zone :: "nat \<Rightarrow> zns_ftl \<Rightarrow> zns_ftl \<Rightarrow> bool" where
  "only_zone z ftl ftl' \<longleftrightarrow> (\<exists>d. zone_descs ftl' = (zone_descs ftl)(z := d))"

lemma zone_step_only: "zone_step z d ftl ftl' \<Longrightarrow> only_zone z ftl ftl'"
  by (auto simp: zone_step_def only_zone_def)

lemma only_zone_other: "only_zone z ftl ftl' \<Longrightarrow> y \<noteq> z \<Longrightarrow> zone_descs ftl' y = zone_descs ftl y"
  by (auto simp: only_zone_def)

lemma first_open_descs:
  "zone_descs (first_open z b st ftl) z = (zone_descs ftl z)\<lparr>zd_zrwav := b \<or> zd_zrwav (zone_descs ftl z), zd_state := st\<rparr>"
  "y \<noteq> z \<Longrightarrow> zone_descs (first_open z b st ftl) y = zone_descs ftl y"
  by (cases b; simp add: first_open_def Let_def)+

lemma send1_table:
  assumes inv: "zns_inv ftl" and z: "z < nr_zones (zp ftl)" "z = lba_to_zone ftl slba" and a: "action \<in> {1, 2, 3, 4, 5}"
  shows "case zone_next action (zd_state (zone_descs ftl z)) of
      None \<Rightarrow> zmgmt_send1 slba action opt ftl = Some (Some NVME_SC_ZNS_INVALID_TRANSITION, ftl)
    | Some st \<Rightarrow> \<exists>ftl'. zmgmt_send1 slba action opt ftl = Some (Some NVME_SC_SUCCESS, ftl') \<and>
        zd_state (zone_descs ftl' z) = st \<and> (\<forall>y. y \<noteq> z \<longrightarrow> zone_descs ftl' y = zone_descs ftl y)"
  using a open_zone_eq [OF inv z(1), of opt] first_open_descs [where z = z and b = opt and st = ZONE_STATE_OPENED_EXPL and ftl = ftl]
  by (elim insertE; cases "zd_state (zone_descs ftl z)")
    (simp_all add: zmgmt_send1_def Let_def z(2) [symmetric] zmgmt_send_close_zone_def zmgmt_send_finish_zone_def
      zmgmt_send_reset_zone_def zmgmt_send_offline_zone_def)

text \<open>Resetting: the zone starts over and exactly its bytes are cleared.\<close>

definition resettable :: "zone_descriptor \<Rightarrow> bool" where
  "resettable d \<longleftrightarrow> zd_state d \<notin> {ZONE_STATE_READ_ONLY, ZONE_STATE_OFFLINE}"

definition reset_desc :: "zone_descriptor \<Rightarrow> zone_descriptor" where
  "reset_desc d = d\<lparr>zd_state := ZONE_STATE_EMPTY, zd_wp := zd_zslba d, zd_zrwav := False\<rparr>"

lemma storage_frame [simp]:
  "storage (release_zone_resource ty ftl) = storage ftl" "storage (change_zone_state z st ftl) = storage ftl"
  "storage (release_active z ftl) = storage ftl"
  by (simp_all add: release_active_def Let_def release_zone_resource_def set_acquired_def change_zone_state_def
      upd_zone_def)

lemma storage_reset_zone: "storage (reset_zone z ftl) =
  (\<lambda>a. if z * zone_size (zp ftl) \<le> a \<and> a < z * zone_size (zp ftl) + zone_size (zp ftl) then 0 else storage ftl a)"
  by (simp add: reset_zone_def Let_def upd_zone_def)

lemma reset_zone_effect:
  "zone_descs (snd (zmgmt_send_reset_zone z ftl)) =
     (if resettable (zone_descs ftl z) then (zone_descs ftl)(z := reset_desc (zone_descs ftl z)) else zone_descs ftl)"
  "storage (snd (zmgmt_send_reset_zone z ftl)) =
     (\<lambda>a. if resettable (zone_descs ftl z) \<and> z * zone_size (zp ftl) \<le> a \<and>
            a < z * zone_size (zp ftl) + zone_size (zp ftl) then 0 else storage ftl a)"
proof -
  show "zone_descs (snd (zmgmt_send_reset_zone z ftl)) =
     (if resettable (zone_descs ftl z) then (zone_descs ftl)(z := reset_desc (zone_descs ftl z)) else zone_descs ftl)"
    by (cases "zd_state (zone_descs ftl z)") (simp_all add: zmgmt_send_reset_zone_def resettable_def reset_desc_def)
  show "storage (snd (zmgmt_send_reset_zone z ftl)) =
     (\<lambda>a. if resettable (zone_descs ftl z) \<and> z * zone_size (zp ftl) \<le> a \<and>
            a < z * zone_size (zp ftl) + zone_size (zp ftl) then 0 else storage ftl a)"
    by (cases "zd_state (zone_descs ftl z)")
      (simp_all add: zmgmt_send_reset_zone_def resettable_def storage_reset_zone cong: if_cong)
qed

lemma reset_all:
  assumes "zns_inv ftl" and "\<forall>z \<in> set zs. z < nr_zones (zp ftl)" and "distinct zs"
  shows "\<exists>ftl'. zmgmt_send_all 4 opt zs ftl = Some ftl' \<and> zns_inv ftl' \<and> zp ftl' = zp ftl \<and>
    (\<forall>y. zone_descs ftl' y = (if y \<in> set zs \<and> resettable (zone_descs ftl y)
       then reset_desc (zone_descs ftl y) else zone_descs ftl y)) \<and>
    (\<forall>a. storage ftl' a = (if \<exists>z \<in> set zs. resettable (zone_descs ftl z) \<and> z * zone_size (zp ftl) \<le> a \<and>
       a < z * zone_size (zp ftl) + zone_size (zp ftl) then 0 else storage ftl a))"
  using assms
proof (induction zs arbitrary: ftl)
  case (Cons z zs)
  let ?f = "snd (zmgmt_send_reset_zone z ftl)"
  have z: "z < nr_zones (zp ftl)" and inv: "zns_inv ftl" using Cons.prems by auto
  have s: "zmgmt_send1 (zone_to_slba ftl z) 4 opt ftl = Some (Some (fst (zmgmt_send_reset_zone z ftl)), ?f)"
    using zone_to_slba_eq(3) [OF inv z] by (simp add: zmgmt_send1_def map_prod_def case_prod_beta)
  have zs: "zone_descs ?f y = zone_descs ftl y" if "y \<in> set zs" for y
    using that Cons.prems(3) by (auto simp: reset_zone_effect(1))
  from Cons.IH [OF reset_zone_inv [OF inv z]] Cons.prems(2,3) obtain ftl' where
    ih: "zmgmt_send_all 4 opt zs ?f = Some ftl'" "zns_inv ftl'" "zp ftl' = zp ftl"
      "\<And>y. zone_descs ftl' y = (if y \<in> set zs \<and> resettable (zone_descs ?f y)
         then reset_desc (zone_descs ?f y) else zone_descs ?f y)"
      "\<And>a. storage ftl' a = (if \<exists>z \<in> set zs. resettable (zone_descs ?f z) \<and> z * zone_size (zp ftl) \<le> a \<and>
         a < z * zone_size (zp ftl) + zone_size (zp ftl) then 0 else storage ?f a)"
    by auto
  have "zone_descs ftl' y = (if y \<in> set (z # zs) \<and> resettable (zone_descs ftl y)
      then reset_desc (zone_descs ftl y) else zone_descs ftl y)" for y
    using Cons.prems(3) zs unfolding ih(4) by (auto simp: reset_zone_effect(1))
  moreover have "storage ftl' a = (if \<exists>z \<in> set (z # zs). resettable (zone_descs ftl z) \<and>
      z * zone_size (zp ftl) \<le> a \<and> a < z * zone_size (zp ftl) + zone_size (zp ftl) then 0 else storage ftl a)" for a
  proof -
    have "(\<exists>z \<in> set zs. resettable (zone_descs ?f z) \<and> z * zone_size (zp ftl) \<le> a \<and>
         a < z * zone_size (zp ftl) + zone_size (zp ftl)) \<longleftrightarrow>
       (\<exists>z \<in> set zs. resettable (zone_descs ftl z) \<and> z * zone_size (zp ftl) \<le> a \<and>
         a < z * zone_size (zp ftl) + zone_size (zp ftl))" using zs by (intro bex_cong) simp_all
    then show ?thesis unfolding ih(5) by (auto simp: reset_zone_effect(2))
  qed
  ultimately show ?case using s ih(1-3) by auto
qed simp

definition demo_cmd :: "u8 \<Rightarrow> u32 \<Rightarrow> u32 \<Rightarrow> u32 \<Rightarrow> nvme_command" where
  "demo_cmd op d10 d12 d13 = \<lparr>c_opcode = op, c_flags = 0, c_command_id = 1, c_nsid = 1, c_cdw2 = 0, c_cdw3 = 0,
     c_metadata = 0, c_prp1 = 0, c_prp2 = 0, c_cdw10 = d10, c_cdw11 = 0, c_cdw12 = d12, c_cdw13 = d13,
     c_cdw14 = 0, c_cdw15 = 0\<rparr>"

lemma demo_ftl_simps [simp]: "zp demo_ftl = demo_zp" "sp (z_ssd demo_ftl) = demo_spp"
  "zone_descs demo_ftl = init_descriptor demo_zp" "storage demo_ftl = (\<lambda>_. 7)"
  by (simp_all add: demo_ftl_def zns_init_ftl_def ssd_init_def)

lemma demo_secsz [simp]: "secsz demo_spp = 512"
  by (simp add: demo_spp_def ssd_init_params_def Let_def SAMSUNG_970PRO_def)

lemma zmgmt_send_keeps:
  assumes "zns_inv ftl" and "zsa cmd = 0x11 \<longrightarrow> flush_safe ftl"
    and "select_all cmd \<or> lba_to_zone ftl (unat (rw_slba cmd)) < nr_zones (zp ftl)"
  shows "\<exists>res ftl'. zns_zmgmt_send cmd now ftl = Some (res, ftl') \<and> zns_inv ftl' \<and> zr_nsecs_target res = now \<and>
    (select_all cmd \<longrightarrow> zr_status res = Some NVME_SC_SUCCESS) \<and> zp ftl' = zp ftl \<and> z_ssd ftl' = z_ssd ftl"
proof (cases "select_all cmd")
  case True
  then show ?thesis
    using zmgmt_send_all_inv [OF assms(1,2), of "[0..<nr_zones (zp ftl)]" "zsaso cmd"]
    by (auto simp: zns_zmgmt_send_def)
next
  case False
  then show ?thesis
    using zmgmt_send1_inv [OF assms(1) _ assms(2), of "unat (rw_slba cmd)" "zsaso cmd"] assms(3)
    by (auto simp: zns_zmgmt_send_def)
qed

text \<open>
  C34: Zone management, on a namespace of fewer than \<open>2 ^ 32\<close> blocks. Any management command on a zone in range, or on all zones, completes and
  keeps the invariant, with and without random write areas; only for an explicit flush it is required that
  flush groups are configured or, with neither flush groups nor random write areas, that zone 0 is not an
  unwritten zone that was opened with one (that flush divides by zero). The invariant: the acquired active, open and random-write-area resources are exactly the
  zones in the corresponding states, so no counter wraps around, and every write pointer stays in
  its zone.
\<close>

theorem zns_zmgmt_send_inv:
  assumes "zns_inv ftl" and "zsa cmd = 0x11 \<longrightarrow> flush_safe ftl"
    and "select_all cmd \<or> lba_to_zone ftl (unat (rw_slba cmd)) < nr_zones (zp ftl)"
  shows "\<exists>res ftl'. zns_zmgmt_send cmd now ftl = Some (res, ftl') \<and> zns_inv ftl' \<and> zr_nsecs_target res = now \<and>
    (select_all cmd \<longrightarrow> zr_status res = Some NVME_SC_SUCCESS)"
  using zmgmt_send_keeps [OF assms, of now] by blast

theorem zns_zmgmt_send_inv_witness:
  "(\<exists>res ftl'. zns_zmgmt_send (demo_cmd 0x79 256 0 3) 9 demo_ftl = Some (res, ftl') \<and> zns_inv ftl') \<and>
   (\<exists>res ftl'. zns_zmgmt_send (demo_cmd 0x79 0 0 0x111) 9 demo_ftl = Some (res, ftl') \<and> zns_inv ftl')"
proof -
  have "lba_to_zone demo_ftl (unat (rw_slba (demo_cmd 0x79 256 0 3))) = 1"
    by (simp add: lba_to_zone_def demo_zp_def rw_slba_def demo_cmd_def)
  then have o: "select_all (demo_cmd 0x79 256 0 3) \<or>
      lba_to_zone demo_ftl (unat (rw_slba (demo_cmd 0x79 256 0 3))) < nr_zones (zp demo_ftl)"
    by (simp add: demo_zp_def)
  have f: "flush_safe demo_ftl" by (simp add: flush_safe_def init_descriptor_def) (simp add: demo_zp_def)
  have "select_all (demo_cmd 0x79 0 0 0x111)" by (simp add: select_all_def demo_cmd_def)
  then show ?thesis
    using zns_zmgmt_send_inv [OF demo_ftl_inv _ o, of 9] zns_zmgmt_send_inv [OF demo_ftl_inv, of "demo_cmd 0x79 0 0 0x111" 9] f by blast
qed

text \<open>
  C35: The zone state machine. In a state that satisfies the invariant, close, finish, open, reset
  and offline follow the transition table: an allowed transition succeeds, leaves the zone in the
  table's state and no other zone changed; a forbidden one is answered with an invalid transition and
  changes nothing.
\<close>

theorem zone_transition_table:
  assumes "zns_inv ftl" and "lba_to_zone ftl slba < nr_zones (zp ftl)" and "action \<in> {1, 2, 3, 4, 5}"
  shows "case zone_next action (zd_state (zone_descs ftl (lba_to_zone ftl slba))) of
      None \<Rightarrow> zmgmt_send1 slba action opt ftl = Some (Some NVME_SC_ZNS_INVALID_TRANSITION, ftl)
    | Some st \<Rightarrow> \<exists>ftl'. zmgmt_send1 slba action opt ftl = Some (Some NVME_SC_SUCCESS, ftl') \<and>
        zd_state (zone_descs ftl' (lba_to_zone ftl slba)) = st \<and>
        (\<forall>y. y \<noteq> lba_to_zone ftl slba \<longrightarrow> zone_descs ftl' y = zone_descs ftl y)"
  by (rule send1_table [OF assms(1,2) refl assms(3)])

theorem zone_transition_table_witness:
  "zmgmt_send1 256 1 False demo_ftl = Some (Some NVME_SC_ZNS_INVALID_TRANSITION, demo_ftl) \<and>
   (\<exists>ftl'. zmgmt_send1 256 3 False demo_ftl = Some (Some NVME_SC_SUCCESS, ftl') \<and>
      zd_state (zone_descs ftl' 1) = ZONE_STATE_OPENED_EXPL)"
proof -
  have z: "lba_to_zone demo_ftl 256 = 1" by (simp add: lba_to_zone_def demo_zp_def)
  then have "lba_to_zone demo_ftl 256 < nr_zones (zp demo_ftl)" by (simp add: demo_zp_def)
  note t = zone_transition_table [OF demo_ftl_inv this]
  from t [of 1 False] t [of 3 False] z show ?thesis by (auto simp: init_descriptor_def)
qed

text \<open>
  Reset of all zones. The command completes; every zone that is neither read-only nor offline is
  empty again with its write pointer at its start and without a random write area; exactly the bytes
  of those zones read as zero afterwards, and every other zone and byte is unchanged.
\<close>

theorem reset_all_zones:
  assumes "zns_inv ftl" and "select_all cmd" and "zsa cmd = 4"
  shows "\<exists>res ftl'. zns_zmgmt_send cmd now ftl = Some (res, ftl') \<and> zr_status res = Some NVME_SC_SUCCESS \<and>
    zns_inv ftl' \<and>
    (\<forall>z < nr_zones (zp ftl). zone_descs ftl' z =
       (if resettable (zone_descs ftl z) then reset_desc (zone_descs ftl z) else zone_descs ftl z)) \<and>
    (\<forall>a. storage ftl' a =
       (if \<exists>z < nr_zones (zp ftl). resettable (zone_descs ftl z) \<and> z * zone_size (zp ftl) \<le> a \<and>
           a < z * zone_size (zp ftl) + zone_size (zp ftl) then 0 else storage ftl a))"
  using reset_all [OF assms(1), of "[0..<nr_zones (zp ftl)]" "zsaso cmd"] assms(2,3)
  by (auto simp: zns_zmgmt_send_def Bex_def)

theorem reset_all_zones_witness:
  "\<exists>res ftl'. zns_zmgmt_send (demo_cmd 0x79 0 0 0x104) 9 demo_ftl = Some (res, ftl') \<and> storage ftl' 524287 = 0 \<and>
     storage ftl' 524288 = 7"
proof -
  have "select_all (demo_cmd 0x79 0 0 0x104)" "zsa (demo_cmd 0x79 0 0 0x104) = 4"
    by (simp_all add: select_all_def zsa_def demo_cmd_def)
  have p: "nr_zones demo_zp = 4" "zone_size demo_zp = 131072" by (simp_all add: demo_zp_def)
  from reset_all_zones [OF demo_ftl_inv \<open>select_all _\<close> \<open>zsa _ = 4\<close>, of 9] obtain res ftl' where
    r: "zns_zmgmt_send (demo_cmd 0x79 0 0 0x104) 9 demo_ftl = Some (res, ftl')"
    "\<And>a. storage ftl' a = (if \<exists>z < 4. resettable (init_descriptor demo_zp z) \<and> z * 131072 \<le> a \<and>
           a < z * 131072 + 131072 then 0 else 7)"
    unfolding demo_ftl_simps p by metis
  have "resettable (init_descriptor demo_zp 3)" by (simp add: resettable_def init_descriptor_def)
  then have "\<exists>z < 4. resettable (init_descriptor demo_zp z) \<and> z * 131072 \<le> 524287 \<and> 524287 < z * 131072 + (131072 :: nat)"
    by (intro exI [of _ 3]) simp
  moreover have "\<not> (\<exists>z < 4. resettable (init_descriptor demo_zp z) \<and> z * 131072 \<le> 524288 \<and> 524288 < z * 131072 + (131072 :: nat))"
    by auto
  ultimately have "storage ftl' 524287 = 0" "storage ftl' 524288 = 7" by (simp_all only: r(2) if_True if_False)
  with r(1) show ?thesis by blast
qed

end
