(* ===== verification/ZNS_Writes.thy ===== *)
theory ZNS_Writes
  imports ZNS_Zones
begin

text \<open>
  Sequential writes and appends of the zoned namespace (\<^verbatim>\<open>zns_read_write.c\<close>): the page loop
  returns, a write succeeds exactly when it starts at the write pointer, fits its zone and the zone is
  writable, and the invariant of \<open>ZNS_Zones\<close> is kept on every path; which bytes of the write buffer an
  aligned write hands back; the command dispatch of \<^verbatim>\<open>zns_ftl.c\<close>.
\<close>

section \<open>What the timing model leaves alone\<close>

definition zns_keep :: "zns_ftl \<Rightarrow> zns_ftl \<Rightarrow> bool" where
  "zns_keep ftl ftl' \<longleftrightarrow> zp ftl' = zp ftl \<and> sp (z_ssd ftl') = sp (z_ssd ftl) \<and> res_infos ftl' = res_infos ftl \<and>
     zone_descs ftl' = zone_descs ftl \<and> storage ftl' = storage ftl"

lemma zns_keep_refl [simp]: "zns_keep ftl ftl"
  by (simp add: zns_keep_def)

lemma zns_keep_trans: "zns_keep a b \<Longrightarrow> zns_keep b c \<Longrightarrow> zns_keep a c"
  by (simp add: zns_keep_def)

lemma zns_inv_keep: "zns_keep ftl ftl' \<Longrightarrow> zns_inv ftl \<Longrightarrow> zns_inv ftl'"
  using zone_ok_cong [of ftl' ftl] by (simp add: zns_inv_def zns_keep_def res_count_def)

lemma zns_keep_addr:
  assumes "zns_keep ftl ftl'"
  shows "lba_to_zone ftl' = lba_to_zone ftl" "zone_to_slba ftl' = zone_to_slba ftl"
    "lba_to_lpn ftl' = lba_to_lpn ftl" "zns_lpn_to_ppa ftl' = zns_lpn_to_ppa ftl"
proof -
  have e: "zp ftl' = zp ftl" "sp (z_ssd ftl') = sp (z_ssd ftl)" using assms by (simp_all add: zns_keep_def)
  show "lba_to_zone ftl' = lba_to_zone ftl" "zone_to_slba ftl' = zone_to_slba ftl" "lba_to_lpn ftl' = lba_to_lpn ftl"
    by (intro ext, simp only: lba_to_zone_def zone_to_slba_def lba_to_lpn_def e)+
  show "zns_lpn_to_ppa ftl' = zns_lpn_to_ppa ftl"
    by (intro ext, simp only: zns_lpn_to_ppa_def lpn_to_zone_def zone_to_slpn_def die_to_lun_def die_to_channel_def e)
qed

lemma on_ssd_ok:
  assumes "\<exists>t ssd'. f (z_ssd ftl) = Some (t, ssd') \<and> P t \<and> ssd_inv ssd' \<and> same_flash (z_ssd ftl) ssd'"
  shows "\<exists>t ftl'. on_ssd f ftl = Some (t, ftl') \<and> P t \<and> ssd_inv (z_ssd ftl') \<and> zns_keep ftl ftl' \<and>
    z_sched ftl' = z_sched ftl"
  using assms by (auto simp: on_ssd_def zns_keep_def same_flash_def)

lemma zns_ppa_mapped: "zns_lpn_to_ppa ftl lpn \<noteq> UNMAPPED_PPA"
  by (simp add: zns_lpn_to_ppa_def UNMAPPED_PPA_def Let_def)

lemma zns_pg_off: "0 < ppo \<Longrightarrow> 0 < min (elpn - lpn + 1) (ppo - p mod (ppo :: nat))"
  using mod_less_divisor [of ppo p] by linarith

section \<open>The page loop\<close>

definition ops_for :: "nat \<Rightarrow> zbuf \<Rightarrow> nat \<Rightarrow> nat \<Rightarrow> sched_op list \<Rightarrow> bool" where
  "ops_for sqid wb t0 t ops \<longleftrightarrow>
     (\<forall>op \<in> set ops. so_sqid op = sqid \<and> so_buf op = wb \<and> t0 \<le> so_target op \<and> so_target op \<le> t)"

lemma zns_write_loop_ok:
  assumes "ssd_inv (z_ssd ftl)" and "0 < pgs_per_oneshotpg (sp (z_ssd ftl))" and "xc \<le> latest"
  shows "\<exists>t ftl' ops. zns_write_loop sqid wb xc zelpn elpn lpn latest ftl = Some (t, ftl') \<and> latest \<le> t \<and>
    ssd_inv (z_ssd ftl') \<and> zns_keep ftl ftl' \<and> z_sched ftl' = z_sched ftl @ ops \<and> ops_for sqid wb xc t ops"
  using assms
proof (induction "elpn + 1 - lpn" arbitrary: lpn latest ftl rule: less_induct)
  case less
  let ?spp = "sp (z_ssd ftl)"
  let ?ppo = "pgs_per_oneshotpg ?spp"
  let ?ppa = "zns_lpn_to_ppa ftl lpn"
  let ?off = "p_pg ?ppa mod ?ppo"
  let ?pgs = "min (elpn - lpn + 1) (?ppo - ?off)"
  let ?ncmd = "\<lparr>nc_cmd = NAND_WRITE, nc_xfer_size = ?ppo * pgsz ?spp, nc_stime = xc,
    nc_interleave_pci_dma = False, nc_ppa = ?ppa\<rparr>"
  note step = zns_write_loop.simps [of sqid wb xc zelpn elpn lpn latest ftl]
  consider "\<not> lpn \<le> elpn" | "lpn \<le> elpn" "?off + ?pgs = ?ppo \<or> lpn + ?pgs - 1 = zelpn"
    | "lpn \<le> elpn" "\<not> (?off + ?pgs = ?ppo \<or> lpn + ?pgs - 1 = zelpn)" by blast
  then show ?case
  proof cases
    case 1
    then show ?thesis using less.prems by (auto simp: step ops_for_def)
  next
    case 2
    have dec: "elpn + 1 - (lpn + ?pgs) < elpn + 1 - lpn"
      using zns_pg_off [OF less.prems(2), of elpn lpn "p_pg ?ppa"] 2(1) by linarith
    have "\<exists>t ssd'. ssd_advance_nand ?ncmd (z_ssd ftl) = Some (t, ssd') \<and> xc \<le> t \<and> ssd_inv ssd' \<and>
        same_flash (z_ssd ftl) ssd'"
      using ssd_advance_nand_ok [OF less.prems(1), of ?ncmd] zns_ppa_mapped by auto
    from on_ssd_ok [where P = "(\<le>) xc" and f = "ssd_advance_nand ?ncmd" and ftl = ftl, OF this] obtain c f where
      c: "on_ssd (ssd_advance_nand ?ncmd) ftl = Some (c, f)" "xc \<le> c" "ssd_inv (z_ssd f)" "zns_keep ftl f"
        "z_sched f = z_sched ftl" by blast
    define bufs where "bufs = (if lpn + ?pgs - 1 = zelpn \<and> zone_size (zp f) mod (?ppo * pgsz ?spp) > 0
      then zone_size (zp f) mod (?ppo * pgsz ?spp) else ?ppo * pgsz ?spp)"
    define op where "op = \<lparr>so_sqid = sqid, so_target = c, so_buf = wb, so_release = bufs\<rparr>"
    define g where "g = f\<lparr>z_sched := z_sched f @ [op]\<rparr>"
    have keep: "zns_keep ftl g" "ssd_inv (z_ssd g)" using c by (simp_all add: g_def zns_keep_def)
    have eq: "zns_write_loop sqid wb xc zelpn elpn lpn latest ftl =
        zns_write_loop sqid wb xc zelpn elpn (lpn + ?pgs) (max c latest) g"
      using 2 c(1) by (subst step) (simp add: Let_def bufs_def g_def op_def)
    have "0 < pgs_per_oneshotpg (sp (z_ssd g))" "xc \<le> max c latest"
      using less.prems keep c(2) by (auto simp: zns_keep_def)
    from less.hyps [OF dec keep(2) this] obtain t ftl' ops where
      ih: "zns_write_loop sqid wb xc zelpn elpn (lpn + ?pgs) (max c latest) g = Some (t, ftl')"
        "max c latest \<le> t" "ssd_inv (z_ssd ftl')" "zns_keep g ftl'" "z_sched ftl' = z_sched g @ ops"
        "ops_for sqid wb xc t ops" by blast
    have "z_sched ftl' = z_sched ftl @ (op # ops)" "ops_for sqid wb xc t (op # ops)"
      using ih c by (auto simp: g_def ops_for_def op_def)
    then show ?thesis unfolding eq ih(1) using ih(2,3) zns_keep_trans [OF keep(1) ih(4)] by auto
  next
    case 3
    have dec: "elpn + 1 - (lpn + ?pgs) < elpn + 1 - lpn"
      using zns_pg_off [OF less.prems(2), of elpn lpn "p_pg ?ppa"] 3(1) by linarith
    have "zns_write_loop sqid wb xc zelpn elpn lpn latest ftl =
        zns_write_loop sqid wb xc zelpn elpn (lpn + ?pgs) latest ftl"
      using 3 by (subst step) (simp add: Let_def)
    then show ?thesis using less.hyps [OF dec less.prems] by simp
  qed
qed

section \<open>Opening a zone by a write\<close>

lemma write_open_eq:
  assumes inv: "zns_inv ftl" and z: "z < nr_zones (zp ftl)" and wp: "slba = zd_wp (zone_descs ftl z)"
  shows "write_open z slba ftl =
    (case zd_state (zone_descs ftl z) of
       ZONE_STATE_EMPTY \<Rightarrow> Inr (first_open z False ZONE_STATE_OPENED_IMPL ftl)
     | ZONE_STATE_CLOSED \<Rightarrow> Inr (change_zone_state z ZONE_STATE_OPENED_IMPL (opened OPEN_ZONE ftl))
     | ZONE_STATE_OPENED_IMPL \<Rightarrow> Inr ftl
     | ZONE_STATE_OPENED_EXPL \<Rightarrow> Inr ftl
     | ZONE_STATE_FULL \<Rightarrow> Inl (NVME_SC_ZNS_ERR_FULL, ftl)
     | ZONE_STATE_READ_ONLY \<Rightarrow> Inl (NVME_SC_ZNS_ERR_READ_ONLY, ftl)
     | ZONE_STATE_OFFLINE \<Rightarrow> Inl (NVME_SC_ZNS_ERR_OFFLINE, ftl))"
proof (cases "zd_state (zone_descs ftl z) = ZONE_STATE_EMPTY")
  case True
  have nh: "\<not> holds_res ty (zone_descs ftl z)" for ty using True by (cases ty) (simp_all add: holds_defs)
  have lt: "acquired_cnt (res_infos ftl ty) < total_cnt (res_infos ftl ty)" "total_cnt (res_infos ftl ty) < 2 ^ 32" for ty
    using res_count_less [OF inv z nh] zns_invD(2) [OF inv z] .
  have "acquired_cnt (res_infos (opened ACTIVE_ZONE ftl) OPEN_ZONE) = acquired_cnt (res_infos ftl OPEN_ZONE)"
    using opened_cnt(2) [OF lt] by simp
  then have "acquire_zone_resource OPEN_ZONE (opened ACTIVE_ZONE ftl) = (True, opened OPEN_ZONE (opened ACTIVE_ZONE ftl))"
    using lt [of OPEN_ZONE] by (intro opened_cnt(1)) simp_all
  moreover have "slba = zd_zslba (zone_descs ftl z)"
    using zns_invD(1) [OF inv z] True wp by (simp add: zone_ok_def)
  ultimately show ?thesis
    using True not_full [OF inv z nh]
    by (simp add: write_open_def first_open_def Let_def opened_def [symmetric])
next
  case False
  then show ?thesis
    using reopen_step(2) [OF inv z, of ZONE_STATE_OPENED_IMPL]
    by (simp add: write_open_def split: zone_state.split)
qed

text \<open>A writable zone is open after the switch, and the step keeps the invariant.\<close>

definition writable :: "zone_descriptor \<Rightarrow> bool" where
  "writable d \<longleftrightarrow> zd_state d = ZONE_STATE_EMPTY \<or> is_active d"

definition open_desc :: "zone_descriptor \<Rightarrow> zone_descriptor" where
  "open_desc d = (if is_open d then d else d\<lparr>zd_state := ZONE_STATE_OPENED_IMPL\<rparr>)"

lemma open_desc_simps [simp]:
  "zd_wp (open_desc d) = zd_wp d" "zd_zslba (open_desc d) = zd_zslba d" "zd_capacity (open_desc d) = zd_capacity d"
  "zd_zrwav (open_desc d) = zd_zrwav d" "is_open (open_desc d)" "is_active (open_desc d)"
  by (auto simp: open_desc_def is_open_def is_active_def)

lemma write_open_ok:
  assumes inv: "zns_inv ftl" and z: "z < nr_zones (zp ftl)" and wp: "slba = zd_wp (zone_descs ftl z)"
    and w: "writable (zone_descs ftl z)" and nz: "\<not> zd_zrwav (zone_descs ftl z)"
  shows "\<exists>ftl'. write_open z slba ftl = Inr ftl' \<and> zone_step z (open_desc (zone_descs ftl z)) ftl ftl' \<and> zns_inv ftl' \<and>
    z_ssd ftl' = z_ssd ftl \<and> z_sched ftl' = z_sched ftl"
proof -
  let ?d = "zone_descs ftl z"
  note ok = zone_ok_open [OF zns_invD(1) [OF inv z], of ZONE_STATE_OPENED_IMPL, simplified]
  have fr: "z_ssd (first_open z False st ftl) = z_ssd ftl" "z_sched (first_open z False st ftl) = z_sched ftl"
    "z_sched (change_zone_state z st (opened ty ftl)) = z_sched ftl" for st ty
    by (simp_all add: first_open_def opened_def acquire_zone_resource_def set_acquired_def change_zone_state_def upd_zone_def)
  consider "zd_state ?d = ZONE_STATE_EMPTY" | "zd_state ?d = ZONE_STATE_CLOSED" | "is_open ?d"
    using w by (auto simp: writable_def is_active_def)
  then show ?thesis
  proof cases
    case 1
    then have d: "open_desc ?d = ?d\<lparr>zd_zrwav := False, zd_state := ZONE_STATE_OPENED_IMPL\<rparr>"
      using nz by (simp add: open_desc_def is_open_def)
    have st: "zone_step z (open_desc ?d) ftl (first_open z False ZONE_STATE_OPENED_IMPL ftl)"
      unfolding d by (rule first_open_step [OF inv z 1]) simp
    have "zone_ok ftl z (open_desc ?d)" unfolding d using ok 1 by simp
    from zns_inv_step [OF inv z st this] st show ?thesis
      using write_open_eq [OF inv z wp] 1 fr by (intro exI [of _ "first_open z False ZONE_STATE_OPENED_IMPL ftl"]) simp
  next
    case 2
    then have d: "open_desc ?d = ?d\<lparr>zd_state := ZONE_STATE_OPENED_IMPL\<rparr>" "is_active ?d"
      by (simp_all add: open_desc_def is_open_def is_active_def)
    let ?f = "change_zone_state z ZONE_STATE_OPENED_IMPL (opened OPEN_ZONE ftl)"
    have st: "zone_step z (open_desc ?d) ftl ?f"
      unfolding d(1) by (rule reopen_step(1) [OF inv z 2]) simp
    have "zone_ok ftl z (open_desc ?d)" unfolding d(1) using ok d(2) by simp
    from zns_inv_step [OF inv z st this] st show ?thesis
      using write_open_eq [OF inv z wp] 2 fr by (intro exI [of _ ?f]) simp
  next
    case 3
    then have "open_desc ?d = ?d" "write_open z slba ftl = Inr ftl"
      using write_open_eq [OF inv z wp] by (auto simp: open_desc_def is_open_def)
    then show ?thesis using zone_step_refl [of z ftl] inv by simp
  qed
qed

lemma write_open_reject:
  assumes "zns_inv ftl" and "z < nr_zones (zp ftl)" and "slba = zd_wp (zone_descs ftl z)"
    and "\<not> writable (zone_descs ftl z)"
  shows "\<exists>st. write_open z slba ftl = Inl (st, ftl) \<and> st \<noteq> NVME_SC_SUCCESS"
  using write_open_eq [OF assms(1-3)] assms(4)
  by (cases "zd_state (zone_descs ftl z)") (auto simp: writable_def is_active_def is_open_def zns_status_defs)

text \<open>Advancing the write pointer: the zone is full exactly when the pointer reaches its end.\<close>

definition advanced :: "nat \<Rightarrow> zone_descriptor \<Rightarrow> zone_descriptor" where
  "advanced n d = (let d = d\<lparr>zd_wp := zd_wp d + n\<rparr> in
     if zd_wp d = zd_zslba d + zd_capacity d then d\<lparr>zd_state := ZONE_STATE_FULL\<rparr> else d)"

lemma increase_write_ptr_step:
  assumes inv: "zns_inv ftl" and z: "z < nr_zones (zp ftl)" and op: "is_open (zone_descs ftl z)"
    and nz: "\<not> zd_zrwav (zone_descs ftl z)"
    and le: "zd_wp (zone_descs ftl z) + n \<le> zd_zslba (zone_descs ftl z) + zd_capacity (zone_descs ftl z)"
  shows "zone_step z (advanced n (zone_descs ftl z)) ftl (increase_write_ptr z n ftl)"
    and "zns_inv (increase_write_ptr z n ftl)"
    and "z_ssd (increase_write_ptr z n ftl) = z_ssd ftl" "z_sched (increase_write_ptr z n ftl) = z_sched ftl"
proof -
  let ?d = "zone_descs ftl z" and ?f = "upd_zone z (\<lambda>d. d\<lparr>zd_wp := zd_wp (zone_descs ftl z) + n\<rparr>) ftl"
  have ok: "zone_ok ftl z ?d" using zns_invD(1) [OF inv z] .
  have sl: "zone_to_slba ftl z = zd_zslba ?d" "zone_to_slba ?f z = zone_to_slba ftl z"
    using ok by (simp_all add: zone_ok_def zone_to_slba_def)
  have act: "is_active ?d" using op by (simp add: is_active_def)
  show st: "zone_step z (advanced n ?d) ftl (increase_write_ptr z n ftl)"
  proof (cases "zd_wp ?d + n = zd_zslba ?d + zd_capacity ?d")
    case True
    let ?g = "change_zone_state z ZONE_STATE_FULL (release_zone_resource ACTIVE_ZONE (release_zone_resource OPEN_ZONE ?f))"
    have eq: "increase_write_ptr z n ftl = ?g" using True sl by (simp add: increase_write_ptr_def Let_def)
    have "res_infos ?g = res_infos (release_active z ftl)"
      using op nz by (simp add: release_active_def Let_def is_open_def release_zone_resource_def set_acquired_def)
    then show ?thesis unfolding eq
      using True by (intro release_active_step [OF inv z act]) (simp_all add: advanced_def Let_def is_active_def is_open_def)
  next
    case False
    then have eq: "increase_write_ptr z n ftl = ?f" using sl by (simp add: increase_write_ptr_def Let_def)
    show ?thesis unfolding eq
      using False by (auto simp: zone_step_def advanced_def Let_def holds_defs split: zone_resource_type.split)
  qed
  have "zone_ok ftl z (advanced n ?d)"
    using ok le op by (auto simp: zone_ok_def advanced_def Let_def is_active_def is_open_def)
  from zns_inv_step [OF inv z st this] show "zns_inv (increase_write_ptr z n ftl)" .
  show "z_ssd (increase_write_ptr z n ftl) = z_ssd ftl" "z_sched (increase_write_ptr z n ftl) = z_sched ftl"
    by (simp_all add: increase_write_ptr_def Let_def upd_zone_def change_zone_state_def release_zone_resource_def
        set_acquired_def)
qed

section \<open>Where a write may start and end\<close>

lemma lba_to_zone_range:
  assumes inv: "zns_inv ftl" and z: "z < nr_zones (zp ftl)"
    and "zone_to_slba ftl z \<le> lba" "lba < zone_to_slba ftl z + zd_capacity (zone_descs ftl z)"
  shows "lba_to_zone ftl lba = z"
proof -
  let ?l = "zone_size (zp ftl) div secsz (sp (z_ssd ftl))"
  have "zd_capacity (zone_descs ftl z) = ?l" using zns_invD(1) [OF inv z] by (simp add: zone_ok_def)
  then have "lba div ?l = z"
    using assms(3,4) zone_to_slba_eq(1) [OF inv z] by (intro div_nat_eqI) (simp_all add: mult.commute)
  moreover have "z < 2 ^ 32" using inv z by (simp add: zns_inv_def)
  ultimately show ?thesis by (simp add: lba_to_zone_def)
qed

lemma boundary_iff:
  assumes inv: "zns_inv ftl" and z: "z < nr_zones (zp ftl)" and n: "0 < n" "n \<le> 2 ^ 16"
    and s: "zone_to_slba ftl z \<le> slba" "slba < zone_to_slba ftl z + zd_capacity (zone_descs ftl z)"
  shows "check_boundary_error ftl slba n \<longleftrightarrow> slba + n \<le> zone_to_slba ftl z + zd_capacity (zone_descs ftl z)"
proof
  let ?l = "zone_size (zp ftl) div secsz (sp (z_ssd ftl))" and ?e = "slba + n - 1"
  have l: "zd_capacity (zone_descs ftl z) = ?l" "0 < ?l" using zns_invD(1) [OF inv z] by (auto simp: zone_ok_def)
  have zs: "zone_to_slba ftl z = z * ?l" using zone_to_slba_eq(1) [OF inv z] .
  have b: "zone_to_slba ftl z + zd_capacity (zone_descs ftl z) < 2 ^ 32" using zone_to_slba_eq(2) [OF inv z] .
  assume "check_boundary_error ftl slba n"
  then have m: "(?e div ?l) mod 2 ^ 32 = z"
    using lba_to_zone_range [OF inv z s] by (simp add: check_boundary_error_def lba_to_zone_def)
  have "z * ?l \<le> ?e" using s zs n by linarith
  then have q: "z \<le> ?e div ?l" using l(2) by (simp add: less_eq_div_iff_mult_less_eq)
  have "z * ?l + ?l \<le> 2 ^ 32" using b zs l by linarith
  have "?e < z * ?l + ?l + 2 ^ 16" using s(2) n zs l by linarith
  also have "2 ^ 16 \<le> 2 ^ 16 * ?l" using l(2) by simp
  finally have "?e < (z + 1 + 2 ^ 16) * ?l" by (simp add: algebra_simps)
  then have "?e div ?l < z + 1 + 2 ^ 16" by (simp add: less_mult_imp_div_less)
  then have "?e div ?l - z < 2 ^ 32" by simp
  moreover have "2 ^ 32 dvd (?e div ?l - z)"
    using m q by (metis mod_eq_dvd_iff_nat mod_mod_trivial)
  ultimately have "?e div ?l = z" using q by (metis dvd_imp_le le_antisym linorder_not_le zero_less_diff)
  then have "?e < (z + 1) * ?l" using l(2) by (metis Suc_eq_plus1 dividend_less_div_times mult.commute mult_Suc)
  then show "slba + n \<le> zone_to_slba ftl z + zd_capacity (zone_descs ftl z)"
    using n(1) unfolding zs l(1) by (simp add: algebra_simps)
next
  assume "slba + n \<le> zone_to_slba ftl z + zd_capacity (zone_descs ftl z)"
  then have "lba_to_zone ftl (slba + n - 1) = z" using s n by (intro lba_to_zone_range [OF inv z]) linarith+
  then show "check_boundary_error ftl slba n"
    using lba_to_zone_range [OF inv z s] by (simp add: check_boundary_error_def)
qed

section \<open>The sequential write\<close>

definition w_zid :: "zns_request \<Rightarrow> zns_ftl \<Rightarrow> nat" where
  "w_zid req ftl = lba_to_zone ftl (unat (rw_slba (q_cmd req)))"

definition w_slba :: "zns_request \<Rightarrow> zns_ftl \<Rightarrow> nat" where
  "w_slba req ftl = (if c_opcode (q_cmd req) = nvme_cmd_zone_append then zd_wp (zone_descs ftl (w_zid req ftl))
     else unat (rw_slba (q_cmd req)))"

definition w_buf :: "zns_request \<Rightarrow> zns_ftl \<Rightarrow> zbuf" where
  "w_buf req ftl = (if zone_wb_size (zp ftl) \<noteq> 0 then Zone_wb (w_zid req ftl) else Global_wb)"

definition w_bytes :: "zns_request \<Rightarrow> nat" where
  "w_bytes req = nr_lbas_from_rw_cmd (q_cmd req) * 2 ^ 9"

lemmas w_defs = w_zid_def w_slba_def w_buf_def w_bytes_def

text \<open>When a write may take place.\<close>

definition write_accepts :: "zns_request \<Rightarrow> zns_ftl \<Rightarrow> bool" where
  "write_accepts req ftl \<longleftrightarrow>
     (let d = zone_descs ftl (w_zid req ftl) in
      w_bytes req mod write_unit_size (sp (z_ssd ftl)) = 0 \<and> w_slba req ftl = zd_wp d \<and> writable d \<and>
      w_slba req ftl + nr_lbas_from_rw_cmd (q_cmd req) \<le> zd_zslba d + zd_capacity d)"

lemma w_bytes_bound: "w_bytes req \<le> 2 ^ 25"
proof -
  have "unat (rw_length (q_cmd req)) < 2 ^ 16" using unsigned_less [of "rw_length (q_cmd req)", where ?'a = nat] by simp
  then show ?thesis by (simp add: w_bytes_def nr_lbas_from_rw_cmd_def)
qed

lemma set_buf_keep [simp]:
  "zns_keep ftl (set_buf b v ftl)" "z_sched (set_buf b v ftl) = z_sched ftl" "get_buf b (set_buf b v ftl) = v"
  "ssd_inv (z_ssd (set_buf b v ftl)) = ssd_inv (z_ssd ftl)"
  by (cases b; simp add: set_buf_def get_buf_def zns_keep_def ssd_inv_def)+

lemma set_get_buf [simp]: "set_buf b (get_buf b ftl) ftl = ftl"
  by (cases b) (simp_all add: set_buf_def get_buf_def)

lemma w_alloc:
  assumes "w_bytes req \<le> unat (b_size (get_buf b ftl))"
  shows "zns_buffer_allocate b (w_bytes req) ftl = Some
    (if w_bytes req \<le> unat (b_remaining (get_buf b ftl))
     then (w_bytes req, set_buf b ((get_buf b ftl)\<lparr>b_remaining := b_remaining (get_buf b ftl) - of_nat (w_bytes req)\<rparr>) ftl)
     else (0, ftl))"
proof -
  let ?w = "of_nat (w_bytes req) :: u64"
  have u: "unat ?w = w_bytes req" using w_bytes_bound [of req] by (simp add: unat_of_nat)
  have "unat (ucast ?w :: u32) = w_bytes req" using w_bytes_bound [of req] u by (simp add: unsigned_ucast_eq take_bit_nat_eq_self)
  moreover have "(get_buf b ftl)\<lparr>b_remaining := b_remaining (get_buf b ftl)\<rparr> = get_buf b ftl" by simp
  ultimately show ?thesis
    using assms u by (simp add: zns_buffer_allocate_def buffer_allocate_def Let_def word_le_nat_alt word_less_nat_alt)
qed

lemma write_seq_eq:
  assumes "w_bytes req \<le> unat (b_size (get_buf (w_buf req ftl) ftl))"
  shows "zns_write_seq req ftl =
    (if unat (b_remaining (get_buf (w_buf req ftl) ftl)) < w_bytes req
     then Some (\<lparr>o_ok = False, o_status = 0, o_nsecs_target = 0, o_slba = w_slba req ftl\<rparr>, ftl)
     else
       let f = set_buf (w_buf req ftl) ((get_buf (w_buf req ftl) ftl)\<lparr>b_remaining :=
                 b_remaining (get_buf (w_buf req ftl) ftl) - of_nat (w_bytes req)\<rparr>) ftl;
           n = nr_lbas_from_rw_cmd (q_cmd req); start = q_nsecs_start req; slba = w_slba req ftl in
       if w_bytes req mod write_unit_size (sp (z_ssd ftl)) \<noteq> 0
       then Some (write_out f (q_cmd req) NVME_SC_ZNS_INVALID_WRITE slba start start, f)
       else if \<not> check_boundary_error ftl slba n
       then Some (write_out f (q_cmd req) NVME_SC_ZNS_ERR_BOUNDARY slba start start, f)
       else if slba \<noteq> zd_wp (zone_descs ftl (w_zid req ftl))
       then Some (write_out f (q_cmd req) NVME_SC_ZNS_INVALID_WRITE slba start start, f)
       else case write_open (w_zid req ftl) slba f of
           Inl (st, f) \<Rightarrow> Some (write_out f (q_cmd req) st slba start start, f)
         | Inr f \<Rightarrow> do {
             (xc, f) \<leftarrow> on_ssd (ssd_advance_write_buffer start (w_bytes req)) (increase_write_ptr (w_zid req ftl) n f);
             (latest, f) \<leftarrow> zns_write_loop (q_sqid req) (w_buf req ftl) xc (zone_to_elpn f (w_zid req ftl))
               (lba_to_lpn f (slba + n - 1)) (lba_to_lpn f slba) xc f;
             Some (write_out f (q_cmd req) NVME_SC_SUCCESS slba latest xc, f)
           })"
proof -
  define f where "f = set_buf (w_buf req ftl) ((get_buf (w_buf req ftl) ftl)\<lparr>b_remaining :=
                 b_remaining (get_buf (w_buf req ftl) ftl) - of_nat (w_bytes req)\<rparr>) ftl"
  have k: "zns_keep ftl f" unfolding f_def by simp
  then have k': "sp (z_ssd f) = sp (z_ssd ftl)" "zone_descs f = zone_descs ftl"
    "check_boundary_error f = check_boundary_error ftl"
    using zns_keep_addr(1) [OF k] by (auto simp: zns_keep_def check_boundary_error_def fun_eq_iff)
  have pos: "0 < w_bytes req" by (simp add: w_bytes_def nr_lbas_from_rw_cmd_def)
  have a: "zns_buffer_allocate (w_buf req ftl) (w_bytes req) ftl = Some
    (if w_bytes req \<le> unat (b_remaining (get_buf (w_buf req ftl) ftl)) then (w_bytes req, f) else (0, ftl))"
    using w_alloc [OF assms] by (simp add: f_def)
  show ?thesis
    unfolding zns_write_seq_def Let_def w_zid_def [symmetric] w_slba_def [symmetric] w_buf_def [symmetric]
      w_bytes_def [symmetric] a f_def [symmetric]
    using pos k' by (simp add: not_less)
qed

text \<open>The state after the write buffer was charged.\<close>

definition w_charged :: "zns_request \<Rightarrow> zns_ftl \<Rightarrow> zns_ftl" where
  "w_charged req ftl = set_buf (w_buf req ftl) ((get_buf (w_buf req ftl) ftl)\<lparr>b_remaining :=
     b_remaining (get_buf (w_buf req ftl) ftl) - of_nat (w_bytes req)\<rparr>) ftl"

text \<open>What every write relies on.\<close>

definition write_pre :: "zns_request \<Rightarrow> zns_ftl \<Rightarrow> bool" where
  "write_pre req ftl \<longleftrightarrow> zns_inv ftl \<and> ssd_inv (z_ssd ftl) \<and> 0 < pgs_per_oneshotpg (sp (z_ssd ftl)) \<and>
     w_zid req ftl < nr_zones (zp ftl) \<and> \<not> zd_zrwav (zone_descs ftl (w_zid req ftl)) \<and>
     w_bytes req \<le> unat (b_size (get_buf (w_buf req ftl) ftl))"

lemma writable_wp:
  assumes "zns_inv ftl" and "z < nr_zones (zp ftl)" and "writable (zone_descs ftl z)"
  shows "zd_wp (zone_descs ftl z) < zd_zslba (zone_descs ftl z) + zd_capacity (zone_descs ftl z)"
    "zd_zslba (zone_descs ftl z) \<le> zd_wp (zone_descs ftl z)" "zd_zslba (zone_descs ftl z) = zone_to_slba ftl z"
  using zns_invD(1) [OF assms(1,2)] assms(3) by (auto simp: zone_ok_def writable_def)

lemma nr_lbas_bound: "0 < nr_lbas_from_rw_cmd cmd" "nr_lbas_from_rw_cmd cmd \<le> 2 ^ 16"
  using unsigned_less [of "rw_length cmd", where ?'a = nat] by (simp_all add: nr_lbas_from_rw_cmd_def)

lemma accepts_iff:
  assumes "zns_inv ftl" and "w_zid req ftl < nr_zones (zp ftl)"
  shows "write_accepts req ftl \<longleftrightarrow> w_bytes req mod write_unit_size (sp (z_ssd ftl)) = 0 \<and>
    check_boundary_error ftl (w_slba req ftl) (nr_lbas_from_rw_cmd (q_cmd req)) \<and>
    w_slba req ftl = zd_wp (zone_descs ftl (w_zid req ftl)) \<and> writable (zone_descs ftl (w_zid req ftl))"
  using boundary_iff [OF assms nr_lbas_bound, of "w_slba req ftl"] writable_wp [OF assms]
  by (auto simp: write_accepts_def Let_def)

lemma write_seq_reject:
  assumes pre: "write_pre req ftl" and room: "w_bytes req \<le> unat (b_remaining (get_buf (w_buf req ftl) ftl))"
    and na: "\<not> write_accepts req ftl"
  shows "\<exists>st. st \<noteq> NVME_SC_SUCCESS \<and> zns_write_seq req ftl =
    Some (write_out (w_charged req ftl) (q_cmd req) st (w_slba req ftl) (q_nsecs_start req) (q_nsecs_start req), w_charged req ftl)"
proof -
  let ?f = "w_charged req ftl" and ?z = "w_zid req ftl"
  have k: "zns_keep ftl ?f" by (simp add: w_charged_def)
  have z: "?z < nr_zones (zp ?f)" "zns_inv ?f" "zone_descs ?f = zone_descs ftl"
    using pre zns_inv_keep [OF k] k by (auto simp: write_pre_def zns_keep_def)
  have eq: "\<not> unat (b_remaining (get_buf (w_buf req ftl) ftl)) < w_bytes req"
    "w_bytes req \<le> unat (b_size (get_buf (w_buf req ftl) ftl))" using room pre by (auto simp: write_pre_def)
  have "\<exists>st. write_open ?z (w_slba req ftl) ?f = Inl (st, ?f) \<and> st \<noteq> NVME_SC_SUCCESS"
    if "w_bytes req mod write_unit_size (sp (z_ssd ftl)) = 0" "w_slba req ftl = zd_wp (zone_descs ftl ?z)"
      "check_boundary_error ftl (w_slba req ftl) (nr_lbas_from_rw_cmd (q_cmd req))"
    using write_open_reject [OF z(2,1), of "w_slba req ftl"] that na accepts_iff [of ftl req] pre z(3)
    by (auto simp: write_pre_def)
  note op = this
  have ne: "NVME_SC_ZNS_INVALID_WRITE \<noteq> NVME_SC_SUCCESS" "NVME_SC_ZNS_ERR_BOUNDARY \<noteq> NVME_SC_SUCCESS"
    by (simp_all add: zns_status_defs)
  note run = write_seq_eq [OF eq(2), folded w_charged_def, unfolded Let_def if_not_P [OF eq(1)]]
  consider "w_bytes req mod write_unit_size (sp (z_ssd ftl)) \<noteq> 0"
    | "w_bytes req mod write_unit_size (sp (z_ssd ftl)) = 0"
      "\<not> check_boundary_error ftl (w_slba req ftl) (nr_lbas_from_rw_cmd (q_cmd req))"
    | "w_bytes req mod write_unit_size (sp (z_ssd ftl)) = 0" "w_slba req ftl \<noteq> zd_wp (zone_descs ftl ?z)"
      "check_boundary_error ftl (w_slba req ftl) (nr_lbas_from_rw_cmd (q_cmd req))"
    | "w_bytes req mod write_unit_size (sp (z_ssd ftl)) = 0" "w_slba req ftl = zd_wp (zone_descs ftl ?z)"
      "check_boundary_error ftl (w_slba req ftl) (nr_lbas_from_rw_cmd (q_cmd req))" by blast
  then show ?thesis
  proof cases
    case 1
    then show ?thesis using run ne(1) by (intro exI [of _ NVME_SC_ZNS_INVALID_WRITE]) simp
  next
    case 2
    then show ?thesis using run ne(2) by (intro exI [of _ NVME_SC_ZNS_ERR_BOUNDARY]) simp
  next
    case 3
    then show ?thesis using run ne(1) by (intro exI [of _ NVME_SC_ZNS_INVALID_WRITE]) simp
  next
    case 4
    then show ?thesis using op unfolding run by auto
  qed
qed

lemma write_seq_accept:
  assumes pre: "write_pre req ftl" and room: "w_bytes req \<le> unat (b_remaining (get_buf (w_buf req ftl) ftl))"
    and acc: "write_accepts req ftl"
  shows "\<exists>t xc ftl' ops. zns_write_seq req ftl = Some (write_out ftl' (q_cmd req) NVME_SC_SUCCESS (w_slba req ftl) t xc, ftl') \<and>
    q_nsecs_start req \<le> xc \<and> xc \<le> t \<and> zns_inv ftl' \<and> ssd_inv (z_ssd ftl') \<and> sp (z_ssd ftl') = sp (z_ssd ftl) \<and>
    zp ftl' = zp ftl \<and> zone_descs ftl' = (zone_descs ftl)(w_zid req ftl :=
      advanced (nr_lbas_from_rw_cmd (q_cmd req)) (open_desc (zone_descs ftl (w_zid req ftl)))) \<and>
    z_sched ftl' = z_sched ftl @ ops \<and> ops_for (q_sqid req) (w_buf req ftl) xc t ops"
proof -
  let ?f = "w_charged req ftl" and ?z = "w_zid req ftl" and ?d = "zone_descs ftl (w_zid req ftl)"
    and ?n = "nr_lbas_from_rw_cmd (q_cmd req)"
  have k: "zns_keep ftl ?f" by (simp add: w_charged_def)
  have f: "?z < nr_zones (zp ?f)" "zns_inv ?f" "zone_descs ?f = zone_descs ftl" "ssd_inv (z_ssd ?f)"
    "sp (z_ssd ?f) = sp (z_ssd ftl)" "z_sched ?f = z_sched ftl"
    using pre zns_inv_keep [OF k] k by (auto simp: write_pre_def zns_keep_def w_charged_def)
  have a: "w_slba req ftl = zd_wp ?d" "writable ?d" "w_slba req ftl + ?n \<le> zd_zslba ?d + zd_capacity ?d"
    using acc by (simp_all add: write_accepts_def Let_def)
  from write_open_ok [OF f(2,1), of "w_slba req ftl"] a f(3) pre obtain g where
    g: "write_open ?z (w_slba req ftl) ?f = Inr g" "zone_step ?z (open_desc ?d) ?f g" "zns_inv g"
      "z_ssd g = z_ssd ?f" "z_sched g = z_sched ?f" by (auto simp: write_pre_def)
  then have gz: "?z < nr_zones (zp g)" "zone_descs g ?z = open_desc ?d" using f(1) by (auto simp: zone_step_def)
  have nz: "\<not> zd_zrwav ?d" using pre by (simp add: write_pre_def)
  have bd: "check_boundary_error ftl (w_slba req ftl) ?n" "w_bytes req mod write_unit_size (sp (z_ssd ftl)) = 0"
    using acc accepts_iff [of ftl req] pre by (auto simp: write_pre_def)
  have eq: "\<not> unat (b_remaining (get_buf (w_buf req ftl) ftl)) < w_bytes req"
    "w_bytes req \<le> unat (b_size (get_buf (w_buf req ftl) ftl))" using room pre by (auto simp: write_pre_def)
  note run = write_seq_eq [OF eq(2), folded w_charged_def, unfolded Let_def if_not_P [OF eq(1)]]
  define h where "h = increase_write_ptr ?z ?n g"
  have h: "zone_step ?z (advanced ?n (open_desc ?d)) g h" "zns_inv h" "z_ssd h = z_ssd ?f" "z_sched h = z_sched ftl"
    using increase_write_ptr_step [OF g(3) gz(1), of ?n] gz(2) nz a(1,3) g(4,5) f(6) unfolding h_def by auto
  have inv_h: "ssd_inv (z_ssd h)" using f(4) by (simp add: h(3))
  from on_ssd_ok [where P = "(\<le>) (q_nsecs_start req)" and f = "ssd_advance_write_buffer (q_nsecs_start req) (w_bytes req)" and ftl = h]
    ssd_advance_write_buffer_ok [OF inv_h, of "q_nsecs_start req" "w_bytes req"]
  obtain xc i where i: "on_ssd (ssd_advance_write_buffer (q_nsecs_start req) (w_bytes req)) h = Some (xc, i)"
    "q_nsecs_start req \<le> xc" "ssd_inv (z_ssd i)" "zns_keep h i" "z_sched i = z_sched h" by blast
  have ppo: "0 < pgs_per_oneshotpg (sp (z_ssd i))" "sp (z_ssd i) = sp (z_ssd ftl)"
    using pre i(4) h(3) f(5) by (auto simp: write_pre_def zns_keep_def)
  from zns_write_loop_ok [OF i(3) ppo(1) order.refl, of "q_sqid req" "w_buf req ftl" xc "zone_to_elpn i ?z"
      "lba_to_lpn i (w_slba req ftl + ?n - 1)" "lba_to_lpn i (w_slba req ftl)"] obtain t ftl' ops where
    l: "zns_write_loop (q_sqid req) (w_buf req ftl) xc (zone_to_elpn i ?z) (lba_to_lpn i (w_slba req ftl + ?n - 1))
        (lba_to_lpn i (w_slba req ftl)) xc i = Some (t, ftl')" "xc \<le> t" "ssd_inv (z_ssd ftl')" "zns_keep i ftl'"
      "z_sched ftl' = z_sched i @ ops" "ops_for (q_sqid req) (w_buf req ftl) xc t ops" by blast
  have kk: "zns_keep h ftl'" using zns_keep_trans [OF i(4) l(4)] .
  have "zone_descs ftl' = (zone_descs ftl)(?z := advanced ?n (open_desc ?d))"
    using kk h(1) g(2) f(3) by (auto simp: zns_keep_def zone_step_def)
  moreover have "zns_inv ftl'" using zns_inv_keep [OF kk h(2)] .
  moreover have "zns_write_seq req ftl = Some (write_out ftl' (q_cmd req) NVME_SC_SUCCESS (w_slba req ftl) t xc, ftl')"
    unfolding run using bd a(1) g(1) i(1) l(1) by (simp add: h_def)
  moreover have "sp (z_ssd ftl') = sp (z_ssd ftl)" using l(4) ppo(2) by (simp add: zns_keep_def)
  moreover have "zp ftl' = zp ftl" using kk h(1) g(2) k by (simp add: zns_keep_def zone_step_def)
  ultimately show ?thesis using i(2) l h(4) i(5) by auto
qed

section \<open>Reads, flushes and the dispatch\<close>

lemma zns_read_loop_ok:
  assumes "ssd_inv (z_ssd ftl)" and "0 < pgs_per_flashpg (sp (z_ssd ftl))" and "0 < pgsz (sp (z_ssd ftl))"
  shows "\<exists>t ftl'. zns_read_loop stime elpn lpn latest ftl = Some (t, ftl') \<and> latest \<le> t \<and>
    ssd_inv (z_ssd ftl') \<and> zns_keep ftl ftl'"
  using assms
proof (induction "elpn + 1 - lpn" arbitrary: lpn latest ftl rule: less_induct)
  case less
  note step = zns_read_loop.simps [of stime elpn lpn latest ftl]
  show ?case
  proof (cases "lpn \<le> elpn")
    case False
    then show ?thesis using less.prems by (simp add: step)
  next
    case True
    let ?spp = "sp (z_ssd ftl)" and ?ppa = "zns_lpn_to_ppa ftl lpn"
    let ?pgs = "min (elpn - lpn + 1) (pgs_per_flashpg ?spp - p_pg ?ppa mod pgs_per_flashpg ?spp)"
    let ?ncmd = "\<lparr>nc_cmd = NAND_READ, nc_xfer_size = ?pgs * pgsz ?spp, nc_stime = stime,
      nc_interleave_pci_dma = False, nc_ppa = ?ppa\<rparr>"
    have pos: "0 < ?pgs" using zns_pg_off [OF less.prems(2)] .
    then have dec: "elpn + 1 - (lpn + ?pgs) < elpn + 1 - lpn" using True by linarith
    have "0 < ?pgs * pgsz ?spp" using pos less.prems(3) by (simp only: mult_pos_pos)
    then have "\<exists>t ssd'. ssd_advance_nand ?ncmd (z_ssd ftl) = Some (t, ssd') \<and> stime \<le> t \<and> ssd_inv ssd' \<and>
        same_flash (z_ssd ftl) ssd'"
      using ssd_advance_nand_ok [OF less.prems(1), of ?ncmd] zns_ppa_mapped by fastforce
    from on_ssd_ok [where P = "(\<le>) stime" and f = "ssd_advance_nand ?ncmd" and ftl = ftl, OF this] obtain c f where
      c: "on_ssd (ssd_advance_nand ?ncmd) ftl = Some (c, f)" "ssd_inv (z_ssd f)" "zns_keep ftl f" by blast
    have "0 < pgs_per_flashpg (sp (z_ssd f))" "0 < pgsz (sp (z_ssd f))" using less.prems c(3) by (auto simp: zns_keep_def)
    from less.hyps [OF dec c(2) this, of "if c > latest then c else latest"] obtain t ftl' where
      ih: "zns_read_loop stime elpn (lpn + ?pgs) (if c > latest then c else latest) f = Some (t, ftl')"
        "(if c > latest then c else latest) \<le> t" "ssd_inv (z_ssd ftl')" "zns_keep f ftl'" by blast
    have "zns_read_loop stime elpn lpn latest ftl = Some (t, ftl')"
      using True c(1) ih(1) by (subst step) (simp add: Let_def)
    then show ?thesis using ih(2,3) zns_keep_trans [OF c(3) ih(4)] by (auto split: if_splits)
  qed
qed

text \<open>The geometry the dispatch relies on; \<open>ssd_init_params\<close> and \<open>zns_init_params\<close> provide it.\<close>

definition zns_geometry :: "zns_ftl \<Rightarrow> bool" where
  "zns_geometry ftl \<longleftrightarrow>
     (let spp = sp (z_ssd ftl) in
      0 < pgs_per_oneshotpg spp \<and> 0 < pgs_per_flashpg spp \<and> 0 < secs_per_pg spp \<and> 0 < secsz spp \<and>
      pgsz spp = secsz spp * secs_per_pg spp \<and> pgsz spp dvd zone_size (zp ftl))"

definition zns_ready :: "zns_ftl \<Rightarrow> bool" where
  "zns_ready ftl \<longleftrightarrow> zns_inv ftl \<and> ssd_inv (z_ssd ftl) \<and> zns_geometry ftl"

lemma lpn_zone_eq:
  assumes "zns_geometry ftl"
  shows "lpn_to_zone ftl (lba_to_lpn ftl lba) = lba_to_zone ftl lba"
proof -
  let ?s = "secsz (sp (z_ssd ftl))" and ?p = "secs_per_pg (sp (z_ssd ftl))" and ?z = "zone_size (zp ftl)"
  have g: "0 < ?s" "0 < ?p" "?s * ?p dvd ?z" "pgsz (sp (z_ssd ftl)) = ?s * ?p"
    using assms by (auto simp: zns_geometry_def Let_def)
  then obtain k where k: "?z = ?s * ?p * k" by (auto elim: dvdE)
  have "?z div (?s * ?p) = k" "?z div ?s = ?p * k"
    using g k by (simp_all add: mult.assoc)
  then have "lba div ?p div (?z div (?s * ?p)) = lba div (?z div ?s)" by (simp only: div_mult2_eq)
  then show ?thesis by (simp add: lpn_to_zone_def lba_to_lpn_def lba_to_zone_def g(4))
qed

lemma zns_read_ok:
  assumes r: "zns_ready ftl" and z: "w_zid req ftl < nr_zones (zp ftl)"
  shows "\<exists>res ftl'. zns_read req ftl = Some (res, ftl') \<and> o_ok res \<and> ssd_inv (z_ssd ftl') \<and> zns_keep ftl ftl' \<and>
    q_nsecs_start req \<le> o_nsecs_target res"
proof -
  let ?spp = "sp (z_ssd ftl)" and ?n = "nr_lbas_from_rw_cmd (q_cmd req)" and ?s = "unat (rw_slba (q_cmd req))"
  define stime where "stime = q_nsecs_start req + (if ?n * 2 ^ 9 \<le> 4096 then fw_4kb_rd_lat ?spp else fw_rd_lat ?spp)"
  have g: "zns_geometry ftl" "ssd_inv (z_ssd ftl)" using r by (auto simp: zns_ready_def)
  have zz: "\<not> nr_zones (zp ftl) \<le> lpn_to_zone ftl (lba_to_lpn ftl ?s)"
    using z lpn_zone_eq [OF g(1)] by (simp add: w_zid_def)
  have pos: "0 < pgs_per_flashpg ?spp" "0 < pgsz ?spp" using g(1) by (auto simp: zns_geometry_def Let_def)
  from zns_read_loop_ok [OF g(2) pos, of stime "lba_to_lpn ftl (?s + ?n - 1)" "lba_to_lpn ftl ?s" stime] obtain t f where
    t: "zns_read_loop stime (lba_to_lpn ftl (?s + ?n - 1)) (lba_to_lpn ftl ?s) stime ftl = Some (t, f)"
      "stime \<le> t" "ssd_inv (z_ssd f)" "zns_keep ftl f" by blast
  from on_ssd_ok [where P = "(\<le>) t" and f = "ssd_advance_pcie t (?n * secsz ?spp)" and ftl = f]
    ssd_advance_pcie_ok [OF t(3), of t "?n * secsz ?spp"] obtain c h where
    c: "on_ssd (ssd_advance_pcie t (?n * secsz ?spp)) f = Some (c, h)" "t \<le> c" "ssd_inv (z_ssd h)" "zns_keep f h" by blast
  have "q_nsecs_start req \<le> stime" by (simp add: stime_def)
  then have b: "q_nsecs_start req \<le> (if t < c then c else t)" using t(2) c(2) by simp
  have "zns_read req ftl = Some (\<lparr>o_ok = True,
      o_status = (if zd_state (zone_descs ftl (lpn_to_zone ftl (lba_to_lpn ftl ?s))) = ZONE_STATE_OFFLINE then NVME_SC_ZNS_ERR_OFFLINE
        else if \<not> check_boundary_error ftl ?s ?n then NVME_SC_ZNS_ERR_BOUNDARY else NVME_SC_SUCCESS),
      o_nsecs_target = (if c > t then c else t), o_slba = ?s\<rparr>, h)"
    using zz t(1) c(1) unfolding zns_read_def Let_def stime_def [symmetric] by (simp only: if_False bind.bind_lunit prod.case)
  then show ?thesis using b c(3) zns_keep_trans [OF t(4) c(4)] by simp
qed

text \<open>
  Commands the namespace is specified for: an address in range, no write to a zone with a random write area, no
  write larger than its buffer, and no explicit flush that divides by zero.
\<close>

definition zns_served :: "zns_request \<Rightarrow> zns_ftl \<Rightarrow> bool" where
  "zns_served req ftl \<longleftrightarrow>
     (let op = c_opcode (q_cmd req); z = w_zid req ftl in
      if op = nvme_cmd_write \<or> op = nvme_cmd_zone_append
      then z < nr_zones (zp ftl) \<and> \<not> zd_zrwav (zone_descs ftl z) \<and> w_bytes req \<le> unat (b_size (get_buf (w_buf req ftl) ftl))
      else if op = nvme_cmd_read then z < nr_zones (zp ftl)
      else if op = nvme_cmd_zone_mgmt_send then
        (select_all (q_cmd req) \<or> z < nr_zones (zp ftl)) \<and> (zsa (q_cmd req) = 0x11 \<longrightarrow> flush_safe ftl)
      else True)"

lemma zns_ready_keep: "zns_ready ftl \<Longrightarrow> zns_keep ftl ftl' \<Longrightarrow> ssd_inv (z_ssd ftl') \<Longrightarrow> zns_ready ftl'"
  using zns_inv_keep [of ftl ftl'] by (simp add: zns_ready_def zns_keep_def zns_geometry_def)

lemma zns_ready_step:
  "zns_ready ftl \<Longrightarrow> zns_inv ftl' \<Longrightarrow> zp ftl' = zp ftl \<Longrightarrow> sp (z_ssd ftl') = sp (z_ssd ftl) \<Longrightarrow> ssd_inv (z_ssd ftl') \<Longrightarrow>
   zns_ready ftl'"
  by (simp add: zns_ready_def zns_geometry_def)

lemma zns_write_ok:
  assumes r: "zns_ready ftl" and op: "c_opcode (q_cmd req) = nvme_cmd_write \<or> c_opcode (q_cmd req) = nvme_cmd_zone_append"
    and srv: "zns_served req ftl"
  shows "\<exists>res ftl'. zns_write req ftl = Some (res, ftl') \<and> zns_ready ftl'"
proof -
  have z: "w_zid req ftl < nr_zones (zp ftl)" "\<not> zd_zrwav (zone_descs ftl (w_zid req ftl))"
    "w_bytes req \<le> unat (b_size (get_buf (w_buf req ftl) ftl))"
    using srv op by (auto simp: zns_served_def Let_def)
  have pre: "write_pre req ftl" using r z by (auto simp: write_pre_def zns_ready_def zns_geometry_def Let_def)
  have eq: "zns_write req ftl = zns_write_seq req ftl"
    using z(1,2) lpn_zone_eq [of ftl] r by (simp add: zns_write_def zns_ready_def w_zid_def Let_def)
  have c: "zns_keep ftl (w_charged req ftl)" "ssd_inv (z_ssd (w_charged req ftl))"
    using r by (simp_all add: w_charged_def zns_ready_def)
  consider "\<not> w_bytes req \<le> unat (b_remaining (get_buf (w_buf req ftl) ftl))"
    | "w_bytes req \<le> unat (b_remaining (get_buf (w_buf req ftl) ftl))" "write_accepts req ftl"
    | "w_bytes req \<le> unat (b_remaining (get_buf (w_buf req ftl) ftl))" "\<not> write_accepts req ftl" by blast
  then show ?thesis
  proof cases
    case 1
    then show ?thesis using write_seq_eq [OF z(3)] r by (simp add: eq)
  next
    case 2
    from write_seq_accept [OF pre this] show ?thesis unfolding eq using zns_ready_step [OF r] by blast
  next
    case 3
    from write_seq_reject [OF pre this] show ?thesis unfolding eq using zns_ready_keep [OF r c] by blast
  qed
qed

lemma zns_flush_ok: "zns_ready ftl \<Longrightarrow> zns_ready (snd (zns_flush ftl))"
proof -
  assume r: "zns_ready ftl"
  have "zns_keep ftl (snd (zns_flush ftl))" "ssd_inv (z_ssd (snd (zns_flush ftl))) = ssd_inv (z_ssd ftl)"
    by (auto simp: zns_flush_def read_clock_def ssd_next_idle_time_def Let_def zns_keep_def ssd_inv_def split: prod.split)
  then show ?thesis using zns_ready_keep [OF r] r by (simp add: zns_ready_def)
qed

section \<open>Properties\<close>

definition demo_write :: zns_request where
  "demo_write = \<lparr>q_cmd = demo_cmd 0x01 256 63 0, q_sqid = 1, q_nsecs_start = 5\<rparr>"

lemma demo_write_pre: "write_pre demo_write demo_ftl"
proof -
  have z: "w_zid demo_write demo_ftl = 1"
    by (simp add: w_zid_def demo_write_def demo_cmd_def rw_slba_def lba_to_zone_def demo_zp_def)
  have s: "ssd_inv (z_ssd demo_ftl)" "b_size (zone_write_buffer demo_ftl 1) = 262144"
    using demo_ssd_inv by (simp_all add: demo_ftl_def zns_init_ftl_def demo_zp_def buffer_init_def)
  have p: "0 < pgs_per_oneshotpg demo_spp"
    by (simp add: demo_spp_def ssd_init_params_def Let_def SAMSUNG_970PRO_def)
  have b: "w_bytes demo_write = 32768"
    by (simp add: w_bytes_def demo_write_def demo_cmd_def nr_lbas_from_rw_cmd_def rw_length_def)
  show ?thesis
    using demo_ftl_inv s p by (simp add: write_pre_def z b w_buf_def get_buf_def init_descriptor_def) (simp add: demo_zp_def)
qed

text \<open>
  C36: Sequential writes and appends, to a zone in range that was opened without a random write area, on a namespace of fewer
  than \<open>2 ^ 32\<close> blocks, and not larger than the zone's write buffer. When the write buffer has no room the request is left for a
  retry and nothing changes. Otherwise the write succeeds exactly when its size is a multiple of the
  write unit, it starts at the zone's write pointer (an append always does), the zone is empty, open or
  closed, and it ends within the zone; then the zone is open, its write pointer has advanced by the
  number of blocks, the zone is full exactly when the pointer reached its end, and the completion time is
  not before the start. A rejected write changes no zone. The zone invariant is kept in each case.
\<close>

theorem zns_write_seq_spec:
  assumes pre: "write_pre req ftl"
  shows "\<exists>res ftl'. zns_write_seq req ftl = Some (res, ftl') \<and> zns_inv ftl' \<and> ssd_inv (z_ssd ftl') \<and>
    o_slba res = w_slba req ftl \<and>
    (o_ok res \<longleftrightarrow> w_bytes req \<le> unat (b_remaining (get_buf (w_buf req ftl) ftl))) \<and>
    (if \<not> o_ok res then ftl' = ftl
     else (o_status res = NVME_SC_SUCCESS \<longleftrightarrow> write_accepts req ftl) \<and> q_nsecs_start req \<le> o_nsecs_target res \<and>
       zone_descs ftl' = (if write_accepts req ftl
         then (zone_descs ftl)(w_zid req ftl :=
                advanced (nr_lbas_from_rw_cmd (q_cmd req)) (open_desc (zone_descs ftl (w_zid req ftl))))
         else zone_descs ftl))"
proof -
  have b: "w_bytes req \<le> unat (b_size (get_buf (w_buf req ftl) ftl))" "zns_inv ftl" "ssd_inv (z_ssd ftl)"
    using pre by (auto simp: write_pre_def)
  consider "\<not> w_bytes req \<le> unat (b_remaining (get_buf (w_buf req ftl) ftl))"
    | "w_bytes req \<le> unat (b_remaining (get_buf (w_buf req ftl) ftl))" "write_accepts req ftl"
    | "w_bytes req \<le> unat (b_remaining (get_buf (w_buf req ftl) ftl))" "\<not> write_accepts req ftl" by blast
  then show ?thesis
  proof cases
    case 1
    then show ?thesis using write_seq_eq [OF b(1)] b(2,3) by simp
  next
    case 2
    from write_seq_accept [OF pre this] obtain t xc ftl' where
      "zns_write_seq req ftl = Some (write_out ftl' (q_cmd req) NVME_SC_SUCCESS (w_slba req ftl) t xc, ftl')"
      "q_nsecs_start req \<le> xc" "xc \<le> t" "zns_inv ftl'" "ssd_inv (z_ssd ftl')"
      "zone_descs ftl' = (zone_descs ftl)(w_zid req ftl :=
         advanced (nr_lbas_from_rw_cmd (q_cmd req)) (open_desc (zone_descs ftl (w_zid req ftl))))" by blast
    then show ?thesis using 2 by (simp add: write_out_def)
  next
    case 3
    from write_seq_reject [OF pre this] obtain st where "st \<noteq> NVME_SC_SUCCESS"
      "zns_write_seq req ftl = Some (write_out (w_charged req ftl) (q_cmd req) st (w_slba req ftl)
         (q_nsecs_start req) (q_nsecs_start req), w_charged req ftl)" by blast
    moreover have k: "zns_keep ftl (w_charged req ftl)" "ssd_inv (z_ssd (w_charged req ftl))"
      using b(3) by (simp_all add: w_charged_def)
    moreover have "zone_descs (w_charged req ftl) = zone_descs ftl" using k(1) by (simp add: zns_keep_def)
    ultimately show ?thesis using 3 zns_inv_keep [OF _ b(2)] by (simp add: write_out_def)
  qed
qed

theorem zns_write_seq_spec_witness:
  "\<exists>res ftl'. zns_write_seq demo_write demo_ftl = Some (res, ftl') \<and> zns_inv ftl'"
  using zns_write_seq_spec [OF demo_write_pre] by blast

text \<open>
  A rejected write leaks its part of the write buffer. The bytes were charged before the checks,
  no internal operation that would give them back is scheduled, and nothing else changes.
\<close>

theorem rejected_write_keeps_buffer:
  assumes "write_pre req ftl" and "w_bytes req \<le> unat (b_remaining (get_buf (w_buf req ftl) ftl))"
    and "\<not> write_accepts req ftl"
  shows "\<exists>res ftl'. zns_write_seq req ftl = Some (res, ftl') \<and> o_ok res \<and> o_status res \<noteq> NVME_SC_SUCCESS \<and>
    z_sched ftl' = z_sched ftl \<and> zone_descs ftl' = zone_descs ftl \<and> res_infos ftl' = res_infos ftl \<and>
    unat (b_remaining (get_buf (w_buf req ftl) ftl')) + w_bytes req =
      unat (b_remaining (get_buf (w_buf req ftl) ftl))"
proof -
  from write_seq_reject [OF assms] obtain st where st: "st \<noteq> NVME_SC_SUCCESS"
    "zns_write_seq req ftl = Some (write_out (w_charged req ftl) (q_cmd req) st (w_slba req ftl)
       (q_nsecs_start req) (q_nsecs_start req), w_charged req ftl)" by blast
  let ?r = "b_remaining (get_buf (w_buf req ftl) ftl)" and ?w = "of_nat (w_bytes req) :: u64"
  have w: "unat ?w = w_bytes req" using w_bytes_bound [of req] by (simp add: unat_of_nat)
  then have "unat (?r - ?w) = unat ?r - w_bytes req" using assms(2) by (simp add: unat_sub word_le_nat_alt)
  then have "unat (b_remaining (get_buf (w_buf req ftl) (w_charged req ftl))) + w_bytes req = unat ?r"
    using assms(2) by (simp add: w_charged_def)
  moreover have "zns_keep ftl (w_charged req ftl)" by (simp add: w_charged_def)
  ultimately show ?thesis using st by (simp add: write_out_def zns_keep_def) (simp add: w_charged_def)
qed

text \<open>A write of sixty-four blocks that starts in the middle of zone 1.\<close>

definition demo_bad_write :: zns_request where
  "demo_bad_write = \<lparr>q_cmd = demo_cmd 0x01 260 63 0, q_sqid = 1, q_nsecs_start = 5\<rparr>"

theorem rejected_write_keeps_buffer_witness:
  "\<exists>res ftl'. zns_write_seq demo_bad_write demo_ftl = Some (res, ftl') \<and> o_status res \<noteq> NVME_SC_SUCCESS \<and>
     z_sched ftl' = [] \<and> unat (b_remaining (zone_write_buffer ftl' 1)) = 262144 - 32768"
proof -
  have z: "w_zid demo_bad_write demo_ftl = 1" "w_slba demo_bad_write demo_ftl = 260"
    by (simp_all add: w_slba_def w_zid_def demo_bad_write_def demo_cmd_def rw_slba_def lba_to_zone_def
        nvme_cmd_zone_append_def demo_zp_def)
  have b: "w_bytes demo_bad_write = 32768" "w_bytes demo_write = 32768"
    by (simp_all add: w_bytes_def demo_bad_write_def demo_write_def demo_cmd_def nr_lbas_from_rw_cmd_def rw_length_def)
  have z': "w_zid demo_write demo_ftl = 1"
    by (simp add: w_zid_def demo_write_def demo_cmd_def rw_slba_def lba_to_zone_def demo_zp_def)
  have buf: "w_buf demo_bad_write demo_ftl = Zone_wb 1" "w_buf demo_write demo_ftl = Zone_wb 1"
    by (simp_all add: w_buf_def z z' demo_zp_def)
  have r: "b_remaining (zone_write_buffer demo_ftl y) = 262144" "z_sched demo_ftl = []" for y
    by (simp_all add: demo_ftl_def zns_init_ftl_def buffer_init_def demo_zp_def)
  have pre: "write_pre demo_bad_write demo_ftl"
    using demo_write_pre by (simp add: write_pre_def z z' b buf)
  have "\<not> write_accepts demo_bad_write demo_ftl"
    by (simp add: write_accepts_def z init_descriptor_def Let_def) (simp add: demo_zp_def)
  from rejected_write_keeps_buffer [OF pre _ this] show ?thesis
    by (force simp: b buf r get_buf_def)
qed

text \<open>
  C37: Every command the namespace serves. Whatever the opcode, the dispatch returns, and afterwards the
  zone counters and write pointers, the channel models and the geometry are again as all commands rely
  on them, so any sequence of served commands can follow. Served are, on a namespace of fewer than \<open>2 ^ 32\<close> blocks, all commands with an address in range,
  except writes to a zone that was opened with a random write area, writes larger than the zone's write buffer
  (they would be retried for ever), and an explicit flush that would divide by zero; configurations without
  flush groups, as the shipped ones, are included.
\<close>

theorem zns_proc_ready:
  assumes "zns_ready ftl" and "zns_served req ftl"
  shows "\<exists>res ftl'. zns_proc_nvme_io_cmd req ftl = Some (res, ftl') \<and> zns_ready ftl'"
proof -
  let ?op = "c_opcode (q_cmd req)"
  note ops = nvme_cmd_write_def nvme_cmd_zone_append_def nvme_cmd_read_def nvme_cmd_flush_def
    nvme_cmd_zone_mgmt_send_def nvme_cmd_zone_mgmt_recv_def
  consider (wr) "?op = nvme_cmd_write \<or> ?op = nvme_cmd_zone_append" | (rd) "?op = nvme_cmd_read"
    | (fl) "?op = nvme_cmd_flush" | (ms) "?op = nvme_cmd_zone_mgmt_send" | (mr) "?op = nvme_cmd_zone_mgmt_recv"
    | (other) "?op \<notin> {nvme_cmd_write, nvme_cmd_zone_append, nvme_cmd_read, nvme_cmd_flush, nvme_cmd_zone_mgmt_send,
        nvme_cmd_zone_mgmt_recv}" by blast
  then show ?thesis
  proof cases
    case wr
    with zns_write_ok [OF assms(1) wr assms(2)] show ?thesis by (auto simp: zns_proc_nvme_io_cmd_def Let_def)
  next
    case rd
    then have "w_zid req ftl < nr_zones (zp ftl)" using assms(2) by (simp add: zns_served_def Let_def ops)
    from zns_read_ok [OF assms(1) this] rd show ?thesis
      using zns_ready_keep [OF assms(1)] by (auto simp: zns_proc_nvme_io_cmd_def Let_def ops)
  next
    case fl
    then show ?thesis using zns_flush_ok [OF assms(1)]
      by (auto simp: zns_proc_nvme_io_cmd_def Let_def ops split: prod.split)
  next
    case ms
    then have "select_all (q_cmd req) \<or> lba_to_zone ftl (unat (rw_slba (q_cmd req))) < nr_zones (zp ftl)"
      "zsa (q_cmd req) = 0x11 \<longrightarrow> flush_safe ftl"
      using assms(2) by (simp_all add: zns_served_def Let_def ops w_zid_def)
    moreover have "zns_inv ftl" using assms(1) by (simp add: zns_ready_def)
    ultimately obtain res ftl' where "zns_zmgmt_send (q_cmd req) (q_nsecs_start req) ftl = Some (res, ftl')"
      "zns_inv ftl'" "zp ftl' = zp ftl" "z_ssd ftl' = z_ssd ftl"
      using zmgmt_send_keeps [of ftl "q_cmd req" "q_nsecs_start req"] by blast
    then show ?thesis
      using ms zns_ready_step [OF assms(1), of ftl'] assms(1) by (auto simp: zns_proc_nvme_io_cmd_def Let_def ops zns_ready_def)
  next
    case mr
    then show ?thesis using assms(1) by (auto simp: zns_proc_nvme_io_cmd_def Let_def ops split: prod.split)
  next
    case other
    then show ?thesis using assms(1) by (simp add: zns_proc_nvme_io_cmd_def Let_def)
  qed
qed

theorem zns_proc_ready_witness:
  "\<exists>res ftl'. zns_proc_nvme_io_cmd demo_write demo_ftl = Some (res, ftl') \<and> zns_ready ftl'"
proof -
  have "zns_geometry demo_ftl"
    by (simp add: zns_geometry_def) (simp add: demo_spp_def ssd_init_params_def Let_def SAMSUNG_970PRO_def demo_zp_def)
  then have "zns_ready demo_ftl" using demo_write_pre by (simp add: zns_ready_def write_pre_def)
  moreover have "zns_served demo_write demo_ftl"
    using demo_write_pre by (simp add: zns_served_def write_pre_def Let_def demo_write_def demo_cmd_def nvme_cmd_write_def)
  ultimately show ?thesis by (rule zns_proc_ready)
qed

end
