(* ===== verification/Task_Queue.thy ===== *)
theory Task_Queue
  imports NV_Prelude
begin

text \<open>
  The task queues of the graph engine: \<^verbatim>\<open>core/queue.c\<close>, the task structure of
  \<^verbatim>\<open>core/proc_edge_struct.h\<close>, and \<^verbatim>\<open>find_next_future_task\<close> of \<^verbatim>\<open>io.c\<close>, which searches a queue for
  an executable task. A queue is its list of nodes (front first) and the \<^verbatim>\<open>size\<close> counter the
  code keeps beside it; an operation that allocates a node takes the outcome of \<^verbatim>\<open>kmalloc\<close> as
  a Boolean. The last section splits \<^verbatim>\<open>queue_dequeue\<close> at its unlocked emptiness test and
  studies the interleavings of several consumers.
\<close>

section \<open>Data\<close>

record PROC_EDGE =
  outdegree_slba :: u64
  edge_block_slba :: u64
  edge_block_len :: u64
  iter :: u32
  num_iters :: u32
  is_fvc :: u32
  is_prefetching :: u32
  row_overlap :: u32
  cost_modeling :: u32
  algorithm :: u32
  nsid :: u32
  pe_r :: u32
  pe_c :: u32
  csd_id :: u32
  num_partitions :: u32
  num_csds :: u32
  num_vertices :: u32
  nsecs_target :: u64

record queue =
  q_items :: "PROC_EDGE list"
  q_size :: int

section \<open>Operations of core/queue.c\<close>

definition queue_init :: queue where
  "queue_init = \<lparr>q_items = [], q_size = 0\<rparr>"

definition queue_enqueue :: "bool \<Rightarrow> PROC_EDGE \<Rightarrow> queue \<Rightarrow> queue" where
  "queue_enqueue kmalloc_ok t q =
     (if \<not> kmalloc_ok then q
      else q\<lparr>q_items := q_items q @ [t], q_size := q_size q + 1\<rparr>)"

text \<open>
  The locked part of \<^verbatim>\<open>queue_dequeue\<close>: \<^verbatim>\<open>list_first_entry\<close> of an empty list is not a node, so
  the result is \<open>None\<close> there.
\<close>

definition queue_take :: "queue \<Rightarrow> (PROC_EDGE \<times> queue) option" where
  "queue_take q =
     (case q_items q of
        [] \<Rightarrow> None
      | t # ts \<Rightarrow> Some (t, q\<lparr>q_items := ts, q_size := q_size q - 1\<rparr>))"

text \<open>Result: the return code, the task stored through the pointer (if any) and the queue.\<close>

definition queue_dequeue :: "queue \<Rightarrow> int \<times> PROC_EDGE option \<times> queue" where
  "queue_dequeue q =
     (if q_items q = [] then (-1, None, q)
      else case queue_take q of
          None \<Rightarrow> (-1, None, q)
        | Some (t, q') \<Rightarrow> (0, Some t, q'))"

definition queue_destroy :: "queue \<Rightarrow> queue" where
  "queue_destroy q = q\<lparr>q_items := [], q_size := 0\<rparr>"

definition get_queue_size :: "queue \<Rightarrow> int" where
  "get_queue_size q = q_size q"

definition get_queue_front :: "queue \<Rightarrow> int \<times> PROC_EDGE option" where
  "get_queue_front q = (if q_items q = [] then (-1, None) else (0, Some (hd (q_items q))))"

definition get_queue_back :: "queue \<Rightarrow> int \<times> PROC_EDGE option" where
  "get_queue_back q = (if q_items q = [] then (-1, None) else (0, Some (last (q_items q))))"

text \<open>
  The three \<^verbatim>\<open>list_replace_init\<close> calls move the nodes of \<open>q1\<close> to a temporary head, those of
  \<open>q2\<close> to \<open>q1\<close> and the temporary ones to \<open>q2\<close>; then the sizes are swapped.
\<close>

definition queue_swap :: "queue \<Rightarrow> queue \<Rightarrow> queue \<times> queue" where
  "queue_swap q1 q2 =
     (let temp_head = q_items q1;
          q1 = q1\<lparr>q_items := q_items q2\<rparr>;
          q2 = q2\<lparr>q_items := temp_head\<rparr>;
          temp_size = q_size q1;
          q1 = q1\<lparr>q_size := q_size q2\<rparr>;
          q2 = q2\<lparr>q_size := temp_size\<rparr>
      in (q1, q2))"

definition queue_find :: "queue \<Rightarrow> PROC_EDGE \<Rightarrow> bool" where
  "queue_find q task =
     (find_idx (\<lambda>n. pe_r n = pe_r task \<and> pe_c n = pe_c task) (q_items q) \<noteq> None)"

lemmas [task_queue_defs] = queue_init_def queue_enqueue_def queue_take_def queue_dequeue_def
  queue_destroy_def get_queue_size_def get_queue_front_def get_queue_back_def queue_swap_def

section \<open>find_next_future_task of io.c\<close>

text \<open>
  The position of the node the search stops at: the front of the queue for
  \<^verbatim>\<open>row_overlap\<close> 0 and the default, the first node whose row is aggregated for 1, the last such
  node for 2.
\<close>

definition future_task_idx :: "queue \<Rightarrow> (u32 \<Rightarrow> bool) \<Rightarrow> u32 \<Rightarrow> nat option" where
  "future_task_idx q aggregated overlap =
     (if overlap = 0 then Some 0
      else if overlap = 1 then find_idx (\<lambda>n. aggregated (pe_r n)) (q_items q)
      else if overlap = 2 then
        map_option (\<lambda>i. length (q_items q) - 1 - i)
          (find_idx (\<lambda>n. aggregated (pe_r n)) (rev (q_items q)))
      else Some 0)"

text \<open>Result: found, the task variable (overwritten only when found), the queue.\<close>

definition find_next_future_task ::
  "queue \<Rightarrow> (u32 \<Rightarrow> bool) \<Rightarrow> PROC_EDGE \<Rightarrow> bool \<Rightarrow> bool \<times> PROC_EDGE \<times> queue" where
  "find_next_future_task q aggregated task is_dequeue =
     (if get_queue_size q = 0 then (False, task, q)
      else case future_task_idx q aggregated (row_overlap task) of
          None \<Rightarrow> (False, task, q)
        | Some i \<Rightarrow>
            (True, q_items q ! i,
             if is_dequeue
             then q\<lparr>q_items := remove_nth i (q_items q), q_size := q_size q - 1\<rparr>
             else q))"

section \<open>Invariant and the queue contract\<close>

definition queue_wf :: "queue \<Rightarrow> bool" where
  "queue_wf q \<longleftrightarrow> q_size q = int (length (q_items q))"

text \<open>Take up to \<open>n\<close> elements out of a queue, in order.\<close>

fun deq_n :: "('q \<Rightarrow> 'a option \<times> 'q) \<Rightarrow> nat \<Rightarrow> 'q \<Rightarrow> 'a list \<times> 'q" where
  "deq_n deq 0 q = ([], q)"
| "deq_n deq (Suc n) q =
     (case deq q of
        (None, q') \<Rightarrow> ([], q')
      | (Some x, q') \<Rightarrow> (let (xs, q'') = deq_n deq n q' in (x # xs, q'')))"

locale fifo_queue =
  fixes new :: "'q"
    and enq :: "'a \<Rightarrow> 'q \<Rightarrow> 'q"
    and deq :: "'q \<Rightarrow> 'a option \<times> 'q"
    and contents :: "'q \<Rightarrow> 'a list"
    and invar :: "'q \<Rightarrow> bool"
  assumes contents_new: "contents new = []"
    and contents_enq: "invar q \<Longrightarrow> contents (enq x q) = contents q @ [x]"
    and deq_empty: "invar q \<Longrightarrow> contents q = [] \<Longrightarrow> deq q = (None, q)"
    and deq_value: "invar q \<Longrightarrow> contents q \<noteq> [] \<Longrightarrow> fst (deq q) = Some (hd (contents q))"
    and contents_deq: "invar q \<Longrightarrow> contents (snd (deq q)) = tl (contents q)"
    and invar_new: "invar new"
    and invar_enq: "invar q \<Longrightarrow> invar (enq x q)"
    and invar_deq: "invar q \<Longrightarrow> invar (snd (deq q))"
begin

lemma enq_all: "invar q \<Longrightarrow> invar (fold enq xs q) \<and> contents (fold enq xs q) = contents q @ xs"
  by (induction xs arbitrary: q) (auto simp: contents_enq invar_enq)

lemma deq_n_take:
  "invar q \<Longrightarrow> fst (deq_n deq n q) = take n (contents q) \<and>
     contents (snd (deq_n deq n q)) = drop n (contents q) \<and> invar (snd (deq_n deq n q))"
proof (induction n arbitrary: q)
  case 0
  then show ?case by simp
next
  case (Suc n)
  show ?case
  proof (cases "contents q")
    case Nil
    with Suc.prems show ?thesis by (simp add: deq_empty)
  next
    case (Cons x xs)
    then obtain q' where q': "deq q = (Some x, q')" "contents q' = xs" "invar q'"
      using Suc.prems deq_value [of q] contents_deq [of q] invar_deq [of q]
      by (cases "deq q") auto
    with Suc.IH [of q'] Cons show ?thesis by (auto split: prod.splits)
  qed
qed

lemma fifo:
  assumes "invar q"
  shows "fst (deq_n deq (length (contents q) + length xs) (fold enq xs q)) = contents q @ xs"
  using enq_all [OF assms] deq_n_take [of "fold enq xs q"] by simp

end

definition task_deq :: "queue \<Rightarrow> PROC_EDGE option \<times> queue" where
  "task_deq q = snd (queue_dequeue q)"

interpretation tq: fifo_queue queue_init "queue_enqueue True" task_deq q_items queue_wf
  by unfold_locales
    (auto simp: task_queue_defs task_deq_def queue_wf_def split: list.splits)

lemma queue_wf_destroy [simp]: "queue_wf (queue_destroy q)"
  by (simp add: queue_wf_def task_queue_defs)

lemma queue_wf_enqueue: "queue_wf q \<Longrightarrow> queue_wf (queue_enqueue ok t q)"
  by (simp add: queue_wf_def task_queue_defs)

lemma queue_wf_swap:
  "queue_wf q1 \<Longrightarrow> queue_wf q2 \<Longrightarrow> queue_wf (fst (queue_swap q1 q2)) \<and> queue_wf (snd (queue_swap q1 q2))"
  by (simp add: queue_wf_def task_queue_defs Let_def)

lemma queue_find_iff:
  "queue_find q t \<longleftrightarrow> (\<exists>n \<in> set (q_items q). pe_r n = pe_r t \<and> pe_c n = pe_c t)"
  unfolding queue_find_def find_idx_None by auto

lemma future_task_idx_bound:
  "q_items q \<noteq> [] \<Longrightarrow> future_task_idx q agg ov = Some i \<Longrightarrow> i < length (q_items q)"
  by (auto simp: future_task_idx_def split: if_splits dest: find_idx_SomeD)

lemma future_task_idx_rev:
  assumes "find_idx P (rev xs) = Some j"
  shows "P (xs ! (length xs - 1 - j)) \<and> (\<forall>k. length xs - 1 - j < k \<and> k < length xs \<longrightarrow> \<not> P (xs ! k))"
proof -
  from find_idx_SomeD [OF assms]
  have j: "j < length xs" "P (rev xs ! j)" "\<forall>m < j. \<not> P (rev xs ! m)" by auto
  have "\<not> P (xs ! k)" if "length xs - 1 - j < k" "k < length xs" for k
  proof -
    from that j(1) have "length xs - Suc k < j" by arith
    with j have "\<not> P (rev xs ! (length xs - Suc k))" by blast
    with that show ?thesis by (simp add: rev_nth)
  qed
  with j show ?thesis by (simp add: rev_nth)
qed

text \<open>A task with every field zero, for concrete runs.\<close>

definition blank_task :: PROC_EDGE where
  "blank_task = \<lparr>outdegree_slba = 0, edge_block_slba = 0, edge_block_len = 0, iter = 0,
     num_iters = 0, is_fvc = 0, is_prefetching = 0, row_overlap = 0, cost_modeling = 0,
     algorithm = 0, nsid = 0, pe_r = 0, pe_c = 0, csd_id = 0, num_partitions = 0, num_csds = 0,
     num_vertices = 0, nsecs_target = 0\<rparr>"

section \<open>Properties\<close>

text \<open>
  the task queue is first-in first-out. Enqueueing any sequence of tasks behind the tasks
  already queued and then dequeueing that many times returns exactly the old tasks followed by
  the new ones, in order.
\<close>

theorem task_queue_fifo:
  assumes "queue_wf q"
  shows "fst (deq_n task_deq (length (q_items q) + length ts) (fold (queue_enqueue True) ts q))
           = q_items q @ ts"
  using assms by (rule tq.fifo)

theorem task_queue_fifo_witness:
  "queue_wf queue_init \<and>
   fst (deq_n task_deq (0 + 2) (fold (queue_enqueue True)
      [blank_task, blank_task\<lparr>pe_r := 1\<rparr>] queue_init)) = [blank_task, blank_task\<lparr>pe_r := 1\<rparr>]"
proof -
  have wf: "queue_wf queue_init" by (rule tq.invar_new)
  show ?thesis
    using wf task_queue_fifo [OF wf, of "[blank_task, blank_task\<lparr>pe_r := 1\<rparr>]"]
    by (simp add: queue_init_def)
qed

lemma future_task_idx_None:
  "future_task_idx q agg ov = None \<longleftrightarrow> ov \<in> {1, 2} \<and> (\<forall>n \<in> set (q_items q). \<not> agg (pe_r n))"
  by (auto simp: future_task_idx_def)

text \<open>What the search promises of the position it returns.\<close>

lemma future_task_idx_Some:
  assumes "future_task_idx q agg ov = Some i"
  shows "(ov \<notin> {1, 2} \<longrightarrow> i = 0) \<and>
     (ov = 1 \<longrightarrow> agg (pe_r (q_items q ! i)) \<and> (\<forall>j < i. \<not> agg (pe_r (q_items q ! j)))) \<and>
     (ov = 2 \<longrightarrow> agg (pe_r (q_items q ! i)) \<and>
        (\<forall>j. i < j \<and> j < length (q_items q) \<longrightarrow> \<not> agg (pe_r (q_items q ! j))))"
  using assms
  by (auto simp: future_task_idx_def split: if_splits
      dest: find_idx_SomeD future_task_idx_rev [where P = "\<lambda>n. agg (pe_r n)"])

lemma find_next_future_task_cases:
  assumes "queue_wf q"
  shows "find_next_future_task q agg task True =
     (if q_items q = [] then (False, task, q)
      else case future_task_idx q agg (row_overlap task) of
          None \<Rightarrow> (False, task, q)
        | Some i \<Rightarrow> (True, q_items q ! i,
            q\<lparr>q_items := remove_nth i (q_items q), q_size := q_size q - 1\<rparr>))"
  using assms
  by (auto simp: find_next_future_task_def queue_wf_def task_queue_defs split: option.split)

text \<open>
  C31: \<^verbatim>\<open>find_next_future_task\<close> with \<^verbatim>\<open>is_dequeue\<close> succeeds exactly when the queue holds a task the
  overlap mode accepts; the task it returns is a node of the queue, which it unlinks and no
  other, keeping the size counter right; with \<^verbatim>\<open>row_overlap\<close> 1 it is the frontmost task whose row
  has been aggregated, with 2 the backmost one, and otherwise the front of the queue.
\<close>

theorem find_next_future_task_spec:
  assumes wf: "queue_wf q"
    and run: "find_next_future_task q agg task True = (found, t, q')"
  shows "(found \<longleftrightarrow> q_items q \<noteq> [] \<and>
            (row_overlap task \<in> {1, 2} \<longrightarrow> (\<exists>n \<in> set (q_items q). agg (pe_r n)))) \<and>
    (\<not> found \<longrightarrow> t = task \<and> q' = q) \<and>
    (found \<longrightarrow> queue_wf q' \<and>
       (\<exists>i < length (q_items q). t = q_items q ! i \<and> q_items q' = remove_nth i (q_items q) \<and>
          (row_overlap task \<notin> {1, 2} \<longrightarrow> i = 0) \<and>
          (row_overlap task = 1 \<longrightarrow> agg (pe_r t) \<and> (\<forall>j < i. \<not> agg (pe_r (q_items q ! j)))) \<and>
          (row_overlap task = 2 \<longrightarrow> agg (pe_r t) \<and>
             (\<forall>j. i < j \<and> j < length (q_items q) \<longrightarrow> \<not> agg (pe_r (q_items q ! j))))))"
proof (cases "q_items q = [] \<or> future_task_idx q agg (row_overlap task) = None")
  case True
  with run have "\<not> found" "t = task" "q' = q"
    by (auto simp: find_next_future_task_cases [OF wf] split: if_splits)
  with True show ?thesis by (auto simp: future_task_idx_None)
next
  case False
  then obtain i where i: "future_task_idx q agg (row_overlap task) = Some i"
    and ne: "q_items q \<noteq> []" by auto
  with run have r: "found" "t = q_items q ! i" "q_items q' = remove_nth i (q_items q)"
      "q_size q' = q_size q - 1"
    by (auto simp: find_next_future_task_cases [OF wf])
  have lt: "i < length (q_items q)" using ne i by (rule future_task_idx_bound)
  have "queue_wf q'" using wf lt r by (simp add: queue_wf_def)
  moreover have "row_overlap task \<in> {1, 2} \<longrightarrow> (\<exists>n \<in> set (q_items q). agg (pe_r n))"
    using i future_task_idx_None [of q agg "row_overlap task"] by auto
  ultimately show ?thesis
    using r ne lt future_task_idx_Some [OF i] by blast
qed

theorem find_next_future_task_spec_witness:
  "\<exists>q agg task t q'. queue_wf q \<and> find_next_future_task q agg task True = (True, t, q') \<and>
     row_overlap task = 1 \<and> pe_r t = 2 \<and> queue_wf q'"
proof -
  define q where "q = \<lparr>q_items = [blank_task\<lparr>pe_r := 1\<rparr>, blank_task\<lparr>pe_r := 2\<rparr>], q_size = 2\<rparr>"
  define task where "task = blank_task\<lparr>row_overlap := 1\<rparr>"
  define q' where "q' = \<lparr>q_items = [blank_task\<lparr>pe_r := 1\<rparr>], q_size = 1\<rparr>"
  have wf: "queue_wf q" by (simp add: q_def queue_wf_def)
  have run: "find_next_future_task q (\<lambda>r. r = 2) task True
      = (True, blank_task\<lparr>pe_r := 2\<rparr>, q')"
    by (simp add: find_next_future_task_def future_task_idx_def q_def task_def q'_def
        task_queue_defs blank_task_def)
  have "queue_wf q'"
    using find_next_future_task_spec [OF wf run] by blast
  with wf run show ?thesis
    by (intro exI [of _ q] exI [of _ "\<lambda>r. r = 2"] exI [of _ task]
        exI [of _ "blank_task\<lparr>pe_r := 2\<rparr>"] exI [of _ q']) (simp add: task_def blank_task_def)
qed

section \<open>Interleaved consumers\<close>

text \<open>
  \<^verbatim>\<open>queue_dequeue\<close> tests \<^verbatim>\<open>list_empty\<close> before it takes the lock. A consumer is idle or has passed
  the test; producers enqueue at any time. Taking from an empty list is a fault:
  \<^verbatim>\<open>list_first_entry\<close> then yields the list head itself, which the code unlinks and frees.
\<close>

datatype deq_pc = Idle | Checked

record deq_sys =
  ds_queue :: queue
  ds_pc :: "nat \<Rightarrow> deq_pc"
  ds_fault :: bool

inductive deq_step :: "nat set \<Rightarrow> deq_sys \<Rightarrow> deq_sys \<Rightarrow> bool" for C where
  enqueue: "deq_step C s (s\<lparr>ds_queue := queue_enqueue ok t (ds_queue s)\<rparr>)"
| check: "i \<in> C \<Longrightarrow> ds_pc s i = Idle \<Longrightarrow> q_items (ds_queue s) \<noteq> [] \<Longrightarrow>
    deq_step C s (s\<lparr>ds_pc := (ds_pc s)(i := Checked)\<rparr>)"
| take: "i \<in> C \<Longrightarrow> ds_pc s i = Checked \<Longrightarrow> queue_take (ds_queue s) = Some (t, q') \<Longrightarrow>
    deq_step C s (s\<lparr>ds_queue := q', ds_pc := (ds_pc s)(i := Idle)\<rparr>)"
| fault: "i \<in> C \<Longrightarrow> ds_pc s i = Checked \<Longrightarrow> queue_take (ds_queue s) = None \<Longrightarrow>
    deq_step C s (s\<lparr>ds_fault := True, ds_pc := (ds_pc s)(i := Idle)\<rparr>)"

definition deq_init :: deq_sys where
  "deq_init = \<lparr>ds_queue = queue_init, ds_pc = (\<lambda>_. Idle), ds_fault = False\<rparr>"

inductive deq_reachable :: "nat set \<Rightarrow> deq_sys \<Rightarrow> bool" for C where
  start: "deq_reachable C deq_init"
| step: "deq_reachable C s \<Longrightarrow> deq_step C s s' \<Longrightarrow> deq_reachable C s'"

definition deq_inv :: "nat \<Rightarrow> deq_sys \<Rightarrow> bool" where
  "deq_inv i s \<longleftrightarrow> queue_wf (ds_queue s) \<and> \<not> ds_fault s \<and>
     (ds_pc s i = Checked \<longrightarrow> q_items (ds_queue s) \<noteq> [])"

lemma deq_inv_step: "deq_step {i} s s' \<Longrightarrow> deq_inv i s \<Longrightarrow> deq_inv i s'"
  by (induction rule: deq_step.induct)
    (auto simp: deq_inv_def queue_wf_def task_queue_defs split: list.splits)

lemma deq_inv_reachable: "deq_reachable {i} s \<Longrightarrow> deq_inv i s"
proof (induction rule: deq_reachable.induct)
  case start
  show ?case by (simp add: deq_inv_def deq_init_def queue_wf_def queue_init_def)
next
  case (step s s')
  then show ?case by (blast intro: deq_inv_step)
qed

text \<open>
  C33: with one consumer, whatever the producers do, the unlocked emptiness test is safe: in
  every reachable state no consumer has unlinked from an empty list and the size counter equals
  the number of queued tasks.
\<close>

theorem single_consumer_safe:
  assumes "deq_reachable {i} s"
  shows "\<not> ds_fault s \<and> queue_wf (ds_queue s)"
  using deq_inv_reachable [OF assms] by (simp add: deq_inv_def)

definition deq_one :: deq_sys where
  "deq_one = deq_init\<lparr>ds_queue := queue_enqueue True blank_task queue_init\<rparr>"

lemma deq_one_reachable: "deq_reachable C deq_one"
  using deq_reachable.step [OF deq_reachable.start deq_step.enqueue [of C deq_init True blank_task]]
  by (simp add: deq_one_def deq_init_def)

theorem single_consumer_safe_witness:
  "deq_reachable {0} deq_one \<and> \<not> ds_fault deq_one \<and> queue_wf (ds_queue deq_one)"
proof -
  have r: "deq_reachable {0} deq_one" by (rule deq_one_reachable)
  show ?thesis using r single_consumer_safe [OF r] by blast
qed

text \<open>
  With two consumers the unlocked test is not safe: both can pass it while one task is
  queued, and the second then unlinks from an empty list.
\<close>

theorem two_consumers_race: "\<exists>s. deq_reachable {0, 1} s \<and> ds_fault s"
proof -
  let ?C = "{0, 1} :: nat set"
  define s1 where "s1 = deq_one\<lparr>ds_pc := (ds_pc deq_one)(0 := Checked)\<rparr>"
  define s2 where "s2 = s1\<lparr>ds_pc := (ds_pc s1)(1 := Checked)\<rparr>"
  define s3 where "s3 = s2\<lparr>ds_queue := queue_init, ds_pc := (ds_pc s2)(0 := Idle)\<rparr>"
  define s4 where "s4 = s3\<lparr>ds_fault := True, ds_pc := (ds_pc s3)(1 := Idle)\<rparr>"
  note defs = s1_def s2_def s3_def s4_def deq_one_def deq_init_def task_queue_defs
  have "deq_step ?C deq_one s1" unfolding s1_def
    by (rule deq_step.check) (simp_all add: defs)
  moreover have "deq_step ?C s1 s2" unfolding s2_def
    by (rule deq_step.check) (simp_all add: defs)
  moreover have "deq_step ?C s2 s3" unfolding s3_def
    by (rule deq_step.take [where t = blank_task]) (simp_all add: defs)
  moreover have "deq_step ?C s3 s4" unfolding s4_def
    by (rule deq_step.fault) (simp_all add: defs)
  ultimately have "deq_reachable ?C s4"
    by (meson deq_one_reachable deq_reachable.step)
  moreover have "ds_fault s4" by (simp add: s4_def)
  ultimately show ?thesis by blast
qed

end
