(* ===== verification/Vertex_Buffer.thy ===== *)
theory Vertex_Buffer
  imports NV_Prelude
begin

text \<open>
  The vertex cache of the device, \<^verbatim>\<open>core/csd_vertex_buffer.c\<close>: partitions identified by a
  partition number and a version, evicted first-in first-out. The model keeps the list of units
  in list order, the byte counter \<^verbatim>\<open>size\<close>, the capacity and the two statistics counters. The
  module parameter \<^verbatim>\<open>vertex_buffer_size\<close> is an argument of \<open>vertex_buffer_init\<close>, the outcome
  of \<^verbatim>\<open>kmalloc\<close> an argument of \<open>access_partition\<close>.
\<close>

section \<open>Data and operations\<close>

record vertex_buffer_unit =
  vu_size :: int
  vu_pid :: int
  vu_version :: int

record vertex_buffer =
  vb_units :: "vertex_buffer_unit list"
  vb_size :: int
  vb_capacity :: int
  vb_total_access_cnt :: int
  vb_hit_cnt :: int

text \<open>\<^verbatim>\<open>buf->capacity = vertex_buffer_size\<close> converts an \<^verbatim>\<open>unsigned long\<close> to \<^verbatim>\<open>long long\<close>.\<close>

definition vertex_buffer_init :: "u64 \<Rightarrow> vertex_buffer" where
  "vertex_buffer_init vertex_buffer_size =
     \<lparr>vb_units = [], vb_size = 0, vb_capacity = sint vertex_buffer_size,
      vb_total_access_cnt = 0, vb_hit_cnt = 0\<rparr>"

definition vertex_buffer_destroy :: "vertex_buffer \<Rightarrow> vertex_buffer" where
  "vertex_buffer_destroy buf =
     buf\<lparr>vb_units := [], vb_size := 0, vb_total_access_cnt := 0, vb_hit_cnt := 0\<rparr>"

definition vu_key :: "vertex_buffer_unit \<Rightarrow> int \<times> int" where
  "vu_key u = (vu_pid u, vu_version u)"

text \<open>\<^verbatim>\<open>buf->size -= unit->size; list_del(&unit->list); kfree(unit)\<close>\<close>

definition vb_unlink :: "nat \<Rightarrow> vertex_buffer \<Rightarrow> vertex_buffer" where
  "vb_unlink i buf =
     buf\<lparr>vb_size := vb_size buf - vu_size (vb_units buf ! i),
         vb_units := remove_nth i (vb_units buf)\<rparr>"

text \<open>\<^verbatim>\<open>buf->size += unit->size; list_add_tail(&unit->list, &buf->head)\<close>\<close>

definition vb_link :: "vertex_buffer_unit \<Rightarrow> vertex_buffer \<Rightarrow> vertex_buffer" where
  "vb_link u buf =
     buf\<lparr>vb_size := vb_size buf + vu_size u, vb_units := vb_units buf @ [u]\<rparr>"

function evict_partition :: "int \<Rightarrow> vertex_buffer \<Rightarrow> vertex_buffer" where
  "evict_partition sz buf =
     (if vb_units buf \<noteq> [] \<and> vb_size buf + sz > vb_capacity buf
      then evict_partition sz (vb_unlink 0 buf) else buf)"
  by pat_completeness auto
termination
  by (relation "measure (\<lambda>(sz, buf). length (vb_units buf))") (auto simp: vb_unlink_def)

declare evict_partition.simps [simp del]

definition get_partition_size :: "vertex_buffer \<Rightarrow> int \<Rightarrow> int \<Rightarrow> int" where
  "get_partition_size buf pid version =
     (case find (\<lambda>u. vu_pid u = pid \<and> vu_version u = version) (vb_units buf) of
        Some u \<Rightarrow> vu_size u
      | None \<Rightarrow> -1)"

definition access_partition ::
  "bool \<Rightarrow> int \<Rightarrow> int \<Rightarrow> int \<Rightarrow> vertex_buffer \<Rightarrow> int \<times> vertex_buffer" where
  "access_partition kmalloc_ok pid version sz buf =
     (if sz = 0 then (0, buf)
      else
        let curr_size = get_partition_size buf pid version in
        if curr_size = -1 then
          (let buf = evict_partition sz buf in
           if \<not> kmalloc_ok then (-1, buf)
           else
             (let unit = \<lparr>vu_size = (if sz > vb_capacity buf then vb_capacity buf else sz),
                          vu_pid = pid, vu_version = version\<rparr>;
                  buf = vb_link unit buf;
                  buf = buf\<lparr>vb_total_access_cnt := vb_total_access_cnt buf + div_page sz\<rparr>
              in (sz, buf)))
        else
          (0, buf\<lparr>vb_hit_cnt := vb_hit_cnt buf + div_page curr_size,
                  vb_total_access_cnt := vb_total_access_cnt buf + div_page curr_size\<rparr>))"

lemmas [cache_defs] = vb_unlink_def vb_link_def vu_key_def

section \<open>The cache contract\<close>

interpretation vb: sized_cache vb_units vb_size vb_capacity vu_size vu_key vb_unlink vb_link
  by unfold_locales (auto simp: cache_defs)

definition vertex_wf :: "vertex_buffer \<Rightarrow> bool" where
  "vertex_wf buf \<longleftrightarrow> cache_wf vu_size vu_key (vb_units buf) (vb_size buf) \<and>
     vb_size buf \<le> vb_capacity buf"

lemma vb_wf_iff: "vertex_wf buf \<longleftrightarrow> vb.wf buf \<and> vb_size buf \<le> vb_capacity buf"
  by (simp add: vertex_wf_def vb.wf_def)

lemma get_partition_size_lookup: "get_partition_size buf pid v = vb.lookup buf (pid, v)"
  by (simp add: get_partition_size_def vb.lookup_def cache_lookup_def vu_key_def
      split: option.split)

text \<open>What first-in first-out eviction leaves: a suffix of the list, and the longest that fits.\<close>

definition fifo_suffix :: "int \<Rightarrow> vertex_buffer \<Rightarrow> nat \<Rightarrow> bool" where
  "fifo_suffix sz buf k \<longleftrightarrow> k \<le> length (vb_units buf) \<and>
     (\<forall>j < k. vb_capacity buf < sum_list (map vu_size (drop j (vb_units buf))) + sz) \<and>
     (k = length (vb_units buf) \<or>
      sum_list (map vu_size (drop k (vb_units buf))) + sz \<le> vb_capacity buf)"

lemma evict_partition_spec:
  assumes "vb.wf buf"
  shows "\<exists>k. fifo_suffix sz buf k \<and> vb.wf (evict_partition sz buf) \<and>
     vb_units (evict_partition sz buf) = drop k (vb_units buf) \<and>
     vb_capacity (evict_partition sz buf) = vb_capacity buf \<and>
     vb_total_access_cnt (evict_partition sz buf) = vb_total_access_cnt buf \<and>
     vb_hit_cnt (evict_partition sz buf) = vb_hit_cnt buf"
  using assms
proof (induction sz buf rule: evict_partition.induct)
  case (1 sz buf)
  have tot: "vb_size buf = sum_list (map vu_size (vb_units buf))"
    using "1.prems" by (simp add: vb.wf_def cache_wf_def)
  show ?case
  proof (cases "vb_units buf \<noteq> [] \<and> vb_size buf + sz > vb_capacity buf")
    case True
    then obtain u us where us: "vb_units buf = u # us" by (cases "vb_units buf") auto
    have "vb.wf (vb_unlink 0 buf)" using "1.prems" True by (intro vb.wf_unlink) auto
    with "1.IH" True obtain k where
      k: "fifo_suffix sz (vb_unlink 0 buf) k" "vb.wf (evict_partition sz (vb_unlink 0 buf))"
         "vb_units (evict_partition sz (vb_unlink 0 buf)) = drop k us"
         "vb_capacity (evict_partition sz (vb_unlink 0 buf)) = vb_capacity buf"
         "vb_total_access_cnt (evict_partition sz (vb_unlink 0 buf)) = vb_total_access_cnt buf"
         "vb_hit_cnt (evict_partition sz (vb_unlink 0 buf)) = vb_hit_cnt buf"
      using us by (auto simp: vb_unlink_def)
    have "fifo_suffix sz buf (Suc k)"
      using k(1) us True tot
      by (auto simp: fifo_suffix_def vb_unlink_def less_Suc_eq_0_disj)
    then show ?thesis
      using k us True by (intro exI [of _ "Suc k"]) (simp add: evict_partition.simps [of sz buf])
  next
    case False
    then have "fifo_suffix sz buf 0" using tot by (auto simp: fifo_suffix_def)
    with False "1.prems" show ?thesis
      by (intro exI [of _ 0]) (auto simp: evict_partition.simps [of sz buf])
  qed
qed

lemma evict_partition_keys:
  "vb.wf buf \<Longrightarrow> k \<notin> vu_key ` set (vb_units buf) \<Longrightarrow>
   k \<notin> vu_key ` set (vb_units (evict_partition sz buf))"
  using evict_partition_spec [of buf sz] by (auto dest!: in_set_dropD)

text \<open>Room is made for the clamped sz of the new unit.\<close>

lemma evict_partition_room:
  assumes "vb.wf buf" and "0 \<le> vb_capacity buf" and "0 \<le> sz"
  shows "vb_size (evict_partition sz buf) + min sz (vb_capacity buf) \<le> vb_capacity buf"
proof -
  obtain k where k: "fifo_suffix sz buf k" "vb.wf (evict_partition sz buf)"
      "vb_units (evict_partition sz buf) = drop k (vb_units buf)"
    using evict_partition_spec [OF assms(1)] by blast
  then have "vb_size (evict_partition sz buf) = sum_list (map vu_size (drop k (vb_units buf)))"
    by (simp add: vb.wf_def cache_wf_def)
  with k(1) assms show ?thesis by (auto simp: fifo_suffix_def)
qed

lemma vertex_wf_access:
  assumes wf: "vertex_wf buf" and pos: "0 \<le> sz"
  shows "vertex_wf (snd (access_partition ok pid v sz buf)) \<and>
     vb_capacity (snd (access_partition ok pid v sz buf)) = vb_capacity buf"
proof (cases "sz = 0 \<or> get_partition_size buf pid v \<noteq> -1")
  case True
  with wf show ?thesis by (auto simp: access_partition_def vertex_wf_def Let_def)
next
  case False
  let ?e = "evict_partition sz buf"
  let ?u = "\<lparr>vu_size = min sz (vb_capacity buf), vu_pid = pid, vu_version = v\<rparr>"
  from wf have w: "vb.wf buf" and le: "vb_size buf \<le> vb_capacity buf" by (auto simp: vb_wf_iff)
  have cap: "0 \<le> vb_capacity buf" using vb.used_nonneg [OF w] le by simp
  obtain k where e: "vb.wf ?e" "vb_capacity ?e = vb_capacity buf"
    using evict_partition_spec [OF w] by blast
  have "(pid, v) \<notin> vu_key ` set (vb_units ?e)"
    using False evict_partition_keys [OF w] vb.lookup_none_iff [OF w]
    by (simp add: get_partition_size_lookup)
  then have "vb.wf (vb_link ?u ?e)"
    using e cap pos by (intro vb.wf_link) (auto simp: vu_key_def)
  moreover note evict_partition_room [OF w cap pos]
  ultimately show ?thesis
    using False e cap pos
    by (auto simp: access_partition_def vb_wf_iff vb.wf_def vb_link_def Let_def min_def)
qed

section \<open>Properties\<close>

text \<open>
  Every access, successful or not, keeps the vertex cache well formed: the byte counter is
  the sum of the cached units, no partition version is cached twice, and the counter stays
  within the capacity.
\<close>

theorem access_partition_wf:
  assumes wf: "vertex_wf buf" and pos: "0 \<le> sz"
  shows "vertex_wf (snd (access_partition ok pid v sz buf)) \<and>
     vb_capacity (snd (access_partition ok pid v sz buf)) = vb_capacity buf"
  using assms by (rule vertex_wf_access)

theorem access_partition_wf_witness:
  "vertex_wf (vertex_buffer_init 8192) \<and>
   vertex_wf (snd (access_partition True 1 0 4096 (vertex_buffer_init 8192)))"
proof -
  have wf: "vertex_wf (vertex_buffer_init 8192)"
    by (simp add: vertex_wf_def cache_wf_def vertex_buffer_init_def)
  have pos: "(0::int) \<le> 4096" by simp
  show ?thesis using wf access_partition_wf [OF wf pos, of True 1 0] by blast
qed

text \<open>
  C32: what an access returns and does to the cache. On a miss it returns the whole size, drops
  the shortest run of oldest partitions that makes room and appends the new one, clamped to the
  capacity, and counts the pages of the request as accessed; on a hit it returns 0, counts the pages of the
  cached partition as accessed and as hit, and changes nothing else; in both cases the byte counter is the
  sum of the cached units, the capacity stays, and a further access to the same partition version costs
  nothing.
\<close>

theorem access_partition_spec:
  assumes wf: "vertex_wf buf" and pos: "0 < sz"
    and r_def: "r = access_partition True pid v sz buf"
  shows "(get_partition_size buf pid v = -1 \<longrightarrow>
            fst r = sz \<and>
            (\<exists>k. fifo_suffix sz buf k \<and> vb_units (snd r) = drop k (vb_units buf) @
               [\<lparr>vu_size = min sz (vb_capacity buf), vu_pid = pid, vu_version = v\<rparr>]) \<and>
            vb_total_access_cnt (snd r) = vb_total_access_cnt buf + div_page sz \<and>
            vb_hit_cnt (snd r) = vb_hit_cnt buf) \<and>
         (get_partition_size buf pid v \<noteq> -1 \<longrightarrow>
            r = (0, \<lparr>vb_units = vb_units buf, vb_size = vb_size buf, vb_capacity = vb_capacity buf,
                     vb_total_access_cnt = vb_total_access_cnt buf + div_page (get_partition_size buf pid v),
                     vb_hit_cnt = vb_hit_cnt buf + div_page (get_partition_size buf pid v)\<rparr>)) \<and>
         vb_size (snd r) = sum_list (map vu_size (vb_units (snd r))) \<and> vb_capacity (snd r) = vb_capacity buf \<and>
         (\<forall>sz' ok. fst (access_partition ok pid v sz' (snd r)) = 0)"
proof (cases "get_partition_size buf pid v = -1")
  case False
  then have r: "r = (0, buf\<lparr>vb_hit_cnt := vb_hit_cnt buf + div_page (get_partition_size buf pid v),
      vb_total_access_cnt := vb_total_access_cnt buf + div_page (get_partition_size buf pid v)\<rparr>)"
    using pos by (simp add: r_def access_partition_def Let_def)
  moreover from r have "get_partition_size (snd r) pid v = get_partition_size buf pid v"
    by (simp add: get_partition_size_def)
  moreover have "vb_size buf = sum_list (map vu_size (vb_units buf))" using wf by (simp add: vertex_wf_def cache_wf_def)
  ultimately show ?thesis using False by (auto simp: access_partition_def [of _ pid v] Let_def)
next
  case True
  let ?e = "evict_partition sz buf"
  let ?u = "\<lparr>vu_size = min sz (vb_capacity buf), vu_pid = pid, vu_version = v\<rparr>"
  from wf have w: "vb.wf buf" by (simp add: vb_wf_iff)
  obtain k where e: "fifo_suffix sz buf k" "vb.wf ?e" "vb_units ?e = drop k (vb_units buf)"
      "vb_capacity ?e = vb_capacity buf" "vb_total_access_cnt ?e = vb_total_access_cnt buf" "vb_hit_cnt ?e = vb_hit_cnt buf"
    using evict_partition_spec [OF w] by blast
  have sum: "vb_size ?e = sum_list (map vu_size (vb_units ?e))" using e(2) by (simp add: vb.wf_def cache_wf_def)
  have r: "r = (sz, (vb_link ?u ?e)\<lparr>vb_total_access_cnt := vb_total_access_cnt buf + div_page sz\<rparr>)"
    using True pos e by (simp add: r_def access_partition_def Let_def vb_link_def min_def)
  have "(pid, v) \<notin> vu_key ` set (vb_units ?e)"
    using True evict_partition_keys [OF w] vb.lookup_none_iff [OF w]
    by (simp add: get_partition_size_lookup)
  then have "get_partition_size (vb_link ?u ?e) pid v = vu_size ?u"
    using vb.lookup_link_same [of ?u "(pid, v)" ?e] by (simp add: get_partition_size_lookup vu_key_def)
  then have "get_partition_size (snd r) pid v \<noteq> -1"
    using r pos wf vb.used_nonneg [OF w] by (auto simp: get_partition_size_def vb_wf_iff)
  then show ?thesis
    using True r e sum by (auto simp: access_partition_def [of _ pid v] Let_def vb_link_def)
qed

theorem access_partition_spec_witness:
  "\<exists>buf. vertex_wf buf \<and> get_partition_size buf 2 0 = -1 \<and>
     fst (access_partition True 2 0 4096 buf) = 4096 \<and>
     fst (access_partition True 2 0 4096 (snd (access_partition True 2 0 4096 buf))) = 0 \<and>
     get_partition_size buf 1 0 = 4096 \<and> vb_hit_cnt (snd (access_partition True 1 0 4096 buf)) = 1"
proof -
  define buf where "buf = \<lparr>vb_units = [\<lparr>vu_size = 4096, vu_pid = 1, vu_version = 0\<rparr>], vb_size = 4096,
     vb_capacity = 6000, vb_total_access_cnt = 1, vb_hit_cnt = 0\<rparr>"
  have wf: "vertex_wf buf" by (simp add: buf_def vertex_wf_def cache_wf_def)
  have pos: "(0::int) < 4096" by simp
  have miss: "get_partition_size buf 2 0 = -1" by (simp add: buf_def get_partition_size_def)
  have hit: "get_partition_size buf 1 0 = 4096" by (simp add: buf_def get_partition_size_def)
  have "vb_hit_cnt (snd (access_partition True 1 0 4096 buf)) = 1"
    using access_partition_spec [OF wf pos refl, of 1 0] unfolding hit by (simp add: div_page_def buf_def)
  then show ?thesis
    using wf miss hit access_partition_spec [OF wf pos refl, of 2 0] by blast
qed

end
