(* ===== verification/Edge_Buffer.thy ===== *)
theory Edge_Buffer
  imports NV_Prelude
begin

text \<open>
  The edge cache of the device, \<^verbatim>\<open>core/csd_edge_buffer.c\<close>: edge blocks identified by row and
  column, evicted by a configurable policy, wholly or in part, with a priority order that
  protects blocks that will be needed sooner from prefetches of blocks needed later. The module
  parameters are a record; the aggregation flags (\<^verbatim>\<open>bool* aggregated\<close>) are a function of the
  row; the outcome of \<^verbatim>\<open>kmalloc\<close> is an argument. Fields of C type \<^verbatim>\<open>float\<close> are rationals:
  \<^verbatim>\<open>0.1\<close> as a \<^verbatim>\<open>float\<close> is \<open>13421773 / 2 ^ 27\<close>.
\<close>

section \<open>Data\<close>

record csd_params =
  cache_eviction_policy :: string
  partial_edge_eviction :: int
  invalidation_at_future_value :: int
  edge_buffer_size :: u64

record edge_buffer_unit =
  eu_size :: int
  eu_r :: int
  eu_c :: int
  is_prefetched_normal :: int

record edge_buffer =
  eb_units :: "edge_buffer_unit list"
  eb_size :: int
  eb_capacity :: int
  eb_total_access_cnt :: int
  eb_hit_cnt :: int
  prefetched_r :: int
  prefetched_c :: int
  prefetched_iter :: int
  prefetched_priority :: int
  prefetched_size :: int
  total_prefetch_cnt :: int
  prefetch_hit_cnt :: int
  total_prefetch_block_cnt :: int
  prefetch_block_hit_cnt :: int
  prefetch_priority_cnt :: "int list"
  prefetch_block_cnt_arr :: "int list"
  prefetch_block_hit_cnt_arr :: "int list"
  ema_aggr :: int
  alpha_aggr :: rat
  aggr_start_time :: "int list"
  pr_reverse :: bool
  edge_proc_time :: int
  edge_internal_io_time :: int
  edge_external_io_time :: int

definition MAX_PARTITION :: nat where
  "MAX_PARTITION = 128"

section \<open>Operations\<close>

definition edge_buffer_init :: "csd_params \<Rightarrow> edge_buffer" where
  "edge_buffer_init P =
     \<lparr>eb_units = [], eb_size = 0, eb_capacity = sint (edge_buffer_size P),
      eb_total_access_cnt = 0, eb_hit_cnt = 0,
      prefetched_r = -1, prefetched_c = -1, prefetched_iter = -1, prefetched_priority = -1,
      prefetched_size = 0, total_prefetch_cnt = 0, prefetch_hit_cnt = 0,
      total_prefetch_block_cnt = 0, prefetch_block_hit_cnt = 0,
      prefetch_priority_cnt = replicate 7 0, prefetch_block_cnt_arr = replicate 7 0,
      prefetch_block_hit_cnt_arr = replicate 7 0,
      ema_aggr = 0, alpha_aggr = 13421773 / 134217728,
      aggr_start_time = replicate MAX_PARTITION (-1), pr_reverse = False,
      edge_proc_time = 0, edge_internal_io_time = 0, edge_external_io_time = 0\<rparr>"

definition edge_buffer_destroy :: "edge_buffer \<Rightarrow> edge_buffer" where
  "edge_buffer_destroy buf =
     buf\<lparr>eb_units := [], eb_size := 0, eb_total_access_cnt := 0, eb_hit_cnt := 0,
         prefetched_r := -1, prefetched_c := -1, prefetched_iter := -1,
         prefetched_priority := -1, prefetched_size := 0, total_prefetch_cnt := 0,
         prefetch_hit_cnt := 0, total_prefetch_block_cnt := 0, prefetch_block_hit_cnt := 0,
         prefetch_priority_cnt := replicate 7 0, prefetch_block_cnt_arr := replicate 7 0,
         prefetch_block_hit_cnt_arr := replicate 7 0,
         ema_aggr := 0, alpha_aggr := 13421773 / 134217728,
         aggr_start_time := replicate MAX_PARTITION (-1), pr_reverse := False,
         edge_proc_time := 0, edge_internal_io_time := 0, edge_external_io_time := 0\<rparr>"

definition lower ::
  "edge_buffer_unit \<Rightarrow> edge_buffer_unit \<Rightarrow> (int \<Rightarrow> bool) \<Rightarrow> bool" where
  "lower unit evict_unit aggregated =
     (if is_prefetched_normal unit = 2 then True
      else if is_prefetched_normal evict_unit = 2 then False
      else if is_prefetched_normal evict_unit = 0 \<and> \<not> aggregated (eu_r evict_unit) then False
      else if is_prefetched_normal unit = 0 \<and> \<not> aggregated (eu_r unit) then True
      else if is_prefetched_normal unit = 1 then True
      else if is_prefetched_normal evict_unit = 1 then False
      else False)"

definition lower_reverse ::
  "edge_buffer_unit \<Rightarrow> edge_buffer_unit \<Rightarrow> (int \<Rightarrow> bool) \<Rightarrow> bool" where
  "lower_reverse unit evict_unit aggregated =
     (if is_prefetched_normal unit = 2 then True
      else if is_prefetched_normal evict_unit = 2 then False
      else if is_prefetched_normal unit = 1 then True
      else if is_prefetched_normal evict_unit = 1 then False
      else if is_prefetched_normal evict_unit = 0 \<and> \<not> aggregated (eu_r evict_unit) then False
      else if is_prefetched_normal unit = 0 \<and> \<not> aggregated (eu_r unit) then True
      else False)"

definition get_edge_block_size :: "edge_buffer \<Rightarrow> int \<Rightarrow> int \<Rightarrow> int" where
  "get_edge_block_size buf r c =
     (case find (\<lambda>u. eu_r u = r \<and> eu_c u = c) (eb_units buf) of
        Some u \<Rightarrow> eu_size u
      | None \<Rightarrow> -1)"

text \<open>\<^verbatim>\<open>buf->size -= unit->size; list_del(&unit->list); kfree(unit)\<close>\<close>

definition eb_unlink :: "nat \<Rightarrow> edge_buffer \<Rightarrow> edge_buffer" where
  "eb_unlink i buf =
     buf\<lparr>eb_size := eb_size buf - eu_size (eb_units buf ! i),
         eb_units := remove_nth i (eb_units buf)\<rparr>"

text \<open>\<^verbatim>\<open>buf->size += unit->size; list_add_tail(&unit->list, &buf->head)\<close>\<close>

definition eb_link :: "edge_buffer_unit \<Rightarrow> edge_buffer \<Rightarrow> edge_buffer" where
  "eb_link u buf =
     buf\<lparr>eb_size := eb_size buf + eu_size u, eb_units := eb_units buf @ [u]\<rparr>"

definition invalidate_edge_block :: "edge_buffer \<Rightarrow> int \<Rightarrow> int \<Rightarrow> edge_buffer" where
  "invalidate_edge_block buf r c =
     (case find_idx (\<lambda>u. eu_r u = r \<and> eu_c u = c) (eb_units buf) of
        Some i \<Rightarrow> eb_unlink i buf
      | None \<Rightarrow> buf)"

definition invalidate_edge_block_fifo :: "edge_buffer \<Rightarrow> edge_buffer" where
  "invalidate_edge_block_fifo buf = (if eb_units buf = [] then buf else eb_unlink 0 buf)"

text \<open>The \<^verbatim>\<open>PRIORITY\<close> scan: \<^verbatim>\<open>evict_unit\<close> (\<open>None\<close> for \<^verbatim>\<open>NULL\<close>) with its position.\<close>

fun priority_scan ::
  "(int \<Rightarrow> bool) \<Rightarrow> nat \<Rightarrow> (nat \<times> edge_buffer_unit) option \<Rightarrow> edge_buffer_unit list
     \<Rightarrow> (nat \<times> edge_buffer_unit) option" where
  "priority_scan aggregated i evict_unit [] = evict_unit"
| "priority_scan aggregated i evict_unit (u # us) =
     priority_scan aggregated (Suc i)
       (case evict_unit of
          None \<Rightarrow> Some (i, u)
        | Some (j, e) \<Rightarrow> if lower u e aggregated then Some (i, u) else evict_unit) us"

definition victim_idx :: "csd_params \<Rightarrow> (int \<Rightarrow> bool) \<Rightarrow> edge_buffer_unit list \<Rightarrow> nat" where
  "victim_idx P aggregated us =
     (if cache_eviction_policy P = ''LIFO'' then length us - 1
      else if cache_eviction_policy P = ''FIFO'' then 0
      else if cache_eviction_policy P = ''PRIORITY'' then
        (case priority_scan aggregated 0 None us of None \<Rightarrow> 0 | Some (i, _) \<Rightarrow> i)
      else 0)"

section \<open>The priority order\<close>

text \<open>
  The classes behind \<^verbatim>\<open>lower\<close>, in the order in which blocks are given up: prefetched for the
  next iteration, future blocks whose row is not aggregated yet, prefetched for this iteration,
  everything else.
\<close>

definition evict_class :: "(int \<Rightarrow> bool) \<Rightarrow> edge_buffer_unit \<Rightarrow> nat" where
  "evict_class aggregated u =
     (if is_prefetched_normal u = 2 then 0
      else if is_prefetched_normal u = 0 \<and> \<not> aggregated (eu_r u) then 1
      else if is_prefetched_normal u = 1 then 2 else 3)"

definition evict_class_reverse :: "(int \<Rightarrow> bool) \<Rightarrow> edge_buffer_unit \<Rightarrow> nat" where
  "evict_class_reverse aggregated u =
     (if is_prefetched_normal u = 2 then 0
      else if is_prefetched_normal u = 1 then 1
      else if is_prefetched_normal u = 0 \<and> \<not> aggregated (eu_r u) then 2 else 3)"

lemma lower_iff:
  "lower u e agg \<longleftrightarrow> evict_class agg u < evict_class agg e \<or>
     evict_class agg u = evict_class agg e \<and> evict_class agg u \<in> {0, 2}"
  by (auto simp: lower_def evict_class_def)

lemma lower_reverse_iff:
  "lower_reverse u e agg \<longleftrightarrow> evict_class_reverse agg u < evict_class_reverse agg e \<or>
     evict_class_reverse agg u = evict_class_reverse agg e \<and> evict_class_reverse agg u \<in> {0, 1}"
  by (auto simp: lower_reverse_def evict_class_reverse_def)

lemma evict_class_le3: "evict_class agg u \<le> 3"
  by (simp add: evict_class_def)

text \<open>
  Position \<open>i\<close> holds the unit the priority policy gives up: of the lowest class present, the
  last one for the two prefetch classes (last-in first-out), the first one otherwise.
\<close>

definition is_victim :: "(int \<Rightarrow> bool) \<Rightarrow> edge_buffer_unit list \<Rightarrow> nat \<Rightarrow> bool" where
  "is_victim agg us i \<longleftrightarrow> i < length us \<and>
     (\<forall>j < length us. evict_class agg (us ! i) \<le> evict_class agg (us ! j)) \<and>
     (evict_class agg (us ! i) \<in> {0, 2} \<longrightarrow>
        (\<forall>j. i < j \<and> j < length us \<longrightarrow> evict_class agg (us ! i) < evict_class agg (us ! j))) \<and>
     (evict_class agg (us ! i) \<notin> {0, 2} \<longrightarrow>
        (\<forall>j < i. evict_class agg (us ! i) < evict_class agg (us ! j)))"

lemma is_victim_snoc:
  assumes "is_victim agg us i"
  shows "is_victim agg (us @ [u]) (if lower u (us ! i) agg then length us else i)"
proof (cases "lower u (us ! i) agg")
  case True
  then have "evict_class agg u \<le> evict_class agg (us ! j)" if "j < length us" for j
    using assms that by (force simp: is_victim_def lower_iff)
  moreover have "evict_class agg u < evict_class agg (us ! j)"
    if "j < length us" "evict_class agg u \<notin> {0, 2}" for j
    using assms that True by (fastforce simp: is_victim_def lower_iff)
  ultimately show ?thesis using True by (auto simp: is_victim_def nth_append)
next
  case False
  then have "evict_class agg (us ! i) \<le> evict_class agg u"
    "evict_class agg (us ! i) \<in> {0, 2} \<longrightarrow> evict_class agg (us ! i) < evict_class agg u"
    by (auto simp: lower_iff)
  with assms False show ?thesis
    by (auto simp: is_victim_def nth_append)
qed

lemma priority_scan_victim:
  assumes "is_victim agg ps j"
  shows "\<exists>k. priority_scan agg (length ps) (Some (j, ps ! j)) us = Some (k, (ps @ us) ! k) \<and>
     is_victim agg (ps @ us) k"
  using assms
proof (induction us arbitrary: ps j)
  case Nil
  then show ?case by simp
next
  case (Cons u us)
  let ?j = "if lower u (ps ! j) agg then length ps else j"
  have "j < length ps" using Cons.prems by (simp add: is_victim_def)
  then have "priority_scan agg (length ps) (Some (j, ps ! j)) (u # us) =
      priority_scan agg (length (ps @ [u])) (Some (?j, (ps @ [u]) ! ?j)) us"
    by (simp add: nth_append)
  with Cons.IH [OF is_victim_snoc [OF Cons.prems]] show ?case by simp
qed

lemma priority_scan_None:
  "us \<noteq> [] \<Longrightarrow> \<exists>k. priority_scan agg 0 None us = Some (k, us ! k) \<and> is_victim agg us k"
proof (cases us)
  case (Cons u vs)
  have "is_victim agg [u] 0" by (auto simp: is_victim_def)
  from priority_scan_victim [OF this, of vs] Cons show ?thesis by simp
qed simp

lemma victim_idx_less [simp]: "us \<noteq> [] \<Longrightarrow> victim_idx P agg us < length us"
  using priority_scan_None [of us agg] by (auto simp: victim_idx_def is_victim_def)

section \<open>Eviction and access\<close>

text \<open>\<^verbatim>\<open>unit->size -= diff; buf->size -= diff\<close>\<close>

definition eb_shrink :: "nat \<Rightarrow> int \<Rightarrow> edge_buffer \<Rightarrow> edge_buffer" where
  "eb_shrink i diff buf =
     (let unit = eb_units buf ! i in
      buf\<lparr>eb_units := (eb_units buf)[i := unit\<lparr>eu_size := eu_size unit - diff\<rparr>],
          eb_size := eb_size buf - diff\<rparr>)"

text \<open>
  The loop of \<^verbatim>\<open>evict_edge_block\<close>. Every round either stops, or shrinks the victim and stops,
  or unlinks the victim, so the number of units bounds the rounds.
\<close>

function evict_loop ::
  "csd_params \<Rightarrow> (int \<Rightarrow> bool) \<Rightarrow> edge_buffer_unit \<Rightarrow> int \<Rightarrow> edge_buffer \<Rightarrow> edge_buffer" where
  "evict_loop P aggregated ins is_prefetch buf =
     (let sz = eu_size ins in
      if eb_units buf \<noteq> [] \<and> eb_size buf + sz > eb_capacity buf then
        (let i = victim_idx P aggregated (eb_units buf);
             unit = eb_units buf ! i in
         if is_prefetch \<noteq> 0 \<and> \<not> pr_reverse buf \<and> lower ins unit aggregated then buf
         else if is_prefetch \<noteq> 0 \<and> pr_reverse buf \<and> lower_reverse ins unit aggregated then buf
         else if partial_edge_eviction P \<noteq> 0 then
           (if eb_size buf - eu_size unit + sz \<ge> eb_capacity buf
            then evict_loop P aggregated ins is_prefetch (eb_unlink i buf)
            else
              (let diff = eb_size buf + sz - eb_capacity buf in eb_shrink i diff buf))
         else evict_loop P aggregated ins is_prefetch (eb_unlink i buf))
      else buf)"
  by pat_completeness auto
termination
  by (relation "measure (\<lambda>(_, _, _, _, buf). length (eb_units buf))")
    (auto simp: eb_unlink_def)

declare evict_loop.simps [simp del]

definition evict_edge_block ::
  "csd_params \<Rightarrow> (int \<Rightarrow> bool) \<Rightarrow> edge_buffer_unit \<Rightarrow> int \<Rightarrow> edge_buffer \<Rightarrow> int \<times> edge_buffer" where
  "evict_edge_block P aggregated ins is_prefetch buf =
     (let buf = evict_loop P aggregated ins is_prefetch buf
      in (eb_capacity buf - eb_size buf, buf))"

definition access_edge_block ::
  "csd_params \<Rightarrow> bool \<Rightarrow> (int \<Rightarrow> bool) \<Rightarrow> int \<Rightarrow> int \<Rightarrow> int \<Rightarrow> int \<Rightarrow> edge_buffer \<Rightarrow> int \<times> edge_buffer"
where
  "access_edge_block P kmalloc_ok aggregated r c sz is_prefetch buf =
     (if sz = 0 then (0, buf)
      else if \<not> kmalloc_ok then (-1, buf)
      else
        let unit = \<lparr>eu_size = (if sz > eb_capacity buf then eb_capacity buf else sz),
                    eu_r = r, eu_c = c,
                    is_prefetched_normal =
                      (if is_prefetch = 2 \<or> is_prefetch = 3 then is_prefetch - 1 else 0)\<rparr>;
            sz = (if is_prefetch \<noteq> 0 then (if sz > eb_capacity buf then eb_capacity buf else sz)
                  else sz);
            curr_size = get_edge_block_size buf r c
        in
        if curr_size = -1 then
          (let (evicted_size, buf) = evict_edge_block P aggregated unit is_prefetch buf;
               (unit, buf) =
                 (if is_prefetch = 0
                  then (unit, buf\<lparr>eb_total_access_cnt := eb_total_access_cnt buf + div_page sz\<rparr>)
                  else (unit\<lparr>eu_size := min (eu_size unit) evicted_size\<rparr>, buf))
           in (sz, eb_link unit buf))
        else
          (let buf = invalidate_edge_block buf r c;
               (evicted_size, buf) =
                 (if partial_edge_eviction P \<noteq> 0
                  then evict_edge_block P aggregated unit is_prefetch buf else (0, buf));
               (unit, buf) =
                 (if is_prefetch = 0
                  then (unit, buf\<lparr>eb_hit_cnt := eb_hit_cnt buf + div_page curr_size,
                                  eb_total_access_cnt := eb_total_access_cnt buf + div_page sz\<rparr>)
                  else (unit\<lparr>eu_size := min (eu_size unit) evicted_size\<rparr>, buf))
           in (sz - curr_size, eb_link unit buf)))"

definition eu_key :: "edge_buffer_unit \<Rightarrow> int \<times> int" where
  "eu_key u = (eu_r u, eu_c u)"

lemmas [cache_defs] = eb_unlink_def eb_link_def eu_key_def

section \<open>The cache contract\<close>

interpretation eb: sized_cache eb_units eb_size eb_capacity eu_size eu_key eb_unlink eb_link
  by unfold_locales (auto simp: cache_defs)

definition edge_wf :: "edge_buffer \<Rightarrow> bool" where
  "edge_wf buf \<longleftrightarrow> cache_wf eu_size eu_key (eb_units buf) (eb_size buf) \<and>
     eb_size buf \<le> eb_capacity buf"

lemma eb_wf_iff: "edge_wf buf \<longleftrightarrow> eb.wf buf \<and> eb_size buf \<le> eb_capacity buf"
  by (simp add: edge_wf_def eb.wf_def)

lemma get_edge_block_size_lookup: "get_edge_block_size buf r c = eb.lookup buf (r, c)"
  by (simp add: get_edge_block_size_def eb.lookup_def cache_lookup_def eu_key_def
      split: option.split)

text \<open>
  What eviction may do to a cache: keep every configuration field and counter, and keep or shrink
  units without inventing any.
\<close>

definition shrunk :: "edge_buffer \<Rightarrow> edge_buffer \<Rightarrow> bool" where
  "shrunk buf buf' \<longleftrightarrow>
     buf'\<lparr>eb_units := [], eb_size := 0\<rparr> = buf\<lparr>eb_units := [], eb_size := 0\<rparr> \<and>
     eb_size buf' \<le> eb_size buf \<and>
     (\<forall>u' \<in> set (eb_units buf'). \<exists>u \<in> set (eb_units buf). eu_key u' = eu_key u \<and>
        is_prefetched_normal u' = is_prefetched_normal u \<and> eu_size u' \<le> eu_size u)"

lemma shrunk_refl [simp]: "shrunk buf buf"
  by (auto simp: shrunk_def)

lemma shrunk_trans: "shrunk a b \<Longrightarrow> shrunk b c \<Longrightarrow> shrunk a c"
  unfolding shrunk_def by (elim conjE, intro conjI) (simp, simp, metis order_trans)

lemma shrunk_fields:
  assumes "shrunk buf buf'"
  shows "eb_capacity buf' = eb_capacity buf" "pr_reverse buf' = pr_reverse buf"
    "eb_hit_cnt buf' = eb_hit_cnt buf" "eb_total_access_cnt buf' = eb_total_access_cnt buf"
    "prefetched_priority buf' = prefetched_priority buf"
proof -
  have e: "buf'\<lparr>eb_units := [], eb_size := 0\<rparr> = buf\<lparr>eb_units := [], eb_size := 0\<rparr>"
    using assms by (simp add: shrunk_def)
  from arg_cong [OF e, of eb_capacity] show "eb_capacity buf' = eb_capacity buf" by simp
  from arg_cong [OF e, of pr_reverse] show "pr_reverse buf' = pr_reverse buf" by simp
  from arg_cong [OF e, of eb_hit_cnt] show "eb_hit_cnt buf' = eb_hit_cnt buf" by simp
  from arg_cong [OF e, of eb_total_access_cnt]
  show "eb_total_access_cnt buf' = eb_total_access_cnt buf" by simp
  from arg_cong [OF e, of prefetched_priority]
  show "prefetched_priority buf' = prefetched_priority buf" by simp
qed

lemma shrunk_keys: "shrunk buf buf' \<Longrightarrow> eu_key ` set (eb_units buf') \<subseteq> eu_key ` set (eb_units buf)"
  by (auto simp: shrunk_def)

lemma shrunk_unlink:
  "eb.wf buf \<Longrightarrow> i < length (eb_units buf) \<Longrightarrow> shrunk buf (eb_unlink i buf)"
  using eb.unlink_used_le [of buf i] set_remove_nth_subset [of i "eb_units buf"]
  by (force simp: shrunk_def cache_defs)

lemma shrunk_lookup:
  assumes "eb.wf buf" and "eb.wf buf'" and "shrunk buf buf'"
  shows "eb.lookup buf' k \<le> eb.lookup buf k"
proof (cases "k \<in> eu_key ` set (eb_units buf')")
  case False
  then show ?thesis
    using eb.lookup_none_iff [OF assms(2), of k] eb.lookup_ge [OF assms(1), of k] by simp
next
  case True
  then obtain u' where u': "find (\<lambda>u. eu_key u = k) (eb_units buf') = Some u'"
    by (cases "find (\<lambda>u. eu_key u = k) (eb_units buf')") (auto simp: find_None_iff)
  with assms(3) obtain u where u: "u \<in> set (eb_units buf)" "eu_key u = k" "eu_size u' \<le> eu_size u"
    using find_SomeD [OF u'] by (auto simp: shrunk_def)
  then obtain v where v: "find (\<lambda>u. eu_key u = k) (eb_units buf) = Some v"
    by (cases "find (\<lambda>u. eu_key u = k) (eb_units buf)") (auto simp: find_None_iff)
  have "v = u"
    using find_SomeD [OF v] u assms(1)
    by (auto simp: eb.wf_def cache_wf_def distinct_map dest: inj_onD)
  with u u' v show ?thesis by (simp add: eb.lookup_def cache_lookup_def)
qed

text \<open>The partial eviction of the victim, as a transformation of the cache.\<close>

lemma wf_shrink:
  assumes "eb.wf buf" and "i < length (eb_units buf)" and "0 \<le> d" and "d \<le> eu_size (eb_units buf ! i)"
  shows "eb.wf (eb_shrink i d buf)" and "shrunk buf (eb_shrink i d buf)"
proof -
  let ?u = "eb_units buf ! i" and ?b = "eb_shrink i d buf"
  have "map eu_key (eb_units ?b) = map eu_key (eb_units buf)"
    using assms(2) by (simp add: eb_shrink_def Let_def map_update eu_key_def list_update_same_conv)
  moreover have "set (eb_units ?b) \<subseteq> insert (?u\<lparr>eu_size := eu_size ?u - d\<rparr>) (set (eb_units buf))"
    using set_update_subset_insert by (simp add: eb_shrink_def Let_def)
  moreover have "?u \<in> set (eb_units buf)" using assms(2) by simp
  moreover have "sum_list (map eu_size (eb_units ?b)) = eb_size buf - d"
    using assms(1,2)
    by (simp add: eb_shrink_def Let_def map_update sum_list_update_int eb.wf_def cache_wf_def)
  ultimately show "eb.wf (eb_shrink i d buf)" "shrunk buf (eb_shrink i d buf)"
    using assms(1,3,4) unfolding eb.wf_def cache_wf_def shrunk_def
    by (auto simp: eb_shrink_def Let_def eu_key_def) (force+)?
qed

text \<open>
  Which cached blocks a prefetch of the block \<open>ins\<close> must leave alone: those that are given up later than
  \<open>ins\<close> in the order of the classes, and those of the same class where the class is one of the two
  prefetch classes, in which the newest block is given up first.
\<close>

definition protected_from :: "edge_buffer \<Rightarrow> (int \<Rightarrow> bool) \<Rightarrow> edge_buffer_unit \<Rightarrow> edge_buffer_unit \<Rightarrow> bool"
where
  "protected_from buf agg ins u =
     (if pr_reverse buf
      then evict_class_reverse agg ins < evict_class_reverse agg u \<or>
           evict_class_reverse agg ins = evict_class_reverse agg u \<and> is_prefetched_normal u \<in> {1, 2}
      else evict_class agg ins < evict_class agg u \<or>
           evict_class agg ins = evict_class agg u \<and> is_prefetched_normal u \<in> {1, 2})"

lemma protected_from_iff:
  "protected_from buf agg ins u = (if pr_reverse buf then lower_reverse ins u agg else lower ins u agg)"
  by (auto simp: protected_from_def lower_def lower_reverse_def evict_class_def evict_class_reverse_def)

text \<open>The ways one round of the loop can go, for a victim at position \<open>i\<close>.\<close>

lemma evict_loop_cases:
  fixes P agg ins pf buf
  obtains
    (stop) "evict_loop P agg ins pf buf = buf"
      "pf \<noteq> 0 \<or> eb_units buf = [] \<or> eb_size buf + eu_size ins \<le> eb_capacity buf"
  | (shrink) i d where "evict_loop P agg ins pf buf = eb_shrink i d buf"
      "i < length (eb_units buf)" "d = eb_size buf + eu_size ins - eb_capacity buf" "0 < d"
      "d \<le> eu_size (eb_units buf ! i)" "pf \<noteq> 0 \<longrightarrow> \<not> protected_from buf agg ins (eb_units buf ! i)"
  | (unlink) i where "evict_loop P agg ins pf buf = evict_loop P agg ins pf (eb_unlink i buf)"
      "i < length (eb_units buf)" "pf \<noteq> 0 \<longrightarrow> \<not> protected_from buf agg ins (eb_units buf ! i)"
proof -
  let ?i = "victim_idx P agg (eb_units buf)"
  let ?u = "eb_units buf ! ?i"
  consider "\<not> (eb_units buf \<noteq> [] \<and> eb_size buf + eu_size ins > eb_capacity buf)"
    | "pf \<noteq> 0" "protected_from buf agg ins ?u"
    | "eb_units buf \<noteq> []" "eb_size buf + eu_size ins > eb_capacity buf"
      "pf \<noteq> 0 \<longrightarrow> \<not> protected_from buf agg ins ?u" "partial_edge_eviction P \<noteq> 0"
      "eb_size buf - eu_size ?u + eu_size ins < eb_capacity buf"
    | "eb_units buf \<noteq> []" "eb_size buf + eu_size ins > eb_capacity buf"
      "pf \<noteq> 0 \<longrightarrow> \<not> protected_from buf agg ins ?u"
      "partial_edge_eviction P = 0 \<or> eb_size buf - eu_size ?u + eu_size ins \<ge> eb_capacity buf"
    by linarith
  then show thesis
  proof cases
    case 1
    then show ?thesis by (intro stop) (auto simp: evict_loop.simps)
  next
    case 2
    then show ?thesis
      by (intro stop) (auto simp: evict_loop.simps Let_def protected_from_iff split: if_splits)
  next
    case 3
    then have "evict_loop P agg ins pf buf =
        eb_shrink ?i (eb_size buf + eu_size ins - eb_capacity buf) buf"
      by (subst evict_loop.simps) (auto simp: Let_def protected_from_iff split: if_splits)
    then show ?thesis using 3 by (intro shrink) auto
  next
    case 4
    then have "evict_loop P agg ins pf buf = evict_loop P agg ins pf (eb_unlink ?i buf)"
      by (subst evict_loop.simps) (auto simp: Let_def protected_from_iff split: if_splits)
    then show ?thesis using 4 by (intro unlink) auto
  qed
qed

lemma length_eb_unlink [simp]:
  "i < length (eb_units buf) \<Longrightarrow> length (eb_units (eb_unlink i buf)) < length (eb_units buf)"
  by (simp add: cache_defs)

lemma evict_loop_shrunk:
  "eb.wf buf \<Longrightarrow>
   eb.wf (evict_loop P agg ins pf buf) \<and> shrunk buf (evict_loop P agg ins pf buf)"
proof (induction "length (eb_units buf)" arbitrary: buf rule: less_induct)
  case less
  show ?case
  proof (cases rule: evict_loop_cases [of P agg ins pf buf])
    case stop
    then show ?thesis using less.prems by simp
  next
    case (shrink i d)
    then show ?thesis using wf_shrink [OF less.prems, of i d] by simp
  next
    case (unlink i)
    with less.hyps [OF length_eb_unlink eb.wf_unlink] less.prems shrunk_unlink [OF less.prems]
    show ?thesis by (auto intro: shrunk_trans)
  qed
qed

lemma evict_loop_room:
  "eb.wf buf \<Longrightarrow> eu_size ins \<le> eb_capacity buf \<Longrightarrow>
   eb_size (evict_loop P agg ins 0 buf) + eu_size ins \<le> eb_capacity buf"
proof (induction "length (eb_units buf)" arbitrary: buf rule: less_induct)
  case less
  show ?case
  proof (cases rule: evict_loop_cases [of P agg ins 0 buf])
    case stop
    then show ?thesis using less.prems eb.used_empty by auto
  next
    case (shrink i d)
    then show ?thesis by (simp add: eb_shrink_def Let_def)
  next
    case (unlink i)
    with less.hyps [OF length_eb_unlink eb.wf_unlink] less.prems
    show ?thesis by (auto simp: eb.cap_unlink)
  qed
qed





lemma invalidate_edge_block_wf:
  assumes "eb.wf buf"
  shows "eb.wf (invalidate_edge_block buf r c) \<and> shrunk buf (invalidate_edge_block buf r c) \<and>
    (r, c) \<notin> eu_key ` set (eb_units (invalidate_edge_block buf r c)) \<and>
    eb_size (invalidate_edge_block buf r c) = eb_size buf - max 0 (get_edge_block_size buf r c)"
proof (cases "find_idx (\<lambda>u. eu_r u = r \<and> eu_c u = c) (eb_units buf)")
  case None
  then have "get_edge_block_size buf r c = -1"
    unfolding get_edge_block_size_def find_idx_find by (simp only: option.map option.case)
  moreover have "invalidate_edge_block buf r c = buf"
    unfolding invalidate_edge_block_def None by (simp only: option.case)
  ultimately show ?thesis using None assms by (auto simp: eu_key_def)
next
  case (Some i)
  from find_idx_SomeD [OF Some] have i: "i < length (eb_units buf)" "eu_key (eb_units buf ! i) = (r, c)"
    by (auto simp: eu_key_def)
  have "get_edge_block_size buf r c = eu_size (eb_units buf ! i)"
    unfolding get_edge_block_size_def find_idx_find Some by (simp only: option.map option.case)
  moreover have "0 \<le> eu_size (eb_units buf ! i)"
    using assms i(1) by (simp add: eb.wf_def cache_wf_def)
  ultimately show ?thesis
    using Some i eb.wf_unlink [OF assms i(1)] shrunk_unlink [OF assms i(1)] eb.keys_unlink [OF assms i(1)]
      eb.used_unlink [of i buf]
    by (simp add: invalidate_edge_block_def)
qed

text \<open>The unit \<^verbatim>\<open>access_edge_block\<close> builds, and the two normal forms of its miss and hit paths.\<close>

definition new_unit :: "edge_buffer \<Rightarrow> int \<Rightarrow> int \<Rightarrow> int \<Rightarrow> int \<Rightarrow> edge_buffer_unit" where
  "new_unit buf r c sz pf =
     \<lparr>eu_size = min sz (eb_capacity buf), eu_r = r, eu_c = c,
      is_prefetched_normal = (if pf = 2 \<or> pf = 3 then pf - 1 else 0)\<rparr>"

definition kept :: "csd_params \<Rightarrow> (int \<Rightarrow> bool) \<Rightarrow> int \<Rightarrow> int \<Rightarrow> int \<Rightarrow> int \<Rightarrow> edge_buffer \<Rightarrow> edge_buffer" where
  "kept P agg r c sz pf buf =
     (if get_edge_block_size buf r c = -1
      then evict_loop P agg (new_unit buf r c sz pf) pf buf
      else if partial_edge_eviction P \<noteq> 0
      then evict_loop P agg (new_unit buf r c sz pf) pf (invalidate_edge_block buf r c)
      else invalidate_edge_block buf r c)"

definition granted :: "csd_params \<Rightarrow> (int \<Rightarrow> bool) \<Rightarrow> int \<Rightarrow> int \<Rightarrow> int \<Rightarrow> int \<Rightarrow> edge_buffer \<Rightarrow> int" where
  "granted P agg r c sz pf buf =
     (if pf = 0 then min sz (eb_capacity buf)
      else if get_edge_block_size buf r c \<noteq> -1 \<and> partial_edge_eviction P = 0
      then min (min sz (eb_capacity buf)) 0
      else min (min sz (eb_capacity buf))
             (eb_capacity (kept P agg r c sz pf buf) - eb_size (kept P agg r c sz pf buf)))"

definition count_access :: "int \<Rightarrow> int \<Rightarrow> int \<Rightarrow> edge_buffer \<Rightarrow> edge_buffer" where
  "count_access sz old pf buf =
     (if pf \<noteq> 0 then buf
      else if old = -1 then buf\<lparr>eb_total_access_cnt := eb_total_access_cnt buf + div_page sz\<rparr>
      else buf\<lparr>eb_hit_cnt := eb_hit_cnt buf + div_page old,
               eb_total_access_cnt := eb_total_access_cnt buf + div_page sz\<rparr>)"

lemma access_edge_block_eq:
  assumes "sz \<noteq> 0"
  shows "access_edge_block P True agg r c sz pf buf =
    ((if pf = 0 then sz else min sz (eb_capacity buf)) -
       (if get_edge_block_size buf r c = -1 then 0 else get_edge_block_size buf r c),
     eb_link ((new_unit buf r c sz pf)\<lparr>eu_size := granted P agg r c sz pf buf\<rparr>)
       (count_access sz (get_edge_block_size buf r c) pf (kept P agg r c sz pf buf)))"
proof -
  let ?s = "get_edge_block_size buf r c"
  have u: "\<lparr>eu_size = min sz (eb_capacity buf), eu_r = r, eu_c = c,
      is_prefetched_normal = (if pf = 2 \<or> pf = 3 then pf - 1 else 0)\<rparr> = new_unit buf r c sz pf"
    by (simp add: new_unit_def)
  have m: "(if sz > eb_capacity buf then eb_capacity buf else sz) = min sz (eb_capacity buf)"
    by simp
  have z: "eu_size (new_unit buf r c sz pf) = min sz (eb_capacity buf)"
    by (simp add: new_unit_def)
  have id: "(new_unit buf r c sz pf)\<lparr>eu_size := min sz (eb_capacity buf)\<rparr> = new_unit buf r c sz pf" for pf
    by (simp add: new_unit_def)
  note eq = access_edge_block_def evict_edge_block_def Let_def m u
  note defs = assms kept_def granted_def count_access_def z id
  consider "?s = -1" | "?s \<noteq> -1" "partial_edge_eviction P = 0" | "?s \<noteq> -1" "partial_edge_eviction P \<noteq> 0"
    by blast
  then show ?thesis
  proof cases
    case 1
    then show ?thesis unfolding eq by (cases "pf = 0") (simp_all add: defs)
  next
    case 2
    then show ?thesis unfolding eq by (cases "pf = 0") (simp_all add: defs)
  next
    case 3
    then show ?thesis unfolding eq by (cases "pf = 0") (simp_all add: defs)
  qed
qed

lemma kept_wf:
  assumes "eb.wf buf"
  shows "eb.wf (kept P agg r c sz pf buf)" "shrunk buf (kept P agg r c sz pf buf)"
    "(r, c) \<notin> eu_key ` set (eb_units (kept P agg r c sz pf buf))"
proof -
  let ?i = "invalidate_edge_block buf r c"
  note i = invalidate_edge_block_wf [OF assms, of r c]
  have k: "(r, c) \<notin> eu_key ` set (eb_units buf)" if "get_edge_block_size buf r c = -1"
    using that eb.lookup_none_iff [OF assms] by (simp add: get_edge_block_size_lookup)
  show "eb.wf (kept P agg r c sz pf buf)" "shrunk buf (kept P agg r c sz pf buf)"
    using assms i by (auto simp: kept_def evict_loop_shrunk intro: shrunk_trans)
  show "(r, c) \<notin> eu_key ` set (eb_units (kept P agg r c sz pf buf))"
    using k i shrunk_keys [of buf "evict_loop P agg (new_unit buf r c sz pf) pf buf"]
      shrunk_keys [of ?i "evict_loop P agg (new_unit buf r c sz pf) pf ?i"]
      evict_loop_shrunk [OF assms, of P agg "new_unit buf r c sz pf" pf]
      evict_loop_shrunk [of ?i P agg "new_unit buf r c sz pf" pf]
    unfolding kept_def by (simp split: if_split) blast
qed

text \<open>The room the new unit finds.\<close>

lemma granted_fits:
  assumes "edge_wf buf" and "0 < sz"
    and "partial_edge_eviction P \<noteq> 0 \<or> pf \<noteq> 0 \<or> get_edge_block_size buf r c = -1 \<or>
         min sz (eb_capacity buf) \<le> get_edge_block_size buf r c"
  shows "eb_size (kept P agg r c sz pf buf) + granted P agg r c sz pf buf \<le> eb_capacity buf"
    and "0 \<le> granted P agg r c sz pf buf"
proof -
  from assms(1) have w: "eb.wf buf" and fit: "eb_size buf \<le> eb_capacity buf"
    by (auto simp: eb_wf_iff)
  note i = invalidate_edge_block_wf [OF w, of r c]
  note kw = kept_wf [OF w, where P = P and agg = agg and r = r and c = c and sz = sz and pf = pf]
  have cap: "eb_capacity (kept P agg r c sz pf buf) = eb_capacity buf"
    using shrunk_fields(1) [OF kw(2)] .
  have le: "eb_size (kept P agg r c sz pf buf) \<le> eb_size buf" using kw(2) by (simp add: shrunk_def)
  have cap_i: "eb_capacity (invalidate_edge_block buf r c) = eb_capacity buf"
    using i shrunk_fields(1) by blast
  have u: "eu_size (new_unit buf r c sz pf) = min sz (eb_capacity buf)" by (simp add: new_unit_def)
  show "0 \<le> granted P agg r c sz pf buf"
    using assms(2) eb.used_nonneg [OF w] fit le cap by (auto simp: granted_def)
  show "eb_size (kept P agg r c sz pf buf) + granted P agg r c sz pf buf \<le> eb_capacity buf"
  proof (cases "pf = 0")
    case True
    then show ?thesis
      using assms(3) evict_loop_room [OF w, of "new_unit buf r c sz pf" P agg] u fit
        evict_loop_room [of "invalidate_edge_block buf r c" "new_unit buf r c sz pf" P agg] i cap_i
      by (auto simp: granted_def kept_def)
  next
    case False
    then show ?thesis using cap le fit by (auto simp: granted_def)
  qed
qed

lemma edge_wf_access:
  assumes "edge_wf buf" and "0 \<le> sz"
    and "partial_edge_eviction P \<noteq> 0 \<or> pf \<noteq> 0 \<or> get_edge_block_size buf r c = -1 \<or>
         min sz (eb_capacity buf) \<le> get_edge_block_size buf r c"
  shows "edge_wf (snd (access_edge_block P ok agg r c sz pf buf))"
proof (cases "sz = 0 \<or> \<not> ok")
  case True
  then show ?thesis using assms(1) by (auto simp: access_edge_block_def)
next
  case False
  then have "0 < sz" "ok" using assms(2) by auto
  from assms(1) have w: "eb.wf buf" by (simp add: eb_wf_iff)
  let ?k = "kept P agg r c sz pf buf" and ?g = "granted P agg r c sz pf buf"
  let ?u = "(new_unit buf r c sz pf)\<lparr>eu_size := ?g\<rparr>"
  let ?c = "count_access sz (get_edge_block_size buf r c) pf ?k"
  note k = kept_wf [OF w, where P = P and agg = agg and r = r and c = c and sz = sz and pf = pf]
  note g = granted_fits [OF assms(1) \<open>0 < sz\<close> assms(3), of agg]
  have c: "eb_units ?c = eb_units ?k" "eb_size ?c = eb_size ?k" "eb_capacity ?c = eb_capacity buf"
    using shrunk_fields(1) [OF k(2)] by (auto simp: count_access_def)
  have key: "eu_key ?u = (r, c)" by (simp add: eu_key_def new_unit_def)
  have "eb.wf ?c" using k(1) c by (simp add: eb.wf_def)
  then have "eb.wf (eb_link ?u ?c)"
    using eb.wf_link [of ?c ?u] g(2) k(3) c key by simp
  then show ?thesis
    using False g(1) c \<open>ok\<close>
    by (simp add: access_edge_block_eq eb_wf_iff eb.used_link eb.cap_link)
qed

text \<open>
  What holds of the cache in every configuration: the byte counter is the sum of the units. With partial
  eviction on the cache is well formed and within its capacity; with it off, the default, it is not
  (see \<open>edge_buffer_overcommit\<close> below).
\<close>

definition edge_ok :: "csd_params \<Rightarrow> edge_buffer \<Rightarrow> bool" where
  "edge_ok P buf \<longleftrightarrow> eb_size buf = sum_list (map eu_size (eb_units buf)) \<and>
     (partial_edge_eviction P \<noteq> 0 \<longrightarrow> edge_wf buf)"

abbreviation edge_sum :: "edge_buffer \<Rightarrow> bool" where
  "edge_sum buf \<equiv> eb_size buf = sum_list (map eu_size (eb_units buf))"

lemma unlink_sum:
  assumes "edge_sum buf" and "i < length (eb_units buf)"
  shows "edge_sum (eb_unlink i buf)" and "prefetched_priority (eb_unlink i buf) = prefetched_priority buf"
  using assms by (simp_all add: cache_defs map_remove_nth sum_list_remove_nth)

lemma evict_loop_sum:
  "edge_sum buf \<Longrightarrow> edge_sum (evict_loop P agg ins pf buf) \<and>
   prefetched_priority (evict_loop P agg ins pf buf) = prefetched_priority buf"
proof (induction "length (eb_units buf)" arbitrary: buf rule: less_induct)
  case less
  show ?case
  proof (cases rule: evict_loop_cases [of P agg ins pf buf])
    case (shrink i d)
    then show ?thesis using less.prems by (simp add: eb_shrink_def Let_def map_update sum_list_update_int)
  next
    case (unlink i)
    then show ?thesis using less.hyps [of "eb_unlink i buf"] unlink_sum [OF less.prems, of i] by simp
  qed (use less.prems in simp)
qed

lemma invalidate_edge_block_sum:
  assumes "edge_sum buf"
  shows "edge_sum (invalidate_edge_block buf r c) \<and>
    prefetched_priority (invalidate_edge_block buf r c) = prefetched_priority buf"
proof (cases "find_idx (\<lambda>u. eu_r u = r \<and> eu_c u = c) (eb_units buf)")
  case (Some i)
  from find_idx_SomeD [OF this] have "i < length (eb_units buf)" by simp
  from unlink_sum [OF assms this] Some show ?thesis by (simp add: invalidate_edge_block_def)
next
  case None
  then have "invalidate_edge_block buf r c = buf" unfolding invalidate_edge_block_def None by (simp only: option.case)
  with assms show ?thesis by simp
qed

lemma edge_wf_invalidate:
  assumes "edge_wf buf"
  shows "edge_wf (invalidate_edge_block buf r c)"
proof -
  let ?b = "invalidate_edge_block buf r c"
  have w: "eb.wf ?b" "shrunk buf ?b" using invalidate_edge_block_wf assms by (simp_all add: eb_wf_iff)
  have "eb_size ?b \<le> eb_size buf" using w(2) by (simp add: shrunk_def)
  then show ?thesis using w(1) assms shrunk_fields(1) [OF w(2)] by (simp add: eb_wf_iff)
qed

lemma edge_ok_invalidate:
  assumes "edge_ok P buf"
  shows "edge_ok P (invalidate_edge_block buf r c)"
  using assms invalidate_edge_block_sum edge_wf_invalidate unfolding edge_ok_def by blast

lemma access_edge_block_sum:
  assumes "edge_sum buf"
  shows "edge_sum (snd (access_edge_block P ok agg r c sz pf buf)) \<and>
    prefetched_priority (snd (access_edge_block P ok agg r c sz pf buf)) = prefetched_priority buf"
proof (cases "sz = 0 \<or> \<not> ok")
  case True
  then show ?thesis using assms by (auto simp: access_edge_block_def)
next
  case False
  let ?k = "kept P agg r c sz pf buf"
  note i = invalidate_edge_block_sum [OF assms, of r c]
  have "edge_sum ?k \<and> prefetched_priority ?k = prefetched_priority buf"
    using evict_loop_sum [OF assms] evict_loop_sum [OF conjunct1 [OF i]] i by (simp add: kept_def)
  then show ?thesis using False by (auto simp: access_edge_block_eq count_access_def eb_link_def)
qed

lemma edge_ok_access:
  assumes "edge_ok P buf" and "partial_edge_eviction P \<noteq> 0 \<Longrightarrow> 0 \<le> sz"
  shows "edge_ok P (snd (access_edge_block P ok agg r c sz pf buf))"
  using assms access_edge_block_sum [of buf] edge_wf_access [of buf sz] by (simp add: edge_ok_def)

section \<open>Properties\<close>

text \<open>
  C28: an access keeps the edge cache well formed (byte counter equal to the sum of the units,
  no negative unit, one unit per block, counter within the capacity) for every policy, with and
  without partial eviction, for demand accesses and prefetches of every class, and when
  \<^verbatim>\<open>kmalloc\<close> fails. The one case left out is a demand access that hits a block of which less is
  cached than requested while partial eviction is off (see the theorem after the next ones).
\<close>
theorem access_edge_block_wf:
  assumes "edge_wf buf" and "0 \<le> sz"
    and "partial_edge_eviction P \<noteq> 0 \<or> pf \<noteq> 0 \<or> get_edge_block_size buf r c = -1 \<or>
         min sz (eb_capacity buf) \<le> get_edge_block_size buf r c"
  shows "edge_wf (snd (access_edge_block P ok agg r c sz pf buf))"
  using assms by (rule edge_wf_access)

text \<open>
  C29: what a demand access does. It returns the bytes that must be read from flash (all of a
  block that is not cached, the missing part of one that is), afterwards the block is cached up
  to the capacity and stands last in the list, no other block has grown, and the statistics count
  the pages requested and the pages found.
\<close>
theorem access_edge_block_demand:
  assumes wf: "edge_wf buf" and pos: "0 < sz"
    and res: "(ret, buf') = access_edge_block P True agg r c sz 0 buf"
    and old: "old = get_edge_block_size buf r c"
  shows "ret = (if old = -1 then sz else sz - old) \<and>
    get_edge_block_size buf' r c = min sz (eb_capacity buf) \<and>
    eu_key (last (eb_units buf')) = (r, c) \<and>
    (\<forall>r' c'. (r', c') \<noteq> (r, c) \<longrightarrow> get_edge_block_size buf' r' c' \<le> get_edge_block_size buf r' c') \<and>
    eb_total_access_cnt buf' = eb_total_access_cnt buf + div_page sz \<and>
    eb_hit_cnt buf' = eb_hit_cnt buf + (if old = -1 then 0 else div_page old)"
proof -
  from wf have w: "eb.wf buf" by (simp add: eb_wf_iff)
  let ?k = "kept P agg r c sz 0 buf"
  let ?u = "new_unit buf r c sz 0" and ?c = "count_access sz old 0 ?k"
  note k = kept_wf [OF w, where P = P and agg = agg and r = r and c = c and sz = sz and pf = 0]
  have c: "eb_units ?c = eb_units ?k" by (simp add: count_access_def)
  have key: "eu_key ?u = (r, c)" and sz_u: "eu_size ?u = min sz (eb_capacity buf)"
    by (simp_all add: eu_key_def new_unit_def)
  have "(new_unit buf r c sz 0)\<lparr>eu_size := granted P agg r c sz 0 buf\<rparr> = ?u"
    by (simp add: granted_def new_unit_def)
  then have r: "ret = sz - (if old = -1 then 0 else old)" "buf' = eb_link ?u ?c"
    using res old access_edge_block_eq [of sz P agg r c 0 buf] pos by simp_all
  have "eb.lookup buf' (r, c) = eu_size ?u"
    using r eb.lookup_link_same [OF key] k(3) c by simp
  moreover have "eb.lookup buf' x \<le> eb.lookup buf x" if "x \<noteq> (r, c)" for x
    using r eb.lookup_link_other [of ?u x ?c] that key shrunk_lookup [OF w k(1,2)] c
    by (simp add: eb.lookup_def)
  ultimately show ?thesis
    using r key sz_u shrunk_fields [OF k(2)]
    by (auto simp: get_edge_block_size_lookup eb.units_link eb_link_def count_access_def)
qed


text \<open>
  the \<^verbatim>\<open>PRIORITY\<close> policy gives up a unit of the lowest class present: blocks prefetched for
  the next iteration, then blocks of rows that are not aggregated yet, then prefetched blocks,
  then the rest; within the two prefetch classes the one linked last, within the other two the
  one linked first.
\<close>
theorem priority_victim:
  assumes "cache_eviction_policy P = ''PRIORITY''" and "us \<noteq> []"
  shows "is_victim agg us (victim_idx P agg us)"
  using priority_scan_None [OF assms(2), of agg] assms(1) by (auto simp: victim_idx_def)

text \<open>
  Without partial eviction a prefetch of a block that is already cached, wholly or in part,
  discards the cached bytes: the block is unlinked and linked again with size 0, because
  \<^verbatim>\<open>evicted_size\<close> stays 0 on that path.
\<close>
theorem prefetch_drops_cached_block:
  assumes wf: "edge_wf buf" and pos: "0 < sz" and pf: "pf \<noteq> 0"
    and np: "partial_edge_eviction P = 0" and hit: "get_edge_block_size buf r c \<noteq> -1"
  shows "get_edge_block_size (snd (access_edge_block P True agg r c sz pf buf)) r c = 0"
proof -
  from wf have w: "eb.wf buf" by (simp add: eb_wf_iff)
  let ?k = "kept P agg r c sz pf buf"
  let ?u = "(new_unit buf r c sz pf)\<lparr>eu_size := granted P agg r c sz pf buf\<rparr>"
  note k = kept_wf [OF w, where P = P and agg = agg and r = r and c = c and sz = sz and pf = pf]
  have key: "eu_key ?u = (r, c)" by (simp add: eu_key_def new_unit_def)
  have "granted P agg r c sz pf buf = 0"
    using pos pf np hit eb.used_nonneg [OF w] wf by (simp add: granted_def eb_wf_iff)
  then have "eb.lookup (eb_link ?u ?k) (r, c) = 0"
    using eb.lookup_link_same [OF key] k(3) by simp
  then show ?thesis
    using pos pf by (simp add: access_edge_block_eq get_edge_block_size_lookup count_access_def)
qed

section \<open>Concrete runs\<close>

definition demo_params :: csd_params where
  "demo_params = \<lparr>cache_eviction_policy = ''PRIORITY'', partial_edge_eviction = 0,
     invalidation_at_future_value = 0, edge_buffer_size = 10\<rparr>"

text \<open>A cache of ten bytes: block (0, 0) loaded on demand, then block (1, 0) prefetched.\<close>

definition demo_buf :: edge_buffer where
  "demo_buf =
     snd (access_edge_block demo_params True (\<lambda>_. True) 1 0 8 2
       (snd (access_edge_block demo_params True (\<lambda>_. True) 0 0 6 0
          (edge_buffer_init demo_params))))"

lemmas demo_simps = demo_params_def edge_buffer_init_def access_edge_block_def Let_def
  get_edge_block_size_def evict_edge_block_def evict_loop.simps victim_idx_def lower_def eb_link_def
  eb_unlink_def invalidate_edge_block_def remove_nth_def div_page_def

lemma demo_buf_units:
  "eb_units demo_buf =
     [\<lparr>eu_size = 6, eu_r = 0, eu_c = 0, is_prefetched_normal = 0\<rparr>,
      \<lparr>eu_size = 4, eu_r = 1, eu_c = 0, is_prefetched_normal = 1\<rparr>] \<and>
   eb_size demo_buf = 10 \<and> eb_capacity demo_buf = 10 \<and> \<not> pr_reverse demo_buf"
  by (simp add: demo_buf_def demo_simps)

lemma demo_buf_wf: "edge_wf demo_buf"
  using demo_buf_units by (simp add: edge_wf_def cache_wf_def eu_key_def)

text \<open>
  Without partial eviction the capacity is not respected: starting from an initialised cache
  of ten bytes, a demand access, a prefetch that is granted part of its block, and the demand
  access to that block leave fourteen bytes in the cache.
\<close>
theorem edge_buffer_overcommit:
  "edge_wf demo_buf \<and>
   eb_size (snd (access_edge_block demo_params True (\<lambda>_. True) 1 0 8 0 demo_buf)) = 14 \<and>
   eb_capacity (snd (access_edge_block demo_params True (\<lambda>_. True) 1 0 8 0 demo_buf)) = 10"
  using demo_buf_wf demo_buf_units by (simp add: demo_simps)

theorem access_edge_block_wf_witness:
  "edge_wf (snd (access_edge_block demo_params True (\<lambda>_. True) 2 0 5 0 demo_buf))"
  using access_edge_block_wf [OF demo_buf_wf, of 5 demo_params 0 2 0] demo_buf_units
  by (simp add: get_edge_block_size_def)

theorem access_edge_block_demand_witness:
  "fst (access_edge_block demo_params True (\<lambda>_. True) 2 0 5 0 demo_buf) = 5 \<and>
   get_edge_block_size (snd (access_edge_block demo_params True (\<lambda>_. True) 2 0 5 0 demo_buf)) 2 0 = 5"
  using access_edge_block_demand [OF demo_buf_wf _ prod.collapse refl, of 5 demo_params "\<lambda>_. True" 2 0]
    demo_buf_units
  by (simp add: get_edge_block_size_def)


theorem priority_victim_witness:
  "is_victim (\<lambda>_. True) (eb_units demo_buf) (victim_idx demo_params (\<lambda>_. True) (eb_units demo_buf)) \<and>
   victim_idx demo_params (\<lambda>_. True) (eb_units demo_buf) = 1"
  using priority_victim [of demo_params "eb_units demo_buf" "\<lambda>_. True"] demo_buf_units
  by (simp add: demo_params_def victim_idx_def lower_def)

theorem prefetch_drops_cached_block_witness:
  "get_edge_block_size demo_buf 0 0 = 6 \<and>
   get_edge_block_size (snd (access_edge_block demo_params True (\<lambda>_. True) 0 0 6 1 demo_buf)) 0 0 = 0"
  using prefetch_drops_cached_block [OF demo_buf_wf, of 6 1 demo_params 0 0 "\<lambda>_. True"] demo_buf_units
  by (simp add: demo_params_def get_edge_block_size_def)

end
