(* ===== verification/Work_Queue.thy ===== *)
theory Work_Queue
  imports NV_Prelude "HOL-Library.Monad_Syntax"
begin

text \<open>
  The work queue of an I/O worker (\<^verbatim>\<open>io.c\<close>): a statically allocated array whose entries are
  chained by index, through \<^verbatim>\<open>next\<close> and \<^verbatim>\<open>prev\<close>, into a list of pending requests ordered by their
  target time and a list of free entries. The model keeps the array as a function of the index,
  the links as 32-bit words and the end mark as the word \<open>-1\<close>, as the code does. Loops that follow
  the links may run forever on a corrupted array, so they are partial functions whose value is
  \<open>None\<close> when they do not return; the theorems show that they return on every array the operations
  build, and that they implement insertion into a sorted list and moving a prefix of it to the
  free list.
\<close>

section \<open>Data\<close>

record nvmev_io_work =
  w_sqid :: int
  w_cqid :: int
  w_sq_entry :: int
  w_command_id :: u32
  w_nsecs_start :: u64
  w_nsecs_target :: u64
  w_nsecs_enqueue :: u64
  w_is_copied :: bool
  w_is_completed :: bool
  w_status :: u32
  w_result0 :: u32
  w_result1 :: u32
  w_is_internal :: bool
  w_write_buffer :: nat
  w_buffs_to_release :: u64
  w_next :: u32
  w_prev :: u32

record nvmev_io_worker =
  work_queue :: "u32 \<Rightarrow> nvmev_io_work"
  free_seq :: u32
  free_seq_end :: u32
  io_seq :: u32
  io_seq_end :: u32
  latest_nsecs :: u64
  worker_id :: u32

definition NR_MAX_PARALLEL_IO :: u32 where
  "NR_MAX_PARALLEL_IO = 16384"

text \<open>Assignments to one field of one entry of the array.\<close>

definition set_next :: "u32 \<Rightarrow> u32 \<Rightarrow> nvmev_io_worker \<Rightarrow> nvmev_io_worker" where
  "set_next e v w = w\<lparr>work_queue := (work_queue w)(e := (work_queue w e)\<lparr>w_next := v\<rparr>)\<rparr>"

definition set_prev :: "u32 \<Rightarrow> u32 \<Rightarrow> nvmev_io_worker \<Rightarrow> nvmev_io_worker" where
  "set_prev e v w = w\<lparr>work_queue := (work_queue w)(e := (work_queue w e)\<lparr>w_prev := v\<rparr>)\<rparr>"

section \<open>Operations\<close>

text \<open>The body of the loop of \<^verbatim>\<open>NVMEV_IO_WORKER_INIT\<close>; \<^verbatim>\<open>kzalloc\<close> clears the array.\<close>

definition blank_work :: nvmev_io_work where
  "blank_work = \<lparr>w_sqid = 0, w_cqid = 0, w_sq_entry = 0, w_command_id = 0, w_nsecs_start = 0,
     w_nsecs_target = 0, w_nsecs_enqueue = 0, w_is_copied = False, w_is_completed = False,
     w_status = 0, w_result0 = 0, w_result1 = 0, w_is_internal = False, w_write_buffer = 0,
     w_buffs_to_release = 0, w_next = 0, w_prev = 0\<rparr>"

definition io_worker_init :: "u32 \<Rightarrow> nvmev_io_worker" where
  "io_worker_init wid =
     set_next (NR_MAX_PARALLEL_IO - 1) (-1)
       \<lparr>work_queue = (\<lambda>i. if i < NR_MAX_PARALLEL_IO
                         then blank_work\<lparr>w_next := i + 1, w_prev := i - 1\<rparr> else blank_work),
        free_seq = 0, free_seq_end = NR_MAX_PARALLEL_IO - 1, io_seq = -1, io_seq_end = -1,
        latest_nsecs = 0, worker_id = wid\<rparr>"

text \<open>The search of \<^verbatim>\<open>__insert_req_sorted\<close>, from the tail towards the head.\<close>

partial_function (option) insert_scan :: "nvmev_io_worker \<Rightarrow> u64 \<Rightarrow> u32 \<Rightarrow> u32 option" where
  "insert_scan worker nsecs_target c =
     (if c = -1 then Some c
      else if w_nsecs_target (work_queue worker c) \<le> latest_nsecs worker then Some c
      else if w_nsecs_target (work_queue worker c) \<le> nsecs_target then Some c
      else insert_scan worker nsecs_target (w_prev (work_queue worker c)))"

definition insert_req_sorted ::
  "u32 \<Rightarrow> nvmev_io_worker \<Rightarrow> u64 \<Rightarrow> nvmev_io_worker option" where
  "insert_req_sorted entry worker nsecs_target =
     (if io_seq worker = -1 then Some (worker\<lparr>io_seq := entry, io_seq_end := entry\<rparr>)
      else do {
        c \<leftarrow> insert_scan worker nsecs_target (io_seq_end worker);
        Some (if c = -1 then
                (let worker = set_prev (io_seq worker) entry worker;
                     worker = set_next entry (io_seq worker) worker
                 in worker\<lparr>io_seq := entry\<rparr>)
              else if w_next (work_queue worker c) = -1 then
                (let worker = set_prev entry c worker;
                     worker = worker\<lparr>io_seq_end := entry\<rparr>
                 in set_next c entry worker)
              else
                (let worker = set_prev entry c worker;
                     worker = set_next entry (w_next (work_queue worker c)) worker;
                     worker = set_prev (w_next (work_queue worker entry)) entry worker
                 in set_next c entry worker))
      })"

text \<open>The part of \<^verbatim>\<open>__allocate_work_queue_entry\<close> that works on one worker.\<close>

definition allocate_entry :: "nvmev_io_worker \<Rightarrow> (u32 \<times> nvmev_io_worker) option" where
  "allocate_entry worker =
     (let e = free_seq worker; nxt = w_next (work_queue worker e) in
      if nxt \<ge> NR_MAX_PARALLEL_IO then None else Some (e, worker\<lparr>free_seq := nxt\<rparr>))"

text \<open>The search of \<^verbatim>\<open>__reclaim_completed_reqs\<close>: the last entry to reclaim.\<close>

definition reclaimable :: "nvmev_io_worker \<Rightarrow> u32 \<Rightarrow> bool" where
  "reclaimable worker c \<longleftrightarrow> w_is_completed (work_queue worker c) \<and> w_is_copied (work_queue worker c) \<and>
     w_nsecs_target (work_queue worker c) \<le> latest_nsecs worker"

partial_function (option) reclaim_scan :: "nvmev_io_worker \<Rightarrow> u32 \<Rightarrow> u32 \<Rightarrow> u32 option" where
  "reclaim_scan worker last_entry c =
     (if c = -1 then Some last_entry
      else if reclaimable worker c then reclaim_scan worker c (w_next (work_queue worker c))
      else Some last_entry)"

text \<open>The body of the loop of \<^verbatim>\<open>__reclaim_completed_reqs\<close>, for one worker.\<close>

definition reclaim_worker :: "nvmev_io_worker \<Rightarrow> nvmev_io_worker option" where
  "reclaim_worker worker =
     do {
       last_entry \<leftarrow> reclaim_scan worker (-1) (io_seq worker);
       Some (if last_entry = -1 then worker
             else
               (let first_entry = io_seq worker;
                    nxt = w_next (work_queue worker last_entry);
                    worker = worker\<lparr>io_seq := nxt\<rparr>;
                    worker = (if nxt \<noteq> -1 then set_prev nxt (-1) worker else worker);
                    worker = set_next last_entry (-1) worker;
                    worker = set_prev first_entry (free_seq_end worker) worker;
                    worker = set_next (free_seq_end worker) first_entry worker
                in worker\<lparr>free_seq_end := last_entry\<rparr>))
     }"

section \<open>Linked lists of indices\<close>

fun lseg :: "(u32 \<Rightarrow> nvmev_io_work) \<Rightarrow> u32 \<Rightarrow> u32 list \<Rightarrow> u32 \<Rightarrow> bool" where
  "lseg q a [] b \<longleftrightarrow> a = b"
| "lseg q a (x # xs) b \<longleftrightarrow> a = x \<and> x \<noteq> -1 \<and> lseg q (w_next (q x)) xs b"

fun bseg :: "(u32 \<Rightarrow> nvmev_io_work) \<Rightarrow> u32 \<Rightarrow> u32 list \<Rightarrow> bool" where
  "bseg q p [] \<longleftrightarrow> True"
| "bseg q p (x # xs) \<longleftrightarrow> w_prev (q x) = p \<and> bseg q x xs"

definition last_or :: "u32 \<Rightarrow> u32 list \<Rightarrow> u32" where
  "last_or d xs = (if xs = [] then d else last xs)"

lemma last_or_simps [simp]:
  "last_or d [] = d" "last_or d (x # xs) = last_or x xs" "last_or d (xs @ ys) = last_or (last_or d xs) ys"
  by (auto simp: last_or_def)

lemma last_or_in: "xs \<noteq> [] \<Longrightarrow> last_or d xs \<in> set xs"
  by (simp add: last_or_def)

lemma lseg_append: "lseg q a (xs @ ys) b \<longleftrightarrow> (\<exists>m. lseg q a xs m \<and> lseg q m ys b)"
  by (induction xs arbitrary: a) auto

lemma bseg_append: "bseg q p (xs @ ys) \<longleftrightarrow> bseg q p xs \<and> bseg q (last_or p xs) ys"
  by (induction xs arbitrary: p) auto

lemma lseg_frame: "(\<And>x. x \<in> set xs \<Longrightarrow> w_next (q' x) = w_next (q x)) \<Longrightarrow> lseg q' a xs b = lseg q a xs b"
  by (induction xs arbitrary: a) auto

lemma bseg_frame: "(\<And>x. x \<in> set xs \<Longrightarrow> w_prev (q' x) = w_prev (q x)) \<Longrightarrow> bseg q' p xs = bseg q p xs"
  by (induction xs arbitrary: p) auto

lemma lseg_not_end: "lseg q a xs b \<Longrightarrow> -1 \<notin> set xs"
  by (induction xs arbitrary: a) auto

lemma lseg_hd: "lseg q a xs (-1) \<Longrightarrow> xs = [] \<longleftrightarrow> a = -1"
  by (cases xs) auto

lemma lseg_last_next: "lseg q a xs b \<Longrightarrow> xs \<noteq> [] \<Longrightarrow> w_next (q (last xs)) = b"
  by (induction xs arbitrary: a) auto

text \<open>Redirecting the last link of a segment.\<close>

lemma lseg_snoc: "lseg q a (xs @ [x]) b \<longleftrightarrow> lseg q a xs x \<and> x \<noteq> -1 \<and> w_next (q x) = b"
  by (auto simp: lseg_append)

section \<open>The abstract queue\<close>

text \<open>
  \<open>worker_rep w xs fs\<close>: the pending requests of \<open>w\<close> are the entries \<open>xs\<close>, in this order and
  doubly linked, the free entries are \<open>fs\<close>, in this order and never none, and together they are all the
  entries of the array, each once.
\<close>

definition worker_rep :: "nvmev_io_worker \<Rightarrow> u32 list \<Rightarrow> u32 list \<Rightarrow> bool" where
  "worker_rep w xs fs \<longleftrightarrow>
     lseg (work_queue w) (io_seq w) xs (-1) \<and> bseg (work_queue w) (-1) xs \<and>
     (xs \<noteq> [] \<longrightarrow> io_seq_end w = last xs) \<and>
     lseg (work_queue w) (free_seq w) fs (-1) \<and> fs \<noteq> [] \<and> free_seq_end w = last fs \<and>
     distinct (xs @ fs) \<and> set (xs @ fs) = {e. e < NR_MAX_PARALLEL_IO}"

text \<open>The key the list is ordered by: targets up to the last clock reading are all due.\<close>

definition due_key :: "nvmev_io_worker \<Rightarrow> u32 \<Rightarrow> u64" where
  "due_key w e = max (latest_nsecs w) (w_nsecs_target (work_queue w e))"

definition late :: "nvmev_io_worker \<Rightarrow> u64 \<Rightarrow> u32 \<Rightarrow> bool" where
  "late w t e \<longleftrightarrow> latest_nsecs w < w_nsecs_target (work_queue w e) \<and> t < w_nsecs_target (work_queue w e)"

definition insert_before_late :: "(u32 \<Rightarrow> bool) \<Rightarrow> u32 \<Rightarrow> u32 list \<Rightarrow> u32 list" where
  "insert_before_late P e xs = rev (dropWhile P (rev xs)) @ e # rev (takeWhile P (rev xs))"

lemma insert_split: "xs = rev (dropWhile P (rev xs)) @ rev (takeWhile P (rev xs))"
  by (metis rev_append rev_rev_ident takeWhile_dropWhile_id)

lemma insert_scan_spec:
  "lseg (work_queue w) a xs b \<Longrightarrow> bseg (work_queue w) (-1) xs \<Longrightarrow>
   insert_scan w t (last_or (-1) xs) = Some (last_or (-1) (rev (dropWhile (late w t) (rev xs))))"
proof (induction xs arbitrary: b rule: rev_induct)
  case Nil
  then show ?case by (subst insert_scan.simps) simp
next
  case (snoc x xs)
  then have "x \<noteq> -1" "lseg (work_queue w) a xs x" "w_prev (work_queue w x) = last_or (-1) xs"
    by (auto simp: lseg_snoc bseg_append)
  with snoc show ?case
    by (subst insert_scan.simps) (auto simp: late_def [of w t x] bseg_append not_le)
qed

lemma reclaim_scan_spec:
  "lseg (work_queue w) a xs (-1) \<Longrightarrow>
   reclaim_scan w l a = Some (last_or l (takeWhile (reclaimable w) xs))"
proof (induction xs arbitrary: a l)
  case Nil
  then show ?case by (subst reclaim_scan.simps) simp
next
  case (Cons x xs)
  then show ?case by (subst reclaim_scan.simps) auto
qed

text \<open>\<open>same_payload q q'\<close>: the arrays differ in links only.\<close>

definition same_payload :: "(u32 \<Rightarrow> nvmev_io_work) \<Rightarrow> (u32 \<Rightarrow> nvmev_io_work) \<Rightarrow> bool" where
  "same_payload q q' \<longleftrightarrow> (\<forall>x. (q' x)\<lparr>w_next := 0, w_prev := 0\<rparr> = (q x)\<lparr>w_next := 0, w_prev := 0\<rparr>)"

lemma same_payload_refl [simp]: "same_payload q q"
  by (simp add: same_payload_def)

lemma same_payload_trans: "same_payload q r \<Longrightarrow> same_payload r s \<Longrightarrow> same_payload q s"
  by (simp add: same_payload_def)

lemma same_payload_upd:
  "same_payload q q' \<Longrightarrow> same_payload q (q'(e := (q' e)\<lparr>w_next := v\<rparr>))"
  "same_payload q q' \<Longrightarrow> same_payload q (q'(e := (q' e)\<lparr>w_prev := v\<rparr>))"
  by (auto simp: same_payload_def)

lemma same_payload_fields:
  assumes "same_payload q q'"
  shows "w_nsecs_target (q' x) = w_nsecs_target (q x)" "w_is_completed (q' x) = w_is_completed (q x)"
    "w_is_copied (q' x) = w_is_copied (q x)"
proof -
  have e: "(q' x)\<lparr>w_next := 0, w_prev := 0\<rparr> = (q x)\<lparr>w_next := 0, w_prev := 0\<rparr>"
    using assms by (simp add: same_payload_def)
  show "w_nsecs_target (q' x) = w_nsecs_target (q x)" using arg_cong [OF e, of w_nsecs_target] by simp
  show "w_is_completed (q' x) = w_is_completed (q x)" using arg_cong [OF e, of w_is_completed] by simp
  show "w_is_copied (q' x) = w_is_copied (q x)" using arg_cong [OF e, of w_is_copied] by simp
qed

text \<open>\<open>linked w w' ys\<close>: the pending list of \<open>w'\<close> is \<open>ys\<close>; \<open>w'\<close> differs from \<open>w\<close> only in the pending
  list and in the links of the entries of \<open>ys\<close>.\<close>

definition linked :: "nvmev_io_worker \<Rightarrow> nvmev_io_worker \<Rightarrow> u32 list \<Rightarrow> bool" where
  "linked w w' ys \<longleftrightarrow>
     lseg (work_queue w') (io_seq w') ys (-1) \<and> bseg (work_queue w') (-1) ys \<and>
     io_seq_end w' = last ys \<and> same_payload (work_queue w) (work_queue w') \<and>
     (\<forall>x. x \<notin> set ys \<longrightarrow> work_queue w' x = work_queue w x) \<and>
     free_seq w' = free_seq w \<and> free_seq_end w' = free_seq_end w \<and> latest_nsecs w' = latest_nsecs w"

lemmas link_defs = set_next_def set_prev_def same_payload_def

lemma link_head:
  assumes "lseg (work_queue w) (io_seq w) (d # T) (-1)" "bseg (work_queue w) (-1) (d # T)"
    "io_seq_end w = last (d # T)" "e \<notin> set (d # T)" "e \<noteq> -1" "w_prev (work_queue w e) = -1"
    "distinct (d # T)"
  shows "linked w ((set_next e d (set_prev d e w))\<lparr>io_seq := e\<rparr>) (e # d # T)"
proof -
  let ?q = "work_queue (set_next e d (set_prev d e w))"
  have "lseg ?q a T b = lseg (work_queue w) a T b" "bseg ?q p T = bseg (work_queue w) p T" for a b p
    using assms(4,7) by (auto intro!: lseg_frame bseg_frame simp: link_defs)
  then show ?thesis using assms by (auto simp: linked_def link_defs)
qed

lemma link_tail:
  assumes "lseg (work_queue w) (io_seq w) (H @ [c]) (-1)" "bseg (work_queue w) (-1) (H @ [c])"
    "e \<notin> set (H @ [c])" "e \<noteq> -1" "w_next (work_queue w e) = -1" "distinct (H @ [c])"
  shows "linked w (set_next c e ((set_prev e c w)\<lparr>io_seq_end := e\<rparr>)) (H @ [c, e])"
proof -
  let ?q = "work_queue (set_next c e ((set_prev e c w)\<lparr>io_seq_end := e\<rparr>))"
  have "lseg ?q a H b = lseg (work_queue w) a H b" "bseg ?q p H = bseg (work_queue w) p H" for a b p
    using assms(3,6) by (auto intro!: lseg_frame bseg_frame simp: link_defs)
  then show ?thesis
    using assms by (auto simp: linked_def link_defs lseg_append bseg_append)
qed

lemma link_middle:
  assumes "lseg (work_queue w) (io_seq w) (H @ c # d # T) (-1)" "bseg (work_queue w) (-1) (H @ c # d # T)"
    "io_seq_end w = last (H @ c # d # T)" "e \<notin> set (H @ c # d # T)" "e \<noteq> -1" "distinct (H @ c # d # T)"
  shows "linked w (set_next c e (set_prev d e (set_next e d (set_prev e c w)))) (H @ c # e # d # T)"
proof -
  let ?q = "work_queue (set_next c e (set_prev d e (set_next e d (set_prev e c w))))"
  have "lseg ?q a H b = lseg (work_queue w) a H b" "bseg ?q p H = bseg (work_queue w) p H"
    "lseg ?q a T b = lseg (work_queue w) a T b" "bseg ?q p T = bseg (work_queue w) p T" for a b p
    using assms(4,6) by (auto intro!: lseg_frame bseg_frame simp: link_defs)
  then show ?thesis
    using assms by (auto simp: linked_def link_defs lseg_append bseg_append)
qed

lemma insert_req_sorted_spec:
  assumes l: "lseg (work_queue w) (io_seq w) xs (-1)" and b: "bseg (work_queue w) (-1) xs"
    and l_end: "xs \<noteq> [] \<longrightarrow> io_seq_end w = last xs" and e: "e \<notin> set xs" "e \<noteq> -1"
    and fresh: "w_next (work_queue w e) = -1" "w_prev (work_queue w e) = -1" and d: "distinct xs"
  shows "\<exists>w'. insert_req_sorted e w t = Some w' \<and> linked w w' (insert_before_late (late w t) e xs)"
proof (cases "xs = []")
  case True
  then show ?thesis
    using l e fresh by (auto simp: insert_req_sorted_def linked_def insert_before_late_def)
next
  case False
  define H where "H = rev (dropWhile (late w t) (rev xs))"
  define T where "T = rev (takeWhile (late w t) (rev xs))"
  have xs: "xs = H @ T" unfolding H_def T_def by (rule insert_split)
  have ins: "insert_before_late (late w t) e xs = H @ e # T"
    by (simp add: insert_before_late_def H_def T_def)
  have "insert_scan w t (io_seq_end w) = Some (last_or (-1) H)"
    using insert_scan_spec [OF l b, of t] False l_end by (simp add: H_def last_or_def)
  moreover have "io_seq w \<noteq> -1" using l False by (cases xs) auto
  ultimately have scan: "insert_req_sorted e w t = Some (if last_or (-1) H = -1 then
        (set_next e (io_seq w) (set_prev (io_seq w) e w))\<lparr>io_seq := e\<rparr>
      else if w_next (work_queue w (last_or (-1) H)) = -1
        then set_next (last_or (-1) H) e ((set_prev e (last_or (-1) H) w)\<lparr>io_seq_end := e\<rparr>)
      else set_next (last_or (-1) H) e (set_prev (w_next (work_queue w (last_or (-1) H))) e
        (set_next e (w_next (work_queue w (last_or (-1) H))) (set_prev e (last_or (-1) H) w))))"
    using e(1) xs last_or_in [of H "-1"]
    by (auto simp: insert_req_sorted_def Let_def set_next_def set_prev_def last_or_def)
  show ?thesis
  proof (cases H rule: rev_cases)
    case Nil
    with xs False obtain x U where "T = x # U" by (cases T) auto
    with Nil xs ins scan link_head [of w x U e] l b l_end e fresh d show ?thesis by auto
  next
    case (snoc H0 c)
    then have c: "c \<noteq> -1" using lseg_not_end [OF l] xs by auto
    show ?thesis
    proof (cases T)
      case Nil
      with snoc xs ins scan link_tail [of w H0 c e] l b e fresh d c show ?thesis
        by (auto simp: lseg_append)
    next
      case (Cons x U)
      with snoc xs ins scan link_middle [of w H0 c x U e] l b l_end e d c show ?thesis
        by (auto simp: lseg_append)
    qed
  qed
qed

section \<open>Initialisation and reclaiming\<close>

lemma unat_NR: "unat NR_MAX_PARALLEL_IO = 16384"
  by (simp add: NR_MAX_PARALLEL_IO_def)

lemma index_less_iff: "(of_nat k :: u32) < NR_MAX_PARALLEL_IO \<longleftrightarrow> k < 16384" if "k < 2 ^ 32"
  using that by (simp add: word_less_nat_alt unat_NR unat_of_nat)

lemma index_ne_end: "e < NR_MAX_PARALLEL_IO \<Longrightarrow> e \<noteq> -1"
  by (auto simp: NR_MAX_PARALLEL_IO_def)

lemma all_indices: "set (map of_nat [0..<unat NR_MAX_PARALLEL_IO]) = {e :: u32. e < NR_MAX_PARALLEL_IO}"
proof -
  have "e \<in> of_nat ` {0..<unat NR_MAX_PARALLEL_IO}" if "e < NR_MAX_PARALLEL_IO" for e :: u32
    using that by (intro image_eqI [of _ _ "unat e"]) (auto simp: word_less_nat_alt)
  then show ?thesis using index_less_iff unat_NR by auto
qed

lemma init_free_list:
  "k \<le> 16384 \<Longrightarrow>
   lseg (work_queue (io_worker_init wid)) (if k = 16384 then -1 else of_nat k)
     (map of_nat [k..<16384]) (-1)"
proof (induction k rule: inc_induct)
  case base
  then show ?case by simp
next
  case (step k)
  have "(of_nat k :: u32) < NR_MAX_PARALLEL_IO" using step.hyps index_less_iff [of k] by simp
  moreover have "(of_nat k = (NR_MAX_PARALLEL_IO - 1 :: u32)) = (k = 16383)"
    using step.hyps by (auto simp: NR_MAX_PARALLEL_IO_def unat_of_nat word_unat_eq_iff)
  moreover have "[k..<16384] = k # [Suc k..<16384]" using step.hyps upt_conv_Cons by blast
  moreover have "w_next (work_queue (io_worker_init wid) (of_nat k)) =
      (if Suc k = 16384 then -1 else of_nat (Suc k))"
    using calculation by (simp add: io_worker_init_def set_next_def add.commute)
  ultimately show ?case
    using step.IH step.hyps index_ne_end by (simp del: upt_rec_numeral of_nat_Suc)
qed

lemma io_worker_init_rep:
  "worker_rep (io_worker_init wid) [] (map of_nat [0..<unat NR_MAX_PARALLEL_IO])"
proof -
  have "inj_on (of_nat :: nat \<Rightarrow> u32) {0..<16384}"
    by (rule inj_onI) (simp add: word_unat_eq_iff unat_of_nat)
  then have "distinct (map (of_nat :: nat \<Rightarrow> u32) [0..<unat NR_MAX_PARALLEL_IO])"
    by (simp add: distinct_map unat_NR del: upt_rec_numeral)
  moreover have "last (map of_nat [0..<unat NR_MAX_PARALLEL_IO]) = (NR_MAX_PARALLEL_IO - 1 :: u32)"
    by (simp add: last_map unat_NR NR_MAX_PARALLEL_IO_def del: upt_rec_numeral)
  ultimately show ?thesis
    using init_free_list [of 0 wid] all_indices
    by (simp add: worker_rep_def unat_NR io_worker_init_def set_next_def del: upt_rec_numeral)
qed

lemma reclaim_worker_spec:
  assumes rep: "worker_rep w xs fs"
  shows "\<exists>w'. reclaim_worker w = Some w' \<and>
    worker_rep w' (dropWhile (reclaimable w) xs) (fs @ takeWhile (reclaimable w) xs) \<and>
    same_payload (work_queue w) (work_queue w') \<and> latest_nsecs w' = latest_nsecs w"
proof -
  define A where "A = takeWhile (reclaimable w) xs"
  define B where "B = dropWhile (reclaimable w) xs"
  have xs: "xs = A @ B" by (simp add: A_def B_def)
  have l: "lseg (work_queue w) (io_seq w) (A @ B) (-1)" and b: "bseg (work_queue w) (-1) (A @ B)"
    and f: "lseg (work_queue w) (free_seq w) fs (-1)" "fs \<noteq> []" "free_seq_end w = last fs"
    and d: "distinct (A @ B @ fs)"
    using rep by (auto simp: worker_rep_def xs)
  have scan: "reclaim_scan w (-1) (io_seq w) = Some (last_or (-1) A)"
    using reclaim_scan_spec [of w "io_seq w" xs "-1"] rep by (simp add: A_def worker_rep_def)
  show ?thesis
  proof (cases A rule: rev_cases)
    case Nil
    then have "B = xs" "reclaim_worker w = Some w" using xs scan by (auto simp: reclaim_worker_def)
    with Nil rep show ?thesis unfolding A_def B_def by simp
  next
    case (snoc A0 z)
    obtain F f0 where fs: "fs = F @ [f0]" using f(2) by (cases fs rule: rev_cases) auto
    have z: "z \<noteq> -1" using lseg_not_end [OF l] snoc by auto
    define nxt where "nxt = w_next (work_queue w z)"
    define v where "v = set_next z (-1) (if nxt \<noteq> -1 then set_prev nxt (-1) (w\<lparr>io_seq := nxt\<rparr>)
        else w\<lparr>io_seq := nxt\<rparr>)"
    define w' where "w' = (set_next f0 (io_seq w) (set_prev (io_seq w) f0 v))\<lparr>free_seq_end := z\<rparr>"
    have r: "reclaim_worker w = Some w'"
      using scan z snoc f(3) fs
      by (simp add: reclaim_worker_def Let_def w'_def v_def nxt_def set_next_def set_prev_def)
    have B: "lseg (work_queue w) nxt B (-1)" and A: "lseg (work_queue w) (io_seq w) A0 z"
      using l snoc by (auto simp: lseg_append nxt_def)
    have Bh: "(B = [] \<longleftrightarrow> nxt = -1)" using B by (cases B) auto
    have q: "w_next (work_queue w' x) = (if x = f0 then io_seq w else if x = z then -1
        else w_next (work_queue w x))" for x
      by (simp add: w'_def v_def set_next_def set_prev_def)
    have p: "w_prev (work_queue w' x) = (if x = io_seq w then f0 else if x = nxt \<and> nxt \<noteq> -1 then -1
        else w_prev (work_queue w x))" for x
      by (simp add: w'_def v_def set_next_def set_prev_def)
    have sel: "io_seq w' = nxt" "free_seq w' = free_seq w" "io_seq_end w' = io_seq_end w"
      by (simp_all add: w'_def v_def set_next_def set_prev_def)
    have hd: "io_seq w \<in> set A" using l snoc by (cases A0) auto
    have frame: "lseg (work_queue w') a B c = lseg (work_queue w) a B c"
      "lseg (work_queue w') a A0 c = lseg (work_queue w) a A0 c"
      "lseg (work_queue w') a F c = lseg (work_queue w) a F c" for a c
      using d snoc fs by (auto intro!: lseg_frame simp: q)
    have "bseg (work_queue w') (-1) B"
    proof (cases B)
      case (Cons y B')
      then have "bseg (work_queue w') y B' = bseg (work_queue w) y B'"
        using d hd B by (intro bseg_frame) (auto simp: p)
      with Cons b d hd B Bh show ?thesis by (auto simp: bseg_append p)
    qed simp
    moreover have "lseg (work_queue w') (io_seq w') B (-1)"
      using B frame sel by simp
    moreover have "lseg (work_queue w') (free_seq w') (fs @ A) (-1)"
      using f(1) A frame d snoc fs z sel by (auto simp: lseg_append q)
    moreover have "B \<noteq> [] \<longrightarrow> io_seq_end w' = last B"
      using rep xs sel by (simp add: worker_rep_def)
    moreover have "free_seq_end w' = last (fs @ A)" using snoc by (simp add: w'_def)
    moreover have "set (B @ fs @ A) = {e. e < NR_MAX_PARALLEL_IO}"
      using rep xs by (auto simp: worker_rep_def)
    moreover have "same_payload (work_queue w) (work_queue w')" "latest_nsecs w' = latest_nsecs w"
      by (auto simp: w'_def v_def link_defs)
    ultimately show ?thesis
      using r d f(2) by (auto simp: worker_rep_def simp flip: A_def B_def)
  qed
qed

section \<open>Order\<close>

text \<open>The pending list is in target order, where targets that are already due count as equal.\<close>

definition due_sorted :: "nvmev_io_worker \<Rightarrow> u32 list \<Rightarrow> bool" where
  "due_sorted w xs \<longleftrightarrow> sorted (map (due_key w) xs)"

lemma due_sorted_insert:
  assumes "due_sorted w xs" and "w_nsecs_target (work_queue w e) = t"
  shows "due_sorted w (insert_before_late (late w t) e xs)"
proof -
  define H where "H = rev (dropWhile (late w t) (rev xs))"
  define T where "T = rev (takeWhile (late w t) (rev xs))"
  have xs: "xs = H @ T" unfolding H_def T_def by (rule insert_split)
  have T: "due_key w e < due_key w x" if "x \<in> set T" for x
    using that set_takeWhileD [of x "late w t" "rev xs"] assms(2)
    by (auto simp: T_def due_key_def late_def)
  have H: "due_key w x \<le> due_key w e" if "x \<in> set H" for x
  proof -
    have "H \<noteq> []" using that by auto
    then have "\<not> late w t (last H)"
      unfolding H_def using hd_dropWhile [of "late w t" "rev xs"] by (simp add: last_rev)
    then have "due_key w (last H) \<le> due_key w e"
      using assms(2) by (auto simp: due_key_def late_def not_less le_max_iff_disj)
    moreover have "due_key w x \<le> due_key w (last H)"
      using that assms(1) by (cases H rule: rev_cases) (auto simp: due_sorted_def xs sorted_append)
    ultimately show ?thesis by simp
  qed
  have "sorted (map (due_key w) H)" "sorted (map (due_key w) T)"
    using assms(1) by (auto simp: due_sorted_def xs sorted_append)
  moreover have "due_key w x \<le> due_key w y" if "x \<in> set H" "y \<in> set T" for x y
    using H [OF that(1)] T [OF that(2)] by simp
  ultimately show ?thesis
    using H T by (auto simp: due_sorted_def insert_before_late_def sorted_append less_imp_le
        simp flip: H_def T_def)
qed

lemma due_sorted_mono:
  assumes "due_sorted w xs" and "latest_nsecs w \<le> latest_nsecs w'"
    and "\<And>x. x \<in> set xs \<Longrightarrow> w_nsecs_target (work_queue w' x) = w_nsecs_target (work_queue w x)"
  shows "due_sorted w' xs"
proof -
  have "map (due_key w') xs = map (max (latest_nsecs w')) (map (due_key w) xs)"
    using assms(2,3) by (auto simp: due_key_def max_def)
  moreover have "sorted (map (max (latest_nsecs w')) ys)" if "sorted ys" for ys :: "u64 list"
    using that by (induction ys) (auto simp: max_def)
  ultimately show ?thesis using assms(1) unfolding due_sorted_def by metis
qed

lemma due_sorted_dropWhile: "due_sorted w xs \<Longrightarrow> due_sorted w (dropWhile P xs)"
  by (metis due_sorted_def map_append sorted_append takeWhile_dropWhile_id)

lemma due_sorted_cong:
  "same_payload (work_queue w) (work_queue w') \<Longrightarrow> latest_nsecs w' = latest_nsecs w \<Longrightarrow>
   due_sorted w' xs = due_sorted w xs"
  by (simp add: due_sorted_def due_key_def same_payload_fields cong: map_cong)

end
