(* ===== verification/IO_Worker.thy ===== *)
theory IO_Worker
  imports Work_Queue Nvme_Types "HOL-Library.Multiset"
begin

text \<open>
  Submission, timing and completion of I/O commands (\<^verbatim>\<open>io.c\<close>): choice of the worker, the work
  queue entry of a request, the worker's pass over its pending list, posting of completions into the
  completion ring with its phase bit, reclaiming, and the doorbell handlers. Clock readings
  (\<^verbatim>\<open>local_clock()\<close>, \<^verbatim>\<open>__get_wallclock()\<close>) are arguments. The device state holds what these
  functions touch. \<open>None\<close> stands for a run that does not return: a loop over corrupted links,
  or a queue pointer that is \<^verbatim>\<open>NULL\<close>.
\<close>

section \<open>Device state\<close>

record nvmev_io_dev =
  io_workers :: "nvmev_io_worker list"
  nr_io_workers :: u32
  io_worker_turn :: u32
  sqes :: "int \<Rightarrow> nvmev_submission_queue option"
  cqes :: "int \<Rightarrow> nvmev_completion_queue option"
  nr_cq :: nat
  wbufs :: "nat \<Rightarrow> buffer"
  irqs :: "int list"

record nvmev_result =
  r_status :: u32
  r_nsecs_target :: u64

definition io_worker_init_all :: "nvmev_io_dev \<Rightarrow> nvmev_io_dev" where
  "io_worker_init_all dev =
     dev\<lparr>io_worker_turn := 0,
         io_workers := map (\<lambda>i. io_worker_init (of_nat i)) [0..<unat (nr_io_workers dev)]\<rparr>"

text \<open>\<^verbatim>\<open>(sqid - 1) % nr_io_workers\<close>: the \<^verbatim>\<open>int\<close> is converted to \<^verbatim>\<open>unsigned int\<close>.\<close>

definition get_io_worker :: "nvmev_io_dev \<Rightarrow> int \<Rightarrow> u32" where
  "get_io_worker dev sqid = word_of_int (sqid - 1) mod nr_io_workers dev"

definition cmd_io_offset :: "nat \<Rightarrow> nvme_command \<Rightarrow> u64" where
  "cmd_io_offset LBA_BITS cmd = push_bit LBA_BITS (rw_slba cmd)"

text \<open>\<^verbatim>\<open>(cmd->length + 1) << LBA_BITS\<close> in \<^verbatim>\<open>int\<close>, converted to \<^verbatim>\<open>size_t\<close>.\<close>

definition cmd_io_size :: "nat \<Rightarrow> nvme_command \<Rightarrow> u64" where
  "cmd_io_size LBA_BITS cmd = scast (push_bit LBA_BITS (ucast (rw_length cmd) + 1 :: u32))"

section \<open>Work queue entries\<close>

definition allocate_work_queue_entry ::
  "nvmev_io_dev \<Rightarrow> int \<Rightarrow> (nat \<times> u32 \<times> nvmev_io_dev) option" where
  "allocate_work_queue_entry dev sqid =
     (let turn = get_io_worker dev sqid;
          worker = io_workers dev ! unat turn in
      case allocate_entry worker of
        None \<Rightarrow> None
      | Some (e, worker') \<Rightarrow>
          Some (unat turn, e,
            dev\<lparr>io_worker_turn := (if turn + 1 = nr_io_workers dev then 0 else turn + 1),
                io_workers := (io_workers dev)[unat turn := worker']\<rparr>))"

definition set_work :: "u32 \<Rightarrow> nvmev_io_work \<Rightarrow> nvmev_io_worker \<Rightarrow> nvmev_io_worker" where
  "set_work e v w = w\<lparr>work_queue := (work_queue w)(e := v)\<rparr>"

definition fill_io_work ::
  "u64 \<Rightarrow> int \<Rightarrow> int \<Rightarrow> int \<Rightarrow> u64 \<Rightarrow> nvmev_result \<Rightarrow> nvmev_submission_queue \<Rightarrow> nvmev_io_work
     \<Rightarrow> nvmev_io_work" where
  "fill_io_work now sqid cqid sq_entry nsecs_start ret sq w =
     w\<lparr>w_sqid := sqid, w_cqid := cqid, w_sq_entry := sq_entry,
       w_command_id := ucast (c_command_id (sq_mem sq sq_entry)),
       w_nsecs_start := nsecs_start, w_nsecs_enqueue := now,
       w_nsecs_target := r_nsecs_target ret, w_status := r_status ret,
       w_is_completed := False, w_is_copied := False, w_prev := -1, w_next := -1,
       w_is_internal := False\<rparr>"

definition fill_internal_work ::
  "u64 \<Rightarrow> int \<Rightarrow> u64 \<Rightarrow> nat \<Rightarrow> u64 \<Rightarrow> nvmev_io_work \<Rightarrow> nvmev_io_work" where
  "fill_internal_work now sqid nsecs_target write_buffer buffs_to_release w =
     w\<lparr>w_sqid := sqid, w_nsecs_start := now, w_nsecs_enqueue := now,
       w_nsecs_target := nsecs_target, w_is_completed := False, w_is_copied := True,
       w_prev := -1, w_next := -1, w_is_internal := True,
       w_write_buffer := write_buffer, w_buffs_to_release := buffs_to_release\<rparr>"

definition enqueue_io_req ::
  "u64 \<Rightarrow> int \<Rightarrow> int \<Rightarrow> int \<Rightarrow> u64 \<Rightarrow> nvmev_result \<Rightarrow> nvmev_io_dev \<Rightarrow> nvmev_io_dev option" where
  "enqueue_io_req now sqid cqid sq_entry nsecs_start ret dev =
     (case allocate_work_queue_entry dev sqid of
        None \<Rightarrow> Some dev
      | Some (turn, entry, dev) \<Rightarrow>
          do {
            sq \<leftarrow> sqes dev sqid;
            let worker = io_workers dev ! turn;
            let v = fill_io_work now sqid cqid sq_entry nsecs_start ret sq (work_queue worker entry);
            worker \<leftarrow> insert_req_sorted entry (set_work entry v worker) (r_nsecs_target ret);
            Some (dev\<lparr>io_workers := (io_workers dev)[turn := worker]\<rparr>)
          })"

definition schedule_internal_operation ::
  "u64 \<Rightarrow> int \<Rightarrow> u64 \<Rightarrow> nat \<Rightarrow> u64 \<Rightarrow> nvmev_io_dev \<Rightarrow> nvmev_io_dev option" where
  "schedule_internal_operation now sqid nsecs_target write_buffer buffs_to_release dev =
     (case allocate_work_queue_entry dev sqid of
        None \<Rightarrow> Some dev
      | Some (turn, entry, dev) \<Rightarrow>
          do {
            let worker = io_workers dev ! turn;
            let v = fill_internal_work now sqid nsecs_target write_buffer buffs_to_release
                      (work_queue worker entry);
            worker \<leftarrow> insert_req_sorted entry (set_work entry v worker) nsecs_target;
            Some (dev\<lparr>io_workers := (io_workers dev)[turn := worker]\<rparr>)
          })"

definition reclaim_completed_reqs :: "nvmev_io_dev \<Rightarrow> nvmev_io_dev option" where
  "reclaim_completed_reqs dev =
     do {
       workers \<leftarrow> those (map reclaim_worker (io_workers dev));
       Some (dev\<lparr>io_workers := workers\<rparr>)
     }"

section \<open>Completion\<close>

text \<open>The completion entry of a request, and the ring after posting it.\<close>

definition cqe_of_work :: "nvmev_completion_queue \<Rightarrow> nvmev_io_work \<Rightarrow> nvme_completion" where
  "cqe_of_work cq w =
     \<lparr>e_result0 = w_result0 w, e_result1 = w_result1 w, e_sq_head = word_of_int (w_sq_entry w),
      e_sq_id = word_of_int (w_sqid w), e_command_id = ucast (w_command_id w),
      e_status = ucast (word_of_int (cq_phase cq) OR push_bit 1 (w_status w))\<rparr>"

definition cq_post :: "nvme_completion \<Rightarrow> nvmev_completion_queue \<Rightarrow> nvmev_completion_queue" where
  "cq_post cqe cq =
     (let h = cq_head cq;
          cq = cq\<lparr>cq_mem := (cq_mem cq)(h := cqe)\<rparr>;
          wrap = (h + 1 = cq_queue_size cq);
          cq = (if wrap then cq\<lparr>cq_phase := (if cq_phase cq = 0 then 1 else 0)\<rparr> else cq)
      in cq\<lparr>cq_head := (if wrap then 0 else h + 1), cq_interrupt_ready := True\<rparr>)"

definition fill_cq_result :: "nvmev_io_work \<Rightarrow> nvmev_io_dev \<Rightarrow> nvmev_io_dev option" where
  "fill_cq_result w dev =
     do {
       cq \<leftarrow> cqes dev (w_cqid w);
       Some (dev\<lparr>cqes := (cqes dev)(w_cqid w \<mapsto> cq_post (cqe_of_work cq w) cq)\<rparr>)
     }"

text \<open>
  One round of the worker's inner loop, for the entry \<open>c\<close> at time \<open>now\<close>. The data transfer
  (\<^verbatim>\<open>__do_perform_io\<close>) does not touch this state; its result is discarded.
\<close>

definition visit_entry :: "u64 \<Rightarrow> nat \<Rightarrow> u32 \<Rightarrow> nvmev_io_dev \<Rightarrow> nvmev_io_dev option" where
  "visit_entry now turn c dev =
     (let worker = (io_workers dev ! turn)\<lparr>latest_nsecs := now\<rparr>;
          w = work_queue worker c in
      if w_is_completed w then Some (dev\<lparr>io_workers := (io_workers dev)[turn := worker]\<rparr>)
      else
        let w = w\<lparr>w_is_copied := True\<rparr> in
        if w_nsecs_target w \<le> now then
          do {
            dev \<leftarrow> (if w_is_internal w
                    then Some (dev\<lparr>wbufs := (wbufs dev)(w_write_buffer w :=
                                 buffer_release (wbufs dev (w_write_buffer w)) (w_buffs_to_release w))\<rparr>)
                    else fill_cq_result w dev);
            Some (dev\<lparr>io_workers := (io_workers dev)[turn :=
                        set_work c (w\<lparr>w_is_completed := True\<rparr>) worker]\<rparr>)
          }
        else Some (dev\<lparr>io_workers := (io_workers dev)[turn := set_work c w worker]\<rparr>))"

text \<open>The inner loop of \<^verbatim>\<open>nvmev_io_worker\<close>; \<open>clk n\<close> is the clock reading of round \<open>n\<close>.\<close>

partial_function (option) worker_pass ::
  "(nat \<Rightarrow> u64) \<Rightarrow> nat \<Rightarrow> nat \<Rightarrow> u32 \<Rightarrow> nvmev_io_dev \<Rightarrow> nvmev_io_dev option" where
  "worker_pass clk n turn c dev =
     (if c = -1 then Some dev
      else
        do {
          dev \<leftarrow> visit_entry (clk n) turn c dev;
          worker_pass clk (Suc n) turn (w_next (work_queue (io_workers dev ! turn) c)) dev
        })"

text \<open>The interrupt loop of \<^verbatim>\<open>nvmev_io_worker\<close>; the \<^verbatim>\<open>irq_lock\<close> is free.\<close>

definition irq_one :: "u32 \<Rightarrow> int \<Rightarrow> nvmev_io_dev \<Rightarrow> nvmev_io_dev" where
  "irq_one wid qidx dev =
     (if wid \<noteq> get_io_worker dev qidx then dev
      else case cqes dev qidx of
        None \<Rightarrow> dev
      | Some cq \<Rightarrow>
          if \<not> cq_irq_enabled cq then dev
          else if cq_interrupt_ready cq then
            dev\<lparr>cqes := (cqes dev)(qidx \<mapsto> cq\<lparr>cq_interrupt_ready := False\<rparr>),
                irqs := irqs dev @ [cq_irq_vector cq]\<rparr>
          else dev)"

definition irq_loop :: "u32 \<Rightarrow> nvmev_io_dev \<Rightarrow> nvmev_io_dev" where
  "irq_loop wid dev = fold (\<lambda>q. irq_one wid (int q)) [1..<Suc (nr_cq dev)] dev"

section \<open>Doorbells\<close>

text \<open>
  \<^verbatim>\<open>__nvmev_proc_io\<close>: the namespace's \<^verbatim>\<open>proc_io_cmd\<close> is the argument \<open>proc\<close>; it gets the command, the
  submission queue and entry and the start time, and returns whether it took the command, the result
  and the device after its internal operations.
\<close>

type_synonym proc_io_cmd =
  "nvme_command \<Rightarrow> int \<Rightarrow> int \<Rightarrow> u64 \<Rightarrow> nvmev_io_dev \<Rightarrow> (bool \<times> nvmev_result \<times> nvmev_io_dev) option"

definition nvme_cmd_csd_process_edge :: u8 where
  "nvme_cmd_csd_process_edge = 0x66"

definition nvmev_proc_io ::
  "proc_io_cmd \<Rightarrow> nat \<Rightarrow> u64 \<Rightarrow> int \<Rightarrow> int \<Rightarrow> nvmev_io_dev \<Rightarrow> (bool \<times> u64 \<times> nvmev_io_dev) option" where
  "nvmev_proc_io proc LBA_BITS now sqid sq_entry dev =
     do {
       sq \<leftarrow> sqes dev sqid;
       let cmd = sq_mem sq sq_entry;
       (ok, ret, dev) \<leftarrow> proc cmd sqid sq_entry now dev;
       if \<not> ok then Some (False, 0, dev)
       else do {
         dev \<leftarrow> (if c_opcode cmd \<noteq> nvme_cmd_csd_process_edge
                 then enqueue_io_req now sqid (sq_cqid sq) sq_entry now ret dev else Some dev);
         dev \<leftarrow> reclaim_completed_reqs dev;
         Some (True, cmd_io_size LBA_BITS cmd, dev)
       }
     }"

text \<open>The loop of \<^verbatim>\<open>nvmev_proc_io_sq\<close>: \<open>n\<close> rounds are left, \<open>seq\<close> are done.\<close>

fun proc_sq_loop ::
  "proc_io_cmd \<Rightarrow> nat \<Rightarrow> (nat \<Rightarrow> u64) \<Rightarrow> int \<Rightarrow> int \<Rightarrow> nat \<Rightarrow> nat \<Rightarrow> nvmev_io_dev
     \<Rightarrow> (nat \<times> nvmev_io_dev) option" where
  "proc_sq_loop proc LBA_BITS clk sqid sq_entry seq 0 dev = Some (seq, dev)"
| "proc_sq_loop proc LBA_BITS clk sqid sq_entry seq (Suc n) dev =
     do {
       (ok, io_size, dev) \<leftarrow> nvmev_proc_io proc LBA_BITS (clk seq) sqid sq_entry dev;
       if \<not> ok then Some (seq, dev)
       else do {
         sq \<leftarrow> sqes dev sqid;
         let st = sq_stat sq;
         let st = st\<lparr>nr_dispatched := nr_dispatched st + 1, nr_in_flight := nr_in_flight st + 1,
                     total_io := total_io st + io_size\<rparr>;
         proc_sq_loop proc LBA_BITS clk sqid
           (if sq_entry + 1 = sq_queue_size sq then 0 else sq_entry + 1) (Suc seq) n
           (dev\<lparr>sqes := (sqes dev)(sqid \<mapsto> sq\<lparr>sq_stat := st\<rparr>)\<rparr>)
       }
     }"

definition nvmev_proc_io_sq ::
  "proc_io_cmd \<Rightarrow> nat \<Rightarrow> (nat \<Rightarrow> u64) \<Rightarrow> int \<Rightarrow> int \<Rightarrow> int \<Rightarrow> nvmev_io_dev
     \<Rightarrow> (int \<times> nvmev_io_dev) option" where
  "nvmev_proc_io_sq proc LBA_BITS clk sqid new_db old_db dev =
     (case sqes dev sqid of
        None \<Rightarrow> Some (old_db, dev)
      | Some sq \<Rightarrow>
          let num_proc = new_db - old_db;
              num_proc = (if num_proc < 0 then num_proc + sq_queue_size sq else num_proc) in
          do {
            (seq, dev) \<leftarrow> proc_sq_loop proc LBA_BITS clk sqid old_db 0 (nat num_proc) dev;
            sq \<leftarrow> sqes dev sqid;
            let st = sq_stat sq;
            let st = st\<lparr>nr_dispatch := nr_dispatch st + 1,
                        max_nr_in_flight := word_of_int
                          (max (sint (max_nr_in_flight st)) (sint (nr_in_flight st)))\<rparr>;
            Some ((old_db + int seq) mod sq_queue_size sq,
                  dev\<lparr>sqes := (sqes dev)(sqid \<mapsto> sq\<lparr>sq_stat := st\<rparr>)\<rparr>)
          })"

text \<open>The loop of \<^verbatim>\<open>nvmev_proc_io_cq\<close>; \<^verbatim>\<open>i = -1; continue\<close> makes the next index 0.\<close>

partial_function (option) proc_cq_loop ::
  "nvmev_completion_queue \<Rightarrow> int \<Rightarrow> int \<Rightarrow> nvmev_io_dev \<Rightarrow> nvmev_io_dev option" where
  "proc_cq_loop cq new_db i dev =
     (if i = new_db then Some dev
      else
        let sqid = uint (e_sq_id (cq_mem cq i)) in
        if i \<ge> cq_queue_size cq then proc_cq_loop cq new_db 0 dev
        else case sqes dev sqid of
          None \<Rightarrow> proc_cq_loop cq new_db (i + 1) dev
        | Some sq \<Rightarrow>
            proc_cq_loop cq new_db (i + 1)
              (dev\<lparr>sqes := (sqes dev)(sqid \<mapsto> sq\<lparr>sq_stat :=
                 (sq_stat sq)\<lparr>nr_in_flight := nr_in_flight (sq_stat sq) - 1\<rparr>\<rparr>)\<rparr>))"

definition nvmev_proc_io_cq :: "int \<Rightarrow> int \<Rightarrow> int \<Rightarrow> nvmev_io_dev \<Rightarrow> nvmev_io_dev option" where
  "nvmev_proc_io_cq cqid new_db old_db dev =
     do {
       cq \<leftarrow> cqes dev cqid;
       dev \<leftarrow> proc_cq_loop cq new_db old_db dev;
       Some (dev\<lparr>cqes := (cqes dev)(cqid \<mapsto> cq\<lparr>cq_tail :=
               (if new_db = -1 then cq_queue_size cq - 1 else new_db - 1)\<rparr>)\<rparr>)
     }"

section \<open>The completion ring\<close>

interpretation ioring: phase_ring cq_head cq_phase cq_queue_size cq_mem cq_post
  by unfold_locales (auto simp: cq_post_def Let_def)

section \<open>The invariant\<close>

text \<open>A completed request that is still linked was copied and is due.\<close>

definition done_ok :: "nvmev_io_worker \<Rightarrow> u32 list \<Rightarrow> bool" where
  "done_ok w xs \<longleftrightarrow> (\<forall>x \<in> set xs. w_is_completed (work_queue w x) \<longrightarrow> reclaimable w x)"

definition worker_inv :: "nvmev_io_worker \<Rightarrow> bool" where
  "worker_inv w \<longleftrightarrow> (\<exists>xs fs. worker_rep w xs fs \<and> due_sorted w xs \<and> done_ok w xs)"

definition io_inv :: "nvmev_io_dev \<Rightarrow> bool" where
  "io_inv dev \<longleftrightarrow> 0 < nr_io_workers dev \<and> length (io_workers dev) = unat (nr_io_workers dev) \<and>
     (\<forall>w \<in> set (io_workers dev). worker_inv w)"

lemma io_turn_less: "io_inv dev \<Longrightarrow> unat (get_io_worker dev sqid) < length (io_workers dev)"
  by (simp add: io_inv_def get_io_worker_def word_less_nat_alt unat_mod)

lemma io_inv_upd:
  "io_inv dev \<Longrightarrow> worker_inv w \<Longrightarrow> io_inv (dev\<lparr>io_workers := (io_workers dev)[t := w]\<rparr>)"
  using set_update_subset_insert [of "io_workers dev" t w] by (auto simp: io_inv_def)

lemma io_inv_nth: "io_inv dev \<Longrightarrow> t < length (io_workers dev) \<Longrightarrow> worker_inv (io_workers dev ! t)"
  by (simp add: io_inv_def)

lemma lseg_frame_eq: "(\<And>x. x \<in> set xs \<Longrightarrow> q' x = q x) \<Longrightarrow> lseg q' a xs b = lseg q a xs b"
  by (rule lseg_frame) simp

lemma bseg_frame_eq: "(\<And>x. x \<in> set xs \<Longrightarrow> q' x = q x) \<Longrightarrow> bseg q' p xs = bseg q p xs"
  by (rule bseg_frame) simp

lemma mset_insert_before_late: "mset (insert_before_late P e xs) = add_mset e (mset xs)"
proof -
  have "mset xs = mset (rev (dropWhile P (rev xs)) @ rev (takeWhile P (rev xs)))"
    by (simp only: insert_split [symmetric])
  then show ?thesis by (simp add: insert_before_late_def)
qed

text \<open>Taking the first free entry, filling it and inserting it.\<close>

lemma allocate_insert_spec:
  assumes rep: "worker_rep w xs (e # f # fs)"
    and al: "w_nsecs_target v = t" "w_prev v = -1" "w_next v = -1"
    and w1: "w1 = set_work e v (w\<lparr>free_seq := f\<rparr>)"
  shows "allocate_entry w = Some (e, w\<lparr>free_seq := f\<rparr>)"
    and "\<exists>w'. insert_req_sorted e w1 t = Some w' \<and>
      worker_rep w' (insert_before_late (late w t) e xs) (f # fs) \<and>
      same_payload ((work_queue w)(e := v)) (work_queue w') \<and> latest_nsecs w' = latest_nsecs w"
proof -
  from rep have e: "e < NR_MAX_PARALLEL_IO" "f < NR_MAX_PARALLEL_IO" "free_seq w = e"
      "w_next (work_queue w e) = f" "e \<notin> set xs" "e \<notin> set (f # fs)" "distinct xs"
      "distinct (f # fs)" "set xs \<inter> set (f # fs) = {}" "e \<noteq> -1"
    by (auto simp: worker_rep_def)
  then show "allocate_entry w = Some (e, w\<lparr>free_seq := f\<rparr>)"
    by (simp add: allocate_entry_def Let_def not_le)
  have q: "work_queue w1 = (work_queue w)(e := v)" by (simp add: w1 set_work_def)
  have sel: "io_seq w1 = io_seq w" "io_seq_end w1 = io_seq_end w" "free_seq w1 = f"
      "free_seq_end w1 = free_seq_end w" "latest_nsecs w1 = latest_nsecs w"
    by (simp_all add: w1 set_work_def)
  have fr: "lseg (work_queue w1) a ys b = lseg (work_queue w) a ys b"
      "bseg (work_queue w1) p ys = bseg (work_queue w) p ys" if "e \<notin> set ys" for a b p ys
    using that by (auto intro!: lseg_frame_eq bseg_frame_eq simp: q)
  have late_eq: "insert_before_late (late w1 t) e xs = insert_before_late (late w t) e xs" (is "_ = ?ys")
  proof -
    have "late w1 t x = late w t x" if "x \<in> set (rev xs)" for x
      using that e(5) sel q by (auto simp: late_def)
    then have "dropWhile (late w1 t) (rev xs) = dropWhile (late w t) (rev xs)"
      "takeWhile (late w1 t) (rev xs) = takeWhile (late w t) (rev xs)"
      by (intro dropWhile_cong takeWhile_cong; simp)+
    then show ?thesis by (simp add: insert_before_late_def)
  qed
  have "\<exists>w'. insert_req_sorted e w1 t = Some w' \<and> linked w1 w' (insert_before_late (late w1 t) e xs)"
    using rep e sel fr by (intro insert_req_sorted_spec) (auto simp: worker_rep_def q al)
  then obtain w' where w': "insert_req_sorted e w1 t = Some w'" "linked w1 w' ?ys"
    unfolding late_eq by blast
  have ys: "mset ?ys = mset (e # xs)"
    by (simp add: mset_insert_before_late)
  have sys: "set ?ys = insert e (set xs)" "distinct ?ys \<longleftrightarrow> distinct (e # xs)"
    using mset_eq_setD [OF ys] mset_eq_imp_distinct_iff [OF ys] by simp_all
  have "lseg (work_queue w') (free_seq w') (f # fs) (-1)"
  proof -
    have "lseg (work_queue w') f (f # fs) (-1) = lseg (work_queue w1) f (f # fs) (-1)"
      using w'(2) sys(1) e(6,9) by (intro lseg_frame_eq) (auto simp: linked_def)
    moreover have "lseg (work_queue w) f (f # fs) (-1)" using rep e by (simp add: worker_rep_def)
    moreover have "free_seq w' = f" using w'(2) sel by (simp add: linked_def)
    ultimately show ?thesis using fr(1) [OF e(6)] by (simp only:)
  qed
  then show "\<exists>w'. insert_req_sorted e w1 t = Some w' \<and>
      worker_rep w' ?ys (f # fs) \<and>
      same_payload ((work_queue w)(e := v)) (work_queue w') \<and> latest_nsecs w' = latest_nsecs w"
    using w' sys rep e sel q
    by (intro exI [of _ w']) (auto simp: worker_rep_def linked_def)
qed

lemma allocate_full: "worker_rep w xs [e] \<Longrightarrow> allocate_entry w = None"
  by (auto simp: worker_rep_def allocate_entry_def NR_MAX_PARALLEL_IO_def)

lemma allocate_insert_inv:
  assumes inv: "worker_rep w xs (e # f # fs)" "due_sorted w xs" "done_ok w xs"
    and v: "w_nsecs_target v = t" "w_prev v = -1" "w_next v = -1" "\<not> w_is_completed v"
    and w': "insert_req_sorted e (set_work e v (w\<lparr>free_seq := f\<rparr>)) t = Some w'"
  shows "worker_inv w'"
proof -
  from allocate_insert_spec(2) [OF inv(1) v(1-3) refl] w'
  have r: "worker_rep w' (insert_before_late (late w t) e xs) (f # fs)"
    and p: "same_payload ((work_queue w)(e := v)) (work_queue w')" and l: "latest_nsecs w' = latest_nsecs w"
    by auto
  have e: "e \<notin> set xs" using inv(1) by (auto simp: worker_rep_def)
  let ?w = "set_work e v w"
  have q: "work_queue ?w = (work_queue w)(e := v)" "latest_nsecs ?w = latest_nsecs w"
    by (simp_all add: set_work_def)
  have "due_sorted ?w xs" using inv(2) e q by (auto intro!: due_sorted_mono [of w xs ?w])
  then have "due_sorted ?w (insert_before_late (late ?w t) e xs)"
    by (rule due_sorted_insert) (simp only: q v fun_upd_same)
  moreover have "late ?w t x = late w t x" if "x \<in> set xs" for x
    using that e q by (auto simp: late_def)
  then have "insert_before_late (late ?w t) e xs = insert_before_late (late w t) e xs"
    unfolding insert_before_late_def
    by (metis (mono_tags, lifting) dropWhile_cong set_rev takeWhile_cong)
  ultimately have "due_sorted w' (insert_before_late (late w t) e xs)"
    using due_sorted_cong [of ?w w'] p q l by simp
  moreover have "done_ok w' (insert_before_late (late w t) e xs)"
  proof -
    have "set (insert_before_late (late w t) e xs) = insert e (set xs)"
      using mset_eq_setD [of "insert_before_late (late w t) e xs" "e # xs"]
      by (simp add: mset_insert_before_late)
    moreover have "\<not> w_is_completed (work_queue w' e)"
      using same_payload_fields(2) [OF p, of e] v(4) by simp
    moreover have "reclaimable w' x" if "x \<in> set xs" "w_is_completed (work_queue w' x)" for x
      using that e inv(3) same_payload_fields [OF p, of x] l
      by (auto simp: done_ok_def reclaimable_def)
    ultimately show ?thesis by (auto simp: done_ok_def)
  qed
  ultimately show ?thesis using r by (auto simp: worker_inv_def)
qed

lemma worker_rep_free: "worker_rep w xs fs \<Longrightarrow> (\<exists>e. fs = [e]) \<or> (\<exists>e f gs. fs = e # f # gs)"
  by (cases fs; cases "tl fs") (auto simp: worker_rep_def)

text \<open>What allocation and insertion do to the device, for both kinds of request.\<close>

lemma allocate_work_queue_entry_cases:
  assumes "io_inv dev" and "worker_rep (io_workers dev ! turn) xs fs"
    and "turn = unat (get_io_worker dev sqid)"
  shows "allocate_work_queue_entry dev sqid =
    (case fs of
       e # f # _ \<Rightarrow> Some (turn, e,
          dev\<lparr>io_worker_turn := (if get_io_worker dev sqid + 1 = nr_io_workers dev then 0
                else get_io_worker dev sqid + 1),
              io_workers := (io_workers dev)[turn := (io_workers dev ! turn)\<lparr>free_seq := f\<rparr>]\<rparr>)
     | _ \<Rightarrow> None)"
  using worker_rep_free [OF assms(2)] allocate_full [of "io_workers dev ! turn" xs]
    allocate_insert_spec(1) [of "io_workers dev ! turn" xs _ _ _ "blank_work\<lparr>w_prev := -1, w_next := -1\<rparr>"]
    assms(2,3)
  by (auto simp: allocate_work_queue_entry_def Let_def)

lemma io_inv_insert:
  assumes inv: "io_inv dev" and al: "allocate_work_queue_entry dev sqid = Some (turn, e, dev1)"
    and v: "w_nsecs_target v = t" "w_prev v = -1" "w_next v = -1" "\<not> w_is_completed v"
    and ins: "insert_req_sorted e (set_work e v (io_workers dev1 ! turn)) t = Some w'"
  shows "io_inv (dev1\<lparr>io_workers := (io_workers dev1)[turn := w']\<rparr>)"
proof -
  let ?turn = "unat (get_io_worker dev sqid)" and ?w = "io_workers dev ! unat (get_io_worker dev sqid)"
  have lt: "?turn < length (io_workers dev)" using io_turn_less [OF inv] .
  obtain xs fs where r: "worker_rep ?w xs fs" "due_sorted ?w xs" "done_ok ?w xs"
    using io_inv_nth [OF inv lt] by (auto simp: worker_inv_def)
  from allocate_work_queue_entry_cases [OF inv r(1) refl] al
  obtain f gs where fs: "fs = e # f # gs" "turn = ?turn"
    and dev1: "dev1 = dev\<lparr>io_worker_turn := (if get_io_worker dev sqid + 1 = nr_io_workers dev then 0
          else get_io_worker dev sqid + 1),
        io_workers := (io_workers dev)[?turn := ?w\<lparr>free_seq := f\<rparr>]\<rparr>"
    by (auto split: list.splits)
  have "worker_inv w'"
    using allocate_insert_inv [OF _ r(2,3) v, of e f gs w'] r(1) ins fs dev1 lt by simp
  then show ?thesis
    using io_inv_upd [OF inv, of w' ?turn] fs(2) dev1 by (simp add: io_inv_def)
qed

lemma io_inv_enqueue:
  assumes "io_inv dev" and "enqueue_io_req now sqid cqid sq_entry nsecs_start ret dev = Some dev'"
  shows "io_inv dev'"
proof (cases "allocate_work_queue_entry dev sqid")
  case None
  with assms show ?thesis by (simp add: enqueue_io_req_def)
next
  case (Some a)
  then obtain turn e dev1 where a: "allocate_work_queue_entry dev sqid = Some (turn, e, dev1)"
    by (cases a) auto
  from assms(2) a obtain sq w' where
    ins: "insert_req_sorted e (set_work e (fill_io_work now sqid cqid sq_entry nsecs_start ret sq
        (work_queue (io_workers dev1 ! turn) e)) (io_workers dev1 ! turn)) (r_nsecs_target ret) = Some w'"
    and "dev' = dev1\<lparr>io_workers := (io_workers dev1)[turn := w']\<rparr>"
    by (auto simp: enqueue_io_req_def Let_def bind_eq_Some_conv)
  then show ?thesis
    using io_inv_insert [OF assms(1) a _ _ _ _ ins] by (simp add: fill_io_work_def)
qed

lemma io_inv_internal:
  assumes "io_inv dev" and "schedule_internal_operation now sqid t wb n dev = Some dev'"
  shows "io_inv dev'"
proof (cases "allocate_work_queue_entry dev sqid")
  case None
  with assms show ?thesis by (simp add: schedule_internal_operation_def)
next
  case (Some a)
  then obtain turn e dev1 where a: "allocate_work_queue_entry dev sqid = Some (turn, e, dev1)"
    by (cases a) auto
  from assms(2) a obtain w' where
    ins: "insert_req_sorted e (set_work e (fill_internal_work now sqid t wb n
        (work_queue (io_workers dev1 ! turn) e)) (io_workers dev1 ! turn)) t = Some w'"
    and "dev' = dev1\<lparr>io_workers := (io_workers dev1)[turn := w']\<rparr>"
    by (auto simp: schedule_internal_operation_def Let_def bind_eq_Some_conv)
  then show ?thesis
    using io_inv_insert [OF assms(1) a _ _ _ _ ins] by (simp add: fill_internal_work_def)
qed

section \<open>The worker's pass\<close>

text \<open>Workers with the same lists: every link, list end and target is equal.\<close>

definition same_lists :: "nvmev_io_worker \<Rightarrow> nvmev_io_worker \<Rightarrow> bool" where
  "same_lists w w' \<longleftrightarrow> io_seq w' = io_seq w \<and> io_seq_end w' = io_seq_end w \<and> free_seq w' = free_seq w \<and>
     free_seq_end w' = free_seq_end w \<and>
     (\<forall>x. w_next (work_queue w' x) = w_next (work_queue w x) \<and>
          w_prev (work_queue w' x) = w_prev (work_queue w x) \<and>
          w_nsecs_target (work_queue w' x) = w_nsecs_target (work_queue w x))"

lemma same_lists_refl [simp]: "same_lists w w"
  by (simp add: same_lists_def)

lemma same_lists_trans: "same_lists u v \<Longrightarrow> same_lists v w \<Longrightarrow> same_lists u w"
  by (simp add: same_lists_def)

lemma worker_rep_same_lists: "same_lists w w' \<Longrightarrow> worker_rep w' xs fs = worker_rep w xs fs"
  using lseg_frame [of _ "work_queue w'" "work_queue w"] bseg_frame [of _ "work_queue w'" "work_queue w"]
  by (simp add: worker_rep_def same_lists_def)

lemma fill_cq_result_Some:
  "cqes dev (w_cqid w) = Some cq \<Longrightarrow>
   fill_cq_result w dev = Some (dev\<lparr>cqes := (cqes dev)(w_cqid w \<mapsto> cq_post (cqe_of_work cq w) cq)\<rparr>)"
  by (simp add: fill_cq_result_def)

text \<open>The request after a visit at time \<open>now\<close>, and the completions the visit posts.\<close>

definition visited :: "u64 \<Rightarrow> nvmev_io_work \<Rightarrow> nvmev_io_work" where
  "visited now w =
     (if w_is_completed w then w
      else if w_nsecs_target w \<le> now then w\<lparr>w_is_copied := True, w_is_completed := True\<rparr>
      else w\<lparr>w_is_copied := True\<rparr>)"

definition posts :: "u64 \<Rightarrow> int \<Rightarrow> nvmev_io_work \<Rightarrow> bool" where
  "posts now q w \<longleftrightarrow> \<not> w_is_completed w \<and> w_nsecs_target w \<le> now \<and> \<not> w_is_internal w \<and> w_cqid w = q"

lemma visit_entry_spec:
  assumes "\<not> w_is_completed (work_queue (io_workers dev ! turn) c) \<longrightarrow>
      \<not> w_is_internal (work_queue (io_workers dev ! turn) c) \<longrightarrow>
      cqes dev (w_cqid (work_queue (io_workers dev ! turn) c)) \<noteq> None"
    and w: "w = work_queue (io_workers dev ! turn) c"
  shows "\<exists>dev'. visit_entry now turn c dev = Some dev' \<and>
    io_workers dev' = (io_workers dev)[turn := set_work c (visited now w) ((io_workers dev ! turn)\<lparr>latest_nsecs := now\<rparr>)] \<and>
    nr_io_workers dev' = nr_io_workers dev \<and>
    (\<forall>q. cqes dev' q = (if posts now q w then map_option (\<lambda>cq. cq_post (cqe_of_work cq w) cq) (cqes dev q)
                        else cqes dev q))"
proof -
  have c: "cqe_of_work cq (w\<lparr>w_is_copied := True\<rparr>) = cqe_of_work cq w" for cq
    by (simp add: cqe_of_work_def)
  have id: "set_work c w ((io_workers dev ! turn)\<lparr>latest_nsecs := now\<rparr>) =
      (io_workers dev ! turn)\<lparr>latest_nsecs := now\<rparr>"
    by (simp add: set_work_def w)
  consider "w_is_completed w" | "\<not> w_is_completed w" "\<not> w_nsecs_target w \<le> now"
    | "\<not> w_is_completed w" "w_nsecs_target w \<le> now" "w_is_internal w"
    | "\<not> w_is_completed w" "w_nsecs_target w \<le> now" "\<not> w_is_internal w" by blast
  then show ?thesis
  proof cases
    case 1
    then show ?thesis using id by (simp add: visit_entry_def Let_def visited_def posts_def flip: w)
  next
    case 2
    then show ?thesis by (simp add: visit_entry_def Let_def visited_def posts_def flip: w)
  next
    case 3
    then show ?thesis by (simp add: visit_entry_def Let_def visited_def posts_def flip: w)
  next
    case 4
    then obtain cq where "cqes dev (w_cqid w) = Some cq" using assms by auto
    with 4 show ?thesis
      by (auto simp: visit_entry_def Let_def visited_def posts_def fill_cq_result_def c simp flip: w)
  qed
qed

lemma same_lists_visited:
  "same_lists w (set_work c (visited now (work_queue w c)) (w\<lparr>latest_nsecs := t\<rparr>))"
  by (simp add: same_lists_def set_work_def visited_def)

text \<open>The completions a pass at times beyond every target posts to queue \<open>q\<close>, in list order.\<close>

definition pass_posts ::
  "int \<Rightarrow> nvmev_io_worker \<Rightarrow> u32 list \<Rightarrow> (nvmev_completion_queue \<Rightarrow> nvme_completion) list" where
  "pass_posts q w xs =
     map (\<lambda>x cq. cqe_of_work cq (work_queue w x))
       (filter (\<lambda>x. \<not> w_is_completed (work_queue w x) \<and> \<not> w_is_internal (work_queue w x) \<and>
                   w_cqid (work_queue w x) = q) xs)"

lemma pass_posts_cong:
  "(\<And>x. x \<in> set xs \<Longrightarrow> work_queue w' x = work_queue w x) \<Longrightarrow> pass_posts q w' xs = pass_posts q w xs"
  unfolding pass_posts_def by (rule map_cong) (auto cong: filter_cong)

text \<open>
  What a pass over the entries \<open>ys\<close> of worker \<open>turn\<close> achieves when all of them are due: the lists
  stay, every entry of \<open>ys\<close> is copied and completed, other entries stay, and each request that was
  not complete and not internal posts its one completion, in the order of the list.
\<close>

definition drained ::
  "(nat \<Rightarrow> u64) \<Rightarrow> nat \<Rightarrow> u32 list \<Rightarrow> nvmev_io_dev \<Rightarrow> nvmev_io_dev \<Rightarrow> bool" where
  "drained clk turn ys dev dev' \<longleftrightarrow>
     (let w = io_workers dev ! turn; w' = io_workers dev' ! turn in
      length (io_workers dev') = length (io_workers dev) \<and> same_lists w w' \<and>
      (\<forall>x \<in> set ys. w_is_completed (work_queue w' x) \<and> w_is_copied (work_queue w' x)) \<and>
      (if ys = [] then latest_nsecs w' = latest_nsecs w else latest_nsecs w' \<in> range clk) \<and>
      (\<forall>x. x \<notin> set ys \<longrightarrow> work_queue w' x = work_queue w x) \<and>
      (\<forall>q. cqes dev' q = map_option (ioring.post_all (pass_posts q w ys)) (cqes dev q)))"

lemma post_all_Nil: "ioring.post_all [] = (\<lambda>r. r)"
  by (rule ext) simp

lemma post_all_Cons: "ioring.post_all (f # fs) = (\<lambda>r. ioring.post_all fs (cq_post (f r) r))"
  by (rule ext) simp

lemma drained_Nil: "drained clk turn [] dev dev"
  by (simp add: drained_def Let_def pass_posts_def post_all_Nil option.map_ident)

lemma drained_Cons:
  assumes "turn < length (io_workers dev)" and w: "w = io_workers dev ! turn"
    and v: "v = visited (clk n) (work_queue w y)" "w_is_completed v" "w_is_copied v"
    and due: "w_nsecs_target (work_queue w y) \<le> clk n"
    and d: "io_workers dev1 = (io_workers dev)[turn := set_work y v (w\<lparr>latest_nsecs := clk n\<rparr>)]"
    and q: "\<And>q. cqes dev1 q = (if posts (clk n) q (work_queue w y)
       then map_option (\<lambda>cq. cq_post (cqe_of_work cq (work_queue w y)) cq) (cqes dev q) else cqes dev q)"
    and rest: "drained clk turn ys dev1 dev'" and y: "y \<notin> set ys"
  shows "drained clk turn (y # ys) dev dev'"
proof -
  let ?w1 = "io_workers dev1 ! turn"
  have w1: "?w1 = set_work y v (w\<lparr>latest_nsecs := clk n\<rparr>)" using d assms(1) by simp
  have sl: "same_lists w ?w1" using same_lists_visited [of w y "clk n" "clk n"] by (simp add: w1 v(1))
  have oth: "work_queue ?w1 x = work_queue w x" if "x \<noteq> y" for x using that by (simp add: w1 set_work_def)
  have pp: "pass_posts q ?w1 ys = pass_posts q w ys" for q
    using y by (intro pass_posts_cong oth) auto
  have "cqes dev' q = map_option (ioring.post_all (pass_posts q w (y # ys))) (cqes dev q)" for q
  proof -
    have "cqes dev' q = map_option (ioring.post_all (pass_posts q w ys)) (cqes dev1 q)"
      using rest pp by (simp add: drained_def Let_def)
    moreover have "pass_posts q w (y # ys) = (if posts (clk n) q (work_queue w y)
        then (\<lambda>cq. cqe_of_work cq (work_queue w y)) # pass_posts q w ys else pass_posts q w ys)"
      using due by (auto simp: pass_posts_def posts_def)
    ultimately show ?thesis using q [of q] by (simp add: option.map_comp o_def post_all_Cons)
  qed
  moreover have "latest_nsecs ?w1 = clk n" by (simp add: w1 set_work_def)
  then have "latest_nsecs (io_workers dev' ! turn) \<in> range clk"
    using rest by (simp add: drained_def Let_def split: if_splits)
  moreover have "work_queue ?w1 y = v" by (simp add: w1 set_work_def)
  ultimately show ?thesis
    using rest sl v(2,3) oth y d
    by (auto simp: drained_def Let_def simp flip: w intro: same_lists_trans)
qed

lemma worker_pass_drains:
  assumes "turn < length (io_workers dev)" and "w = io_workers dev ! turn"
    and "lseg (work_queue w) c ys (-1)" and "distinct ys"
    and "\<forall>x \<in> set ys. \<forall>k. w_nsecs_target (work_queue w x) \<le> clk k"
    and "\<forall>x \<in> set ys. w_is_completed (work_queue w x) \<longrightarrow> w_is_copied (work_queue w x)"
    and "\<forall>x \<in> set ys. cqes dev (w_cqid (work_queue w x)) \<noteq> None"
  shows "\<exists>dev'. worker_pass clk n turn c dev = Some dev' \<and> drained clk turn ys dev dev'"
  using assms
proof (induction ys arbitrary: n c dev w)
  case Nil
  then show ?case by (subst worker_pass.simps) (simp add: drained_Nil)
next
  case (Cons y ys)
  then have c: "c = y" "y \<noteq> -1" "lseg (work_queue w) (w_next (work_queue w y)) ys (-1)" by auto
  let ?v = "visited (clk n) (work_queue w y)"
  let ?w = "set_work y ?v (w\<lparr>latest_nsecs := clk n\<rparr>)"
  have "cqes dev (w_cqid (work_queue w y)) \<noteq> None" using Cons.prems(7) by simp
  with visit_entry_spec [of dev turn y "work_queue w y" "clk n"] Cons.prems(2)
  obtain dev1 where d: "visit_entry (clk n) turn c dev = Some dev1"
    "io_workers dev1 = (io_workers dev)[turn := ?w]"
    "\<And>q. cqes dev1 q = (if posts (clk n) q (work_queue w y)
       then map_option (\<lambda>cq. cq_post (cqe_of_work cq (work_queue w y)) cq) (cqes dev q) else cqes dev q)"
    using c(1) by auto
  have w1: "?w = io_workers dev1 ! turn" using d(2) Cons.prems(1) by simp
  have oth: "work_queue ?w x = work_queue w x" if "x \<in> set ys" for x
    using that Cons.prems(4) by (auto simp: set_work_def)
  have nxt: "w_next (work_queue ?w y) = w_next (work_queue w y)" by (simp add: set_work_def visited_def)
  have dom: "cqes dev1 q = None \<longleftrightarrow> cqes dev q = None" for q using d(3) [of q] by auto
  have "\<exists>dev'. worker_pass clk (Suc n) turn (w_next (work_queue w y)) dev1 = Some dev' \<and>
      drained clk turn ys dev1 dev'"
  proof (rule Cons.IH [OF _ w1])
    show "lseg (work_queue ?w) (w_next (work_queue w y)) ys (-1)"
      using c(3) lseg_frame_eq [of ys "work_queue ?w" "work_queue w"] oth by simp
  qed (use Cons.prems oth dom d(2) in auto)
  then obtain dev' where "worker_pass clk (Suc n) turn (w_next (work_queue w y)) dev1 = Some dev'"
    and dr: "drained clk turn ys dev1 dev'" by blast
  then have "worker_pass clk n turn c dev = Some dev'"
    using c d(1) nxt w1 by (subst worker_pass.simps) simp
  moreover have "w_is_completed ?v" "w_is_copied ?v"
    using Cons.prems(5,6) by (auto simp: visited_def)
  then have "drained clk turn (y # ys) dev dev'"
    using Cons.prems(4,5) by (intro drained_Cons [OF Cons.prems(1,2) refl _ _ _ d(2,3) dr]) auto
  ultimately show ?case by blast
qed

section \<open>Reachable devices\<close>

text \<open>
  The dispatcher's operations (submitting a request, scheduling an internal operation,
  reclaiming) and the visits of the workers to entries of their pending lists, in any order, each
  as one step. A worker's clock does not run backwards.
\<close>

inductive io_step :: "nvmev_io_dev \<Rightarrow> nvmev_io_dev \<Rightarrow> bool" where
  io_enqueue: "enqueue_io_req now sqid cqid sq_entry nsecs_start ret dev = Some dev' \<Longrightarrow> io_step dev dev'"
| io_internal: "schedule_internal_operation now sqid t wb n dev = Some dev' \<Longrightarrow> io_step dev dev'"
| io_reclaim: "reclaim_completed_reqs dev = Some dev' \<Longrightarrow> io_step dev dev'"
| io_visit: "turn < length (io_workers dev) \<Longrightarrow> worker_rep (io_workers dev ! turn) xs fs \<Longrightarrow> c \<in> set xs \<Longrightarrow>
     latest_nsecs (io_workers dev ! turn) \<le> now \<Longrightarrow> visit_entry now turn c dev = Some dev' \<Longrightarrow>
     io_step dev dev'"

inductive io_reachable :: "nvmev_io_dev \<Rightarrow> nvmev_io_dev \<Rightarrow> bool" for dev0 where
  io_start: "io_reachable dev0 (io_worker_init_all dev0)"
| io_next: "io_reachable dev0 dev \<Longrightarrow> io_step dev dev' \<Longrightarrow> io_reachable dev0 dev'"

lemma worker_inv_init: "worker_inv (io_worker_init wid)"
  unfolding worker_inv_def
  by (rule exI [of _ "[]"], rule exI, intro conjI, rule io_worker_init_rep)
    (simp_all add: due_sorted_def done_ok_def)

lemma io_inv_init: "0 < nr_io_workers dev \<Longrightarrow> io_inv (io_worker_init_all dev)"
  by (auto simp: io_inv_def io_worker_init_all_def worker_inv_init)

lemma worker_inv_reclaim:
  assumes "worker_inv w" and "reclaim_worker w = Some w'"
  shows "worker_inv w'"
proof -
  from assms(1) obtain xs fs where r: "worker_rep w xs fs" "due_sorted w xs" "done_ok w xs"
    by (auto simp: worker_inv_def)
  from reclaim_worker_spec [OF r(1)] assms(2)
  have w': "worker_rep w' (dropWhile (reclaimable w) xs) (fs @ takeWhile (reclaimable w) xs)"
    "same_payload (work_queue w) (work_queue w')" "latest_nsecs w' = latest_nsecs w" by auto
  have "due_sorted w' (dropWhile (reclaimable w) xs)"
    using due_sorted_cong [OF w'(2,3)] due_sorted_dropWhile [OF r(2)] by simp
  moreover have "done_ok w' (dropWhile (reclaimable w) xs)"
    using r(3) w'(3) same_payload_fields [OF w'(2)]
    by (auto simp: done_ok_def reclaimable_def dest: set_dropWhileD)
  ultimately show ?thesis using w'(1) by (auto simp: worker_inv_def)
qed

lemma those_Some: "those xs = Some ys \<longleftrightarrow> xs = map Some ys"
  by (induction xs arbitrary: ys) (auto split: option.splits simp: Cons_eq_map_conv)

lemma io_inv_reclaim: "io_inv dev \<Longrightarrow> reclaim_completed_reqs dev = Some dev' \<Longrightarrow> io_inv dev'"
proof -
  assume inv: "io_inv dev" and "reclaim_completed_reqs dev = Some dev'"
  then obtain ws where ws: "map reclaim_worker (io_workers dev) = map Some ws"
    "dev' = dev\<lparr>io_workers := ws\<rparr>"
    by (auto simp: reclaim_completed_reqs_def bind_eq_Some_conv those_Some)
  then have len: "length ws = length (io_workers dev)" using map_eq_imp_length_eq by metis
  have "worker_inv (ws ! i)" if "i < length ws" for i
  proof -
    have "map reclaim_worker (io_workers dev) ! i = map Some ws ! i" using ws(1) by simp
    then show ?thesis
      using that len worker_inv_reclaim [OF io_inv_nth [OF inv]] by simp
  qed
  then show ?thesis using inv ws(2) len by (auto simp: io_inv_def in_set_conv_nth)
qed

lemma io_inv_visit:
  assumes inv: "io_inv dev" and t: "turn < length (io_workers dev)"
    and le: "latest_nsecs (io_workers dev ! turn) \<le> now" and v: "visit_entry now turn c dev = Some dev'"
  shows "io_inv dev'"
proof -
  let ?w = "io_workers dev ! turn" and ?e = "work_queue (io_workers dev ! turn) c"
  let ?w' = "set_work c (visited now ?e) (?w\<lparr>latest_nsecs := now\<rparr>)"
  have "\<not> w_is_completed ?e \<longrightarrow> \<not> w_is_internal ?e \<longrightarrow> cqes dev (w_cqid ?e) \<noteq> None \<or> \<not> w_nsecs_target ?e \<le> now"
    using v by (auto simp: visit_entry_def Let_def fill_cq_result_def bind_eq_Some_conv split: if_splits)
  then have d: "io_workers dev' = (io_workers dev)[turn := ?w']" "nr_io_workers dev' = nr_io_workers dev"
    using v visit_entry_spec [of dev turn c ?e now]
    by (auto simp: visit_entry_def Let_def fill_cq_result_def visited_def bind_eq_Some_conv set_work_def
        split: if_splits)
  obtain xs fs where r: "worker_rep ?w xs fs" "due_sorted ?w xs" "done_ok ?w xs"
    using io_inv_nth [OF inv t] by (auto simp: worker_inv_def)
  have sl: "same_lists ?w ?w'" by (rule same_lists_visited)
  have "worker_rep ?w' xs fs" using worker_rep_same_lists [OF sl] r(1) by simp
  moreover have "due_sorted ?w' xs"
    using sl le by (intro due_sorted_mono [OF r(2)]) (auto simp: same_lists_def set_work_def)
  moreover have "done_ok ?w' xs"
    using r(3) le by (auto simp: done_ok_def reclaimable_def visited_def set_work_def)
  ultimately have "worker_inv ?w'" by (auto simp: worker_inv_def)
  then show ?thesis using io_inv_upd [OF inv, of ?w' turn] d by (simp add: io_inv_def)
qed

lemma enqueue_io_req_dev:
  assumes inv: "io_inv dev" and sq: "sqes dev sqid = Some sq"
    and turn: "turn = unat (get_io_worker dev sqid)"
    and rep: "worker_rep (io_workers dev ! turn) xs (e # f # fs)"
  shows "\<exists>dev'. enqueue_io_req now sqid cqid sq_entry nsecs_start ret dev = Some dev' \<and>
    worker_rep (io_workers dev' ! turn)
      (insert_before_late (late (io_workers dev ! turn) (r_nsecs_target ret)) e xs) (f # fs) \<and>
    (\<forall>x. x \<noteq> e \<longrightarrow> (work_queue (io_workers dev' ! turn) x)\<lparr>w_next := 0, w_prev := 0\<rparr> =
                    (work_queue (io_workers dev ! turn) x)\<lparr>w_next := 0, w_prev := 0\<rparr>) \<and>
    (work_queue (io_workers dev' ! turn) e)\<lparr>w_next := 0, w_prev := 0\<rparr> =
      (fill_io_work now sqid cqid sq_entry nsecs_start ret sq
         (work_queue (io_workers dev ! turn) e))\<lparr>w_next := 0, w_prev := 0\<rparr> \<and>
    (\<forall>k. k \<noteq> turn \<longrightarrow> io_workers dev' ! k = io_workers dev ! k) \<and>
    io_inv dev'"
proof -
  let ?w = "io_workers dev ! turn"
  let ?v = "fill_io_work now sqid cqid sq_entry nsecs_start ret sq (work_queue ?w e)"
  have lt: "turn < length (io_workers dev)" using io_turn_less [OF inv] turn by simp
  have v: "w_nsecs_target ?v = r_nsecs_target ret" "w_prev ?v = -1" "w_next ?v = -1"
    by (simp_all add: fill_io_work_def)
  from allocate_insert_spec(2) [OF rep v refl] obtain w' where
    w': "insert_req_sorted e (set_work e ?v (?w\<lparr>free_seq := f\<rparr>)) (r_nsecs_target ret) = Some w'"
    "worker_rep w' (insert_before_late (late ?w (r_nsecs_target ret)) e xs) (f # fs)"
    "same_payload ((work_queue ?w)(e := ?v)) (work_queue w')" by blast
  have al: "allocate_work_queue_entry dev sqid = Some (turn, e,
      dev\<lparr>io_worker_turn := (if get_io_worker dev sqid + 1 = nr_io_workers dev then 0
            else get_io_worker dev sqid + 1),
          io_workers := (io_workers dev)[turn := ?w\<lparr>free_seq := f\<rparr>]\<rparr>)"
    using allocate_work_queue_entry_cases [OF inv rep turn] by simp
  let ?dev' = "dev\<lparr>io_worker_turn := (if get_io_worker dev sqid + 1 = nr_io_workers dev then 0
            else get_io_worker dev sqid + 1), io_workers := (io_workers dev)[turn := w']\<rparr>"
  have "enqueue_io_req now sqid cqid sq_entry nsecs_start ret dev = Some ?dev'"
    using w'(1) lt sq by (simp add: enqueue_io_req_def al Let_def)
  moreover from this have "io_inv ?dev'" using io_inv_enqueue [OF inv] by blast
  ultimately show ?thesis
    using w' lt by (intro exI [of _ ?dev']) (simp add: same_payload_def)
qed

lemma cqe_phase_bit:
  "cq_phase c \<in> {0, 1} \<Longrightarrow> bit (e_status (cqe_of_work c w)) 0 \<longleftrightarrow> cq_phase c = 1"
proof -
  have "bit (ucast (a OR push_bit 1 b) :: u16) 0 \<longleftrightarrow> bit a 0" for a b :: u32
    by (simp only: bit_unsigned_iff bit_or_iff bit_push_bit_iff) simp
  moreover assume "cq_phase c \<in> {0, 1}"
  ultimately show ?thesis by (auto simp del: push_bit_Suc push_bit_numeral simp: cqe_of_work_def bit_0)
qed

section \<open>Properties\<close>

text \<open>
  C24: in every device reachable by submissions, internal operations, visits and reclaiming, each
  worker's array holds a doubly linked pending list in target order and a free list that is never
  empty, which together contain every entry once; a completed request that is still linked has
  been copied and is due.
\<close>
theorem io_reachable_inv:
  assumes "0 < nr_io_workers dev0" and "io_reachable dev0 dev"
  shows "io_inv dev"
  using assms(2)
proof (induction rule: io_reachable.induct)
  case io_start
  then show ?case using assms(1) by (rule io_inv_init)
next
  case (io_next dev dev')
  from io_next.hyps(2) io_next.IH show ?case
    by cases (auto intro: io_inv_enqueue io_inv_internal io_inv_reclaim io_inv_visit)
qed

text \<open>
  C25: submitting a request. When the worker has more than one free entry, the request takes the first
  one, is linked behind the last request that is due or has a target no later than its own, and
  carries the identifiers, status and target it was submitted with, not copied and not complete;
  every other request keeps its contents and every other worker its lists. When only one entry is
  free, nothing changes: the request is dropped and never completes.
\<close>
theorem enqueue_io_req_spec:
  assumes inv: "io_inv dev" and sq: "sqes dev sqid = Some sq"
    and turn: "turn = unat (get_io_worker dev sqid)"
    and rep: "worker_rep (io_workers dev ! turn) xs (e # fs)"
  shows "\<exists>dev'. enqueue_io_req now sqid cqid sq_entry nsecs_start ret dev = Some dev' \<and>
    (if fs = [] then dev' = dev
     else worker_rep (io_workers dev' ! turn)
            (insert_before_late (late (io_workers dev ! turn) (r_nsecs_target ret)) e xs) fs \<and>
          (\<forall>x. x \<noteq> e \<longrightarrow> (work_queue (io_workers dev' ! turn) x)\<lparr>w_next := 0, w_prev := 0\<rparr> =
                          (work_queue (io_workers dev ! turn) x)\<lparr>w_next := 0, w_prev := 0\<rparr>) \<and>
          (work_queue (io_workers dev' ! turn) e)\<lparr>w_next := 0, w_prev := 0\<rparr> =
            (fill_io_work now sqid cqid sq_entry nsecs_start ret sq
               (work_queue (io_workers dev ! turn) e))\<lparr>w_next := 0, w_prev := 0\<rparr> \<and>
          (\<forall>k. k \<noteq> turn \<longrightarrow> io_workers dev' ! k = io_workers dev ! k))"
proof (cases fs)
  case Nil
  then have "allocate_work_queue_entry dev sqid = None"
    using allocate_work_queue_entry_cases [OF inv rep turn] by simp
  with Nil show ?thesis by (simp add: enqueue_io_req_def)
next
  case (Cons f gs)
  with enqueue_io_req_dev [OF inv sq turn, of xs e f gs now cqid sq_entry nsecs_start ret] rep
  show ?thesis by auto
qed

text \<open>
  C23: every due request completes exactly once. When the targets of all pending requests of a worker lie
  in the past, a pass of the worker over its list returns, posts for each completion queue the
  completions of exactly the requests that were not complete and not internal, in list order, and
  marks all requests copied and complete; reclaiming then empties the pending list and
  returns every entry to the free list.
\<close>
theorem worker_pass_complete:
  assumes inv: "io_inv dev" and turn: "turn < length (io_workers dev)"
    and rep: "worker_rep (io_workers dev ! turn) xs fs" and dn: "done_ok (io_workers dev ! turn) xs"
    and due: "\<forall>x \<in> set xs. \<forall>k. w_nsecs_target (work_queue (io_workers dev ! turn) x) \<le> clk k"
    and cq: "\<forall>x \<in> set xs. cqes dev (w_cqid (work_queue (io_workers dev ! turn) x)) \<noteq> None"
  shows "\<exists>dev' w''. worker_pass clk 0 turn (io_seq (io_workers dev ! turn)) dev = Some dev' \<and>
    (\<forall>q. cqes dev' q =
       map_option (ioring.post_all (pass_posts q (io_workers dev ! turn) xs)) (cqes dev q)) \<and>
    reclaim_worker (io_workers dev' ! turn) = Some w'' \<and> worker_rep w'' [] (fs @ xs)"
proof -
  let ?w = "io_workers dev ! turn"
  have "lseg (work_queue ?w) (io_seq ?w) xs (-1)" "distinct xs"
    using rep by (auto simp: worker_rep_def)
  moreover have "\<forall>x \<in> set xs. w_is_completed (work_queue ?w x) \<longrightarrow> w_is_copied (work_queue ?w x)"
    using dn by (auto simp: done_ok_def reclaimable_def)
  ultimately obtain dev' where
    p: "worker_pass clk 0 turn (io_seq ?w) dev = Some dev'" "drained clk turn xs dev dev'"
    using worker_pass_drains [OF turn refl] due cq by blast
  let ?w' = "io_workers dev' ! turn"
  have sl: "same_lists ?w ?w'" using p(2) by (simp add: drained_def Let_def)
  then have rep': "worker_rep ?w' xs fs" using rep worker_rep_same_lists by blast
  have "reclaimable ?w' x" if "x \<in> set xs" for x
  proof -
    have "xs \<noteq> []" using that by auto
    then show ?thesis
      using p(2) that due sl by (auto simp: drained_def Let_def reclaimable_def same_lists_def)
  qed
  then have td: "takeWhile (reclaimable ?w') xs = xs" "dropWhile (reclaimable ?w') xs = []" by auto
  obtain w'' where "reclaim_worker ?w' = Some w''" "worker_rep w'' [] (fs @ xs)"
    using reclaim_worker_spec [OF rep'] unfolding td by blast
  then show ?thesis using p by (auto simp: drained_def Let_def)
qed

text \<open>
  completions are visible to the host. Posting up to a full lap of completions to a ring writes the
  j-th one to the slot the host reads j-th from the current head, unharmed by the later ones, with
  the ring's phase in bit 0 of the status for slots up to the wrap and the inverted phase behind it.
\<close>
theorem completion_ring_lap:
  assumes "0 \<le> cq_head cq" "cq_head cq < cq_queue_size cq" "cq_phase cq \<in> {0, 1}"
    and "int (length ws) \<le> cq_queue_size cq" and "j < length ws"
  shows "\<exists>c. cq_mem (ioring.post_all (map (\<lambda>w r. cqe_of_work r w) ws) cq)
            ((cq_head cq + int j) mod cq_queue_size cq) = cqe_of_work c (ws ! j) \<and>
        cq_phase c = (if cq_head cq + int j < cq_queue_size cq then cq_phase cq else 1 - cq_phase cq) \<and>
        (bit (e_status (cqe_of_work c (ws ! j))) 0 \<longleftrightarrow> cq_phase c = 1)"
proof -
  let ?fs = "map (\<lambda>w r. cqe_of_work r w) ws"
  let ?c = "ioring.post_all (take j ?fs) cq"
  have ok: "ioring.ring_ok cq" using assms(1-3) by (simp add: ioring.ring_ok_def)
  have "cq_phase ?c = (if cq_head cq + int j < cq_queue_size cq then cq_phase cq else 1 - cq_phase cq)"
    using ioring.phase_post_all [OF ok, of "take j ?fs"] assms(4,5) by simp
  moreover have "bit (e_status (cqe_of_work ?c (ws ! j))) 0 \<longleftrightarrow> cq_phase ?c = 1"
    using ioring.ring_ok_post_all [OF ok, of "take j ?fs"]
    by (intro cqe_phase_bit) (simp add: ioring.ring_ok_def)
  ultimately show ?thesis
    using ioring.slots_post_all [OF ok, of ?fs j] assms(4,5) by (intro exI [of _ ?c]) simp
qed

section \<open>The completion doorbell\<close>

text \<open>The entries from \<open>old\<close> up to, not including, \<open>new\<close>, going around the ring.\<close>

definition ring_range :: "int \<Rightarrow> int \<Rightarrow> int \<Rightarrow> int list" where
  "ring_range old new depth =
     (if old \<le> new then [old..new - 1] else [old..depth - 1] @ [0..new - 1])"

definition dec_in_flight :: "int \<Rightarrow> nvmev_io_dev \<Rightarrow> nvmev_io_dev" where
  "dec_in_flight s dev =
     (case sqes dev s of
        None \<Rightarrow> dev
      | Some sq \<Rightarrow> dev\<lparr>sqes := (sqes dev)(s \<mapsto> sq\<lparr>sq_stat :=
                    (sq_stat sq)\<lparr>nr_in_flight := nr_in_flight (sq_stat sq) - 1\<rparr>\<rparr>)\<rparr>)"

lemma proc_cq_loop_up:
  "i \<le> new \<Longrightarrow> new \<le> cq_queue_size cq \<Longrightarrow>
   proc_cq_loop cq new i dev =
     Some (fold (\<lambda>k. dec_in_flight (uint (e_sq_id (cq_mem cq k)))) [i..new - 1] dev)"
proof (induction "nat (new - i)" arbitrary: i dev)
  case 0
  then show ?case by (subst proc_cq_loop.simps) simp
next
  case (Suc n)
  then have "i < new" by simp
  then have "[i..new - 1] = i # [i + 1..new - 1]" by (simp add: upto_rec1)
  with Suc \<open>i < new\<close> show ?case
    by (subst proc_cq_loop.simps) (auto simp: dec_in_flight_def Let_def split: option.split)
qed

lemma proc_cq_loop_wrap:
  "new < i \<Longrightarrow> i \<le> cq_queue_size cq \<Longrightarrow> 0 \<le> new \<Longrightarrow>
   proc_cq_loop cq new i dev =
     Some (fold (\<lambda>k. dec_in_flight (uint (e_sq_id (cq_mem cq k))))
       ([i..cq_queue_size cq - 1] @ [0..new - 1]) dev)"
proof (induction "nat (cq_queue_size cq - i)" arbitrary: i dev)
  case 0
  then show ?case
    using proc_cq_loop_up [of 0 new cq dev] by (subst proc_cq_loop.simps) simp
next
  case (Suc n)
  then have lt: "i < cq_queue_size cq" by simp
  then have "[i..cq_queue_size cq - 1] = i # [i + 1..cq_queue_size cq - 1]" by (simp add: upto_rec1)
  with Suc lt show ?case
    by (subst proc_cq_loop.simps) (auto simp: dec_in_flight_def Let_def split: option.split)
qed

lemma fold_dec_in_flight:
  assumes "sqes dev s = Some sq"
  shows "\<exists>sq'. sqes (fold (\<lambda>k. dec_in_flight (f k)) ks dev) s = Some sq' \<and>
    nr_in_flight (sq_stat sq') = nr_in_flight (sq_stat sq) - of_nat (length (filter (\<lambda>k. f k = s) ks))"
  using assms
proof (induction ks arbitrary: dev sq)
  case (Cons k ks)
  show ?case
  proof (cases "f k = s")
    case True
    with Cons.prems have "sqes (dec_in_flight (f k) dev) s = Some (sq\<lparr>sq_stat :=
        (sq_stat sq)\<lparr>nr_in_flight := nr_in_flight (sq_stat sq) - 1\<rparr>\<rparr>)"
      by (simp add: dec_in_flight_def)
    from Cons.IH [OF this] True show ?thesis by (auto simp: algebra_simps)
  next
    case False
    with Cons.prems have "sqes (dec_in_flight (f k) dev) s = Some sq"
      by (simp add: dec_in_flight_def split: option.split)
    from Cons.IH [OF this] False show ?thesis by auto
  qed
qed auto

text \<open>
  the completion doorbell. For doorbell values inside the ring the handler returns; every submission
  queue's in-flight count drops by the number of completions of that queue the host consumed,
  across the wrap, and the queue's tail becomes the last entry consumed, except that the
  wrap test compares the doorbell with -1, which it never is, so that a doorbell of 0 leaves the tail
  at -1.
\<close>
theorem nvmev_proc_io_cq_spec:
  assumes cq: "cqes dev cqid = Some cq" and range: "0 \<le> old_db" "old_db < cq_queue_size cq"
    "0 \<le> new_db" "new_db < cq_queue_size cq"
  shows "\<exists>dev'. nvmev_proc_io_cq cqid new_db old_db dev = Some dev' \<and>
    cqes dev' cqid = Some (cq\<lparr>cq_tail := new_db - 1\<rparr>) \<and>
    (\<forall>s sq. sqes dev s = Some sq \<longrightarrow> (\<exists>sq'. sqes dev' s = Some sq' \<and>
       nr_in_flight (sq_stat sq') = nr_in_flight (sq_stat sq) -
         of_nat (length (filter (\<lambda>k. uint (e_sq_id (cq_mem cq k)) = s)
           (ring_range old_db new_db (cq_queue_size cq))))))"
proof -
  let ?d = "fold (\<lambda>k. dec_in_flight (uint (e_sq_id (cq_mem cq k))))
      (ring_range old_db new_db (cq_queue_size cq)) dev"
  have "proc_cq_loop cq new_db old_db dev = Some ?d"
    using proc_cq_loop_up [of old_db new_db cq dev] proc_cq_loop_wrap [of new_db old_db cq dev] range
    by (auto simp: ring_range_def)
  then have "nvmev_proc_io_cq cqid new_db old_db dev =
      Some (?d\<lparr>cqes := (cqes ?d)(cqid \<mapsto> cq\<lparr>cq_tail := new_db - 1\<rparr>)\<rparr>)"
    using cq range by (simp add: nvmev_proc_io_cq_def)
  then show ?thesis
    using fold_dec_in_flight [of dev _ _ "\<lambda>k. uint (e_sq_id (cq_mem cq k))"] by auto
qed

section \<open>Concrete runs\<close>

definition demo_cmd :: nvme_command where
  "demo_cmd = \<lparr>c_opcode = 2, c_flags = 0, c_command_id = 7, c_nsid = 1, c_cdw2 = 0, c_cdw3 = 0,
     c_metadata = 0, c_prp1 = 0x1000, c_prp2 = 0, c_cdw10 = 0, c_cdw11 = 0, c_cdw12 = 7, c_cdw13 = 0,
     c_cdw14 = 0, c_cdw15 = 0\<rparr>"

definition demo_sq :: nvmev_submission_queue where
  "demo_sq = \<lparr>sq_qid = 1, sq_cqid = 1, sq_priority = 0, sq_phys_contig = True, sq_queue_size = 4,
     sq_stat = \<lparr>nr_dispatched = 0, nr_dispatch = 0, nr_in_flight = 5, max_nr_in_flight = 0, total_io = 0\<rparr>,
     sq_mem = (\<lambda>_. demo_cmd)\<rparr>"

definition demo_cq :: nvmev_completion_queue where
  "demo_cq = \<lparr>cq_qid = 1, cq_irq_vector = 1, cq_irq_enabled = True, cq_interrupt_ready = False,
     cq_phys_contig = True, cq_queue_size = 4, cq_phase = 1, cq_head = 3, cq_tail = -1,
     cq_mem = (\<lambda>_. \<lparr>e_result0 = 0, e_result1 = 0, e_sq_head = 0, e_sq_id = 1, e_command_id = 0,
                   e_status = 0\<rparr>)\<rparr>"

definition demo_dev :: nvmev_io_dev where
  "demo_dev = io_worker_init_all \<lparr>io_workers = [], nr_io_workers = 1, io_worker_turn = 0,
     sqes = [1 \<mapsto> demo_sq], cqes = [1 \<mapsto> demo_cq], nr_cq = 1,
     wbufs = (\<lambda>_. buffer_init 4096), irqs = []\<rparr>"

definition demo_ret :: nvmev_result where
  "demo_ret = \<lparr>r_status = 0, r_nsecs_target = 100\<rparr>"

lemma demo_dev_reachable: "\<exists>dev0. 0 < nr_io_workers dev0 \<and> io_reachable dev0 demo_dev"
  unfolding demo_dev_def
  by (rule exI, rule conjI [rotated], rule io_start) simp

theorem io_reachable_inv_witness: "io_inv demo_dev"
  using demo_dev_reachable io_reachable_inv by blast

lemma demo_dev_inv: "io_inv demo_dev"
  unfolding demo_dev_def by (rule io_inv_init) simp

lemma demo_dev_sel:
  "sqes demo_dev 1 = Some demo_sq" "cqes demo_dev = [1 \<mapsto> demo_cq]" "get_io_worker demo_dev 1 = 0"
  "io_workers demo_dev = [io_worker_init 0]"
  by (simp_all add: demo_dev_def io_worker_init_all_def get_io_worker_def)

lemma demo_dev_rep:
  "worker_rep (io_workers demo_dev ! unat (get_io_worker demo_dev 1)) []
     (0 # 1 # map of_nat [2..<unat NR_MAX_PARALLEL_IO])"
proof -
  have "[0..<n] = 0 # 1 # [2..<n]" if "2 \<le> n" for n :: nat
    using that by (simp add: upt_conv_Cons numeral_2_eq_2)
  from this [of "unat NR_MAX_PARALLEL_IO"]
  have "[0..<unat NR_MAX_PARALLEL_IO] = 0 # 1 # [2..<unat NR_MAX_PARALLEL_IO]" by (simp only: unat_NR)
  then show ?thesis using io_worker_init_rep [of 0] by (simp add: demo_dev_sel)
qed

theorem enqueue_io_req_spec_witness:
  "\<exists>dev'. enqueue_io_req 10 1 1 0 10 demo_ret demo_dev = Some dev' \<and>
     worker_rep (io_workers dev' ! 0) [0] (1 # map of_nat [2..<unat NR_MAX_PARALLEL_IO])"
  using enqueue_io_req_spec [OF demo_dev_inv demo_dev_sel(1) refl demo_dev_rep, of 10 1 0 10 demo_ret]
  by (auto simp: demo_dev_sel insert_before_late_def simp del: upt_rec_numeral)

theorem worker_pass_complete_witness:
  "\<exists>dev dev' w''. io_inv dev \<and> worker_pass (\<lambda>_. 200) 0 0 0 dev = Some dev' \<and>
     reclaim_worker (io_workers dev' ! 0) = Some w'' \<and>
     worker_rep w'' [] ((1 # map of_nat [2..<unat NR_MAX_PARALLEL_IO]) @ [0])"
proof -
  from enqueue_io_req_dev [OF demo_dev_inv demo_dev_sel(1) refl demo_dev_rep, of 10 1 0 10 demo_ret]
  obtain dev where dev: "io_inv dev" "worker_rep (io_workers dev ! 0) [0]
      (1 # map of_nat [2..<unat NR_MAX_PARALLEL_IO])"
    "(work_queue (io_workers dev ! 0) 0)\<lparr>w_next := 0, w_prev := 0\<rparr> =
      (fill_io_work 10 1 1 0 10 demo_ret demo_sq
         (work_queue (io_workers demo_dev ! 0) 0))\<lparr>w_next := 0, w_prev := 0\<rparr>"
    "enqueue_io_req 10 1 1 0 10 demo_ret demo_dev = Some dev"
    by (auto simp: demo_dev_sel insert_before_late_def simp del: upt_rec_numeral)
  have w: "w_nsecs_target (work_queue (io_workers dev ! 0) 0) = 100"
    "w_cqid (work_queue (io_workers dev ! 0) 0) = 1"
    "\<not> w_is_completed (work_queue (io_workers dev ! 0) 0)"
    using arg_cong [OF dev(3), of w_nsecs_target] arg_cong [OF dev(3), of w_cqid]
      arg_cong [OF dev(3), of w_is_completed]
    by (simp_all add: fill_io_work_def demo_ret_def)
  have c: "cqes dev = cqes demo_dev"
    using dev(4)
    by (auto simp: enqueue_io_req_def allocate_work_queue_entry_def Let_def bind_eq_Some_conv
        split: option.splits prod.splits)
  have i: "io_seq (io_workers dev ! 0) = 0" using dev(2) by (auto simp: worker_rep_def)
  have t: "0 < length (io_workers dev)" using dev(1) by (simp add: io_inv_def word_less_nat_alt)
  from worker_pass_complete [OF dev(1) t dev(2), of "\<lambda>_. 200"] w c i dev(1)
  show ?thesis by (auto simp: done_ok_def demo_dev_sel)
qed

theorem completion_ring_lap_witness:
  "\<exists>c. cq_mem (ioring.post_all (map (\<lambda>w r. cqe_of_work r w) [blank_work, blank_work]) demo_cq) 0 =
       cqe_of_work c blank_work \<and> cq_phase c = 0"
  using completion_ring_lap [of demo_cq "[blank_work, blank_work]" 1]
  by (auto simp: demo_cq_def)

theorem nvmev_proc_io_cq_spec_witness:
  "\<exists>dev' sq'. nvmev_proc_io_cq 1 0 2 demo_dev = Some dev' \<and> sqes dev' 1 = Some sq' \<and>
     nr_in_flight (sq_stat sq') = 3"
proof -
  have cq: "cqes demo_dev 1 = Some demo_cq" by (simp add: demo_dev_sel)
  show ?thesis
    using nvmev_proc_io_cq_spec [OF cq, of 2 0] demo_dev_sel(1)
    by (fastforce simp: demo_cq_def demo_sq_def ring_range_def upto_rec1)
qed

end
