(* ===== verification/Graph_Kernel.thy ===== *)
theory Graph_Kernel
  imports NV_Prelude
begin

text \<open>
  The graph kernels that a computational storage device runs over an edge block: PageRank, label
  propagation and dispersion, as \<^verbatim>\<open>__proc_edge\<close> of \<^verbatim>\<open>io.c\<close> and \<^verbatim>\<open>__do_perform_edge_proc_grafu\<close> of
  \<^verbatim>\<open>simple_ftl.c\<close> contain them. The storage is an array of 32-bit integers, the vertex arrays in the
  host memory buffer are functions from indices to rational numbers. A \<^verbatim>\<open>float\<close> operation is the exact
  operation followed by the rounding \<open>fl\<close>, an argument of every kernel; the statements that need exact
  arithmetic say so.
\<close>

unbundle bit_operations_syntax

section \<open>Edge blocks\<close>

definition VERTEX_SIZE :: int where "VERTEX_SIZE = 4"
definition EDGE_SIZE :: int where "EDGE_SIZE = 8"

text \<open>\<^verbatim>\<open>for (; e < e_end; e += EDGE_SIZE / VERTEX_SIZE) { u = *e, v = *(e + 1); ... }\<close>\<close>

function edge_list :: "(int \<Rightarrow> int) \<Rightarrow> int \<Rightarrow> int \<Rightarrow> (int \<times> int) list" where
  "edge_list storage e e_end =
     (if e < e_end then (storage e, storage (e + 1)) # edge_list storage (e + EDGE_SIZE div VERTEX_SIZE) e_end
      else [])"
  by pat_completeness auto
termination by (relation "measure (\<lambda>(_, e, e_end). nat (e_end - e))") (auto simp: EDGE_SIZE_def VERTEX_SIZE_def)

declare edge_list.simps [simp del]

definition block_edges :: "(int \<Rightarrow> int) \<Rightarrow> int \<Rightarrow> int \<Rightarrow> (int \<times> int) list" where
  "block_edges storage slba len = edge_list storage (slba div VERTEX_SIZE) (slba div VERTEX_SIZE + len div VERTEX_SIZE)"

definition block_outdegree :: "(int \<Rightarrow> int) \<Rightarrow> int \<Rightarrow> int \<Rightarrow> int" where
  "block_outdegree storage slba u = storage (slba div VERTEX_SIZE + u)"

section \<open>The kernels\<close>

type_synonym vtx_array = "int \<Rightarrow> rat"

definition pagerank_edge :: "(rat \<Rightarrow> rat) \<Rightarrow> (int \<Rightarrow> int) \<Rightarrow> vtx_array \<Rightarrow> int \<Rightarrow> int \<times> int \<Rightarrow> vtx_array \<Rightarrow> vtx_array" where
  "pagerank_edge fl outdegree src off e dst =
     (case e of (u, v) \<Rightarrow>
        dst(v + off := fl (dst (v + off) + fl (src u / fl (of_int (outdegree u))))))"

text \<open>\<^verbatim>\<open>(int)x\<close> truncates towards zero; the two frequencies are its halves.\<close>

definition f2i :: "rat \<Rightarrow> u32" where
  "f2i x = word_of_int (if 0 \<le> x then \<lfloor>x\<rfloor> else \<lceil>x\<rceil>)"

definition freq0 :: "rat \<Rightarrow> u32" where
  "freq0 x = f2i x AND 0xFFFF"

definition freq1 :: "rat \<Rightarrow> u32" where
  "freq1 x = drop_bit 16 (f2i x) AND 0xFFFF"

definition pack_freq :: "(rat \<Rightarrow> rat) \<Rightarrow> u32 \<Rightarrow> u32 \<Rightarrow> rat" where
  "pack_freq fl a b = fl (of_int (sint (a OR push_bit 16 b)))"

text \<open>Which of the two labels vertex \<open>u\<close> votes for.\<close>

definition votes0 :: "vtx_array \<Rightarrow> int \<Rightarrow> bool" where
  "votes0 src u = (if freq0 (src u) > freq1 (src u) then True
     else if freq1 (src u) > freq0 (src u) then False
     else even u)"

definition label_edge :: "(rat \<Rightarrow> rat) \<Rightarrow> vtx_array \<Rightarrow> int \<Rightarrow> int \<times> int \<Rightarrow> vtx_array \<Rightarrow> vtx_array" where
  "label_edge fl src off e dst =
     (case e of (u, v) \<Rightarrow>
        let a = freq0 (dst (v + off)); b = freq1 (dst (v + off)) in
        dst(v + off := (if votes0 src u then pack_freq fl (a + 1) b else pack_freq fl a (b + 1))))"

definition hash_edge :: "u32 \<Rightarrow> u32 \<Rightarrow> u16" where
  "hash_edge u v = (let h = u; h = h XOR (v + 0x9e3779b9 + push_bit 6 h + drop_bit 2 h) in ucast (h AND 1023))"

definition fast_pseudo_rand :: "u32 \<Rightarrow> u16 \<times> u32" where
  "fast_pseudo_rand state = (let state = state * 1664525 + 1013904223 in (ucast (state AND 1023), state))"

text \<open>The generator advances only when the source vertex is active.\<close>

definition dispersion_edge :: "vtx_array \<Rightarrow> int \<Rightarrow> int \<times> int \<Rightarrow> u32 \<times> vtx_array \<Rightarrow> u32 \<times> vtx_array" where
  "dispersion_edge src off e s =
     (case e of (u, v) \<Rightarrow> case s of (state, dst) \<Rightarrow>
        if src u = 1 then
          (let (x, state) = fast_pseudo_rand state in
           (state, if x < hash_edge (word_of_int u) (word_of_int v) then dst(v + off := 1) else dst))
        else (state, dst))"

definition proc_edges ::
  "(rat \<Rightarrow> rat) \<Rightarrow> u32 \<Rightarrow> (int \<Rightarrow> int) \<Rightarrow> (int \<times> int) list \<Rightarrow> vtx_array \<Rightarrow> int \<Rightarrow> vtx_array \<Rightarrow> vtx_array" where
  "proc_edges fl alg outdegree es src off dst =
     (if alg = 0 then fold (pagerank_edge fl outdegree src off) es dst
      else if alg = 1 then fold (label_edge fl src off) es dst
      else snd (fold (dispersion_edge src off) es (0, dst)))"

section \<open>Edge lists\<close>

lemma edge_step: "EDGE_SIZE div VERTEX_SIZE = 2"
  by (simp add: EDGE_SIZE_def VERTEX_SIZE_def)

lemma edge_list_length: "length (edge_list st e e_end) = nat ((e_end - e + 1) div 2)"
proof (induction st e e_end rule: edge_list.induct)
  case (1 st e e_end)
  show ?case
  proof (cases "e < e_end")
    case True
    then have "length (edge_list st e e_end) = Suc (nat ((e_end - (e + 2) + 1) div 2))"
      using 1 by (subst edge_list.simps) (simp add: edge_step)
    also have "\<dots> = nat ((e_end - e + 1) div 2)" using True by linarith
    finally show ?thesis .
  next
    case False
    then show ?thesis by (subst edge_list.simps) auto
  qed
qed

lemma edge_list_nth:
  "i < length (edge_list st e e_end) \<Longrightarrow> edge_list st e e_end ! i = (st (e + 2 * int i), st (e + 2 * int i + 1))"
proof (induction st e e_end arbitrary: i rule: edge_list.induct)
  case (1 st e e_end)
  have lt: "e < e_end" using "1.prems" by (subst (asm) edge_list.simps) (auto split: if_splits)
  then have eq: "edge_list st e e_end = (st e, st (e + 1)) # edge_list st (e + 2) e_end"
    by (subst edge_list.simps) (simp add: edge_step)
  show ?case
  proof (cases i)
    case 0
    then show ?thesis by (simp add: eq)
  next
    case (Suc j)
    then have "edge_list st (e + 2) e_end ! j = (st (e + 2 + 2 * int j), st (e + 2 + 2 * int j + 1))"
      using "1.IH" [OF lt, unfolded edge_step, of j] "1.prems" by (simp add: eq)
    then show ?thesis using Suc by (simp add: eq algebra_simps)
  qed
qed

text \<open>The edges of a block as the layout of the storage defines them: pairs of 32-bit words from its address on.\<close>

definition stored_edges :: "(int \<Rightarrow> int) \<Rightarrow> int \<Rightarrow> int \<Rightarrow> (int \<times> int) list" where
  "stored_edges storage slba len =
     map (\<lambda>k. (storage (slba div 4 + 2 * int k), storage (slba div 4 + 2 * int k + 1))) [0..<nat ((len div 4 + 1) div 2)]"

lemma block_edges_stored: "block_edges storage slba len = stored_edges storage slba len"
  by (rule nth_equalityI)
    (simp_all add: block_edges_def stored_edges_def edge_list_length edge_list_nth VERTEX_SIZE_def)

lemma block_outdegree_stored: "block_outdegree storage slba = (\<lambda>u. storage (slba div 4 + u))"
  by (simp add: block_outdegree_def fun_eq_iff VERTEX_SIZE_def)

section \<open>PageRank in exact arithmetic\<close>

text \<open>The contribution of a list of edges to vertex \<open>v\<close>.\<close>

definition contrib :: "(int \<Rightarrow> int) \<Rightarrow> vtx_array \<Rightarrow> (int \<times> int) list \<Rightarrow> int \<Rightarrow> rat" where
  "contrib outdegree src es v = (\<Sum>(u, w) \<leftarrow> es. if w = v then src u / of_int (outdegree u) else 0)"

lemma contrib_simps [simp]:
  "contrib od src [] v = 0"
  "contrib od src ((u, w) # es) v = (if w = v then src u / of_int (od u) else 0) + contrib od src es v"
  "contrib od src (es @ fs) v = contrib od src es v + contrib od src fs v"
  by (simp_all add: contrib_def)

lemma pagerank_fold:
  "fold (pagerank_edge id outdegree src off) es dst x = dst x + contrib outdegree src es (x - off)"
  by (induction es arbitrary: dst) (auto simp: pagerank_edge_def)

lemma contrib_cong:
  assumes "\<forall>(u, w) \<in> set es. w = v \<longrightarrow> src u = src' u"
  shows "contrib od src es v = contrib od src' es v"
  using assms by (induction es) auto

lemma contrib_none:
  assumes "\<forall>(u, w) \<in> set es. w \<noteq> v"
  shows "contrib od src es v = 0"
  using assms by (induction es) auto

section \<open>Locality\<close>

text \<open>The cells an edge block may write.\<close>

definition targets :: "(int \<times> int) list \<Rightarrow> int \<Rightarrow> int set" where
  "targets es off = (\<lambda>(u, v). v + off) ` set es"

lemma fold_update_frame:
  assumes "\<And>e d. e \<in> set es \<Longrightarrow> get (f e d) = get d"
  shows "get (fold f es d) = get d"
  using assms by (induction es arbitrary: d) auto

lemma fold_agree:
  assumes "\<And>e d d'. e \<in> set es \<Longrightarrow> R d d' \<Longrightarrow> R (f e d) (f e d')" and "R d d'"
  shows "R (fold f es d) (fold f es d')"
  using assms by (induction es arbitrary: d d') auto

lemma edge_target: "(u, v) \<in> set es \<Longrightarrow> v + off \<in> targets es off"
  by (force simp: targets_def)

text \<open>An edge block changes only its targets.\<close>

lemma proc_edges_frame:
  assumes "x \<notin> targets es off"
  shows "proc_edges fl alg od es src off dst x = dst x"
proof -
  have ne: "x \<noteq> v + off" if "(u, v) \<in> set es" for u v using assms edge_target [OF that] by auto
  have "fold (pagerank_edge fl od src off) es dst x = dst x"
    by (rule fold_update_frame [where get = "\<lambda>d. d x"]) (auto simp: pagerank_edge_def dest: ne)
  moreover have "fold (label_edge fl src off) es dst x = dst x"
    by (rule fold_update_frame [where get = "\<lambda>d. d x"]) (auto simp: label_edge_def Let_def dest: ne)
  moreover have "snd (fold (dispersion_edge src off) es (0, dst)) x = snd (0 :: u32, dst) x"
    by (rule fold_update_frame [where get = "\<lambda>d. snd d x"])
      (auto simp: dispersion_edge_def dest: ne split: prod.splits)
  ultimately show ?thesis by (simp add: proc_edges_def)
qed

text \<open>What it writes there depends only on the sources and on the old values there.\<close>

lemma proc_edges_agree:
  assumes "\<forall>y \<in> targets es off. dst y = dst' y" and "x \<in> targets es off"
  shows "proc_edges fl alg od es src off dst x = proc_edges fl alg od es src off dst' x"
proof -
  let ?R = "\<lambda>d d'. \<forall>y \<in> targets es off. (d :: vtx_array) y = d' y"
  have "?R (fold (pagerank_edge fl od src off) es dst) (fold (pagerank_edge fl od src off) es dst')"
    using assms(1) by (intro fold_agree [where R = ?R]) (auto simp: pagerank_edge_def edge_target)
  moreover have "?R (fold (label_edge fl src off) es dst) (fold (label_edge fl src off) es dst')"
    using assms(1) by (intro fold_agree [where R = ?R]) (auto simp: label_edge_def Let_def edge_target)
  moreover have "fst (fold (dispersion_edge src off) es (0, dst)) = fst (fold (dispersion_edge src off) es (0, dst')) \<and>
      ?R (snd (fold (dispersion_edge src off) es (0, dst))) (snd (fold (dispersion_edge src off) es (0, dst')))"
    using assms(1)
    by (intro fold_agree [where R = "\<lambda>s s'. fst s = fst s' \<and> ?R (snd s) (snd s')"])
      (auto simp: dispersion_edge_def split: prod.splits)
  ultimately show ?thesis using assms(2) by (auto simp: proc_edges_def)
qed

text \<open>Blocks with disjoint targets can be processed in either order, on one array.\<close>

lemma proc_edges_commute:
  assumes "targets es off \<inter> targets es' off' = {}"
  shows "proc_edges fl alg od es src off (proc_edges fl alg od' es' src off' dst) =
    proc_edges fl alg od' es' src off' (proc_edges fl alg od es src off dst)" (is "?l = ?r")
proof
  fix x
  have a: "proc_edges fl alg od es src off (proc_edges fl alg od' es' src off' dst) x = proc_edges fl alg od es src off dst x"
    if "x \<in> targets es off"
    using assms that by (intro proc_edges_agree) (auto intro!: proc_edges_frame)
  have b: "proc_edges fl alg od' es' src off' (proc_edges fl alg od es src off dst) x = proc_edges fl alg od' es' src off' dst x"
    if "x \<in> targets es' off'"
    using assms that by (intro proc_edges_agree) (auto intro!: proc_edges_frame)
  show "?l x = ?r x"
  proof (cases "x \<in> targets es off")
    case True
    then have "x \<notin> targets es' off'" using assms by auto
    then show ?thesis using a [OF True] by (simp add: proc_edges_frame)
  next
    case False
    then show ?thesis using b by (cases "x \<in> targets es' off'") (simp_all add: proc_edges_frame)
  qed
qed

section \<open>Label propagation\<close>

text \<open>A vertex value that carries the two frequencies.\<close>

definition enc :: "nat \<Rightarrow> nat \<Rightarrow> rat" where
  "enc a b = of_nat (a + 65536 * b)"

lemma f2i_enc: "f2i (enc a b) = of_nat (a + 65536 * b)"
proof -
  have "\<lfloor>enc a b\<rfloor> = int (a + 65536 * b)" "0 \<le> enc a b" unfolding enc_def by (simp_all only: floor_of_nat of_nat_0_le_iff)
  then show ?thesis by (simp add: f2i_def)
qed

lemma unat_halves:
  assumes "n < 2 ^ 32"
  shows "unat ((of_nat n :: u32) AND 0xFFFF) = n mod 65536"
    "unat (drop_bit 16 (of_nat n :: u32) AND 0xFFFF) = n div 65536 mod 65536"
proof -
  have m: "x AND 0xFFFF = take_bit 16 (x :: u32)" for x
    by (simp add: take_bit_eq_mask mask_eq_exp_minus_1)
  have u: "unat (of_nat n :: u32) = n" using assms by (simp add: unat_of_nat)
  show "unat ((of_nat n :: u32) AND 0xFFFF) = n mod 65536"
    unfolding m unsigned_take_bit_eq u by (simp add: take_bit_eq_mod)
  show "unat (drop_bit 16 (of_nat n :: u32) AND 0xFFFF) = n div 65536 mod 65536"
    unfolding m unsigned_take_bit_eq unsigned_drop_bit_eq u
    using assms by (simp add: take_bit_eq_mod drop_bit_eq_div)
qed

lemma freq_enc:
  assumes "a < 65536" and "b < 65536"
  shows "freq0 (enc a b) = of_nat a" "freq1 (enc a b) = of_nat b"
proof -
  have "a + 65536 * b < 2 ^ 32" using assms by simp
  note h = unat_halves [OF this]
  have "unat (freq0 (enc a b)) = a" "unat (freq1 (enc a b)) = b"
    using assms h unfolding freq0_def freq1_def f2i_enc by simp_all
  then show "freq0 (enc a b) = of_nat a" "freq1 (enc a b) = of_nat b"
    using assms by (simp_all add: word_unat_eq_iff unat_of_nat)
qed

lemma pack_freq_enc:
  assumes "a < 65536" and "b < 32768"
  shows "pack_freq fl (of_nat a) (of_nat b) = fl (enc a b)"
proof -
  let ?a = "of_nat a :: u32" and ?b = "push_bit 16 (of_nat b) :: u32"
  have ua: "unat ?a = a" and ub: "unat ?b = 65536 * b"
    using assms by (simp_all add: unat_of_nat push_bit_eq_mult unat_word_ariths)
  have "take_bit 16 ?a = ?a"
    using assms ua by (simp add: word_unat_eq_iff unsigned_take_bit_eq take_bit_nat_eq_self)
  then have "\<not> bit ?a n" if "16 \<le> n" for n using that by (metis bit_take_bit_iff not_less)
  moreover have "\<not> bit ?b n" if "n < 16" for n using that by (simp add: bit_push_bit_iff)
  ultimately have d: "\<not> (bit ?a n \<and> bit ?b n)" for n by (cases "n < 16") (auto simp: not_less)
  have "?a + ?b = ?a OR ?b"
    by (rule disjunctive_add_eq_or, rule bit_eqI) (use d in \<open>simp add: bit_and_iff\<close>)
  moreover have "unat (?a + ?b) = a + 65536 * b" using assms ua ub by (subst unat_add_lem [THEN iffD1]) simp_all
  ultimately have u: "unat (?a OR ?b) = a + 65536 * b" by simp
  then have "sint (?a OR ?b) = int (a + 65536 * b)"
    using assms by (simp add: sint_uint uint_nat signed_take_bit_int_eq_self)
  then show ?thesis by (simp add: pack_freq_def enc_def)
qed

text \<open>
  The label a vertex prefers, from the number its value stands for: the low sixteen bits count the votes for
  label 0, the next sixteen those for label 1; the larger count wins, and a tie goes by the parity of the vertex.
\<close>

definition prefers0 :: "rat \<Rightarrow> int \<Rightarrow> bool" where
  "prefers0 x u =
     (let n = (if 0 \<le> x then \<lfloor>x\<rfloor> else \<lceil>x\<rceil>); zeros = n mod 65536; ones = n div 65536 mod 65536
      in ones < zeros \<or> zeros = ones \<and> u mod 2 = 0)"

lemma uint_halves:
  "uint ((word_of_int n :: u32) AND 0xFFFF) = n mod 65536"
  "uint (drop_bit 16 (word_of_int n :: u32) AND 0xFFFF) = n div 65536 mod 65536"
proof -
  have m: "x AND 0xFFFF = take_bit 16 (x :: u32)" for x
    by (simp add: take_bit_eq_mask mask_eq_exp_minus_1)
  have h: "drop_bit 16 (take_bit 32 n) = take_bit 16 (drop_bit 16 n)" by (simp add: drop_bit_take_bit)
  show "uint ((word_of_int n :: u32) AND 0xFFFF) = n mod 65536"
    unfolding m unsigned_take_bit_eq by (simp add: uint_word_of_int take_bit_eq_mod [symmetric] take_bit_eq_mod)
      (simp add: mod_mod_cancel)
  show "uint (drop_bit 16 (word_of_int n :: u32) AND 0xFFFF) = n div 65536 mod 65536"
    unfolding m unsigned_take_bit_eq unsigned_drop_bit_eq using h
    by (simp add: unsigned_of_int) (simp add: take_bit_eq_mod drop_bit_eq_div)
qed

lemma prefers0_iff: "prefers0 (src u) u = votes0 src u"
  unfolding prefers0_def votes0_def freq0_def freq1_def f2i_def Let_def word_less_iff_unsigned [where 'a = int] uint_halves
  by (auto simp: even_iff_mod_2_eq_zero)

text \<open>Votes that reach vertex \<open>v\<close>: for label 0 (\<open>True\<close>) or for label 1 (\<open>False\<close>).\<close>

definition votes :: "vtx_array \<Rightarrow> bool \<Rightarrow> (int \<times> int) list \<Rightarrow> int \<Rightarrow> nat" where
  "votes src w es v = length (filter (\<lambda>(u, x). x = v \<and> prefers0 (src u) u = w) es)"

lemma votes_simps [simp]:
  "votes src w [] v = 0"
  "votes src w ((u, x) # es) v = (if x = v \<and> votes0 src u = w then 1 else 0) + votes src w es v"
  by (simp_all add: votes_def prefers0_iff)

definition fl_exact :: "(rat \<Rightarrow> rat) \<Rightarrow> bool" where
  "fl_exact fl \<longleftrightarrow> (\<forall>n :: nat. n \<le> 2 ^ 24 \<longrightarrow> fl (of_nat n) = of_nat n)"

lemma label_edge_enc:
  assumes fl: "fl_exact fl" and d: "dst (v + off) = enc a b" and a: "a + of_bool (votes0 src u) < 65536" and b: "b + of_bool (\<not> votes0 src u) < 256"
  shows "label_edge fl src off (u, v) dst (v + off) = (if votes0 src u then enc (a + 1) b else enc a (b + 1))"
proof -
  have f: "freq0 (dst (v + off)) = of_nat a" "freq1 (dst (v + off)) = of_nat b"
    using a b by (simp_all add: d freq_enc)
  have "fl (enc x y) = enc x y" if "x < 65536" "y < 256" for x y
  proof -
    have "x + 65536 * y \<le> 2 ^ 24" using that by simp
    then show ?thesis using fl unfolding fl_exact_def enc_def by blast
  qed
  then have "votes0 src u \<Longrightarrow> pack_freq fl (of_nat (a + 1)) (of_nat b) = enc (a + 1) b"
    "\<not> votes0 src u \<Longrightarrow> pack_freq fl (of_nat a) (of_nat (b + 1)) = enc a (b + 1)"
    using a b pack_freq_enc [of "a + 1" b fl] pack_freq_enc [of a "b + 1" fl] by simp_all
  then show ?thesis by (simp add: label_edge_def Let_def f [simplified] add.commute [of _ 1])
qed

lemma label_fold:
  assumes fl: "fl_exact fl" and d: "dst (v + off) = enc a b"
    and a: "a + votes src True es v < 65536" and b: "b + votes src False es v < 256"
  shows "fold (label_edge fl src off) es dst (v + off) = enc (a + votes src True es v) (b + votes src False es v)"
  using d a b
proof (induction es arbitrary: dst a b)
  case (Cons e es)
  obtain u x where e: "e = (u, x)" by (cases e)
  show ?case
  proof (cases "x = v")
    case True
    let ?a = "a + of_bool (votes0 src u)" and ?b = "b + of_bool (\<not> votes0 src u)"
    have "label_edge fl src off (u, v) dst (v + off) = enc ?a ?b"
      using label_edge_enc [where dst = dst and v = v and off = off, OF fl Cons.prems(1), of src u] Cons.prems(2,3) True
      by (cases "votes0 src u") (simp_all add: e)
    from Cons.IH [where dst = "label_edge fl src off (u, v) dst", OF this] Cons.prems(2,3) True show ?thesis
      by (cases "votes0 src u") (simp_all add: e)
  next
    case False
    then have "label_edge fl src off e dst (v + off) = enc a b"
      using Cons.prems(1) by (simp add: label_edge_def e Let_def)
    from Cons.IH [where dst = "label_edge fl src off e dst", OF this] Cons.prems(2,3) False show ?thesis by (simp add: e)
  qed
qed simp

section \<open>Properties\<close>

text \<open>
  PageRank over an edge block. In exact arithmetic the kernel adds to the cell of each destination
  vertex the sum, over the block's edges into that vertex, of the source's value divided by its
  out-degree (which is not zero for a source of an edge), whatever the order and multiplicity of the edges.
\<close>

theorem pagerank_kernel:
  assumes "\<forall>(u, w) \<in> set es. outdegree u \<noteq> 0"
  shows "proc_edges id 0 outdegree es src off dst x =
     dst x + (\<Sum>(u, w) \<leftarrow> es. if w + off = x then src u / of_int (outdegree u) else 0)"
  using pagerank_fold [of outdegree src off es dst x]
  by (simp add: proc_edges_def contrib_def algebra_simps eq_diff_eq)

theorem pagerank_kernel_witness:
  "proc_edges id 0 (\<lambda>_. 2) [(0, 1), (2, 1), (1, 3)] (\<lambda>_. 1) 4 (\<lambda>_. 0) 5 = 0 + (1 / of_int 2 + (1 / of_int 2 + (0 + 0)))"
  using pagerank_kernel [of "[(0, 1), (2, 1), (1, 3)]" "\<lambda>_. 2" "\<lambda>_. 1" 4 "\<lambda>_. 0" 5] by simp

text \<open>
  C40: Label propagation over an edge block. As long as the counts stay below \<open>65536\<close> and \<open>256\<close>, and
  integers up to \<open>2 ^ 24\<close> are \<^verbatim>\<open>float\<close>s, the two packed frequencies of a destination vertex grow by the
  numbers of its in-neighbours in the block that vote for each label: a neighbour votes for label 0 if its own
  count of label 0 is larger than its count of label 1, for label 1 if it is smaller, and by its parity if the
  two are equal.
\<close>

theorem label_kernel:
  assumes "fl_exact fl" and "dst (v + off) = enc a b"
    and "a + votes src True es v < 65536" and "b + votes src False es v < 256"
  shows "proc_edges fl 1 outdegree es src off dst (v + off) = enc (a + votes src True es v) (b + votes src False es v)"
  using label_fold [where dst = dst and v = v and off = off, OF assms] by (simp add: proc_edges_def)

text \<open>Five in-neighbours of vertex 5: two ties, two clear majorities against their parity, and one with it.\<close>

definition demo_labels :: vtx_array where
  "demo_labels u = (if u = 1 then enc 3 1 else if u = 2 then enc 0 2 else if u = 4 then enc 7 7 else if u = 6 then enc 2 9 else 0)"

theorem label_kernel_witness:
  "proc_edges id 1 (\<lambda>_. 1) [(0, 5), (1, 5), (2, 5), (4, 5), (6, 5), (1, 7)] demo_labels 10 (\<lambda>_. enc 1 1) (5 + 10) = enc 4 3"
proof -
  let ?es = "[(0, 5), (1, 5), (2, 5), (4, 5), (6, 5), (1, 7)]"
  have v: "votes demo_labels True ?es 5 = 3" "votes demo_labels False ?es 5 = 2"
    by (simp_all add: votes_def prefers0_def demo_labels_def enc_def)
  have "fl_exact id" by (simp add: fl_exact_def)
  from label_kernel [OF this, where dst = "\<lambda>_. enc 1 1" and v = 5 and off = 10 and a = 1 and b = 1 and src = demo_labels
      and es = ?es and outdegree = "\<lambda>_. 1", unfolded v]
  show ?thesis by (simp add: enc_def)
qed

text \<open>
  Label propagation loses votes. The packed value of frequencies \<open>0\<close> and \<open>256\<close> is \<open>2 ^ 24\<close>; a vote for
  label \<open>0\<close> makes it \<open>2 ^ 24 + 1\<close>, which rounds back to \<open>2 ^ 24\<close> in a \<^verbatim>\<open>float\<close>, so the vertex does not
  change however many such votes arrive.
\<close>

theorem label_vote_lost:
  assumes "fl 16777217 = 16777216" and "dst (v + off) = 16777216" and "\<forall>(u, w) \<in> set es. votes0 src u"
  shows "proc_edges fl 1 outdegree es src off dst (v + off) = 16777216"
proof -
  have e: "16777216 = enc 0 256" "16777217 = enc 1 256" by (simp_all add: enc_def)
  have step: "label_edge fl src off (u, w) d (v + off) = enc 0 256" if "d (v + off) = enc 0 256" "votes0 src u" for u w d
  proof (cases "w = v")
    case True
    have "freq0 (d (w + off)) = of_nat 0" "freq1 (d (w + off)) = of_nat 256" using that(1) True by (simp_all add: freq_enc)
    moreover have "pack_freq fl (of_nat 1) (of_nat 256) = enc 0 256"
      using pack_freq_enc [of 1 256 fl] assms(1) by (simp only: e)
    ultimately show ?thesis using that(2) True by (simp add: label_edge_def Let_def)
  next
    case False
    then show ?thesis using that(1) by (simp add: label_edge_def Let_def)
  qed
  have "fold (label_edge fl src off) es d (v + off) = enc 0 256" if "d (v + off) = enc 0 256" for d
    using assms(3) that
  proof (induction es arbitrary: d)
    case (Cons e es)
    obtain u w where uw: "e = (u, w)" by (cases e)
    then have "label_edge fl src off e d (v + off) = enc 0 256" using step [where d = d, OF Cons.prems(2)] Cons.prems(1) by auto
    then show ?case using Cons.IH Cons.prems(1) by simp
  qed simp
  then show ?thesis using assms(2) by (simp add: proc_edges_def e(1))
qed

theorem label_vote_lost_witness:
  "proc_edges (\<lambda>x. if x = 16777217 then 16777216 else x) 1 (\<lambda>_. 1) [(0, 5), (2, 5)] (\<lambda>_. 0) 10 (\<lambda>_. 16777216) (5 + 10) =
     16777216"
proof -
  have "\<forall>(u, w) \<in> set [(0, 5), (2 :: int, 5 :: int)]. votes0 (\<lambda>_. 0) u"
    by (simp add: votes0_def freq0_def freq1_def f2i_def)
  from label_vote_lost [OF _ _ this, of "\<lambda>x. if x = 16777217 then 16777216 else x" "\<lambda>_. 16777216" 5 10 "\<lambda>_. 1"]
  show ?thesis by simp
qed

text \<open>
  Devices do not interfere. When the destinations of two devices' edges are vertices of the graph,
  their slices of the host memory buffer are disjoint, so the two devices may process their blocks in
  either order, with every kernel and rounding, and the result is the same.
\<close>

theorem devices_commute:
  assumes "\<forall>(u, v) \<in> set es. 0 \<le> v \<and> v < n" and "\<forall>(u, v) \<in> set es'. 0 \<le> v \<and> v < n" and "i \<noteq> j"
  shows "proc_edges fl alg od es src ((i + 1) * n) (proc_edges fl alg od' es' src ((j + 1) * n) dst) =
    proc_edges fl alg od' es' src ((j + 1) * n) (proc_edges fl alg od es src ((i + 1) * n) dst)"
proof (rule proc_edges_commute)
  have "v + (i + 1) * n \<noteq> v' + (j + 1) * n" if "0 \<le> v" "v < n" "0 \<le> v'" "v' < n" for v v' :: int
  proof
    assume eq: "v + (i + 1) * n = v' + (j + 1) * n"
    have "(v + (i + 1) * n) div n = i + 1" "(v' + (j + 1) * n) div n = j + 1" using that by simp_all
    then show False using eq assms(3) by simp
  qed
  then show "targets es ((i + 1) * n) \<inter> targets es' ((j + 1) * n) = {}"
    using assms(1,2) by (fastforce simp: targets_def)
qed

theorem devices_commute_witness:
  "proc_edges id 0 (\<lambda>_. 1) [(0, 1)] (\<lambda>_. 1) ((0 + 1) * 4) (proc_edges id 0 (\<lambda>_. 1) [(2, 1)] (\<lambda>_. 1) ((1 + 1) * 4) (\<lambda>_. 0)) =
   proc_edges id 0 (\<lambda>_. 1) [(2, 1)] (\<lambda>_. 1) ((1 + 1) * 4) (proc_edges id 0 (\<lambda>_. 1) [(0, 1)] (\<lambda>_. 1) ((0 + 1) * 4) (\<lambda>_. 0))"
  by (rule devices_commute) simp_all

end
