(* ===== verification/Simple_FTL.thy ===== *)
theory Simple_FTL
  imports Task_Queue Vertex_Buffer Edge_Buffer IO_Worker Graph_Kernel
begin

text \<open>
  The simple FTL of the computational storage device, \<^verbatim>\<open>simple_ftl.c\<close>: the timing of I/O units, the
  synchronous edge command (\<^verbatim>\<open>__do_perform_edge_proc_grafu\<close>) and the command dispatcher. A device keeps
  its two DRAM caches and its task queues; the vertex arrays and the flags shared with the host are the
  host memory buffer \<open>hmb_device\<close>. The clock, \<^verbatim>\<open>kthread_should_stop\<close> and the outcome of \<^verbatim>\<open>kmalloc\<close>
  are streams indexed by the number of clock readings so far (\<open>tick\<close>); \<open>fl\<close> and \<open>fd\<close> round a result to
  \<^verbatim>\<open>float\<close> and \<^verbatim>\<open>double\<close>. A division by zero and a loop that never ends are \<open>None\<close>.
\<close>

unbundle bit_operations_syntax

section \<open>State\<close>

record hmb_device =
  buf0 :: vtx_array
  buf1 :: vtx_array
  buf2 :: vtx_array
  done1 :: "int \<Rightarrow> bool"
  done2 :: "int \<Rightarrow> bool"
  done_partition :: "int \<Rightarrow> bool"

record nvmev_config =
  nr_io_units :: u32
  io_unit_shift :: u32
  read_delay :: u32
  read_time :: u32
  read_trailing :: u32
  write_delay :: u32
  write_time :: u32
  write_trailing :: u32

text \<open>The part of \<^verbatim>\<open>struct nvmev_dev\<close> that graph processing uses.\<close>

record csd_dev =
  normal_task_queue :: queue
  future_task_queue :: queue
  edge_buf :: edge_buffer
  vertex_buf :: vertex_buffer
  tick :: nat

record csd_env =
  e_clk :: "nat \<Rightarrow> int"
  e_stop :: "nat \<Rightarrow> bool"
  e_kmalloc :: "nat \<Rightarrow> bool"
  e_P :: csd_params
  e_fl :: "rat \<Rightarrow> rat"
  e_fd :: "rat \<Rightarrow> rat"
  e_storage :: "u32 \<Rightarrow> int \<Rightarrow> int"

section \<open>I/O units\<close>

definition LBA_BITS :: nat where "LBA_BITS = 9"

text \<open>\<^verbatim>\<open>do { latest += latency; length -= min(length, io_unit_size); } while (length > 0);\<close>\<close>

partial_function (option) io_unit_loop :: "u64 \<Rightarrow> u64 \<Rightarrow> u64 \<Rightarrow> u64 \<Rightarrow> u64 option" where
  "io_unit_loop io_unit_size latency latest len =
     (let latest = latest + latency; len = len - min len io_unit_size in
      if len > 0 then io_unit_loop io_unit_size latency latest len else Some latest)"

text \<open>
  \<^verbatim>\<open>__schedule_io_units\<close>. Everything behind \<^verbatim>\<open>return latest\<close> is unreachable, so the per-unit state
  \<open>io_unit_stat\<close> is read and never written. \<^verbatim>\<open>1 << io_unit_shift\<close> shifts an \<^verbatim>\<open>int\<close>, which is then converted to
  64 bits, and \<^verbatim>\<open>io_unit_shift - LBA_BITS\<close> is a 32-bit difference; a shift by the width or more, undefined
  in C, is taken as the x86 instruction executes it, with the count modulo the width.
\<close>

definition schedule_io_units ::
  "nvmev_config \<Rightarrow> (u64 \<Rightarrow> u64) \<Rightarrow> u8 \<Rightarrow> u64 \<Rightarrow> u64 \<Rightarrow> u64 \<Rightarrow> u64 option" where
  "schedule_io_units cfg io_unit_stat opcode lba len nsecs_start =
     (if nr_io_units cfg = 0 then None
      else
        let io_unit_size = scast (push_bit (unat (io_unit_shift cfg) mod 32) 1 :: u32);
            io_unit = drop_bit (unat (io_unit_shift cfg - of_nat LBA_BITS) mod 64) lba mod ucast (nr_io_units cfg);
            delay = (if opcode = nvme_cmd_write then write_delay cfg
                     else if opcode = nvme_cmd_read \<or> opcode = nvme_cmd_csd_process_edge then read_delay cfg
                     else 0);
            latency = (if opcode = nvme_cmd_write then write_time cfg
                     else if opcode = nvme_cmd_read \<or> opcode = nvme_cmd_csd_process_edge then read_time cfg
                     else 0);
            latest = max nsecs_start (io_unit_stat io_unit) + ucast delay in
        if opcode = nvme_cmd_csd_process_edge
        then io_unit_loop io_unit_size (ucast latency) latest len
        else Some latest)"

definition schedule_flush :: "nvmev_config \<Rightarrow> (u64 \<Rightarrow> u64) \<Rightarrow> u64" where
  "schedule_flush cfg io_unit_stat =
     fold (\<lambda>i latest. max latest (io_unit_stat (of_nat i))) [0..<unat (nr_io_units cfg)] 0"

section \<open>Clock and waiting\<close>

definition ktime :: "csd_env \<Rightarrow> csd_dev \<Rightarrow> int \<times> csd_dev" where
  "ktime E d = (e_clk E (tick d), d\<lparr>tick := Suc (tick d)\<rparr>)"

text \<open>
  \<^verbatim>\<open>while (ktime_get_ns() < end_time) { if (kthread_should_stop()) return; }\<close>: \<open>False\<close> when the thread
  was told to stop.
\<close>

partial_function (option) wait_until :: "csd_env \<Rightarrow> int \<Rightarrow> csd_dev \<Rightarrow> (bool \<times> csd_dev) option" where
  "wait_until E t d =
     (if fst (ktime E d) < t then
        (if e_stop E (tick d) then Some (False, snd (ktime E d)) else wait_until E t (snd (ktime E d)))
      else Some (True, snd (ktime E d)))"

text \<open>Division and conversion to an integer truncate towards zero.\<close>

definition tdiv :: "int \<Rightarrow> int \<Rightarrow> int" where
  "tdiv a b = sgn a * sgn b * (\<bar>a\<bar> div \<bar>b\<bar>)"

definition trunc :: "rat \<Rightarrow> int" where
  "trunc x = (if 0 \<le> x then \<lfloor>x\<rfloor> else \<lceil>x\<rceil>)"

section \<open>The synchronous edge command\<close>

definition DMA_READ_LATENCY :: int where "DMA_READ_LATENCY = 238"
definition CPU_MCU_SPEED_RATIO :: rat where "CPU_MCU_SPEED_RATIO = 3 / 2"

text \<open>The edge block read: the share of the block that is not cached takes its share of the flash time.\<close>

definition grafu_edge_io :: "csd_env \<Rightarrow> PROC_EDGE \<Rightarrow> hmb_device \<Rightarrow> csd_dev \<Rightarrow> (bool \<times> csd_dev) option" where
  "grafu_edge_io E task hmb d =
     (let (t0, d) = ktime E d;
          (size_not_in_cache, eb) = access_edge_block (e_P E) (e_kmalloc E (tick d)) (done_partition hmb)
            (sint (pe_r task)) (sint (pe_c task)) (sint (edge_block_len task)) 0 (edge_buf d);
          d = d\<lparr>edge_buf := eb\<rparr>;
          ratio = (if edge_block_len task = 0 then 1
                   else e_fd E (e_fd E (of_int size_not_in_cache) / e_fd E (of_nat (unat (edge_block_len task)))));
          (t1, d) = ktime E d in
      do {
        (ok, d) \<leftarrow> wait_until E (t1 + trunc (e_fd E (e_fd E (of_nat (unat (nsecs_target task))) * ratio))) d;
        if \<not> ok then Some (False, d)
        else let (t2, d) = ktime E d in
          Some (True, d\<lparr>edge_buf := (edge_buf d)\<lparr>edge_internal_io_time :=
                  edge_internal_io_time (edge_buf d) + (t2 - t0)\<rparr>\<rparr>)
      })"

text \<open>
  The vertex partition read. \<^verbatim>\<open>DMA_READ_LATENCY * size / PAGE_SIZE\<close> is an unsigned division, because
  \<^verbatim>\<open>PAGE_SIZE\<close> is an \<^verbatim>\<open>unsigned long\<close>.
\<close>

definition grafu_vertex_io :: "csd_env \<Rightarrow> PROC_EDGE \<Rightarrow> csd_dev \<Rightarrow> (bool \<times> csd_dev) option" where
  "grafu_vertex_io E task d =
     (let (t0, d) = ktime E d in
      if num_partitions task = 0 then None
      else
        let partition_size = tdiv (sint (num_vertices task) * VERTEX_SIZE) (uint (num_partitions task));
            (size_not_in_cache, vb) = access_partition (e_kmalloc E (tick d)) (sint (pe_r task)) (sint (iter task))
              partition_size (vertex_buf d);
            d = d\<lparr>vertex_buf := vb\<rparr>;
            (t1, d) = ktime E d in
        do {
          (ok, d) \<leftarrow> wait_until E (t1 + div_page (DMA_READ_LATENCY * size_not_in_cache)) d;
          if \<not> ok then Some (False, d)
          else let (t2, d) = ktime E d in
            Some (True, d\<lparr>edge_buf := (edge_buf d)\<lparr>edge_external_io_time :=
                    edge_external_io_time (edge_buf d) + (t2 - t0)\<rparr>\<rparr>)
        })"

text \<open>The kernel's effect on the vertex arrays: normal values go from \<open>buf0\<close> to \<open>buf1\<close>, future values from \<open>buf1\<close> to \<open>buf2\<close>.\<close>

definition task_edges :: "csd_env \<Rightarrow> PROC_EDGE \<Rightarrow> (int \<times> int) list" where
  "task_edges E task = block_edges (e_storage E (nsid task)) (uint (edge_block_slba task)) (uint (edge_block_len task))"

definition hmb_offset :: "PROC_EDGE \<Rightarrow> int" where
  "hmb_offset task = (sint (csd_id task) + 1) * sint (num_vertices task)"

definition proc_task_edges :: "csd_env \<Rightarrow> PROC_EDGE \<Rightarrow> hmb_device \<Rightarrow> hmb_device" where
  "proc_task_edges E task hmb =
     (let outdegree = block_outdegree (e_storage E (nsid task)) (uint (outdegree_slba task));
          run = proc_edges (e_fl E) (algorithm task) outdegree (task_edges E task) in
      if is_fvc task = 0 then hmb\<lparr>buf1 := run (buf0 hmb) (hmb_offset task) (buf1 hmb)\<rparr>
      else hmb\<lparr>buf2 := run (buf1 hmb) (hmb_offset task) (buf2 hmb)\<rparr>)"

text \<open>\<^verbatim>\<open>csd_id * num_partitions * num_partitions + r * num_partitions + c\<close> in 32 bits, stored in an \<^verbatim>\<open>int\<close>.\<close>

definition done_id :: "PROC_EDGE \<Rightarrow> int" where
  "done_id task = sint (csd_id task * num_partitions task * num_partitions task + pe_r task * num_partitions task + pe_c task)"

definition set_done :: "PROC_EDGE \<Rightarrow> hmb_device \<Rightarrow> hmb_device" where
  "set_done task hmb =
     (if is_fvc task = 0 then hmb\<lparr>done1 := (done1 hmb)(done_id task := True)\<rparr>
      else hmb\<lparr>done2 := (done2 hmb)(done_id task := True)\<rparr>)"

text \<open>The time the kernel took is stretched by the speed ratio, in \<^verbatim>\<open>double\<close> arithmetic.\<close>

definition mcu_end_time :: "(rat \<Rightarrow> rat) \<Rightarrow> int \<Rightarrow> int \<Rightarrow> int" where
  "mcu_end_time fd start_time end_time =
     trunc (fd (fd (of_int end_time) + fd (fd (of_int (end_time - start_time)) * (CPU_MCU_SPEED_RATIO - 1))))"

definition do_perform_edge_proc_grafu ::
  "csd_env \<Rightarrow> PROC_EDGE \<Rightarrow> hmb_device \<Rightarrow> csd_dev \<Rightarrow> (hmb_device \<times> csd_dev) option" where
  "do_perform_edge_proc_grafu E task hmb d =
     do {
       (ok, d) \<leftarrow> grafu_edge_io E task hmb d;
       if \<not> ok then Some (hmb, d)
       else do {
         (ok, d) \<leftarrow> grafu_vertex_io E task d;
         if \<not> ok then Some (hmb, d)
         else
           let (t0, d) = ktime E d;
               (start_time, d) = ktime E d;
               hmb = proc_task_edges E task hmb;
               (end_time, d) = ktime E d in
           do {
             (ok, d) \<leftarrow> wait_until E (mcu_end_time (e_fd E) start_time end_time) d;
             if \<not> ok then Some (hmb, d)
             else
               let (t1, d) = ktime E d;
                   d = d\<lparr>edge_buf := (edge_buf d)\<lparr>edge_proc_time := edge_proc_time (edge_buf d) + (t1 - t0)\<rparr>\<rparr>
               in Some (set_done task hmb, d)
           }
       }
     }"

section \<open>The command dispatcher\<close>

record simple_dev =
  s_io :: nvmev_io_dev
  s_csd :: csd_dev
  s_hmb :: hmb_device

definition rw_apptag :: "nvme_command \<Rightarrow> u16" where
  "rw_apptag c = ucast (c_cdw15 c)"

definition SYNC :: u16 where "SYNC = 1"
definition ASYNC :: u16 where "ASYNC = 2"
definition FLUSH_CSD_DRAM :: u16 where "FLUSH_CSD_DRAM = 3"

text \<open>The completion entry is written before the work starts; the result words keep their old contents.\<close>

definition post_edge_cqe :: "int \<Rightarrow> int \<Rightarrow> nvmev_result \<Rightarrow> nvmev_io_dev \<Rightarrow> nvmev_io_dev option" where
  "post_edge_cqe sqid sq_entry ret io =
     do {
       sq \<leftarrow> sqes io sqid;
       cq \<leftarrow> cqes io (sq_cqid sq);
       let cqe = (cq_mem cq (cq_head cq))
         \<lparr>e_command_id := c_command_id (sq_mem sq sq_entry), e_sq_id := word_of_int sqid,
          e_sq_head := word_of_int sq_entry,
          e_status := ucast (word_of_int (cq_phase cq) OR push_bit 1 (r_status ret))\<rparr>;
       Some (io\<lparr>cqes := (cqes io)(sq_cqid sq \<mapsto> cq_post cqe cq)\<rparr>)
     }"

definition edge_irq_one :: "int \<Rightarrow> nvmev_io_dev \<Rightarrow> nvmev_io_dev" where
  "edge_irq_one qidx io =
     (case cqes io qidx of
        None \<Rightarrow> io
      | Some cq \<Rightarrow>
          if cq_irq_enabled cq \<and> cq_interrupt_ready cq then
            io\<lparr>cqes := (cqes io)(qidx \<mapsto> cq\<lparr>cq_interrupt_ready := False\<rparr>), irqs := irqs io @ [cq_irq_vector cq]\<rparr>
          else io)"

definition edge_irq_loop :: "nvmev_io_dev \<Rightarrow> nvmev_io_dev" where
  "edge_irq_loop io = fold (\<lambda>q. edge_irq_one (int q)) [1..<Suc (nr_cq io)] io"

text \<open>
  The statistics that \<^verbatim>\<open>FLUSH_CSD_DRAM\<close> leaves in \<open>buf2\<close>. The hit rate of a device that was never
  accessed is \<^verbatim>\<open>0.0 / 0\<close>; \<open>nan\<close> stands for that value.
\<close>

definition flush_stats :: "csd_env \<Rightarrow> rat \<Rightarrow> PROC_EDGE \<Rightarrow> edge_buffer \<Rightarrow> vtx_array \<Rightarrow> vtx_array" where
  "flush_stats E nan task eb b =
     (let cid = sint (csd_id task); n = sint (num_csds task); ms_ns_ratio = 1000000;
          b = b(cid := (if eb_total_access_cnt eb = 0 then nan
                 else e_fl E (e_fl E (of_int (eb_hit_cnt eb)) / e_fl E (of_int (eb_total_access_cnt eb)))));
          b = b(cid + n := e_fl E (of_int (tdiv (edge_proc_time eb) ms_ns_ratio)));
          b = b(cid + n * 2 := e_fl E (of_int (tdiv (edge_internal_io_time eb) ms_ns_ratio)));
          b = b(cid + n * 3 := e_fl E (of_int (tdiv (edge_external_io_time eb) ms_ns_ratio)));
          put = (\<lambda>cnt k i b. b(cid + n * int i := e_fl E (e_fd E (of_int (cnt eb ! (i - k))))));
          b = fold (put prefetch_priority_cnt 2) [4..<8] b;
          b = fold (put prefetch_block_hit_cnt_arr 6) [8..<12] b
      in fold (put prefetch_block_cnt_arr 10) [12..<16] b)"

definition flush_csd :: "csd_env \<Rightarrow> rat \<Rightarrow> PROC_EDGE \<Rightarrow> hmb_device \<Rightarrow> csd_dev \<Rightarrow> hmb_device \<times> csd_dev" where
  "flush_csd E nan task hmb d =
     (hmb\<lparr>buf2 := flush_stats E nan task (edge_buf d) (buf2 hmb),
          done2 := (done2 hmb)(sint (csd_id task) := True)\<rparr>,
      d\<lparr>edge_buf := edge_buffer_destroy (edge_buf d), vertex_buf := vertex_buffer_destroy (vertex_buf d)\<rparr>)"

text \<open>The work of an edge command, by the flag in its application tag.\<close>

definition run_edge_cmd ::
  "csd_env \<Rightarrow> rat \<Rightarrow> u16 \<Rightarrow> PROC_EDGE \<Rightarrow> hmb_device \<Rightarrow> csd_dev \<Rightarrow> (hmb_device \<times> csd_dev) option" where
  "run_edge_cmd E nan csd_flag task hmb d =
     (if csd_flag = SYNC then do_perform_edge_proc_grafu E task hmb d
      else if csd_flag = ASYNC then
        Some (hmb, if queue_find (normal_task_queue d) task then d
                   else d\<lparr>normal_task_queue := queue_enqueue (e_kmalloc E (tick d)) task (normal_task_queue d)\<rparr>)
      else if csd_flag = FLUSH_CSD_DRAM then Some (flush_csd E nan task hmb d)
      else Some (hmb, d))"

text \<open>
  \<^verbatim>\<open>simple_proc_nvme_io_cmd\<close>: \<open>host_task\<close> gives the structure at a physical address of the host, if the
  address is valid. For an invalid one the function returns \<^verbatim>\<open>-EFAULT\<close>, which as a \<^verbatim>\<open>bool\<close> is \<open>True\<close>.
\<close>

definition simple_proc_nvme_io_cmd ::
  "csd_env \<Rightarrow> nvmev_config \<Rightarrow> (u64 \<Rightarrow> u64) \<Rightarrow> (u64 \<Rightarrow> PROC_EDGE option) \<Rightarrow> rat \<Rightarrow> nvme_command \<Rightarrow> int \<Rightarrow> int
     \<Rightarrow> u64 \<Rightarrow> nvmev_result \<Rightarrow> simple_dev \<Rightarrow> (bool \<times> nvmev_result \<times> simple_dev) option" where
  "simple_proc_nvme_io_cmd E cfg io_unit_stat host_task nan cmd sqid sq_entry now ret s =
     (if c_opcode cmd = nvme_cmd_write \<or> c_opcode cmd = nvme_cmd_read then
        do {
          t \<leftarrow> schedule_io_units cfg io_unit_stat (c_opcode cmd) (rw_slba cmd) (cmd_io_size LBA_BITS cmd) now;
          Some (True, ret\<lparr>r_nsecs_target := t\<rparr>, s)
        }
      else if c_opcode cmd = nvme_cmd_flush then
        Some (True, ret\<lparr>r_nsecs_target := schedule_flush cfg io_unit_stat\<rparr>, s)
      else if c_opcode cmd = nvme_cmd_csd_process_edge then
        (case host_task (c_prp1 cmd) of
           None \<Rightarrow> Some (True, ret, s)
         | Some task \<Rightarrow>
             do {
               let task = task\<lparr>nsid := c_nsid cmd - 1\<rparr>;
               t \<leftarrow> schedule_io_units cfg io_unit_stat (c_opcode cmd) (edge_block_slba task)
                      (if algorithm task = 2 then edge_block_len task * 3 div 2 else edge_block_len task) now;
               let ret = ret\<lparr>r_nsecs_target := t\<rparr>;
               let task = task\<lparr>nsecs_target := t - now\<rparr>;
               io \<leftarrow> post_edge_cqe sqid sq_entry ret (s_io s);
               (hmb, d) \<leftarrow> run_edge_cmd E nan (rw_apptag cmd) task (s_hmb s) (s_csd s);
               Some (True, ret, s\<lparr>s_io := edge_irq_loop io, s_hmb := hmb, s_csd := d\<rparr>)
             })
      else Some (True, ret, s))"

section \<open>Scheduling\<close>

declare io_unit_loop.simps [code]

lemma io_unit_loop_closed:
  assumes "0 < U"
  shows "io_unit_loop U lat t len = Some (t + of_nat (max 1 ((unat len + unat U - 1) div unat U)) * lat)"
proof (induction "unat len" arbitrary: len t rule: less_induct)
  case less
  have U: "0 < unat U" using assms by (simp add: word_gt_0_no unat_gt_0 word_gt_0)
  show ?case
  proof (cases "len \<le> U")
    case True
    then have l: "unat len \<le> unat U" by (simp add: word_le_nat_alt)
    have "(unat len + unat U - 1) div unat U \<le> 1"
    proof -
      have "unat len + unat U - 1 < 2 * unat U" using l U by linarith
      then have "(unat len + unat U - 1) div unat U < 2" using U by (simp add: less_mult_imp_div_less)
      then show ?thesis by simp
    qed
    then have "max 1 ((unat len + unat U - 1) div unat U) = 1" by simp
    then show ?thesis using True by (subst io_unit_loop.simps) (simp add: min_def)
  next
    case False
    then have gt: "unat U < unat len" by (simp add: word_le_nat_alt)
    have u: "unat (len - U) = unat len - unat U" using False by (simp add: unat_sub)
    have "unat (len - U) < unat len" using gt U u by linarith
    note IH = less [OF this, of "t + lat"]
    let ?n = "(unat len - unat U + unat U - 1) div unat U"
    have "unat len + unat U - 1 = (unat len - unat U + unat U - 1) + unat U" using gt U by linarith
    then have e: "(unat len + unat U - 1) div unat U = Suc ?n"
      using div_add_self2 [of "unat U" "unat len - unat U + unat U - 1"] U by (simp only: Suc_eq_plus1)
    have "unat U \<le> unat len - unat U + unat U - 1" using gt by linarith
    note div_le_mono [OF this, of "unat U"]
    then have "1 \<le> ?n" using U by simp
    then have "max 1 ?n = ?n" by simp
    moreover have pos: "0 < len - U" using gt u by (simp add: word_gt_0 word_unat_eq_iff)
    ultimately have "io_unit_loop U lat (t + lat) (len - U) = Some (t + of_nat (Suc ?n) * lat)"
      using IH unfolding u by (simp add: algebra_simps)
    moreover have "max 1 ((unat len + unat U - 1) div unat U) = Suc ?n" unfolding e by simp
    ultimately show ?thesis
      using False pos by (subst io_unit_loop.simps) (simp add: min_def del: One_nat_def)
  qed
qed

section \<open>Waiting\<close>

text \<open>The thread is never told to stop and the clock passes every time.\<close>

definition env_live :: "csd_env \<Rightarrow> bool" where
  "env_live E \<longleftrightarrow> (\<forall>n. \<not> e_stop E n) \<and> (\<forall>n t. \<exists>m \<ge> n. t \<le> e_clk E m)"

lemma wait_until_live:
  assumes "env_live E"
  obtains k where "wait_until E t d = Some (True, d\<lparr>tick := k\<rparr>)"
proof -
  obtain m where m: "tick d \<le> m" "t \<le> e_clk E m" using assms unfolding env_live_def by blast
  have "\<exists>k. wait_until E t d' = Some (True, d'\<lparr>tick := k\<rparr>)" if "tick d' \<le> m" for d'
    using that
  proof (induction "m - tick d'" arbitrary: d' rule: less_induct)
    case less
    show ?case
    proof (cases "e_clk E (tick d') < t")
      case True
      then have lt: "tick d' < m" using m(2) less.prems by (metis le_neq_implies_less not_less)
      let ?d = "d'\<lparr>tick := Suc (tick d')\<rparr>"
      have "m - tick ?d < m - tick d'" "tick ?d \<le> m" using lt by simp_all
      from less.hyps [OF this] obtain k where "wait_until E t ?d = Some (True, ?d\<lparr>tick := k\<rparr>)" by blast
      then show ?thesis
        using True assms by (intro exI [of _ k], subst wait_until.simps) (simp add: ktime_def env_live_def)
    next
      case False
      then show ?thesis
        by (subst wait_until.simps) (auto simp: ktime_def)
    qed
  qed
  from this [OF m(1)] show ?thesis using that by blast
qed

section \<open>The edge command runs to its end\<close>

text \<open>What a phase of the command leaves alone.\<close>

definition same_queues :: "csd_dev \<Rightarrow> csd_dev \<Rightarrow> bool" where
  "same_queues d d' \<longleftrightarrow>
     normal_task_queue d' = normal_task_queue d \<and> future_task_queue d' = future_task_queue d"

lemma grafu_edge_io_live:
  assumes "env_live E"
  obtains d' where "grafu_edge_io E task hmb d = Some (True, d')" and "same_queues d d'"
    and "vertex_buf d' = vertex_buf d"
    and "eb_units (edge_buf d') = eb_units (snd (access_edge_block (e_P E) (e_kmalloc E (Suc (tick d))) (done_partition hmb)
           (sint (pe_r task)) (sint (pe_c task)) (sint (edge_block_len task)) 0 (edge_buf d)))"
proof -
  let ?a = "access_edge_block (e_P E) (e_kmalloc E (Suc (tick d))) (done_partition hmb)
           (sint (pe_r task)) (sint (pe_c task)) (sint (edge_block_len task)) 0 (edge_buf d)"
  let ?d = "d\<lparr>edge_buf := snd ?a, tick := Suc (Suc (tick d))\<rparr>"
  define T where "T = e_clk E (Suc (tick d)) + trunc (e_fd E (e_fd E (of_nat (unat (nsecs_target task))) *
      (if edge_block_len task = 0 then 1
       else e_fd E (e_fd E (of_int (fst ?a)) / e_fd E (of_nat (unat (edge_block_len task)))))))"
  obtain k where k: "wait_until E T ?d = Some (True, ?d\<lparr>tick := k\<rparr>)" using wait_until_live [OF assms] by blast
  show ?thesis
    by (rule that [of "?d\<lparr>tick := Suc k, edge_buf := (snd ?a)\<lparr>edge_internal_io_time :=
            edge_internal_io_time (snd ?a) + (e_clk E k - e_clk E (tick d))\<rparr>\<rparr>"])
      (use k in \<open>simp_all add: grafu_edge_io_def ktime_def same_queues_def T_def Let_def case_prod_beta split del: if_split cong: if_cong\<close>)
qed

lemma grafu_vertex_io_live:
  assumes "env_live E" and "num_partitions task \<noteq> 0"
  obtains d' ok where "grafu_vertex_io E task d = Some (True, d')" and "same_queues d d'"
    and "eb_units (edge_buf d') = eb_units (edge_buf d)"
    and "vertex_buf d' = snd (access_partition ok (sint (pe_r task)) (sint (iter task))
           (tdiv (sint (num_vertices task) * VERTEX_SIZE) (uint (num_partitions task))) (vertex_buf d))"
proof -
  let ?a = "access_partition (e_kmalloc E (Suc (tick d))) (sint (pe_r task)) (sint (iter task))
           (tdiv (sint (num_vertices task) * VERTEX_SIZE) (uint (num_partitions task))) (vertex_buf d)"
  let ?d = "d\<lparr>vertex_buf := snd ?a, tick := Suc (Suc (tick d))\<rparr>"
  define T where "T = e_clk E (Suc (tick d)) + div_page (DMA_READ_LATENCY * fst ?a)"
  obtain k where k: "wait_until E T ?d = Some (True, ?d\<lparr>tick := k\<rparr>)" using wait_until_live [OF assms(1)] by blast
  show ?thesis
    by (rule that [of "?d\<lparr>tick := Suc k, edge_buf := (edge_buf d)\<lparr>edge_external_io_time :=
            edge_external_io_time (edge_buf d) + (e_clk E k - e_clk E (tick d))\<rparr>\<rparr>" "e_kmalloc E (Suc (tick d))"])
      (use k assms(2) in \<open>simp_all add: grafu_vertex_io_def ktime_def same_queues_def T_def Let_def case_prod_beta split del: if_split cong: if_cong\<close>)
qed

lemma do_perform_edge_proc_grafu_live:
  assumes live: "env_live E" and np: "num_partitions task \<noteq> 0"
  obtains d' ok where "do_perform_edge_proc_grafu E task hmb d = Some (set_done task (proc_task_edges E task hmb), d')"
    and "same_queues d d'"
    and "eb_units (edge_buf d') = eb_units (snd (access_edge_block (e_P E) (e_kmalloc E (Suc (tick d))) (done_partition hmb)
           (sint (pe_r task)) (sint (pe_c task)) (sint (edge_block_len task)) 0 (edge_buf d)))"
    and "vertex_buf d' = snd (access_partition ok (sint (pe_r task)) (sint (iter task))
           (tdiv (sint (num_vertices task) * VERTEX_SIZE) (uint (num_partitions task))) (vertex_buf d))"
proof -
  obtain d1 where 1: "grafu_edge_io E task hmb d = Some (True, d1)" "same_queues d d1" "vertex_buf d1 = vertex_buf d"
    "eb_units (edge_buf d1) = eb_units (snd (access_edge_block (e_P E) (e_kmalloc E (Suc (tick d))) (done_partition hmb)
           (sint (pe_r task)) (sint (pe_c task)) (sint (edge_block_len task)) 0 (edge_buf d)))"
    using grafu_edge_io_live [OF live] by blast
  obtain d2 ok where 2: "grafu_vertex_io E task d1 = Some (True, d2)" "same_queues d1 d2"
    "eb_units (edge_buf d2) = eb_units (edge_buf d1)"
    "vertex_buf d2 = snd (access_partition ok (sint (pe_r task)) (sint (iter task))
           (tdiv (sint (num_vertices task) * VERTEX_SIZE) (uint (num_partitions task))) (vertex_buf d1))"
    using grafu_vertex_io_live [OF live np] by blast
  let ?d = "d2\<lparr>tick := Suc (Suc (Suc (tick d2)))\<rparr>"
  define T where "T = mcu_end_time (e_fd E) (e_clk E (Suc (tick d2))) (e_clk E (Suc (Suc (tick d2))))"
  obtain k where k: "wait_until E T ?d = Some (True, ?d\<lparr>tick := k\<rparr>)" using wait_until_live [OF live] by blast
  show ?thesis
    by (rule that [of "?d\<lparr>tick := Suc k, edge_buf := (edge_buf d2)\<lparr>edge_proc_time :=
            edge_proc_time (edge_buf d2) + (e_clk E k - e_clk E (tick d2))\<rparr>\<rparr>" ok])
      (use 1 2 k in \<open>simp_all add: do_perform_edge_proc_grafu_def ktime_def same_queues_def T_def Let_def case_prod_beta split del: if_split cong: if_cong\<close>)
qed

section \<open>Completions of edge commands\<close>

lemma edge_irq_one_cqes:
  "map_option (\<lambda>c. (cq_mem c, cq_head c, cq_phase c, cq_queue_size c)) (cqes (edge_irq_one q io) i) =
   map_option (\<lambda>c. (cq_mem c, cq_head c, cq_phase c, cq_queue_size c)) (cqes io i)"
  by (simp add: edge_irq_one_def split: option.split)

lemma edge_irq_loop_cqes:
  "map_option (\<lambda>c. (cq_mem c, cq_head c, cq_phase c, cq_queue_size c)) (cqes (edge_irq_loop io) i) =
   map_option (\<lambda>c. (cq_mem c, cq_head c, cq_phase c, cq_queue_size c)) (cqes io i)"
proof -
  have "map_option (\<lambda>c. (cq_mem c, cq_head c, cq_phase c, cq_queue_size c))
      (cqes (fold (\<lambda>q. edge_irq_one (int q)) qs io) i) =
    map_option (\<lambda>c. (cq_mem c, cq_head c, cq_phase c, cq_queue_size c)) (cqes io i)" for qs
    by (induction qs arbitrary: io) (simp_all add: edge_irq_one_cqes)
  then show ?thesis by (simp add: edge_irq_loop_def)
qed

lemma proc_task_edges_time [simp]: "proc_task_edges E (task\<lparr>nsecs_target := t\<rparr>) hmb = proc_task_edges E task hmb"
  by (simp add: proc_task_edges_def task_edges_def hmb_offset_def Let_def)

lemma set_done_upd [simp]:
  "set_done (task\<lparr>nsecs_target := t\<rparr>) hmb = set_done task hmb"
  "set_done (task\<lparr>nsid := i\<rparr>) hmb = set_done task hmb"
  by (simp_all add: set_done_def done_id_def)

lemma queue_find_upd [simp]:
  "queue_find q (task\<lparr>nsecs_target := t\<rparr>) = queue_find q task"
  "queue_find q (task\<lparr>nsid := i\<rparr>) = queue_find q task"
  by (simp_all add: queue_find_def)

text \<open>An edge command returns, whatever its flag.\<close>

lemma run_edge_cmd_live:
  assumes "env_live E" and "num_partitions task \<noteq> 0"
  obtains hmb' d' where "run_edge_cmd E nan flag task hmb d = Some (hmb', d')"
    and "flag = SYNC \<Longrightarrow> hmb' = set_done task (proc_task_edges E task hmb)"
    and "flag = SYNC \<Longrightarrow> same_queues d d'"
    and "flag = ASYNC \<Longrightarrow> hmb' = hmb"
    and "flag = ASYNC \<Longrightarrow> e_kmalloc E (tick d) \<Longrightarrow> q_items (normal_task_queue d') =
          (if queue_find (normal_task_queue d) task then q_items (normal_task_queue d)
           else q_items (normal_task_queue d) @ [task])"
proof -
  have ne: "ASYNC \<noteq> SYNC" "FLUSH_CSD_DRAM \<noteq> SYNC" "FLUSH_CSD_DRAM \<noteq> ASYNC"
    by (simp_all add: SYNC_def ASYNC_def FLUSH_CSD_DRAM_def)
  obtain d1 where d1: "do_perform_edge_proc_grafu E task hmb d = Some (set_done task (proc_task_edges E task hmb), d1)"
    "same_queues d d1"
    using do_perform_edge_proc_grafu_live [OF assms] by metis
  consider "flag = SYNC" | "flag = ASYNC" | "flag = FLUSH_CSD_DRAM" | "flag \<notin> {SYNC, ASYNC, FLUSH_CSD_DRAM}" by blast
  then show ?thesis
  proof cases
    case 1
    then show ?thesis by (intro that) (use d1 ne in \<open>auto simp: run_edge_cmd_def\<close>)
  next
    case 2
    then show ?thesis by (intro that) (use ne in \<open>auto simp: run_edge_cmd_def queue_enqueue_def\<close>)
  next
    case 3
    obtain hmb' d' where "flush_csd E nan task hmb d = (hmb', d')" by (cases "flush_csd E nan task hmb d")
    with 3 show ?thesis by (intro that [of hmb' d']) (use ne in \<open>auto simp: run_edge_cmd_def\<close>)
  next
    case 4
    then show ?thesis by (intro that [of hmb d]) (auto simp: run_edge_cmd_def)
  qed
qed

lemma io_unit_size_pos: "0 < (scast (push_bit (n mod 32) 1 :: u32) :: u64)"
proof -
  have "bit (scast (push_bit (n mod 32) 1 :: u32) :: u64) (n mod 32)"
    using mod_less_divisor [of 32 n] by (auto simp: bit_signed_iff min_def bit_exp_iff push_bit_eq_mult)
  then have "(scast (push_bit (n mod 32) 1 :: u32) :: u64) \<noteq> 0" by (metis bit_0_eq bot2E bot_fun_def bot_bool_def)
  then show ?thesis by (simp add: word_gt_0)
qed

lemma unat_io_unit_size:
  assumes "n < 31"
  shows "unat (scast (push_bit (n mod 32) 1 :: u32) :: u64) = 2 ^ n"
proof -
  have m: "n mod 32 = n" and p: "push_bit n 1 = (2 ^ n :: u32)" using assms by (simp_all add: push_bit_eq_mult)
  have lt: "(2 :: int) ^ n < 2 ^ 31" using assms by (intro power_strict_increasing) simp_all
  have "uint (2 ^ n :: u32) = 2 ^ n" using assms by (simp add: uint_2p word_gt_0)
  then have s: "sint (2 ^ n :: u32) = 2 ^ n" using lt signed_take_bit_int_eq_self [of 31 "2 ^ n"] order_trans [of "- 2147483648 :: int" 0 "2 ^ n"] by (simp add: sint_uint)
  have "uint (scast (2 ^ n :: u32) :: u64) = take_bit 64 (2 ^ n)"
    unfolding scast_eq s by (simp only: uint_word_of_int_eq) simp
  also have "\<dots> = 2 ^ n" using lt by (intro take_bit_int_eq_self) simp_all
  finally have "int (unat (scast (2 ^ n :: u32) :: u64)) = int (2 ^ n)" by (simp only: uint_nat of_nat_power of_nat_numeral)
  then show ?thesis unfolding m p by (simp only: of_nat_eq_iff)
qed

text \<open>A concrete environment, for the witnesses: the clock counts its own readings.\<close>

definition env0 :: csd_env where
  "env0 = \<lparr>e_clk = int, e_stop = (\<lambda>_. False), e_kmalloc = (\<lambda>_. True),
     e_P = \<lparr>cache_eviction_policy = ''FIFO'', partial_edge_eviction = 1, invalidation_at_future_value = 0, edge_buffer_size = 4096\<rparr>,
     e_fl = id, e_fd = id, e_storage = (\<lambda>_ i. if i < 4 then 1 else i mod 4)\<rparr>"

definition task0 :: PROC_EDGE where
  "task0 = \<lparr>outdegree_slba = 0, edge_block_slba = 16, edge_block_len = 16, iter = 0, num_iters = 1, is_fvc = 0,
     is_prefetching = 0, row_overlap = 0, cost_modeling = 0, algorithm = 0, nsid = 0, pe_r = 0, pe_c = 1,
     csd_id = 0, num_partitions = 2, num_csds = 1, num_vertices = 4, nsecs_target = 100\<rparr>"

definition csd0 :: csd_dev where
  "csd0 = \<lparr>normal_task_queue = queue_init, future_task_queue = queue_init, edge_buf = edge_buffer_init (e_P env0),
     vertex_buf = vertex_buffer_init 4096, tick = 0\<rparr>"

definition hmb0 :: hmb_device where
  "hmb0 = \<lparr>buf0 = (\<lambda>_. 1), buf1 = (\<lambda>_. 0), buf2 = (\<lambda>_. 0), done1 = (\<lambda>_. False), done2 = (\<lambda>_. False),
     done_partition = (\<lambda>_. False)\<rparr>"

lemma env0_live: "env_live env0"
proof -
  have "\<exists>m \<ge> n. t \<le> int m" for n t by (intro exI [of _ "n + nat t"]) simp
  then show ?thesis by (simp add: env_live_def env0_def)
qed

definition cfg0 :: nvmev_config where
  "cfg0 = \<lparr>nr_io_units = 8, io_unit_shift = 12, read_delay = 10, read_time = 5, read_trailing = 0,
     write_delay = 30, write_time = 7, write_trailing = 0\<rparr>"

definition edge_cmd0 :: nvme_command where
  "edge_cmd0 = demo_cmd\<lparr>c_opcode := nvme_cmd_csd_process_edge, c_nsid := 1, c_cdw15 := 1\<rparr>"

section \<open>Properties\<close>

text \<open>
  C21: The synchronous edge command terminates. When the clock passes every time, the thread is not
  stopped and there is at least one partition, the command returns. A normal command has then run the kernel of
  its algorithm over the edges stored at the block's address, reading the source values of \<open>buf0\<close> and adding to
  the device's slice of \<open>buf1\<close>, and set the block's flag in \<open>done1\<close>; a future command has read \<open>buf1\<close>, added to
  \<open>buf2\<close> and set the flag in \<open>done2\<close>. Nothing else of the shared buffer has changed. The block is in the edge
  cache as a demand access leaves it, the partition in the vertex cache, and the task queues are untouched.
\<close>

theorem edge_command_terminates:
  assumes "env_live E" and "num_partitions task \<noteq> 0"
    and run: "run = (\<lambda>src dst. proc_edges (e_fl E) (algorithm task)
      (\<lambda>u. e_storage E (nsid task) (uint (outdegree_slba task) div 4 + u))
      (stored_edges (e_storage E (nsid task)) (uint (edge_block_slba task)) (uint (edge_block_len task)))
      src ((sint (csd_id task) + 1) * sint (num_vertices task)) dst)"
    and flag: "flag = sint (csd_id task * num_partitions task * num_partitions task + pe_r task * num_partitions task + pe_c task)"
  shows "\<exists>hmb' d' ok. do_perform_edge_proc_grafu E task hmb d = Some (hmb', d') \<and>
    (is_fvc task = 0 \<longrightarrow> hmb' = hmb\<lparr>buf1 := run (buf0 hmb) (buf1 hmb), done1 := (done1 hmb)(flag := True)\<rparr>) \<and>
    (is_fvc task \<noteq> 0 \<longrightarrow> hmb' = hmb\<lparr>buf2 := run (buf1 hmb) (buf2 hmb), done2 := (done2 hmb)(flag := True)\<rparr>) \<and>
    same_queues d d' \<and>
    eb_units (edge_buf d') = eb_units (snd (access_edge_block (e_P E) (e_kmalloc E (Suc (tick d))) (done_partition hmb)
       (sint (pe_r task)) (sint (pe_c task)) (sint (edge_block_len task)) 0 (edge_buf d))) \<and>
    vertex_buf d' = snd (access_partition ok (sint (pe_r task)) (sint (iter task))
       (tdiv (sint (num_vertices task) * VERTEX_SIZE) (uint (num_partitions task))) (vertex_buf d))"
proof -
  have "is_fvc task = 0 \<longrightarrow> set_done task (proc_task_edges E task hmb) =
      hmb\<lparr>buf1 := run (buf0 hmb) (buf1 hmb), done1 := (done1 hmb)(flag := True)\<rparr>"
    "is_fvc task \<noteq> 0 \<longrightarrow> set_done task (proc_task_edges E task hmb) =
      hmb\<lparr>buf2 := run (buf1 hmb) (buf2 hmb), done2 := (done2 hmb)(flag := True)\<rparr>"
    by (simp_all add: set_done_def proc_task_edges_def task_edges_def block_edges_stored block_outdegree_stored
        hmb_offset_def done_id_def run flag Let_def)
  then show ?thesis using do_perform_edge_proc_grafu_live [OF assms(1,2), of hmb d] by metis
qed

text \<open>
  Timing of the simple FTL. An edge command is due after the read delay and one read time per started
  I/O unit (at least one), counted from the time its first unit is free; a read or a write is due after its delay alone,
  whatever its length, because the loop that would charge it is behind the \<^verbatim>\<open>return\<close>.
\<close>

theorem schedule_io_units_spec:
  assumes "nr_io_units cfg \<noteq> 0" and "io_unit_shift cfg < 31"
  shows "\<exists>unit < nr_io_units cfg.
      schedule_io_units cfg stat nvme_cmd_csd_process_edge lba len now =
        Some (max now (stat (ucast unit)) + ucast (read_delay cfg) +
          of_nat (max 1 ((unat len + 2 ^ unat (io_unit_shift cfg) - 1) div 2 ^ unat (io_unit_shift cfg))) *
            ucast (read_time cfg)) \<and>
      schedule_io_units cfg stat nvme_cmd_read lba len now = Some (max now (stat (ucast unit)) + ucast (read_delay cfg)) \<and>
      schedule_io_units cfg stat nvme_cmd_write lba len now = Some (max now (stat (ucast unit)) + ucast (write_delay cfg))"
proof -
  let ?u = "drop_bit (unat (io_unit_shift cfg - of_nat LBA_BITS) mod 64) lba mod ucast (nr_io_units cfg) :: u64"
  have s: "unat (io_unit_shift cfg) < 31" using assms(2) by (simp add: word_less_nat_alt)
  note U = unat_io_unit_size [OF s]
  have n: "unat (ucast (nr_io_units cfg) :: u64) = unat (nr_io_units cfg)"
    using unsigned_less [of "nr_io_units cfg", where 'a = nat] by (simp add: unsigned_ucast_eq take_bit_nat_eq_self)
  have lt: "unat ?u < unat (nr_io_units cfg)"
    using assms(1) by (simp add: unat_mod n unat_gt_0)
  then have "unat ?u < 2 ^ 32" using unsigned_less [of "nr_io_units cfg", where 'a = nat] by simp
  then have r: "ucast (ucast ?u :: u32) = ?u"
    by (simp add: word_unat_eq_iff unsigned_ucast_eq unsigned_take_bit_eq take_bit_nat_eq_self)
  have "ucast ?u < nr_io_units cfg"
    using lt \<open>unat ?u < 2 ^ 32\<close> by (simp add: word_less_nat_alt unsigned_ucast_eq take_bit_nat_eq_self)
  moreover have ne: "nvme_cmd_csd_process_edge \<noteq> nvme_cmd_write" "nvme_cmd_csd_process_edge \<noteq> nvme_cmd_read"
    "nvme_cmd_read \<noteq> nvme_cmd_write"
    by (simp_all add: nvme_cmd_csd_process_edge_def nvme_cmd_write_def nvme_cmd_read_def)
  ultimately show ?thesis
    using assms(1) io_unit_loop_closed [OF io_unit_size_pos [of "unat (io_unit_shift cfg)"], unfolded U]
    by (intro exI [of _ "ucast ?u"] conjI) (simp_all add: schedule_io_units_def Let_def r)
qed

theorem edge_command_terminates_witness:
  "\<exists>hmb' d'. do_perform_edge_proc_grafu env0 task0 hmb0 csd0 = Some (hmb', d') \<and> buf0 hmb' = buf0 hmb0 \<and> buf2 hmb' = buf2 hmb0 \<and>
    done1 hmb' 1 \<and> same_queues csd0 d'"
proof -
  have "num_partitions task0 \<noteq> 0" "is_fvc task0 = 0" by (simp_all add: task0_def)
  moreover have "sint (csd_id task0 * num_partitions task0 * num_partitions task0 + pe_r task0 * num_partitions task0 + pe_c task0) = 1"
    by (simp add: task0_def)
  ultimately show ?thesis using edge_command_terminates [OF env0_live _ refl refl, of task0 hmb0 csd0] by auto
qed

theorem schedule_io_units_spec_witness:
  "schedule_io_units cfg0 (\<lambda>_. 0) nvme_cmd_csd_process_edge 0 8192 100 = Some 120 \<and>
   schedule_io_units cfg0 (\<lambda>_. 0) nvme_cmd_read 0 8192 100 = Some 110 \<and>
   schedule_io_units cfg0 (\<lambda>_. 0) nvme_cmd_write 0 8192 100 = Some 130"
  using schedule_io_units_spec [of cfg0 "\<lambda>_. 0" 0 8192 100] by (auto simp: cfg0_def)

text \<open>
  C22: Dispatch of edge commands. For a valid host address the command is accepted and returns; exactly one completion is
  posted, in the slot the host reads next, with the command's identifier and the current phase. A
  synchronous command has then run the kernel and set the flag; an asynchronous one is queued behind
  the others, unless a task for the same block already waits.
\<close>

theorem edge_command_dispatch:
  assumes "env_live E" and "nr_io_units cfg \<noteq> 0"
    and "c_opcode cmd = nvme_cmd_csd_process_edge" and "host_task (c_prp1 cmd) = Some task" and "num_partitions task \<noteq> 0"
    and "sqes (s_io s) sqid = Some sq" and "cqes (s_io s) (sq_cqid sq) = Some cq"
  shows "\<exists>ret' s' cq'. simple_proc_nvme_io_cmd E cfg stat host_task nan cmd sqid sq_entry now ret s = Some (True, ret', s') \<and>
    cqes (s_io s') (sq_cqid sq) = Some cq' \<and>
    cq_head cq' = (if cq_head cq + 1 = cq_queue_size cq then 0 else cq_head cq + 1) \<and>
    e_command_id (cq_mem cq' (cq_head cq)) = c_command_id (sq_mem sq sq_entry) \<and>
    e_status (cq_mem cq' (cq_head cq)) = ucast (word_of_int (cq_phase cq) OR push_bit 1 (r_status ret)) \<and>
    (\<forall>i. i \<noteq> cq_head cq \<longrightarrow> cq_mem cq' i = cq_mem cq i) \<and>
    (rw_apptag cmd = SYNC \<longrightarrow>
       s_hmb s' = set_done task (proc_task_edges E (task\<lparr>nsid := c_nsid cmd - 1\<rparr>) (s_hmb s)) \<and> same_queues (s_csd s) (s_csd s')) \<and>
    (rw_apptag cmd = ASYNC \<and> e_kmalloc E (tick (s_csd s)) \<longrightarrow> s_hmb s' = s_hmb s \<and>
       q_items (normal_task_queue (s_csd s')) =
         (if queue_find (normal_task_queue (s_csd s)) task then q_items (normal_task_queue (s_csd s))
          else q_items (normal_task_queue (s_csd s)) @ [task\<lparr>nsid := c_nsid cmd - 1, nsecs_target := r_nsecs_target ret' - now\<rparr>]))"
proof -
  let ?task = "task\<lparr>nsid := c_nsid cmd - 1\<rparr>"
  obtain t where t: "schedule_io_units cfg stat (c_opcode cmd) (edge_block_slba task)
      (if algorithm task = 2 then edge_block_len task * 3 div 2 else edge_block_len task) now = Some t"
    using assms(2,3) io_unit_loop_closed [OF io_unit_size_pos] by (simp add: schedule_io_units_def Let_def)
  let ?t = "?task\<lparr>nsecs_target := t - now\<rparr>" and ?ret = "ret\<lparr>r_nsecs_target := t\<rparr>"
  define cqe where "cqe = (cq_mem cq (cq_head cq))
         \<lparr>e_command_id := c_command_id (sq_mem sq sq_entry), e_sq_id := word_of_int sqid,
          e_sq_head := word_of_int sq_entry,
          e_status := ucast (word_of_int (cq_phase cq) OR push_bit 1 (r_status ret))\<rparr>"
  define io where "io = (s_io s)\<lparr>cqes := (cqes (s_io s))(sq_cqid sq \<mapsto> cq_post cqe cq)\<rparr>"
  have post: "post_edge_cqe sqid sq_entry ?ret (s_io s) = Some io"
    using assms(6,7) by (simp add: post_edge_cqe_def io_def cqe_def)
  obtain hmb' d' where run: "run_edge_cmd E nan (rw_apptag cmd) ?t (s_hmb s) (s_csd s) = Some (hmb', d')"
    "rw_apptag cmd = SYNC \<Longrightarrow> hmb' = set_done ?t (proc_task_edges E ?t (s_hmb s))"
    "rw_apptag cmd = SYNC \<Longrightarrow> same_queues (s_csd s) d'"
    "rw_apptag cmd = ASYNC \<Longrightarrow> hmb' = s_hmb s"
    "rw_apptag cmd = ASYNC \<Longrightarrow> e_kmalloc E (tick (s_csd s)) \<Longrightarrow> q_items (normal_task_queue d') =
          (if queue_find (normal_task_queue (s_csd s)) ?t then q_items (normal_task_queue (s_csd s))
           else q_items (normal_task_queue (s_csd s)) @ [?t])"
    using run_edge_cmd_live [OF assms(1), of ?t nan "rw_apptag cmd" "s_hmb s" "s_csd s"] assms(5) by auto
  have res: "simple_proc_nvme_io_cmd E cfg stat host_task nan cmd sqid sq_entry now ret s =
      Some (True, ?ret, s\<lparr>s_io := edge_irq_loop io, s_hmb := hmb', s_csd := d'\<rparr>)"
    using assms(3,4) t post run(1)
    by (simp add: simple_proc_nvme_io_cmd_def nvme_cmd_csd_process_edge_def nvme_cmd_write_def nvme_cmd_read_def nvme_cmd_flush_def Let_def split del: if_split cong: if_cong)
  have "map_option (\<lambda>c. (cq_mem c, cq_head c, cq_phase c, cq_queue_size c)) (cqes (edge_irq_loop io) (sq_cqid sq)) =
      Some (cq_mem (cq_post cqe cq), cq_head (cq_post cqe cq), cq_phase (cq_post cqe cq), cq_queue_size (cq_post cqe cq))"
    unfolding edge_irq_loop_cqes by (simp add: io_def)
  then obtain cq' where cq': "cqes (edge_irq_loop io) (sq_cqid sq) = Some cq'" "cq_mem cq' = cq_mem (cq_post cqe cq)"
    "cq_head cq' = cq_head (cq_post cqe cq)" by auto
  show ?thesis
    by (rule exI [of _ ?ret], rule exI [of _ "s\<lparr>s_io := edge_irq_loop io, s_hmb := hmb', s_csd := d'\<rparr>"], rule exI [of _ cq'])
      (use res cq' run in \<open>simp add: cq_post_def Let_def cqe_def\<close>)
qed

theorem edge_command_dispatch_witness:
  "\<exists>ret' s'. simple_proc_nvme_io_cmd env0 cfg0 (\<lambda>_. 0) (\<lambda>_. Some task0) 0 edge_cmd0 1 0 100
      \<lparr>r_status = 0, r_nsecs_target = 100\<rparr> \<lparr>s_io = demo_dev, s_csd = csd0, s_hmb = hmb0\<rparr> = Some (True, ret', s') \<and>
    s_hmb s' = set_done task0 (proc_task_edges env0 (task0\<lparr>nsid := 0\<rparr>) hmb0)"
proof -
  let ?s = "\<lparr>s_io = demo_dev, s_csd = csd0, s_hmb = hmb0\<rparr>" and ?r = "\<lparr>r_status = 0, r_nsecs_target = 100\<rparr>"
  have c: "nr_io_units cfg0 \<noteq> 0" "c_opcode edge_cmd0 = nvme_cmd_csd_process_edge"
    "num_partitions task0 \<noteq> 0" "rw_apptag edge_cmd0 = SYNC" "c_nsid edge_cmd0 - 1 = 0"
    by (simp_all add: cfg0_def edge_cmd0_def task0_def rw_apptag_def SYNC_def)
  have q: "sqes (s_io ?s) 1 = Some demo_sq" "cqes (s_io ?s) (sq_cqid demo_sq) = Some demo_cq"
    by (simp_all add: demo_dev_sel demo_sq_def)
  obtain ret' s' where "simple_proc_nvme_io_cmd env0 cfg0 (\<lambda>_. 0) (\<lambda>_. Some task0) 0 edge_cmd0 1 0 100 ?r ?s = Some (True, ret', s')"
    "s_hmb s' = set_done task0 (proc_task_edges env0 (task0\<lparr>nsid := c_nsid edge_cmd0 - 1\<rparr>) (s_hmb ?s))"
    using edge_command_dispatch [OF env0_live c(1,2) _ c(3) q, where host_task = "\<lambda>_. Some task0" and stat = "\<lambda>_. 0"
        and nan = 0 and sq_entry = 0 and now = 100 and ret = ?r] c(4) by blast
  then show ?thesis using c(5) by auto
qed

end
