(* ===== verification/Graph_Host.thy ===== *)
theory Graph_Host
  imports Simple_FTL
begin

text \<open>
  The host program \<^verbatim>\<open>user/init_csd_edge.c\<close>: vertex partitions, the edge command it sends, the
  aggregation of the devices' partial results, and the two synchronous graph loops, the column-by-column
  loop (\<^verbatim>\<open>csd_proc_edge_loop_normal\<close>) and the one that computes values of the next iteration ahead of
  time (\<^verbatim>\<open>csd_proc_edge_loop_grafu\<close>). The global variables of the program are the record \<open>host_cfg\<close>;
  the \<^verbatim>\<open>ioctl\<close> that hands a command to a device is the argument \<open>submit\<close>, with the interface
  \<open>csd_transport\<close>. A loop returns \<open>Inl\<close> of the code it returns early with, or \<open>Inr\<close> of its final state;
  a busy-wait on a flag that nobody sets is \<open>None\<close>. The artificial aggregation delay is left out.
\<close>

section \<open>Configuration\<close>

record host_cfg =
  hc_csds :: nat
  hc_parts :: nat
  hc_vertices :: nat
  hc_algorithm :: u32
  hc_cost_modeling :: u32
  hc_outdegree_slba :: u64
  hc_slba :: "nat \<Rightarrow> nat \<Rightarrow> nat \<Rightarrow> u64"
  hc_length :: "nat \<Rightarrow> nat \<Rightarrow> nat \<Rightarrow> u64"
  hc_fl :: "rat \<Rightarrow> rat"

type_synonym 's res = "(int + 's) option"

definition rbind :: "'s res \<Rightarrow> ('s \<Rightarrow> 't res) \<Rightarrow> 't res" where
  "rbind m f = (case m of None \<Rightarrow> None | Some (Inl e) \<Rightarrow> Some (Inl e) | Some (Inr s) \<Rightarrow> f s)"

fun for_each :: "('a \<Rightarrow> 's \<Rightarrow> 's res) \<Rightarrow> 'a list \<Rightarrow> 's \<Rightarrow> 's res" where
  "for_each f [] s = Some (Inr s)"
| "for_each f (x # xs) s = rbind (f x s) (for_each f xs)"

section \<open>Partitions\<close>

definition get_partition_range :: "host_cfg \<Rightarrow> nat \<Rightarrow> nat \<times> nat" where
  "get_partition_range H pid =
     (let split_partition = hc_vertices H mod hc_parts H;
          partition_size = hc_vertices H div hc_parts H + 1 in
      if pid < split_partition then (pid * partition_size, (pid + 1) * partition_size)
      else
        let split_point = split_partition * partition_size in
        (split_point + (pid - split_partition) * (partition_size - 1),
         split_point + (pid - split_partition + 1) * (partition_size - 1)))"

section \<open>Commands\<close>

type_synonym 'd world = "hmb_device \<times> 'd"

type_synonym 'd submit = "nat \<Rightarrow> u16 \<Rightarrow> PROC_EDGE \<Rightarrow> 'd world \<Rightarrow> (int \<times> 'd world) option"

definition proc_edge_struct :: "host_cfg \<Rightarrow> nat \<Rightarrow> nat \<Rightarrow> nat \<Rightarrow> nat \<Rightarrow> nat \<Rightarrow> u32 \<Rightarrow> u32 \<Rightarrow> u32 \<Rightarrow> PROC_EDGE" where
  "proc_edge_struct H r c cid it num_iter fvc prefetching overlap =
     \<lparr>outdegree_slba = hc_outdegree_slba H, edge_block_slba = hc_slba H r c cid, edge_block_len = hc_length H r c cid,
      iter = of_nat it, num_iters = of_nat num_iter, is_fvc = fvc, is_prefetching = prefetching,
      row_overlap = overlap, cost_modeling = hc_cost_modeling H, algorithm = hc_algorithm H, nsid = 0,
      pe_r = of_nat r, pe_c = of_nat c, csd_id = of_nat cid, num_partitions = of_nat (hc_parts H),
      num_csds = of_nat (hc_csds H), num_vertices = of_nat (hc_vertices H), nsecs_target = 0\<rparr>"

text \<open>\<^verbatim>\<open>ret = send_proc_edge(...); if (ret < 0) { cleanup(buffer); return -1; }\<close>\<close>

definition send_proc_edge ::
  "'d submit \<Rightarrow> host_cfg \<Rightarrow> u16 \<Rightarrow> nat \<Rightarrow> nat \<Rightarrow> nat \<Rightarrow> nat \<Rightarrow> nat \<Rightarrow> u32 \<Rightarrow> u32 \<Rightarrow> u32 \<Rightarrow> 'd world \<Rightarrow> 'd world res" where
  "send_proc_edge submit H is_sync r c cid it num_iter fvc prefetching overlap w =
     (case submit cid is_sync (proc_edge_struct H r c cid it num_iter fvc prefetching overlap) w of
        None \<Rightarrow> None
      | Some (ret, w) \<Rightarrow> if ret < 0 then Some (Inl (-1)) else Some (Inr w))"

text \<open>\<^verbatim>\<open>for (csd_id ...) send_proc_edge(r, c, csd_id, iter, num_iter, SYNC, is_fvc, false, false)\<close>\<close>

definition send_block ::
  "'d submit \<Rightarrow> host_cfg \<Rightarrow> nat \<Rightarrow> nat \<Rightarrow> nat \<Rightarrow> nat \<Rightarrow> u32 \<Rightarrow> 'd world \<Rightarrow> 'd world res" where
  "send_block submit H r c it num_iter fvc =
     for_each (\<lambda>cid. send_proc_edge submit H SYNC r c cid it num_iter fvc 0 0) [0..<hc_csds H]"

definition block_id :: "host_cfg \<Rightarrow> nat \<Rightarrow> nat \<Rightarrow> nat \<Rightarrow> int" where
  "block_id H r c cid = int (cid * hc_parts H * hc_parts H + r * hc_parts H + c)"

definition aggr_edge_block :: "host_cfg \<Rightarrow> nat \<Rightarrow> nat \<Rightarrow> bool \<Rightarrow> 'd world \<Rightarrow> 'd world res" where
  "aggr_edge_block H r c is_normal w =
     (if list_all (\<lambda>cid. (if is_normal then done1 (fst w) else done2 (fst w)) (block_id H r c cid)) [0..<hc_csds H]
      then Some (Inr w) else None)"

definition aggr_partition :: "host_cfg \<Rightarrow> nat \<Rightarrow> 'd world \<Rightarrow> 'd world res" where
  "aggr_partition H c w =
     (if list_all (\<lambda>r. list_all (\<lambda>cid. done1 (fst w) (block_id H r c cid)) [0..<hc_csds H]) [0..<hc_parts H]
      then Some (Inr w) else None)"

section \<open>Aggregation\<close>

text \<open>The cell of vertex \<open>v\<close> in the slice of device \<open>cid\<close>.\<close>

definition slice :: "host_cfg \<Rightarrow> nat \<Rightarrow> nat \<Rightarrow> int" where
  "slice H v cid = int v + (int cid + 1) * int (hc_vertices H)"

text \<open>\<^verbatim>\<open>for (csd_id ...) { buf[v] += buf[v + (csd_id + 1) * num_vertices]; buf[...] = 0.0; }\<close>\<close>

definition sum_slices :: "host_cfg \<Rightarrow> nat \<Rightarrow> vtx_array \<Rightarrow> vtx_array" where
  "sum_slices H v b =
     fold (\<lambda>cid b. b(int v := hc_fl H (b (int v) + b (slice H v cid)), slice H v cid := 0)) [0..<hc_csds H] b"

definition label_slices :: "host_cfg \<Rightarrow> nat \<Rightarrow> vtx_array \<Rightarrow> vtx_array" where
  "label_slices H v b =
     fold (\<lambda>cid b.
       let s0 = freq0 (b (slice H v cid)); s1 = freq1 (b (slice H v cid));
           d0 = freq0 (b (int v)); d1 = freq1 (b (int v));
           b = b(slice H v cid := 0)
       in b(int v := pack_freq (hc_fl H) (d0 + s0) (d1 + s1))) [0..<hc_csds H] b"

definition dispersion_slices :: "host_cfg \<Rightarrow> nat \<Rightarrow> vtx_array \<Rightarrow> vtx_array" where
  "dispersion_slices H v b =
     fold (\<lambda>cid b.
       let b = (if b (slice H v cid) = 1 then b(int v := 1) else b) in b(slice H v cid := 0)) [0..<hc_csds H] b"

definition conv_partition :: "host_cfg \<Rightarrow> nat \<Rightarrow> hmb_device \<Rightarrow> hmb_device" where
  "conv_partition H pid hmb =
     (let vs = [fst (get_partition_range H pid)..<snd (get_partition_range H pid)];
          fl = hc_fl H;
          b = (if hc_algorithm H = 0 then
                 fold (\<lambda>v b. b(int v := fl (fl (3 / 20) + fl (fl (17 / 20) * b (int v))))) vs (fold (sum_slices H) vs (buf1 hmb))
               else if hc_algorithm H = 1 then fold (label_slices H) vs (buf1 hmb)
               else fold (dispersion_slices H) vs (buf1 hmb))
      in hmb\<lparr>buf1 := b, done_partition := (done_partition hmb)(int pid := True)\<rparr>)"

text \<open>The aggregation of future values in the second loop, which is the same for every algorithm.\<close>

definition aggr_future :: "host_cfg \<Rightarrow> nat \<Rightarrow> hmb_device \<Rightarrow> hmb_device" where
  "aggr_future H pid hmb =
     hmb\<lparr>buf2 := fold (sum_slices H) [fst (get_partition_range H pid)..<snd (get_partition_range H pid)] (buf2 hmb)\<rparr>"

definition end_of_iter_replacing :: "host_cfg \<Rightarrow> hmb_device \<Rightarrow> hmb_device" where
  "end_of_iter_replacing H hmb =
     (let vtx = (\<lambda>x. 0 \<le> x \<and> x < int (hc_vertices H));
          flag = (\<lambda>i. 0 \<le> i \<and> i < int (hc_csds H * hc_parts H * hc_parts H));
          part = (\<lambda>i. 0 \<le> i \<and> i < int (hc_parts H) \<or>
                       int (hc_parts H) + 1 \<le> i \<and> i \<le> int (hc_parts H) + int (hc_csds H)) in
      hmb\<lparr>buf0 := (\<lambda>x. if vtx x then buf1 hmb x else buf0 hmb x),
          buf1 := (\<lambda>x. if vtx x then buf2 hmb x else buf1 hmb x),
          buf2 := (\<lambda>x. if vtx x then 0 else buf2 hmb x),
          done1 := (\<lambda>i. if flag i then done2 hmb i else done1 hmb i),
          done2 := (\<lambda>i. if flag i then False else done2 hmb i),
          done_partition := (\<lambda>i. if part i then False else done_partition hmb i)\<rparr>)"

definition on_hmb :: "(hmb_device \<Rightarrow> hmb_device) \<Rightarrow> 'd world \<Rightarrow> 'd world res" where
  "on_hmb f w = Some (Inr (f (fst w), snd w))"

text \<open>The part of \<^verbatim>\<open>init_csds_data\<close> that prepares the host memory buffer.\<close>

definition init_hmb :: "host_cfg \<Rightarrow> hmb_device \<Rightarrow> hmb_device" where
  "init_hmb H hmb =
     (let n = int (hc_vertices H);
          cell = (\<lambda>x. 0 \<le> x \<and> x < n * (int (hc_csds H) + 1));
          zero = (\<lambda>b x. if cell x then 0 else b x);
          flag = (\<lambda>i. 0 \<le> i \<and> i < int (hc_csds H * hc_parts H * hc_parts H)) in
      hmb\<lparr>buf0 := (if hc_algorithm H = 0 then (\<lambda>x. if 0 \<le> x \<and> x < n then 1 else zero (buf0 hmb) x)
                   else if hc_algorithm H = 1 then zero (buf0 hmb)
                   else (\<lambda>x. if 0 \<le> x \<and> x < n \<and> x mod 100000 = 0 then 1 else zero (buf0 hmb) x)),
          buf1 := zero (buf1 hmb), buf2 := zero (buf2 hmb),
          done1 := (\<lambda>i. if flag i then False else done1 hmb i),
          done2 := (\<lambda>i. if flag i then False else done2 hmb i),
          done_partition := (\<lambda>i. if 0 \<le> i \<and> i < int (hc_parts H) then False else done_partition hmb i)\<rparr>)"

section \<open>The loops\<close>

definition flush_csd_dram :: "'d submit \<Rightarrow> host_cfg \<Rightarrow> 'd world \<Rightarrow> 'd world res" where
  "flush_csd_dram submit H w =
     rbind (for_each (\<lambda>cid w.
         rbind (on_hmb (\<lambda>hmb. hmb\<lparr>done2 := (done2 hmb)(int cid := False)\<rparr>) w)
           (send_proc_edge submit H FLUSH_CSD_DRAM 0 0 cid 0 0 0 0 0)) [0..<hc_csds H] w)
       (\<lambda>w. if list_all (\<lambda>cid. done2 (fst w) (int cid)) [0..<hc_csds H] then Some (Inr w) else None)"

definition normal_column :: "'d submit \<Rightarrow> host_cfg \<Rightarrow> nat \<Rightarrow> nat \<Rightarrow> nat \<Rightarrow> 'd world \<Rightarrow> 'd world res" where
  "normal_column submit H it num_iter c w =
     rbind (for_each (\<lambda>r w.
         rbind (send_block submit H r c it num_iter 0 w) (aggr_edge_block H r c True)) [0..<hc_parts H] w)
       (on_hmb (conv_partition H c))"

definition csd_proc_edge_loop_normal :: "'d submit \<Rightarrow> host_cfg \<Rightarrow> nat \<Rightarrow> 'd world \<Rightarrow> 'd world res" where
  "csd_proc_edge_loop_normal submit H num_iter w =
     rbind (for_each (\<lambda>it w.
         rbind (for_each (normal_column submit H it num_iter) [0..<hc_parts H] w)
           (on_hmb (end_of_iter_replacing H))) [0..<num_iter] w)
       (flush_csd_dram submit H)"

text \<open>One block of a column: its normal values, then, when asked for, its future values.\<close>

definition grafu_block :: "'d submit \<Rightarrow> host_cfg \<Rightarrow> nat \<Rightarrow> nat \<Rightarrow> nat \<Rightarrow> bool \<Rightarrow> nat \<Rightarrow> 'd world \<Rightarrow> 'd world res" where
  "grafu_block submit H it num_iter c future r w =
     rbind (rbind (send_block submit H r c it num_iter 0 w) (aggr_edge_block H r c True))
       (\<lambda>w. if future then rbind (send_block submit H r c (it + 1) num_iter 1 w) (aggr_edge_block H r c False)
            else Some (Inr w))"

definition grafu_even_column :: "'d submit \<Rightarrow> host_cfg \<Rightarrow> nat \<Rightarrow> nat \<Rightarrow> nat \<Rightarrow> 'd world \<Rightarrow> 'd world res" where
  "grafu_even_column submit H it num_iter c w =
     rbind (for_each (\<lambda>r w.
         if 0 < it \<and> c < r then Some (Inr w)
         else grafu_block submit H it num_iter c (r < c \<and> it \<noteq> num_iter - 1) r w) [0..<hc_parts H] w)
       (\<lambda>w. rbind (on_hmb (conv_partition H c) w)
         (\<lambda>w. if it \<noteq> num_iter - 1 then
                rbind (rbind (send_block submit H c c (it + 1) num_iter 1 w) (aggr_edge_block H c c False))
                  (on_hmb (aggr_future H c))
              else Some (Inr w)))"

definition grafu_odd_column :: "'d submit \<Rightarrow> host_cfg \<Rightarrow> nat \<Rightarrow> nat \<Rightarrow> nat \<Rightarrow> 'd world \<Rightarrow> 'd world res" where
  "grafu_odd_column submit H it num_iter c w =
     rbind (for_each (\<lambda>r w.
         if r \<le> c then Some (Inr w)
         else grafu_block submit H it num_iter c (it \<noteq> num_iter - 1) r w) (rev [0..<hc_parts H]) w)
       (\<lambda>w. rbind (on_hmb (conv_partition H c) w)
         (\<lambda>w. if it \<noteq> num_iter - 1 then on_hmb (aggr_future H c) w else Some (Inr w)))"

definition csd_proc_edge_loop_grafu :: "'d submit \<Rightarrow> host_cfg \<Rightarrow> nat \<Rightarrow> 'd world \<Rightarrow> 'd world res" where
  "csd_proc_edge_loop_grafu submit H num_iter w =
     rbind (for_each (\<lambda>it w.
         rbind (if even it then for_each (grafu_even_column submit H it num_iter) [0..<hc_parts H] w
                else for_each (grafu_odd_column submit H it num_iter) (rev [0..<hc_parts H]) w)
           (on_hmb (end_of_iter_replacing H))) [0..<num_iter] w)
       (flush_csd_dram submit H)"

section \<open>Partitions tile the vertices\<close>

definition part_lo :: "host_cfg \<Rightarrow> nat \<Rightarrow> nat" where
  "part_lo H c = c * (hc_vertices H div hc_parts H) + min c (hc_vertices H mod hc_parts H)"

lemma get_partition_range_lo: "get_partition_range H c = (part_lo H c, part_lo H (Suc c))"
proof (cases "c < hc_vertices H mod hc_parts H")
  case True
  then show ?thesis by (simp add: get_partition_range_def part_lo_def Let_def)
next
  case False
  let ?m = "hc_vertices H mod hc_parts H" and ?q = "hc_vertices H div hc_parts H"
  obtain k where k: "c = ?m + k" using False by (metis le_iff_add not_less)
  have "min c ?m = ?m" "min (Suc c) ?m = ?m" using False by auto
  then show ?thesis unfolding get_partition_range_def part_lo_def Let_def
    using False k by (simp add: algebra_simps)
qed

lemma part_lo_0 [simp]: "part_lo H 0 = 0"
  by (simp add: part_lo_def)

lemma part_lo_parts: "0 < hc_parts H \<Longrightarrow> part_lo H (hc_parts H) = hc_vertices H"
  using mod_less_divisor [of "hc_parts H" "hc_vertices H"] by (simp add: part_lo_def min_absorb2 less_imp_le)

lemma part_lo_mono: "c \<le> c' \<Longrightarrow> part_lo H c \<le> part_lo H c'"
  unfolding part_lo_def by (intro add_mono mult_le_mono1) auto

definition rng :: "host_cfg \<Rightarrow> nat \<Rightarrow> int set" where
  "rng H c = {int (part_lo H c)..<int (part_lo H (Suc c))}"

lemma rng_disjoint:
  assumes "c \<noteq> c'"
  shows "rng H c \<inter> rng H c' = {}"
proof -
  have "rng H a \<inter> rng H b = {}" if "a < b" for a b
    using part_lo_mono [of "Suc a" b H] that by (auto simp: rng_def)
  then show ?thesis using assms by (metis Int_commute nat_neq_iff)
qed

lemma rng_unique: "v \<in> rng H c \<Longrightarrow> v \<in> rng H c' \<longleftrightarrow> c = c'"
  using rng_disjoint by blast

lemma rng_union_upto: "(\<Union>c < k. rng H c) = {0..<int (part_lo H k)}"
proof (induction k)
  case (Suc k)
  have "{0..<int (part_lo H k)} \<union> rng H k = {0..<int (part_lo H (Suc k))}"
    using part_lo_mono [of k "Suc k" H] unfolding rng_def by (simp add: ivl_disj_un_two(3))
  then show ?case using Suc by (simp add: lessThan_Suc Un_commute)
qed simp

lemma rng_union: "0 < hc_parts H \<Longrightarrow> (\<Union>c < hc_parts H. rng H c) = {0..<int (hc_vertices H)}"
  by (simp add: rng_union_upto part_lo_parts)

lemma rng_vertex:
  assumes "0 < hc_parts H" and "0 \<le> v" and "v < int (hc_vertices H)"
  obtains c where "c < hc_parts H" and "v \<in> rng H c"
  using rng_union [OF assms(1)] assms(2,3) by (metis (no_types, lifting) UN_E atLeastLessThan_iff lessThan_iff)

lemma rng_bounds:
  assumes "0 < hc_parts H" and "c < hc_parts H" and "v \<in> rng H c"
  shows "0 \<le> v" "v < int (hc_vertices H)"
proof -
  have "v \<in> {0..<int (hc_vertices H)}" using rng_union [OF assms(1)] assms(2,3) by blast
  then show "0 \<le> v" "v < int (hc_vertices H)" by simp_all
qed

section \<open>Results\<close>

lemma rbind_simps [simp]:
  "rbind (Some (Inr s)) f = f s" "rbind (Some (Inl e)) f = Some (Inl e)" "rbind None f = None"
  by (simp_all add: rbind_def)

text \<open>A loop whose body always succeeds and simulates a function on abstract states.\<close>

lemma for_each_sim:
  assumes "\<And>x w a. x \<in> set xs \<Longrightarrow> R w a \<Longrightarrow> \<exists>w'. f x w = Some (Inr w') \<and> R w' (g x a)" and "R w a"
  shows "\<exists>w'. for_each f xs w = Some (Inr w') \<and> R w' (fold g xs a)"
  using assms
proof (induction xs arbitrary: w a)
  case (Cons x xs)
  obtain w1 where w1: "f x w = Some (Inr w1)" "R w1 (g x a)" using Cons.prems by (meson list.set_intros(1))
  have "\<exists>w'. for_each f xs w1 = Some (Inr w') \<and> R w' (fold g xs (g x a))"
    using Cons.prems(1) w1(2) by (intro Cons.IH) auto
  then show ?case using w1 by simp
qed simp

lemma rbind_sim:
  assumes "\<exists>w'. m = Some (Inr w') \<and> R w' a" and "\<And>w'. R w' a \<Longrightarrow> \<exists>w''. f w' = Some (Inr w'') \<and> S w'' b"
  shows "\<exists>w'. rbind m f = Some (Inr w') \<and> S w' b"
  using assms by auto

section \<open>The transport\<close>

text \<open>
  What the host relies on when it submits a command: the device runs it to its end. The device keeps
  state of its own, which the host never sees.
\<close>

locale csd_transport =
  fixes submit :: "(nat \<Rightarrow> csd_env) \<Rightarrow> 'd submit"
  assumes submit_sync:
    "(\<And>i. env_live (E i)) \<Longrightarrow> num_partitions t \<noteq> 0 \<Longrightarrow> nsid t = 0 \<Longrightarrow>
      \<exists>d'. submit E cid SYNC t (hmb, d) = Some (0, set_done t (proc_task_edges (E cid) t hmb), d')"
    and submit_flush:
    "(\<And>i. env_live (E i)) \<Longrightarrow> num_partitions t \<noteq> 0 \<Longrightarrow>
      \<exists>hmb' d'. submit E cid FLUSH_CSD_DRAM t (hmb, d) = Some (0, hmb', d') \<and>
        buf0 hmb' = buf0 hmb \<and> done2 hmb' = (done2 hmb)(sint (csd_id t) := True)"

text \<open>
  The devices of the model behind the \<^verbatim>\<open>ioctl\<close>: device \<open>cid\<close> runs the command in its own state, on its
  first namespace, with the flash time \<open>nt\<close> that its dispatcher computed.
\<close>

definition dev_submit :: "rat \<Rightarrow> (PROC_EDGE \<Rightarrow> u64) \<Rightarrow> (nat \<Rightarrow> csd_env) \<Rightarrow> (nat \<Rightarrow> csd_dev) submit" where
  "dev_submit nan nt E cid flag t w =
     (case run_edge_cmd (E cid) nan flag (t\<lparr>nsid := 0, nsecs_target := nt t\<rparr>) (fst w) (snd w cid) of
        None \<Rightarrow> None
      | Some (hmb, d) \<Rightarrow> Some (0, hmb, (snd w)(cid := d)))"

interpretation dev: csd_transport "dev_submit nan nt"
proof
  fix E :: "nat \<Rightarrow> csd_env" and t :: PROC_EDGE and cid hmb and d :: "nat \<Rightarrow> csd_dev"
  assume live: "\<And>i. env_live (E i)" and np: "num_partitions t \<noteq> 0"
  let ?t = "t\<lparr>nsid := 0, nsecs_target := nt t\<rparr>"
  have np': "num_partitions ?t \<noteq> 0" using np by simp
  show "\<exists>d'. dev_submit nan nt E cid SYNC t (hmb, d) = Some (0, set_done t (proc_task_edges (E cid) t hmb), d')"
    if "nsid t = 0"
  proof -
    have "t\<lparr>nsid := 0\<rparr> = t" using that by simp
    then have eq: "set_done ?t (proc_task_edges (E cid) ?t hmb) = set_done t (proc_task_edges (E cid) t hmb)"
      by (simp only: proc_task_edges_time set_done_upd)
    obtain hmb' d' where "run_edge_cmd (E cid) nan SYNC ?t hmb (d cid) = Some (hmb', d')"
      "hmb' = set_done ?t (proc_task_edges (E cid) ?t hmb)"
      using run_edge_cmd_live [OF live [of cid] np', of nan SYNC hmb "d cid"] by blast
    then show ?thesis unfolding eq by (simp add: dev_submit_def)
  qed
  show "\<exists>hmb' d'. dev_submit nan nt E cid FLUSH_CSD_DRAM t (hmb, d) = Some (0, hmb', d') \<and>
        buf0 hmb' = buf0 hmb \<and> done2 hmb' = (done2 hmb)(sint (csd_id t) := True)"
    by (simp add: dev_submit_def run_edge_cmd_def SYNC_def ASYNC_def FLUSH_CSD_DRAM_def flush_csd_def)
qed

section \<open>The abstract state of a PageRank iteration\<close>

text \<open>The three vertex arrays and, for the two that devices write, the sum of the devices' slices.\<close>

record astate =
  a0 :: vtx_array
  a1 :: vtx_array
  a2 :: vtx_array
  t1 :: vtx_array
  t2 :: vtx_array

definition arr_rep :: "host_cfg \<Rightarrow> vtx_array \<Rightarrow> vtx_array \<Rightarrow> vtx_array \<Rightarrow> bool" where
  "arr_rep H b f t \<longleftrightarrow>
     (\<forall>v < hc_vertices H. b (int v) = f (int v) \<and> (\<Sum>cid < hc_csds H. b (slice H v cid)) = t (int v))"

definition hrep :: "host_cfg \<Rightarrow> hmb_device \<Rightarrow> astate \<Rightarrow> bool" where
  "hrep H hmb a \<longleftrightarrow> (\<forall>v < hc_vertices H. buf0 hmb (int v) = a0 a (int v)) \<and>
     arr_rep H (buf1 hmb) (a1 a) (t1 a) \<and> arr_rep H (buf2 hmb) (a2 a) (t2 a)"

lemma slice_inj:
  assumes "v < hc_vertices H" and "v' < hc_vertices H"
  shows "slice H v cid = slice H v' cid' \<longleftrightarrow> v = v' \<and> cid = cid'"
proof
  assume eq: "slice H v cid = slice H v' cid'"
  have "slice H v cid div int (hc_vertices H) = int cid + 1" "slice H v' cid' div int (hc_vertices H) = int cid' + 1"
    using assms by (simp_all add: slice_def)
  then show "v = v' \<and> cid = cid'" using eq by (simp add: slice_def)
qed simp

lemma slice_vertex [simp]:
  assumes "v' < hc_vertices H"
  shows "slice H v cid \<noteq> int v'" "int v' \<noteq> slice H v cid"
proof -
  have "int (hc_vertices H) \<le> slice H v cid"
    unfolding slice_def using mult_right_mono [of 1 "int cid + 1" "int (hc_vertices H)"] by simp
  then show "slice H v cid \<noteq> int v'" "int v' \<noteq> slice H v cid" using assms by linarith+
qed

text \<open>Adding up and clearing the slices of one vertex.\<close>

lemma sum_slices_closed:
  assumes "hc_fl H = id" and "v < hc_vertices H"
  shows "sum_slices H v b x =
    (if x = int v then b (int v) + (\<Sum>cid < hc_csds H. b (slice H v cid))
     else if \<exists>cid < hc_csds H. x = slice H v cid then 0 else b x)"
proof -
  have "fold (\<lambda>cid b. b(int v := hc_fl H (b (int v) + b (slice H v cid)), slice H v cid := 0)) [0..<k] b x =
    (if x = int v then b (int v) + (\<Sum>cid < k. b (slice H v cid))
     else if \<exists>cid < k. x = slice H v cid then 0 else b x)" for k x
  proof (induction k arbitrary: x)
    case (Suc k)
    have "\<not> (\<exists>cid < k. slice H v k = slice H v cid)" by (auto simp: slice_inj [OF assms(2) assms(2)])
    then show ?case using Suc [of "int v"] Suc [of "slice H v k"] Suc [of x] assms
      by (auto simp: less_Suc_eq fun_upd_apply)
  qed simp
  then show ?thesis by (simp add: sum_slices_def)
qed

lemma sum_slices_rep:
  assumes "hc_fl H = id" and "v < hc_vertices H" and "arr_rep H b f t"
  shows "arr_rep H (sum_slices H v b) (f(int v := f (int v) + t (int v))) (t(int v := 0))"
  unfolding arr_rep_def
proof (intro allI impI conjI)
  fix v' assume v': "v' < hc_vertices H"
  show "sum_slices H v b (int v') = (f(int v := f (int v) + t (int v))) (int v')"
    using assms v' by (auto simp: sum_slices_closed arr_rep_def)
  have "(\<Sum>cid < hc_csds H. sum_slices H v b (slice H v' cid)) =
      (\<Sum>cid < hc_csds H. if v' = v then 0 else b (slice H v' cid))"
    by (rule sum.cong) (use assms v' in \<open>auto simp: sum_slices_closed slice_inj\<close>)
  then show "(\<Sum>cid < hc_csds H. sum_slices H v b (slice H v' cid)) = (t(int v := 0)) (int v')"
    using assms(3) v' by (auto simp: arr_rep_def)
qed

lemma sum_slices_fold_rep:
  assumes "hc_fl H = id" and "arr_rep H b f t" and "hi \<le> hc_vertices H"
  shows "arr_rep H (fold (sum_slices H) [lo..<hi] b)
    (\<lambda>x. if x \<in> {int lo..<int hi} then f x + t x else f x) (\<lambda>x. if x \<in> {int lo..<int hi} then 0 else t x)"
  using assms(3)
proof (induction hi)
  case 0
  then show ?case using assms(2) by (simp add: arr_rep_def)
next
  case (Suc hi)
  show ?case
  proof (cases "lo \<le> hi")
    case True
    have "arr_rep H (fold (sum_slices H) [lo..<hi] b)
      (\<lambda>x. if x \<in> {int lo..<int hi} then f x + t x else f x) (\<lambda>x. if x \<in> {int lo..<int hi} then 0 else t x)"
      using Suc by simp
    from sum_slices_rep [OF assms(1) _ this, of hi] True Suc.prems
    show ?thesis unfolding arr_rep_def by (auto simp: fun_upd_apply)
  next
    case False
    then show ?thesis using assms(2) by (simp add: arr_rep_def)
  qed
qed

section \<open>The graph on the devices\<close>

text \<open>The part of edge block \<open>(r, c)\<close> that device \<open>cid\<close> stores, and the whole block.\<close>

definition blk :: "host_cfg \<Rightarrow> (nat \<Rightarrow> csd_env) \<Rightarrow> nat \<Rightarrow> nat \<Rightarrow> nat \<Rightarrow> (int \<times> int) list" where
  "blk H E r c cid = block_edges (e_storage (E cid) 0) (uint (hc_slba H r c cid)) (uint (hc_length H r c cid))"

definition outdeg :: "host_cfg \<Rightarrow> (nat \<Rightarrow> csd_env) \<Rightarrow> nat \<Rightarrow> int \<Rightarrow> int" where
  "outdeg H E cid = block_outdegree (e_storage (E cid) 0) (uint (hc_outdegree_slba H))"

definition block_all :: "host_cfg \<Rightarrow> (nat \<Rightarrow> csd_env) \<Rightarrow> nat \<Rightarrow> nat \<Rightarrow> (int \<times> int) list" where
  "block_all H E r c = concat (map (blk H E r c) [0..<hc_csds H])"

definition all_edges :: "host_cfg \<Rightarrow> (nat \<Rightarrow> csd_env) \<Rightarrow> (int \<times> int) list" where
  "all_edges H E = concat (map (\<lambda>c. concat (map (\<lambda>r. block_all H E r c) [0..<hc_parts H])) [0..<hc_parts H])"

text \<open>
  The devices hold a graph with out-degrees \<open>od\<close>: an edge of block \<open>(r, c)\<close> goes from partition \<open>r\<close> to
  partition \<open>c\<close>, and every device has the out-degrees of all vertices.
\<close>

definition graph_ok :: "host_cfg \<Rightarrow> (nat \<Rightarrow> csd_env) \<Rightarrow> (int \<Rightarrow> int) \<Rightarrow> bool" where
  "graph_ok H E od \<longleftrightarrow> (\<forall>cid < hc_csds H.
     (\<forall>u. 0 \<le> u \<and> u < int (hc_vertices H) \<longrightarrow> outdeg H E cid u = od u) \<and>
     (\<forall>r < hc_parts H. \<forall>c < hc_parts H. \<forall>(u, v) \<in> set (blk H E r c cid). u \<in> rng H r \<and> v \<in> rng H c \<and> od u \<noteq> 0))"

text \<open>PageRank in exact arithmetic, on a configuration whose block numbers fit an \<^verbatim>\<open>int\<close>.\<close>

definition exact_run :: "host_cfg \<Rightarrow> (nat \<Rightarrow> csd_env) \<Rightarrow> bool" where
  "exact_run H E \<longleftrightarrow> hc_algorithm H = 0 \<and> hc_fl H = id \<and> (\<forall>i. env_live (E i)) \<and> (\<forall>i. e_fl (E i) = id) \<and>
     0 < hc_parts H \<and> hc_vertices H < 2 ^ 31 \<and> hc_csds H * hc_parts H * hc_parts H < 2 ^ 31"

section \<open>One command in the abstract state\<close>

lemma contrib_cong2:
  assumes "\<forall>(u, w) \<in> set es. src u = src' u \<and> od u = od' u"
  shows "contrib od src es v = contrib od' src' es v"
  using assms by (induction es) auto

lemma slice_offset:
  assumes "v < hc_vertices H" and "0 \<le> w" and "w < int (hc_vertices H)"
  shows "slice H v cid' - (int cid + 1) * int (hc_vertices H) = w \<longleftrightarrow> cid' = cid \<and> int v = w"
proof -
  have "slice H v cid' - (int cid + 1) * int (hc_vertices H) = w \<longleftrightarrow> slice H v cid' = slice H (nat w) cid"
    using assms by (auto simp: slice_def)
  also have "\<dots> \<longleftrightarrow> v = nat w \<and> cid' = cid" using assms by (intro slice_inj) auto
  finally show ?thesis using assms by auto
qed

lemma arr_rep_kernel:
  assumes rep: "arr_rep H b f t" and cid: "cid < hc_csds H"
    and es: "\<forall>(u, w) \<in> set es. 0 \<le> w \<and> w < int (hc_vertices H)"
    and src: "\<forall>(u, w) \<in> set es. src u = src' u \<and> od' u = od u"
  shows "arr_rep H (proc_edges id 0 od' es src ((int cid + 1) * int (hc_vertices H)) b) f (\<lambda>x. t x + contrib od src' es x)"
  unfolding arr_rep_def
proof (intro allI impI conjI)
  let ?off = "(int cid + 1) * int (hc_vertices H)"
  let ?b = "proc_edges id 0 od' es src ?off b"
  have step: "?b x = b x + contrib od src' es (x - ?off)" for x
    using contrib_cong2 [of es src src' od' od "x - ?off"] src by (simp add: proc_edges_def pagerank_fold)
  fix v assume v: "v < hc_vertices H"
  have "1 * int (hc_vertices H) \<le> ?off" by (rule mult_right_mono) simp_all
  then have "int v - ?off < 0" using v by linarith
  then have "contrib od src' es (int v - ?off) = 0" using es by (intro contrib_none) fastforce
  then show "?b (int v) = f (int v)" using rep v by (simp add: step arr_rep_def)
  have c: "contrib od src' es (slice H v cid' - ?off) = (if cid' = cid then contrib od src' es (int v) else 0)" for cid'
  proof (cases "cid' = cid")
    case True
    then show ?thesis by (simp add: slice_def)
  next
    case False
    have "w \<noteq> slice H v cid' - ?off" if "(u, w) \<in> set es" for u w
    proof -
      have "0 \<le> w" "w < int (hc_vertices H)" using es that by auto
      from slice_offset [OF v this, of cid' cid] show ?thesis using False by simp
    qed
    then have "\<forall>(u, w) \<in> set es. w \<noteq> slice H v cid' - ?off" by blast
    from contrib_none [OF this] show ?thesis using False by simp
  qed
  have "(\<Sum>i < hc_csds H. ?b (slice H v i)) =
      (\<Sum>i < hc_csds H. b (slice H v i)) + (\<Sum>i < hc_csds H. if i = cid then contrib od src' es (int v) else 0)"
    by (simp add: step c sum.distrib)
  then show "(\<Sum>i < hc_csds H. ?b (slice H v i)) = t (int v) + contrib od src' es (int v)"
    using rep v cid by (simp add: arr_rep_def)
qed

definition a_cmd :: "(int \<Rightarrow> int) \<Rightarrow> u32 \<Rightarrow> (int \<times> int) list \<Rightarrow> astate \<Rightarrow> astate" where
  "a_cmd od fvc es a =
     (if fvc = 0 then a\<lparr>t1 := (\<lambda>v. t1 a v + contrib od (a0 a) es v)\<rparr>
      else a\<lparr>t2 := (\<lambda>v. t2 a v + contrib od (a1 a) es v)\<rparr>)"

lemma sint_of_nat_u32: "n < 2 ^ 31 \<Longrightarrow> sint (of_nat n :: u32) = int n"
  by (simp add: sint_uint uint_nat unat_of_nat signed_take_bit_int_eq_self)

lemma block_id_bound:
  assumes "hc_csds H * hc_parts H * hc_parts H < 2 ^ 31" and "cid < hc_csds H" and "r < hc_parts H" and "c < hc_parts H"
  shows "cid * hc_parts H * hc_parts H + r * hc_parts H + c < hc_csds H * hc_parts H * hc_parts H"
proof -
  let ?P = "hc_parts H"
  have "r * ?P + c < r * ?P + ?P" using assms(4) by simp
  also have "\<dots> = Suc r * ?P" by simp
  also have "\<dots> \<le> ?P * ?P" using assms(3) by (intro mult_le_mono1) simp
  finally have "cid * ?P * ?P + (r * ?P + c) < Suc cid * ?P * ?P" by (simp add: algebra_simps)
  also have "\<dots> \<le> hc_csds H * ?P * ?P" using assms(2) by (intro mult_le_mono1) simp
  finally show ?thesis by simp
qed

lemma done_id_struct:
  assumes "hc_csds H * hc_parts H * hc_parts H < 2 ^ 31" and "cid < hc_csds H" and "r < hc_parts H" and "c < hc_parts H"
  shows "done_id (proc_edge_struct H r c cid it num_iter fvc pf ov) = block_id H r c cid"
proof -
  let ?n = "cid * hc_parts H * hc_parts H + r * hc_parts H + c"
  have "done_id (proc_edge_struct H r c cid it num_iter fvc pf ov) = sint (of_nat ?n :: u32)"
    by (simp add: done_id_def proc_edge_struct_def)
  moreover have "?n < 2 ^ 31" using block_id_bound [OF assms] assms(1) by (rule less_trans)
  ultimately show ?thesis by (simp only: sint_of_nat_u32 block_id_def)
qed

lemma cfg_bounds:
  assumes "exact_run H E" and "cid < hc_csds H"
  shows "cid < 2 ^ 31" "hc_parts H < 2 ^ 31"
proof -
  have p: "0 < hc_parts H" "hc_csds H * hc_parts H * hc_parts H < 2 ^ 31" using assms by (simp_all add: exact_run_def)
  have "hc_csds H * 1 \<le> hc_csds H * (hc_parts H * hc_parts H)" using p(1) by (intro mult_le_mono2) (simp add: Suc_leI)
  then have "hc_csds H \<le> hc_csds H * hc_parts H * hc_parts H" by (simp only: mult.assoc mult_1_right)
  then show "cid < 2 ^ 31" using assms(2) p(2) by linarith
  have "1 * hc_parts H \<le> hc_csds H * hc_parts H * hc_parts H"
    using p(1) assms(2) by (intro mult_le_mono1) (simp add: Suc_leI)
  then show "hc_parts H < 2 ^ 31" using p(2) by linarith
qed

lemma np_struct:
  assumes run: "exact_run H E" and cid: "cid < hc_csds H"
  shows "num_partitions (proc_edge_struct H r c cid' it num_iter fvc pf ov) \<noteq> 0"
proof -
  have "unat (of_nat (hc_parts H) :: u32) = hc_parts H" using cfg_bounds(2) [OF run cid] by (simp add: unat_of_nat)
  then show ?thesis using run by (auto simp: proc_edge_struct_def exact_run_def)
qed

text \<open>Running a command of the host on the host memory buffer.\<close>

lemma proc_task_rep:
  assumes run: "exact_run H E" and graph: "graph_ok H E od" and cid: "cid < hc_csds H"
    and r: "r < hc_parts H" and c: "c < hc_parts H" and fvc: "fvc = 0 \<or> fvc = 1" and rep: "hrep H hmb a"
  shows "hrep H (proc_task_edges (E cid) (proc_edge_struct H r c cid it num_iter fvc pf ov) hmb) (a_cmd od fvc (blk H E r c cid) a)"
proof -
  let ?t = "proc_edge_struct H r c cid it num_iter fvc pf ov" and ?es = "blk H E r c cid"
  have P: "0 < hc_parts H" using run by (simp add: exact_run_def)
  have "sint (of_nat cid :: u32) = int cid" "sint (of_nat (hc_vertices H) :: u32) = int (hc_vertices H)"
    using cfg_bounds [OF run cid] run by (simp_all only: sint_of_nat_u32 exact_run_def)
  then have off: "hmb_offset ?t = (int cid + 1) * int (hc_vertices H)" by (simp add: hmb_offset_def proc_edge_struct_def)
  have es: "task_edges (E cid) ?t = ?es" by (simp add: task_edges_def proc_edge_struct_def blk_def)
  have e: "u \<in> rng H r" "v \<in> rng H c" if "(u, v) \<in> set ?es" for u v
    using graph that cid r c unfolding graph_ok_def by blast+
  have tgt: "\<forall>(u, w) \<in> set ?es. 0 \<le> w \<and> w < int (hc_vertices H)" using rng_bounds [OF P c] e(2) by auto
  have sb: "0 \<le> u \<and> u < int (hc_vertices H)" if "(u, v) \<in> set ?es" for u v
    using rng_bounds [OF P r] e(1) [OF that] by auto
  have od: "outdeg H E cid u = od u" if "(u, v) \<in> set ?es" for u v
    using graph cid sb [OF that] unfolding graph_ok_def by blast
  have src: "f u = g u" if "\<forall>v < hc_vertices H. f (int v) = g (int v)" "(u, v) \<in> set ?es" for f g :: vtx_array and u v
    using that(1) sb [OF that(2)] by (metis nat_0_le zless_nat_eq_int_zless nat_less_iff)
  have alg: "algorithm ?t = 0" "is_fvc ?t = fvc" "nsid ?t = 0" "outdegree_slba ?t = hc_outdegree_slba H"
    using run by (simp_all add: proc_edge_struct_def exact_run_def)
  have fl: "e_fl (E cid) = id" using run by (simp add: exact_run_def)
  let ?run = "proc_edges id 0 (outdeg H E cid) ?es"
  have pt: "proc_task_edges (E cid) ?t hmb =
      (if fvc = 0 then hmb\<lparr>buf1 := ?run (buf0 hmb) ((int cid + 1) * int (hc_vertices H)) (buf1 hmb)\<rparr>
       else hmb\<lparr>buf2 := ?run (buf1 hmb) ((int cid + 1) * int (hc_vertices H)) (buf2 hmb)\<rparr>)"
    unfolding proc_task_edges_def Let_def es off alg fl outdeg_def [symmetric] ..
  show ?thesis
  proof (cases "fvc = 0")
    case True
    have "\<forall>(u, w) \<in> set ?es. buf0 hmb u = a0 a u \<and> outdeg H E cid u = od u"
      using rep od src [of "buf0 hmb" "a0 a"] by (auto simp: hrep_def)
    from arr_rep_kernel [OF _ cid tgt this] show ?thesis
      using rep unfolding pt a_cmd_def if_P [OF True] hrep_def by simp
  next
    case False
    have "\<forall>(u, w) \<in> set ?es. buf1 hmb u = a1 a u \<and> outdeg H E cid u = od u"
      using rep od src [of "buf1 hmb" "a1 a"] by (auto simp: hrep_def arr_rep_def)
    from arr_rep_kernel [OF _ cid tgt this] show ?thesis
      using rep unfolding pt a_cmd_def if_not_P [OF False] hrep_def by simp
  qed
qed

section \<open>Aggregation in the abstract state\<close>

definition a_conv :: "host_cfg \<Rightarrow> nat \<Rightarrow> astate \<Rightarrow> astate" where
  "a_conv H c a =
     a\<lparr>a1 := (\<lambda>x. if x \<in> rng H c then 3 / 20 + 17 / 20 * (a1 a x + t1 a x) else a1 a x),
       t1 := (\<lambda>x. if x \<in> rng H c then 0 else t1 a x)\<rparr>"

definition a_aggr :: "host_cfg \<Rightarrow> nat \<Rightarrow> astate \<Rightarrow> astate" where
  "a_aggr H c a =
     a\<lparr>a2 := (\<lambda>x. if x \<in> rng H c then a2 a x + t2 a x else a2 a x),
       t2 := (\<lambda>x. if x \<in> rng H c then 0 else t2 a x)\<rparr>"

definition a_replace :: "astate \<Rightarrow> astate" where
  "a_replace a = a\<lparr>a0 := a1 a, a1 := a2 a, a2 := (\<lambda>_. 0)\<rparr>"

lemma fold_map_rep:
  assumes "arr_rep H b f t" and "hi \<le> hc_vertices H"
  shows "arr_rep H (fold (\<lambda>v b. b(int v := g (b (int v)))) [lo..<hi] b) (\<lambda>x. if x \<in> {int lo..<int hi} then g (f x) else f x) t"
  using assms(2)
proof (induction hi)
  case 0
  then show ?case using assms(1) by (simp add: arr_rep_def)
next
  case (Suc hi)
  show ?case
  proof (cases "lo \<le> hi")
    case True
    define B where "B = fold (\<lambda>v b. b(int v := g (b (int v)))) [lo..<hi] b"
    have "arr_rep H B (\<lambda>x. if x \<in> {int lo..<int hi} then g (f x) else f x) t"
      unfolding B_def by (rule Suc.IH) (use Suc.prems in simp)
    moreover have eq: "fold (\<lambda>v b. b(int v := g (b (int v)))) [lo..<Suc hi] b = B(int hi := g (B (int hi)))"
      using True by (simp add: B_def)
    ultimately show ?thesis using True Suc.prems unfolding eq arr_rep_def by (auto simp: less_Suc_eq)
  next
    case False
    then show ?thesis using assms(1) by (simp add: arr_rep_def)
  qed
qed

lemma part_hi_le:
  assumes "0 < hc_parts H" and "c < hc_parts H"
  shows "part_lo H (Suc c) \<le> hc_vertices H"
  using part_lo_mono [of "Suc c" "hc_parts H" H] assms by (simp add: part_lo_parts)

lemma conv_partition_rep:
  assumes run: "exact_run H E" and c: "c < hc_parts H" and rep: "hrep H hmb a"
  shows "hrep H (conv_partition H c hmb) (a_conv H c a)"
proof -
  have P: "0 < hc_parts H" "hc_fl H = id" "hc_algorithm H = 0" using run by (simp_all add: exact_run_def)
  note hi = part_hi_le [OF P(1) c]
  have "arr_rep H (buf1 hmb) (a1 a) (t1 a)" using rep by (simp add: hrep_def)
  from fold_map_rep [OF sum_slices_fold_rep [OF P(2) this hi] hi, of "\<lambda>x. 3 / 20 + 17 / 20 * x" "part_lo H c" "part_lo H c"]
  have "arr_rep H (buf1 (conv_partition H c hmb)) (a1 (a_conv H c a)) (t1 (a_conv H c a))"
    using P unfolding arr_rep_def conv_partition_def Let_def get_partition_range_lo a_conv_def rng_def by simp
  then show ?thesis using rep by (simp add: hrep_def conv_partition_def a_conv_def Let_def)
qed

lemma aggr_future_rep:
  assumes run: "exact_run H E" and c: "c < hc_parts H" and rep: "hrep H hmb a"
  shows "hrep H (aggr_future H c hmb) (a_aggr H c a)"
proof -
  have P: "0 < hc_parts H" "hc_fl H = id" using run by (simp_all add: exact_run_def)
  have "arr_rep H (buf2 hmb) (a2 a) (t2 a)" using rep by (simp add: hrep_def)
  from sum_slices_fold_rep [OF P(2) this part_hi_le [OF P(1) c], of "part_lo H c"]
  show ?thesis using rep by (simp add: hrep_def aggr_future_def a_aggr_def get_partition_range_lo rng_def)
qed

lemma end_of_iter_replacing_rep:
  assumes "hrep H hmb a"
  shows "hrep H (end_of_iter_replacing H hmb) (a_replace a)"
proof -
  have ge: "(slice H v cid < int (hc_vertices H)) = False" for v cid
    unfolding slice_def using mult_right_mono [of 1 "int cid + 1" "int (hc_vertices H)"] by simp
  show ?thesis using assms
    by (simp add: hrep_def arr_rep_def end_of_iter_replacing_def a_replace_def Let_def ge)
qed

lemma set_done_flags:
  "(if is_fvc t = 0 then done1 else done2) (set_done t hmb) = ((if is_fvc t = 0 then done1 else done2) hmb)(done_id t := True)"
  by (simp add: set_done_def)

lemma a_cmd_append: "a_cmd od fvc (es @ fs) a = a_cmd od fvc fs (a_cmd od fvc es a)"
  by (simp add: a_cmd_def add.assoc)

lemma a_cmd_Nil [simp]: "a_cmd od fvc [] a = a"
  by (simp add: a_cmd_def)

lemma for_each_append: "for_each f (xs @ ys) s = rbind (for_each f xs s) (for_each f ys)"
proof (induction xs arbitrary: s)
  case (Cons x xs)
  then show ?case by (cases "f x s") (auto simp: rbind_def split: sum.split option.split)
qed simp

lemma for_each_upt_Suc:
  assumes "for_each f [0..<k] w = Some (Inr w1)"
  shows "for_each f [0..<Suc k] w = f k w1"
  using assms by (cases "f k w1") (auto simp: for_each_append rbind_def split: sum.split)

section \<open>PageRank\<close>

definition kc :: "host_cfg \<Rightarrow> (nat \<Rightarrow> csd_env) \<Rightarrow> (int \<Rightarrow> int) \<Rightarrow> vtx_array \<Rightarrow> nat \<Rightarrow> nat \<Rightarrow> int \<Rightarrow> rat" where
  "kc H E od f r c v = contrib od f (block_all H E r c) v"

text \<open>The reference: one PageRank iteration over all edges of the graph.\<close>

definition pr_step :: "host_cfg \<Rightarrow> (nat \<Rightarrow> csd_env) \<Rightarrow> (int \<Rightarrow> int) \<Rightarrow> vtx_array \<Rightarrow> vtx_array" where
  "pr_step H E od f v = 3 / 20 + 17 / 20 * contrib od f (all_edges H E) v"

lemma contrib_concat: "contrib od f (concat ess) v = (\<Sum>es \<leftarrow> ess. contrib od f es v)"
  by (induction ess) simp_all

lemma block_all_edge:
  assumes "graph_ok H E od" and "r < hc_parts H" and "c < hc_parts H" and "(u, v) \<in> set (block_all H E r c)"
  shows "u \<in> rng H r" "v \<in> rng H c"
  using assms unfolding graph_ok_def block_all_def by fastforce+

lemma kc_outside:
  assumes "graph_ok H E od" and "r < hc_parts H" and "c < hc_parts H" and "v \<notin> rng H c"
  shows "kc H E od f r c v = 0"
  unfolding kc_def by (rule contrib_none) (use block_all_edge [OF assms(1-3)] assms(4) in blast)

lemma kc_cong:
  assumes "graph_ok H E od" and "r < hc_parts H" and "c < hc_parts H" and "\<And>u. u \<in> rng H r \<Longrightarrow> f u = g u"
  shows "kc H E od f r c v = kc H E od g r c v"
  unfolding kc_def by (rule contrib_cong) (use block_all_edge(1) [OF assms(1-3)] assms(4) in blast)

lemma pr_step_column:
  assumes "graph_ok H E od" and "c < hc_parts H" and "v \<in> rng H c"
  shows "pr_step H E od f v = 3 / 20 + 17 / 20 * (\<Sum>r < hc_parts H. kc H E od f r c v)"
proof -
  have "contrib od f (all_edges H E) v = (\<Sum>c' < hc_parts H. \<Sum>r < hc_parts H. kc H E od f r c' v)"
    by (simp add: all_edges_def contrib_concat comp_def kc_def interv_sum_list_conv_sum_set_nat atLeast0LessThan)
  also have "\<dots> = (\<Sum>c' < hc_parts H. if c' = c then \<Sum>r < hc_parts H. kc H E od f r c v else 0)"
  proof (rule sum.cong)
    fix c' assume c': "c' \<in> {..<hc_parts H}"
    show "(\<Sum>r < hc_parts H. kc H E od f r c' v) = (if c' = c then \<Sum>r < hc_parts H. kc H E od f r c v else 0)"
    proof (cases "c' = c")
      case False
      then have "v \<notin> rng H c'" using rng_unique [OF assms(3), of c'] by simp
      then have "kc H E od f r c' v = 0" if "r < hc_parts H" for r using kc_outside [OF assms(1) that] c' by auto
      then show ?thesis using False by simp
    qed simp
  qed simp
  also have "\<dots> = (\<Sum>r < hc_parts H. kc H E od f r c v)" using assms(2) by simp
  finally show ?thesis by (simp add: pr_step_def)
qed

section \<open>Columns in the abstract state\<close>

definition a_block :: "host_cfg \<Rightarrow> (nat \<Rightarrow> csd_env) \<Rightarrow> (int \<Rightarrow> int) \<Rightarrow> nat \<Rightarrow> bool \<Rightarrow> nat \<Rightarrow> astate \<Rightarrow> astate" where
  "a_block H E od c future r a =
     (let a = a_cmd od 0 (block_all H E r c) a in if future then a_cmd od 1 (block_all H E r c) a else a)"

definition a_even :: "host_cfg \<Rightarrow> (nat \<Rightarrow> csd_env) \<Rightarrow> (int \<Rightarrow> int) \<Rightarrow> nat \<Rightarrow> bool \<Rightarrow> nat \<Rightarrow> astate \<Rightarrow> astate" where
  "a_even H E od it fin c a =
     (let a = fold (\<lambda>r a. if 0 < it \<and> c < r then a else a_block H E od c (r < c \<and> \<not> fin) r a) [0..<hc_parts H] a;
          a = a_conv H c a in
      if fin then a else a_aggr H c (a_cmd od 1 (block_all H E c c) a))"

definition a_odd :: "host_cfg \<Rightarrow> (nat \<Rightarrow> csd_env) \<Rightarrow> (int \<Rightarrow> int) \<Rightarrow> bool \<Rightarrow> nat \<Rightarrow> astate \<Rightarrow> astate" where
  "a_odd H E od fin c a =
     (let a = fold (\<lambda>r a. if r \<le> c then a else a_block H E od c (\<not> fin) r a) (rev [0..<hc_parts H]) a;
          a = a_conv H c a in
      if fin then a else a_aggr H c a)"

text \<open>A column adds up the contributions of the blocks it does not skip.\<close>

lemma a_blocks_sum:
  assumes "distinct rs"
  shows "fold (\<lambda>r a. if skip r then a else a_block H E od c (fut r) r a) rs a =
    a\<lparr>t1 := (\<lambda>v. t1 a v + (\<Sum>r | r \<in> set rs \<and> \<not> skip r. kc H E od (a0 a) r c v)),
      t2 := (\<lambda>v. t2 a v + (\<Sum>r | r \<in> set rs \<and> \<not> skip r \<and> fut r. kc H E od (a1 a) r c v))\<rparr>"
  using assms
proof (induction rs arbitrary: a)
  case (Cons x rs)
  have ins: "{r. r \<in> set (x # rs) \<and> Q r} = (if Q x then insert x {r. r \<in> set rs \<and> Q r} else {r. r \<in> set rs \<and> Q r})" for Q
    by auto
  have "x \<notin> {r. r \<in> set rs \<and> Q r}" "finite {r. r \<in> set rs \<and> Q r}" for Q using Cons.prems by auto
  note sm = sum.insert [OF this(2) this(1)]
  have "distinct rs" using Cons.prems by simp
  note IH = Cons.IH [OF this]
  show ?case
  proof (cases "skip x")
    case True
    then show ?thesis using IH unfolding ins by simp
  next
    case False
    then show ?thesis using IH unfolding ins by (simp add: sm a_block_def a_cmd_def kc_def Let_def add.assoc)
  qed
qed simp

text \<open>
  What \<open>a1\<close> holds of column \<open>c\<close> before iteration \<open>it\<close> of the second loop: nothing at first, then the
  contributions that the previous iteration computed ahead, from the blocks on and above the diagonal
  after an even one, from those below it after an odd one.
\<close>

definition ahead :: "host_cfg \<Rightarrow> (nat \<Rightarrow> csd_env) \<Rightarrow> (int \<Rightarrow> int) \<Rightarrow> nat \<Rightarrow> vtx_array \<Rightarrow> nat \<Rightarrow> int \<Rightarrow> rat" where
  "ahead H E od it f c v =
     (if it = 0 then 0 else if odd it then (\<Sum>r \<in> {..c}. kc H E od f r c v)
      else (\<Sum>r \<in> {c<..<hc_parts H}. kc H E od f r c v))"

text \<open>The state between two columns: the columns of \<open>D\<close> are finished.\<close>

definition col_inv ::
  "host_cfg \<Rightarrow> (nat \<Rightarrow> csd_env) \<Rightarrow> (int \<Rightarrow> int) \<Rightarrow> nat \<Rightarrow> bool \<Rightarrow> vtx_array \<Rightarrow> nat set \<Rightarrow> astate \<Rightarrow> bool" where
  "col_inv H E od it fin f D a \<longleftrightarrow> (\<forall>c < hc_parts H. \<forall>v \<in> rng H c. a0 a v = f v \<and> t1 a v = 0 \<and> t2 a v = 0 \<and>
     a1 a v = (if c \<in> D then pr_step H E od f v else ahead H E od it f c v) \<and>
     a2 a v = (if c \<in> D \<and> \<not> fin then ahead H E od (Suc it) (pr_step H E od f) c v else 0))"

lemma sum_below_above:
  assumes "c < (n :: nat)"
  shows "(\<Sum>r \<in> {..c}. f r) + (\<Sum>r \<in> {c<..<n}. f r) = (\<Sum>r < n. f r :: rat)"
proof -
  have "{..c} \<union> {c<..<n} = {..<n}" using assms by auto
  then show ?thesis by (metis finite_atMost finite_greaterThanLessThan sum.union_disjoint ivl_disj_int_one(5) disjoint_iff atMost_iff greaterThanLessThan_iff not_less)
qed

text \<open>The effect of a column, given what it skips and for which blocks it works ahead.\<close>

lemma col_step:
  assumes graph: "graph_ok H E od" and c: "c < hc_parts H" and inv: "col_inv H E od it fin f D a" and nD: "c \<notin> D"
    and N: "N \<subseteq> {..<hc_parts H}" and F: "F \<subseteq> D" "F \<subseteq> {..<hc_parts H}"
    and full: "\<And>v. v \<in> rng H c \<Longrightarrow> ahead H E od it f c v + (\<Sum>r \<in> N. kc H E od f r c v) = (\<Sum>r < hc_parts H. kc H E od f r c v)"
    and b: "b = a_conv H c (a\<lparr>t1 := (\<lambda>v. t1 a v + (\<Sum>r \<in> N. kc H E od (a0 a) r c v)),
              t2 := (\<lambda>v. t2 a v + (\<Sum>r \<in> F. kc H E od (a1 a) r c v))\<rparr>)"
  shows "\<And>c' v. c' < hc_parts H \<Longrightarrow> v \<in> rng H c' \<Longrightarrow> a0 b v = f v \<and> t1 b v = 0 \<and>
      a1 b v = (if c' \<in> insert c D then pr_step H E od f v else ahead H E od it f c' v) \<and> a2 b v = a2 a v \<and>
      t2 b v = (if c' = c then \<Sum>r \<in> F. kc H E od (pr_step H E od f) r c v else 0)"
proof -
  have N': "r < hc_parts H" if "r \<in> N" for r using N that by auto
  have F': "r < hc_parts H" "r \<in> D" if "r \<in> F" for r using F that by auto
  have kn: "kc H E od (a0 a) r c v = kc H E od f r c v" if "r \<in> N" for r v
    using inv N' [OF that] by (intro kc_cong [OF graph _ c]) (auto simp: col_inv_def)
  have kf: "kc H E od (a1 a) r c v = kc H E od (pr_step H E od f) r c v" if "r \<in> F" for r v
    using inv F' [OF that] by (intro kc_cong [OF graph _ c]) (auto simp: col_inv_def)
  fix c' v assume c': "c' < hc_parts H" and v: "v \<in> rng H c'"
  have I: "a0 a v = f v" "t1 a v = 0" "t2 a v = 0"
    "a1 a v = (if c' \<in> D then pr_step H E od f v else ahead H E od it f c' v)"
    using inv c' v unfolding col_inv_def by blast+
  have mem: "v \<in> rng H c \<longleftrightarrow> c' = c" using rng_unique [OF v] by blast
  have z: "kc H E od g r c v = 0" if "c' \<noteq> c" "r < hc_parts H" for g r
    using kc_outside [OF graph that(2) c] mem that(1) by blast
  show "a0 b v = f v \<and> t1 b v = 0 \<and>
      a1 b v = (if c' \<in> insert c D then pr_step H E od f v else ahead H E od it f c' v) \<and> a2 b v = a2 a v \<and>
      t2 b v = (if c' = c then \<Sum>r \<in> F. kc H E od (pr_step H E od f) r c v else 0)"
  proof (cases "c' = c")
    case True
    then have "ahead H E od it f c v + (\<Sum>r \<in> N. kc H E od (a0 a) r c v) = (\<Sum>r < hc_parts H. kc H E od f r c v)"
      using full v kn by simp
    then have "3 / 20 + 17 / 20 * (a1 a v + (\<Sum>r \<in> N. kc H E od (a0 a) r c v)) = pr_step H E od f v"
      using pr_step_column [OF graph c] v True I(4) nD by simp
    then show ?thesis using True I kf mem by (simp add: b a_conv_def)
  next
    case False
    then show ?thesis using I mem z N' F'(1) by (simp add: b a_conv_def)
  qed
qed

lemma a_even_inv:
  assumes graph: "graph_ok H E od" and c: "c < hc_parts H" and ev: "even it" and inv: "col_inv H E od it fin f {..<c} a"
  shows "col_inv H E od it fin f {..<Suc c} (a_even H E od it fin c a)"
proof -
  let ?P = "hc_parts H" and ?pr = "pr_step H E od f"
  define N where "N = {r. r < ?P \<and> \<not> (0 < it \<and> c < r)}"
  define F where "F = (if fin then {} else {..<c})"
  define b where "b = a_conv H c (a\<lparr>t1 := (\<lambda>v. t1 a v + (\<Sum>r \<in> N. kc H E od (a0 a) r c v)),
              t2 := (\<lambda>v. t2 a v + (\<Sum>r \<in> F. kc H E od (a1 a) r c v))\<rparr>)"
  have sets: "{r. r \<in> set [0..<?P] \<and> \<not> (0 < it \<and> c < r)} = N"
    "{r. r \<in> set [0..<?P] \<and> \<not> (0 < it \<and> c < r) \<and> r < c \<and> \<not> fin} = F"
    using c by (auto simp: N_def F_def)
  have fold: "a_even H E od it fin c a = (if fin then b else a_aggr H c (a_cmd od 1 (block_all H E c c) b))"
    unfolding a_even_def Let_def b_def a_blocks_sum [OF distinct_upt] sets ..
  have full: "ahead H E od it f c v + (\<Sum>r \<in> N. kc H E od f r c v) = (\<Sum>r < ?P. kc H E od f r c v)" for v
  proof (cases "it = 0")
    case True
    then have "N = {..<?P}" by (auto simp: N_def)
    then show ?thesis using True by (simp add: ahead_def)
  next
    case False
    then have "N = {..c}" using c by (auto simp: N_def)
    then show ?thesis using False ev sum_below_above [OF c, of "\<lambda>r. kc H E od f r c v"] by (simp add: ahead_def add.commute)
  qed
  have sub: "c \<notin> {..<c}" "N \<subseteq> {..<?P}" "F \<subseteq> {..<c}" "F \<subseteq> {..<?P}" using c by (auto simp: N_def F_def split: if_splits)
  note st = col_step [OF graph c inv sub full b_def]
  have a2: "a2 a v = (if c' < c \<and> \<not> fin then ahead H E od (Suc it) ?pr c' v else 0)" if "c' < ?P" "v \<in> rng H c'" for c' v
    using inv that unfolding col_inv_def by auto
  show ?thesis
  proof (cases fin)
    case True
    then show ?thesis unfolding fold col_inv_def using st a2 by (auto simp: F_def less_Suc_eq)
  next
    case False
    let ?b = "a_aggr H c (a_cmd od 1 (block_all H E c c) b)"
    have diag: "kc H E od (a1 b) c c v = kc H E od ?pr c c v" for v
      using st [OF c] by (intro kc_cong [OF graph c c]) auto
    have "{..c} = insert c {..<c}" by auto
    then have ahd: "(\<Sum>r < c. kc H E od ?pr r c v) + kc H E od ?pr c c v = ahead H E od (Suc it) ?pr c v" for v
      using ev by (simp add: ahead_def add.commute)
    have "a0 ?b v = f v \<and> t1 ?b v = 0 \<and> t2 ?b v = 0 \<and>
       a1 ?b v = (if c' \<in> {..<Suc c} then ?pr v else ahead H E od it f c' v) \<and>
       a2 ?b v = (if c' \<in> {..<Suc c} \<and> \<not> fin then ahead H E od (Suc it) ?pr c' v else 0)"
      if c': "c' < ?P" and v: "v \<in> rng H c'" for c' v
    proof (cases "c' = c")
      case True
      then show ?thesis using st [OF c' v] a2 [OF c' v] v False ahd [of v] diag [of v]
        by (simp add: a_aggr_def a_cmd_def F_def flip: kc_def)
    next
      case neq: False
      then have "v \<notin> rng H c" using rng_unique [OF v, of c] by simp
      then show ?thesis using st [OF c' v] a2 [OF c' v] neq False kc_outside [OF graph c c, of v "a1 b"]
        by (auto simp: a_aggr_def a_cmd_def less_Suc_eq simp flip: kc_def)
    qed
    then show ?thesis unfolding fold col_inv_def using False by simp
  qed
qed

lemma a_odd_inv:
  assumes graph: "graph_ok H E od" and c: "c < hc_parts H" and od: "odd it" and inv: "col_inv H E od it fin f {c<..<hc_parts H} a"
  shows "col_inv H E od it fin f {c..<hc_parts H} (a_odd H E od fin c a)"
proof -
  let ?P = "hc_parts H" and ?pr = "pr_step H E od f"
  define N where "N = {c<..<?P}"
  define F where "F = (if fin then {} else {c<..<?P})"
  define b where "b = a_conv H c (a\<lparr>t1 := (\<lambda>v. t1 a v + (\<Sum>r \<in> N. kc H E od (a0 a) r c v)),
              t2 := (\<lambda>v. t2 a v + (\<Sum>r \<in> F. kc H E od (a1 a) r c v))\<rparr>)"
  have sets: "{r. r \<in> set (rev [0..<?P]) \<and> \<not> r \<le> c} = N" "{r. r \<in> set (rev [0..<?P]) \<and> \<not> r \<le> c \<and> \<not> fin} = F"
    by (auto simp: N_def F_def)
  have dist: "distinct (rev [0..<?P])" by simp
  have fold: "a_odd H E od fin c a = (if fin then b else a_aggr H c b)"
    unfolding a_odd_def Let_def b_def a_blocks_sum [OF dist] sets ..
  have full: "ahead H E od it f c v + (\<Sum>r \<in> N. kc H E od f r c v) = (\<Sum>r < ?P. kc H E od f r c v)" for v
    using od sum_below_above [OF c, of "\<lambda>r. kc H E od f r c v"] by (auto simp: ahead_def N_def)
  have sub: "c \<notin> {c<..<?P}" "N \<subseteq> {..<?P}" "F \<subseteq> {c<..<?P}" "F \<subseteq> {..<?P}"
    by (auto simp: N_def F_def split: if_splits)
  note st = col_step [OF graph c inv sub full b_def]
  have ins: "insert c {c<..<?P} = {c..<?P}" using c by auto
  have a2: "a2 a v = (if c < c' \<and> \<not> fin then ahead H E od (Suc it) ?pr c' v else 0)" if "c' < ?P" "v \<in> rng H c'" for c' v
    using inv that unfolding col_inv_def by auto
  have ahd: "(\<Sum>r \<in> {c<..<?P}. kc H E od ?pr r c v) = ahead H E od (Suc it) ?pr c v" for v
    using od by (simp add: ahead_def)
  show ?thesis unfolding col_inv_def
  proof (intro allI impI ballI)
    fix c' v assume c': "c' < ?P" and v: "v \<in> rng H c'"
    have mem: "v \<in> rng H c \<longleftrightarrow> c' = c" using rng_unique [OF v] by blast
    show "a0 (a_odd H E od fin c a) v = f v \<and> t1 (a_odd H E od fin c a) v = 0 \<and> t2 (a_odd H E od fin c a) v = 0 \<and>
       a1 (a_odd H E od fin c a) v = (if c' \<in> {c..<?P} then ?pr v else ahead H E od it f c' v) \<and>
       a2 (a_odd H E od fin c a) v = (if c' \<in> {c..<?P} \<and> \<not> fin then ahead H E od (Suc it) ?pr c' v else 0)"
      using st [OF c' v] a2 [OF c' v] c' mem ahd [of v] unfolding fold ins
      by (cases fin; cases "c' = c") (auto simp: a_aggr_def F_def)
  qed
qed

lemma fold_upt_inv:
  assumes "\<And>k a. k < n \<Longrightarrow> I k a \<Longrightarrow> I (Suc k) (f k a)" and "I 0 a"
  shows "I n (fold f [0..<n] a)"
proof -
  have "I m (fold f [0..<m] a)" if "m \<le> n" for m using that by (induction m) (auto simp: assms)
  then show ?thesis by simp
qed

lemma fold_rev_upt_inv:
  assumes "\<And>k a. k < n \<Longrightarrow> I (Suc k) a \<Longrightarrow> I k (f k a)" and "I n a"
  shows "I 0 (fold f (rev [0..<n]) a)"
  using assms
proof (induction n arbitrary: a)
  case (Suc n)
  have "I n (f n a)" using Suc.prems by simp
  then have "I 0 (fold f (rev [0..<n]) (f n a))" using Suc.prems(1) by (intro Suc.IH) auto
  then show ?case by simp
qed simp

text \<open>One iteration of the second loop.\<close>

definition a_grafu :: "host_cfg \<Rightarrow> (nat \<Rightarrow> csd_env) \<Rightarrow> (int \<Rightarrow> int) \<Rightarrow> nat \<Rightarrow> nat \<Rightarrow> astate \<Rightarrow> astate" where
  "a_grafu H E od num_iter it a =
     a_replace (if even it then fold (a_even H E od it (it = num_iter - 1)) [0..<hc_parts H] a
                else fold (a_odd H E od (it = num_iter - 1)) (rev [0..<hc_parts H]) a)"

lemma a_grafu_inv:
  assumes graph: "graph_ok H E od" and inv: "col_inv H E od it fin f {} a" and fin: "fin = (it = num_iter - 1)"
  shows "\<exists>b. a_grafu H E od num_iter it a = a_replace b \<and> col_inv H E od it fin f {..<hc_parts H} b"
proof (cases "even it")
  case True
  have "col_inv H E od it fin f {..<hc_parts H} (fold (a_even H E od it fin) [0..<hc_parts H] a)"
    by (rule fold_upt_inv [where I = "\<lambda>k. col_inv H E od it fin f {..<k}"])
      (use inv a_even_inv [OF graph _ True] in auto)
  then show ?thesis using True fin by (auto simp: a_grafu_def)
next
  case False
  have "col_inv H E od it fin f {0..<hc_parts H} (fold (a_odd H E od fin) (rev [0..<hc_parts H]) a)"
    by (rule fold_rev_upt_inv [where I = "\<lambda>k. col_inv H E od it fin f {k..<hc_parts H}"])
      (use inv a_odd_inv [OF graph _ False] in \<open>auto simp: atLeastSucLessThan_greaterThanLessThan\<close>)
  then show ?thesis using False fin by (auto simp: a_grafu_def atLeast0LessThan)
qed

lemma a_replace_inv:
  assumes "col_inv H E od it fin f {..<hc_parts H} b"
  shows "\<not> fin \<Longrightarrow> col_inv H E od (Suc it) fin' (pr_step H E od f) {} (a_replace b)"
    and "c < hc_parts H \<Longrightarrow> v \<in> rng H c \<Longrightarrow> a0 (a_replace b) v = pr_step H E od f v"
  using assms by (auto simp: col_inv_def a_replace_def)

text \<open>One iteration of the first loop: it works on every block and never ahead.\<close>

definition a_normal :: "host_cfg \<Rightarrow> (nat \<Rightarrow> csd_env) \<Rightarrow> (int \<Rightarrow> int) \<Rightarrow> nat \<Rightarrow> astate \<Rightarrow> astate" where
  "a_normal H E od c a = a_conv H c (fold (\<lambda>r. a_cmd od 0 (block_all H E r c)) [0..<hc_parts H] a)"

lemma a_normal_even: "a_normal H E od c a = a_even H E od 0 True c a"
  by (simp add: a_normal_def a_even_def a_block_def Let_def)

lemma a_normal_inv:
  assumes graph: "graph_ok H E od" and inv: "col_inv H E od 0 True f {} a"
  shows "col_inv H E od 0 True (pr_step H E od f) {} (a_replace (fold (a_normal H E od) [0..<hc_parts H] a))"
proof -
  have "col_inv H E od 0 True f {..<hc_parts H} (fold (a_normal H E od) [0..<hc_parts H] a)"
    unfolding a_normal_even
    by (rule fold_upt_inv [where I = "\<lambda>k. col_inv H E od 0 True f {..<k}"])
      (use inv a_even_inv [OF graph _ even_zero] in auto)
  then show ?thesis by (simp add: col_inv_def a_replace_def ahead_def)
qed

lemma col_inv_a0:
  assumes "exact_run H E" and "col_inv H E od it fin f D a" and "v < hc_vertices H"
  shows "a0 a (int v) = f (int v)"
proof -
  obtain c where "c < hc_parts H" "int v \<in> rng H c"
    using rng_vertex [of H "int v"] assms unfolding exact_run_def by auto
  then show ?thesis using assms(2) unfolding col_inv_def by blast
qed

section \<open>The loops in the abstract state\<close>

context csd_transport
begin

lemma send_proc_edge_sim:
  assumes run: "exact_run H E" and graph: "graph_ok H E od" and cid: "cid < hc_csds H"
    and r: "r < hc_parts H" and c: "c < hc_parts H" and fvc: "fvc = 0 \<or> fvc = 1" and rep: "hrep H (fst w) a"
  shows "\<exists>w'. send_proc_edge (submit E) H SYNC r c cid it num_iter fvc pf ov w = Some (Inr w') \<and>
    hrep H (fst w') (a_cmd od fvc (blk H E r c cid) a) \<and>
    (if fvc = 0 then done1 else done2) (fst w') =
      ((if fvc = 0 then done1 else done2) (fst w))(block_id H r c cid := True)"
proof -
  let ?t = "proc_edge_struct H r c cid it num_iter fvc pf ov"
  let ?hmb = "proc_task_edges (E cid) ?t (fst w)"
  have live: "\<And>i. env_live (E i)" using run by (simp add: exact_run_def)
  have np: "num_partitions ?t \<noteq> 0" by (rule np_struct [OF run cid])
  have id: "done_id ?t = block_id H r c cid"
    using run cid r c by (intro done_id_struct) (auto simp: exact_run_def)
  have f: "is_fvc ?t = fvc" "nsid ?t = 0" by (simp_all add: proc_edge_struct_def)
  obtain d' where "submit E cid SYNC ?t w = Some (0, set_done ?t ?hmb, d')"
    using submit_sync [where E = E and t = ?t and hmb = "fst w" and d = "snd w" and cid = cid] live np f(2) by auto
  then have "send_proc_edge (submit E) H SYNC r c cid it num_iter fvc pf ov w = Some (Inr (set_done ?t ?hmb, d'))"
    by (simp add: send_proc_edge_def)
  moreover have "hrep H (set_done ?t ?hmb) (a_cmd od fvc (blk H E r c cid) a)"
    using proc_task_rep [OF run graph cid r c fvc rep, of it num_iter pf ov] by (simp add: hrep_def set_done_def)
  moreover have "(if fvc = 0 then done1 else done2) (set_done ?t ?hmb) =
      ((if fvc = 0 then done1 else done2) (fst w))(block_id H r c cid := True)"
    using set_done_flags [of ?t ?hmb] unfolding f(1) id by (simp add: proc_task_edges_def Let_def)
  ultimately show ?thesis by simp
qed

lemma send_block_sim:
  assumes run: "exact_run H E" and graph: "graph_ok H E od"
    and r: "r < hc_parts H" and c: "c < hc_parts H" and fvc: "fvc = 0 \<or> fvc = 1" and rep: "hrep H (fst w) a"
  shows "\<exists>w'. rbind (send_block (submit E) H r c it num_iter fvc w) (aggr_edge_block H r c (fvc = 0)) = Some (Inr w') \<and>
    hrep H (fst w') (a_cmd od fvc (block_all H E r c) a)"
proof -
  let ?f = "\<lambda>cid. send_proc_edge (submit E) H SYNC r c cid it num_iter fvc 0 0"
  let ?flag = "if fvc = 0 then done1 else done2"
  have "\<exists>w'. for_each ?f [0..<k] w = Some (Inr w') \<and> hrep H (fst w') (a_cmd od fvc (concat (map (blk H E r c) [0..<k])) a) \<and>
      (\<forall>cid < k. ?flag (fst w') (block_id H r c cid))" if "k \<le> hc_csds H" for k
    using that
  proof (induction k)
    case 0
    then show ?case using rep by simp
  next
    case (Suc k)
    then obtain w1 where w1: "for_each ?f [0..<k] w = Some (Inr w1)"
      "hrep H (fst w1) (a_cmd od fvc (concat (map (blk H E r c) [0..<k])) a)" "\<forall>cid < k. ?flag (fst w1) (block_id H r c cid)"
      by auto
    obtain w2 where "?f k w1 = Some (Inr w2)"
      "hrep H (fst w2) (a_cmd od fvc (blk H E r c k) (a_cmd od fvc (concat (map (blk H E r c) [0..<k])) a))"
      "?flag (fst w2) = (?flag (fst w1))(block_id H r c k := True)"
      using send_proc_edge_sim [OF run graph _ r c fvc w1(2)] Suc.prems Suc_le_eq by blast
    then show ?case using w1 by (cases "fvc = 0") (auto simp: for_each_append a_cmd_append less_Suc_eq)
  qed
  from this [of "hc_csds H"] obtain w' where w': "send_block (submit E) H r c it num_iter fvc w = Some (Inr w')"
    "hrep H (fst w') (a_cmd od fvc (block_all H E r c) a)" "\<forall>cid < hc_csds H. ?flag (fst w') (block_id H r c cid)"
    by (auto simp: send_block_def block_all_def)
  then have "aggr_edge_block H r c (fvc = 0) w' = Some (Inr w')"
    by (simp add: aggr_edge_block_def list_all_iff split: if_splits)
  then show ?thesis using w' by simp
qed

lemma send_normal_sim:
  assumes "exact_run H E" and "graph_ok H E od" and "r < hc_parts H" and "c < hc_parts H" and "hrep H (fst w) a"
  shows "\<exists>w'. rbind (send_block (submit E) H r c it num_iter 0 w) (aggr_edge_block H r c True) = Some (Inr w') \<and>
    hrep H (fst w') (a_cmd od 0 (block_all H E r c) a)"
  using send_block_sim [OF assms(1-4) disjI1 [OF refl] assms(5)] by (simp only: simp_thms)

lemma send_future_sim:
  assumes "exact_run H E" and "graph_ok H E od" and "r < hc_parts H" and "c < hc_parts H" and "hrep H (fst w) a"
  shows "\<exists>w'. rbind (send_block (submit E) H r c it num_iter 1 w) (aggr_edge_block H r c False) = Some (Inr w') \<and>
    hrep H (fst w') (a_cmd od 1 (block_all H E r c) a)"
  using send_block_sim [OF assms(1-4) disjI2 [OF refl] assms(5)] by (simp only: one_neq_zero)

lemma normal_column_sim:
  assumes run: "exact_run H E" and graph: "graph_ok H E od" and c: "c < hc_parts H" and rep: "hrep H (fst w) a"
  shows "\<exists>w'. normal_column (submit E) H it num_iter c w = Some (Inr w') \<and> hrep H (fst w') (a_normal H E od c a)"
  unfolding normal_column_def a_normal_def
proof (rule rbind_sim [where R = "\<lambda>w. hrep H (fst w)" and S = "\<lambda>w. hrep H (fst w)"])
  show "\<exists>w'. for_each (\<lambda>r w. rbind (send_block (submit E) H r c it num_iter 0 w) (aggr_edge_block H r c True)) [0..<hc_parts H] w =
      Some (Inr w') \<and> hrep H (fst w') (fold (\<lambda>r. a_cmd od 0 (block_all H E r c)) [0..<hc_parts H] a)"
    by (rule for_each_sim [where R = "\<lambda>w. hrep H (fst w)"])
      (use rep send_normal_sim [OF run graph _ c] in \<open>auto simp del: split_paired_Ex\<close>)
qed (use conv_partition_rep [OF run c] in \<open>auto simp: on_hmb_def\<close>)

lemma grafu_block_sim:
  assumes run: "exact_run H E" and graph: "graph_ok H E od" and r: "r < hc_parts H" and c: "c < hc_parts H" and rep: "hrep H (fst w) a"
  shows "\<exists>w'. grafu_block (submit E) H it num_iter c future r w = Some (Inr w') \<and> hrep H (fst w') (a_block H E od c future r a)"
proof -
  obtain w1 where w1: "rbind (send_block (submit E) H r c it num_iter 0 w) (aggr_edge_block H r c True) = Some (Inr w1)"
    "hrep H (fst w1) (a_cmd od 0 (block_all H E r c) a)"
    using send_normal_sim [OF run graph r c rep] by blast
  show ?thesis
  proof (cases future)
    case True
    obtain w2 where "rbind (send_block (submit E) H r c (it + 1) num_iter 1 w1) (aggr_edge_block H r c False) = Some (Inr w2)"
      "hrep H (fst w2) (a_cmd od 1 (block_all H E r c) (a_cmd od 0 (block_all H E r c) a))"
      using send_future_sim [OF run graph r c w1(2)] by blast
    then show ?thesis using w1(1) True by (intro exI [of _ w2]) (simp add: grafu_block_def a_block_def Let_def)
  next
    case False
    then show ?thesis using w1 by (intro exI [of _ w1]) (simp add: grafu_block_def a_block_def Let_def)
  qed
qed

lemma grafu_even_column_sim:
  assumes run: "exact_run H E" and graph: "graph_ok H E od" and c: "c < hc_parts H" and rep: "hrep H (fst w) a"
    and fin: "fin = (it = num_iter - 1)"
  shows "\<exists>w'. grafu_even_column (submit E) H it num_iter c w = Some (Inr w') \<and> hrep H (fst w') (a_even H E od it fin c a)"
proof -
  let ?g = "\<lambda>r a. if 0 < it \<and> c < r then a else a_block H E od c (r < c \<and> \<not> fin) r a"
  let ?f = "\<lambda>r w. if 0 < it \<and> c < r then Some (Inr w) else grafu_block (submit E) H it num_iter c (r < c \<and> \<not> fin) r w"
  have e: "(it \<noteq> num_iter - 1) = (\<not> fin)" by (simp add: fin)
  have step: "\<exists>w'. ?f r w = Some (Inr w') \<and> hrep H (fst w') (?g r a)"
    if "r \<in> set [0..<hc_parts H]" "hrep H (fst w) a" for r w a
  proof (cases "0 < it \<and> c < r")
    case True
    then show ?thesis using that by (intro exI [of _ w]) simp
  next
    case False
    from that have "r < hc_parts H" by simp
    from grafu_block_sim [OF run graph this c that(2)] show ?thesis unfolding if_not_P [OF False] .
  qed
  obtain w1 where w1: "for_each ?f [0..<hc_parts H] w = Some (Inr w1)" "hrep H (fst w1) (fold ?g [0..<hc_parts H] a)"
    using for_each_sim [where R = "\<lambda>w. hrep H (fst w)" and f = ?f and g = ?g, OF step rep] by blast
  let ?w2 = "(conv_partition H c (fst w1), snd w1)" and ?a2 = "a_conv H c (fold ?g [0..<hc_parts H] a)"
  have rep2: "hrep H (fst ?w2) ?a2" using conv_partition_rep [OF run c w1(2)] by simp
  obtain w3 where w3: "rbind (send_block (submit E) H c c (it + 1) num_iter 1 ?w2) (aggr_edge_block H c c False) = Some (Inr w3)"
    "hrep H (fst w3) (a_cmd od 1 (block_all H E c c) ?a2)"
    using send_future_sim [OF run graph c c rep2] by blast
  show ?thesis
    unfolding grafu_even_column_def a_even_def Let_def e w1(1) rbind_simps on_hmb_def w3(1)
    using rep2 aggr_future_rep [OF run c w3(2)] by (cases fin) auto
qed

lemma grafu_odd_column_sim:
  assumes run: "exact_run H E" and graph: "graph_ok H E od" and c: "c < hc_parts H" and rep: "hrep H (fst w) a"
    and fin: "fin = (it = num_iter - 1)"
  shows "\<exists>w'. grafu_odd_column (submit E) H it num_iter c w = Some (Inr w') \<and> hrep H (fst w') (a_odd H E od fin c a)"
proof -
  let ?g = "\<lambda>r a. if r \<le> c then a else a_block H E od c (\<not> fin) r a"
  let ?f = "\<lambda>r w. if r \<le> c then Some (Inr w) else grafu_block (submit E) H it num_iter c (\<not> fin) r w"
  have e: "(it \<noteq> num_iter - 1) = (\<not> fin)" by (simp add: fin)
  have step: "\<exists>w'. ?f r w = Some (Inr w') \<and> hrep H (fst w') (?g r a)"
    if "r \<in> set (rev [0..<hc_parts H])" "hrep H (fst w) a" for r w a
  proof (cases "r \<le> c")
    case True
    then show ?thesis using that by (intro exI [of _ w]) simp
  next
    case False
    from that have "r < hc_parts H" by simp
    from grafu_block_sim [OF run graph this c that(2)] show ?thesis unfolding if_not_P [OF False] .
  qed
  obtain w1 where w1: "for_each ?f (rev [0..<hc_parts H]) w = Some (Inr w1)" "hrep H (fst w1) (fold ?g (rev [0..<hc_parts H]) a)"
    using for_each_sim [where R = "\<lambda>w. hrep H (fst w)" and f = ?f and g = ?g, OF step rep] by blast
  have rep2: "hrep H (conv_partition H c (fst w1)) (a_conv H c (fold ?g (rev [0..<hc_parts H]) a))"
    by (rule conv_partition_rep [OF run c w1(2)])
  show ?thesis
    unfolding grafu_odd_column_def a_odd_def Let_def e w1(1) rbind_simps on_hmb_def
    using rep2 aggr_future_rep [OF run c rep2] by (cases fin) auto
qed

lemma flush_csd_dram_sim:
  assumes run: "exact_run H E"
  shows "\<exists>w'. flush_csd_dram (submit E) H w = Some (Inr w') \<and> buf0 (fst w') = buf0 (fst w)"
proof -
  let ?f = "\<lambda>cid w. rbind (on_hmb (\<lambda>hmb. hmb\<lparr>done2 := (done2 hmb)(int cid := False)\<rparr>) w)
           (send_proc_edge (submit E) H FLUSH_CSD_DRAM 0 0 cid 0 0 0 0 0)"
  have live: "\<And>i. env_live (E i)" using run by (simp add: exact_run_def)
  have step: "\<exists>w'. ?f cid w = Some (Inr w') \<and> buf0 (fst w') = buf0 (fst w) \<and> done2 (fst w') = (done2 (fst w))(int cid := True)"
    if cid: "cid < hc_csds H" for cid w
  proof -
    let ?t = "proc_edge_struct H 0 0 cid 0 0 0 0 0" and ?h = "(fst w)\<lparr>done2 := (done2 (fst w))(int cid := False)\<rparr>"
    have np: "num_partitions ?t \<noteq> 0" by (rule np_struct [OF run cid])
    have id: "sint (csd_id ?t) = int cid"
      using cfg_bounds(1) [OF run cid] by (simp add: proc_edge_struct_def sint_of_nat_u32)
    obtain hmb' d' where "submit E cid FLUSH_CSD_DRAM ?t (?h, snd w) = Some (0, hmb', d')"
      "buf0 hmb' = buf0 ?h" "done2 hmb' = (done2 ?h)(int cid := True)"
      using submit_flush [where E = E and t = ?t and cid = cid and hmb = ?h and d = "snd w", OF live np] unfolding id by blast
    then show ?thesis by (intro exI [of _ "(hmb', d')"]) (simp add: on_hmb_def send_proc_edge_def)
  qed
  have "\<exists>w'. for_each ?f [0..<k] w = Some (Inr w') \<and> buf0 (fst w') = buf0 (fst w) \<and> (\<forall>cid < k. done2 (fst w') (int cid))"
    if "k \<le> hc_csds H" for k
    using that
  proof (induction k)
    case 0
    then show ?case by (intro exI [of _ w]) simp
  next
    case (Suc k)
    then obtain w1 where w1: "for_each ?f [0..<k] w = Some (Inr w1)" "buf0 (fst w1) = buf0 (fst w)"
      "\<forall>cid < k. done2 (fst w1) (int cid)" using Suc.IH Suc_leD [OF Suc.prems] by blast
    obtain w2 where w2: "?f k w1 = Some (Inr w2)" "buf0 (fst w2) = buf0 (fst w1)"
      "done2 (fst w2) = (done2 (fst w1))(int k := True)" using step [of k w1] Suc.prems Suc_le_eq by blast
    have "for_each ?f [0..<Suc k] w = Some (Inr w2)" using for_each_upt_Suc [OF w1(1)] w2(1) by (rule trans)
    moreover have "\<forall>cid < Suc k. done2 (fst w2) (int cid)" using w1(3) unfolding w2(3) by (simp add: less_Suc_eq)
    moreover have "buf0 (fst w2) = buf0 (fst w)" using w2(2) w1(2) by (rule trans)
    ultimately show ?case by blast
  qed
  then obtain w1 where "for_each ?f [0..<hc_csds H] w = Some (Inr w1)" "buf0 (fst w1) = buf0 (fst w)"
    "\<forall>cid < hc_csds H. done2 (fst w1) (int cid)" by blast
  then show ?thesis by (intro exI [of _ w1]) (simp add: flush_csd_dram_def list_all_iff)
qed

lemma loop_normal_sim:
  assumes run: "exact_run H E" and graph: "graph_ok H E od" and rep: "hrep H (fst w) a" and inv: "col_inv H E od 0 True f {} a"
  shows "\<exists>w'. csd_proc_edge_loop_normal (submit E) H num_iter w = Some (Inr w') \<and>
    (\<forall>v < hc_vertices H. buf0 (fst w') (int v) = (pr_step H E od ^^ num_iter) f (int v))"
proof -
  let ?it = "\<lambda>it w. rbind (for_each (normal_column (submit E) H it num_iter) [0..<hc_parts H] w) (on_hmb (end_of_iter_replacing H))"
  have step: "\<exists>w' a'. ?it it w = Some (Inr w') \<and> hrep H (fst w') a' \<and> col_inv H E od 0 True (pr_step H E od g) {} a'"
    if rep: "hrep H (fst w) a" and inv: "col_inv H E od 0 True g {} a" for it w a g
  proof -
    obtain w1 where w1: "for_each (normal_column (submit E) H it num_iter) [0..<hc_parts H] w = Some (Inr w1)"
      "hrep H (fst w1) (fold (a_normal H E od) [0..<hc_parts H] a)"
      using for_each_sim [where R = "\<lambda>w. hrep H (fst w)" and g = "a_normal H E od", OF _ rep]
        normal_column_sim [OF run graph] by (metis atLeastLessThan_iff set_upt)
    from end_of_iter_replacing_rep [OF this(2)] a_normal_inv [OF graph inv]
    have "?it it w = Some (Inr (end_of_iter_replacing H (fst w1), snd w1)) \<and>
        hrep H (fst (end_of_iter_replacing H (fst w1), snd w1)) (a_replace (fold (a_normal H E od) [0..<hc_parts H] a)) \<and>
        col_inv H E od 0 True (pr_step H E od g) {} (a_replace (fold (a_normal H E od) [0..<hc_parts H] a))"
      unfolding w1(1) by (simp add: on_hmb_def)
    then show ?thesis by blast
  qed
  have "\<exists>w' a'. for_each ?it [0..<k] w = Some (Inr w') \<and> hrep H (fst w') a' \<and> col_inv H E od 0 True ((pr_step H E od ^^ k) f) {} a'" for k
  proof (induction k)
    case 0
    then show ?case using rep inv by (intro exI [of _ w] exI [of _ a]) simp
  next
    case (Suc k)
    then obtain w1 b where w1: "for_each ?it [0..<k] w = Some (Inr w1)" "hrep H (fst w1) b"
      "col_inv H E od 0 True ((pr_step H E od ^^ k) f) {} b" by blast
    obtain w2 b2 where "?it k w1 = Some (Inr w2)" "hrep H (fst w2) b2"
      "col_inv H E od 0 True (pr_step H E od ((pr_step H E od ^^ k) f)) {} b2" using step [OF w1(2,3)] by blast
    then show ?case using w1(1) by (intro exI [of _ w2] exI [of _ b2]) (simp add: for_each_append)
  qed
  then obtain w1 b where w1: "for_each ?it [0..<num_iter] w = Some (Inr w1)" "hrep H (fst w1) b"
    "col_inv H E od 0 True ((pr_step H E od ^^ num_iter) f) {} b" by blast
  obtain w2 where w2: "flush_csd_dram (submit E) H w1 = Some (Inr w2)" "buf0 (fst w2) = buf0 (fst w1)"
    using flush_csd_dram_sim [OF run] by blast
  have "csd_proc_edge_loop_normal (submit E) H num_iter w = Some (Inr w2)"
    unfolding csd_proc_edge_loop_normal_def w1(1) rbind_simps w2(1) ..
  moreover have "buf0 (fst w2) (int v) = (pr_step H E od ^^ num_iter) f (int v)" if "v < hc_vertices H" for v
    using w1(2) col_inv_a0 [OF run w1(3) that] that unfolding w2(2) by (simp add: hrep_def)
  ultimately show ?thesis by blast
qed

lemma loop_grafu_sim:
  assumes run: "exact_run H E" and graph: "graph_ok H E od" and rep: "hrep H (fst w) a" and inv: "col_inv H E od 0 fin f {} a"
  shows "\<exists>w'. csd_proc_edge_loop_grafu (submit E) H num_iter w = Some (Inr w') \<and>
    (\<forall>v < hc_vertices H. buf0 (fst w') (int v) = (pr_step H E od ^^ num_iter) f (int v))"
proof -
  let ?it = "\<lambda>it w. rbind (if even it then for_each (grafu_even_column (submit E) H it num_iter) [0..<hc_parts H] w
                else for_each (grafu_odd_column (submit E) H it num_iter) (rev [0..<hc_parts H]) w) (on_hmb (end_of_iter_replacing H))"
  have step: "\<exists>w'. ?it it w = Some (Inr w') \<and> hrep H (fst w') (a_grafu H E od num_iter it a)"
    if rep: "hrep H (fst w) a" for it w a
  proof -
    let ?b = "if even it then fold (a_even H E od it (it = num_iter - 1)) [0..<hc_parts H] a
                else fold (a_odd H E od (it = num_iter - 1)) (rev [0..<hc_parts H]) a"
    have "\<exists>w1. (if even it then for_each (grafu_even_column (submit E) H it num_iter) [0..<hc_parts H] w
                else for_each (grafu_odd_column (submit E) H it num_iter) (rev [0..<hc_parts H]) w) = Some (Inr w1) \<and> hrep H (fst w1) ?b"
    proof (cases "even it")
      case True
      have "\<exists>w1. for_each (grafu_even_column (submit E) H it num_iter) [0..<hc_parts H] w = Some (Inr w1) \<and>
          hrep H (fst w1) (fold (a_even H E od it (it = num_iter - 1)) [0..<hc_parts H] a)"
        by (rule for_each_sim [where R = "\<lambda>w. hrep H (fst w)", OF _ rep])
          (use grafu_even_column_sim [OF run graph _ _ refl] in \<open>metis atLeastLessThan_iff set_upt\<close>)
      then show ?thesis unfolding if_P [OF True] .
    next
      case False
      have "\<exists>w1. for_each (grafu_odd_column (submit E) H it num_iter) (rev [0..<hc_parts H]) w = Some (Inr w1) \<and>
          hrep H (fst w1) (fold (a_odd H E od (it = num_iter - 1)) (rev [0..<hc_parts H]) a)"
        by (rule for_each_sim [where R = "\<lambda>w. hrep H (fst w)", OF _ rep])
          (use grafu_odd_column_sim [OF run graph _ _ refl] in \<open>metis atLeastLessThan_iff set_upt set_rev\<close>)
      then show ?thesis unfolding if_not_P [OF False] .
    qed
    then obtain w1 where w1: "(if even it then for_each (grafu_even_column (submit E) H it num_iter) [0..<hc_parts H] w
                else for_each (grafu_odd_column (submit E) H it num_iter) (rev [0..<hc_parts H]) w) = Some (Inr w1)" "hrep H (fst w1) ?b"
      by blast
    then have "?it it w = Some (Inr (end_of_iter_replacing H (fst w1), snd w1))"
      by (simp only: rbind_simps on_hmb_def)
    moreover have "hrep H (fst (end_of_iter_replacing H (fst w1), snd w1)) (a_grafu H E od num_iter it a)"
      using end_of_iter_replacing_rep [OF w1(2)] by (simp only: a_grafu_def fst_conv)
    ultimately show ?thesis by blast
  qed
  let ?Inv = "\<lambda>k a. (k < num_iter \<longrightarrow> (\<forall>fin. col_inv H E od k fin ((pr_step H E od ^^ k) f) {} a)) \<and>
      (\<forall>v < hc_vertices H. a0 a (int v) = (pr_step H E od ^^ k) f (int v))"
  have "\<exists>w' a'. for_each ?it [0..<k] w = Some (Inr w') \<and> hrep H (fst w') a' \<and> ?Inv k a'" if "k \<le> num_iter" for k
    using that
  proof (induction k)
    case 0
    have "col_inv H E od 0 fin' f {} a" for fin' using inv by (simp add: col_inv_def)
    then show ?case using rep col_inv_a0 [OF run inv] by (intro exI [of _ w] exI [of _ a]) simp
  next
    case (Suc k)
    then obtain w1 b where w1: "for_each ?it [0..<k] w = Some (Inr w1)" "hrep H (fst w1) b"
      "\<forall>fin. col_inv H E od k fin ((pr_step H E od ^^ k) f) {} b" using Suc.IH Suc_leD Suc_le_lessD by blast
    obtain w2 where w2: "?it k w1 = Some (Inr w2)" "hrep H (fst w2) (a_grafu H E od num_iter k b)" using step [OF w1(2)] by blast
    obtain b2 where b2: "a_grafu H E od num_iter k b = a_replace b2"
      "col_inv H E od k (k = num_iter - 1) ((pr_step H E od ^^ k) f) {..<hc_parts H} b2"
      using a_grafu_inv [OF graph w1(3) [rule_format] refl] by blast
    have "for_each ?it [0..<Suc k] w = Some (Inr w2)" using w1(1) w2(1) by (simp add: for_each_append)
    moreover have "?Inv (Suc k) (a_replace b2)"
    proof (intro conjI impI allI)
      fix fin' assume "Suc k < num_iter"
      then show "col_inv H E od (Suc k) fin' ((pr_step H E od ^^ Suc k) f) {} (a_replace b2)"
        using a_replace_inv(1) [OF b2(2), of fin'] by auto
    next
      fix v assume v: "v < hc_vertices H"
      obtain c where "c < hc_parts H" "int v \<in> rng H c"
        using rng_vertex [of H "int v"] run v unfolding exact_run_def by auto
      then show "a0 (a_replace b2) (int v) = (pr_step H E od ^^ Suc k) f (int v)" using a_replace_inv(2) [OF b2(2)] by simp
    qed
    ultimately show ?case using w2(2) unfolding b2(1) by blast
  qed
  then obtain w1 b where w1: "for_each ?it [0..<num_iter] w = Some (Inr w1)" "hrep H (fst w1) b" "?Inv num_iter b" by blast
  obtain w2 where w2: "flush_csd_dram (submit E) H w1 = Some (Inr w2)" "buf0 (fst w2) = buf0 (fst w1)"
    using flush_csd_dram_sim [OF run] by blast
  have "csd_proc_edge_loop_grafu (submit E) H num_iter w = Some (Inr w2)"
    unfolding csd_proc_edge_loop_grafu_def w1(1) rbind_simps w2(1) ..
  then show ?thesis using w1(2,3) w2(2) by (auto simp: hrep_def)
qed

end

section \<open>The initial state\<close>

lemma slice_cell:
  assumes "v < hc_vertices H" and "cid < hc_csds H"
  shows "0 \<le> slice H v cid \<and> slice H v cid < int (hc_vertices H) * (int (hc_csds H) + 1)"
proof -
  have "(int cid + 1) * int (hc_vertices H) \<le> int (hc_csds H) * int (hc_vertices H)"
    using assms(2) by (intro mult_right_mono) simp_all
  then show ?thesis using assms(1) by (simp add: slice_def algebra_simps)
qed

definition astate0 :: astate where
  "astate0 = \<lparr>a0 = (\<lambda>_. 1), a1 = (\<lambda>_. 0), a2 = (\<lambda>_. 0), t1 = (\<lambda>_. 0), t2 = (\<lambda>_. 0)\<rparr>"

lemma init_hmb_rep:
  assumes "hc_algorithm H = 0"
  shows "hrep H (init_hmb H hmb) astate0"
proof -
  have c: "0 \<le> int v \<and> int v < int (hc_vertices H) * (int (hc_csds H) + 1)" if "v < hc_vertices H" for v
  proof -
    have "int v < int (hc_vertices H) * 1" using that by simp
    also have "\<dots> \<le> int (hc_vertices H) * (int (hc_csds H) + 1)" by (intro mult_left_mono) simp_all
    finally show ?thesis by simp
  qed
  have s: "(\<Sum>cid < hc_csds H. if 0 \<le> slice H v cid \<and> slice H v cid < int (hc_vertices H) * (int (hc_csds H) + 1)
      then 0 else (g (slice H v cid) :: rat)) = 0" if "v < hc_vertices H" for v g
    by (rule sum.neutral) (use slice_cell [OF that] in auto)
  show ?thesis using assms c by (simp add: hrep_def arr_rep_def init_hmb_def astate0_def Let_def s)
qed

lemma astate0_inv: "col_inv H E od 0 fin (\<lambda>_. 1) {} astate0"
  by (simp add: col_inv_def astate0_def ahead_def)

section \<open>A small graph, for the witnesses\<close>

text \<open>Four vertices in two partitions on one device: block \<open>(r, c)\<close> is the edge from vertex \<open>2 r\<close> to vertex \<open>2 c + 1\<close>.\<close>

definition env1 :: csd_env where
  "env1 = env0\<lparr>e_storage := (\<lambda>_ i.
     if i < 4 then 2 else if i = 4 then 0 else if i = 5 then 1 else if i = 6 then 0 else if i = 7 then 3
     else if i = 8 then 2 else if i = 9 then 1 else if i = 10 then 2 else 3)\<rparr>"

definition cfg1 :: host_cfg where
  "cfg1 = \<lparr>hc_csds = 1, hc_parts = 2, hc_vertices = 4, hc_algorithm = 0, hc_cost_modeling = 0, hc_outdegree_slba = 0,
     hc_slba = (\<lambda>r c cid. of_nat (16 + 16 * r + 8 * c)), hc_length = (\<lambda>r c cid. 8), hc_fl = id\<rparr>"

lemma cfg1_run: "exact_run cfg1 (\<lambda>_. env1)"
  using env0_live by (simp add: exact_run_def cfg1_def env1_def env_live_def env0_def)

lemma cfg1_graph: "graph_ok cfg1 (\<lambda>_. env1) (\<lambda>_. 2)"
proof -
  have od: "outdeg cfg1 (\<lambda>_. env1) 0 u = 2" if "0 \<le> u" "u < 4" for u
    using that by (simp add: outdeg_def block_outdegree_def cfg1_def env1_def VERTEX_SIZE_def)
  have e: "blk cfg1 (\<lambda>_. env1) r c 0 = [(2 * int r, 2 * int c + 1)]" if "r < 2" "c < 2" for r c
  proof -
    have "r = 0 \<or> r = 1" "c = 0 \<or> c = 1" using that by auto
    then show ?thesis
      by (auto simp: blk_def block_edges_def cfg1_def VERTEX_SIZE_def EDGE_SIZE_def edge_list.simps env1_def)
  qed
  have "rng cfg1 0 = {0..<2}" "rng cfg1 1 = {2..<4}" by (simp_all add: rng_def part_lo_def cfg1_def)
  then have "2 * int r \<in> rng cfg1 r" "2 * int r + 1 \<in> rng cfg1 r" if "r < 2" for r
    using that by (cases r; simp)+
  then show ?thesis using od e by (simp add: graph_ok_def cfg1_def [THEN arg_cong, of hc_csds] cfg1_def [THEN arg_cong, of hc_parts]
      cfg1_def [THEN arg_cong, of hc_vertices])
qed

section \<open>Properties\<close>

text \<open>
  Vertex partitions. The ranges that \<^verbatim>\<open>get_partition_range\<close> computes are disjoint, cover all vertices,
  and differ in size by at most one.
\<close>

theorem partitions_tile:
  assumes "0 < hc_parts H"
  shows "(\<Union>c < hc_parts H. {fst (get_partition_range H c)..<snd (get_partition_range H c)}) = {0..<hc_vertices H} \<and>
    (\<forall>c c'. c \<noteq> c' \<longrightarrow> {fst (get_partition_range H c)..<snd (get_partition_range H c)} \<inter>
       {fst (get_partition_range H c')..<snd (get_partition_range H c')} = {}) \<and>
    (\<forall>c. snd (get_partition_range H c) - fst (get_partition_range H c) \<in>
       {hc_vertices H div hc_parts H, hc_vertices H div hc_parts H + 1})"
proof (intro conjI allI impI)
  have int_rng: "int ` {part_lo H c..<part_lo H (Suc c)} = rng H c" for c by (simp add: rng_def image_int_atLeastLessThan)
  have "int ` (\<Union>c < hc_parts H. {part_lo H c..<part_lo H (Suc c)}) = int ` {0..<hc_vertices H}"
    using rng_union [OF assms] by (simp add: image_UN image_int_atLeastLessThan rng_def)
  then show "(\<Union>c < hc_parts H. {fst (get_partition_range H c)..<snd (get_partition_range H c)}) = {0..<hc_vertices H}"
    by (simp add: get_partition_range_lo inj_image_eq_iff)
  fix c c' :: nat assume "c \<noteq> c'"
  then have "int ` ({part_lo H c..<part_lo H (Suc c)} \<inter> {part_lo H c'..<part_lo H (Suc c')}) = {}"
    unfolding image_Int [OF inj_of_nat] int_rng by (rule rng_disjoint)
  then show "{fst (get_partition_range H c)..<snd (get_partition_range H c)} \<inter>
       {fst (get_partition_range H c')..<snd (get_partition_range H c')} = {}"
    by (simp only: get_partition_range_lo fst_conv snd_conv image_is_empty)
next
  fix c show "snd (get_partition_range H c) - fst (get_partition_range H c) \<in>
       {hc_vertices H div hc_parts H, hc_vertices H div hc_parts H + 1}"
    unfolding get_partition_range_lo part_lo_def by (auto simp: min_def)
qed

theorem partitions_tile_witness:
  "(\<Union>c < 2. {fst (get_partition_range cfg1 c)..<snd (get_partition_range cfg1 c)}) = {0..<4}"
proof -
  have "hc_parts cfg1 = 2" "hc_vertices cfg1 = 4" by (simp_all add: cfg1_def)
  with partitions_tile [of cfg1] show ?thesis by simp
qed

text \<open>
  C1: The synchronous loop computes PageRank. On devices that hold a graph, with exact arithmetic, the
  host's loop returns, and after \<open>k\<close> iterations \<open>buf0\<close> holds the \<open>k\<close>-fold iterate of the PageRank
  step over all edges of all blocks and devices, started from the constant \<open>1\<close>.
\<close>

theorem normal_loop_pagerank:
  assumes "exact_run H E" and "graph_ok H E od"
  shows "\<exists>w'. csd_proc_edge_loop_normal (dev_submit nan nt E) H num_iter (init_hmb H hmb, ds) = Some (Inr w') \<and>
    (\<forall>v < hc_vertices H. buf0 (fst w') (int v) = (pr_step H E od ^^ num_iter) (\<lambda>_. 1) (int v))"
proof -
  have "hrep H (fst (init_hmb H hmb, ds)) astate0" using assms(1) init_hmb_rep by (simp add: exact_run_def)
  from dev.loop_normal_sim [OF assms this astate0_inv] show ?thesis .
qed

theorem normal_loop_pagerank_witness:
  "\<exists>w'. csd_proc_edge_loop_normal (dev_submit 0 (\<lambda>_. 100) (\<lambda>_. env1)) cfg1 3 (init_hmb cfg1 hmb0, \<lambda>_. csd0) = Some (Inr w') \<and>
    (\<forall>v < hc_vertices cfg1. buf0 (fst w') (int v) = (pr_step cfg1 (\<lambda>_. env1) (\<lambda>_. 2) ^^ 3) (\<lambda>_. 1) (int v))"
  by (rule normal_loop_pagerank [OF cfg1_run cfg1_graph])

text \<open>
  C2: Working ahead does not change the result of PageRank. For algorithm 0 in exact arithmetic (no rounding of
  \<^verbatim>\<open>float\<close>), on devices that hold a well-formed graph (every edge in the block of its partitions, out-degrees
  that are not zero, fewer than \<open>2 ^ 31\<close> vertices and blocks) and whose clocks advance, the loop that skips the
  blocks whose values the previous iteration already computed, alternates the direction of the columns and
  aggregates future values returns the same vertex values as the plain loop, for every number of iterations. (The
  other algorithms are not included: for dispersion the two loops differ.)
\<close>

theorem grafu_loop_equiv:
  assumes "exact_run H E" and "graph_ok H E od"
  shows "\<exists>w w'. csd_proc_edge_loop_normal (dev_submit nan nt E) H num_iter (init_hmb H hmb, ds) = Some (Inr w) \<and>
    csd_proc_edge_loop_grafu (dev_submit nan nt E) H num_iter (init_hmb H hmb', ds') = Some (Inr w') \<and>
    (\<forall>v < hc_vertices H. buf0 (fst w') (int v) = buf0 (fst w) (int v))"
proof -
  have i: "hrep H (fst (init_hmb H h, d)) astate0" for h and d :: "nat \<Rightarrow> csd_dev"
    using assms(1) init_hmb_rep by (simp add: exact_run_def)
  obtain w where "csd_proc_edge_loop_normal (dev_submit nan nt E) H num_iter (init_hmb H hmb, ds) = Some (Inr w)"
    "\<forall>v < hc_vertices H. buf0 (fst w) (int v) = (pr_step H E od ^^ num_iter) (\<lambda>_. 1) (int v)"
    using dev.loop_normal_sim [OF assms i astate0_inv] by blast
  moreover obtain w' where "csd_proc_edge_loop_grafu (dev_submit nan nt E) H num_iter (init_hmb H hmb', ds') = Some (Inr w')"
    "\<forall>v < hc_vertices H. buf0 (fst w') (int v) = (pr_step H E od ^^ num_iter) (\<lambda>_. 1) (int v)"
    using dev.loop_grafu_sim [OF assms i astate0_inv] by blast
  ultimately show ?thesis by (metis (no_types, lifting))
qed

theorem grafu_loop_equiv_witness:
  "\<exists>w w'. csd_proc_edge_loop_normal (dev_submit 0 (\<lambda>_. 100) (\<lambda>_. env1)) cfg1 3 (init_hmb cfg1 hmb0, \<lambda>_. csd0) = Some (Inr w) \<and>
    csd_proc_edge_loop_grafu (dev_submit 0 (\<lambda>_. 100) (\<lambda>_. env1)) cfg1 3 (init_hmb cfg1 hmb0, \<lambda>_. csd0) = Some (Inr w') \<and>
    (\<forall>v < hc_vertices cfg1. buf0 (fst w') (int v) = buf0 (fst w) (int v))"
  by (rule grafu_loop_equiv [OF cfg1_run cfg1_graph])

end
