(* ===== verification/Data_Path.thy ===== *)
theory Data_Path
  imports Simple_FTL SSD_Model
begin

text \<open>
  The data path of read and write commands: \<^verbatim>\<open>__do_perform_io\<close> of \<^verbatim>\<open>io.c\<close>, which copies page by page
  between the host pages a command names (its PRP entries) and the storage of the namespace, and
  \<^verbatim>\<open>__do_perform_io_using_dma\<close>, which first collects the entries and then hands runs of adjacent pages to the
  DMA engine. Physical memory and the storage of a namespace are functions from byte addresses;
  a mapped page is read and written at its physical address. The outcome of a DMA transfer is an argument: its
  result is ignored by the caller. \<open>None\<close> stands for the use of a PRP list that was never mapped and
  for more entries than the static table \<^verbatim>\<open>paddr_list\<close> has.
\<close>

section \<open>Memory\<close>

type_synonym bytes = "nat \<Rightarrow> u8"

definition PAGE_SIZE :: nat where "PAGE_SIZE = 4096"

definition memcpy :: "bytes \<Rightarrow> nat \<Rightarrow> bytes \<Rightarrow> nat \<Rightarrow> nat \<Rightarrow> bytes" where
  "memcpy dst d src s n = (\<lambda>a. if d \<le> a \<and> a < d + n then src (s + (a - d)) else dst a)"

definition u64_at :: "bytes \<Rightarrow> nat \<Rightarrow> nat" where
  "u64_at m a = horner_sum unat 256 (map (\<lambda>i. m (a + i)) [0..<8])"

section \<open>The page loop\<close>

datatype xfer_op = To_Device | From_Device | No_Copy

definition rw_op :: "u8 \<Rightarrow> xfer_op" where
  "rw_op opcode =
     (if opcode = nvme_cmd_write \<or> opcode = nvme_cmd_zone_append then To_Device
      else if opcode = nvme_cmd_read then From_Device else No_Copy)"

text \<open>The entry for the \<open>prp_offs\<close>-th page, the mapped list and the next index into it.\<close>

definition next_prp ::
  "bytes \<Rightarrow> nat \<Rightarrow> nat \<Rightarrow> nat \<Rightarrow> nat \<Rightarrow> nat option \<Rightarrow> nat \<Rightarrow> (nat \<times> nat option \<times> nat) option" where
  "next_prp mem prp1 prp2 remaining prp_offs paddr_list prp2_offs =
     (if prp_offs = 1 then Some (prp1, paddr_list, prp2_offs)
      else if prp_offs = 2 then
        (if remaining > PAGE_SIZE then Some (u64_at mem (prp2 + 8 * prp2_offs), Some prp2, prp2_offs + 1)
         else Some (prp2, paddr_list, prp2_offs))
      else case paddr_list of
        None \<Rightarrow> None
      | Some l \<Rightarrow> Some (u64_at mem (l + 8 * prp2_offs), paddr_list, prp2_offs + 1))"

definition page_io_size :: "nat \<Rightarrow> nat \<Rightarrow> nat" where
  "page_io_size paddr remaining =
     (let io_size = min remaining PAGE_SIZE; mem_offs = paddr mod PAGE_SIZE in
      if mem_offs \<noteq> 0 \<and> io_size + mem_offs > PAGE_SIZE then PAGE_SIZE - mem_offs else io_size)"

definition copy_page :: "xfer_op \<Rightarrow> nat \<Rightarrow> nat \<Rightarrow> nat \<Rightarrow> bytes \<times> bytes \<Rightarrow> bytes \<times> bytes" where
  "copy_page dir paddr offset io_size s =
     (case dir of
        To_Device \<Rightarrow> (fst s, memcpy (snd s) offset (fst s) paddr io_size)
      | From_Device \<Rightarrow> (memcpy (fst s) paddr (snd s) offset io_size, snd s)
      | No_Copy \<Rightarrow> s)"

lemma page_io_size_pos: "0 < n \<Longrightarrow> 0 < page_io_size p n"
  by (simp add: page_io_size_def Let_def PAGE_SIZE_def)

lemma page_io_size_le: "page_io_size p n \<le> n"
  by (auto simp: page_io_size_def Let_def PAGE_SIZE_def min_def split: if_splits)

lemma page_io_size_less: "0 < n \<Longrightarrow> n - page_io_size p n < n"
  using page_io_size_pos [of n p] by simp

function prp_loop ::
  "xfer_op \<Rightarrow> nat \<Rightarrow> nat \<Rightarrow> nat \<Rightarrow> nat \<Rightarrow> nat \<Rightarrow> nat option \<Rightarrow> nat \<Rightarrow> bytes \<times> bytes \<Rightarrow> (bytes \<times> bytes) option" where
  "prp_loop dir prp1 prp2 remaining offset prp_offs paddr_list prp2_offs s =
     (if remaining = 0 then Some s
      else case next_prp (fst s) prp1 prp2 remaining (prp_offs + 1) paddr_list prp2_offs of
        None \<Rightarrow> None
      | Some (paddr, paddr_list, prp2_offs) \<Rightarrow>
          let io_size = page_io_size paddr remaining in
          prp_loop dir prp1 prp2 (remaining - io_size) (offset + io_size) (prp_offs + 1) paddr_list prp2_offs
            (copy_page dir paddr offset io_size s))"
  by pat_completeness auto
termination
  by (relation "measure (\<lambda>(_, _, _, r, _). r)") (auto intro: page_io_size_less)

declare prp_loop.simps [simp del]

text \<open>\<^verbatim>\<open>__do_perform_io\<close>: the storage is a function of the zero-based namespace.\<close>

definition do_perform_io :: "nvme_command \<Rightarrow> bytes \<times> (u32 \<Rightarrow> bytes) \<Rightarrow> (nat \<times> bytes \<times> (u32 \<Rightarrow> bytes)) option" where
  "do_perform_io cmd w =
     (let ns = c_nsid cmd - 1; len = unat (cmd_io_size LBA_BITS cmd) in
      case prp_loop (rw_op (c_opcode cmd)) (unat (c_prp1 cmd)) (unat (c_prp2 cmd)) len
             (unat (cmd_io_offset LBA_BITS cmd)) 0 None 0 (fst w, snd w ns) of
        None \<Rightarrow> None
      | Some (mem, stor) \<Rightarrow> Some (len, mem, (snd w)(ns := stor)))"

section \<open>The DMA path\<close>

definition NR_PADDR :: nat where "NR_PADDR = 513"

text \<open>The first loop; \<open>ps\<close> are the entries collected so far, the last one first.\<close>

function collect_prps :: "bytes \<Rightarrow> nat \<Rightarrow> nat \<Rightarrow> nat \<Rightarrow> nat \<Rightarrow> nat option \<Rightarrow> nat \<Rightarrow> nat list option" where
  "collect_prps mem prp1 prp2 remaining prp_offs tmp_paddr_list prp2_offs =
     (if remaining = 0 then Some []
      else if NR_PADDR \<le> prp_offs + 1 then None
      else case next_prp mem prp1 prp2 remaining (prp_offs + 1) tmp_paddr_list prp2_offs of
        None \<Rightarrow> None
      | Some (paddr, tmp_paddr_list, prp2_offs) \<Rightarrow>
          map_option ((#) paddr) (collect_prps mem prp1 prp2 (remaining - page_io_size paddr remaining)
            (prp_offs + 1) tmp_paddr_list prp2_offs))"
  by pat_completeness auto
termination
  by (relation "measure (\<lambda>(_, _, _, r, _). r)") (auto intro: page_io_size_less)

declare collect_prps.simps [simp del]

text \<open>\<^verbatim>\<open>for (prp_offs++; prp_offs <= num_prps; prp_offs++)\<close>: how far the run of adjacent pages goes.\<close>

fun adjacent_run :: "nat \<Rightarrow> nat list \<Rightarrow> nat \<Rightarrow> nat \<times> nat list" where
  "adjacent_run prev [] page_size = (page_size, [])"
| "adjacent_run prev (p # ps) page_size =
     (if p = prev + PAGE_SIZE then adjacent_run p ps (page_size + PAGE_SIZE) else (page_size, p # ps))"

text \<open>\<^verbatim>\<open>ioat_dma_submit\<close>: a transfer that the engine rejects or fails copies nothing.\<close>

definition ioat_dma_submit :: "bool \<Rightarrow> xfer_op \<Rightarrow> nat \<Rightarrow> nat \<Rightarrow> nat \<Rightarrow> bytes \<times> bytes \<Rightarrow> bytes \<times> bytes" where
  "ioat_dma_submit ok dir paddr offset io_size s = (if ok then copy_page dir paddr offset io_size s else s)"

lemma adjacent_run_ge: "page_size \<le> fst (adjacent_run prev ps page_size)"
  by (induction prev ps page_size rule: adjacent_run.induct) auto

function dma_loop :: "(nat \<Rightarrow> bool) \<Rightarrow> xfer_op \<Rightarrow> nat list \<Rightarrow> nat \<Rightarrow> nat \<Rightarrow> bytes \<times> bytes \<Rightarrow> (bytes \<times> bytes) option" where
  "dma_loop ok dir ps remaining offset s =
     (if remaining = 0 then Some s
      else case ps of
        [] \<Rightarrow> None
      | paddr # rest \<Rightarrow>
          let (page_size, rest') = adjacent_run paddr rest (page_io_size paddr remaining);
              io_size = min remaining page_size in
          dma_loop ok dir rest' (remaining - io_size) (offset + io_size) (ioat_dma_submit (ok offset) dir paddr offset io_size s))"
  by pat_completeness auto
termination
proof (relation "measure (\<lambda>(_, _, _, r, _). r)", goal_cases)
  case (2 ok dir ps remaining offset s p rest x page_size rest' io_size)
  have "page_io_size p remaining \<le> page_size" using adjacent_run_ge 2(3,4) by (metis fst_conv)
  then show ?case using 2(1,5) page_io_size_pos [of remaining p] by auto
qed simp

declare dma_loop.simps [simp del]

text \<open>
  \<^verbatim>\<open>__do_perform_io_using_dma\<close>: the storage address is \<^verbatim>\<open>storage_start + offset\<close>, that of the first
  namespace. \<open>ok\<close> is the outcome of the transfer that starts at an offset.
\<close>

definition do_perform_io_using_dma ::
  "(nat \<Rightarrow> bool) \<Rightarrow> nvme_command \<Rightarrow> bytes \<times> (u32 \<Rightarrow> bytes) \<Rightarrow> (nat \<times> bytes \<times> (u32 \<Rightarrow> bytes)) option" where
  "do_perform_io_using_dma ok cmd w =
     (let len = unat (cmd_io_size LBA_BITS cmd) in
      case collect_prps (fst w) (unat (c_prp1 cmd)) (unat (c_prp2 cmd)) len 0 None 0 of
        None \<Rightarrow> None
      | Some ps \<Rightarrow>
          (case dma_loop ok (rw_op (c_opcode cmd)) ps len (unat (cmd_io_offset LBA_BITS cmd)) (fst w, snd w 0) of
             None \<Rightarrow> None
           | Some (mem, stor) \<Rightarrow> Some (len, mem, (snd w)(0 := stor))))"

section \<open>Transfers between lists of addresses\<close>

definition scatter :: "bytes \<Rightarrow> nat list \<Rightarrow> u8 list \<Rightarrow> bytes" where
  "scatter m as vs = fold (\<lambda>(a, v) m. m(a := v)) (zip as vs) m"

definition xfer :: "xfer_op \<Rightarrow> nat list \<Rightarrow> nat \<Rightarrow> bytes \<times> bytes \<Rightarrow> bytes \<times> bytes" where
  "xfer dir as off s =
     (case dir of
        To_Device \<Rightarrow> (fst s, scatter (snd s) [off..<off + length as] (map (fst s) as))
      | From_Device \<Rightarrow> (scatter (fst s) as (map (snd s) [off..<off + length as]), snd s)
      | No_Copy \<Rightarrow> s)"

lemma scatter_append:
  "length as = length vs \<Longrightarrow> scatter m (as @ bs) (vs @ ws) = scatter (scatter m as vs) bs ws"
  by (simp add: scatter_def)

lemma scatter_other: "a \<notin> set as \<Longrightarrow> scatter m as vs a = m a"
  unfolding scatter_def
proof (induction as vs arbitrary: m rule: list_induct2')
  case (4 x xs y ys)
  then show ?case by simp
qed simp_all

lemma scatter_nth:
  assumes "distinct as" and "length vs = length as" and "i < length as"
  shows "scatter m as vs (as ! i) = vs ! i"
  using assms(2,1,3)
proof (induction vs as arbitrary: m i rule: list_induct2)
  case (Cons v vs a as)
  have step: "scatter m (a # as) (v # vs) = scatter (m(a := v)) as vs" by (simp add: scatter_def)
  show ?case
  proof (cases i)
    case 0
    then show ?thesis using Cons.prems by (simp add: step scatter_other)
  next
    case (Suc j)
    then show ?thesis using Cons by (simp add: step)
  qed
qed simp

lemma map_scatter: "distinct as \<Longrightarrow> length vs = length as \<Longrightarrow> map (scatter m as vs) as = vs"
  by (rule nth_equalityI) (simp_all add: scatter_nth)

lemma xfer_append: "xfer dir (as @ bs) off s = xfer dir bs (off + length as) (xfer dir as off s)"
proof -
  have "[off..<off + (length as + length bs)] = [off..<off + length as] @ [off + length as..<off + length as + length bs]"
    by (metis add.assoc le_add1 upt_add_eq_append)
  then show ?thesis by (cases dir) (simp_all add: xfer_def scatter_append add.assoc)
qed

lemma xfer_Nil [simp]: "xfer dir [] off s = s"
  by (cases dir) (simp_all add: xfer_def scatter_def)

lemma xfer_fst_other: "a \<notin> set as \<Longrightarrow> fst (xfer dir as off s) a = fst s a"
  by (cases dir) (simp_all add: xfer_def scatter_other)

lemma memcpy_scatter: "memcpy dst d src s n = scatter dst [d..<d + n] (map src [s..<s + n])"
proof
  fix a show "memcpy dst d src s n a = scatter dst [d..<d + n] (map src [s..<s + n]) a"
  proof (cases "d \<le> a \<and> a < d + n")
    case True
    then have "a = [d..<d + n] ! (a - d)" "a - d < n" by auto
    then have "scatter dst [d..<d + n] (map src [s..<s + n]) a = map src [s..<s + n] ! (a - d)"
      by (metis add_diff_cancel_left' distinct_upt length_map length_upt scatter_nth)
    then show ?thesis using True \<open>a - d < n\<close> by (simp add: memcpy_def)
  next
    case False
    then have "a \<notin> set [d..<d + n]" by auto
    from scatter_other [OF this] show ?thesis using False by (simp only: memcpy_def if_False)
  qed
qed

lemma copy_page_xfer: "copy_page dir p off n s = xfer dir [p..<p + n] off s"
  by (cases dir) (simp_all add: copy_page_def xfer_def memcpy_scatter)

section \<open>The buffer of a command\<close>

text \<open>The bytes of the first \<open>n\<close> that a list of PRP entries describes.\<close>

fun page_addrs :: "nat list \<Rightarrow> nat \<Rightarrow> nat list" where
  "page_addrs [] n = []"
| "page_addrs (p # ps) n = [p..<p + page_io_size p n] @ page_addrs ps (n - page_io_size p n)"

text \<open>The entries of a command of \<open>n\<close> bytes, and the addresses of the PRP list when it has one.\<close>

definition prp_entries :: "bytes \<Rightarrow> nat \<Rightarrow> nat \<Rightarrow> nat \<Rightarrow> nat list" where
  "prp_entries mem prp1 prp2 n =
     (let r = n - page_io_size prp1 n in
      if r = 0 then [prp1] else if r \<le> PAGE_SIZE then [prp1, prp2]
      else prp1 # map (\<lambda>i. u64_at mem (prp2 + 8 * i)) [0..<DIV_ROUND_UP r PAGE_SIZE])"

definition prp_cells :: "nat \<Rightarrow> nat \<Rightarrow> nat \<Rightarrow> nat set" where
  "prp_cells prp1 prp2 n =
     (let r = n - page_io_size prp1 n in
      if r \<le> PAGE_SIZE then {} else {prp2..<prp2 + 8 * DIV_ROUND_UP r PAGE_SIZE})"

text \<open>Entries after the first are page aligned, and the buffer does not overlap the list.\<close>

definition prp_ok :: "bytes \<Rightarrow> nat \<Rightarrow> nat \<Rightarrow> nat \<Rightarrow> bool" where
  "prp_ok mem prp1 prp2 n \<longleftrightarrow>
     (\<forall>p \<in> set (tl (prp_entries mem prp1 prp2 n)). p mod PAGE_SIZE = 0) \<and>
     set (page_addrs (prp_entries mem prp1 prp2 n) n) \<inter> prp_cells prp1 prp2 n = {}"

lemma page_io_size_0 [simp]: "page_io_size p 0 = 0"
  using page_io_size_le [of p 0] by simp

lemma page_addrs_0 [simp]: "page_addrs ps 0 = []"
  by (induction ps) simp_all

lemma page_io_size_aligned [simp]: "p mod PAGE_SIZE = 0 \<Longrightarrow> page_io_size p n = min n PAGE_SIZE"
  by (simp add: page_io_size_def)

lemma DIV_ROUND_UP_page_step: "0 < r \<Longrightarrow> DIV_ROUND_UP r PAGE_SIZE = Suc (DIV_ROUND_UP (r - min r PAGE_SIZE) PAGE_SIZE)"
proof -
  assume r: "0 < r"
  show ?thesis
  proof (cases "r \<le> PAGE_SIZE")
    case True
    then have "r + PAGE_SIZE - 1 = PAGE_SIZE + (r - 1)" "r - 1 < PAGE_SIZE" using r by auto
    then show ?thesis using True by (simp add: DIV_ROUND_UP_def PAGE_SIZE_def)
  next
    case False
    then have "r + PAGE_SIZE - 1 = PAGE_SIZE + (r - PAGE_SIZE + PAGE_SIZE - 1)" by (simp add: PAGE_SIZE_def)
    then show ?thesis using False by (simp add: DIV_ROUND_UP_def PAGE_SIZE_def)
  qed
qed

lemma DIV_ROUND_UP_page_0 [simp]: "DIV_ROUND_UP 0 PAGE_SIZE = 0"
  by (simp add: DIV_ROUND_UP_def PAGE_SIZE_def)

lemma u64_at_cong: "(\<And>i. i < 8 \<Longrightarrow> m (a + i) = m' (a + i)) \<Longrightarrow> u64_at m a = u64_at m' a"
  unfolding u64_at_def by (rule arg_cong [where f = "horner_sum unat 256"]) simp

lemma map_upt_Cons: "map f [0..<Suc m] = f 0 # map (\<lambda>i. f (Suc i)) [0..<m]"
  by (simp add: upt_conv_Cons map_Suc_upt [symmetric] comp_def del: upt_Suc)

text \<open>
  Both loops over the entries of a list: it is mapped already, or the second entry is about to map it.
\<close>

definition in_list :: "nat \<Rightarrow> nat \<Rightarrow> nat \<Rightarrow> nat option \<Rightarrow> nat \<Rightarrow> nat \<Rightarrow> bool" where
  "in_list p2 r j lst k l \<longleftrightarrow> 1 < j \<and> lst = Some l \<or> j = 1 \<and> k = 0 \<and> l = p2 \<and> PAGE_SIZE < r"

lemma next_prp_list:
  "in_list p2 r j lst k l \<Longrightarrow> next_prp mem p1 p2 r (Suc j) lst k = Some (u64_at mem (l + 8 * k), Some l, Suc k)"
  by (auto simp: in_list_def next_prp_def)

lemma prp_loop_list:
  assumes "in_list p2 r j lst k l" and "m = DIV_ROUND_UP r PAGE_SIZE"
    and "ps = map (\<lambda>i. u64_at (fst s) (l + 8 * (k + i))) [0..<m]" and "\<forall>p \<in> set ps. p mod PAGE_SIZE = 0"
    and "set (page_addrs ps r) \<inter> {l + 8 * k..<l + 8 * (k + m)} = {}"
  shows "prp_loop dir p1 p2 r off j lst k s = Some (xfer dir (page_addrs ps r) off s)"
  using assms
proof (induction m arbitrary: j r ps s k off lst)
  case 0
  then have "r = 0" using DIV_ROUND_UP_page_step [of r] by (cases "r = 0") simp_all
  then show ?case by (simp add: prp_loop.simps)
next
  case (Suc m)
  have r: "0 < r" using Suc.prems(2) by (cases "r = 0") simp_all
  let ?p = "u64_at (fst s) (l + 8 * k)" and ?c = "min r PAGE_SIZE"
  let ?s = "xfer dir [?p..<?p + ?c] off s"
  let ?qs = "map (\<lambda>i. u64_at (fst s) (l + 8 * (Suc k + i))) [0..<m]"
  have ps: "ps = ?p # ?qs" using Suc.prems(3) map_upt_Cons [of "\<lambda>i. u64_at (fst s) (l + 8 * (k + i))" m] by simp
  then have al: "?p mod PAGE_SIZE = 0" "\<forall>p \<in> set ?qs. p mod PAGE_SIZE = 0" using Suc.prems(4) by simp_all
  have c: "page_io_size ?p r = ?c" using al by simp
  have disj: "set [?p..<?p + ?c] \<inter> {l + 8 * k..<l + 8 * (k + Suc m)} = {}"
    "set (page_addrs ?qs (r - ?c)) \<inter> {l + 8 * k..<l + 8 * (k + Suc m)} = {}"
    using Suc.prems(5) unfolding ps page_addrs.simps c by (simp_all only: set_append Int_Un_distrib2 Un_empty)
  have same: "u64_at (fst ?s) (l + 8 * (Suc k + i)) = u64_at (fst s) (l + 8 * (Suc k + i))" if "i < m" for i
  proof (rule u64_at_cong)
    fix x :: nat assume "x < 8"
    then have "l + 8 * (Suc k + i) + x \<in> {l + 8 * k..<l + 8 * (k + Suc m)}" using that by auto
    then show "fst ?s (l + 8 * (Suc k + i) + x) = fst s (l + 8 * (Suc k + i) + x)"
      using disj(1) by (intro xfer_fst_other) blast
  qed
  have m: "m = DIV_ROUND_UP (r - ?c) PAGE_SIZE" using Suc.prems(2) DIV_ROUND_UP_page_step [OF r] by simp
  have "prp_loop dir p1 p2 (r - ?c) (off + ?c) (Suc j) (Some l) (Suc k) ?s = Some (xfer dir (page_addrs ?qs (r - ?c)) (off + ?c) ?s)"
    using Suc.prems(1) m same al(2) disj(2) by (intro Suc.IH) (auto simp: in_list_def)
  moreover have "next_prp (fst s) p1 p2 r (Suc j) lst k = Some (?p, Some l, Suc k)"
    by (rule next_prp_list [OF Suc.prems(1)])
  ultimately show ?case using r al
    by (subst prp_loop.simps) (simp add: ps copy_page_xfer xfer_append Let_def)
qed

lemma collect_prps_list:
  assumes "in_list p2 r j lst k l" and "m = DIV_ROUND_UP r PAGE_SIZE" and "j + m < NR_PADDR"
    and "ps = map (\<lambda>i. u64_at mem (l + 8 * (k + i))) [0..<m]" and "\<forall>p \<in> set ps. p mod PAGE_SIZE = 0"
  shows "collect_prps mem p1 p2 r j lst k = Some ps"
  using assms
proof (induction m arbitrary: j r ps k lst)
  case 0
  then have "r = 0" using DIV_ROUND_UP_page_step [of r] by (cases "r = 0") simp_all
  then show ?case using 0 by (simp add: collect_prps.simps)
next
  case (Suc m)
  have r: "0 < r" using Suc.prems(2) by (cases "r = 0") simp_all
  let ?p = "u64_at mem (l + 8 * k)" and ?c = "min r PAGE_SIZE"
  let ?qs = "map (\<lambda>i. u64_at mem (l + 8 * (Suc k + i))) [0..<m]"
  have ps: "ps = ?p # ?qs" using Suc.prems(4) map_upt_Cons [of "\<lambda>i. u64_at mem (l + 8 * (k + i))" m] by simp
  then have al: "?p mod PAGE_SIZE = 0" "\<forall>p \<in> set ?qs. p mod PAGE_SIZE = 0" using Suc.prems(5) by simp_all
  have m: "m = DIV_ROUND_UP (r - ?c) PAGE_SIZE" using Suc.prems(2) DIV_ROUND_UP_page_step [OF r] by simp
  have "collect_prps mem p1 p2 (r - ?c) (Suc j) (Some l) (Suc k) = Some ?qs"
    using Suc.prems(1,3) m al(2) by (intro Suc.IH) (auto simp: in_list_def)
  moreover have "next_prp mem p1 p2 r (Suc j) lst k = Some (?p, Some l, Suc k)"
    by (rule next_prp_list [OF Suc.prems(1)])
  ultimately show ?case using r al Suc.prems(3)
    by (subst collect_prps.simps) (simp add: ps Let_def)
qed

lemma length_page_addrs:
  assumes "\<forall>p \<in> set ps. p mod PAGE_SIZE = 0" and "r \<le> length ps * PAGE_SIZE"
  shows "length (page_addrs ps r) = r"
  using assms by (induction ps arbitrary: r) (auto simp: min_def)

lemma prp_entries_cases:
  assumes "0 < n" and "prp_ok mem p1 p2 n"
  obtains
    (one) "n - page_io_size p1 n = 0" "prp_entries mem p1 p2 n = [p1]"
  | (two) "0 < n - page_io_size p1 n" "n - page_io_size p1 n \<le> PAGE_SIZE" "prp_entries mem p1 p2 n = [p1, p2]" "p2 mod PAGE_SIZE = 0"
  | (list) ps where "PAGE_SIZE < n - page_io_size p1 n" "prp_entries mem p1 p2 n = p1 # ps"
      "ps = map (\<lambda>i. u64_at mem (p2 + 8 * (0 + i))) [0..<DIV_ROUND_UP (n - page_io_size p1 n) PAGE_SIZE]"
      "\<forall>p \<in> set ps. p mod PAGE_SIZE = 0"
      "set ([p1..<p1 + page_io_size p1 n]) \<inter> {p2 + 8 * 0..<p2 + 8 * (0 + DIV_ROUND_UP (n - page_io_size p1 n) PAGE_SIZE)} = {}"
      "set (page_addrs ps (n - page_io_size p1 n)) \<inter> {p2 + 8 * 0..<p2 + 8 * (0 + DIV_ROUND_UP (n - page_io_size p1 n) PAGE_SIZE)} = {}"
proof -
  let ?r = "n - page_io_size p1 n"
  consider "?r = 0" | "0 < ?r" "?r \<le> PAGE_SIZE" | "PAGE_SIZE < ?r" by linarith
  then show thesis
  proof cases
    case 3
    let ?ps = "map (\<lambda>i. u64_at mem (p2 + 8 * (0 + i))) [0..<DIV_ROUND_UP ?r PAGE_SIZE]"
    have e: "prp_entries mem p1 p2 n = p1 # ?ps" using 3 unfolding prp_entries_def Let_def by simp
    have "prp_cells p1 p2 n = {p2 + 8 * 0..<p2 + 8 * (0 + DIV_ROUND_UP ?r PAGE_SIZE)}"
      using 3 by (simp add: prp_cells_def)
    with assms(2) have "(\<forall>p \<in> set ?ps. p mod PAGE_SIZE = 0) \<and>
      (set [p1..<p1 + page_io_size p1 n] \<union> set (page_addrs ?ps ?r)) \<inter> {p2 + 8 * 0..<p2 + 8 * (0 + DIV_ROUND_UP ?r PAGE_SIZE)} = {}"
      unfolding prp_ok_def e list.sel page_addrs.simps set_append by argo
    then show thesis using list [OF 3 e refl] unfolding Int_Un_distrib2 Un_empty by blast
  qed (use assms(2) in \<open>auto simp: prp_entries_def prp_ok_def intro: one two\<close>)
qed

lemma prp_loop_spec:
  assumes "0 < n" and "prp_ok (fst s) p1 p2 n"
  shows "prp_loop dir p1 p2 n off 0 None 0 s = Some (xfer dir (page_addrs (prp_entries (fst s) p1 p2 n) n) off s)"
proof -
  let ?c = "page_io_size p1 n" and ?s = "xfer dir [p1..<p1 + page_io_size p1 n] off s"
  have first: "prp_loop dir p1 p2 n off 0 None 0 s = prp_loop dir p1 p2 (n - ?c) (off + ?c) 1 None 0 ?s"
    using assms(1) by (subst prp_loop.simps) (simp add: next_prp_def Let_def copy_page_xfer)
  from assms show ?thesis
  proof (cases rule: prp_entries_cases)
    case one
    then show ?thesis unfolding first by (subst prp_loop.simps) simp
  next
    case two
    then have "page_io_size p2 (n - ?c) = n - ?c" by simp
    then have "prp_loop dir p1 p2 (n - ?c) (off + ?c) 1 None 0 ?s = Some (xfer dir [p2..<p2 + (n - ?c)] (off + ?c) ?s)"
      using two by (subst prp_loop.simps, subst prp_loop.simps) (simp add: next_prp_def Let_def copy_page_xfer)
    then show ?thesis unfolding first using two by (simp add: xfer_append)
  next
    case (list ps)
    let ?m = "DIV_ROUND_UP (n - ?c) PAGE_SIZE"
    have inl: "in_list p2 (n - ?c) 1 None 0 p2" using list(1) by (simp add: in_list_def)
    have "u64_at (fst ?s) (p2 + 8 * (0 + i)) = u64_at (fst s) (p2 + 8 * (0 + i))" if "i < ?m" for i
    proof (rule u64_at_cong)
      fix x :: nat assume "x < 8"
      then have "p2 + 8 * (0 + i) + x \<in> {p2 + 8 * 0..<p2 + 8 * (0 + ?m)}" using that by auto
      then show "fst ?s (p2 + 8 * (0 + i) + x) = fst s (p2 + 8 * (0 + i) + x)"
        using list(5) by (intro xfer_fst_other) blast
    qed
    then have "ps = map (\<lambda>i. u64_at (fst ?s) (p2 + 8 * (0 + i))) [0..<?m]" using list(3) by simp
    then have "prp_loop dir p1 p2 (n - ?c) (off + ?c) 1 None 0 ?s = Some (xfer dir (page_addrs ps (n - ?c)) (off + ?c) ?s)"
      by (rule prp_loop_list [OF inl refl _ list(4,6)])
    then show ?thesis unfolding first using list(2) by (simp add: xfer_append)
  qed
qed

lemma collect_prps_spec:
  assumes "0 < n" and "prp_ok mem p1 p2 n" and "length (prp_entries mem p1 p2 n) < NR_PADDR"
  shows "collect_prps mem p1 p2 n 0 None 0 = Some (prp_entries mem p1 p2 n)"
proof -
  let ?c = "page_io_size p1 n"
  have "0 < NR_PADDR" "1 < NR_PADDR" by (simp_all add: NR_PADDR_def)
  then have first: "collect_prps mem p1 p2 n 0 None 0 = map_option ((#) p1) (collect_prps mem p1 p2 (n - ?c) 1 None 0)"
    using assms(1) by (subst collect_prps.simps) (simp add: next_prp_def Let_def)
  from assms(1,2) show ?thesis
  proof (cases rule: prp_entries_cases)
    case one
    then show ?thesis unfolding first by (subst collect_prps.simps) simp
  next
    case two
    then have "page_io_size p2 (n - ?c) = n - ?c" by simp
    then have "collect_prps mem p1 p2 (n - ?c) 1 None 0 = Some [p2]"
      using two by (subst collect_prps.simps, subst collect_prps.simps) (simp add: next_prp_def Let_def NR_PADDR_def)
    then show ?thesis unfolding first using two by simp
  next
    case (list ps)
    have inl: "in_list p2 (n - ?c) 1 None 0 p2" using list(1) by (simp add: in_list_def)
    have "length ps = DIV_ROUND_UP (n - ?c) PAGE_SIZE" by (subst list(3)) simp
    then have "1 + DIV_ROUND_UP (n - ?c) PAGE_SIZE < NR_PADDR" using assms(3) list(2) by simp
    from collect_prps_list [OF inl refl this list(3,4)]
    have "collect_prps mem p1 p2 (n - ?c) 1 None 0 = Some ps" .
    then show ?thesis unfolding first using list(2) by simp
  qed
qed

lemma length_buffer:
  assumes "0 < n" and "prp_ok mem p1 p2 n"
  shows "length (page_addrs (prp_entries mem p1 p2 n) n) = n"
  using assms
proof (cases rule: prp_entries_cases)
  case one
  then show ?thesis using page_io_size_le [of p1 n] by simp
next
  case two
  then show ?thesis using page_io_size_le [of p1 n] by simp
next
  case (list ps)
  have "n - page_io_size p1 n \<le> length ps * PAGE_SIZE"
    using DIV_ROUND_UP_mult [of PAGE_SIZE "n - page_io_size p1 n"] list(3) by (simp add: PAGE_SIZE_def)
  then show ?thesis using length_page_addrs [OF list(4)] page_io_size_le [of p1 n] list(2) by simp
qed

section \<open>The buffer in the words of the interface\<close>

text \<open>
  The data buffer of a command as the NVMe interface defines it: \<open>n\<close> bytes from offset \<open>prp1 mod 4096\<close> of a
  first page span \<open>prp_pages\<close> pages of 4096 bytes; the first is the page of \<^verbatim>\<open>prp1\<close>, a second and last one is
  \<^verbatim>\<open>prp2\<close>, and more than two are named by a list of 64-bit entries at \<^verbatim>\<open>prp2\<close>. Byte \<open>i\<close> is at offset
  \<open>(prp1 mod 4096 + i) mod 4096\<close> of page \<open>(prp1 mod 4096 + i) div 4096\<close>. The entries must be page aligned, and
  the buffer must not overlap the list.
\<close>

definition prp_pages :: "nat \<Rightarrow> nat \<Rightarrow> nat" where
  "prp_pages prp1 n = (prp1 mod 4096 + n + 4095) div 4096"

definition prp_page :: "bytes \<Rightarrow> nat \<Rightarrow> nat \<Rightarrow> nat \<Rightarrow> nat \<Rightarrow> nat" where
  "prp_page mem prp1 prp2 n k =
     (if k = 0 then prp1 - prp1 mod 4096
      else if prp_pages prp1 n = 2 then prp2
      else u64_at mem (prp2 + 8 * (k - 1)))"

definition prp_addr :: "bytes \<Rightarrow> nat \<Rightarrow> nat \<Rightarrow> nat \<Rightarrow> nat \<Rightarrow> nat" where
  "prp_addr mem prp1 prp2 n i =
     prp_page mem prp1 prp2 n ((prp1 mod 4096 + i) div 4096) + (prp1 mod 4096 + i) mod 4096"

definition prp_buffer :: "bytes \<Rightarrow> nat \<Rightarrow> nat \<Rightarrow> nat \<Rightarrow> nat list" where
  "prp_buffer mem prp1 prp2 n = map (prp_addr mem prp1 prp2 n) [0..<n]"

definition prp_list :: "nat \<Rightarrow> nat \<Rightarrow> nat \<Rightarrow> nat set" where
  "prp_list prp1 prp2 n = (if prp_pages prp1 n \<le> 2 then {} else {prp2..<prp2 + 8 * (prp_pages prp1 n - 1)})"

definition prps_fit :: "bytes \<Rightarrow> nat \<Rightarrow> nat \<Rightarrow> nat \<Rightarrow> bool" where
  "prps_fit mem prp1 prp2 n \<longleftrightarrow>
     (\<forall>k. 0 < k \<and> k < prp_pages prp1 n \<longrightarrow> prp_page mem prp1 prp2 n k mod 4096 = 0) \<and>
     set (prp_buffer mem prp1 prp2 n) \<inter> prp_list prp1 prp2 n = {}"

lemma page_io_size_eq: "page_io_size p n = min n (PAGE_SIZE - p mod PAGE_SIZE)"
  by (auto simp: page_io_size_def Let_def PAGE_SIZE_def min_def)

lemma prp_pages_step:
  assumes "0 < n"
  shows "prp_pages p n = Suc (DIV_ROUND_UP (n - page_io_size p n) PAGE_SIZE)"
proof (cases "n \<le> PAGE_SIZE - p mod PAGE_SIZE")
  case True
  then have "(p mod 4096 + n + 4095) div 4096 = 1" using assms by (intro div_nat_eqI) (simp_all add: PAGE_SIZE_def)
  then show ?thesis using True by (simp add: prp_pages_def page_io_size_eq)
next
  case False
  let ?r = "n - (PAGE_SIZE - p mod PAGE_SIZE)"
  have "p mod 4096 + n + 4095 = 4096 + (?r + 4095)" using False by (simp add: PAGE_SIZE_def)
  then have "prp_pages p n = Suc ((?r + 4095) div 4096)" unfolding prp_pages_def by simp
  then show ?thesis using False by (simp add: page_io_size_eq DIV_ROUND_UP_def PAGE_SIZE_def)
qed

lemma DIV_ROUND_UP_page_1: "0 < r \<Longrightarrow> DIV_ROUND_UP r PAGE_SIZE = 1 \<longleftrightarrow> r \<le> PAGE_SIZE"
  using DIV_ROUND_UP_page_step [of r] DIV_ROUND_UP_page_step [of "r - PAGE_SIZE"] by (cases "r \<le> PAGE_SIZE") (simp_all add: min_def)

lemma prp_entries_pages:
  assumes "0 < n"
  shows "prp_entries mem p1 p2 n = p1 # map (\<lambda>k. prp_page mem p1 p2 n (Suc k)) [0..<prp_pages p1 n - 1]"
proof -
  let ?r = "n - page_io_size p1 n"
  note s = prp_pages_step [OF assms, of p1]
  consider "?r = 0" | "0 < ?r" "?r \<le> PAGE_SIZE" | "PAGE_SIZE < ?r" by linarith
  then show ?thesis
  proof cases
    case 1
    then show ?thesis by (simp add: prp_entries_def s)
  next
    case 2
    have "prp_pages p1 n = 2" using s DIV_ROUND_UP_page_1 [OF 2(1)] 2(2) by simp
    then show ?thesis using 2 by (simp add: prp_entries_def prp_page_def)
  next
    case 3
    then have "prp_pages p1 n \<noteq> 2" using s DIV_ROUND_UP_page_1 [of ?r] by simp
    then show ?thesis using 3 by (simp add: prp_entries_def prp_page_def s Let_def)
  qed
qed

lemma page_addrs_nth:
  assumes "\<forall>p \<in> set ps. p mod PAGE_SIZE = 0" and "r \<le> length ps * PAGE_SIZE"
  shows "page_addrs ps r = map (\<lambda>i. ps ! (i div PAGE_SIZE) + i mod PAGE_SIZE) [0..<r]"
proof (rule nth_equalityI)
  show "length (page_addrs ps r) = length (map (\<lambda>i. ps ! (i div PAGE_SIZE) + i mod PAGE_SIZE) [0..<r])"
    using length_page_addrs [OF assms] by simp
  have "page_addrs ps r ! i = ps ! (i div PAGE_SIZE) + i mod PAGE_SIZE" if "i < r" for i
    using assms that
  proof (induction ps arbitrary: r i)
    case (Cons p ps)
    show ?case
    proof (cases "i < PAGE_SIZE")
      case True
      then show ?thesis using Cons.prems by (simp add: nth_append)
    next
      case False
      have "page_addrs ps (r - PAGE_SIZE) ! (i - PAGE_SIZE) = ps ! ((i - PAGE_SIZE) div PAGE_SIZE) + (i - PAGE_SIZE) mod PAGE_SIZE"
        using Cons.prems False by (intro Cons.IH) auto
      moreover have "i div PAGE_SIZE = Suc ((i - PAGE_SIZE) div PAGE_SIZE)" "(i - PAGE_SIZE) mod PAGE_SIZE = i mod PAGE_SIZE"
        using False by (simp_all add: le_div_geq le_mod_geq PAGE_SIZE_def)
      ultimately show ?thesis using Cons.prems False by (simp add: nth_append min_absorb2)
    qed
  qed simp
  then show "page_addrs ps r ! i = map (\<lambda>i. ps ! (i div PAGE_SIZE) + i mod PAGE_SIZE) [0..<r] ! i"
    if "i < length (page_addrs ps r)" for i using that length_page_addrs [OF assms] by simp
qed

lemma prp_buffer_eq:
  assumes n: "0 < n" and al: "\<forall>k. 0 < k \<and> k < prp_pages p1 n \<longrightarrow> prp_page mem p1 p2 n k mod 4096 = 0"
  shows "page_addrs (prp_entries mem p1 p2 n) n = prp_buffer mem p1 p2 n"
proof -
  let ?o = "p1 mod 4096" and ?c = "page_io_size p1 n" and ?f = "\<lambda>k. prp_page mem p1 p2 n (Suc k)"
  let ?r = "n - ?c" and ?ps = "map ?f [0..<prp_pages p1 n - 1]"
  have c: "?c = min n (4096 - ?o)" by (simp add: page_io_size_eq PAGE_SIZE_def)
  have s: "prp_pages p1 n - 1 = DIV_ROUND_UP ?r PAGE_SIZE" by (simp add: prp_pages_step [OF n])
  have len: "?r \<le> length ?ps * PAGE_SIZE" using DIV_ROUND_UP_mult [of PAGE_SIZE ?r] by (simp add: s [simplified] PAGE_SIZE_def)
  have "page_addrs ?ps ?r = map (\<lambda>i. ?ps ! (i div PAGE_SIZE) + i mod PAGE_SIZE) [0..<?r]"
    using al len by (intro page_addrs_nth) (auto simp: PAGE_SIZE_def)
  also have "\<dots> = map (\<lambda>i. prp_addr mem p1 p2 n (?c + i)) [0..<?r]"
  proof (rule map_cong [OF refl])
    fix i assume "i \<in> set [0..<?r]"
    then have i: "i < ?r" by simp
    have "i div 4096 < length ?ps" using i len by (simp add: less_mult_imp_div_less PAGE_SIZE_def)
    moreover have e: "?o + (?c + i) = 4096 + i" using i c by auto
    ultimately show "?ps ! (i div PAGE_SIZE) + i mod PAGE_SIZE = prp_addr mem p1 p2 n (?c + i)"
      unfolding prp_addr_def e by (simp add: PAGE_SIZE_def)
  qed
  moreover have "[p1..<p1 + ?c] = map (prp_addr mem p1 p2 n) [0..<?c]"
  proof (rule nth_equalityI)
    fix i assume "i < length [p1..<p1 + ?c]"
    then have "i < ?c" by simp
    moreover from this have "i < 4096 - ?o" using c by simp
    then have "?o + i < 4096" by linarith
    then have e: "(?o + i) div 4096 = 0" "(?o + i) mod 4096 = ?o + i" by simp_all
    ultimately show "[p1..<p1 + ?c] ! i = map (prp_addr mem p1 p2 n) [0..<?c] ! i"
      unfolding prp_addr_def by (simp add: prp_page_def e)
  qed simp
  moreover have "map (prp_addr mem p1 p2 n) [0..<n] = map (prp_addr mem p1 p2 n) [0..<?c] @ map (\<lambda>i. prp_addr mem p1 p2 n (?c + i)) [0..<?r]"
    by (rule nth_equalityI) (use page_io_size_le [of p1 n] in \<open>auto simp: nth_append\<close>)
  ultimately show ?thesis unfolding prp_entries_pages [OF n] page_addrs.simps prp_buffer_def by simp
qed

text \<open>A buffer inside one page.\<close>

lemma prp_one_page:
  assumes "prp1 mod 4096 + n \<le> 4096"
  shows "prps_fit mem prp1 prp2 n" and "prp_buffer mem prp1 prp2 n = [prp1..<prp1 + n]"
proof -
  have "prp_pages prp1 n \<le> 1" using assms div_le_mono [of "prp1 mod 4096 + n + 4095" "8191" 4096] by (simp add: prp_pages_def)
  then show "prps_fit mem prp1 prp2 n" by (simp add: prps_fit_def prp_list_def)
  have "prp_addr mem prp1 prp2 n i = prp1 + i" if "i < n" for i
  proof -
    have "prp1 mod 4096 + i < 4096" using that assms by simp
    then show ?thesis using div_mult_mod_eq [of prp1 4096] by (simp add: prp_addr_def prp_page_def)
  qed
  then have "prp_buffer mem prp1 prp2 n = map (\<lambda>i. prp1 + i) [0..<n]" by (simp add: prp_buffer_def)
  then show "prp_buffer mem prp1 prp2 n = [prp1..<prp1 + n]" by (simp add: map_add_upt add.commute)
qed

lemma prps_fit_ok:
  assumes "0 < n" and "prps_fit mem p1 p2 n"
  shows "prp_ok mem p1 p2 n" and "page_addrs (prp_entries mem p1 p2 n) n = prp_buffer mem p1 p2 n"
    and "length (prp_entries mem p1 p2 n) = prp_pages p1 n"
proof -
  show b: "page_addrs (prp_entries mem p1 p2 n) n = prp_buffer mem p1 p2 n"
    using assms by (intro prp_buffer_eq) (auto simp: prps_fit_def)
  have "prp_cells p1 p2 n = prp_list p1 p2 n"
    using prp_pages_step [OF assms(1), of p1] DIV_ROUND_UP_page_1 [of "n - page_io_size p1 n"]
    by (cases "n - page_io_size p1 n = 0") (auto simp: prp_cells_def prp_list_def Let_def)
  moreover have "\<forall>p \<in> set (tl (prp_entries mem p1 p2 n)). p mod PAGE_SIZE = 0"
    using assms(2) unfolding prp_entries_pages [OF assms(1)] by (auto simp: prps_fit_def PAGE_SIZE_def)
  ultimately show "prp_ok mem p1 p2 n" using assms(2) unfolding prp_ok_def b prps_fit_def by simp
  show "length (prp_entries mem p1 p2 n) = prp_pages p1 n"
    using prp_entries_pages [OF assms(1), of mem p1 p2] prp_pages_step [OF assms(1), of p1] by simp
qed

section \<open>Runs of adjacent pages\<close>

lemma adjacent_run_spec:
  assumes "adjacent_run p ps sz = (sz', ps')"
  obtains k where "ps = map (\<lambda>i. p + PAGE_SIZE * Suc i) [0..<k] @ ps'" and "sz' = sz + PAGE_SIZE * k"
proof -
  have "\<exists>k. ps = map (\<lambda>i. p + PAGE_SIZE * Suc i) [0..<k] @ ps' \<and> sz' = sz + PAGE_SIZE * k"
    using assms
  proof (induction p ps sz rule: adjacent_run.induct)
    case (1 p sz)
    then show ?case by (intro exI [of _ 0]) simp
  next
    case (2 p q qs sz)
    show ?case
    proof (cases "q = p + PAGE_SIZE")
      case True
      then obtain k where "qs = map (\<lambda>i. q + PAGE_SIZE * Suc i) [0..<k] @ ps'" "sz' = sz + PAGE_SIZE + PAGE_SIZE * k"
        using 2 by auto
      then show ?thesis using True by (intro exI [of _ "Suc k"]) (simp add: map_upt_Cons algebra_simps del: upt_Suc)
    next
      case False
      then show ?thesis using 2 by (intro exI [of _ 0]) simp
    qed
  qed
  then show thesis using that by blast
qed

lemma page_addrs_run:
  assumes "p mod PAGE_SIZE = 0"
  shows "page_addrs (map (\<lambda>i. p + PAGE_SIZE * i) [0..<m] @ ps) r =
    [p..<p + min r (PAGE_SIZE * m)] @ page_addrs ps (r - min r (PAGE_SIZE * m))"
  using assms
proof (induction m arbitrary: p r)
  case (Suc m)
  let ?c = "min r PAGE_SIZE" and ?q = "p + PAGE_SIZE"
  have "map (\<lambda>i. p + PAGE_SIZE * i) [0..<Suc m] = p # map (\<lambda>i. ?q + PAGE_SIZE * i) [0..<m]"
    by (simp add: map_upt_Cons add.assoc del: upt_Suc)
  then have step: "page_addrs (map (\<lambda>i. p + PAGE_SIZE * i) [0..<Suc m] @ ps) r =
    [p..<p + ?c] @ [?q..<?q + min (r - ?c) (PAGE_SIZE * m)] @ page_addrs ps (r - ?c - min (r - ?c) (PAGE_SIZE * m))"
    using Suc.IH [of ?q "r - ?c"] Suc.prems by (simp only: append_Cons page_addrs.simps) simp
  show ?case
  proof (cases "r \<le> PAGE_SIZE")
    case True
    then show ?thesis unfolding step by (simp add: min_def)
  next
    case False
    then have "?q + min (r - PAGE_SIZE) (PAGE_SIZE * m) = p + min r (PAGE_SIZE * Suc m)" by auto
    then have "[p..<?q] @ [?q..<?q + min (r - PAGE_SIZE) (PAGE_SIZE * m)] = [p..<p + min r (PAGE_SIZE * Suc m)]"
      by (metis le_add1 upt_add_eq_append)
    moreover have "r - PAGE_SIZE - min (r - PAGE_SIZE) (PAGE_SIZE * m) = r - min r (PAGE_SIZE * Suc m)" "min r PAGE_SIZE = PAGE_SIZE"
      using False by auto
    ultimately show ?thesis unfolding step by (simp only: append_assoc [symmetric])
  qed
qed simp

lemma dma_loop_spec:
  assumes "\<forall>i. ok i" and "\<forall>p \<in> set (tl ps). p mod PAGE_SIZE = 0" and "length (page_addrs ps r) = r"
  shows "dma_loop ok dir ps r off s = Some (xfer dir (page_addrs ps r) off s)"
  using assms
proof (induction ok dir ps r off s rule: dma_loop.induct)
  case (1 ok dir ps r off s)
  show ?case
  proof (cases "r = 0")
    case False
    then obtain p rest where ps: "ps = p # rest" using "1.prems"(3) by (cases ps) auto
    obtain sz rest' where run: "adjacent_run p rest (page_io_size p r) = (sz, rest')" by (meson surj_pair)
    then obtain k where k: "rest = map (\<lambda>i. p + PAGE_SIZE * Suc i) [0..<k] @ rest'" "sz = page_io_size p r + PAGE_SIZE * k"
      by (rule adjacent_run_spec)
    have split: "page_addrs ps r = [p..<p + min r sz] @ page_addrs rest' (r - min r sz)"
    proof (cases k)
      case 0
      then show ?thesis using k ps page_io_size_le [of p r] by (simp add: min_absorb2)
    next
      case (Suc k')
      then have "p + PAGE_SIZE \<in> set rest" using k by (auto simp: image_iff intro!: bexI [of _ 0])
      then have p: "p mod PAGE_SIZE = 0" using "1.prems"(2) ps by auto
      have "ps = map (\<lambda>i. p + PAGE_SIZE * i) [0..<Suc k] @ rest'"
        using ps k(1) by (simp add: map_upt_Cons del: upt_Suc)
      moreover have "min r (PAGE_SIZE * Suc k) = min r sz" using p k(2) by (simp add: min_def)
      ultimately show ?thesis using page_addrs_run [OF p, of "Suc k" rest' r] by (simp del: upt_Suc mult_Suc_right)
    qed
    have "\<forall>q \<in> set (tl rest'). q mod PAGE_SIZE = 0" using "1.prems"(2) ps k(1) by (cases rest') auto
    moreover have "length (page_addrs rest' (r - min r sz)) = r - min r sz" using "1.prems"(3) unfolding split by simp
    ultimately have "dma_loop ok dir rest' (r - min r sz) (off + min r sz) (ioat_dma_submit (ok off) dir p off (min r sz) s) =
      Some (xfer dir (page_addrs rest' (r - min r sz)) (off + min r sz) (ioat_dma_submit (ok off) dir p off (min r sz) s))"
      by (intro "1.IH" [OF False ps run [symmetric] refl refl "1.prems"(1)])
    then show ?thesis using False ps run "1.prems"(1) unfolding split
      by (subst dma_loop.simps) (simp add: ioat_dma_submit_def copy_page_xfer xfer_append Let_def)
  qed (simp add: dma_loop.simps)
qed

section \<open>Commands\<close>

definition io_len :: "nvme_command \<Rightarrow> nat" where
  "io_len cmd = unat (cmd_io_size LBA_BITS cmd)"

definition cmd_prps :: "bytes \<Rightarrow> nvme_command \<Rightarrow> nat list" where
  "cmd_prps mem cmd = prp_entries mem (unat (c_prp1 cmd)) (unat (c_prp2 cmd)) (io_len cmd)"

definition cmd_buffer :: "bytes \<Rightarrow> nvme_command \<Rightarrow> nat list" where
  "cmd_buffer mem cmd = prp_buffer mem (unat (c_prp1 cmd)) (unat (c_prp2 cmd)) (io_len cmd)"

definition cmd_ok :: "bytes \<Rightarrow> nvme_command \<Rightarrow> bool" where
  "cmd_ok mem cmd \<longleftrightarrow> prps_fit mem (unat (c_prp1 cmd)) (unat (c_prp2 cmd)) (io_len cmd)"

definition cmd_pages :: "nvme_command \<Rightarrow> nat" where
  "cmd_pages cmd = prp_pages (unat (c_prp1 cmd)) (io_len cmd)"

lemma unat_of_nat_u64: "n < 2 ^ 64 \<Longrightarrow> unat (of_nat n :: u64) = n"
  by (simp add: unsigned_of_nat take_bit_nat_eq_self)

lemma shift_size:
  fixes w :: u32
  assumes "unat w \<le> 65536"
  shows "unat (scast (push_bit 9 w) :: u64) = unat w * 512"
proof -
  have "unat (push_bit 9 w) = take_bit 32 (push_bit 9 (unat w))"
    using unsigned_push_bit_eq [of 9 w, where 'a = nat] by (simp only: len_num1 len_bit0) simp
  then have "unat (push_bit 9 w) = unat w * 512"
    using assms by (simp only: push_bit_eq_mult) (simp add: take_bit_nat_eq_self)
  moreover define k where "k = int (unat w)"
  ultimately have "uint (push_bit 9 w) = k * 512" by (metis int_ops(7) of_nat_numeral uint_nat)
  moreover have k: "0 \<le> k" "k \<le> 65536" using assms by (simp_all only: k_def of_nat_0_le_iff of_nat_le_numeral_iff)
  then have "signed_take_bit 31 (k * 512) = k * 512" by (intro signed_take_bit_int_eq_self) simp_all
  ultimately have "sint (push_bit 9 w) = k * 512" by (simp only: sint_uint) simp
  moreover have "(scast (push_bit 9 w) :: u64) = word_of_int (sint (push_bit 9 w))" by (rule scast_eq)
  ultimately have "uint (scast (push_bit 9 w) :: u64) = take_bit 64 (k * 512)" by (simp only: uint_word_of_int_eq) simp
  also have "\<dots> = k * 512" using k by (intro take_bit_int_eq_self) simp_all
  finally have "unat (scast (push_bit 9 w) :: u64) = nat (int (unat w * 512))" by (simp only: unat_eq_nat_uint k_def of_nat_mult of_nat_numeral)
  then show ?thesis by (simp only: nat_int)
qed

lemma io_len_eq: "io_len cmd = (unat (rw_length cmd) + 1) * 512"
proof -
  have l: "unat (rw_length cmd) < 65536" using unsigned_less [of "rw_length cmd", where 'a = nat] by simp
  then have "unat (ucast (rw_length cmd) + 1 :: u32) = unat (rw_length cmd) + 1"
    by (simp add: unat_word_ariths unsigned_ucast_eq take_bit_nat_eq_self)
  then show ?thesis using l shift_size [of "ucast (rw_length cmd) + 1"] by (simp add: io_len_def cmd_io_size_def LBA_BITS_def)
qed

lemma io_len_pos: "0 < io_len cmd"
  by (simp add: io_len_eq)

lemma length_cmd_buffer: "length (cmd_buffer mem cmd) = io_len cmd"
  by (simp add: cmd_buffer_def prp_buffer_def)

lemma cmd_ok_prps:
  assumes "cmd_ok mem cmd"
  shows "prp_ok mem (unat (c_prp1 cmd)) (unat (c_prp2 cmd)) (io_len cmd)"
    and "page_addrs (cmd_prps mem cmd) (io_len cmd) = cmd_buffer mem cmd" and "length (cmd_prps mem cmd) = cmd_pages cmd"
  using prps_fit_ok [OF io_len_pos] assms by (simp_all add: cmd_ok_def cmd_buffer_def cmd_prps_def cmd_pages_def)

lemma do_perform_io_xfer:
  assumes "cmd_ok mem cmd"
  shows "do_perform_io cmd (mem, st) =
    (let (mem', stor') = xfer (rw_op (c_opcode cmd)) (cmd_buffer mem cmd) (unat (cmd_io_offset LBA_BITS cmd)) (mem, st (c_nsid cmd - 1)) in
     Some (io_len cmd, mem', st(c_nsid cmd - 1 := stor')))"
  using prp_loop_spec [OF io_len_pos [of cmd], of "(mem, st (c_nsid cmd - 1))" "unat (c_prp1 cmd)" "unat (c_prp2 cmd)"] cmd_ok_prps [OF assms]
  by (simp add: do_perform_io_def cmd_prps_def io_len_def split: prod.splits)

lemma do_perform_io_using_dma_xfer:
  assumes "cmd_ok mem cmd" and "\<forall>i. ok i" and "cmd_pages cmd < NR_PADDR"
  shows "do_perform_io_using_dma ok cmd (mem, st) =
    (let (mem', stor') = xfer (rw_op (c_opcode cmd)) (cmd_buffer mem cmd) (unat (cmd_io_offset LBA_BITS cmd)) (mem, st 0) in
     Some (io_len cmd, mem', st(0 := stor')))"
proof -
  note p = cmd_ok_prps [OF assms(1)]
  have "collect_prps mem (unat (c_prp1 cmd)) (unat (c_prp2 cmd)) (io_len cmd) 0 None 0 = Some (cmd_prps mem cmd)"
    unfolding cmd_prps_def using assms(3) p by (intro collect_prps_spec io_len_pos) (simp_all add: cmd_prps_def)
  moreover have "dma_loop ok (rw_op (c_opcode cmd)) (cmd_prps mem cmd) (io_len cmd) off s =
    Some (xfer (rw_op (c_opcode cmd)) (cmd_buffer mem cmd) off s)" for off s
    using assms(2) dma_loop_spec [of ok "cmd_prps mem cmd" "io_len cmd"] p length_cmd_buffer
    by (simp add: prp_ok_def cmd_prps_def)
  ultimately show ?thesis by (simp add: do_perform_io_using_dma_def io_len_def split: prod.splits)
qed

lemma do_perform_io_write:
  assumes "rw_op (c_opcode w) = To_Device" and "cmd_ok mem w"
  shows "do_perform_io w (mem, st) = Some (io_len w, mem, st(c_nsid w - 1 :=
    scatter (st (c_nsid w - 1)) [unat (cmd_io_offset LBA_BITS w)..<unat (cmd_io_offset LBA_BITS w) + io_len w] (map mem (cmd_buffer mem w))))"
  using do_perform_io_xfer [OF assms(2), of st] assms(1) length_cmd_buffer by (simp add: xfer_def)

lemma do_perform_io_read:
  assumes "rw_op (c_opcode r) = From_Device" and "cmd_ok mem r"
  shows "do_perform_io r (mem, st) = Some (io_len r, scatter mem (cmd_buffer mem r)
    (map (st (c_nsid r - 1)) [unat (cmd_io_offset LBA_BITS r)..<unat (cmd_io_offset LBA_BITS r) + io_len r]), st)"
  using do_perform_io_xfer [OF assms(2), of st] assms(1) length_cmd_buffer by (simp add: xfer_def)

section \<open>Properties\<close>

text \<open>
  C10: A read returns what was written. A write of a host buffer, whether one page, two pages or a PRP list and at
  any offset into its first page, with page-aligned further entries, followed by a read of the same blocks into another buffer, of host memory
  that may have changed in between, puts exactly the written bytes into the read buffer and changes
  nothing else in memory; both report the full length, and the write changes no byte outside its range.
\<close>

theorem write_read_roundtrip:
  assumes "rw_op (c_opcode w) = To_Device" and "rw_op (c_opcode r) = From_Device"
    and "rw_slba r = rw_slba w" and "rw_length r = rw_length w" and "c_nsid r = c_nsid w"
    and "cmd_ok mem w" and "cmd_ok mem' r" and "distinct (cmd_buffer mem' r)"
  shows "\<exists>st' mem''. do_perform_io w (mem, st) = Some (io_len w, mem, st') \<and>
    do_perform_io r (mem', st') = Some (io_len w, mem'', st') \<and>
    map mem'' (cmd_buffer mem' r) = map mem (cmd_buffer mem w) \<and>
    (\<forall>a. a \<notin> set (cmd_buffer mem' r) \<longrightarrow> mem'' a = mem' a) \<and>
    (\<forall>n a. n = c_nsid w - 1 \<and> unat (cmd_io_offset LBA_BITS w) \<le> a \<and> a < unat (cmd_io_offset LBA_BITS w) + io_len w \<or>
       st' n a = st n a)"
proof -
  let ?o = "unat (cmd_io_offset LBA_BITS w)" and ?n = "io_len w" and ?ns = "c_nsid w - 1"
  let ?st = "st(?ns := scatter (st ?ns) [?o..<?o + ?n] (map mem (cmd_buffer mem w)))"
  let ?mem = "scatter mem' (cmd_buffer mem' r) (map (?st ?ns) [?o..<?o + ?n])"
  have eq: "cmd_io_offset LBA_BITS r = cmd_io_offset LBA_BITS w" "io_len r = ?n"
    using assms(3,4) by (simp_all add: cmd_io_offset_def io_len_eq)
  have len: "length (cmd_buffer mem w) = ?n" "length (cmd_buffer mem' r) = ?n"
    using eq by (simp_all add: length_cmd_buffer)
  have "do_perform_io r (mem', ?st) = Some (?n, ?mem, ?st)"
    using do_perform_io_read [OF assms(2,7), of ?st] eq assms(5) by simp
  moreover have "map (?st ?ns) [?o..<?o + ?n] = map mem (cmd_buffer mem w)"
    using map_scatter [of "[?o..<?o + ?n]" "map mem (cmd_buffer mem w)" "st ?ns"] len by simp
  then have "map ?mem (cmd_buffer mem' r) = map mem (cmd_buffer mem w)"
    using map_scatter [OF assms(8), of "map mem (cmd_buffer mem w)" mem'] len by simp
  moreover have "n = ?ns \<and> ?o \<le> a \<and> a < ?o + ?n \<or> ?st n a = st n a" for n a
    using scatter_other [of a "[?o..<?o + ?n]"] by auto
  moreover have "\<forall>a. a \<notin> set (cmd_buffer mem' r) \<longrightarrow> ?mem a = mem' a" by (intro allI impI) (rule scatter_other)
  ultimately show ?thesis using do_perform_io_write [OF assms(1,6), of st] by blast
qed

text \<open>
  C11: The DMA path does what the copying path does, for commands on the first namespace (on another one it
  reads and writes the first), with well-formed PRPs that name at most 512 pages (the static table holds no
  more) and with transfers that all succeed: collecting the entries and merging adjacent pages gives
  the same memory, storage and length as copying page by page.
\<close>

theorem dma_path_equiv:
  assumes "cmd_ok mem cmd" and "cmd_pages cmd \<le> 512" and "c_nsid cmd = 1" and "\<forall>i. ok i"
  shows "do_perform_io_using_dma ok cmd (mem, st) = do_perform_io cmd (mem, st)"
  using do_perform_io_using_dma_xfer [OF assms(1,4)] do_perform_io_xfer [OF assms(1)] assms(2,3) by (simp add: NR_PADDR_def)

section \<open>Witnesses\<close>

text \<open>A list at address \<open>0\<close> with three adjacent and one distant page; five pages less the offset \<open>256\<close> into the first.\<close>

definition wit_mem :: bytes where
  "wit_mem = (\<lambda>a. if a = 1 then 0x20 else if a = 9 then 0x30 else if a = 17 then 0x40 else if a = 25 then 0x80
     else if a < 4096 then 0 else of_nat a)"

definition rw_cmd :: "u8 \<Rightarrow> u64 \<Rightarrow> u64 \<Rightarrow> u32 \<Rightarrow> u32 \<Rightarrow> nvme_command" where
  "rw_cmd opc p1 p2 slba nlb = \<lparr>c_opcode = opc, c_flags = 0, c_command_id = 0, c_nsid = 1, c_cdw2 = 0, c_cdw3 = 0,
     c_metadata = 0, c_prp1 = p1, c_prp2 = p2, c_cdw10 = slba, c_cdw11 = 0, c_cdw12 = nlb, c_cdw13 = 0, c_cdw14 = 0, c_cdw15 = 0\<rparr>"

lemma rw_cmd_sel [simp]:
  "c_opcode (rw_cmd opc p1 p2 slba nlb) = opc" "c_prp1 (rw_cmd opc p1 p2 slba nlb) = p1" "c_prp2 (rw_cmd opc p1 p2 slba nlb) = p2"
  "c_nsid (rw_cmd opc p1 p2 slba nlb) = 1" "rw_slba (rw_cmd opc p1 p2 slba nlb) = ucast slba" "rw_length (rw_cmd opc p1 p2 slba nlb) = ucast nlb"
  by (simp_all add: rw_cmd_def rw_slba_def rw_length_def)

lemma wit_pages: "prp_pages 0x1100 17920 = 5" "prp_pages 0x20000 17920 = 5"
  by (simp_all add: prp_pages_def)

lemma wit_entries:
  "prp_page wit_mem p1 0 17920 k = (if k = 0 then p1 - p1 mod 4096 else [0x2000, 0x3000, 0x4000, 0x8000] ! (k - 1))"
  if "p1 \<in> {0x1100, 0x20000}" "k < 5"
proof -
  have "k = 0 \<or> k = 1 \<or> k = 2 \<or> k = 3 \<or> k = 4" using that(2) by auto
  then show ?thesis using that(1)
    by (auto simp: prp_page_def wit_pages u64_at_def wit_mem_def upt_conv_Cons horner_sum_simps)
qed

lemma ivl_disjoint: "b \<le> c \<or> d \<le> a \<Longrightarrow> {a..<b} \<inter> {c..<d} = {}" for a b c d :: nat
  by auto

lemma wit_len: "io_len (rw_cmd opc p1 p2 slba 34) = 17920"
  by (simp add: io_len_eq)

text \<open>The page of a byte of the two buffers, and that no byte is in the list.\<close>

lemma wit_addr:
  assumes "p1 \<in> {0x1100, 0x20000}" and "i < 17920"
  shows "prp_addr wit_mem p1 0 17920 i = (if p1 mod 4096 + i < 4096 then p1 + i
    else [0x2000, 0x3000, 0x4000, 0x8000] ! ((p1 mod 4096 + i) div 4096 - 1) + (p1 mod 4096 + i) mod 4096)"
proof -
  have "(p1 mod 4096 + i) div 4096 < 5" using assms by (auto simp: less_mult_imp_div_less)
  from wit_entries [OF assms(1) this] show ?thesis using assms(1) by (auto simp: prp_addr_def div_eq_0_iff)
qed

lemma wit_addr_ge: "p1 \<in> {0x1100, 0x20000} \<Longrightarrow> i < 17920 \<Longrightarrow> 32 \<le> prp_addr wit_mem p1 0 17920 i"
proof -
  assume a: "p1 \<in> {0x1100, 0x20000}" "i < 17920"
  let ?k = "(p1 mod 4096 + i) div 4096 - 1"
  have "?k = 0 \<or> ?k = 1 \<or> ?k = 2 \<or> ?k = 3" using a by (auto simp: less_mult_imp_div_less)
  then have "32 \<le> [0x2000, 0x3000, 0x4000, 0x8000 :: nat] ! ?k" by (elim disjE) simp_all
  then show "32 \<le> prp_addr wit_mem p1 0 17920 i" using a(1) unfolding wit_addr [OF a] by auto
qed

lemma page_offset_eq:
  fixes a b x y :: nat
  assumes "a * 4096 + x mod 4096 = b * 4096 + y mod 4096"
  shows "a = b \<and> x mod 4096 = y mod 4096"
  using arg_cong [OF assms, of "\<lambda>z. z div 4096"] arg_cong [OF assms, of "\<lambda>z. z mod 4096"] by simp

lemma wit_addr_inj:
  assumes "prp_addr wit_mem 0x20000 0 17920 i = prp_addr wit_mem 0x20000 0 17920 j" and "i < 17920" and "j < 17920"
  shows "i = j"
proof -
  define g :: "nat \<Rightarrow> nat" where "g k = (if k = 0 then 32 else [2, 3, 4, 8] ! (k - 1))" for k
  have pages: "x div 4096 \<in> {0, 1, 2, 3, 4}" if "x < 17920" for x :: nat using that by auto
  have g: "prp_addr wit_mem 0x20000 0 17920 x = g (x div 4096) * 4096 + x mod 4096" if "x < 17920" for x
  proof -
    have m: "(0x20000 :: nat) mod 4096 = 0" by simp
    show ?thesis using pages [OF that] wit_addr [of "0x20000" x] that unfolding m by (auto simp: g_def div_eq_0_iff)
  qed
  have e: "g (i div 4096) = g (j div 4096)" "i mod 4096 = j mod 4096"
    using page_offset_eq assms g [of i] g [of j] by metis+
  have "inj_on g {0, 1, 2, 3, 4}" by (simp add: g_def)
  from inj_onD [OF this e(1) pages [OF assms(2)] pages [OF assms(3)]] e(2) show ?thesis by (metis div_mult_mod_eq)
qed

lemma wit_ok:
  "cmd_ok wit_mem (rw_cmd opc 0x1100 0 8 34)" "cmd_ok wit_mem (rw_cmd opc 0x20000 0 8 34)"
  "distinct (cmd_buffer wit_mem (rw_cmd opc 0x20000 0 8 34))" "cmd_pages (rw_cmd opc 0x1100 0 8 34) \<le> 512"
proof -
  have f: "prps_fit wit_mem p1 0 17920" if p: "p1 \<in> {0x1100, 0x20000}" for p1
  proof -
    have n: "prp_pages p1 17920 = 5" using p wit_pages by auto
    have "prp_page wit_mem p1 0 17920 k mod 4096 = 0" if "0 < k" "k < 5" for k
    proof -
      have "k = 1 \<or> k = 2 \<or> k = 3 \<or> k = 4" using that by auto
      then show ?thesis unfolding wit_entries [OF p that(2)] by (elim disjE) simp_all
    qed
    moreover have "set (prp_buffer wit_mem p1 0 17920) \<inter> prp_list p1 0 17920 = {}"
      using wit_addr_ge [OF p] by (force simp: prp_buffer_def prp_list_def n)
    ultimately show ?thesis by (simp add: prps_fit_def n)
  qed
  show "cmd_ok wit_mem (rw_cmd opc 0x1100 0 8 34)" "cmd_ok wit_mem (rw_cmd opc 0x20000 0 8 34)"
    unfolding cmd_ok_def wit_len rw_cmd_sel using f by simp_all
  show "cmd_pages (rw_cmd opc 0x1100 0 8 34) \<le> 512"
    unfolding cmd_pages_def wit_len rw_cmd_sel by (simp add: wit_pages)
  have "inj_on (prp_addr wit_mem 0x20000 0 17920) {0..<17920}" using wit_addr_inj by (simp add: inj_on_def)
  then show "distinct (cmd_buffer wit_mem (rw_cmd opc 0x20000 0 8 34))"
    unfolding cmd_buffer_def wit_len rw_cmd_sel by (simp add: prp_buffer_def distinct_map)
qed

theorem write_read_roundtrip_witness:
  "\<exists>st' mem''. do_perform_io (rw_cmd nvme_cmd_write 0x1100 0 8 34) (wit_mem, \<lambda>_ _. 0) = Some (17920, wit_mem, st') \<and>
    do_perform_io (rw_cmd nvme_cmd_read 0x20000 0 8 34) (wit_mem, st') = Some (17920, mem'', st') \<and>
    mem'' 0x20000 = wit_mem 0x1100 \<and> mem'' 0x20F00 = wit_mem 0x2000 \<and> mem'' 0x2000 = wit_mem 0x2100"
proof -
  let ?w = "rw_cmd nvme_cmd_write 0x1100 0 8 34" and ?r = "rw_cmd nvme_cmd_read 0x20000 0 8 34"
  have op: "rw_op (c_opcode ?w) = To_Device" "rw_op (c_opcode ?r) = From_Device"
    by (simp_all add: rw_op_def nvme_cmd_write_def nvme_cmd_read_def nvme_cmd_zone_append_def)
  obtain st' mem'' where io: "do_perform_io ?w (wit_mem, \<lambda>_ _. 0) = Some (17920, wit_mem, st')"
      "do_perform_io ?r (wit_mem, st') = Some (17920, mem'', st')"
    and b: "map mem'' (cmd_buffer wit_mem ?r) = map wit_mem (cmd_buffer wit_mem ?w)"
    using write_read_roundtrip [OF op _ _ _ wit_ok(1) wit_ok(2,3), of "\<lambda>_ _. 0"] unfolding wit_len by auto
  have at: "mem'' (prp_addr wit_mem 0x20000 0 17920 i) = wit_mem (prp_addr wit_mem 0x1100 0 17920 i)" if "i < 17920" for i
    using arg_cong [OF b, of "\<lambda>xs. xs ! i"] that unfolding cmd_buffer_def wit_len rw_cmd_sel prp_buffer_def by simp
  have "mem'' 0x20000 = wit_mem 0x1100" "mem'' 0x20F00 = wit_mem 0x2000" "mem'' 0x2000 = wit_mem 0x2100"
    using at [of 0] at [of 3840] at [of 4096] by (simp_all add: wit_addr)
  then show ?thesis using io by blast
qed

theorem dma_path_equiv_witness:
  "do_perform_io_using_dma (\<lambda>_. True) (rw_cmd nvme_cmd_write 0x1100 0 8 34) (wit_mem, \<lambda>_ _. 0) =
   do_perform_io (rw_cmd nvme_cmd_write 0x1100 0 8 34) (wit_mem, \<lambda>_ _. 0)"
  by (rule dma_path_equiv [OF wit_ok(1,4)]) simp_all

end
