(* ===== verification/Host_Layout.thy ===== *)
theory Host_Layout
  imports Graph_Host Data_Path
begin

text \<open>
  How the graph gets onto the devices: \<^verbatim>\<open>init_csds_data\<close> of \<^verbatim>\<open>user/init_csd_edge.c\<close> writes the out-degree file to every
  device and spreads each edge block over the devices, in pages of 4096 bytes; the request goes through
  \<^verbatim>\<open>nvme_submit_io\<close> of \<^verbatim>\<open>kernel_ioctl/ioctl.c\<close> and the data path of the device. A file is its list of bytes. The call that
  submits a request is the argument \<open>io_submit\<close> with the interface \<open>page_store\<close>; the kernel's mapping of the
  user's page-aligned buffer is a page frame. Sizes and offsets (\<^verbatim>\<open>long long\<close>) are natural numbers. \<open>None\<close>
  stands for a read of a negative number of bytes, which overruns the buffer.
\<close>

unbundle bit_operations_syntax

section \<open>Requests\<close>

definition SECTOR_SIZE :: nat where "SECTOR_SIZE = 512"
definition NUM_SECTORS :: nat where "NUM_SECTORS = 8"
definition buffer_size :: nat where "buffer_size = SECTOR_SIZE * NUM_SECTORS"

record nvme_user_io =
  io_opcode :: u8
  io_flags :: u8
  io_control :: u16
  io_nblocks :: u16
  io_metadata :: u64
  io_addr :: u64
  io_slba :: u64
  io_dsmgmt :: u32
  io_reftag :: u32
  io_apptag :: u16
  io_appmask :: u16

definition setup_nvme_command :: "u64 \<Rightarrow> u8 \<Rightarrow> u64 \<Rightarrow> nvme_user_io" where
  "setup_nvme_command buffer opcode slba =
     \<lparr>io_opcode = opcode, io_flags = 0, io_control = 0, io_nblocks = of_nat (NUM_SECTORS - 1), io_metadata = 0,
      io_addr = buffer, io_slba = slba, io_dsmgmt = 0, io_reftag = 0, io_apptag = 0, io_appmask = 0\<rparr>"

text \<open>\<^verbatim>\<open>setup_nvme_csd_proc_edge_command\<close>: the command that carries the address of a task.\<close>

definition nvme_cmd_csd_proc_edge :: u8 where "nvme_cmd_csd_proc_edge = 0x66"
definition nvme_cmd_compare :: u8 where "nvme_cmd_compare = 0x05"

definition setup_nvme_csd_proc_edge_command :: "u64 \<Rightarrow> u16 \<Rightarrow> nvme_user_io" where
  "setup_nvme_csd_proc_edge_command task_addr is_sync =
     \<lparr>io_opcode = nvme_cmd_csd_proc_edge, io_flags = 0, io_control = 0, io_nblocks = 0, io_metadata = 0,
      io_addr = task_addr, io_slba = 0, io_dsmgmt = 0, io_reftag = 0, io_apptag = is_sync, io_appmask = 0\<rparr>"

text \<open>The namespace as the driver sees it: block size, metadata size, whether metadata is inline, number.\<close>

record nvme_ns =
  lba_shift :: nat
  ns_ms :: u32
  ns_ext_lbas :: bool
  ns_id :: u32

definition EFAULT :: int where "EFAULT = 14"
definition EINVAL :: int where "EINVAL = 22"

text \<open>
  \<^verbatim>\<open>nvme_submit_io\<close> up to the call of \<^verbatim>\<open>nvme_submit_user_cmd\<close>: an error, or the command with the length of its
  data and of its metadata. \<open>copied\<close> says that the request could be copied from user space.
\<close>

definition NVME_RW_PRINFO_PRACT :: u16 where "NVME_RW_PRINFO_PRACT = push_bit 13 1"

definition rw_command :: "nvme_ns \<Rightarrow> nvme_user_io \<Rightarrow> nvme_command" where
  "rw_command ns io =
     \<lparr>c_opcode = io_opcode io, c_flags = io_flags io, c_command_id = 0, c_nsid = ns_id ns, c_cdw2 = 0, c_cdw3 = 0,
      c_metadata = 0, c_prp1 = 0, c_prp2 = 0, c_cdw10 = ucast (io_slba io), c_cdw11 = ucast (drop_bit 32 (io_slba io)),
      c_cdw12 = push_bit 16 (ucast (io_control io)) OR ucast (io_nblocks io), c_cdw13 = io_dsmgmt io,
      c_cdw14 = io_reftag io, c_cdw15 = push_bit 16 (ucast (io_appmask io)) OR ucast (io_apptag io)\<rparr>"

definition nvme_submit_io :: "nvme_ns \<Rightarrow> bool \<Rightarrow> nvme_user_io \<Rightarrow> int + nvme_command \<times> u32 \<times> u32" where
  "nvme_submit_io ns copied io =
     (if \<not> copied then Inl (- EFAULT)
      else if io_flags io \<noteq> 0 then Inl (- EINVAL)
      else if \<not> (io_opcode io = nvme_cmd_csd_proc_edge \<or> io_opcode io = nvme_cmd_write \<or>
                 io_opcode io = nvme_cmd_read \<or> io_opcode io = nvme_cmd_compare) then Inl (- EINVAL)
      else
        let len = push_bit (lba_shift ns) (ucast (io_nblocks io) + 1);
            stripped = io_control io AND NVME_RW_PRINFO_PRACT \<noteq> 0 \<and> ns_ms ns = 8;
            meta_len = (if stripped then 0 else (ucast (io_nblocks io) + 1) * ns_ms ns) in
        if stripped \<and> io_metadata io \<noteq> 0 then Inl (- EINVAL)
        else if ns_ext_lbas ns then Inr (rw_command ns io, len + meta_len, 0)
        else if meta_len \<noteq> 0 \<and> (io_metadata io AND 3 \<noteq> 0 \<or> io_metadata io = 0) then Inl (- EINVAL)
        else Inr (rw_command ns io, len, meta_len))"

section \<open>Writing the files\<close>

type_synonym 'd io_submit = "nat \<Rightarrow> nvme_user_io \<Rightarrow> u8 list \<Rightarrow> 'd \<Rightarrow> (int \<times> 'd) option"

record dataset =
  ds_outdegrees :: "u8 list"
  ds_block :: "nat \<Rightarrow> nat \<Rightarrow> u8 list"

record 'd layout =
  l_base :: "nat \<Rightarrow> nat"
  l_slba :: "nat \<Rightarrow> nat \<Rightarrow> nat \<Rightarrow> nat"
  l_len :: "nat \<Rightarrow> nat \<Rightarrow> nat \<Rightarrow> nat"
  l_buf :: "u8 list"
  l_dev :: 'd

text \<open>\<^verbatim>\<open>fread(buffer, 1, n, file)\<close>: the number of bytes read, the buffer, the rest of the file.\<close>

definition fread :: "nat \<Rightarrow> u8 list \<Rightarrow> u8 list \<Rightarrow> nat \<times> u8 list \<times> u8 list" where
  "fread n buf f = (let k = min n (length f) in (k, take k f @ drop k buf, drop k f))"

text \<open>A write request of the buffer at a byte offset, then \<^verbatim>\<open>memset(buffer, 0, buffer_size)\<close>.\<close>

definition write_page :: "'d io_submit \<Rightarrow> u64 \<Rightarrow> nat \<Rightarrow> nat \<Rightarrow> u8 list \<Rightarrow> 'd \<Rightarrow> 'd res" where
  "write_page io_submit buffer cid pos buf d =
     (case io_submit cid (setup_nvme_command buffer 0x01 (of_nat (pos div SECTOR_SIZE))) buf d of
        None \<Rightarrow> None
      | Some (ret, d) \<Rightarrow> if ret < 0 then Some (Inl (-1)) else Some (Inr d))"

function outdegree_loop :: "'d io_submit \<Rightarrow> u64 \<Rightarrow> nat \<Rightarrow> nat \<Rightarrow> u8 list \<Rightarrow> u8 list \<Rightarrow> 'd \<Rightarrow> (nat \<times> u8 list \<times> 'd) res" where
  "outdegree_loop io_submit buffer cid offset buf f d =
     (if f = [] then Some (Inr (offset, buf, d))
      else
        let (_, buf, f) = fread buffer_size buf f in
        rbind (write_page io_submit buffer cid (0 + offset) buf d)
          (outdegree_loop io_submit buffer cid (offset + buffer_size) (replicate buffer_size 0) f))"
  by pat_completeness auto
termination
  by (relation "measure (\<lambda>(_, _, _, _, _, f, _). length f)")
    (auto simp: fread_def Let_def buffer_size_def SECTOR_SIZE_def NUM_SECTORS_def neq_Nil_conv)

declare outdegree_loop.simps [simp del]

text \<open>
  The portion of a block for one device. \<^verbatim>\<open>int bytes = min(buffer_size, remaining)\<close> calls the \<^verbatim>\<open>min\<close> of two
  \<^verbatim>\<open>int\<close>s, so \<^verbatim>\<open>remaining\<close> loses its upper half.
\<close>

definition chunk_bytes :: "nat \<Rightarrow> int" where
  "chunk_bytes remaining = min (int buffer_size) (sint (of_nat remaining :: u32))"

function portion_loop ::
  "'d io_submit \<Rightarrow> u64 \<Rightarrow> nat \<Rightarrow> nat \<Rightarrow> nat \<Rightarrow> nat \<Rightarrow> u8 list \<Rightarrow> u8 list \<Rightarrow> 'd \<Rightarrow> (nat \<times> u8 list \<times> u8 list \<times> 'd) res" where
  "portion_loop io_submit buffer cid base offset remaining buf f d =
     (if remaining = 0 then Some (Inr (offset, buf, f, d))
      else if chunk_bytes remaining < 0 then None
      else
        let (_, buf, f) = fread (nat (chunk_bytes remaining)) buf f in
        rbind (write_page io_submit buffer cid (base + offset) buf d)
          (portion_loop io_submit buffer cid base (offset + buffer_size) (remaining - buffer_size) (replicate buffer_size 0) f))"
  by pat_completeness auto
termination
  by (relation "measure (\<lambda>(_, _, _, _, _, r, _). r)")
    (auto simp: buffer_size_def SECTOR_SIZE_def NUM_SECTORS_def)

declare portion_loop.simps [simp del]

definition save_outdegrees :: "'d io_submit \<Rightarrow> u64 \<Rightarrow> u8 list \<Rightarrow> nat \<Rightarrow> 'd layout \<Rightarrow> 'd layout res" where
  "save_outdegrees io_submit buffer file cid L =
     rbind (outdegree_loop io_submit buffer cid 0 (l_buf L) file (l_dev L))
       (\<lambda>(offset, buf, d). Some (Inr (L\<lparr>l_base := (l_base L)(cid := 0 + offset), l_buf := buf, l_dev := d\<rparr>)))"

definition portion_len :: "nat \<Rightarrow> nat \<Rightarrow> nat \<Rightarrow> nat" where
  "portion_len csds edge_block_size cid =
     (let num_edge = edge_block_size div nat EDGE_SIZE in
      nat EDGE_SIZE * (num_edge div csds + (if cid < num_edge mod csds then 1 else 0)))"

definition save_portion :: "'d io_submit \<Rightarrow> u64 \<Rightarrow> nat \<Rightarrow> nat \<Rightarrow> nat \<Rightarrow> u8 list \<times> 'd layout \<Rightarrow> (u8 list \<times> 'd layout) res" where
  "save_portion io_submit buffer i j cid = (\<lambda>(f, L).
     rbind (portion_loop io_submit buffer cid (l_base L cid) 0 (l_len L i j cid) (l_buf L) f (l_dev L))
       (\<lambda>(offset, buf, f, d). Some (Inr (f, L\<lparr>
          l_slba := (\<lambda>a b c. if (a, b, c) = (i, j, cid) then l_base L cid else l_slba L a b c),
          l_base := (l_base L)(cid := l_base L cid + offset), l_buf := buf, l_dev := d\<rparr>))))"

definition save_block :: "'d io_submit \<Rightarrow> u64 \<Rightarrow> nat \<Rightarrow> dataset \<Rightarrow> nat \<times> nat \<Rightarrow> 'd layout \<Rightarrow> 'd layout res" where
  "save_block io_submit buffer csds D = (\<lambda>(i, j) L.
     let file = ds_block D i j;
         L = L\<lparr>l_len := (\<lambda>a b c. if a = i \<and> b = j \<and> c < csds then portion_len csds (length file) c else l_len L a b c)\<rparr> in
     rbind (for_each (save_portion io_submit buffer i j) [0..<csds] (file, L)) (\<lambda>(_, L). Some (Inr L)))"

text \<open>\<^verbatim>\<open>init_csds_data\<close>: the buffer in host memory is reset first, then the files are written.\<close>

definition init_csds_data :: "'d io_submit \<Rightarrow> u64 \<Rightarrow> host_cfg \<Rightarrow> dataset \<Rightarrow> hmb_device \<times> 'd layout \<Rightarrow> (hmb_device \<times> 'd layout) res" where
  "init_csds_data io_submit buffer H D = (\<lambda>(hmb, L).
     rbind (for_each (save_outdegrees io_submit buffer (ds_outdegrees D)) [0..<hc_csds H] L)
       (\<lambda>L. rbind (for_each (save_block io_submit buffer (hc_csds H) D) (List.product [0..<hc_parts H] [0..<hc_parts H]) L)
         (\<lambda>L. Some (Inr (init_hmb H hmb, L)))))"

section \<open>The transport of pages\<close>

text \<open>
  What the host relies on: a write request of a page is carried out and changes these bytes of that device only.
\<close>

locale page_store =
  fixes io_submit :: "'d io_submit" and content :: "'d \<Rightarrow> nat \<Rightarrow> bytes"
  assumes submit_write: "length buf = buffer_size \<Longrightarrow> slba < 2 ^ 54 \<Longrightarrow>
    \<exists>d'. io_submit cid (setup_nvme_command buffer 0x01 (of_nat slba)) buf d = Some (0, d') \<and>
      content d' = (content d)(cid := scatter (content d cid) [SECTOR_SIZE * slba..<SECTOR_SIZE * slba + buffer_size] buf)"

text \<open>A loop that keeps an invariant of the elements processed so far.\<close>

lemma for_each_inv:
  assumes "\<And>ys x zs w. xs = ys @ x # zs \<Longrightarrow> I ys w \<Longrightarrow> \<exists>w'. f x w = Some (Inr w') \<and> I (ys @ [x]) w'" and "I [] w"
  shows "\<exists>w'. for_each f xs w = Some (Inr w') \<and> I xs w'"
proof -
  have "\<exists>w'. for_each f zs w = Some (Inr w') \<and> I xs w'" if "xs = ys @ zs" "I ys w" for ys zs w
    using that
  proof (induction zs arbitrary: ys w)
    case (Cons x zs)
    then obtain w1 where "f x w = Some (Inr w1)" "I (ys @ [x]) w1" using assms(1) by blast
    then show ?case using Cons.IH [of "ys @ [x]" w1] Cons.prems(1) by simp
  qed simp
  then show ?thesis using assms(2) by (metis append_Nil)
qed

lemma buffer_size_eq: "buffer_size = 4096"
  by (simp add: buffer_size_def SECTOR_SIZE_def NUM_SECTORS_def)

lemma DIV_ROUND_UP_buffer_step:
  "r \<noteq> 0 \<Longrightarrow> DIV_ROUND_UP r buffer_size = Suc (DIV_ROUND_UP (r - buffer_size) buffer_size)"
  using DIV_ROUND_UP_page_step [of r] by (auto simp: buffer_size_eq PAGE_SIZE_def min_def split: if_splits)

lemma chunk_bytes_eq:
  assumes "r < 2 ^ 31"
  shows "chunk_bytes r = int (min buffer_size r)"
proof -
  have "sint (of_nat r :: u32) = signed_take_bit 31 (int r)"
    using signed_of_nat [of r, where 'b = 32 and 'a = int] by simp
  also have "\<dots> = int r" using assms by (intro signed_take_bit_int_eq_self) auto
  finally show ?thesis by (simp add: chunk_bytes_def)
qed

text \<open>The bytes of a block that go to device \<open>cid\<close>.\<close>

definition portion :: "nat \<Rightarrow> u8 list \<Rightarrow> nat \<Rightarrow> u8 list" where
  "portion csds file cid =
     take (portion_len csds (length file) cid) (drop (\<Sum>c < cid. portion_len csds (length file) c) file)"

lemma portion_sum:
  "(\<Sum>c < k. portion_len csds n c) = 8 * (k * (n div 8 div csds) + min k (n div 8 mod csds))"
proof -
  have "(\<Sum>c < k. 8 * (q + (if c < r then 1 else 0))) = 8 * (k * q + min k r)" for q r :: nat
    by (induction k) (auto simp: min_def)
  from this [of "n div 8 div csds" "n div 8 mod csds"] show ?thesis by (simp add: portion_len_def EDGE_SIZE_def Let_def)
qed

lemma portion_len_mod: "portion_len csds n c mod 8 = 0"
  by (simp add: portion_len_def EDGE_SIZE_def Let_def)

lemma portion_sum_all: "0 < csds \<Longrightarrow> (\<Sum>c < csds. portion_len csds n c) = 8 * (n div 8)"
proof -
  assume "0 < csds"
  then have "min csds (n div 8 mod csds) = n div 8 mod csds" using mod_less_divisor [of csds "n div 8"] by linarith
  then show ?thesis unfolding portion_sum by (metis mult.commute mult_div_mod_eq)
qed

lemma portion_sum_le:
  assumes "c < csds"
  shows "(\<Sum>c < c. portion_len csds n c) + portion_len csds n c \<le> n"
proof -
  have "(\<Sum>c < Suc c. portion_len csds n c) \<le> (\<Sum>c < csds. portion_len csds n c)"
    using assms by (intro sum_mono2) auto
  also have "\<dots> \<le> n" using assms portion_sum_all [of csds n] by simp
  finally show ?thesis by simp
qed

lemma concat_portions: "concat (map (portion csds file) [0..<k]) = take (\<Sum>c < k. portion_len csds (length file) c) file"
  by (induction k) (simp_all add: portion_def take_add)

lemma upt_split: "[0..<n] = ys @ x # zs \<Longrightarrow> x = length ys \<and> x < n"
  by (metis add_0 append_eq_conv_conj diff_zero length_append length_upt less_add_same_cancel1 list.size(4) nth_append_length nth_upt
      zero_less_Suc add_Suc_right)

text \<open>A bound for the bytes that the out-degrees and some blocks take on a device.\<close>

definition used :: "dataset \<Rightarrow> (nat \<times> nat) list \<Rightarrow> nat" where
  "used D xs = length (ds_outdegrees D) + buffer_size + (\<Sum>(i, j) \<leftarrow> xs. length (ds_block D i j) + buffer_size)"

text \<open>The blocks in the order they are written, and what the files must satisfy.\<close>

definition blocks :: "host_cfg \<Rightarrow> (nat \<times> nat) list" where
  "blocks H = List.product [0..<hc_parts H] [0..<hc_parts H]"

definition dataset_fits :: "host_cfg \<Rightarrow> dataset \<Rightarrow> bool" where
  "dataset_fits H D \<longleftrightarrow> used D (blocks H) < 2 ^ 62 \<and>
     (\<forall>i < hc_parts H. \<forall>j < hc_parts H. \<forall>c < hc_csds H. portion_len (hc_csds H) (length (ds_block D i j)) c < 2 ^ 31)"

lemma used_append: "used D (xs @ ys) = used D xs + (\<Sum>(i, j) \<leftarrow> ys. length (ds_block D i j) + buffer_size)"
  by (simp add: used_def)

section \<open>Pages that hold bytes\<close>

text \<open>From \<open>m\<close> to \<open>m'\<close> the bytes from \<open>pos\<close> on become \<open>bs\<close>, and what lies before stays.\<close>

definition holds_at :: "bytes \<Rightarrow> bytes \<Rightarrow> nat \<Rightarrow> u8 list \<Rightarrow> bool" where
  "holds_at m m' pos bs \<longleftrightarrow> map m' [pos..<pos + length bs] = bs \<and> (\<forall>a < pos. m' a = m a)"

lemma holds_at_Nil [simp]: "holds_at m m pos []"
  by (simp add: holds_at_def)

lemma holds_at_append:
  assumes "holds_at m m1 pos as" and "holds_at m1 m2 (pos + length as) bs"
  shows "holds_at m m2 pos (as @ bs)"
proof -
  have "map m2 [pos..<pos + length as] = map m1 [pos..<pos + length as]"
    using assms(2) by (simp add: holds_at_def)
  also have "\<dots> = as" using assms(1) by (simp add: holds_at_def)
  finally have "map m2 [pos..<pos + length as] = as" .
  moreover have "[pos..<pos + length (as @ bs)] = [pos..<pos + length as] @ [pos + length as..<pos + length as + length bs]"
    using upt_add_eq_append [of pos "pos + length as" "length bs"] by (simp add: add.assoc)
  ultimately show ?thesis using assms by (simp add: holds_at_def)
qed

lemma holds_at_page:
  assumes "length buf = buffer_size" and "k \<le> buffer_size"
  shows "holds_at m (scatter m [pos..<pos + buffer_size] buf) pos (take k buf)"
proof -
  have "map (scatter m [pos..<pos + buffer_size] buf) [pos..<pos + buffer_size] = buf"
    by (rule map_scatter) (simp_all add: assms)
  then have "map (scatter m [pos..<pos + buffer_size] buf) (take k [pos..<pos + buffer_size]) = take k buf"
    by (metis take_map)
  moreover have "take k [pos..<pos + buffer_size] = [pos..<pos + length (take k buf)]" using assms by (simp add: take_upt)
  moreover have "scatter m [pos..<pos + buffer_size] buf a = m a" if "a < pos" for a
    using that by (intro scatter_other) simp
  ultimately show ?thesis by (simp add: holds_at_def)
qed

context page_store
begin

lemma write_page_ok:
  assumes "length buf = buffer_size" and "pos mod SECTOR_SIZE = 0" and "pos < 2 ^ 63" and "k \<le> buffer_size"
  shows "\<exists>d'. write_page io_submit buffer cid pos buf d = Some (Inr d') \<and>
    holds_at (content d cid) (content d' cid) pos (take k buf) \<and> (\<forall>c. c \<noteq> cid \<longrightarrow> content d' c = content d c)"
proof -
  have "pos div SECTOR_SIZE < 2 ^ 54" "SECTOR_SIZE * (pos div SECTOR_SIZE) = pos"
    using assms(2,3) by (auto simp: SECTOR_SIZE_def)
  then obtain d' where "io_submit cid (setup_nvme_command buffer 0x01 (of_nat (pos div SECTOR_SIZE))) buf d = Some (0, d')"
    "content d' = (content d)(cid := scatter (content d cid) [pos..<pos + buffer_size] buf)"
    using submit_write [OF assms(1), of "pos div SECTOR_SIZE"] by metis
  then show ?thesis using holds_at_page [OF assms(1,4)] by (intro exI [of _ d']) (simp add: write_page_def)
qed

lemma portion_loop_ok:
  assumes "r < 2 ^ 31" and "r \<le> length f" and "length buf = buffer_size"
    and "(base + offset) mod buffer_size = 0" and "base + offset + buffer_size * DIV_ROUND_UP r buffer_size < 2 ^ 63"
  shows "\<exists>buf' d'. portion_loop io_submit buffer cid base offset r buf f d =
      Some (Inr (offset + buffer_size * DIV_ROUND_UP r buffer_size, buf', drop r f, d')) \<and> length buf' = buffer_size \<and>
    holds_at (content d cid) (content d' cid) (base + offset) (take r f) \<and> (\<forall>c. c \<noteq> cid \<longrightarrow> content d' c = content d c)"
  using assms
proof (induction r arbitrary: offset buf f d rule: less_induct)
  case (less r)
  show ?case
  proof (cases "r = 0")
    case True
    then show ?thesis using less.prems by (simp add: portion_loop.simps DIV_ROUND_UP_def buffer_size_eq)
  next
    case False
    let ?c = "min buffer_size r" and ?pos = "base + offset"
    let ?buf = "take ?c f @ drop ?c buf"
    have al: "?pos mod SECTOR_SIZE = 0" using less.prems(4) by (auto simp: SECTOR_SIZE_def buffer_size_eq)
    have lt: "?pos < 2 ^ 63" and k: "?c \<le> buffer_size" using less.prems(5) by simp_all
    have buf: "length ?buf = buffer_size" "take ?c ?buf = take ?c f" using less.prems(2,3) by (auto simp: min_def)
    obtain d1 where d1: "write_page io_submit buffer cid ?pos ?buf d = Some (Inr d1)"
      "holds_at (content d cid) (content d1 cid) ?pos (take ?c f)" "\<And>c. c \<noteq> cid \<Longrightarrow> content d1 c = content d c"
      using write_page_ok [OF buf(1) al lt k, of buffer cid d] unfolding buf(2) by blast
    have dru: "DIV_ROUND_UP r buffer_size = Suc (DIV_ROUND_UP (r - buffer_size) buffer_size)"
      using False by (rule DIV_ROUND_UP_buffer_step)
    have i1: "(base + (offset + buffer_size)) mod buffer_size = 0"
      using less.prems(4) by (metis add.assoc mod_add_self2)
    have i2: "r - buffer_size \<le> length (drop ?c f)" using less.prems(2) by (auto simp: min_def)
    have i3: "base + (offset + buffer_size) + buffer_size * DIV_ROUND_UP (r - buffer_size) buffer_size < 2 ^ 63"
      using less.prems(5) unfolding dru by simp
    have i4: "r - buffer_size < r" "r - buffer_size < 2 ^ 31" using False less.prems(1) by (auto simp: buffer_size_eq)
    obtain buf' d' where d': "portion_loop io_submit buffer cid base (offset + buffer_size) (r - buffer_size) (replicate buffer_size 0) (drop ?c f) d1 =
        Some (Inr (offset + buffer_size + buffer_size * DIV_ROUND_UP (r - buffer_size) buffer_size, buf', drop (r - buffer_size) (drop ?c f), d'))"
      "length buf' = buffer_size" "holds_at (content d1 cid) (content d' cid) (base + (offset + buffer_size)) (take (r - buffer_size) (drop ?c f))"
      "\<And>c. c \<noteq> cid \<Longrightarrow> content d' c = content d1 c"
      using less.IH [OF i4 i2 length_replicate i1 i3] by blast
    have "portion_loop io_submit buffer cid base offset r buf f d =
      portion_loop io_submit buffer cid base (offset + buffer_size) (r - buffer_size) (replicate buffer_size 0) (drop ?c f) d1"
      using False d1(1) less.prems(2) by (subst portion_loop.simps) (simp add: chunk_bytes_eq [OF less.prems(1)] fread_def Let_def min_absorb1)
    moreover have "holds_at (content d cid) (content d' cid) ?pos (take r f)"
    proof (cases "r \<le> buffer_size")
      case True
      then have "portion_loop io_submit buffer cid base (offset + buffer_size) (r - buffer_size) (replicate buffer_size 0) (drop ?c f) d1 =
        Some (Inr (offset + buffer_size, replicate buffer_size 0, drop ?c f, d1))" by (simp add: portion_loop.simps)
      then show ?thesis using d'(1) d1(2) True by (simp add: min_absorb2)
    next
      case False
      then have "take r f = take buffer_size f @ take (r - buffer_size) (drop buffer_size f)" by (simp add: take_add [symmetric])
      then show ?thesis using d1(2) d'(3) False less.prems(2) holds_at_append [of _ _ ?pos "take buffer_size f"]
        by (simp add: min_absorb1 add.assoc)
    qed
    ultimately show ?thesis using d'(1,2,4) d1(3) unfolding dru by (auto simp: min_def)
  qed
qed

lemma outdegree_loop_ok:
  assumes "length buf = buffer_size" and "offset mod buffer_size = 0" and "offset + buffer_size * DIV_ROUND_UP (length f) buffer_size < 2 ^ 63"
  shows "\<exists>buf' d'. outdegree_loop io_submit buffer cid offset buf f d =
      Some (Inr (offset + buffer_size * DIV_ROUND_UP (length f) buffer_size, buf', d')) \<and> length buf' = buffer_size \<and>
    holds_at (content d cid) (content d' cid) offset f \<and> (\<forall>c. c \<noteq> cid \<longrightarrow> content d' c = content d c)"
  using assms
proof (induction "length f" arbitrary: offset buf f d rule: less_induct)
  case less
  show ?case
  proof (cases "f = []")
    case True
    then show ?thesis using less.prems by (simp add: outdegree_loop.simps DIV_ROUND_UP_def buffer_size_eq)
  next
    case False
    let ?c = "min buffer_size (length f)"
    let ?buf = "take ?c f @ drop ?c buf" and ?f = "drop ?c f"
    have lt: "offset < 2 ^ 63" and k: "?c \<le> buffer_size" using less.prems(3) by simp_all
    have al: "offset mod SECTOR_SIZE = 0" using less.prems(2) by (auto simp: SECTOR_SIZE_def buffer_size_eq)
    have buf: "length ?buf = buffer_size" "take ?c ?buf = take ?c f" using less.prems(1) by (auto simp: min_def)
    obtain d1 where d1: "write_page io_submit buffer cid offset ?buf d = Some (Inr d1)"
      "holds_at (content d cid) (content d1 cid) offset (take ?c f)" "\<forall>c. c \<noteq> cid \<longrightarrow> content d1 c = content d c"
      using write_page_ok [OF buf(1) al lt k, of buffer cid d] unfolding buf(2) by blast
    have len: "length ?f = length f - buffer_size" by auto
    have dru: "DIV_ROUND_UP (length f) buffer_size = Suc (DIV_ROUND_UP (length ?f) buffer_size)"
      unfolding len using False by (intro DIV_ROUND_UP_buffer_step) simp
    have i1: "length ?f < length f" using False by (auto simp: buffer_size_eq)
    have i2: "(offset + buffer_size) mod buffer_size = 0" using less.prems(2) by simp
    have i3: "offset + buffer_size + buffer_size * DIV_ROUND_UP (length ?f) buffer_size < 2 ^ 63"
      using less.prems(3) unfolding dru by simp
    obtain buf' d' where d': "outdegree_loop io_submit buffer cid (offset + buffer_size) (replicate buffer_size 0) ?f d1 =
        Some (Inr (offset + buffer_size + buffer_size * DIV_ROUND_UP (length ?f) buffer_size, buf', d'))"
      "length buf' = buffer_size" "holds_at (content d1 cid) (content d' cid) (offset + buffer_size) ?f"
      "\<forall>c. c \<noteq> cid \<longrightarrow> content d' c = content d1 c"
      using less.hyps [OF i1 length_replicate i2 i3] by blast
    have step: "outdegree_loop io_submit buffer cid offset buf f d =
      outdegree_loop io_submit buffer cid (offset + buffer_size) (replicate buffer_size 0) ?f d1"
      using False d1(1) by (subst outdegree_loop.simps) (simp add: fread_def Let_def)
    have "holds_at (content d cid) (content d' cid) offset f"
    proof (cases "length f \<le> buffer_size")
      case True
      then have "?f = []" by simp
      then have "d' = d1" using d'(1) by (simp add: outdegree_loop.simps)
      then show ?thesis using d1(2) True by (simp add: min_absorb2)
    next
      case False
      then have "holds_at (content d cid) (content d' cid) offset (take buffer_size f @ drop buffer_size f)"
        using d1(2) d'(3) by (intro holds_at_append) (simp_all add: min_absorb1)
      then show ?thesis by simp
    qed
    then show ?thesis using step d'(1,2,4) d1(3) unfolding dru by simp
  qed
qed

section \<open>The layout\<close>

text \<open>The out-degrees are on device \<open>cid\<close>, and so is its portion of block \<open>(i, j)\<close>.\<close>

definition has_outdegrees :: "u8 list \<Rightarrow> nat \<Rightarrow> 'd layout \<Rightarrow> bool" where
  "has_outdegrees od cid L \<longleftrightarrow> map (content (l_dev L) cid) [0..<length od] = od \<and> length od \<le> l_base L cid \<and> l_base L cid mod buffer_size = 0"

definition has_portion :: "nat \<Rightarrow> dataset \<Rightarrow> nat \<Rightarrow> nat \<Rightarrow> nat \<Rightarrow> 'd layout \<Rightarrow> bool" where
  "has_portion csds D i j cid L \<longleftrightarrow> l_slba L i j cid mod buffer_size = 0 \<and> l_slba L i j cid + l_len L i j cid \<le> l_base L cid \<and>
     l_len L i j cid = portion_len csds (length (ds_block D i j)) cid \<and>
     map (content (l_dev L) cid) [l_slba L i j cid..<l_slba L i j cid + l_len L i j cid] = portion csds (ds_block D i j) cid"

text \<open>What writing a portion leaves alone: everything below the base addresses.\<close>

definition grows :: "nat \<Rightarrow> 'd layout \<Rightarrow> 'd layout \<Rightarrow> bool" where
  "grows cid L L' \<longleftrightarrow> (\<forall>c a. a < l_base L c \<longrightarrow> content (l_dev L') c a = content (l_dev L) c a) \<and>
     (\<forall>c. l_base L c \<le> l_base L' c) \<and> (\<forall>c. c \<noteq> cid \<longrightarrow> l_base L' c = l_base L c) \<and> (\<forall>c. l_base L c mod buffer_size = 0 \<longrightarrow> l_base L' c mod buffer_size = 0)"

lemma grows_content:
  assumes "grows cid L L'" and "q \<le> l_base L c"
  shows "map (content (l_dev L') c) [p..<q] = map (content (l_dev L) c) [p..<q]"
  using assms by (auto simp: grows_def)

lemma grows_outdegrees: "grows cid L L' \<Longrightarrow> has_outdegrees od c L \<Longrightarrow> has_outdegrees od c L'"
  using grows_content [of cid L L' "length od" c 0] unfolding has_outdegrees_def grows_def by (metis le_trans)

lemma grows_portion:
  assumes "grows cid L L'" and "l_slba L' i j c = l_slba L i j c" and "l_len L' i j c = l_len L i j c" and "has_portion csds D i j c L"
  shows "has_portion csds D i j c L'"
  using grows_content [OF assms(1), of "l_slba L i j c + l_len L i j c" c "l_slba L i j c"] assms
  unfolding has_portion_def grows_def by (metis le_trans)

lemma save_outdegrees_ok:
  assumes "length (l_buf L) = buffer_size" and "length od < 2 ^ 62"
  shows "\<exists>L'. save_outdegrees io_submit buffer od cid L = Some (Inr L') \<and> length (l_buf L') = buffer_size \<and>
    has_outdegrees od cid L' \<and> l_base L' cid \<le> length od + buffer_size \<and>
    (\<forall>c. c \<noteq> cid \<longrightarrow> content (l_dev L') c = content (l_dev L) c \<and> l_base L' c = l_base L c)"
proof -
  let ?n = "buffer_size * DIV_ROUND_UP (length od) buffer_size"
  have n: "length od \<le> ?n" "?n \<le> length od + buffer_size"
    using DIV_ROUND_UP_mult [of buffer_size "length od"] by (auto simp: DIV_ROUND_UP_def buffer_size_eq)
  then have "0 + ?n < 2 ^ 63" using assms(2) by (simp add: buffer_size_eq)
  from outdegree_loop_ok [OF assms(1) _ this, of buffer cid "l_dev L"]
  obtain buf' d' where "outdegree_loop io_submit buffer cid 0 (l_buf L) od (l_dev L) = Some (Inr (?n, buf', d'))"
    "length buf' = buffer_size" "holds_at (content (l_dev L) cid) (content d' cid) 0 od" "\<forall>c. c \<noteq> cid \<longrightarrow> content d' c = content (l_dev L) c"
    by auto
  then show ?thesis using n by (simp add: save_outdegrees_def has_outdegrees_def holds_at_def)
qed

lemma save_portion_ok:
  assumes "length (l_buf L) = buffer_size" and "l_base L cid mod buffer_size = 0" and "l_len L i j cid \<le> length f"
    and "l_len L i j cid < 2 ^ 31" and "l_base L cid + l_len L i j cid < 2 ^ 62"
  shows "\<exists>L'. save_portion io_submit buffer i j cid (f, L) = Some (Inr (drop (l_len L i j cid) f, L')) \<and> length (l_buf L') = buffer_size \<and>
    grows cid L L' \<and> l_len L' = l_len L \<and> (\<forall>a b c. (a, b, c) \<noteq> (i, j, cid) \<longrightarrow> l_slba L' a b c = l_slba L a b c) \<and>
    l_slba L' i j cid = l_base L cid \<and> l_slba L' i j cid + l_len L i j cid \<le> l_base L' cid \<and> l_base L' cid \<le> l_base L cid + l_len L i j cid + buffer_size \<and>
    map (content (l_dev L') cid) [l_base L cid..<l_base L cid + l_len L i j cid] = take (l_len L i j cid) f"
proof -
  let ?r = "l_len L i j cid"
  let ?n = "buffer_size * DIV_ROUND_UP ?r buffer_size"
  have n: "?r \<le> ?n" "?n \<le> ?r + buffer_size"
    using DIV_ROUND_UP_mult [of buffer_size ?r] by (auto simp: DIV_ROUND_UP_def buffer_size_eq)
  have a: "(l_base L cid + 0) mod buffer_size = 0" and b: "l_base L cid + 0 + ?n < 2 ^ 63"
    using n assms(2,5) by (simp_all add: buffer_size_eq)
  from portion_loop_ok [OF assms(4,3,1) a b, of buffer cid "l_dev L"]
  obtain buf' d' where "portion_loop io_submit buffer cid (l_base L cid) 0 ?r (l_buf L) f (l_dev L) = Some (Inr (?n, buf', drop ?r f, d'))"
    "length buf' = buffer_size" "holds_at (content (l_dev L) cid) (content d' cid) (l_base L cid) (take ?r f)"
    "\<forall>c. c \<noteq> cid \<longrightarrow> content d' c = content (l_dev L) c" by auto
  then show ?thesis using n assms(3) by (auto simp: save_portion_def holds_at_def grows_def)
qed

definition laid_out :: "nat \<Rightarrow> dataset \<Rightarrow> (nat \<times> nat) list \<Rightarrow> 'd layout \<Rightarrow> bool" where
  "laid_out csds D xs L \<longleftrightarrow> length (l_buf L) = buffer_size \<and>
     (\<forall>cid < csds. has_outdegrees (ds_outdegrees D) cid L \<and> l_base L cid \<le> used D xs) \<and>
     (\<forall>(i, j) \<in> set xs. \<forall>cid < csds. has_portion csds D i j cid L)"

text \<open>While block \<open>(i, j)\<close> is being written: the devices below \<open>k\<close> have their portions.\<close>

definition half_laid :: "nat \<Rightarrow> dataset \<Rightarrow> (nat \<times> nat) list \<Rightarrow> nat \<Rightarrow> nat \<Rightarrow> nat \<Rightarrow> u8 list \<times> 'd layout \<Rightarrow> bool" where
  "half_laid csds D xs i j k = (\<lambda>(f, L).
     f = drop (\<Sum>c < k. portion_len csds (length (ds_block D i j)) c) (ds_block D i j) \<and> length (l_buf L) = buffer_size \<and>
     (\<forall>cid < csds. has_outdegrees (ds_outdegrees D) cid L \<and> l_base L cid \<le> (if cid < k then used D (xs @ [(i, j)]) else used D xs)) \<and>
     (\<forall>(a, b) \<in> set xs. \<forall>cid < csds. has_portion csds D a b cid L) \<and> (\<forall>cid < k. has_portion csds D i j cid L) \<and>
     (\<forall>cid < csds. l_len L i j cid = portion_len csds (length (ds_block D i j)) cid))"

lemma save_portion_step:
  assumes "half_laid csds D xs i j k (f, L)" and "k < csds" and "(i, j) \<notin> set xs"
    and "portion_len csds (length (ds_block D i j)) k < 2 ^ 31" and "used D (xs @ [(i, j)]) < 2 ^ 62"
  shows "\<exists>w. save_portion io_submit buffer i j k (f, L) = Some (Inr w) \<and> half_laid csds D xs i j (Suc k) w"
proof -
  let ?n = "portion_len csds (length (ds_block D i j))"
  note half = assms(1) [unfolded half_laid_def prod.case]
  have len: "l_len L i j k = ?n k" "?n k \<le> length f" and base: "l_base L k \<le> used D xs" "l_base L k mod buffer_size = 0"
    using half assms(2) portion_sum_le [OF assms(2), of "length (ds_block D i j)"] by (auto simp: has_outdegrees_def)
  have "?n k \<le> length (ds_block D i j)" using len(2) half by simp
  then have u: "l_base L k + ?n k + buffer_size \<le> used D (xs @ [(i, j)])" using base(1) by (simp add: used_def)
  then obtain L' where L': "save_portion io_submit buffer i j k (f, L) = Some (Inr (drop (?n k) f, L'))" "length (l_buf L') = buffer_size"
    "grows k L L'" "l_len L' = l_len L" "\<forall>a b c. (a, b, c) \<noteq> (i, j, k) \<longrightarrow> l_slba L' a b c = l_slba L a b c" "l_slba L' i j k = l_base L k"
    "l_slba L' i j k + ?n k \<le> l_base L' k" "l_base L' k \<le> l_base L k + ?n k + buffer_size"
    "map (content (l_dev L') k) [l_base L k..<l_base L k + ?n k] = take (?n k) f"
    using save_portion_ok [of L k i j f buffer] half len base(2) assms(4,5) by auto
  have "has_portion csds D i j k L'"
    using L'(4,6,7,9) len(1) base(2) half by (simp add: has_portion_def portion_def)
  moreover have "has_portion csds D i j c L'" if "c < k" for c
    using that half L'(4,5) by (intro grows_portion [OF L'(3)]) auto
  ultimately have "\<forall>cid < Suc k. has_portion csds D i j cid L'" by (simp add: less_Suc_eq)
  moreover have "has_portion csds D a b c L'" if "(a, b) \<in> set xs" "c < csds" for a b c
  proof (rule grows_portion [OF L'(3)])
    have "(a, b, c) \<noteq> (i, j, k)" using that(1) assms(3) by auto
    then show "l_slba L' a b c = l_slba L a b c" using L'(5) by blast
  qed (use that half L'(4) in auto)
  moreover have "has_outdegrees (ds_outdegrees D) c L'" if "c < csds" for c
    using that half by (intro grows_outdegrees [OF L'(3)]) auto
  moreover have "l_base L' c \<le> (if c < Suc k then used D (xs @ [(i, j)]) else used D xs)" if "c < csds" for c
    using that half L'(3,8) u by (cases "c = k") (auto simp: grows_def split: if_splits)
  moreover have "drop (?n k) f = drop (\<Sum>c < Suc k. ?n c) (ds_block D i j)" using half by (simp add: add.commute)
  ultimately show ?thesis using L'(1,2,4) half by (auto simp: half_laid_def)
qed

lemma save_block_ok:
  assumes "laid_out csds D xs L" and "(i, j) \<notin> set xs" and "used D (xs @ [(i, j)]) < 2 ^ 62"
    and "\<forall>c < csds. portion_len csds (length (ds_block D i j)) c < 2 ^ 31"
  shows "\<exists>L'. save_block io_submit buffer csds D (i, j) L = Some (Inr L') \<and> laid_out csds D (xs @ [(i, j)]) L'"
proof -
  let ?n = "portion_len csds (length (ds_block D i j))"
  let ?L = "L\<lparr>l_len := (\<lambda>a b c. if a = i \<and> b = j \<and> c < csds then ?n c else l_len L a b c)\<rparr>"
  let ?I = "\<lambda>ys. half_laid csds D xs i j (length ys)"
  have "has_portion csds D a b c ?L" if "(a, b) \<in> set xs" "has_portion csds D a b c L" for a b c
    using that assms(2) by (auto simp: has_portion_def)
  then have "?I [] (ds_block D i j, ?L)" using assms(1) by (auto simp: half_laid_def laid_out_def has_outdegrees_def)
  moreover have "\<exists>w'. save_portion io_submit buffer i j x w = Some (Inr w') \<and> ?I (ys @ [x]) w'"
    if "[0..<csds] = ys @ x # zs" "?I ys w" for ys x zs w
    using that upt_split [OF that(1)] assms save_portion_step [of csds D xs i j x "fst w" "snd w" buffer] by simp
  ultimately obtain w where "for_each (save_portion io_submit buffer i j) [0..<csds] (ds_block D i j, ?L) = Some (Inr w)" "?I [0..<csds] w"
    using for_each_inv [where I = ?I] by blast
  then show ?thesis by (cases w) (auto simp: save_block_def Let_def half_laid_def laid_out_def)
qed

lemma init_csds_data_laid_out:
  assumes "dataset_fits H D" and "length (l_buf L) = buffer_size"
  shows "\<exists>L'. init_csds_data io_submit buffer H D (hmb, L) = Some (Inr (init_hmb H hmb, L')) \<and> laid_out (hc_csds H) D (blocks H) L'"
proof -
  let ?od = "ds_outdegrees D" and ?csds = "hc_csds H"
  have od: "length ?od < 2 ^ 62" using assms(1) by (simp add: dataset_fits_def used_def)
  let ?I = "\<lambda>ys L. length (l_buf L) = buffer_size \<and> (\<forall>c \<in> set ys. has_outdegrees ?od c L \<and> l_base L c \<le> length ?od + buffer_size)"
  have "\<exists>L'. for_each (save_outdegrees io_submit buffer ?od) [0..<?csds] L = Some (Inr L') \<and> ?I [0..<?csds] L'"
  proof (rule for_each_inv [where I = ?I])
    fix ys x zs and L :: "'d layout" assume I: "?I ys L"
    then obtain L' where "save_outdegrees io_submit buffer ?od x L = Some (Inr L')" "length (l_buf L') = buffer_size"
      "has_outdegrees ?od x L'" "l_base L' x \<le> length ?od + buffer_size"
      "\<forall>c. c \<noteq> x \<longrightarrow> content (l_dev L') c = content (l_dev L) c \<and> l_base L' c = l_base L c"
      using save_outdegrees_ok [of L ?od buffer x] od by blast
    moreover from this I have "has_outdegrees ?od c L' \<and> l_base L' c \<le> length ?od + buffer_size" if "c \<in> set ys" for c
      using that by (cases "c = x") (auto simp: has_outdegrees_def)
    ultimately show "\<exists>L'. save_outdegrees io_submit buffer ?od x L = Some (Inr L') \<and> ?I (ys @ [x]) L'" by auto
  qed (simp add: assms)
  then obtain L1 where L1: "for_each (save_outdegrees io_submit buffer ?od) [0..<?csds] L = Some (Inr L1)" "laid_out ?csds D [] L1"
    by (auto simp: laid_out_def used_def)
  have "\<exists>L'. for_each (save_block io_submit buffer ?csds D) (blocks H) L1 = Some (Inr L') \<and> laid_out ?csds D (blocks H) L'"
  proof (rule for_each_inv [where I = "laid_out ?csds D"])
    fix ys x zs and L :: "'d layout" assume eq: "blocks H = ys @ x # zs" and I: "laid_out ?csds D ys L"
    obtain i j where x: "x = (i, j)" by (cases x)
    have "distinct (blocks H)" by (simp add: blocks_def distinct_product)
    then have "(i, j) \<notin> set ys" unfolding eq x by simp
    moreover have "(i, j) \<in> set (blocks H)" unfolding eq x by simp
    then have "i < hc_parts H" "j < hc_parts H" by (auto simp: blocks_def)
    moreover have "used D (ys @ [(i, j)]) \<le> used D (blocks H)" unfolding eq x used_append by simp
    ultimately show "\<exists>L'. save_block io_submit buffer ?csds D x L = Some (Inr L') \<and> laid_out ?csds D (ys @ [x]) L'"
      unfolding x using assms(1) I by (intro save_block_ok) (auto simp: dataset_fits_def)
  qed (rule L1(2))
  then show ?thesis using L1(1) by (auto simp: init_csds_data_def blocks_def)
qed

text \<open>Reading the devices back gives the files.\<close>

lemma init_csds_data_roundtrip:
  assumes "dataset_fits H D" and "length (l_buf L) = buffer_size" and "0 < hc_csds H"
    and "\<forall>i < hc_parts H. \<forall>j < hc_parts H. length (ds_block D i j) mod 8 = 0"
  shows "\<exists>L'. init_csds_data io_submit buffer H D (hmb, L) = Some (Inr (init_hmb H hmb, L')) \<and>
    (\<forall>cid < hc_csds H. map (content (l_dev L') cid) [0..<length (ds_outdegrees D)] = ds_outdegrees D \<and>
       (\<forall>i < hc_parts H. \<forall>j < hc_parts H. l_slba L' i j cid mod buffer_size = 0 \<and> l_slba L' i j cid + l_len L' i j cid \<le> used D (blocks H) \<and>
          l_len L' i j cid = portion_len (hc_csds H) (length (ds_block D i j)) cid)) \<and>
    (\<forall>i < hc_parts H. \<forall>j < hc_parts H.
       concat (map (\<lambda>cid. map (content (l_dev L') cid) [l_slba L' i j cid..<l_slba L' i j cid + l_len L' i j cid]) [0..<hc_csds H]) = ds_block D i j)"
proof -
  obtain L' where L': "init_csds_data io_submit buffer H D (hmb, L) = Some (Inr (init_hmb H hmb, L'))" "laid_out (hc_csds H) D (blocks H) L'"
    using init_csds_data_laid_out [OF assms(1,2)] by blast
  have p: "has_portion (hc_csds H) D i j c L'" if "i < hc_parts H" "j < hc_parts H" "c < hc_csds H" for i j c
    using L'(2) that by (auto simp: laid_out_def blocks_def)
  have "concat (map (\<lambda>cid. map (content (l_dev L') cid) [l_slba L' i j cid..<l_slba L' i j cid + l_len L' i j cid]) [0..<hc_csds H]) = ds_block D i j"
    if "i < hc_parts H" "j < hc_parts H" for i j
  proof -
    have "map (\<lambda>cid. map (content (l_dev L') cid) [l_slba L' i j cid..<l_slba L' i j cid + l_len L' i j cid]) [0..<hc_csds H] =
      map (portion (hc_csds H) (ds_block D i j)) [0..<hc_csds H]"
      using p [OF that] unfolding has_portion_def by (intro map_cong refl) (metis atLeastLessThan_iff set_upt)
    moreover have "8 * (length (ds_block D i j) div 8) = length (ds_block D i j)"
      using that assms(4) mult_div_mod_eq [of 8 "length (ds_block D i j)"] by (metis add_0_right)
    ultimately show ?thesis using portion_sum_all [OF assms(3), of "length (ds_block D i j)"] by (simp only: concat_portions take_all_iff order_refl)
  qed
  moreover have "l_slba L' i j c + l_len L' i j c \<le> used D (blocks H)" if "i < hc_parts H" "j < hc_parts H" "c < hc_csds H" for i j c
    using p [OF that] L'(2) that by (auto simp: has_portion_def laid_out_def intro: order_trans)
  ultimately show ?thesis using L' p by (auto simp: laid_out_def has_outdegrees_def has_portion_def)
qed

end

section \<open>The devices behind the driver\<close>

definition virt_ns :: nvme_ns where
  "virt_ns = \<lparr>lba_shift = 9, ns_ms = 0, ns_ext_lbas = False, ns_id = 1\<rparr>"

text \<open>
  A request of the program: the driver builds the command, the kernel maps the page of the user's buffer as its
  first PRP entry, and the device carries it out. The state is host memory and the storage of the devices.
\<close>

definition dev_io :: "nat \<Rightarrow> (bytes \<times> (nat \<Rightarrow> u32 \<Rightarrow> bytes)) io_submit" where
  "dev_io pfn cid io buf d =
     (case nvme_submit_io virt_ns True io of
        Inl e \<Rightarrow> Some (e, d)
      | Inr (cmd, _) \<Rightarrow>
          let page = PAGE_SIZE * (pfn mod 2 ^ 52); mem = scatter (fst d) [page..<page + length buf] buf in
          (case do_perform_io (cmd\<lparr>c_prp1 := of_nat page\<rparr>) (mem, snd d cid) of
             None \<Rightarrow> None
           | Some (_, mem, st) \<Rightarrow> Some (0, mem, (snd d)(cid := st))))"

definition stored :: "bytes \<times> (nat \<Rightarrow> u32 \<Rightarrow> bytes) \<Rightarrow> nat \<Rightarrow> bytes" where
  "stored d cid = snd d cid 0"

lemma halves_u64: "push_bit 32 (ucast (ucast (drop_bit 32 x) :: u32)) OR ucast (ucast x :: u32) = (x :: u64)"
  by (rule bit_word_eqI) (auto simp: bit_simps)

lemma rw_slba_command [simp]: "rw_slba (rw_command ns io\<lparr>c_prp1 := p\<rparr>) = io_slba io"
  by (simp add: rw_slba_def rw_command_def halves_u64)

lemma rw_length_command [simp]: "rw_length (rw_command ns io\<lparr>c_prp1 := p\<rparr>) = io_nblocks io"
  unfolding rw_length_def rw_command_def by (rule bit_word_eqI) (auto simp: bit_simps)

lemma io_offset_bytes:
  assumes "slba < 2 ^ 54" and "rw_slba cmd = of_nat slba"
  shows "unat (cmd_io_offset LBA_BITS cmd) = SECTOR_SIZE * slba"
proof -
  have "unat (of_nat slba :: u64) = slba" using assms(1) by (simp add: unsigned_of_nat take_bit_nat_eq_self)
  moreover have "unat (cmd_io_offset LBA_BITS cmd) = take_bit 64 (push_bit 9 (unat (rw_slba cmd)))"
    unfolding cmd_io_offset_def LBA_BITS_def using unsigned_push_bit_eq [of 9 "rw_slba cmd", where 'a = nat] by (simp only: len_num1 len_bit0) simp
  ultimately show ?thesis using assms by (simp only: push_bit_eq_mult) (simp add: take_bit_nat_eq_self SECTOR_SIZE_def)
qed

interpretation pages: page_store "dev_io pfn" stored
proof
  fix buf :: "u8 list" and slba cid buffer and d :: "bytes \<times> (nat \<Rightarrow> u32 \<Rightarrow> bytes)"
  assume buf: "length buf = buffer_size" and slba: "slba < (2 :: nat) ^ 54"
  let ?io = "setup_nvme_command buffer 0x01 (of_nat slba)" and ?page = "PAGE_SIZE * (pfn mod 2 ^ 52)"
  let ?cmd = "rw_command virt_ns ?io\<lparr>c_prp1 := of_nat ?page\<rparr>" and ?mem = "scatter (fst d) [?page..<?page + length buf] buf"
  have drv: "nvme_submit_io virt_ns True ?io = Inr (rw_command virt_ns ?io, 4096, 0)"
    by (simp add: nvme_submit_io_def setup_nvme_command_def virt_ns_def nvme_cmd_write_def nvme_cmd_csd_proc_edge_def NUM_SECTORS_def)
  have len: "io_len ?cmd = buffer_size"
    by (simp add: io_len_eq setup_nvme_command_def NUM_SECTORS_def buffer_size_eq)
  have "?page < 2 ^ 64" using mod_less_divisor [of "2 ^ 52" pfn] by (simp add: PAGE_SIZE_def)
  then have p1: "unat (c_prp1 ?cmd) = ?page" using unat_of_nat_u64 [of ?page] by (simp del: of_nat_mult)
  have "?page mod 4096 + buffer_size \<le> 4096" by (simp add: PAGE_SIZE_def buffer_size_eq)
  note one = prp_one_page [OF this]
  have ok: "cmd_ok ?mem ?cmd" unfolding cmd_ok_def p1 len by (rule one)
  have op: "rw_op (c_opcode ?cmd) = To_Device" by (simp add: rw_op_def rw_command_def setup_nvme_command_def nvme_cmd_write_def)
  have off: "unat (cmd_io_offset LBA_BITS ?cmd) = SECTOR_SIZE * slba"
    using slba by (intro io_offset_bytes) (simp_all add: setup_nvme_command_def)
  have "map ?mem (cmd_buffer ?mem ?cmd) = buf"
    unfolding cmd_buffer_def p1 len one using buf by (simp add: map_scatter)
  moreover have "c_nsid ?cmd - 1 = 0" by (simp add: rw_command_def virt_ns_def)
  ultimately have "do_perform_io ?cmd (?mem, snd d cid) = Some (buffer_size, ?mem, (snd d cid)(0 :=
    scatter (snd d cid 0) [SECTOR_SIZE * slba..<SECTOR_SIZE * slba + buffer_size] buf))"
    using do_perform_io_write [OF op ok, of "snd d cid"] unfolding len off by simp
  then show "\<exists>d'. dev_io pfn cid ?io buf d = Some (0, d') \<and>
      stored d' = (stored d)(cid := scatter (stored d cid) [SECTOR_SIZE * slba..<SECTOR_SIZE * slba + buffer_size] buf)"
    unfolding dev_io_def drv by (simp add: Let_def stored_def fun_eq_iff)
qed

section \<open>The graph as the devices see it\<close>

text \<open>Four bytes as an \<^verbatim>\<open>int\<close>, the storage as an array of them, and the edges of a file.\<close>

definition le_int :: "u8 list \<Rightarrow> int" where
  "le_int bs = sint (of_nat (horner_sum unat 256 bs) :: u32)"

definition int_at :: "bytes \<Rightarrow> int \<Rightarrow> int" where
  "int_at m i = le_int (map m [nat (4 * i)..<nat (4 * i) + 4])"

fun edges_of :: "u8 list \<Rightarrow> (int \<times> int) list" where
  "edges_of (a # b # c # d # e # f # g # h # bs) = (le_int [a, b, c, d], le_int [e, f, g, h]) # edges_of bs"
| "edges_of bs = []"

lemma edges_of_append: "length as mod 8 = 0 \<Longrightarrow> edges_of (as @ bs) = edges_of as @ edges_of bs"
  by (induction as rule: edges_of.induct) auto

lemma edges_of_concat: "(\<forall>x \<in> set xs. length (f x) mod 8 = 0) \<Longrightarrow> edges_of (concat (map f xs)) = concat (map (\<lambda>x. edges_of (f x)) xs)"
  by (induction xs) (simp_all add: edges_of_append)

lemma upt_eight: "[b..<b + (8 + n)] = b # (b + 1) # (b + 2) # (b + 3) # (b + 4) # (b + 5) # (b + 6) # (b + 7) # [b + 8..<b + 8 + n]"
  by (simp add: upt_conv_Cons eval_nat_numeral)

lemma edge_list_bytes:
  assumes "b mod 4 = 0"
  shows "edge_list (int_at m) (int b div 4) (int b div 4 + 2 * int n) = edges_of (map m [b..<b + 8 * n])"
  using assms
proof (induction n arbitrary: b)
  case 0
  then show ?case by (simp add: edge_list.simps)
next
  case (Suc n)
  have b: "4 * (int b div 4) = int b" using Suc.prems by (metis dvd_mult_div_cancel mod_0_imp_dvd of_nat_dvd_iff of_nat_numeral)
  have "(b + 8) mod 4 = 0" using Suc.prems by presburger
  from Suc.IH [OF this] have IH: "edge_list (int_at m) (int b div 4 + 2) (int b div 4 + 2 + 2 * int n) = edges_of (map m [b + 8..<b + 8 + 8 * n])"
    using div_add_self2 [of "4 :: int" "int b + 4"] div_add_self2 [of "4 :: int" "int b"] by (simp add: add.assoc)
  have "int_at m (int b div 4) = le_int (map m [b..<b + 4])" "int_at m (int b div 4 + 1) = le_int (map m [b + 4..<b + 8])"
    using b by (simp_all add: int_at_def nat_add_distrib add.commute)
  moreover have "[b..<b + 4] = [b, b + 1, b + 2, b + 3]" "[b + 4..<b + 8] = [b + 4, b + 5, b + 6, b + 7]"
    by (simp_all add: upt_conv_Cons eval_nat_numeral)
  moreover have "edge_list (int_at m) (int b div 4) (int b div 4 + 2 * int (Suc n)) =
    (int_at m (int b div 4), int_at m (int b div 4 + 1)) # edge_list (int_at m) (int b div 4 + 2) (int b div 4 + 2 + 2 * int n)"
    by (subst edge_list.simps) (simp add: EDGE_SIZE_def VERTEX_SIZE_def algebra_simps)
  ultimately show ?case using IH upt_eight [of b "8 * n"] by simp
qed

lemma block_edges_bytes:
  assumes "b mod 4 = 0" and "len mod 8 = 0"
  shows "block_edges (int_at m) (int b) (int len) = edges_of (map m [b..<b + len])"
proof -
  have "int len div 4 = 2 * int (len div 8)" "8 * (len div 8) = len" using assms(2) by (auto simp: zdiv_int)
  then show ?thesis using edge_list_bytes [OF assms(1), of m "len div 8"] by (simp add: block_edges_def VERTEX_SIZE_def)
qed

text \<open>The configuration and the storage of the devices after the files have been written.\<close>

definition layout_cfg :: "host_cfg \<Rightarrow> 'd layout \<Rightarrow> host_cfg" where
  "layout_cfg H L = H\<lparr>hc_outdegree_slba := 0, hc_slba := (\<lambda>i j c. of_nat (l_slba L i j c)), hc_length := (\<lambda>i j c. of_nat (l_len L i j c))\<rparr>"

definition layout_env :: "(nat \<Rightarrow> csd_env) \<Rightarrow> (bytes \<times> (nat \<Rightarrow> u32 \<Rightarrow> bytes)) layout \<Rightarrow> nat \<Rightarrow> csd_env" where
  "layout_env E L cid = (E cid)\<lparr>e_storage := (\<lambda>ns. int_at (snd (l_dev L) cid ns))\<rparr>"

definition degree :: "dataset \<Rightarrow> int \<Rightarrow> int" where
  "degree D u = le_int (take 4 (drop (4 * nat u) (ds_outdegrees D)))"

definition graph_edges :: "host_cfg \<Rightarrow> dataset \<Rightarrow> (int \<times> int) list" where
  "graph_edges H D = concat (map (\<lambda>c. concat (map (\<lambda>r. edges_of (ds_block D r c)) [0..<hc_parts H])) [0..<hc_parts H])"

text \<open>The files hold a graph: one degree per vertex, whole edges, each in the block of its partitions.\<close>

definition graph_data :: "host_cfg \<Rightarrow> dataset \<Rightarrow> bool" where
  "graph_data H D \<longleftrightarrow> length (ds_outdegrees D) = 4 * hc_vertices H \<and>
     (\<forall>r < hc_parts H. \<forall>c < hc_parts H. length (ds_block D r c) mod 8 = 0 \<and>
        (\<forall>(u, v) \<in> set (edges_of (ds_block D r c)). u \<in> rng H r \<and> v \<in> rng H c \<and> degree D u \<noteq> 0))"

text \<open>One PageRank step over the edges of the files.\<close>

definition file_step :: "host_cfg \<Rightarrow> dataset \<Rightarrow> (int \<Rightarrow> rat) \<Rightarrow> int \<Rightarrow> rat" where
  "file_step H D f v = 3 / 20 + 17 / 20 * contrib (degree D) f (graph_edges H D) v"

lemma layout_cfg_sel [simp]:
  "hc_csds (layout_cfg H L) = hc_csds H" "hc_parts (layout_cfg H L) = hc_parts H" "hc_vertices (layout_cfg H L) = hc_vertices H"
  "hc_algorithm (layout_cfg H L) = hc_algorithm H" "rng (layout_cfg H L) = rng H"
  by (simp_all add: layout_cfg_def rng_def part_lo_def fun_eq_iff)

lemma layout_cfg_hmb [simp]: "init_hmb (layout_cfg H L) hmb = init_hmb H hmb"
  by (simp only: init_hmb_def layout_cfg_sel)

lemma layout_run: "exact_run H E \<Longrightarrow> exact_run (layout_cfg H L) (layout_env E L)"
  by (simp add: exact_run_def layout_cfg_def layout_env_def env_live_def)

text \<open>What the graph loops see on devices that hold the files.\<close>

definition holds_files :: "host_cfg \<Rightarrow> dataset \<Rightarrow> (bytes \<times> (nat \<Rightarrow> u32 \<Rightarrow> bytes)) layout \<Rightarrow> bool" where
  "holds_files H D L \<longleftrightarrow>
    (\<forall>cid < hc_csds H. map (stored (l_dev L) cid) [0..<length (ds_outdegrees D)] = ds_outdegrees D \<and>
       (\<forall>i < hc_parts H. \<forall>j < hc_parts H. l_slba L i j cid mod buffer_size = 0 \<and> l_slba L i j cid + l_len L i j cid \<le> used D (blocks H) \<and>
          l_len L i j cid = portion_len (hc_csds H) (length (ds_block D i j)) cid)) \<and>
    (\<forall>i < hc_parts H. \<forall>j < hc_parts H.
       concat (map (\<lambda>cid. map (stored (l_dev L) cid) [l_slba L i j cid..<l_slba L i j cid + l_len L i j cid]) [0..<hc_csds H]) = ds_block D i j)"

lemma uint_of_nat_small: "n < 2 ^ 62 \<Longrightarrow> uint (of_nat n :: u64) = int n"
  using unat_of_nat_u64 [of n] by (simp add: uint_nat)

lemma block_all_files:
  assumes "dataset_fits H D" and "holds_files H D L" and "r < hc_parts H" and "c < hc_parts H"
  shows "block_all (layout_cfg H L) (layout_env E L) r c = edges_of (ds_block D r c)"
proof -
  have "blk (layout_cfg H L) (layout_env E L) r c cid =
      edges_of (map (stored (l_dev L) cid) [l_slba L r c cid..<l_slba L r c cid + l_len L r c cid])"
    if "cid < hc_csds H" for cid
  proof -
    have h: "l_slba L r c cid mod buffer_size = 0 \<and> l_slba L r c cid + l_len L r c cid \<le> used D (blocks H) \<and>
      l_len L r c cid = portion_len (hc_csds H) (length (ds_block D r c)) cid"
      using assms(2-4) that unfolding holds_files_def by blast
    then have a: "l_slba L r c cid mod buffer_size = 0" "l_slba L r c cid + l_len L r c cid < 2 ^ 62" "l_len L r c cid mod 8 = 0"
      using assms(1) unfolding dataset_fits_def by (auto simp only: portion_len_mod intro: le_less_trans)
    have "l_slba L r c cid mod 4 = 0" using a(1) by (auto simp: buffer_size_eq)
    from block_edges_bytes [OF this a(3), of "stored (l_dev L) cid"] show ?thesis
      using a(2) by (simp add: blk_def layout_cfg_def layout_env_def uint_of_nat_small stored_def)
  qed
  then have "block_all (layout_cfg H L) (layout_env E L) r c =
    concat (map (\<lambda>cid. edges_of (map (stored (l_dev L) cid) [l_slba L r c cid..<l_slba L r c cid + l_len L r c cid])) [0..<hc_csds H])"
    unfolding block_all_def by (intro arg_cong [where f = concat] map_cong) simp_all
  also have "\<dots> = edges_of (concat (map (\<lambda>cid. map (stored (l_dev L) cid) [l_slba L r c cid..<l_slba L r c cid + l_len L r c cid]) [0..<hc_csds H]))"
    using assms by (intro edges_of_concat [symmetric]) (auto simp: holds_files_def portion_len_mod)
  also have "\<dots> = edges_of (ds_block D r c)" using assms by (simp add: holds_files_def)
  finally show ?thesis .
qed

lemma outdeg_files:
  assumes "holds_files H D L" and "graph_data H D" and "cid < hc_csds H" and "0 \<le> u" and "u < int (hc_vertices H)"
  shows "outdeg (layout_cfg H L) (layout_env E L) cid u = degree D u"
proof -
  let ?m = "stored (l_dev L) cid" and ?k = "4 * nat u"
  have od: "map ?m [0..<length (ds_outdegrees D)] = ds_outdegrees D" using assms(1,3) by (simp add: holds_files_def)
  have "?k + 4 \<le> length (ds_outdegrees D)" using assms(2,4,5) by (simp add: graph_data_def)
  then have "take 4 (drop ?k (map ?m [0..<length (ds_outdegrees D)])) = map ?m [?k..<?k + 4]"
    by (simp add: drop_map take_map take_upt)
  then show ?thesis using assms(4) unfolding od
    by (simp add: outdeg_def block_outdegree_def layout_cfg_def layout_env_def VERTEX_SIZE_def int_at_def degree_def stored_def nat_mult_distrib)
qed

lemma graph_ok_files:
  assumes "dataset_fits H D" and "holds_files H D L" and "graph_data H D"
  shows "graph_ok (layout_cfg H L) (layout_env E L) (degree D)"
proof -
  have "set (blk (layout_cfg H L) (layout_env E L) r c cid) \<subseteq> set (edges_of (ds_block D r c))"
    if "cid < hc_csds H" "r < hc_parts H" "c < hc_parts H" for cid r c
    using that by (auto simp: block_all_files [OF assms(1,2) that(2,3), of E, symmetric] block_all_def)
  then have "\<forall>(u, v) \<in> set (blk (layout_cfg H L) (layout_env E L) r c cid). u \<in> rng H r \<and> v \<in> rng H c \<and> degree D u \<noteq> 0"
    if "cid < hc_csds H" "r < hc_parts H" "c < hc_parts H" for cid r c
    using that assms(3) unfolding graph_data_def by blast
  then show ?thesis using outdeg_files [OF assms(2,3)] by (simp add: graph_ok_def)
qed

lemma pr_step_files:
  assumes "dataset_fits H D" and "holds_files H D L"
  shows "pr_step (layout_cfg H L) (layout_env E L) (degree D) = file_step H D"
proof -
  have "all_edges (layout_cfg H L) (layout_env E L) = graph_edges H D"
    unfolding all_edges_def graph_edges_def layout_cfg_sel
    by (intro arg_cong [where f = concat] map_cong refl) (simp add: block_all_files [OF assms])
  then show ?thesis by (simp add: fun_eq_iff pr_step_def file_step_def)
qed

section \<open>Properties\<close>

lemma init_csds_data_files:
  assumes "dataset_fits H D" and "graph_data H D" and "0 < hc_csds H" and "length (l_buf L) = buffer_size"
  shows "\<exists>L'. init_csds_data (dev_io pfn) buffer H D (hmb, L) = Some (Inr (init_hmb H hmb, L')) \<and> holds_files H D L'"
  using pages.init_csds_data_roundtrip [OF assms(1,4,3), of pfn buffer hmb] assms(2) by (simp add: holds_files_def graph_data_def)

text \<open>
  C9: The graph survives its distribution. Writing the files to the devices, page by page through driver, PRP entries and
  data path, succeeds; afterwards the start of every device holds the out-degree file, and the bytes at the recorded
  addresses and lengths of the devices, one after the other, are exactly each block file, with addresses that start pages.
\<close>

theorem init_csds_data_readback:
  assumes "dataset_fits H D" and "graph_data H D" and "0 < hc_csds H" and "length (l_buf L) = buffer_size"
  shows "\<exists>L'. init_csds_data (dev_io pfn) buffer H D (hmb, L) = Some (Inr (init_hmb H hmb, L')) \<and>
    (\<forall>cid < hc_csds H. map (snd (l_dev L') cid 0) [0..<length (ds_outdegrees D)] = ds_outdegrees D) \<and>
    (\<forall>i < hc_parts H. \<forall>j < hc_parts H.
       (\<forall>cid < hc_csds H. l_slba L' i j cid mod buffer_size = 0) \<and>
       concat (map (\<lambda>cid. map (snd (l_dev L') cid 0) [l_slba L' i j cid..<l_slba L' i j cid + l_len L' i j cid]) [0..<hc_csds H]) = ds_block D i j)"
proof -
  obtain L' where L': "init_csds_data (dev_io pfn) buffer H D (hmb, L) = Some (Inr (init_hmb H hmb, L'))" "holds_files H D L'"
    using init_csds_data_files [OF assms] by blast
  then show ?thesis by (intro exI [of _ L']) (simp add: holds_files_def stored_def)
qed

text \<open>
  C8: From files to ranks. On files that hold a well-formed graph, with every device's portion of a block below
  2 GiB and the data of a device below \<open>2 ^ 62\<close> bytes, setting up the devices and then running the synchronous
  PageRank loop on the recorded layout returns, and in exact arithmetic (no rounding of \<^verbatim>\<open>float\<close>) the vertex
  values are the PageRank iterates over the edges of the files, with the out-degrees of the out-degree file.
\<close>

theorem pagerank_from_files:
  assumes "exact_run H E" and "dataset_fits H D" and "graph_data H D" and "0 < hc_csds H" and "length (l_buf L) = buffer_size"
  shows "\<exists>hmb' L' w. init_csds_data (dev_io pfn) buffer H D (hmb, L) = Some (Inr (hmb', L')) \<and>
    csd_proc_edge_loop_normal (dev_submit nan nt (layout_env E L')) (layout_cfg H L') num_iter (hmb', ds) = Some (Inr w) \<and>
    (\<forall>v < hc_vertices H. buf0 (fst w) (int v) = (file_step H D ^^ num_iter) (\<lambda>_. 1) (int v))"
proof -
  obtain L' where L': "init_csds_data (dev_io pfn) buffer H D (hmb, L) = Some (Inr (init_hmb H hmb, L'))" "holds_files H D L'"
    using init_csds_data_files [OF assms(2-5)] by blast
  let ?H = "layout_cfg H L'" and ?E = "layout_env E L'"
  have run: "exact_run ?H ?E" by (rule layout_run [OF assms(1)])
  have graph: "graph_ok ?H ?E (degree D)" by (rule graph_ok_files [OF assms(2) L'(2) assms(3)])
  have "hrep ?H (fst (init_hmb H hmb, ds)) astate0" using run init_hmb_rep [of ?H hmb] by (simp add: exact_run_def)
  from dev.loop_normal_sim [OF run graph this astate0_inv, of nan nt num_iter]
  show ?thesis using L'(1) unfolding pr_step_files [OF assms(2) L'(2)] by auto
qed

section \<open>Witnesses\<close>

text \<open>Four vertices, two devices, a cycle through them and one more edge; block \<open>(0, 0)\<close> has two edges.\<close>

definition file_of :: "nat list \<Rightarrow> u8 list" where
  "file_of ns = concat (map (\<lambda>n. [of_nat n, 0, 0, 0]) ns)"

definition data1 :: dataset where
  "data1 = \<lparr>ds_outdegrees = file_of [1, 2, 1, 1],
     ds_block = (\<lambda>i j. if i = 0 \<and> j = 0 then file_of [0, 1, 1, 0] else if i = 0 \<and> j = 1 then file_of [1, 2]
       else if i = 1 \<and> j = 1 then file_of [2, 3] else if i = 1 \<and> j = 0 then file_of [3, 0] else [])\<rparr>"

definition cfg2 :: host_cfg where
  "cfg2 = cfg1\<lparr>hc_csds := 2\<rparr>"

definition lay0 :: "(bytes \<times> (nat \<Rightarrow> u32 \<Rightarrow> bytes)) layout" where
  "lay0 = \<lparr>l_base = (\<lambda>_. 0), l_slba = (\<lambda>_ _ _. 0), l_len = (\<lambda>_ _ _. 0), l_buf = replicate 4096 7, l_dev = (\<lambda>_. 0, \<lambda>_ _ _. 0)\<rparr>"

lemma cfg2_run: "exact_run cfg2 (\<lambda>_. env1)"
  using cfg1_run by (simp add: exact_run_def cfg2_def cfg1_def)

lemma all_less_2: "(\<forall>i < (2 :: nat). P i) \<longleftrightarrow> P 0 \<and> P 1"
  by (auto simp: less_2_cases_iff)

lemma cfg2_sel: "hc_csds cfg2 = 2" "hc_parts cfg2 = 2" "hc_vertices cfg2 = 4"
  by (simp_all add: cfg2_def cfg1_def)

lemma cfg2_fits: "dataset_fits cfg2 data1"
  unfolding dataset_fits_def cfg2_sel all_less_2
  by (simp add: cfg2_sel used_def blocks_def data1_def file_of_def buffer_size_eq portion_len_def EDGE_SIZE_def upt_conv_Cons)

lemma data1_degree: "degree data1 0 = 1" "degree data1 1 = 2" "degree data1 2 = 1" "degree data1 3 = 1"
  by (simp_all add: degree_def data1_def file_of_def le_int_def horner_sum_simps)

lemma data1_edges:
  "edges_of (ds_block data1 0 0) = [(0, 1), (1, 0)]" "edges_of (ds_block data1 0 1) = [(1, 2)]"
  "edges_of (ds_block data1 1 0) = [(3, 0)]" "edges_of (ds_block data1 1 1) = [(2, 3)]"
  by (simp_all add: data1_def file_of_def le_int_def horner_sum_simps)

lemma cfg2_graph: "graph_data cfg2 data1"
proof -
  have "length (ds_outdegrees data1) = 16" "length (ds_block data1 0 0) mod 8 = 0" "length (ds_block data1 0 1) mod 8 = 0"
    "length (ds_block data1 1 0) mod 8 = 0" "length (ds_block data1 1 1) mod 8 = 0"
    by (simp_all add: data1_def file_of_def)
  moreover have "rng cfg2 0 = {0..<2}" "rng cfg2 1 = {2..<4}" by (simp_all add: rng_def part_lo_def cfg2_sel)
  ultimately show ?thesis unfolding graph_data_def cfg2_sel all_less_2 data1_edges by (simp add: data1_degree)
qed

theorem init_csds_data_readback_witness:
  "\<exists>L'. init_csds_data (dev_io 5) 0 cfg2 data1 (hmb0, lay0) = Some (Inr (init_hmb cfg2 hmb0, L')) \<and>
    map (snd (l_dev L') 1 0) [0..<16] = file_of [1, 2, 1, 1]"
proof -
  have "0 < hc_csds cfg2" "length (l_buf lay0) = buffer_size" "length (ds_outdegrees data1) = 16" "hc_csds cfg2 = 2" "ds_outdegrees data1 = file_of [1, 2, 1, 1]"
    by (simp_all add: cfg2_def lay0_def buffer_size_eq data1_def file_of_def)
  then show ?thesis using init_csds_data_readback [OF cfg2_fits cfg2_graph, of lay0 5 0 hmb0] by auto
qed

theorem pagerank_from_files_witness:
  "\<exists>hmb' L' w. init_csds_data (dev_io 5) 0 cfg2 data1 (hmb0, lay0) = Some (Inr (hmb', L')) \<and>
    csd_proc_edge_loop_normal (dev_submit 0 (\<lambda>_. 100) (layout_env (\<lambda>_. env1) L')) (layout_cfg cfg2 L') 3 (hmb', \<lambda>_. csd0) = Some (Inr w) \<and>
    (\<forall>v < hc_vertices cfg2. buf0 (fst w) (int v) = (file_step cfg2 data1 ^^ 3) (\<lambda>_. 1) (int v))"
  by (rule pagerank_from_files [OF cfg2_run cfg2_fits cfg2_graph]) (simp_all add: cfg2_def lay0_def buffer_size_eq)

end
