(* ===== verification/PQueue.thy ===== *)
theory PQueue
  imports NV_Prelude "HOL-Library.Monad_Syntax"
begin

text \<open>
  The priority queue \<^verbatim>\<open>pqueue/pqueue.c\<close>: a binary heap in an array from index 1, whose elements live in the
  client's memory and are reached through callbacks that compare priorities and read and write an
  element's priority and position. The callbacks are the record \<open>pq_ops\<close>, the client's memory is the
  state \<open>'s\<close>; what the queue needs of them is the interface \<open>pq_client\<close>. Writing past the allocated
  array is \<open>None\<close>. Index 0 is never used; the loops of the model stop there.
\<close>

section \<open>Data and operations\<close>

record ('n, 's) pq_ops =
  cmppri :: "nat \<Rightarrow> nat \<Rightarrow> bool"
  getpri :: "'s \<Rightarrow> 'n \<Rightarrow> nat"
  setpri :: "'n \<Rightarrow> nat \<Rightarrow> 's \<Rightarrow> 's"
  getpos :: "'s \<Rightarrow> 'n \<Rightarrow> nat"
  setpos :: "'n \<Rightarrow> nat \<Rightarrow> 's \<Rightarrow> 's"

record 'n pqueue =
  pq_size :: nat
  pq_avail :: nat
  pq_step :: nat
  pq_d :: "nat \<Rightarrow> 'n"

definition pqueue_init :: "(nat \<Rightarrow> 'n) \<Rightarrow> nat \<Rightarrow> 'n pqueue" where
  "pqueue_init mem n = \<lparr>pq_size = 1, pq_avail = n + 1, pq_step = n + 1, pq_d = mem\<rparr>"

definition pqueue_size :: "'n pqueue \<Rightarrow> nat" where
  "pqueue_size q = pq_size q - 1"

text \<open>\<^verbatim>\<open>q->d[i] = n; q->setpos(n, i);\<close>\<close>

definition put :: "('n, 's) pq_ops \<Rightarrow> nat \<Rightarrow> 'n \<Rightarrow> 'n pqueue \<times> 's \<Rightarrow> 'n pqueue \<times> 's" where
  "put F i n qs = ((fst qs)\<lparr>pq_d := (pq_d (fst qs))(i := n)\<rparr>, setpos F n i (snd qs))"

function bubble_loop :: "('n, 's) pq_ops \<Rightarrow> nat \<Rightarrow> nat \<Rightarrow> 'n pqueue \<times> 's \<Rightarrow> nat \<times> 'n pqueue \<times> 's" where
  "bubble_loop F moving_pri i qs =
     (let parent_node = i div 2 in
      if i > 1 \<and> cmppri F (getpri F (snd qs) (pq_d (fst qs) parent_node)) moving_pri
      then bubble_loop F moving_pri parent_node (put F i (pq_d (fst qs) parent_node) qs)
      else (i, qs))"
  by pat_completeness auto
termination by (relation "measure (\<lambda>(F, p, i, qs). i)") auto

declare bubble_loop.simps [simp del]

definition bubble_up :: "('n, 's) pq_ops \<Rightarrow> nat \<Rightarrow> 'n pqueue \<times> 's \<Rightarrow> 'n pqueue \<times> 's" where
  "bubble_up F i qs =
     (let moving_node = pq_d (fst qs) i;
          (i, qs) = bubble_loop F (getpri F (snd qs) moving_node) i qs
      in put F i moving_node qs)"

definition maxchild :: "('n, 's) pq_ops \<Rightarrow> nat \<Rightarrow> 'n pqueue \<times> 's \<Rightarrow> nat" where
  "maxchild F i qs =
     (let d = pq_d (fst qs); p = getpri F (snd qs); child_node = 2 * i in
      if child_node \<ge> pq_size (fst qs) then 0
      else if child_node + 1 < pq_size (fst qs) \<and> cmppri F (p (d child_node)) (p (d (child_node + 1))) then child_node + 1
      else child_node)"

lemma maxchild_bounds: "maxchild F i qs \<noteq> 0 \<Longrightarrow> maxchild F i qs < pq_size (fst qs) \<and> (0 < i \<longrightarrow> i < maxchild F i qs)"
  by (auto simp: maxchild_def Let_def split: if_splits)

function percolate_loop :: "('n, 's) pq_ops \<Rightarrow> nat \<Rightarrow> nat \<Rightarrow> 'n pqueue \<times> 's \<Rightarrow> nat \<times> 'n pqueue \<times> 's" where
  "percolate_loop F moving_pri i qs =
     (let child_node = maxchild F i qs in
      if 0 < i \<and> child_node \<noteq> 0 \<and> cmppri F moving_pri (getpri F (snd qs) (pq_d (fst qs) child_node))
      then percolate_loop F moving_pri child_node (put F i (pq_d (fst qs) child_node) qs)
      else (i, qs))"
  by pat_completeness auto
termination
proof (relation "measure (\<lambda>(F, p, i, qs). pq_size (fst qs) - i)")
  fix F :: "('n, 's) pq_ops" and p i and qs :: "'n pqueue \<times> 's" and child_node
  assume "child_node = maxchild F i qs" "0 < i \<and> child_node \<noteq> 0 \<and> cmppri F p (getpri F (snd qs) (pq_d (fst qs) child_node))"
  then show "((F, p, child_node, put F i (pq_d (fst qs) child_node) qs), (F, p, i, qs)) \<in> measure (\<lambda>(F, p, i, qs). pq_size (fst qs) - i)"
    using maxchild_bounds [of F i qs] by (simp add: put_def) linarith
qed simp

declare percolate_loop.simps [simp del]

definition percolate_down :: "('n, 's) pq_ops \<Rightarrow> nat \<Rightarrow> 'n pqueue \<times> 's \<Rightarrow> 'n pqueue \<times> 's" where
  "percolate_down F i qs =
     (let moving_node = pq_d (fst qs) i;
          (i, qs) = percolate_loop F (getpri F (snd qs) moving_node) i qs
      in put F i moving_node qs)"

text \<open>A full queue is only reported; the element is stored behind the array.\<close>

definition pqueue_insert :: "('n, 's) pq_ops \<Rightarrow> 'n \<Rightarrow> 'n pqueue \<times> 's \<Rightarrow> ('n pqueue \<times> 's) option" where
  "pqueue_insert F n qs =
     (let q = fst qs; i = pq_size q in
      if i \<ge> pq_avail q then None
      else Some (bubble_up F i (q\<lparr>pq_size := i + 1, pq_d := (pq_d q)(i := n)\<rparr>, snd qs)))"

definition pqueue_change_priority :: "('n, 's) pq_ops \<Rightarrow> nat \<Rightarrow> 'n \<Rightarrow> 'n pqueue \<times> 's \<Rightarrow> 'n pqueue \<times> 's" where
  "pqueue_change_priority F new_pri n qs =
     (let old_pri = getpri F (snd qs) n;
          qs = (fst qs, setpri F n new_pri (snd qs));
          posn = getpos F (snd qs) n in
      if cmppri F old_pri new_pri then bubble_up F posn qs else percolate_down F posn qs)"

definition pqueue_remove :: "('n, 's) pq_ops \<Rightarrow> 'n \<Rightarrow> 'n pqueue \<times> 's \<Rightarrow> 'n pqueue \<times> 's" where
  "pqueue_remove F n qs =
     (let q = fst qs; posn = getpos F (snd qs) n;
          q = q\<lparr>pq_size := pq_size q - 1\<rparr>;
          q = q\<lparr>pq_d := (pq_d q)(posn := pq_d q (pq_size q))\<rparr>;
          qs = (q, snd qs) in
      if cmppri F (getpri F (snd qs) n) (getpri F (snd qs) (pq_d q posn)) then bubble_up F posn qs
      else percolate_down F posn qs)"

definition pqueue_pop :: "('n, 's) pq_ops \<Rightarrow> 'n pqueue \<times> 's \<Rightarrow> 'n option \<times> 'n pqueue \<times> 's" where
  "pqueue_pop F qs =
     (let q = fst qs in
      if pq_size q = 1 then (None, qs)
      else
        let head = pq_d q 1;
            q = q\<lparr>pq_size := pq_size q - 1\<rparr>;
            q = q\<lparr>pq_d := (pq_d q)(1 := pq_d q (pq_size q))\<rparr>
        in (Some head, percolate_down F 1 (q, snd qs)))"

definition pqueue_peek :: "'n pqueue \<Rightarrow> 'n option" where
  "pqueue_peek q = (if pq_size q = 1 then None else Some (pq_d q 1))"

function subtree_is_valid :: "('n, 's) pq_ops \<Rightarrow> nat \<Rightarrow> 'n pqueue \<times> 's \<Rightarrow> bool" where
  "subtree_is_valid F pos qs =
     (let d = pq_d (fst qs); p = getpri F (snd qs) in
      if pos = 0 then True
      else
      (2 * pos < pq_size (fst qs) \<longrightarrow> \<not> cmppri F (p (d pos)) (p (d (2 * pos))) \<and> subtree_is_valid F (2 * pos) qs) \<and>
      (2 * pos + 1 < pq_size (fst qs) \<longrightarrow>
         \<not> cmppri F (p (d pos)) (p (d (2 * pos + 1))) \<and> subtree_is_valid F (2 * pos + 1) qs))"
  by pat_completeness auto
termination by (relation "measure (\<lambda>(F, pos, qs). pq_size (fst qs) - pos)") auto

declare subtree_is_valid.simps [simp del]

definition pqueue_is_valid :: "('n, 's) pq_ops \<Rightarrow> 'n pqueue \<times> 's \<Rightarrow> bool" where
  "pqueue_is_valid F qs = subtree_is_valid F 1 qs"

section \<open>What the queue needs of its client\<close>

text \<open>
  Priorities are compared by a strict weak order, and reading a priority or a position gives what was
  last written for that element.
\<close>

locale pq_client =
  fixes F :: "('n, 's) pq_ops"
  assumes cmp_asym: "cmppri F x y \<Longrightarrow> \<not> cmppri F y x"
    and cmp_trans: "\<not> cmppri F x y \<Longrightarrow> \<not> cmppri F y z \<Longrightarrow> \<not> cmppri F x z"
    and pri_setpos: "getpri F (setpos F n p s) m = getpri F s m"
    and pos_setpos: "getpos F (setpos F n p s) m = (if m = n then p else getpos F s m)"
    and pri_setpri: "getpri F (setpri F n x s) m = (if m = n then x else getpri F s m)"
    and pos_setpri: "getpos F (setpri F n x s) m = getpos F s m"
begin

lemmas client_laws = pri_setpos pos_setpos pri_setpri pos_setpri

text \<open>Element \<open>a\<close> may stand above element \<open>b\<close>.\<close>

definition above :: "'s \<Rightarrow> 'n \<Rightarrow> 'n \<Rightarrow> bool" where
  "above s a b \<longleftrightarrow> \<not> cmppri F (getpri F s a) (getpri F s b)"

lemma above_trans: "above s a b \<Longrightarrow> above s b c \<Longrightarrow> above s a c"
  using cmp_trans by (auto simp: above_def)

lemma above_refl [simp]: "above s a a"
  using cmp_asym by (auto simp: above_def)

lemma above_setpos [simp]: "above (setpos F n p s) = above s"
  by (intro ext) (simp add: above_def pri_setpos)

definition elems :: "nat \<Rightarrow> (nat \<Rightarrow> 'n) \<Rightarrow> 'n set" where
  "elems n d = d ` {1..<n}"

definition heap :: "'s \<Rightarrow> nat \<Rightarrow> (nat \<Rightarrow> 'n) \<Rightarrow> bool" where
  "heap s n d \<longleftrightarrow> (\<forall>j. 2 \<le> j \<and> j < n \<longrightarrow> above s (d (j div 2)) (d j))"

definition pos_ok :: "'s \<Rightarrow> nat \<Rightarrow> (nat \<Rightarrow> 'n) \<Rightarrow> nat set \<Rightarrow> bool" where
  "pos_ok s n d X \<longleftrightarrow> (\<forall>j. 1 \<le> j \<and> j < n \<and> j \<notin> X \<longrightarrow> getpos F s (d j) = j)"

definition pq_inv :: "'n pqueue \<times> 's \<Rightarrow> bool" where
  "pq_inv qs \<longleftrightarrow> 1 \<le> pq_size (fst qs) \<and> heap (snd qs) (pq_size (fst qs)) (pq_d (fst qs)) \<and>
     pos_ok (snd qs) (pq_size (fst qs)) (pq_d (fst qs)) {}"

definition pq_elems :: "'n pqueue \<times> 's \<Rightarrow> 'n set" where
  "pq_elems qs = elems (pq_size (fst qs)) (pq_d (fst qs))"

lemma pos_inj:
  assumes "pos_ok s n d {}" and "1 \<le> i" and "i < n" and "1 \<le> j" and "j < n" and "d i = d j"
  shows "i = j"
  using assms unfolding pos_ok_def by (metis empty_iff)

text \<open>The root of a heap stands above all elements.\<close>

lemma heap_root:
  assumes "heap s n d" and "1 \<le> j" and "j < n"
  shows "above s (d 1) (d j)"
  using assms(2,3)
proof (induction j rule: less_induct)
  case (less j)
  show ?case
  proof (cases "j = 1")
    case False
    then have j: "2 \<le> j" "1 \<le> j div 2" "j div 2 < j" using less.prems by auto
    then have "above s (d 1) (d (j div 2))" using less.IH [of "j div 2"] less.prems by simp
    moreover have "above s (d (j div 2)) (d j)" using assms(1) j less.prems by (simp add: heap_def)
    ultimately show ?thesis by (rule above_trans)
  qed simp
qed

section \<open>Moving an element up\<close>

text \<open>A heap but for the element at \<open>i\<close>, which may belong further up.\<close>

definition up_heap :: "'s \<Rightarrow> nat \<Rightarrow> (nat \<Rightarrow> 'n) \<Rightarrow> nat \<Rightarrow> bool" where
  "up_heap s n d i \<longleftrightarrow> (\<forall>j. 2 \<le> j \<and> j < n \<and> j \<noteq> i \<longrightarrow> above s (d (j div 2)) (d j)) \<and>
     (2 \<le> i \<longrightarrow> (\<forall>j. 2 \<le> j \<and> j < n \<and> j div 2 = i \<longrightarrow> above s (d (i div 2)) (d j)))"

definition swap :: "nat \<Rightarrow> nat \<Rightarrow> (nat \<Rightarrow> 'n) \<Rightarrow> nat \<Rightarrow> 'n" where
  "swap i j d = d(i := d j, j := d i)"

lemma elems_swap:
  assumes "1 \<le> i" and "i < n" and "1 \<le> j" and "j < n"
  shows "elems n (swap i j d) = elems n d"
proof -
  have "d ` {1..<n} \<subseteq> swap i j d ` {1..<n}"
  proof
    fix x assume "x \<in> d ` {1..<n}"
    then obtain k where k: "k \<in> {1..<n}" "x = d k" by auto
    have "x = swap i j d (if k = i then j else if k = j then i else k)" using k by (simp add: swap_def)
    then show "x \<in> swap i j d ` {1..<n}" using assms k by (intro image_eqI [where x = "if k = i then j else if k = j then i else k"]) auto
  qed
  moreover have "swap i j d ` {1..<n} \<subseteq> d ` {1..<n}" using assms by (auto simp: swap_def)
  ultimately show ?thesis by (auto simp: elems_def)
qed

lemma up_heap_swap:
  assumes "up_heap s n d i" and "2 \<le> i" and "i < n" and "\<not> above s (d (i div 2)) (d i)"
  shows "up_heap s n (swap i (i div 2) d) (i div 2)"
proof -
  let ?p = "i div 2" and ?d = "swap i (i div 2) d"
  have p: "1 \<le> ?p" "?p < i" "?p div 2 < ?p" using assms(2) by auto
  have lift: "above s (d i) (d ?p)" using assms(4) cmp_asym by (auto simp: above_def)
  have old: "above s (d (j div 2)) (d j)" if "2 \<le> j" "j < n" "j \<noteq> i" for j using assms(1) that by (simp add: up_heap_def)
  have kids: "above s (d ?p) (d j)" if "2 \<le> j" "j < n" "j div 2 = i" for j using assms(1,2) that by (auto simp: up_heap_def)
  have "above s (?d (j div 2)) (?d j)" if j: "2 \<le> j" "j < n" "j \<noteq> ?p" for j
  proof -
    consider "j = i" | "j \<noteq> i" "j div 2 = i" | "j \<noteq> i" "j div 2 = ?p" | "j \<noteq> i" "j div 2 \<noteq> i" "j div 2 \<noteq> ?p" by blast
    then show ?thesis
    proof cases
      case 1
      then show ?thesis using lift p by (simp add: swap_def)
    next
      case 2
      have "i \<noteq> ?p" using p by linarith
      then show ?thesis using 2 j(3) kids [OF j(1,2)] by (simp add: swap_def)
    next
      case 3
      have "above s (d i) (d j)" using lift old [OF j(1,2) 3(1)] 3 above_trans by metis
      then show ?thesis using 3 j p by (simp add: swap_def)
    next
      case 4
      then show ?thesis using old [OF j(1,2)] j by (simp add: swap_def)
    qed
  qed
  moreover have "above s (?d (?p div 2)) (?d j)" if j: "2 \<le> ?p" "2 \<le> j" "j < n" "j div 2 = ?p" for j
  proof -
    have gp: "?d (?p div 2) = d (?p div 2)" using p by (simp add: swap_def)
    have top: "above s (d (?p div 2)) (d ?p)" using old [of ?p] j p assms(3) by simp
    show ?thesis
    proof (cases "j = i")
      case True
      then show ?thesis using top gp p by (simp add: swap_def)
    next
      case False
      then have "?d j = d j" using j p by (auto simp: swap_def)
      then show ?thesis using top old [OF j(2,3) False] above_trans gp j(4) by metis
    qed
  qed
  ultimately show ?thesis by (simp add: up_heap_def)
qed

text \<open>Element \<open>m\<close> sits at \<open>i\<close>; all other positions are recorded correctly.\<close>

definition hole :: "'s \<Rightarrow> nat \<Rightarrow> (nat \<Rightarrow> 'n) \<Rightarrow> nat \<Rightarrow> 'n \<Rightarrow> bool" where
  "hole s n d i m \<longleftrightarrow> 1 \<le> i \<and> i < n \<and> d i = m \<and> pos_ok s n d {i} \<and> m \<notin> d ` ({1..<n} - {i})"

lemma hole_swap:
  assumes "hole s n d i m" and "1 \<le> p" and "p < n" and "p \<noteq> i"
  shows "hole (setpos F (d p) i s) n (swap i p d) p m"
proof -
  have pos: "getpos F s (d j) = j" if "1 \<le> j" "j < n" "j \<noteq> i" for j using assms(1) that by (simp add: hole_def pos_ok_def)
  have "pos_ok (setpos F (d p) i s) n (swap i p d) {p}"
    unfolding pos_ok_def
  proof (intro allI impI)
    fix j assume j: "1 \<le> j \<and> j < n \<and> j \<notin> {p}"
    show "getpos F (setpos F (d p) i s) (swap i p d j) = j"
    proof (cases "j = i")
      case True
      then show ?thesis using assms(4) by (simp add: swap_def pos_setpos)
    next
      case False
      then have "getpos F s (d j) = j" "getpos F s (d p) = p" using j pos assms by auto
      moreover then have "d j \<noteq> d p" using j by auto
      ultimately show ?thesis using False j by (simp add: swap_def pos_setpos)
    qed
  qed
  moreover have "m \<notin> swap i p d ` ({1..<n} - {p})"
  proof
    assume "m \<in> swap i p d ` ({1..<n} - {p})"
    then obtain j where "m = swap i p d j" "j \<in> {1..<n} - {p}" by (rule imageE)
    then have j: "j \<in> {1..<n}" "j \<noteq> p" "m = swap i p d j" by simp_all
    then have "m = d (if j = i then p else j)" by (simp add: swap_def)
    moreover have "(if j = i then p else j) \<in> {1..<n} - {i}" using j assms by auto
    ultimately show False using assms(1) unfolding hole_def by blast
  qed
  ultimately show ?thesis using assms by (simp add: hole_def swap_def)
qed

lemma hole_fill:
  assumes "hole s n d i m"
  shows "pos_ok (setpos F m i s) n d {}"
  unfolding pos_ok_def
proof (intro allI impI)
  fix j assume j: "1 \<le> j \<and> j < n \<and> j \<notin> {}"
  show "getpos F (setpos F m i s) (d j) = j"
  proof (cases "j = i")
    case True
    then show ?thesis using assms by (simp add: hole_def pos_setpos)
  next
    case False
    then have "d j \<in> d ` ({1..<n} - {i})" using j by (intro imageI) simp
    then have "d j \<noteq> m" using assms by (auto simp: hole_def)
    then show ?thesis using assms j False by (simp add: hole_def pos_ok_def pos_setpos)
  qed
qed

text \<open>What the loops keep of the client's memory: priorities, and positions of elements outside the queue.\<close>

definition mem_frame :: "'s \<Rightarrow> 's \<Rightarrow> 'n set \<Rightarrow> bool" where
  "mem_frame s s' X \<longleftrightarrow> (\<exists>ps. fst ` set ps \<subseteq> X \<and> s' = fold (\<lambda>(m, p). setpos F m p) ps s)"

lemma mem_frameD:
  assumes "mem_frame s s' X"
  shows mem_frame_pri: "getpri F s' m = getpri F s m"
    and mem_frame_pos: "m \<notin> X \<Longrightarrow> getpos F s' m = getpos F s m"
proof -
  obtain ps where ps: "fst ` set ps \<subseteq> X" "s' = fold (\<lambda>(m, p). setpos F m p) ps s" using assms unfolding mem_frame_def by blast
  have pri: "getpri F (fold (\<lambda>(m, p). setpos F m p) ps s) m = getpri F s m" for ps
    by (induction ps arbitrary: s) (auto simp: pri_setpos)
  have "m \<notin> fst ` set ps \<Longrightarrow> getpos F (fold (\<lambda>(m, p). setpos F m p) ps s) m = getpos F s m" for ps
    by (induction ps arbitrary: s) (auto simp: pos_setpos)
  then show "getpri F s' m = getpri F s m" "m \<notin> X \<Longrightarrow> getpos F s' m = getpos F s m" using pri ps by blast+
qed

text \<open>Anything else the client keeps in its elements is left alone.\<close>

lemma mem_frame_keeps:
  assumes "mem_frame s s' X" and "\<And>m p s. g (setpos F m p s) = g s"
  shows "g s' = g s"
proof -
  have "g (fold (\<lambda>(m, p). setpos F m p) ps s) = g s" for ps
    by (induction ps arbitrary: s) (auto simp: assms(2))
  then show ?thesis using assms(1) by (auto simp: mem_frame_def)
qed

lemma mem_frame_above: "mem_frame s s' X \<Longrightarrow> above s' = above s"
  by (intro ext) (simp add: mem_frame_pri above_def)

lemma mem_frame_refl [simp]: "mem_frame s s X"
  unfolding mem_frame_def by (rule exI [of _ "[]"]) simp

lemma mem_frame_trans:
  assumes "mem_frame s s' X" and "mem_frame s' s'' X"
  shows "mem_frame s s'' X"
proof -
  obtain ps qs where "fst ` set ps \<subseteq> X" "s' = fold (\<lambda>(m, p). setpos F m p) ps s" "fst ` set qs \<subseteq> X"
    "s'' = fold (\<lambda>(m, p). setpos F m p) qs s'" using assms unfolding mem_frame_def by blast
  then have "fst ` set (ps @ qs) \<subseteq> X" "s'' = fold (\<lambda>(m, p). setpos F m p) (ps @ qs) s" by auto
  then show ?thesis unfolding mem_frame_def by blast
qed

lemma mem_frame_mono: "mem_frame s s' X \<Longrightarrow> X \<subseteq> Y \<Longrightarrow> mem_frame s s' Y"
  unfolding mem_frame_def by blast

lemma mem_frame_setpos: "n \<in> X \<Longrightarrow> mem_frame s (setpos F n p s) X"
  unfolding mem_frame_def by (rule exI [of _ "[(n, p)]"]) simp

lemma above_cong: "mem_frame s s' X \<Longrightarrow> heap s' n d = heap s n d" "mem_frame s s' X \<Longrightarrow> up_heap s' n d i = up_heap s n d i"
  by (simp_all add: heap_def up_heap_def mem_frame_above)

lemma bubble_loop_inv:
  assumes "hole s (pq_size q) ((pq_d q)(i := m)) i m" and "up_heap s (pq_size q) ((pq_d q)(i := m)) i"
    and "bubble_loop F (getpri F s m) i (q, s) = (i', q', s')"
  shows "hole s' (pq_size q) ((pq_d q')(i' := m)) i' m \<and> heap s (pq_size q) ((pq_d q')(i' := m)) \<and>
    elems (pq_size q) ((pq_d q')(i' := m)) = elems (pq_size q) ((pq_d q)(i := m)) \<and>
    mem_frame s s' (elems (pq_size q) ((pq_d q)(i := m))) \<and> pq_size q' = pq_size q \<and> pq_avail q' = pq_avail q"
  using assms
proof (induction i arbitrary: q s rule: less_induct)
  case (less i)
  let ?n = "pq_size q" and ?p = "i div 2" and ?D = "(pq_d q)(i := m)"
  have i: "1 \<le> i" "i < ?n" using less.prems(1) by (simp_all add: hole_def)
  show ?case
  proof (cases "i > 1 \<and> cmppri F (getpri F s (pq_d q ?p)) (getpri F s m)")
    case True
    then have p: "1 \<le> ?p" "?p < i" "?p < ?n" "?p \<noteq> i" "2 \<le> i" using i by auto
    have Dp: "?D ?p = pq_d q ?p" "?D i = m" using p by simp_all
    let ?q = "q\<lparr>pq_d := (pq_d q)(i := pq_d q ?p)\<rparr>" and ?s = "setpos F (pq_d q ?p) i s"
    have sw: "(pq_d ?q)(?p := m) = swap i ?p ?D" using p by (auto simp: swap_def)
    have na: "\<not> above s (?D ?p) (?D i)" using True p by (simp add: above_def)
    have mem: "pq_d q ?p \<in> elems ?n ?D" using p i Dp unfolding elems_def by (intro image_eqI [of _ _ ?p]) auto
    have fr: "mem_frame s ?s (elems ?n ?D)" by (rule mem_frame_setpos [OF mem])
    have sz: "pq_size ?q = ?n" by simp
    have 1: "hole ?s (pq_size ?q) ((pq_d ?q)(?p := m)) ?p m"
      using hole_swap [OF less.prems(1) p(1,3,4)] unfolding sw Dp sz .
    have 2: "up_heap ?s (pq_size ?q) ((pq_d ?q)(?p := m)) ?p"
      unfolding sw sz above_cong(2) [OF fr] by (rule up_heap_swap [OF less.prems(2) p(5) i(2) na])
    have 3: "bubble_loop F (getpri F ?s m) ?p (?q, ?s) = (i', q', s')"
      using less.prems(3) True by (subst (asm) bubble_loop.simps) (simp add: put_def pri_setpos Let_def)
    have el: "elems ?n ((pq_d ?q)(?p := m)) = elems ?n ?D" unfolding sw using p i by (intro elems_swap) auto
    have av: "pq_avail ?q = pq_avail q" by simp
    note R = less.IH [OF p(2) 1 2 3, unfolded sz av el above_cong(1) [OF fr]]
    note tl = R [THEN conjunct2]
    note tl2 = tl [THEN conjunct2]
    note tl3 = tl2 [THEN conjunct2]
    have "mem_frame s s' (elems ?n ?D)" by (rule mem_frame_trans [OF fr tl3 [THEN conjunct1]])
    then show ?thesis
      by (intro conjI R [THEN conjunct1] tl [THEN conjunct1] tl2 [THEN conjunct1] tl3 [THEN conjunct2, THEN conjunct1]
          tl3 [THEN conjunct2, THEN conjunct2])
  next
    case False
    have "bubble_loop F (getpri F s m) i (q, s) = (i, q, s)"
      unfolding bubble_loop.simps [of F "getpri F s m" i "(q, s)"] Let_def fst_conv snd_conv using False by (rule if_not_P)
    then have r: "i' = i" "q' = q" "s' = s" using less.prems(3) by simp_all
    have "above s (?D ?p) (?D i)" if "2 \<le> i"
    proof -
      have "?p \<noteq> i" using that by linarith
      then show ?thesis using False that by (auto simp: above_def)
    qed
    then have "heap s ?n ?D" using less.prems(2) unfolding heap_def up_heap_def by metis
    then show ?thesis unfolding r using less.prems(1) by (simp del: fun_upd_apply)
  qed
qed

text \<open>The effect of a movement on the whole queue.\<close>

definition settled :: "'n pqueue \<times> 's \<Rightarrow> 'n pqueue \<times> 's \<Rightarrow> bool" where
  "settled qs qs' \<longleftrightarrow> pq_inv qs' \<and> pq_elems qs' = pq_elems qs \<and> mem_frame (snd qs) (snd qs') (pq_elems qs) \<and>
     pq_size (fst qs') = pq_size (fst qs) \<and> pq_avail (fst qs') = pq_avail (fst qs)"

lemma put_settled:
  assumes "hole s' n ((pq_d q')(i' := m)) i' m" and "heap s n ((pq_d q')(i' := m))"
    and "elems n ((pq_d q')(i' := m)) = elems n (pq_d q)" and "mem_frame s s' (elems n (pq_d q))"
    and "pq_size q = n" and "pq_size q' = n" and "pq_avail q' = pq_avail q"
  shows "settled (q, s) (put F i' m (q', s'))"
proof -
  have "m \<in> elems n ((pq_d q')(i' := m))"
    using assms(1) unfolding hole_def elems_def by (intro image_eqI [of _ _ i']) auto
  then have "m \<in> elems n (pq_d q)" using assms(3) by simp
  then have fr: "mem_frame s (setpos F m i' s') (elems n (pq_d q))"
    using mem_frame_trans [OF assms(4) mem_frame_setpos] by blast
  show ?thesis
    using assms fr hole_fill [OF assms(1)] above_cong(1) [OF fr]
    by (auto simp: settled_def pq_inv_def pq_elems_def put_def hole_def)
qed

lemma bubble_up_settled:
  assumes "hole s (pq_size q) (pq_d q) i m" and "up_heap s (pq_size q) (pq_d q) i"
  shows "settled (q, s) (bubble_up F i (q, s))"
proof -
  have m: "pq_d q i = m" using assms(1) by (simp add: hole_def)
  then have eq: "(pq_d q)(i := m) = pq_d q" by auto
  obtain i' q' s' where r: "bubble_loop F (getpri F s m) i (q, s) = (i', q', s')" by (metis prod_cases3)
  have "hole s (pq_size q) ((pq_d q)(i := m)) i m" "up_heap s (pq_size q) ((pq_d q)(i := m)) i"
    using assms unfolding eq by simp_all
  note inv = bubble_loop_inv [OF this r, unfolded eq]
  have "settled (q, s) (put F i' m (q', s'))" by (rule put_settled) (use inv in auto)
  then show ?thesis using r m by (simp add: bubble_up_def Let_def)
qed

section \<open>Moving an element down\<close>

text \<open>A heap but for the element at \<open>i\<close>, which may belong further down.\<close>

definition down_heap :: "'s \<Rightarrow> nat \<Rightarrow> (nat \<Rightarrow> 'n) \<Rightarrow> nat \<Rightarrow> bool" where
  "down_heap s n d i \<longleftrightarrow> (\<forall>j. 2 \<le> j \<and> j < n \<and> j div 2 \<noteq> i \<longrightarrow> above s (d (j div 2)) (d j)) \<and>
     (2 \<le> i \<longrightarrow> (\<forall>j. 2 \<le> j \<and> j < n \<and> j div 2 = i \<longrightarrow> above s (d (i div 2)) (d j)))"

text \<open>The child that \<open>maxchild\<close> chooses stands above the other one.\<close>

lemma maxchild_above:
  assumes "0 < i" and "2 \<le> j" and "j < pq_size (fst qs)" and "j div 2 = i"
  shows "maxchild F i qs div 2 = i" "2 \<le> maxchild F i qs" "maxchild F i qs < pq_size (fst qs)"
    "above (snd qs) (pq_d (fst qs) (maxchild F i qs)) (pq_d (fst qs) j)"
proof -
  let ?d = "pq_d (fst qs)" and ?p = "getpri F (snd qs)" and ?n = "pq_size (fst qs)"
  have j: "j = 2 * i \<or> j = 2 * i + 1" using assms(4) by auto
  then have lt: "\<not> ?n \<le> 2 * i" using assms(3) by auto
  have "maxchild F i qs div 2 = i \<and> 2 \<le> maxchild F i qs \<and> maxchild F i qs < ?n \<and> above (snd qs) (?d (maxchild F i qs)) (?d j)"
  proof (cases "2 * i + 1 < ?n \<and> cmppri F (?p (?d (2 * i))) (?p (?d (2 * i + 1)))")
    case True
    then have "maxchild F i qs = 2 * i + 1" using lt by (simp add: maxchild_def Let_def)
    moreover have "above (snd qs) (?d (2 * i + 1)) (?d (2 * i))" using True cmp_asym unfolding above_def by blast
    ultimately show ?thesis using True assms(1) j by auto
  next
    case False
    then have "maxchild F i qs = 2 * i" using lt by (auto simp: maxchild_def Let_def)
    moreover have "above (snd qs) (?d (2 * i)) (?d j)" using False j assms(3) by (cases "j = 2 * i") (simp, simp add: above_def)
    ultimately show ?thesis using lt assms(1) by simp
  qed
  then show "maxchild F i qs div 2 = i" "2 \<le> maxchild F i qs" "maxchild F i qs < pq_size (fst qs)"
    "above (snd qs) (pq_d (fst qs) (maxchild F i qs)) (pq_d (fst qs) j)"
    by simp_all
qed

lemma maxchild_none:
  assumes "0 < i" and "maxchild F i qs = 0" and "2 \<le> j" and "j < pq_size (fst qs)"
  shows "j div 2 \<noteq> i"
proof
  assume "j div 2 = i"
  from maxchild_above(2) [OF assms(1,3,4) this] assms(2) show False by simp
qed

lemma maxchild_child: "maxchild F i qs \<noteq> 0 \<Longrightarrow> maxchild F i qs div 2 = i"
  by (auto simp: maxchild_def Let_def split: if_splits)

lemma down_heap_swap:
  assumes "down_heap s n d i" and "1 \<le> i" and "i < n" and c: "c div 2 = i" "c < n" and "\<not> above s (d i) (d c)"
    and top: "\<And>j. 2 \<le> j \<Longrightarrow> j < n \<Longrightarrow> j div 2 = i \<Longrightarrow> above s (d c) (d j)"
  shows "down_heap s n (swap i c d) c"
proof -
  let ?d = "swap i c d"
  have ic: "i < c" "2 \<le> c" "i div 2 < i" using c assms(2) by auto
  have lift: "above s (d c) (d i)" using assms(6) cmp_asym by (auto simp: above_def)
  have old: "above s (d (j div 2)) (d j)" if "2 \<le> j" "j < n" "j div 2 \<noteq> i" for j using assms(1) that by (simp add: down_heap_def)
  have "above s (?d (j div 2)) (?d j)" if j: "2 \<le> j" "j < n" "j div 2 \<noteq> c" for j
  proof -
    consider "j = c" | "j \<noteq> c" "j div 2 = i" | "j = i" | "j \<noteq> i" "j \<noteq> c" "j div 2 \<noteq> i" by blast
    then show ?thesis
    proof cases
      case 1
      then show ?thesis using lift c ic by (simp add: swap_def)
    next
      case 2
      then have "j \<noteq> i" using ic by auto
      then show ?thesis using 2 top [OF j(1,2)] ic by (simp add: swap_def)
    next
      case 3
      have "above s (d (i div 2)) (d c)" using assms(1) 3 j c ic by (auto simp: down_heap_def)
      moreover have "i div 2 \<noteq> c" "i div 2 \<noteq> i" using ic by auto
      ultimately show ?thesis using 3 ic by (simp add: swap_def)
    next
      case 4
      then show ?thesis using old [OF j(1,2)] j by (simp add: swap_def)
    qed
  qed
  moreover have "above s (?d (c div 2)) (?d j)" if j: "2 \<le> j" "j < n" "j div 2 = c" for j
  proof -
    have ne: "j \<noteq> c" "j \<noteq> i" using j ic by auto
    have "above s (d c) (d j)" using old [OF j(1,2)] j(3) ic by auto
    then show ?thesis using ne c ic by (simp add: swap_def)
  qed
  ultimately show ?thesis by (simp add: down_heap_def)
qed

lemma maxchild_cong:
  assumes "0 < i" and "pq_size q' = pq_size q" and "\<And>j. i < j \<Longrightarrow> pq_d q' j = pq_d q j" and "\<And>m. getpri F s' m = getpri F s m"
  shows "maxchild F i (q', s') = maxchild F i (q, s)"
  using assms by (simp add: maxchild_def Let_def)

lemma percolate_loop_inv:
  assumes "hole s (pq_size q) ((pq_d q)(i := m)) i m" and "down_heap s (pq_size q) ((pq_d q)(i := m)) i"
    and "percolate_loop F (getpri F s m) i (q, s) = (i', q', s')"
  shows "hole s' (pq_size q) ((pq_d q')(i' := m)) i' m \<and> heap s (pq_size q) ((pq_d q')(i' := m)) \<and>
    elems (pq_size q) ((pq_d q')(i' := m)) = elems (pq_size q) ((pq_d q)(i := m)) \<and>
    mem_frame s s' (elems (pq_size q) ((pq_d q)(i := m))) \<and> pq_size q' = pq_size q \<and> pq_avail q' = pq_avail q"
  using assms
proof (induction "pq_size q - i" arbitrary: i q s rule: less_induct)
  case less
  let ?n = "pq_size q" and ?c = "maxchild F i (q, s)" and ?D = "(pq_d q)(i := m)"
  have i: "1 \<le> i" "i < ?n" using less.prems(1) by (simp_all add: hole_def)
  have kid: "above s (pq_d q ?c) (?D j)" if "2 \<le> j" "j < ?n" "j div 2 = i" for j
  proof -
    have "j \<noteq> i" using that i by auto
    then show ?thesis using maxchild_above(4) [of i j "(q, s)"] that i by simp
  qed
  show ?case
  proof (cases "?c \<noteq> 0 \<and> cmppri F (getpri F s m) (getpri F s (pq_d q ?c))")
    case True
    then have c: "?c div 2 = i" "?c < ?n" "i < ?c" "1 \<le> ?c" "?c \<noteq> i"
      using maxchild_child [of i "(q, s)"] maxchild_bounds [of F i "(q, s)"] i by auto
    have Dc: "?D ?c = pq_d q ?c" "?D i = m" using c by simp_all
    let ?q = "q\<lparr>pq_d := (pq_d q)(i := pq_d q ?c)\<rparr>" and ?s = "setpos F (pq_d q ?c) i s"
    have sw: "(pq_d ?q)(?c := m) = swap i ?c ?D" using c by (auto simp: swap_def)
    have na: "\<not> above s (?D i) (?D ?c)" using True c by (simp add: above_def)
    have mem: "pq_d q ?c \<in> elems ?n ?D" using c Dc unfolding elems_def by (intro image_eqI [of _ _ ?c]) auto
    have fr: "mem_frame s ?s (elems ?n ?D)" by (rule mem_frame_setpos [OF mem])
    have sz: "pq_size ?q = ?n" by simp
    have 1: "hole ?s (pq_size ?q) ((pq_d ?q)(?c := m)) ?c m"
      using hole_swap [OF less.prems(1) c(4,2,5)] unfolding sw Dc sz .
    have "down_heap s ?n (swap i ?c ?D) ?c"
      by (rule down_heap_swap [OF less.prems(2) i c(1,2) na]) (use kid Dc in simp)
    then have 2: "down_heap ?s (pq_size ?q) ((pq_d ?q)(?c := m)) ?c"
      unfolding sw sz down_heap_def mem_frame_above [OF fr] .
    have 3: "percolate_loop F (getpri F ?s m) ?c (?q, ?s) = (i', q', s')"
      using less.prems(3) True i by (subst (asm) percolate_loop.simps) (simp add: put_def pri_setpos Let_def)
    have el: "elems ?n ((pq_d ?q)(?c := m)) = elems ?n ?D" unfolding sw using c i by (intro elems_swap) auto
    have dec: "pq_size ?q - ?c < ?n - i" using c i by (simp add: diff_less_mono2)
    have av: "pq_avail ?q = pq_avail q" by simp
    note R = less.hyps [OF dec 1 2 3, unfolded sz av el above_cong(1) [OF fr]]
    note tl = R [THEN conjunct2]
    note tl2 = tl [THEN conjunct2]
    note tl3 = tl2 [THEN conjunct2]
    have "mem_frame s s' (elems ?n ?D)" by (rule mem_frame_trans [OF fr tl3 [THEN conjunct1]])
    then show ?thesis
      by (intro conjI R [THEN conjunct1] tl [THEN conjunct1] tl2 [THEN conjunct1] tl3 [THEN conjunct2, THEN conjunct1]
          tl3 [THEN conjunct2, THEN conjunct2])
  next
    case False
    then have "\<not> (0 < i \<and> ?c \<noteq> 0 \<and> cmppri F (getpri F s m) (getpri F s (pq_d q ?c)))" by blast
    then have "percolate_loop F (getpri F s m) i (q, s) = (i, q, s)"
      unfolding percolate_loop.simps [of F "getpri F s m" i "(q, s)"] Let_def fst_conv snd_conv by (rule if_not_P)
    then have r: "i' = i" "q' = q" "s' = s" using less.prems(3) by simp_all
    have "above s (?D i) (?D j)" if j: "2 \<le> j" "j < ?n" "j div 2 = i" for j
    proof -
      have "?c \<noteq> 0" using maxchild_none [of i "(q, s)" j] i j by auto
      then have "above s m (pq_d q ?c)" using False by (simp add: above_def)
      from above_trans [OF this kid [OF j]] show ?thesis by simp
    qed
    then have "heap s ?n ?D" using less.prems(2) unfolding heap_def down_heap_def by metis
    then show ?thesis unfolding r using less.prems(1) by (simp del: fun_upd_apply)
  qed
qed

lemma percolate_down_settled:
  assumes "hole s (pq_size q) (pq_d q) i m" and "down_heap s (pq_size q) (pq_d q) i"
  shows "settled (q, s) (percolate_down F i (q, s))"
proof -
  have m: "pq_d q i = m" using assms(1) by (simp add: hole_def)
  then have eq: "(pq_d q)(i := m) = pq_d q" by auto
  obtain i' q' s' where r: "percolate_loop F (getpri F s m) i (q, s) = (i', q', s')" by (metis prod_cases3)
  have "hole s (pq_size q) ((pq_d q)(i := m)) i m" "down_heap s (pq_size q) ((pq_d q)(i := m)) i"
    using assms unfolding eq by simp_all
  note inv = percolate_loop_inv [OF this r, unfolded eq]
  have "settled (q, s) (put F i' m (q', s'))" by (rule put_settled) (use inv in auto)
  then show ?thesis using r m by (simp add: percolate_down_def Let_def)
qed

section \<open>The operations\<close>

lemma pq_inv_hole:
  assumes "pq_inv (q, s)" and "1 \<le> i" and "i < pq_size q"
  shows "hole s (pq_size q) (pq_d q) i (pq_d q i)"
proof -
  have p: "pos_ok s (pq_size q) (pq_d q) {}" using assms(1) by (simp add: pq_inv_def)
  have "pq_d q i \<notin> pq_d q ` ({1..<pq_size q} - {i})"
  proof
    assume "pq_d q i \<in> pq_d q ` ({1..<pq_size q} - {i})"
    then obtain j where "pq_d q i = pq_d q j" "j \<in> {1..<pq_size q} - {i}" by (rule imageE)
    then show False using pos_inj [OF p assms(2,3), of j] by simp
  qed
  then show ?thesis using assms p by (simp add: hole_def pos_ok_def)
qed

lemma heap_up: "heap s n d \<Longrightarrow> up_heap s n d i"
  unfolding heap_def up_heap_def
proof (intro conjI allI impI)
  fix j assume h: "\<forall>j. 2 \<le> j \<and> j < n \<longrightarrow> above s (d (j div 2)) (d j)" and i: "2 \<le> i" and j: "2 \<le> j \<and> j < n \<and> j div 2 = i"
  then have "above s (d (i div 2)) (d i)" "above s (d i) (d j)" by auto
  then show "above s (d (i div 2)) (d j)" by (rule above_trans)
qed simp

lemma insert_settled:
  assumes inv: "pq_inv (q, s)" and avail: "pq_size q < pq_avail q" and new: "n \<notin> pq_elems (q, s)"
  obtains qs' where "pqueue_insert F n (q, s) = Some qs'" and "pq_inv qs'" and "pq_elems qs' = insert n (pq_elems (q, s))"
    and "mem_frame s (snd qs') (insert n (pq_elems (q, s)))" and "pq_size (fst qs') = pq_size q + 1"
    and "pq_avail (fst qs') = pq_avail q"
proof -
  let ?i = "pq_size q"
  let ?q = "q\<lparr>pq_size := ?i + 1, pq_d := (pq_d q)(?i := n)\<rparr>"
  have i: "1 \<le> ?i" using inv by (simp add: pq_inv_def)
  have "{1..<?i + 1} = insert ?i {1..<?i}" using i by auto
  then have el: "elems (?i + 1) ((pq_d q)(?i := n)) = insert n (elems ?i (pq_d q))" by (auto simp: elems_def)
  have nn: "n \<notin> (pq_d q)(?i := n) ` ({1..<?i + 1} - {?i})"
    using new unfolding pq_elems_def elems_def by (auto simp: fun_upd_apply split: if_splits)
  have "pos_ok s (?i + 1) ((pq_d q)(?i := n)) {?i}" using inv by (auto simp: pq_inv_def pos_ok_def)
  then have "hole s (pq_size ?q) (pq_d ?q) ?i n" using i nn by (simp add: hole_def)
  moreover have "up_heap s (pq_size ?q) (pq_d ?q) ?i"
    using inv i by (auto simp: up_heap_def pq_inv_def heap_def less_Suc_eq)
  ultimately have "settled (?q, s) (bubble_up F ?i (?q, s))" by (rule bubble_up_settled)
  moreover have "pqueue_insert F n (q, s) = Some (bubble_up F ?i (?q, s))" using avail by (simp add: pqueue_insert_def Let_def)
  moreover have "pq_elems (?q, s) = insert n (pq_elems (q, s))" using el by (simp add: pq_elems_def)
  ultimately show ?thesis by (intro that [of "bubble_up F ?i (?q, s)"]) (simp_all add: settled_def)
qed

lemma change_priority_settled:
  assumes inv: "pq_inv (q, s)" and n: "n \<in> pq_elems (q, s)"
  shows "settled (q, setpri F n x s) (pqueue_change_priority F x n (q, s))"
proof -
  let ?s = "setpri F n x s" and ?n = "pq_size q" and ?d = "pq_d q"
  obtain i where i: "1 \<le> i" "i < ?n" "n = ?d i" using n by (auto simp: pq_elems_def elems_def)
  have h: "hole s ?n ?d i n" using pq_inv_hole [OF inv i(1,2)] i(3) by simp
  then have h': "hole ?s ?n ?d i n" by (simp add: hole_def pos_ok_def pos_setpri)
  have pos: "getpos F ?s n = i" using inv i by (simp add: pq_inv_def pos_ok_def pos_setpri)
  have uniq: "?d j \<noteq> n" if "1 \<le> j" "j < ?n" "j \<noteq> i" for j
    using inv that i pos_inj [of s ?n ?d j i] by (auto simp: pq_inv_def)
  have heap: "above s (?d (j div 2)) (?d j)" if "2 \<le> j" "j < ?n" for j using inv that by (simp add: pq_inv_def heap_def)
  have same: "above ?s a b = above s a b" if "a \<noteq> n" "b \<noteq> n" for a b using that by (simp add: above_def pri_setpri)
  have keep: "above ?s (?d (j div 2)) (?d j)" if j: "2 \<le> j" "j < ?n" "j \<noteq> i" "j div 2 \<noteq> i" for j
  proof -
    have "1 \<le> j div 2" "j div 2 < ?n" using j by auto
    then show ?thesis using same uniq heap j by simp
  qed
  have gp: "above ?s (?d (i div 2)) (?d j)" if j: "2 \<le> i" "2 \<le> j" "j < ?n" "j div 2 = i" for j
  proof -
    have "above s (?d (i div 2)) (?d i)" "above s (?d i) (?d j)" using heap [of i] heap [of j] j i by auto
    then have "above s (?d (i div 2)) (?d j)" by (rule above_trans)
    moreover have "1 \<le> i div 2" "i div 2 < ?n" "i div 2 \<noteq> i" "1 \<le> j" "j \<noteq> i" using j i by auto
    ultimately show ?thesis using same uniq j by simp
  qed
  have prin: "getpri F ?s n = x" "getpri F s n = getpri F s (?d i)" using i by (simp_all add: pri_setpri)
  show ?thesis
  proof (cases "cmppri F (getpri F s n) x")
    case True
    have "above ?s (?d i) (?d j)" if j: "2 \<le> j" "j < ?n" "j div 2 = i" for j
    proof -
      have "?d j \<noteq> n" using uniq [of j] j i by auto
      moreover have "\<not> cmppri F (getpri F s n) (getpri F s (?d j))" using heap [OF j(1,2)] j(3) i(3) by (simp add: above_def)
      moreover have "\<not> cmppri F x (getpri F s n)" using True by (rule cmp_asym)
      ultimately show ?thesis using cmp_trans i(3) by (auto simp: above_def pri_setpri)
    qed
    then have "up_heap ?s ?n ?d i" using keep gp unfolding up_heap_def by metis
    from bubble_up_settled [OF h' this] show ?thesis using True pos by (simp add: pqueue_change_priority_def Let_def)
  next
    case False
    have "above ?s (?d (i div 2)) (?d i)" if "2 \<le> i"
    proof -
      have "1 \<le> i div 2" "i div 2 < ?n" "i div 2 \<noteq> i" using that i by auto
      then have "?d (i div 2) \<noteq> n" by (rule uniq)
      moreover have "\<not> cmppri F (getpri F s (?d (i div 2))) (getpri F s n)" using heap [OF that i(2)] i(3) by (simp add: above_def)
      ultimately show ?thesis using False cmp_trans i(3) by (auto simp: above_def pri_setpri)
    qed
    then have "down_heap ?s ?n ?d i" using keep gp unfolding down_heap_def by metis
    from percolate_down_settled [OF h' this] show ?thesis using False pos by (simp add: pqueue_change_priority_def Let_def)
  qed
qed

text \<open>The last element takes the place of the one at \<open>i\<close>.\<close>

definition drop_at :: "nat \<Rightarrow> 'n pqueue \<Rightarrow> 'n pqueue" where
  "drop_at i q = q\<lparr>pq_size := pq_size q - 1, pq_d := (pq_d q)(i := pq_d q (pq_size q - 1))\<rparr>"

lemma drop_at_elems:
  assumes inv: "pq_inv (q, s)" and i: "1 \<le> i" "i < pq_size q"
  shows "pq_elems (drop_at i q, s) = pq_elems (q, s) - {pq_d q i}"
proof -
  let ?n = "pq_size q - 1" and ?d = "pq_d q"
  have p: "pos_ok s (pq_size q) ?d {}" using inv by (simp add: pq_inv_def)
  note inj = pos_inj [OF p]
  have "(?d(i := ?d ?n)) ` {1..<?n} = ?d ` {1..<pq_size q} - {?d i}" (is "?l = ?r")
  proof
    show "?l \<subseteq> ?r"
    proof
      fix x assume "x \<in> ?l"
      then obtain j where j: "x = (?d(i := ?d ?n)) j" "j \<in> {1..<?n}" by (rule imageE)
      define k where "k = (if j = i then ?n else j)"
      have k: "x = ?d k" "1 \<le> k" "k < pq_size q" "k \<noteq> i" using j i by (auto simp: k_def)
      then have "?d k \<noteq> ?d i" using inj [of k i] i by blast
      then show "x \<in> ?r" using k by simp
    qed
    show "?r \<subseteq> ?l"
    proof
      fix x assume "x \<in> ?r"
      then have x: "x \<in> ?d ` {1..<pq_size q}" "x \<noteq> ?d i" by simp_all
      from x(1) obtain j where "x = ?d j" "j \<in> {1..<pq_size q}" by (rule imageE)
      then have j: "x = ?d j" "1 \<le> j" "j < pq_size q" "j \<noteq> i" using x(2) by auto
      define k where "k = (if j = ?n then i else j)"
      have "x = (?d(i := ?d ?n)) k" "k \<in> {1..<?n}" using j i by (auto simp: k_def)
      then show "x \<in> ?l" by (rule image_eqI)
    qed
  qed
  then show ?thesis by (simp add: pq_elems_def elems_def drop_at_def)
qed

lemma drop_at_hole:
  assumes inv: "pq_inv (q, s)" and i: "1 \<le> i" "i < pq_size q - 1"
  shows "hole s (pq_size (drop_at i q)) (pq_d (drop_at i q)) i (pq_d q (pq_size q - 1))"
proof -
  let ?n = "pq_size q - 1" and ?d = "pq_d q"
  have p: "pos_ok s (pq_size q) ?d {}" using inv by (simp add: pq_inv_def)
  have "?d ?n \<notin> (?d(i := ?d ?n)) ` ({1..<?n} - {i})"
  proof
    assume "?d ?n \<in> (?d(i := ?d ?n)) ` ({1..<?n} - {i})"
    then obtain j where "?d ?n = (?d(i := ?d ?n)) j" "j \<in> {1..<?n} - {i}" by (rule imageE)
    then have "?d ?n = ?d j" "1 \<le> j" "j < ?n" by simp_all
    moreover then have "1 \<le> ?n" "?n < pq_size q" "j < pq_size q" by linarith+
    ultimately show False using pos_inj [OF p, of ?n j] by simp
  qed
  moreover have "pos_ok s ?n (?d(i := ?d ?n)) {i}" using p by (auto simp: pos_ok_def)
  ultimately show ?thesis using i by (simp add: hole_def drop_at_def)
qed

text \<open>How the other elements stand to each other.\<close>

lemma drop_at_order:
  assumes inv: "pq_inv (q, s)" and i: "1 \<le> i" "i < pq_size q - 1"
  defines "n \<equiv> pq_size q - 1" and "d \<equiv> (pq_d q)(i := pq_d q (pq_size q - 1))"
  shows "2 \<le> j \<Longrightarrow> j < n \<Longrightarrow> j \<noteq> i \<Longrightarrow> j div 2 \<noteq> i \<Longrightarrow> above s (d (j div 2)) (d j)"
    and "2 \<le> i \<Longrightarrow> 2 \<le> j \<Longrightarrow> j < n \<Longrightarrow> j div 2 = i \<Longrightarrow> above s (d (i div 2)) (d j)"
    and "2 \<le> j \<Longrightarrow> j < n \<Longrightarrow> j div 2 = i \<Longrightarrow> above s (pq_d q i) (d j)"
    and "2 \<le> i \<Longrightarrow> above s (d (i div 2)) (pq_d q i)"
proof -
  have h: "above s (pq_d q (j div 2)) (pq_d q j)" if "2 \<le> j" "j < pq_size q" for j
    using inv that by (simp add: pq_inv_def heap_def)
  show "above s (d (j div 2)) (d j)" if "2 \<le> j" "j < n" "j \<noteq> i" "j div 2 \<noteq> i"
    using h [of j] that by (simp add: d_def n_def)
  show c: "above s (pq_d q i) (d j)" if "2 \<le> j" "j < n" "j div 2 = i" for j
  proof -
    have "j \<noteq> i" using that i by auto
    then show ?thesis using h [of j] that by (simp add: d_def n_def)
  qed
  show p: "above s (d (i div 2)) (pq_d q i)" if "2 \<le> i"
  proof -
    have "i div 2 \<noteq> i" using that by linarith
    then show ?thesis using h [of i] that i by (simp add: d_def)
  qed
  show "above s (d (i div 2)) (d j)" if "2 \<le> i" "2 \<le> j" "j < n" "j div 2 = i"
    by (rule above_trans [OF p [OF that(1)] c [OF that(2-4)]])
qed

lemma percolate_last:
  assumes "pq_size q \<le> i" and "1 \<le> i"
  shows "percolate_down F i (q, s) = put F i (pq_d q i) (q, s)"
proof -
  have "maxchild F i (q, s) = 0" using assms by (simp add: maxchild_def Let_def)
  then have "percolate_loop F p i (q, s) = (i, q, s)" for p
    unfolding percolate_loop.simps [of F p i "(q, s)"] by (simp add: Let_def)
  then show ?thesis by (simp add: percolate_down_def)
qed

lemma drop_last_inv:
  assumes inv: "pq_inv (q, s)" and n: "2 \<le> pq_size q" and i: "i = pq_size q - 1"
  shows "pq_inv (put F i (pq_d q i) (drop_at i q, s))" "pq_elems (put F i (pq_d q i) (drop_at i q, s)) = pq_elems (q, s) - {pq_d q i}"
    "mem_frame s (snd (put F i (pq_d q i) (drop_at i q, s))) (pq_elems (q, s))"
proof -
  let ?q = "fst (put F i (pq_d q i) (drop_at i q, s))" and ?s = "setpos F (pq_d q i) i s"
  have q: "pq_size ?q = pq_size q - 1" "pq_d ?q = pq_d q" using i by (auto simp: put_def drop_at_def)
  have m: "pq_d q i \<in> pq_elems (q, s)" using n i unfolding pq_elems_def elems_def by (intro image_eqI [of _ _ i]) auto
  note fr = mem_frame_setpos [OF m, of s i]
  have p: "pos_ok s (pq_size q) (pq_d q) {}" using inv by (simp add: pq_inv_def)
  have "getpos F ?s (pq_d q j) = j" if "1 \<le> j" "j < pq_size q - 1" for j
  proof -
    have "j < pq_size q" "j \<noteq> i" "1 \<le> i" "i < pq_size q" using that i by linarith+
    then show ?thesis using p that pos_inj [OF p, of j i] by (auto simp: pos_ok_def pos_setpos)
  qed
  then have "pos_ok ?s (pq_size q - 1) (pq_d q) {}" by (simp add: pos_ok_def)
  moreover have "heap ?s (pq_size q - 1) (pq_d q)" using inv unfolding pq_inv_def heap_def above_cong(1) [OF fr] by auto
  ultimately show "pq_inv (put F i (pq_d q i) (drop_at i q, s))" using q n by (simp add: pq_inv_def) (simp add: put_def)
  show "pq_elems (put F i (pq_d q i) (drop_at i q, s)) = pq_elems (q, s) - {pq_d q i}"
    using drop_at_elems [OF inv, of i] n i q unfolding pq_elems_def by (simp add: drop_at_def fun_upd_idem)
  show "mem_frame s (snd (put F i (pq_d q i) (drop_at i q, s))) (pq_elems (q, s))" using fr by (simp add: put_def)
qed

text \<open>Removal, by position: what both removing operations achieve.\<close>

definition dropped :: "nat \<Rightarrow> 'n pqueue \<times> 's \<Rightarrow> 'n pqueue \<times> 's \<Rightarrow> bool" where
  "dropped i qs qs' \<longleftrightarrow> pq_inv qs' \<and> pq_elems qs' = pq_elems qs - {pq_d (fst qs) i} \<and>
     mem_frame (snd qs) (snd qs') (pq_elems qs) \<and> pq_size (fst qs') = pq_size (fst qs) - 1 \<and> pq_avail (fst qs') = pq_avail (fst qs)"

lemma settled_dropped:
  assumes "pq_inv (q, s)" and "1 \<le> i" and "i < pq_size q" and "settled (drop_at i q, s) qs'"
  shows "dropped i (q, s) qs'"
proof -
  have "mem_frame s (snd qs') (pq_elems (q, s))"
    using assms(4) drop_at_elems [OF assms(1-3)] mem_frame_mono unfolding settled_def by fastforce
  then show ?thesis using assms(4) drop_at_elems [OF assms(1-3)] by (simp add: settled_def dropped_def) (simp add: drop_at_def)
qed

lemma remove_at:
  assumes inv: "pq_inv (q, s)" and i: "1 \<le> i" "i < pq_size q"
  shows "dropped i (q, s)
    (if cmppri F (getpri F s (pq_d q i)) (getpri F s (pq_d q (pq_size q - 1))) \<and> i \<noteq> 1 then bubble_up F i (drop_at i q, s)
     else percolate_down F i (drop_at i q, s))"
proof (cases "i = pq_size q - 1")
  case True
  then have eq: "percolate_down F i (drop_at i q, s) = put F i (pq_d q i) (drop_at i q, s)"
    using i percolate_last [of "drop_at i q" i s] by (simp add: drop_at_def)
  have "\<not> cmppri F (getpri F s (pq_d q i)) (getpri F s (pq_d q i))" using cmp_asym by blast
  then show ?thesis using drop_last_inv [OF inv _ True] i True eq by (simp add: dropped_def) (simp add: put_def drop_at_def)
next
  case False
  then have i': "1 \<le> i" "i < pq_size q - 1" using i by simp_all
  let ?n = "pq_size (drop_at i q)" and ?d = "pq_d (drop_at i q)" and ?m = "pq_d q (pq_size q - 1)"
  have nd: "?n = pq_size q - 1" "?d = (pq_d q)(i := pq_d q (pq_size q - 1))" "?d i = ?m" by (simp_all add: drop_at_def)
  note hole = drop_at_hole [OF inv i']
  note order = drop_at_order [OF inv i', folded nd(1,2)]
  show ?thesis
  proof (cases "cmppri F (getpri F s (pq_d q i)) (getpri F s ?m) \<and> i \<noteq> 1")
    case True
    then have "above s ?m (pq_d q i)" using cmp_asym unfolding above_def by blast
    then have "above s (?d i) (?d j)" if "2 \<le> j" "j < ?n" "j div 2 = i" for j
      unfolding nd(3) using above_trans order(3) [OF that] by blast
    then have "up_heap s ?n ?d i" using order(1,2) unfolding up_heap_def by metis
    from bubble_up_settled [OF hole this] show ?thesis unfolding if_P [OF True] by (rule settled_dropped [OF inv i])
  next
    case neg: False
    have "above s (?d (i div 2)) (?d i)" if "2 \<le> i"
    proof -
      have "above s (pq_d q i) ?m" using neg that by (auto simp: above_def)
      then show ?thesis unfolding nd(3) using above_trans order(4) [OF that] by blast
    qed
    then have "down_heap s ?n ?d i" using order(1,2) unfolding down_heap_def by metis
    from percolate_down_settled [OF hole this] show ?thesis unfolding if_not_P [OF neg] by (rule settled_dropped [OF inv i])
  qed
qed

lemma remove_dropped:
  assumes inv: "pq_inv (q, s)" and n: "n \<in> pq_elems (q, s)"
  shows "\<exists>i. pq_d q i = n \<and> dropped i (q, s) (pqueue_remove F n (q, s))"
proof -
  obtain i where "n = pq_d q i" "i \<in> {1..<pq_size q}" using n unfolding pq_elems_def elems_def by auto
  then have i: "1 \<le> i" "i < pq_size q" "n = pq_d q i" by simp_all
  have pos: "getpos F s n = i" using inv i by (simp add: pq_inv_def pos_ok_def)
  have root: "\<not> (cmppri F (getpri F s (pq_d q i)) (getpri F s (pq_d q (pq_size q - 1))) \<and> i = 1)"
  proof
    assume c: "cmppri F (getpri F s (pq_d q i)) (getpri F s (pq_d q (pq_size q - 1))) \<and> i = 1"
    have "heap s (pq_size q) (pq_d q)" "1 \<le> pq_size q - 1" "pq_size q - 1 < pq_size q" using inv i by (auto simp: pq_inv_def)
    then have "above s (pq_d q 1) (pq_d q (pq_size q - 1))" using heap_root by blast
    then show False using c by (auto simp: above_def)
  qed
  have "pqueue_remove F n (q, s) =
    (if cmppri F (getpri F s (pq_d q i)) (getpri F s (pq_d q (pq_size q - 1))) then bubble_up F i (drop_at i q, s)
     else percolate_down F i (drop_at i q, s))"
    using pos i(3) by (simp add: pqueue_remove_def drop_at_def Let_def)
  also have "\<dots> = (if cmppri F (getpri F s (pq_d q i)) (getpri F s (pq_d q (pq_size q - 1))) \<and> i \<noteq> 1
     then bubble_up F i (drop_at i q, s) else percolate_down F i (drop_at i q, s))"
    using root by auto
  finally show ?thesis using remove_at [OF inv i(1,2)] i(3) by auto
qed

lemma pop_dropped:
  assumes inv: "pq_inv (q, s)" and n: "1 < pq_size q"
  shows "\<exists>qs'. pqueue_pop F (q, s) = (Some (pq_d q 1), qs') \<and> dropped 1 (q, s) qs'"
proof -
  have "pqueue_pop F (q, s) = (Some (pq_d q 1), percolate_down F 1 (drop_at 1 q, s))"
    using n by (simp add: pqueue_pop_def drop_at_def Let_def)
  then show ?thesis using remove_at [OF inv, of 1] n by simp
qed

lemma root_best:
  assumes "pq_inv qs" and "m \<in> pq_elems qs"
  shows "\<not> cmppri F (getpri F (snd qs) (pq_d (fst qs) 1)) (getpri F (snd qs) m)"
  using assms heap_root unfolding pq_inv_def pq_elems_def elems_def above_def by force

lemma elems_nonempty: "pq_elems qs = {} \<longleftrightarrow> pq_size (fst qs) \<le> 1"
  by (auto simp: pq_elems_def elems_def)

section \<open>The validity check\<close>

lemma subtree_valid:
  assumes "1 \<le> i"
  shows "subtree_is_valid F i (q, s) \<longleftrightarrow>
    (\<forall>j. 2 \<le> j \<and> j < pq_size q \<and> (\<exists>k. j div 2 ^ k = i \<and> 0 < k) \<longrightarrow> above s (pq_d q (j div 2)) (pq_d q j))"
  using assms
proof (induction "pq_size q - i" arbitrary: i rule: less_induct)
  case less
  let ?n = "pq_size q" and ?d = "pq_d q"
  let ?V = "\<lambda>i. \<forall>j. 2 \<le> j \<and> j < ?n \<and> (\<exists>k. j div 2 ^ k = i \<and> 0 < k) \<longrightarrow> above s (?d (j div 2)) (?d j)"
  have child: "?V i \<longleftrightarrow> (2 * i < ?n \<longrightarrow> above s (?d i) (?d (2 * i)) \<and> ?V (2 * i)) \<and>
      (2 * i + 1 < ?n \<longrightarrow> above s (?d i) (?d (2 * i + 1)) \<and> ?V (2 * i + 1))" (is "_ \<longleftrightarrow> ?R")
  proof
    assume V: "?V i"
    have sub: "?V c" if "c div 2 = i" for c
    proof (intro allI impI)
      fix j assume j: "2 \<le> j \<and> j < ?n \<and> (\<exists>k. j div 2 ^ k = c \<and> 0 < k)"
      then obtain k where "j div 2 ^ k = c" by blast
      then have "j div 2 ^ Suc k = i" using that by (simp only: power_Suc2 div_mult2_eq)
      then show "above s (?d (j div 2)) (?d j)" using V j by blast
    qed
    have "above s (?d (c div 2)) (?d c)" if "c div 2 = i" "c < ?n" for c
    proof -
      have "c div 2 ^ 1 = i" "2 \<le> c" using that less.prems by auto
      then show ?thesis using V that by blast
    qed
    from this [of "2 * i"] this [of "2 * i + 1"] sub [of "2 * i"] sub [of "2 * i + 1"] show ?R by simp
  next
    assume R: ?R
    show "?V i"
    proof (intro allI impI)
      fix j assume j: "2 \<le> j \<and> j < ?n \<and> (\<exists>k. j div 2 ^ k = i \<and> 0 < k)"
      then obtain k where k: "j div 2 ^ k = i" "0 < k" by blast
      then obtain l where l: "k = Suc l" by (cases k) auto
      define c where "c = j div 2 ^ l"
      have c2: "c div 2 = i" using k l unfolding c_def by (simp only: power_Suc2 div_mult2_eq)
      then have c: "c = 2 * i \<or> c = 2 * i + 1" by auto
      have "c \<le> j" by (simp add: c_def)
      then have V: "above s (?d i) (?d c)" "?V c" using R c j by auto
      show "above s (?d (j div 2)) (?d j)"
      proof (cases "l = 0")
        case True
        then show ?thesis using V(1) c2 by (simp add: c_def)
      next
        case False
        then show ?thesis using V(2) j unfolding c_def by blast
      qed
    qed
  qed
  have "subtree_is_valid F i (q, s) \<longleftrightarrow> (2 * i < ?n \<longrightarrow> above s (?d i) (?d (2 * i)) \<and> subtree_is_valid F (2 * i) (q, s)) \<and>
      (2 * i + 1 < ?n \<longrightarrow> above s (?d i) (?d (2 * i + 1)) \<and> subtree_is_valid F (2 * i + 1) (q, s))"
    using less.prems by (subst subtree_is_valid.simps) (simp add: above_def Let_def)
  also have "\<dots> \<longleftrightarrow> (2 * i < ?n \<longrightarrow> above s (?d i) (?d (2 * i)) \<and> ?V (2 * i)) \<and>
      (2 * i + 1 < ?n \<longrightarrow> above s (?d i) (?d (2 * i + 1)) \<and> ?V (2 * i + 1))"
    using less.hyps [of "2 * i"] less.hyps [of "2 * i + 1"] less.prems by (intro conj_cong imp_cong refl) auto
  finally show ?case using child by (simp only:)
qed

lemma valid_iff_heap: "pqueue_is_valid F (q, s) \<longleftrightarrow> heap s (pq_size q) (pq_d q)"
proof -
  have root: "\<exists>k. j div 2 ^ k = 1 \<and> 0 < k" if "2 \<le> j" for j :: nat
    using that
  proof (induction j rule: less_induct)
    case (less j)
    show ?case
    proof (cases "j < 4")
      case True
      then have "j div 2 ^ 1 = 1" using less.prems by auto
      then show ?thesis by blast
    next
      case False
      then have "2 \<le> j div 2" "j div 2 < j" by linarith+
      then obtain k where "j div 2 div 2 ^ k = 1" "0 < k" using less.IH [of "j div 2"] by blast
      then have "j div 2 ^ Suc k = 1" by (simp add: div_mult2_eq)
      then show ?thesis by blast
    qed
  qed
  have "pqueue_is_valid F (q, s) \<longleftrightarrow>
      (\<forall>j. 2 \<le> j \<and> j < pq_size q \<and> (\<exists>k. j div 2 ^ k = 1 \<and> 0 < k) \<longrightarrow> above s (pq_d q (j div 2)) (pq_d q j))"
    unfolding pqueue_is_valid_def by (rule subtree_valid) simp
  also have "\<dots> \<longleftrightarrow> heap s (pq_size q) (pq_d q)" unfolding heap_def
  proof (intro iff_allI)
    fix j show "(2 \<le> j \<and> j < pq_size q \<and> (\<exists>k. j div 2 ^ k = 1 \<and> 0 < k) \<longrightarrow> above s (pq_d q (j div 2)) (pq_d q j)) \<longleftrightarrow>
      (2 \<le> j \<and> j < pq_size q \<longrightarrow> above s (pq_d q (j div 2)) (pq_d q j))"
      using root [of j] by (cases "2 \<le> j") simp_all
  qed
  finally show ?thesis .
qed

end

end
