(* ===== verification/Conv_FTL.thy ===== *)
theory Conv_FTL
  imports SSD_Model PQueue
begin

text \<open>
  The conventional (page-mapped) flash translation layer \<^verbatim>\<open>conv_ftl.c\<close>, \<^verbatim>\<open>conv_ftl.h\<close>: mapping tables, lines
  (super-blocks) with their free list, full list and priority queue of garbage collection victims,
  the two write pointers, page state changes, garbage collection, write credits, and the read, write
  and flush commands. A pointer to a line is its index; intrusive lists are lists of indices. Page
  addresses are truncated to their bit fields, 32-bit counters wrap. \<open>None\<close> stands for \<^verbatim>\<open>BUG_ON\<close>, for the
  use of a null line, and for a timing call that does not return. Partitions share the write buffer,
  the PCIe model and the clock.
\<close>

section \<open>Data\<close>

definition INVALID_LPN :: nat where "INVALID_LPN = 2 ^ 64 - 1"

datatype io_type = USER_IO | GC_IO

record line =
  ln_id :: nat
  ln_ipc :: nat
  ln_vpc :: nat
  ln_pos :: nat

record write_pointer =
  wp_curline :: nat
  wp_ch :: nat
  wp_lun :: nat
  wp_pg :: nat
  wp_blk :: nat
  wp_pl :: nat

record line_mgmt =
  lines :: "nat \<Rightarrow> line"
  free_line_list :: "nat list"
  victim_line_pq :: "nat pqueue"
  full_line_list :: "nat list"
  lm_tt_lines :: nat
  free_line_cnt :: nat
  victim_line_cnt :: nat
  full_line_cnt :: nat

record convparams =
  gc_thres_lines :: nat
  gc_thres_lines_high :: nat
  enable_gc_delay :: bool
  pba_pcent :: nat

record write_flow_control =
  write_credits :: nat
  credits_to_refill :: nat

record conv_ftl =
  c_ssd :: ssd
  cp :: convparams
  maptbl :: "nat \<Rightarrow> ppa"
  rmap :: "nat \<Rightarrow> nat"
  c_wp :: write_pointer
  c_gc_wp :: write_pointer
  lm :: line_mgmt
  wfc :: write_flow_control
  c_gc_endtime :: "nat \<Rightarrow> nat \<Rightarrow> nat"

definition nvmev_assert :: "bool \<Rightarrow> unit option" where
  "nvmev_assert b = (if b then Some () else None)"

lemma nvmev_assert_bind [simp]: "nvmev_assert b \<bind> f = (if b then f () else None)"
  by (simp add: nvmev_assert_def)

text \<open>32-bit counters.\<close>

definition inc32 :: "nat \<Rightarrow> nat" where "inc32 n = (n + 1) mod 2 ^ 32"
definition dec32 :: "nat \<Rightarrow> nat" where "dec32 n = (n + (2 ^ 32 - 1)) mod 2 ^ 32"

text \<open>A loop over a list that may fail.\<close>

fun fold_opt :: "('a \<Rightarrow> 's \<Rightarrow> 's option) \<Rightarrow> 'a list \<Rightarrow> 's \<Rightarrow> 's option" where
  "fold_opt f [] s = Some s"
| "fold_opt f (a # as) s = do { s \<leftarrow> f a s; fold_opt f as s }"

section \<open>Mapping tables\<close>

abbreviation c_spp :: "conv_ftl \<Rightarrow> ssdparams" where
  "c_spp x \<equiv> sp (c_ssd x)"

definition last_pg_in_wordline :: "conv_ftl \<Rightarrow> ppa \<Rightarrow> bool" where
  "last_pg_in_wordline x ppa \<longleftrightarrow> p_pg ppa mod pgs_per_oneshotpg (c_spp x) = pgs_per_oneshotpg (c_spp x) - 1"

definition should_gc :: "conv_ftl \<Rightarrow> bool" where
  "should_gc x \<longleftrightarrow> free_line_cnt (lm x) \<le> gc_thres_lines (cp x)"

definition should_gc_high :: "conv_ftl \<Rightarrow> bool" where
  "should_gc_high x \<longleftrightarrow> free_line_cnt (lm x) \<le> gc_thres_lines_high (cp x)"

definition get_maptbl_ent :: "conv_ftl \<Rightarrow> nat \<Rightarrow> ppa" where
  "get_maptbl_ent x lpn = maptbl x lpn"

definition set_maptbl_ent :: "nat \<Rightarrow> ppa \<Rightarrow> conv_ftl \<Rightarrow> conv_ftl option" where
  "set_maptbl_ent lpn ppa x =
     do { nvmev_assert (lpn < tt_pgs (c_spp x)); Some (x\<lparr>maptbl := (maptbl x)(lpn := ppa)\<rparr>) }"

definition pgidx :: "ssdparams \<Rightarrow> ppa \<Rightarrow> nat" where
  "pgidx spp ppa = p_ch ppa * pgs_per_ch spp + p_lun ppa * pgs_per_lun spp + p_pl ppa * pgs_per_pl spp +
     p_blk ppa * pgs_per_blk spp + p_pg ppa"

definition ppa2pgidx :: "conv_ftl \<Rightarrow> ppa \<Rightarrow> nat option" where
  "ppa2pgidx x ppa =
     (let i = pgidx (c_spp x) ppa in do { nvmev_assert (i < tt_pgs (c_spp x)); Some i })"

definition get_rmap_ent :: "conv_ftl \<Rightarrow> ppa \<Rightarrow> nat option" where
  "get_rmap_ent x ppa = do { i \<leftarrow> ppa2pgidx x ppa; Some (rmap x i) }"

definition set_rmap_ent :: "nat \<Rightarrow> ppa \<Rightarrow> conv_ftl \<Rightarrow> conv_ftl option" where
  "set_rmap_ent lpn ppa x = do { i \<leftarrow> ppa2pgidx x ppa; Some (x\<lparr>rmap := (rmap x)(i := lpn)\<rparr>) }"

section \<open>Lines and write pointers\<close>

text \<open>The callbacks of the victim queue: the line with the fewest valid pages comes first.\<close>

definition victim_ops :: "(nat, nat \<Rightarrow> line) pq_ops" where
  "victim_ops = \<lparr>cmppri = (\<lambda>nxt curr. nxt > curr),
     getpri = (\<lambda>ls a. ln_vpc (ls a)), setpri = (\<lambda>a pri ls. ls(a := (ls a)\<lparr>ln_vpc := pri\<rparr>)),
     getpos = (\<lambda>ls a. ln_pos (ls a)), setpos = (\<lambda>a pos ls. ls(a := (ls a)\<lparr>ln_pos := pos\<rparr>))\<rparr>"

definition init_lines :: "(nat \<Rightarrow> nat) \<Rightarrow> ssdparams \<Rightarrow> line_mgmt option" where
  "init_lines mem spp =
     (let n = blks_per_pl spp in
      do {
        nvmev_assert (n = tt_lines spp);
        Some \<lparr>lines = (\<lambda>i. \<lparr>ln_id = i, ln_ipc = 0, ln_vpc = 0, ln_pos = 0\<rparr>),
              free_line_list = [0..<n], victim_line_pq = pqueue_init mem (tt_lines spp),
              full_line_list = [], lm_tt_lines = n, free_line_cnt = n, victim_line_cnt = 0,
              full_line_cnt = 0\<rparr>
      })"

definition init_write_flow_control :: "ssdparams \<Rightarrow> write_flow_control" where
  "init_write_flow_control spp =
     \<lparr>write_credits = pgs_per_line spp, credits_to_refill = pgs_per_line spp\<rparr>"

text \<open>An empty free list gives a null line, which every caller dereferences.\<close>

definition get_next_free_line :: "conv_ftl \<Rightarrow> (nat \<times> conv_ftl) option" where
  "get_next_free_line x =
     (case free_line_list (lm x) of
        [] \<Rightarrow> None
      | l # ls \<Rightarrow> Some (l, x\<lparr>lm := (lm x)\<lparr>free_line_list := ls, free_line_cnt := dec32 (free_line_cnt (lm x))\<rparr>\<rparr>))"

definition get_wp :: "io_type \<Rightarrow> conv_ftl \<Rightarrow> write_pointer" where
  "get_wp t x = (case t of USER_IO \<Rightarrow> c_wp x | GC_IO \<Rightarrow> c_gc_wp x)"

definition set_wp :: "io_type \<Rightarrow> write_pointer \<Rightarrow> conv_ftl \<Rightarrow> conv_ftl" where
  "set_wp t w x = (case t of USER_IO \<Rightarrow> x\<lparr>c_wp := w\<rparr> | GC_IO \<Rightarrow> x\<lparr>c_gc_wp := w\<rparr>)"

definition prepare_write_pointer :: "io_type \<Rightarrow> conv_ftl \<Rightarrow> conv_ftl option" where
  "prepare_write_pointer t x =
     do {
       (l, x) \<leftarrow> get_next_free_line x;
       Some (set_wp t \<lparr>wp_curline = l, wp_ch = 0, wp_lun = 0, wp_pg = 0, wp_blk = ln_id (lines (lm x) l),
         wp_pl = 0\<rparr> x)
     }"

text \<open>
  \<^verbatim>\<open>advance_write_pointer\<close> up to the end of the line: the new pointer, and whether the line is used up.
\<close>

definition wp_step :: "ssdparams \<Rightarrow> write_pointer \<Rightarrow> (write_pointer \<times> bool) option" where
  "wp_step spp w =
     do {
       nvmev_assert (wp_pg w < pgs_per_blk spp);
       let w = w\<lparr>wp_pg := wp_pg w + 1\<rparr>;
       if wp_pg w mod pgs_per_oneshotpg spp \<noteq> 0 then Some (w, False)
       else do {
         let w = w\<lparr>wp_pg := wp_pg w - pgs_per_oneshotpg spp\<rparr>;
         nvmev_assert (wp_ch w < nchs spp);
         let w = w\<lparr>wp_ch := wp_ch w + 1\<rparr>;
         if wp_ch w \<noteq> nchs spp then Some (w, False)
         else do {
           let w = w\<lparr>wp_ch := 0\<rparr>;
           nvmev_assert (wp_lun w < luns_per_ch spp);
           let w = w\<lparr>wp_lun := wp_lun w + 1\<rparr>;
           if wp_lun w \<noteq> luns_per_ch spp then Some (w, False)
           else do {
             let w = w\<lparr>wp_lun := 0, wp_pg := wp_pg w + pgs_per_oneshotpg spp\<rparr>;
             if wp_pg w \<noteq> pgs_per_blk spp then Some (w, False)
             else Some (w\<lparr>wp_pg := 0\<rparr>, True)
           }
         }
       }
     }"

text \<open>A used-up line goes to the full list or to the victim queue.\<close>

definition retire_line :: "nat \<Rightarrow> conv_ftl \<Rightarrow> conv_ftl option" where
  "retire_line l x =
     (let li = lines (lm x) l; P = pgs_per_line (c_spp x) in
      if ln_vpc li = P then
        do {
          nvmev_assert (ln_ipc li = 0);
          Some (x\<lparr>lm := (lm x)\<lparr>full_line_list := full_line_list (lm x) @ [l],
            full_line_cnt := inc32 (full_line_cnt (lm x))\<rparr>\<rparr>)
        }
      else
        do {
          nvmev_assert (ln_vpc li < P);
          nvmev_assert (ln_ipc li > 0);
          (pq, ls) \<leftarrow> pqueue_insert victim_ops l (victim_line_pq (lm x), lines (lm x));
          Some (x\<lparr>lm := (lm x)\<lparr>victim_line_pq := pq, lines := ls,
            victim_line_cnt := inc32 (victim_line_cnt (lm x))\<rparr>\<rparr>)
        })"

definition advance_write_pointer :: "io_type \<Rightarrow> conv_ftl \<Rightarrow> conv_ftl option" where
  "advance_write_pointer t x =
     do {
       (w, used_up) \<leftarrow> wp_step (c_spp x) (get_wp t x);
       if \<not> used_up then Some (set_wp t w x)
       else do {
         x \<leftarrow> retire_line (wp_curline w) x;
         nvmev_assert (wp_blk w < blks_per_pl (c_spp x));
         (l, x) \<leftarrow> get_next_free_line x;
         let w = w\<lparr>wp_curline := l, wp_blk := ln_id (lines (lm x) l)\<rparr>;
         nvmev_assert (wp_blk w < blks_per_pl (c_spp x));
         nvmev_assert (wp_pg w = 0);
         nvmev_assert (wp_lun w = 0);
         nvmev_assert (wp_ch w = 0);
         nvmev_assert (wp_pl w = 0);
         Some (set_wp t w x)
       }
     }"

text \<open>An address in its bit fields.\<close>

definition mk_ppa :: "nat \<Rightarrow> nat \<Rightarrow> nat \<Rightarrow> nat \<Rightarrow> nat \<Rightarrow> ppa" where
  "mk_ppa ch lun pl blk pg = \<lparr>p_pg = pg mod 2 ^ 16, p_blk = blk mod 2 ^ 16, p_pl = pl mod 2 ^ 8,
     p_lun = lun mod 2 ^ 8, p_ch = ch mod 2 ^ 8, p_rsv = 0\<rparr>"

definition get_new_page :: "io_type \<Rightarrow> conv_ftl \<Rightarrow> ppa option" where
  "get_new_page t x =
     (let w = get_wp t x; ppa = mk_ppa (wp_ch w) (wp_lun w) (wp_pl w) (wp_blk w) (wp_pg w) in
      do { nvmev_assert (p_pl ppa = 0); Some ppa })"

section \<open>Initialisation\<close>

definition init_maptbl :: "nat \<Rightarrow> ppa" where
  "init_maptbl = (\<lambda>_. UNMAPPED_PPA)"

definition init_rmap :: "nat \<Rightarrow> nat" where
  "init_rmap = (\<lambda>_. INVALID_LPN)"

text \<open>\<open>garbage\<close> stands for the parts of a fresh \<^verbatim>\<open>struct conv_ftl\<close> that are not yet set.\<close>

definition conv_init_ftl :: "(nat \<Rightarrow> nat) \<Rightarrow> write_pointer \<Rightarrow> convparams \<Rightarrow> ssd \<Rightarrow> conv_ftl option" where
  "conv_init_ftl mem garbage cpp ssd =
     do {
       l \<leftarrow> init_lines mem (sp ssd);
       let x = \<lparr>c_ssd = ssd, cp = cpp, maptbl = init_maptbl, rmap = init_rmap, c_wp = garbage,
                c_gc_wp = garbage, lm = l, wfc = init_write_flow_control (sp ssd),
                c_gc_endtime = (\<lambda>_ _. 0)\<rparr>;
       x \<leftarrow> prepare_write_pointer USER_IO x;
       prepare_write_pointer GC_IO x
     }"

text \<open>The over-provisioned area is given in percent: \<^verbatim>\<open>OP_AREA_PERCENT\<close> times 100.\<close>

definition conv_init_params :: "nat \<Rightarrow> convparams" where
  "conv_init_params op_area_pcent =
     \<lparr>gc_thres_lines = 2, gc_thres_lines_high = 2, enable_gc_delay = True, pba_pcent = 100 + op_area_pcent\<rparr>"

section \<open>Page state\<close>

definition valid_ppa :: "conv_ftl \<Rightarrow> ppa \<Rightarrow> bool" where
  "valid_ppa x ppa \<longleftrightarrow> p_ch ppa < nchs (c_spp x) \<and> p_lun ppa < luns_per_ch (c_spp x) \<and>
     p_pl ppa < pls_per_lun (c_spp x) \<and> p_blk ppa < blks_per_pl (c_spp x) \<and> p_pg ppa < pgs_per_blk (c_spp x)"

definition valid_lpn :: "conv_ftl \<Rightarrow> nat \<Rightarrow> bool" where
  "valid_lpn x lpn \<longleftrightarrow> lpn < tt_pgs (c_spp x)"

definition mapped_ppa :: "ppa \<Rightarrow> bool" where
  "mapped_ppa ppa \<longleftrightarrow> ppa \<noteq> UNMAPPED_PPA"

definition set_line :: "nat \<Rightarrow> line \<Rightarrow> conv_ftl \<Rightarrow> conv_ftl" where
  "set_line i li x = x\<lparr>lm := (lm x)\<lparr>lines := (lines (lm x))(i := li)\<rparr>\<rparr>"

definition mark_page_invalid :: "ppa \<Rightarrow> conv_ftl \<Rightarrow> conv_ftl option" where
  "mark_page_invalid ppa x =
     (let spp = c_spp x; b = get_blk (c_ssd x) ppa; i = p_blk ppa; P = pgs_per_line spp in
      do {
        nvmev_assert (get_pg (c_ssd x) ppa = PG_VALID);
        nvmev_assert (nb_ipc b \<ge> 0 \<and> nb_ipc b < int (pgs_per_blk spp));
        nvmev_assert (nb_vpc b > 0 \<and> nb_vpc b \<le> int (pgs_per_blk spp));
        let x = x\<lparr>c_ssd := set_blk ppa (b\<lparr>nb_pg := (nb_pg b)(p_pg ppa := PG_INVALID),
                    nb_ipc := nb_ipc b + 1, nb_vpc := nb_vpc b - 1\<rparr>) (c_ssd x)\<rparr>;
        let li = lines (lm x) i;
        nvmev_assert (ln_ipc li < P);
        let was_full_line = (ln_vpc li = P);
        nvmev_assert (was_full_line \<longrightarrow> ln_ipc li = 0);
        nvmev_assert (ln_vpc li > 0 \<and> ln_vpc li \<le> P);
        let x = set_line i (li\<lparr>ln_ipc := ln_ipc li + 1\<rparr>) x;
        let x = (if ln_pos li \<noteq> 0 then
            let (pq, ls) = pqueue_change_priority victim_ops (ln_vpc li - 1) i (victim_line_pq (lm x), lines (lm x))
            in x\<lparr>lm := (lm x)\<lparr>victim_line_pq := pq, lines := ls\<rparr>\<rparr>
          else set_line i ((lines (lm x) i)\<lparr>ln_vpc := ln_vpc li - 1\<rparr>) x);
        if was_full_line then do {
          let x = x\<lparr>lm := (lm x)\<lparr>full_line_list := remove1 i (full_line_list (lm x)),
                      full_line_cnt := dec32 (full_line_cnt (lm x))\<rparr>\<rparr>;
          (pq, ls) \<leftarrow> pqueue_insert victim_ops i (victim_line_pq (lm x), lines (lm x));
          Some (x\<lparr>lm := (lm x)\<lparr>victim_line_pq := pq, lines := ls,
            victim_line_cnt := inc32 (victim_line_cnt (lm x))\<rparr>\<rparr>)
        }
        else Some x
      })"

definition mark_page_valid :: "ppa \<Rightarrow> conv_ftl \<Rightarrow> conv_ftl option" where
  "mark_page_valid ppa x =
     (let spp = c_spp x; b = get_blk (c_ssd x) ppa; li = lines (lm x) (p_blk ppa) in
      do {
        nvmev_assert (get_pg (c_ssd x) ppa = PG_FREE);
        nvmev_assert (nb_vpc b \<ge> 0 \<and> nb_vpc b < int (pgs_per_blk spp));
        nvmev_assert (ln_vpc li < pgs_per_line spp);
        Some (set_line (p_blk ppa) (li\<lparr>ln_vpc := ln_vpc li + 1\<rparr>)
          (x\<lparr>c_ssd := set_blk ppa (b\<lparr>nb_pg := (nb_pg b)(p_pg ppa := PG_VALID), nb_vpc := nb_vpc b + 1\<rparr>) (c_ssd x)\<rparr>))
      })"

definition mark_block_free :: "ppa \<Rightarrow> conv_ftl \<Rightarrow> conv_ftl option" where
  "mark_block_free ppa x =
     (let spp = c_spp x; b = get_blk (c_ssd x) ppa in
      do {
        nvmev_assert (nb_npgs b = pgs_per_blk spp);
        Some (x\<lparr>c_ssd := set_blk ppa (b\<lparr>nb_pg := (\<lambda>i. if i < pgs_per_blk spp then PG_FREE else nb_pg b i),
          nb_ipc := 0, nb_vpc := 0, nb_erase_cnt := nb_erase_cnt b + 1\<rparr>) (c_ssd x)\<rparr>)
      })"

section \<open>Garbage collection\<close>

definition conv_nand :: "nand_cmd \<Rightarrow> conv_ftl \<Rightarrow> (nat \<times> conv_ftl) option" where
  "conv_nand ncmd x = do { (t, ssd) \<leftarrow> ssd_advance_nand ncmd (c_ssd x); Some (t, x\<lparr>c_ssd := ssd\<rparr>) }"

definition gc_nand :: "nand_op \<Rightarrow> nat \<Rightarrow> ppa \<Rightarrow> conv_ftl \<Rightarrow> conv_ftl option" where
  "gc_nand c xfer ppa x =
     (if enable_gc_delay (cp x) then
        do { (_, x) \<leftarrow> conv_nand \<lparr>nc_cmd = c, nc_xfer_size = xfer, nc_stime = 0,
               nc_interleave_pci_dma = False, nc_ppa = ppa\<rparr> x; Some x }
      else Some x)"

definition gc_read_page :: "ppa \<Rightarrow> conv_ftl \<Rightarrow> conv_ftl option" where
  "gc_read_page ppa x = gc_nand NAND_READ (pgsz (c_spp x)) ppa x"

definition gc_write_page :: "ppa \<Rightarrow> conv_ftl \<Rightarrow> conv_ftl option" where
  "gc_write_page old_ppa x =
     do {
       lpn \<leftarrow> get_rmap_ent x old_ppa;
       nvmev_assert (valid_lpn x lpn);
       new_ppa \<leftarrow> get_new_page GC_IO x;
       x \<leftarrow> set_maptbl_ent lpn new_ppa x;
       x \<leftarrow> set_rmap_ent lpn new_ppa x;
       x \<leftarrow> mark_page_valid new_ppa x;
       x \<leftarrow> advance_write_pointer GC_IO x;
       if last_pg_in_wordline x new_ppa
       then gc_nand NAND_WRITE (pgsz (c_spp x) * pgs_per_oneshotpg (c_spp x)) new_ppa x
       else gc_nand NAND_NOP 0 new_ppa x
     }"

definition select_victim_line :: "bool \<Rightarrow> conv_ftl \<Rightarrow> (nat \<times> conv_ftl) option" where
  "select_victim_line force x =
     (case pqueue_peek (victim_line_pq (lm x)) of
        None \<Rightarrow> None
      | Some v \<Rightarrow>
          if \<not> force \<and> ln_vpc (lines (lm x) v) > pgs_per_line (c_spp x) div 8 then None
          else
            let (_, pq, ls) = pqueue_pop victim_ops (victim_line_pq (lm x), lines (lm x));
                ls = ls(v := (ls v)\<lparr>ln_pos := 0\<rparr>)
            in Some (v, x\<lparr>lm := (lm x)\<lparr>victim_line_pq := pq, lines := ls,
                 victim_line_cnt := dec32 (victim_line_cnt (lm x))\<rparr>\<rparr>))"

text \<open>Cleaning by blocks; garbage collection cleans by flash pages instead.\<close>

definition clean_one_block :: "ppa \<Rightarrow> conv_ftl \<Rightarrow> conv_ftl option" where
  "clean_one_block ppa x =
     do {
       (cnt, x) \<leftarrow> fold_opt (\<lambda>i (cnt, x).
          let p = ppa\<lparr>p_pg := i mod 2 ^ 16\<rparr>; st = get_pg (c_ssd x) p in
          do {
            nvmev_assert (st \<noteq> PG_FREE);
            if st = PG_VALID then do {
              x \<leftarrow> gc_read_page p x;
              x \<leftarrow> gc_write_page p x;
              Some (cnt + 1, x)
            }
            else Some (cnt, x)
          }) [0..<pgs_per_blk (c_spp x)] (0, x);
       nvmev_assert (nb_vpc (get_blk (c_ssd x) ppa) = cnt);
       Some x
     }"

text \<open>The pages of a flash page; the page field has 16 bits.\<close>

definition flashpg_pages :: "conv_ftl \<Rightarrow> ppa \<Rightarrow> ppa list" where
  "flashpg_pages x ppa =
     map (\<lambda>i. ppa\<lparr>p_pg := (p_pg ppa + i) mod 2 ^ 16\<rparr>) [0..<pgs_per_flashpg (c_spp x)]"

definition gc_copy_page :: "ppa \<Rightarrow> conv_ftl \<Rightarrow> conv_ftl option" where
  "gc_copy_page ppa x = (if get_pg (c_ssd x) ppa = PG_VALID then gc_write_page ppa x else Some x)"

definition clean_one_flashpg :: "ppa \<Rightarrow> conv_ftl \<Rightarrow> conv_ftl option" where
  "clean_one_flashpg ppa x =
     (let ps = flashpg_pages x ppa;
          cnt = length (filter (\<lambda>p. get_pg (c_ssd x) p = PG_VALID) ps) in
      do {
        nvmev_assert (\<forall>p \<in> set ps. get_pg (c_ssd x) p \<noteq> PG_FREE);
        if cnt = 0 then Some x
        else do {
          x \<leftarrow> gc_nand NAND_READ (pgsz (c_spp x) * cnt) ppa x;
          fold_opt gc_copy_page ps x
        }
      })"

definition mark_line_free :: "nat \<Rightarrow> conv_ftl \<Rightarrow> conv_ftl" where
  "mark_line_free i x = x\<lparr>lm := (lm x)\<lparr>lines := (lines (lm x))(i := (lines (lm x) i)\<lparr>ln_ipc := 0, ln_vpc := 0\<rparr>),
     free_line_list := free_line_list (lm x) @ [i], free_line_cnt := inc32 (free_line_cnt (lm x))\<rparr>\<rparr>"

text \<open>The order in which the flash pages of a line are cleaned: \<^verbatim>\<open>flashpg\<close>, \<^verbatim>\<open>ch\<close>, \<^verbatim>\<open>lun\<close>.\<close>

definition gc_order :: "ssdparams \<Rightarrow> (nat \<times> nat \<times> nat) list" where
  "gc_order spp = concat (map (\<lambda>f. concat (map (\<lambda>c. map (\<lambda>l. (f, c, l)) [0..<luns_per_ch spp]) [0..<nchs spp]))
     [0..<flashpgs_per_blk spp])"

definition gc_step :: "nat \<Rightarrow> nat \<times> nat \<times> nat \<Rightarrow> conv_ftl \<Rightarrow> conv_ftl option" where
  "gc_step blk = (\<lambda>(flashpg, ch, lun) x.
     let ppa = mk_ppa ch lun 0 blk (flashpg * pgs_per_flashpg (c_spp x)) in
     do {
       x \<leftarrow> clean_one_flashpg ppa x;
       if flashpg = flashpgs_per_blk (c_spp x) - 1 then do {
         x \<leftarrow> mark_block_free ppa x;
         x \<leftarrow> gc_nand NAND_ERASE 0 ppa x;
         Some (x\<lparr>c_gc_endtime := (c_gc_endtime x)(p_ch ppa := (c_gc_endtime x (p_ch ppa))(p_lun ppa :=
           s_lun_avail (c_ssd x) (p_ch ppa) (p_lun ppa)))\<rparr>)
       }
       else Some x
     })"

text \<open>No victim: nothing is done (\<^verbatim>\<open>-1\<close>).\<close>

definition do_gc :: "bool \<Rightarrow> conv_ftl \<Rightarrow> (bool \<times> conv_ftl) option" where
  "do_gc force x =
     (case select_victim_line force x of
        None \<Rightarrow> Some (False, x)
      | Some (v, x) \<Rightarrow>
          let blk = ln_id (lines (lm x) v);
              x = x\<lparr>wfc := (wfc x)\<lparr>credits_to_refill := ln_ipc (lines (lm x) v)\<rparr>\<rparr> in
          do {
            x \<leftarrow> fold_opt (gc_step blk) (gc_order (c_spp x)) x;
            Some (True, mark_line_free (blk mod 2 ^ 16) x)
          })"

definition foreground_gc :: "conv_ftl \<Rightarrow> conv_ftl option" where
  "foreground_gc x = (if should_gc_high x then do { (_, x) \<leftarrow> do_gc True x; Some x } else Some x)"

definition consume_write_credit :: "conv_ftl \<Rightarrow> conv_ftl" where
  "consume_write_credit x = x\<lparr>wfc := (wfc x)\<lparr>write_credits := dec32 (write_credits (wfc x))\<rparr>\<rparr>"

text \<open>The credits are unsigned: \<^verbatim>\<open><= 0\<close> means zero.\<close>

definition check_and_refill_write_credit :: "conv_ftl \<Rightarrow> conv_ftl option" where
  "check_and_refill_write_credit x =
     (if write_credits (wfc x) = 0 then
        do {
          x \<leftarrow> foreground_gc x;
          Some (x\<lparr>wfc := (wfc x)\<lparr>write_credits := (write_credits (wfc x) + credits_to_refill (wfc x)) mod 2 ^ 32\<rparr>\<rparr>)
        }
      else Some x)"

section \<open>Commands\<close>

definition is_same_flash_page :: "conv_ftl \<Rightarrow> ppa \<Rightarrow> ppa \<Rightarrow> bool" where
  "is_same_flash_page x a b \<longleftrightarrow> p_blk a = p_blk b \<and> p_pl a = p_pl b \<and> p_lun a = p_lun b \<and> p_ch a = p_ch b \<and>
     p_pg a div pgs_per_flashpg (c_spp x) = p_pg b div pgs_per_flashpg (c_spp x)"

record conv_request =
  r_cmd :: nvme_command
  r_sqid :: nat
  r_nsecs_start :: nat

record conv_result =
  ret_ok :: bool
  ret_status :: nat
  ret_nsecs_target :: nat

record conv_sched =
  cs_sqid :: nat
  cs_target :: nat
  cs_release :: nat

text \<open>
  A namespace: the partitions, what they share, and the internal operations that were scheduled. Only
  \<^verbatim>\<open>conv_write\<close> itself uses the shared write buffer; the PCIe model and the clock are used by the timing
  calls of every partition.
\<close>

record conv_ns =
  n_ftls :: "nat \<Rightarrow> conv_ftl"
  n_nr_parts :: nat
  n_size :: nat
  n_pcie :: channel_model
  n_wbuf :: buffer
  n_clk :: "nat \<Rightarrow> nat"
  n_tick :: nat
  n_sched :: "conv_sched list"

definition load_part :: "nat \<Rightarrow> conv_ns \<Rightarrow> conv_ftl" where
  "load_part i ns = (n_ftls ns i)\<lparr>c_ssd := (c_ssd (n_ftls ns i))\<lparr>s_pcie := n_pcie ns,
     s_clk := n_clk ns, s_tick := n_tick ns\<rparr>\<rparr>"

definition store_part :: "nat \<Rightarrow> conv_ftl \<Rightarrow> conv_ns \<Rightarrow> conv_ns" where
  "store_part i x ns = ns\<lparr>n_ftls := (n_ftls ns)(i := x), n_pcie := s_pcie (c_ssd x),
     n_clk := s_clk (c_ssd x), n_tick := s_tick (c_ssd x)\<rparr>"

definition on_part :: "nat \<Rightarrow> (conv_ftl \<Rightarrow> ('a \<times> conv_ftl) option) \<Rightarrow> conv_ns \<Rightarrow> ('a \<times> conv_ns) option" where
  "on_part i f ns = do { (a, x) \<leftarrow> f (load_part i ns); Some (a, store_part i x ns) }"

text \<open>\<open>mem\<close> and \<open>garbage\<close>: the contents of fresh memory; \<open>nr_parts\<close> is \<^verbatim>\<open>SSD_PARTITIONS\<close>.\<close>

definition conv_init_namespace ::
  "(nat \<Rightarrow> nat) \<Rightarrow> write_pointer \<Rightarrow> ssd_config \<Rightarrow> nat \<Rightarrow> nat \<Rightarrow> nat \<Rightarrow> (nat \<Rightarrow> nat) \<Rightarrow> conv_ns option" where
  "conv_init_namespace mem garbage C op nr_parts sz clk =
     (let cpp = conv_init_params op in
      do {
        spp \<leftarrow> ssd_init_params C sz nr_parts;
        let ssd = ssd_init spp clk;
        x \<leftarrow> conv_init_ftl mem garbage cpp ssd;
        Some \<lparr>n_ftls = (\<lambda>_. x), n_nr_parts = nr_parts, n_size = sz * 100 div pba_pcent cpp, n_pcie = s_pcie ssd,
              n_wbuf = s_wbuf ssd, n_clk = clk, n_tick = 0, n_sched = []\<rparr>
      })"

definition req_lba :: "conv_request \<Rightarrow> nat" where "req_lba req = unat (rw_slba (r_cmd req))"
definition req_nr_lba :: "conv_request \<Rightarrow> nat" where "req_nr_lba req = unat (rw_length (r_cmd req)) + 1"

definition start_lpn :: "conv_ns \<Rightarrow> conv_request \<Rightarrow> nat" where
  "start_lpn ns req = req_lba req div secs_per_pg (c_spp (n_ftls ns 0))"

definition end_lpn :: "conv_ns \<Rightarrow> conv_request \<Rightarrow> nat" where
  "end_lpn ns req = ((req_lba req + req_nr_lba req - 1) mod 2 ^ 64) div secs_per_pg (c_spp (n_ftls ns 0))"

text \<open>The rounds of the inner read loop: the accumulated transfer, the previous page, the latest time.\<close>

definition conv_read_issue :: "nat \<Rightarrow> nat \<times> ppa \<times> nat \<times> conv_ftl \<Rightarrow> (nat \<times> conv_ftl) option" where
  "conv_read_issue stime = (\<lambda>(xfer, prev, latest, x).
     if xfer > 0 then do {
       (t, x) \<leftarrow> conv_nand \<lparr>nc_cmd = NAND_READ, nc_xfer_size = xfer, nc_stime = stime,
         nc_interleave_pci_dma = True, nc_ppa = prev\<rparr> x;
       Some (max t latest, x)
     }
     else Some (latest, x))"

definition conv_read_round ::
  "nat \<Rightarrow> nat \<Rightarrow> nat \<Rightarrow> nat \<times> ppa \<times> nat \<times> conv_ftl \<Rightarrow> (nat \<times> ppa \<times> nat \<times> conv_ftl) option" where
  "conv_read_round nr_parts stime lpn = (\<lambda>(xfer, prev, latest, x).
     let cur = get_maptbl_ent x (lpn div nr_parts) in
     if \<not> mapped_ppa cur \<or> \<not> valid_ppa x cur then Some (xfer, prev, latest, x)
     else if mapped_ppa prev \<and> is_same_flash_page x cur prev then Some (xfer + pgsz (c_spp x), prev, latest, x)
     else do {
       (latest, x) \<leftarrow> conv_read_issue stime (xfer, prev, latest, x);
       Some (pgsz (c_spp x), cur, latest, x)
     })"

text \<open>The pages of one partition, from the first of the command in steps of \<^verbatim>\<open>nr_parts\<close>.\<close>

definition part_lpns :: "nat \<Rightarrow> nat \<Rightarrow> nat \<Rightarrow> nat list" where
  "part_lpns nr_parts s e = map (\<lambda>k. s + k * nr_parts) [0..<(e - s) div nr_parts + 1]"

definition conv_read_part :: "nat \<Rightarrow> nat \<Rightarrow> nat \<Rightarrow> nat \<Rightarrow> nat \<Rightarrow> conv_ftl \<Rightarrow> (nat \<times> conv_ftl) option" where
  "conv_read_part nr_parts stime s e latest x =
     do {
       r \<leftarrow> fold_opt (conv_read_round nr_parts stime) (part_lpns nr_parts s e)
              (0, get_maptbl_ent x (s div nr_parts), latest, x);
       conv_read_issue stime r
     }"

definition conv_read :: "conv_request \<Rightarrow> conv_ns \<Rightarrow> (conv_result \<times> conv_ns) option" where
  "conv_read req ns =
     (let spp = c_spp (n_ftls ns 0); s = start_lpn ns req; e = end_lpn ns req; np = n_nr_parts ns;
          start = r_nsecs_start req in
      if e div np \<ge> tt_pgs spp then Some (\<lparr>ret_ok = False, ret_status = 0, ret_nsecs_target = 0\<rparr>, ns)
      else
        let stime = start + (if req_nr_lba req * 2 ^ 9 \<le> 4 * 1024 * np then fw_4kb_rd_lat spp else fw_rd_lat spp) in
        do {
          (latest, ns) \<leftarrow> fold_opt (\<lambda>i (latest, ns). on_part ((s + i) mod np) (conv_read_part np stime (s + i) e latest) ns)
             [0..<min np (e + 1 - s)] (start, ns);
          Some (\<lparr>ret_ok = True, ret_status = 0, ret_nsecs_target = latest\<rparr>, ns)
        })"

text \<open>One page of a write in its partition: the time the flash operation ends, if one was issued.\<close>

definition conv_write_map :: "nat \<Rightarrow> conv_ftl \<Rightarrow> (ppa \<times> conv_ftl) option" where
  "conv_write_map local_lpn x =
     (let old = get_maptbl_ent x local_lpn in
      do {
        x \<leftarrow> (if mapped_ppa old then do { x \<leftarrow> mark_page_invalid old x; set_rmap_ent INVALID_LPN old x } else Some x);
        ppa \<leftarrow> get_new_page USER_IO x;
        x \<leftarrow> set_maptbl_ent local_lpn ppa x;
        x \<leftarrow> set_rmap_ent local_lpn ppa x;
        x \<leftarrow> mark_page_valid ppa x;
        x \<leftarrow> advance_write_pointer USER_IO x;
        Some (ppa, x)
      })"

definition conv_write_page :: "nat \<Rightarrow> nat \<Rightarrow> conv_ftl \<Rightarrow> (nat option \<times> conv_ftl) option" where
  "conv_write_page stime local_lpn x =
     do {
       (ppa, x) \<leftarrow> conv_write_map local_lpn x;
       (done_at, x) \<leftarrow> (if last_pg_in_wordline x ppa then
           do { (t, x) \<leftarrow> conv_nand \<lparr>nc_cmd = NAND_WRITE, nc_xfer_size = pgsz (c_spp x) * pgs_per_oneshotpg (c_spp x),
                  nc_stime = stime, nc_interleave_pci_dma = False, nc_ppa = ppa\<rparr> x; Some (Some t, x) }
         else Some (None, x));
       x \<leftarrow> check_and_refill_write_credit (consume_write_credit x);
       Some (done_at, x)
     }"

definition conv_write_round :: "nat \<Rightarrow> nat \<Rightarrow> nat \<Rightarrow> nat \<times> conv_ns \<Rightarrow> (nat \<times> conv_ns) option" where
  "conv_write_round sqid stime lpn = (\<lambda>(latest, ns).
     do {
       (done_at, ns) \<leftarrow> on_part (lpn mod n_nr_parts ns) (conv_write_page stime (lpn div n_nr_parts ns)) ns;
       let spp = c_spp (n_ftls ns 0);
       Some (case done_at of
         None \<Rightarrow> (latest, ns)
       | Some t \<Rightarrow> (max t latest, ns\<lparr>n_sched := n_sched ns @
           [\<lparr>cs_sqid = sqid, cs_target = t, cs_release = pgs_per_oneshotpg spp * pgsz spp\<rparr>]\<rparr>))
     })"

definition conv_write :: "conv_request \<Rightarrow> conv_ns \<Rightarrow> (conv_result \<times> conv_ns) option" where
  "conv_write req ns =
     (let spp = c_spp (n_ftls ns 0); s = start_lpn ns req; e = end_lpn ns req; np = n_nr_parts ns;
          bytes = req_nr_lba req * 2 ^ 9; no = \<lparr>ret_ok = False, ret_status = 0, ret_nsecs_target = 0\<rparr> in
      if e div np \<ge> tt_pgs spp then Some (no, ns)
      else do {
        (got, buf) \<leftarrow> buffer_allocate (n_wbuf ns) (of_nat bytes);
        let ns = ns\<lparr>n_wbuf := buf\<rparr>;
        if unat got < bytes then Some (no, ns)
        else do {
          (t, ns) \<leftarrow> on_part 0 (\<lambda>x. do { (t, ssd) \<leftarrow> ssd_advance_write_buffer (r_nsecs_start req) bytes (c_ssd x);
                                        Some (t, x\<lparr>c_ssd := ssd\<rparr>) }) ns;
          (latest, ns) \<leftarrow> fold_opt (conv_write_round (r_sqid req) t) [s..<e + 1] (t, ns);
          Some (\<lparr>ret_ok = True, ret_status = 0,
            ret_nsecs_target = (if bit (rw_control (r_cmd req)) 14 \<or> \<not> write_early_completion spp
                                then latest else t)\<rparr>, ns)
        }
      })"

definition conv_flush :: "conv_ns \<Rightarrow> conv_result \<times> conv_ns" where
  "conv_flush ns =
     (let start = n_clk ns (n_tick ns); ns = ns\<lparr>n_tick := Suc (n_tick ns)\<rparr>;
          (latest, ns) = fold (\<lambda>i (latest, ns).
             let (t, ssd) = ssd_next_idle_time (c_ssd (load_part i ns))
             in (max latest t, store_part i ((n_ftls ns i)\<lparr>c_ssd := ssd\<rparr>) ns)) [0..<n_nr_parts ns] (start, ns)
      in (\<lparr>ret_ok = True, ret_status = 0, ret_nsecs_target = latest\<rparr>, ns))"

text \<open>\<open>ret\<close> is what the caller put into the result; an unknown command leaves it.\<close>

definition conv_proc_nvme_io_cmd :: "conv_request \<Rightarrow> conv_result \<Rightarrow> conv_ns \<Rightarrow> (conv_result \<times> conv_ns) option" where
  "conv_proc_nvme_io_cmd req ret ns =
     (let op = c_opcode (r_cmd req) in
      if op = nvme_cmd_write then conv_write req ns
      else if op = nvme_cmd_read then conv_read req ns
      else if op = nvme_cmd_flush then Some (conv_flush ns)
      else Some (ret\<lparr>ret_ok := True\<rparr>, ns))"

end
