(* ===== verification/Conv_Inv.thy ===== *)
theory Conv_Inv
  imports Conv_FTL "HOL-Library.Multiset"
begin

text \<open>
  The invariant of the conventional translation layer and the operations on pages and write pointers:
  the mapping table and its reverse are inverse on the valid pages, the page counters of blocks and
  lines count pages, every line has exactly one role, and the write pointers stand at the first free
  page of their lines.
\<close>

section \<open>The victim queue\<close>

interpretation vq: pq_client victim_ops
  by unfold_locales (auto simp: victim_ops_def)

lemma victim_ops_sel [simp]: "cmppri victim_ops a b \<longleftrightarrow> b < a" "getpri victim_ops ls i = ln_vpc (ls i)"
  "getpos victim_ops ls i = ln_pos (ls i)" "setpri victim_ops i n ls = ls(i := (ls i)\<lparr>ln_vpc := n\<rparr>)"
  "setpos victim_ops i n ls = ls(i := (ls i)\<lparr>ln_pos := n\<rparr>)"
  by (simp_all add: victim_ops_def)

lemma vq_frame:
  assumes "vq.mem_frame ls ls' X"
  shows "ln_vpc (ls' i) = ln_vpc (ls i)" "ln_ipc (ls' i) = ln_ipc (ls i)" "ln_id (ls' i) = ln_id (ls i)"
    and "i \<notin> X \<Longrightarrow> ln_pos (ls' i) = ln_pos (ls i)"
proof -
  show "ln_vpc (ls' i) = ln_vpc (ls i)" using vq.mem_frame_pri [OF assms, of i] by simp
  show "i \<notin> X \<Longrightarrow> ln_pos (ls' i) = ln_pos (ls i)" using vq.mem_frame_pos [OF assms, of i] by simp
  show "ln_ipc (ls' i) = ln_ipc (ls i)"
    by (rule vq.mem_frame_keeps [OF assms, of "\<lambda>ls. ln_ipc (ls i)"]) simp
  show "ln_id (ls' i) = ln_id (ls i)"
    by (rule vq.mem_frame_keeps [OF assms, of "\<lambda>ls. ln_id (ls i)"]) simp
qed

section \<open>Geometry\<close>

definition conv_geo :: "ssdparams \<Rightarrow> bool" where
  "conv_geo spp \<longleftrightarrow> 0 < nchs spp \<and> nchs spp \<le> 2 ^ 8 \<and> 0 < luns_per_ch spp \<and> luns_per_ch spp \<le> 2 ^ 8 \<and>
     pls_per_lun spp = 1 \<and> blks_per_pl spp \<le> 2 ^ 16 \<and> tt_lines spp = blks_per_pl spp \<and>
     0 < pgs_per_blk spp \<and> pgs_per_blk spp \<le> 2 ^ 16 \<and> 0 < pgs_per_oneshotpg spp \<and>
     pgs_per_blk spp = pgs_per_oneshotpg spp * oneshotpgs_per_blk spp \<and> 0 < pgs_per_flashpg spp \<and>
     pgs_per_blk spp = flashpgs_per_blk spp * pgs_per_flashpg spp \<and>
     pgs_per_line spp = luns_per_ch spp * nchs spp * pgs_per_blk spp \<and> pgs_per_line spp < 2 ^ 32 \<and>
     pgs_per_pl spp = pgs_per_blk spp * blks_per_pl spp \<and> pgs_per_lun spp = pgs_per_pl spp \<and>
     pgs_per_ch spp = pgs_per_lun spp * luns_per_ch spp \<and> tt_pgs spp = pgs_per_ch spp * nchs spp \<and>
     0 < pgsz spp"

definition page_ok :: "ssdparams \<Rightarrow> ppa \<Rightarrow> bool" where
  "page_ok spp p \<longleftrightarrow> p_ch p < nchs spp \<and> p_lun p < luns_per_ch spp \<and> p_pl p = 0 \<and> p_blk p < blks_per_pl spp \<and>
     p_pg p < pgs_per_blk spp \<and> p_rsv p = 0"

definition line_pages :: "ssdparams \<Rightarrow> nat \<Rightarrow> ppa set" where
  "line_pages spp i = {p. page_ok spp p \<and> p_blk p = i}"

definition blk_pages :: "ssdparams \<Rightarrow> ppa \<Rightarrow> ppa set" where
  "blk_pages spp p = {q. page_ok spp q \<and> p_ch q = p_ch p \<and> p_lun q = p_lun p \<and> p_blk q = p_blk p}"

lemma geo_pos: "conv_geo spp \<Longrightarrow> 0 < nchs spp \<and> 0 < luns_per_ch spp \<and> 0 < pgs_per_blk spp"
  unfolding conv_geo_def by blast

text \<open>Positions in mixed radix.\<close>

lemma radix_inj:
  fixes n :: nat
  assumes "a * n + b = c * n + d" and "b < n" and "d < n"
  shows "a = c \<and> b = d"
proof -
  have "(a * n + b) div n = (c * n + d) div n" "(a * n + b) mod n = (c * n + d) mod n" using assms(1) by simp_all
  then show ?thesis using assms(2,3) by simp
qed

lemma radix_less:
  fixes n :: nat
  assumes "a < m" and "b < n"
  shows "a * n + b < m * n"
proof -
  have "a * n + b < (a + 1) * n" using assms(2) by simp
  also have "\<dots> \<le> m * n" using assms(1) by (intro mult_le_mono1) simp
  finally show ?thesis .
qed

lemma pgidx_radix:
  assumes "conv_geo spp" and "page_ok spp p"
  shows "pgidx spp p = ((p_ch p * luns_per_ch spp + p_lun p) * blks_per_pl spp + p_blk p) * pgs_per_blk spp + p_pg p"
  using assms by (simp add: conv_geo_def page_ok_def pgidx_def algebra_simps)

lemma pgidx_less: "conv_geo spp \<Longrightarrow> page_ok spp p \<Longrightarrow> pgidx spp p < tt_pgs spp"
proof -
  assume a: "conv_geo spp" "page_ok spp p"
  have "p_ch p * luns_per_ch spp + p_lun p < nchs spp * luns_per_ch spp"
    using a by (intro radix_less) (auto simp: page_ok_def)
  then have "(p_ch p * luns_per_ch spp + p_lun p) * blks_per_pl spp + p_blk p < nchs spp * luns_per_ch spp * blks_per_pl spp"
    using a by (intro radix_less) (auto simp: page_ok_def)
  then have "pgidx spp p < nchs spp * luns_per_ch spp * blks_per_pl spp * pgs_per_blk spp"
    unfolding pgidx_radix [OF a] using a by (intro radix_less) (auto simp: page_ok_def)
  also have "\<dots> = tt_pgs spp" using a by (simp add: conv_geo_def ac_simps)
  finally show ?thesis .
qed

lemma pgidx_inj:
  assumes "conv_geo spp" and "page_ok spp p" and "page_ok spp q" and "pgidx spp p = pgidx spp q"
  shows "p = q"
proof -
  have r: "p_pg p < pgs_per_blk spp" "p_pg q < pgs_per_blk spp" "p_blk p < blks_per_pl spp" "p_blk q < blks_per_pl spp"
    "p_lun p < luns_per_ch spp" "p_lun q < luns_per_ch spp" using assms(2,3) by (auto simp: page_ok_def)
  note a = radix_inj [OF assms(4) [unfolded pgidx_radix [OF assms(1,2)] pgidx_radix [OF assms(1,3)]] r(1,2)]
  note b = radix_inj [OF a [THEN conjunct1] r(3,4)]
  note c = radix_inj [OF b [THEN conjunct1] r(5,6)]
  show ?thesis using a b c assms(2,3) by (intro ppa.equality) (auto simp: page_ok_def)
qed

text \<open>The place of a page in the order in which a line is written.\<close>

definition page_no :: "ssdparams \<Rightarrow> nat \<Rightarrow> nat \<Rightarrow> nat \<Rightarrow> nat" where
  "page_no spp ch lun pg =
     (((pg div pgs_per_oneshotpg spp) * luns_per_ch spp + lun) * nchs spp + ch) * pgs_per_oneshotpg spp +
     pg mod pgs_per_oneshotpg spp"

abbreviation ppa_no :: "ssdparams \<Rightarrow> ppa \<Rightarrow> nat" where
  "ppa_no spp p \<equiv> page_no spp (p_ch p) (p_lun p) (p_pg p)"

abbreviation wp_no :: "ssdparams \<Rightarrow> write_pointer \<Rightarrow> nat" where
  "wp_no spp w \<equiv> page_no spp (wp_ch w) (wp_lun w) (wp_pg w)"

lemma page_no_less:
  assumes "conv_geo spp" and "ch < nchs spp" and "lun < luns_per_ch spp" and "pg < pgs_per_blk spp"
  shows "page_no spp ch lun pg < pgs_per_line spp"
proof -
  let ?O = "pgs_per_oneshotpg spp" and ?W = "oneshotpgs_per_blk spp"
  have "pg div ?O < ?W" using assms(1,4) by (simp add: conv_geo_def less_mult_imp_div_less mult.commute)
  then have "pg div ?O * luns_per_ch spp + lun < ?W * luns_per_ch spp" using assms(3) by (rule radix_less)
  then have "(pg div ?O * luns_per_ch spp + lun) * nchs spp + ch < ?W * luns_per_ch spp * nchs spp"
    using assms(2) by (rule radix_less)
  moreover have "pg mod ?O < ?O" using assms(1) by (simp add: conv_geo_def)
  ultimately have "page_no spp ch lun pg < ?W * luns_per_ch spp * nchs spp * ?O" unfolding page_no_def by (rule radix_less)
  also have "\<dots> = pgs_per_line spp" using assms(1) by (simp add: conv_geo_def ac_simps)
  finally show ?thesis .
qed

lemma page_no_inj:
  assumes g: "conv_geo spp" and "ch < nchs spp" "ch' < nchs spp" "lun < luns_per_ch spp" "lun' < luns_per_ch spp"
    and eq: "page_no spp ch lun pg = page_no spp ch' lun' pg'"
  shows "ch = ch' \<and> lun = lun' \<and> pg = pg'"
proof -
  let ?O = "pgs_per_oneshotpg spp"
  have "pg mod ?O < ?O" "pg' mod ?O < ?O" using g by (auto simp: conv_geo_def)
  note a = radix_inj [OF eq [unfolded page_no_def] this]
  note b = radix_inj [OF a [THEN conjunct1] assms(2,3)]
  note c = radix_inj [OF b [THEN conjunct1] assms(4,5)]
  have "pg = pg'" using a c by (metis div_mult_mod_eq)
  then show ?thesis using b c by blast
qed

lemma ppa_no_inj:
  assumes "conv_geo spp" and "p \<in> line_pages spp i" and "q \<in> line_pages spp i" and "ppa_no spp p = ppa_no spp q"
  shows "p = q"
  using page_no_inj [OF assms(1) _ _ _ _ assms(4)] assms(2,3)
  by (intro ppa.equality) (auto simp: line_pages_def page_ok_def)

lemma page_eq:
  assumes "page_ok spp p" and "page_ok spp q"
  shows "p = q \<longleftrightarrow> p_ch p = p_ch q \<and> p_lun p = p_lun q \<and> p_blk p = p_blk q \<and> p_pg p = p_pg q"
  using assms by (auto simp: page_ok_def intro!: ppa.equality)

section \<open>Counting pages\<close>

lemma card_line_pages:
  assumes "conv_geo spp" and "i < blks_per_pl spp"
  shows "finite (line_pages spp i)" "card (line_pages spp i) = pgs_per_line spp"
proof -
  let ?f = "\<lambda>(c, l, g). \<lparr>p_pg = g, p_blk = i, p_pl = 0, p_lun = l, p_ch = c, p_rsv = 0\<rparr>"
  let ?X = "{..<nchs spp} \<times> {..<luns_per_ch spp} \<times> {..<pgs_per_blk spp}"
  have im: "line_pages spp i = ?f ` ?X"
  proof
    show "line_pages spp i \<subseteq> ?f ` ?X"
    proof
      fix p assume p: "p \<in> line_pages spp i"
      then have "p = ?f (p_ch p, p_lun p, p_pg p)" by (auto simp: line_pages_def page_ok_def)
      moreover have "(p_ch p, p_lun p, p_pg p) \<in> ?X" using p by (auto simp: line_pages_def page_ok_def)
      ultimately show "p \<in> ?f ` ?X" by (rule image_eqI)
    qed
    show "?f ` ?X \<subseteq> line_pages spp i" using assms(2) by (auto simp: line_pages_def page_ok_def)
  qed
  have inj: "inj_on ?f ?X" by (auto simp: inj_on_def)
  show "finite (line_pages spp i)" unfolding im by simp
  show "card (line_pages spp i) = pgs_per_line spp"
    unfolding im card_image [OF inj] using assms(1) by (simp add: conv_geo_def card_cartesian_product ac_simps)
qed

lemma card_blk_pages:
  assumes "page_ok spp p"
  shows "finite (blk_pages spp p)" "card (blk_pages spp p) = pgs_per_blk spp"
proof -
  let ?f = "\<lambda>g. p\<lparr>p_pg := g\<rparr>" and ?X = "{..<pgs_per_blk spp}"
  have im: "blk_pages spp p = ?f ` ?X"
  proof
    show "blk_pages spp p \<subseteq> ?f ` ?X"
    proof
      fix q assume q: "q \<in> blk_pages spp p"
      then have "q = ?f (p_pg q)" using assms by (auto simp: blk_pages_def page_ok_def intro!: ppa.equality)
      moreover have "p_pg q \<in> ?X" using q by (auto simp: blk_pages_def page_ok_def)
      ultimately show "q \<in> ?f ` ?X" by (rule image_eqI)
    qed
    show "?f ` ?X \<subseteq> blk_pages spp p" using assms by (auto simp: blk_pages_def page_ok_def)
  qed
  have inj: "inj_on ?f ?X"
  proof (rule inj_onI)
    fix a b assume "?f a = ?f b"
    then have "p_pg (?f a) = p_pg (?f b)" by (rule arg_cong)
    then show "a = b" by simp
  qed
  show "finite (blk_pages spp p)" unfolding im by simp
  show "card (blk_pages spp p) = pgs_per_blk spp" unfolding im card_image [OF inj] by simp
qed

definition cnt :: "(ppa \<Rightarrow> pg_status) \<Rightarrow> pg_status \<Rightarrow> ppa set \<Rightarrow> nat" where
  "cnt st s X = card {q \<in> X. st q = s}"

lemma cnt_cong: "(\<And>q. q \<in> X \<Longrightarrow> st' q = st q) \<Longrightarrow> cnt st' s X = cnt st s X"
  unfolding cnt_def by (rule arg_cong [of _ _ card]) auto

lemma cnt_total:
  assumes "finite X"
  shows "cnt st PG_FREE X + cnt st PG_INVALID X + cnt st PG_VALID X = card X"
proof -
  have "X = {q \<in> X. st q = PG_FREE} \<union> {q \<in> X. st q = PG_INVALID} \<union> {q \<in> X. st q = PG_VALID}"
    using pg_status.exhaust by auto
  moreover have "card ({q \<in> X. st q = PG_FREE} \<union> {q \<in> X. st q = PG_INVALID} \<union> {q \<in> X. st q = PG_VALID}) =
      cnt st PG_FREE X + cnt st PG_INVALID X + cnt st PG_VALID X"
    unfolding cnt_def using assms by (subst card_Un_disjoint; (subst card_Un_disjoint)?) auto
  ultimately show ?thesis by simp
qed

lemma cnt_upd:
  assumes "finite X" and "p \<in> X" and "st p = a" and "a \<noteq> b" and "\<And>q. q \<in> X \<Longrightarrow> st' q = (if q = p then b else st q)"
  shows "cnt st' b X = cnt st b X + 1" "cnt st a X = cnt st' a X + 1" "c \<noteq> a \<Longrightarrow> c \<noteq> b \<Longrightarrow> cnt st' c X = cnt st c X"
proof -
  have "{q \<in> X. st' q = b} = insert p {q \<in> X. st q = b}" "{q \<in> X. st q = a} = insert p {q \<in> X. st' q = a}"
    using assms(2-5) by (auto split: if_splits)
  then show "cnt st' b X = cnt st b X + 1" "cnt st a X = cnt st' a X + 1" unfolding cnt_def using assms by auto
  assume "c \<noteq> a" "c \<noteq> b"
  then have "{q \<in> X. st' q = c} = {q \<in> X. st q = c}" using assms(2-5) by auto
  then show "cnt st' c X = cnt st c X" by (simp add: cnt_def)
qed

lemma cnt_pos: "finite X \<Longrightarrow> 0 < cnt st s X \<longleftrightarrow> (\<exists>q \<in> X. st q = s)"
  by (auto simp: cnt_def card_gt_0_iff)

lemma cnt_all: "finite X \<Longrightarrow> cnt st s X = card X \<longleftrightarrow> (\<forall>q \<in> X. st q = s)"
proof
  assume "finite X" "cnt st s X = card X"
  then have "{q \<in> X. st q = s} = X" unfolding cnt_def by (intro card_subset_eq) auto
  then show "\<forall>q \<in> X. st q = s" by auto
next
  assume "\<forall>q \<in> X. st q = s"
  then have "{q \<in> X. st q = s} = X" by auto
  then show "cnt st s X = card X" by (simp add: cnt_def)
qed

lemma cnt_zero:
  assumes "\<And>q. q \<in> X \<Longrightarrow> st q \<noteq> s"
  shows "cnt st s X = 0"
proof -
  have "{q \<in> X. st q = s} = {}" using assms by blast
  then show ?thesis unfolding cnt_def by (simp only: card.empty)
qed

lemma cnt_le: "finite X \<Longrightarrow> cnt st s X \<le> card X"
  unfolding cnt_def by (auto intro: card_mono)


section \<open>Write pointers\<close>

definition wp_range :: "ssdparams \<Rightarrow> write_pointer \<Rightarrow> bool" where
  "wp_range spp w \<longleftrightarrow> wp_ch w < nchs spp \<and> wp_lun w < luns_per_ch spp \<and> wp_pg w < pgs_per_blk spp \<and>
     wp_pl w = 0 \<and> wp_blk w = wp_curline w \<and> wp_curline w < blks_per_pl spp"

lemma wp_no_less: "conv_geo spp \<Longrightarrow> wp_range spp w \<Longrightarrow> wp_no spp w < pgs_per_line spp"
  by (simp add: page_no_less wp_range_def)

text \<open>Advancing moves to the next page of the line, until the line is used up.\<close>

lemma wp_step_spec:
  assumes g: "conv_geo spp" and r: "wp_range spp w"
  shows "(\<exists>w'. wp_step spp w = Some (w', False) \<and> wp_range spp w' \<and> wp_curline w' = wp_curline w \<and>
      wp_no spp w' = wp_no spp w + 1) \<or>
    wp_step spp w = Some (w\<lparr>wp_ch := 0, wp_lun := 0, wp_pg := 0\<rparr>, True) \<and> wp_no spp w + 1 = pgs_per_line spp"
proof -
  let ?O = "pgs_per_oneshotpg spp" and ?W = "oneshotpgs_per_blk spp" and ?N = "nchs spp" and ?L = "luns_per_ch spp"
  have O: "0 < ?O" "pgs_per_blk spp = ?O * ?W" using g by (auto simp: conv_geo_def)
  define a b where "a = wp_pg w div ?O" and "b = wp_pg w mod ?O"
  have pg: "wp_pg w = ?O * a + b" "b < ?O" using O by (auto simp: a_def b_def)
  have aW: "a < ?W" using r O by (simp add: a_def wp_range_def less_mult_imp_div_less mult.commute)
  have in_range: "wp_ch w < ?N" "wp_lun w < ?L" "wp_pg w < ?O * ?W" using r O by (auto simp: wp_range_def)
  have no: "wp_no spp w = ((a * ?L + wp_lun w) * ?N + wp_ch w) * ?O + b" by (simp add: page_no_def a_def b_def)
  show ?thesis
  proof (cases "b + 1 < ?O")
    case True
    define b' where "b' = b + 1"
    have "Suc (wp_pg w) = a * ?O + b'" using pg by (simp add: b'_def)
    moreover have "(a * ?O + b') mod ?O = b'" "(a * ?O + b') div ?O = a" using True b'_def [symmetric] by simp_all
    ultimately have m: "Suc (wp_pg w) mod ?O = b + 1" "Suc (wp_pg w) div ?O = a" unfolding b'_def by (simp_all only:)
    have "Suc (wp_pg w) < ?O * ?W"
    proof -
      have "?O * a + (b + 1) < ?O * ?W" using radix_less [OF aW True] by (simp add: mult.commute)
      then show ?thesis using pg by simp
    qed
    then show ?thesis using m r in_range O no
      by (simp add: wp_step_def Let_def wp_range_def page_no_def)
  next
    case False
    then have b: "b + 1 = ?O" using pg by simp
    then have S: "Suc (wp_pg w) = ?O * (a + 1)" using pg by simp
    then have m: "Suc (wp_pg w) mod ?O = 0" "Suc (wp_pg w) - ?O = ?O * a" by simp_all
    have oa: "?O * a < ?O * ?W" "?O * a div ?O = a" "?O * a mod ?O = 0" using aW O by simp_all
    show ?thesis
    proof (cases "wp_ch w + 1 = ?N")
      case False
      then show ?thesis using m r in_range O no b oa
        by (simp add: wp_step_def Let_def wp_range_def page_no_def algebra_simps)
    next
      case N: True
      show ?thesis
      proof (cases "wp_lun w + 1 = ?L")
        case False
        then have "wp_no spp w + 1 = ((a * ?L + (wp_lun w + 1)) * ?N) * ?O" using no b N
          by (metis add.assoc add_mult_distrib mult_1 add.commute)
        then show ?thesis using m r in_range O N False oa
          by (simp add: wp_step_def Let_def wp_range_def page_no_def)
      next
        case L: True
        have e: "wp_no spp w + 1 = (a + 1) * ?L * ?N * ?O" using no b N L
          by (metis add.assoc add_mult_distrib mult_1 add.commute)
        show ?thesis
        proof (cases "a + 1 = ?W")
          case False
          then have "a + 1 < ?W" using aW by simp
          then have "?O * (a + 1) < ?O * ?W" using O(1) by (rule mult_less_mono2)
          moreover have "?O * (a + 1) \<noteq> ?O * ?W" using calculation by simp
          moreover have "?O * (a + 1) div ?O = a + 1" "?O * (a + 1) mod ?O = 0" using O by simp_all
          ultimately show ?thesis using m r in_range O N L oa e
            by (simp add: wp_step_def Let_def wp_range_def page_no_def algebra_simps)
        next
          case True
          then have "wp_no spp w + 1 = pgs_per_line spp" using e g O by (simp add: conv_geo_def ac_simps)
          moreover have "?O * a + ?O = ?O * ?W" using True by (metis mult_Suc_right Suc_eq_plus1 add.commute)
          ultimately show ?thesis using m r in_range O N L oa
            by (simp add: wp_step_def Let_def wp_range_def)
        qed
      qed
    qed
  qed
qed

text \<open>The page a write pointer stands at.\<close>

definition wp_page :: "write_pointer \<Rightarrow> ppa" where
  "wp_page w = \<lparr>p_pg = wp_pg w, p_blk = wp_curline w, p_pl = 0, p_lun = wp_lun w, p_ch = wp_ch w, p_rsv = 0\<rparr>"

lemma get_new_page_eq:
  assumes "conv_geo (c_spp x)" and "wp_range (c_spp x) (get_wp t x)"
  shows "get_new_page t x = Some (wp_page (get_wp t x))"
proof -
  have "wp_pg (get_wp t x) mod 2 ^ 16 = wp_pg (get_wp t x)" "wp_blk (get_wp t x) mod 2 ^ 16 = wp_curline (get_wp t x)"
    "wp_lun (get_wp t x) mod 2 ^ 8 = wp_lun (get_wp t x)" "wp_ch (get_wp t x) mod 2 ^ 8 = wp_ch (get_wp t x)"
    using assms by (auto simp: conv_geo_def wp_range_def)
  then show ?thesis using assms(2) by (simp add: get_new_page_def mk_ppa_def wp_page_def wp_range_def Let_def)
qed

lemma wp_page_in_line: "wp_range spp w \<Longrightarrow> wp_page w \<in> line_pages spp (wp_curline w)"
  by (simp add: wp_range_def wp_page_def line_pages_def page_ok_def)

lemma ppa_no_wp_page [simp]: "ppa_no spp (wp_page w) = wp_no spp w" "p_blk (wp_page w) = wp_curline w"
  by (simp_all add: wp_page_def)


section \<open>The invariant\<close>

abbreviation pst :: "conv_ftl \<Rightarrow> ppa \<Rightarrow> pg_status" where
  "pst x \<equiv> get_pg (c_ssd x)"

text \<open>
  Block and line counters. The lines in \<open>X\<close> are exempt: a line that is being cleaned keeps its old counters
  until it is freed.
\<close>

definition blk_counts :: "ssd \<Rightarrow> nat set \<Rightarrow> bool" where
  "blk_counts s X \<longleftrightarrow> (\<forall>p. page_ok (sp s) p \<longrightarrow> nb_npgs (get_blk s p) = pgs_per_blk (sp s) \<and>
     (p_blk p \<notin> X \<longrightarrow> nb_vpc (get_blk s p) = int (cnt (get_pg s) PG_VALID (blk_pages (sp s) p)) \<and>
        nb_ipc (get_blk s p) = int (cnt (get_pg s) PG_INVALID (blk_pages (sp s) p))))"

definition line_counts :: "ssdparams \<Rightarrow> (ppa \<Rightarrow> pg_status) \<Rightarrow> (nat \<Rightarrow> line) \<Rightarrow> nat set \<Rightarrow> bool" where
  "line_counts spp st ls X \<longleftrightarrow> (\<forall>i < blks_per_pl spp. i \<notin> X \<longrightarrow>
     ln_vpc (ls i) = cnt st PG_VALID (line_pages spp i) \<and> ln_ipc (ls i) = cnt st PG_INVALID (line_pages spp i))"

abbreviation victims :: "line_mgmt \<Rightarrow> nat set" where
  "victims m \<equiv> vq.pq_elems (victim_line_pq m, lines m)"

text \<open>Every line is in exactly one place: a list, the victim queue, or one of \<open>os\<close>.\<close>

definition lists_ok :: "nat \<Rightarrow> nat list \<Rightarrow> line_mgmt \<Rightarrow> bool" where
  "lists_ok n os m \<longleftrightarrow> vq.pq_inv (victim_line_pq m, lines m) \<and> pq_avail (victim_line_pq m) = n + 1 \<and>
     distinct (free_line_list m @ full_line_list m @ os) \<and>
     set (free_line_list m @ full_line_list m @ os) \<inter> victims m = {} \<and>
     set (free_line_list m @ full_line_list m @ os) \<union> victims m = {..<n} \<and>
     (\<forall>i < n. ln_id (lines m i) = i) \<and> (\<forall>i < n. i \<notin> victims m \<longrightarrow> ln_pos (lines m i) = 0) \<and>
     free_line_cnt m = length (free_line_list m) \<and> full_line_cnt m = length (full_line_list m) \<and>
     victim_line_cnt m = pq_size (victim_line_pq m) - 1"

definition roles_ok :: "ssdparams \<Rightarrow> (ppa \<Rightarrow> pg_status) \<Rightarrow> line_mgmt \<Rightarrow> bool" where
  "roles_ok spp st m \<longleftrightarrow> (\<forall>i \<in> set (free_line_list m). \<forall>p \<in> line_pages spp i. st p = PG_FREE) \<and>
     (\<forall>i \<in> set (full_line_list m). \<forall>p \<in> line_pages spp i. st p = PG_VALID) \<and>
     (\<forall>i \<in> victims m. (\<forall>p \<in> line_pages spp i. st p \<noteq> PG_FREE) \<and> (\<exists>p \<in> line_pages spp i. st p = PG_INVALID))"

text \<open>The first \<open>n\<close> pages of the pointer's line are written.\<close>

definition wp_at :: "ssdparams \<Rightarrow> (ppa \<Rightarrow> pg_status) \<Rightarrow> write_pointer \<Rightarrow> nat \<Rightarrow> bool" where
  "wp_at spp st w n \<longleftrightarrow> wp_range spp w \<and> (\<forall>p \<in> line_pages spp (wp_curline w). st p = PG_FREE \<longleftrightarrow> n \<le> ppa_no spp p)"

abbreviation wp_ok :: "ssdparams \<Rightarrow> (ppa \<Rightarrow> pg_status) \<Rightarrow> write_pointer \<Rightarrow> bool" where
  "wp_ok spp st w \<equiv> wp_at spp st w (wp_no spp w)"

definition flash_inv :: "nat list \<Rightarrow> conv_ftl \<Rightarrow> bool" where
  "flash_inv vl x \<longleftrightarrow> conv_geo (c_spp x) \<and> ssd_inv (c_ssd x) \<and> blk_counts (c_ssd x) (set vl) \<and>
     line_counts (c_spp x) (pst x) (lines (lm x)) (set vl) \<and>
     lists_ok (blks_per_pl (c_spp x)) (wp_curline (c_wp x) # wp_curline (c_gc_wp x) # vl) (lm x) \<and>
     roles_ok (c_spp x) (pst x) (lm x) \<and> wp_ok (c_spp x) (pst x) (c_wp x) \<and> wp_ok (c_spp x) (pst x) (c_gc_wp x)"

text \<open>The valid pages and the two tables are inverse to each other.\<close>

definition map_ok :: "ssdparams \<Rightarrow> ppa set \<Rightarrow> (nat \<Rightarrow> ppa) \<Rightarrow> (nat \<Rightarrow> nat) \<Rightarrow> bool" where
  "map_ok spp V M R \<longleftrightarrow> (\<forall>p \<in> V. page_ok spp p) \<and>
     (\<forall>lpn < tt_pgs spp. M lpn \<noteq> UNMAPPED_PPA \<longrightarrow> M lpn \<in> V \<and> R (pgidx spp (M lpn)) = lpn) \<and>
     (\<forall>p \<in> V. R (pgidx spp p) < tt_pgs spp \<and> M (R (pgidx spp p)) = p)"

definition valid_pages :: "conv_ftl \<Rightarrow> ppa set" where
  "valid_pages x = {p. page_ok (c_spp x) p \<and> pst x p = PG_VALID}"

definition mapped_lpns :: "conv_ftl \<Rightarrow> nat set" where
  "mapped_lpns x = {lpn. lpn < tt_pgs (c_spp x) \<and> maptbl x lpn \<noteq> UNMAPPED_PPA}"

lemma page_ok_mapped [simp]: "page_ok spp p \<Longrightarrow> p \<noteq> UNMAPPED_PPA"
  by (auto simp: page_ok_def UNMAPPED_PPA_def)

lemma unmapped_not_ok [simp]: "\<not> page_ok spp UNMAPPED_PPA"
  by (simp add: page_ok_def UNMAPPED_PPA_def)

text \<open>Moving a logical page from \<open>old\<close> (if mapped) to a new physical page.\<close>

lemma map_ok_move:
  assumes "conv_geo spp" and m: "map_ok spp V M R" and lpn: "lpn < tt_pgs spp" and new: "page_ok spp new" "new \<notin> V"
    and R: "\<And>p. p \<in> V - {M lpn} \<Longrightarrow> R' (pgidx spp p) = R (pgidx spp p)" "R' (pgidx spp new) = lpn"
  shows "map_ok spp (insert new (V - {M lpn})) (M(lpn := new)) R'"
proof -
  let ?V = "insert new (V - {M lpn})" and ?M = "M(lpn := new)"
  have V: "page_ok spp p" "R (pgidx spp p) < tt_pgs spp" "M (R (pgidx spp p)) = p" if "p \<in> V" for p
    using m that by (auto simp: map_ok_def)
  have fwd: "?M l \<in> ?V \<and> R' (pgidx spp (?M l)) = l" if "l < tt_pgs spp" "?M l \<noteq> UNMAPPED_PPA" for l
  proof (cases "l = lpn")
    case False
    then have l: "M l \<in> V" "R (pgidx spp (M l)) = l" using m that by (auto simp: map_ok_def)
    moreover have "M l \<noteq> M lpn"
    proof
      assume eq: "M l = M lpn"
      then have "M lpn \<noteq> UNMAPPED_PPA" using that False by simp
      then have "R (pgidx spp (M lpn)) = lpn" using m lpn by (auto simp: map_ok_def)
      then show False using l eq False by simp
    qed
    ultimately show ?thesis using False R(1) [of "M l"] by simp
  qed (use R(2) in simp)
  have bwd: "R' (pgidx spp p) < tt_pgs spp \<and> ?M (R' (pgidx spp p)) = p" if "p \<in> ?V" for p
  proof (cases "p = new")
    case False
    then have p: "p \<in> V" "p \<noteq> M lpn" using that by auto
    then have "R' (pgidx spp p) = R (pgidx spp p)" using R(1) by simp
    moreover have "R (pgidx spp p) \<noteq> lpn" using V(3) [OF p(1)] p(2) by auto
    ultimately show ?thesis using V [OF p(1)] by simp
  qed (use R(2) lpn in simp)
  show ?thesis using fwd bwd V(1) new(1) by (auto simp: map_ok_def simp del: fun_upd_apply)
qed

section \<open>Changing a block\<close>

definition same_blk :: "ppa \<Rightarrow> ppa \<Rightarrow> bool" where
  "same_blk p q \<longleftrightarrow> p_ch q = p_ch p \<and> p_lun q = p_lun p \<and> p_pl q = p_pl p \<and> p_blk q = p_blk p"

lemma set_blk_simps [simp]: "sp (set_blk p b s) = sp s" "s_lun_avail (set_blk p b s) = s_lun_avail s"
  "ssd_inv (set_blk p b s) = ssd_inv s"
  by (auto simp: set_blk_def ssd_inv_def)

lemma get_blk_set_blk: "get_blk (set_blk p b s) q = (if same_blk p q then b else get_blk s q)"
  by (auto simp: get_blk_def set_blk_def same_blk_def)

lemma get_pg_set_blk: "get_pg (set_blk p b s) q = (if same_blk p q then nb_pg b (p_pg q) else get_pg s q)"
  by (simp add: get_pg_def get_blk_set_blk)

lemma same_blkD: "same_blk p q \<Longrightarrow> get_blk s q = get_blk s p" "same_blk p q \<Longrightarrow> p_blk q = p_blk p"
  "same_blk p q \<Longrightarrow> blk_pages spp q = blk_pages spp p"
  by (auto simp: same_blk_def get_blk_def blk_pages_def)

lemma same_blk_pages: "page_ok spp p \<Longrightarrow> q \<in> blk_pages spp p \<longleftrightarrow> page_ok spp q \<and> same_blk p q"
  by (auto simp: blk_pages_def same_blk_def page_ok_def)

lemma get_blk_other: "p_blk q \<noteq> p_blk p \<Longrightarrow> get_blk (set_blk p b s) q = get_blk s q"
  by (auto simp: get_blk_set_blk same_blk_def)

text \<open>One page changes its status.\<close>

lemma get_pg_upd:
  assumes "page_ok spp p" and "page_ok spp q" and "nb_pg b = (nb_pg (get_blk s p))(p_pg p := v)"
  shows "get_pg (set_blk p b s) q = (if q = p then v else get_pg s q)"
proof (cases "same_blk p q")
  case True
  then have "q = p \<longleftrightarrow> p_pg q = p_pg p" using page_eq [OF assms(2,1)] by (auto simp: same_blk_def)
  then show ?thesis using assms(3) True by (simp add: get_pg_set_blk) (simp add: get_pg_def same_blkD)
next
  case False
  then show ?thesis by (auto simp: get_pg_set_blk same_blk_def)
qed

lemma blk_counts_upd:
  assumes c: "blk_counts s X" and p: "page_ok (sp s) p" and pg: "nb_pg b = (nb_pg (get_blk s p))(p_pg p := v)"
    and n: "nb_npgs b = nb_npgs (get_blk s p)"
    and b: "p_blk p \<notin> X \<Longrightarrow> nb_vpc b = int (cnt (get_pg (set_blk p b s)) PG_VALID (blk_pages (sp s) p)) \<and>
        nb_ipc b = int (cnt (get_pg (set_blk p b s)) PG_INVALID (blk_pages (sp s) p))"
  shows "blk_counts (set_blk p b s) X"
  unfolding blk_counts_def set_blk_simps(1)
proof (intro allI impI)
  fix q assume q: "page_ok (sp s) q"
  show "nb_npgs (get_blk (set_blk p b s) q) = pgs_per_blk (sp s) \<and>
    (p_blk q \<notin> X \<longrightarrow> nb_vpc (get_blk (set_blk p b s) q) = int (cnt (get_pg (set_blk p b s)) PG_VALID (blk_pages (sp s) q)) \<and>
       nb_ipc (get_blk (set_blk p b s) q) = int (cnt (get_pg (set_blk p b s)) PG_INVALID (blk_pages (sp s) q)))"
  proof (cases "same_blk p q")
    case True
    then show ?thesis using b n c p by (simp add: get_blk_set_blk same_blkD blk_counts_def)
  next
    case False
    have "cnt (get_pg (set_blk p b s)) a (blk_pages (sp s) q) = cnt (get_pg s) a (blk_pages (sp s) q)" for a
    proof (rule cnt_cong)
      fix r assume "r \<in> blk_pages (sp s) q"
      then have "same_blk q r" using same_blk_pages [OF q] by simp
      then have "\<not> same_blk p r" using False by (auto simp: same_blk_def)
      then show "get_pg (set_blk p b s) r = get_pg s r" by (simp add: get_pg_set_blk)
    qed
    then show ?thesis using c q False by (simp add: get_blk_set_blk blk_counts_def)
  qed
qed

lemma line_counts_upd:
  assumes c: "line_counts spp st ls X"
    and st: "\<And>q. page_ok spp q \<Longrightarrow> p_blk q \<noteq> i \<Longrightarrow> st' q = st q"
    and ls: "\<And>j. j \<noteq> i \<Longrightarrow> ln_vpc (ls' j) = ln_vpc (ls j) \<and> ln_ipc (ls' j) = ln_ipc (ls j)"
    and i: "i < blks_per_pl spp \<Longrightarrow> i \<notin> X \<Longrightarrow> ln_vpc (ls' i) = cnt st' PG_VALID (line_pages spp i) \<and>
      ln_ipc (ls' i) = cnt st' PG_INVALID (line_pages spp i)"
  shows "line_counts spp st' ls' X"
  unfolding line_counts_def
proof (intro allI impI)
  fix j assume j: "j < blks_per_pl spp" "j \<notin> X"
  show "ln_vpc (ls' j) = cnt st' PG_VALID (line_pages spp j) \<and> ln_ipc (ls' j) = cnt st' PG_INVALID (line_pages spp j)"
  proof (cases "j = i")
    case False
    have "cnt st' a (line_pages spp j) = cnt st a (line_pages spp j)" for a
      by (rule cnt_cong) (use False st in \<open>auto simp: line_pages_def\<close>)
    then show ?thesis using c j ls [OF False] by (simp add: line_counts_def)
  qed (use i j in simp)
qed


text \<open>A page in a line, its block and its line are counted together.\<close>

lemma line_pages_blk: "p \<in> line_pages spp i \<longleftrightarrow> page_ok spp p \<and> p_blk p = i"
  by (simp add: line_pages_def)

lemma page_counts:
  assumes g: "conv_geo spp" and p: "page_ok spp p"
    and st: "\<And>q. page_ok spp q \<Longrightarrow> st' q = (if q = p then b else st q)" and ab: "st p = a" "a \<noteq> b"
    and Y: "Y = blk_pages spp p \<or> Y = line_pages spp (p_blk p)"
  shows "cnt st' b Y = cnt st b Y + 1" "cnt st a Y = cnt st' a Y + 1" "c \<noteq> a \<Longrightarrow> c \<noteq> b \<Longrightarrow> cnt st' c Y = cnt st c Y"
    "cnt st b Y < card Y"
proof -
  have i: "p_blk p < blks_per_pl spp" using p by (simp add: page_ok_def)
  have f: "finite Y" using Y card_blk_pages [OF p] card_line_pages [OF g i] by auto
  have pY: "p \<in> Y" using Y p by (auto simp: blk_pages_def line_pages_def)
  have st': "st' q = (if q = p then b else st q)" if "q \<in> Y" for q
    using st that Y by (auto simp: blk_pages_def line_pages_def)
  note u = cnt_upd [OF f pY ab st']
  show "cnt st' b Y = cnt st b Y + 1" "cnt st a Y = cnt st' a Y + 1" "c \<noteq> a \<Longrightarrow> c \<noteq> b \<Longrightarrow> cnt st' c Y = cnt st c Y"
    using u by auto
  show "cnt st b Y < card Y" using u(1) cnt_le [OF f, of st' b] by simp
qed

lemma mark_page_valid_spec:
  assumes g: "conv_geo (c_spp x)" and bc: "blk_counts (c_ssd x) X"
    and lc: "line_counts (c_spp x) (pst x) (lines (lm x)) X" and p: "page_ok (c_spp x) p" "p_blk p \<notin> X" "pst x p = PG_FREE"
  obtains s where "mark_page_valid p x = Some (x\<lparr>c_ssd := s, lm := (lm x)\<lparr>lines := (lines (lm x))(p_blk p :=
      (lines (lm x) (p_blk p))\<lparr>ln_vpc := ln_vpc (lines (lm x) (p_blk p)) + 1\<rparr>)\<rparr>\<rparr>)"
    and "sp s = c_spp x" and "ssd_inv s = ssd_inv (c_ssd x)" and "blk_counts s X"
    and "\<And>q. page_ok (c_spp x) q \<Longrightarrow> get_pg s q = (if q = p then PG_VALID else pst x q)"
    and "\<And>q. p_blk q \<noteq> p_blk p \<Longrightarrow> get_blk s q = get_blk (c_ssd x) q"
    and "line_counts (c_spp x) (get_pg s) ((lines (lm x))(p_blk p :=
      (lines (lm x) (p_blk p))\<lparr>ln_vpc := ln_vpc (lines (lm x) (p_blk p)) + 1\<rparr>)) X"
proof -
  let ?spp = "c_spp x" and ?b = "get_blk (c_ssd x) p" and ?i = "p_blk p"
  define b' where "b' = ?b\<lparr>nb_pg := (nb_pg ?b)(p_pg p := PG_VALID), nb_vpc := nb_vpc ?b + 1\<rparr>"
  have b': "nb_pg b' = (nb_pg ?b)(p_pg p := PG_VALID)" "nb_npgs b' = nb_npgs ?b" "nb_vpc b' = nb_vpc ?b + 1" "nb_ipc b' = nb_ipc ?b"
    by (simp_all add: b'_def)
  define s where "s = set_blk p b' (c_ssd x)"
  have st: "get_pg s q = (if q = p then PG_VALID else pst x q)" if "page_ok ?spp q" for q
    unfolding s_def by (rule get_pg_upd [OF p(1) that]) (simp add: b'_def)
  have i: "?i < blks_per_pl ?spp" using p(1) by (simp add: page_ok_def)
  note cb = page_counts [OF g p(1) st p(3) _ disjI1 [OF refl], simplified]
  note cl = page_counts [OF g p(1) st p(3) _ disjI2 [OF refl], simplified]
  have vb: "nb_vpc ?b = int (cnt (pst x) PG_VALID (blk_pages ?spp p))" "nb_ipc ?b = int (cnt (pst x) PG_INVALID (blk_pages ?spp p))"
    using bc p by (auto simp: blk_counts_def)
  have vl: "ln_vpc (lines (lm x) ?i) = cnt (pst x) PG_VALID (line_pages ?spp ?i)" "ln_ipc (lines (lm x) ?i) = cnt (pst x) PG_INVALID (line_pages ?spp ?i)"
    using lc p(2) i by (auto simp: line_counts_def)
  have "mark_page_valid p x = Some (x\<lparr>c_ssd := s, lm := (lm x)\<lparr>lines := (lines (lm x))(p_blk p :=
      (lines (lm x) (p_blk p))\<lparr>ln_vpc := ln_vpc (lines (lm x) (p_blk p)) + 1\<rparr>)\<rparr>\<rparr>)"
    using p(3) vb(1) vl(1) cb(4) cl(4) card_blk_pages(2) [OF p(1)] card_line_pages(2) [OF g i]
    by (simp add: mark_page_valid_def Let_def set_line_def s_def b'_def)
  moreover have "blk_counts s X" unfolding s_def
    by (rule blk_counts_upd [OF bc p(1) b'(1,2)]) (use vb cb in \<open>simp add: b'(3,4) s_def [symmetric]\<close>)
  moreover have "line_counts ?spp (get_pg s) ((lines (lm x))(?i := (lines (lm x) ?i)\<lparr>ln_vpc := ln_vpc (lines (lm x) ?i) + 1\<rparr>)) X"
    by (rule line_counts_upd [OF lc, of ?i]) (use st vl cl in auto)
  ultimately show thesis using that [of s] st get_blk_other by (simp add: s_def)
qed

section \<open>The line lists\<close>

lemma victims_lines [simp]: "victims (m\<lparr>lines := ls\<rparr>) = victims m"
  by (simp add: vq.pq_elems_def)

lemma pq_inv_cong:
  assumes "vq.pq_inv (q, ls)" and "\<And>i. i \<in> vq.pq_elems (q, ls) \<Longrightarrow> ln_vpc (ls' i) = ln_vpc (ls i) \<and> ln_pos (ls' i) = ln_pos (ls i)"
  shows "vq.pq_inv (q, ls')"
proof -
  have e: "ln_vpc (ls' (pq_d q j)) = ln_vpc (ls (pq_d q j)) \<and> ln_pos (ls' (pq_d q j)) = ln_pos (ls (pq_d q j))"
    if "1 \<le> j" "j < pq_size q" for j
    using assms(2) [of "pq_d q j"] that by (auto simp: vq.pq_elems_def vq.elems_def)
  have "vq.heap ls' (pq_size q) (pq_d q)" unfolding vq.heap_def vq.above_def
  proof (intro allI impI)
    fix j assume j: "2 \<le> j \<and> j < pq_size q"
    then have "1 \<le> j div 2" "j div 2 < pq_size q" "1 \<le> j" by auto
    with j show "\<not> cmppri victim_ops (getpri victim_ops ls' (pq_d q (j div 2))) (getpri victim_ops ls' (pq_d q j))"
      using assms(1) e [of "j div 2"] e [of j] by (simp add: vq.pq_inv_def vq.heap_def vq.above_def)
  qed
  moreover have "vq.pos_ok ls' (pq_size q) (pq_d q) {}"
    using assms(1) e by (simp add: vq.pq_inv_def vq.pos_ok_def)
  ultimately show ?thesis using assms(1) by (simp add: vq.pq_inv_def)
qed

lemma lists_ok_line:
  assumes "lists_ok n os m" and "i \<notin> victims m" and "ln_id l = ln_id (lines m i)" and "ln_pos l = ln_pos (lines m i)"
  shows "lists_ok n os (m\<lparr>lines := (lines m)(i := l)\<rparr>)"
proof -
  have "vq.pq_inv (victim_line_pq m, (lines m)(i := l))"
    by (rule pq_inv_cong [of _ "lines m"]) (use assms in \<open>auto simp: lists_ok_def\<close>)
  moreover have "\<forall>j < n. ln_id (((lines m)(i := l)) j) = j" "\<forall>j < n. j \<notin> victims m \<longrightarrow> ln_pos (((lines m)(i := l)) j) = 0"
    using assms by (auto simp: lists_ok_def)
  moreover have "vq.pq_elems (victim_line_pq m, (lines m)(i := l)) = victims m" by (simp add: vq.pq_elems_def)
  ultimately show ?thesis using assms(1) by (simp add: lists_ok_def del: fun_upd_apply)
qed

lemma lists_ok_perm:
  assumes "lists_ok n os m" and "mset os = mset os'"
  shows "lists_ok n os' m"
proof -
  have "set os = set os'" using assms(2) by (metis set_mset_mset)
  moreover have "distinct os \<longleftrightarrow> distinct os'" using assms(2) by (metis mset_eq_imp_distinct_iff)
  ultimately show ?thesis using assms(1) by (auto simp: lists_ok_def)
qed

lemma victims_card:
  assumes "lists_ok n os m"
  shows "finite (victims m)" "card (victims m) = pq_size (victim_line_pq m) - 1"
proof -
  have p: "vq.pos_ok (lines m) (pq_size (victim_line_pq m)) (pq_d (victim_line_pq m)) {}" using assms by (simp add: lists_ok_def vq.pq_inv_def)
  have "inj_on (pq_d (victim_line_pq m)) {1..<pq_size (victim_line_pq m)}"
    by (rule inj_onI) (use vq.pos_inj [OF p] in auto)
  then show "card (victims m) = pq_size (victim_line_pq m) - 1" by (simp add: vq.pq_elems_def vq.elems_def card_image)
  show "finite (victims m)" by (simp add: vq.pq_elems_def vq.elems_def)
qed

lemma inc32_less: "n + 1 < 2 ^ 32 \<Longrightarrow> inc32 n = n + 1"
  by (simp add: inc32_def)

lemma dec32_pos: "0 < n \<Longrightarrow> n < 2 ^ 32 \<Longrightarrow> dec32 n = n - 1"
proof -
  assume n: "0 < n" "n < 2 ^ 32"
  then have "n + (2 ^ 32 - 1) = (n - 1) + 2 ^ 32" by simp
  then have "dec32 n = (n - 1) mod 2 ^ 32" by (simp only: dec32_def mod_add_self2)
  then show ?thesis using n by simp
qed

text \<open>The number of lines fits a counter.\<close>

lemma lists_ok_bounds:
  assumes "lists_ok n os m"
  shows "length (free_line_list m) + length (full_line_list m) + length os + card (victims m) = n"
proof -
  let ?l = "free_line_list m @ full_line_list m @ os"
  have "card (set ?l \<union> victims m) = card (set ?l) + card (victims m)"
    using assms victims_card(1) [OF assms] by (intro card_Un_disjoint) (auto simp: lists_ok_def)
  moreover have "card (set ?l) = length ?l" using assms by (intro distinct_card) (simp add: lists_ok_def)
  moreover have "set ?l \<union> victims m = {..<n}" using assms by (simp add: lists_ok_def)
  ultimately show ?thesis by simp
qed

text \<open>A line outside all lists becomes a victim.\<close>

lemma victim_insert:
  assumes ok: "lists_ok n (l # os) m" and n: "n < 2 ^ 32"
  obtains pq ls where "pqueue_insert victim_ops l (victim_line_pq m, lines m) = Some (pq, ls)"
    and "lists_ok n os (m\<lparr>victim_line_pq := pq, lines := ls, victim_line_cnt := inc32 (victim_line_cnt m)\<rparr>)"
    and "vq.pq_elems (pq, ls) = insert l (victims m)"
    and "\<And>i. ln_vpc (ls i) = ln_vpc (lines m i) \<and> ln_ipc (ls i) = ln_ipc (lines m i)"
proof -
  have inv: "vq.pq_inv (victim_line_pq m, lines m)" and new: "l \<notin> victims m" using ok by (auto simp: lists_ok_def)
  have sz: "1 \<le> pq_size (victim_line_pq m)" using inv by (simp add: vq.pq_inv_def)
  have c: "card (victims m) + 1 \<le> n" using lists_ok_bounds [OF ok] by simp
  then have "pq_size (victim_line_pq m) < pq_avail (victim_line_pq m)" using ok victims_card(2) [OF ok] by (simp add: lists_ok_def)
  from vq.insert_settled [OF inv this new] obtain qs where q: "pqueue_insert victim_ops l (victim_line_pq m, lines m) = Some qs"
    "vq.pq_inv qs" "vq.pq_elems qs = insert l (victims m)" "vq.mem_frame (lines m) (snd qs) (insert l (victims m))"
    "pq_size (fst qs) = pq_size (victim_line_pq m) + 1" "pq_avail (fst qs) = pq_avail (victim_line_pq m)" .
  obtain pq ls where qs: "qs = (pq, ls)" by (cases qs)
  note fr = vq_frame [OF q(4)]
  have "inc32 (victim_line_cnt m) = pq_size (victim_line_pq m)"
    using ok c n sz victims_card(2) [OF ok] by (simp add: lists_ok_def inc32_less)
  moreover have "\<forall>i < n. i \<notin> insert l (victims m) \<longrightarrow> ln_pos (ls i) = 0" using fr(4) ok qs by (auto simp: lists_ok_def)
  moreover have "\<forall>i < n. ln_id (ls i) = i" using fr(3) ok qs by (auto simp: lists_ok_def)
  ultimately have "lists_ok n os (m\<lparr>victim_line_pq := pq, lines := ls, victim_line_cnt := inc32 (victim_line_cnt m)\<rparr>)"
    using ok q(2,3,5,6) qs by (auto simp: lists_ok_def)
  then show thesis using that q(1,3) fr(1,2) qs by auto
qed


lemma line_counts_cong:
  "line_counts spp st ls X \<Longrightarrow> (\<And>i. ln_vpc (ls' i) = ln_vpc (ls i) \<and> ln_ipc (ls' i) = ln_ipc (ls i)) \<Longrightarrow> line_counts spp st ls' X"
  by (simp add: line_counts_def)

lemma retire_line_spec:
  assumes g: "conv_geo (c_spp x)" and ok: "lists_ok (blks_per_pl (c_spp x)) (l # os) (lm x)"
    and lc: "line_counts (c_spp x) (pst x) (lines (lm x)) X" "l \<notin> X" and r: "roles_ok (c_spp x) (pst x) (lm x)"
    and used: "\<And>p. p \<in> line_pages (c_spp x) l \<Longrightarrow> pst x p \<noteq> PG_FREE"
  obtains m where "retire_line l x = Some (x\<lparr>lm := m\<rparr>)" and "lists_ok (blks_per_pl (c_spp x)) os m"
    and "roles_ok (c_spp x) (pst x) m" and "free_line_list m = free_line_list (lm x)"
    and "line_counts (c_spp x) (pst x) (lines m) X"
proof -
  let ?spp = "c_spp x" and ?L = "line_pages (c_spp x) l" and ?li = "lines (lm x) l"
  have n: "blks_per_pl ?spp < 2 ^ 32" using g by (simp add: conv_geo_def)
  have l: "l < blks_per_pl ?spp" using ok by (auto simp: lists_ok_def)
  note cl = card_line_pages [OF g l]
  have "cnt (pst x) PG_FREE ?L = 0" using used cl(1) by (auto simp: cnt_def)
  then have tot: "ln_ipc ?li + ln_vpc ?li = pgs_per_line ?spp"
    using cnt_total [OF cl(1), of "pst x"] cl(2) lc l by (simp add: line_counts_def)
  show thesis
  proof (cases "ln_vpc ?li = pgs_per_line ?spp")
    case True
    let ?m = "(lm x)\<lparr>full_line_list := full_line_list (lm x) @ [l], full_line_cnt := inc32 (full_line_cnt (lm x))\<rparr>"
    have "\<forall>p \<in> ?L. pst x p = PG_VALID" using cnt_all [OF cl(1)] cl(2) lc l True by (simp add: line_counts_def)
    then have "roles_ok ?spp (pst x) ?m" using r by (simp add: roles_ok_def)
    moreover have "inc32 (full_line_cnt (lm x)) = length (full_line_list (lm x)) + 1"
      using lists_ok_bounds [OF ok] n ok by (simp add: lists_ok_def inc32_less)
    then have "lists_ok (blks_per_pl ?spp) os ?m" using ok by (auto simp: lists_ok_def)
    moreover have "retire_line l x = Some (x\<lparr>lm := ?m\<rparr>)" using True tot by (simp add: retire_line_def Let_def)
    ultimately show thesis using that lc by simp
  next
    case False
    then have f: "ln_vpc ?li < pgs_per_line ?spp" "0 < ln_ipc ?li" using tot by linarith+
    obtain pq ls where q: "pqueue_insert victim_ops l (victim_line_pq (lm x), lines (lm x)) = Some (pq, ls)"
      "lists_ok (blks_per_pl ?spp) os ((lm x)\<lparr>victim_line_pq := pq, lines := ls, victim_line_cnt := inc32 (victim_line_cnt (lm x))\<rparr>)"
      "vq.pq_elems (pq, ls) = insert l (victims (lm x))"
      "\<And>i. ln_vpc (ls i) = ln_vpc (lines (lm x) i) \<and> ln_ipc (ls i) = ln_ipc (lines (lm x) i)"
      using victim_insert [OF ok n] by metis
    have "\<exists>p \<in> ?L. pst x p = PG_INVALID" using f(2) cnt_pos [OF cl(1)] lc l by (auto simp: line_counts_def)
    then have "roles_ok ?spp (pst x) ((lm x)\<lparr>victim_line_pq := pq, lines := ls, victim_line_cnt := inc32 (victim_line_cnt (lm x))\<rparr>)"
      using r used q(3) by (simp add: roles_ok_def)
    moreover have "retire_line l x = Some (x\<lparr>lm := (lm x)\<lparr>victim_line_pq := pq, lines := ls, victim_line_cnt := inc32 (victim_line_cnt (lm x))\<rparr>\<rparr>)"
      using False f q(1) by (simp add: retire_line_def Let_def)
    ultimately show thesis using that q(2) line_counts_cong [OF lc(1) q(4)] by simp
  qed
qed

text \<open>Taking the first free line.\<close>

lemma take_free_line:
  assumes ok: "lists_ok n os m" and n: "n < 2 ^ 32" and r: "roles_ok spp st m" and f: "free_line_list m = f # fs"
  defines "m' \<equiv> m\<lparr>free_line_list := fs, free_line_cnt := dec32 (free_line_cnt m)\<rparr>"
  shows "lists_ok n (f # os) m'" "roles_ok spp st m'" "f < n" "ln_id (lines m f) = f" "\<forall>p \<in> line_pages spp f. st p = PG_FREE"
proof -
  have "free_line_cnt m < 2 ^ 32" "0 < free_line_cnt m" using ok lists_ok_bounds [OF ok] n f by (auto simp: lists_ok_def)
  then have "dec32 (free_line_cnt m) = length fs" using ok f dec32_pos [of "free_line_cnt m"] by (simp add: lists_ok_def)
  then show "lists_ok n (f # os) m'" using ok f by (auto simp: lists_ok_def m'_def)
  show "roles_ok spp st m'" "\<forall>p \<in> line_pages spp f. st p = PG_FREE" using r f by (auto simp: roles_ok_def m'_def)
  show "f < n" "ln_id (lines m f) = f" using ok f by (auto simp: lists_ok_def)
qed

lemma set_wp_sel [simp]: "get_wp t (set_wp t w x) = w" "lm (set_wp t w x) = lm x" "c_ssd (set_wp t w x) = c_ssd x"
  "maptbl (set_wp t w x) = maptbl x" "rmap (set_wp t w x) = rmap x" "cp (set_wp t w x) = cp x" "wfc (set_wp t w x) = wfc x"
  "get_wp t (x\<lparr>lm := m\<rparr>) = get_wp t x" "get_wp t (x\<lparr>c_ssd := s\<rparr>) = get_wp t x" "get_wp t (x\<lparr>maptbl := a\<rparr>) = get_wp t x"
  "get_wp t (x\<lparr>rmap := b\<rparr>) = get_wp t x"
  by (cases t; simp add: set_wp_def get_wp_def)+

lemma advance_spec:
  assumes g: "conv_geo (c_spp x)" and ok: "lists_ok (blks_per_pl (c_spp x)) (wp_curline (get_wp t x) # os) (lm x)"
    and lc: "line_counts (c_spp x) (pst x) (lines (lm x)) X" "wp_curline (get_wp t x) \<notin> X"
    and r: "roles_ok (c_spp x) (pst x) (lm x)"
    and w: "wp_at (c_spp x) (pst x) (get_wp t x) (wp_no (c_spp x) (get_wp t x) + 1)"
    and free: "wp_no (c_spp x) (get_wp t x) + 1 = pgs_per_line (c_spp x) \<Longrightarrow> free_line_list (lm x) \<noteq> []"
  obtains w' m where "advance_write_pointer t x = Some (set_wp t w' (x\<lparr>lm := m\<rparr>))" and "wp_ok (c_spp x) (pst x) w'"
    and "lists_ok (blks_per_pl (c_spp x)) (wp_curline w' # os) m" and "roles_ok (c_spp x) (pst x) m"
    and "line_counts (c_spp x) (pst x) (lines m) X"
    and "length (free_line_list m) * pgs_per_line (c_spp x) + (pgs_per_line (c_spp x) - wp_no (c_spp x) w') + 1 =
      length (free_line_list (lm x)) * pgs_per_line (c_spp x) + (pgs_per_line (c_spp x) - wp_no (c_spp x) (get_wp t x))"
proof -
  let ?spp = "c_spp x" and ?w = "get_wp t x" and ?P = "pgs_per_line (c_spp x)"
  have n: "blks_per_pl ?spp < 2 ^ 32" using g by (simp add: conv_geo_def)
  have wr: "wp_range ?spp ?w" using w by (simp add: wp_at_def)
  note less = wp_no_less [OF g wr]
  from wp_step_spec [OF g wr] show thesis
  proof (elim disjE exE conjE)
    fix w' assume w': "wp_step ?spp ?w = Some (w', False)" "wp_range ?spp w'" "wp_curline w' = wp_curline ?w"
      "wp_no ?spp w' = wp_no ?spp ?w + 1"
    have "wp_ok ?spp (pst x) w'" using w w' by (simp add: wp_at_def)
    moreover have "advance_write_pointer t x = Some (set_wp t w' (x\<lparr>lm := lm x\<rparr>))" using w'(1) by (simp add: advance_write_pointer_def)
    ultimately show thesis using that [of w' "lm x"] ok r lc w'(3,4) less by simp
  next
    assume s: "wp_step ?spp ?w = Some (?w\<lparr>wp_ch := 0, wp_lun := 0, wp_pg := 0\<rparr>, True)" "wp_no ?spp ?w + 1 = ?P"
    have used: "pst x p \<noteq> PG_FREE" if "p \<in> line_pages ?spp (wp_curline ?w)" for p
    proof -
      have "ppa_no ?spp p < ?P" using that page_no_less [OF g] by (simp add: line_pages_def page_ok_def)
      then show ?thesis using w that s(2) by (auto simp: wp_at_def)
    qed
    obtain m where m: "retire_line (wp_curline ?w) x = Some (x\<lparr>lm := m\<rparr>)" "lists_ok (blks_per_pl ?spp) os m"
      "roles_ok ?spp (pst x) m" "free_line_list m = free_line_list (lm x)" "line_counts ?spp (pst x) (lines m) X"
      using retire_line_spec [OF g ok lc r used] by blast
    obtain f fs where f: "free_line_list m = f # fs" using free [OF s(2)] m(4) by (metis neq_Nil_conv)
    note tk = take_free_line [OF m(2) n m(3) f]
    let ?m = "m\<lparr>free_line_list := fs, free_line_cnt := dec32 (free_line_cnt m)\<rparr>"
    let ?w' = "?w\<lparr>wp_ch := 0, wp_lun := 0, wp_pg := 0, wp_curline := f, wp_blk := f\<rparr>"
    have "advance_write_pointer t x = Some (set_wp t ?w' (x\<lparr>lm := ?m\<rparr>))"
      using s(1) m(1) f tk(3,4) wr by (simp add: advance_write_pointer_def get_next_free_line_def wp_range_def)
    moreover have "wp_range ?spp ?w'" using wr tk(3) geo_pos [OF g] by (simp add: wp_range_def)
    moreover have "wp_no ?spp ?w' = 0" by (simp add: page_no_def)
    moreover have "length (free_line_list ?m) * ?P + (?P - wp_no ?spp ?w') + 1 = length (free_line_list (lm x)) * ?P + (?P - wp_no ?spp ?w)"
    proof -
      have "length (free_line_list (lm x)) = Suc (length fs)" using m(4) f by (metis length_Cons)
      then show ?thesis using s(2) calculation(3) by simp
    qed
    moreover have "wp_ok ?spp (pst x) ?w'" using tk(5) calculation(2,3) by (simp add: wp_at_def)
    ultimately show thesis
      using that [of ?w' ?m] tk(1,2) m(5) by simp
  qed
qed


section \<open>Writing a page\<close>

text \<open>Free pages: those of the free lines and the rest of the two open lines.\<close>

definition space :: "conv_ftl \<Rightarrow> nat" where
  "space x = length (free_line_list (lm x)) * pgs_per_line (c_spp x) +
     (pgs_per_line (c_spp x) - wp_no (c_spp x) (c_wp x)) + (pgs_per_line (c_spp x) - wp_no (c_spp x) (c_gc_wp x))"

text \<open>What a step of the layer leaves alone.\<close>

definition same_tables :: "conv_ftl \<Rightarrow> conv_ftl \<Rightarrow> bool" where
  "same_tables x x' \<longleftrightarrow> c_spp x' = c_spp x \<and> maptbl x' = maptbl x \<and> rmap x' = rmap x \<and> cp x' = cp x \<and> wfc x' = wfc x"

definition sets_page :: "ppa \<Rightarrow> pg_status \<Rightarrow> conv_ftl \<Rightarrow> conv_ftl \<Rightarrow> bool" where
  "sets_page p s x x' \<longleftrightarrow> (\<forall>q. page_ok (c_spp x) q \<longrightarrow> pst x' q = (if q = p then s else pst x q)) \<and>
     (\<forall>q. p_blk q \<noteq> p_blk p \<longrightarrow> get_blk (c_ssd x') q = get_blk (c_ssd x) q)"

definition other_io :: "io_type \<Rightarrow> io_type" where
  "other_io t = (case t of USER_IO \<Rightarrow> GC_IO | GC_IO \<Rightarrow> USER_IO)"

lemma get_other [simp]: "get_wp (other_io t) (set_wp t w x) = get_wp (other_io t) x"
  by (cases t) (simp_all add: other_io_def get_wp_def set_wp_def)

text \<open>The invariant, seen from one of the pointers.\<close>

lemma flash_inv_from:
  "flash_inv vl x \<longleftrightarrow> conv_geo (c_spp x) \<and> ssd_inv (c_ssd x) \<and> blk_counts (c_ssd x) (set vl) \<and>
     line_counts (c_spp x) (pst x) (lines (lm x)) (set vl) \<and>
     lists_ok (blks_per_pl (c_spp x)) (wp_curline (get_wp t x) # wp_curline (get_wp (other_io t) x) # vl) (lm x) \<and>
     roles_ok (c_spp x) (pst x) (lm x) \<and> wp_ok (c_spp x) (pst x) (get_wp t x) \<and>
     wp_ok (c_spp x) (pst x) (get_wp (other_io t) x)"
proof (cases t)
  case GC_IO
  have "lists_ok n (a # b # vl) m \<longleftrightarrow> lists_ok n (b # a # vl) m" for n a b m
    using lists_ok_perm [of n "a # b # vl" m "b # a # vl"] lists_ok_perm [of n "b # a # vl" m "a # b # vl"] by auto
  then show ?thesis using GC_IO by (auto simp: flash_inv_def other_io_def get_wp_def)
qed (auto simp: flash_inv_def other_io_def get_wp_def)

lemma space_from: "space x = length (free_line_list (lm x)) * pgs_per_line (c_spp x) +
    (pgs_per_line (c_spp x) - wp_no (c_spp x) (get_wp t x)) + (pgs_per_line (c_spp x) - wp_no (c_spp x) (get_wp (other_io t) x))"
  by (cases t) (simp_all add: space_def other_io_def get_wp_def)

lemma flash_inv_tables [simp]: "flash_inv vl (x\<lparr>maptbl := M\<rparr>) = flash_inv vl x" "space (x\<lparr>maptbl := M\<rparr>) = space x"
  "flash_inv vl (x\<lparr>rmap := R\<rparr>) = flash_inv vl x" "space (x\<lparr>rmap := R\<rparr>) = space x"
  "flash_inv vl (x\<lparr>wfc := c\<rparr>) = flash_inv vl x" "space (x\<lparr>wfc := c\<rparr>) = space x"
  "flash_inv vl (x\<lparr>c_gc_endtime := e\<rparr>) = flash_inv vl x" "space (x\<lparr>c_gc_endtime := e\<rparr>) = space x"
  by (simp_all add: flash_inv_def space_def)

text \<open>A pointer of the invariant stands at a free page of its line, which is in no list.\<close>

lemma wp_page_free:
  assumes "flash_inv vl x"
  shows "page_ok (c_spp x) (wp_page (get_wp t x))" "pst x (wp_page (get_wp t x)) = PG_FREE"
    "get_new_page t x = Some (wp_page (get_wp t x))" "wp_curline (get_wp t x) \<notin> set vl" "wp_curline (get_wp t x) \<notin> victims (lm x)"
proof -
  note i = assms [unfolded flash_inv_from [of vl x t]]
  have r: "wp_range (c_spp x) (get_wp t x)" using i by (simp add: wp_at_def)
  note m = wp_page_in_line [OF r]
  show "page_ok (c_spp x) (wp_page (get_wp t x))" using m by (simp add: line_pages_def)
  show "pst x (wp_page (get_wp t x)) = PG_FREE" using i m by (simp add: wp_at_def)
  show "get_new_page t x = Some (wp_page (get_wp t x))" using get_new_page_eq i r by simp
  show "wp_curline (get_wp t x) \<notin> set vl" "wp_curline (get_wp t x) \<notin> victims (lm x)" using i by (auto simp: lists_ok_def)
qed

lemma write_at_pointer:
  fixes t :: io_type
  assumes inv: "flash_inv vl x" and room: "pgs_per_line (c_spp x) + 1 < space x"
  defines "p \<equiv> wp_page (get_wp t x)"
  obtains x1 x2 where "mark_page_valid p x = Some x1" and "advance_write_pointer t x1 = Some x2" and "flash_inv vl x2"
    and "sets_page p PG_VALID x x2" and "same_tables x x1" and "same_tables x x2" and "space x2 + 1 = space x"
proof -
  let ?spp = "c_spp x" and ?w = "get_wp t x" and ?o = "get_wp (other_io t) x" and ?P = "pgs_per_line (c_spp x)"
  note i = inv [unfolded flash_inv_from [of vl x t]]
  have g: "conv_geo ?spp" using i by blast
  note f = wp_page_free [OF inv, of t, folded p_def]
  have pl: "p_blk p = wp_curline ?w" by (simp add: p_def)
  let ?ls = "(lines (lm x))(p_blk p := (lines (lm x) (p_blk p))\<lparr>ln_vpc := ln_vpc (lines (lm x) (p_blk p)) + 1\<rparr>)"
  let ?m = "(lm x)\<lparr>lines := ?ls\<rparr>"
  obtain s where s: "mark_page_valid p x = Some (x\<lparr>c_ssd := s, lm := ?m\<rparr>)" "sp s = ?spp" "ssd_inv s = ssd_inv (c_ssd x)"
    "blk_counts s (set vl)" "\<And>q. page_ok ?spp q \<Longrightarrow> get_pg s q = (if q = p then PG_VALID else pst x q)"
    "line_counts ?spp (get_pg s) ?ls (set vl)" "\<And>q. p_blk q \<noteq> p_blk p \<Longrightarrow> get_blk s q = get_blk (c_ssd x) q"
    using mark_page_valid_spec [OF g, of "set vl" p] i f(1,2,4) pl by metis
  define x1 where "x1 = x\<lparr>c_ssd := s, lm := ?m\<rparr>"
  have x1: "c_spp x1 = ?spp" "get_wp t x1 = ?w" "get_wp (other_io t) x1 = ?o" "lm x1 = ?m" "pst x1 = get_pg s" "c_ssd x1 = s" "sp s = ?spp"
    using s(2) by (simp_all add: x1_def)
  have ok: "lists_ok (blks_per_pl ?spp) (wp_curline ?w # wp_curline ?o # vl) ?m"
    by (rule lists_ok_line) (use i f(5) pl in auto)
  have in_line: "q = p \<longrightarrow> j = wp_curline ?w" if "q \<in> line_pages ?spp j" for q j using that pl by (auto simp: line_pages_def)
  have old: "get_pg s q = pst x q" if "q \<in> line_pages ?spp j" "j \<noteq> wp_curline ?w" for q j
    using s(5) that in_line by (auto simp: line_pages_def)
  have sep: "wp_curline ?w \<notin> set (free_line_list (lm x))" "wp_curline ?w \<notin> set (full_line_list (lm x))" "wp_curline ?w \<noteq> wp_curline ?o"
    using i by (auto simp: lists_ok_def)
  have roles: "roles_ok ?spp (get_pg s) ?m" unfolding roles_ok_def victims_lines
  proof (intro conjI ballI)
    have r: "roles_ok ?spp (pst x) (lm x)" using i by blast
    have rest: "get_pg s q = pst x q" if "q \<in> line_pages ?spp j"
      "j \<in> set (free_line_list ?m) \<or> j \<in> set (full_line_list ?m) \<or> j \<in> victims (lm x)" for j q
    proof -
      have "j \<noteq> wp_curline ?w" using that(2) sep f(5) by auto
      then show ?thesis by (rule old [OF that(1)])
    qed
    show "get_pg s q = PG_FREE" if "j \<in> set (free_line_list ?m)" "q \<in> line_pages ?spp j" for j q
      using r that rest [of q j] by (simp add: roles_ok_def)
    show "get_pg s q = PG_VALID" if "j \<in> set (full_line_list ?m)" "q \<in> line_pages ?spp j" for j q
      using r that rest [of q j] by (simp add: roles_ok_def)
    show "get_pg s q \<noteq> PG_FREE" if "j \<in> victims (lm x)" "q \<in> line_pages ?spp j" for j q
      using r that rest [of q j] by (simp add: roles_ok_def)
    show "\<exists>q \<in> line_pages ?spp j. get_pg s q = PG_INVALID" if "j \<in> victims (lm x)" for j
      using r that rest unfolding roles_ok_def by metis
  qed
  have at: "wp_at ?spp (get_pg s) ?w (wp_no ?spp ?w + 1)"
    unfolding wp_at_def
  proof (intro conjI ballI)
    show "wp_range ?spp ?w" using i by (simp add: wp_at_def)
    fix q assume q: "q \<in> line_pages ?spp (wp_curline ?w)"
    have p: "p \<in> line_pages ?spp (wp_curline ?w)" using f(1) pl by (simp add: line_pages_def)
    have eq: "ppa_no ?spp q = wp_no ?spp ?w \<longleftrightarrow> q = p" using ppa_no_inj [OF g q p] by (auto simp: p_def)
    have "pst x q = PG_FREE \<longleftrightarrow> wp_no ?spp ?w \<le> ppa_no ?spp q" using i q by (simp add: wp_at_def)
    then show "get_pg s q = PG_FREE \<longleftrightarrow> wp_no ?spp ?w + 1 \<le> ppa_no ?spp q"
      using s(5) [of q] q eq by (auto simp: line_pages_def)
  qed
  have other: "wp_ok ?spp (get_pg s) ?o" using i old [of _ "wp_curline ?o"] sep(3) by (simp add: wp_at_def)
  have free: "free_line_list ?m \<noteq> []" if "wp_no ?spp ?w + 1 = ?P"
    using room that unfolding space_from [of x t] by auto
  have pre: "conv_geo (c_spp x1)" "lists_ok (blks_per_pl (c_spp x1)) (wp_curline (get_wp t x1) # wp_curline ?o # vl) (lm x1)"
    "line_counts (c_spp x1) (pst x1) (lines (lm x1)) (set vl)" "wp_curline (get_wp t x1) \<notin> set vl"
    "roles_ok (c_spp x1) (pst x1) (lm x1)" "wp_at (c_spp x1) (pst x1) (get_wp t x1) (wp_no (c_spp x1) (get_wp t x1) + 1)"
    using g ok s(6) f(4) roles at unfolding x1 by simp_all
  have "free_line_list (lm x1) \<noteq> []" if "wp_no (c_spp x1) (get_wp t x1) + 1 = pgs_per_line (c_spp x1)"
    using free that unfolding x1 .
  from advance_spec [OF pre this] obtain w' m where adv1: "advance_write_pointer t x1 = Some (set_wp t w' (x1\<lparr>lm := m\<rparr>))"
    "wp_ok (c_spp x1) (pst x1) w'" "lists_ok (blks_per_pl (c_spp x1)) (wp_curline w' # wp_curline ?o # vl) m"
    "roles_ok (c_spp x1) (pst x1) m" "line_counts (c_spp x1) (pst x1) (lines m) (set vl)"
    "length (free_line_list m) * pgs_per_line (c_spp x1) + (pgs_per_line (c_spp x1) - wp_no (c_spp x1) w') + 1 =
      length (free_line_list (lm x1)) * pgs_per_line (c_spp x1) + (pgs_per_line (c_spp x1) - wp_no (c_spp x1) (get_wp t x1))" .
  note adv = adv1(1) adv1(2-) [unfolded x1]
  let ?x2 = "set_wp t w' (x1\<lparr>lm := m\<rparr>)"
  have "flash_inv vl ?x2" unfolding flash_inv_from [of vl ?x2 t]
    using g adv(2-5) s(3,4) other i x1 by simp
  moreover have "sets_page p PG_VALID x ?x2" using s(5,7) x1 by (simp add: sets_page_def)
  moreover have "space ?x2 + 1 = space x"
    unfolding space_from [of ?x2 t] space_from [of x t] using adv(6) x1 by simp
  moreover have "same_tables x x1" "same_tables x ?x2" using s(2) by (simp_all add: same_tables_def x1_def)
  ultimately show thesis using that s(1) adv(1) by (simp add: x1_def)
qed


section \<open>Invalidating a page\<close>

lemma wp_at_cong:
  assumes "wp_at spp st w n" and "\<And>q. page_ok spp q \<Longrightarrow> st' q = PG_FREE \<longleftrightarrow> st q = PG_FREE"
  shows "wp_at spp st' w n"
  using assms by (simp add: wp_at_def line_pages_def)

text \<open>The lowered priority of a victim line.\<close>

lemma victim_lower:
  assumes ok: "lists_ok n os m" and i: "i \<in> victims m" and n: "ln_id l = ln_id (lines m i)" "ln_pos l = ln_pos (lines m i)" "ln_vpc l = ln_vpc (lines m i)"
  obtains pq ls where "pqueue_change_priority victim_ops v i (victim_line_pq m, (lines m)(i := l)) = (pq, ls)"
    and "lists_ok n os (m\<lparr>victim_line_pq := pq, lines := ls\<rparr>)" and "vq.pq_elems (pq, ls) = victims m"
    and "\<And>j. ln_vpc (ls j) = (if j = i then v else ln_vpc (lines m j)) \<and> ln_ipc (ls j) = (if j = i then ln_ipc l else ln_ipc (lines m j))"
proof -
  let ?l1 = "(lines m)(i := l)"
  have inv: "vq.pq_inv (victim_line_pq m, ?l1)"
    by (rule pq_inv_cong [of _ "lines m"]) (use ok n in \<open>auto simp: lists_ok_def\<close>)
  have e: "vq.pq_elems (victim_line_pq m, ls) = victims m" for ls by (simp add: vq.pq_elems_def)
  have "i \<in> vq.pq_elems (victim_line_pq m, ?l1)" using i unfolding e [of ?l1] .
  note st = vq.change_priority_settled [OF inv this, of v]
  obtain pq ls where q: "pqueue_change_priority victim_ops v i (victim_line_pq m, ?l1) = (pq, ls)"
    by (cases "pqueue_change_priority victim_ops v i (victim_line_pq m, ?l1)")
  define l2 where "l2 = ?l1(i := (?l1 i)\<lparr>ln_vpc := v\<rparr>)"
  have st2: "vq.settled (victim_line_pq m, l2) (pq, ls)" using st q by (simp add: l2_def)
  have s: "vq.pq_inv (pq, ls)" "vq.pq_elems (pq, ls) = victims m" "vq.mem_frame l2 ls (victims m)"
    "pq_size pq = pq_size (victim_line_pq m)" "pq_avail pq = pq_avail (victim_line_pq m)"
    using st2 unfolding vq.settled_def fst_conv snd_conv e [of l2] by blast+
  note fr = vq_frame [OF s(3)]
  have "\<forall>j < n. ln_id (ls j) = j" using fr(3) ok n(1) by (simp add: lists_ok_def l2_def)
  moreover have "\<forall>j < n. j \<notin> victims m \<longrightarrow> ln_pos (ls j) = 0" using fr(4) ok i by (auto simp: lists_ok_def l2_def)
  ultimately have "lists_ok n os (m\<lparr>victim_line_pq := pq, lines := ls\<rparr>)" using ok s by (simp add: lists_ok_def)
  moreover have "ln_vpc (ls j) = (if j = i then v else ln_vpc (lines m j)) \<and> ln_ipc (ls j) = (if j = i then ln_ipc l else ln_ipc (lines m j))" for j
    using fr(1,2) by (simp add: l2_def)
  ultimately show thesis using that q s(2) by blast
qed

lemma full_to_victim:
  assumes ok: "lists_ok n os m" and i: "i \<in> set (full_line_list m)" and n: "n < 2 ^ 32"
    and l: "ln_id l = ln_id (lines m i)" "ln_pos l = ln_pos (lines m i)"
  obtains pq ls where "pqueue_insert victim_ops i (victim_line_pq m, (lines m)(i := l)) = Some (pq, ls)"
    and "lists_ok n os (m\<lparr>full_line_list := remove1 i (full_line_list m), full_line_cnt := dec32 (full_line_cnt m),
      victim_line_pq := pq, lines := ls, victim_line_cnt := inc32 (victim_line_cnt m)\<rparr>)"
    and "vq.pq_elems (pq, ls) = insert i (victims m)"
    and "\<And>j. ln_vpc (ls j) = (if j = i then ln_vpc l else ln_vpc (lines m j)) \<and> ln_ipc (ls j) = (if j = i then ln_ipc l else ln_ipc (lines m j))"
proof -
  let ?m = "m\<lparr>full_line_list := remove1 i (full_line_list m), full_line_cnt := dec32 (full_line_cnt m)\<rparr>"
  have nv: "i \<notin> victims m" using ok i by (auto simp: lists_ok_def)
  have "0 < full_line_cnt m" "full_line_cnt m < 2 ^ 32" using ok i lists_ok_bounds [OF ok] n by (auto simp: lists_ok_def)
  then have "dec32 (full_line_cnt m) = length (remove1 i (full_line_list m))"
    using ok i by (simp add: lists_ok_def dec32_pos length_remove1)
  moreover have "distinct (full_line_list m)" using ok by (simp add: lists_ok_def)
  ultimately have m: "lists_ok n (i # os) ?m" using ok i by (auto simp: lists_ok_def)
  have "lists_ok n (i # os) (?m\<lparr>lines := (lines ?m)(i := l)\<rparr>)" by (rule lists_ok_line [OF m]) (use nv l in simp_all)
  then obtain pq ls where q: "pqueue_insert victim_ops i (victim_line_pq m, (lines m)(i := l)) = Some (pq, ls)"
    "lists_ok n os (?m\<lparr>lines := (lines m)(i := l), victim_line_pq := pq, lines := ls, victim_line_cnt := inc32 (victim_line_cnt m)\<rparr>)"
    "vq.pq_elems (pq, ls) = insert i (victims m)"
    "\<And>j. ln_vpc (ls j) = ln_vpc (((lines m)(i := l)) j) \<and> ln_ipc (ls j) = ln_ipc (((lines m)(i := l)) j)"
    by (rule victim_insert [OF _ n]) (auto simp: vq.pq_elems_def)
  show thesis by (rule that [OF q(1) _ q(3)]) (use q(2,4) in auto)
qed

lemma roles_ok_upd:
  assumes r: "roles_ok spp st m" and st: "\<And>q. page_ok spp q \<Longrightarrow> st' q = (if q = p then PG_INVALID else st q)"
    and p: "page_ok spp p" and free: "set (free_line_list m') = set (free_line_list m)" "p_blk p \<notin> set (free_line_list m)"
    and full: "set (full_line_list m') \<subseteq> set (full_line_list m)" "p_blk p \<notin> set (full_line_list m')"
    and v: "victims m' \<subseteq> insert (p_blk p) (victims m)" "p_blk p \<in> victims m' \<Longrightarrow> \<forall>q \<in> line_pages spp (p_blk p). st q \<noteq> PG_FREE"
  shows "roles_ok spp st' m'"
  unfolding roles_ok_def
proof (intro conjI ballI)
  have other: "st' q = st q" if "q \<in> line_pages spp j" "j \<noteq> p_blk p" for q j using st that by (auto simp: line_pages_def)
  show "st' q = PG_FREE" if "j \<in> set (free_line_list m')" "q \<in> line_pages spp j" for j q
  proof -
    have "j \<noteq> p_blk p" using that(1) free by auto
    then show ?thesis using other [OF that(2)] r that free(1) by (simp add: roles_ok_def)
  qed
  show "st' q = PG_VALID" if "j \<in> set (full_line_list m')" "q \<in> line_pages spp j" for j q
  proof -
    have "j \<noteq> p_blk p" "j \<in> set (full_line_list m)" using that(1) full by auto
    then show ?thesis using other [OF that(2)] r that by (simp add: roles_ok_def)
  qed
  fix j assume j: "j \<in> victims m'"
  show "st' q \<noteq> PG_FREE" if "q \<in> line_pages spp j" for q
  proof (cases "j = p_blk p")
    case True
    then show ?thesis using v(2) j that st by (auto simp: line_pages_def)
  next
    case False
    then show ?thesis using other [OF that False] r j v(1) that by (auto simp: roles_ok_def)
  qed
  show "\<exists>q \<in> line_pages spp j. st' q = PG_INVALID"
  proof (cases "j = p_blk p")
    case True
    then show ?thesis using st [OF p] p by (intro bexI [of _ p]) (auto simp: line_pages_def)
  next
    case False
    then have "j \<in> victims m" using j v(1) by auto
    then obtain q where "q \<in> line_pages spp j" "st q = PG_INVALID" using r by (auto simp: roles_ok_def)
    then show ?thesis using other [OF _ False] by metis
  qed
qed


text \<open>The lines of a state: which of them a valid page can be in.\<close>

lemma valid_page_line:
  assumes inv: "flash_inv [] x" and p: "page_ok (c_spp x) p" "pst x p = PG_VALID"
  shows "p_blk p \<notin> set (free_line_list (lm x))"
    and "ln_vpc (lines (lm x) (p_blk p)) = pgs_per_line (c_spp x) \<longleftrightarrow> p_blk p \<in> set (full_line_list (lm x))"
    and "ln_pos (lines (lm x) (p_blk p)) \<noteq> 0 \<longleftrightarrow> p_blk p \<in> victims (lm x)"
proof -
  let ?spp = "c_spp x" and ?i = "p_blk p"
  have i: "?i < blks_per_pl ?spp" using p(1) by (simp add: page_ok_def)
  have g: "conv_geo ?spp" and ok: "lists_ok (blks_per_pl ?spp) [wp_curline (c_wp x), wp_curline (c_gc_wp x)] (lm x)"
    and r: "roles_ok ?spp (pst x) (lm x)" using inv by (auto simp: flash_inv_def)
  have pl: "p \<in> line_pages ?spp ?i" using p by (simp add: line_pages_def)
  show nf: "?i \<notin> set (free_line_list (lm x))" using r pl p(2) by (auto simp: roles_ok_def)
  have full: "ln_vpc (lines (lm x) ?i) = pgs_per_line ?spp \<longleftrightarrow> (\<forall>q \<in> line_pages ?spp ?i. pst x q = PG_VALID)"
    using inv i cnt_all [OF card_line_pages(1) [OF g i], of "pst x" PG_VALID] card_line_pages(2) [OF g i]
    by (simp add: flash_inv_def line_counts_def)
  have open_line: "\<exists>q \<in> line_pages ?spp (wp_curline (get_wp t x)). pst x q \<noteq> PG_VALID" for t
  proof -
    have "wp_range ?spp (get_wp t x)" using inv by (cases t) (auto simp: flash_inv_def get_wp_def wp_at_def)
    from wp_page_in_line [OF this] show ?thesis using wp_page_free(2) [OF inv, of t] by force
  qed
  show "ln_vpc (lines (lm x) ?i) = pgs_per_line ?spp \<longleftrightarrow> ?i \<in> set (full_line_list (lm x))"
  proof
    assume "ln_vpc (lines (lm x) ?i) = pgs_per_line ?spp"
    then have all: "\<forall>q \<in> line_pages ?spp ?i. pst x q = PG_VALID" using full by simp
    then have "?i \<noteq> wp_curline (c_wp x)" "?i \<noteq> wp_curline (c_gc_wp x)" "?i \<notin> victims (lm x)"
      using open_line [of USER_IO] open_line [of GC_IO] r by (fastforce simp: get_wp_def roles_ok_def)+
    moreover have "?i \<in> {..<blks_per_pl ?spp}" using i by simp
    ultimately show "?i \<in> set (full_line_list (lm x))" using ok nf unfolding lists_ok_def by auto
  next
    assume "?i \<in> set (full_line_list (lm x))"
    then show "ln_vpc (lines (lm x) ?i) = pgs_per_line ?spp" using full r by (simp add: roles_ok_def)
  qed
  show "ln_pos (lines (lm x) ?i) \<noteq> 0 \<longleftrightarrow> ?i \<in> victims (lm x)"
  proof
    show "?i \<in> victims (lm x)" if "ln_pos (lines (lm x) ?i) \<noteq> 0" using ok i that by (auto simp: lists_ok_def)
    assume "?i \<in> victims (lm x)"
    then obtain j where "?i = pq_d (victim_line_pq (lm x)) j" "j \<in> {1..<pq_size (victim_line_pq (lm x))}"
      unfolding vq.pq_elems_def vq.elems_def by auto
    then show "ln_pos (lines (lm x) ?i) \<noteq> 0" using ok by (auto simp: lists_ok_def vq.pq_inv_def vq.pos_ok_def)
  qed
qed

lemma mark_page_invalid_spec:
  assumes inv: "flash_inv [] x" and p: "page_ok (c_spp x) p" "pst x p = PG_VALID"
  obtains x' where "mark_page_invalid p x = Some x'" and "flash_inv [] x'" and "sets_page p PG_INVALID x x'"
    and "same_tables x x'" and "space x' = space x"
proof -
  note result = that
  let ?spp = "c_spp x" and ?b = "get_blk (c_ssd x) p" and ?i = "p_blk p" and ?m = "lm x" and ?P = "pgs_per_line (c_spp x)"
  let ?li = "lines (lm x) (p_blk p)" and ?T = "blks_per_pl (c_spp x)" and ?os = "[wp_curline (c_wp x), wp_curline (c_gc_wp x)]"
  have g: "conv_geo ?spp" and bc: "blk_counts (c_ssd x) {}" and lc: "line_counts ?spp (pst x) (lines ?m) {}"
    and ok: "lists_ok ?T ?os ?m" and r: "roles_ok ?spp (pst x) ?m" using inv by (auto simp: flash_inv_def)
  have n: "?T < 2 ^ 32" using g by (simp add: conv_geo_def)
  have i: "?i < ?T" using p(1) by (simp add: page_ok_def)
  define b' where "b' = ?b\<lparr>nb_pg := (nb_pg ?b)(p_pg p := PG_INVALID), nb_ipc := nb_ipc ?b + 1, nb_vpc := nb_vpc ?b - 1\<rparr>"
  have b': "nb_pg b' = (nb_pg ?b)(p_pg p := PG_INVALID)" "nb_npgs b' = nb_npgs ?b" "nb_vpc b' = nb_vpc ?b - 1" "nb_ipc b' = nb_ipc ?b + 1"
    by (simp_all add: b'_def)
  define s where "s = set_blk p b' (c_ssd x)"
  have s: "sp s = ?spp" "ssd_inv s = ssd_inv (c_ssd x)" by (simp_all add: s_def)
  have st: "get_pg s q = (if q = p then PG_INVALID else pst x q)" if "page_ok ?spp q" for q
    unfolding s_def by (rule get_pg_upd [OF p(1) that b'(1)])
  note cb = page_counts [OF g p(1) st p(2) _ disjI1 [OF refl], simplified]
  note cl = page_counts [OF g p(1) st p(2) _ disjI2 [OF refl], simplified]
  have vb: "nb_vpc ?b = int (cnt (pst x) PG_VALID (blk_pages ?spp p))" "nb_ipc ?b = int (cnt (pst x) PG_INVALID (blk_pages ?spp p))"
    using bc p by (auto simp: blk_counts_def)
  have vl: "ln_vpc ?li = cnt (pst x) PG_VALID (line_pages ?spp ?i)" "ln_ipc ?li = cnt (pst x) PG_INVALID (line_pages ?spp ?i)"
    using lc i by (auto simp: line_counts_def)
  note cp = card_blk_pages [OF p(1)] and cpl = card_line_pages [OF g i]
  have tot: "ln_ipc ?li + ln_vpc ?li \<le> ?P" using cnt_total [OF cpl(1), of "pst x"] cpl(2) vl by simp
  have bcs: "blk_counts s {}" unfolding s_def
    by (rule blk_counts_upd [OF bc p(1) b'(1,2)]) (use vb cb in \<open>simp add: b'(3,4) s_def [symmetric]\<close>)
  have chk: "pst x p = PG_VALID" "nb_ipc ?b \<ge> 0 \<and> nb_ipc ?b < int (pgs_per_blk ?spp)"
    "nb_vpc ?b > 0 \<and> nb_vpc ?b \<le> int (pgs_per_blk ?spp)" "ln_ipc ?li < ?P" "ln_vpc ?li = ?P \<longrightarrow> ln_ipc ?li = 0"
    "ln_vpc ?li > 0 \<and> ln_vpc ?li \<le> ?P"
    using p(2) vb vl cb cl cp cpl cnt_le [OF cp(1), of "pst x" PG_VALID] tot by auto
  note vp = valid_page_line [OF inv p]
  have fin: thesis if m': "mark_page_invalid p x = Some (x\<lparr>c_ssd := s, lm := m'\<rparr>)" "lists_ok ?T ?os m'" "roles_ok ?spp (get_pg s) m'"
    "\<And>j. ln_vpc (lines m' j) = (if j = ?i then ln_vpc ?li - 1 else ln_vpc (lines ?m j)) \<and>
      ln_ipc (lines m' j) = (if j = ?i then ln_ipc ?li + 1 else ln_ipc (lines ?m j))" "free_line_list m' = free_line_list ?m" for m'
  proof -
    have "line_counts ?spp (get_pg s) (lines m') {}"
      by (rule line_counts_upd [OF lc, of ?i]) (use st m'(4) vl cl in auto)
    moreover have "wp_ok ?spp (get_pg s) (c_wp x)" "wp_ok ?spp (get_pg s) (c_gc_wp x)"
      using inv st p(2) by (auto simp: flash_inv_def intro!: wp_at_cong [of ?spp "pst x"] split: if_splits)
    ultimately have "flash_inv [] (x\<lparr>c_ssd := s, lm := m'\<rparr>)" using inv s bcs m'(2,3) by (simp add: flash_inv_def)
    moreover have "sets_page p PG_INVALID x (x\<lparr>c_ssd := s, lm := m'\<rparr>)" using st get_blk_other by (simp add: sets_page_def s_def)
    ultimately show thesis using result m'(1,5) s(1) by (simp add: same_tables_def space_def)
  qed
  let ?l1 = "?li\<lparr>ln_ipc := ln_ipc ?li + 1\<rparr>" and ?l2 = "?li\<lparr>ln_ipc := ln_ipc ?li + 1, ln_vpc := ln_vpc ?li - 1\<rparr>"
  note eval = mark_page_invalid_def Let_def set_line_def s_def b'_def
  consider (victim) "?i \<in> victims ?m" | (full) "?i \<in> set (full_line_list ?m)" "?i \<notin> victims ?m"
    | (open_line) "?i \<notin> set (full_line_list ?m)" "?i \<notin> victims ?m" by blast
  then show thesis
  proof cases
    case victim
    then have nf: "?i \<notin> set (full_line_list ?m)" using ok by (auto simp: lists_ok_def)
    obtain pq ls where q: "pqueue_change_priority victim_ops (ln_vpc ?li - 1) ?i (victim_line_pq ?m, (lines ?m)(?i := ?l1)) = (pq, ls)"
      "lists_ok ?T ?os (?m\<lparr>victim_line_pq := pq, lines := ls\<rparr>)" "vq.pq_elems (pq, ls) = victims ?m"
      "\<And>j. ln_vpc (ls j) = (if j = ?i then ln_vpc ?li - 1 else ln_vpc (lines ?m j)) \<and> ln_ipc (ls j) = (if j = ?i then ln_ipc ?l1 else ln_ipc (lines ?m j))"
      by (rule victim_lower [OF ok victim, of ?l1 "ln_vpc ?li - 1"]) simp_all
    have "roles_ok ?spp (get_pg s) (?m\<lparr>victim_line_pq := pq, lines := ls\<rparr>)"
      by (rule roles_ok_upd [OF r st p(1)]) (use vp(1) nf q(3) r victim in \<open>auto simp: roles_ok_def\<close>)
    moreover have "mark_page_invalid p x = Some (x\<lparr>c_ssd := s, lm := ?m\<lparr>victim_line_pq := pq, lines := ls\<rparr>\<rparr>)"
      using chk vp nf victim q(1) by (simp add: eval)
    ultimately show thesis using fin q(2,4) by simp
  next
    case full
    obtain pq ls where q: "pqueue_insert victim_ops ?i (victim_line_pq ?m, (lines ?m)(?i := ?l2)) = Some (pq, ls)"
      "lists_ok ?T ?os (?m\<lparr>full_line_list := remove1 ?i (full_line_list ?m), full_line_cnt := dec32 (full_line_cnt ?m),
      victim_line_pq := pq, lines := ls, victim_line_cnt := inc32 (victim_line_cnt ?m)\<rparr>)" (is "lists_ok _ _ ?m'")
      "vq.pq_elems (pq, ls) = insert ?i (victims ?m)"
      "\<And>j. ln_vpc (ls j) = (if j = ?i then ln_vpc ?l2 else ln_vpc (lines ?m j)) \<and> ln_ipc (ls j) = (if j = ?i then ln_ipc ?l2 else ln_ipc (lines ?m j))"
      by (rule full_to_victim [OF ok full(1) n, of ?l2]) simp_all
    have d: "distinct (full_line_list ?m)" using ok by (simp add: lists_ok_def)
    have "roles_ok ?spp (get_pg s) ?m'"
      by (rule roles_ok_upd [OF r st p(1)]) (use vp(1) q(3) r full d in \<open>auto simp: roles_ok_def\<close>)
    moreover have "mark_page_invalid p x = Some (x\<lparr>c_ssd := s, lm := ?m'\<rparr>)"
      using chk vp full q(1) by (simp add: eval)
    ultimately show thesis using fin q(2,4) by simp
  next
    case open_line
    let ?m' = "?m\<lparr>lines := (lines ?m)(?i := ?l2)\<rparr>"
    have "lists_ok ?T ?os ?m'" by (rule lists_ok_line [OF ok open_line(2)]) simp_all
    moreover have "roles_ok ?spp (get_pg s) ?m'"
      by (rule roles_ok_upd [OF r st p(1)]) (use vp(1) open_line in \<open>auto simp: vq.pq_elems_def\<close>)
    moreover have "mark_page_invalid p x = Some (x\<lparr>c_ssd := s, lm := ?m'\<rparr>)"
      using chk vp open_line by (simp add: eval)
    ultimately show thesis using fin by simp
  qed
qed


section \<open>Mapping a logical page\<close>

abbreviation tables_ok :: "conv_ftl \<Rightarrow> bool" where
  "tables_ok x \<equiv> map_ok (c_spp x) (valid_pages x) (maptbl x) (rmap x)"

text \<open>Writing \<open>lpn\<close> at a pointer, once its old page (if any) is no longer counted as valid.\<close>

lemma map_at_pointer:
  fixes t :: io_type
  assumes inv: "flash_inv vl x" and room: "pgs_per_line (c_spp x) + 1 < space x" and lpn: "lpn < tt_pgs (c_spp x)"
  obtains p x1 x2 x3 x4 where "get_new_page t x = Some p" and "set_maptbl_ent lpn p x = Some x1"
    and "set_rmap_ent lpn p x1 = Some x2" and "mark_page_valid p x2 = Some x3" and "advance_write_pointer t x3 = Some x4"
    and "flash_inv vl x4" and "sets_page p PG_VALID x x4" and "page_ok (c_spp x) p" and "pst x p = PG_FREE"
    and "maptbl x4 = (maptbl x)(lpn := p)" and "rmap x4 = (rmap x)(pgidx (c_spp x) p := lpn)" and "c_spp x4 = c_spp x"
    and "cp x4 = cp x" and "wfc x4 = wfc x" and "space x4 + 1 = space x"
proof -
  let ?p = "wp_page (get_wp t x)"
  have g: "conv_geo (c_spp x)" using inv by (simp add: flash_inv_def)
  note f = wp_page_free [OF inv, of t]
  let ?x2 = "x\<lparr>maptbl := (maptbl x)(lpn := ?p), rmap := (rmap x)(pgidx (c_spp x) ?p := lpn)\<rparr>"
  have st: "set_maptbl_ent lpn ?p x = Some (x\<lparr>maptbl := (maptbl x)(lpn := ?p)\<rparr>)"
    "set_rmap_ent lpn ?p (x\<lparr>maptbl := (maptbl x)(lpn := ?p)\<rparr>) = Some ?x2"
    using lpn pgidx_less [OF g f(1)] by (simp_all add: set_maptbl_ent_def set_rmap_ent_def ppa2pgidx_def Let_def)
  have "flash_inv vl ?x2" "pgs_per_line (c_spp ?x2) + 1 < space ?x2" using inv room by simp_all
  then obtain x3 x4 where w: "mark_page_valid (wp_page (get_wp t ?x2)) ?x2 = Some x3" "advance_write_pointer t x3 = Some x4" "flash_inv vl x4"
    "sets_page (wp_page (get_wp t ?x2)) PG_VALID ?x2 x4" "same_tables ?x2 x3" "same_tables ?x2 x4" "space x4 + 1 = space ?x2"
    by (rule write_at_pointer [where t = t])
  show thesis
    by (rule that [OF f(3) st, of x3 x4]) (use w f inv in \<open>simp_all add: sets_page_def same_tables_def\<close>)
qed

lemma valid_pages_sets:
  assumes "sets_page p s x x'" and "c_spp x' = c_spp x" and "page_ok (c_spp x) p"
  shows "valid_pages x' = (if s = PG_VALID then insert p (valid_pages x) else valid_pages x - {p})"
  using assms by (auto simp: valid_pages_def sets_page_def split: if_splits)

lemma write_map_spec:
  assumes inv: "flash_inv [] x" and tab: "tables_ok x" and room: "pgs_per_line (c_spp x) + 1 < space x" and lpn: "lpn < tt_pgs (c_spp x)"
  obtains p x' where "conv_write_map lpn x = Some (p, x')" and "flash_inv [] x'" and "tables_ok x'"
    and "maptbl x' = (maptbl x)(lpn := p)" and "page_ok (c_spp x) p" and "pst x p = PG_FREE" and "c_spp x' = c_spp x"
    and "cp x' = cp x" and "wfc x' = wfc x" and "space x' + 1 = space x"
proof -
  let ?spp = "c_spp x" and ?old = "maptbl x lpn"
  have g: "conv_geo ?spp" using inv by (simp add: flash_inv_def)
  text \<open>The old page is given up.\<close>
  obtain x1 where x1: "(if mapped_ppa ?old then do { x \<leftarrow> mark_page_invalid ?old x; set_rmap_ent INVALID_LPN ?old x } else Some x) = Some x1"
    "flash_inv [] x1" "valid_pages x1 = valid_pages x - {?old}" "c_spp x1 = ?spp" "maptbl x1 = maptbl x" "cp x1 = cp x" "wfc x1 = wfc x"
    "space x1 = space x" "\<And>p. p \<in> valid_pages x - {?old} \<Longrightarrow> rmap x1 (pgidx ?spp p) = rmap x (pgidx ?spp p)"
    "\<And>p. page_ok ?spp p \<Longrightarrow> pst x1 p = PG_FREE \<Longrightarrow> pst x p = PG_FREE"
  proof (cases "mapped_ppa ?old")
    case True
    then have V: "?old \<in> valid_pages x" using tab lpn by (auto simp: map_ok_def mapped_ppa_def)
    then have o: "page_ok ?spp ?old" "pst x ?old = PG_VALID" by (auto simp: valid_pages_def)
    obtain y where y: "mark_page_invalid ?old x = Some y" "flash_inv [] y" "sets_page ?old PG_INVALID x y" "same_tables x y" "space y = space x"
      by (rule mark_page_invalid_spec [OF inv o])
    have tb: "c_spp y = ?spp" "maptbl y = maptbl x" "rmap y = rmap x" "cp y = cp x" "wfc y = wfc x" using y(4) by (auto simp: same_tables_def)
    let ?x1 = "y\<lparr>rmap := (rmap x)(pgidx ?spp ?old := INVALID_LPN)\<rparr>"
    have "set_rmap_ent INVALID_LPN ?old y = Some ?x1" using pgidx_less [OF g o(1)] tb by (simp add: set_rmap_ent_def ppa2pgidx_def Let_def)
    moreover have "valid_pages ?x1 = valid_pages x - {?old}" using valid_pages_sets [OF y(3) tb(1) o(1)] by (simp add: valid_pages_def)
    moreover have "rmap ?x1 (pgidx ?spp p) = rmap x (pgidx ?spp p)" if "p \<in> valid_pages x - {?old}" for p
      using that pgidx_inj [OF g _ o(1), of p] by (auto simp: valid_pages_def)
    moreover have "pst x p = PG_FREE" if "page_ok ?spp p" "pst ?x1 p = PG_FREE" for p
      using that y(3) by (auto simp: sets_page_def split: if_splits)
    ultimately show thesis using that [of ?x1] True y tb by simp
  next
    case False
    then have "?old \<notin> valid_pages x" by (auto simp: mapped_ppa_def valid_pages_def dest: page_ok_mapped)
    then show thesis using that [of x] False inv by simp
  qed
  have pre: "pgs_per_line (c_spp x1) + 1 < space x1" "lpn < tt_pgs (c_spp x1)" using room lpn x1(4,8) by simp_all
  obtain p x2 x3 x4 x' where w: "get_new_page USER_IO x1 = Some p" "set_maptbl_ent lpn p x1 = Some x2" "set_rmap_ent lpn p x2 = Some x3"
    "mark_page_valid p x3 = Some x4" "advance_write_pointer USER_IO x4 = Some x'" "flash_inv [] x'" "sets_page p PG_VALID x1 x'"
    "page_ok (c_spp x1) p" "pst x1 p = PG_FREE" "maptbl x' = (maptbl x1)(lpn := p)" "rmap x' = (rmap x1)(pgidx (c_spp x1) p := lpn)"
    "c_spp x' = c_spp x1" "cp x' = cp x1" "wfc x' = wfc x1" "space x' + 1 = space x1"
    by (rule map_at_pointer [OF x1(2) pre, where t = USER_IO])
  have ok: "page_ok ?spp p" "pst x p = PG_FREE" using w(8,9) x1(4,10) by simp_all
  have V: "valid_pages x' = insert p (valid_pages x - {?old})" using valid_pages_sets [OF w(7,12,8)] x1(3) by simp
  have "map_ok ?spp (insert p (valid_pages x - {?old})) ((maptbl x)(lpn := p)) (rmap x')"
  proof (rule map_ok_move [OF g tab lpn ok(1)])
    show "p \<notin> valid_pages x" using ok(2) by (simp add: valid_pages_def)
    then show "rmap x' (pgidx ?spp q) = rmap x (pgidx ?spp q)" if "q \<in> valid_pages x - {?old}" for q
      using that x1(9) [OF that] w(11) x1(4) pgidx_inj [OF g _ ok(1), of q] by (auto simp: valid_pages_def)
    show "rmap x' (pgidx ?spp p) = lpn" using w(11) x1(4) by simp
  qed
  then have "tables_ok x'" using V w(10,12) x1(4,5) by simp
  moreover have "conv_write_map lpn x = Some (p, x')"
    using x1(1) w(1-5) unfolding conv_write_map_def get_maptbl_ent_def by (simp add: Let_def del: bind_assoc)
  ultimately show thesis using that [of p x'] w ok x1 by simp
qed

end
