(* ===== verification/Conv_GC.thy ===== *)
theory Conv_GC
  imports Conv_Inv
begin

text \<open>
  Garbage collection of the conventional translation layer: a victim line is emptied page by page and
  freed. While it runs, the pages of the victim line that are already copied (\<open>D\<close>) still carry their old
  status; the mapping is the one of the other pages. The number of free pages never falls below what
  the remaining copies need.
\<close>

section \<open>Timing calls\<close>

lemma same_flash_pg:
  assumes "same_flash s s'"
  shows "sp s' = sp s" "get_pg s' = get_pg s" "get_blk s' = get_blk s"
  using assms by (auto simp: same_flash_def get_pg_def get_blk_def fun_eq_iff)

lemma flash_inv_ssd:
  assumes "same_flash (c_ssd x) s" and "ssd_inv s" and "flash_inv vl x"
  shows "flash_inv vl (x\<lparr>c_ssd := s\<rparr>)" "space (x\<lparr>c_ssd := s\<rparr>) = space x" "valid_pages (x\<lparr>c_ssd := s\<rparr>) = valid_pages x"
    "mapped_lpns (x\<lparr>c_ssd := s\<rparr>) = mapped_lpns x"
  using assms(2,3) same_flash_pg [OF assms(1)]
  by (auto simp: flash_inv_def space_def blk_counts_def valid_pages_def mapped_lpns_def)

lemma conv_nand_spec:
  assumes "ssd_inv (c_ssd x)" and "nc_ppa c \<noteq> UNMAPPED_PPA" and "nc_cmd c = NAND_READ \<Longrightarrow> 0 < nc_xfer_size c"
  obtains t s where "conv_nand c x = Some (t, x\<lparr>c_ssd := s\<rparr>)" and "same_flash (c_ssd x) s" and "ssd_inv s" and "nc_stime c \<le> t"
proof -
  from ssd_advance_nand_ok [OF assms(1,2)] assms(3) obtain t s where "ssd_advance_nand c (c_ssd x) = Some (t, s)" "ssd_inv s"
    "same_flash (c_ssd x) s" "nc_stime c \<le> t" by blast
  then show thesis using that by (simp add: conv_nand_def)
qed

lemma gc_nand_spec:
  assumes "ssd_inv (c_ssd x)" and "p \<noteq> UNMAPPED_PPA" and "c = NAND_READ \<Longrightarrow> 0 < n"
  obtains s where "gc_nand c n p x = Some (x\<lparr>c_ssd := s\<rparr>)" and "same_flash (c_ssd x) s" and "ssd_inv s"
proof (cases "enable_gc_delay (cp x)")
  case True
  let ?c = "\<lparr>nc_cmd = c, nc_xfer_size = n, nc_stime = 0, nc_interleave_pci_dma = False, nc_ppa = p\<rparr>"
  obtain t s where "conv_nand ?c x = Some (t, x\<lparr>c_ssd := s\<rparr>)" "same_flash (c_ssd x) s" "ssd_inv s"
    by (rule conv_nand_spec [OF assms(1), of ?c]) (use assms(2,3) in auto)
  then show thesis using that [of s] True by (simp add: gc_nand_def)
next
  case False
  then show thesis using that [of "c_ssd x"] assms(1) by (simp add: gc_nand_def)
qed

lemma mapped_lpns_upd [simp]: "mapped_lpns (x\<lparr>c_gc_endtime := e\<rparr>) = mapped_lpns x" "mapped_lpns (x\<lparr>lm := m\<rparr>) = mapped_lpns x"
  "mapped_lpns (x\<lparr>wfc := c\<rparr>) = mapped_lpns x" "valid_pages (x\<lparr>lm := m\<rparr>) = valid_pages x" "valid_pages (x\<lparr>wfc := c\<rparr>) = valid_pages x"
  by (simp_all add: mapped_lpns_def valid_pages_def)

section \<open>Copying the pages of a line\<close>

definition left_pages :: "nat \<Rightarrow> ppa set \<Rightarrow> conv_ftl \<Rightarrow> ppa set" where
  "left_pages v D x = (line_pages (c_spp x) v \<inter> valid_pages x) - D"

definition gc_inv :: "nat \<Rightarrow> ppa set \<Rightarrow> nat \<Rightarrow> conv_ftl \<Rightarrow> bool" where
  "gc_inv v D S x \<longleftrightarrow> flash_inv [v] x \<and> map_ok (c_spp x) (valid_pages x - D) (maptbl x) (rmap x) \<and>
     D \<subseteq> line_pages (c_spp x) v \<and> space x = S + card (left_pages v D x) \<and> pgs_per_line (c_spp x) < S"

text \<open>What cleaning a line keeps: its own blocks until they are erased, and the mapping of all other pages.\<close>

definition gc_keeps :: "nat \<Rightarrow> conv_ftl \<Rightarrow> conv_ftl \<Rightarrow> bool" where
  "gc_keeps v x x' \<longleftrightarrow> c_spp x' = c_spp x \<and> cp x' = cp x \<and> wfc x' = wfc x \<and> mapped_lpns x' = mapped_lpns x \<and>
     (\<forall>lpn. maptbl x lpn \<notin> line_pages (c_spp x) v \<longrightarrow> maptbl x' lpn = maptbl x lpn)"

definition keeps_line :: "nat \<Rightarrow> conv_ftl \<Rightarrow> conv_ftl \<Rightarrow> bool" where
  "keeps_line v x x' \<longleftrightarrow> (\<forall>q \<in> line_pages (c_spp x) v. get_blk (c_ssd x') q = get_blk (c_ssd x) q)"

lemma keeps_line_pst: "keeps_line v x x' \<Longrightarrow> q \<in> line_pages (c_spp x) v \<Longrightarrow> pst x' q = pst x q"
  by (simp add: keeps_line_def get_pg_def)

lemma gc_keeps_refl [simp]: "gc_keeps v x x" "keeps_line v x x"
  by (simp_all add: gc_keeps_def keeps_line_def)

lemma gc_keeps_trans: "gc_keeps v x y \<Longrightarrow> gc_keeps v y z \<Longrightarrow> gc_keeps v x z"
  by (simp add: gc_keeps_def)

lemma keeps_line_trans: "keeps_line v x y \<Longrightarrow> c_spp y = c_spp x \<Longrightarrow> keeps_line v y z \<Longrightarrow> keeps_line v x z"
  by (simp add: keeps_line_def)

lemma victim_off_lists:
  assumes "flash_inv [v] x"
  shows "v < blks_per_pl (c_spp x)" "wp_curline (get_wp t x) \<noteq> v" "v \<notin> set (free_line_list (lm x))"
    "v \<notin> set (full_line_list (lm x))" "v \<notin> victims (lm x)"
  using assms by (cases t; auto simp: flash_inv_def lists_ok_def get_wp_def)+

lemma gc_inv_ssd:
  assumes "gc_inv v D S x" and "same_flash (c_ssd x) s" and "ssd_inv s"
  shows "gc_inv v D S (x\<lparr>c_ssd := s\<rparr>)" "gc_keeps v x (x\<lparr>c_ssd := s\<rparr>)" "keeps_line v x (x\<lparr>c_ssd := s\<rparr>)"
proof -
  have i: "flash_inv [v] x" using assms(1) by (simp add: gc_inv_def)
  show "gc_inv v D S (x\<lparr>c_ssd := s\<rparr>)" "gc_keeps v x (x\<lparr>c_ssd := s\<rparr>)" "keeps_line v x (x\<lparr>c_ssd := s\<rparr>)"
    using assms(1) flash_inv_ssd [OF assms(2,3) i] same_flash_pg [OF assms(2)]
    by (simp_all add: gc_inv_def gc_keeps_def keeps_line_def left_pages_def)
qed

lemma gc_write_page_spec:
  assumes inv: "gc_inv v D S x" and p: "p \<in> line_pages (c_spp x) v" "p \<notin> D" "pst x p = PG_VALID"
  obtains x' where "gc_write_page p x = Some x'" and "gc_inv v (insert p D) S x'" and "gc_keeps v x x'" and "keeps_line v x x'"
proof -
  let ?spp = "c_spp x" and ?P = "pgs_per_line (c_spp x)" and ?V = "valid_pages x - D"
  have fi: "flash_inv [v] x" and tab: "map_ok ?spp ?V (maptbl x) (rmap x)" and D: "D \<subseteq> line_pages ?spp v"
    and sp: "space x = S + card (left_pages v D x)" and S: "?P < S" using inv by (auto simp: gc_inv_def)
  have g: "conv_geo ?spp" using fi by (simp add: flash_inv_def)
  have ok: "page_ok ?spp p" "p_blk p = v" using p(1) by (auto simp: line_pages_def)
  have pV: "p \<in> ?V" using p ok by (simp add: valid_pages_def)
  define lpn where "lpn = rmap x (pgidx ?spp p)"
  have lpn: "lpn < tt_pgs ?spp" "maptbl x lpn = p" using tab pV by (auto simp: map_ok_def lpn_def)
  have fin: "finite (left_pages v D x)"
    using card_line_pages(1) [OF g victim_off_lists(1) [OF fi]] by (auto simp: left_pages_def)
  have pl: "p \<in> left_pages v D x" using p pV by (simp add: left_pages_def)
  then have "0 < card (left_pages v D x)" using fin card_gt_0_iff by blast
  then have room: "?P + 1 < space x" using sp S by linarith
  obtain new x1 x2 x3 x4 where w: "get_new_page GC_IO x = Some new" "set_maptbl_ent lpn new x = Some x1" "set_rmap_ent lpn new x1 = Some x2"
    "mark_page_valid new x2 = Some x3" "advance_write_pointer GC_IO x3 = Some x4" "flash_inv [v] x4" "sets_page new PG_VALID x x4"
    "page_ok ?spp new" "pst x new = PG_FREE" "maptbl x4 = (maptbl x)(lpn := new)" "rmap x4 = (rmap x)(pgidx ?spp new := lpn)"
    "c_spp x4 = ?spp" "cp x4 = cp x" "wfc x4 = wfc x" "space x4 + 1 = space x"
    by (rule map_at_pointer [OF fi room lpn(1), where t = GC_IO])
  have "new = wp_page (get_wp GC_IO x)" using w(1) wp_page_free(3) [OF fi, of GC_IO] by simp
  then have nv: "p_blk new \<noteq> v" using victim_off_lists(2) [OF fi, of GC_IO] by simp
  then have nD: "new \<notin> line_pages ?spp v" "new \<notin> D" "new \<noteq> p" using D ok by (auto simp: line_pages_def)
  have V: "valid_pages x4 = insert new (valid_pages x)" using valid_pages_sets [OF w(7,12,8)] by simp
  have nV: "new \<notin> valid_pages x" using w(9) by (simp add: valid_pages_def)
  have eq: "valid_pages x4 - insert p D = insert new (?V - {maptbl x lpn})" using V nD lpn(2) by auto
  have tab': "map_ok ?spp (valid_pages x4 - insert p D) (maptbl x4) (rmap x4)" unfolding eq w(10)
  proof (rule map_ok_move [OF g tab lpn(1) w(8)])
    show "new \<notin> ?V" using nV by simp
    show "rmap x4 (pgidx ?spp q) = rmap x (pgidx ?spp q)" if "q \<in> ?V - {maptbl x lpn}" for q
      using that w(11) nV pgidx_inj [OF g _ w(8), of q] by (auto simp: valid_pages_def)
    show "rmap x4 (pgidx ?spp new) = lpn" using w(11) by simp
  qed
  have "left_pages v (insert p D) x4 = left_pages v D x - {p}" using V nD w(12) by (auto simp: left_pages_def)
  then have "card (left_pages v D x) = card (left_pages v (insert p D) x4) + 1"
    using fin pl by (metis card_Suc_Diff1 Suc_eq_plus1)
  then have i4: "gc_inv v (insert p D) S x4" using w(6,12,15) tab' sp S D p(1) by (simp add: gc_inv_def)
  have "mapped_lpns x4 = mapped_lpns x" using w(8,10,12) lpn pV by (auto simp: mapped_lpns_def valid_pages_def)
  then have k4: "gc_keeps v x x4" using w(10,12-14) lpn(2) p(1) by (auto simp: gc_keeps_def)
  have l4: "keeps_line v x x4" using w(7) nv by (auto simp: keeps_line_def line_pages_def sets_page_def)
  have um: "new \<noteq> UNMAPPED_PPA" using w(8) by simp
  have si: "ssd_inv (c_ssd x4)" using w(6) by (simp add: flash_inv_def)
  have code: "gc_write_page p x = (if last_pg_in_wordline x4 new
      then gc_nand NAND_WRITE (pgsz (c_spp x4) * pgs_per_oneshotpg (c_spp x4)) new x4 else gc_nand NAND_NOP 0 new x4)"
  proof -
    have "get_rmap_ent x p = Some lpn" using pgidx_less [OF g ok(1)] by (simp add: get_rmap_ent_def ppa2pgidx_def Let_def lpn_def)
    then show ?thesis using lpn(1) w(1-5) by (simp add: gc_write_page_def valid_lpn_def)
  qed
  obtain s where s: "gc_write_page p x = Some (x4\<lparr>c_ssd := s\<rparr>)" "same_flash (c_ssd x4) s" "ssd_inv s"
    unfolding code by (cases "last_pg_in_wordline x4 new")
      (auto intro: gc_nand_spec [OF si um, of NAND_WRITE] gc_nand_spec [OF si um, of NAND_NOP])
  note fr = gc_inv_ssd [OF i4 s(2,3)]
  show thesis
    by (rule that [OF s(1) fr(1) gc_keeps_trans [OF k4 fr(2)] keeps_line_trans [OF l4 w(12) fr(3)]])
qed

lemma gc_inv_skip:
  assumes inv: "gc_inv v D S x" and Q: "Q \<subseteq> line_pages (c_spp x) v" "\<And>p. p \<in> Q \<Longrightarrow> pst x p \<noteq> PG_VALID"
  shows "gc_inv v (D \<union> Q) S x"
proof -
  have "valid_pages x - (D \<union> Q) = valid_pages x - D" using Q by (auto simp: valid_pages_def)
  moreover have "left_pages v (D \<union> Q) x = left_pages v D x" using Q by (auto simp: left_pages_def valid_pages_def)
  ultimately show ?thesis using inv Q(1) by (simp add: gc_inv_def)
qed

lemma gc_copy_page_spec:
  assumes inv: "gc_inv v D S x" and p: "p \<in> line_pages (c_spp x) v" "p \<notin> D"
  obtains x' where "gc_copy_page p x = Some x'" and "gc_inv v (insert p D) S x'" and "gc_keeps v x x'" and "keeps_line v x x'"
proof (cases "pst x p = PG_VALID")
  case True
  obtain x' where "gc_write_page p x = Some x'" "gc_inv v (insert p D) S x'" "gc_keeps v x x'" "keeps_line v x x'"
    by (rule gc_write_page_spec [OF inv p True])
  then show thesis using that True by (simp add: gc_copy_page_def)
next
  case False
  then have "gc_inv v (insert p D) S x" using gc_inv_skip [OF inv, of "{p}"] p(1) by simp
  then show thesis using that False by (simp add: gc_copy_page_def)
qed

lemma gc_copy_pages_spec:
  assumes "gc_inv v D S x" and "distinct ps" and "set ps \<subseteq> line_pages (c_spp x) v" and "set ps \<inter> D = {}"
  shows "\<exists>x'. fold_opt gc_copy_page ps x = Some x' \<and> gc_inv v (D \<union> set ps) S x' \<and> gc_keeps v x x' \<and> keeps_line v x x'"
  using assms
proof (induction ps arbitrary: D x)
  case (Cons p ps)
  obtain y where y: "gc_copy_page p x = Some y" "gc_inv v (insert p D) S y" "gc_keeps v x y" "keeps_line v x y"
    by (rule gc_copy_page_spec [OF Cons.prems(1), of p]) (use Cons.prems in auto)
  have spp: "c_spp y = c_spp x" using y(3) by (simp add: gc_keeps_def)
  have "\<exists>x'. fold_opt gc_copy_page ps y = Some x' \<and> gc_inv v (insert p D \<union> set ps) S x' \<and> gc_keeps v y x' \<and> keeps_line v y x'"
    by (rule Cons.IH [OF y(2)]) (use Cons.prems spp in auto)
  then show ?case using y gc_keeps_trans keeps_line_trans [OF y(4) spp] by auto
qed simp


section \<open>Flash pages and blocks of the victim line\<close>

definition group_pages :: "ssdparams \<Rightarrow> nat \<Rightarrow> nat \<times> nat \<times> nat \<Rightarrow> ppa set" where
  "group_pages spp v k = {p \<in> line_pages spp v. (p_pg p div pgs_per_flashpg spp, p_ch p, p_lun p) = k}"

definition group_ppa :: "ssdparams \<Rightarrow> nat \<Rightarrow> nat \<times> nat \<times> nat \<Rightarrow> ppa" where
  "group_ppa spp v = (\<lambda>(f, c, l). mk_ppa c l 0 v (f * pgs_per_flashpg spp))"

definition in_order :: "ssdparams \<Rightarrow> nat \<times> nat \<times> nat \<Rightarrow> bool" where
  "in_order spp = (\<lambda>(f, c, l). f < flashpgs_per_blk spp \<and> c < nchs spp \<and> l < luns_per_ch spp)"

lemma group_ppa_eq:
  assumes g: "conv_geo spp" and k: "in_order spp (f, c, l)" and v: "v < blks_per_pl spp"
  shows "group_ppa spp v (f, c, l) = \<lparr>p_pg = f * pgs_per_flashpg spp, p_blk = v, p_pl = 0, p_lun = l, p_ch = c, p_rsv = 0\<rparr>"
    "page_ok spp (group_ppa spp v (f, c, l))"
proof -
  have "f * pgs_per_flashpg spp < flashpgs_per_blk spp * pgs_per_flashpg spp"
    using k g by (intro mult_less_mono1) (auto simp: in_order_def conv_geo_def)
  then have b: "f * pgs_per_flashpg spp < pgs_per_blk spp" using g unfolding conv_geo_def by metis
  then have "f * pgs_per_flashpg spp mod 2 ^ 16 = f * pgs_per_flashpg spp" "v mod 2 ^ 16 = v" "l mod 2 ^ 8 = l" "c mod 2 ^ 8 = c"
    using g k v by (auto simp: conv_geo_def in_order_def)
  then show eq: "group_ppa spp v (f, c, l) = \<lparr>p_pg = f * pgs_per_flashpg spp, p_blk = v, p_pl = 0, p_lun = l, p_ch = c, p_rsv = 0\<rparr>"
    by (simp add: group_ppa_def mk_ppa_def)
  show "page_ok spp (group_ppa spp v (f, c, l))" unfolding eq using k v b by (simp add: page_ok_def in_order_def)
qed

lemma flashpg_pages_group:
  assumes g: "conv_geo (c_spp x)" and k: "in_order (c_spp x) k" and v: "v < blks_per_pl (c_spp x)"
  shows "set (flashpg_pages x (group_ppa (c_spp x) v k)) = group_pages (c_spp x) v k"
    and "distinct (flashpg_pages x (group_ppa (c_spp x) v k))"
proof -
  obtain f c l where kk: "k = (f, c, l)" by (cases k)
  let ?spp = "c_spp x" and ?n = "pgs_per_flashpg (c_spp x)"
  have n: "0 < ?n" using g by (simp add: conv_geo_def)
  let ?q = "\<lambda>i. \<lparr>p_pg = f * ?n + i, p_blk = v, p_pl = 0, p_lun = l, p_ch = c, p_rsv = 0\<rparr>"
  have B: "f * ?n + i < pgs_per_blk ?spp" if "i < ?n" for i
    using radix_less [OF _ that, of f "flashpgs_per_blk ?spp"] k kk g unfolding in_order_def conv_geo_def by auto
  have ps: "flashpg_pages x (group_ppa ?spp v k) = map ?q [0..<?n]"
  proof -
    have "(f * ?n + i) mod 2 ^ 16 = f * ?n + i" if "i < ?n" for i using B [OF that] g by (intro mod_less) (simp add: conv_geo_def)
    then show ?thesis unfolding flashpg_pages_def kk group_ppa_eq [OF g k [unfolded kk] v] by simp
  qed
  show "distinct (flashpg_pages x (group_ppa ?spp v k))" unfolding ps by (simp add: distinct_map inj_on_def)
  show "set (flashpg_pages x (group_ppa ?spp v k)) = group_pages ?spp v k"
  proof
    show "set (flashpg_pages x (group_ppa ?spp v k)) \<subseteq> group_pages ?spp v k"
      using B k v n unfolding ps by (auto simp: kk group_pages_def line_pages_def page_ok_def in_order_def)
    show "group_pages ?spp v k \<subseteq> set (flashpg_pages x (group_ppa ?spp v k))"
    proof
      fix p assume p: "p \<in> group_pages ?spp v k"
      then have "p_pg p = f * ?n + p_pg p mod ?n" unfolding kk group_pages_def by (metis (lifting) div_mult_mod_eq fst_conv mem_Collect_eq)
      then have "p = ?q (p_pg p mod ?n)" using p unfolding kk
        by (intro ppa.equality) (auto simp: group_pages_def line_pages_def page_ok_def)
      then show "p \<in> set (flashpg_pages x (group_ppa ?spp v k))" unfolding ps using n
        by (metis (no_types, lifting) atLeastLessThan_iff image_eqI mod_less_divisor set_map set_upt zero_le)
    qed
  qed
qed

lemma clean_one_flashpg_spec:
  assumes inv: "gc_inv v D S x" and k: "in_order (c_spp x) k" and D: "group_pages (c_spp x) v k \<inter> D = {}"
    and nf: "\<And>p. p \<in> group_pages (c_spp x) v k \<Longrightarrow> pst x p \<noteq> PG_FREE"
  obtains x' where "clean_one_flashpg (group_ppa (c_spp x) v k) x = Some x'" and "gc_inv v (D \<union> group_pages (c_spp x) v k) S x'"
    and "gc_keeps v x x'" and "keeps_line v x x'"
proof -
  let ?ppa = "group_ppa (c_spp x) v k" and ?ps = "flashpg_pages x (group_ppa (c_spp x) v k)" and ?G = "group_pages (c_spp x) v k"
  have fi: "flash_inv [v] x" using inv by (simp add: gc_inv_def)
  have g: "conv_geo (c_spp x)" and si: "ssd_inv (c_ssd x)" using fi by (auto simp: flash_inv_def)
  note v = victim_off_lists(1) [OF fi]
  note ps = flashpg_pages_group [OF g k v]
  have G: "?G \<subseteq> line_pages (c_spp x) v" by (auto simp: group_pages_def)
  let ?n = "length (filter (\<lambda>p. pst x p = PG_VALID) ?ps)"
  show thesis
  proof (cases "?n = 0")
    case True
    then have "\<And>p. p \<in> ?G \<Longrightarrow> pst x p \<noteq> PG_VALID" using ps(1) by (auto simp: filter_empty_conv)
    note r = gc_inv_skip [OF inv G this]
    have "clean_one_flashpg ?ppa x = Some x" using True nf ps(1) by (simp add: clean_one_flashpg_def Let_def)
    then show thesis using that r by simp
  next
    case False
    have um: "?ppa \<noteq> UNMAPPED_PPA" using group_ppa_eq(2) [OF g _ v] k page_ok_mapped by (cases k) blast
    have "0 < pgsz (c_spp x) * ?n" using False g by (simp add: conv_geo_def)
    then obtain s where s: "gc_nand NAND_READ (pgsz (c_spp x) * ?n) ?ppa x = Some (x\<lparr>c_ssd := s\<rparr>)" "same_flash (c_ssd x) s" "ssd_inv s"
      using gc_nand_spec [OF si um] by blast
    note fr = gc_inv_ssd [OF inv s(2,3)]
    have spp: "c_spp (x\<lparr>c_ssd := s\<rparr>) = c_spp x" using same_flash_pg(1) [OF s(2)] by simp
    have "\<exists>x'. fold_opt gc_copy_page ?ps (x\<lparr>c_ssd := s\<rparr>) = Some x' \<and> gc_inv v (D \<union> set ?ps) S x' \<and> gc_keeps v (x\<lparr>c_ssd := s\<rparr>) x' \<and>
        keeps_line v (x\<lparr>c_ssd := s\<rparr>) x'"
      by (rule gc_copy_pages_spec [OF fr(1) ps(2)]) (use ps(1) G D spp in auto)
    then obtain x' where x': "fold_opt gc_copy_page ?ps (x\<lparr>c_ssd := s\<rparr>) = Some x'" "gc_inv v (D \<union> ?G) S x'" "gc_keeps v (x\<lparr>c_ssd := s\<rparr>) x'"
      "keeps_line v (x\<lparr>c_ssd := s\<rparr>) x'" unfolding ps(1) by blast
    have "clean_one_flashpg ?ppa x = Some x'" using False nf ps(1) s(1) x'(1) by (simp add: clean_one_flashpg_def Let_def)
    then show thesis using that x'(2) gc_keeps_trans [OF fr(2) x'(3)] keeps_line_trans [OF fr(3) spp x'(4)] by blast
  qed
qed

text \<open>Erasing a block of the victim line whose pages are all dealt with.\<close>

definition erased :: "conv_ftl \<Rightarrow> ppa \<Rightarrow> bool" where
  "erased x p \<longleftrightarrow> pst x p = PG_FREE \<and> nb_vpc (get_blk (c_ssd x) p) = 0 \<and> nb_ipc (get_blk (c_ssd x) p) = 0"

lemma keeps_line_erased: "keeps_line v x x' \<Longrightarrow> q \<in> line_pages (c_spp x) v \<Longrightarrow> erased x' q = erased x q"
  by (simp add: erased_def keeps_line_def get_pg_def)

lemma mark_block_free_spec:
  assumes inv: "gc_inv v D S x" and p: "page_ok (c_spp x) p" "p_blk p = v" and D: "blk_pages (c_spp x) p \<subseteq> D"
  obtains x' where "mark_block_free p x = Some x'" and "gc_inv v D S x'" and "gc_keeps v x x'"
    and "\<And>q. q \<in> blk_pages (c_spp x) p \<Longrightarrow> erased x' q"
    and "\<And>q. page_ok (c_spp x) q \<Longrightarrow> q \<notin> blk_pages (c_spp x) p \<Longrightarrow> get_blk (c_ssd x') q = get_blk (c_ssd x) q"
proof -
  let ?spp = "c_spp x" and ?b = "get_blk (c_ssd x) p"
  define b' where "b' = ?b\<lparr>nb_pg := (\<lambda>i. if i < pgs_per_blk ?spp then PG_FREE else nb_pg ?b i), nb_ipc := 0, nb_vpc := 0,
    nb_erase_cnt := nb_erase_cnt ?b + 1\<rparr>"
  define x' where "x' = x\<lparr>c_ssd := set_blk p b' (c_ssd x)\<rparr>"
  have fi: "flash_inv [v] x" using inv by (simp add: gc_inv_def)
  have bc: "blk_counts (c_ssd x) {v}" using fi by (simp add: flash_inv_def)
  then have n: "nb_npgs ?b = pgs_per_blk ?spp" using p(1) by (simp add: blk_counts_def)
  have c: "mark_block_free p x = Some x'" using n by (simp add: mark_block_free_def Let_def x'_def b'_def)
  have x': "c_spp x' = ?spp" "lm x' = lm x" "maptbl x' = maptbl x" "rmap x' = rmap x" "cp x' = cp x" "wfc x' = wfc x"
    "c_wp x' = c_wp x" "c_gc_wp x' = c_gc_wp x" "ssd_inv (c_ssd x') = ssd_inv (c_ssd x)" by (simp_all add: x'_def)
  have other: "get_blk (c_ssd x') q = get_blk (c_ssd x) q" if "page_ok ?spp q" "q \<notin> blk_pages ?spp p" for q
    using that same_blk_pages [OF p(1)] by (auto simp: x'_def get_blk_set_blk)
  have er: "erased x' q" if "q \<in> blk_pages ?spp p" for q
    using that same_blk_pages [OF p(1), of q] by (auto simp: erased_def x'_def get_pg_set_blk get_blk_set_blk b'_def page_ok_def)
  have off: "get_blk (c_ssd x') q = get_blk (c_ssd x) q" "pst x' q = pst x q" if "p_blk q \<noteq> v" for q
    using that p(2) by (auto simp: x'_def get_blk_other get_pg_def)
  have bc': "blk_counts (c_ssd x') {v}" unfolding blk_counts_def x'(1)
  proof (intro allI impI conjI)
    fix q assume q: "page_ok ?spp q"
    show "nb_npgs (get_blk (c_ssd x') q) = pgs_per_blk ?spp" using bc q n by (auto simp: x'_def get_blk_set_blk blk_counts_def b'_def)
    assume "p_blk q \<notin> {v}"
    then have qv: "p_blk q \<noteq> v" by simp
    have "cnt (pst x') s (blk_pages ?spp q) = cnt (pst x) s (blk_pages ?spp q)" for s
      by (rule cnt_cong) (use off(2) qv in \<open>auto simp: blk_pages_def\<close>)
    then show "nb_vpc (get_blk (c_ssd x') q) = int (cnt (pst x') PG_VALID (blk_pages ?spp q))"
      "nb_ipc (get_blk (c_ssd x') q) = int (cnt (pst x') PG_INVALID (blk_pages ?spp q))"
      using bc q qv off(1) [OF qv] by (simp_all add: blk_counts_def)
  qed
  have line: "pst x' q = pst x q" if "q \<in> line_pages ?spp j" "j \<noteq> v" for q j using off(2) that by (auto simp: line_pages_def)
  note vo = victim_off_lists [OF fi]
  have "line_counts ?spp (pst x') (lines (lm x)) {v}" unfolding line_counts_def
  proof (intro allI impI)
    fix j assume j: "j < blks_per_pl ?spp" "j \<notin> {v}"
    have "cnt (pst x') s (line_pages ?spp j) = cnt (pst x) s (line_pages ?spp j)" for s
      by (rule cnt_cong) (use line j in auto)
    then show "ln_vpc (lines (lm x) j) = cnt (pst x') PG_VALID (line_pages ?spp j) \<and> ln_ipc (lines (lm x) j) = cnt (pst x') PG_INVALID (line_pages ?spp j)"
      using fi j by (simp add: flash_inv_def line_counts_def)
  qed
  moreover have "roles_ok ?spp (pst x') (lm x)"
    unfolding roles_ok_def
  proof (intro conjI ballI)
    have r: "roles_ok ?spp (pst x) (lm x)" using fi by (simp add: flash_inv_def)
    show "pst x' q = PG_FREE" if "j \<in> set (free_line_list (lm x))" "q \<in> line_pages ?spp j" for j q
      using r that line [OF that(2)] vo(3) by (auto simp: roles_ok_def)
    show "pst x' q = PG_VALID" if "j \<in> set (full_line_list (lm x))" "q \<in> line_pages ?spp j" for j q
      using r that line [OF that(2)] vo(4) by (auto simp: roles_ok_def)
    fix j assume j: "j \<in> victims (lm x)"
    then have jv: "j \<noteq> v" using vo(5) by auto
    show "pst x' q \<noteq> PG_FREE" if "q \<in> line_pages ?spp j" for q using r that j line [OF that jv] by (auto simp: roles_ok_def)
    show "\<exists>q \<in> line_pages ?spp j. pst x' q = PG_INVALID" using r j line [OF _ jv] unfolding roles_ok_def by metis
  qed
  moreover have "wp_ok ?spp (pst x') (get_wp t x)" for t
  proof -
    have "wp_ok ?spp (pst x) (get_wp t x)" using fi unfolding flash_inv_from [of "[v]" x t] by blast
    then show ?thesis using line [OF _ vo(2) [of t]] by (simp add: wp_at_def)
  qed
  from this [of USER_IO] this [of GC_IO] have "wp_ok ?spp (pst x') (c_wp x)" "wp_ok ?spp (pst x') (c_gc_wp x)" by (simp_all add: get_wp_def)
  ultimately have fi': "flash_inv [v] x'" using fi bc' x' by (simp add: flash_inv_def)
  have V: "valid_pages x' - D = valid_pages x - D"
  proof -
    have "pst x' q = pst x q" if "page_ok ?spp q" "q \<notin> D" for q
    proof -
      have "q \<notin> blk_pages ?spp p" using that(2) D by blast
      then show ?thesis using other [OF that(1)] by (simp add: get_pg_def)
    qed
    then show ?thesis using x'(1) by (auto simp: valid_pages_def)
  qed
  then have "left_pages v D x' = left_pages v D x" unfolding left_pages_def x'(1) by blast
  then have "gc_inv v D S x'" using inv fi' V x' by (simp add: gc_inv_def space_def)
  moreover have "gc_keeps v x x'" using x' by (simp add: gc_keeps_def mapped_lpns_def)
  ultimately show thesis using that [of x'] c er other by blast
qed


section \<open>Cleaning a line\<close>

text \<open>The order of cleaning: every flash page once, those of a block in ascending order.\<close>

lemma concat_tagged:
  assumes "\<And>f a. a \<in> set (h f) \<Longrightarrow> tag a = f" and "\<And>f. distinct (h f)"
  shows "distinct (concat (map h [0..<n :: nat]))"
proof (induction n)
  case (Suc n)
  have "tag a < n" if "a \<in> set (concat (map h [0..<n]))" for a using that assms(1) by auto
  then have "set (concat (map h [0..<n])) \<inter> set (h n) = {}" using assms(1) by fastforce
  then show ?case using Suc assms(2) by simp
qed simp

lemma sorted_tagged:
  assumes "\<And>f a. a \<in> set (h f) \<Longrightarrow> tag a = f"
  shows "sorted_wrt (\<lambda>a b. tag a \<le> tag b) (concat (map h [0..<n :: nat]))"
proof (induction n)
  case (Suc n)
  have c: "(\<And>a. a \<in> set as \<Longrightarrow> tag a = k) \<Longrightarrow> sorted_wrt (\<lambda>a b. tag a \<le> tag b) as" for k as by (induction as) auto
  have "tag a < n" if "a \<in> set (concat (map h [0..<n]))" for a using that assms by auto
  then have "\<forall>a \<in> set (concat (map h [0..<n])). \<forall>b \<in> set (h n). tag a \<le> tag b" using assms by (metis less_imp_le)
  then show ?case using Suc c [of "h n" n] assms by (simp add: sorted_wrt_append)
qed simp

lemma gc_order_facts:
  shows "set (gc_order spp) = {k. in_order spp k}" "distinct (gc_order spp)" "sorted_wrt (\<lambda>a b. fst a \<le> fst b) (gc_order spp)"
proof -
  let ?r = "\<lambda>f. concat (map (\<lambda>c. map (\<lambda>l. (f, c, l)) [0..<luns_per_ch spp]) [0..<nchs spp])"
  show "set (gc_order spp) = {k. in_order spp k}" by (auto simp: gc_order_def in_order_def image_iff)
  have "distinct (?r f)" for f by (rule concat_tagged [of _ "\<lambda>a. fst (snd a)"]) (auto simp: distinct_map inj_on_def)
  then show "distinct (gc_order spp)" unfolding gc_order_def by (rule concat_tagged [of _ fst, rotated]) auto
  show "sorted_wrt (\<lambda>a b. fst a \<le> fst b) (gc_order spp)" unfolding gc_order_def by (rule sorted_tagged) auto
qed

lemma gc_order_before:
  assumes "gc_order spp = G @ (f, c, l) # R" and "f' < f"
  shows "(f', c, l) \<in> set G"
proof -
  have "in_order spp (f, c, l)" using assms(1) gc_order_facts(1) by (metis in_set_conv_decomp mem_Collect_eq)
  then have "(f', c, l) \<in> set (gc_order spp)" using assms(2) gc_order_facts(1) by (auto simp: in_order_def)
  moreover have "\<forall>b \<in> set R. f \<le> fst b" using gc_order_facts(3) [of spp] assms(1) by (auto simp: sorted_wrt_append)
  ultimately show ?thesis using assms by auto
qed

text \<open>The pages dealt with after the flash pages \<open>G\<close>, and the state of the victim line then.\<close>

definition done_pages :: "ssdparams \<Rightarrow> nat \<Rightarrow> (nat \<times> nat \<times> nat) set \<Rightarrow> ppa set" where
  "done_pages spp v G = {p \<in> line_pages spp v. (p_pg p div pgs_per_flashpg spp, p_ch p, p_lun p) \<in> G}"

definition cleaning :: "nat \<Rightarrow> (nat \<times> nat \<times> nat) set \<Rightarrow> nat \<Rightarrow> conv_ftl \<Rightarrow> bool" where
  "cleaning v G S x \<longleftrightarrow> gc_inv v (done_pages (c_spp x) v G) S x \<and>
     (\<forall>p \<in> line_pages (c_spp x) v. if (flashpgs_per_blk (c_spp x) - 1, p_ch p, p_lun p) \<in> G then erased x p else pst x p \<noteq> PG_FREE)"

lemma done_pages_insert: "done_pages spp v (insert k G) = done_pages spp v G \<union> group_pages spp v k"
  by (auto simp: done_pages_def group_pages_def)

lemma pg_div_less:
  assumes "conv_geo spp" and "page_ok spp p"
  shows "p_pg p div pgs_per_flashpg spp < flashpgs_per_blk spp"
  using assms by (intro less_mult_imp_div_less) (auto simp: page_ok_def conv_geo_def)

lemma gc_step_spec:
  assumes inv: "cleaning v (set G) S x" and ord: "gc_order (c_spp x) = G @ k # R"
  obtains x' where "gc_step v k x = Some x'" and "cleaning v (set (G @ [k])) S x'" and "gc_keeps v x x'"
proof -
  let ?spp = "c_spp x" and ?F = "flashpgs_per_blk (c_spp x)" and ?D = "done_pages (c_spp x) v (set G)" and ?ppa = "group_ppa (c_spp x) v k"
  obtain f c l where kk: "k = (f, c, l)" by (cases k)
  have gi: "gc_inv v ?D S x" using inv by (simp add: cleaning_def)
  then have fi: "flash_inv [v] x" by (simp add: gc_inv_def)
  have g: "conv_geo ?spp" using fi by (simp add: flash_inv_def)
  note v = victim_off_lists(1) [OF fi]
  have k: "in_order ?spp k" using ord gc_order_facts(1) by (metis in_set_conv_decomp mem_Collect_eq)
  have new: "k \<notin> set G" using ord gc_order_facts(2) [of ?spp] by auto
  have nlast: "(?F - 1, c, l) \<notin> set G"
  proof
    assume a: "(?F - 1, c, l) \<in> set G"
    have "sorted_wrt (\<lambda>a b. fst a \<le> fst b) (G @ k # R)" using gc_order_facts(3) [of ?spp] ord by simp
    then have "\<forall>b \<in> set (k # R). ?F - 1 \<le> fst b" using a unfolding sorted_wrt_append by fastforce
    then have "f = ?F - 1" using k kk by (auto simp: in_order_def)
    then show False using a new kk by simp
  qed
  have st: "if (?F - 1, p_ch p, p_lun p) \<in> set G then erased x p else pst x p \<noteq> PG_FREE" if "p \<in> line_pages ?spp v" for p
    using inv that by (simp add: cleaning_def)
  have "group_pages ?spp v k \<inter> ?D = {}" using new by (auto simp: group_pages_def done_pages_def)
  moreover have "pst x p \<noteq> PG_FREE" if "p \<in> group_pages ?spp v k" for p
    using st [of p] that nlast kk by (auto simp: group_pages_def)
  ultimately obtain y where y: "clean_one_flashpg ?ppa x = Some y" "gc_inv v (?D \<union> group_pages ?spp v k) S y" "gc_keeps v x y" "keeps_line v x y"
    by (rule clean_one_flashpg_spec [OF gi k])
  have D: "done_pages ?spp v (set (G @ [k])) = ?D \<union> group_pages ?spp v k" using done_pages_insert by simp
  have yspp: "c_spp y = ?spp" using y(3) by (simp add: gc_keeps_def)
  have ppa: "page_ok ?spp ?ppa" "p_blk ?ppa = v" "p_ch ?ppa = c" "p_lun ?ppa = l"
    using group_ppa_eq [OF g k [unfolded kk] v] kk by simp_all
  show thesis
  proof (cases "f = ?F - 1")
    case False
    have "gc_step v k x = Some y" using y(1) False yspp by (simp add: gc_step_def kk group_ppa_def)
    moreover have "cleaning v (set (G @ [k])) S y"
      unfolding cleaning_def yspp D
    proof (intro conjI ballI y(2))
      fix p assume p: "p \<in> line_pages ?spp v"
      have "(?F - 1, p_ch p, p_lun p) \<in> set (G @ [k]) \<longleftrightarrow> (?F - 1, p_ch p, p_lun p) \<in> set G" using False kk by auto
      then show "if (?F - 1, p_ch p, p_lun p) \<in> set (G @ [k]) then erased y p else pst y p \<noteq> PG_FREE"
        using st [OF p] keeps_line_erased [OF y(4) p] keeps_line_pst [OF y(4) p] by simp
    qed
    ultimately show thesis using that y(3) by blast
  next
    case True
    have "blk_pages ?spp ?ppa \<subseteq> done_pages ?spp v (set (G @ [k]))"
    proof
      fix q assume "q \<in> blk_pages ?spp ?ppa"
      then have q: "page_ok ?spp q" "p_ch q = c" "p_lun q = l" "p_blk q = v" using ppa by (auto simp: blk_pages_def)
      let ?f = "p_pg q div pgs_per_flashpg ?spp"
      have "(?f, c, l) \<in> set (G @ [k])"
      proof (cases "?f = f")
        case False
        then have "?f < f" using pg_div_less [OF g q(1)] True by linarith
        from gc_order_before [OF ord [unfolded kk] this] show ?thesis by simp
      qed (simp add: kk)
      then show "q \<in> done_pages ?spp v (set (G @ [k]))" using q by (simp add: done_pages_def line_pages_def)
    qed
    then have B: "blk_pages (c_spp y) ?ppa \<subseteq> ?D \<union> group_pages ?spp v k" using D yspp by simp
    have ok: "page_ok (c_spp y) ?ppa" using ppa(1) yspp by simp
    from mark_block_free_spec [OF y(2) ok ppa(2) B] obtain z where z: "mark_block_free ?ppa y = Some z" "gc_inv v (?D \<union> group_pages ?spp v k) S z" "gc_keeps v y z"
      "\<And>q. q \<in> blk_pages (c_spp y) ?ppa \<Longrightarrow> erased z q"
      "\<And>q. page_ok (c_spp y) q \<Longrightarrow> q \<notin> blk_pages (c_spp y) ?ppa \<Longrightarrow> get_blk (c_ssd z) q = get_blk (c_ssd y) q" by metis
    have zspp: "c_spp z = ?spp" using z(3) yspp by (simp add: gc_keeps_def)
    have si: "ssd_inv (c_ssd z)" using z(2) by (simp add: gc_inv_def flash_inv_def)
    obtain s where s: "gc_nand NAND_ERASE 0 ?ppa z = Some (z\<lparr>c_ssd := s\<rparr>)" "same_flash (c_ssd z) s" "ssd_inv s"
      by (rule gc_nand_spec [OF si page_ok_mapped [OF ppa(1)], of NAND_ERASE 0]) simp
    note fr = gc_inv_ssd [OF z(2) s(2,3)]
    let ?E = "(c_gc_endtime z)(c := (c_gc_endtime z c)(l := s_lun_avail s c l))"
    let ?x = "z\<lparr>c_ssd := s, c_gc_endtime := ?E\<rparr>"
    have xspp: "c_spp ?x = ?spp" using zspp same_flash_pg(1) [OF s(2)] by simp
    have code: "gc_step v k x = Some ?x"
      using y(1) z(1) s(1) True yspp ppa(3,4) by (simp add: gc_step_def kk group_ppa_def)
    have gx: "gc_inv v (?D \<union> group_pages ?spp v k) S ?x"
      using fr(1) by (simp add: gc_inv_def left_pages_def valid_pages_def)
    have kx: "gc_keeps v x ?x"
      using gc_keeps_trans [OF gc_keeps_trans [OF y(3) z(3)] fr(2)] by (simp add: gc_keeps_def)
    have px: "if (?F - 1, p_ch p, p_lun p) \<in> set (G @ [k]) then erased ?x p else pst ?x p \<noteq> PG_FREE" if p: "p \<in> line_pages ?spp v" for p
    proof -
      have ex: "erased ?x p = erased z p" "pst ?x p = pst z p" using same_flash_pg [OF s(2)] by (simp_all add: erased_def)
      have pok: "page_ok ?spp p" "p_blk p = v" using p by (auto simp: line_pages_def)
      show ?thesis
      proof (cases "p_ch p = c \<and> p_lun p = l")
        case T: True
        then have "erased z p" using z(4) pok ppa yspp by (auto simp: blk_pages_def)
        then show ?thesis using T True kk ex by simp
      next
        case F: False
        then have "get_blk (c_ssd z) p = get_blk (c_ssd y) p" using z(5) pok ppa yspp by (auto simp: blk_pages_def)
        then have "erased z p = erased x p" "pst z p = pst x p"
          using keeps_line_erased [OF y(4) p] keeps_line_pst [OF y(4) p] by (simp_all add: erased_def get_pg_def)
        then show ?thesis using st [OF p] F kk ex by auto
      qed
    qed
    have "cleaning v (set (G @ [k])) S ?x" unfolding cleaning_def xspp D using gx px by blast
    then show thesis by (rule that [OF code _ kx])
  qed
qed

lemma gc_loop_spec:
  assumes "cleaning v (set G) S x" and "gc_order (c_spp x) = G @ R"
  shows "\<exists>x'. fold_opt (gc_step v) R x = Some x' \<and> cleaning v (set (gc_order (c_spp x))) S x' \<and> gc_keeps v x x'"
  using assms
proof (induction R arbitrary: G x)
  case (Cons k R)
  obtain y where y: "gc_step v k x = Some y" "cleaning v (set (G @ [k])) S y" "gc_keeps v x y"
    by (rule gc_step_spec [OF Cons.prems])
  have spp: "c_spp y = c_spp x" using y(3) by (simp add: gc_keeps_def)
  then show ?case using Cons.IH [OF y(2)] Cons.prems(2) y gc_keeps_trans by fastforce
qed simp


section \<open>Choosing and freeing the victim\<close>

lemma select_victim_spec:
  assumes inv: "flash_inv [] x" and ne: "victims (lm x) \<noteq> {}"
  obtains v m where "select_victim_line True x = Some (v, x\<lparr>lm := m\<rparr>)" and "v \<in> victims (lm x)"
    and "\<And>i. i \<in> victims (lm x) \<Longrightarrow> ln_vpc (lines (lm x) v) \<le> ln_vpc (lines (lm x) i)" and "flash_inv [v] (x\<lparr>lm := m\<rparr>)"
    and "free_line_list m = free_line_list (lm x)" and "ln_id (lines m v) = v" and "ln_ipc (lines m v) = ln_ipc (lines (lm x) v)"
proof -
  let ?m = "lm x" and ?q = "victim_line_pq (lm x)" and ?T = "blks_per_pl (c_spp x)" and ?v = "pq_d (victim_line_pq (lm x)) 1"
  let ?os = "[wp_curline (c_wp x), wp_curline (c_gc_wp x)]"
  have ok: "lists_ok ?T ?os ?m" using inv by (simp add: flash_inv_def)
  then have pq: "vq.pq_inv (?q, lines ?m)" by (simp add: lists_ok_def)
  have sz: "1 < pq_size ?q" using ne vq.elems_nonempty [of "(?q, lines ?m)"] by simp
  obtain q' ls where pop: "pqueue_pop victim_ops (?q, lines ?m) = (Some ?v, q', ls)" "vq.dropped 1 (?q, lines ?m) (q', ls)"
    using vq.pop_dropped [OF pq sz] by auto
  have d: "vq.pq_inv (q', ls)" "vq.pq_elems (q', ls) = victims ?m - {?v}" "vq.mem_frame (lines ?m) ls (victims ?m)"
    "pq_size q' = pq_size ?q - 1" "pq_avail q' = pq_avail ?q" using pop(2) by (simp_all add: vq.dropped_def)
  note fr = vq_frame [OF d(3)]
  define l2 where "l2 = ls(?v := (ls ?v)\<lparr>ln_pos := 0\<rparr>)"
  define m where "m = ?m\<lparr>victim_line_pq := q', lines := l2, victim_line_cnt := dec32 (victim_line_cnt ?m)\<rparr>"
  have v: "?v \<in> victims ?m" using sz by (auto simp: vq.pq_elems_def vq.elems_def)
  then have vT: "?v < ?T" using ok by (auto simp: lists_ok_def)
  have l2: "ln_vpc (l2 i) = ln_vpc (lines ?m i)" "ln_ipc (l2 i) = ln_ipc (lines ?m i)" "ln_id (l2 i) = ln_id (lines ?m i)" for i
    using fr(1-3) by (simp_all add: l2_def)
  have e: "vq.pq_elems (q', l2) = victims ?m - {?v}" using d(2) by (simp add: vq.pq_elems_def)
  have "vq.pq_inv (q', l2)" by (rule pq_inv_cong [OF d(1)]) (use d(2) in \<open>auto simp: l2_def\<close>)
  moreover have "\<forall>i < ?T. i \<notin> victims ?m - {?v} \<longrightarrow> ln_pos (l2 i) = 0" using fr(4) ok by (auto simp: l2_def lists_ok_def)
  moreover have "dec32 (victim_line_cnt ?m) = pq_size q' - 1"
  proof -
    have "pq_size ?q - 1 < 2 ^ 32" using lists_ok_bounds [OF ok] victims_card(2) [OF ok] inv by (simp add: flash_inv_def conv_geo_def)
    then show ?thesis using ok sz d(4) by (simp add: lists_ok_def dec32_pos)
  qed
  ultimately have okm: "lists_ok ?T (?os @ [?v]) m"
    using ok e v d(4,5) l2(3) unfolding lists_ok_def m_def by auto
  have r: "roles_ok (c_spp x) (pst x) m" using inv e unfolding flash_inv_def roles_ok_def m_def by auto
  have lc: "line_counts (c_spp x) (pst x) (lines m) {?v}" using inv l2 by (simp add: flash_inv_def line_counts_def m_def)
  have bc: "blk_counts (c_ssd x) {?v}" using inv by (simp add: flash_inv_def blk_counts_def)
  have fi: "flash_inv [?v] (x\<lparr>lm := m\<rparr>)" using inv okm r lc bc by (simp add: flash_inv_def)
  have sel: "select_victim_line True x = Some (?v, x\<lparr>lm := m\<rparr>)"
    using sz pop(1) by (simp add: select_victim_line_def pqueue_peek_def Let_def m_def l2_def)
  have best: "ln_vpc (lines ?m ?v) \<le> ln_vpc (lines ?m i)" if "i \<in> victims ?m" for i using vq.root_best [OF pq that] by simp
  show thesis
    by (rule that [OF sel v best fi]) (use l2 ok vT in \<open>auto simp: m_def lists_ok_def\<close>)
qed

lemma mark_line_free_spec:
  assumes cl: "cleaning v (set (gc_order (c_spp x))) S x"
  shows "flash_inv [] (mark_line_free v x)" "tables_ok (mark_line_free v x)" "space (mark_line_free v x) = S + pgs_per_line (c_spp x)"
    "v \<in> set (free_line_list (lm (mark_line_free v x)))" "\<And>p. p \<in> line_pages (c_spp x) v \<Longrightarrow> pst x p = PG_FREE"
proof -
  let ?spp = "c_spp x" and ?m = "lm x" and ?T = "blks_per_pl (c_spp x)"
  let ?m' = "?m\<lparr>lines := (lines ?m)(v := (lines ?m v)\<lparr>ln_ipc := 0, ln_vpc := 0\<rparr>), free_line_list := free_line_list ?m @ [v],
    free_line_cnt := inc32 (free_line_cnt ?m)\<rparr>"
  have x': "mark_line_free v x = x\<lparr>lm := ?m'\<rparr>" by (simp add: mark_line_free_def)
  have gi: "gc_inv v (done_pages ?spp v (set (gc_order ?spp))) S x" using cl by (simp add: cleaning_def)
  then have fi: "flash_inv [v] x" by (simp add: gc_inv_def)
  have g: "conv_geo ?spp" using fi by (simp add: flash_inv_def)
  have in_ord: "in_order ?spp (p_pg p div pgs_per_flashpg ?spp, p_ch p, p_lun p)" "in_order ?spp (flashpgs_per_blk ?spp - 1, p_ch p, p_lun p)"
    if "p \<in> line_pages ?spp v" for p
  proof -
    have p: "page_ok ?spp p" using that by (simp add: line_pages_def)
    note pg_div_less [OF g p]
    then show "in_order ?spp (p_pg p div pgs_per_flashpg ?spp, p_ch p, p_lun p)" "in_order ?spp (flashpgs_per_blk ?spp - 1, p_ch p, p_lun p)"
      using p by (auto simp: in_order_def page_ok_def)
  qed
  have D: "done_pages ?spp v (set (gc_order ?spp)) = line_pages ?spp v" using in_ord(1) gc_order_facts(1) by (auto simp: done_pages_def)
  have er: "erased x p" if "p \<in> line_pages ?spp v" for p
    using cl that in_ord(2) [OF that] gc_order_facts(1) unfolding cleaning_def by (metis (no_types, lifting) mem_Collect_eq)
  then show free: "pst x p = PG_FREE" if "p \<in> line_pages ?spp v" for p using that by (simp add: erased_def)
  note vo = victim_off_lists [OF fi]
  have ok: "lists_ok ?T [wp_curline (c_wp x), wp_curline (c_gc_wp x), v] ?m" using fi by (simp add: flash_inv_def)
  have "inc32 (free_line_cnt ?m) = length (free_line_list ?m) + 1"
    using lists_ok_bounds [OF ok] ok g by (simp add: lists_ok_def inc32_less conv_geo_def)
  moreover have "lists_ok ?T [wp_curline (c_wp x), wp_curline (c_gc_wp x), v]
      (?m\<lparr>lines := (lines ?m)(v := (lines ?m v)\<lparr>ln_ipc := 0, ln_vpc := 0\<rparr>)\<rparr>)" by (rule lists_ok_line [OF ok vo(5)]) simp_all
  ultimately have okm: "lists_ok ?T [wp_curline (c_wp x), wp_curline (c_gc_wp x)] ?m'" by (auto simp: lists_ok_def)
  have zero: "cnt (pst x) s Y = 0" if "Y \<subseteq> line_pages ?spp v" "s \<noteq> PG_FREE" for s Y
    by (rule cnt_zero) (use that free in force)
  have lc: "line_counts ?spp (pst x) (lines ?m') {}"
    using fi zero [OF subset_refl] by (auto simp: flash_inv_def line_counts_def)
  have bc: "blk_counts (c_ssd x) {}" unfolding blk_counts_def
  proof (intro allI impI conjI)
    fix p assume p: "page_ok ?spp p"
    have b: "blk_counts (c_ssd x) {v}" using fi by (simp add: flash_inv_def)
    then show "nb_npgs (get_blk (c_ssd x) p) = pgs_per_blk ?spp" using p by (simp add: blk_counts_def)
    have "p_blk p = v \<Longrightarrow> p \<in> line_pages ?spp v \<and> blk_pages ?spp p \<subseteq> line_pages ?spp v" using p by (auto simp: blk_pages_def line_pages_def)
    then show "nb_vpc (get_blk (c_ssd x) p) = int (cnt (pst x) PG_VALID (blk_pages ?spp p))"
      "nb_ipc (get_blk (c_ssd x) p) = int (cnt (pst x) PG_INVALID (blk_pages ?spp p))"
      using b p er [of p] zero [of "blk_pages ?spp p"] by (cases "p_blk p = v"; auto simp: blk_counts_def erased_def)+
  qed
  have roles: "roles_ok ?spp (pst x) ?m'" using fi free by (auto simp: flash_inv_def roles_ok_def vq.pq_elems_def)
  show "flash_inv [] (mark_line_free v x)" unfolding x' using fi okm lc bc roles by (simp add: flash_inv_def)
  have V: "valid_pages x - line_pages ?spp v = valid_pages x" using free by (auto simp: valid_pages_def)
  show "tables_ok (mark_line_free v x)" unfolding x' using gi D V by (simp add: gc_inv_def)
  have "left_pages v (line_pages ?spp v) x = {}" by (auto simp: left_pages_def)
  then show "space (mark_line_free v x) = S + pgs_per_line ?spp" unfolding x' using gi D by (simp add: gc_inv_def space_def)
  show "v \<in> set (free_line_list (lm (mark_line_free v x)))" unfolding x' by simp
qed

text \<open>
  A forced collection with a victim at hand: it frees the line with the fewest valid pages, gains as many
  pages as that line had invalid ones, and moves no other page.
\<close>

lemma do_gc_spec:
  assumes inv: "flash_inv [] x" and tab: "tables_ok x" and ne: "victims (lm x) \<noteq> {}" and sp: "2 * pgs_per_line (c_spp x) \<le> space x"
  obtains v x' where "do_gc True x = Some (True, x')" and "flash_inv [] x'" and "tables_ok x'" and "v \<in> victims (lm x)"
    and "\<And>i. i \<in> victims (lm x) \<Longrightarrow> ln_vpc (lines (lm x) v) \<le> ln_vpc (lines (lm x) i)"
    and "space x' = space x + ln_ipc (lines (lm x) v)" and "0 < ln_ipc (lines (lm x) v)" and "ln_ipc (lines (lm x) v) \<le> pgs_per_line (c_spp x)"
    and "c_spp x' = c_spp x" and "cp x' = cp x" and "wfc x' = (wfc x)\<lparr>credits_to_refill := ln_ipc (lines (lm x) v)\<rparr>"
    and "mapped_lpns x' = mapped_lpns x" and "\<And>lpn. maptbl x lpn \<notin> line_pages (c_spp x) v \<Longrightarrow> maptbl x' lpn = maptbl x lpn"
    and "v \<in> set (free_line_list (lm x'))"
proof -
  let ?spp = "c_spp x" and ?P = "pgs_per_line (c_spp x)"
  from select_victim_spec [OF inv ne] obtain v m where v: "select_victim_line True x = Some (v, x\<lparr>lm := m\<rparr>)" "v \<in> victims (lm x)"
    "\<And>i. i \<in> victims (lm x) \<Longrightarrow> ln_vpc (lines (lm x) v) \<le> ln_vpc (lines (lm x) i)" "flash_inv [v] (x\<lparr>lm := m\<rparr>)"
    "free_line_list m = free_line_list (lm x)" "ln_id (lines m v) = v" "ln_ipc (lines m v) = ln_ipc (lines (lm x) v)" by metis
  let ?k = "ln_ipc (lines (lm x) v)" and ?L = "line_pages ?spp v"
  define y where "y = x\<lparr>lm := m, wfc := (wfc x)\<lparr>credits_to_refill := ?k\<rparr>\<rparr>"
  have y: "c_spp y = ?spp" "flash_inv [v] y" "valid_pages y = valid_pages x" "maptbl y = maptbl x" "rmap y = rmap x" "space y = space x"
    "mapped_lpns y = mapped_lpns x" "cp y = cp x" "pst y = pst x"
    using v(4,5) by (simp_all add: y_def) (simp add: space_def)
  have g: "conv_geo ?spp" using inv by (simp add: flash_inv_def)
  have vT: "v < blks_per_pl ?spp" using victim_off_lists(1) [OF y(2)] y(1) by simp
  note cl = card_line_pages [OF g vT]
  have used: "\<And>p. p \<in> ?L \<Longrightarrow> pst x p \<noteq> PG_FREE" "\<exists>p \<in> ?L. pst x p = PG_INVALID"
    using inv v(2) by (auto simp: flash_inv_def roles_ok_def)
  have k: "?k = cnt (pst x) PG_INVALID ?L" using inv vT by (simp add: flash_inv_def line_counts_def)
  have f0: "cnt (pst x) PG_FREE ?L = 0" by (rule cnt_zero [OF used(1)])
  have kpos: "0 < ?k" using k cnt_pos [OF cl(1)] used(2) by simp
  have tot: "?k + cnt (pst x) PG_VALID ?L = ?P" using cnt_total [OF cl(1), of "pst x"] f0 k cl(2) by simp
  define S where "S = space x - cnt (pst x) PG_VALID ?L"
  have S: "?P < S" "space x = S + cnt (pst x) PG_VALID ?L" using sp tot kpos by (auto simp: S_def)
  have "left_pages v {} y = {q \<in> ?L. pst x q = PG_VALID}" using y(1,9) by (auto simp: left_pages_def valid_pages_def line_pages_def)
  then have "card (left_pages v {} y) = cnt (pst x) PG_VALID ?L" by (simp add: cnt_def)
  then have "gc_inv v {} S y" using y tab S by (simp add: gc_inv_def)
  then have "cleaning v (set []) S y" using used(1) y(1,9) by (simp add: cleaning_def done_pages_def)
  from gc_loop_spec [OF this, of "gc_order ?spp"] obtain z where z: "fold_opt (gc_step v) (gc_order ?spp) y = Some z"
    "cleaning v (set (gc_order ?spp)) S z" "gc_keeps v y z" using y(1) by auto
  have zk: "c_spp z = ?spp" "cp z = cp x" "wfc z = (wfc x)\<lparr>credits_to_refill := ?k\<rparr>" "mapped_lpns z = mapped_lpns x"
    "\<And>lpn. maptbl x lpn \<notin> ?L \<Longrightarrow> maptbl z lpn = maptbl x lpn" using z(3) y by (auto simp: gc_keeps_def y_def)
  have z2: "cleaning v (set (gc_order (c_spp z))) S z" using z(2) zk(1) by simp
  note fr = mark_line_free_spec [OF z2]
  have "v mod 2 ^ 16 = v" using vT g by (intro mod_less) (simp add: conv_geo_def)
  then have "do_gc True x = Some (True, mark_line_free v z)"
    using v(1,6,7) z(1) by (simp add: do_gc_def Let_def y_def)
  moreover have "space (mark_line_free v z) = space x + ?k" using fr(3) zk(1) S tot by simp
  ultimately show thesis
    using that [of "mark_line_free v z" v] fr(1,2,4) v(2,3) kpos tot zk by (simp add: mark_line_free_def)
qed

end
