(* ===== verification/Conv_Cmds.thy ===== *)
theory Conv_Cmds
  imports Conv_GC
begin

text \<open>
  The commands of the conventional namespace: write credits and garbage collection together never let
  the layer run out of free lines, every command in range completes and keeps the invariant, and the
  namespace implements a set of written logical pages.
\<close>

section \<open>The invariant with write credits\<close>

text \<open>
  All logical pages in use lie below \<open>cap\<close>, which leaves more than four lines spare. As many pages can be
  written as there are credits, and two lines' worth of free pages remain for the collection.
\<close>

definition conv_inv :: "nat \<Rightarrow> conv_ftl \<Rightarrow> bool" where
  "conv_inv cap x \<longleftrightarrow> flash_inv [] x \<and> tables_ok x \<and> mapped_lpns x \<subseteq> {..<cap} \<and> cap \<le> tt_pgs (c_spp x) \<and>
     cap + 4 * pgs_per_line (c_spp x) < blks_per_pl (c_spp x) * pgs_per_line (c_spp x) \<and> gc_thres_lines_high (cp x) = 2 \<and>
     write_credits (wfc x) \<le> pgs_per_line (c_spp x) \<and>
     0 < credits_to_refill (wfc x) \<and> credits_to_refill (wfc x) \<le> pgs_per_line (c_spp x) \<and>
     write_credits (wfc x) + 2 * pgs_per_line (c_spp x) \<le> space x"

text \<open>The valid pages are as many as the mapped logical pages.\<close>

lemma valid_pages_le:
  assumes "tables_ok x" and "mapped_lpns x \<subseteq> {..<cap}"
  shows "finite (valid_pages x)" "card (valid_pages x) \<le> cap"
proof -
  let ?f = "\<lambda>p. rmap x (pgidx (c_spp x) p)"
  have f: "?f p < tt_pgs (c_spp x)" "maptbl x (?f p) = p" "page_ok (c_spp x) p" if "p \<in> valid_pages x" for p
    using assms(1) that by (auto simp: map_ok_def)
  have inj: "inj_on ?f (valid_pages x)" by (rule inj_onI) (metis f(2))
  have sub: "?f ` valid_pages x \<subseteq> {..<cap}"
  proof
    fix l assume "l \<in> ?f ` valid_pages x"
    then obtain p where p: "p \<in> valid_pages x" "l = ?f p" by blast
    have "maptbl x l \<noteq> UNMAPPED_PPA" using f(2,3) [OF p(1)] p(2) by auto
    then have "l \<in> mapped_lpns x" using f(1) [OF p(1)] p(2) by (simp add: mapped_lpns_def)
    then show "l \<in> {..<cap}" using assms(2) by blast
  qed
  then have "finite (?f ` valid_pages x)" by (rule finite_subset) simp
  then show "finite (valid_pages x)" using inj by (rule finite_imageD)
  show "card (valid_pages x) \<le> cap" using card_image [OF inj] card_mono [OF _ sub] by simp
qed

lemma full_lines_valid:
  assumes inv: "flash_inv [] x" and fin: "finite (valid_pages x)"
  shows "length (full_line_list (lm x)) * pgs_per_line (c_spp x) \<le> card (valid_pages x)"
proof -
  let ?spp = "c_spp x" and ?F = "set (full_line_list (lm x))"
  have g: "conv_geo ?spp" and ok: "lists_ok (blks_per_pl ?spp) [wp_curline (c_wp x), wp_curline (c_gc_wp x)] (lm x)"
    using inv by (auto simp: flash_inv_def)
  have T: "i < blks_per_pl ?spp" if "i \<in> ?F" for i using ok that by (auto simp: lists_ok_def)
  have "card (\<Union>i \<in> ?F. line_pages ?spp i) = (\<Sum>i \<in> ?F. card (line_pages ?spp i))"
    using card_line_pages(1) [OF g T] by (intro card_UN_disjoint) (auto simp: line_pages_def)
  also have "\<dots> = card ?F * pgs_per_line ?spp" using card_line_pages(2) [OF g T] by simp
  also have "card ?F = length (full_line_list (lm x))" using ok by (intro distinct_card) (simp add: lists_ok_def)
  finally have "card (\<Union>i \<in> ?F. line_pages ?spp i) = length (full_line_list (lm x)) * pgs_per_line ?spp" .
  moreover have "(\<Union>i \<in> ?F. line_pages ?spp i) \<subseteq> valid_pages x"
    using inv by (auto simp: flash_inv_def roles_ok_def valid_pages_def line_pages_def)
  ultimately show ?thesis using card_mono [OF fin] by metis
qed

text \<open>When the free lines run low there is a line to collect.\<close>

lemma victims_exist:
  assumes inv: "flash_inv [] x" and tab: "tables_ok x" and cap: "mapped_lpns x \<subseteq> {..<cap}"
    "cap + 4 * pgs_per_line (c_spp x) < blks_per_pl (c_spp x) * pgs_per_line (c_spp x)" and low: "free_line_cnt (lm x) \<le> 2"
  shows "victims (lm x) \<noteq> {}"
proof
  assume "victims (lm x) = {}"
  moreover have ok: "lists_ok (blks_per_pl (c_spp x)) [wp_curline (c_wp x), wp_curline (c_gc_wp x)] (lm x)"
    using inv by (simp add: flash_inv_def)
  ultimately have "length (free_line_list (lm x)) + length (full_line_list (lm x)) + 2 = blks_per_pl (c_spp x)"
    using lists_ok_bounds [OF ok] by simp
  then have "blks_per_pl (c_spp x) \<le> length (full_line_list (lm x)) + 4" using low ok by (simp add: lists_ok_def)
  then have "blks_per_pl (c_spp x) * pgs_per_line (c_spp x) \<le> (length (full_line_list (lm x)) + 4) * pgs_per_line (c_spp x)"
    by (rule mult_le_mono1)
  also have "\<dots> \<le> cap + 4 * pgs_per_line (c_spp x)"
    using full_lines_valid [OF inv valid_pages_le(1) [OF tab cap(1)]] valid_pages_le(2) [OF tab cap(1)] by (simp add: add_mult_distrib)
  finally show False using cap(2) by simp
qed

section \<open>A page write\<close>

lemma geo_line: "conv_geo spp \<Longrightarrow> pgs_per_line spp = luns_per_ch spp * nchs spp * pgs_per_blk spp \<and> pgs_per_line spp < 2 ^ 32"
  unfolding conv_geo_def by blast

lemma line_pos: "conv_geo spp \<Longrightarrow> 0 < pgs_per_line spp"
  using geo_pos [of spp] geo_line [of spp] by simp

lemma refill_spec:
  assumes inv: "conv_inv cap x"
  obtains x' where "check_and_refill_write_credit x = Some x'" and "conv_inv cap x'" and "0 < write_credits (wfc x')"
    and "mapped_lpns x' = mapped_lpns x" and "c_spp x' = c_spp x"
proof (cases "write_credits (wfc x) = 0")
  case False
  then show thesis using that [of x] inv by (simp add: check_and_refill_write_credit_def)
next
  case True
  let ?P = "pgs_per_line (c_spp x)"
  have fi: "flash_inv [] x" and tab: "tables_ok x" and sp: "2 * ?P \<le> space x" using inv True by (auto simp: conv_inv_def)
  have P: "?P < 2 ^ 32" using fi geo_line unfolding flash_inv_def by blast
  show thesis
  proof (cases "should_gc_high x")
    case gc: True
    have "victims (lm x) \<noteq> {}"
      by (rule victims_exist [OF fi tab, of cap]) (use inv gc in \<open>auto simp: conv_inv_def should_gc_high_def\<close>)
    from do_gc_spec [OF fi tab this sp] obtain v y where y: "do_gc True x = Some (True, y)" "flash_inv [] y" "tables_ok y"
      "space y = space x + ln_ipc (lines (lm x) v)" "0 < ln_ipc (lines (lm x) v)" "ln_ipc (lines (lm x) v) \<le> ?P"
      "c_spp y = c_spp x" "cp y = cp x" "wfc y = (wfc x)\<lparr>credits_to_refill := ln_ipc (lines (lm x) v)\<rparr>" "mapped_lpns y = mapped_lpns x"
      by metis
    let ?x = "y\<lparr>wfc := (wfc y)\<lparr>write_credits := ln_ipc (lines (lm x) v)\<rparr>\<rparr>"
    have "check_and_refill_write_credit x = Some ?x"
      using True gc y(1,6,9) P by (simp add: check_and_refill_write_credit_def foreground_gc_def)
    moreover have "conv_inv cap ?x" using inv y(2-10) sp by (simp add: conv_inv_def)
    ultimately show thesis using that [of ?x] y(5,7,10) by simp
  next
    case no: False
    let ?x = "x\<lparr>wfc := (wfc x)\<lparr>write_credits := credits_to_refill (wfc x)\<rparr>\<rparr>"
    have r: "credits_to_refill (wfc x) \<le> ?P" "0 < credits_to_refill (wfc x)" using inv by (auto simp: conv_inv_def)
    have "check_and_refill_write_credit x = Some ?x"
      using True no r P by (simp add: check_and_refill_write_credit_def foreground_gc_def)
    moreover have "3 \<le> length (free_line_list (lm x))"
      using no inv fi by (simp add: should_gc_high_def conv_inv_def flash_inv_def lists_ok_def)
    then have "3 * ?P \<le> length (free_line_list (lm x)) * ?P" by (rule mult_le_mono1)
    then have "3 * ?P \<le> space x" unfolding space_def by linarith
    then have "conv_inv cap ?x" using inv r by (simp add: conv_inv_def)
    ultimately show thesis using that [of ?x] r by simp
  qed
qed

lemma write_page_spec:
  assumes inv: "conv_inv cap x" and c: "0 < write_credits (wfc x)" and lpn: "lpn < cap"
  obtains d x' where "conv_write_page stime lpn x = Some (d, x')" and "conv_inv cap x'" and "0 < write_credits (wfc x')"
    and "mapped_lpns x' = insert lpn (mapped_lpns x)" and "c_spp x' = c_spp x" and "\<And>t. d = Some t \<Longrightarrow> stime \<le> t"
proof -
  let ?P = "pgs_per_line (c_spp x)"
  have fi: "flash_inv [] x" and tab: "tables_ok x" and sp: "write_credits (wfc x) + 2 * ?P \<le> space x" and tt: "lpn < tt_pgs (c_spp x)"
    using inv lpn by (auto simp: conv_inv_def)
  have g: "conv_geo (c_spp x)" using fi by (simp add: flash_inv_def)
  have "?P + 1 < space x" using sp c line_pos [OF g] by linarith
  from write_map_spec [OF fi tab this tt] obtain p y where y: "conv_write_map lpn x = Some (p, y)" "flash_inv [] y" "tables_ok y"
    "maptbl y = (maptbl x)(lpn := p)" "page_ok (c_spp x) p" "c_spp y = c_spp x" "cp y = cp x" "wfc y = wfc x" "space y + 1 = space x" by metis
  have um: "p \<noteq> UNMAPPED_PPA" using y(5) by auto
  have mapped: "mapped_lpns y = insert lpn (mapped_lpns x)" using y(4,6) um tt by (auto simp: mapped_lpns_def)
  let ?nand = "\<lparr>nc_cmd = NAND_WRITE, nc_xfer_size = pgsz (c_spp y) * pgs_per_oneshotpg (c_spp y), nc_stime = stime,
    nc_interleave_pci_dma = False, nc_ppa = p\<rparr>"
  have si: "ssd_inv (c_ssd y)" using y(2) by (simp add: flash_inv_def)
  obtain d s where d: "(if last_pg_in_wordline y p then do { (t, x) \<leftarrow> conv_nand ?nand y; Some (Some t, x) } else Some (None, y)) = Some (d, y\<lparr>c_ssd := s\<rparr>)"
    "same_flash (c_ssd y) s" "ssd_inv s" "\<And>t. d = Some t \<Longrightarrow> stime \<le> t"
  proof (cases "last_pg_in_wordline y p")
    case True
    obtain t s where "conv_nand ?nand y = Some (t, y\<lparr>c_ssd := s\<rparr>)" "same_flash (c_ssd y) s" "ssd_inv s" "nc_stime ?nand \<le> t"
      by (rule conv_nand_spec [OF si, of ?nand]) (use um in auto)
    then show thesis using that [of "Some t" s] True by simp
  next
    case False
    then show thesis using that [of None "c_ssd y"] si by simp
  qed
  let ?z = "y\<lparr>c_ssd := s\<rparr>"
  note fr = flash_inv_ssd [OF d(2,3) y(2)]
  have zspp: "sp s = c_spp x" using same_flash_pg(1) [OF d(2)] y(6) by simp
  have "write_credits (wfc x) < 2 ^ 32" using inv geo_line [OF g] by (simp add: conv_inv_def)
  then have "consume_write_credit ?z = ?z\<lparr>wfc := (wfc x)\<lparr>write_credits := write_credits (wfc x) - 1\<rparr>\<rparr>"
    using c y(8) by (simp add: consume_write_credit_def dec32_pos)
  moreover have "conv_inv cap (?z\<lparr>wfc := (wfc x)\<lparr>write_credits := write_credits (wfc x) - 1\<rparr>\<rparr>)"
  proof -
    have "tables_ok ?z" using y(3) fr(3) zspp y(6) by simp
    then show ?thesis using inv fr zspp y(7,9) mapped lpn c sp by (auto simp: conv_inv_def)
  qed
  ultimately have ci: "conv_inv cap (consume_write_credit ?z)" by simp
  obtain w where w: "check_and_refill_write_credit (consume_write_credit ?z) = Some w" "conv_inv cap w" "0 < write_credits (wfc w)"
    "mapped_lpns w = mapped_lpns (consume_write_credit ?z)" "c_spp w = c_spp (consume_write_credit ?z)"
    by (rule refill_spec [OF ci])
  have code: "conv_write_page stime lpn x = Some (d, w)"
    unfolding conv_write_page_def y(1) by (simp add: d(1) w(1) del: if_split split del: if_split)
  show thesis
    by (rule that [OF code w(2,3)]) (use w(4,5) mapped fr(4) zspp d(4) in \<open>simp_all add: consume_write_credit_def\<close>)
qed


section \<open>The namespace\<close>

definition ns_spp :: "conv_ns \<Rightarrow> ssdparams" where
  "ns_spp ns = c_spp (n_ftls ns 0)"

definition ns_inv :: "nat \<Rightarrow> conv_ns \<Rightarrow> bool" where
  "ns_inv cap ns \<longleftrightarrow> 0 < n_nr_parts ns \<and> (\<forall>i < n_nr_parts ns. conv_inv cap (load_part i ns) \<and>
     0 < write_credits (wfc (n_ftls ns i)) \<and> c_spp (n_ftls ns i) = ns_spp ns)"

text \<open>The logical pages that were written.\<close>

definition written :: "conv_ns \<Rightarrow> nat set" where
  "written ns = {lpn. lpn div n_nr_parts ns \<in> mapped_lpns (n_ftls ns (lpn mod n_nr_parts ns))}"

lemma conv_inv_ssd:
  assumes "conv_inv cap x" and "sp s = c_spp x" and "s_blk s = s_blk (c_ssd x)" and "ssd_inv s"
  shows "conv_inv cap (x\<lparr>c_ssd := s\<rparr>)"
proof -
  have e: "get_blk s = get_blk (c_ssd x)" "get_pg s = pst x" using assms(3) by (auto simp: get_blk_def get_pg_def fun_eq_iff)
  then have "valid_pages (x\<lparr>c_ssd := s\<rparr>) = valid_pages x" using assms(2) by (simp add: valid_pages_def)
  moreover have "flash_inv [] (x\<lparr>c_ssd := s\<rparr>)" using assms e by (simp add: conv_inv_def flash_inv_def blk_counts_def)
  moreover have "space (x\<lparr>c_ssd := s\<rparr>) = space x" "mapped_lpns (x\<lparr>c_ssd := s\<rparr>) = mapped_lpns x"
    using assms(2) by (simp_all add: space_def mapped_lpns_def)
  ultimately show ?thesis using assms(1,2) by (simp add: conv_inv_def)
qed

lemma load_part_sel [simp]: "c_spp (load_part i ns) = c_spp (n_ftls ns i)" "wfc (load_part i ns) = wfc (n_ftls ns i)"
  "mapped_lpns (load_part i ns) = mapped_lpns (n_ftls ns i)" "maptbl (load_part i ns) = maptbl (n_ftls ns i)"
  by (simp_all add: load_part_def mapped_lpns_def)

lemma store_part_sel [simp]: "n_nr_parts (store_part i x ns) = n_nr_parts ns" "n_ftls (store_part i x ns) = (n_ftls ns)(i := x)"
  "load_part i (store_part i x ns) = x" "n_size (store_part i x ns) = n_size ns" "n_wbuf (store_part i x ns) = n_wbuf ns"
  by (simp_all add: store_part_def load_part_def)

lemma ns_inv_store:
  assumes inv: "ns_inv cap ns" and i: "i < n_nr_parts ns" and x: "conv_inv cap x" "0 < write_credits (wfc x)" "c_spp x = ns_spp ns"
  shows "ns_inv cap (store_part i x ns)" "ns_spp (store_part i x ns) = ns_spp ns"
proof -
  let ?ns = "store_part i x ns"
  show spp: "ns_spp ?ns = ns_spp ns" using x(3) by (simp add: ns_spp_def)
  have "conv_inv cap (load_part j ?ns)" if j: "j < n_nr_parts ns" for j
  proof (cases "j = i")
    case False
    let ?s = "(c_ssd (n_ftls ns j))\<lparr>s_pcie := s_pcie (c_ssd x), s_clk := s_clk (c_ssd x), s_tick := s_tick (c_ssd x)\<rparr>"
    have old: "conv_inv cap (load_part j ns)" using inv j by (simp add: ns_inv_def)
    then have "ssd_inv (c_ssd (load_part j ns))" "ssd_inv (c_ssd x)" using x(1) by (auto simp: conv_inv_def flash_inv_def)
    then have "ssd_inv ?s" by (simp add: ssd_inv_def load_part_def)
    from conv_inv_ssd [OF old _ _ this] have "conv_inv cap ((load_part j ns)\<lparr>c_ssd := ?s\<rparr>)" by (simp add: load_part_def)
    moreover have "(load_part j ns)\<lparr>c_ssd := ?s\<rparr> = load_part j ?ns" using False by (simp add: load_part_def store_part_def)
    ultimately show ?thesis by simp
  qed (use x(1) in simp)
  then show "ns_inv cap ?ns" using inv x spp by (auto simp: ns_inv_def)
qed

lemma written_store:
  assumes "0 < n_nr_parts ns"
  shows "written (store_part i x ns) = {lpn \<in> written ns. lpn mod n_nr_parts ns \<noteq> i} \<union>
    {lpn. lpn mod n_nr_parts ns = i \<and> lpn div n_nr_parts ns \<in> mapped_lpns x}"
  by (auto simp: written_def)

lemma written_same:
  assumes "mapped_lpns x = mapped_lpns (n_ftls ns i)"
  shows "written (store_part i x ns) = written ns"
  using assms by (auto simp: written_def)

lemma ns_inv_fields:
  "n_ftls ns' = n_ftls ns \<Longrightarrow> n_nr_parts ns' = n_nr_parts ns \<Longrightarrow> n_pcie ns' = n_pcie ns \<Longrightarrow> ns_inv cap ns \<Longrightarrow> ns_inv cap ns'"
proof -
  assume e: "n_ftls ns' = n_ftls ns" "n_nr_parts ns' = n_nr_parts ns" "n_pcie ns' = n_pcie ns" and inv: "ns_inv cap ns"
  have "conv_inv cap (load_part j ns')" if j: "j < n_nr_parts ns" for j
  proof -
    have old: "conv_inv cap (load_part j ns)" using inv j by (simp add: ns_inv_def)
    let ?s = "(c_ssd (n_ftls ns j))\<lparr>s_pcie := n_pcie ns, s_clk := n_clk ns', s_tick := n_tick ns'\<rparr>"
    have "ssd_inv ?s" using old by (simp add: conv_inv_def flash_inv_def ssd_inv_def load_part_def)
    from conv_inv_ssd [OF old _ _ this] show ?thesis using e by (simp add: load_part_def)
  qed
  then show ?thesis using inv unfolding ns_inv_def ns_spp_def e(1,2) by blast
qed

subsection \<open>Writes\<close>

lemma write_round_spec:
  assumes inv: "ns_inv cap ns" and lpn: "lpn div n_nr_parts ns < cap"
  obtains latest' ns' where "conv_write_round sqid stime lpn (latest, ns) = Some (latest', ns')" and "ns_inv cap ns'"
    and "written ns' = insert lpn (written ns)" and "n_nr_parts ns' = n_nr_parts ns" and "ns_spp ns' = ns_spp ns" and "latest \<le> latest'"
    and "n_wbuf ns' = n_wbuf ns"
proof -
  let ?np = "n_nr_parts ns" and ?i = "lpn mod n_nr_parts ns" and ?l = "lpn div n_nr_parts ns"
  have np: "0 < ?np" using inv by (simp add: ns_inv_def)
  then have i: "?i < ?np" by simp
  then have p: "conv_inv cap (load_part ?i ns)" "0 < write_credits (wfc (load_part ?i ns))" "c_spp (n_ftls ns ?i) = ns_spp ns" using inv by (auto simp: ns_inv_def)
  from write_page_spec [OF p(1,2) lpn, of stime] obtain d x where x: "conv_write_page stime ?l (load_part ?i ns) = Some (d, x)" "conv_inv cap x"
    "0 < write_credits (wfc x)" "mapped_lpns x = insert ?l (mapped_lpns (n_ftls ns ?i))" "c_spp x = ns_spp ns" using p(3) by (metis load_part_sel(1,3))
  let ?ns = "store_part ?i x ns"
  note st = ns_inv_store [OF inv i x(2,3,5)]
  have w: "written ?ns = insert lpn (written ns)"
  proof
    show "written ?ns \<subseteq> insert lpn (written ns)"
    proof
      fix m assume "m \<in> written ?ns"
      then consider "m \<in> written ns" | "m mod ?np = ?i" "m div ?np \<in> insert ?l (mapped_lpns (n_ftls ns ?i))"
        unfolding written_store [OF np] x(4) by blast
      then show "m \<in> insert lpn (written ns)"
      proof cases
        case 2
        show ?thesis
        proof (cases "m div ?np = ?l")
          case True
          then have "m = lpn" using 2(1) by (metis div_mult_mod_eq)
          then show ?thesis by simp
        next
          case False
          then show ?thesis using 2 by (simp add: written_def)
        qed
      qed simp
    qed
    show "insert lpn (written ns) \<subseteq> written ?ns" unfolding written_store [OF np] x(4) by (auto simp: written_def)
  qed
  have "on_part ?i (conv_write_page stime ?l) ns = Some (d, ?ns)" using x(1) by (simp add: on_part_def)
  then have code: "conv_write_round sqid stime lpn (latest, ns) = Some (case d of None \<Rightarrow> (latest, ?ns)
    | Some t \<Rightarrow> (max t latest, ?ns\<lparr>n_sched := n_sched ?ns @ [\<lparr>cs_sqid = sqid, cs_target = t, cs_release = pgs_per_oneshotpg (ns_spp ns) * pgsz (ns_spp ns)\<rparr>]\<rparr>))"
    using st(2) unfolding ns_spp_def by (cases d) (simp_all add: conv_write_round_def Let_def)
  show thesis
  proof (cases d)
    case None
    then show thesis using that [of latest ?ns] code st w by simp
  next
    case (Some t)
    let ?n2 = "?ns\<lparr>n_sched := n_sched ?ns @ [\<lparr>cs_sqid = sqid, cs_target = t, cs_release = pgs_per_oneshotpg (ns_spp ns) * pgsz (ns_spp ns)\<rparr>]\<rparr>"
    have "ns_inv cap ?n2" by (rule ns_inv_fields [OF _ _ _ st(1)]) simp_all
    moreover have "written ?n2 = written ?ns" by (simp add: written_def)
    moreover have "ns_spp ?n2 = ns_spp ns" using st(2) by (simp add: ns_spp_def)
    ultimately show thesis using that [of "max t latest" ?n2] code Some w by simp
  qed
qed

lemma write_rounds_spec:
  assumes "ns_inv cap ns" and "\<And>lpn. lpn \<in> set lpns \<Longrightarrow> lpn div n_nr_parts ns < cap"
  shows "\<exists>latest' ns'. fold_opt (conv_write_round sqid stime) lpns (latest, ns) = Some (latest', ns') \<and> ns_inv cap ns' \<and>
    written ns' = written ns \<union> set lpns \<and> n_nr_parts ns' = n_nr_parts ns \<and> ns_spp ns' = ns_spp ns \<and> latest \<le> latest' \<and> n_wbuf ns' = n_wbuf ns"
  using assms
proof (induction lpns arbitrary: latest ns)
  case (Cons lpn lpns)
  have l: "lpn div n_nr_parts ns < cap" using Cons.prems(2) by simp
  obtain la ns1 where a: "conv_write_round sqid stime lpn (latest, ns) = Some (la, ns1)" "ns_inv cap ns1" "written ns1 = insert lpn (written ns)"
    "n_nr_parts ns1 = n_nr_parts ns" "ns_spp ns1 = ns_spp ns" "latest \<le> la" "n_wbuf ns1 = n_wbuf ns" by (rule write_round_spec [OF Cons.prems(1) l])
  from Cons.IH [OF a(2), of la] Cons.prems(2) a(4) obtain lb ns2 where b: "fold_opt (conv_write_round sqid stime) lpns (la, ns1) = Some (lb, ns2)"
    "ns_inv cap ns2" "written ns2 = written ns1 \<union> set lpns" "n_nr_parts ns2 = n_nr_parts ns1" "ns_spp ns2 = ns_spp ns1" "la \<le> lb" "n_wbuf ns2 = n_wbuf ns1" by auto
  show ?case using a b by (intro exI [of _ lb] exI [of _ ns2]) simp
qed simp


text \<open>The bytes of a command; they fit the 32-bit result of the allocation.\<close>

abbreviation req_bytes :: "conv_request \<Rightarrow> nat" where
  "req_bytes req \<equiv> req_nr_lba req * 2 ^ 9"

lemma req_bytes_bounds: "0 < req_bytes req" "req_bytes req \<le> 2 ^ 25"
proof -
  have "unat (rw_length (r_cmd req)) < 2 ^ 16" using unsigned_less [of "rw_length (r_cmd req)", where 'a = nat] by simp
  then show "0 < req_bytes req" "req_bytes req \<le> 2 ^ 25" by (simp_all add: req_nr_lba_def)
qed

lemma buffer_allocate_bytes:
  assumes "n \<le> 2 ^ 25" and "n \<le> unat (b_size buf)"
  obtains got buf' where "buffer_allocate buf (of_nat n) = Some (got, buf')" and "b_size buf' = b_size buf"
    and "unat got = (if unat (b_remaining buf) < n then 0 else n)" and "unat (b_remaining buf') = unat (b_remaining buf) - unat got"
proof -
  have n: "unat (of_nat n :: u64) = n" using assms(1) by (simp add: unat_of_nat)
  have n32: "unat (of_nat n :: u32) = n" using assms(1) by (simp add: unat_of_nat)
  have le: "(of_nat n :: u64) \<le> b_size buf" using assms(2) n by (simp add: word_le_nat_alt)
  have lt: "b_remaining buf < of_nat n \<longleftrightarrow> unat (b_remaining buf) < n" using n by (simp add: word_less_nat_alt)
  have c: "unat (ucast (of_nat n :: u64) :: u32) = n" using assms(1) n by (simp add: unsigned_ucast_eq take_bit_nat_eq_self)
  show thesis
  proof (cases "unat (b_remaining buf) < n")
    case True
    then show thesis using that [of 0 buf] le lt by (simp add: buffer_allocate_def Let_def)
  next
    case False
    then have "unat (b_remaining buf - of_nat n) = unat (b_remaining buf) - n" using n by (simp add: unat_sub word_le_nat_alt)
    then show thesis using that [of "ucast (of_nat n :: u64)" "buf\<lparr>b_remaining := b_remaining buf - of_nat n\<rparr>"] False le lt c
      by (simp add: buffer_allocate_def Let_def)
  qed
qed

lemma conv_write_spec:
  assumes inv: "ns_inv cap ns" and e: "end_lpn ns req div n_nr_parts ns < cap" and sz: "req_bytes req \<le> unat (b_size (n_wbuf ns))"
  obtains r ns' where "conv_write req ns = Some (r, ns')" and "ns_inv cap ns'" and "n_nr_parts ns' = n_nr_parts ns" and "ns_spp ns' = ns_spp ns"
    and "ret_ok r \<longleftrightarrow> req_bytes req \<le> unat (b_remaining (n_wbuf ns))"
    and "written ns' = (if ret_ok r then written ns \<union> {start_lpn ns req..end_lpn ns req} else written ns)"
    and "ret_ok r \<Longrightarrow> r_nsecs_start req \<le> ret_nsecs_target r" and "b_size (n_wbuf ns') = b_size (n_wbuf ns)"
proof -
  let ?e = "end_lpn ns req" and ?s = "start_lpn ns req" and ?np = "n_nr_parts ns" and ?spp = "c_spp (n_ftls ns 0)"
  have np: "0 < ?np" using inv by (simp add: ns_inv_def)
  have p0: "conv_inv cap (load_part 0 ns)" using inv by (simp add: ns_inv_def)
  then have "cap \<le> tt_pgs ?spp" by (simp add: conv_inv_def)
  then have range: "\<not> ?e div ?np \<ge> tt_pgs ?spp" using e by simp
  obtain got buf where b: "buffer_allocate (n_wbuf ns) (of_nat (req_bytes req)) = Some (got, buf)" "b_size buf = b_size (n_wbuf ns)"
    "unat got = (if unat (b_remaining (n_wbuf ns)) < req_bytes req then 0 else req_bytes req)"
    by (rule buffer_allocate_bytes [OF req_bytes_bounds(2) sz])
  let ?ns1 = "ns\<lparr>n_wbuf := buf\<rparr>"
  have inv1: "ns_inv cap ?ns1" by (rule ns_inv_fields [OF _ _ _ inv]) simp_all
  have w1: "written ?ns1 = written ns" "ns_spp ?ns1 = ns_spp ns" by (simp_all add: written_def ns_spp_def)
  note unf = conv_write_def Let_def
  show thesis
  proof (cases "unat got < req_bytes req")
    case True
    then have lt: "\<not> req_bytes req \<le> unat (b_remaining (n_wbuf ns))" using b(3) by (auto split: if_splits)
    have "conv_write req ns = Some (\<lparr>ret_ok = False, ret_status = 0, ret_nsecs_target = 0\<rparr>, ?ns1)"
      unfolding unf using range b(1) True by simp
    then show thesis by (rule that) (use inv1 w1 lt b(2) in simp_all)
  next
    case False
    then have ge: "req_bytes req \<le> unat (b_remaining (n_wbuf ns))" using b(3) req_bytes_bounds(1) [of req] by (auto split: if_splits)
    let ?x = "load_part 0 ?ns1" and ?f = "\<lambda>x. do { (t, ssd) \<leftarrow> ssd_advance_write_buffer (r_nsecs_start req) (req_bytes req) (c_ssd x); Some (t, x\<lparr>c_ssd := ssd\<rparr>) }"
    have x: "conv_inv cap ?x" "0 < write_credits (wfc ?x)" "c_spp ?x = ns_spp ns"
      using inv1 np w1(2) unfolding ns_inv_def by simp_all
    then have "ssd_inv (c_ssd ?x)" by (simp add: conv_inv_def flash_inv_def)
    from ssd_advance_write_buffer_ok [OF this, of "r_nsecs_start req" "req_bytes req"] obtain t s where
      s: "ssd_advance_write_buffer (r_nsecs_start req) (req_bytes req) (c_ssd ?x) = Some (t, s)" "r_nsecs_start req \<le> t" "ssd_inv s" "same_flash (c_ssd ?x) s" by blast
    let ?y = "?x\<lparr>c_ssd := s\<rparr>" and ?ns2 = "store_part 0 (?x\<lparr>c_ssd := s\<rparr>) ?ns1"
    have ss: "sp s = c_spp ?x" "s_blk s = s_blk (c_ssd ?x)" using s(4) by (auto simp: same_flash_def)
    have y: "conv_inv cap ?y" "0 < write_credits (wfc ?y)" "c_spp ?y = ns_spp ?ns1"
      using conv_inv_ssd [OF x(1) ss s(3)] x(2,3) ss(1) w1(2) by simp_all
    have st: "ns_inv cap ?ns2" "ns_spp ?ns2 = ns_spp ns" using ns_inv_store [OF inv1 _ y] np w1(2) by simp_all
    have w2: "written ?ns2 = written ns"
    proof -
      have "mapped_lpns ?y = mapped_lpns (n_ftls ?ns1 0)" using ss(1) by (simp add: mapped_lpns_def)
      from written_same [OF this] show ?thesis using w1(1) by simp
    qed
    have one: "on_part 0 ?f ?ns1 = Some (t, ?ns2)" using s(1) by (simp add: on_part_def)
    have "\<exists>latest' ns'. fold_opt (conv_write_round (r_sqid req) t) [?s..<?e + 1] (t, ?ns2) = Some (latest', ns') \<and> ns_inv cap ns' \<and>
      written ns' = written ?ns2 \<union> set [?s..<?e + 1] \<and> n_nr_parts ns' = n_nr_parts ?ns2 \<and> ns_spp ns' = ns_spp ?ns2 \<and> t \<le> latest' \<and> n_wbuf ns' = n_wbuf ?ns2"
    proof (rule write_rounds_spec [OF st(1)])
      fix l assume "l \<in> set [?s..<?e + 1]"
      then have "l div ?np \<le> ?e div ?np" by (intro div_le_mono) auto
      then show "l div n_nr_parts ?ns2 < cap" using e by simp
    qed
    moreover have se: "set [?s..<?e + 1] = {?s..?e}" by auto
    ultimately obtain la ns' where n: "fold_opt (conv_write_round (r_sqid req) t) [?s..<?e + 1] (t, ?ns2) = Some (la, ns')" "ns_inv cap ns'"
      "written ns' = written ns \<union> {?s..?e}" "n_nr_parts ns' = ?np" "ns_spp ns' = ns_spp ns" "t \<le> la" "n_wbuf ns' = buf" unfolding se w2 st(2) by auto
    let ?r = "\<lparr>ret_ok = True, ret_status = 0, ret_nsecs_target = (if bit (rw_control (r_cmd req)) 14 \<or> \<not> write_early_completion ?spp then la else t)\<rparr>"
    have "conv_write req ns = Some (?r, ns')"
      unfolding unf using range b(1) False one n(1) by simp
    then show thesis using that [of ?r ns'] n ge s(2) b(2) by simp
  qed
qed


subsection \<open>Reads and flushes\<close>

text \<open>Only the timing state changed.\<close>

definition same_ftl :: "conv_ftl \<Rightarrow> conv_ftl \<Rightarrow> bool" where
  "same_ftl x y \<longleftrightarrow> (\<exists>s. y = x\<lparr>c_ssd := s\<rparr> \<and> same_flash (c_ssd x) s \<and> ssd_inv s)"

lemma same_ftl_inv:
  assumes "same_ftl x y" and "conv_inv cap x"
  shows "conv_inv cap y" "wfc y = wfc x" "c_spp y = c_spp x" "mapped_lpns y = mapped_lpns x" "ssd_inv (c_ssd y)"
proof -
  obtain s where s: "y = x\<lparr>c_ssd := s\<rparr>" "same_flash (c_ssd x) s" "ssd_inv s" using assms(1) by (auto simp: same_ftl_def)
  then have e: "sp s = c_spp x" "s_blk s = s_blk (c_ssd x)" by (auto simp: same_flash_def)
  show "conv_inv cap y" unfolding s(1) by (rule conv_inv_ssd [OF assms(2) e s(3)])
  show "wfc y = wfc x" "c_spp y = c_spp x" "mapped_lpns y = mapped_lpns x" "ssd_inv (c_ssd y)"
    using s(1,3) e(1) by (simp_all add: mapped_lpns_def)
qed

lemma read_issue_spec:
  assumes "same_ftl x y" and "ssd_inv (c_ssd y)" and "0 < xfer \<Longrightarrow> mapped_ppa prev"
  shows "\<exists>la y'. conv_read_issue stime (xfer, prev, latest, y) = Some (la, y') \<and> same_ftl x y' \<and> ssd_inv (c_ssd y') \<and> latest \<le> la"
proof (cases "0 < xfer")
  case True
  let ?c = "\<lparr>nc_cmd = NAND_READ, nc_xfer_size = xfer, nc_stime = stime, nc_interleave_pci_dma = True, nc_ppa = prev\<rparr>"
  obtain t s where s: "conv_nand ?c y = Some (t, y\<lparr>c_ssd := s\<rparr>)" "same_flash (c_ssd y) s" "ssd_inv s"
    by (rule conv_nand_spec [OF assms(2), of ?c]) (use assms(3) True in \<open>auto simp: mapped_ppa_def\<close>)
  moreover have "same_ftl x (y\<lparr>c_ssd := s\<rparr>)" using assms(1) s(2,3) same_flash_trans by (fastforce simp: same_ftl_def)
  ultimately show ?thesis using True by (simp add: conv_read_issue_def)
next
  case False
  then show ?thesis using assms by (simp add: conv_read_issue_def)
qed

lemma read_rounds_spec:
  assumes "same_ftl x y" and "ssd_inv (c_ssd y)" and "0 < xfer \<Longrightarrow> mapped_ppa prev"
  shows "\<exists>xf pr la y'. fold_opt (conv_read_round np stime) lpns (xfer, prev, latest, y) = Some (xf, pr, la, y') \<and>
    same_ftl x y' \<and> ssd_inv (c_ssd y') \<and> (0 < xf \<longrightarrow> mapped_ppa pr) \<and> latest \<le> la"
  using assms
proof (induction lpns arbitrary: xfer prev latest y)
  case (Cons lpn lpns)
  let ?cur = "get_maptbl_ent y (lpn div np)"
  obtain xf pr la y1 where r: "conv_read_round np stime lpn (xfer, prev, latest, y) = Some (xf, pr, la, y1)" "same_ftl x y1"
    "ssd_inv (c_ssd y1)" "0 < xf \<Longrightarrow> mapped_ppa pr" "latest \<le> la"
  proof -
    consider (skip) "\<not> mapped_ppa ?cur \<or> \<not> valid_ppa y ?cur" | (join) "mapped_ppa ?cur" "valid_ppa y ?cur" "mapped_ppa prev \<and> is_same_flash_page y ?cur prev"
      | (issue) "mapped_ppa ?cur" "valid_ppa y ?cur" "\<not> (mapped_ppa prev \<and> is_same_flash_page y ?cur prev)" by blast
    then show thesis
    proof cases
      case skip
      then show thesis using that [of xfer prev latest y] Cons.prems by (auto simp: conv_read_round_def Let_def)
    next
      case join
      then show thesis using that [of "xfer + pgsz (c_spp y)" prev latest y] Cons.prems by (auto simp: conv_read_round_def Let_def)
    next
      case issue
      obtain la y' where "conv_read_issue stime (xfer, prev, latest, y) = Some (la, y')" "same_ftl x y'" "ssd_inv (c_ssd y')" "latest \<le> la"
        using read_issue_spec [OF Cons.prems] by blast
      then show thesis using that [of "pgsz (c_spp y')" ?cur la y'] issue by (auto simp: conv_read_round_def Let_def)
    qed
  qed
  from Cons.IH [OF r(2,3), of xf pr la] r(4) obtain xf' pr' la' y' where
    "fold_opt (conv_read_round np stime) lpns (xf, pr, la, y1) = Some (xf', pr', la', y')" "same_ftl x y'" "ssd_inv (c_ssd y')"
    "0 < xf' \<longrightarrow> mapped_ppa pr'" "la \<le> la'" by blast
  then show ?case using r(1,5) by (intro exI [of _ xf'] exI [of _ pr'] exI [of _ la'] exI [of _ y']) simp
qed simp

lemma read_part_spec:
  assumes "conv_inv cap x"
  shows "\<exists>la y. conv_read_part np stime s e latest x = Some (la, y) \<and> same_ftl x y \<and> latest \<le> la"
proof -
  have si: "ssd_inv (c_ssd x)" using assms by (simp add: conv_inv_def flash_inv_def)
  have "same_ftl x x" using si by (auto simp: same_ftl_def intro!: exI [of _ "c_ssd x"])
  from read_rounds_spec [OF this si, of 0 "get_maptbl_ent x (s div np)" np stime "part_lpns np s e" latest] obtain xf pr la y where
    y: "fold_opt (conv_read_round np stime) (part_lpns np s e) (0, get_maptbl_ent x (s div np), latest, x) = Some (xf, pr, la, y)"
    "same_ftl x y" "ssd_inv (c_ssd y)" "0 < xf \<Longrightarrow> mapped_ppa pr" "latest \<le> la" by auto
  from read_issue_spec [OF y(2,3), of xf pr stime la] y(4) obtain la' y' where "conv_read_issue stime (xf, pr, la, y) = Some (la', y')" "same_ftl x y'" "la \<le> la'" by blast
  then show ?thesis using y(1,5) by (intro exI [of _ la'] exI [of _ y']) (simp add: conv_read_part_def)
qed

lemma read_parts_spec:
  assumes "ns_inv cap ns" and "np = n_nr_parts ns"
  shows "\<exists>la ns'. fold_opt (\<lambda>i (latest, ns). on_part ((s + i) mod np) (conv_read_part np stime (s + i) e latest) ns) is (latest, ns) = Some (la, ns') \<and>
    ns_inv cap ns' \<and> written ns' = written ns \<and> n_nr_parts ns' = n_nr_parts ns \<and> ns_spp ns' = ns_spp ns \<and> latest \<le> la \<and> n_wbuf ns' = n_wbuf ns"
  using assms
proof (induction "is" arbitrary: latest ns)
  case (Cons i "is")
  let ?p = "(s + i) mod np"
  have np: "0 < np" using Cons.prems by (simp add: ns_inv_def)
  then have p: "?p < n_nr_parts ns" using Cons.prems(2) by simp
  then have x: "conv_inv cap (load_part ?p ns)" "0 < write_credits (wfc (n_ftls ns ?p))" "c_spp (n_ftls ns ?p) = ns_spp ns"
    using Cons.prems(1) unfolding ns_inv_def by blast+
  obtain la y where y: "conv_read_part np stime (s + i) e latest (load_part ?p ns) = Some (la, y)" "same_ftl (load_part ?p ns) y" "latest \<le> la"
    using read_part_spec [OF x(1)] by blast
  note sy = same_ftl_inv [OF y(2) x(1)]
  have y': "conv_inv cap y" "0 < write_credits (wfc y)" "c_spp y = ns_spp ns" using sy x by simp_all
  note st = ns_inv_store [OF Cons.prems(1) p y']
  have w: "written (store_part ?p y ns) = written ns" by (rule written_same) (use sy(4) in simp)
  have "on_part ?p (conv_read_part np stime (s + i) e latest) ns = Some (la, store_part ?p y ns)" using y(1) by (simp add: on_part_def)
  moreover from Cons.IH [OF st(1), of la] obtain la' ns' where
    "fold_opt (\<lambda>i (latest, ns). on_part ((s + i) mod np) (conv_read_part np stime (s + i) e latest) ns) is (la, store_part ?p y ns) = Some (la', ns')"
    "ns_inv cap ns'" "written ns' = written (store_part ?p y ns)" "n_nr_parts ns' = n_nr_parts (store_part ?p y ns)" "ns_spp ns' = ns_spp (store_part ?p y ns)" "la \<le> la'" "n_wbuf ns' = n_wbuf (store_part ?p y ns)"
    using Cons.prems(2) by auto
  ultimately show ?case using y(3) w st(2) by (intro exI [of _ la'] exI [of _ ns']) simp
qed simp

lemma conv_read_spec:
  assumes inv: "ns_inv cap ns"
  obtains r ns' where "conv_read req ns = Some (r, ns')" and "ns_inv cap ns'" and "written ns' = written ns"
    and "n_nr_parts ns' = n_nr_parts ns" and "ns_spp ns' = ns_spp ns"
    and "ret_ok r \<longleftrightarrow> end_lpn ns req div n_nr_parts ns < tt_pgs (ns_spp ns)" and "ret_ok r \<Longrightarrow> r_nsecs_start req \<le> ret_nsecs_target r"
    and "n_wbuf ns' = n_wbuf ns"
proof (cases "end_lpn ns req div n_nr_parts ns \<ge> tt_pgs (c_spp (n_ftls ns 0))")
  case True
  then show thesis using that [of "\<lparr>ret_ok = False, ret_status = 0, ret_nsecs_target = 0\<rparr>" ns] inv
    by (simp add: conv_read_def Let_def ns_spp_def)
next
  case False
  let ?np = "n_nr_parts ns" and ?s = "start_lpn ns req" and ?e = "end_lpn ns req" and ?spp = "c_spp (n_ftls ns 0)"
  let ?st = "r_nsecs_start req + (if req_nr_lba req * 2 ^ 9 \<le> 4 * 1024 * ?np then fw_4kb_rd_lat ?spp else fw_rd_lat ?spp)"
  from read_parts_spec [OF inv refl, of ?s ?st ?e "[0..<min ?np (?e + 1 - ?s)]" "r_nsecs_start req"] obtain la ns' where
    n: "fold_opt (\<lambda>i (latest, ns). on_part ((?s + i) mod ?np) (conv_read_part ?np ?st (?s + i) ?e latest) ns) [0..<min ?np (?e + 1 - ?s)]
      (r_nsecs_start req, ns) = Some (la, ns')" "ns_inv cap ns'" "written ns' = written ns" "n_nr_parts ns' = ?np" "ns_spp ns' = ns_spp ns" "r_nsecs_start req \<le> la" "n_wbuf ns' = n_wbuf ns"
    by blast
  have "conv_read req ns = Some (\<lparr>ret_ok = True, ret_status = 0, ret_nsecs_target = la\<rparr>, ns')"
    unfolding conv_read_def Let_def using False n(1) by (simp split del: if_split)
  then show thesis using that [of "\<lparr>ret_ok = True, ret_status = 0, ret_nsecs_target = la\<rparr>" ns'] n False by (simp add: ns_spp_def)
qed

lemma conv_flush_spec:
  assumes inv: "ns_inv cap ns"
  obtains r ns' where "conv_flush ns = (r, ns')" and "ns_inv cap ns'" and "written ns' = written ns" and "ret_ok r"
    and "n_nr_parts ns' = n_nr_parts ns" and "ns_spp ns' = ns_spp ns" and "n_clk ns (n_tick ns) \<le> ret_nsecs_target r" and "n_wbuf ns' = n_wbuf ns"
proof -
  let ?g = "\<lambda>i (latest, ns). let (t, ssd) = ssd_next_idle_time (c_ssd (load_part i ns)) in (max latest t, store_part i ((n_ftls ns i)\<lparr>c_ssd := ssd\<rparr>) ns)"
  have step: "\<exists>la' ns'. fold ?g is (la, n) = (la', ns') \<and> ns_inv cap ns' \<and> written ns' = written n \<and> n_nr_parts ns' = n_nr_parts n \<and> ns_spp ns' = ns_spp n \<and> la \<le> la' \<and> n_wbuf ns' = n_wbuf n"
    if "ns_inv cap n" "\<forall>i \<in> set is. i < n_nr_parts n" for "is" la n
    using that
  proof (induction "is" arbitrary: la n)
    case (Cons i "is")
    let ?x = "load_part i n"
    have x: "conv_inv cap ?x" "0 < write_credits (wfc (n_ftls n i))" "c_spp (n_ftls n i) = ns_spp n"
      using Cons.prems unfolding ns_inv_def by (meson list.set_intros(1))+
    let ?s = "(c_ssd ?x)\<lparr>s_tick := Suc (s_tick (c_ssd ?x))\<rparr>"
    obtain t where t: "ssd_next_idle_time (c_ssd ?x) = (t, ?s)" by (simp add: ssd_next_idle_time_def read_clock_def)
    let ?y = "?x\<lparr>c_ssd := ?s\<rparr>"
    have "ssd_inv ?s" using x(1) by (simp add: conv_inv_def flash_inv_def ssd_inv_def)
    from conv_inv_ssd [OF x(1) _ _ this] have y: "conv_inv cap ?y" "0 < write_credits (wfc ?y)" "c_spp ?y = ns_spp n"
      using x(2,3) by simp_all
    have yy: "(n_ftls n i)\<lparr>c_ssd := ?s\<rparr> = ?y" by (simp add: load_part_def)
    have i: "i < n_nr_parts n" using Cons.prems(2) by simp
    note st = ns_inv_store [OF Cons.prems(1) i y]
    have w: "written (store_part i ?y n) = written n" by (rule written_same) (simp add: mapped_lpns_def)
    have "fold ?g (i # is) (la, n) = fold ?g is (max la t, store_part i ?y n)" using t yy by simp
    moreover from Cons.IH [OF st(1), of "max la t"] obtain la' ns' where "fold ?g is (max la t, store_part i ?y n) = (la', ns')" "ns_inv cap ns'"
      "written ns' = written (store_part i ?y n)" "n_nr_parts ns' = n_nr_parts (store_part i ?y n)" "ns_spp ns' = ns_spp (store_part i ?y n)" "max la t \<le> la'" "n_wbuf ns' = n_wbuf (store_part i ?y n)"
      using Cons.prems(2) by auto
    ultimately show ?case using w st(2) by (intro exI [of _ la'] exI [of _ ns']) simp
  qed simp
  let ?n1 = "ns\<lparr>n_tick := Suc (n_tick ns)\<rparr>"
  have i1: "ns_inv cap ?n1" by (rule ns_inv_fields [OF _ _ _ inv]) simp_all
  from step [OF i1, of "[0..<n_nr_parts ns]" "n_clk ns (n_tick ns)"] obtain la ns' where
    "fold ?g [0..<n_nr_parts ns] (n_clk ns (n_tick ns), ?n1) = (la, ns')" "ns_inv cap ns'" "written ns' = written ?n1"
    "n_nr_parts ns' = n_nr_parts ?n1" "ns_spp ns' = ns_spp ?n1" "n_clk ns (n_tick ns) \<le> la" "n_wbuf ns' = n_wbuf ?n1" by auto
  then show thesis using that [of "\<lparr>ret_ok = True, ret_status = 0, ret_nsecs_target = la\<rparr>" ns']
    by (simp add: conv_flush_def Let_def written_def ns_spp_def)
qed

end
