(* ===== verification/Conv_Device.thy ===== *)
theory Conv_Device
  imports Conv_Cmds
begin

text \<open>
  The conventional device as a whole: a fresh namespace satisfies the invariant, for the supported model
  and every size; the runs of the device are a step relation over commands and buffer releases; the
  properties of the layer and of its victim queue.
\<close>

section \<open>A fresh namespace\<close>

lemma init_ftl_inv:
  assumes g: "conv_geo (sp s)" and si: "ssd_inv s" and fresh: "\<And>p. get_blk s p = ssd_init_nand_blk (sp s)"
    and cap: "cap + 4 * pgs_per_line (sp s) < blks_per_pl (sp s) * pgs_per_line (sp s)" "cap \<le> tt_pgs (sp s)" and hi: "gc_thres_lines_high c = 2"
  obtains x where "conv_init_ftl mem garbage c s = Some x" and "conv_inv cap x" and "0 < write_credits (wfc x)" and "mapped_lpns x = {}" and "c_ssd x = s"
    and "space x = blks_per_pl (sp s) * pgs_per_line (sp s)"
proof -
  let ?spp = "sp s" and ?T = "blks_per_pl (sp s)" and ?P = "pgs_per_line (sp s)"
  have P: "0 < ?P" by (rule line_pos [OF g])
  have "4 * ?P < ?T * ?P" using cap(1) by linarith
  then have T: "4 < ?T" by simp
  have TT: "?T < 2 ^ 32" "tt_lines ?spp = ?T" using g by (simp_all add: conv_geo_def)
  have upt: "[0..<?T] = 0 # 1 # [2..<?T]" using T by (simp add: upt_conv_Cons numeral_2_eq_2)
  have d: "dec32 (dec32 ?T) = ?T - 2" using T TT(1) by (simp add: dec32_pos)
  define w where "w l = \<lparr>wp_curline = l, wp_ch = 0, wp_lun = 0, wp_pg = 0, wp_blk = l, wp_pl = 0\<rparr>" for l
  define m where "m = \<lparr>lines = (\<lambda>i. \<lparr>ln_id = i, ln_ipc = 0, ln_vpc = 0, ln_pos = 0\<rparr>), free_line_list = [2..<?T],
    victim_line_pq = pqueue_init mem ?T, full_line_list = [], lm_tt_lines = ?T, free_line_cnt = ?T - 2, victim_line_cnt = 0, full_line_cnt = 0\<rparr>"
  define x where "x = \<lparr>c_ssd = s, cp = c, maptbl = init_maptbl, rmap = init_rmap, c_wp = w 0, c_gc_wp = w 1, lm = m,
    wfc = init_write_flow_control ?spp, c_gc_endtime = (\<lambda>_ _. 0)\<rparr>"
  have code: "conv_init_ftl mem garbage c s = Some x"
    using TT(2) d by (simp add: conv_init_ftl_def init_lines_def Let_def prepare_write_pointer_def get_next_free_line_def set_wp_def upt x_def m_def w_def)
  have free: "get_pg s p = PG_FREE" for p using fresh by (simp add: get_pg_def ssd_init_nand_blk_def)
  have zero: "cnt (get_pg s) a X = 0" if "a \<noteq> PG_FREE" for a X by (rule cnt_zero) (use free that in simp)
  have v: "victims m = {}" by (simp add: m_def vq.pq_elems_def vq.elems_def pqueue_init_def)
  have "lists_ok ?T [0, 1] m"
  proof -
    have "vq.pq_inv (victim_line_pq m, lines m)" by (simp add: m_def vq.pq_inv_def vq.heap_def vq.pos_ok_def pqueue_init_def)
    moreover have "{2..<?T} \<union> {0, 1} = {..<?T}" using T by auto
    ultimately show ?thesis using v unfolding lists_ok_def by (auto simp: m_def pqueue_init_def)
  qed
  moreover have "roles_ok ?spp (get_pg s) m" using free v by (simp add: roles_ok_def) (simp add: m_def)
  moreover have "wp_ok ?spp (get_pg s) (w l)" if "l < ?T" for l
    using that geo_pos [OF g] free by (simp add: wp_at_def wp_range_def w_def page_no_def)
  moreover have "blk_counts s {}" using fresh zero by (simp add: blk_counts_def ssd_init_nand_blk_def)
  moreover have "line_counts ?spp (get_pg s) (lines m) {}" using zero by (simp add: line_counts_def m_def)
  ultimately have fi: "flash_inv [] x" using g si T by (simp add: flash_inv_def x_def) (simp add: w_def)
  have vp: "valid_pages x = {}" using free by (simp add: valid_pages_def x_def)
  have mp: "mapped_lpns x = {}" by (simp add: mapped_lpns_def x_def init_maptbl_def)
  have tab: "tables_ok x" unfolding vp by (simp add: map_ok_def x_def init_maptbl_def)
  have "space x = (?T - 2) * ?P + 2 * ?P" by (simp add: space_def x_def m_def w_def page_no_def)
  moreover have "(?T - 2) * ?P + 2 * ?P = ?T * ?P" using T by (simp add: diff_mult_distrib)
  ultimately have sp: "space x = ?T * ?P" by simp
  then have "conv_inv cap x" using fi tab mp cap hi P T by (simp add: conv_inv_def) (simp add: x_def init_write_flow_control_def)
  moreover have "0 < write_credits (wfc x)" "c_ssd x = s" using P by (simp_all add: x_def init_write_flow_control_def)
  ultimately show thesis using that [OF code] mp sp by blast
qed

text \<open>The geometry of the supported model: eight channels in four partitions, two dies per channel.\<close>

lemma samsung_geo:
  assumes sz: "4 \<le> sz" "sz \<le> 2 ^ 45" and spp: "ssd_init_params SAMSUNG_970PRO sz 4 = Some spp"
  defines "opb \<equiv> DIV_ROUND_UP (DIV_ROUND_UP (sz div 4) 32768) 32768"
  shows "conv_geo spp" "blks_per_pl spp = 8192" "pgs_per_line spp = 32 * opb" "tt_pgs spp = 8192 * (32 * opb)" "secs_per_pg spp = 8"
    "sz div 4 \<le> opb * 2 ^ 30" "0 < opb"
    "max_ch_xfer_size spp = 16384" "ch_bandwidth spp = 800" "pcie_bandwidth spp = 3360" "write_buffer_size spp = 2 ^ 20"
proof -
  have f: "nchs spp = 2" "luns_per_ch spp = 2" "pls_per_lun spp = 1" "blks_per_pl spp = 8192" "tt_lines spp = 8192" "pgs_per_blk spp = 8 * opb"
    "pgs_per_oneshotpg spp = 8" "oneshotpgs_per_blk spp = opb" "pgs_per_flashpg spp = 8" "flashpgs_per_blk spp = opb" "pgs_per_line spp = 32 * opb"
    "pgs_per_pl spp = 8 * opb * 8192" "pgs_per_lun spp = 8 * opb * 8192" "pgs_per_ch spp = 8 * opb * 8192 * 2" "tt_pgs spp = 8 * opb * 8192 * 4"
    "pgsz spp = 4096" "secs_per_pg spp = 8" "max_ch_xfer_size spp = 16384" "ch_bandwidth spp = 800" "pcie_bandwidth spp = 3360" "write_buffer_size spp = 2 ^ 20"
    using spp by (auto simp: ssd_init_params_def Let_def SAMSUNG_970PRO_def opb_def)
  have b1: "sz div 4 \<le> DIV_ROUND_UP (sz div 4) 32768 * 32768" by (rule DIV_ROUND_UP_mult) simp
  have b2: "DIV_ROUND_UP (sz div 4) 32768 \<le> opb * 32768" unfolding opb_def by (rule DIV_ROUND_UP_mult) simp
  then show le: "sz div 4 \<le> opb * 2 ^ 30" using b1 by simp
  have "0 < sz div 4" using sz(1) by (simp add: div_greater_zero_iff)
  then show pos: "0 < opb" using le by (cases "opb = 0") auto
  have up: "opb \<le> 8192"
  proof -
    have "DIV_ROUND_UP (sz div 4) 32768 \<le> 2 ^ 28" using sz(2) unfolding DIV_ROUND_UP_def by simp
    then show ?thesis unfolding opb_def DIV_ROUND_UP_def [of _ 32768] by simp
  qed
  show "conv_geo spp" using f pos up by (simp add: conv_geo_def)
  show "blks_per_pl spp = 8192" "pgs_per_line spp = 32 * opb" "tt_pgs spp = 8192 * (32 * opb)" "secs_per_pg spp = 8"
    "max_ch_xfer_size spp = 16384" "ch_bandwidth spp = 800" "pcie_bandwidth spp = 3360" "write_buffer_size spp = 2 ^ 20" using f by simp_all
qed

text \<open>The pages of one partition that a host sees.\<close>

definition logical_cap :: "nat \<Rightarrow> nat" where
  "logical_cap sz = (sz * 100 div 107) div 4096 div 4 + 1"

lemma logical_cap_fits:
  assumes "sz div 4 \<le> opb * 2 ^ 30" and "0 < opb"
  shows "logical_cap sz + 4 * (32 * opb) < 8192 * (32 * opb)"
proof -
  have s: "sz \<le> 4 * (opb * 2 ^ 30) + 3" using assms(1) by linarith
  define a b d where "a = sz * 100 div 107" and "b = a div 4096" and "d = b div 4"
  have "107 * a \<le> sz * 100" "4096 * b \<le> a" "4 * d \<le> b" by (simp_all add: a_def b_def d_def)
  then have "1753088 * d \<le> 100 * (4294967296 * opb + 3)" using s by simp
  moreover have "logical_cap sz = d + 1" by (simp add: logical_cap_def a_def b_def d_def)
  ultimately show ?thesis using assms(2) by simp
qed

lemma init_namespace_inv:
  assumes sz: "4 \<le> sz" "sz \<le> 2 ^ 45"
  obtains ns where "conv_init_namespace mem garbage SAMSUNG_970PRO 7 4 sz clk = Some ns" and "ns_inv (logical_cap sz) ns"
    and "written ns = {}" and "n_nr_parts ns = 4" and "secs_per_pg (ns_spp ns) = 8" and "n_size ns = sz * 100 div 107"
    and "b_size (n_wbuf ns) = 2 ^ 20"
proof -
  have "\<exists>spp. ssd_init_params SAMSUNG_970PRO sz 4 = Some spp" by (simp add: ssd_init_params_def Let_def SAMSUNG_970PRO_def)
  then obtain spp where spp: "ssd_init_params SAMSUNG_970PRO sz 4 = Some spp" by blast
  note g = samsung_geo [OF sz spp]
  let ?s = "ssd_init spp clk"
  have si: "ssd_inv ?s"
    by (rule ssd_init_inv) (simp_all add: g(8-10) BANDWIDTH_TO_MAX_CREDITS_def UNIT_TIME_INTERVAL_def UNIT_XFER_SIZE_def UNIT_XFER_CREDITS_def)
  have sp: "sp ?s = spp" by (simp add: ssd_init_def)
  note fits = logical_cap_fits [OF g(6,7)]
  obtain x where x: "conv_init_ftl mem garbage (conv_init_params 7) ?s = Some x" "conv_inv (logical_cap sz) x" "0 < write_credits (wfc x)"
    "mapped_lpns x = {}" "c_ssd x = ?s"
    by (rule init_ftl_inv [of ?s "logical_cap sz" "conv_init_params 7"])
      (use g(1-4) si fits in \<open>simp_all add: sp conv_init_params_def, simp_all add: ssd_init_def get_blk_def\<close>)
  let ?ns = "\<lparr>n_ftls = (\<lambda>_. x), n_nr_parts = 4, n_size = sz * 100 div 107, n_pcie = s_pcie ?s, n_wbuf = s_wbuf ?s, n_clk = clk, n_tick = 0, n_sched = []\<rparr>"
  have "load_part i ?ns = x" for i using x(5) by (simp add: load_part_def ssd_init_def)
  then have "ns_inv (logical_cap sz) ?ns" using x(2,3) by (simp add: ns_inv_def ns_spp_def)
  moreover have "conv_init_namespace mem garbage SAMSUNG_970PRO 7 4 sz clk = Some ?ns"
    using spp x(1) by (simp add: conv_init_namespace_def Let_def conv_init_params_def)
  moreover have "written ?ns = {}" using x(4) by (simp add: written_def)
  moreover have "secs_per_pg (ns_spp ?ns) = 8" using x(5) sp g(5) by (simp add: ns_spp_def)
  moreover have "b_size (n_wbuf ?ns) = 2 ^ 20" using g(11) by (simp add: ssd_init_def buffer_init_def)
  ultimately show thesis using that by simp
qed


section \<open>Runs\<close>

text \<open>A command inside the advertised size, of at most the write buffer's size.\<close>

definition in_range :: "nat \<Rightarrow> conv_request \<Rightarrow> bool" where
  "in_range size_lim req \<longleftrightarrow> (req_lba req + req_nr_lba req) * 2 ^ 9 \<le> size_lim \<and> req_bytes req \<le> 2 ^ 20"

text \<open>The states a namespace goes through: commands, and releases of the write buffer by the I/O worker.\<close>

inductive conv_reach :: "nat \<Rightarrow> conv_ns \<Rightarrow> conv_ns \<Rightarrow> bool" for size_lim ns0 where
  start: "conv_reach size_lim ns0 ns0"
| command: "conv_reach size_lim ns0 ns \<Longrightarrow> in_range size_lim req \<Longrightarrow> conv_proc_nvme_io_cmd req ret ns = Some (r, ns') \<Longrightarrow> conv_reach size_lim ns0 ns'"
| release: "conv_reach size_lim ns0 ns \<Longrightarrow> conv_reach size_lim ns0 (ns\<lparr>n_wbuf := buffer_release (n_wbuf ns) n\<rparr>)"

definition dev_ok :: "nat \<Rightarrow> conv_ns \<Rightarrow> bool" where
  "dev_ok cap ns \<longleftrightarrow> ns_inv cap ns \<and> n_nr_parts ns = 4 \<and> secs_per_pg (ns_spp ns) = 8 \<and> b_size (n_wbuf ns) = 2 ^ 20"

lemma in_range_lpn:
  assumes "in_range size_lim req" and "size_lim \<le> 2 ^ 45" and "n_nr_parts ns = 4" and "secs_per_pg (ns_spp ns) = 8"
  shows "end_lpn ns req div n_nr_parts ns < size_lim div 4096 div 4 + 1" "end_lpn ns req = (req_lba req + req_nr_lba req - 1) div 8"
proof -
  let ?a = "req_lba req + req_nr_lba req - 1"
  have n: "0 < req_nr_lba req" by (simp add: req_nr_lba_def)
  have le: "(?a + 1) * 512 \<le> size_lim" using assms(1) n by (simp add: in_range_def)
  then have "?a mod 2 ^ 64 = ?a" using assms(2) by (intro mod_less) simp
  then show eq: "end_lpn ns req = ?a div 8" using assms(4) by (simp add: end_lpn_def ns_spp_def)
  have "?a div 8 \<le> size_lim div 4096"
  proof -
    have "?a div 8 * 4096 \<le> ?a * 512" by simp
    then have "?a div 8 * 4096 \<le> size_lim" using le by simp
    then show ?thesis by (simp add: less_eq_div_iff_mult_less_eq)
  qed
  then have "?a div 8 div 4 \<le> size_lim div 4096 div 4" by (rule div_le_mono)
  then show "end_lpn ns req div n_nr_parts ns < size_lim div 4096 div 4 + 1" using eq assms(3) by simp
qed

text \<open>A command on a device that is in order.\<close>

lemma cmd_spec:
  assumes ok: "dev_ok cap ns" and r: "in_range size_lim req" and size_lim: "size_lim \<le> 2 ^ 45" "size_lim div 4096 div 4 + 1 \<le> cap"
  obtains res ns' where "conv_proc_nvme_io_cmd req ret ns = Some (res, ns')" and "dev_ok cap ns'"
    and "written ns' = (if c_opcode (r_cmd req) = nvme_cmd_write \<and> ret_ok res then written ns \<union> {start_lpn ns req..end_lpn ns req} else written ns)"
    and "c_opcode (r_cmd req) = nvme_cmd_write \<Longrightarrow> ret_ok res \<longleftrightarrow> req_bytes req \<le> unat (b_remaining (n_wbuf ns))"
    and "c_opcode (r_cmd req) = nvme_cmd_read \<Longrightarrow> ret_ok res"
    and "ret_ok res \<Longrightarrow> c_opcode (r_cmd req) \<in> {nvme_cmd_write, nvme_cmd_read} \<Longrightarrow> r_nsecs_start req \<le> ret_nsecs_target res"
proof -
  have inv: "ns_inv cap ns" and np: "n_nr_parts ns = 4" and spp: "secs_per_pg (ns_spp ns) = 8" and b: "b_size (n_wbuf ns) = 2 ^ 20" using ok by (auto simp: dev_ok_def)
  have e: "end_lpn ns req div n_nr_parts ns < cap" using in_range_lpn(1) [OF r size_lim(1) np spp] size_lim(2) by simp
  have "conv_inv cap (load_part 0 ns)" using inv np by (simp add: ns_inv_def)
  then have "cap \<le> tt_pgs (ns_spp ns)" by (simp add: conv_inv_def ns_spp_def)
  then have et: "end_lpn ns req div n_nr_parts ns < tt_pgs (ns_spp ns)" using e by simp
  have ops: "nvme_cmd_read \<noteq> nvme_cmd_write" "nvme_cmd_flush \<noteq> nvme_cmd_write" "nvme_cmd_flush \<noteq> nvme_cmd_read"
    by (simp_all add: nvme_cmd_read_def nvme_cmd_write_def nvme_cmd_flush_def)
  consider (w) "c_opcode (r_cmd req) = nvme_cmd_write" | (rd) "c_opcode (r_cmd req) = nvme_cmd_read" | (fl) "c_opcode (r_cmd req) = nvme_cmd_flush"
    | (other) "c_opcode (r_cmd req) \<notin> {nvme_cmd_write, nvme_cmd_read, nvme_cmd_flush}" by blast
  then show thesis
  proof cases
    case w
    have "req_bytes req \<le> unat (b_size (n_wbuf ns))" using r b by (simp add: in_range_def)
    from conv_write_spec [OF inv e this] obtain res ns' where "conv_write req ns = Some (res, ns')" "ns_inv cap ns'" "n_nr_parts ns' = n_nr_parts ns"
      "ns_spp ns' = ns_spp ns" "ret_ok res \<longleftrightarrow> req_bytes req \<le> unat (b_remaining (n_wbuf ns))"
      "written ns' = (if ret_ok res then written ns \<union> {start_lpn ns req..end_lpn ns req} else written ns)"
      "ret_ok res \<longrightarrow> r_nsecs_start req \<le> ret_nsecs_target res" "b_size (n_wbuf ns') = b_size (n_wbuf ns)" by metis
    then show thesis using that [of res ns'] w ops np spp b by (simp add: conv_proc_nvme_io_cmd_def dev_ok_def)
  next
    case rd
    from conv_read_spec [OF inv] obtain res ns' where "conv_read req ns = Some (res, ns')" "ns_inv cap ns'" "written ns' = written ns"
      "n_nr_parts ns' = n_nr_parts ns" "ns_spp ns' = ns_spp ns" "ret_ok res \<longleftrightarrow> end_lpn ns req div n_nr_parts ns < tt_pgs (ns_spp ns)"
      "ret_ok res \<longrightarrow> r_nsecs_start req \<le> ret_nsecs_target res" "n_wbuf ns' = n_wbuf ns" by metis
    then show thesis using that [of res ns'] rd ops np spp b et by (simp add: conv_proc_nvme_io_cmd_def dev_ok_def)
  next
    case fl
    from conv_flush_spec [OF inv] obtain res ns' where "conv_flush ns = (res, ns')" "ns_inv cap ns'" "written ns' = written ns"
      "n_nr_parts ns' = n_nr_parts ns" "ns_spp ns' = ns_spp ns" "n_wbuf ns' = n_wbuf ns" by metis
    then show thesis using that [of res ns'] fl ops np spp b by (simp add: conv_proc_nvme_io_cmd_def dev_ok_def)
  next
    case other
    then show thesis using that [of "ret\<lparr>ret_ok := True\<rparr>" ns] ok by (simp add: conv_proc_nvme_io_cmd_def)
  qed
qed

lemma reach_ok:
  assumes "conv_reach size_lim ns0 ns" and "dev_ok cap ns0" and "size_lim \<le> 2 ^ 45" "size_lim div 4096 div 4 + 1 \<le> cap"
  shows "dev_ok cap ns"
  using assms(1)
proof (induction rule: conv_reach.induct)
  case start
  then show ?case using assms(2) .
next
  case (command ns req ret r ns')
  show ?case
  proof (rule cmd_spec [OF command.IH command.hyps(2) assms(3,4)])
    fix res ns'' assume "conv_proc_nvme_io_cmd req ret ns = Some (res, ns'')" "dev_ok cap ns''"
    then show ?case using command.hyps(3) by simp
  qed
next
  case (release ns n)
  then have "ns_inv cap ns" by (simp add: dev_ok_def)
  then have "ns_inv cap (ns\<lparr>n_wbuf := buffer_release (n_wbuf ns) n\<rparr>)" by (rule ns_inv_fields [rotated 3]) simp_all
  then show ?case using release.IH by (simp add: dev_ok_def ns_spp_def buffer_release_def)
qed

lemma device_reach:
  assumes "4 \<le> sz" "sz \<le> 2 ^ 45" "conv_init_namespace mem garbage SAMSUNG_970PRO 7 4 sz clk = Some ns0" "conv_reach (n_size ns0) ns0 ns"
  shows "dev_ok (logical_cap sz) ns" "n_size ns0 \<le> 2 ^ 45" "n_size ns0 div 4096 div 4 + 1 \<le> logical_cap sz"
proof -
  from init_namespace_inv [OF assms(1,2), of mem garbage clk] have i: "dev_ok (logical_cap sz) ns0" "n_size ns0 = sz * 100 div 107"
    using assms(3) by (auto simp: dev_ok_def)
  have "sz * 100 div 107 \<le> sz" by simp
  then show l: "n_size ns0 \<le> 2 ^ 45" "n_size ns0 div 4096 div 4 + 1 \<le> logical_cap sz" using i(2) assms(2) by (simp_all add: logical_cap_def)
  show "dev_ok (logical_cap sz) ns" by (rule reach_ok [OF assms(4) i(1) l])
qed

section \<open>Properties\<close>

text \<open>
  C16: the conventional device never gets stuck. Starting from a fresh namespace of the supported model, of
  any size up to 32 TiB, after any sequence of commands inside the advertised size and any releases of the
  write buffer, every further command inside the size completes: no assertion fails, no null line is
  used, garbage collection finds a victim and room for its pages, and every loop ends.
\<close>
theorem conv_device_never_stuck:
  assumes "4 \<le> sz" "sz \<le> 2 ^ 45" "conv_init_namespace mem garbage SAMSUNG_970PRO 7 4 sz clk = Some ns0"
    and "conv_reach (n_size ns0) ns0 ns" and "in_range (n_size ns0) req"
  shows "\<exists>res ns'. conv_proc_nvme_io_cmd req ret ns = Some (res, ns')"
  by (rule cmd_spec [OF device_reach(1) [OF assms(1-4)] assms(5) device_reach(2,3) [OF assms(1-4)]]) blast

text \<open>
  C17: the device implements a set of written logical pages. A write that finds room in the write buffer adds
  exactly the pages it covers, in whatever partition they lie and whether or not it triggers garbage
  collection; a write that does not, a read, a flush and any other command change nothing.
\<close>
theorem conv_refines_written_pages:
  assumes "4 \<le> sz" "sz \<le> 2 ^ 45" "conv_init_namespace mem garbage SAMSUNG_970PRO 7 4 sz clk = Some ns0"
    and "conv_reach (n_size ns0) ns0 ns" and "in_range (n_size ns0) req"
  shows "\<exists>res ns'. conv_proc_nvme_io_cmd req ret ns = Some (res, ns') \<and>
    written ns' = (if c_opcode (r_cmd req) = nvme_cmd_write \<and> req_bytes req \<le> unat (b_remaining (n_wbuf ns))
      then written ns \<union> {req_lba req div 8..(req_lba req + req_nr_lba req - 1) div 8} else written ns)"
proof -
  have ok: "dev_ok (logical_cap sz) ns" by (rule device_reach(1) [OF assms(1-4)])
  then have "n_nr_parts ns = 4" "secs_per_pg (ns_spp ns) = 8" by (auto simp: dev_ok_def)
  then have lpns: "start_lpn ns req = req_lba req div 8" "end_lpn ns req = (req_lba req + req_nr_lba req - 1) div 8"
    using in_range_lpn(2) [OF assms(5) device_reach(2) [OF assms(1-4)]] by (simp_all add: start_lpn_def ns_spp_def)
  show ?thesis
  proof (rule cmd_spec [OF ok assms(5) device_reach(2,3) [OF assms(1-4)]])
    fix res ns' assume "conv_proc_nvme_io_cmd req ret ns = Some (res, ns')"
      "written ns' = (if c_opcode (r_cmd req) = nvme_cmd_write \<and> ret_ok res then written ns \<union> {start_lpn ns req..end_lpn ns req} else written ns)"
      "c_opcode (r_cmd req) = nvme_cmd_write \<Longrightarrow> ret_ok res \<longleftrightarrow> req_bytes req \<le> unat (b_remaining (n_wbuf ns))"
    then show ?thesis unfolding lpns by auto
  qed
qed

text \<open>
  C18: the mapping tables of every partition stay inverse to each other: each mapped logical page has its own
  valid physical page, each valid physical page belongs to the logical page that the reverse table names,
  and the counters of a line are the numbers of its valid and invalid pages.
\<close>
theorem conv_tables_inverse:
  assumes "4 \<le> sz" "sz \<le> 2 ^ 45" "conv_init_namespace mem garbage SAMSUNG_970PRO 7 4 sz clk = Some ns0"
    and "conv_reach (n_size ns0) ns0 ns" and "i < 4"
  defines "x \<equiv> n_ftls ns i"
  shows "(\<forall>lpn < tt_pgs (c_spp x). maptbl x lpn \<noteq> UNMAPPED_PPA \<longrightarrow> pst x (maptbl x lpn) = PG_VALID \<and> rmap x (pgidx (c_spp x) (maptbl x lpn)) = lpn) \<and>
    (\<forall>p. page_ok (c_spp x) p \<and> pst x p = PG_VALID \<longrightarrow> maptbl x (rmap x (pgidx (c_spp x) p)) = p) \<and>
    (\<forall>l < tt_lines (c_spp x). ln_vpc (lines (lm x) l) = card {p \<in> line_pages (c_spp x) l. pst x p = PG_VALID} \<and>
      ln_ipc (lines (lm x) l) = card {p \<in> line_pages (c_spp x) l. pst x p = PG_INVALID})"
proof -
  have "conv_inv (logical_cap sz) (load_part i ns)" using device_reach(1) [OF assms(1-4)] assms(5) by (simp add: dev_ok_def ns_inv_def)
  then have inv: "flash_inv [] (load_part i ns)" "tables_ok (load_part i ns)" by (simp_all add: conv_inv_def)
  have e: "pst (load_part i ns) = pst x" "lm (load_part i ns) = lm x" "rmap (load_part i ns) = rmap x" "maptbl (load_part i ns) = maptbl x"
    by (auto simp: load_part_def x_def get_pg_def get_blk_def fun_eq_iff)
  have s: "c_spp (load_part i ns) = c_spp x" by (simp add: x_def)
  have "valid_pages (load_part i ns) = valid_pages x" unfolding valid_pages_def e s ..
  then have t: "map_ok (c_spp x) (valid_pages x) (maptbl x) (rmap x)" using inv(2) unfolding e s by simp
  have l: "line_counts (c_spp x) (pst x) (lines (lm x)) {}" "tt_lines (c_spp x) = blks_per_pl (c_spp x)"
    using inv(1) unfolding flash_inv_def e s by (simp_all add: conv_geo_def)
  show ?thesis
  proof (intro conjI allI impI)
    fix lpn assume "lpn < tt_pgs (c_spp x)" "maptbl x lpn \<noteq> UNMAPPED_PPA"
    then show "pst x (maptbl x lpn) = PG_VALID" "rmap x (pgidx (c_spp x) (maptbl x lpn)) = lpn" using t by (auto simp: map_ok_def valid_pages_def)
  next
    fix p assume "page_ok (c_spp x) p \<and> pst x p = PG_VALID"
    then show "maptbl x (rmap x (pgidx (c_spp x) p)) = p" using t by (auto simp: map_ok_def valid_pages_def)
  next
    fix j assume "j < tt_lines (c_spp x)"
    then show "ln_vpc (lines (lm x) j) = card {p \<in> line_pages (c_spp x) j. pst x p = PG_VALID}"
      "ln_ipc (lines (lm x) j) = card {p \<in> line_pages (c_spp x) j. pst x p = PG_INVALID}" using l by (auto simp: line_counts_def cnt_def)
  qed
qed

text \<open>
  C19: a forced garbage collection with a victim at hand and two lines' worth of free pages succeeds: it
  empties and frees the line with the fewest valid pages, the free pages grow by the invalid pages that
  line had, the same logical pages stay mapped, and a page outside that line stays where it is.
\<close>
theorem do_gc_frees_best_victim:
  assumes "flash_inv [] x" and "tables_ok x" and "victims (lm x) \<noteq> {}" and "2 * pgs_per_line (c_spp x) \<le> space x"
  shows "\<exists>v x'. do_gc True x = Some (True, x') \<and> flash_inv [] x' \<and> tables_ok x' \<and> v \<in> victims (lm x) \<and>
    (\<forall>i \<in> victims (lm x). ln_vpc (lines (lm x) v) \<le> ln_vpc (lines (lm x) i)) \<and> v \<in> set (free_line_list (lm x')) \<and>
    space x' = space x + ln_ipc (lines (lm x) v) \<and> 0 < ln_ipc (lines (lm x) v) \<and> mapped_lpns x' = mapped_lpns x \<and>
    (\<forall>lpn. maptbl x lpn \<notin> line_pages (c_spp x) v \<longrightarrow> maptbl x' lpn = maptbl x lpn)"
  using do_gc_spec [OF assms] by (metis (no_types, lifting))

text \<open>
  C20: taking the head off the victim queue gives a line with the fewest valid pages, leaves the queue a
  heap of the other lines with every line's recorded position right, and touches nothing but positions.
\<close>
theorem victim_queue_pop:
  assumes "vq.pq_inv (q, ls)" and "1 < pq_size q"
  shows "\<exists>v q' ls'. pqueue_pop victim_ops (q, ls) = (Some v, q', ls') \<and> pqueue_peek q = Some v \<and> v \<in> vq.pq_elems (q, ls) \<and>
    (\<forall>i \<in> vq.pq_elems (q, ls). ln_vpc (ls v) \<le> ln_vpc (ls i)) \<and>
    vq.pq_inv (q', ls') \<and> vq.pq_elems (q', ls') = vq.pq_elems (q, ls) - {v} \<and> pqueue_size q' = pqueue_size q - 1 \<and>
    (\<forall>i. ln_vpc (ls' i) = ln_vpc (ls i) \<and> ln_ipc (ls' i) = ln_ipc (ls i) \<and> ln_id (ls' i) = ln_id (ls i))"
proof -
  obtain q' ls' where p: "pqueue_pop victim_ops (q, ls) = (Some (pq_d q 1), q', ls')" "vq.dropped 1 (q, ls) (q', ls')"
    using vq.pop_dropped [OF assms] by auto
  then have d: "vq.pq_inv (q', ls')" "vq.pq_elems (q', ls') = vq.pq_elems (q, ls) - {pq_d q 1}" "vq.mem_frame ls ls' (vq.pq_elems (q, ls))"
    "pq_size q' = pq_size q - 1" by (simp_all add: vq.dropped_def)
  have "ln_vpc (ls (pq_d q 1)) \<le> ln_vpc (ls i)" if "i \<in> vq.pq_elems (q, ls)" for i using vq.root_best [OF assms(1) that] by simp
  moreover have "pq_d q 1 \<in> vq.pq_elems (q, ls)" using assms(2) by (auto simp: vq.pq_elems_def vq.elems_def)
  ultimately show ?thesis using p(1) d(1,2,4) vq_frame(1-3) [OF d(3)] assms(2)
    by (intro exI [of _ "pq_d q 1"] exI [of _ q'] exI [of _ ls']) (auto simp: pqueue_peek_def pqueue_size_def)
qed

text \<open>
  the recursive validity check of the priority queue decides the heap property: it succeeds exactly
  when no line has fewer valid pages than the line above it.
\<close>
theorem pqueue_is_valid_iff:
  "pqueue_is_valid victim_ops (q, ls) \<longleftrightarrow>
    (\<forall>j. 2 \<le> j \<and> j < pq_size q \<longrightarrow> ln_vpc (ls (pq_d q (j div 2))) \<le> ln_vpc (ls (pq_d q j)))"
  by (auto simp: vq.valid_iff_heap vq.heap_def vq.above_def not_less)


section \<open>Concrete runs\<close>

text \<open>A write of eight sectors at the start of a device of a gibibyte.\<close>

definition demo_conv_write :: conv_request where
  "demo_conv_write = \<lparr>r_cmd = \<lparr>c_opcode = nvme_cmd_write, c_flags = 0, c_command_id = 1, c_nsid = 1, c_cdw2 = 0, c_cdw3 = 0,
     c_metadata = 0, c_prp1 = 0, c_prp2 = 0, c_cdw10 = 0, c_cdw11 = 0, c_cdw12 = 7, c_cdw13 = 0, c_cdw14 = 0, c_cdw15 = 0\<rparr>,
     r_sqid = 1, r_nsecs_start = 100\<rparr>"

definition demo_ret :: conv_result where
  "demo_ret = \<lparr>ret_ok = True, ret_status = 0, ret_nsecs_target = 0\<rparr>"

definition demo_wp :: write_pointer where
  "demo_wp = \<lparr>wp_curline = 0, wp_ch = 0, wp_lun = 0, wp_pg = 0, wp_blk = 0, wp_pl = 0\<rparr>"

lemma demo_conv_write_lba: "req_lba demo_conv_write = 0" "req_nr_lba demo_conv_write = 8"
  by (simp_all add: req_lba_def req_nr_lba_def demo_conv_write_def rw_slba_def rw_length_def)

lemma demo_conv_ns:
  obtains ns where "conv_init_namespace (\<lambda>_. 0) demo_wp SAMSUNG_970PRO 7 4 (2 ^ 30) (\<lambda>_. 0) = Some ns"
    and "b_size (n_wbuf ns) = 2 ^ 20" and "written ns = {}" and "in_range (n_size ns) demo_conv_write"
proof -
  obtain ns where "conv_init_namespace (\<lambda>_. 0) demo_wp SAMSUNG_970PRO 7 4 (2 ^ 30) (\<lambda>_. 0) = Some ns" "n_size ns = 2 ^ 30 * 100 div 107"
    "b_size (n_wbuf ns) = 2 ^ 20" "written ns = {}" by (rule init_namespace_inv [of "2 ^ 30" "\<lambda>_. 0" demo_wp "\<lambda>_. 0"]) simp_all
  then show thesis using that by (simp add: in_range_def demo_conv_write_lba)
qed

theorem conv_device_never_stuck_witness:
  "\<exists>ns0 res ns'. conv_init_namespace (\<lambda>_. 0) demo_wp SAMSUNG_970PRO 7 4 (2 ^ 30) (\<lambda>_. 0) = Some ns0 \<and>
     conv_proc_nvme_io_cmd demo_conv_write demo_ret ns0 = Some (res, ns')"
proof -
  obtain ns0 where n: "conv_init_namespace (\<lambda>_. 0) demo_wp SAMSUNG_970PRO 7 4 (2 ^ 30) (\<lambda>_. 0) = Some ns0" "in_range (n_size ns0) demo_conv_write"
    by (rule demo_conv_ns)
  have "(4 :: nat) \<le> 2 ^ 30" "(2 :: nat) ^ 30 \<le> 2 ^ 45" by simp_all
  from conv_device_never_stuck [OF this n(1) conv_reach.start n(2), of demo_ret] n(1) show ?thesis by blast
qed

theorem conv_refines_written_pages_witness:
  "\<exists>ns0 res ns'. conv_init_namespace (\<lambda>_. 0) demo_wp SAMSUNG_970PRO 7 4 (2 ^ 30) (\<lambda>_. 0) = Some ns0 \<and>
     conv_proc_nvme_io_cmd demo_conv_write demo_ret ns0 = Some (res, ns') \<and> written ns' \<subseteq> {0}"
proof -
  obtain ns0 where n: "conv_init_namespace (\<lambda>_. 0) demo_wp SAMSUNG_970PRO 7 4 (2 ^ 30) (\<lambda>_. 0) = Some ns0" "in_range (n_size ns0) demo_conv_write" "written ns0 = {}"
    by (rule demo_conv_ns)
  have "(4 :: nat) \<le> 2 ^ 30" "(2 :: nat) ^ 30 \<le> 2 ^ 45" by simp_all
  from conv_refines_written_pages [OF this n(1) conv_reach.start n(2), of demo_ret] obtain res ns' where
    "conv_proc_nvme_io_cmd demo_conv_write demo_ret ns0 = Some (res, ns')" "written ns' \<subseteq> {0}"
    using n(3) by (auto simp: demo_conv_write_lba split: if_splits)
  then show ?thesis using n(1) by blast
qed

theorem conv_tables_inverse_witness:
  "\<exists>ns0. conv_init_namespace (\<lambda>_. 0) demo_wp SAMSUNG_970PRO 7 4 (2 ^ 30) (\<lambda>_. 0) = Some ns0 \<and>
     ln_vpc (lines (lm (n_ftls ns0 3)) 0) = card {p \<in> line_pages (c_spp (n_ftls ns0 3)) 0. pst (n_ftls ns0 3) p = PG_VALID}"
proof -
  obtain ns0 where n: "conv_init_namespace (\<lambda>_. 0) demo_wp SAMSUNG_970PRO 7 4 (2 ^ 30) (\<lambda>_. 0) = Some ns0" by (rule demo_conv_ns)
  have b: "(4 :: nat) \<le> 2 ^ 30" "(2 :: nat) ^ 30 \<le> 2 ^ 45" by simp_all
  have "conv_inv (logical_cap (2 ^ 30)) (load_part 3 ns0)" using device_reach(1) [OF b n conv_reach.start] by (simp add: dev_ok_def ns_inv_def)
  then have "0 < tt_lines (c_spp (n_ftls ns0 3))"
    by (cases "blks_per_pl (c_spp (n_ftls ns0 3)) = 0") (simp_all add: conv_inv_def flash_inv_def conv_geo_def)
  then show ?thesis using conv_tables_inverse [OF b n conv_reach.start, of 3] n by auto
qed

text \<open>A device with one page per line and six lines, on which the same page is written twice.\<close>

definition toy_spp :: ssdparams where
  "toy_spp = demo_spp\<lparr>nchs := 1, luns_per_ch := 1, pls_per_lun := 1, blks_per_pl := 6, tt_lines := 6, pgs_per_blk := 1, pgs_per_oneshotpg := 1,
     oneshotpgs_per_blk := 1, pgs_per_flashpg := 1, flashpgs_per_blk := 1, pgs_per_line := 1, pgs_per_pl := 6, pgs_per_lun := 6, pgs_per_ch := 6, tt_pgs := 6\<rparr>"

lemma toy_facts: "conv_geo toy_spp" "ssd_inv (ssd_init toy_spp clk)" "sp (ssd_init toy_spp clk) = toy_spp"
  "get_blk (ssd_init toy_spp clk) p = ssd_init_nand_blk toy_spp"
proof -
  have d: "pgsz demo_spp = 4096" "max_ch_xfer_size demo_spp = 16384" "ch_bandwidth demo_spp = 800" "pcie_bandwidth demo_spp = 3360"
    by (simp_all add: demo_spp_def ssd_init_params_def Let_def SAMSUNG_970PRO_def)
  then show "conv_geo toy_spp" by (simp add: conv_geo_def toy_spp_def)
  show "ssd_inv (ssd_init toy_spp clk)"
    by (rule ssd_init_inv) (simp_all add: toy_spp_def d BANDWIDTH_TO_MAX_CREDITS_def UNIT_TIME_INTERVAL_def UNIT_XFER_SIZE_def UNIT_XFER_CREDITS_def)
  show "sp (ssd_init toy_spp clk) = toy_spp" "get_blk (ssd_init toy_spp clk) p = ssd_init_nand_blk toy_spp"
    by (simp_all add: ssd_init_def get_blk_def)
qed

lemma toy_line: "blks_per_pl toy_spp = 6" "pgs_per_line toy_spp = 1" "tt_pgs toy_spp = 6"
  by (simp_all add: toy_spp_def)

theorem do_gc_frees_best_victim_witness:
  "\<exists>x0 x1 x2 x3 p q v. conv_init_ftl (\<lambda>_. 0) demo_wp (conv_init_params 7) (ssd_init toy_spp (\<lambda>_. 0)) = Some x0 \<and>
     conv_write_map 0 x0 = Some (p, x1) \<and> conv_write_map 0 x1 = Some (q, x2) \<and> do_gc True x2 = Some (True, x3) \<and>
     v \<in> set (free_line_list (lm x3))"
proof -
  have cap: "1 + 4 * pgs_per_line (sp (ssd_init toy_spp (\<lambda>_. 0))) < blks_per_pl (sp (ssd_init toy_spp (\<lambda>_. 0))) * pgs_per_line (sp (ssd_init toy_spp (\<lambda>_. 0)))"
    "1 \<le> tt_pgs (sp (ssd_init toy_spp (\<lambda>_. 0)))" by (simp_all add: toy_facts toy_line)
  obtain x0 where x0: "conv_init_ftl (\<lambda>_. 0) demo_wp (conv_init_params 7) (ssd_init toy_spp (\<lambda>_. 0)) = Some x0" "conv_inv 1 x0" "c_ssd x0 = ssd_init toy_spp (\<lambda>_. 0)"
    "mapped_lpns x0 = {}" "write_credits (wfc x0) > 0" "space x0 = blks_per_pl (sp (ssd_init toy_spp (\<lambda>_. 0))) * pgs_per_line (sp (ssd_init toy_spp (\<lambda>_. 0)))"
    by (rule init_ftl_inv [OF _ _ _ cap, of "conv_init_params 7"]) (simp_all add: toy_facts conv_init_params_def)
  have s0: "c_spp x0 = toy_spp" using x0(3) by (simp add: toy_facts)
  have sp0: "space x0 = 6" using x0(6) by (simp add: toy_facts toy_line)
  have f0: "flash_inv [] x0" "tables_ok x0" using x0(2) by (simp_all add: conv_inv_def)
  have len: "space x = length (free_line_list (lm x)) + 2" if "flash_inv [] x" "c_spp x = toy_spp" for x
  proof -
    have "wp_no toy_spp (c_wp x) < 1" "wp_no toy_spp (c_gc_wp x) < 1"
      using that wp_no_less [OF toy_facts(1)] by (auto simp: flash_inv_def wp_at_def toy_line)
    then show ?thesis using that(2) by (simp add: space_def toy_line)
  qed
  obtain p x1 where x1: "conv_write_map 0 x0 = Some (p, x1)" "flash_inv [] x1" "tables_ok x1" "maptbl x1 = (maptbl x0)(0 := p)"
    "c_spp x1 = c_spp x0" "space x1 + 1 = space x0"
    by (rule write_map_spec [OF f0, of 0]) (use s0 sp0 in \<open>simp_all add: toy_line\<close>)
  obtain q x2 where x2: "conv_write_map 0 x1 = Some (q, x2)" "flash_inv [] x2" "tables_ok x2" "maptbl x2 = (maptbl x1)(0 := q)"
    "c_spp x2 = c_spp x1" "space x2 + 1 = space x1"
    by (rule write_map_spec [OF x1(2,3), of 0]) (use s0 x1(5,6) sp0 in \<open>simp_all add: toy_line\<close>)
  have s2: "c_spp x2 = toy_spp" "space x2 = 4" using s0 x1 x2 sp0 by simp_all
  have "free_line_cnt (lm x2) \<le> 2" using len [OF x2(2) s2(1)] s2(2) x2(2) by (simp add: flash_inv_def lists_ok_def)
  moreover have "mapped_lpns x2 \<subseteq> {..<1}"
  proof
    fix l assume "l \<in> mapped_lpns x2"
    moreover have "l \<notin> mapped_lpns x0" using x0(4) by simp
    ultimately show "l \<in> {..<1}" using x1(4,5) x2(4,5) by (cases "l = 0") (auto simp: mapped_lpns_def)
  qed
  moreover have "1 + 4 * pgs_per_line (c_spp x2) < blks_per_pl (c_spp x2) * pgs_per_line (c_spp x2)" unfolding s2 toy_line by linarith
  ultimately have "victims (lm x2) \<noteq> {}" by (intro victims_exist [OF x2(2,3)])
  from do_gc_frees_best_victim [OF x2(2,3) this] s2 obtain v x3 where "do_gc True x2 = Some (True, x3)" "v \<in> set (free_line_list (lm x3))"
    by (auto simp: toy_line)
  then show ?thesis using x0(1) x1(1) x2(1) by blast
qed

text \<open>A victim queue of two lines.\<close>

definition demo_lines :: "nat \<Rightarrow> line" where
  "demo_lines i = (if i = 5 then \<lparr>ln_id = 5, ln_ipc = 6, ln_vpc = 2, ln_pos = 1\<rparr> else \<lparr>ln_id = i, ln_ipc = 1, ln_vpc = 7, ln_pos = 2\<rparr>)"

definition demo_pq :: "nat pqueue" where
  "demo_pq = \<lparr>pq_size = 3, pq_avail = 9, pq_step = 9, pq_d = (\<lambda>j. if j = 1 then 5 else 3)\<rparr>"

theorem victim_queue_pop_witness:
  "\<exists>q' ls'. pqueue_pop victim_ops (demo_pq, demo_lines) = (Some 5, q', ls') \<and> pqueue_size q' = 1"
proof -
  have "vq.pq_inv (demo_pq, demo_lines)"
  proof -
    have "vq.heap demo_lines 3 (pq_d demo_pq)" unfolding vq.heap_def vq.above_def
    proof (intro allI impI)
      fix j :: nat assume "2 \<le> j \<and> j < 3"
      then have "j = 2" by simp
      then show "\<not> cmppri victim_ops (getpri victim_ops demo_lines (pq_d demo_pq (j div 2))) (getpri victim_ops demo_lines (pq_d demo_pq j))"
        by (simp add: demo_pq_def demo_lines_def)
    qed
    moreover have "vq.pos_ok demo_lines 3 (pq_d demo_pq) {}" unfolding vq.pos_ok_def
    proof (intro allI impI)
      fix j :: nat assume "1 \<le> j \<and> j < 3 \<and> j \<notin> {}"
      then have "j = 1 \<or> j = 2" by auto
      then show "getpos victim_ops demo_lines (pq_d demo_pq j) = j" by (auto simp: demo_pq_def demo_lines_def)
    qed
    ultimately show ?thesis by (simp add: vq.pq_inv_def) (simp add: demo_pq_def)
  qed
  from victim_queue_pop [OF this] show ?thesis by (force simp: demo_pq_def pqueue_peek_def pqueue_size_def)
qed

theorem pqueue_is_valid_iff_witness: "pqueue_is_valid victim_ops (demo_pq, demo_lines)"
proof -
  have "ln_vpc (demo_lines (pq_d demo_pq (j div 2))) \<le> ln_vpc (demo_lines (pq_d demo_pq j))"
    if "2 \<le> j \<and> j < pq_size demo_pq" for j
  proof -
    have "j = 2" using that by (simp add: demo_pq_def)
    then show ?thesis by (simp add: demo_pq_def demo_lines_def)
  qed
  then show ?thesis using pqueue_is_valid_iff [of demo_pq demo_lines] by blast
qed

end
