(* ===== verification/Edge_Proc.thy ===== *)
theory Edge_Proc
  imports Simple_FTL
begin

text \<open>
  The asynchronous edge engine of the device, \<^verbatim>\<open>__do_perform_edge_proc\<close> of \<^verbatim>\<open>io.c\<close>: a kernel thread that
  takes block tasks from the normal queue, promotes finished blocks to future tasks of the next iteration,
  runs a future task as soon as the host has aggregated its source partition, and uses the time the kernel
  needs to prefetch edge blocks. Beside the streams of \<open>csd_env\<close> the environment has the clock \<^verbatim>\<open>jiffies\<close>
  and the interference of the host: \<open>x_host n\<close> is what the host and the other devices do to the shared
  buffer before the \<open>n\<close>-th observation of the clock, of the stop flag or of a polled flag, or the \<open>n\<close>-th
  allocation; \<open>tick\<close> counts them all. \<open>x_submit n\<close> are the tasks that asynchronous commands add to the normal
  queue at that moment (the dispatcher skips a block that is queued already). Tasks are read under the lock of their queue, and the vertex kernel and
  the searches of the queues are atomic steps. An array index out of range is \<open>None\<close>.
\<close>

section \<open>Environment\<close>

record edge_env =
  x_csd :: csd_env
  x_host :: "nat \<Rightarrow> hmb_device \<Rightarrow> hmb_device"
  x_jiffies :: "nat \<Rightarrow> u64"
  x_timeout :: u64
  x_submit :: "nat \<Rightarrow> PROC_EDGE list"

record edge_st =
  st_hmb :: hmb_device
  st_dev :: csd_dev

abbreviation st_eb :: "edge_st \<Rightarrow> edge_buffer" where
  "st_eb s \<equiv> edge_buf (st_dev s)"

definition upd_eb :: "(edge_buffer \<Rightarrow> edge_buffer) \<Rightarrow> edge_st \<Rightarrow> edge_st" where
  "upd_eb f s = s\<lparr>st_dev := (st_dev s)\<lparr>edge_buf := f (edge_buf (st_dev s))\<rparr>\<rparr>"

definition upd_hmb :: "(hmb_device \<Rightarrow> hmb_device) \<Rightarrow> edge_st \<Rightarrow> edge_st" where
  "upd_hmb f s = s\<lparr>st_hmb := f (st_hmb s)\<rparr>"

text \<open>One observation of the environment.\<close>

definition submit_async :: "PROC_EDGE \<Rightarrow> queue \<Rightarrow> queue" where
  "submit_async t q = (if queue_find q t then q else queue_enqueue True t q)"

definition observe :: "edge_env \<Rightarrow> edge_st \<Rightarrow> edge_st" where
  "observe X s = (let n = tick (st_dev s) in
     \<lparr>st_hmb = x_host X n (st_hmb s),
      st_dev = (st_dev s)\<lparr>tick := Suc n,
        normal_task_queue := fold submit_async (x_submit X n) (normal_task_queue (st_dev s))\<rparr>\<rparr>)"

definition clock :: "edge_env \<Rightarrow> edge_st \<Rightarrow> int \<times> edge_st" where
  "clock X s = (e_clk (x_csd X) (tick (st_dev s)), observe X s)"

definition should_stop :: "edge_env \<Rightarrow> edge_st \<Rightarrow> bool \<times> edge_st" where
  "should_stop X s = (e_stop (x_csd X) (tick (st_dev s)), observe X s)"

definition kmalloc_ok :: "edge_env \<Rightarrow> edge_st \<Rightarrow> bool \<times> edge_st" where
  "kmalloc_ok X s = (e_kmalloc (x_csd X) (tick (st_dev s)), observe X s)"

definition jiffies :: "edge_env \<Rightarrow> edge_st \<Rightarrow> u64 \<times> edge_st" where
  "jiffies X s = (x_jiffies X (tick (st_dev s)), observe X s)"

definition time_after :: "u64 \<Rightarrow> u64 \<Rightarrow> bool" where
  "time_after a b \<longleftrightarrow> sint (b - a) < 0"

abbreviation fd_of :: "edge_env \<Rightarrow> rat \<Rightarrow> rat" where
  "fd_of X \<equiv> e_fd (x_csd X)"

definition dbl :: "edge_env \<Rightarrow> int \<Rightarrow> rat" where
  "dbl X i = fd_of X (of_int i)"

section \<open>Cost model\<close>

text \<open>
  The moving average of the aggregation time. \<^verbatim>\<open>alpha_aggr\<close> is a \<^verbatim>\<open>float\<close>, so its product with the time is
  rounded to \<^verbatim>\<open>float\<close>; the rest is computed in \<^verbatim>\<open>double\<close>.
\<close>

definition ema_update :: "edge_env \<Rightarrow> int \<Rightarrow> edge_buffer \<Rightarrow> int" where
  "ema_update X aggr_time eb =
     trunc (fd_of X (e_fl (x_csd X) (alpha_aggr eb * e_fl (x_csd X) (of_int aggr_time)) +
                     fd_of X (fd_of X (1 - alpha_aggr eb) * dbl X (ema_aggr eb))))"

definition ema_sample :: "edge_env \<Rightarrow> nat \<Rightarrow> edge_st \<Rightarrow> edge_st" where
  "ema_sample X i s =
     (if aggr_start_time (st_eb s) ! i \<noteq> -1 \<and> done_partition (st_hmb s) (int i) then
        let (now, s) = clock X s in
        upd_eb (\<lambda>eb. eb\<lparr>ema_aggr := ema_update X (now - aggr_start_time eb ! i) eb,
                        aggr_start_time := (aggr_start_time eb)[i := -1]\<rparr>) s
      else s)"

definition ema_samples :: "edge_env \<Rightarrow> edge_st \<Rightarrow> edge_st" where
  "ema_samples X s = fold (ema_sample X) [0..<MAX_PARTITION] s"

text \<open>Waiting; with the cost model on, every round samples the aggregations that ended.\<close>

partial_function (option) wait_sampling :: "edge_env \<Rightarrow> bool \<Rightarrow> int \<Rightarrow> edge_st \<Rightarrow> (bool \<times> edge_st) option" where
  "wait_sampling X sampling t s =
     (let (now, s) = clock X s in
      if now < t then
        let (stop, s) = should_stop X s in
        if stop then Some (False, s) else wait_sampling X sampling t (if sampling then ema_samples X s else s)
      else Some (True, s))"

section \<open>The vertex kernel of a task\<close>

text \<open>Normal tasks go from \<open>buf0\<close> to \<open>buf1\<close>, future tasks from \<open>buf1\<close> to \<open>buf2\<close>.\<close>

definition task_kernel :: "edge_env \<Rightarrow> bool \<Rightarrow> PROC_EDGE \<Rightarrow> hmb_device \<Rightarrow> hmb_device" where
  "task_kernel X fut task hmb =
     (let storage = e_storage (x_csd X) (nsid task);
          run = proc_edges (e_fl (x_csd X)) (algorithm task) (block_outdegree storage (uint (outdegree_slba task)))
                  (block_edges storage (uint (edge_block_slba task)) (uint (edge_block_len task)));
          off = (sint (csd_id task) + 1) * uint (num_vertices task) in
      if fut then hmb\<lparr>buf2 := run (buf1 hmb) off (buf2 hmb)\<rparr>
      else hmb\<lparr>buf1 := run (buf0 hmb) off (buf1 hmb)\<rparr>)"

text \<open>The largest partition that was written, for the window of the host memory buffer.\<close>

definition mark_window :: "edge_env \<Rightarrow> bool \<Rightarrow> PROC_EDGE \<Rightarrow> hmb_device \<Rightarrow> hmb_device" where
  "mark_window X fut task hmb =
     (let i = uint (num_csds task + 2) * uint (num_vertices task) + sint (csd_id task);
          c = e_fl (x_csd X) (of_int (uint (pe_c task))) in
      if fut then hmb\<lparr>buf2 := (buf2 hmb)(i := c)\<rparr> else hmb\<lparr>buf1 := (buf1 hmb)(i := c)\<rparr>)"

definition mark_done :: "bool \<Rightarrow> PROC_EDGE \<Rightarrow> hmb_device \<Rightarrow> hmb_device" where
  "mark_done fut task hmb =
     (if fut then hmb\<lparr>done2 := (done2 hmb)(done_id task := True)\<rparr>
      else hmb\<lparr>done1 := (done1 hmb)(done_id task := True)\<rparr>)"

text \<open>The last block of a column starts the aggregation of the column by the host.\<close>

definition starts_aggr :: "PROC_EDGE \<Rightarrow> bool" where
  "starts_aggr task \<longleftrightarrow> iter task = 0 \<and> pe_r task = num_partitions task - 1 \<or>
     iter task \<noteq> 0 \<and> iter task mod 2 = 0 \<and> pe_r task = pe_c task \<or>
     iter task \<noteq> 0 \<and> iter task mod 2 = 1 \<and> pe_r task = num_partitions task - 1"

definition note_aggr_start :: "edge_env \<Rightarrow> PROC_EDGE \<Rightarrow> edge_st \<Rightarrow> edge_st option" where
  "note_aggr_start X task s =
     (if cost_modeling task \<noteq> 0 \<and> is_fvc task = 0 \<and> starts_aggr task then
        let (now, s) = clock X s in
        if unat (pe_c task) < MAX_PARTITION
        then Some (upd_eb (\<lambda>eb. eb\<lparr>aggr_start_time := (aggr_start_time eb)[unat (pe_c task) := now]\<rparr>) s)
        else None
      else Some s)"

text \<open>A thread that is told to stop leaves the block unfinished; the caller goes on until it looks itself.\<close>

definition proc_edge :: "edge_env \<Rightarrow> bool \<Rightarrow> PROC_EDGE \<Rightarrow> edge_st \<Rightarrow> edge_st option" where
  "proc_edge X fut task s =
     (let s = upd_hmb (mark_window X fut task) s;
          (start_time, s) = clock X s;
          s = upd_hmb (task_kernel X fut task) s;
          (end_time, s) = clock X s in
      do {
        (ok, s) \<leftarrow> wait_sampling X (cost_modeling task \<noteq> 0) (mcu_end_time (fd_of X) start_time end_time) s;
        if \<not> ok then Some s
        else note_aggr_start X task (upd_hmb (mark_done fut task) s)
      })"

section \<open>Prefetching\<close>

definition cached_bytes :: "PROC_EDGE \<Rightarrow> edge_buffer \<Rightarrow> int" where
  "cached_bytes task eb =
     (let n = get_edge_block_size eb (sint (pe_r task)) (sint (pe_c task)) in if n = -1 then 0 else n)"

definition prefetch_goal :: "edge_env \<Rightarrow> PROC_EDGE \<Rightarrow> int \<Rightarrow> int \<Rightarrow> int" where
  "prefetch_goal X task time_left size_in_cache =
     (let io = sint (nsecs_target task); len = edge_block_len task;
          ratio = (if io = 0 then 1 else fd_of X (dbl X time_left / dbl X io));
          ratio = (if ratio > 1 then 1 else ratio) in
      min (size_in_cache + trunc (fd_of X (dbl X (uint len) * ratio))) (sint len))"

text \<open>The flash time of the part of the block that is missing.\<close>

definition prefetch_cost :: "edge_env \<Rightarrow> PROC_EDGE \<Rightarrow> int \<Rightarrow> int" where
  "prefetch_cost X task size_in_cache =
     (let len = edge_block_len task in
      trunc (fd_of X (dbl X (sint (nsecs_target task)) *
        fd_of X (dbl X (uint (len - word_of_int size_in_cache)) / dbl X (uint len)))))"

text \<open>Result: the pages fetched, the time left, the state.\<close>

definition prefetch_edge_block :: "edge_env \<Rightarrow> PROC_EDGE \<Rightarrow> int \<Rightarrow> int \<Rightarrow> edge_st \<Rightarrow> int \<times> int \<times> edge_st" where
  "prefetch_edge_block X task is_prefetch time_left s =
     (let r = sint (pe_r task); c = sint (pe_c task); len = edge_block_len task in
      if len = 0 \<or> time_left \<le> 0 then (0, time_left, s)
      else if word_of_int (get_edge_block_size (st_eb s) r c) = len then (0, time_left, s)
      else
        let old = cached_bytes task (st_eb s);
            goal = prefetch_goal X task time_left old;
            (ok, s) = kmalloc_ok X s;
            s = upd_eb (\<lambda>eb. snd (access_edge_block (e_P (x_csd X)) ok (done_partition (st_hmb s)) r c goal is_prefetch eb)) s;
            pages = div_page (max 0 (cached_bytes task (st_eb s) - old)) in
        (pages, time_left - prefetch_cost X task old, upd_eb (\<lambda>eb. eb\<lparr>prefetched_size := pages\<rparr>) s))"

text \<open>The state of the planner: the number of blocks found so far (only tested for zero) and the time left.\<close>

definition prefetch_one :: "edge_env \<Rightarrow> nat \<Rightarrow> int \<Rightarrow> PROC_EDGE \<Rightarrow> nat \<times> int \<times> edge_st \<Rightarrow> nat \<times> int \<times> edge_st" where
  "prefetch_one X prio is_prefetch nxt = (\<lambda>(found_cnt, time_left, s).
     let (pages, time_left, s) = prefetch_edge_block X nxt is_prefetch time_left s;
         s = upd_eb (\<lambda>eb. eb\<lparr>prefetch_priority_cnt :=
               (prefetch_priority_cnt eb)[prio := prefetch_priority_cnt eb ! prio + pages]\<rparr>) s;
         s = (if found_cnt = 0 then
                upd_eb (\<lambda>eb. eb\<lparr>prefetched_r := sint (pe_r nxt), prefetched_c := sint (pe_c nxt),
                  prefetched_iter := sint (iter nxt),
                  prefetch_block_cnt_arr := (prefetch_block_cnt_arr eb)[prio := prefetch_block_cnt_arr eb ! prio + 1],
                  prefetched_priority := int prio\<rparr>) s
              else s)
     in (Suc found_cnt, time_left, s))"

text \<open>Executable future tasks, from the back of the queue, until the time is used up.\<close>

fun prefetch_ready :: "edge_env \<Rightarrow> PROC_EDGE list \<Rightarrow> nat \<times> int \<times> edge_st \<Rightarrow> nat \<times> int \<times> edge_st" where
  "prefetch_ready X [] p = p"
| "prefetch_ready X (t # ts) p =
     (if done_partition (st_hmb (snd (snd p))) (uint (pe_r t)) then
        let p = prefetch_one X 2 1 t p in
        if fst (snd p) \<le> 0 then p else prefetch_ready X ts p
      else prefetch_ready X ts p)"

text \<open>The cost model prefers future tasks when the aggregation of the next normal row is about to end.\<close>

definition prefer_future :: "edge_env \<Rightarrow> PROC_EDGE \<Rightarrow> rat \<Rightarrow> PROC_EDGE \<Rightarrow> edge_st \<Rightarrow> (bool \<times> edge_st) option" where
  "prefer_future X task ratio nxt s =
     (if get_queue_size (future_task_queue (st_dev s)) \<noteq> 0 \<and> \<not> done_partition (st_hmb s) (uint (pe_r nxt)) \<and>
         ema_aggr (st_eb s) > 0 then
        let (now, s) = clock X s in
        if unat (pe_r nxt) \<ge> MAX_PARTITION then None
        else if fd_of X (dbl X now + fd_of X (dbl X (uint (nsecs_target task)) * ratio)) >
                dbl X (aggr_start_time (st_eb s) ! unat (pe_r nxt) + ema_aggr (st_eb s))
        then Some (True, upd_eb (\<lambda>eb. eb\<lparr>pr_reverse := True\<rparr>) s)
        else Some (False, s)
      else Some (False, s))"

definition plan_ready :: "edge_env \<Rightarrow> nat \<times> int \<times> edge_st \<Rightarrow> nat \<times> int \<times> edge_st" where
  "plan_ready X p =
     (let q = future_task_queue (st_dev (snd (snd p))) in
      if get_queue_size q \<noteq> 0 then prefetch_ready X (rev (q_items q)) p else p)"

definition plan_normal :: "edge_env \<Rightarrow> PROC_EDGE \<Rightarrow> rat \<Rightarrow> nat \<times> int \<times> edge_st \<Rightarrow> (nat \<times> int \<times> edge_st) option" where
  "plan_normal X task ratio = (\<lambda>(found_cnt, time_left, s).
     let q = normal_task_queue (st_dev s) in
     if time_left > 0 \<and> get_queue_size q \<noteq> 0 then
       do {
         nxt \<leftarrow> snd (get_queue_front q);
         (rev_prio, s) \<leftarrow> prefer_future X task ratio nxt s;
         if \<not> rev_prio \<and> \<not> (is_fvc task \<noteq> 0 \<and> is_fvc nxt = 0)
         then Some (prefetch_one X 3 2 nxt (found_cnt, time_left, s))
         else Some (found_cnt, time_left, s)
       }
     else Some (found_cnt, time_left, s))"

definition plan_waiting :: "edge_env \<Rightarrow> nat \<times> int \<times> edge_st \<Rightarrow> (nat \<times> int \<times> edge_st) option" where
  "plan_waiting X = (\<lambda>(found_cnt, time_left, s).
     let q = future_task_queue (st_dev s) in
     if time_left > 0 \<and> get_queue_size q \<noteq> 0 then
       do { nxt \<leftarrow> snd (get_queue_front q); Some (prefetch_one X 4 1 nxt (found_cnt, time_left, s)) }
     else Some (found_cnt, time_left, s))"

definition plan_next_iter :: "edge_env \<Rightarrow> PROC_EDGE \<Rightarrow> nat \<times> int \<times> edge_st \<Rightarrow> (nat \<times> int \<times> edge_st) option" where
  "plan_next_iter X task = (\<lambda>(found_cnt, time_left, s).
     let q = normal_task_queue (st_dev s) in
     if time_left > 0 \<and> get_queue_size q \<noteq> 0 then
       do {
         nxt \<leftarrow> snd (get_queue_front q);
         if is_fvc task \<noteq> 0 \<and> is_fvc nxt = 0 then Some (prefetch_one X 5 3 nxt (found_cnt, time_left, s))
         else Some (found_cnt, time_left, s)
       }
     else Some (found_cnt, time_left, s))"

definition plan_prefetch :: "edge_env \<Rightarrow> PROC_EDGE \<Rightarrow> rat \<Rightarrow> int \<Rightarrow> edge_st \<Rightarrow> edge_st option" where
  "plan_prefetch X task ratio time_left s =
     (let s = upd_eb (\<lambda>eb. eb\<lparr>prefetched_r := -1, prefetched_c := -1, prefetched_iter := -1\<rparr>) s in
      if time_left > 0 then
        do {
          p \<leftarrow> plan_normal X task ratio (plan_ready X (0, time_left, s));
          (found_cnt, time_left, s) \<leftarrow> plan_waiting X p;
          (_, _, s) \<leftarrow> plan_next_iter X task (found_cnt, time_left, upd_eb (\<lambda>eb. eb\<lparr>pr_reverse := False\<rparr>) s);
          Some s
        }
      else Some s)"

section \<open>Running a task\<close>

definition prefetch_hit :: "PROC_EDGE \<Rightarrow> edge_buffer \<Rightarrow> bool" where
  "prefetch_hit task eb \<longleftrightarrow> word_of_int (prefetched_r eb) = pe_r task \<and> word_of_int (prefetched_c eb) = pe_c task"

definition count_prefetch_hit :: "PROC_EDGE \<Rightarrow> edge_st \<Rightarrow> edge_st option" where
  "count_prefetch_hit task s =
     (let eb = st_eb s; k = prefetched_priority eb;
          total = total_prefetch_block_cnt eb + (if prefetched_r eb \<noteq> -1 \<and> prefetched_c eb \<noteq> -1 then 1 else 0) in
      if \<not> prefetch_hit task eb then Some (upd_eb (\<lambda>eb. eb\<lparr>total_prefetch_block_cnt := total\<rparr>) s)
      else if k = -1 then
        Some (upd_eb (\<lambda>eb. eb\<lparr>prefetch_block_hit_cnt := prefetch_block_hit_cnt eb + 1, total_prefetch_block_cnt := total\<rparr>) s)
      else if k < 0 \<or> k \<ge> 7 then None
      else Some (upd_eb (\<lambda>eb. eb\<lparr>prefetch_block_hit_cnt := prefetch_block_hit_cnt eb + 1,
             prefetch_block_hit_cnt_arr := (prefetch_block_hit_cnt_arr eb)[nat k := prefetch_block_hit_cnt_arr eb ! nat k + 1],
             total_prefetch_block_cnt := total\<rparr>) s))"

text \<open>
  Pipelining: the kernel time hides part of the flash time of the block itself; what is left of it is spent
  on prefetching. In the branch for normal tasks the cast binds tighter than the product, so the ratio is
  truncated first.
\<close>

definition prefetch_time :: "edge_env \<Rightarrow> bool \<Rightarrow> PROC_EDGE \<Rightarrow> rat \<Rightarrow> int" where
  "prefetch_time X fut task prefetch_ratio =
     (if fut then trunc (fd_of X (prefetch_ratio * dbl X (uint (nsecs_target task))))
      else sint (word_of_int (trunc prefetch_ratio) * nsecs_target task))"

definition pipeline :: "edge_env \<Rightarrow> bool \<Rightarrow> PROC_EDGE \<Rightarrow> int \<Rightarrow> int \<Rightarrow> rat \<Rightarrow> edge_st \<Rightarrow> (rat \<times> edge_st) option" where
  "pipeline X fut task proc_time size_not_in_cache ratio s =
     (let s = upd_eb (\<lambda>eb. eb\<lparr>prefetch_hit_cnt := prefetch_hit_cnt eb + (if prefetch_hit task eb then prefetched_size eb else 0),
                total_prefetch_cnt := total_prefetch_cnt eb + prefetched_size eb, prefetched_size := 0\<rparr>) s;
          pipeline_ratio = (if nsecs_target task = 0 then 0
                            else fd_of X (dbl X proc_time / dbl X (uint (nsecs_target task))));
          prefetch_ratio = max 0 (fd_of X (pipeline_ratio - ratio));
          hidden = min (trunc (fd_of X (fd_of X (pipeline_ratio * ratio) * dbl X (uint (edge_block_len task))))) size_not_in_cache;
          s = upd_eb (\<lambda>eb. eb\<lparr>eb_hit_cnt := eb_hit_cnt eb + div_page hidden\<rparr>) s;
          ratio = max 0 (fd_of X (ratio - pipeline_ratio)) in
      if unat (is_prefetching task) \<ge> 2 then
        do { s \<leftarrow> plan_prefetch X task ratio (prefetch_time X fut task prefetch_ratio) s; Some (ratio, s) }
      else Some (ratio, s))"

definition drops_block :: "edge_env \<Rightarrow> bool \<Rightarrow> PROC_EDGE \<Rightarrow> bool" where
  "drops_block X fut task \<longleftrightarrow> invalidation_at_future_value (e_P (x_csd X)) \<noteq> 0 \<and>
     (fut \<or> iter task = 0 \<and> pe_r task > pe_c task \<or> is_fvc task \<noteq> 0)"

definition edge_access :: "edge_env \<Rightarrow> bool \<Rightarrow> PROC_EDGE \<Rightarrow> edge_st \<Rightarrow> int \<times> edge_st" where
  "edge_access X fut task s =
     (let (ok, s) = kmalloc_ok X s; r = sint (pe_r task); c = sint (pe_c task);
          (size_not_in_cache, eb) = access_edge_block (e_P (x_csd X)) ok (done_partition (st_hmb s)) r c
            (sint (edge_block_len task)) 0 (st_eb s) in
      (size_not_in_cache, upd_eb (\<lambda>_. if drops_block X fut task then invalidate_edge_block eb r c else eb) s))"

definition flash_wait :: "edge_env \<Rightarrow> PROC_EDGE \<Rightarrow> int \<Rightarrow> rat \<Rightarrow> edge_st \<Rightarrow> (bool \<times> edge_st) option" where
  "flash_wait X task t0 ratio s =
     (let (t1, s) = clock X s in
      do {
        (ok, s) \<leftarrow> wait_sampling X (cost_modeling task \<noteq> 0) (t1 + trunc (fd_of X (dbl X (uint (nsecs_target task)) * ratio))) s;
        if \<not> ok then Some (False, s)
        else let (t2, s) = clock X s in
          Some (True, upd_eb (\<lambda>eb. eb\<lparr>edge_internal_io_time := edge_internal_io_time eb + (t2 - t0)\<rparr>) s)
      })"

definition edge_io :: "edge_env \<Rightarrow> bool \<Rightarrow> PROC_EDGE \<Rightarrow> int \<Rightarrow> edge_st \<Rightarrow> (bool \<times> edge_st) option" where
  "edge_io X fut task proc_time s =
     (let (t0, s) = clock X s;
          (size_not_in_cache, s) = edge_access X fut task s;
          ratio = (if edge_block_len task = 0 then 1
                   else fd_of X (dbl X size_not_in_cache / dbl X (uint (edge_block_len task)))) in
      do {
        (ratio, s) \<leftarrow> (if is_prefetching task \<noteq> 0 then pipeline X fut task proc_time size_not_in_cache ratio s else Some (ratio, s));
        flash_wait X task t0 ratio s
      })"

text \<open>Future tasks find their vertex values in the device; only normal tasks wait for the transfer.\<close>

definition vertex_access :: "edge_env \<Rightarrow> PROC_EDGE \<Rightarrow> edge_st \<Rightarrow> int \<times> edge_st" where
  "vertex_access X task s =
     (let partition_size = (if num_partitions task = 0 then 0
                            else uint (num_vertices task) * VERTEX_SIZE div uint (num_partitions task));
          (ok, s) = kmalloc_ok X s;
          (size_not_in_cache, vb) = access_partition ok (sint (pe_r task)) (sint (iter task)) partition_size (vertex_buf (st_dev s))
      in (size_not_in_cache, s\<lparr>st_dev := (st_dev s)\<lparr>vertex_buf := vb\<rparr>\<rparr>))"

definition vertex_io :: "edge_env \<Rightarrow> bool \<Rightarrow> PROC_EDGE \<Rightarrow> edge_st \<Rightarrow> (bool \<times> edge_st) option" where
  "vertex_io X fut task s =
     (let (t0, s) = clock X s;
          (size_not_in_cache, s) = vertex_access X task s in
      do {
        (ok, s) \<leftarrow> (if fut then Some (True, s)
                   else let (t1, s) = clock X s in wait_sampling X False (t1 + div_page (DMA_READ_LATENCY * size_not_in_cache)) s);
        if \<not> ok then Some (False, s)
        else let (t2, s) = clock X s in
          Some (True, upd_eb (\<lambda>eb. eb\<lparr>edge_external_io_time := edge_external_io_time eb + (t2 - t0)\<rparr>) s)
      })"

definition enqueue_future :: "edge_env \<Rightarrow> PROC_EDGE \<Rightarrow> edge_st \<Rightarrow> edge_st" where
  "enqueue_future X task s =
     (let (ok, s) = kmalloc_ok X s in
      s\<lparr>st_dev := (st_dev s)\<lparr>future_task_queue := queue_enqueue ok task (future_task_queue (st_dev s))\<rparr>\<rparr>)"

text \<open>The block after which the host aggregates the first partition: the column order or the row order decides.\<close>

definition last_of_odd :: "PROC_EDGE \<Rightarrow> bool" where
  "last_of_odd task \<longleftrightarrow> row_overlap task \<noteq> 3 \<and> pe_r task = num_partitions task - 1 \<and> pe_c task = 0 \<or>
     row_overlap task = 3 \<and> pe_r task = 1 \<and> pe_c task = 0"

definition requeue_future :: "edge_env \<Rightarrow> PROC_EDGE \<Rightarrow> edge_st \<Rightarrow> edge_st" where
  "requeue_future X task s =
     (if iter task mod 2 = 0 \<and> last_of_odd task then enqueue_future X (task\<lparr>pe_r := 0, pe_c := 0\<rparr>) s else s)"

definition has_future :: "PROC_EDGE \<Rightarrow> bool" where
  "has_future task \<longleftrightarrow> iter task \<noteq> num_iters task - 1 \<and>
     (iter task mod 2 = 0 \<and> pe_r task \<le> pe_c task \<or> iter task mod 2 = 1 \<and> pe_r task > pe_c task)"

definition promote :: "PROC_EDGE \<Rightarrow> PROC_EDGE" where
  "promote task = task\<lparr>iter := iter task + 1, is_fvc := 1\<rparr>"

definition requeue_normal :: "edge_env \<Rightarrow> PROC_EDGE \<Rightarrow> edge_st \<Rightarrow> edge_st" where
  "requeue_normal X task s =
     (let (task, s) = (if has_future task then (promote task, enqueue_future X (promote task) s) else (task, s)) in
      if iter task = num_iters task - 1 then
        if iter task mod 2 = 0 \<and> pe_r task = num_partitions task - 1 \<and> pe_c task = num_partitions task - 1
        then enqueue_future X (task\<lparr>iter := iter task + 1\<rparr>) s
        else if iter task mod 2 = 1 \<and> last_of_odd task
        then enqueue_future X (task\<lparr>pe_r := 0, pe_c := 0, iter := iter task + 1\<rparr>) s
        else s
      else s)"

definition finish_task :: "edge_env \<Rightarrow> bool \<Rightarrow> PROC_EDGE \<Rightarrow> edge_st \<Rightarrow> (bool \<times> edge_st) option" where
  "finish_task X fut task s =
     do {
       (ok, s) \<leftarrow> vertex_io X fut task s;
       if \<not> ok then Some (False, s)
       else Some (True, if fut then requeue_future X task s else requeue_normal X task s)
     }"

definition run_task :: "edge_env \<Rightarrow> bool \<Rightarrow> PROC_EDGE \<Rightarrow> edge_st \<Rightarrow> (bool \<times> edge_st) option" where
  "run_task X fut task s =
     do {
       s \<leftarrow> count_prefetch_hit task s;
       let (t0, s) = clock X s;
       s \<leftarrow> proc_edge X fut task s;
       let (t1, s) = clock X s;
       let s = upd_eb (\<lambda>eb. eb\<lparr>edge_proc_time := edge_proc_time eb + (t1 - t0)\<rparr>) s;
       (ok, s) \<leftarrow> edge_io X fut task (t1 - t0) s;
       if \<not> ok then Some (False, s) else finish_task X fut task s
     }"

section \<open>The loop\<close>

partial_function (option) poll_flag :: "edge_env \<Rightarrow> (hmb_device \<Rightarrow> bool) \<Rightarrow> u64 \<Rightarrow> edge_st \<Rightarrow> (bool \<times> edge_st) option" where
  "poll_flag X flag timeout s =
     (if flag (st_hmb s) then Some (True, s)
      else
        let (stop, s) = should_stop X s in
        if stop then Some (False, s)
        else
          let (now, s) = jiffies X s in
          if time_after now timeout then Some (True, s) else poll_flag X flag timeout s)"

definition ends_iter :: "PROC_EDGE \<Rightarrow> bool" where
  "ends_iter task \<longleftrightarrow> iter task = num_iters task \<or>
     (iter task - 1) mod 2 = 0 \<and> pe_r task = num_partitions task - 1 \<or>
     (iter task - 1) mod 2 = 1 \<and> pe_r task = 0"

text \<open>The slice of a device moves from the future values to the next values.\<close>

definition roll_slice :: "PROC_EDGE \<Rightarrow> hmb_device \<Rightarrow> hmb_device" where
  "roll_slice task hmb =
     (let off = uint (csd_id task + 1) * uint (num_vertices task);
          slice = (\<lambda>i. off \<le> i \<and> i < off + uint (num_vertices task)) in
      hmb\<lparr>buf1 := (\<lambda>i. if slice i then buf2 hmb i else buf1 hmb i),
          buf2 := (\<lambda>i. if slice i then 0 else buf2 hmb i)\<rparr>)"

definition ready_id :: "PROC_EDGE \<Rightarrow> int" where
  "ready_id task = uint (num_partitions task + csd_id task + 1)"

definition swap_queues :: "edge_st \<Rightarrow> edge_st" where
  "swap_queues s =
     (let (nq, fq) = queue_swap (normal_task_queue (st_dev s)) (future_task_queue (st_dev s))
      in s\<lparr>st_dev := (st_dev s)\<lparr>normal_task_queue := nq, future_task_queue := fq\<rparr>\<rparr>)"

text \<open>The marker leaves the queue, the remaining future tasks become normal ones, and the host is told.\<close>

definition switch_iter :: "edge_st \<Rightarrow> (PROC_EDGE \<times> edge_st) option" where
  "switch_iter s =
     do {
       let (_, t, fq) = queue_dequeue (future_task_queue (st_dev s));
       task \<leftarrow> t;
       let s = swap_queues (s\<lparr>st_dev := (st_dev s)\<lparr>future_task_queue := fq\<rparr>\<rparr>);
       Some (task, upd_hmb (\<lambda>h. h\<lparr>done_partition := (done_partition h)(ready_id task := True)\<rparr>) s)
     }"

text \<open>
  The end of an iteration: wait for the last aggregation, switch, wait until the host has moved its values,
  then move the slice. \<open>None\<close> inside: told to stop.
\<close>

definition end_of_iter :: "edge_env \<Rightarrow> PROC_EDGE \<Rightarrow> edge_st \<Rightarrow> (PROC_EDGE option \<times> edge_st) option" where
  "end_of_iter X task s =
     (let (j, s) = jiffies X s in
      do {
        (ok, s) \<leftarrow> poll_flag X (\<lambda>h. done_partition h (uint (pe_r task))) (j + x_timeout X) s;
        if \<not> ok then Some (None, s)
        else do {
          (task, s) \<leftarrow> switch_iter s;
          let (j, s) = jiffies X s;
          (ok, s) \<leftarrow> poll_flag X (\<lambda>h. \<not> done_partition h (ready_id task)) (j + x_timeout X) s;
          if \<not> ok then Some (None, s)
          else Some (Some task, upd_hmb (roll_slice task) s)
        }
      })"

text \<open>The future task to consider, if its source partition is aggregated. \<open>None\<close> inside: told to stop.\<close>

definition future_front :: "edge_env \<Rightarrow> edge_st \<Rightarrow> (PROC_EDGE option option \<times> edge_st) option" where
  "future_front X s =
     do {
       task \<leftarrow> snd (get_queue_front (future_task_queue (st_dev s)));
       (t, s) \<leftarrow> (if ends_iter task then end_of_iter X task s else Some (Some task, s));
       case t of
         None \<Rightarrow> Some (None, s)
       | Some task \<Rightarrow>
           let fq = future_task_queue (st_dev s); agg = (\<lambda>n. done_partition (st_hmb s) (uint (pe_r n)));
               task = (if row_overlap task \<noteq> 0 \<and> get_queue_size fq \<noteq> 0 then
                         (case find agg (q_items fq) of None \<Rightarrow> task | Some n \<Rightarrow> n)
                       else task)
           in Some (Some (if agg task then Some task else None), s)
     }"

datatype pick = Stopped | Nothing | Future PROC_EDGE | Normal PROC_EDGE

definition take_normal :: "edge_st \<Rightarrow> (pick \<times> edge_st) option" where
  "take_normal s =
     (if get_queue_size (normal_task_queue (st_dev s)) \<noteq> 0 then
        do {
          let (_, t, nq) = queue_dequeue (normal_task_queue (st_dev s));
          task \<leftarrow> t;
          Some (Normal task, s\<lparr>st_dev := (st_dev s)\<lparr>normal_task_queue := nq\<rparr>\<rparr>)
        }
      else Some (Nothing, s))"

definition take_task :: "PROC_EDGE option \<Rightarrow> edge_st \<Rightarrow> (pick \<times> edge_st) option" where
  "take_task ready s =
     (if ready \<noteq> None \<and> get_queue_size (future_task_queue (st_dev s)) \<noteq> 0 then
        let (_, task, fq) = find_next_future_task (future_task_queue (st_dev s))
              (\<lambda>r. done_partition (st_hmb s) (uint r)) (the ready) True
        in Some (Future task, s\<lparr>st_dev := (st_dev s)\<lparr>future_task_queue := fq\<rparr>\<rparr>)
      else take_normal s)"

definition select_task :: "edge_env \<Rightarrow> edge_st \<Rightarrow> (pick \<times> edge_st) option" where
  "select_task X s =
     (let (stop, s) = should_stop X s in
      if stop then Some (Stopped, s)
      else do {
        (r, s) \<leftarrow> (if get_queue_size (future_task_queue (st_dev s)) \<noteq> 0 then future_front X s
                   else Some (Some None, s));
        (case r of None \<Rightarrow> Some (Stopped, s) | Some ready \<Rightarrow> take_task ready s)
      })"

definition edge_pass :: "edge_env \<Rightarrow> edge_st \<Rightarrow> (pick \<times> bool \<times> edge_st) option" where
  "edge_pass X s =
     do {
       (p, s) \<leftarrow> select_task X s;
       (case p of
          Stopped \<Rightarrow> Some (p, False, s)
        | Nothing \<Rightarrow> Some (p, True, s)
        | Future task \<Rightarrow> do { (ok, s) \<leftarrow> run_task X True task s; Some (p, ok, s) }
        | Normal task \<Rightarrow> do { (ok, s) \<leftarrow> run_task X False task s; Some (p, ok, s) })
     }"

definition has_tasks :: "edge_st \<Rightarrow> bool" where
  "has_tasks s \<longleftrightarrow> get_queue_size (normal_task_queue (st_dev s)) \<noteq> 0 \<or> get_queue_size (future_task_queue (st_dev s)) \<noteq> 0"

partial_function (option) do_perform_edge_proc :: "edge_env \<Rightarrow> edge_st \<Rightarrow> edge_st option" where
  "do_perform_edge_proc X s =
     (if \<not> has_tasks s then Some s
      else do {
        (_, ok, s) \<leftarrow> edge_pass X s;
        if \<not> ok then Some s else do_perform_edge_proc X s
      })"

end
