(* ===== verification/Edge_Sched.thy ===== *)
theory Edge_Sched
  imports Edge_Proc
begin

text \<open>
  Properties of the asynchronous edge engine. \<open>adv\<close> relates the states before and after a stretch of the
  engine's code that starts no task and requeues none: time passes, the future queue is left alone, the
  normal queue only grows at its end, and the invariants of caches and queues are kept. \<open>calm\<close> says in
  addition that the stretch does not touch the shared buffer itself. On this the effect of a task, the choice
  of tasks and the progress of a pass are proved.
\<close>

section \<open>Invariant and frame\<close>

definition task_ok :: "PROC_EDGE \<Rightarrow> bool" where
  "task_ok t \<longleftrightarrow> 0 \<le> sint (edge_block_len t) \<and> 0 \<le> sint (nsecs_target t) \<and>
     unat (pe_r t) < MAX_PARTITION \<and> unat (pe_c t) < MAX_PARTITION"

definition env_ok :: "edge_env \<Rightarrow> bool" where
  "env_ok X \<longleftrightarrow> (\<forall>x \<ge> 0. 0 \<le> fd_of X x) \<and>
     (\<forall>n. \<forall>t \<in> set (x_submit X n). task_ok t)"

abbreviation nq :: "edge_st \<Rightarrow> queue" where "nq s \<equiv> normal_task_queue (st_dev s)"
abbreviation fq :: "edge_st \<Rightarrow> queue" where "fq s \<equiv> future_task_queue (st_dev s)"

definition engine_inv :: "edge_env \<Rightarrow> edge_st \<Rightarrow> bool" where
  "engine_inv X s \<longleftrightarrow> edge_ok (e_P (x_csd X)) (st_eb s) \<and> vertex_wf (vertex_buf (st_dev s)) \<and> queue_wf (nq s) \<and> queue_wf (fq s) \<and>
     (\<forall>t \<in> set (q_items (nq s)) \<union> set (q_items (fq s)). task_ok t) \<and>
     -1 \<le> prefetched_priority (st_eb s) \<and> prefetched_priority (st_eb s) < 7"

text \<open>No new tasks, and a host that leaves the shared buffer alone.\<close>

definition no_submit :: "edge_env \<Rightarrow> bool" where
  "no_submit X \<longleftrightarrow> (\<forall>n. x_submit X n = [])"

definition quiet :: "edge_env \<Rightarrow> bool" where
  "quiet X \<longleftrightarrow> (\<forall>n h. x_host X n h = h) \<and> no_submit X"

definition adv :: "edge_env \<Rightarrow> edge_st \<Rightarrow> edge_st \<Rightarrow> bool" where
  "adv X s s' \<longleftrightarrow> tick (st_dev s) \<le> tick (st_dev s') \<and> fq s' = fq s \<and>
     (\<exists>ts. q_items (nq s') = q_items (nq s) @ ts) \<and> (no_submit X \<longrightarrow> nq s' = nq s) \<and>
     (env_ok X \<longrightarrow> engine_inv X s \<longrightarrow> engine_inv X s')"

definition calm :: "edge_env \<Rightarrow> edge_st \<Rightarrow> edge_st \<Rightarrow> bool" where
  "calm X s s' \<longleftrightarrow> adv X s s' \<and> (quiet X \<longrightarrow> st_hmb s' = st_hmb s)"

lemma adv_refl [simp]: "adv X s s"
  by (simp add: adv_def)

lemma calm_refl [simp]: "calm X s s"
  by (simp add: calm_def)

lemma adv_trans [trans]: "adv X s t \<Longrightarrow> adv X t u \<Longrightarrow> adv X s u"
  unfolding adv_def by force

lemma calm_trans [trans]: "calm X s t \<Longrightarrow> calm X t u \<Longrightarrow> calm X s u"
  unfolding calm_def using adv_trans by auto

lemma calm_adv: "calm X s t \<Longrightarrow> adv X s t"
  by (simp add: calm_def)

lemma submit_async_grows:
  "\<exists>ys. set ys \<subseteq> set ts \<and> q_items (fold submit_async ts q) = q_items q @ ys \<and>
     q_size (fold submit_async ts q) = q_size q + int (length ys)"
proof (induction ts arbitrary: q)
  case (Cons t ts)
  obtain ys where y: "set ys \<subseteq> set ts" "q_items (fold submit_async ts (submit_async t q)) = q_items (submit_async t q) @ ys"
    "q_size (fold submit_async ts (submit_async t q)) = q_size (submit_async t q) + int (length ys)"
    using Cons.IH [of "submit_async t q"] by blast
  show ?case
  proof (cases "queue_find q t")
    case True
    then have "submit_async t q = q" by (simp add: submit_async_def)
    with y show ?thesis by (intro exI [of _ ys]) auto
  next
    case False
    then have "submit_async t q = queue_enqueue True t q" by (simp add: submit_async_def)
    with y show ?thesis by (intro exI [of _ "t # ys"]) (auto simp: queue_enqueue_def)
  qed
qed simp

lemma calm_observe: "calm X s (observe X s)"
proof -
  obtain ys where y: "set ys \<subseteq> set (x_submit X (tick (st_dev s)))"
    "q_items (nq (observe X s)) = q_items (nq s) @ ys" "q_size (nq (observe X s)) = q_size (nq s) + int (length ys)"
    using submit_async_grows [of "x_submit X (tick (st_dev s))" "nq s"] by (auto simp: observe_def Let_def)
  have "no_submit X \<longrightarrow> nq (observe X s) = nq s" "quiet X \<longrightarrow> st_hmb (observe X s) = st_hmb s"
    by (simp_all add: quiet_def no_submit_def observe_def Let_def)
  moreover have "engine_inv X (observe X s)" if "env_ok X" "engine_inv X s"
    using that y by (auto simp: engine_inv_def env_ok_def queue_wf_def observe_def Let_def)
  moreover have "tick (st_dev s) \<le> tick (st_dev (observe X s))" "fq (observe X s) = fq s"
    by (simp_all add: observe_def Let_def)
  ultimately show ?thesis using y(2) by (simp add: calm_def adv_def)
qed

lemma observe_eb [simp]: "st_eb (observe X s) = st_eb s" "vertex_buf (st_dev (observe X s)) = vertex_buf (st_dev s)"
  by (simp_all add: observe_def Let_def)

lemma observers [simp]:
  "snd (clock X s) = observe X s" "snd (should_stop X s) = observe X s" "snd (kmalloc_ok X s) = observe X s"
  "snd (jiffies X s) = observe X s"
  by (simp_all add: clock_def should_stop_def kmalloc_ok_def jiffies_def)

lemma upd_eb_fields [simp]:
  "st_hmb (upd_eb f s) = st_hmb s" "nq (upd_eb f s) = nq s" "fq (upd_eb f s) = fq s" "tick (st_dev (upd_eb f s)) = tick (st_dev s)"
  "vertex_buf (st_dev (upd_eb f s)) = vertex_buf (st_dev s)" "st_eb (upd_eb f s) = f (st_eb s)"
  by (simp_all add: upd_eb_def)

lemma upd_hmb_fields [simp]:
  "st_hmb (upd_hmb f s) = f (st_hmb s)" "st_dev (upd_hmb f s) = st_dev s"
  by (simp_all add: upd_hmb_def)

text \<open>Changes of the cache record that keep its units and counters in order.\<close>

lemma calm_upd_eb:
  assumes "env_ok X \<Longrightarrow> engine_inv X s \<Longrightarrow> edge_ok (e_P (x_csd X)) (f (st_eb s)) \<and> -1 \<le> prefetched_priority (f (st_eb s)) \<and> prefetched_priority (f (st_eb s)) < 7"
  shows "calm X s (upd_eb f s)"
  using assms by (auto simp: calm_def adv_def engine_inv_def)

lemma calm_upd_stat:
  assumes "eb_units (f (st_eb s)) = eb_units (st_eb s)" "eb_size (f (st_eb s)) = eb_size (st_eb s)"
    "eb_capacity (f (st_eb s)) = eb_capacity (st_eb s)" "prefetched_priority (f (st_eb s)) = prefetched_priority (st_eb s)"
  shows "calm X s (upd_eb f s)"
  using assms by (intro calm_upd_eb) (auto simp: engine_inv_def edge_ok_def edge_wf_def)

text \<open>An observation followed by a change of the statistics.\<close>

lemma calm_stat:
  assumes "\<And>eb. eb_units (f eb) = eb_units eb \<and> eb_size (f eb) = eb_size eb \<and> eb_capacity (f eb) = eb_capacity eb \<and>
    prefetched_priority (f eb) = prefetched_priority eb"
  shows "calm X s (upd_eb f s)" and "calm X s (upd_eb f (observe X s))"
  using assms calm_observe calm_upd_stat calm_trans by blast+

lemma adv_upd_hmb: "adv X s (upd_hmb f s)"
  by (simp add: adv_def engine_inv_def)

section \<open>Waiting\<close>

lemma calm_ema_sample: "calm X s (ema_sample X i s)"
  by (simp add: ema_sample_def clock_def calm_stat(2))

lemma calm_ema_samples: "calm X s (ema_samples X s)"
proof -
  have "calm X s (fold (ema_sample X) is s)" for "is" s
    by (induction "is" arbitrary: s) (auto intro: calm_trans [OF calm_ema_sample])
  then show ?thesis by (simp add: ema_samples_def)
qed

lemma calm_wait:
  assumes "wait_sampling X b t s = Some p"
  shows "calm X s (snd p)"
  using assms
proof (rule wait_sampling.raw_induct [where P = "\<lambda>X b t s p. calm X s (snd p)", rotated], goal_cases)
  case (1 W X b t s p)
  have o: "calm X s (observe X (observe X s))" using calm_trans [OF calm_observe calm_observe] .
  show ?case
  proof (cases "fst (clock X s) < t \<and> \<not> fst (should_stop X (observe X s))")
    case True
    let ?u = "if b then ema_samples X (observe X (observe X s)) else observe X (observe X s)"
    have u: "calm X s ?u" using o calm_trans [OF o calm_ema_samples] by simp
    from True 1(2) have "W X b t ?u = Some p" by (simp add: Let_def split_beta)
    from calm_trans [OF u 1(1) [OF this]] show ?thesis .
  next
    case False
    then have "p = (False, observe X (observe X s)) \<or> p = (True, observe X s)"
      using 1(2) by (cases "fst (clock X s) < t") (simp_all add: Let_def split_beta)
    then show ?thesis using o calm_observe [of X s] by auto
  qed
qed

text \<open>A thread that is never told to stop waits to the end.\<close>

definition never_stops :: "edge_env \<Rightarrow> bool" where
  "never_stops X \<longleftrightarrow> (\<forall>n. \<not> e_stop (x_csd X) n)"

lemma should_stop_False [simp]: "never_stops X \<Longrightarrow> should_stop X s = (False, observe X s)"
  by (simp add: should_stop_def never_stops_def)

lemma wait_never_stops:
  assumes "wait_sampling X b t s = Some p" and "never_stops X"
  shows "fst p"
proof -
  have "never_stops X \<longrightarrow> fst p"
    using assms(1)
  proof (rule wait_sampling.raw_induct [where P = "\<lambda>X b t s p. never_stops X \<longrightarrow> fst p", rotated], goal_cases)
    case (1 W X b t s p)
    show ?case
    proof
      assume n: "never_stops X"
      show "fst p"
      proof (cases "fst (clock X s) < t")
        case True
        then show ?thesis using 1(2) 1(1) n by (simp add: Let_def split_beta)
      next
        case False
        then show ?thesis using 1(2) by (auto simp: Let_def split_beta)
      qed
    qed
  qed
  with assms(2) show ?thesis by blast
qed

lemma calm_poll:
  assumes "poll_flag X flag timeout s = Some p"
  shows "calm X s (snd p)"
  using assms
proof (rule poll_flag.raw_induct [where P = "\<lambda>X flag timeout s p. calm X s (snd p)", rotated], goal_cases)
  case (1 W X flag timeout s p)
  have o: "calm X s (observe X (observe X s))" using calm_trans [OF calm_observe calm_observe] .
  consider "p = (True, s)" | "p = (False, observe X s)" | "p = (True, observe X (observe X s))"
    | "W X flag timeout (observe X (observe X s)) = Some p"
    using 1(2) by (cases "flag (st_hmb s)"; cases "fst (should_stop X s)"; cases "time_after (fst (jiffies X (observe X s))) timeout")
      (simp_all add: Let_def split_beta)
  then show ?case
  proof cases
    case 4
    from calm_trans [OF o 1(1) [OF this]] show ?thesis .
  qed (use o calm_observe [of X s] in simp_all)
qed

section \<open>The effect of a task\<close>

text \<open>What a block contributes to the shared buffer.\<close>

definition run_block :: "edge_env \<Rightarrow> bool \<Rightarrow> PROC_EDGE \<Rightarrow> hmb_device \<Rightarrow> hmb_device" where
  "run_block X fut task hmb = mark_done fut task (task_kernel X fut task (mark_window X fut task hmb))"

lemma calm_note_aggr_start:
  assumes "note_aggr_start X task s = Some s'"
  shows "calm X s s'"
proof (cases "cost_modeling task \<noteq> 0 \<and> is_fvc task = 0 \<and> starts_aggr task")
  case True
  then have "s' = upd_eb (\<lambda>eb. eb\<lparr>aggr_start_time := (aggr_start_time eb)[unat (pe_c task) := fst (clock X s)]\<rparr>) (observe X s)"
    using assms by (simp add: note_aggr_start_def Let_def split_beta split: if_splits)
  then show ?thesis using calm_stat(2) by simp
next
  case False
  then have "s' = s" using assms unfolding note_aggr_start_def by (metis option.inject)
  then show ?thesis by simp
qed

lemma proc_edge_spec:
  assumes "proc_edge X fut task s = Some s'"
  shows "adv X s s'" and "quiet X \<Longrightarrow> never_stops X \<Longrightarrow> st_hmb s' = run_block X fut task (st_hmb s)"
proof -
  let ?s1 = "observe X (upd_hmb (mark_window X fut task) s)"
  let ?s2 = "observe X (upd_hmb (task_kernel X fut task) ?s1)"
  have 1: "adv X s ?s1" using adv_trans [OF adv_upd_hmb calm_adv [OF calm_observe]] .
  have 2: "adv X s ?s2" using adv_trans [OF 1 adv_trans [OF adv_upd_hmb calm_adv [OF calm_observe]]] .
  obtain ok u where w: "wait_sampling X (cost_modeling task \<noteq> 0)
      (mcu_end_time (fd_of X) (fst (clock X (upd_hmb (mark_window X fut task) s))) (fst (clock X (upd_hmb (task_kernel X fut task) ?s1)))) ?s2 = Some (ok, u)"
    and u: "if ok then note_aggr_start X task (upd_hmb (mark_done fut task) u) = Some s' else s' = u"
    using assms by (auto simp: proc_edge_def Let_def split_beta bind_eq_Some_conv split: if_splits)
  have cu: "calm X ?s2 u" using calm_wait [OF w] by simp
  have au: "adv X s u" using adv_trans [OF 2 calm_adv [OF cu]] .
  show "adv X s s'"
  proof (cases ok)
    case True
    with u have "calm X (upd_hmb (mark_done fut task) u) s'" using calm_note_aggr_start by simp
    then show ?thesis using adv_trans [OF au adv_trans [OF adv_upd_hmb calm_adv]] by blast
  qed (use au u in simp)
  assume q: "quiet X" and n: "never_stops X"
  have "ok" using wait_never_stops [OF w n] by simp
  then have "calm X (upd_hmb (mark_done fut task) u) s'" using u calm_note_aggr_start by simp
  moreover have "st_hmb (observe X v) = st_hmb v" for v using q calm_observe [of X v] by (simp add: calm_def)
  ultimately show "st_hmb s' = run_block X fut task (st_hmb s)" using q cu by (simp add: calm_def run_block_def)
qed

section \<open>Prefetching keeps the caches in order\<close>

lemma trunc_nonneg: "0 \<le> x \<Longrightarrow> 0 \<le> trunc x"
  by (simp add: trunc_def)

lemma prefetch_goal_nonneg:
  assumes "env_ok X" and "task_ok task" and "0 < time_left" and "0 \<le> sz"
  shows "0 \<le> prefetch_goal X task time_left sz"
proof -
  have fd: "0 \<le> x \<Longrightarrow> 0 \<le> fd_of X x" for x using assms(1) by (simp add: env_ok_def)
  have d: "0 \<le> i \<Longrightarrow> 0 \<le> dbl X i" for i by (simp add: dbl_def fd)
  have io: "0 \<le> sint (nsecs_target task)" "0 \<le> sint (edge_block_len task)" using assms(2) by (simp_all add: task_ok_def)
  let ?r = "if sint (nsecs_target task) = 0 then 1 else fd_of X (dbl X time_left / dbl X (sint (nsecs_target task)))"
  have "0 \<le> ?r" using io assms(3) by (simp add: fd d)
  then have "0 \<le> (if ?r > 1 then 1 else ?r)" by (simp del: not_less)
  then have "0 \<le> trunc (fd_of X (dbl X (uint (edge_block_len task)) * (if ?r > 1 then 1 else ?r)))"
    by (intro trunc_nonneg fd mult_nonneg_nonneg d) (simp_all del: not_less)
  then show ?thesis using io assms(4) unfolding prefetch_goal_def Let_def by (simp del: not_less)
qed

lemma cached_bytes_nonneg: "edge_wf eb \<Longrightarrow> 0 \<le> cached_bytes task eb"
  using eb.lookup_ge [of eb "(sint (pe_r task), sint (pe_c task))"]
  by (auto simp: cached_bytes_def Let_def get_edge_block_size_lookup eb_wf_iff)

lemma calm_inv: "calm X s s' \<Longrightarrow> env_ok X \<Longrightarrow> engine_inv X s \<Longrightarrow> engine_inv X s'"
  by (simp add: calm_def adv_def)

lemma calm_fq: "calm X s s' \<Longrightarrow> fq s' = fq s"
  by (simp add: calm_def adv_def)

text \<open>An access keeps the edge cache in order; with partial eviction on it must not ask for a negative size.\<close>

lemma calm_access:
  assumes "partial_edge_eviction (e_P (x_csd X)) \<noteq> 0 \<Longrightarrow> env_ok X \<Longrightarrow> engine_inv X s \<Longrightarrow> 0 \<le> sz"
  shows "calm X s (upd_eb (\<lambda>eb. snd (access_edge_block (e_P (x_csd X)) ok agg r c sz pf eb)) s)"
proof (rule calm_upd_eb)
  assume e: "env_ok X" and i: "engine_inv X s"
  then have ok: "edge_ok (e_P (x_csd X)) (st_eb s)" and p: "-1 \<le> prefetched_priority (st_eb s)" "prefetched_priority (st_eb s) < 7"
    by (simp_all add: engine_inv_def)
  have "edge_ok (e_P (x_csd X)) (snd (access_edge_block (e_P (x_csd X)) ok agg r c sz pf (st_eb s)))"
    using edge_ok_access [OF ok] assms e i by blast
  moreover have "prefetched_priority (snd (access_edge_block (e_P (x_csd X)) ok agg r c sz pf (st_eb s))) = prefetched_priority (st_eb s)"
    using access_edge_block_sum ok by (simp add: edge_ok_def)
  ultimately show "edge_ok (e_P (x_csd X)) (snd (access_edge_block (e_P (x_csd X)) ok agg r c sz pf (st_eb s))) \<and>
    - 1 \<le> prefetched_priority (snd (access_edge_block (e_P (x_csd X)) ok agg r c sz pf (st_eb s))) \<and>
    prefetched_priority (snd (access_edge_block (e_P (x_csd X)) ok agg r c sz pf (st_eb s))) < 7"
    using p by simp
qed

lemma calm_prefetch_edge_block:
  assumes "env_ok X \<Longrightarrow> engine_inv X s \<Longrightarrow> task_ok task"
  shows "calm X s (snd (snd (prefetch_edge_block X task pf time_left s)))"
proof (cases "edge_block_len task = 0 \<or> time_left \<le> 0 \<or>
    word_of_int (get_edge_block_size (st_eb s) (sint (pe_r task)) (sint (pe_c task))) = edge_block_len task")
  case False
  let ?o = "observe X s" and ?g = "prefetch_goal X task time_left (cached_bytes task (st_eb s))"
  let ?f = "\<lambda>eb. snd (access_edge_block (e_P (x_csd X)) (fst (kmalloc_ok X s)) (done_partition (st_hmb ?o)) (sint (pe_r task)) (sint (pe_c task)) ?g pf eb)"
  have "0 \<le> ?g" if "partial_edge_eviction (e_P (x_csd X)) \<noteq> 0" "env_ok X" "engine_inv X ?o" and "engine_inv X s"
    using that False assms cached_bytes_nonneg by (intro prefetch_goal_nonneg) (auto simp: engine_inv_def edge_ok_def)
  then have "calm X ?o (upd_eb ?f ?o)" if "engine_inv X s" using that by (intro calm_access)
  then have a: "calm X s (upd_eb ?f ?o)" if "engine_inv X s" using that calm_trans [OF calm_observe] by blast
  have a': "calm X s (upd_eb ?f ?o)"
  proof (cases "engine_inv X s")
    case False
    have "calm X s ?o" by (rule calm_observe)
    with False show ?thesis by (simp add: calm_def adv_def)
  qed (rule a)
  obtain k where "snd (snd (prefetch_edge_block X task pf time_left s)) = upd_eb (\<lambda>eb. eb\<lparr>prefetched_size := k\<rparr>) (upd_eb ?f ?o)"
    using False by (simp add: prefetch_edge_block_def Let_def split_beta)
  then show ?thesis using calm_trans [OF a' calm_stat(1)] by simp
qed (auto simp: prefetch_edge_block_def Let_def)

lemma calm_prefetch_one:
  assumes "env_ok X \<Longrightarrow> engine_inv X s \<Longrightarrow> task_ok nxt" and "prio < 7"
  shows "calm X s (snd (snd (prefetch_one X prio pf nxt (n, time_left, s))))"
proof -
  let ?u = "snd (snd (prefetch_edge_block X nxt pf time_left s))"
  have 1: "calm X s ?u" using calm_prefetch_edge_block assms(1) .
  have 2: "calm X v (upd_eb (\<lambda>eb. eb\<lparr>prefetched_r := a, prefetched_c := b, prefetched_iter := c,
      prefetch_block_cnt_arr := (prefetch_block_cnt_arr eb)[prio := prefetch_block_cnt_arr eb ! prio + 1],
      prefetched_priority := int prio\<rparr>) v)" for v a b c
    using assms(2) by (intro calm_upd_eb) (auto simp: engine_inv_def edge_ok_def edge_wf_def)
  show ?thesis
    using calm_trans [OF 1 calm_stat(1)] calm_trans [OF calm_trans [OF 1 calm_stat(1)] 2]
    by (simp add: prefetch_one_def Let_def split_beta)
qed

lemma calm_prefetch_ready:
  assumes "set ts \<subseteq> set (q_items (fq (snd (snd p))))"
  shows "calm X (snd (snd p)) (snd (snd (prefetch_ready X ts p)))"
  using assms
proof (induction X ts p rule: prefetch_ready.induct)
  case (2 X t ts p)
  let ?q = "prefetch_one X 2 1 t p"
  have c: "calm X (snd (snd p)) (snd (snd ?q))"
    using calm_prefetch_one [of X "snd (snd p)" t 2 1 "fst p" "fst (snd p)"] "2.prems" by (auto simp: engine_inv_def)
  show ?case
  proof (cases "done_partition (st_hmb (snd (snd p))) (uint (pe_r t)) \<and> \<not> fst (snd ?q) \<le> 0")
    case True
    then have "calm X (snd (snd ?q)) (snd (snd (prefetch_ready X ts ?q)))"
      using "2.IH"(1) "2.prems" calm_fq [OF c] by auto
    with calm_trans [OF c] True show ?thesis by (simp add: Let_def)
  next
    case False
    then show ?thesis using "2.IH"(2) "2.prems" c by (auto simp: Let_def)
  qed
qed simp

lemma calm_plan_ready: "calm X (snd (snd p)) (snd (snd (plan_ready X p)))"
  using calm_prefetch_ready [of "rev (q_items (fq (snd (snd p))))" p X] by (simp add: plan_ready_def Let_def)

lemma front_ok: "snd (get_queue_front q) = Some t \<Longrightarrow> t \<in> set (q_items q)"
  by (auto simp: get_queue_front_def split: if_splits)

lemma calm_prefer_future:
  assumes "prefer_future X task ratio nxt s = Some (b, s')"
  shows "calm X s s'"
proof -
  consider "s' = s" | "s' = observe X s" | "s' = upd_eb (\<lambda>eb. eb\<lparr>pr_reverse := True\<rparr>) (observe X s)"
  proof (cases "get_queue_size (fq s) \<noteq> 0 \<and> \<not> done_partition (st_hmb s) (uint (pe_r nxt)) \<and> ema_aggr (st_eb s) > 0")
    case False
    then have "s' = s" using assms unfolding prefer_future_def by (simp only: if_False) simp
    then show ?thesis using that(1) by blast
  next
    case True
    then have "s' = observe X s \<or> s' = upd_eb (\<lambda>eb. eb\<lparr>pr_reverse := True\<rparr>) (observe X s)"
      using assms unfolding prefer_future_def Let_def split_beta observers
      by (simp only: if_True) (metis (no_types, lifting) option.distinct(1) option.inject prod.inject)
    then show ?thesis using that(2,3) by blast
  qed
  then show ?thesis by cases (simp_all add: calm_observe calm_stat(2))
qed

lemma calm_plan_normal:
  assumes "plan_normal X task ratio p = Some p'"
  shows "calm X (snd (snd p)) (snd (snd p'))"
proof -
  obtain n tm s where p: "p = (n, tm, s)" by (cases p)
  show ?thesis
  proof (cases "tm > 0 \<and> get_queue_size (nq s) \<noteq> 0")
    case True
    then obtain nxt b s1 where f: "snd (get_queue_front (nq s)) = Some nxt" "prefer_future X task ratio nxt s = Some (b, s1)"
      and p': "p' = prefetch_one X 3 2 nxt (n, tm, s1) \<or> p' = (n, tm, s1)"
      using assms by (auto simp: p plan_normal_def Let_def bind_eq_Some_conv split: if_splits)
    have c: "calm X s s1" using calm_prefer_future [OF f(2)] .
    have "nxt \<in> set (q_items (nq s1))" using front_ok [OF f(1)] c by (auto simp: calm_def adv_def)
    then have "calm X s1 (snd (snd (prefetch_one X 3 2 nxt (n, tm, s1))))"
      by (intro calm_prefetch_one) (auto simp: engine_inv_def)
    then show ?thesis using p' calm_trans [OF c] c by (auto simp: p)
  next
    case False
    then have "p' = p" using assms by (auto simp: p plan_normal_def Let_def)
    then show ?thesis by simp
  qed
qed

lemma calm_plan_waiting:
  assumes "plan_waiting X p = Some p'"
  shows "calm X (snd (snd p)) (snd (snd p'))"
proof -
  obtain n tm s where p: "p = (n, tm, s)" by (cases p)
  consider "p' = p" | nxt where "snd (get_queue_front (fq s)) = Some nxt" "p' = prefetch_one X 4 1 nxt (n, tm, s)"
    using assms by (auto simp: p plan_waiting_def Let_def bind_eq_Some_conv split: if_splits)
  then show ?thesis
  proof cases
    case 2
    have "nxt \<in> set (q_items (fq s))" using front_ok [OF 2(1)] .
    then show ?thesis unfolding p 2(2) by (simp only: snd_conv) (intro calm_prefetch_one; auto simp: engine_inv_def)
  qed simp
qed

lemma calm_plan_next_iter:
  assumes "plan_next_iter X task p = Some p'"
  shows "calm X (snd (snd p)) (snd (snd p'))"
proof -
  obtain n tm s where p: "p = (n, tm, s)" by (cases p)
  consider "p' = p" | nxt where "snd (get_queue_front (nq s)) = Some nxt" "p' = prefetch_one X 5 3 nxt (n, tm, s)"
    using assms by (auto simp: p plan_next_iter_def Let_def bind_eq_Some_conv split: if_splits)
  then show ?thesis
  proof cases
    case 2
    have "nxt \<in> set (q_items (nq s))" using front_ok [OF 2(1)] .
    then show ?thesis unfolding p 2(2) by (simp only: snd_conv) (intro calm_prefetch_one; auto simp: engine_inv_def)
  qed simp
qed

lemma calm_plan_prefetch:
  assumes "plan_prefetch X task ratio tm s = Some s'"
  shows "calm X s s'"
proof -
  let ?s = "upd_eb (\<lambda>eb. eb\<lparr>prefetched_r := -1, prefetched_c := -1, prefetched_iter := -1\<rparr>) s"
  have c0: "calm X s ?s" by (rule calm_stat(1)) simp
  show ?thesis
  proof (cases "tm > 0")
    case True
    then obtain p n t u q where p: "plan_normal X task ratio (plan_ready X (0, tm, ?s)) = Some p"
      and w: "plan_waiting X p = Some (n, t, u)"
      and x: "plan_next_iter X task (n, t, upd_eb (\<lambda>eb. eb\<lparr>pr_reverse := False\<rparr>) u) = Some q" "snd (snd q) = s'"
      using assms by (auto simp: plan_prefetch_def Let_def bind_eq_Some_conv)
    have "calm X ?s (snd (snd (plan_ready X (0, tm, ?s))))" using calm_plan_ready [of X "(0, tm, ?s)"] by simp
    also have "calm X \<dots> (snd (snd p))" using calm_plan_normal [OF p] .
    also have "calm X \<dots> u" using calm_plan_waiting [OF w] by simp
    also have "calm X u (upd_eb (\<lambda>eb. eb\<lparr>pr_reverse := False\<rparr>) u)" by (rule calm_stat(1)) simp
    also have "calm X \<dots> s'" using calm_plan_next_iter [OF x(1)] x(2) by simp
    finally show ?thesis by (rule calm_trans [OF c0])
  next
    case False
    then show ?thesis using assms c0 by (simp add: plan_prefetch_def Let_def)
  qed
qed

section \<open>A task from start to end\<close>

lemma pipeline_shape:
  obtains rt tm u where "calm X s u" and "pipeline X fut task pt miss ratio s =
    (if unat (is_prefetching task) \<ge> 2 then plan_prefetch X task rt tm u \<bind> (\<lambda>s. Some (rt, s)) else Some (rt, u))"
proof -
  let ?f = "\<lambda>eb. eb\<lparr>prefetch_hit_cnt := prefetch_hit_cnt eb + (if prefetch_hit task eb then prefetched_size eb else 0),
                total_prefetch_cnt := total_prefetch_cnt eb + prefetched_size eb, prefetched_size := 0\<rparr>"
  let ?g = "\<lambda>eb. eb\<lparr>eb_hit_cnt := eb_hit_cnt eb + div_page (min (trunc (fd_of X (fd_of X
         ((if nsecs_target task = 0 then 0 else fd_of X (dbl X pt / dbl X (uint (nsecs_target task)))) * ratio)
         * dbl X (uint (edge_block_len task))))) miss)\<rparr>"
  have "calm X s (upd_eb ?g (upd_eb ?f s))" by (rule calm_trans; rule calm_stat(1)) simp_all
  then show ?thesis by (rule that) (simp only: pipeline_def Let_def)
qed

lemma calm_pipeline:
  assumes "pipeline X fut task pt miss ratio s = Some (r', s')"
  shows "calm X s s'"
proof -
  obtain rt tm u where u: "calm X s u" and p: "pipeline X fut task pt miss ratio s =
    (if unat (is_prefetching task) \<ge> 2 then plan_prefetch X task rt tm u \<bind> (\<lambda>s. Some (rt, s)) else Some (rt, u))"
    by (rule pipeline_shape)
  have "u = s' \<or> plan_prefetch X task rt tm u = Some s'"
    using assms unfolding p by (auto simp: bind_eq_Some_conv split: if_splits)
  then show ?thesis using u calm_trans [OF u] calm_plan_prefetch by blast
qed

lemma calm_edge_access:
  assumes "task_ok task"
  shows "calm X s (snd (edge_access X fut task s))"
proof -
  let ?o = "observe X s" and ?r = "sint (pe_r task)" and ?c = "sint (pe_c task)"
  let ?a = "access_edge_block (e_P (x_csd X)) (fst (kmalloc_ok X s)) (done_partition (st_hmb ?o)) ?r ?c (sint (edge_block_len task)) 0"
  let ?u = "upd_eb (\<lambda>eb. snd (?a eb)) ?o"
  let ?v = "upd_eb (\<lambda>eb. if drops_block X fut task then invalidate_edge_block eb ?r ?c else eb) ?u"
  have 1: "calm X s ?u" using calm_trans [OF calm_observe calm_access] assms by (simp add: task_ok_def)
  have 2: "calm X ?u ?v"
  proof (rule calm_upd_eb)
    assume "engine_inv X ?u"
    then have "edge_ok (e_P (x_csd X)) (st_eb ?u)" "-1 \<le> prefetched_priority (st_eb ?u)" "prefetched_priority (st_eb ?u) < 7" by (simp_all add: engine_inv_def)
    then show "edge_ok (e_P (x_csd X)) (if drops_block X fut task then invalidate_edge_block (st_eb ?u) ?r ?c else st_eb ?u) \<and>
      -1 \<le> prefetched_priority (if drops_block X fut task then invalidate_edge_block (st_eb ?u) ?r ?c else st_eb ?u) \<and>
      prefetched_priority (if drops_block X fut task then invalidate_edge_block (st_eb ?u) ?r ?c else st_eb ?u) < 7"
      using edge_ok_invalidate [of _ "st_eb ?u" ?r ?c] invalidate_edge_block_sum [of "st_eb ?u" ?r ?c] by (simp add: edge_ok_def)
  qed
  have "snd (edge_access X fut task s) = ?v" by (simp add: edge_access_def Let_def split_beta upd_eb_def)
  with calm_trans [OF 1 2] show ?thesis by simp
qed

lemma calm_flash_wait:
  assumes "flash_wait X task t0 ratio s = Some (ok, s')"
  shows "calm X s s'"
proof -
  obtain k z where z: "wait_sampling X (cost_modeling task \<noteq> 0) (fst (clock X s) + trunc (fd_of X (dbl X (uint (nsecs_target task)) * ratio))) (observe X s) = Some (k, z)"
    and s': "if k then s' = upd_eb (\<lambda>eb. eb\<lparr>edge_internal_io_time := edge_internal_io_time eb + (fst (clock X z) - t0)\<rparr>) (observe X z) else s' = z"
    using assms by (auto simp: flash_wait_def Let_def split_beta bind_eq_Some_conv split: if_splits)
  have "calm X z s'" using s' calm_stat(2) by (auto split: if_splits)
  with calm_trans [OF calm_observe calm_wait [OF z]] show ?thesis using calm_trans by fastforce
qed

lemma calm_edge_io:
  assumes "edge_io X fut task pt s = Some (ok, s')" and "task_ok task"
  shows "calm X s s'"
proof -
  let ?v = "snd (edge_access X fut task (observe X s))"
  have 1: "calm X s ?v" using calm_trans [OF calm_observe calm_edge_access [OF assms(2)]] .
  obtain t0 miss ratio r' w where p: "(if is_prefetching task \<noteq> 0 then pipeline X fut task pt miss ratio ?v else Some (ratio, ?v)) = Some (r', w)"
    and q: "flash_wait X task t0 r' w = Some (ok, s')"
    using assms(1) unfolding edge_io_def Let_def split_beta observers by (auto simp: bind_eq_Some_conv)
  have 2: "calm X ?v w" using p calm_pipeline by (auto split: if_splits)
  show ?thesis using calm_trans [OF 1 calm_trans [OF 2 calm_flash_wait [OF q]]] .
qed

lemma calm_upd_vb:
  assumes "engine_inv X s \<Longrightarrow> vertex_wf vb"
  shows "calm X s (s\<lparr>st_dev := (st_dev s)\<lparr>vertex_buf := vb\<rparr>\<rparr>)"
  using assms by (auto simp: calm_def adv_def engine_inv_def)

lemma calm_vertex_access: "calm X s (snd (vertex_access X task s))"
proof -
  let ?n = "if num_partitions task = 0 then 0 else uint (num_vertices task) * VERTEX_SIZE div uint (num_partitions task)"
  have "0 \<le> ?n" by (simp add: VERTEX_SIZE_def div_int_pos_iff)
  then have "vertex_wf (snd (access_partition ok r v ?n vb))" if "vertex_wf vb" for ok r v vb
    using vertex_wf_access [OF that] by blast
  then show ?thesis unfolding vertex_access_def Let_def split_beta observers snd_conv
    by (intro calm_trans [OF calm_observe calm_upd_vb]) (simp add: engine_inv_def)
qed

lemma calm_vertex_io:
  assumes "vertex_io X fut task s = Some (ok, s')"
  shows "calm X s s'"
proof -
  let ?v = "snd (vertex_access X task (observe X s))"
  have 1: "calm X s ?v" using calm_trans [OF calm_observe calm_vertex_access] .
  obtain t k z where w: "(if fut then Some (True, ?v) else wait_sampling X False t (observe X ?v)) = Some (k, z)"
    and s': "if k then s' = upd_eb (\<lambda>eb. eb\<lparr>edge_external_io_time := edge_external_io_time eb + (fst (clock X z) - fst (clock X s))\<rparr>) (observe X z) else s' = z"
    using assms(1) unfolding vertex_io_def Let_def split_beta observers
    by (auto simp: bind_eq_Some_conv split: if_splits)
  have 2: "calm X ?v z"
  proof (cases fut)
    case False
    then have "wait_sampling X False t (observe X ?v) = Some (k, z)" using w by simp
    from calm_trans [OF calm_observe calm_wait [OF this]] show ?thesis by simp
  qed (use w in simp)
  have 3: "calm X z s'" using s' calm_stat(2) by (auto split: if_splits)
  show ?thesis using calm_trans [OF 1 calm_trans [OF 2 3]] .
qed

lemma calm_count_prefetch_hit:
  assumes "count_prefetch_hit task s = Some s'"
  shows "calm X s s'"
proof -
  obtain f where "s' = upd_eb f s" and "\<And>eb. eb_units (f eb) = eb_units eb \<and> eb_size (f eb) = eb_size eb \<and> eb_capacity (f eb) = eb_capacity eb \<and>
    prefetched_priority (f eb) = prefetched_priority eb"
    using assms unfolding count_prefetch_hit_def Let_def by (auto split: if_splits)
  then show ?thesis using calm_stat(1) by simp
qed

section \<open>Requeueing\<close>

text \<open>The tasks that follow a finished one: its future task, and the marker of the end of the iteration.\<close>

definition follow_up :: "bool \<Rightarrow> PROC_EDGE \<Rightarrow> PROC_EDGE list" where
  "follow_up fut task =
     (if fut then (if iter task mod 2 = 0 \<and> last_of_odd task then [task\<lparr>pe_r := 0, pe_c := 0\<rparr>] else [])
      else
        let t = (if has_future task then promote task else task) in
        (if has_future task then [t] else []) @
        (if iter t = num_iters t - 1 then
           if iter t mod 2 = 0 \<and> pe_r t = num_partitions t - 1 \<and> pe_c t = num_partitions t - 1 then [t\<lparr>iter := iter t + 1\<rparr>]
           else if iter t mod 2 = 1 \<and> last_of_odd t then [t\<lparr>pe_r := 0, pe_c := 0, iter := iter t + 1\<rparr>] else []
         else []))"

definition alloc_ok :: "edge_env \<Rightarrow> bool" where
  "alloc_ok X \<longleftrightarrow> (\<forall>n. e_kmalloc (x_csd X) n)"

definition appends :: "edge_env \<Rightarrow> PROC_EDGE list \<Rightarrow> edge_st \<Rightarrow> edge_st \<Rightarrow> bool" where
  "appends X ts s s' \<longleftrightarrow> tick (st_dev s) \<le> tick (st_dev s') \<and>
     (\<exists>ys. set ys \<subseteq> set ts \<and> q_items (fq s') = q_items (fq s) @ ys \<and> (alloc_ok X \<longrightarrow> ys = ts)) \<and>
     (\<exists>ys. q_items (nq s') = q_items (nq s) @ ys) \<and> (quiet X \<longrightarrow> nq s' = nq s \<and> st_hmb s' = st_hmb s) \<and>
     (env_ok X \<longrightarrow> engine_inv X s \<longrightarrow> (\<forall>t \<in> set ts. task_ok t) \<longrightarrow> engine_inv X s')"

lemma appends_nil: "appends X [] s s"
  by (simp add: appends_def)

lemma appends_append:
  assumes "appends X ts s t" and "appends X us t u"
  shows "appends X (ts @ us) s u"
proof -
  obtain ys where y: "set ys \<subseteq> set ts" "q_items (fq t) = q_items (fq s) @ ys" "alloc_ok X \<longrightarrow> ys = ts"
    using assms(1) by (auto simp: appends_def)
  obtain zs where z: "set zs \<subseteq> set us" "q_items (fq u) = q_items (fq t) @ zs" "alloc_ok X \<longrightarrow> zs = us"
    using assms(2) by (auto simp: appends_def)
  have "set (ys @ zs) \<subseteq> set (ts @ us) \<and> q_items (fq u) = q_items (fq s) @ ys @ zs \<and> (alloc_ok X \<longrightarrow> ys @ zs = ts @ us)"
    using y z by auto
  then have 1: "\<exists>ys. set ys \<subseteq> set (ts @ us) \<and> q_items (fq u) = q_items (fq s) @ ys \<and> (alloc_ok X \<longrightarrow> ys = ts @ us)" by blast
  have 2: "\<exists>ys. q_items (nq u) = q_items (nq s) @ ys" using assms unfolding appends_def by (metis append.assoc)
  have 3: "tick (st_dev s) \<le> tick (st_dev u)" "quiet X \<longrightarrow> nq u = nq s \<and> st_hmb u = st_hmb s"
    "env_ok X \<longrightarrow> engine_inv X s \<longrightarrow> (\<forall>t \<in> set (ts @ us). task_ok t) \<longrightarrow> engine_inv X u"
    using assms unfolding appends_def by simp_all
  show ?thesis unfolding appends_def using 1 2 3 by blast
qed

lemma appends_enqueue: "appends X [t] s (enqueue_future X t s)"
proof -
  have c: "calm X s (observe X s)" by (rule calm_observe)
  let ?ok = "e_kmalloc (x_csd X) (tick (st_dev s))"
  have f: "st_hmb (enqueue_future X t s) = st_hmb (observe X s)" "nq (enqueue_future X t s) = nq (observe X s)"
    "st_eb (enqueue_future X t s) = st_eb (observe X s)" "vertex_buf (st_dev (enqueue_future X t s)) = vertex_buf (st_dev (observe X s))"
    "tick (st_dev (enqueue_future X t s)) = tick (st_dev (observe X s))" "fq (enqueue_future X t s) = queue_enqueue ?ok t (fq s)"
    using calm_fq [OF c] by (simp_all add: enqueue_future_def kmalloc_ok_def)
  have i: "engine_inv X (enqueue_future X t s)" if "env_ok X" "engine_inv X s" "task_ok t"
    using calm_inv [OF c that(1,2)] that(2,3) queue_wf_enqueue calm_fq [OF c]
    by (auto simp: engine_inv_def f queue_enqueue_def)
  have "\<exists>ys. set ys \<subseteq> set [t] \<and> q_items (fq (enqueue_future X t s)) = q_items (fq s) @ ys \<and> (alloc_ok X \<longrightarrow> ys = [t])"
    by (rule exI [of _ "if ?ok then [t] else []"]) (auto simp: f queue_enqueue_def alloc_ok_def)
  then show ?thesis using c i by (simp add: appends_def f calm_def adv_def quiet_def)
qed

lemma appends_requeue:
  "appends X (follow_up fut task) s (if fut then requeue_future X task s else requeue_normal X task s)"
proof (cases fut)
  case True
  then show ?thesis by (simp add: follow_up_def requeue_future_def appends_nil appends_enqueue)
next
  case False
  let ?t = "if has_future task then promote task else task"
  let ?s = "if has_future task then enqueue_future X (promote task) s else s"
  have 1: "appends X (if has_future task then [?t] else []) s ?s" by (simp add: appends_nil appends_enqueue)
  have 2: "appends X (if iter ?t = num_iters ?t - 1 then
       if iter ?t mod 2 = 0 \<and> pe_r ?t = num_partitions ?t - 1 \<and> pe_c ?t = num_partitions ?t - 1 then [?t\<lparr>iter := iter ?t + 1\<rparr>]
       else if iter ?t mod 2 = 1 \<and> last_of_odd ?t then [?t\<lparr>pe_r := 0, pe_c := 0, iter := iter ?t + 1\<rparr>] else []
     else []) ?s (requeue_normal X task s)"
    by (simp add: requeue_normal_def Let_def appends_nil appends_enqueue)
  from appends_append [OF 1 2] show ?thesis using False by (simp add: follow_up_def Let_def cong: if_cong)
qed

lemma follow_up_ok: "task_ok task \<Longrightarrow> t \<in> set (follow_up fut task) \<Longrightarrow> task_ok t"
  by (auto simp: follow_up_def Let_def promote_def task_ok_def MAX_PARTITION_def split: if_splits)

section \<open>A pass\<close>

lemma flash_wait_never_stops: "flash_wait X task t0 ratio s = Some (ok, s') \<Longrightarrow> never_stops X \<Longrightarrow> ok"
  using wait_never_stops by (fastforce simp: flash_wait_def Let_def split_beta bind_eq_Some_conv split: if_splits)

lemma edge_io_never_stops: "edge_io X fut task pt s = Some (ok, s') \<Longrightarrow> never_stops X \<Longrightarrow> ok"
  unfolding edge_io_def Let_def split_beta observers using flash_wait_never_stops by (auto simp: bind_eq_Some_conv)

lemma vertex_io_never_stops: "vertex_io X fut task s = Some (ok, s') \<Longrightarrow> never_stops X \<Longrightarrow> ok"
  unfolding vertex_io_def Let_def split_beta observers using wait_never_stops
  by (fastforce simp: bind_eq_Some_conv split: if_splits)

lemma finish_task_spec:
  assumes "finish_task X fut task s = Some (ok, s')"
  obtains u where "calm X s u" and "never_stops X \<Longrightarrow> ok" and "appends X (if ok then follow_up fut task else []) u s'"
proof -
  obtain k u where v: "vertex_io X fut task s = Some (k, u)"
    and s': "(ok, s') = (if k then (True, if fut then requeue_future X task u else requeue_normal X task u) else (False, u))"
    using assms unfolding finish_task_def by (cases "vertex_io X fut task s") (auto split: if_splits)
  have "appends X (if ok then follow_up fut task else []) u s'"
    using s' appends_requeue [of X fut task u] appends_nil [of X u] by (simp split: if_splits)
  then show ?thesis using that [OF calm_vertex_io [OF v]] vertex_io_never_stops [OF v] s' by (auto split: if_splits)
qed

lemma run_task_spec:
  assumes "run_task X fut task s = Some (ok, s')" and "task_ok task"
  obtains u where "adv X s u" and "quiet X \<Longrightarrow> never_stops X \<Longrightarrow> st_hmb u = run_block X fut task (st_hmb s)"
    and "never_stops X \<Longrightarrow> ok" and "appends X (if ok then follow_up fut task else []) u s'"
proof -
  obtain s1 s2 k1 s3 where 1: "count_prefetch_hit task s = Some s1" and 2: "proc_edge X fut task (observe X s1) = Some s2"
    and 3: "edge_io X fut task (fst (clock X s2) - fst (clock X s1))
       (upd_eb (\<lambda>eb. eb\<lparr>edge_proc_time := edge_proc_time eb + (fst (clock X s2) - fst (clock X s1))\<rparr>) (observe X s2)) = Some (k1, s3)"
    and 4: "if k1 then finish_task X fut task s3 = Some (ok, s') else \<not> ok \<and> s' = s3"
    using assms(1) unfolding run_task_def Let_def split_beta observers
    by (clarsimp simp: bind_eq_Some_conv split: if_splits) (auto split: if_splits)
  have c1: "calm X s (observe X s1)" using calm_trans [OF calm_count_prefetch_hit [OF 1] calm_observe] .
  have c3: "calm X s2 s3" using calm_trans [OF calm_stat(2) calm_edge_io [OF 3 assms(2)]] by simp
  have "\<exists>u. calm X s3 u \<and> (never_stops X \<longrightarrow> ok) \<and> appends X (if ok then follow_up fut task else []) u s'"
  proof (cases k1)
    case True
    then have "finish_task X fut task s3 = Some (ok, s')" using 4 by simp
    then show ?thesis by (rule finish_task_spec) blast
  next
    case False
    then show ?thesis using 4 edge_io_never_stops [OF 3] appends_nil [of X s3] by (intro exI [of _ s3]) auto
  qed
  then obtain u where u: "calm X s3 u" "never_stops X \<longrightarrow> ok" "appends X (if ok then follow_up fut task else []) u s'" by blast
  have "adv X s u" using adv_trans [OF calm_adv [OF c1] adv_trans [OF proc_edge_spec(1) [OF 2] calm_adv [OF calm_trans [OF c3 u(1)]]]] .
  moreover have "st_hmb u = run_block X fut task (st_hmb s)" if "quiet X" "never_stops X"
    using proc_edge_spec(2) [OF 2 that] c1 calm_trans [OF c3 u(1)] that(1) by (simp add: calm_def)
  ultimately show ?thesis using that u(2,3) by blast
qed

section \<open>Choosing a task\<close>

lemma switch_iter_spec:
  assumes "switch_iter s = Some (task, s')"
  shows "q_items (fq s) = task # q_items (nq s')" and "fq s' = nq s" and "engine_inv X s \<Longrightarrow> engine_inv X s'"
proof -
  obtain ts where f: "q_items (fq s) = task # ts"
    and s': "s' = upd_hmb (\<lambda>h. h\<lparr>done_partition := (done_partition h)(ready_id task := True)\<rparr>)
      (swap_queues (s\<lparr>st_dev := (st_dev s)\<lparr>future_task_queue := (fq s)\<lparr>q_items := ts, q_size := q_size (fq s) - 1\<rparr>\<rparr>\<rparr>))"
    using assms by (auto simp: switch_iter_def queue_dequeue_def queue_take_def split: list.splits if_splits)
  show "q_items (fq s) = task # q_items (nq s')" "fq s' = nq s"
    using f by (simp_all add: s' swap_queues_def queue_swap_def Let_def)
  show "engine_inv X s'" if "engine_inv X s"
    using that f by (auto simp: s' engine_inv_def swap_queues_def queue_swap_def Let_def queue_wf_def)
qed

lemma end_of_iter_cases:
  assumes "end_of_iter X task s = Some (r, s')"
  obtains s1 where "calm X s s1" "r = None" "s' = s1"
  | s1 t s2 s3 where "calm X s s1" "switch_iter s1 = Some (t, s2)" "calm X s2 s3" "r = None" "s' = s3"
  | s1 t s2 s3 where "calm X s s1" "switch_iter s1 = Some (t, s2)" "calm X s2 s3" "r = Some t" "s' = upd_hmb (roll_slice t) s3"
proof -
  obtain k1 s1 where p1: "poll_flag X (\<lambda>h. done_partition h (uint (pe_r task))) (fst (jiffies X s) + x_timeout X) (observe X s) = Some (k1, s1)"
    using assms(1) unfolding end_of_iter_def Let_def split_beta observers by (auto simp: bind_eq_Some_conv)
  note r1 = assms(1) [unfolded end_of_iter_def Let_def split_beta observers p1 bind.bind_lunit fst_conv snd_conv]
  have c1: "calm X s s1" using calm_trans [OF calm_observe calm_poll [OF p1]] by simp
  show ?thesis
  proof (cases k1)
    case True
    then obtain t s2 k2 s3 where s2: "switch_iter s1 = Some (t, s2)"
      and p2: "poll_flag X (\<lambda>h. \<not> done_partition h (ready_id t)) (fst (jiffies X s2) + x_timeout X) (observe X s2) = Some (k2, s3)"
      and r2: "(r, s') = (if k2 then (Some t, upd_hmb (roll_slice t) s3) else (None, s3))"
      using r1 by (auto simp: bind_eq_Some_conv split: if_splits)
    have c2: "calm X s2 s3" using calm_trans [OF calm_observe calm_poll [OF p2]] by simp
    show ?thesis using that(2,3) [OF c1 s2 c2] r2 by (auto split: if_splits)
  qed (use that(1) c1 r1 in simp)
qed

lemma end_of_iter_inv:
  assumes "end_of_iter X task s = Some (r, s')" and "env_ok X" and "engine_inv X s"
  shows "engine_inv X s'"
  using assms(1)
proof (cases rule: end_of_iter_cases)
  case (3 s1 t s2 s3)
  then have "engine_inv X s3" using assms(2,3) calm_inv switch_iter_spec(3) by blast
  then show ?thesis using 3 by (simp add: engine_inv_def)
qed (use assms(2,3) calm_inv switch_iter_spec(3) in blast)+

lemma end_of_iter_empties:
  assumes "end_of_iter X task s = Some (Some t, s')" and "no_submit X" and "queue_wf (nq s)" and "q_items (nq s) = []"
  shows "get_queue_size (fq s') = 0"
  using assms(1)
proof (cases rule: end_of_iter_cases)
  case (3 s1 t s2 s3)
  have "nq s1 = nq s" using 3(1) assms(2) by (simp add: calm_def adv_def)
  then show ?thesis
    using 3 switch_iter_spec(2) [OF 3(2)] calm_fq [OF 3(3)] assms(3,4) by (simp add: get_queue_size_def queue_wf_def)
qed simp_all

lemma future_front_inv:
  assumes "future_front X s = Some (r, s')" and "env_ok X" and "engine_inv X s"
  shows "engine_inv X s'"
proof -
  obtain task t where "(if ends_iter task then end_of_iter X task s else Some (Some task, s)) = Some (t, s')"
    using assms(1) unfolding future_front_def Let_def by (auto simp: bind_eq_Some_conv split: option.splits)
  then show ?thesis using end_of_iter_inv assms(2,3) by (auto split: if_splits)
qed

text \<open>The future task that may run: the front, or the first or last one whose source partition is aggregated.\<close>

definition ready_idx :: "u32 \<Rightarrow> (PROC_EDGE \<Rightarrow> bool) \<Rightarrow> PROC_EDGE list \<Rightarrow> nat option" where
  "ready_idx ov agg fs =
     (if fs = [] then None
      else if ov = 0 then (if agg (hd fs) then Some 0 else None)
      else if ov = 1 then find_idx agg fs
      else map_option (\<lambda>i. length fs - 1 - i) (find_idx agg (rev fs)))"

lemma ready_idx_Some:
  assumes "ready_idx ov agg fs = Some i"
  shows "i < length fs \<and> agg (fs ! i)"
proof -
  consider "ov = 0" | "ov = 1" "ov \<noteq> 0" | "ov \<noteq> 0" "ov \<noteq> 1" by blast
  then show ?thesis
  proof cases
    case 3
    then obtain j where "find_idx agg (rev fs) = Some j" "i = length fs - 1 - j" "fs \<noteq> []"
      using assms by (auto simp: ready_idx_def split: if_splits)
    then show ?thesis using future_task_idx_rev [of agg fs j] find_idx_SomeD [of agg "rev fs" j] by auto
  qed (use assms in \<open>auto simp: ready_idx_def hd_conv_nth split: if_splits dest: find_idx_SomeD\<close>)
qed

text \<open>The queue operations on well-formed queues.\<close>

lemma get_queue_size_0: "queue_wf q \<Longrightarrow> get_queue_size q = 0 \<longleftrightarrow> q_items q = []"
  by (simp add: get_queue_size_def queue_wf_def)

definition agg_in :: "hmb_device \<Rightarrow> PROC_EDGE \<Rightarrow> bool" where
  "agg_in h t \<longleftrightarrow> done_partition h (uint (pe_r t))"

definition with_fq :: "edge_st \<Rightarrow> queue \<Rightarrow> edge_st" where
  "with_fq s q = s\<lparr>st_dev := (st_dev s)\<lparr>future_task_queue := q\<rparr>\<rparr>"

definition with_nq :: "edge_st \<Rightarrow> queue \<Rightarrow> edge_st" where
  "with_nq s q = s\<lparr>st_dev := (st_dev s)\<lparr>normal_task_queue := q\<rparr>\<rparr>"

definition drop_task :: "nat \<Rightarrow> queue \<Rightarrow> queue" where
  "drop_task i q = q\<lparr>q_items := remove_nth i (q_items q), q_size := q_size q - 1\<rparr>"

lemma future_front_plain:
  assumes "queue_wf (fq s)" and "q_items (fq s) = t # ts" and "\<not> ends_iter t"
    and "\<forall>u \<in> set (t # ts). row_overlap u = ov" and "ov \<in> {0, 1, 2}"
  obtains u where "u \<in> set (t # ts)"
    and "future_front X s = Some (Some (if ready_idx ov (agg_in (st_hmb s)) (t # ts) \<noteq> None then Some u else None), s)"
proof -
  let ?a = "agg_in (st_hmb s)"
  let ?u = "if ov \<noteq> 0 then (case find ?a (t # ts) of None \<Rightarrow> t | Some n \<Rightarrow> n) else t"
  have f: "future_front X s = Some (Some (if ?a ?u then Some ?u else None), s)"
    using assms(2-4) get_queue_size_0 [OF assms(1)] unfolding future_front_def Let_def
    by (simp add: get_queue_front_def agg_in_def [abs_def] del: find.simps)
  have fnd: "n \<in> set (t # ts) \<and> ?a n" if "find ?a (t # ts) = Some n" for n
    using that by (metis find_Some_iff nth_mem)
  moreover have "t \<in> set (t # ts)" by simp
  ultimately have m: "?u \<in> set (t # ts)" by (simp del: find.simps set_simps split: option.split)
  have "?a ?u \<longleftrightarrow> ready_idx ov ?a (t # ts) \<noteq> None"
  proof (cases "ov = 0")
    case False
    have "?a ?u \<longleftrightarrow> (\<exists>u \<in> set (t # ts). ?a u)"
    proof
      assume "\<exists>u \<in> set (t # ts). ?a u"
      then obtain n where "find ?a (t # ts) = Some n" by (cases "find ?a (t # ts)") (auto simp del: find.simps simp: find_None_iff)
      with fnd False show "?a ?u" by (simp del: find.simps)
    qed (use m in blast)
    moreover have "ready_idx ov ?a (t # ts) \<noteq> None \<longleftrightarrow> (\<exists>u \<in> set (t # ts). ?a u)"
    proof -
      have "ready_idx ov ?a (t # ts) = None \<longleftrightarrow> (if ov = 1 then find_idx ?a (t # ts) = None else find_idx ?a (rev (t # ts)) = None)"
        using False unfolding ready_idx_def by (simp del: find_idx.simps find_idx_None rev.simps)
      then show ?thesis unfolding find_idx_None by (auto split: if_splits)
    qed
    ultimately show ?thesis by blast
  qed (simp add: ready_idx_def)
  with f m show ?thesis using that by simp
qed

lemma find_next_ready:
  assumes "queue_wf q" and "ready_idx ov agg (q_items q) = Some i" and "row_overlap u = ov" and "ov \<in> {0, 1, 2}"
    and "\<And>t. agg t = agg' (pe_r t)"
  shows "find_next_future_task q agg' u True = (True, q_items q ! i, drop_task i q)"
proof -
  have "q_items q \<noteq> []" "future_task_idx q agg' ov = Some i"
    using assms(2,4) by (auto simp: ready_idx_def future_task_idx_def assms(5) [abs_def] split: if_splits)
  then show ?thesis using assms(3) by (simp add: find_next_future_task_cases [OF assms(1)] drop_task_def)
qed

text \<open>What the engine chooses when no iteration ends.\<close>

definition next_pick :: "u32 \<Rightarrow> hmb_device \<Rightarrow> PROC_EDGE list \<Rightarrow> PROC_EDGE list \<Rightarrow> pick" where
  "next_pick ov h ns fs =
     (case ready_idx ov (agg_in h) fs of
        Some i \<Rightarrow> Future (fs ! i)
      | None \<Rightarrow> (case ns of [] \<Rightarrow> Nothing | t # _ \<Rightarrow> Normal t))"

lemma take_normal_eq:
  assumes "queue_wf (nq s)"
  shows "take_normal s = (case q_items (nq s) of [] \<Rightarrow> Some (Nothing, s) | t # _ \<Rightarrow> Some (Normal t, with_nq s (drop_task 0 (nq s))))"
  using get_queue_size_0 [OF assms]
  by (cases "q_items (nq s)") (simp_all add: take_normal_def queue_dequeue_def queue_take_def with_nq_def drop_task_def remove_nth_def)

lemma select_task_plain:
  assumes "engine_inv X (observe X s)" and "fst (should_stop X s) = False"
    and "q_items (fq s) = [] \<or> \<not> ends_iter (hd (q_items (fq s)))"
    and "\<forall>u \<in> set (q_items (fq s)). row_overlap u = ov" and "ov \<in> {0, 1, 2}"
  shows "select_task X s = (let u = observe X s in
    case ready_idx ov (agg_in (st_hmb u)) (q_items (fq u)) of
      Some i \<Rightarrow> Some (Future (q_items (fq u) ! i), with_fq u (drop_task i (fq u)))
    | None \<Rightarrow> (case q_items (nq u) of
         [] \<Rightarrow> Some (Nothing, u)
       | t # _ \<Rightarrow> Some (Normal t, with_nq u (drop_task 0 (nq u)))))"
proof -
  let ?u = "observe X s"
  have fq: "fq ?u = fq s" using calm_fq [OF calm_observe] .
  have w: "queue_wf (fq s)" "queue_wf (nq ?u)" using assms(1) fq by (simp_all add: engine_inv_def)
  note normal = take_normal_eq [OF w(2)]
  show ?thesis
  proof (cases "q_items (fq s)")
    case Nil
    then have "get_queue_size (fq s) = 0" using get_queue_size_0 [OF w(1)] by simp
    then show ?thesis using assms(2) normal Nil
      unfolding select_task_def Let_def split_beta observers by (simp add: ready_idx_def take_task_def fq)
  next
    case (Cons t ts)
    then have n0: "get_queue_size (fq s) \<noteq> 0" using get_queue_size_0 [OF w(1)] by simp
    obtain v where v: "v \<in> set (t # ts)" "future_front X ?u = Some (Some (if ready_idx ov (agg_in (st_hmb ?u)) (t # ts) \<noteq> None then Some v else None), ?u)"
      by (rule future_front_plain [of ?u t ts ov X]) (use fq w Cons assms(3-5) in auto)
    show ?thesis
    proof (cases "ready_idx ov (agg_in (st_hmb ?u)) (t # ts)")
      case None
      then show ?thesis using assms(2) normal Cons v(2) n0
        unfolding select_task_def Let_def split_beta observers by (simp add: take_task_def fq)
    next
      case (Some i)
      have "find_next_future_task (fq s) (\<lambda>r. done_partition (st_hmb ?u) (uint r)) v True = (True, q_items (fq s) ! i, drop_task i (fq s))"
        by (rule find_next_ready [OF w(1), of ov "agg_in (st_hmb ?u)"]) (use Some Cons assms(4,5) v(1) in \<open>auto simp: agg_in_def\<close>)
      then show ?thesis using assms(2) Some Cons v(2) n0
        unfolding select_task_def Let_def split_beta observers by (simp add: take_task_def with_fq_def fq)
    qed
  qed
qed

section \<open>Progress\<close>

text \<open>The clock passes every bound for good; \<^verbatim>\<open>jiffies\<close> passes every deadline for at least two observations.\<close>

definition clock_live :: "edge_env \<Rightarrow> bool" where
  "clock_live X \<longleftrightarrow> (\<forall>t. \<exists>N. \<forall>n \<ge> N. t \<le> e_clk (x_csd X) n) \<and>
     (\<forall>k. \<exists>n \<ge> Suc k. time_after (x_jiffies X n) (x_jiffies X k + x_timeout X) \<and>
        time_after (x_jiffies X (Suc n)) (x_jiffies X k + x_timeout X))"

lemma tick_observe: "tick (st_dev (observe X s)) = Suc (tick (st_dev s))"
  by (simp add: observe_def Let_def)

lemma wait_returns:
  assumes "clock_live X"
  shows "\<exists>p. wait_sampling X b t s = Some p"
proof -
  obtain N where N: "\<forall>n \<ge> N. t \<le> e_clk (x_csd X) n" using assms unfolding clock_live_def by blast
  show ?thesis
  proof (induction "N - tick (st_dev s)" arbitrary: s rule: less_induct)
    case less
    let ?o = "observe X (observe X s)"
    let ?u = "if b then ema_samples X ?o else ?o"
    show ?case
    proof (cases "e_clk (x_csd X) (tick (st_dev s)) < t")
      case True
      then have "tick (st_dev s) < N" using N by (meson not_le)
      moreover have "Suc (tick (st_dev s)) \<le> tick (st_dev ?u)"
        using calm_ema_samples [of X ?o] by (simp add: tick_observe calm_def adv_def)
      ultimately have "\<exists>p. wait_sampling X b t ?u = Some p" by (intro less.hyps) simp
      then show ?thesis using True by (subst wait_sampling.simps) (simp add: clock_def should_stop_def del: split_paired_Ex)
    next
      case False
      then show ?thesis by (subst wait_sampling.simps) (simp add: clock_def del: split_paired_Ex)
    qed
  qed
qed

lemma poll_returns:
  assumes "time_after (x_jiffies X m) T" and "time_after (x_jiffies X (Suc m)) T" and "tick (st_dev s) \<le> m"
  shows "\<exists>p. poll_flag X flag T s = Some p"
  using assms(3)
proof (induction "Suc m - tick (st_dev s)" arbitrary: s rule: less_induct)
  case less
  let ?o = "observe X (observe X s)"
  show ?case
  proof (cases "flag (st_hmb s) \<or> fst (should_stop X s) \<or> time_after (x_jiffies X (Suc (tick (st_dev s)))) T")
    case True
    then show ?thesis by (subst poll_flag.simps) (auto simp: should_stop_def jiffies_def tick_observe)
  next
    case False
    then have "Suc (tick (st_dev s)) \<noteq> m" "Suc (tick (st_dev s)) \<noteq> Suc m" using assms(1,2) by metis+
    then have "tick (st_dev ?o) \<le> m" using less.prems by (simp add: tick_observe)
    then have "\<exists>p. poll_flag X flag T ?o = Some p" by (intro less.hyps) (simp_all add: tick_observe)
    then show ?thesis using False by (subst poll_flag.simps) (simp add: should_stop_def jiffies_def tick_observe del: split_paired_Ex)
  qed
qed

lemma poll_after_jiffies:
  assumes "clock_live X"
  shows "\<exists>p. poll_flag X flag (fst (jiffies X s) + x_timeout X) (observe X s) = Some p"
proof -
  let ?k = "tick (st_dev s)"
  obtain n where "n \<ge> Suc ?k" "time_after (x_jiffies X n) (x_jiffies X ?k + x_timeout X)"
    "time_after (x_jiffies X (Suc n)) (x_jiffies X ?k + x_timeout X)"
    using assms unfolding clock_live_def by blast
  then show ?thesis by (intro poll_returns [of X n]) (simp_all add: jiffies_def tick_observe)
qed

lemma proc_edge_returns:
  assumes "clock_live X" and "task_ok task"
  shows "\<exists>s'. proc_edge X fut task s = Some s'"
proof -
  have "\<exists>s'. note_aggr_start X task u = Some s'" for u
    using assms(2) by (auto simp: note_aggr_start_def task_ok_def Let_def split_beta)
  moreover obtain k u where "wait_sampling X (cost_modeling task \<noteq> 0)
      (mcu_end_time (fd_of X) (fst (clock X (upd_hmb (mark_window X fut task) s)))
         (fst (clock X (upd_hmb (task_kernel X fut task) (observe X (upd_hmb (mark_window X fut task) s))))))
      (observe X (upd_hmb (task_kernel X fut task) (observe X (upd_hmb (mark_window X fut task) s)))) = Some (k, u)"
    using wait_returns [OF assms(1)] by fastforce
  ultimately show ?thesis unfolding proc_edge_def Let_def split_beta observers by simp
qed

lemma front_exists: "queue_wf q \<Longrightarrow> get_queue_size q \<noteq> 0 \<Longrightarrow> \<exists>t. snd (get_queue_front q) = Some t \<and> t \<in> set (q_items q)"
  using get_queue_size_0 [of q] by (simp add: get_queue_front_def)

lemma prefer_future_returns: "task_ok nxt \<Longrightarrow> \<exists>p. prefer_future X task ratio nxt s = Some p"
  by (simp add: prefer_future_def Let_def split_beta task_ok_def del: split_paired_Ex)

lemma plan_normal_returns:
  assumes "engine_inv X (snd (snd p))"
  shows "\<exists>q. plan_normal X task ratio p = Some q"
proof -
  obtain n tm s where p: "p = (n, tm, s)" by (cases p)
  show ?thesis
  proof (cases "tm > 0 \<and> get_queue_size (nq s) \<noteq> 0")
    case True
    then obtain nxt where f: "snd (get_queue_front (nq s)) = Some nxt" "nxt \<in> set (q_items (nq s))"
      using front_exists assms by (auto simp: p engine_inv_def)
    then have "task_ok nxt" using assms by (auto simp: p engine_inv_def)
    then obtain b u where "prefer_future X task ratio nxt s = Some (b, u)" using prefer_future_returns by fastforce
    then show ?thesis using True f(1) by (simp add: p plan_normal_def del: split_paired_Ex)
  qed (auto simp: p plan_normal_def Let_def)
qed

lemma plan_others_return:
  assumes "engine_inv X (snd (snd p))"
  shows "\<exists>q. plan_waiting X p = Some q" and "\<exists>q. plan_next_iter X task p = Some q"
proof -
  obtain n tm s where p: "p = (n, tm, s)" by (cases p)
  have q: "queue_wf (nq s)" "queue_wf (fq s)" using assms by (simp_all add: p engine_inv_def)
  show "\<exists>q. plan_waiting X p = Some q" "\<exists>q. plan_next_iter X task p = Some q"
    using front_exists [OF q(1)] front_exists [OF q(2)]
    by (auto simp: p plan_waiting_def plan_next_iter_def Let_def simp del: split_paired_Ex)
qed

lemma plan_prefetch_returns:
  assumes "env_ok X" and "engine_inv X s"
  shows "\<exists>s'. plan_prefetch X task ratio tm s = Some s'"
proof (cases "tm > 0")
  case True
  let ?s = "upd_eb (\<lambda>eb. eb\<lparr>prefetched_r := -1, prefetched_c := -1, prefetched_iter := -1\<rparr>) s"
  have "calm X s ?s" by (rule calm_stat(1)) simp
  moreover have "calm X ?s (snd (snd (plan_ready X (0, tm, ?s))))" using calm_plan_ready [of X "(0, tm, ?s)"] by simp
  ultimately have 1: "engine_inv X (snd (snd (plan_ready X (0, tm, ?s))))" using calm_inv assms by blast
  obtain p where p: "plan_normal X task ratio (plan_ready X (0, tm, ?s)) = Some p" using plan_normal_returns [OF 1] by blast
  have 2: "engine_inv X (snd (snd p))" using calm_inv [OF calm_plan_normal [OF p] assms(1) 1] .
  obtain n t u where w: "plan_waiting X p = Some (n, t, u)" using plan_others_return(1) [OF 2] by (metis prod_cases3)
  have "engine_inv X u" using calm_inv [OF calm_plan_waiting [OF w] assms(1) 2] by simp
  moreover have "calm X u (upd_eb (\<lambda>eb. eb\<lparr>pr_reverse := False\<rparr>) u)" by (rule calm_stat(1)) simp
  ultimately have "engine_inv X (snd (snd (n, t, upd_eb (\<lambda>eb. eb\<lparr>pr_reverse := False\<rparr>) u)))" using calm_inv assms(1) by simp
  from plan_others_return(2) [OF this, of task] show ?thesis
    using True p w by (auto simp: plan_prefetch_def Let_def)
qed (simp add: plan_prefetch_def Let_def)

lemma edge_io_returns:
  assumes "env_ok X" and "clock_live X" and "engine_inv X s" and "task_ok task"
  shows "\<exists>p. edge_io X fut task pt s = Some p"
proof -
  let ?v = "snd (edge_access X fut task (observe X s))"
  have v: "engine_inv X ?v" using calm_inv [OF calm_trans [OF calm_observe calm_edge_access [OF assms(4)]] assms(1,3)] .
  have "\<exists>p. pipeline X fut task pt miss ratio ?v = Some p" for miss ratio
  proof -
    obtain rt tm u where u: "calm X ?v u" and p: "pipeline X fut task pt miss ratio ?v =
      (if unat (is_prefetching task) \<ge> 2 then plan_prefetch X task rt tm u \<bind> (\<lambda>s. Some (rt, s)) else Some (rt, u))"
      by (rule pipeline_shape)
    from plan_prefetch_returns [OF assms(1) calm_inv [OF u assms(1) v], of task rt tm] show ?thesis unfolding p by auto
  qed
  moreover have "\<exists>p. flash_wait X task t0 r u = Some p" for t0 r u
  proof -
    obtain k z where "wait_sampling X (cost_modeling task \<noteq> 0) (fst (clock X u) + trunc (fd_of X (dbl X (uint (nsecs_target task)) * r))) (observe X u) = Some (k, z)"
      using wait_returns [OF assms(2)] by fastforce
    then show ?thesis by (simp add: flash_wait_def Let_def split_beta del: split_paired_Ex)
  qed
  ultimately show ?thesis unfolding edge_io_def Let_def split_beta observers
    by (simp add: bind_eq_Some_conv del: split_paired_Ex) (metis (no_types, lifting))
qed

lemma vertex_io_returns:
  assumes "clock_live X"
  shows "\<exists>p. vertex_io X fut task s = Some p"
proof -
  let ?v = "snd (vertex_access X task (observe X s))"
  obtain k z where "wait_sampling X False (fst (clock X ?v) + div_page (DMA_READ_LATENCY * fst (vertex_access X task (observe X s)))) (observe X ?v) = Some (k, z)"
    using wait_returns [OF assms] by fastforce
  then show ?thesis by (simp add: vertex_io_def Let_def split_beta del: split_paired_Ex)
qed

lemma run_task_returns:
  assumes "env_ok X" and "clock_live X" and "engine_inv X s" and "task_ok task"
  shows "\<exists>p. run_task X fut task s = Some p"
proof -
  have k: "-1 \<le> prefetched_priority (st_eb s)" "prefetched_priority (st_eb s) < 7" using assms(3) by (simp_all add: engine_inv_def)
  have "\<not> (prefetched_priority (st_eb s) < 0 \<or> prefetched_priority (st_eb s) \<ge> 7)" if "prefetched_priority (st_eb s) \<noteq> -1" using k that by arith
  then have "count_prefetch_hit task s \<noteq> None" unfolding count_prefetch_hit_def Let_def by (auto split: if_splits)
  then obtain s1 where 1: "count_prefetch_hit task s = Some s1" by blast
  have i1: "engine_inv X (observe X s1)" using calm_inv [OF calm_trans [OF calm_count_prefetch_hit [OF 1] calm_observe] assms(1,3)] .
  obtain s2 where 2: "proc_edge X fut task (observe X s1) = Some s2" using proc_edge_returns [OF assms(2,4)] by blast
  have i2: "engine_inv X s2" using proc_edge_spec(1) [OF 2] i1 assms(1) by (simp add: adv_def)
  let ?u = "upd_eb (\<lambda>eb. eb\<lparr>edge_proc_time := edge_proc_time eb + (fst (clock X s2) - fst (clock X s1))\<rparr>) (observe X s2)"
  have "engine_inv X ?u" using calm_inv [OF calm_stat(2) assms(1) i2] by simp
  from edge_io_returns [OF assms(1,2) this assms(4)] obtain k s3 where
    3: "edge_io X fut task (fst (clock X s2) - fst (clock X s1)) ?u = Some (k, s3)" by (metis surj_pair)
  have "\<exists>p. finish_task X fut task s3 = Some p"
    using vertex_io_returns [OF assms(2), of fut task s3] by (auto simp: finish_task_def simp del: split_paired_Ex)
  then show ?thesis using 1 2 3 by (simp add: run_task_def Let_def split_beta del: split_paired_Ex)
qed

lemma end_of_iter_returns:
  assumes "clock_live X" and "q_items (fq s) \<noteq> []"
  shows "\<exists>p. end_of_iter X task s = Some p"
proof -
  obtain k1 s1 where p1: "poll_flag X (\<lambda>h. done_partition h (uint (pe_r task))) (fst (jiffies X s) + x_timeout X) (observe X s) = Some (k1, s1)"
    using poll_after_jiffies [OF assms(1)] by fastforce
  have "q_items (fq s1) \<noteq> []" using calm_fq [OF calm_trans [OF calm_observe calm_poll [OF p1]]] assms(2) by simp
  then obtain t s2 where s2: "switch_iter s1 = Some (t, s2)"
    by (cases "q_items (fq s1)") (auto simp: switch_iter_def queue_dequeue_def queue_take_def)
  obtain k2 s3 where "poll_flag X (\<lambda>h. \<not> done_partition h (ready_id t)) (fst (jiffies X s2) + x_timeout X) (observe X s2) = Some (k2, s3)"
    using poll_after_jiffies [OF assms(1)] by fastforce
  then show ?thesis using p1 s2 by (simp add: end_of_iter_def Let_def split_beta del: split_paired_Ex)
qed

lemma select_task_returns:
  assumes "env_ok X" and "clock_live X" and "engine_inv X s"
  shows "\<exists>p. select_task X s = Some p"
proof -
  let ?u = "observe X s"
  have u: "engine_inv X ?u" using calm_inv [OF calm_observe assms(1,3)] .
  have ff: "\<exists>p. future_front X ?u = Some p" if "get_queue_size (fq ?u) \<noteq> 0"
  proof -
    have "queue_wf (fq ?u)" using u by (simp add: engine_inv_def)
    from front_exists [OF this that] obtain t where t: "snd (get_queue_front (fq ?u)) = Some t" "q_items (fq ?u) \<noteq> []" by force
    then obtain r z where "(if ends_iter t then end_of_iter X t ?u else Some (Some t, ?u)) = Some (r, z)"
      using end_of_iter_returns [OF assms(2) t(2), of t] by (cases "ends_iter t") auto
    then show ?thesis using t(1) unfolding future_front_def Let_def by (cases r) (simp_all del: split_paired_Ex)
  qed
  have "\<exists>p. take_normal z = Some p" if "engine_inv X z" for z
    using take_normal_eq [of z] that by (cases "q_items (nq z)") (simp_all add: engine_inv_def del: split_paired_Ex)
  then have rest: "\<exists>p. take_task ready z = Some p" if "engine_inv X z" for ready z
    using that by (simp add: take_task_def Let_def split_beta del: split_paired_Ex)
  obtain r z where f: "(if get_queue_size (fq ?u) \<noteq> 0 then future_front X ?u else Some (Some None, ?u)) = Some (r, z)"
    using ff by (cases "get_queue_size (fq ?u) = 0") auto
  have z: "engine_inv X z" using f future_front_inv [OF _ assms(1) u] u by (auto split: if_splits)
  show ?thesis
  proof (cases r)
    case (Some ready)
    then show ?thesis using f rest [OF z, of ready] unfolding select_task_def Let_def split_beta observers
      by (simp del: split_paired_Ex)
  qed (use f in \<open>simp add: select_task_def Let_def split_beta del: split_paired_Ex\<close>)
qed

section \<open>The invariant of a pass\<close>

lemma end_of_iter_task:
  assumes "end_of_iter X task s = Some (Some t, s')" and "engine_inv X s"
  shows "task_ok t"
  using assms(1)
proof (cases rule: end_of_iter_cases)
  case (3 s1 t' s2 s3)
  then have "t \<in> set (q_items (fq s))" using switch_iter_spec(1) [OF 3(2)] calm_fq [OF 3(1)] by simp
  then show ?thesis using assms(2) by (simp add: engine_inv_def)
qed simp_all

lemma future_front_task:
  assumes "future_front X s = Some (Some (Some t), s')" and "env_ok X" and "engine_inv X s"
  shows "task_ok t"
proof -
  obtain f where f0: "snd (get_queue_front (fq s)) = Some f" using assms(1) by (auto simp: future_front_def bind_eq_Some_conv)
  then have f: "f \<in> set (q_items (fq s))" by (rule front_ok)
  obtain q z where q: "(if ends_iter f then end_of_iter X f s else Some (Some f, s)) = Some (q, z)"
    using assms(1) f0 by (auto simp: future_front_def bind_eq_Some_conv)
  obtain r where "q = Some r" using assms(1) f0 q by (cases q) (simp_all add: future_front_def)
  with q have qr: "(if ends_iter f then end_of_iter X f s else Some (Some f, s)) = Some (Some r, z)" by simp
  have t0: "z = s'" "t = (if row_overlap r \<noteq> 0 \<and> get_queue_size (fq z) \<noteq> 0 then
       (case find (\<lambda>n. done_partition (st_hmb z) (uint (pe_r n))) (q_items (fq z)) of None \<Rightarrow> r | Some n \<Rightarrow> n) else r)"
    using assms(1) unfolding future_front_def Let_def f0 bind.bind_lunit qr by (auto split: if_splits)
  note r = qr [unfolded t0(1)] and t = t0(2) [unfolded t0(1)]
  have "task_ok r"
  proof (cases "ends_iter f")
    case True
    then show ?thesis using r end_of_iter_task assms(3) by simp
  next
    case False
    then show ?thesis using r f assms(3) by (simp add: engine_inv_def)
  qed
  moreover have "task_ok n" if "find (\<lambda>n. done_partition (st_hmb s') (uint (pe_r n))) (q_items (fq s')) = Some n" for n
  proof -
    have "n \<in> set (q_items (fq s'))" using that by (metis find_Some_iff nth_mem)
    then show ?thesis using future_front_inv [OF assms] by (simp add: engine_inv_def)
  qed
  ultimately show ?thesis using t by (auto split: option.splits if_splits)
qed

lemma drop_task_wf: "queue_wf q \<Longrightarrow> i < length (q_items q) \<Longrightarrow> queue_wf (drop_task i q)"
  by (auto simp: queue_wf_def drop_task_def remove_nth_def)

lemma drop_task_set: "set (q_items (drop_task i q)) \<subseteq> set (q_items q)"
  using set_remove_nth_subset by (simp add: drop_task_def)

lemma drop_future_inv:
  assumes "engine_inv X s" and "i < length (q_items (fq s))"
  shows "engine_inv X (with_fq s (drop_task i (fq s)))" and "task_ok (q_items (fq s) ! i)"
  using assms drop_task_wf drop_task_set [of i "fq s"] nth_mem [OF assms(2)]
  by (auto simp: engine_inv_def with_fq_def simp del: nth_mem)

lemma drop_normal_inv:
  assumes "engine_inv X s" and "q_items (nq s) = t # ts"
  shows "engine_inv X (with_nq s (drop_task 0 (nq s)))" and "task_ok t"
  using assms drop_task_wf [of "nq s" 0] drop_task_set [of 0 "nq s"] by (auto simp: engine_inv_def with_nq_def)

lemma select_task_inv:
  assumes "select_task X s = Some (p, s')" and "env_ok X" and "engine_inv X s"
  shows "engine_inv X s' \<and> (\<forall>t. p = Future t \<or> p = Normal t \<longrightarrow> task_ok t)"
proof (cases "fst (should_stop X s)")
  case True
  then have "p = Stopped" "s' = observe X s" using assms(1) by (simp_all add: select_task_def Let_def split_beta)
  then show ?thesis using calm_inv [OF calm_observe assms(2,3)] by simp
next
  case False
  let ?u = "observe X s"
  have u: "engine_inv X ?u" using calm_inv [OF calm_observe assms(2,3)] .
  have n: "engine_inv X s' \<and> (\<forall>t. p = Future t \<or> p = Normal t \<longrightarrow> task_ok t)" if "take_normal z = Some (p, s')" "engine_inv X z" for z
    using that take_normal_eq [of z] drop_normal_inv [OF that(2)] by (cases "q_items (nq z)") (auto simp: engine_inv_def)
  obtain r z where r: "(if get_queue_size (fq ?u) \<noteq> 0 then future_front X ?u else Some (Some None, ?u)) = Some (r, z)"
    and c: "(case r of None \<Rightarrow> Some (Stopped, z) | Some ready \<Rightarrow> take_task ready z) = Some (p, s')"
    using assms(1) False unfolding select_task_def Let_def split_beta observers
    by (auto simp: bind_eq_Some_conv cong: option.case_cong)
  have z: "engine_inv X z" using r future_front_inv [OF _ assms(2) u] u by (auto split: if_splits)
  show ?thesis
  proof (cases "\<exists>t. r = Some (Some t) \<and> get_queue_size (fq z) \<noteq> 0")
    case True
    then obtain t where t: "r = Some (Some t)" "get_queue_size (fq z) \<noteq> 0" by blast
    then have tok: "task_ok t" using r future_front_task [OF _ assms(2) u] by (auto split: if_splits)
    have w: "queue_wf (fq z)" using z by (simp add: engine_inv_def)
    from t c have c: "take_task (Some t) z = Some (p, s')" by simp
    show ?thesis
    proof (cases "future_task_idx (fq z) (\<lambda>r. done_partition (st_hmb z) (uint r)) (row_overlap t)")
      case None
      then have "p = Future t" "s' = z" using c t(2) by (simp_all add: take_task_def find_next_future_task_def)
      then show ?thesis using z tok by simp
    next
      case (Some i)
      have i: "i < length (q_items (fq z))" using future_task_idx_bound [OF _ Some] get_queue_size_0 [OF w] t(2) by blast
      from c t(2) Some have "p = Future (q_items (fq z) ! i)" "s' = with_fq z (drop_task i (fq z))"
        by (simp_all add: take_task_def find_next_future_task_def with_fq_def drop_task_def)
      then show ?thesis using drop_future_inv [OF z i] by simp
    qed
  next
    case no: False
    show ?thesis
    proof (cases r)
      case (Some ready)
      then have "take_normal z = Some (p, s')" using c no by (cases ready) (simp_all add: take_task_def)
      then show ?thesis using n z by blast
    qed (use c z in simp)
  qed
qed

lemma edge_pass_inv:
  assumes "edge_pass X s = Some (p, ok, s')" and "env_ok X" and "engine_inv X s"
  shows "engine_inv X s'"
proof -
  obtain q u where q: "select_task X s = Some (q, u)" using assms(1) by (auto simp: edge_pass_def bind_eq_Some_conv)
  then have r: "case q of Stopped \<Rightarrow> s' = u | Nothing \<Rightarrow> s' = u | Future t \<Rightarrow> run_task X True t u = Some (ok, s')
      | Normal t \<Rightarrow> run_task X False t u = Some (ok, s')" and "q = p"
    using assms(1) by (cases q; auto simp: edge_pass_def bind_eq_Some_conv)+
  then have u: "select_task X s = Some (p, u)" using q by simp
  note i = select_task_inv [OF u assms(2,3)]
  have "engine_inv X s'" if "run_task X fut t u = Some (ok, s')" "task_ok t" for fut t
    using that
  proof (rule run_task_spec)
    fix v assume v: "adv X u v" "appends X (if ok then follow_up fut t else []) v s'"
    then have "engine_inv X v" using i assms(2) by (simp add: adv_def)
    then show ?thesis using v(2) assms(2) follow_up_ok [OF that(2)] by (auto simp: appends_def split: if_splits)
  qed
  then show ?thesis using i r \<open>q = p\<close> by (cases p) auto
qed

end
