(* ===== verification/Edge_Engine.thy ===== *)
theory Edge_Engine
  imports Edge_Sched "HOL-Library.Multiset"
begin

text \<open>
  What the asynchronous edge engine promises: it implements a scheduler over two lists of tasks, it always
  makes progress and keeps its caches and queues in order while admissible tasks arrive, and in the overlap
  modes 0 to 2 it does not compute future values from a partition that is not aggregated.
\<close>

section \<open>What a task does\<close>

text \<open>
  The effect of a block on the shared buffer, from the layout of the buffer: the kernel of the task's algorithm
  over the edges stored at the block's address. A normal task reads the current values \<open>buf0\<close>, adds to the
  device's slice of the next values \<open>buf1\<close> and sets the block's flag in \<open>done1\<close>; a future task reads \<open>buf1\<close>, adds
  to the future values \<open>buf2\<close> and sets the flag in \<open>done2\<close>. Behind the slices of the array that is written the
  device notes the column.
\<close>

definition block_values :: "edge_env \<Rightarrow> PROC_EDGE \<Rightarrow> vtx_array \<Rightarrow> vtx_array \<Rightarrow> vtx_array" where
  "block_values X t src dst =
     (let stor = e_storage (x_csd X) (nsid t); n = uint (num_vertices t) in
      proc_edges (e_fl (x_csd X)) (algorithm t) (\<lambda>u. stor (uint (outdegree_slba t) div 4 + u))
        (stored_edges stor (uint (edge_block_slba t)) (uint (edge_block_len t)))
        src ((sint (csd_id t) + 1) * n)
        (dst(uint (num_csds t + 2) * n + sint (csd_id t) := e_fl (x_csd X) (of_int (uint (pe_c t))))))"

definition block_flag :: "PROC_EDGE \<Rightarrow> int" where
  "block_flag t = sint (csd_id t * num_partitions t * num_partitions t + pe_r t * num_partitions t + pe_c t)"

definition normal_block :: "edge_env \<Rightarrow> PROC_EDGE \<Rightarrow> hmb_device \<Rightarrow> hmb_device" where
  "normal_block X t h =
     h\<lparr>buf1 := block_values X t (buf0 h) (buf1 h), done1 := (done1 h)(block_flag t := True)\<rparr>"

definition future_block :: "edge_env \<Rightarrow> PROC_EDGE \<Rightarrow> hmb_device \<Rightarrow> hmb_device" where
  "future_block X t h =
     h\<lparr>buf2 := block_values X t (buf1 h) (buf2 h), done2 := (done2 h)(block_flag t := True)\<rparr>"

text \<open>
  The blocks whose values of the next iteration can be computed ahead: in an even iteration the triangle of the
  blocks with row at most the column, in an odd one the blocks below, and none in the last iteration. Such a
  block is queued as a task of the next iteration.
\<close>

definition ahead :: "PROC_EDGE \<Rightarrow> bool" where
  "ahead t \<longleftrightarrow> iter t + 1 \<noteq> num_iters t \<and> (if even (unat (iter t)) then pe_r t \<le> pe_c t else pe_c t < pe_r t)"

text \<open>
  Markers close an iteration: in the last iteration the last block of the order is queued once more with the
  number of iterations as its iteration (with a single partition the last block is its own future block).
\<close>

definition closes_odd :: "PROC_EDGE \<Rightarrow> bool" where
  "closes_odd t \<longleftrightarrow> pe_c t = 0 \<and> (if row_overlap t = 3 then pe_r t = 1 else pe_r t + 1 = num_partitions t)"

definition after_normal :: "PROC_EDGE \<Rightarrow> PROC_EDGE list" where
  "after_normal t =
     (if ahead t then
        t\<lparr>iter := iter t + 1, is_fvc := 1\<rparr> #
        (if iter t + 2 = num_iters t \<and> even (unat (iter t)) \<and> pe_r t = 0 \<and> pe_c t = 0 \<and> num_partitions t = 1 \<and> row_overlap t \<noteq> 3
         then [t\<lparr>iter := iter t + 2, is_fvc := 1\<rparr>] else [])
      else if iter t + 1 = num_iters t then
        (if even (unat (iter t)) \<and> pe_r t + 1 = num_partitions t \<and> pe_c t + 1 = num_partitions t then [t\<lparr>iter := iter t + 1\<rparr>]
         else if odd (unat (iter t)) \<and> closes_odd t then [t\<lparr>pe_r := 0, pe_c := 0, iter := iter t + 1\<rparr>] else [])
      else [])"

definition after_future :: "PROC_EDGE \<Rightarrow> PROC_EDGE list" where
  "after_future t = (if even (unat (iter t)) \<and> closes_odd t then [t\<lparr>pe_r := 0, pe_c := 0\<rparr>] else [])"

text \<open>The engine's code does this.\<close>

lemma run_block_values:
  "run_block X False t h = normal_block X t h" "run_block X True t h = future_block X t h"
  by (simp_all add: run_block_def normal_block_def future_block_def block_values_def block_flag_def mark_done_def
      task_kernel_def mark_window_def done_id_def block_edges_stored block_outdegree_stored Let_def)

lemma u32_parity: "(w mod 2 = 0) = even (unat w)" "(w mod 2 = 1) = odd (unat w)" for w :: u32
  by (simp_all add: word_unat_eq_iff unat_mod even_iff_mod_2_eq_zero odd_iff_mod_2_eq_one)

lemma u32_pred: "(w = n - 1) = (w + 1 = n)" for w n :: u32
  by (auto simp: algebra_simps)

lemma last_of_odd_closes: "last_of_odd t = closes_odd t"
  by (auto simp: last_of_odd_def closes_odd_def u32_pred)

lemma has_future_ahead: "has_future t = ahead t"
  by (auto simp: has_future_def ahead_def u32_parity u32_pred)

lemma even_unat_Suc: "even (unat (w + 1)) = odd (unat w)" for w :: u32
proof -
  have "unat (w + 1) = take_bit 32 (Suc (unat w))" by (simp add: unat_word_ariths take_bit_eq_mod)
  then show ?thesis by (simp add: even_take_bit_eq)
qed

text \<open>The marker behind a block that is computed ahead: the order of the rows leaves the single partition.\<close>

lemma ahead_marker:
  assumes "ahead t" and "iter t + 2 = num_iters t"
  shows "\<not> (odd (unat (iter t)) \<and> pe_r t + 1 = num_partitions t \<and> pe_c t + 1 = num_partitions t)"
    and "even (unat (iter t)) \<and> closes_odd t \<longleftrightarrow>
      even (unat (iter t)) \<and> pe_r t = 0 \<and> pe_c t = 0 \<and> num_partitions t = 1 \<and> row_overlap t \<noteq> 3"
proof -
  have "pe_r t = pe_c t" if "pe_r t + 1 = num_partitions t" "pe_c t + 1 = num_partitions t"
    using that by (metis add_right_cancel)
  then show "\<not> (odd (unat (iter t)) \<and> pe_r t + 1 = num_partitions t \<and> pe_c t + 1 = num_partitions t)"
    using assms(1) by (auto simp: ahead_def)
qed (use assms in \<open>auto simp: ahead_def closes_odd_def split: if_splits\<close>)

lemma follow_up_after: "follow_up False t = after_normal t" "follow_up True t = after_future t"
proof -
  let ?p = "t\<lparr>iter := iter t + 1, is_fvc := 1\<rparr>"
  have p: "closes_odd ?p = closes_odd t" by (simp add: closes_odd_def)
  have n: "iter t + 1 + 1 = iter t + 2" by simp
  have z: "?p\<lparr>pe_r := 0, pe_c := 0, iter := iter t + 2\<rparr> = t\<lparr>iter := iter t + 2, is_fvc := 1\<rparr>" if "pe_r t = 0" "pe_c t = 0"
    using that by (cases t) simp
  show "follow_up False t = after_normal t"
  proof (cases "ahead t")
    case True
    have f: "follow_up False t = ?p #
        (if iter t + 2 = num_iters t then
           if odd (unat (iter t)) \<and> pe_r t + 1 = num_partitions t \<and> pe_c t + 1 = num_partitions t then [?p\<lparr>iter := iter t + 2\<rparr>]
           else if even (unat (iter t)) \<and> closes_odd t then [?p\<lparr>pe_r := 0, pe_c := 0, iter := iter t + 2\<rparr>] else []
         else [])"
      using True by (simp add: follow_up_def has_future_ahead last_of_odd_closes u32_parity u32_pred promote_def p n even_unat_Suc Let_def)
    show ?thesis
    proof (cases "iter t + 2 = num_iters t")
      case l: True
      then show ?thesis using ahead_marker [OF True l] True z unfolding f after_normal_def by auto
    next
      case False
      then show ?thesis using True by (simp add: f after_normal_def)
    qed
  next
    case False
    then show ?thesis
      by (auto simp: follow_up_def after_normal_def has_future_ahead last_of_odd_closes u32_parity u32_pred Let_def)
  qed
  show "follow_up True t = after_future t"
    by (simp add: follow_up_def after_future_def last_of_odd_closes u32_parity)
qed

section \<open>The abstract scheduler\<close>

text \<open>
  The shared buffer, the normal tasks and the future tasks. A future task whose source partition is
  aggregated comes first, otherwise the next normal task; a finished task is followed by its future task.
\<close>

definition sched_pass ::
  "edge_env \<Rightarrow> u32 \<Rightarrow> hmb_device \<times> PROC_EDGE list \<times> PROC_EDGE list \<Rightarrow> pick \<times> hmb_device \<times> PROC_EDGE list \<times> PROC_EDGE list" where
  "sched_pass X ov = (\<lambda>(h, ns, fs).
     case ready_idx ov (agg_in h) fs of
       Some i \<Rightarrow> (Future (fs ! i), future_block X (fs ! i) h, ns, remove_nth i fs @ after_future (fs ! i))
     | None \<Rightarrow> (case ns of
         [] \<Rightarrow> (Nothing, h, [], fs)
       | t # ts \<Rightarrow> (Normal t, normal_block X t h, ts, fs @ after_normal t)))"

lemma sched_pass_run:
  "sched_pass X ov (h, ns, fs) =
     (case ready_idx ov (agg_in h) fs of
       Some i \<Rightarrow> (Future (fs ! i), run_block X True (fs ! i) h, ns, remove_nth i fs @ follow_up True (fs ! i))
     | None \<Rightarrow> (case ns of
         [] \<Rightarrow> (Nothing, h, [], fs)
       | t # ts \<Rightarrow> (Normal t, run_block X False t h, ts, fs @ follow_up False t)))"
  by (simp add: sched_pass_def run_block_values follow_up_after split: option.split list.split)

definition abs_st :: "edge_st \<Rightarrow> hmb_device \<times> PROC_EDGE list \<times> PROC_EDGE list" where
  "abs_st s = (st_hmb s, q_items (nq s), q_items (fq s))"

definition undisturbed :: "edge_env \<Rightarrow> bool" where
  "undisturbed X \<longleftrightarrow> env_ok X \<and> clock_live X \<and> quiet X \<and> never_stops X \<and> alloc_ok X"

text \<open>No iteration is about to end, and the future tasks are of one overlap mode.\<close>

definition mid_iter :: "u32 \<Rightarrow> PROC_EDGE list \<Rightarrow> bool" where
  "mid_iter ov fs \<longleftrightarrow> (fs = [] \<or> \<not> ends_iter (hd fs)) \<and> (\<forall>u \<in> set fs. row_overlap u = ov) \<and> ov \<in> {0, 1, 2}"

lemma observe_quiet: "quiet X \<Longrightarrow> st_hmb (observe X s) = st_hmb s \<and> nq (observe X s) = nq s \<and> fq (observe X s) = fq s"
  using calm_observe [of X s] by (simp add: calm_def adv_def quiet_def)

lemma run_task_effect:
  assumes "undisturbed X" and "engine_inv X s" and "task_ok t"
  shows "\<exists>s'. run_task X fut t s = Some (True, s') \<and>
    abs_st s' = (run_block X fut t (st_hmb s), q_items (nq s), q_items (fq s) @ follow_up fut t)"
proof -
  note u = assms(1) [unfolded undisturbed_def]
  obtain ok s' where r: "run_task X fut t s = Some (ok, s')" using run_task_returns [OF _ _ assms(2,3)] u by fastforce
  then have "ok \<and> abs_st s' = (run_block X fut t (st_hmb s), q_items (nq s), q_items (fq s) @ follow_up fut t)"
    using assms(3)
  proof (rule run_task_spec)
    fix v
    assume v: "adv X s v" "quiet X \<Longrightarrow> never_stops X \<Longrightarrow> st_hmb v = run_block X fut t (st_hmb s)" "never_stops X \<Longrightarrow> ok"
      "appends X (if ok then follow_up fut t else []) v s'"
    then have ok by (simp add: u)
    with v show ?thesis using u by (auto simp: adv_def appends_def abs_st_def quiet_def)
  qed
  with r show ?thesis by (intro exI [of _ s']) simp
qed

lemma pass_refines:
  assumes "undisturbed X" and "engine_inv X s" and "mid_iter ov (q_items (fq s))"
  shows "\<exists>s'. edge_pass X s = Some (fst (sched_pass X ov (abs_st s)), True, s') \<and>
    abs_st s' = snd (sched_pass X ov (abs_st s)) \<and> engine_inv X s'"
proof -
  note u = assms(1) [unfolded undisturbed_def]
  let ?u = "observe X s"
  have o: "st_hmb ?u = st_hmb s" "nq ?u = nq s" "fq ?u = fq s" using observe_quiet u by blast+
  have i: "engine_inv X ?u" using calm_inv [OF calm_observe _ assms(2)] u by blast
  note sel = select_task_plain [OF i, of ov, unfolded o Let_def]
  have ns: "fst (should_stop X s) = False" using u by simp
  note m = assms(3) [unfolded mid_iter_def]
  have ex: "\<exists>s'. edge_pass X s = Some (fst (sched_pass X ov (abs_st s)), True, s') \<and> abs_st s' = snd (sched_pass X ov (abs_st s))"
  proof (cases "ready_idx ov (agg_in (st_hmb s)) (q_items (fq s))")
    case (Some k)
    have k: "k < length (q_items (fq ?u))" using ready_idx_Some [OF Some] o by simp
    let ?v = "with_fq ?u (drop_task k (fq ?u))" and ?t = "q_items (fq s) ! k"
    have "select_task X s = Some (Future ?t, ?v)" using sel ns m Some o by simp
    moreover have "engine_inv X ?v" "task_ok ?t" using drop_future_inv [OF i k] o by simp_all
    then obtain s' where "run_task X True ?t ?v = Some (True, s')"
      "abs_st s' = (run_block X True ?t (st_hmb ?v), q_items (nq ?v), q_items (fq ?v) @ follow_up True ?t)"
      using run_task_effect [OF assms(1)] by blast
    ultimately show ?thesis using Some o by (simp add: edge_pass_def sched_pass_run abs_st_def with_fq_def drop_task_def)
  next
    case None
    show ?thesis
    proof (cases "q_items (nq s)")
      case Nil
      then have "select_task X s = Some (Nothing, ?u)" using sel ns m None o by simp
      then show ?thesis using None Nil o by (simp add: edge_pass_def sched_pass_run abs_st_def)
    next
      case (Cons t ts)
      let ?v = "with_nq ?u (drop_task 0 (nq ?u))"
      have "select_task X s = Some (Normal t, ?v)" using sel ns m None Cons o by simp
      moreover have "engine_inv X ?v" "task_ok t" using drop_normal_inv [OF i, of t ts] o Cons by simp_all
      then obtain s' where "run_task X False t ?v = Some (True, s')"
        "abs_st s' = (run_block X False t (st_hmb ?v), q_items (nq ?v), q_items (fq ?v) @ follow_up False t)"
        using run_task_effect [OF assms(1)] by blast
      ultimately show ?thesis using None Cons o
        by (simp add: edge_pass_def sched_pass_run abs_st_def with_nq_def drop_task_def remove_nth_def)
    qed
  qed
  then obtain s' where s': "edge_pass X s = Some (fst (sched_pass X ov (abs_st s)), True, s')" "abs_st s' = snd (sched_pass X ov (abs_st s))"
    by blast
  then show ?thesis using edge_pass_inv [OF s'(1) _ assms(2)] u by blast
qed

section \<open>One iteration\<close>

fun edge_passes :: "nat \<Rightarrow> edge_env \<Rightarrow> edge_st \<Rightarrow> (pick list \<times> edge_st) option" where
  "edge_passes 0 X s = Some ([], s)"
| "edge_passes (Suc n) X s =
     do {
       (p, ok, s) \<leftarrow> edge_pass X s;
       if \<not> ok then Some ([p], s) else do { (ps, s) \<leftarrow> edge_passes n X s; Some (p # ps, s) }
     }"

lemma ready_idx_none:
  assumes "\<forall>t \<in> set fs. \<not> agg t"
  shows "ready_idx ov agg fs = None"
proof -
  have "find_idx agg fs = None" "find_idx agg (rev fs) = None" using assms by simp_all
  then show ?thesis using assms by (simp add: ready_idx_def)
qed

lemma run_block_flags [simp]: "done_partition (run_block X fut t h) = done_partition h"
  by (simp add: run_block_def mark_done_def task_kernel_def mark_window_def Let_def)

lemma agg_in_run_block [simp]: "agg_in (run_block X fut t h) = agg_in h"
  by (intro ext) (simp add: agg_in_def)

lemma passes_in_order:
  assumes "undisturbed X" and "engine_inv X s" and "q_items (nq s) = ts"
    and "mid_iter ov (q_items (fq s) @ concat (map (follow_up False) ts))"
    and "\<forall>f \<in> set (q_items (fq s) @ concat (map (follow_up False) ts)). \<not> agg_in (st_hmb s) f"
  shows "\<exists>s'. edge_passes (length ts) X s = Some (map Normal ts, s') \<and>
    abs_st s' = (fold (run_block X False) ts (st_hmb s), [], q_items (fq s) @ concat (map (follow_up False) ts))"
  using assms(2-)
proof (induction ts arbitrary: s)
  case Nil
  then show ?case by (simp add: abs_st_def)
next
  case (Cons t ts)
  have m: "mid_iter ov (q_items (fq s))" using Cons.prems(3) by (cases "q_items (fq s)") (auto simp: mid_iter_def)
  have r: "ready_idx ov (agg_in (st_hmb s)) (q_items (fq s)) = None" using Cons.prems(4) by (intro ready_idx_none) auto
  then have sp: "sched_pass X ov (abs_st s) = (Normal t, run_block X False t (st_hmb s), ts, q_items (fq s) @ follow_up False t)"
    using Cons.prems(2) by (simp add: sched_pass_run abs_st_def)
  obtain u where u: "edge_pass X s = Some (Normal t, True, u)" "abs_st u = (run_block X False t (st_hmb s), ts, q_items (fq s) @ follow_up False t)"
    "engine_inv X u" using pass_refines [OF assms(1) Cons.prems(1) m] unfolding sp by auto
  from u(2) have f: "st_hmb u = run_block X False t (st_hmb s)" "q_items (nq u) = ts" "q_items (fq u) = q_items (fq s) @ follow_up False t"
    by (simp_all add: abs_st_def)
  have "\<exists>s'. edge_passes (length ts) X u = Some (map Normal ts, s') \<and>
    abs_st s' = (fold (run_block X False) ts (st_hmb u), [], q_items (fq u) @ concat (map (follow_up False) ts))"
    using u(3) f Cons.prems(3,4) by (intro Cons.IH) simp_all
  then show ?case using u(1) f by auto
qed

lemma mset_remove_nth: "i < length xs \<Longrightarrow> mset xs = add_mset (xs ! i) (mset (remove_nth i xs))"
  using arg_cong [OF id_take_nth_drop [of i xs], of mset] by (simp add: remove_nth_def)

text \<open>Before the last two iterations there are no markers, only the triangle.\<close>

lemma triangle_ahead:
  assumes "\<forall>t \<in> set ts. iter t + 1 \<noteq> num_iters t \<and> iter t + 2 \<noteq> num_iters t"
  shows "concat (map after_normal ts) = map (\<lambda>t. t\<lparr>iter := iter t + 1, is_fvc := 1\<rparr>)
    (filter (\<lambda>t. if even (unat (iter t)) then pe_r t \<le> pe_c t else pe_c t < pe_r t) ts)"
  using assms by (induction ts) (auto simp: after_normal_def ahead_def)

section \<open>Properties\<close>

text \<open>
  C3: with a host that leaves the buffer alone, allocations that succeed and clocks that advance, in the overlap
  modes 0, 1 and 2 and while the front of the future queue does not end the iteration, a pass of the engine
  returns and does exactly what the abstract scheduler does: it runs a future task whose source partition is
  aggregated if there is one (the front, the first or the last, by the overlap mode), otherwise the next normal
  task; a normal task adds the kernel of its block over \<open>buf0\<close> to the device's slice of \<open>buf1\<close> and sets its flag in
  \<open>done1\<close>, a future task does so from \<open>buf1\<close> to \<open>buf2\<close> and \<open>done2\<close>; a normal block of the triangle that can be
  computed ahead is appended as a task of the next iteration, and the markers that close an iteration follow the
  last block. Prefetching, waiting, caching and the cost model do not show.
\<close>
theorem engine_refines_scheduler:
  assumes "undisturbed X" and "engine_inv X s" and "mid_iter ov (q_items (fq s))"
  shows "\<exists>s'. edge_pass X s = Some (fst (sched_pass X ov (abs_st s)), True, s') \<and>
    abs_st s' = snd (sched_pass X ov (abs_st s)) \<and> engine_inv X s'"
  using assms by (rule pass_refines)

text \<open>
  C6: while no partition is aggregated, and with a host that leaves the buffer alone, in the overlap modes 0, 1
  and 2 and as long as no task at the front of the future queue ends the iteration, the engine runs the normal
  tasks of the queue exactly once each and in queue order, so that the shared buffer is the result of the blocks
  one after the other. It leaves in the future queue, in order, exactly the blocks that the next iteration can
  compute ahead (row at most column in an even iteration, row above column in an odd one, none in the last) as
  tasks of the next iteration, and the markers that close the last iteration.
\<close>
theorem iteration_in_order:
  assumes "undisturbed X" and "engine_inv X s" and "q_items (nq s) = ts" and "q_items (fq s) = []"
    and "mid_iter ov (concat (map after_normal ts))"
    and "\<forall>f \<in> set (concat (map after_normal ts)). \<not> done_partition (st_hmb s) (uint (pe_r f))"
  shows "\<exists>s'. edge_passes (length ts) X s = Some (map Normal ts, s') \<and>
    st_hmb s' = fold (normal_block X) ts (st_hmb s) \<and> q_items (nq s') = [] \<and>
    q_items (fq s') = concat (map after_normal ts) \<and>
    ((\<forall>t \<in> set ts. iter t + 1 \<noteq> num_iters t \<and> iter t + 2 \<noteq> num_iters t) \<longrightarrow>
       q_items (fq s') = map (\<lambda>t. t\<lparr>iter := iter t + 1, is_fvc := 1\<rparr>)
         (filter (\<lambda>t. if even (unat (iter t)) then pe_r t \<le> pe_c t else pe_c t < pe_r t) ts))"
proof -
  have e: "follow_up False = after_normal" "run_block X False = normal_block X"
    by (simp_all add: fun_eq_iff follow_up_after run_block_values)
  have "\<exists>s'. edge_passes (length ts) X s = Some (map Normal ts, s') \<and>
    abs_st s' = (fold (run_block X False) ts (st_hmb s), [], q_items (fq s) @ concat (map (follow_up False) ts))"
    using assms(4-6) by (intro passes_in_order [OF assms(1-3), of ov]) (simp_all add: agg_in_def e)
  then show ?thesis using assms(4) triangle_ahead [of ts] by (auto simp: abs_st_def e)
qed

text \<open>
  C5: whatever the host does to the buffer, whichever admissible tasks it submits (a block length and a target
  time that are not negative, a row and a column below \<^verbatim>\<open>MAX_PARTITION\<close>), in every configuration of the caches,
  and with a rounding of doubles that keeps the sign, a pass of the engine returns as long as the clocks
  advance. It leaves the vertex cache well formed and within its capacity, both queues consistent with their
  counters, every queued task admissible and the byte counter of the edge cache equal to the sum of its units;
  with partial eviction on, the edge cache is well formed and within its capacity as well (with it off, the
  default, the capacity is not respected).
\<close>
theorem engine_total:
  assumes "env_ok X" and "clock_live X" and "engine_inv X s"
  shows "\<exists>p ok s'. edge_pass X s = Some (p, ok, s') \<and> engine_inv X s'"
proof -
  obtain p u where p: "select_task X s = Some (p, u)" using select_task_returns [OF assms] by fastforce
  note i = select_task_inv [OF p assms(1,3)]
  have r: "\<exists>ok s'. run_task X fut t u = Some (ok, s')" if "task_ok t" for fut t
    using run_task_returns [OF assms(1,2) _ that] i by fastforce
  have "\<exists>ok s'. edge_pass X s = Some (p, ok, s')"
  proof (cases p)
    case (Future t)
    then show ?thesis using p i r [of t True] by (auto simp: edge_pass_def)
  next
    case (Normal t)
    then show ?thesis using p i r [of t False] by (auto simp: edge_pass_def)
  qed (use p in \<open>auto simp: edge_pass_def\<close>)
  then show ?thesis using edge_pass_inv [OF _ assms(1,3)] by blast
qed

text \<open>
  C4: future values are only computed from aggregated values. In the overlap modes 0, 1 and 2, and provided that
  whenever the front of the future queue ends the iteration the normal queue is empty and no task is submitted
  (as the comment in the code says it is; otherwise a task that was never checked can be chosen), the future
  task that a pass chooses was in the queue, is taken out of it, and the flag of its source partition is set
  when it is chosen, whatever the host does to the shared buffer.
\<close>
theorem future_needs_aggregation:
  assumes "select_task X s = Some (Future t, s')" and "env_ok X" and "engine_inv X s"
    and "\<forall>u \<in> set (q_items (fq s)). row_overlap u = ov" and "ov \<in> {0, 1, 2}"
    and "q_items (fq s) \<noteq> [] \<and> ends_iter (hd (q_items (fq s))) \<Longrightarrow> q_items (nq s) = [] \<and> no_submit X"
  shows "done_partition (st_hmb s') (uint (pe_r t)) \<and> mset (q_items (fq s)) = add_mset t (mset (q_items (fq s')))"
proof -
  let ?u = "observe X s"
  have o: "fq ?u = fq s" using calm_fq [OF calm_observe] .
  have i: "engine_inv X ?u" using calm_inv [OF calm_observe assms(2,3)] .
  have ns: "fst (should_stop X s) = False"
    using assms(1) by (cases "fst (should_stop X s)") (simp_all add: select_task_def Let_def split_beta)
  show ?thesis
  proof (cases "q_items (fq s) = [] \<or> \<not> ends_iter (hd (q_items (fq s)))")
    case True
    note sel = select_task_plain [OF i ns True assms(4,5), unfolded Let_def assms(1)]
    obtain k where k: "ready_idx ov (agg_in (st_hmb ?u)) (q_items (fq ?u)) = Some k"
      using sel by (cases "ready_idx ov (agg_in (st_hmb ?u)) (q_items (fq ?u))") (auto split: list.splits)
    have b: "k < length (q_items (fq s))" "agg_in (st_hmb ?u) (q_items (fq s) ! k)" using ready_idx_Some [OF k] o by simp_all
    have "t = q_items (fq s) ! k" "s' = with_fq ?u (drop_task k (fq s))" using sel k o by simp_all
    then show ?thesis using b mset_remove_nth [OF b(1)] by (simp add: with_fq_def drop_task_def agg_in_def)
  next
    case False
    then obtain a as where q: "q_items (fq s) = a # as" "ends_iter a" by (cases "q_items (fq s)") auto
    have e: "q_items (nq s) = []" "no_submit X" using assms(6) q by auto
    have n: "nq ?u = nq s" using calm_observe [of X s] e(2) by (simp add: calm_def adv_def)
    have w: "queue_wf (fq s)" "queue_wf (nq s)" using assms(3) by (simp_all add: engine_inv_def)
    have sz: "get_queue_size (fq s) \<noteq> 0" using get_queue_size_0 [OF w(1)] q(1) by simp
    obtain r z where f: "future_front X ?u = Some (r, z)" and c: "(case r of None \<Rightarrow> Some (Stopped, z) | Some ready \<Rightarrow> take_task ready z) = Some (Future t, s')"
      using assms(1) ns sz o unfolding select_task_def Let_def split_beta observers
      by (auto simp: bind_eq_Some_conv cong: option.case_cong)
    obtain ready where r: "r = Some ready" using c by (cases r) auto
    obtain t' where "end_of_iter X a ?u = Some (Some t', z)"
      using f q o r by (auto simp: future_front_def get_queue_front_def bind_eq_Some_conv Let_def split: option.splits)
    then have "get_queue_size (fq z) = 0" using end_of_iter_empties [OF _ e(2)] w(2) e(1) n by simp
    moreover have "p \<noteq> Future t" if "take_normal z = Some (p, s')" for p
      using that by (auto simp: take_normal_def bind_eq_Some_conv split: if_splits prod.splits)
    ultimately show ?thesis using c r by (auto simp: take_task_def)
  qed
qed

text \<open>
  C7: in the row mode (\<^verbatim>\<open>row_overlap\<close> 3) the engine computes future values from a partition that is not
  aggregated: when a later future task is ready, the search that is meant for the modes 1 and 2 reports it, and
  \<^verbatim>\<open>find_next_future_task\<close> then takes the front of the queue, which is not.
\<close>
theorem row_mode_runs_unaggregated:
  assumes "env_ok X" and "engine_inv X s" and "\<not> fst (should_stop X s)" and "q_items (fq s) = t # ts" and "\<not> ends_iter t"
    and "\<forall>u \<in> set (t # ts). row_overlap u = 3"
    and "\<not> done_partition (st_hmb (observe X s)) (uint (pe_r t))"
    and "\<exists>f \<in> set ts. done_partition (st_hmb (observe X s)) (uint (pe_r f))"
  shows "\<exists>s'. select_task X s = Some (Future t, s') \<and> \<not> done_partition (st_hmb s') (uint (pe_r t))"
proof -
  let ?u = "observe X s" and ?a = "\<lambda>n. done_partition (st_hmb (observe X s)) (uint (pe_r n))"
  have o: "fq ?u = fq s" using calm_fq [OF calm_observe] .
  have "queue_wf (fq s)" using assms(2) by (simp add: engine_inv_def)
  from get_queue_size_0 [OF this] have sz: "get_queue_size (fq s) \<noteq> 0" using assms(4) by simp
  obtain f where f: "find ?a (t # ts) = Some f" using assms(8) by (cases "find ?a (t # ts)") (auto simp: find_None_iff split: if_splits)
  then have fa: "f \<in> set (t # ts)" "?a f" by (metis find_Some_iff nth_mem)+
  then have "row_overlap f = 3" using assms(6) by blast
  then have "find_next_future_task (fq s) (\<lambda>r. done_partition (st_hmb ?u) (uint r)) f True = (True, t, drop_task 0 (fq s))"
    using sz assms(4) by (simp add: find_next_future_task_def future_task_idx_def drop_task_def)
  then have "take_task (Some f) ?u = Some (Future t, with_fq ?u (drop_task 0 (fq s)))"
    using sz o by (simp add: take_task_def with_fq_def)
  moreover have "future_front X ?u = Some (Some (Some f), ?u)"
    using o sz assms(4-6) f fa(2) by (simp add: future_front_def get_queue_front_def Let_def del: find.simps)
  ultimately have "select_task X s = Some (Future t, with_fq ?u (drop_task 0 (fq s)))"
    using assms(3) sz o unfolding select_task_def Let_def split_beta observers by simp
  then show ?thesis using assms(7) by (simp add: with_fq_def)
qed

section \<open>Concrete runs\<close>

text \<open>A device with two partitions and a clock that counts observations.\<close>

definition demo_X :: edge_env where
  "demo_X = \<lparr>x_csd = \<lparr>e_clk = (\<lambda>n. int n), e_stop = (\<lambda>_. False), e_kmalloc = (\<lambda>_. True),
       e_P = \<lparr>cache_eviction_policy = ''FIFO'', partial_edge_eviction = 0, invalidation_at_future_value = 0, edge_buffer_size = 4096\<rparr>,
       e_fl = (\<lambda>x. x), e_fd = (\<lambda>x. x), e_storage = (\<lambda>_ _. 0)\<rparr>,
     x_host = (\<lambda>_ h. h), x_jiffies = (\<lambda>n. of_nat n), x_timeout = 1, x_submit = (\<lambda>_. [])\<rparr>"

definition demo_task :: "u32 \<Rightarrow> u32 \<Rightarrow> u32 \<Rightarrow> PROC_EDGE" where
  "demo_task ov r c = blank_task\<lparr>num_iters := 3, row_overlap := ov, pe_r := r, pe_c := c, num_partitions := 2, num_vertices := 4, num_csds := 1\<rparr>"

definition demo_hmb :: "(int \<Rightarrow> bool) \<Rightarrow> hmb_device" where
  "demo_hmb agg = \<lparr>buf0 = (\<lambda>_. 0), buf1 = (\<lambda>_. 0), buf2 = (\<lambda>_. 0), done1 = (\<lambda>_. False), done2 = (\<lambda>_. False), done_partition = agg\<rparr>"

definition demo_queue :: "PROC_EDGE list \<Rightarrow> queue" where
  "demo_queue ts = \<lparr>q_items = ts, q_size = int (length ts)\<rparr>"

definition demo_st :: "(int \<Rightarrow> bool) \<Rightarrow> PROC_EDGE list \<Rightarrow> PROC_EDGE list \<Rightarrow> edge_st" where
  "demo_st agg ns fs = \<lparr>st_hmb = demo_hmb agg, st_dev = \<lparr>normal_task_queue = demo_queue ns, future_task_queue = demo_queue fs,
     edge_buf = edge_buffer_init (e_P (x_csd demo_X)), vertex_buf = vertex_buffer_init 4096, tick = 0\<rparr>\<rparr>"

lemma demo_env: "undisturbed demo_X"
proof -
  have "time_after (of_nat (k + 2)) (of_nat k + 1)" "time_after (of_nat (Suc (k + 2))) (of_nat k + 1)" for k
    by (simp_all add: time_after_def)
  then have "\<exists>n\<ge>Suc k. time_after (of_nat n) (of_nat k + 1) \<and> time_after (of_nat (Suc n)) (of_nat k + 1)" for k
    by (intro exI [of _ "k + 2"]) simp
  moreover have "\<exists>N. \<forall>n\<ge>N. t \<le> int n" for t by (intro exI [of _ "nat t"]) auto
  ultimately have "clock_live demo_X" by (simp add: clock_live_def demo_X_def)
  then show ?thesis
    by (simp add: undisturbed_def env_ok_def quiet_def no_submit_def never_stops_def alloc_ok_def demo_X_def)
qed

lemma demo_inv: "\<forall>t \<in> set ns \<union> set fs. task_ok t \<Longrightarrow> engine_inv demo_X (demo_st agg ns fs)"
  by (auto simp: engine_inv_def demo_st_def demo_queue_def queue_wf_def edge_ok_def vertex_wf_def cache_wf_def
      edge_buffer_init_def vertex_buffer_init_def demo_X_def)

lemma demo_task_ok: "r < 2 \<Longrightarrow> c < 2 \<Longrightarrow> task_ok (demo_task ov r c)"
  by (auto simp: task_ok_def demo_task_def blank_task_def MAX_PARTITION_def word_less_nat_alt)

lemmas demo_defs = demo_st_def demo_queue_def demo_hmb_def demo_task_def blank_task_def

theorem engine_refines_scheduler_witness:
  "\<exists>s'. edge_pass demo_X (demo_st (\<lambda>_. False) [demo_task 0 0 0] []) = Some (Normal (demo_task 0 0 0), True, s') \<and>
     q_items (nq s') = [] \<and> map pe_r (q_items (fq s')) = [0]"
proof -
  let ?s = "demo_st (\<lambda>_. False) [demo_task 0 0 0] []"
  have i: "engine_inv demo_X ?s" by (rule demo_inv) (simp add: demo_task_ok)
  have m: "mid_iter 0 (q_items (fq ?s))" by (simp add: mid_iter_def demo_defs)
  have p: "sched_pass demo_X 0 (abs_st ?s) =
    (Normal (demo_task 0 0 0), normal_block demo_X (demo_task 0 0 0) (st_hmb ?s), [], [(demo_task 0 0 0)\<lparr>iter := 1, is_fvc := 1\<rparr>])"
    by (simp add: sched_pass_def abs_st_def ready_idx_def demo_defs after_normal_def ahead_def)
  show ?thesis using engine_refines_scheduler [OF demo_env i m] unfolding p
    by (auto simp: abs_st_def demo_task_def)
qed

theorem iteration_in_order_witness:
  "\<exists>s'. edge_passes 4 demo_X (demo_st (\<lambda>_. False) [demo_task 0 0 0, demo_task 0 1 0, demo_task 0 0 1, demo_task 0 1 1] []) =
     Some (map Normal [demo_task 0 0 0, demo_task 0 1 0, demo_task 0 0 1, demo_task 0 1 1], s') \<and>
     map (\<lambda>t. (pe_r t, pe_c t)) (q_items (fq s')) = [(0, 0), (0, 1), (1, 1)]"
proof -
  let ?ts = "[demo_task 0 0 0, demo_task 0 1 0, demo_task 0 0 1, demo_task 0 1 1]"
  let ?s = "demo_st (\<lambda>_. False) ?ts []"
  have i: "engine_inv demo_X ?s" by (rule demo_inv) (simp add: demo_task_ok)
  let ?next = "\<lambda>r c. (demo_task 0 r c)\<lparr>iter := 1, is_fvc := 1\<rparr>"
  have f: "concat (map after_normal ?ts) = [?next 0 0, ?next 0 1, ?next 1 1]"
    by (simp add: demo_task_def blank_task_def after_normal_def ahead_def)
  have q: "q_items (nq ?s) = ?ts" "q_items (fq ?s) = []" by (simp_all add: demo_st_def demo_queue_def)
  have m: "mid_iter 0 (concat (map after_normal ?ts))"
    unfolding f by (simp add: mid_iter_def ends_iter_def demo_task_def blank_task_def)
  have a: "\<forall>f \<in> set (concat (map after_normal ?ts)). \<not> done_partition (st_hmb ?s) (uint (pe_r f))"
    by (simp add: demo_st_def demo_hmb_def)
  from iteration_in_order [OF demo_env i q m a] obtain s' where
    s': "edge_passes (length ?ts) demo_X ?s = Some (map Normal ?ts, s')" "q_items (fq s') = concat (map after_normal ?ts)" by blast
  have 4: "length ?ts = 4" by simp
  have "map (\<lambda>t. (pe_r t, pe_c t)) (q_items (fq s')) = [(0, 0), (0, 1), (1, 1)]"
    unfolding s'(2) f by (simp add: demo_task_def)
  then show ?thesis using s'(1) unfolding 4 by (intro exI [of _ s'] conjI)
qed

theorem engine_total_witness:
  "\<exists>p ok s'. edge_pass demo_X (demo_st (\<lambda>_. True) [demo_task 1 1 0] [demo_task 1 0 0]) = Some (p, ok, s') \<and> engine_inv demo_X s'"
proof -
  have "engine_inv demo_X (demo_st (\<lambda>_. True) [demo_task 1 1 0] [demo_task 1 0 0])" by (rule demo_inv) (simp add: demo_task_ok)
  then show ?thesis using engine_total demo_env unfolding undisturbed_def by blast
qed

text \<open>Future tasks of the first iteration with three partitions; row 0 is aggregated and row 1 is not.\<close>

definition demo_fut :: "u32 \<Rightarrow> u32 \<Rightarrow> u32 \<Rightarrow> PROC_EDGE" where
  "demo_fut ov r c = (demo_task ov r c)\<lparr>iter := 1, is_fvc := 1, num_partitions := 3\<rparr>"

lemma demo_fut_ok: "r < 3 \<Longrightarrow> c < 3 \<Longrightarrow> task_ok (demo_fut ov r c)"
  by (auto simp: task_ok_def demo_fut_def demo_task_def blank_task_def MAX_PARTITION_def word_less_nat_alt)

theorem future_needs_aggregation_witness:
  "\<exists>s'. select_task demo_X (demo_st (\<lambda>r. r = 0) [] [demo_fut 1 1 1, demo_fut 1 0 2]) = Some (Future (demo_fut 1 0 2), s') \<and>
     done_partition (st_hmb s') 0"
proof -
  let ?fs = "[demo_fut 1 1 1, demo_fut 1 0 2]" and ?s = "demo_st (\<lambda>r. r = 0) [] [demo_fut 1 1 1, demo_fut 1 0 2]"
  have i: "engine_inv demo_X ?s" by (rule demo_inv) (simp add: demo_fut_ok)
  have e: "env_ok demo_X" "quiet demo_X" "never_stops demo_X" using demo_env by (simp_all add: undisturbed_def)
  have o: "st_hmb (observe demo_X ?s) = st_hmb ?s" "fq (observe demo_X ?s) = fq ?s" using observe_quiet [OF e(2)] by blast+
  have q: "q_items (fq ?s) = ?fs" by (simp add: demo_st_def demo_queue_def)
  have m: "\<forall>u \<in> set (q_items (fq ?s)). row_overlap u = 1" "(1 :: u32) \<in> {0, 1, 2}"
    unfolding q by (simp_all add: demo_fut_def demo_task_def)
  have n: "q_items (fq ?s) = [] \<or> \<not> ends_iter (hd (q_items (fq ?s)))"
    unfolding q by (simp add: ends_iter_def demo_fut_def demo_task_def blank_task_def)
  have r: "ready_idx 1 (agg_in (st_hmb ?s)) ?fs = Some 1"
    by (simp add: ready_idx_def agg_in_def demo_fut_def demo_task_def demo_st_def demo_hmb_def)
  have st: "fst (should_stop demo_X ?s) = False" using e(3) by simp
  have s: "select_task demo_X ?s = Some (Future (demo_fut 1 0 2), with_fq (observe demo_X ?s) (drop_task 1 (fq ?s)))"
    using select_task_plain [OF calm_inv [OF calm_observe e(1) i] st n m] r by (simp add: o q Let_def)
  from future_needs_aggregation [OF s e(1) i m] n q
  have "done_partition (st_hmb (with_fq (observe demo_X ?s) (drop_task 1 (fq ?s)))) (uint (pe_r (demo_fut 1 0 2)))" by blast
  then show ?thesis using s by (simp add: demo_fut_def demo_task_def)
qed

theorem row_mode_runs_unaggregated_witness:
  "\<exists>s'. select_task demo_X (demo_st (\<lambda>r. r = 0) [] [demo_fut 3 1 1, demo_fut 3 0 2]) = Some (Future (demo_fut 3 1 1), s') \<and>
     \<not> done_partition (st_hmb s') 1"
proof -
  let ?s = "demo_st (\<lambda>r. r = 0) [] [demo_fut 3 1 1, demo_fut 3 0 2]"
  have i: "engine_inv demo_X ?s" by (rule demo_inv) (simp add: demo_fut_ok)
  have e: "env_ok demo_X" "quiet demo_X" "never_stops demo_X" using demo_env by (simp_all add: undisturbed_def)
  have o: "st_hmb (observe demo_X ?s) = st_hmb ?s" using observe_quiet [OF e(2)] by blast
  have q: "q_items (fq ?s) = demo_fut 3 1 1 # [demo_fut 3 0 2]" by (simp add: demo_st_def demo_queue_def)
  have st: "\<not> fst (should_stop demo_X ?s)" using e(3) by simp
  have n: "\<not> ends_iter (demo_fut 3 1 1)" by (simp add: ends_iter_def demo_fut_def demo_task_def blank_task_def)
  have ov: "\<forall>u \<in> set (demo_fut 3 1 1 # [demo_fut 3 0 2]). row_overlap u = 3" by (simp add: demo_fut_def demo_task_def)
  have a: "\<not> done_partition (st_hmb (observe demo_X ?s)) (uint (pe_r (demo_fut 3 1 1)))"
    "\<exists>f \<in> set [demo_fut 3 0 2]. done_partition (st_hmb (observe demo_X ?s)) (uint (pe_r f))"
    unfolding o by (simp_all add: demo_fut_def demo_task_def demo_st_def demo_hmb_def)
  from row_mode_runs_unaggregated [OF e(1) i st q n ov a] show ?thesis by (simp add: demo_fut_def demo_task_def)
qed

end
