(* ===== verification/KV_FTL.thy ===== *)
theory KV_FTL
  imports Data_Path
begin

text \<open>
  The key-value namespace (\<^verbatim>\<open>kv_ftl.c\<close>, \<^verbatim>\<open>kv_ftl.h\<close>, \<^verbatim>\<open>nvme_kv.h\<close>) with its two allocators
  (\<^verbatim>\<open>append_only.c\<close>, \<^verbatim>\<open>bitmap.c\<close>): a hash table whose collisions are chained by slot number and placed by linear
  probing, store, retrieve, delete and exist commands over the PRP pages of \<open>Data_Path\<close>, batches and iterators. The allocator is
  the argument \<open>alloc\<close> of the operations; the build selects \<open>append_only_allocate\<close>. A key is the list of its bytes, the
  bytes of a command are its double words. \<open>None\<close> stands for \<^verbatim>\<open>BUG_ON\<close>, for a walk or probe that does not end, for a failed
  allocation that is used, and for an access beyond an array: a key longer than the 16 bytes of the
  command, an iterator handle above 16, a batch entry beyond its buffers.
\<close>

unbundle bit_operations_syntax

section \<open>Allocators\<close>

record append_only =
  ap_latest :: u64
  ap_dev_size :: u64
  ap_total_written :: u64

definition append_only_allocator_init :: "u64 \<Rightarrow> append_only" where
  "append_only_allocator_init sz = \<lparr>ap_latest = 0, ap_dev_size = sz, ap_total_written = 0\<rparr>"

definition append_only_allocate :: "u64 \<Rightarrow> append_only \<Rightarrow> u64 \<times> append_only" where
  "append_only_allocate len a =
     (ap_latest a, a\<lparr>ap_latest := ap_latest a + len, ap_total_written := ap_total_written a + len\<rparr>)"

definition SMALL_LENGTH :: u64 where "SMALL_LENGTH = 1024"
definition LARGE_LENGTH :: u64 where "LARGE_LENGTH = 4096"

record bit_pool =
  bp_nbits :: nat
  bp_bits :: "nat \<Rightarrow> bool"
  bp_last_pos :: nat
  bp_capacity :: nat

record bitmap_alloc =
  bm_small :: bit_pool
  bm_large :: bit_pool
  bm_dev_size :: u64
  bm_total_written :: u64

definition bitmap_allocator_init :: "u64 \<Rightarrow> bitmap_alloc \<Rightarrow> bitmap_alloc" where
  "bitmap_allocator_init sz b =
     (let sn = unat (sz div 2 div SMALL_LENGTH); ln = unat (sz div 2 div LARGE_LENGTH) in
      b\<lparr>bm_dev_size := sz,
        bm_small := (bm_small b)\<lparr>bp_nbits := sn, bp_bits := (\<lambda>i. \<not> i < sn \<and> bp_bits (bm_small b) i)\<rparr>,
        bm_large := (bm_large b)\<lparr>bp_nbits := ln, bp_bits := (\<lambda>i. \<not> i < ln \<and> bp_bits (bm_large b) i)\<rparr>\<rparr>)"

text \<open>
  \<^verbatim>\<open>bitmap_find_next_zero_area(map, size, start, 1, 0)\<close> of the kernel: the first clear bit at or after \<open>start\<close>; when
  there is none below \<open>size\<close>, \<open>size + 1\<close>.
\<close>

definition find_next_zero_area :: "(nat \<Rightarrow> bool) \<Rightarrow> nat \<Rightarrow> nat \<Rightarrow> nat" where
  "find_next_zero_area bits sz start =
     (case List.find (\<lambda>i. \<not> bits i) [start..<sz] of Some i \<Rightarrow> i | None \<Rightarrow> sz + 1)"

definition pool_take :: "bit_pool \<Rightarrow> nat \<times> bit_pool" where
  "pool_take p =
     (let off = find_next_zero_area (bp_bits p) (bp_nbits p) (bp_last_pos p) in
      (off, p\<lparr>bp_bits := (bp_bits p)(off := True), bp_last_pos := (if off + 1 > bp_nbits p then 0 else off + 1),
              bp_capacity := bp_capacity p + 1\<rparr>))"

definition bitmap_allocate :: "u64 \<Rightarrow> bitmap_alloc \<Rightarrow> u64 \<times> bitmap_alloc" where
  "bitmap_allocate len b =
     (let b = b\<lparr>bm_total_written := bm_total_written b + len\<rparr> in
      if len > SMALL_LENGTH
      then let (off, p) = pool_take (bm_large b) in (bm_dev_size b div 2 + of_nat off * LARGE_LENGTH, b\<lparr>bm_large := p\<rparr>)
      else let (off, p) = pool_take (bm_small b) in (of_nat off * SMALL_LENGTH, b\<lparr>bm_small := p\<rparr>))"

section \<open>Data\<close>

definition NO_OFFSET :: u64 where "NO_OFFSET = -1"
definition NO_SLOT :: u32 where "NO_SLOT = -1"
definition KEY_ARRAY :: nat where "KEY_ARRAY = 18"
definition KVCMD_INLINE_KEY_MAX :: nat where "KVCMD_INLINE_KEY_MAX = 16"

definition nvme_cmd_kv_store :: u8 where "nvme_cmd_kv_store = 0x81"
definition nvme_cmd_kv_append :: u8 where "nvme_cmd_kv_append = 0x83"
definition nvme_cmd_kv_batch :: u8 where "nvme_cmd_kv_batch = 0x85"
definition nvme_cmd_kv_retrieve :: u8 where "nvme_cmd_kv_retrieve = 0x90"
definition nvme_cmd_kv_delete :: u8 where "nvme_cmd_kv_delete = 0xA1"
definition nvme_cmd_kv_iter_req :: u8 where "nvme_cmd_kv_iter_req = 0xB1"
definition nvme_cmd_kv_iter_read :: u8 where "nvme_cmd_kv_iter_read = 0xB2"
definition nvme_cmd_kv_exist :: u8 where "nvme_cmd_kv_exist = 0xB3"

definition KV_ERR_KEY_NOT_EXIST :: u32 where "KV_ERR_KEY_NOT_EXIST = 0x310"

record mapping_entry =
  me_key :: "u8 list"
  me_mem_offset :: u64
  me_length :: u64
  me_next_slot :: u32

record kv_iter_context =
  it_prefix :: u32
  it_bitmask :: u32
  it_buf :: bytes
  it_current_pos :: nat

record 'a kv_ftl =
  kv_mapping_table :: "nat \<Rightarrow> mapping_entry"
  hash_slots :: nat
  kv_alloc :: 'a
  iter_handle :: "nat \<Rightarrow> kv_iter_context option"
  kv_storage :: bytes
  kv_storage_size :: u64

section \<open>Command fields\<close>

definition bytes32 :: "u32 \<Rightarrow> u8 list" where
  "bytes32 w = [ucast w, ucast (drop_bit 8 w), ucast (drop_bit 16 w), ucast (drop_bit 24 w)]"

definition cmd_key_length :: "nvme_command \<Rightarrow> nat" where
  "cmd_key_length cmd = unat (ucast (c_cdw11 cmd) :: u8) + 1"

definition cmd_value_length :: "nvme_command \<Rightarrow> u32" where
  "cmd_value_length cmd = push_bit 2 (c_cdw10 cmd)"

definition kv_key :: "nvme_command \<Rightarrow> u8 list option" where
  "kv_key cmd =
     (if cmd_key_length cmd \<le> KVCMD_INLINE_KEY_MAX
      then Some (take (cmd_key_length cmd) (concat (map bytes32 [c_cdw12 cmd, c_cdw13 cmd, c_cdw14 cmd, c_cdw15 cmd])))
      else None)"

definition kv_option :: "nvme_command \<Rightarrow> u8" where
  "kv_option cmd = ucast (drop_bit 8 (c_cdw11 cmd))"

definition kv_iter_nr :: "nvme_command \<Rightarrow> nat" where
  "kv_iter_nr cmd = unat (ucast (c_cdw11 cmd) :: u8)"

definition kv_batch_cnt :: "nvme_command \<Rightarrow> nat" where
  "kv_batch_cnt cmd = unat (ucast (drop_bit 24 (c_cdw11 cmd)) :: u8)"

section \<open>The hash table\<close>

definition hash_function :: "u8 list \<Rightarrow> u32" where
  "hash_function key = fold (\<lambda>b h. (h * 16777619) XOR ucast b) key 2166136261"

definition get_hash_slot :: "'a kv_ftl \<Rightarrow> u8 list \<Rightarrow> nat" where
  "get_hash_slot kv key = unat (hash_function key) mod hash_slots kv"

definition in_use :: "mapping_entry \<Rightarrow> bool" where
  "in_use e \<longleftrightarrow> me_mem_offset e \<noteq> NO_OFFSET"

definition upd_entry :: "nat \<Rightarrow> (mapping_entry \<Rightarrow> mapping_entry) \<Rightarrow> 'a kv_ftl \<Rightarrow> 'a kv_ftl" where
  "upd_entry slt f kv = kv\<lparr>kv_mapping_table := (kv_mapping_table kv)(slt := f (kv_mapping_table kv slt))\<rparr>"

definition chain_mapping :: "nat \<Rightarrow> nat \<Rightarrow> 'a kv_ftl \<Rightarrow> 'a kv_ftl" where
  "chain_mapping prev slt = upd_entry prev (\<lambda>e. e\<lparr>me_next_slot := of_nat slt\<rparr>)"

text \<open>\<^verbatim>\<open>find_next_slot\<close>: the last entry in use along the links, then the next free slot from there.\<close>

partial_function (option) chain_tail :: "(nat \<Rightarrow> mapping_entry) \<Rightarrow> nat \<Rightarrow> nat option" where
  "chain_tail tab tail =
     (if me_next_slot (tab tail) = NO_SLOT then Some tail
      else if \<not> in_use (tab (unat (me_next_slot (tab tail)))) then Some tail
      else chain_tail tab (unat (me_next_slot (tab tail))))"

partial_function (option) probe :: "(nat \<Rightarrow> mapping_entry) \<Rightarrow> nat \<Rightarrow> nat \<Rightarrow> nat option" where
  "probe tab slots ret_slot =
     (if in_use (tab ret_slot) then probe tab slots (if ret_slot + 1 \<ge> slots then 0 else ret_slot + 1)
      else Some ret_slot)"

definition find_next_slot :: "'a kv_ftl \<Rightarrow> nat \<Rightarrow> (nat \<times> nat) option" where
  "find_next_slot kv original_slot =
     do {
       prev \<leftarrow> chain_tail (kv_mapping_table kv) original_slot;
       slt \<leftarrow> probe (kv_mapping_table kv) (hash_slots kv) prev;
       Some (slt, prev)
     }"

text \<open>
  \<^verbatim>\<open>new_mapping_entry\<close> and \<^verbatim>\<open>new_mapping_entry_by_key\<close>, which differ in where key and length come from.
\<close>

definition new_mapping_entry :: "u8 list \<Rightarrow> u64 \<Rightarrow> u64 \<Rightarrow> 'a kv_ftl \<Rightarrow> 'a kv_ftl option" where
  "new_mapping_entry key len val_offset kv =
     (if val_offset \<ge> kv_storage_size kv \<or> hash_slots kv = 0 \<or> length key > KEY_ARRAY then None
      else
        do {
          (slt, prev) \<leftarrow>
            (if in_use (kv_mapping_table kv (get_hash_slot kv key))
             then map_option (\<lambda>(s, p). (s, Some p)) (find_next_slot kv (get_hash_slot kv key))
             else Some (get_hash_slot kv key, None));
          let kv = upd_entry slt (\<lambda>e. e\<lparr>me_key := key @ drop (length key) (me_key e), me_mem_offset := val_offset, me_length := len\<rparr>) kv in
          Some (case prev of None \<Rightarrow> kv | Some p \<Rightarrow> chain_mapping p slt kv)
        })"

text \<open>The walk that update, lookup and deletion share: the slot whose key begins with the given one.\<close>

partial_function (option) find_key :: "(nat \<Rightarrow> mapping_entry) \<Rightarrow> u8 list \<Rightarrow> nat \<Rightarrow> nat option option" where
  "find_key tab key slt =
     (if \<not> in_use (tab slt) then Some None
      else if take (length key) (me_key (tab slt)) = key then Some (Some slt)
      else if me_next_slot (tab slt) = NO_SLOT then Some None
      else find_key tab key (unat (me_next_slot (tab slt))))"

definition find_slot :: "'a kv_ftl \<Rightarrow> u8 list \<Rightarrow> nat option option" where
  "find_slot kv key = (if hash_slots kv = 0 then None else find_key (kv_mapping_table kv) key (get_hash_slot kv key))"

definition update_mapping_entry :: "u8 list \<Rightarrow> u64 \<Rightarrow> 'a kv_ftl \<Rightarrow> (u32 \<times> 'a kv_ftl) option" where
  "update_mapping_entry key len kv =
     map_option (\<lambda>s. case s of Some slt \<Rightarrow> (0, upd_entry slt (\<lambda>e. e\<lparr>me_length := len\<rparr>) kv) | None \<Rightarrow> (1, kv)) (find_slot kv key)"

definition WIPED :: mapping_entry where
  "WIPED = \<lparr>me_key = replicate KEY_ARRAY (-1), me_mem_offset = -1, me_length = -1, me_next_slot = -1\<rparr>"

definition get_mapping_entry :: "u8 list \<Rightarrow> 'a kv_ftl \<Rightarrow> mapping_entry option" where
  "get_mapping_entry key kv =
     map_option (\<lambda>s. case s of
       Some slt \<Rightarrow> (kv_mapping_table kv slt)\<lparr>me_key := take (length key) (me_key (kv_mapping_table kv slt)) @ drop (length key) (me_key WIPED)\<rparr>
     | None \<Rightarrow> WIPED) (find_slot kv key)"

definition delete_mapping_entry :: "u8 list \<Rightarrow> 'a kv_ftl \<Rightarrow> 'a kv_ftl option" where
  "delete_mapping_entry key kv =
     map_option (\<lambda>s. case s of Some slt \<Rightarrow> upd_entry slt (\<lambda>_. WIPED) kv | None \<Rightarrow> kv) (find_slot kv key)"

section \<open>Store, retrieve, exist, delete\<close>

type_synonym 'a alloc_fn = "u64 \<Rightarrow> 'a \<Rightarrow> u64 \<times> 'a"

definition allocate_mem_offset :: "'a alloc_fn \<Rightarrow> u64 \<Rightarrow> 'a kv_ftl \<Rightarrow> u64 \<times> 'a kv_ftl" where
  "allocate_mem_offset alloc len kv =
     (let (offset, a) = alloc len (kv_alloc kv); kv = kv\<lparr>kv_alloc := a\<rparr> in
      if offset = NO_OFFSET then (0, kv) else (offset, kv))"

text \<open>The page loop between the command's pages and the storage.\<close>

definition kv_copy :: "xfer_op \<Rightarrow> nvme_command \<Rightarrow> nat \<Rightarrow> u64 \<Rightarrow> bytes \<times> 'a kv_ftl \<Rightarrow> (bytes \<times> 'a kv_ftl) option" where
  "kv_copy dir cmd len offset w =
     map_option (\<lambda>(mem, stor). (mem, (snd w)\<lparr>kv_storage := stor\<rparr>))
       (prp_loop dir (unat (c_prp1 cmd)) (unat (c_prp2 cmd)) len (unat offset) 0 None 0 (fst w, kv_storage (snd w)))"

definition kv_store :: "'a alloc_fn \<Rightarrow> nvme_command \<Rightarrow> u8 list \<Rightarrow> bytes \<times> 'a kv_ftl \<Rightarrow> (bytes \<times> 'a kv_ftl) option" where
  "kv_store alloc cmd key w =
     (let len = ucast (cmd_value_length cmd) in
      do {
        entry \<leftarrow> get_mapping_entry key (snd w);
        if me_mem_offset entry = NO_OFFSET then
          let (new_offset, kv) = allocate_mem_offset alloc len (snd w) in
          do {
            (mem, kv) \<leftarrow> kv_copy To_Device cmd (unat len) new_offset (fst w, kv);
            kv \<leftarrow> new_mapping_entry key len new_offset kv;
            Some (mem, kv)
          }
        else
          do {
            (mem, kv) \<leftarrow> kv_copy To_Device cmd (unat len) (me_mem_offset entry) w;
            if len \<noteq> me_length entry \<and> len \<le> SMALL_LENGTH \<and> me_length entry \<le> SMALL_LENGTH
            then map_option (\<lambda>(_, kv). (mem, kv)) (update_mapping_entry key len kv)
            else Some (mem, kv)
          }
      })"

text \<open>\<^verbatim>\<open>__do_perform_kv_io\<close>: the result, the status, memory and the table.\<close>

definition do_perform_kv_io ::
  "'a alloc_fn \<Rightarrow> nvme_command \<Rightarrow> u32 \<Rightarrow> bytes \<times> 'a kv_ftl \<Rightarrow> (u32 \<times> u32 \<times> bytes \<times> 'a kv_ftl) option" where
  "do_perform_kv_io alloc cmd status w =
     do {
       key \<leftarrow> kv_key cmd;
       entry \<leftarrow> get_mapping_entry key (snd w);
       let absent = (me_mem_offset entry = NO_OFFSET);
       if c_opcode cmd = nvme_cmd_kv_store then
         map_option (\<lambda>w. (0, status, w)) (kv_store alloc cmd key w)
       else if c_opcode cmd = nvme_cmd_kv_retrieve then
         (if absent then Some (0, KV_ERR_KEY_NOT_EXIST, w)
          else
            let len = min (me_length entry) (ucast (cmd_value_length cmd)) in
            map_option (\<lambda>w. (ucast len, status, w)) (kv_copy From_Device cmd (unat len) (me_mem_offset entry) w))
       else if c_opcode cmd = nvme_cmd_kv_exist then
         Some (0, if absent then KV_ERR_KEY_NOT_EXIST else status, w)
       else if c_opcode cmd = nvme_cmd_kv_delete then
         (if absent then Some (0, KV_ERR_KEY_NOT_EXIST, w)
          else map_option (\<lambda>kv. (0, status, fst w, kv)) (delete_mapping_entry key (snd w)))
       else Some (0, status, w)
     }"

section \<open>Batches\<close>

definition ALIGN_LEN :: nat where "ALIGN_LEN = 64"

text \<open>\<^verbatim>\<open>((n - 1) / ALIGN_LEN + 1) * ALIGN_LEN\<close>, with division towards zero.\<close>

definition align_len :: "nat \<Rightarrow> nat" where
  "align_len n = (if n = 0 then ALIGN_LEN else ((n - 1) div ALIGN_LEN + 1) * ALIGN_LEN)"

definition do_perform_kv_batched_io :: "'a alloc_fn \<Rightarrow> u8 \<Rightarrow> u8 list \<Rightarrow> u8 list \<Rightarrow> 'a kv_ftl \<Rightarrow> 'a kv_ftl option" where
  "do_perform_kv_batched_io alloc opcode key val kv =
     (if length key > KEY_ARRAY then None
      else do {
        entry \<leftarrow> get_mapping_entry key kv;
        if opcode \<noteq> nvme_cmd_kv_store then Some kv
        else if me_mem_offset entry = NO_OFFSET then
          let (new_offset, kv) = allocate_mem_offset alloc (of_nat (length val)) kv;
              kv = kv\<lparr>kv_storage := scatter (kv_storage kv) [unat new_offset..<unat new_offset + length val] val\<rparr> in
          new_mapping_entry key (of_nat (length val)) new_offset kv
        else
          Some (kv\<lparr>kv_storage := scatter (kv_storage kv) [unat (me_mem_offset entry)..<unat (me_mem_offset entry) + length val] val\<rparr>)
      })"

text \<open>Reading \<open>n\<close> bytes of the payload buffer of length \<open>len\<close>.\<close>

definition rd_buf :: "nat \<Rightarrow> bytes \<Rightarrow> nat \<Rightarrow> nat \<Rightarrow> u8 list option" where
  "rd_buf len buf a n = (if a + n \<le> len then Some (map buf [a..<a + n]) else None)"

text \<open>
  The sub-commands: attribute \<open>i\<close> has opcode, key size and value size in its bytes \<open>0\<close>, \<open>1\<close> and \<open>4\<close> to \<open>7\<close>; the
  payloads follow the 512 bytes of attributes. The key goes through an array of 20 bytes, the value through one of 4097.
\<close>

fun batch_loop :: "'a alloc_fn \<Rightarrow> nat \<Rightarrow> bytes \<Rightarrow> nat \<Rightarrow> nat \<Rightarrow> nat \<Rightarrow> 'a kv_ftl \<Rightarrow> 'a kv_ftl option" where
  "batch_loop alloc len buf payload_offset i 0 kv = Some kv"
| "batch_loop alloc len buf payload_offset i (Suc n) kv =
     do {
       attr \<leftarrow> rd_buf len buf (16 * i) 8;
       let key_len = unat (attr ! 1);
       let val_len = horner_sum unat 256 (drop 4 attr);
       if key_len > 20 \<or> val_len > 4097 then None
       else do {
         key \<leftarrow> rd_buf len buf (512 + payload_offset) key_len;
         val \<leftarrow> rd_buf len buf (512 + payload_offset + align_len key_len) val_len;
         kv \<leftarrow> do_perform_kv_batched_io alloc (attr ! 0) key val kv;
         batch_loop alloc len buf (payload_offset + align_len key_len + align_len val_len + ALIGN_LEN) (i + 1) n kv
       }
     }"

definition do_perform_kv_batch :: "'a alloc_fn \<Rightarrow> bool \<Rightarrow> bytes \<Rightarrow> nvme_command \<Rightarrow> bytes \<times> 'a kv_ftl \<Rightarrow> (bytes \<times> 'a kv_ftl) option" where
  "do_perform_kv_batch alloc kmalloc_ok junk cmd w =
     (let len = unat (cmd_value_length cmd) in
      if \<not> kmalloc_ok then None
      else do {
        (mem, buf) \<leftarrow> prp_loop To_Device (unat (c_prp1 cmd)) (unat (c_prp2 cmd)) len 0 0 None 0 (fst w, junk);
        kv \<leftarrow> batch_loop alloc len buf ALIGN_LEN 0 (kv_batch_cnt cmd) (snd w);
        Some (mem, kv)
      })"

section \<open>Iterators\<close>

definition NR_ITER :: nat where "NR_ITER = 17"

definition kv_iter_open :: "bool \<Rightarrow> bytes \<Rightarrow> nvme_command \<Rightarrow> u32 \<Rightarrow> 'a kv_ftl \<Rightarrow> (u32 \<times> u32 \<times> 'a kv_ftl) option" where
  "kv_iter_open kmalloc_ok junk cmd status kv =
     (case List.find (\<lambda>i. iter_handle kv i = None) [1..<NR_ITER] of
        None \<Rightarrow> Some (1, status, kv)
      | Some i \<Rightarrow>
          if \<not> kmalloc_ok then None
          else Some (of_nat i, 0, kv\<lparr>iter_handle := (iter_handle kv)(i \<mapsto>
            \<lparr>it_prefix = c_cdw12 cmd, it_bitmask = c_cdw13 cmd, it_buf = junk, it_current_pos = 0\<rparr>)\<rparr>))"

definition kv_iter_close :: "nvme_command \<Rightarrow> 'a kv_ftl \<Rightarrow> (u32 \<times> u32 \<times> 'a kv_ftl) option" where
  "kv_iter_close cmd kv =
     (if kv_iter_nr cmd \<ge> NR_ITER then None
      else Some (0, 0, kv\<lparr>iter_handle := (iter_handle kv)(kv_iter_nr cmd := None)\<rparr>))"

definition matches :: "kv_iter_context \<Rightarrow> mapping_entry \<Rightarrow> bool" where
  "matches h e \<longleftrightarrow> in_use e \<and>
     of_nat (horner_sum unat 256 (take 4 (me_key e))) AND it_bitmask h = it_prefix h AND it_bitmask h"

text \<open>The scan: position, offset into the buffer, number of keys, buffer, and whether the table was exhausted.\<close>

function iter_scan :: "(nat \<Rightarrow> mapping_entry) \<Rightarrow> nat \<Rightarrow> kv_iter_context \<Rightarrow> nat \<Rightarrow> nat \<Rightarrow> nat \<Rightarrow> bytes \<Rightarrow> nat \<times> nat \<times> nat \<times> bytes \<times> bool" where
  "iter_scan tab slots h pos buf_offset nr_keys buf =
     (if pos \<ge> slots then (pos, buf_offset, nr_keys, buf, False)
      else if matches h (tab pos) \<and> buf_offset + 4 + 16 > 1024 then (pos, buf_offset, nr_keys, buf, False)
      else
        let (buf_offset, nr_keys, buf) =
          (if matches h (tab pos)
           then (buf_offset + 4 + 16, nr_keys + 1,
                 scatter buf [buf_offset..<buf_offset + 20] ([16, 0, 0, 0] @ take 16 (me_key (tab pos))))
           else (buf_offset, nr_keys, buf)) in
        if pos + 1 = slots then (pos + 1, buf_offset, nr_keys, buf, True)
        else iter_scan tab slots h (pos + 1) buf_offset nr_keys buf)"
  by pat_completeness auto
termination by (relation "measure (\<lambda>(_, slots, _, pos, _). slots - pos)") auto

declare iter_scan.simps [simp del]

definition kv_iter_read :: "nvme_command \<Rightarrow> u32 \<Rightarrow> bytes \<times> 'a kv_ftl \<Rightarrow> (u32 \<times> u32 \<times> bytes \<times> 'a kv_ftl) option" where
  "kv_iter_read cmd status w =
     (let kv = snd w; i = kv_iter_nr cmd in
      if i \<ge> NR_ITER then None
      else case iter_handle kv i of
        None \<Rightarrow> Some (0, status, w)
      | Some h \<Rightarrow>
          let (pos, buf_offset, nr_keys, buf, fin) = iter_scan (kv_mapping_table kv) (hash_slots kv) h (it_current_pos h) 4 0 (it_buf h);
              buf = scatter buf [0..<4] (bytes32 (of_nat nr_keys)) in
          do {
            (mem, buf) \<leftarrow> prp_loop From_Device (unat (c_prp1 cmd)) (unat (c_prp2 cmd)) buf_offset 0 0 None 0 (fst w, buf);
            Some (of_nat buf_offset, if fin then 0x393 else 0, mem,
              kv\<lparr>iter_handle := (iter_handle kv)(i \<mapsto> h\<lparr>it_current_pos := pos, it_buf := buf\<rparr>)\<rparr>)
          })"

definition ITER_OPTION_OPEN :: u8 where "ITER_OPTION_OPEN = 0x01"
definition ITER_OPTION_CLOSE :: u8 where "ITER_OPTION_CLOSE = 0x02"

definition do_perform_kv_iter_io ::
  "bool \<Rightarrow> bytes \<Rightarrow> nvme_command \<Rightarrow> u32 \<Rightarrow> bytes \<times> 'a kv_ftl \<Rightarrow> (u32 \<times> u32 \<times> bytes \<times> 'a kv_ftl) option" where
  "do_perform_kv_iter_io kmalloc_ok junk cmd status w =
     (if c_opcode cmd = nvme_cmd_kv_iter_req then
        (if kv_option cmd AND ITER_OPTION_OPEN \<noteq> 0
         then map_option (\<lambda>(r, st, kv). (r, st, fst w, kv)) (kv_iter_open kmalloc_ok junk cmd status (snd w))
         else if kv_option cmd AND ITER_OPTION_CLOSE \<noteq> 0
         then map_option (\<lambda>(r, st, kv). (r, st, fst w, kv)) (kv_iter_close cmd (snd w))
         else Some (0, status, w))
      else if c_opcode cmd = nvme_cmd_kv_iter_read then kv_iter_read cmd status w
      else Some (0, status, w))"

section \<open>Commands and timing\<close>

definition is_kv_cmd :: "u8 \<Rightarrow> bool" where
  "is_kv_cmd opcode \<longleftrightarrow> opcode \<in> {nvme_cmd_kv_append, nvme_cmd_kv_store, nvme_cmd_kv_retrieve, nvme_cmd_kv_delete,
     nvme_cmd_kv_iter_req, nvme_cmd_kv_iter_read, nvme_cmd_kv_exist, nvme_cmd_kv_batch}"

definition kv_perform_nvme_io_cmd ::
  "'a alloc_fn \<Rightarrow> bool \<Rightarrow> bytes \<Rightarrow> nvme_command \<Rightarrow> u32 \<Rightarrow> bytes \<times> 'a kv_ftl \<Rightarrow> (u32 \<times> u32 \<times> bytes \<times> 'a kv_ftl) option" where
  "kv_perform_nvme_io_cmd alloc kmalloc_ok junk cmd status w =
     (if c_opcode cmd = nvme_cmd_kv_batch then map_option (\<lambda>w. (0, status, w)) (do_perform_kv_batch alloc kmalloc_ok junk cmd w)
      else if c_opcode cmd = nvme_cmd_kv_iter_req \<or> c_opcode cmd = nvme_cmd_kv_iter_read
      then do_perform_kv_iter_io kmalloc_ok junk cmd status w
      else do_perform_kv_io alloc cmd status w)"

text \<open>
  The loop of \<^verbatim>\<open>__schedule_io_units\<close>: each unit of the transfer occupies the next I/O unit. Shift counts are taken
  modulo the width, and the rounding up of the length wraps at 32 bits.
\<close>

function kv_unit_loop :: "nat \<Rightarrow> nat \<Rightarrow> u64 \<Rightarrow> u64 \<Rightarrow> nat \<Rightarrow> int \<Rightarrow> u64 \<Rightarrow> nat \<Rightarrow> (nat \<Rightarrow> u64) \<Rightarrow> u64 \<times> (nat \<Rightarrow> u64)" where
  "kv_unit_loop units shift latency trailing io_unit nr latest len stat =
     (let latest = latest + latency;
          stat = stat(io_unit := (if nr > 0 then latest + trailing else latest));
          len = len - min len (2 ^ shift);
          io_unit = (if io_unit + 1 \<ge> units then 0 else io_unit + 1) in
      if len > 0 then kv_unit_loop units shift latency trailing io_unit (nr - 1) latest len stat else (latest, stat))"
  by pat_completeness auto
termination by (relation "measure (\<lambda>(_, _, _, _, _, _, _, len, _). len)") auto

declare kv_unit_loop.simps [simp del]

definition kv_schedule_io_units :: "nvmev_config \<Rightarrow> u8 \<Rightarrow> u64 \<Rightarrow> u32 \<Rightarrow> u64 \<Rightarrow> (nat \<Rightarrow> u64) \<Rightarrow> (u64 \<times> (nat \<Rightarrow> u64)) option" where
  "kv_schedule_io_units cfg opcode lba len nsecs_start stat =
     (if nr_io_units cfg = 0 then None
      else
        let shift = unat (io_unit_shift cfg) mod 32;
            io_unit = unat (drop_bit (unat (io_unit_shift cfg - of_nat LBA_BITS) mod 64) lba) mod unat (nr_io_units cfg);
            nr = min (unat (nr_io_units cfg)) (unat (len + push_bit shift 1 - 1) div 2 ^ shift);
            is_write = opcode \<in> {nvme_cmd_write, nvme_cmd_kv_store, nvme_cmd_kv_batch};
            is_read = opcode \<in> {nvme_cmd_read, nvme_cmd_kv_retrieve};
            delay = (if is_write then write_delay cfg else if is_read then read_delay cfg else 0);
            latency = (if is_write then write_time cfg else if is_read then read_time cfg else 0);
            trailing = (if is_write then write_trailing cfg else if is_read then read_trailing cfg else 0) in
        Some (kv_unit_loop (unat (nr_io_units cfg)) shift (ucast latency) (ucast trailing) io_unit (int nr)
          (max nsecs_start (stat io_unit) + ucast delay) (unat len) stat))"

definition kv_schedule_flush :: "nvmev_config \<Rightarrow> (nat \<Rightarrow> u64) \<Rightarrow> u64" where
  "kv_schedule_flush cfg stat = fold (\<lambda>i latest. max latest (stat i)) [0..<unat (nr_io_units cfg)] 0"

text \<open>\<^verbatim>\<open>kv_proc_nvme_io_cmd\<close>: the completion time, unless the command has none.\<close>

definition kv_proc_nvme_io_cmd :: "nvmev_config \<Rightarrow> nvme_command \<Rightarrow> u64 \<Rightarrow> (nat \<Rightarrow> u64) \<Rightarrow> (u64 option \<times> (nat \<Rightarrow> u64)) option" where
  "kv_proc_nvme_io_cmd cfg cmd now stat =
     (if c_opcode cmd \<in> {nvme_cmd_write, nvme_cmd_read} then
        map_option (\<lambda>(t, stat). (Some t, stat)) (kv_schedule_io_units cfg (c_opcode cmd) (rw_slba cmd) (ucast (cmd_io_size LBA_BITS cmd)) now stat)
      else if c_opcode cmd = nvme_cmd_flush then Some (Some (kv_schedule_flush cfg stat), stat)
      else if c_opcode cmd \<in> {nvme_cmd_kv_store, nvme_cmd_kv_retrieve, nvme_cmd_kv_batch} then
        map_option (\<lambda>(t, stat). (Some t, stat)) (kv_schedule_io_units cfg (c_opcode cmd) 0 (cmd_value_length cmd) now stat)
      else Some (None, stat))"

definition KV_MAPPING_TABLE_SIZE :: nat where "KV_MAPPING_TABLE_SIZE = 2 ^ 30"
definition KV_MAPPING_ENTRY_SIZE :: nat where "KV_MAPPING_ENTRY_SIZE = 48"

text \<open>
  \<^verbatim>\<open>kv_init_namespace\<close> with a table that could be mapped; handle \<open>16\<close> is not initialised and keeps what \<open>junk\<close> has.
\<close>

definition kv_init_namespace :: "(u64 \<Rightarrow> 'a) \<Rightarrow> (nat \<Rightarrow> kv_iter_context option) \<Rightarrow> bytes \<Rightarrow> u64 \<Rightarrow> 'a kv_ftl" where
  "kv_init_namespace alloc_init junk stor storage_size =
     \<lparr>kv_mapping_table = (\<lambda>_. \<lparr>me_key = replicate KEY_ARRAY 0, me_mem_offset = -1, me_length = -1, me_next_slot = -1\<rparr>),
      hash_slots = KV_MAPPING_TABLE_SIZE div KV_MAPPING_ENTRY_SIZE, kv_alloc = alloc_init storage_size,
      iter_handle = (\<lambda>i. if i < 16 then None else junk i), kv_storage = stor, kv_storage_size = storage_size\<rparr>"

end
