(* ===== verification/KV_Table.thy ===== *)
theory KV_Table
  imports KV_FTL
begin

text \<open>
  The hash table of the key-value namespace as a map. All keys have the same length \<open>n\<close>. Chains that start at different
  slots may run together, because a colliding key is placed in a slot that another chain starts from; what
  holds is that the links never form a cycle (\<open>rank\<close> falls along them) and that every entry is reached from the slot
  its key hashes to. Lookup and insertion then terminate and implement lookup and insertion in a map.
\<close>

section \<open>Links\<close>

definition links :: "(nat \<Rightarrow> mapping_entry) \<Rightarrow> (nat \<times> nat) set" where
  "links tab = {(s, unat (me_next_slot (tab s))) | s. in_use (tab s) \<and> me_next_slot (tab s) \<noteq> NO_SLOT}"

definition falls :: "(nat \<Rightarrow> nat) \<Rightarrow> (nat \<times> nat) set \<Rightarrow> bool" where
  "falls rank R \<longleftrightarrow> (\<forall>(s, t) \<in> R. rank t < rank s)"

lemma linksI: "in_use (tab s) \<Longrightarrow> me_next_slot (tab s) \<noteq> NO_SLOT \<Longrightarrow> (s, unat (me_next_slot (tab s))) \<in> links tab"
  by (auto simp: links_def)

lemma links_iff: "(s, t) \<in> links tab \<longleftrightarrow> in_use (tab s) \<and> me_next_slot (tab s) \<noteq> NO_SLOT \<and> t = unat (me_next_slot (tab s))"
  by (auto simp: links_def)

text \<open>The table is well formed for keys of \<open>n\<close> bytes.\<close>

definition table_ok :: "nat \<Rightarrow> 'a kv_ftl \<Rightarrow> bool" where
  "table_ok n kv \<longleftrightarrow> 0 < hash_slots kv \<and> hash_slots kv < 2 ^ 32 - 1 \<and> n \<le> KEY_ARRAY \<and>
     (\<forall>s. length (me_key (kv_mapping_table kv s)) = KEY_ARRAY) \<and>
     (\<forall>s. in_use (kv_mapping_table kv s) \<longrightarrow> s < hash_slots kv) \<and>
     (\<forall>s. \<not> in_use (kv_mapping_table kv s) \<longrightarrow> me_next_slot (kv_mapping_table kv s) = NO_SLOT) \<and>
     (\<forall>(s, t) \<in> links (kv_mapping_table kv). in_use (kv_mapping_table kv t)) \<and>
     (\<exists>rank. falls rank (links (kv_mapping_table kv))) \<and>
     (\<forall>s. in_use (kv_mapping_table kv s) \<longrightarrow>
        (get_hash_slot kv (take n (me_key (kv_mapping_table kv s))), s) \<in> (links (kv_mapping_table kv))\<^sup>*) \<and>
     (\<forall>s t. in_use (kv_mapping_table kv s) \<and> in_use (kv_mapping_table kv t) \<and>
        take n (me_key (kv_mapping_table kv s)) = take n (me_key (kv_mapping_table kv t)) \<longrightarrow> s = t)"

text \<open>The slot that holds a key.\<close>

definition holds :: "nat \<Rightarrow> 'a kv_ftl \<Rightarrow> u8 list \<Rightarrow> nat \<Rightarrow> bool" where
  "holds n kv k s \<longleftrightarrow> in_use (kv_mapping_table kv s) \<and> take n (me_key (kv_mapping_table kv s)) = k"

lemma holds_unique: "table_ok n kv \<Longrightarrow> holds n kv k s \<Longrightarrow> holds n kv k t \<Longrightarrow> s = t"
  unfolding table_ok_def holds_def by metis

lemma table_ok_reach: "table_ok n kv \<Longrightarrow> holds n kv k s \<Longrightarrow> (get_hash_slot kv k, s) \<in> (links (kv_mapping_table kv))\<^sup>*"
  unfolding table_ok_def holds_def by blast

lemma table_ok_links: "table_ok n kv \<Longrightarrow> \<forall>(s, t) \<in> links (kv_mapping_table kv). in_use (kv_mapping_table kv t)"
  unfolding table_ok_def by blast

lemma table_ok_rank:
  assumes "table_ok n kv"
  obtains rank where "falls rank (links (kv_mapping_table kv))"
  using assms unfolding table_ok_def by blast

lemma table_ok_slots: "table_ok n kv \<Longrightarrow> 0 < hash_slots kv \<and> hash_slots kv < 2 ^ 32 - 1"
  unfolding table_ok_def by blast

section \<open>Lookup\<close>

lemma find_key_found:
  assumes "falls rank (links tab)" and "\<forall>(s, t) \<in> links tab. in_use (tab t)" and "(x, s) \<in> (links tab)\<^sup>*" and "in_use (tab x)"
    and "take (length k) (me_key (tab s)) = k" and "\<And>t. in_use (tab t) \<Longrightarrow> take (length k) (me_key (tab t)) = k \<Longrightarrow> t = s"
  shows "find_key tab k x = Some (Some s)"
  using assms(3,4)
proof (induction rule: converse_rtrancl_induct)
  case base
  then show ?case using assms(5) by (simp add: find_key.simps)
next
  case (step x y)
  have xy: "me_next_slot (tab x) \<noteq> NO_SLOT" "y = unat (me_next_slot (tab x))" using step(1) by (simp_all add: links_iff)
  have "in_use (tab y)" using step(1) assms(2) by blast
  then have "find_key tab k y = Some (Some s)" by (rule step.IH)
  moreover have "x = s" if "take (length k) (me_key (tab x)) = k" using assms(6) step.prems that by blast
  ultimately show ?case using xy step.prems by (subst find_key.simps) auto
qed

lemma find_key_absent:
  assumes "falls rank (links tab)" and "\<And>t. in_use (tab t) \<Longrightarrow> take (length k) (me_key (tab t)) \<noteq> k"
  shows "find_key tab k x = Some None"
proof (induction "rank x" arbitrary: x rule: less_induct)
  case less
  show ?case
  proof (cases "in_use (tab x) \<and> me_next_slot (tab x) \<noteq> NO_SLOT")
    case True
    then have "rank (unat (me_next_slot (tab x))) < rank x" using assms(1) linksI [of tab x] by (auto simp: falls_def)
    then show ?thesis using less True assms(2) by (subst find_key.simps) simp
  next
    case False
    then show ?thesis using assms(2) by (subst find_key.simps) auto
  qed
qed

lemma rtrancl_in_use:
  assumes "(x, s) \<in> (links tab)\<^sup>*" and "in_use (tab s)"
  shows "in_use (tab x)"
  using assms by (induction rule: converse_rtrancl_induct) (auto simp: links_iff)

lemma find_slot_found:
  assumes "table_ok n kv" and "holds n kv k s" and "length k = n"
  shows "find_slot kv k = Some (Some s)"
proof -
  let ?tab = "kv_mapping_table kv"
  obtain rank where "falls rank (links ?tab)" using assms(1) by (rule table_ok_rank)
  moreover have r: "(get_hash_slot kv k, s) \<in> (links ?tab)\<^sup>*" using assms(1,2) by (rule table_ok_reach)
  moreover have "in_use (?tab (get_hash_slot kv k))" using rtrancl_in_use [OF r] assms(2) by (simp add: holds_def)
  moreover have "t = s" if "in_use (?tab t)" "take (length k) (me_key (?tab t)) = k" for t
    using holds_unique [OF assms(1,2), of t] that assms(3) by (simp add: holds_def)
  ultimately have "find_key ?tab k (get_hash_slot kv k) = Some (Some s)"
    using table_ok_links [OF assms(1)] assms(2,3) by (intro find_key_found) (auto simp: holds_def)
  then show ?thesis using table_ok_slots [OF assms(1)] by (simp add: find_slot_def)
qed

lemma find_slot_absent:
  assumes "table_ok n kv" and "\<nexists>s. holds n kv k s" and "length k = n"
  shows "find_slot kv k = Some None"
proof -
  obtain rank where "falls rank (links (kv_mapping_table kv))" using assms(1) by (rule table_ok_rank)
  then have "find_key (kv_mapping_table kv) k (get_hash_slot kv k) = Some None"
    using assms(2,3) by (intro find_key_absent) (auto simp: holds_def)
  then show ?thesis using table_ok_slots [OF assms(1)] by (simp add: find_slot_def)
qed

section \<open>Insertion\<close>

lemma chain_tail_ok:
  assumes "falls rank (links tab)" and "\<forall>(s, t) \<in> links tab. in_use (tab t)" and "in_use (tab x)"
  shows "\<exists>t. chain_tail tab x = Some t \<and> (x, t) \<in> (links tab)\<^sup>* \<and> in_use (tab t) \<and> me_next_slot (tab t) = NO_SLOT"
  using assms(3)
proof (induction "rank x" arbitrary: x rule: less_induct)
  case less
  show ?case
  proof (cases "me_next_slot (tab x) = NO_SLOT")
    case True
    then show ?thesis using less.prems by (subst chain_tail.simps) simp
  next
    case False
    let ?y = "unat (me_next_slot (tab x))"
    have l: "(x, ?y) \<in> links tab" using less.prems False by (rule linksI)
    then have y: "in_use (tab ?y)" "rank ?y < rank x" using assms(1,2) by (auto simp: falls_def)
    from less.hyps [OF y(2,1)] obtain t where "chain_tail tab ?y = Some t" "(?y, t) \<in> (links tab)\<^sup>*"
      "in_use (tab t)" "me_next_slot (tab t) = NO_SLOT" by blast
    then show ?thesis using False y(1) l by (subst chain_tail.simps) (auto intro: converse_rtrancl_into_rtrancl)
  qed
qed

lemma probe_ok:
  assumes "f < slots" and "\<not> in_use (tab f)" and "x < slots"
  shows "\<exists>s. probe tab slots x = Some s \<and> s < slots \<and> \<not> in_use (tab s)"
  using assms(3)
proof (induction "if x \<le> f then f - x else slots - x + f" arbitrary: x rule: less_induct)
  case less
  show ?case
  proof (cases "in_use (tab x)")
    case True
    let ?y = "if x + 1 \<ge> slots then 0 else x + 1"
    have "x \<noteq> f" using True assms(2) by auto
    then have "(if ?y \<le> f then f - ?y else slots - ?y + f) < (if x \<le> f then f - x else slots - x + f)"
      using less.prems assms(1) by auto
    moreover have "?y < slots" using less.prems by auto
    ultimately obtain s where "probe tab slots ?y = Some s" "s < slots" "\<not> in_use (tab s)" using less.hyps by blast
    then show ?thesis using True by (subst probe.simps) simp
  next
    case False
    then show ?thesis using less.prems by (subst probe.simps) simp
  qed
qed

text \<open>The entry an insertion writes.\<close>

definition new_entry :: "u8 list \<Rightarrow> u64 \<Rightarrow> u64 \<Rightarrow> mapping_entry \<Rightarrow> mapping_entry" where
  "new_entry key len off e = e\<lparr>me_key := key @ drop (length key) (me_key e), me_mem_offset := off, me_length := len\<rparr>"

text \<open>Where an insertion puts its entry: in a free slot, linked from the end of its chain if the home slot is taken.\<close>

lemma new_mapping_entry_place:
  assumes "table_ok n kv" and "length k = n" and "off < kv_storage_size kv" and "\<exists>f < hash_slots kv. \<not> in_use (kv_mapping_table kv f)"
  obtains (home) "\<not> in_use (kv_mapping_table kv (get_hash_slot kv k))"
      "new_mapping_entry k len off kv = Some (kv\<lparr>kv_mapping_table := (kv_mapping_table kv)
         (get_hash_slot kv k := new_entry k len off (kv_mapping_table kv (get_hash_slot kv k)))\<rparr>)"
  | (chained) s p where "in_use (kv_mapping_table kv p)" "\<not> in_use (kv_mapping_table kv s)" "s < hash_slots kv"
      "me_next_slot (kv_mapping_table kv p) = NO_SLOT" "(get_hash_slot kv k, p) \<in> (links (kv_mapping_table kv))\<^sup>*"
      "new_mapping_entry k len off kv = Some (kv\<lparr>kv_mapping_table := (kv_mapping_table kv)
         (s := new_entry k len off (kv_mapping_table kv s), p := (kv_mapping_table kv p)\<lparr>me_next_slot := of_nat s\<rparr>)\<rparr>)"
proof -
  let ?tab = "kv_mapping_table kv" and ?h = "get_hash_slot kv k"
  have n: "length k \<le> KEY_ARRAY" "hash_slots kv \<noteq> 0" using assms(1,2) by (simp_all add: table_ok_def)
  then have guard: "\<not> (kv_storage_size kv \<le> off \<or> hash_slots kv = 0 \<or> KEY_ARRAY < length k)" using assms(3) by auto
  show thesis
  proof (cases "in_use (?tab ?h)")
    case False
    then show thesis using home guard by (simp add: new_mapping_entry_def upd_entry_def new_entry_def)
  next
    case True
    obtain rank where rank: "falls rank (links ?tab)" using assms(1) by (rule table_ok_rank)
    obtain p where p: "chain_tail ?tab ?h = Some p" "(?h, p) \<in> (links ?tab)\<^sup>*" "in_use (?tab p)" "me_next_slot (?tab p) = NO_SLOT"
      using chain_tail_ok [OF rank table_ok_links [OF assms(1)] True] by blast
    have "p < hash_slots kv" using p(3) assms(1) by (simp add: table_ok_def)
    then obtain s where s: "probe ?tab (hash_slots kv) p = Some s" "s < hash_slots kv" "\<not> in_use (?tab s)"
      using assms(4) probe_ok by blast
    then have "s \<noteq> p" using p(3) by auto
    then have "new_mapping_entry k len off kv = Some (kv\<lparr>kv_mapping_table := ?tab
         (s := new_entry k len off (?tab s), p := (?tab p)\<lparr>me_next_slot := of_nat s\<rparr>)\<rparr>)"
      using True guard p(1) s(1)
      by (simp add: new_mapping_entry_def find_next_slot_def upd_entry_def chain_mapping_def new_entry_def)
    then show thesis using chained p s by blast
  qed
qed

lemma falls_insert:
  assumes "falls rank R" and "X \<subseteq> {(p, s) | p. p \<noteq> s}" and "\<forall>t. (s, t) \<notin> R"
  shows "\<exists>rank'. falls rank' (R \<union> X)"
proof -
  have "falls ((\<lambda>x. Suc (rank x))(s := 0)) (R \<union> X)"
    using assms by (fastforce simp: falls_def)
  then show ?thesis by blast
qed

text \<open>An entry added at slot \<open>s\<close>, with the link \<open>X\<close> to it.\<close>

lemma table_ok_insert:
  fixes kv :: "'a kv_ftl"
  defines "tab \<equiv> kv_mapping_table kv"
  assumes ok: "table_ok n kv" and k: "length k = n" "\<nexists>s. holds n kv k s" and s: "\<not> in_use (tab s)" "s < hash_slots kv"
    and new: "in_use (tab' s)" "me_key (tab' s) = k @ drop n (me_key (tab s))" "me_next_slot (tab' s) = NO_SLOT"
    and same: "\<And>t. t \<noteq> s \<Longrightarrow> in_use (tab' t) = in_use (tab t) \<and> me_key (tab' t) = me_key (tab t)"
    and free: "\<And>t. \<not> in_use (tab' t) \<Longrightarrow> tab' t = tab t"
    and links: "links tab' = links tab \<union> X" "X \<subseteq> {(p, s) | p. p \<noteq> s}" and reach: "(get_hash_slot kv k, s) \<in> (links tab')\<^sup>*"
  shows "table_ok n (kv\<lparr>kv_mapping_table := tab'\<rparr>)"
proof -
  let ?kv = "kv\<lparr>kv_mapping_table := tab'\<rparr>"
  have h: "get_hash_slot ?kv = get_hash_slot kv" by (simp add: get_hash_slot_def fun_eq_iff)
  note T = ok [unfolded table_ok_def, folded tab_def]
  have key: "length (me_key (tab' t)) = KEY_ARRAY" for t using same [of t] new(2) T k(1) by (cases "t = s") auto
  have ks: "take n (me_key (tab' s)) = k" using new(2) k(1) by simp
  obtain rank where "falls rank (links tab)" using T by blast
  moreover have "\<forall>t. (s, t) \<notin> links tab" using s(1) by (simp add: links_iff)
  ultimately have rank: "\<exists>rank. falls rank (links tab')" unfolding links(1) using links(2) by (intro falls_insert)
  have tgt: "\<forall>(x, y) \<in> links tab'. in_use (tab' y)"
  proof clarify
    fix x y assume "(x, y) \<in> links tab'"
    then consider "(x, y) \<in> links tab" | "y = s" using links by blast
    then show "in_use (tab' y)"
    proof cases
      case 1
      then have "in_use (tab y)" using T by blast
      then show ?thesis using same [of y] new(1) by (cases "y = s") auto
    qed (simp add: new(1))
  qed
  have "(get_hash_slot kv (take n (me_key (tab' t))), t) \<in> (links tab')\<^sup>*" if "in_use (tab' t)" for t
  proof (cases "t = s")
    case True
    then show ?thesis using reach ks by simp
  next
    case False
    then have "(get_hash_slot kv (take n (me_key (tab t))), t) \<in> (links tab)\<^sup>*" using same [OF False] that T by auto
    then have "(get_hash_slot kv (take n (me_key (tab t))), t) \<in> (links tab')\<^sup>*" unfolding links(1) by (rule rtrancl_mono [THEN subsetD, rotated]) simp
    then show ?thesis using same [OF False] by simp
  qed
  moreover have "t = u" if "in_use (tab' t)" "in_use (tab' u)" "take n (me_key (tab' t)) = take n (me_key (tab' u))" for t u
  proof -
    have no: "\<not> (in_use (tab x) \<and> take n (me_key (tab x)) = k)" for x using k(2) by (auto simp: holds_def tab_def)
    show ?thesis
    proof (cases "t = s \<or> u = s")
      case True
      then show ?thesis using that same [of t] same [of u] ks no by metis
    next
      case False
      then show ?thesis using that same [of t] same [of u] T by metis
    qed
  qed
  moreover have "t < hash_slots kv" if "in_use (tab' t)" for t using that same [of t] s(2) T by (cases "t = s") auto
  moreover have "me_next_slot (tab' t) = NO_SLOT" if "\<not> in_use (tab' t)" for t
    using that free [OF that] T by metis
  ultimately show ?thesis unfolding table_ok_def h using T key rank tgt by simp
qed

lemma new_mapping_entry_ok:
  assumes ok: "table_ok n kv" and k: "length k = n" "\<nexists>s. holds n kv k s" and off: "off < kv_storage_size kv" "off \<noteq> NO_OFFSET"
    and room: "\<exists>f < hash_slots kv. \<not> in_use (kv_mapping_table kv f)"
  shows "\<exists>tab' s. new_mapping_entry k len off kv = Some (kv\<lparr>kv_mapping_table := tab'\<rparr>) \<and> table_ok n (kv\<lparr>kv_mapping_table := tab'\<rparr>) \<and>
    \<not> in_use (kv_mapping_table kv s) \<and> in_use (tab' s) \<and> take n (me_key (tab' s)) = k \<and> me_mem_offset (tab' s) = off \<and> me_length (tab' s) = len \<and>
    (\<forall>t. t \<noteq> s \<longrightarrow> me_key (tab' t) = me_key (kv_mapping_table kv t) \<and> me_mem_offset (tab' t) = me_mem_offset (kv_mapping_table kv t) \<and>
       me_length (tab' t) = me_length (kv_mapping_table kv t))"
proof -
  let ?tab = "kv_mapping_table kv" and ?h = "get_hash_slot kv k"
  have slots: "0 < hash_slots kv" "hash_slots kv < 2 ^ 32 - 1" using table_ok_slots [OF ok] by simp_all
  have free: "me_next_slot (?tab t) = NO_SLOT" if "\<not> in_use (?tab t)" for t using ok that by (simp add: table_ok_def)
  have new [simp]: "in_use (new_entry k len off e)" for e using off(2) by (simp add: in_use_def new_entry_def)
  have nk: "me_key (new_entry k len off e) = k @ drop n (me_key e)" "me_next_slot (new_entry k len off e) = me_next_slot e"
    "me_mem_offset (new_entry k len off e) = off" "me_length (new_entry k len off e) = len" for e using k(1) by (simp_all add: new_entry_def)
  from ok k(1) off(1) room show ?thesis
  proof (cases rule: new_mapping_entry_place [where len = len])
    case home
    let ?t = "?tab(?h := new_entry k len off (?tab ?h))"
    have "links ?t = links ?tab" using home(1) free [OF home(1)] by (auto simp: links_iff nk)
    then have "table_ok n (kv\<lparr>kv_mapping_table := ?t\<rparr>)"
      using home(1) free [OF home(1)] slots
      by (intro table_ok_insert [OF ok k, where s = ?h and X = "{}"]) (auto simp: nk get_hash_slot_def)
    then show ?thesis using home k(1) by (intro exI [of _ ?t] exI [of _ ?h]) (simp add: nk)
  next
    case (chained s p)
    let ?t = "?tab(s := new_entry k len off (?tab s), p := (?tab p)\<lparr>me_next_slot := of_nat s\<rparr>)"
    have ne: "s \<noteq> p" using chained(1,2) by auto
    have u: "unat (of_nat s :: u32) = s" using chained(3) slots by (simp add: unsigned_of_nat take_bit_nat_eq_self)
    have "(of_nat s :: u32) \<noteq> NO_SLOT"
    proof
      assume "(of_nat s :: u32) = NO_SLOT"
      then have "s = unat (-1 :: u32)" using u by (simp add: NO_SLOT_def)
      then show False using chained(3) slots by (simp add: unsigned_minus_1_eq_mask mask_eq_exp_minus_1)
    qed
    then have "(a, b) \<in> links ?t \<longleftrightarrow> (a, b) \<in> links ?tab \<union> {(p, s)}" for a b
      using chained(1,2,4) free [OF chained(2)] ne u by (cases "a = p"; cases "a = s") (auto simp: links_iff nk in_use_def)
    then have l: "links ?t = links ?tab \<union> {(p, s)}" by (intro set_eqI) (metis surj_pair)
    have "(?h, p) \<in> (links ?t)\<^sup>*" using chained(5) unfolding l by (rule rtrancl_mono [THEN subsetD, rotated]) blast
    then have r: "(?h, s) \<in> (links ?t)\<^sup>*" using l by (auto intro: rtrancl_into_rtrancl)
    have "table_ok n (kv\<lparr>kv_mapping_table := ?t\<rparr>)"
      using chained ne free [OF chained(2)] l r off(2)
      by (intro table_ok_insert [OF ok k, where s = s and X = "{(p, s)}"]) (auto simp: nk in_use_def split: if_splits)
    then show ?thesis using chained k(1) ne off(2) by (intro exI [of _ ?t] exI [of _ s]) (simp add: nk in_use_def)
  qed
qed

end
