(* ===== verification/KV_Store.thy ===== *)
theory KV_Store
  imports KV_Table
begin

text \<open>
  The key-value namespace as a map from keys to values. The interface \<open>kv_allocator\<close> says what storage an allocator hands
  out; both allocators of the code satisfy it. Stores of new keys and of values of unchanged length then implement
  updates of the map, and retrieval returns what was stored last. Deleting a key in front of a chain, and storing a
  longer value over a shorter one, break this.
\<close>

section \<open>Allocators\<close>

text \<open>
  While there is room, an allocation is fresh, is taken from then on, and starts below the capacity.
\<close>

locale kv_allocator =
  fixes alloc :: "'a alloc_fn" and taken :: "'a \<Rightarrow> nat set" and room :: "u64 \<Rightarrow> 'a \<Rightarrow> bool" and cap :: "'a \<Rightarrow> u64"
  assumes alloc_fresh: "room len a \<Longrightarrow> alloc len a = (off, a') \<Longrightarrow>
    {unat off..<unat off + unat len} \<inter> taken a = {} \<and> taken a \<union> {unat off..<unat off + unat len} \<subseteq> taken a' \<and> off < cap a \<and> cap a' = cap a"

definition ap_room :: "u64 \<Rightarrow> append_only \<Rightarrow> bool" where
  "ap_room len a \<longleftrightarrow> ap_latest a < ap_dev_size a \<and> unat (ap_latest a) + unat len \<le> unat (ap_dev_size a)"

lemma ap_latest_add:
  assumes "ap_room len a"
  shows "unat (ap_latest a + len) = unat (ap_latest a) + unat len"
proof -
  have "unat (ap_dev_size a) < 2 ^ 64" using unsigned_less [of "ap_dev_size a", where 'a = nat] by simp
  then show ?thesis using assms by (simp add: ap_room_def unat_word_ariths)
qed

interpretation ap: kv_allocator append_only_allocate "\<lambda>a. {..<unat (ap_latest a)}" ap_room ap_dev_size
proof
  fix len a off and a' :: append_only
  assume room: "ap_room len a" and alloc: "append_only_allocate len a = (off, a')"
  have "off = ap_latest a" "unat (ap_latest a') = unat (ap_latest a) + unat len" "ap_dev_size a' = ap_dev_size a"
    using alloc ap_latest_add [OF room] by (auto simp: append_only_allocate_def)
  then show "{unat off..<unat off + unat len} \<inter> {..<unat (ap_latest a)} = {} \<and>
      {..<unat (ap_latest a)} \<union> {unat off..<unat off + unat len} \<subseteq> {..<unat (ap_latest a')} \<and> off < ap_dev_size a \<and> ap_dev_size a' = ap_dev_size a"
    using room by (auto simp: ap_room_def)
qed

text \<open>
  The bitmap allocator: slots of 1024 bytes in the lower half, of 4096 bytes in the upper half of the device. There is
  room while a clear bit is left at or after the position of the last allocation.
\<close>

definition pool_bytes :: "nat \<Rightarrow> nat \<Rightarrow> bit_pool \<Rightarrow> nat set" where
  "pool_bytes base sz p = {x. \<exists>i. bp_bits p i \<and> base + i * sz \<le> x \<and> x < base + (i + 1) * sz}"

definition bm_taken :: "bitmap_alloc \<Rightarrow> nat set" where
  "bm_taken b = pool_bytes 0 1024 (bm_small b) \<union> pool_bytes (unat (bm_dev_size b) div 2) 4096 (bm_large b)"

definition bm_wf :: "bitmap_alloc \<Rightarrow> bool" where
  "bm_wf b \<longleftrightarrow> bp_nbits (bm_small b) = unat (bm_dev_size b) div 2 div 1024 \<and> bp_nbits (bm_large b) = unat (bm_dev_size b) div 2 div 4096 \<and>
     (\<forall>i. bp_bits (bm_small b) i \<longrightarrow> i < bp_nbits (bm_small b)) \<and> (\<forall>i. bp_bits (bm_large b) i \<longrightarrow> i < bp_nbits (bm_large b))"

definition pool_room :: "bit_pool \<Rightarrow> bool" where
  "pool_room p \<longleftrightarrow> (\<exists>i. bp_last_pos p \<le> i \<and> i < bp_nbits p \<and> \<not> bp_bits p i)"

definition bm_room :: "u64 \<Rightarrow> bitmap_alloc \<Rightarrow> bool" where
  "bm_room len b \<longleftrightarrow> bm_wf b \<and> len \<le> LARGE_LENGTH \<and> pool_room (if len > SMALL_LENGTH then bm_large b else bm_small b)"

lemma pool_take_ok:
  assumes "pool_room p" and "pool_take p = (off, p')"
  shows "off < bp_nbits p" "\<not> bp_bits p off" "bp_bits p' = (bp_bits p)(off := True)" "bp_nbits p' = bp_nbits p"
proof -
  obtain i where f: "List.find (\<lambda>i. \<not> bp_bits p i) [bp_last_pos p..<bp_nbits p] = Some i"
    using assms(1) by (cases "List.find (\<lambda>i. \<not> bp_bits p i) [bp_last_pos p..<bp_nbits p]") (auto simp: pool_room_def find_None_iff)
  then have "i < bp_nbits p" "\<not> bp_bits p i" by (auto simp: find_Some_iff)
  then show "off < bp_nbits p" "\<not> bp_bits p off" "bp_bits p' = (bp_bits p)(off := True)" "bp_nbits p' = bp_nbits p"
    using assms(2) by (auto simp: pool_take_def find_next_zero_area_def f Let_def)
qed

lemma pool_bytes_take:
  assumes "pool_room p" and "pool_take p = (off, p')" and "0 < sz" and "n \<le> sz"
  shows "{base + off * sz..<base + off * sz + n} \<inter> pool_bytes base sz p = {}"
    "pool_bytes base sz p \<union> {base + off * sz..<base + off * sz + n} \<subseteq> pool_bytes base sz p'"
    "{base + off * sz..<base + off * sz + n} \<subseteq> {base..<base + bp_nbits p * sz}"
proof -
  note t = pool_take_ok [OF assms(1,2)]
  have "i = off" if "base + i * sz \<le> x" "x < base + (i + 1) * sz" "base + off * sz \<le> x" "x < base + off * sz + n" for i x
  proof -
    have "x - base = i * sz + (x - base - i * sz)" "x - base - i * sz < sz" using that(1,2) by auto
    then have "(x - base) div sz = i" by (metis add.commute div_less div_mult_self1 assms(3) gr_implies_not0 add_0)
    moreover have "x - base = off * sz + (x - base - off * sz)" "x - base - off * sz < sz" using that(3,4) assms(4) by auto
    then have "(x - base) div sz = off" by (metis add.commute div_less div_mult_self1 assms(3) gr_implies_not0 add_0)
    ultimately show ?thesis by simp
  qed
  then show "{base + off * sz..<base + off * sz + n} \<inter> pool_bytes base sz p = {}" using t(2) by (fastforce simp: pool_bytes_def)
  show "pool_bytes base sz p \<union> {base + off * sz..<base + off * sz + n} \<subseteq> pool_bytes base sz p'"
    using assms(4) by (auto simp: pool_bytes_def t(3))
  have "(off + 1) * sz \<le> bp_nbits p * sz" using t(1) by (intro mult_le_mono1) simp
  then show "{base + off * sz..<base + off * sz + n} \<subseteq> {base..<base + bp_nbits p * sz}" using assms(4) by auto
qed

lemma unat_slot:
  assumes "base + (i + 1) * sz \<le> unat (c :: u64)" and "0 < sz"
  shows "unat (of_nat base + of_nat i * of_nat sz :: u64) = base + i * sz"
proof -
  have "(i + 1) * sz = i * sz + sz" "unat c < 2 ^ 64" using unsigned_less [of c, where 'a = nat] by simp_all
  then have "base + i * sz < 2 ^ 64" using assms by linarith
  then show ?thesis using unat_of_nat_u64 [of "base + i * sz"] by (simp only: of_nat_add of_nat_mult)
qed

lemma bitmap_allocate_fresh:
  assumes "bm_room len b" and "bitmap_allocate len b = (off, b')"
  shows "{unat off..<unat off + unat len} \<inter> bm_taken b = {} \<and> bm_taken b \<union> {unat off..<unat off + unat len} \<subseteq> bm_taken b' \<and>
    off < bm_dev_size b \<and> bm_dev_size b' = bm_dev_size b"
proof -
  let ?half = "unat (bm_dev_size b) div 2" and ?S = "bm_small b" and ?L = "bm_large b"
  have wf: "bm_wf b" and len: "unat len \<le> 4096" and room: "pool_room (if len > SMALL_LENGTH then ?L else ?S)"
    using assms(1) by (simp_all add: bm_room_def LARGE_LENGTH_def word_le_nat_alt)
  have area: "pool_bytes 0 1024 ?S \<subseteq> {..<?half}" "pool_bytes ?half 4096 ?L \<subseteq> {?half..}"
  proof -
    have "(i + 1) * 1024 \<le> ?half" if "bp_bits ?S i" for i
    proof -
      have "i + 1 \<le> ?half div 1024" using wf that by (auto simp: bm_wf_def)
      then have "(i + 1) * 1024 \<le> ?half div 1024 * 1024" by (rule mult_le_mono1)
      also have "\<dots> \<le> ?half" by (rule div_times_less_eq_dividend)
      finally show ?thesis .
    qed
    then show "pool_bytes 0 1024 ?S \<subseteq> {..<?half}" by (fastforce simp: pool_bytes_def)
  qed (auto simp: pool_bytes_def)
  show ?thesis
  proof (cases "len > SMALL_LENGTH")
    case True
    obtain i p where t: "pool_take ?L = (i, p)" by (meson surj_pair)
    have r: "pool_room ?L" using room True by simp
    have "i + 1 \<le> ?half div 4096" using pool_take_ok(1) [OF r t] wf by (simp add: bm_wf_def)
    then have "(i + 1) * 4096 \<le> ?half div 4096 * 4096" by (rule mult_le_mono1)
    also have "\<dots> \<le> ?half" by (rule div_times_less_eq_dividend)
    finally have i: "?half + (i + 1) * 4096 \<le> unat (bm_dev_size b)" by simp
    have half: "bm_dev_size b div 2 = of_nat ?half" using word_arith_nat_div [of "bm_dev_size b" 2] by simp
    have o1: "off = of_nat ?half + of_nat i * of_nat 4096" "b' = b\<lparr>bm_total_written := bm_total_written b + len, bm_large := p\<rparr>"
      using assms(2) t True half by (auto simp: bitmap_allocate_def Let_def LARGE_LENGTH_def)
    have off: "unat off = ?half + i * 4096" unfolding o1(1) by (rule unat_slot [OF i]) simp
    note p = pool_bytes_take [OF r t, of 4096 "unat len" ?half]
    have "unat off < unat (bm_dev_size b)" using off i by simp
    then show ?thesis using p len area off unfolding o1(2) bm_taken_def by (auto simp: word_less_nat_alt)
  next
    case False
    then have l: "unat len \<le> 1024" by (simp add: SMALL_LENGTH_def word_le_nat_alt not_less)
    obtain i p where t: "pool_take ?S = (i, p)" by (meson surj_pair)
    have r: "pool_room ?S" using room False by simp
    have "i + 1 \<le> ?half div 1024" using pool_take_ok(1) [OF r t] wf by (simp add: bm_wf_def)
    then have "(i + 1) * 1024 \<le> ?half div 1024 * 1024" by (rule mult_le_mono1)
    also have "\<dots> \<le> ?half" by (rule div_times_less_eq_dividend)
    finally have i: "0 + (i + 1) * 1024 \<le> unat (bm_dev_size b)" "(i + 1) * 1024 \<le> ?half" by simp_all
    have o1: "off = of_nat 0 + of_nat i * of_nat 1024" "b' = b\<lparr>bm_total_written := bm_total_written b + len, bm_small := p\<rparr>"
      using assms(2) t False by (auto simp: bitmap_allocate_def Let_def SMALL_LENGTH_def)
    have off: "unat off = i * 1024" unfolding o1(1) using unat_slot [OF i(1)] by simp
    note p = pool_bytes_take [OF r t, of 1024 "unat len" 0]
    have "unat off < unat (bm_dev_size b)" using off i by simp
    then show ?thesis using p l area off i(2) unfolding o1(2) bm_taken_def by (auto simp: word_less_nat_alt)
  qed
qed

interpretation bm: kv_allocator bitmap_allocate bm_taken bm_room bm_dev_size
  by unfold_locales (rule bitmap_allocate_fresh)

section \<open>The map\<close>

definition region :: "mapping_entry \<Rightarrow> nat set" where
  "region e = {unat (me_mem_offset e)..<unat (me_mem_offset e) + unat (me_length e)}"

definition kv_val :: "'a kv_ftl \<Rightarrow> nat \<Rightarrow> u8 list" where
  "kv_val kv s = (let e = kv_mapping_table kv s in
     map (kv_storage kv) [unat (me_mem_offset e)..<unat (me_mem_offset e) + unat (me_length e)])"

text \<open>The namespace holds the map \<open>m\<close>.\<close>

definition kv_rep :: "nat \<Rightarrow> 'a kv_ftl \<Rightarrow> (u8 list \<rightharpoonup> u8 list) \<Rightarrow> bool" where
  "kv_rep n kv m \<longleftrightarrow> (\<forall>k v. m k = Some v \<longleftrightarrow> (\<exists>s. holds n kv k s \<and> kv_val kv s = v))"

text \<open>
  The contents of the device, read off its table and its storage: for every entry in use, its key and the bytes of the
  storage that its offset and length name.
\<close>

definition kv_pairs :: "nat \<Rightarrow> 'a kv_ftl \<Rightarrow> (u8 list \<times> u8 list) set" where
  "kv_pairs n kv = {(take n (me_key e), map (kv_storage kv) [unat (me_mem_offset e)..<unat (me_mem_offset e) + unat (me_length e)]) | e s.
     e = kv_mapping_table kv s \<and> me_mem_offset e \<noteq> -1}"

lemma kv_pairs_rep: "kv_rep n kv m \<Longrightarrow> kv_pairs n kv = Map.graph m"
  unfolding kv_rep_def kv_pairs_def Map.graph_def by (auto simp: holds_def in_use_def kv_val_def NO_OFFSET_def Let_def)

text \<open>
  The bytes of host memory that a value of \<open>len\<close> bytes occupies, and that its pages are page aligned and do not
  overlap the PRP list.
\<close>

definition kv_buffer :: "bytes \<Rightarrow> nvme_command \<Rightarrow> nat \<Rightarrow> nat list" where
  "kv_buffer mem cmd len = prp_buffer mem (unat (c_prp1 cmd)) (unat (c_prp2 cmd)) len"

definition kv_pages_ok :: "bytes \<Rightarrow> nvme_command \<Rightarrow> nat \<Rightarrow> bool" where
  "kv_pages_ok mem cmd len \<longleftrightarrow> len = 0 \<or> prps_fit mem (unat (c_prp1 cmd)) (unat (c_prp2 cmd)) len"

definition value_bytes :: "nvme_command \<Rightarrow> nat" where
  "value_bytes cmd = unat (cmd_value_length cmd)"

lemma value_bytes_u64 [simp]: "unat (ucast (cmd_value_length cmd) :: u64) = value_bytes cmd"
  unfolding value_bytes_def using unsigned_less [of "cmd_value_length cmd", where 'a = nat]
  by (simp add: unsigned_ucast_eq take_bit_nat_eq_self)

lemma length_kv_buffer: "length (kv_buffer mem cmd len) = len"
  by (simp add: kv_buffer_def prp_buffer_def)

lemma kv_copy_xfer:
  assumes "kv_pages_ok mem cmd len"
  shows "kv_copy dir cmd len off (mem, kv) =
    (let (mem', stor) = xfer dir (kv_buffer mem cmd len) (unat off) (mem, kv_storage kv) in Some (mem', kv\<lparr>kv_storage := stor\<rparr>))"
proof (cases "len = 0")
  case True
  then show ?thesis by (simp add: kv_copy_def kv_buffer_def prp_buffer_def prp_loop.simps)
next
  case False
  then have n: "0 < len" "prps_fit mem (unat (c_prp1 cmd)) (unat (c_prp2 cmd)) len"
    using assms by (simp_all add: kv_pages_ok_def)
  show ?thesis
    using prp_loop_spec [OF n(1), of "(mem, kv_storage kv)" "unat (c_prp1 cmd)" "unat (c_prp2 cmd)" dir "unat off"] prps_fit_ok [OF n]
    by (simp add: kv_copy_def kv_buffer_def split: prod.splits)
qed

lemma kv_copy_to:
  assumes "kv_pages_ok mem cmd len"
  shows "kv_copy To_Device cmd len off (mem, kv) =
    Some (mem, kv\<lparr>kv_storage := scatter (kv_storage kv) [unat off..<unat off + len] (map mem (kv_buffer mem cmd len))\<rparr>)"
  using length_kv_buffer [of mem cmd len] by (simp add: kv_copy_xfer [OF assms] xfer_def)

lemma kv_copy_from:
  assumes "kv_pages_ok mem cmd len"
  shows "kv_copy From_Device cmd len off (mem, kv) =
    Some (scatter mem (kv_buffer mem cmd len) (map (kv_storage kv) [unat off..<unat off + len]), kv)"
  using length_kv_buffer [of mem cmd len] by (simp add: kv_copy_xfer [OF assms] xfer_def)

lemma kv_val_storage:
  assumes "region (kv_mapping_table kv s) \<inter> {a..<b} = {}"
  shows "kv_val (kv\<lparr>kv_storage := scatter (kv_storage kv) [a..<b] vs\<rparr>) s = kv_val kv s"
proof -
  have "scatter (kv_storage kv) [a..<b] vs x = kv_storage kv x" if "x \<in> region (kv_mapping_table kv s)" for x
    using assms that by (intro scatter_other) auto
  then show ?thesis by (simp add: kv_val_def region_def Let_def)
qed

lemma holds_length: "table_ok n kv \<Longrightarrow> holds n kv k s \<Longrightarrow> length k = n"
  unfolding table_ok_def holds_def by (metis length_take min_absorb2)

lemma kv_rep_upd:
  assumes "kv_rep n kv m" and "\<And>k' x. holds n kv' k' x \<longleftrightarrow> (if k' = k then x = s else holds n kv k' x)" and "kv_val kv' s = v"
    and "\<And>k' x. k' \<noteq> k \<Longrightarrow> holds n kv k' x \<Longrightarrow> kv_val kv' x = kv_val kv x"
  shows "kv_rep n kv' (m(k \<mapsto> v))"
  unfolding kv_rep_def
proof (intro allI)
  fix k' w
  show "(m(k \<mapsto> v)) k' = Some w \<longleftrightarrow> (\<exists>x. holds n kv' k' x \<and> kv_val kv' x = w)"
  proof (cases "k' = k")
    case True
    then show ?thesis using assms(2,3) by auto
  next
    case False
    then have "m k' = Some w \<longleftrightarrow> (\<exists>x. holds n kv k' x \<and> kv_val kv x = w)" using assms(1) by (simp add: kv_rep_def)
    then show ?thesis using False assms(2,4) by auto
  qed
qed

context kv_allocator
begin

text \<open>The values lie in storage the allocator has handed out, each in its own part.\<close>

definition kv_inv :: "nat \<Rightarrow> 'a kv_ftl \<Rightarrow> bool" where
  "kv_inv n kv \<longleftrightarrow> table_ok n kv \<and> cap (kv_alloc kv) \<le> kv_storage_size kv \<and>
     (\<forall>s. in_use (kv_mapping_table kv s) \<longrightarrow> region (kv_mapping_table kv s) \<subseteq> taken (kv_alloc kv)) \<and>
     (\<forall>s t. in_use (kv_mapping_table kv s) \<and> in_use (kv_mapping_table kv t) \<and> s \<noteq> t \<longrightarrow>
        region (kv_mapping_table kv s) \<inter> region (kv_mapping_table kv t) = {})"

lemma get_absent:
  assumes "table_ok n kv" and "kv_rep n kv m" and "length k = n" and "m k = None"
  shows "get_mapping_entry k kv = Some WIPED" "\<nexists>s. holds n kv k s"
proof -
  show no: "\<nexists>s. holds n kv k s" using assms(2,4) unfolding kv_rep_def by (metis option.distinct(1))
  show "get_mapping_entry k kv = Some WIPED" using find_slot_absent [OF assms(1) no assms(3)] by (simp add: get_mapping_entry_def)
qed

lemma get_found:
  assumes "table_ok n kv" and "kv_rep n kv m" and "m k = Some v"
  obtains s e where "holds n kv k s" and "kv_val kv s = v" and "get_mapping_entry k kv = Some e" and "find_slot kv k = Some (Some s)"
    and "me_mem_offset e = me_mem_offset (kv_mapping_table kv s)" and "me_length e = me_length (kv_mapping_table kv s)" and "me_mem_offset e \<noteq> NO_OFFSET"
proof -
  obtain s where s: "holds n kv k s" "kv_val kv s = v" using assms(2,3) unfolding kv_rep_def by blast
  have f: "find_slot kv k = Some (Some s)" by (rule find_slot_found [OF assms(1) s(1) holds_length [OF assms(1) s(1)]])
  then show thesis using that [OF s] s(1) by (simp add: get_mapping_entry_def holds_def in_use_def)
qed

lemma kv_store_new:
  assumes inv: "kv_inv n kv" and rep: "kv_rep n kv m" and k: "length k = n" "m k = None" and pg: "kv_pages_ok mem cmd (value_bytes cmd)"
    and room: "room (ucast (cmd_value_length cmd)) (kv_alloc kv)" "\<exists>f < hash_slots kv. \<not> in_use (kv_mapping_table kv f)"
  shows "\<exists>kv'. kv_store alloc cmd k (mem, kv) = Some (mem, kv') \<and> kv_inv n kv' \<and>
    kv_rep n kv' (m(k \<mapsto> map mem (kv_buffer mem cmd (value_bytes cmd)))) \<and> hash_slots kv' = hash_slots kv \<and> kv_storage_size kv' = kv_storage_size kv"
proof -
  let ?len = "ucast (cmd_value_length cmd) :: u64" and ?v = "map mem (kv_buffer mem cmd (value_bytes cmd))"
  have ok: "table_ok n kv" using inv by (simp add: kv_inv_def)
  note ab = get_absent [OF ok rep k]
  obtain off a where a: "alloc ?len (kv_alloc kv) = (off, a)" by (meson surj_pair)
  note fr = alloc_fresh [OF room(1) a]
  have off: "off < kv_storage_size kv" using fr inv by (auto simp: kv_inv_def)
  have lt: "unat off < unat (kv_storage_size kv)" "unat (kv_storage_size kv) < 2 ^ 64"
    using off unsigned_less [of "kv_storage_size kv", where 'a = nat] by (simp_all add: word_less_nat_alt)
  have ne: "off \<noteq> NO_OFFSET"
  proof
    assume "off = NO_OFFSET"
    then have "unat off = 2 ^ 64 - 1" by (simp add: NO_OFFSET_def unsigned_minus_1_eq_mask mask_eq_exp_minus_1)
    then show False using lt by simp
  qed
  let ?R = "{unat off..<unat off + value_bytes cmd}"
  let ?stor = "scatter (kv_storage kv) [unat off..<unat off + value_bytes cmd] ?v"
  let ?kv = "kv\<lparr>kv_alloc := a, kv_storage := ?stor\<rparr>"
  have ok': "table_ok n ?kv" and no': "\<nexists>s. holds n ?kv k s" and room': "\<exists>f < hash_slots ?kv. \<not> in_use (kv_mapping_table ?kv f)" and off': "off < kv_storage_size ?kv"
    using ok ab(2) room(2) off by (simp_all add: table_ok_def holds_def get_hash_slot_def)
  obtain tab' s where t: "new_mapping_entry k ?len off ?kv = Some (?kv\<lparr>kv_mapping_table := tab'\<rparr>)" "table_ok n (?kv\<lparr>kv_mapping_table := tab'\<rparr>)"
    "\<not> in_use (kv_mapping_table kv s)" "in_use (tab' s)" "take n (me_key (tab' s)) = k" "me_mem_offset (tab' s) = off" "me_length (tab' s) = ?len"
    "\<And>t. t \<noteq> s \<Longrightarrow> me_key (tab' t) = me_key (kv_mapping_table kv t) \<and> me_mem_offset (tab' t) = me_mem_offset (kv_mapping_table kv t) \<and>
       me_length (tab' t) = me_length (kv_mapping_table kv t)"
    using new_mapping_entry_ok [OF ok' k(1) no' off' ne room', of ?len] by auto
  let ?kv' = "?kv\<lparr>kv_mapping_table := tab'\<rparr>"
  have use: "in_use (tab' t) = in_use (kv_mapping_table kv t)" "region (tab' t) = region (kv_mapping_table kv t)" if "t \<noteq> s" for t
    using t(8) [OF that] by (simp_all add: in_use_def region_def)
  have Rs: "region (tab' s) = ?R" using t(6,7) by (simp add: region_def)
  have old: "region (kv_mapping_table kv t) \<inter> ?R = {}" "region (kv_mapping_table kv t) \<subseteq> taken a" if "in_use (kv_mapping_table kv t)" for t
  proof -
    have r: "region (kv_mapping_table kv t) \<subseteq> taken (kv_alloc kv)" using that inv unfolding kv_inv_def by blast
    have f: "?R \<inter> taken (kv_alloc kv) = {}" "taken (kv_alloc kv) \<subseteq> taken a" using fr by simp_all
    show "region (kv_mapping_table kv t) \<inter> ?R = {}" "region (kv_mapping_table kv t) \<subseteq> taken a" using r f by blast+
  qed
  have "region (tab' x) \<subseteq> taken a" if "in_use (tab' x)" for x
    using that old(2) [of x] use [of x] Rs fr by (cases "x = s") auto
  moreover have "region (tab' x) \<inter> region (tab' y) = {}" if "in_use (tab' x)" "in_use (tab' y)" "x \<noteq> y" for x y
    using that old(1) [of x] old(1) [of y] use [of x] use [of y] Rs inv unfolding kv_inv_def by (cases "x = s"; cases "y = s") auto
  ultimately have inv': "kv_inv n ?kv'" using t(2) fr inv by (simp add: kv_inv_def)
  have "kv_val ?kv' s = ?v"
    using map_scatter [of "[unat off..<unat off + value_bytes cmd]" ?v "kv_storage kv"] length_kv_buffer [of mem cmd "value_bytes cmd"] t(6,7) by (simp add: kv_val_def Let_def)
  moreover have "kv_val ?kv' x = kv_val kv x" if "holds n kv k' x" for k' x
  proof -
    have that: "in_use (kv_mapping_table kv x)" "x \<noteq> s" using that t(3) by (auto simp: holds_def)
    have "kv_val ?kv' x = kv_val (kv\<lparr>kv_storage := ?stor\<rparr>) x" using t(8) [OF that(2)] by (simp add: kv_val_def Let_def)
    then show ?thesis using kv_val_storage [OF old(1) [OF that(1)]] by simp
  qed
  moreover have "holds n ?kv' k' x \<longleftrightarrow> (x = s \<and> k' = k \<or> x \<noteq> s \<and> holds n kv k' x)" for k' x
    using t(4,5) t(8) [of x] use [of x] by (cases "x = s") (auto simp: holds_def)
  moreover have "\<not> holds n kv k' s" for k' using t(3) by (simp add: holds_def)
  ultimately have rep': "kv_rep n ?kv' (m(k \<mapsto> ?v))"
    using ab(2) by (intro kv_rep_upd [OF rep, where s = s]) auto
  have "kv_store alloc cmd k (mem, kv) = Some (mem, ?kv')"
    using ab(1) a ne t(1) pg by (simp add: kv_store_def WIPED_def NO_OFFSET_def allocate_mem_offset_def kv_copy_to Let_def)
  then show ?thesis using inv' rep' by auto
qed

lemma kv_store_same:
  assumes inv: "kv_inv n kv" and rep: "kv_rep n kv m" and k: "m k = Some v" "length v = value_bytes cmd"
    and pg: "kv_pages_ok mem cmd (value_bytes cmd)"
  shows "\<exists>kv'. kv_store alloc cmd k (mem, kv) = Some (mem, kv') \<and> kv_inv n kv' \<and>
    kv_rep n kv' (m(k \<mapsto> map mem (kv_buffer mem cmd (value_bytes cmd)))) \<and> hash_slots kv' = hash_slots kv \<and> kv_storage_size kv' = kv_storage_size kv"
proof -
  let ?len = "ucast (cmd_value_length cmd) :: u64" and ?v = "map mem (kv_buffer mem cmd (value_bytes cmd))"
  have ok: "table_ok n kv" using inv by (simp add: kv_inv_def)
  obtain s e where s: "holds n kv k s" "kv_val kv s = v" "get_mapping_entry k kv = Some e" "find_slot kv k = Some (Some s)"
    "me_mem_offset e = me_mem_offset (kv_mapping_table kv s)" "me_length e = me_length (kv_mapping_table kv s)" "me_mem_offset e \<noteq> NO_OFFSET"
    using ok rep k(1) by (rule get_found)
  have len: "unat (me_length (kv_mapping_table kv s)) = value_bytes cmd" using s(2) k(2) by (auto simp: kv_val_def Let_def)
  then have eq: "me_length e = ?len" using s(6) by (simp add: word_unat_eq_iff)
  let ?o = "unat (me_mem_offset (kv_mapping_table kv s))"
  let ?kv = "kv\<lparr>kv_storage := scatter (kv_storage kv) [?o..<?o + value_bytes cmd] ?v\<rparr>"
  have st: "kv_store alloc cmd k (mem, kv) = Some (mem, ?kv)"
    using s(3,5,7) eq pg by (simp add: kv_store_def kv_copy_to Let_def)
  have "kv_inv n ?kv" using inv by (simp add: kv_inv_def table_ok_def get_hash_slot_def)
  moreover have "kv_val ?kv s = ?v"
    using map_scatter [of "[?o..<?o + value_bytes cmd]" ?v "kv_storage kv"] length_kv_buffer [of mem cmd "value_bytes cmd"] len by (simp add: kv_val_def Let_def)
  moreover have "kv_val ?kv x = kv_val kv x" if "in_use (kv_mapping_table kv x)" "x \<noteq> s" for x
  proof (rule kv_val_storage)
    have "region (kv_mapping_table kv s) = {?o..<?o + value_bytes cmd}" using len by (simp add: region_def)
    moreover have "in_use (kv_mapping_table kv s)" using s(1) by (simp add: holds_def)
    ultimately show "region (kv_mapping_table kv x) \<inter> {?o..<?o + value_bytes cmd} = {}" using inv that unfolding kv_inv_def by metis
  qed
  moreover have "holds n ?kv k' x = holds n kv k' x" for k' x by (simp add: holds_def)
  moreover have "holds n kv k x \<longleftrightarrow> x = s" for x using holds_unique [OF ok _ s(1)] s(1) by blast
  moreover have "in_use (kv_mapping_table kv x) \<and> x \<noteq> s" if "k' \<noteq> k" "holds n kv k' x" for k' x
    using that s(1) by (auto simp: holds_def)
  ultimately have "kv_inv n ?kv" "kv_rep n ?kv (m(k \<mapsto> ?v))"
    by (simp, intro kv_rep_upd [OF rep, where s = s]) auto
  then show ?thesis using st by auto
qed

lemma kv_retrieve_ok:
  assumes inv: "kv_inv n kv" and rep: "kv_rep n kv m" and k: "kv_key cmd = Some k" "length k = n" and op: "c_opcode cmd = nvme_cmd_kv_retrieve"
  shows "m k = None \<Longrightarrow> do_perform_kv_io alloc cmd st (mem, kv) = Some (0, KV_ERR_KEY_NOT_EXIST, mem, kv)"
    and "m k = Some v \<Longrightarrow> l = min (length v) (value_bytes cmd) \<Longrightarrow> kv_pages_ok mem cmd l \<Longrightarrow>
      do_perform_kv_io alloc cmd st (mem, kv) = Some (of_nat l, st, scatter mem (kv_buffer mem cmd l) (take l v), kv)"
proof -
  have ok: "table_ok n kv" using inv by (simp add: kv_inv_def)
  have ne: "c_opcode cmd \<noteq> nvme_cmd_kv_store" using op by (simp add: nvme_cmd_kv_retrieve_def nvme_cmd_kv_store_def)
  show "do_perform_kv_io alloc cmd st (mem, kv) = Some (0, KV_ERR_KEY_NOT_EXIST, mem, kv)" if "m k = None"
    using get_absent(1) [OF ok rep k(2) that] k(1) op ne by (simp add: do_perform_kv_io_def WIPED_def NO_OFFSET_def Let_def)
  assume v: "m k = Some v" and l: "l = min (length v) (value_bytes cmd)" and pg: "kv_pages_ok mem cmd l"
  obtain s e where s: "holds n kv k s" "kv_val kv s = v" "get_mapping_entry k kv = Some e" "find_slot kv k = Some (Some s)"
    "me_mem_offset e = me_mem_offset (kv_mapping_table kv s)" "me_length e = me_length (kv_mapping_table kv s)" "me_mem_offset e \<noteq> NO_OFFSET"
    using ok rep v by (rule get_found)
  let ?o = "unat (me_mem_offset (kv_mapping_table kv s))" and ?min = "min (me_length e) (ucast (cmd_value_length cmd))"
  have vl: "v = map (kv_storage kv) [?o..<?o + unat (me_length e)]" using s(2,6) by (simp add: kv_val_def Let_def)
  have m: "unat ?min = l" using l vl by (simp add: min_def word_le_nat_alt)
  then have u: "(ucast ?min :: u32) = of_nat l" by (metis of_nat_unat)
  have "take l v = map (kv_storage kv) [?o..<?o + l]" using l unfolding vl by (simp add: take_map take_upt)
  then show "do_perform_kv_io alloc cmd st (mem, kv) = Some (of_nat l, st, scatter mem (kv_buffer mem cmd l) (take l v), kv)"
    using s(3,5,7) k(1) op ne pg m u by (simp add: do_perform_kv_io_def kv_copy_from Let_def)
qed

end

end
