(* ===== verification/KV_Device.thy ===== *)
theory KV_Device
  imports KV_Store
begin

text \<open>
  The key-value device as built, with the append-only allocator: its runs from a fresh namespace, together with the
  map that they are to hold, and the properties of the namespace.
\<close>

section \<open>Runs\<close>

text \<open>
  A store the device can serve: a new key while there is storage and a free slot, or a known key with a value of
  the length it has.
\<close>

definition storable :: "nat \<Rightarrow> append_only kv_ftl \<Rightarrow> (u8 list \<rightharpoonup> u8 list) \<Rightarrow> bytes \<Rightarrow> nvme_command \<Rightarrow> u8 list \<Rightarrow> bool" where
  "storable n kv m mem cmd k \<longleftrightarrow> c_opcode cmd = nvme_cmd_kv_store \<and> kv_key cmd = Some k \<and> length k = n \<and>
     kv_pages_ok mem cmd (value_bytes cmd) \<and>
     (case m k of
        None \<Rightarrow> ap_room (ucast (cmd_value_length cmd)) (kv_alloc kv) \<and> (\<exists>f < hash_slots kv. \<not> in_use (kv_mapping_table kv f))
      | Some v \<Rightarrow> length v = value_bytes cmd)"

inductive kv_reach :: "nat \<Rightarrow> append_only kv_ftl \<Rightarrow> (u8 list \<rightharpoonup> u8 list) \<Rightarrow> bool" for n :: nat where
  kv_start: "n \<le> KVCMD_INLINE_KEY_MAX \<Longrightarrow> kv_reach n (kv_init_namespace append_only_allocator_init junk stor sz) Map.empty"
| kv_put: "kv_reach n kv m \<Longrightarrow> storable n kv m mem cmd k \<Longrightarrow>
    do_perform_kv_io append_only_allocate cmd st (mem, kv) = Some (r, st', mem', kv') \<Longrightarrow>
    kv_reach n kv' (m(k \<mapsto> map mem (kv_buffer mem cmd (value_bytes cmd))))"
| kv_iter: "kv_reach n kv m \<Longrightarrow> do_perform_kv_iter_io km junk cmd st (mem, kv) = Some (r, st', mem', kv') \<Longrightarrow> kv_reach n kv' m"

lemma init_sel:
  "kv_mapping_table (kv_init_namespace f junk stor sz) s = \<lparr>me_key = replicate KEY_ARRAY 0, me_mem_offset = -1, me_length = -1, me_next_slot = -1\<rparr>"
  "hash_slots (kv_init_namespace f junk stor sz) = 22369621" "kv_alloc (kv_init_namespace f junk stor sz) = f sz"
  "kv_storage_size (kv_init_namespace f junk stor sz) = sz" "kv_storage (kv_init_namespace f junk stor sz) = stor"
  by (simp_all add: kv_init_namespace_def KV_MAPPING_TABLE_SIZE_def KV_MAPPING_ENTRY_SIZE_def)

lemma init_free [simp]: "\<not> in_use (kv_mapping_table (kv_init_namespace f junk stor sz) s)"
  by (simp add: in_use_def init_sel NO_OFFSET_def)

lemma init_inv: "n \<le> KVCMD_INLINE_KEY_MAX \<Longrightarrow> ap.kv_inv n (kv_init_namespace append_only_allocator_init junk stor sz)"
  by (simp add: ap.kv_inv_def table_ok_def links_def falls_def init_sel KVCMD_INLINE_KEY_MAX_def KEY_ARRAY_def NO_SLOT_def append_only_allocator_init_def in_use_def NO_OFFSET_def)

lemma init_rep: "kv_rep n (kv_init_namespace f junk stor sz) Map.empty"
  by (simp add: kv_rep_def holds_def)

text \<open>Iterator commands touch the iterators only.\<close>

lemma iter_frame:
  fixes kv :: "'a kv_ftl"
  assumes "do_perform_kv_iter_io km junk cmd st (mem, kv) = Some (r, st', mem', kv')"
  shows "\<exists>ih. kv' = kv\<lparr>iter_handle := ih\<rparr>"
proof -
  have same: "\<exists>ih. x = x\<lparr>iter_handle := ih\<rparr>" for x :: "'a kv_ftl" by (intro exI [of _ "iter_handle x"]) simp
  show ?thesis
    using assms by (auto simp: do_perform_kv_iter_io_def kv_iter_open_def kv_iter_close_def kv_iter_read_def Let_def bind_eq_Some_conv
        split: if_splits option.splits prod.splits intro: same)
qed

lemma iter_inv: "ap.kv_inv n (kv\<lparr>iter_handle := ih\<rparr>) = ap.kv_inv n kv" "kv_rep n (kv\<lparr>iter_handle := ih\<rparr>) m = kv_rep n kv m"
  by (simp_all add: ap.kv_inv_def table_ok_def get_hash_slot_def kv_rep_def holds_def kv_val_def)

lemma store_io:
  assumes "storable n kv m mem cmd k" and "ap.kv_inv n kv" and "kv_rep n kv m"
  shows "\<exists>kv'. do_perform_kv_io append_only_allocate cmd st (mem, kv) = Some (0, st, mem, kv') \<and> ap.kv_inv n kv' \<and>
    kv_rep n kv' (m(k \<mapsto> map mem (kv_buffer mem cmd (value_bytes cmd)))) \<and> hash_slots kv' = hash_slots kv"
proof -
  have c: "c_opcode cmd = nvme_cmd_kv_store" "kv_key cmd = Some k" "length k = n" "kv_pages_ok mem cmd (value_bytes cmd)"
    using assms(1) by (simp_all add: storable_def)
  obtain kv' where kv': "kv_store append_only_allocate cmd k (mem, kv) = Some (mem, kv')" "ap.kv_inv n kv'"
    "kv_rep n kv' (m(k \<mapsto> map mem (kv_buffer mem cmd (value_bytes cmd))))" "hash_slots kv' = hash_slots kv"
  proof (cases "m k")
    case None
    then show thesis using that ap.kv_store_new [OF assms(2,3) c(3) None c(4)] assms(1) unfolding storable_def None option.case by blast
  next
    case (Some v)
    then show thesis using that ap.kv_store_same [OF assms(2,3) Some _ c(4)] assms(1) unfolding storable_def Some option.case by blast
  qed
  have "\<exists>e. get_mapping_entry k kv = Some e" using kv'(1) by (auto simp: kv_store_def Let_def bind_eq_Some_conv)
  then have "do_perform_kv_io append_only_allocate cmd st (mem, kv) = Some (0, st, mem, kv')" using kv'(1) c by (auto simp: do_perform_kv_io_def Let_def)
  then show ?thesis using kv'(2-4) by blast
qed

lemma kv_reach_inv: "kv_reach n kv m \<Longrightarrow> ap.kv_inv n kv \<and> kv_rep n kv m \<and> hash_slots kv = 22369621"
proof (induction rule: kv_reach.induct)
  case (kv_start junk stor sz)
  then show ?case using init_inv init_rep init_sel(2) by blast
next
  case (kv_put kv m mem cmd k st r st' mem' kv')
  then obtain kv2 where "do_perform_kv_io append_only_allocate cmd st (mem, kv) = Some (0, st, mem, kv2)" "ap.kv_inv n kv2"
    "kv_rep n kv2 (m(k \<mapsto> map mem (kv_buffer mem cmd (value_bytes cmd))))" "hash_slots kv2 = 22369621"
    using store_io [OF kv_put(2), of st] by metis
  moreover from this kv_put(3) have "kv2 = kv'" by simp
  ultimately show ?case by blast
next
  case (kv_iter kv m km junk cmd st mem r st' mem' kv')
  then obtain ih where "kv' = kv\<lparr>iter_handle := ih\<rparr>" using iter_frame [OF kv_iter(2)] by blast
  then show ?case using kv_iter(3) iter_inv by simp
qed

lemmas kv_reach_table = kv_reach_inv [THEN conjunct1, unfolded ap.kv_inv_def, THEN conjunct1]

section \<open>A deleted key and its chain\<close>

lemma io_delete:
  assumes "find_slot kv k = Some (Some s)" and "in_use (kv_mapping_table kv s)" and "kv_key cmd = Some k" and "c_opcode cmd = nvme_cmd_kv_delete"
  shows "do_perform_kv_io alloc cmd st (mem, kv) = Some (0, st, mem, upd_entry s (\<lambda>_. WIPED) kv)"
  using assms by (simp add: do_perform_kv_io_def get_mapping_entry_def delete_mapping_entry_def in_use_def Let_def
      nvme_cmd_kv_delete_def nvme_cmd_kv_store_def nvme_cmd_kv_retrieve_def nvme_cmd_kv_exist_def)

lemma find_slot_wiped:
  assumes "0 < hash_slots kv" and "get_hash_slot kv k = h"
  shows "find_slot (upd_entry h (\<lambda>_. WIPED) kv) k = Some None"
proof -
  have "get_hash_slot (upd_entry h (\<lambda>_. WIPED) kv) k = h" using assms(2) by (simp add: get_hash_slot_def upd_entry_def)
  then show ?thesis using assms(1)
    by (simp add: find_slot_def find_key.simps upd_entry_def in_use_def WIPED_def NO_OFFSET_def)
qed

section \<open>A longer value over a shorter one\<close>

text \<open>
  The append-only allocator gives a value exactly its length. Storing a longer value for a known key writes over the value
  that follows, because the length is compared with the slot size of the other allocator.
\<close>

lemma longer_store_overwrites:
  assumes "find_slot kv k = Some (Some s)" and "in_use (kv_mapping_table kv s)" and "kv_pages_ok mem cmd (value_bytes cmd)"
    and "unat (me_length (kv_mapping_table kv s)) < value_bytes cmd" and "value_bytes cmd \<le> 1024"
  shows "\<exists>kv'. kv_store alloc cmd k (mem, kv) = Some (mem, kv') \<and>
    kv_storage kv' (unat (me_mem_offset (kv_mapping_table kv s)) + unat (me_length (kv_mapping_table kv s))) =
      mem (kv_buffer mem cmd (value_bytes cmd) ! unat (me_length (kv_mapping_table kv s)))"
proof -
  let ?e = "kv_mapping_table kv s" and ?n = "value_bytes cmd"
  let ?o = "unat (me_mem_offset ?e)" and ?l = "unat (me_length ?e)" and ?v = "map mem (kv_buffer mem cmd ?n)"
  let ?stor = "scatter (kv_storage kv) [?o..<?o + ?n] ?v"
  have len: "length ?v = ?n" using length_kv_buffer [of mem cmd] by simp
  have ne: "ucast (cmd_value_length cmd) \<noteq> me_length ?e" using assms(4) value_bytes_u64 [of cmd] by (metis less_irrefl)
  have "kv_store alloc cmd k (mem, kv) = Some (mem, upd_entry s (\<lambda>e. e\<lparr>me_length := ucast (cmd_value_length cmd)\<rparr>) (kv\<lparr>kv_storage := ?stor\<rparr>))"
    using assms ne by (simp add: kv_store_def get_mapping_entry_def in_use_def kv_copy_to update_mapping_entry_def find_slot_def
        get_hash_slot_def SMALL_LENGTH_def word_le_nat_alt Let_def split: if_splits)
  moreover have "?stor ([?o..<?o + ?n] ! ?l) = ?v ! ?l" using assms(4) len by (intro scatter_nth) simp_all
  ultimately show ?thesis using assms(4) len by (auto simp: upd_entry_def)
qed

text \<open>
  When the small slots of the bitmap allocator are used up, the next allocation lies above the middle of the device, where the large
  slots are.
\<close>

lemma bitmap_exhausted_overlaps:
  assumes "bp_last_pos (bm_small b) = bp_nbits (bm_small b)" and "bp_nbits (bm_small b) = unat (bm_dev_size b) div 2 div 1024" and "len \<le> SMALL_LENGTH"
  shows "fst (bitmap_allocate len b) = of_nat (unat (bm_dev_size b) div 2 div 1024 + 1) * 1024"
  using assms by (simp add: bitmap_allocate_def Let_def pool_take_def find_next_zero_area_def SMALL_LENGTH_def not_less [symmetric])

section \<open>Properties\<close>

text \<open>
  C12: A store puts one pair into the device. Take a namespace that fitting stores of keys of one length \<open>n\<close> and iterator
  commands made from a fresh one (no deletes, no batches, no update that changes the length of a value). A further store
  that fits (a new key while there is a free slot and storage, or a known key with a value of the same length, from a buffer
  with aligned pages) completes with success and leaves host memory alone, whatever the collisions in the hash table.
  Afterwards the pairs that the mapping table and the storage of the device hold are the ones they held before, less any
  pair of this key, plus this key with the bytes of the host buffer; before and after they are the graph of the map of the
  values stored last.
\<close>

theorem kv_store_refines:
  assumes "kv_reach n kv m" and "storable n kv m mem cmd k"
  shows "\<exists>kv'. do_perform_kv_io append_only_allocate cmd st (mem, kv) = Some (0, st, mem, kv') \<and>
    kv_pairs n kv' = {(k', v) \<in> kv_pairs n kv. k' \<noteq> k} \<union>
      {(k, map mem (prp_buffer mem (unat (c_prp1 cmd)) (unat (c_prp2 cmd)) (value_bytes cmd)))} \<and>
    kv_pairs n kv = Map.graph m \<and>
    kv_reach n kv' (m(k \<mapsto> map mem (prp_buffer mem (unat (c_prp1 cmd)) (unat (c_prp2 cmd)) (value_bytes cmd))))"
proof -
  let ?v = "map mem (prp_buffer mem (unat (c_prp1 cmd)) (unat (c_prp2 cmd)) (value_bytes cmd))"
  have inv: "ap.kv_inv n kv" "kv_rep n kv m" using kv_reach_inv [OF assms(1)] by simp_all
  obtain kv' where io: "do_perform_kv_io append_only_allocate cmd st (mem, kv) = Some (0, st, mem, kv')" "kv_rep n kv' (m(k \<mapsto> ?v))"
    using store_io [OF assms(2) inv, of st] unfolding kv_buffer_def by blast
  have g: "kv_pairs n kv = Map.graph m" "kv_pairs n kv' = Map.graph (m(k \<mapsto> ?v))"
    using kv_pairs_rep inv(2) io(2) by blast+
  then have "kv_pairs n kv' = {(k', v) \<in> kv_pairs n kv. k' \<noteq> k} \<union> {(k, ?v)}" by (auto simp: Map.graph_def split: if_splits)
  then show ?thesis using kv_put [OF assms io(1)] io(1) g(1) unfolding kv_buffer_def by blast
qed

text \<open>
  C13: Retrieval returns what was stored last. Take a namespace that fitting stores of keys of one length \<open>n\<close> and iterator
  commands made from a fresh one (no deletes, no batches, no update that changes the length of a value), and the map of the
  bytes stored last for each key. A retrieve command for a key of this length, with a buffer of aligned pages, reports
  that the key does not exist exactly when it was never stored, and otherwise copies the value, cut to the size of the host
  buffer, into that buffer and returns its length; nothing else changes.
\<close>

theorem kv_retrieve_latest:
  assumes "kv_reach n kv m" and "c_opcode cmd = nvme_cmd_kv_retrieve" and "kv_key cmd = Some k" and "length k = n"
    and "\<forall>l \<le> value_bytes cmd. kv_pages_ok mem cmd l"
  shows "do_perform_kv_io append_only_allocate cmd st (mem, kv) =
    (case m k of
       None \<Rightarrow> Some (0, KV_ERR_KEY_NOT_EXIST, mem, kv)
     | Some v \<Rightarrow>
         let l = min (length v) (value_bytes cmd) in
         Some (of_nat l, st, scatter mem (kv_buffer mem cmd l) (take l v), kv))"
proof -
  have "ap.kv_inv n kv" "kv_rep n kv m" using kv_reach_inv [OF assms(1)] by simp_all
  note r = ap.kv_retrieve_ok [OF this assms(3,4,2), where st = st and mem = mem]
  show ?thesis
  proof (cases "m k")
    case None
    then show ?thesis using r(1) by simp
  next
    case (Some v)
    then show ?thesis using r(2) [OF Some refl] assms(5) by (simp add: Let_def)
  qed
qed

text \<open>
  C14: The hash table stays well formed as long as keys are only added. In every namespace that fitting stores of keys of
  one length \<open>n\<close> and iterator commands made from a fresh one (no deletes, no batches, no update that changes the length of a
  value), keys fill their arrays, entries in use lie within the table, links lead from entries in use to entries in use,
  never in a cycle, every entry is reached from the slot its key hashes to, and no key occurs twice.
\<close>

theorem kv_table_wf:
  assumes "kv_reach n kv m"
  shows "(\<forall>s. length (me_key (kv_mapping_table kv s)) = 18) \<and>
    (\<forall>s. in_use (kv_mapping_table kv s) \<longrightarrow> s < hash_slots kv \<and>
       (get_hash_slot kv (take n (me_key (kv_mapping_table kv s))), s) \<in> (links (kv_mapping_table kv))\<^sup>*) \<and>
    (\<forall>(s, t) \<in> links (kv_mapping_table kv). in_use (kv_mapping_table kv t)) \<and> acyclic (links (kv_mapping_table kv)) \<and>
    (\<forall>s t. in_use (kv_mapping_table kv s) \<and> in_use (kv_mapping_table kv t) \<and>
       take n (me_key (kv_mapping_table kv s)) = take n (me_key (kv_mapping_table kv t)) \<longrightarrow> s = t)"
proof -
  let ?tab = "kv_mapping_table kv"
  note T = kv_reach_table [OF assms, unfolded table_ok_def]
  obtain rank where "falls rank (links ?tab)" using T by blast
  then have "links ?tab \<subseteq> (measure rank)\<inverse>" by (auto simp: falls_def)
  then have "acyclic (links ?tab)" by (meson acyclic_converse acyclic_subset wf_acyclic wf_measure)
  then show ?thesis using T by (simp add: KEY_ARRAY_def)
qed

text \<open>
  C15: Deleting a key can make others unreachable. When the deleted key occupies the slot that another stored key hashes to,
  the deletion succeeds and wipes the link of that slot, and retrieving the other key then reports that it does not exist,
  although its entry is still in the table.
\<close>

theorem kv_delete_orphans:
  assumes "kv_reach n kv m" and "m k2 = Some v" and "k1 \<noteq> k2" and "holds n kv k1 (get_hash_slot kv k2)"
    and "c_opcode del = nvme_cmd_kv_delete" and "kv_key del = Some k1" and "c_opcode get = nvme_cmd_kv_retrieve" and "kv_key get = Some k2"
  shows "\<exists>kv' s. do_perform_kv_io append_only_allocate del st (mem, kv) = Some (0, st, mem, kv') \<and> holds n kv' k2 s \<and>
    do_perform_kv_io append_only_allocate get st (mem, kv') = Some (0, KV_ERR_KEY_NOT_EXIST, mem, kv')"
proof -
  let ?h = "get_hash_slot kv k2"
  let ?kv = "upd_entry ?h (\<lambda>_. WIPED) kv"
  note ok = kv_reach_table [OF assms(1)]
  have "find_slot kv k1 = Some (Some ?h)" by (rule find_slot_found [OF ok assms(4) holds_length [OF ok assms(4)]])
  moreover have "in_use (kv_mapping_table kv ?h)" using assms(4) by (simp add: holds_def)
  ultimately have del: "do_perform_kv_io append_only_allocate del st (mem, kv) = Some (0, st, mem, ?kv)"
    using assms(5,6) by (intro io_delete)
  obtain s where s: "holds n kv k2 s" using assms(2) kv_reach_inv [OF assms(1)] unfolding kv_rep_def by blast
  then have "s \<noteq> ?h" using assms(3,4) by (auto simp: holds_def)
  then have "holds n ?kv k2 s" using s by (simp add: holds_def upd_entry_def)
  moreover have "find_slot ?kv k2 = Some None" using table_ok_slots [OF ok] by (intro find_slot_wiped) simp_all
  then have "do_perform_kv_io append_only_allocate get st (mem, ?kv) = Some (0, KV_ERR_KEY_NOT_EXIST, mem, ?kv)"
    using assms(7,8) by (simp add: do_perform_kv_io_def get_mapping_entry_def WIPED_def NO_OFFSET_def Let_def
        nvme_cmd_kv_store_def nvme_cmd_kv_retrieve_def)
  ultimately show ?thesis using del by blast
qed

section \<open>Witnesses\<close>

text \<open>Two keys of four bytes that hash to the same slot of the device's table.\<close>

definition k_cmd :: "u8 \<Rightarrow> u32 \<Rightarrow> u32 \<Rightarrow> nvme_command" where
  "k_cmd opc key words = \<lparr>c_opcode = opc, c_flags = 0, c_command_id = 0, c_nsid = 1, c_cdw2 = 0, c_cdw3 = 0,
     c_metadata = 0, c_prp1 = 0x1000, c_prp2 = 0, c_cdw10 = words, c_cdw11 = 3, c_cdw12 = key, c_cdw13 = 0, c_cdw14 = 0, c_cdw15 = 0\<rparr>"

definition key_a :: "u8 list" where "key_a = [0x5b, 0x90, 0xfa, 0xaf]"
definition key_b :: "u8 list" where "key_b = [0xc5, 0xe0, 0xc0, 0xcc]"

definition kv0 :: "append_only kv_ftl" where
  "kv0 = kv_init_namespace append_only_allocator_init (\<lambda>_. None) (\<lambda>_. 0) 1000000"

lemma hash_collision: "unat (hash_function key_a) mod 22369621 = 16591191" "unat (hash_function key_b) mod 22369621 = 16591191"
  by (simp_all add: hash_function_def key_a_def key_b_def)

lemma k_cmd_sel:
  "kv_key (k_cmd opc 0xaffa905b w) = Some key_a" "kv_key (k_cmd opc 0xccc0e0c5 w) = Some key_b" "c_opcode (k_cmd opc key w) = opc"
  "value_bytes (k_cmd opc key w) = unat (push_bit 2 w)" "unat (c_prp1 (k_cmd opc key w)) = 4096"
  by (simp_all add: k_cmd_def kv_key_def cmd_key_length_def KVCMD_INLINE_KEY_MAX_def bytes32_def key_a_def key_b_def value_bytes_def cmd_value_length_def drop_bit_eq_div)

lemma k_pages: "l \<le> 4096 \<Longrightarrow> kv_pages_ok mem (k_cmd opc key w) l"
  unfolding kv_pages_ok_def k_cmd_sel by (simp add: prp_one_page)

lemma kv0_slot: "get_hash_slot kv0 key_a = 16591191"
  by (simp add: get_hash_slot_def kv0_def init_sel hash_collision)

lemma kv0_reach: "kv_reach 4 kv0 Map.empty"
  unfolding kv0_def by (rule kv_start) (simp add: KVCMD_INLINE_KEY_MAX_def)

lemma kv0_storable: "unat (push_bit 2 w :: u32) \<le> 4096 \<Longrightarrow> storable 4 kv0 Map.empty mem (k_cmd nvme_cmd_kv_store 0xaffa905b w) key_a"
  by (auto simp: storable_def k_cmd_sel k_pages ap_room_def kv0_def init_sel append_only_allocator_init_def key_a_def value_bytes_def [symmetric]
      in_use_def NO_OFFSET_def intro: exI [of _ 0])

definition kv1 :: "append_only kv_ftl" where
  "kv1 = kv0\<lparr>kv_mapping_table := (kv_mapping_table kv0)(16591191 := new_entry key_a 0 0 (kv_mapping_table kv0 16591191))\<rparr>"

text \<open>Storing an empty value first, then one for the other key.\<close>

lemma kv1_store: "do_perform_kv_io append_only_allocate (k_cmd nvme_cmd_kv_store 0xaffa905b 0) 0 (mem, kv0) = Some (0, 0, mem, kv1)"
proof -
  let ?c = "k_cmd nvme_cmd_kv_store 0xaffa905b 0"
  have free: "\<not> in_use (kv_mapping_table kv0 s)" for s unfolding kv0_def by (rule init_free)
  have "0 < hash_slots kv0" by (simp add: kv0_def init_sel)
  then have get: "get_mapping_entry key_a kv0 = Some WIPED"
    by (simp add: get_mapping_entry_def find_slot_def find_key.simps free)
  have al: "allocate_mem_offset append_only_allocate 0 kv0 = (0, kv0)"
    by (simp add: allocate_mem_offset_def append_only_allocate_def kv0_def init_sel append_only_allocator_init_def NO_OFFSET_def kv_init_namespace_def)
  have cp: "kv_copy To_Device ?c 0 0 (mem, kv0) = Some (mem, kv0)" by (simp add: kv_copy_def prp_loop.simps)
  have "kv_storage_size kv0 = 1000000" "hash_slots kv0 = 22369621" "length key_a \<le> KEY_ARRAY"
    by (simp_all add: kv0_def init_sel key_a_def KEY_ARRAY_def)
  then have new: "new_mapping_entry key_a 0 0 kv0 = Some kv1"
    by (simp add: new_mapping_entry_def kv0_slot free upd_entry_def kv1_def new_entry_def)
  have "cmd_value_length ?c = 0" by (simp add: cmd_value_length_def k_cmd_def)
  then show ?thesis using get al cp new
    by (simp add: do_perform_kv_io_def kv_store_def k_cmd_sel Let_def WIPED_def NO_OFFSET_def)
qed

lemma kv1_reach: "kv_reach 4 kv1 [key_a \<mapsto> []]"
proof -
  have s: "storable 4 kv0 Map.empty (\<lambda>_. 0) (k_cmd nvme_cmd_kv_store 0xaffa905b 0) key_a" by (rule kv0_storable) simp
  have "map (\<lambda>_. 0) (kv_buffer (\<lambda>_. 0) (k_cmd nvme_cmd_kv_store 0xaffa905b 0) (value_bytes (k_cmd nvme_cmd_kv_store 0xaffa905b 0))) = ([] :: u8 list)"
    by (simp add: kv_buffer_def prp_buffer_def k_cmd_sel)
  with kv_put [OF kv0_reach s kv1_store] show ?thesis by simp
qed

lemma kv2_reach: obtains kv2 where "kv_reach 4 kv2 [key_a \<mapsto> [], key_b \<mapsto> []]"
proof -
  let ?c = "k_cmd nvme_cmd_kv_store 0xccc0e0c5 0"
  have "\<not> in_use (kv_mapping_table kv1 0)" by (simp add: kv1_def kv0_def init_sel in_use_def NO_OFFSET_def)
  moreover have "0 < hash_slots kv1" by (simp add: kv1_def kv0_def init_sel)
  ultimately have "\<exists>f < hash_slots kv1. \<not> in_use (kv_mapping_table kv1 f)" by blast
  moreover have "ap_room 0 (kv_alloc kv1)" by (simp add: ap_room_def kv1_def kv0_def init_sel append_only_allocator_init_def)
  moreover have "key_b \<noteq> key_a" "cmd_value_length ?c = 0" "length key_b = 4" by (simp_all add: key_a_def key_b_def cmd_value_length_def k_cmd_def)
  ultimately have s: "storable 4 kv1 [key_a \<mapsto> []] (\<lambda>_. 0) ?c key_b" by (simp add: storable_def k_cmd_sel k_pages)
  then obtain kv2 where "do_perform_kv_io append_only_allocate ?c 0 (\<lambda>_. 0, kv1) = Some (0, 0, \<lambda>_. 0, kv2)"
    using store_io [OF s] kv_reach_inv [OF kv1_reach] by blast
  from kv_put [OF kv1_reach s this] have "kv_reach 4 kv2 [key_a \<mapsto> [], key_b \<mapsto> []]" by (simp add: kv_buffer_def prp_buffer_def k_cmd_sel)
  then show thesis by (rule that)
qed

theorem kv_store_refines_witness:
  "\<exists>kv'. do_perform_kv_io append_only_allocate (k_cmd nvme_cmd_kv_store 0xaffa905b 2) 0 (of_nat, kv0) = Some (0, 0, of_nat, kv') \<and>
    kv_pairs 4 kv' = {(key_a, [0, 1, 2, 3, 4, 5, 6, 7])} \<and> kv_reach 4 kv' [key_a \<mapsto> [0, 1, 2, 3, 4, 5, 6, 7]]"
proof -
  let ?c = "k_cmd nvme_cmd_kv_store 0xaffa905b 2"
  have s: "storable 4 kv0 Map.empty of_nat ?c key_a" by (rule kv0_storable) simp
  have "prp_buffer of_nat 4096 p2 8 = [4096, 4097, 4098, 4099, 4100, 4101, 4102, 4103]" for p2
    by (simp add: prp_one_page upt_conv_Cons)
  then have v: "map of_nat (prp_buffer of_nat (unat (c_prp1 ?c)) (unat (c_prp2 ?c)) (value_bytes ?c)) = ([0, 1, 2, 3, 4, 5, 6, 7] :: u8 list)"
    by (simp add: k_cmd_sel)
  show ?thesis using kv_store_refines [OF kv0_reach s, of 0] unfolding v by (auto simp: Map.graph_def)
qed

theorem kv_retrieve_latest_witness:
  "\<exists>kv mem'. kv_reach 4 kv [key_a \<mapsto> map of_nat [4096..<4104]] \<and>
    do_perform_kv_io append_only_allocate (k_cmd nvme_cmd_kv_retrieve 0xaffa905b 2) 0 (\<lambda>_. 7, kv) = Some (8, 0, mem', kv) \<and>
    do_perform_kv_io append_only_allocate (k_cmd nvme_cmd_kv_retrieve 0xccc0e0c5 2) 0 (\<lambda>_. 7, kv) = Some (0, KV_ERR_KEY_NOT_EXIST, \<lambda>_. 7, kv)"
proof -
  let ?c = "k_cmd nvme_cmd_kv_store 0xaffa905b 2"
  have s: "storable 4 kv0 Map.empty of_nat ?c key_a" by (rule kv0_storable) simp
  obtain kv where io: "do_perform_kv_io append_only_allocate ?c 0 (of_nat, kv0) = Some (0, 0, of_nat, kv)"
    using store_io [OF s] kv_reach_inv [OF kv0_reach] by blast
  have "value_bytes ?c = 8" "kv_buffer of_nat ?c 8 = [4096..<4104]"
    by (simp_all add: k_cmd_sel kv_buffer_def prp_one_page)
  with kv_put [OF kv0_reach s io] have r: "kv_reach 4 kv [key_a \<mapsto> map of_nat [4096..<4104]]" by simp
  have c: "\<forall>l \<le> value_bytes (k_cmd opc key 2). kv_pages_ok (\<lambda>_. 7) (k_cmd opc key 2) l" "value_bytes (k_cmd opc key 2) = 8" for opc key
    by (simp_all add: k_cmd_sel k_pages)
  have n: "length key_a = 4" "length key_b = 4" "key_b \<noteq> key_a" by (simp_all add: key_a_def key_b_def)
  show ?thesis
    using kv_retrieve_latest [OF r k_cmd_sel(3,1) n(1) c(1), of 0] kv_retrieve_latest [OF r k_cmd_sel(3,2) n(2) c(1), of 0] r n(3) c(2)
    by (auto simp: Let_def)
qed

theorem kv_table_wf_witness: "\<exists>kv. kv_reach 4 kv [key_a \<mapsto> [], key_b \<mapsto> []] \<and> acyclic (links (kv_mapping_table kv))"
proof -
  obtain kv where kv: "kv_reach 4 kv [key_a \<mapsto> [], key_b \<mapsto> []]" by (rule kv2_reach)
  with kv_table_wf [OF kv] show ?thesis by blast
qed

theorem kv_delete_orphans_witness:
  "\<exists>kv del get k kv'. kv_reach 4 kv [key_a \<mapsto> [], key_b \<mapsto> []] \<and> [key_a \<mapsto> [], key_b \<mapsto> []] k \<noteq> None \<and> kv_key get = Some k \<and>
    do_perform_kv_io append_only_allocate del 0 (\<lambda>_. 0, kv) = Some (0, 0, \<lambda>_. 0, kv') \<and>
    do_perform_kv_io append_only_allocate get 0 (\<lambda>_. 0, kv') = Some (0, KV_ERR_KEY_NOT_EXIST, \<lambda>_. 0, kv')"
proof -
  obtain kv where kv: "kv_reach 4 kv [key_a \<mapsto> [], key_b \<mapsto> []]" by (rule kv2_reach)
  let ?h = "16591191"
  note inv = kv_reach_inv [OF kv]
  have h: "get_hash_slot kv key_a = ?h" "get_hash_slot kv key_b = ?h" using inv by (simp_all add: get_hash_slot_def hash_collision)
  have ne: "key_a \<noteq> key_b" by (simp add: key_a_def key_b_def)
  obtain s where "holds 4 kv key_a s" using inv ne unfolding kv_rep_def by (metis fun_upd_apply)
  then have "in_use (kv_mapping_table kv ?h)"
    using table_ok_reach [OF kv_reach_table [OF kv]] h(1) rtrancl_in_use by (metis holds_def)
  then have "\<exists>k. holds 4 kv k ?h" by (simp add: holds_def)
  then consider "holds 4 kv key_a ?h" | "holds 4 kv key_b ?h"
    using inv unfolding kv_rep_def by (metis fun_upd_apply option.distinct(1))
  then show ?thesis
  proof cases
    case 1
    then have a: "holds 4 kv key_a (get_hash_slot kv key_b)" using h by simp
    have m: "[key_a \<mapsto> [], key_b \<mapsto> []] key_b = Some []" by simp
    show ?thesis using kv_delete_orphans [OF kv m ne a, of "k_cmd nvme_cmd_kv_delete 0xaffa905b 0" "k_cmd nvme_cmd_kv_retrieve 0xccc0e0c5 0" 0 "\<lambda>_. 0"] kv m
      k_cmd_sel(1-3) by (metis option.distinct(1))
  next
    case 2
    then have a: "holds 4 kv key_b (get_hash_slot kv key_a)" using h by simp
    have m: "[key_a \<mapsto> [], key_b \<mapsto> []] key_a = Some []" using ne by simp
    show ?thesis using kv_delete_orphans [OF kv m ne [symmetric] a, of "k_cmd nvme_cmd_kv_delete 0xccc0e0c5 0" "k_cmd nvme_cmd_kv_retrieve 0xaffa905b 0" 0 "\<lambda>_. 0"] kv m
      k_cmd_sel(1-3) by (metis option.distinct(1))
  qed
qed

end
