(* ===== verification/Controller.thy ===== *)
theory Controller
  imports IO_Worker Data_Path ZNS_FTL
begin

text \<open>
  The controller seen by the host's driver: the registers (\<^verbatim>\<open>nvmev_proc_bars\<close> of \<^verbatim>\<open>pci.c\<close>), the admin queue
  and its commands (\<^verbatim>\<open>admin.c\<close>), and the dispatcher that polls registers and doorbells (\<^verbatim>\<open>main.c\<close>). The memory behind a queue
  that the host hands over by address is the argument \<open>Q\<close>; entry \<open>i\<close> of a queue at address \<open>a\<close> is entry \<open>i\<close> of
  this memory, since the code takes the pages to be contiguous. Other pages of the host are the bytes \<open>v_mem\<close>. During one
  call the registers do not change. \<open>None\<close> stands for \<^verbatim>\<open>BUG_ON\<close>, a null pointer, and an access beyond an array: a queue
  number above \<^verbatim>\<open>NR_MAX_IO_QUEUE\<close>, a namespace that does not exist, a log page longer than its structure.
\<close>

unbundle bit_operations_syntax

section \<open>State\<close>

definition NR_MAX_IO_QUEUE :: nat where "NR_MAX_IO_QUEUE = 72"
definition NR_SQE_PER_PAGE :: nat where "NR_SQE_PER_PAGE = 64"
definition NR_CQE_PER_PAGE :: nat where "NR_CQE_PER_PAGE = 256"

record nvme_ctrl_regs =
  u_cc :: u32
  u_csts :: u32
  u_aqa :: u32
  u_asq :: u64
  u_acq :: u64

record nvmev_admin_queue =
  aq_phase :: int
  aq_sq_depth :: int
  aq_cq_depth :: int
  aq_cq_head :: int
  aq_sq_pages :: nat
  aq_cq_pages :: nat
  aq_sq_mem :: "int \<Rightarrow> nvme_command"
  aq_cq_mem :: "int \<Rightarrow> nvme_completion"

datatype ssd_type = SSD_TYPE_NVM | SSD_TYPE_CONV | SSD_TYPE_ZNS | SSD_TYPE_KV

record nvmev_ns =
  ns_type :: ssd_type
  ns_csi :: u32
  ns_size :: u64
  ns_mapped :: nat
  ns_zp :: znsparams

record nvmev_dev =
  v_bar :: nvme_ctrl_regs
  v_old_bar :: nvme_ctrl_regs
  v_dbs :: "nat \<Rightarrow> u32"
  v_old_dbs :: "nat \<Rightarrow> u32"
  v_admin_q :: "nvmev_admin_queue option"
  v_nr_sq :: nat
  v_io :: nvmev_io_dev
  v_ns :: "nvmev_ns list"
  v_mdts :: u32
  v_mem :: bytes

record host_queues =
  hq_sq :: "u64 \<Rightarrow> int \<Rightarrow> nvme_command"
  hq_cq :: "u64 \<Rightarrow> int \<Rightarrow> nvme_completion"

section \<open>Registers\<close>

definition asqs :: "u32 \<Rightarrow> nat" where "asqs aqa = unat (take_bit 12 aqa)"
definition acqs :: "u32 \<Rightarrow> nat" where "acqs aqa = unat (take_bit 12 (drop_bit 16 aqa))"
definition cc_en :: "u32 \<Rightarrow> bool" where "cc_en cc = bit cc 0"
definition cc_shn :: "u32 \<Rightarrow> u32" where "cc_shn cc = take_bit 2 (drop_bit 14 cc)"

definition set_rdy :: "bool \<Rightarrow> u32 \<Rightarrow> u32" where
  "set_rdy b csts = (if b then csts OR 1 else csts AND NOT 1)"

definition set_shst :: "u32 \<Rightarrow> u32 \<Rightarrow> u32" where
  "set_shst n csts = (csts AND NOT 0xC) OR push_bit 2 n"

definition page_base :: "u64 \<Rightarrow> u64" where
  "page_base a = push_bit 12 (drop_bit 12 a)"

text \<open>A doorbell that is reset: \<^verbatim>\<open>dbs[i] = old_dbs[i] = 0\<close>.\<close>

definition reset_db :: "nat \<Rightarrow> nvmev_dev \<Rightarrow> nvmev_dev" where
  "reset_db i v = v\<lparr>v_dbs := (v_dbs v)(i := 0), v_old_dbs := (v_old_dbs v)(i := 0)\<rparr>"

text \<open>The result of \<^verbatim>\<open>kzalloc\<close> for an admin queue.\<close>

definition zeroed_queue :: nvmev_admin_queue where
  "zeroed_queue = \<lparr>aq_phase = 0, aq_sq_depth = 0, aq_cq_depth = 0, aq_cq_head = 0, aq_sq_pages = 0, aq_cq_pages = 0,
     aq_sq_mem = (\<lambda>_. \<lparr>c_opcode = 0, c_flags = 0, c_command_id = 0, c_nsid = 0, c_cdw2 = 0, c_cdw3 = 0, c_metadata = 0, c_prp1 = 0,
       c_prp2 = 0, c_cdw10 = 0, c_cdw11 = 0, c_cdw12 = 0, c_cdw13 = 0, c_cdw14 = 0, c_cdw15 = 0\<rparr>),
     aq_cq_mem = (\<lambda>_. \<lparr>e_result0 = 0, e_result1 = 0, e_sq_head = 0, e_sq_id = 0, e_command_id = 0, e_status = 0\<rparr>)\<rparr>"

text \<open>The four changes that \<^verbatim>\<open>nvmev_proc_bars\<close> looks for, in its order.\<close>

definition proc_aqa :: "bool \<Rightarrow> nvmev_dev \<Rightarrow> nvmev_dev option" where
  "proc_aqa kmalloc_ok v =
     (case v_admin_q v of
        None \<Rightarrow> if kmalloc_ok then Some zeroed_queue else None
      | Some q \<Rightarrow> Some q) \<bind>
     (\<lambda>q. Some (reset_db 1 (reset_db 0 (v\<lparr>v_old_bar := (v_old_bar v)\<lparr>u_aqa := u_aqa (v_bar v)\<rparr>,
        v_admin_q := Some (q\<lparr>aq_cq_head := 0, aq_phase := 1, aq_sq_depth := int (asqs (u_aqa (v_bar v))) + 1,
          aq_cq_depth := int (acqs (u_aqa (v_bar v))) + 1\<rparr>)\<rparr>))))"

definition proc_asq :: "host_queues \<Rightarrow> bool \<Rightarrow> nvmev_dev \<Rightarrow> nvmev_dev option" where
  "proc_asq Q kmalloc_ok v =
     (case v_admin_q v of
        None \<Rightarrow> Some v
      | Some q \<Rightarrow>
          if \<not> kmalloc_ok then None
          else Some (reset_db 0 (v\<lparr>v_old_bar := (v_old_bar v)\<lparr>u_asq := u_asq (v_bar v)\<rparr>,
            v_admin_q := Some (q\<lparr>aq_sq_depth := int (asqs (u_aqa (v_bar v))) + 1,
              aq_sq_pages := DIV_ROUND_UP ((asqs (u_aqa (v_bar v)) + 1) * 64) PAGE_SIZE,
              aq_sq_mem := hq_sq Q (page_base (u_asq (v_bar v)))\<rparr>)\<rparr>)))"

definition proc_acq :: "host_queues \<Rightarrow> bool \<Rightarrow> nvmev_dev \<Rightarrow> nvmev_dev option" where
  "proc_acq Q kmalloc_ok v =
     (case v_admin_q v of
        None \<Rightarrow> Some v
      | Some q \<Rightarrow>
          if \<not> kmalloc_ok then None
          else Some (reset_db 1 (v\<lparr>v_old_bar := (v_old_bar v)\<lparr>u_acq := u_acq (v_bar v)\<rparr>,
            v_admin_q := Some (q\<lparr>aq_cq_depth := int (acqs (u_aqa (v_bar v))) + 1,
              aq_cq_pages := DIV_ROUND_UP ((acqs (u_aqa (v_bar v)) + 1) * 16) PAGE_SIZE, aq_cq_head := 0,
              aq_cq_mem := hq_cq Q (page_base (u_acq (v_bar v)))\<rparr>)\<rparr>)))"

definition proc_cc :: "nvmev_dev \<Rightarrow> nvmev_dev option" where
  "proc_cc v =
     (let cc = u_cc (v_bar v);
          csts = u_csts (v_bar v);
          csts = (if cc_en cc then if v_admin_q v \<noteq> None then set_rdy True csts else csts else set_rdy False csts) in
      if cc_shn cc = 1 then
        (case v_admin_q v of
           None \<Rightarrow> None
         | Some q \<Rightarrow> Some (reset_db 1 (reset_db 0 (v\<lparr>v_bar := (v_bar v)\<lparr>u_csts := set_shst 2 csts\<rparr>,
             v_old_bar := (v_old_bar v)\<lparr>u_cc := cc\<rparr>, v_admin_q := Some (q\<lparr>aq_cq_head := 0\<rparr>)\<rparr>))))
      else Some (v\<lparr>v_bar := (v_bar v)\<lparr>u_csts := csts\<rparr>, v_old_bar := (v_old_bar v)\<lparr>u_cc := cc\<rparr>\<rparr>))"

definition nvmev_proc_bars :: "host_queues \<Rightarrow> bool \<Rightarrow> nvmev_dev \<Rightarrow> (bool \<times> nvmev_dev) option" where
  "nvmev_proc_bars Q kmalloc_ok v =
     (if u_aqa (v_old_bar v) \<noteq> u_aqa (v_bar v) then map_option (Pair True) (proc_aqa kmalloc_ok v)
      else if u_asq (v_old_bar v) \<noteq> u_asq (v_bar v) then map_option (Pair True) (proc_asq Q kmalloc_ok v)
      else if u_acq (v_old_bar v) \<noteq> u_acq (v_bar v) then map_option (Pair True) (proc_acq Q kmalloc_ok v)
      else if u_cc (v_old_bar v) \<noteq> u_cc (v_bar v) then map_option (Pair True) (proc_cc v)
      else Some (False, v))"

section \<open>The admin queue\<close>

definition sq_entry :: "int \<Rightarrow> nvmev_admin_queue \<Rightarrow> nvme_command option" where
  "sq_entry eid q = (if 0 \<le> eid \<and> nat eid div NR_SQE_PER_PAGE < aq_sq_pages q then Some (aq_sq_mem q eid) else None)"

definition aq_post :: "nvme_completion \<Rightarrow> nvmev_admin_queue \<Rightarrow> nvmev_admin_queue" where
  "aq_post e q =
     (let h = aq_cq_head q;
          q = q\<lparr>aq_cq_mem := (aq_cq_mem q)(h := e)\<rparr> in
      if h + 1 = aq_cq_depth q then q\<lparr>aq_cq_head := 0, aq_phase := (if aq_phase q = 0 then 1 else 0)\<rparr>
      else q\<lparr>aq_cq_head := h + 1\<rparr>)"

definition cqe_of_admin :: "int \<Rightarrow> nvme_command \<Rightarrow> u16 \<Rightarrow> u32 \<Rightarrow> u32 \<Rightarrow> nvmev_admin_queue \<Rightarrow> nvme_completion" where
  "cqe_of_admin eid cmd ret result0 result1 q =
     \<lparr>e_result0 = result0, e_result1 = result1, e_sq_head = word_of_int eid, e_sq_id = 0, e_command_id = c_command_id cmd,
      e_status = word_of_int (aq_phase q) OR push_bit 1 ret\<rparr>"

definition make_cq_entry_results :: "int \<Rightarrow> u16 \<Rightarrow> u32 \<Rightarrow> u32 \<Rightarrow> nvmev_dev \<Rightarrow> nvmev_dev option" where
  "make_cq_entry_results eid ret result0 result1 v =
     do {
       q \<leftarrow> v_admin_q v;
       cmd \<leftarrow> sq_entry eid q;
       if 0 \<le> aq_cq_head q \<and> nat (aq_cq_head q) div NR_CQE_PER_PAGE < aq_cq_pages q
       then Some (v\<lparr>v_admin_q := Some (aq_post (cqe_of_admin eid cmd ret result0 result1 q) q)\<rparr>)
       else None
     }"

definition SC_SUCCESS :: u16 where "SC_SUCCESS = 0"
definition SC_INVALID_OPCODE :: u16 where "SC_INVALID_OPCODE = 1"

definition make_cq_entry :: "int \<Rightarrow> u16 \<Rightarrow> nvmev_dev \<Rightarrow> nvmev_dev option" where
  "make_cq_entry eid ret = make_cq_entry_results eid ret 0 0"

subsection \<open>Queue management\<close>

definition NVME_QUEUE_PHYS_CONTIG :: u16 where "NVME_QUEUE_PHYS_CONTIG = 1"
definition NVME_CQ_IRQ_ENABLED :: u16 where "NVME_CQ_IRQ_ENABLED = 2"

text \<open>The views \<^verbatim>\<open>struct nvme_create_cq\<close>, \<^verbatim>\<open>nvme_create_sq\<close> and \<^verbatim>\<open>nvme_delete_queue\<close>.\<close>

definition q_qid :: "nvme_command \<Rightarrow> nat" where "q_qid cmd = unat (ucast (c_cdw10 cmd) :: u16)"
definition q_qsize :: "nvme_command \<Rightarrow> nat" where "q_qsize cmd = unat (ucast (drop_bit 16 (c_cdw10 cmd)) :: u16)"
definition q_flags :: "nvme_command \<Rightarrow> u16" where "q_flags cmd = ucast (c_cdw11 cmd)"
definition q_vector :: "nvme_command \<Rightarrow> nat" where "q_vector cmd = unat (ucast (drop_bit 16 (c_cdw11 cmd)) :: u16)"

definition mk_cq :: "host_queues \<Rightarrow> nvme_command \<Rightarrow> nvmev_completion_queue" where
  "mk_cq Q cmd =
     (let irq = (q_flags cmd AND NVME_CQ_IRQ_ENABLED \<noteq> 0) in
      \<lparr>cq_qid = int (q_qid cmd), cq_irq_vector = (if irq then int (q_vector cmd) else 0), cq_irq_enabled = irq,
       cq_interrupt_ready = False, cq_phys_contig = (q_flags cmd AND NVME_QUEUE_PHYS_CONTIG \<noteq> 0),
       cq_queue_size = int (q_qsize cmd) + 1, cq_phase = 1, cq_head = 0, cq_tail = -1, cq_mem = hq_cq Q (c_prp1 cmd)\<rparr>)"

definition mk_sq :: "host_queues \<Rightarrow> nvme_command \<Rightarrow> nvmev_submission_queue" where
  "mk_sq Q cmd =
     \<lparr>sq_qid = int (q_qid cmd), sq_cqid = int (q_vector cmd), sq_priority = uint (q_flags cmd AND 0xFFFE),
      sq_phys_contig = (q_flags cmd AND NVME_QUEUE_PHYS_CONTIG \<noteq> 0), sq_queue_size = int (q_qsize cmd) + 1,
      sq_stat = \<lparr>nr_dispatched = 0, nr_dispatch = 0, nr_in_flight = 0, max_nr_in_flight = 0, total_io = 0\<rparr>,
      sq_mem = hq_sq Q (c_prp1 cmd)\<rparr>"

definition nvmev_admin_create_cq :: "host_queues \<Rightarrow> bool \<Rightarrow> int \<Rightarrow> nvme_command \<Rightarrow> nvmev_dev \<Rightarrow> nvmev_dev option" where
  "nvmev_admin_create_cq Q kmalloc_ok eid cmd v =
     (if \<not> kmalloc_ok \<or> q_qid cmd > NR_MAX_IO_QUEUE then None
      else make_cq_entry eid SC_SUCCESS (reset_db (q_qid cmd * 2 + 1)
        (v\<lparr>v_io := (v_io v)\<lparr>cqes := (cqes (v_io v))(int (q_qid cmd) \<mapsto> mk_cq Q cmd)\<rparr>\<rparr>)))"

definition nvmev_admin_delete_cq :: "int \<Rightarrow> nvme_command \<Rightarrow> nvmev_dev \<Rightarrow> nvmev_dev option" where
  "nvmev_admin_delete_cq eid cmd v =
     (if q_qid cmd > NR_MAX_IO_QUEUE then None
      else make_cq_entry eid SC_SUCCESS (v\<lparr>v_io := (v_io v)\<lparr>cqes := (cqes (v_io v))(int (q_qid cmd) := None)\<rparr>\<rparr>))"

definition nvmev_admin_create_sq :: "host_queues \<Rightarrow> bool \<Rightarrow> int \<Rightarrow> nvme_command \<Rightarrow> nvmev_dev \<Rightarrow> nvmev_dev option" where
  "nvmev_admin_create_sq Q kmalloc_ok eid cmd v =
     (if \<not> kmalloc_ok \<or> q_qid cmd > NR_MAX_IO_QUEUE then None
      else make_cq_entry eid SC_SUCCESS (reset_db (q_qid cmd * 2)
        (v\<lparr>v_io := (v_io v)\<lparr>sqes := (sqes (v_io v))(int (q_qid cmd) \<mapsto> mk_sq Q cmd)\<rparr>\<rparr>)))"

definition nvmev_admin_delete_sq :: "int \<Rightarrow> nvme_command \<Rightarrow> nvmev_dev \<Rightarrow> nvmev_dev option" where
  "nvmev_admin_delete_sq eid cmd v =
     (if q_qid cmd > NR_MAX_IO_QUEUE then None
      else make_cq_entry eid SC_SUCCESS (v\<lparr>v_io := (v_io v)\<lparr>sqes := (sqes (v_io v))(int (q_qid cmd) := None)\<rparr>\<rparr>))"

subsection \<open>Log pages\<close>

text \<open>Writing a structure into a page of the host: \<open>n\<close> bytes, zero where no field is given.\<close>

definition poke :: "nat \<Rightarrow> u8 list \<Rightarrow> bytes \<Rightarrow> bytes" where
  "poke a bs m = scatter m [a..<a + length bs] bs"

definition memset0 :: "nat \<Rightarrow> nat \<Rightarrow> bytes \<Rightarrow> bytes" where
  "memset0 a n = poke a (replicate n 0)"

definition le16 :: "u16 \<Rightarrow> u8 list" where "le16 w = [ucast w, ucast (drop_bit 8 w)]"
definition le32 :: "u32 \<Rightarrow> u8 list" where "le32 w = le16 (ucast w) @ le16 (ucast (drop_bit 16 w))"
definition le64 :: "u64 \<Rightarrow> u8 list" where "le64 w = le32 (ucast w) @ le32 (ucast (drop_bit 32 w))"

definition NVME_LOG_SMART :: u8 where "NVME_LOG_SMART = 0x02"
definition NVME_LOG_CMD_EFFECTS :: u8 where "NVME_LOG_CMD_EFFECTS = 0x05"

definition smart_log :: "u8 list" where
  "smart_log = (replicate 512 0)[4 := 20]"

text \<open>
  The supported commands; the zoned commands are in it when the build supports them. \<^verbatim>\<open>CSUPP\<close> is bit 0, \<^verbatim>\<open>LBCC\<close> bit 1.
\<close>

definition effects_acs :: "nat \<Rightarrow> u32" where
  "effects_acs op = (if op \<in> {0x02, 0x06, 0x09, 0x0a, 0x0c} then 1 else 0)"

definition effects_iocs :: "bool \<Rightarrow> nat \<Rightarrow> u32" where
  "effects_iocs zns op = (if zns \<and> op \<in> {0x7a, 0x7d} then 1 else if zns \<and> op = 0x79 then 3 else 0)"

definition effects_log :: "bool \<Rightarrow> u8 list" where
  "effects_log zns = concat (map (le32 \<circ> effects_acs) [0..<256]) @ concat (map (le32 \<circ> effects_iocs zns) [0..<256]) @ replicate 2048 0"

definition log_lid :: "nvme_command \<Rightarrow> u8" where "log_lid cmd = ucast (c_cdw10 cmd)"

definition log_len :: "nvme_command \<Rightarrow> u32" where
  "log_len cmd = push_bit 2 ((push_bit 16 (ucast (ucast (c_cdw11 cmd) :: u16)) OR ucast (ucast (drop_bit 16 (c_cdw10 cmd)) :: u16)) + 1)"

definition nvmev_admin_get_log_page :: "bool \<Rightarrow> int \<Rightarrow> nvme_command \<Rightarrow> nvmev_dev \<Rightarrow> nvmev_dev option" where
  "nvmev_admin_get_log_page zns eid cmd v =
     (let page = unat (c_prp1 cmd);
          len = unat (log_len cmd) in
      do {
        log \<leftarrow> (if log_lid cmd = NVME_LOG_SMART then if len \<le> length smart_log then Some (take len smart_log) else None
               else if log_lid cmd = NVME_LOG_CMD_EFFECTS then
                 if len \<le> length (effects_log zns) then Some (take len (effects_log zns)) else None
               else Some (replicate len 0));
        make_cq_entry eid SC_SUCCESS (v\<lparr>v_mem := poke page log (v_mem v)\<rparr>)
      })"

subsection \<open>Identify\<close>

definition id_nsid :: "nvme_command \<Rightarrow> nat" where "id_nsid cmd = unat (c_nsid cmd - 1)"

definition get_ns :: "nvmev_dev \<Rightarrow> nvme_command \<Rightarrow> nvmev_ns option" where
  "get_ns v cmd = (if id_nsid cmd < length (v_ns v) then Some (v_ns v ! id_nsid cmd) else None)"

definition lbaf :: "u16 \<Rightarrow> u8 \<Rightarrow> u8 \<Rightarrow> u8 list" where
  "lbaf ms ds rp = le16 ms @ [ds, rp]"

definition NVME_LBAF_RP_BEST :: u8 where "NVME_LBAF_RP_BEST = 0"
definition NVME_LBAF_RP_GOOD :: u8 where "NVME_LBAF_RP_GOOD = 2"

definition id_ns_formats :: "u8 list" where
  "id_ns_formats = lbaf 0 9 NVME_LBAF_RP_GOOD @ lbaf 8 9 NVME_LBAF_RP_GOOD @ lbaf 16 9 NVME_LBAF_RP_GOOD @
     lbaf 0 12 NVME_LBAF_RP_BEST @ lbaf 8 12 NVME_LBAF_RP_BEST @ lbaf 64 12 NVME_LBAF_RP_BEST @ lbaf 128 12 NVME_LBAF_RP_BEST"

definition nvmev_admin_identify_namespace :: "nat \<Rightarrow> int \<Rightarrow> nvme_command \<Rightarrow> nvmev_dev \<Rightarrow> nvmev_dev option" where
  "nvmev_admin_identify_namespace lba eid cmd v =
     do {
       ns \<leftarrow> get_ns v cmd;
       flbas \<leftarrow> (if lba = 9 then Some 0 else if lba = 12 then Some 3 else None);
       let a = unat (c_prp1 cmd);
       let ds = (if flbas = 0 then 9 else 12);
       let nsze = le64 (drop_bit ds (ns_size ns));
       let m = poke (a + 128) id_ns_formats (memset0 a PAGE_SIZE (v_mem v));
       let m = poke a (nsze @ nsze @ nsze) (poke (a + 25) [6] (poke (a + 26) [flbas] m));
       make_cq_entry eid SC_SUCCESS (v\<lparr>v_mem := m\<rparr>)
     }"

definition nvmev_admin_identify_namespaces :: "int \<Rightarrow> nvme_command \<Rightarrow> nvmev_dev \<Rightarrow> nvmev_dev option" where
  "nvmev_admin_identify_namespaces eid cmd v =
     (let a = unat (c_prp1 cmd);
          ids = filter (\<lambda>i. i > unat (c_nsid cmd)) [1..<length (v_ns v) + 1] in
      make_cq_entry eid SC_SUCCESS
        (v\<lparr>v_mem := poke a (concat (map (le32 \<circ> of_nat) ids)) (memset0 a (PAGE_SIZE * 2) (v_mem v))\<rparr>))"

definition NVME_NIDT_CSI :: u8 where "NVME_NIDT_CSI = 4"
definition NVME_CSI_ZNS :: u32 where "NVME_CSI_ZNS = 2"

definition nvmev_admin_identify_namespace_desc :: "int \<Rightarrow> nvme_command \<Rightarrow> nvmev_dev \<Rightarrow> nvmev_dev option" where
  "nvmev_admin_identify_namespace_desc eid cmd v =
     do {
       ns \<leftarrow> get_ns v cmd;
       let a = unat (c_prp1 cmd);
       make_cq_entry eid SC_SUCCESS
         (v\<lparr>v_mem := poke a [NVME_NIDT_CSI, 1, 0, 0, ucast (ns_csi ns)] (memset0 a 4096 (v_mem v))\<rparr>)
     }"

text \<open>\<^verbatim>\<open>struct nvme_id_zns_ns\<close>: the formats start at byte 2816.\<close>

definition nvmev_admin_identify_zns_namespace :: "nat \<Rightarrow> int \<Rightarrow> nvme_command \<Rightarrow> nvmev_dev \<Rightarrow> nvmev_dev option" where
  "nvmev_admin_identify_zns_namespace lba eid cmd v =
     do {
       ns \<leftarrow> get_ns v cmd;
       if ns_type ns \<noteq> SSD_TYPE_ZNS then make_cq_entry eid SC_SUCCESS v
       else if ns_csi ns \<noteq> NVME_CSI_ZNS then None
       else
         let a = unat (c_prp1 cmd); zp = ns_zp ns;
             m = memset0 a 4096 (v_mem v);
             m = poke (a + 4) (le32 (of_nat (nr_active_zones zp) - 1) @ le32 (of_nat (nr_open_zones zp) - 1)) m;
             m = (if nr_zrwa_zones zp > 0
                  then poke (a + 2) (le16 2) (poke (a + 44) (le32 (of_nat (nr_zrwa_zones zp) - 1) @ le16 (of_nat (zrwafg_size zp)) @
                    le16 (of_nat (zrwa_size zp)) @ [1]) m)
                  else m);
             m = poke (a + 2816) (le64 (drop_bit lba (of_nat (zone_size zp)))) m in
         make_cq_entry eid SC_SUCCESS (v\<lparr>v_mem := m\<rparr>)
     }"

definition nvmev_admin_identify_zns_ctrl :: "int \<Rightarrow> nvme_command \<Rightarrow> nvmev_dev \<Rightarrow> nvmev_dev option" where
  "nvmev_admin_identify_zns_ctrl eid cmd v =
     make_cq_entry eid SC_SUCCESS (v\<lparr>v_mem := poke (unat (c_prp1 cmd)) [0] (v_mem v)\<rparr>)"

text \<open>\<^verbatim>\<open>snprintf\<close> of a prefix and the number of the device in two digits, which \<^verbatim>\<open>VIRT_ID\<close> (below 24) has.\<close>

definition id_string :: "string \<Rightarrow> nat \<Rightarrow> u8 list" where
  "id_string prefix n = map of_char prefix @ [of_nat (48 + n div 10 mod 10), of_nat (48 + n mod 10)]"

definition nvmev_admin_identify_ctrl :: "nat \<Rightarrow> int \<Rightarrow> nvme_command \<Rightarrow> nvmev_dev \<Rightarrow> nvmev_dev option" where
  "nvmev_admin_identify_ctrl VIRT_ID eid cmd v =
     (let a = unat (c_prp1 cmd);
          m = memset0 a 4096 (v_mem v);
          m = poke (a + 516) (le32 (of_nat (length (v_ns v)))) (poke (a + 258) [3] m);
          m = poke (a + 4) (id_string ''CSL_Virt_SN_'' VIRT_ID) (poke (a + 24) (id_string ''CSL_Virt_MN_'' VIRT_ID) m);
          m = poke (a + 64) (id_string ''CSL_0'' 2) (poke (a + 77) [ucast (v_mdts v)] m);
          m = poke (a + 512) [0x66, 0x44] m in
      make_cq_entry eid SC_SUCCESS (v\<lparr>v_mem := m\<rparr>))"

record build =
  b_lba_bits :: nat
  b_virt_id :: nat
  b_zns :: bool

definition nvmev_admin_identify :: "build \<Rightarrow> int \<Rightarrow> nvme_command \<Rightarrow> nvmev_dev \<Rightarrow> nvmev_dev option" where
  "nvmev_admin_identify B eid cmd =
     (let cns = c_cdw10 cmd in
      if cns = 0x00 then nvmev_admin_identify_namespace (b_lba_bits B) eid cmd
      else if cns = 0x01 then nvmev_admin_identify_ctrl (b_virt_id B) eid cmd
      else if cns = 0x02 then nvmev_admin_identify_namespaces eid cmd
      else if cns = 0x03 then nvmev_admin_identify_namespace_desc eid cmd
      else if cns = 0x05 then nvmev_admin_identify_zns_namespace (b_lba_bits B) eid cmd
      else if cns = 0x06 then nvmev_admin_identify_zns_ctrl eid cmd
      else make_cq_entry eid SC_INVALID_OPCODE)"

subsection \<open>Features\<close>

definition NVME_FEAT_NUM_QUEUES :: u32 where "NVME_FEAT_NUM_QUEUES = 0x07"

definition num_queues :: "nvmev_dev \<Rightarrow> u32" where
  "num_queues v = push_bit 16 (of_nat (nr_cq (v_io v)) - 1) OR (of_nat (v_nr_sq v) - 1)"

definition nvmev_admin_set_features :: "int \<Rightarrow> nvme_command \<Rightarrow> nvmev_dev \<Rightarrow> nvmev_dev option" where
  "nvmev_admin_set_features eid cmd v =
     (if c_cdw10 cmd = NVME_FEAT_NUM_QUEUES then
        let v = v\<lparr>v_nr_sq := min (unat (c_cdw11 cmd AND 0xFFFF) + 1) NR_MAX_IO_QUEUE\<rparr>;
            v = v\<lparr>v_io := (v_io v)\<lparr>nr_cq := min (unat (drop_bit 16 (c_cdw11 cmd) AND 0xFFFF) + 1) NR_MAX_IO_QUEUE\<rparr>\<rparr> in
        make_cq_entry_results eid SC_SUCCESS (num_queues v) 0 v
      else make_cq_entry_results eid SC_SUCCESS 0 0 v)"

definition nvmev_admin_get_features :: "int \<Rightarrow> nvme_command \<Rightarrow> nvmev_dev \<Rightarrow> nvmev_dev option" where
  "nvmev_admin_get_features eid cmd v =
     make_cq_entry_results eid SC_SUCCESS (if c_cdw10 cmd = NVME_FEAT_NUM_QUEUES then num_queues v else 0) 0 v"

definition nvmev_admin_async_event :: "int \<Rightarrow> nvmev_dev \<Rightarrow> nvmev_dev option" where
  "nvmev_admin_async_event eid = make_cq_entry eid SC_SUCCESS"

subsection \<open>Dispatch\<close>

definition nvmev_proc_admin_req :: "build \<Rightarrow> host_queues \<Rightarrow> bool \<Rightarrow> int \<Rightarrow> nvmev_dev \<Rightarrow> nvmev_dev option" where
  "nvmev_proc_admin_req B Q kmalloc_ok eid v =
     do {
       q \<leftarrow> v_admin_q v;
       cmd \<leftarrow> sq_entry eid q;
       let opcode = c_opcode cmd;
       if opcode = 0x00 then nvmev_admin_delete_sq eid cmd v
       else if opcode = 0x01 then nvmev_admin_create_sq Q kmalloc_ok eid cmd v
       else if opcode = 0x02 then nvmev_admin_get_log_page (b_zns B) eid cmd v
       else if opcode = 0x04 then nvmev_admin_delete_cq eid cmd v
       else if opcode = 0x05 then nvmev_admin_create_cq Q kmalloc_ok eid cmd v
       else if opcode = 0x06 then nvmev_admin_identify B eid cmd v
       else if opcode = 0x08 then Some v
       else if opcode = 0x09 then nvmev_admin_set_features eid cmd v
       else if opcode = 0x0a then nvmev_admin_get_features eid cmd v
       else if opcode = 0x0c then nvmev_admin_async_event eid v
       else make_cq_entry eid SC_INVALID_OPCODE v
     }"

fun admin_loop :: "build \<Rightarrow> host_queues \<Rightarrow> bool \<Rightarrow> int \<Rightarrow> nat \<Rightarrow> nvmev_dev \<Rightarrow> nvmev_dev option" where
  "admin_loop B Q kmalloc_ok cur 0 v = Some v"
| "admin_loop B Q kmalloc_ok cur (Suc n) v =
     do {
       v \<leftarrow> nvmev_proc_admin_req B Q kmalloc_ok cur v;
       q \<leftarrow> v_admin_q v;
       admin_loop B Q kmalloc_ok (if cur + 1 = aq_sq_depth q then 0 else cur + 1) n v
     }"

definition nvmev_proc_admin_sq :: "build \<Rightarrow> host_queues \<Rightarrow> bool \<Rightarrow> int \<Rightarrow> int \<Rightarrow> nvmev_dev \<Rightarrow> nvmev_dev option" where
  "nvmev_proc_admin_sq B Q kmalloc_ok new_db old_db v =
     do {
       q \<leftarrow> v_admin_q v;
       let num_proc = new_db - old_db;
       let num_proc = (if num_proc < 0 then num_proc + aq_sq_depth q else num_proc);
       v \<leftarrow> admin_loop B Q kmalloc_ok old_db (nat num_proc) v;
       Some (v\<lparr>v_io := (v_io v)\<lparr>irqs := irqs (v_io v) @ [0]\<rparr>\<rparr>)
     }"

section \<open>The dispatcher\<close>

text \<open>
  \<^verbatim>\<open>nvmev_proc_dbs\<close>: the doorbells of the admin queue, of the submission queues and of the completion queues. The
  handler of the namespaces is the argument \<open>proc\<close>; \<open>clk qid n\<close> is the clock at the \<open>n\<close>-th command of a queue.
\<close>

definition proc_admin_dbs :: "build \<Rightarrow> host_queues \<Rightarrow> bool \<Rightarrow> nvmev_dev \<Rightarrow> (bool \<times> nvmev_dev) option" where
  "proc_admin_dbs B Q kmalloc_ok v =
     do {
       let new_db = v_dbs v 0;
       (upd, v) \<leftarrow> (if new_db \<noteq> v_old_dbs v 0
         then map_option (\<lambda>v. (True, v\<lparr>v_old_dbs := (v_old_dbs v)(0 := new_db)\<rparr>))
           (nvmev_proc_admin_sq B Q kmalloc_ok (sint new_db) (sint (v_old_dbs v 0)) v)
         else Some (False, v));
       if v_dbs v 1 \<noteq> v_old_dbs v 1
       then Some (True, v\<lparr>v_old_dbs := (v_old_dbs v)(1 := v_dbs v 1)\<rparr>)
       else Some (upd, v)
     }"

definition proc_sq_db :: "proc_io_cmd \<Rightarrow> nat \<Rightarrow> (nat \<Rightarrow> nat \<Rightarrow> u64) \<Rightarrow> nat \<Rightarrow> bool \<times> nvmev_dev \<Rightarrow> (bool \<times> nvmev_dev) option" where
  "proc_sq_db proc lba clk qid w =
     (let v = snd w; i = qid * 2 in
      if sqes (v_io v) (int qid) = None \<or> v_dbs v i = v_old_dbs v i then Some w
      else do {
        (db, io) \<leftarrow> nvmev_proc_io_sq proc lba (clk qid) (int qid) (sint (v_dbs v i)) (sint (v_old_dbs v i)) (v_io v);
        Some (True, v\<lparr>v_io := io, v_old_dbs := (v_old_dbs v)(i := word_of_int db)\<rparr>)
      })"

definition proc_cq_db :: "nat \<Rightarrow> bool \<times> nvmev_dev \<Rightarrow> (bool \<times> nvmev_dev) option" where
  "proc_cq_db qid w =
     (let v = snd w; i = qid * 2 + 1 in
      if cqes (v_io v) (int qid) = None \<or> v_dbs v i = v_old_dbs v i then Some w
      else do {
        io \<leftarrow> nvmev_proc_io_cq (int qid) (sint (v_dbs v i)) (sint (v_old_dbs v i)) (v_io v);
        Some (True, v\<lparr>v_io := io, v_old_dbs := (v_old_dbs v)(i := v_dbs v i)\<rparr>)
      })"

fun each :: "('a \<Rightarrow> 's \<Rightarrow> 's option) \<Rightarrow> 'a list \<Rightarrow> 's \<Rightarrow> 's option" where
  "each f [] s = Some s"
| "each f (x # xs) s = f x s \<bind> each f xs"

definition nvmev_proc_dbs ::
  "build \<Rightarrow> host_queues \<Rightarrow> bool \<Rightarrow> proc_io_cmd \<Rightarrow> (nat \<Rightarrow> nat \<Rightarrow> u64) \<Rightarrow> nvmev_dev \<Rightarrow> (bool \<times> nvmev_dev) option" where
  "nvmev_proc_dbs B Q kmalloc_ok proc clk v =
     do {
       w \<leftarrow> proc_admin_dbs B Q kmalloc_ok v;
       w \<leftarrow> each (proc_sq_db proc (b_lba_bits B) clk) [1..<v_nr_sq (snd w) + 1] w;
       each proc_cq_db [1..<nr_cq (v_io (snd w)) + 1] w
     }"

text \<open>One round of \<^verbatim>\<open>nvmev_dispatcher\<close>.\<close>

definition dispatcher_round ::
  "build \<Rightarrow> host_queues \<Rightarrow> bool \<Rightarrow> proc_io_cmd \<Rightarrow> (nat \<Rightarrow> nat \<Rightarrow> u64) \<Rightarrow> nvmev_dev \<Rightarrow> (bool \<times> nvmev_dev) option" where
  "dispatcher_round B Q kmalloc_ok proc clk v =
     do {
       (b, v) \<leftarrow> nvmev_proc_bars Q kmalloc_ok v;
       (d, v) \<leftarrow> nvmev_proc_dbs B Q kmalloc_ok proc clk v;
       Some (b \<or> d, v)
     }"

section \<open>Namespaces\<close>

text \<open>
  \<^verbatim>\<open>NVMEV_NAMESPACE_INIT\<close>: the size and the start of the storage that the set-up function of each namespace gets. A capacity of 0
  asks for all that is left.
\<close>

fun namespace_init :: "(ssd_type \<times> u64) list \<Rightarrow> u64 \<Rightarrow> nat \<Rightarrow> (ssd_type \<times> u64 \<times> nat) list" where
  "namespace_init [] remaining_capacity ns_addr = []"
| "namespace_init ((t, cap) # cs) remaining_capacity ns_addr =
     (let sz = (if cap = 0 then remaining_capacity else min cap remaining_capacity) in
      (t, sz, ns_addr) # namespace_init cs (remaining_capacity - sz) (ns_addr + unat sz))"

section \<open>Configuration space\<close>

record pci_cfg =
  virtDev :: bytes
  intx_disabled :: bool
  msix_enabled :: bool
  has_pdev :: bool

definition cfg_read :: "nat \<Rightarrow> nat \<Rightarrow> bytes \<Rightarrow> u32" where
  "cfg_read a n m = of_nat (horner_sum unat 256 (map m [a..<a + n]))"

definition OFFS_PCI_PM_CAP :: nat where "OFFS_PCI_PM_CAP = 0x40"
definition OFFS_PCI_MSIX_CAP :: nat where "OFFS_PCI_MSIX_CAP = 0x50"
definition OFFS_PCIE_CAP :: nat where "OFFS_PCIE_CAP = 0x60"

text \<open>The bits of a register that the host can write.\<close>

definition pci_mask :: "nat \<Rightarrow> u32" where
  "pci_mask addr =
     (if addr < OFFS_PCI_PM_CAP then
        (if addr = 0x04 then 0x400 else if addr = 0x06 then 0xF200 else if addr = 0x0f then 0x40
         else if addr = 0x10 then 0xFFFFC000 else if addr = 0x3c then 0xFF else 0)
      else if addr < OFFS_PCI_MSIX_CAP then -1
      else if addr < OFFS_PCIE_CAP then if addr = OFFS_PCI_MSIX_CAP + 2 then 0xC000 else 0
      else -1)"

definition nvmev_pci_read :: "nat \<Rightarrow> nat \<Rightarrow> nat \<Rightarrow> pci_cfg \<Rightarrow> u32 option" where
  "nvmev_pci_read devfn addr n p = (if devfn \<noteq> 0 then None else Some (cfg_read addr n (virtDev p)))"

text \<open>
  A write of one, two or four bytes. A change of the interrupt-disable bit of the command register is recorded and, when interrupts are
  enabled, clears the status bit (bit 3 of byte 6) before the register is written back.
\<close>

definition nvmev_pci_write :: "nat \<Rightarrow> nat \<Rightarrow> u32 \<Rightarrow> pci_cfg \<Rightarrow> pci_cfg" where
  "nvmev_pci_write addr n new p =
     (let val = cfg_read addr n (virtDev p);
          chg = val XOR new;
          p = (if addr = 0x04 \<and> chg AND 0x400 \<noteq> 0
               then p\<lparr>intx_disabled := (new AND 0x400 \<noteq> 0),
                      virtDev := (if new AND 0x400 \<noteq> 0 then virtDev p else (virtDev p)(6 := virtDev p 6 AND NOT 8))\<rparr>
               else if addr = OFFS_PCI_MSIX_CAP + 2 \<and> has_pdev p \<and> chg AND 0x8000 \<noteq> 0
               then p\<lparr>msix_enabled := (new AND 0x8000 \<noteq> 0)\<rparr>
               else p);
          val = (val AND NOT (pci_mask addr)) OR (new AND pci_mask addr) in
      p\<lparr>virtDev := poke addr (take n (le32 val)) (virtDev p)\<rparr>)"

end
