(* ===== verification/Ctrl_Runs.thy ===== *)
theory Ctrl_Runs
  imports Controller
begin

text \<open>
  What the controller does for the host's driver: it settles after every change of the registers, with an admin queue as the
  registers describe it, and each admin command is completed once, in order, in the slots and with the phase the
  driver expects. Further lemmas: the number of queues, idle rounds of the dispatcher, namespaces within the storage.
\<close>

unbundle bit_operations_syntax

section \<open>Registers\<close>

text \<open>Passes of the dispatcher over the registers while the host waits.\<close>

fun bars_run :: "host_queues \<Rightarrow> nat \<Rightarrow> nvmev_dev \<Rightarrow> nvmev_dev option" where
  "bars_run Q 0 v = Some v"
| "bars_run Q (Suc n) v = nvmev_proc_bars Q True v \<bind> (\<lambda>(_, v). bars_run Q n v)"

lemma bars_run_add: "bars_run Q m v = Some v1 \<Longrightarrow> bars_run Q (m + n) v = bars_run Q n v1"
  by (induction m arbitrary: v) (auto split: Option.bind_splits)

text \<open>The handling of one register, when it changed; \<open>x\<close> selects the register.\<close>

definition handled :: "(nvme_ctrl_regs \<Rightarrow> 'x) \<Rightarrow> (nvmev_dev \<Rightarrow> nvmev_dev option) \<Rightarrow> nvmev_dev \<Rightarrow> nvmev_dev" where
  "handled x f v = (if x (v_old_bar v) \<noteq> x (v_bar v) then the (f v) else v)"

definition settled_regs :: "host_queues \<Rightarrow> nvmev_dev \<Rightarrow> nvmev_dev" where
  "settled_regs Q v = handled u_cc proc_cc (handled u_acq (proc_acq Q True) (handled u_asq (proc_asq Q True) (handled u_aqa (proc_aqa True) v)))"

lemmas reg_defs = handled_def proc_aqa_def proc_asq_def proc_acq_def proc_cc_def reset_db_def Let_def

lemma pass_one:
  assumes "x (v_old_bar v) \<noteq> x (v_bar v) \<Longrightarrow> nvmev_proc_bars Q True v = Some (True, the (f v))"
  shows "\<exists>n \<le> 1. bars_run Q n v = Some (handled x f v)"
proof (cases "x (v_old_bar v) = x (v_bar v)")
  case True
  then show ?thesis by (intro exI [of _ 0]) (simp add: handled_def)
next
  case False
  then show ?thesis using assms by (intro exI [of _ 1]) (auto simp: handled_def)
qed

text \<open>Each register in turn: what was handled before is in step and the admin queue exists.\<close>

lemma settled_stages:
  fixes v :: nvmev_dev and Q :: host_queues
  assumes "v_admin_q v \<noteq> None \<or> u_aqa (v_old_bar v) \<noteq> u_aqa (v_bar v)"
  defines "v1 \<equiv> handled u_aqa (proc_aqa True) v"
  defines "v2 \<equiv> handled u_asq (proc_asq Q True) v1"
  defines "v3 \<equiv> handled u_acq (proc_acq Q True) v2"
  shows "v_admin_q v1 \<noteq> None" "v_admin_q v2 \<noteq> None" "v_admin_q v3 \<noteq> None"
    "u_aqa (v_old_bar v1) = u_aqa (v_bar v1)"
    "u_aqa (v_old_bar v2) = u_aqa (v_bar v2)" "u_asq (v_old_bar v2) = u_asq (v_bar v2)"
    "u_aqa (v_old_bar v3) = u_aqa (v_bar v3)" "u_asq (v_old_bar v3) = u_asq (v_bar v3)" "u_acq (v_old_bar v3) = u_acq (v_bar v3)"
proof -
  show a1: "v_admin_q v1 \<noteq> None" and b1: "u_aqa (v_old_bar v1) = u_aqa (v_bar v1)"
    using assms(1) by (auto simp: v1_def reg_defs split: option.splits)
  show a2: "v_admin_q v2 \<noteq> None" and b2: "u_aqa (v_old_bar v2) = u_aqa (v_bar v2)" and c2: "u_asq (v_old_bar v2) = u_asq (v_bar v2)"
    using a1 b1 by (auto simp: v2_def reg_defs)
  show "v_admin_q v3 \<noteq> None" "u_aqa (v_old_bar v3) = u_aqa (v_bar v3)" "u_asq (v_old_bar v3) = u_asq (v_bar v3)"
    "u_acq (v_old_bar v3) = u_acq (v_bar v3)"
    using a2 b2 c2 by (auto simp: v3_def reg_defs)
qed

lemma bars_run_settled:
  assumes "v_admin_q v \<noteq> None \<or> u_aqa (v_old_bar v) \<noteq> u_aqa (v_bar v)"
  shows "\<exists>n \<le> 4. bars_run Q n v = Some (settled_regs Q v)"
proof -
  define v1 where "v1 = handled u_aqa (proc_aqa True) v"
  define v2 where "v2 = handled u_asq (proc_asq Q True) v1"
  define v3 where "v3 = handled u_acq (proc_acq Q True) v2"
  note st = settled_stages(1,4) [OF assms, folded v1_def]
    settled_stages(2,3,5-9) [OF assms, of Q, folded v1_def, folded v2_def, folded v3_def]
  obtain n1 where n1: "n1 \<le> 1" "bars_run Q n1 v = Some v1"
    using pass_one [of u_aqa v Q "proc_aqa True"] by (auto simp: v1_def nvmev_proc_bars_def proc_aqa_def split: option.splits)
  obtain n2 where n2: "n2 \<le> 1" "bars_run Q n2 v1 = Some v2"
    using pass_one [of u_asq v1 Q "proc_asq Q True"] st(1,2) by (auto simp: v2_def nvmev_proc_bars_def proc_asq_def)
  obtain n3 where n3: "n3 \<le> 1" "bars_run Q n3 v2 = Some v3"
    using pass_one [of u_acq v2 Q "proc_acq Q True"] st(3,5,6) by (auto simp: v3_def nvmev_proc_bars_def proc_acq_def)
  obtain n4 where n4: "n4 \<le> 1" "bars_run Q n4 v3 = Some (handled u_cc proc_cc v3)"
    using pass_one [of u_cc v3 Q proc_cc] st(4,7-9) by (auto simp: nvmev_proc_bars_def proc_cc_def Let_def)
  have "bars_run Q (n1 + (n2 + (n3 + n4))) v = Some (settled_regs Q v)"
    using n1(2) n2(2) n3(2) n4(2) by (simp add: bars_run_add settled_regs_def v1_def v2_def v3_def)
  then show ?thesis using n1(1) n2(1) n3(1) n4(1) by (intro exI [of _ "n1 + (n2 + (n3 + n4))"]) simp
qed

lemma handled_cc_idle:
  assumes "v_admin_q v \<noteq> None" "u_aqa (v_old_bar v) = u_aqa (v_bar v)" "u_asq (v_old_bar v) = u_asq (v_bar v)"
    "u_acq (v_old_bar v) = u_acq (v_bar v)"
  shows "nvmev_proc_bars Q True (handled u_cc proc_cc v) = Some (False, handled u_cc proc_cc v)"
  using assms by (auto simp: nvmev_proc_bars_def reg_defs)

lemma settled_idle:
  assumes "v_admin_q v \<noteq> None \<or> u_aqa (v_old_bar v) \<noteq> u_aqa (v_bar v)"
  shows "nvmev_proc_bars Q True (settled_regs Q v) = Some (False, settled_regs Q v)"
  unfolding settled_regs_def by (rule handled_cc_idle) (rule settled_stages(3,7-9) [OF assms])+

text \<open>What each register leaves alone.\<close>

lemma handled_aqa_frame [simp]:
  "v_io (handled u_aqa (proc_aqa True) v) = v_io v" "v_ns (handled u_aqa (proc_aqa True) v) = v_ns v"
  "v_nr_sq (handled u_aqa (proc_aqa True) v) = v_nr_sq v" "v_mem (handled u_aqa (proc_aqa True) v) = v_mem v"
  "v_bar (handled u_aqa (proc_aqa True) v) = v_bar v"
  "u_asq (v_old_bar (handled u_aqa (proc_aqa True) v)) = u_asq (v_old_bar v)"
  "u_acq (v_old_bar (handled u_aqa (proc_aqa True) v)) = u_acq (v_old_bar v)"
  "u_cc (v_old_bar (handled u_aqa (proc_aqa True) v)) = u_cc (v_old_bar v)"
  by (simp_all add: reg_defs split: option.splits)

lemma handled_asq_frame [simp]:
  "v_io (handled u_asq (proc_asq Q True) v) = v_io v" "v_ns (handled u_asq (proc_asq Q True) v) = v_ns v"
  "v_nr_sq (handled u_asq (proc_asq Q True) v) = v_nr_sq v" "v_mem (handled u_asq (proc_asq Q True) v) = v_mem v"
  "v_bar (handled u_asq (proc_asq Q True) v) = v_bar v"
  "u_acq (v_old_bar (handled u_asq (proc_asq Q True) v)) = u_acq (v_old_bar v)"
  "u_cc (v_old_bar (handled u_asq (proc_asq Q True) v)) = u_cc (v_old_bar v)"
  by (simp_all add: reg_defs split: option.splits)

lemma handled_acq_frame [simp]:
  "v_io (handled u_acq (proc_acq Q True) v) = v_io v" "v_ns (handled u_acq (proc_acq Q True) v) = v_ns v"
  "v_nr_sq (handled u_acq (proc_acq Q True) v) = v_nr_sq v" "v_mem (handled u_acq (proc_acq Q True) v) = v_mem v"
  "v_bar (handled u_acq (proc_acq Q True) v) = v_bar v"
  "u_cc (v_old_bar (handled u_acq (proc_acq Q True) v)) = u_cc (v_old_bar v)"
  by (simp_all add: reg_defs split: option.splits)

lemma status_bits [simp]:
  "bit (set_rdy b csts) 0 \<longleftrightarrow> b" "bit (set_shst n csts) 0 \<longleftrightarrow> bit csts 0"
  by (simp_all add: set_rdy_def set_shst_def bit_simps)

lemma handled_cc:
  assumes "v_admin_q v = Some q"
  shows "v_io (handled u_cc proc_cc v) = v_io v" "v_ns (handled u_cc proc_cc v) = v_ns v"
    "v_nr_sq (handled u_cc proc_cc v) = v_nr_sq v" "v_mem (handled u_cc proc_cc v) = v_mem v"
    "v_bar (handled u_cc proc_cc v) = (v_bar v)\<lparr>u_csts := u_csts (v_bar (handled u_cc proc_cc v))\<rparr>"
    "u_cc (v_old_bar v) \<noteq> u_cc (v_bar v) \<Longrightarrow> bit (u_csts (v_bar (handled u_cc proc_cc v))) 0 \<longleftrightarrow> cc_en (u_cc (v_bar v))"
    "\<exists>h. v_admin_q (handled u_cc proc_cc v) = Some (q\<lparr>aq_cq_head := h\<rparr>) \<and> h \<in> {0, aq_cq_head q}"
    "v_dbs v i = 0 \<and> v_old_dbs v i = 0 \<Longrightarrow> v_dbs (handled u_cc proc_cc v) i = 0 \<and> v_old_dbs (handled u_cc proc_cc v) i = 0"
proof -
  show "v_io (handled u_cc proc_cc v) = v_io v" "v_ns (handled u_cc proc_cc v) = v_ns v"
    "v_nr_sq (handled u_cc proc_cc v) = v_nr_sq v" "v_mem (handled u_cc proc_cc v) = v_mem v"
    "v_bar (handled u_cc proc_cc v) = (v_bar v)\<lparr>u_csts := u_csts (v_bar (handled u_cc proc_cc v))\<rparr>"
    using assms by (simp_all add: reg_defs)
  show "bit (u_csts (v_bar (handled u_cc proc_cc v))) 0 \<longleftrightarrow> cc_en (u_cc (v_bar v))" if "u_cc (v_old_bar v) \<noteq> u_cc (v_bar v)"
    using assms that by (simp add: reg_defs)
  show "\<exists>h. v_admin_q (handled u_cc proc_cc v) = Some (q\<lparr>aq_cq_head := h\<rparr>) \<and> h \<in> {0, aq_cq_head q}"
  proof (cases "u_cc (v_old_bar v) \<noteq> u_cc (v_bar v) \<and> cc_shn (u_cc (v_bar v)) = 1")
    case True
    then show ?thesis using assms by (intro exI [of _ 0]) (simp add: reg_defs)
  next
    case False
    then show ?thesis using assms by (intro exI [of _ "aq_cq_head q"]) (auto simp: reg_defs)
  qed
  show "v_dbs (handled u_cc proc_cc v) i = 0 \<and> v_old_dbs (handled u_cc proc_cc v) i = 0" if "v_dbs v i = 0 \<and> v_old_dbs v i = 0"
    using assms that by (simp add: reg_defs)
qed

text \<open>An admin queue whose memory covers its depth.\<close>

definition queue_fits :: "nvmev_admin_queue \<Rightarrow> bool" where
  "queue_fits q \<longleftrightarrow> 0 < aq_sq_depth q \<and> aq_sq_depth q \<le> int (NR_SQE_PER_PAGE * aq_sq_pages q) \<and>
     0 \<le> aq_cq_head q \<and> aq_cq_head q < aq_cq_depth q \<and> aq_cq_depth q \<le> int (NR_CQE_PER_PAGE * aq_cq_pages q) \<and>
     aq_phase q \<in> {0, 1}"

text \<open>The admin queue that the registers describe.\<close>

definition configured :: "host_queues \<Rightarrow> nvme_ctrl_regs \<Rightarrow> nvmev_admin_queue \<Rightarrow> bool" where
  "configured Q r q \<longleftrightarrow> queue_fits q \<and> aq_sq_depth q = int (asqs (u_aqa r)) + 1 \<and> aq_cq_depth q = int (acqs (u_aqa r)) + 1 \<and>
     aq_cq_head q = 0 \<and> aq_phase q = 1 \<and> aq_sq_mem q = hq_sq Q (page_base (u_asq r)) \<and> aq_cq_mem q = hq_cq Q (page_base (u_acq r))"

lemma pages_cover: "m * k = 4096 \<Longrightarrow> int n + 1 \<le> int (m * DIV_ROUND_UP ((n + 1) * k) PAGE_SIZE)"
proof -
  assume mk: "m * k = 4096"
  have "(n + 1) * k \<le> DIV_ROUND_UP ((n + 1) * k) PAGE_SIZE * (m * k)"
    using DIV_ROUND_UP_mult [of PAGE_SIZE "(n + 1) * k"] by (simp add: mk PAGE_SIZE_def)
  moreover have "0 < k" using mk by (cases k) auto
  ultimately have "n + 1 \<le> DIV_ROUND_UP ((n + 1) * k) PAGE_SIZE * m"
    by (simp only: mult_le_cancel2 flip: mult.assoc)
  then have "int (n + 1) \<le> int (m * DIV_ROUND_UP ((n + 1) * k) PAGE_SIZE)" by (simp only: of_nat_le_iff mult.commute)
  then show ?thesis by simp
qed

lemma settled_queue:
  assumes "u_aqa (v_old_bar v) \<noteq> u_aqa (v_bar v)" "u_asq (v_old_bar v) \<noteq> u_asq (v_bar v)" "u_acq (v_old_bar v) \<noteq> u_acq (v_bar v)"
  shows "\<exists>q. v_admin_q (settled_regs Q v) = Some q \<and> configured Q (v_bar v) q \<and>
    (\<forall>i \<in> {0, 1}. v_dbs (settled_regs Q v) i = 0 \<and> v_old_dbs (settled_regs Q v) i = 0)"
proof -
  define v3 where "v3 = handled u_acq (proc_acq Q True) (handled u_asq (proc_asq Q True) (handled u_aqa (proc_aqa True) v))"
  have "\<exists>q. v_admin_q v3 = Some q \<and> configured Q (v_bar v) q \<and> (\<forall>i \<in> {0, 1}. v_dbs v3 i = 0 \<and> v_old_dbs v3 i = 0)"
    using assms pages_cover [of 64 64 "asqs (u_aqa (v_bar v))"] pages_cover [of 256 16 "acqs (u_aqa (v_bar v))"]
    by (simp add: v3_def reg_defs configured_def queue_fits_def NR_SQE_PER_PAGE_def NR_CQE_PER_PAGE_def split: option.splits)
  then obtain q where q: "v_admin_q v3 = Some q" "configured Q (v_bar v) q" "\<forall>i \<in> {0, 1}. v_dbs v3 i = 0 \<and> v_old_dbs v3 i = 0" by blast
  have "settled_regs Q v = handled u_cc proc_cc v3" by (simp add: settled_regs_def v3_def)
  moreover obtain h where "v_admin_q (handled u_cc proc_cc v3) = Some (q\<lparr>aq_cq_head := h\<rparr>)" "h \<in> {0, aq_cq_head q}"
    using handled_cc(7) [OF q(1)] by blast
  moreover have "q\<lparr>aq_cq_head := h\<rparr> = q" using q(2) calculation(3) by (simp add: configured_def)
  ultimately show ?thesis using q handled_cc(8) [OF q(1)] by auto
qed

section \<open>The admin queue\<close>

interpretation aring: phase_ring aq_cq_head aq_phase aq_cq_depth aq_cq_mem aq_post
  by unfold_locales (auto simp: aq_post_def Let_def)

lemma aq_post_sq [simp]:
  "aq_sq_depth (aq_post e q) = aq_sq_depth q" "aq_sq_pages (aq_post e q) = aq_sq_pages q" "aq_sq_mem (aq_post e q) = aq_sq_mem q"
  "aq_cq_pages (aq_post e q) = aq_cq_pages q" "aq_cq_depth (aq_post e q) = aq_cq_depth q"
  by (simp_all add: aq_post_def Let_def)

lemma queue_fits_ring: "queue_fits q \<Longrightarrow> aring.ring_ok q"
  by (simp add: queue_fits_def aring.ring_ok_def)

lemma queue_fits_post: "queue_fits q \<Longrightarrow> queue_fits (aq_post e q)"
  using aring.ring_ok_post [of q e] by (auto simp: queue_fits_def aring.ring_ok_def)

lemma post_all_fits: "queue_fits q \<Longrightarrow> queue_fits (aring.post_all fs q)"
  by (induction fs arbitrary: q) (simp_all add: queue_fits_post)

lemma nat_div_less: "0 \<le> x \<Longrightarrow> x < d \<Longrightarrow> d \<le> int (k * p) \<Longrightarrow> 0 < k \<Longrightarrow> nat x div k < p"
  by (simp add: div_less_iff_less_mult nat_less_iff mult.commute)

lemma sq_entry_fits: "queue_fits q \<Longrightarrow> 0 \<le> eid \<Longrightarrow> eid < aq_sq_depth q \<Longrightarrow> sq_entry eid q = Some (aq_sq_mem q eid)"
  using nat_div_less [of eid "aq_sq_depth q" NR_SQE_PER_PAGE "aq_sq_pages q"]
  by (simp add: sq_entry_def queue_fits_def NR_SQE_PER_PAGE_def)

lemma make_cq_entry_results_posts:
  assumes "v_admin_q v = Some q" and "queue_fits q" and "sq_entry eid q = Some cmd"
  shows "make_cq_entry_results eid ret r0 r1 v = Some (v\<lparr>v_admin_q := Some (aq_post (cqe_of_admin eid cmd ret r0 r1 q) q)\<rparr>)"
  using assms nat_div_less [of "aq_cq_head q" "aq_cq_depth q" NR_CQE_PER_PAGE "aq_cq_pages q"]
  by (simp add: make_cq_entry_results_def queue_fits_def NR_CQE_PER_PAGE_def)

text \<open>Commands that stay within the arrays of the device, and the status they complete with.\<close>

definition admin_in_range :: "build \<Rightarrow> nvmev_ns list \<Rightarrow> nvme_command \<Rightarrow> bool" where
  "admin_in_range B nss cmd \<longleftrightarrow>
     (c_opcode cmd \<in> {0x00, 0x01, 0x04, 0x05} \<longrightarrow> q_qid cmd \<le> NR_MAX_IO_QUEUE) \<and>
     (c_opcode cmd = 0x02 \<longrightarrow> (log_lid cmd = NVME_LOG_SMART \<longrightarrow> log_len cmd \<le> 512) \<and> (log_lid cmd = NVME_LOG_CMD_EFFECTS \<longrightarrow> log_len cmd \<le> 4096)) \<and>
     (c_opcode cmd = 0x06 \<longrightarrow>
        (c_cdw10 cmd \<in> {0x00, 0x03, 0x05} \<longrightarrow> id_nsid cmd < length nss) \<and> (c_cdw10 cmd = 0x00 \<longrightarrow> b_lba_bits B \<in> {9, 12}) \<and>
        (c_cdw10 cmd = 0x05 \<and> ns_type (nss ! id_nsid cmd) = SSD_TYPE_ZNS \<longrightarrow> ns_csi (nss ! id_nsid cmd) = NVME_CSI_ZNS))"

definition admin_status :: "nvme_command \<Rightarrow> u16" where
  "admin_status cmd =
     (if c_opcode cmd \<in> {0x00, 0x01, 0x02, 0x04, 0x05, 0x09, 0x0a, 0x0c} \<or>
         c_opcode cmd = 0x06 \<and> c_cdw10 cmd \<in> {0x00, 0x01, 0x02, 0x03, 0x05, 0x06}
      then SC_SUCCESS else SC_INVALID_OPCODE)"

lemma length_le [simp]: "length (le16 w) = 2" "length (le32 d) = 4"
  by (simp_all add: le16_def le32_def)

lemma length_logs: "length smart_log = 512" "length (effects_log zns) = 4096"
  by (simp_all add: smart_log_def effects_log_def length_concat comp_def sum_list_triv)

text \<open>The command at \<open>eid\<close> was carried out: its completion is posted and nothing the loop relies on changed.\<close>

definition carried_out :: "int \<Rightarrow> nvme_command \<Rightarrow> nvmev_dev \<Rightarrow> nvmev_dev option \<Rightarrow> bool" where
  "carried_out eid cmd v r \<longleftrightarrow> (\<exists>v' q r0. r = Some v' \<and> v_admin_q v = Some q \<and>
     v_admin_q v' = Some (aq_post (cqe_of_admin eid cmd (admin_status cmd) r0 0 q) q) \<and>
     v_ns v' = v_ns v \<and> irqs (v_io v') = irqs (v_io v))"

lemma carried_out_make:
  assumes "v_admin_q v = Some q" "queue_fits q" "sq_entry eid q = Some cmd"
    and "v_admin_q w = Some q" "v_ns w = v_ns v" "irqs (v_io w) = irqs (v_io v)" "ret = admin_status cmd"
  shows "carried_out eid cmd v (make_cq_entry_results eid ret r0 0 w)"
  using assms by (simp add: carried_out_def make_cq_entry_results_posts) blast

lemmas admin_rules = make_cq_entry_def reset_db_def admin_status_def SC_SUCCESS_def SC_INVALID_OPCODE_def Let_def

lemma identify_carried_out:
  assumes q: "v_admin_q v = Some q" "queue_fits q" "sq_entry eid q = Some cmd"
    and rng: "admin_in_range B (v_ns v) cmd" and op: "c_opcode cmd = 0x06"
  shows "carried_out eid cmd v (nvmev_admin_identify B eid cmd v)"
proof -
  note mk = carried_out_make [OF q]
  have ns: "get_ns v cmd = Some (v_ns v ! id_nsid cmd)" if "c_cdw10 cmd \<in> {0x00, 0x03, 0x05}"
    using rng op that by (auto simp: admin_in_range_def get_ns_def)
  consider "c_cdw10 cmd = 0x00" | "c_cdw10 cmd = 0x01" | "c_cdw10 cmd = 0x02" | "c_cdw10 cmd = 0x03" | "c_cdw10 cmd = 0x05"
    | "c_cdw10 cmd = 0x06" | "c_cdw10 cmd \<notin> {0x00, 0x01, 0x02, 0x03, 0x05, 0x06}" by auto
  then show ?thesis
  proof cases
    case 1
    then have "b_lba_bits B \<in> {9, 12}" using rng op by (simp add: admin_in_range_def)
    with 1 show ?thesis using ns op q(1)
      by (auto simp: nvmev_admin_identify_def nvmev_admin_identify_namespace_def admin_rules intro!: mk)
  next
    case 4
    then show ?thesis using ns op q(1)
      by (auto simp: nvmev_admin_identify_def nvmev_admin_identify_namespace_desc_def admin_rules intro!: mk)
  next
    case 5
    then have "ns_type (v_ns v ! id_nsid cmd) = SSD_TYPE_ZNS \<longrightarrow> ns_csi (v_ns v ! id_nsid cmd) = NVME_CSI_ZNS"
      using rng op by (simp add: admin_in_range_def)
    with 5 show ?thesis using ns op q(1)
      by (auto simp: nvmev_admin_identify_def nvmev_admin_identify_zns_namespace_def admin_rules intro!: mk)
  qed (use op q(1) in \<open>auto simp: nvmev_admin_identify_def nvmev_admin_identify_ctrl_def nvmev_admin_identify_namespaces_def
      nvmev_admin_identify_zns_ctrl_def admin_rules intro!: mk\<close>)
qed

lemma log_page_carried_out:
  assumes q: "v_admin_q v = Some q" "queue_fits q" "sq_entry eid q = Some cmd"
    and rng: "admin_in_range B (v_ns v) cmd" and op: "c_opcode cmd = 0x02"
  shows "carried_out eid cmd v (nvmev_admin_get_log_page zns eid cmd v)"
proof -
  have "log_lid cmd = NVME_LOG_SMART \<Longrightarrow> unat (log_len cmd) \<le> length smart_log"
    "log_lid cmd = NVME_LOG_CMD_EFFECTS \<Longrightarrow> unat (log_len cmd) \<le> length (effects_log zns)"
    using rng op by (simp_all add: admin_in_range_def word_le_nat_alt length_logs)
  then show ?thesis using op q(1)
    by (auto simp: nvmev_admin_get_log_page_def admin_rules intro!: carried_out_make [OF q])
qed

lemma proc_admin_req_carried_out:
  assumes q: "v_admin_q v = Some q" "queue_fits q" "sq_entry eid q = Some cmd"
    and rng: "admin_in_range B (v_ns v) cmd" and live: "c_opcode cmd \<noteq> 0x08"
  shows "carried_out eid cmd v (nvmev_proc_admin_req B Q True eid v)"
proof -
  note mk = carried_out_make [OF q]
  consider "c_opcode cmd = 0x02" | "c_opcode cmd = 0x06" | "c_opcode cmd \<in> {0x00, 0x01, 0x04, 0x05}" | "c_opcode cmd \<in> {0x09, 0x0a, 0x0c}"
    | "c_opcode cmd \<notin> {0x00, 0x01, 0x02, 0x04, 0x05, 0x06, 0x08, 0x09, 0x0a, 0x0c}" using live by blast
  then show ?thesis
  proof cases
    case 1
    then show ?thesis using log_page_carried_out [OF q rng] q by (simp add: nvmev_proc_admin_req_def Let_def)
  next
    case 2
    then show ?thesis using identify_carried_out [OF q rng] q by (simp add: nvmev_proc_admin_req_def Let_def)
  next
    case 3
    then have "q_qid cmd \<le> NR_MAX_IO_QUEUE" using rng by (auto simp: admin_in_range_def)
    with 3 show ?thesis using q
      by (auto simp: nvmev_proc_admin_req_def nvmev_admin_delete_sq_def nvmev_admin_create_sq_def nvmev_admin_delete_cq_def
          nvmev_admin_create_cq_def admin_rules intro!: mk)
  next
    case 4
    then show ?thesis using q
      by (auto simp: nvmev_proc_admin_req_def nvmev_admin_set_features_def nvmev_admin_get_features_def nvmev_admin_async_event_def
          admin_rules intro!: mk)
  next
    case 5
    then show ?thesis using q by (auto simp: nvmev_proc_admin_req_def admin_rules intro!: mk)
  qed
qed

text \<open>The entries of a ring of depth \<open>d\<close> from \<open>cur\<close> on.\<close>

fun pending :: "int \<Rightarrow> int \<Rightarrow> nat \<Rightarrow> int list" where
  "pending d cur 0 = []"
| "pending d cur (Suc n) = cur # pending d (if cur + 1 = d then 0 else cur + 1) n"

definition live :: "nvmev_admin_queue \<Rightarrow> int list \<Rightarrow> int list" where
  "live q = filter (\<lambda>eid. c_opcode (aq_sq_mem q eid) \<noteq> 0x08)"

lemma pending_numeral [simp]:
  "pending d cur (numeral k) = cur # pending d (if cur + 1 = d then 0 else cur + 1) (pred_numeral k)"
  by (simp add: numeral_eq_Suc)

lemma length_pending [simp]: "length (pending d cur n) = n"
  by (induction n arbitrary: cur) auto

lemma pending_nth: "0 \<le> cur \<Longrightarrow> cur < d \<Longrightarrow> i < n \<Longrightarrow> pending d cur n ! i = (cur + int i) mod d"
proof (induction n arbitrary: cur i)
  case (Suc n)
  show ?case
  proof (cases i)
    case (Suc k)
    have "pending d (if cur + 1 = d then 0 else cur + 1) n ! k = ((if cur + 1 = d then 0 else cur + 1) + int k) mod d"
      using Suc.prems \<open>i = Suc k\<close> by (intro Suc.IH) auto
    also have "\<dots> = (cur + int i) mod d"
    proof (cases "cur + 1 = d")
      case True
      then have "cur + int i = d + int k" using \<open>i = Suc k\<close> by simp
      then show ?thesis using True by simp
    qed (simp add: \<open>i = Suc k\<close> algebra_simps)
    finally show ?thesis using \<open>i = Suc k\<close> by simp
  qed (use Suc.prems in simp)
qed simp

text \<open>The completion of entry \<open>eid\<close>, to be posted to the ring as it is then.\<close>

definition completion_of :: "nvmev_admin_queue \<Rightarrow> int \<Rightarrow> u32 \<Rightarrow> nvmev_admin_queue \<Rightarrow> nvme_completion" where
  "completion_of q eid r0 = cqe_of_admin eid (aq_sq_mem q eid) (admin_status (aq_sq_mem q eid)) r0 0"

lemma completion_of_post [simp]: "completion_of (aq_post e q) = completion_of q"
  by (simp add: completion_of_def fun_eq_iff)

lemma live_post [simp]: "live (aq_post e q) = live q"
  by (simp add: live_def)

lemma admin_loop_posts:
  assumes "v_admin_q v = Some q" "queue_fits q" "0 \<le> cur" "cur < aq_sq_depth q"
    and "\<forall>eid \<in> set (live q (pending (aq_sq_depth q) cur n)). admin_in_range B (v_ns v) (aq_sq_mem q eid)"
  shows "\<exists>v' rs. admin_loop B Q True cur n v = Some v' \<and> length rs = length (live q (pending (aq_sq_depth q) cur n)) \<and>
    v_admin_q v' = Some (aring.post_all (map2 (completion_of q) (live q (pending (aq_sq_depth q) cur n)) rs) q) \<and>
    irqs (v_io v') = irqs (v_io v)"
  using assms
proof (induction n arbitrary: v q cur)
  case 0
  then show ?case by (simp add: live_def)
next
  case (Suc n)
  let ?nxt = "if cur + 1 = aq_sq_depth q then 0 else cur + 1" and ?cmd = "aq_sq_mem q cur"
  have ent: "sq_entry cur q = Some ?cmd" using Suc.prems by (intro sq_entry_fits)
  have nxt: "0 \<le> ?nxt" "?nxt < aq_sq_depth q" using Suc.prems(3,4) by auto
  show ?case
  proof (cases "c_opcode ?cmd = 0x08")
    case True
    then have "nvmev_proc_admin_req B Q True cur v = Some v" using Suc.prems(1) ent by (simp add: nvmev_proc_admin_req_def Let_def)
    then show ?thesis
      using Suc.IH [OF Suc.prems(1,2) nxt] Suc.prems(1,5) True by (simp add: live_def)
  next
    case False
    then have lv: "live q (pending (aq_sq_depth q) cur (Suc n)) = cur # live q (pending (aq_sq_depth q) ?nxt n)" by (simp add: live_def)
    have "carried_out cur ?cmd v (nvmev_proc_admin_req B Q True cur v)"
      using Suc.prems(5) lv by (intro proc_admin_req_carried_out [OF Suc.prems(1,2) ent _ False]) auto
    then obtain v1 r0 where v1: "nvmev_proc_admin_req B Q True cur v = Some v1"
      "v_admin_q v1 = Some (aq_post (completion_of q cur r0 q) q)" "v_ns v1 = v_ns v" "irqs (v_io v1) = irqs (v_io v)"
      using Suc.prems(1) by (auto simp: carried_out_def completion_of_def)
    obtain v' rs where v': "admin_loop B Q True ?nxt n v1 = Some v'"
      "length rs = length (live q (pending (aq_sq_depth q) ?nxt n))"
      "v_admin_q v' = Some (aring.post_all (map2 (completion_of q) (live q (pending (aq_sq_depth q) ?nxt n)) rs) (aq_post (completion_of q cur r0 q) q))"
      "irqs (v_io v') = irqs (v_io v1)"
      using Suc.IH [OF v1(2) queue_fits_post [OF Suc.prems(2)], of ?nxt] nxt Suc.prems(5) lv v1(3) by auto
    then show ?thesis using v1 lv by (intro exI [of _ v'] exI [of _ "r0 # rs"]) simp
  qed
qed

section \<open>The number of queues\<close>

lemma set_features_queues:
  assumes "nvmev_admin_set_features eid cmd v = Some v'" "c_cdw10 cmd = NVME_FEAT_NUM_QUEUES"
  shows "1 \<le> v_nr_sq v' \<and> v_nr_sq v' \<le> NR_MAX_IO_QUEUE \<and> 1 \<le> nr_cq (v_io v') \<and> nr_cq (v_io v') \<le> NR_MAX_IO_QUEUE"
  using assms
  by (auto simp: nvmev_admin_set_features_def make_cq_entry_results_def NR_MAX_IO_QUEUE_def Let_def split: Option.bind_splits if_splits)

section \<open>Idle rounds\<close>

lemma each_skip: "(\<And>x. x \<in> set xs \<Longrightarrow> f x s = Some s) \<Longrightarrow> each f xs s = Some s"
  by (induction xs) auto

lemma idle_round:
  assumes "u_aqa (v_old_bar v) = u_aqa (v_bar v)" "u_asq (v_old_bar v) = u_asq (v_bar v)" "u_acq (v_old_bar v) = u_acq (v_bar v)"
    "u_cc (v_old_bar v) = u_cc (v_bar v)" and "v_old_dbs v = v_dbs v"
  shows "dispatcher_round B Q kmalloc_ok proc clk v = Some (False, v)"
proof -
  have "each (proc_sq_db proc (b_lba_bits B) clk) xs (False, v) = Some (False, v)" "each proc_cq_db xs (False, v) = Some (False, v)" for xs
    using assms(5) by (auto intro!: each_skip simp: proc_sq_db_def proc_cq_db_def Let_def)
  then show ?thesis using assms
    by (simp add: dispatcher_round_def nvmev_proc_bars_def nvmev_proc_dbs_def proc_admin_dbs_def Let_def)
qed

section \<open>Namespaces\<close>

text \<open>The namespaces lie one after the other within the storage.\<close>

lemma namespaces_within:
  "(t, sz, a) \<in> set (namespace_init cs rem addr) \<Longrightarrow> addr \<le> a \<and> a + unat sz \<le> addr + unat rem"
proof (induction cs rem addr rule: namespace_init.induct)
  case (2 t' cap cs rem addr)
  let ?sz = "if cap = 0 then rem else min cap rem"
  have "?sz \<le> rem" by (simp add: min_def)
  then have "unat (rem - ?sz) = unat rem - unat ?sz" "unat ?sz \<le> unat rem" by (simp_all add: unat_sub word_le_nat_alt)
  then show ?case using 2 by (fastforce simp: Let_def)
qed simp

lemma namespaces_disjoint: "sorted_wrt (\<lambda>(_, s, a) (_, _, b). a + unat s \<le> b) (namespace_init cs rem addr)"
  by (induction cs rem addr rule: namespace_init.induct) (auto simp: Let_def dest: namespaces_within)

section \<open>Configuration space\<close>

lemma unat_byte: "unat (ucast (drop_bit k w) :: u8) = unat (w :: u32) div 2 ^ k mod 256"
proof -
  have "unat (ucast (drop_bit k w) :: u8) = take_bit 8 (unat (drop_bit k w))" by (simp add: unsigned_ucast_eq)
  also have "unat (drop_bit k w) = unat w div 2 ^ k"
    using unsigned_less [of w, where 'a = nat]
    by (simp only: unsigned_drop_bit_eq) (simp add: drop_bit_eq_div take_bit_nat_eq_self)
  finally show ?thesis by (simp add: take_bit_eq_mod)
qed

lemma le32_bytes: "le32 w = map (\<lambda>k. ucast (drop_bit (8 * k) w)) [0..<4]"
  by (simp add: le32_def le16_def upt_rec) (intro conjI bit_word_eqI; auto simp: bit_simps)

lemma horner_sum_map: "horner_sum f a (map g xs) = horner_sum (\<lambda>x. f (g x)) a xs"
  by (induction xs) simp_all

lemma horner_bytes: "horner_sum (\<lambda>k. x div 256 ^ k mod 256) 256 [0..<n] = (x :: nat) mod 256 ^ n"
proof (induction n arbitrary: x)
  case (Suc n)
  have "[0..<Suc n] = 0 # map Suc [0..<n]" by (simp only: upt_conv_Cons zero_less_Suc map_Suc_upt)
  then show ?case using Suc [of "x div 256"] by (simp only: horner_sum_simps horner_sum_map) (simp add: div_mult2_eq mod_mult2_eq)
qed simp

lemma cfg_read_poke:
  assumes "n \<le> 4"
  shows "cfg_read a n (poke a (take n (le32 w)) m) = take_bit (8 * n) w"
proof -
  have bs: "take n (le32 w) = map (\<lambda>k. ucast (drop_bit (8 * k) w)) [0..<n]" using assms by (simp add: le32_bytes take_map)
  have "map (poke a (take n (le32 w)) m) [a..<a + n] = take n (le32 w)"
    unfolding poke_def bs using map_scatter [of "[a..<a + n]" "map (\<lambda>k. ucast (drop_bit (8 * k) w)) [0..<n]" m] by simp
  then have "cfg_read a n (poke a (take n (le32 w)) m) = of_nat (horner_sum unat 256 (take n (le32 w)))" by (simp only: cfg_read_def)
  also have "horner_sum unat 256 (take n (le32 w)) = unat w mod 256 ^ n"
    by (simp only: bs horner_sum_map unat_byte power_mult) (simp add: horner_bytes)
  also have "\<dots> = unat (take_bit (8 * n) w)" by (simp only: unsigned_take_bit_eq) (simp add: take_bit_eq_mod power_mult)
  finally show ?thesis by simp
qed

text \<open>What the host reads back: the bits of the mask as it wrote them, the others as they were.\<close>

lemma pci_write_read:
  assumes "n \<le> 4"
  shows "nvmev_pci_read 0 addr n (nvmev_pci_write addr n new p) = Some (take_bit (8 * n)
    ((cfg_read addr n (virtDev p) AND NOT (pci_mask addr)) OR (new AND pci_mask addr)))"
  using cfg_read_poke [OF assms] by (simp add: nvmev_pci_read_def nvmev_pci_write_def Let_def)

section \<open>Properties\<close>

text \<open>A device that was just created, and a host that sets up admin queues of 32 entries and submits four commands.\<close>

definition cmd0 :: "u8 \<Rightarrow> u16 \<Rightarrow> u32 \<Rightarrow> u32 \<Rightarrow> nvme_command" where
  "cmd0 op cid d10 d11 = \<lparr>c_opcode = op, c_flags = 0, c_command_id = cid, c_nsid = 0, c_cdw2 = 0, c_cdw3 = 0, c_metadata = 0,
     c_prp1 = 0x8000, c_prp2 = 0, c_cdw10 = d10, c_cdw11 = d11, c_cdw12 = 0, c_cdw13 = 0, c_cdw14 = 0, c_cdw15 = 0\<rparr>"

definition no_cqe :: nvme_completion where
  "no_cqe = \<lparr>e_result0 = 0, e_result1 = 0, e_sq_head = 0, e_sq_id = 0, e_command_id = 0, e_status = 0\<rparr>"

definition host0 :: host_queues where
  "host0 = \<lparr>hq_sq = (\<lambda>_ i. if i = 0 then cmd0 0x09 1 7 0x00030003 else if i = 1 then cmd0 0x05 2 0x003F0001 3
      else if i = 2 then cmd0 0x08 3 0 0 else cmd0 0x01 4 0x003F0001 0x00010001), hq_cq = (\<lambda>_ _. no_cqe)\<rparr>"

definition regs0 :: nvme_ctrl_regs where
  "regs0 = \<lparr>u_cc = 0, u_csts = 0, u_aqa = 0, u_asq = 0, u_acq = 0\<rparr>"

definition dev0 :: nvmev_dev where
  "dev0 = \<lparr>v_bar = \<lparr>u_cc = 1, u_csts = 0, u_aqa = 0x001F001F, u_asq = 0x1000, u_acq = 0x2000\<rparr>, v_old_bar = regs0,
     v_dbs = (\<lambda>_. 0), v_old_dbs = (\<lambda>_. 0), v_admin_q = None, v_nr_sq = 0,
     v_io = \<lparr>io_workers = [], nr_io_workers = 1, io_worker_turn = 0, sqes = (\<lambda>_. None), cqes = (\<lambda>_. None), nr_cq = 0,
       wbufs = (\<lambda>_. buffer_init 0), irqs = []\<rparr>, v_ns = [], v_mdts = 5, v_mem = (\<lambda>_. 0)\<rparr>"

definition queue0 :: nvmev_admin_queue where
  "queue0 = \<lparr>aq_phase = 1, aq_sq_depth = 32, aq_cq_depth = 32, aq_cq_head = 31, aq_sq_pages = 1, aq_cq_pages = 1,
     aq_sq_mem = hq_sq host0 0x1000, aq_cq_mem = hq_cq host0 0x2000\<rparr>"

text \<open>
  C26: The controller settles, provided that the admin queue exists or its attributes (\<^verbatim>\<open>aqa\<close>) are among the
  changed registers (without either a new base address is retried for ever, and a shutdown dereferences a null pointer).
  Then at most four passes of the dispatcher bring every register in step, whichever of them the host changed and whatever the
  order in which the changes are seen; afterwards a pass finds nothing to do. Only the status register is changed: after a
  change of the configuration register the ready bit equals the enable bit. When all of \<^verbatim>\<open>aqa\<close>, \<^verbatim>\<open>asq\<close> and \<^verbatim>\<open>acq\<close> were
  changed, the admin queue is the one that the registers describe, empty, in phase one, with memory for its depth, and its
  doorbells are zero. Queues and namespaces stay as they were.
\<close>

theorem controller_settles:
  assumes "v_admin_q v \<noteq> None \<or> u_aqa (v_old_bar v) \<noteq> u_aqa (v_bar v)"
  shows "\<exists>n v'. n \<le> 4 \<and> bars_run Q n v = Some v' \<and> nvmev_proc_bars Q True v' = Some (False, v') \<and>
    v_bar v' = (v_bar v)\<lparr>u_csts := u_csts (v_bar v')\<rparr> \<and>
    (u_cc (v_old_bar v) \<noteq> u_cc (v_bar v) \<longrightarrow> (bit (u_csts (v_bar v')) 0 \<longleftrightarrow> cc_en (u_cc (v_bar v)))) \<and>
    (u_aqa (v_old_bar v) \<noteq> u_aqa (v_bar v) \<and> u_asq (v_old_bar v) \<noteq> u_asq (v_bar v) \<and> u_acq (v_old_bar v) \<noteq> u_acq (v_bar v) \<longrightarrow>
       (\<exists>q. v_admin_q v' = Some q \<and> configured Q (v_bar v) q) \<and> (\<forall>i \<in> {0, 1}. v_dbs v' i = 0 \<and> v_old_dbs v' i = 0)) \<and>
    v_io v' = v_io v \<and> v_ns v' = v_ns v \<and> v_nr_sq v' = v_nr_sq v \<and> v_mem v' = v_mem v"
proof -
  obtain n where n: "n \<le> 4" "bars_run Q n v = Some (settled_regs Q v)" using bars_run_settled [OF assms] by blast
  define v3 where "v3 = handled u_acq (proc_acq Q True) (handled u_asq (proc_asq Q True) (handled u_aqa (proc_aqa True) v))"
  have s: "settled_regs Q v = handled u_cc proc_cc v3" by (simp add: settled_regs_def v3_def)
  have "v_bar v3 = v_bar v" "u_cc (v_old_bar v3) = u_cc (v_old_bar v)" "v_io v3 = v_io v" "v_ns v3 = v_ns v" "v_nr_sq v3 = v_nr_sq v" "v_mem v3 = v_mem v"
    by (simp_all add: v3_def)
  moreover obtain q3 where q3: "v_admin_q v3 = Some q3" using settled_stages(3) [OF assms, of Q] by (auto simp: v3_def)
  moreover note handled_cc(1-6) [OF q3, folded s] settled_idle [OF assms, of Q]
  moreover have "u_aqa (v_old_bar v) \<noteq> u_aqa (v_bar v) \<and> u_asq (v_old_bar v) \<noteq> u_asq (v_bar v) \<and> u_acq (v_old_bar v) \<noteq> u_acq (v_bar v) \<longrightarrow>
       (\<exists>q. v_admin_q (settled_regs Q v) = Some q \<and> configured Q (v_bar v) q) \<and> (\<forall>i \<in> {0, 1}. v_dbs (settled_regs Q v) i = 0 \<and> v_old_dbs (settled_regs Q v) i = 0)"
    using settled_queue [of v Q] by blast
  ultimately show ?thesis using n by (intro exI [of _ n] exI [of _ "settled_regs Q v"] conjI) simp_all
qed

theorem controller_settles_witness:
  "\<exists>n v' q. n \<le> 4 \<and> bars_run host0 n dev0 = Some v' \<and> bit (u_csts (v_bar v')) 0 \<and> v_admin_q v' = Some q \<and> aq_sq_depth q = 32"
proof -
  have "v_admin_q dev0 \<noteq> None \<or> u_aqa (v_old_bar dev0) \<noteq> u_aqa (v_bar dev0)" by (simp add: dev0_def regs0_def)
  from controller_settles [OF this, of host0] show ?thesis
    by (auto simp: dev0_def regs0_def cc_en_def configured_def asqs_def take_bit_eq_mod)
qed

text \<open>
  C27: Admin commands are completed once and in order. When the doorbell of a well-formed admin queue moves and the pending commands stay within
  the device's arrays, each of them but abort commands gets exactly one completion, in the order of submission, in
  consecutive slots from the head of the completion queue, with its identifier, its slot in the submission queue, the status of its opcode,
  and the phase of the lap the slot belongs to; other slots keep their contents, one interrupt is raised on
  vector 0, and the queue is well formed again.
\<close>

theorem admin_sq_completions:
  assumes q: "v_admin_q v = Some q" "queue_fits q" "0 \<le> old_db" "old_db < aq_sq_depth q" "0 \<le> new_db" "new_db < aq_sq_depth q"
    and es: "es = live q (pending (aq_sq_depth q) old_db (nat ((new_db - old_db) mod aq_sq_depth q)))"
    and rng: "\<forall>eid \<in> set es. admin_in_range B (v_ns v) (aq_sq_mem q eid)" and room: "int (length es) \<le> aq_cq_depth q"
  shows "\<exists>v' q'. nvmev_proc_admin_sq B Q True new_db old_db v = Some v' \<and> v_admin_q v' = Some q' \<and> queue_fits q' \<and>
    aq_cq_head q' = (aq_cq_head q + int (length es)) mod aq_cq_depth q \<and>
    (\<forall>j < length es. let cmd = aq_sq_mem q (es ! j); e = aq_cq_mem q' ((aq_cq_head q + int j) mod aq_cq_depth q) in
       e_command_id e = c_command_id cmd \<and> e_sq_head e = word_of_int (es ! j) \<and> e_sq_id e = 0 \<and>
       e_status e = word_of_int (if aq_cq_head q + int j < aq_cq_depth q then aq_phase q else 1 - aq_phase q) OR push_bit 1 (admin_status cmd)) \<and>
    (\<forall>k. (\<forall>j < length es. k \<noteq> (aq_cq_head q + int j) mod aq_cq_depth q) \<longrightarrow> aq_cq_mem q' k = aq_cq_mem q k) \<and>
    irqs (v_io v') = irqs (v_io v) @ [0]"
proof -
  let ?d = "aq_sq_depth q" and ?n = "nat ((new_db - old_db) mod aq_sq_depth q)"
  have num: "nat (if new_db - old_db < 0 then new_db - old_db + ?d else new_db - old_db) = ?n"
  proof (cases "new_db < old_db")
    case True
    have "(new_db - old_db) mod ?d = (new_db - old_db + ?d) mod ?d" by simp
    also have "\<dots> = new_db - old_db + ?d" using True q by (intro mod_pos_pos_trivial) auto
    finally show ?thesis using True by simp
  qed (use q in simp)
  obtain w rs where w: "admin_loop B Q True old_db ?n v = Some w" "length rs = length es"
    "v_admin_q w = Some (aring.post_all (map2 (completion_of q) es rs) q)" "irqs (v_io w) = irqs (v_io v)"
    using admin_loop_posts [OF q(1-4), of ?n B Q] rng unfolding es by auto
  define fs where "fs = map2 (completion_of q) es rs"
  note ok = queue_fits_ring [OF q(2)]
  have len: "length fs = length es" and room': "int (length fs) \<le> aq_cq_depth q" using w(2) room by (simp_all add: fs_def)
  have "nvmev_proc_admin_sq B Q True new_db old_db v = Some (w\<lparr>v_io := (v_io w)\<lparr>irqs := irqs (v_io w) @ [0]\<rparr>\<rparr>)"
    using q(1) w(1) num by (simp add: nvmev_proc_admin_sq_def Let_def)
  moreover have "queue_fits (aring.post_all fs q)" by (rule post_all_fits [OF q(2)])
  moreover have "aq_cq_head (aring.post_all fs q) = (aq_cq_head q + int (length es)) mod aq_cq_depth q"
    using aring.head_post_all [OF ok, of fs] len by simp
  moreover have "aq_cq_mem (aring.post_all fs q) ((aq_cq_head q + int j) mod aq_cq_depth q) =
      cqe_of_admin (es ! j) (aq_sq_mem q (es ! j)) (admin_status (aq_sq_mem q (es ! j))) (rs ! j) 0 (aring.post_all (take j fs) q) \<and>
      aq_phase (aring.post_all (take j fs) q) = (if aq_cq_head q + int j < aq_cq_depth q then aq_phase q else 1 - aq_phase q)"
    if "j < length es" for j
    using aring.slots_post_all [OF ok room', of j] aring.phase_post_all [OF ok, of "take j fs"] that len room w(2)
    by (simp add: fs_def completion_of_def)
  moreover have "aq_cq_mem (aring.post_all fs q) k = aq_cq_mem q k"
    if "\<forall>j < length es. k \<noteq> (aq_cq_head q + int j) mod aq_cq_depth q" for k
    using aring.slots_post_all_other [OF ok, of fs k] that len by simp
  ultimately show ?thesis using w(3,4) by (auto simp: fs_def cqe_of_admin_def Let_def)
qed

theorem admin_sq_completions_witness:
  "\<exists>v' q'. nvmev_proc_admin_sq \<lparr>b_lba_bits = 9, b_virt_id = 0, b_zns = False\<rparr> host0 True 4 0 (dev0\<lparr>v_admin_q := Some queue0\<rparr>) = Some v' \<and>
    v_admin_q v' = Some q' \<and> aq_cq_head q' = 2 \<and> e_command_id (aq_cq_mem q' 1) = 4 \<and> e_status (aq_cq_mem q' 31) = 1 \<and> e_status (aq_cq_mem q' 1) = 0"
proof -
  have es: "[0, 1, 3] = live queue0 (pending (aq_sq_depth queue0) 0 (nat ((4 - 0) mod aq_sq_depth queue0)))"
    by (simp add: queue0_def live_def host0_def cmd0_def)
  have "queue_fits queue0" by (simp add: queue_fits_def queue0_def NR_SQE_PER_PAGE_def NR_CQE_PER_PAGE_def)
  moreover have "\<forall>eid \<in> set [0, 1, 3]. admin_in_range \<lparr>b_lba_bits = 9, b_virt_id = 0, b_zns = False\<rparr> (v_ns (dev0\<lparr>v_admin_q := Some queue0\<rparr>)) (aq_sq_mem queue0 eid)"
    by (simp add: admin_in_range_def queue0_def host0_def cmd0_def q_qid_def NR_MAX_IO_QUEUE_def)
  ultimately obtain v' q' where
    "nvmev_proc_admin_sq \<lparr>b_lba_bits = 9, b_virt_id = 0, b_zns = False\<rparr> host0 True 4 0 (dev0\<lparr>v_admin_q := Some queue0\<rparr>) = Some v'"
    "v_admin_q v' = Some q'" "aq_cq_head q' = (aq_cq_head queue0 + int (length [0::int, 1, 3])) mod aq_cq_depth queue0"
    and slots: "\<forall>j < length [0::int, 1, 3]. let cmd = aq_sq_mem queue0 ([0, 1, 3] ! j); e = aq_cq_mem q' ((aq_cq_head queue0 + int j) mod aq_cq_depth queue0) in
       e_command_id e = c_command_id cmd \<and> e_sq_head e = word_of_int ([0, 1, 3] ! j) \<and> e_sq_id e = 0 \<and>
       e_status e = word_of_int (if aq_cq_head queue0 + int j < aq_cq_depth queue0 then aq_phase queue0 else 1 - aq_phase queue0) OR push_bit 1 (admin_status cmd)"
    using admin_sq_completions [OF _ _ _ _ _ _ es, of "dev0\<lparr>v_admin_q := Some queue0\<rparr>" "\<lparr>b_lba_bits = 9, b_virt_id = 0, b_zns = False\<rparr>" host0]
    by (auto simp: queue0_def)
  moreover have "e_status (aq_cq_mem q' 31) = 1" using slots [rule_format, of 0]
    by (simp add: queue0_def host0_def cmd0_def admin_status_def SC_SUCCESS_def Let_def)
  moreover have "e_command_id (aq_cq_mem q' 1) = 4 \<and> e_status (aq_cq_mem q' 1) = 0" using slots [rule_format, of 2]
    by (simp add: queue0_def host0_def cmd0_def admin_status_def SC_SUCCESS_def Let_def)
  ultimately show ?thesis by (simp add: queue0_def)
qed

end
