(* ===== verification/Spec2Isabelle.thy ===== *)
theory Spec2Isabelle
  imports ZNS_Writes Host_Layout Conv_Device Edge_Engine KV_Device Ctrl_Runs
begin

text \<open>
  A verification library for NVMeVirt, a Linux kernel module that emulates an NVMe SSD in memory, extended to
  a computational storage device (CSD): several emulated devices hold the edges of a graph, run graph kernels over
  blocks of edges, and share the vertex values with a host program through a host memory buffer (HMB).

  \<^bold>\<open>The program and its parts.\<close>
  A graph of \<open>V\<close> vertices is cut into \<open>P\<close> partitions, its edges into \<open>P \<times> P\<close> blocks, and each block is spread
  over the devices. The host program \<^verbatim>\<open>user/init_csd_edge.c\<close> sends a command per block; the dispatcher
  \<^verbatim>\<open>simple_ftl.c\<close> runs it at once (\<^verbatim>\<open>__do_perform_edge_proc_grafu\<close>) or puts it into a task queue
  (\<^verbatim>\<open>core/queue.c\<close>) from which the asynchronous engine \<^verbatim>\<open>__do_perform_edge_proc\<close> of \<^verbatim>\<open>io.c\<close> takes it. Both
  go through the two DRAM caches of the device (\<^verbatim>\<open>core/csd_edge_buffer.c\<close>, \<^verbatim>\<open>core/csd_vertex_buffer.c\<close>), run the
  kernel, and set a flag in the HMB; the host aggregates the partial results of all devices. Beside it there is
  the NVMe device itself: registers, admin queue and dispatcher (\<^verbatim>\<open>pci.c\<close>, \<^verbatim>\<open>admin.c\<close>, \<^verbatim>\<open>main.c\<close>), doorbells and I/O workers (\<^verbatim>\<open>io.c\<close>), the timing of flash and links (\<^verbatim>\<open>ssd.c\<close>,
  \<^verbatim>\<open>channel_model.c\<close>), and the namespaces: conventional (\<^verbatim>\<open>conv_ftl.c\<close> with \<^verbatim>\<open>pqueue/pqueue.c\<close>), zoned
  (\<^verbatim>\<open>zns_*.c\<close>), simple (\<^verbatim>\<open>simple_ftl.c\<close>) and key-value (\<^verbatim>\<open>kv_ftl.c\<close>).

  \<^bold>\<open>Theories, in the order of their imports.\<close>
  \<^item> \<open>NV_Prelude\<close>: integer widths, lists in place of intrusive lists, the interface \<open>sized_cache\<close> of the caches.
  \<^item> \<open>Task_Queue\<close> (\<^verbatim>\<open>core/queue.c\<close>, \<^verbatim>\<open>core/proc_edge_struct.h\<close>, \<^verbatim>\<open>find_next_future_task\<close>): first-in first-out order,
    the search for an executable task, and the unlocked emptiness test of \<^verbatim>\<open>queue_dequeue\<close>, which is harmless with one
    consumer under every interleaving and a race with two.
  \<^item> \<open>Vertex_Buffer\<close>, \<open>Edge_Buffer\<close> (\<^verbatim>\<open>core/csd_*_buffer.c\<close>): the caches stay well formed and, with partial eviction, within their capacity;
    what an access returns and counts; which blocks a prefetch protects and which it gives up. Without partial eviction (the
    default) a hit can leave the edge cache above its capacity; its byte counter still is the sum of its units.
  \<^item> \<open>Work_Queue\<close>, \<open>Nvme_Types\<close>, \<open>IO_Worker\<close> (\<^verbatim>\<open>io.c\<close>, \<^verbatim>\<open>nvme.h\<close>, \<^verbatim>\<open>nvmev.h\<close>, the write buffer of \<^verbatim>\<open>ssd.c\<close>): the index-linked work queue
    implements a list sorted by target time in every reachable device; a worker pass completes every due request once, in the
    slots and with the phase the host expects.
  \<^item> \<open>Channel_Model\<close>, \<open>SSD_Model\<close> (\<^verbatim>\<open>channel_model.c\<close>, \<^verbatim>\<open>ssd.c\<close>, \<^verbatim>\<open>ssd_config.h\<close>): a request returns, not before its
    time, and leaves the other dies alone.
  \<^item> \<open>ZNS_FTL\<close> (definitions), \<open>ZNS_Zones\<close>, \<open>ZNS_Writes\<close> (\<^verbatim>\<open>zns_*.c\<close>): the transition table of zones; resource counters
    equal the zones that hold them; write pointers; which writes succeed. Configurations without random write areas and flush groups, as shipped, are included;
    there an explicit flush of an unwritten zone 0 that was opened with an area divides by zero and is excluded.
  \<^item> \<open>Graph_Kernel\<close>, \<open>Simple_FTL\<close> (\<^verbatim>\<open>simple_ftl.c\<close>): the kernels compute what PageRank and label propagation ask for in
    exact arithmetic; the synchronous edge command returns, has run the kernel between the right arrays and set its flag. Shifts of an \<^verbatim>\<open>int\<close> take their
    count modulo its width, as the processor does.
  \<^item> \<open>PQueue\<close>, \<open>Conv_FTL\<close> (definitions), \<open>Conv_Inv\<close>, \<open>Conv_GC\<close>, \<open>Conv_Cmds\<close>, \<open>Conv_Device\<close> (\<^verbatim>\<open>pqueue/pqueue.c\<close>,
    \<^verbatim>\<open>conv_ftl.c\<close>): heap, mapping tables, garbage collection and write credits; a device started fresh never runs out of
    lines or fails an assertion, and implements a set of written pages.
  \<^item> \<open>Graph_Host\<close> (\<^verbatim>\<open>user/init_csd_edge.c\<close>): partitions, commands, aggregation, the two synchronous loops; in exact arithmetic the first computes the
    iterates of PageRank, and the second, which computes values of the next iteration ahead of time, returns the same (for PageRank; not for dispersion).
  \<^item> \<open>Edge_Proc\<close> (definitions), \<open>Edge_Sched\<close>, \<open>Edge_Engine\<close> (\<^verbatim>\<open>io.c\<close>): the asynchronous engine implements a scheduler over two lists
    of tasks (overlap modes 0 to 2, an undisturbed buffer, no task at the front that ends the iteration), whose blocks and follow-up tasks are
    specified independently of the engine; a pass returns whatever the host does to the buffer, in every cache configuration; a future task
    starts only when its source partition is aggregated, provided the normal queue is empty at the end of an iteration.
  \<^item> \<open>Data_Path\<close> (\<^verbatim>\<open>io.c\<close>, \<^verbatim>\<open>dma.c\<close>): the copy between host pages and storage along the PRP entries of a command; what
    is written is read back, byte by byte at the addresses that the layout of PRP entries gives (\<open>prp_addr\<close>, stated without the loop), and
    merging adjacent pages into DMA transfers makes no difference on the first namespace.
  \<^item> \<open>Host_Layout\<close> (\<^verbatim>\<open>init_csds_data\<close> of \<^verbatim>\<open>user/init_csd_edge.c\<close>, \<^verbatim>\<open>nvme_submit_io\<close> of \<^verbatim>\<open>kernel_ioctl/ioctl.c\<close>): the files of a graph are
    written through driver and data path; the devices give every file back, and set-up followed by the
    synchronous loop computes the PageRank iterates over the edges of the files, in exact arithmetic and for portions below 2 GiB.
  \<^item> \<open>KV_FTL\<close> (definitions), \<open>KV_Table\<close>, \<open>KV_Store\<close>, \<open>KV_Device\<close> (\<^verbatim>\<open>kv_ftl.c\<close>, \<^verbatim>\<open>append_only.c\<close>, \<^verbatim>\<open>bitmap.c\<close>): the chained hash table
    stays well formed and the pairs that table and storage hold (\<open>kv_pairs\<close>) are the graph of the map of the values stored last, in the runs \<open>kv_reach\<close>: stores that
    fit, of keys of one length, and iterator commands from a fresh namespace. Outside of them this is false: deletion breaks chains, and batches, updates of another
    length and keys of mixed lengths return other bytes.
  \<^item> \<open>Controller\<close> (definitions), \<open>Ctrl_Runs\<close> (\<^verbatim>\<open>pci.c\<close>, \<^verbatim>\<open>admin.c\<close>, \<^verbatim>\<open>main.c\<close>): the controller settles after a change of its registers once the admin queue exists or is among the changes, and after a change of all three
    queue registers has the admin queue they describe; admin commands are completed once, in order and with the right phase; namespaces lie within
    the storage without overlap; an idle round of the dispatcher changes nothing.

  \<^bold>\<open>Conventions.\<close>
  A \<^verbatim>\<open>struct\<close> is a record, an enumeration a datatype, an array of records a function or a list; a pointer into an array is an
  index, an intrusive list the list of its nodes. Integers are words where the code depends on their width, otherwise natural numbers or
  integers with the conversions written out; times in the flash and channel models are natural numbers, without the wrap-around of 64 bits; the branch of
  \<^verbatim>\<open>ssd_advance_nand\<close> for unknown flash commands has no constructor; \<^verbatim>\<open>float\<close> results are rationals under a rounding function that is an
  argument. Everything that is not computed by the code is an argument: the results of \<^verbatim>\<open>kmalloc\<close>, clock
  readings, the stop flag of kernel threads, what the host does to the shared buffer (streams in \<open>csd_env\<close> and
  \<open>edge_env\<close>, indexed by the number of observations so far), and the \<^verbatim>\<open>ioctl\<close> of the host (interface \<open>csd_transport\<close>, which the
  device model satisfies). No fuel is used: loops that the code bounds are total functions, loops that may run forever
  (over links, on a clock, on a flag) are partial functions into \<open>option\<close>, where \<open>None\<close> is a run that does not return, an assertion that
  fails or an access out of range; the theorems then show \<open>Some\<close>, from hypotheses on the clocks
  (they advance) or from an invariant of the reachable states.

  \<^bold>\<open>Interfaces.\<close> \<open>sized_cache\<close> (both caches), \<open>pq_client\<close> (the victim queue of the conventional layer), \<open>csd_transport\<close>
  (the device behind the host loops), \<open>page_store\<close> (the device behind the set-up of the graph), \<open>fifo_queue\<close> (the task queue), \<open>phase_ring\<close> (the completion
  rings of the workers and of the admin queue) and \<open>kv_allocator\<close> (the append-only and the bitmap allocator). Each is interpreted on the model's own definitions.

  \<^bold>\<open>Not modelled.\<close>
  \<^item> \<^verbatim>\<open>kernel_ioctl/core.c\<close>, \<^verbatim>\<open>kernel_ioctl/nvme.h\<close>, \<^verbatim>\<open>kernel_ioctl/blk_types.h\<close>: copies of Linux files with an added opcode; of
    \<^verbatim>\<open>ioctl.c\<close> the submission of a request is modelled, the other ioctls and the block layer are not.
  \<^item> Module set-up in \<^verbatim>\<open>main.c\<close> and \<^verbatim>\<open>pci.c\<close>, the delivery of interrupts, the rest of \<^verbatim>\<open>dma.c\<close>, \<^verbatim>\<open>hmb/hmb.c\<close>, \<^verbatim>\<open>user/hmb_mmap.c\<close>: calls of
    kernel interfaces (threads, buses, memory mappings); the models start from the state they set up.
  \<^item> The asynchronous dual-queue loop of the host, its experiment drivers and the busy-wait for the aggregation latency
    (threads that communicate through flags in the shared buffer); the engine they drive is modelled against any behaviour of the buffer.
  \<^item> Commands that flush the caches while the asynchronous engine runs; the copy of a zone report to host
    pages; release of memory; disabled and debugging code; \<^verbatim>\<open>core/fixed_point.c\<close>, which nothing uses; \<^verbatim>\<open>user/trash\<close>.
\<close>

end
